(* ===== verification/Prelude.thy ===== *)
theory Prelude
  imports Main "HOL-Library.Monad_Syntax" "HOL-Library.Word"
begin

section \<open>Prelude: failure, checked integers, loops\<close>

text \<open>
  What every component of the development shares.

  A C++ operation that can trip an \<open>assert\<close>, a \<open>GGML_ASSERT\<close>, throw, or run into
  undefined behaviour (an index past the end of a vector, a signed overflow) is a function
  into \<open>'a option\<close>: \<open>None\<close> is that failure, \<open>Some\<close> is a normal return. Loops over
  an index range are \<open>for_opt\<close> (the body may fail) or \<open>fold\<close> (it cannot).
\<close>

named_theorems failure_simps "rewriting of the failure monad"

subsection \<open>Machine types\<close>

type_synonym llama_pos = int
type_synonym llama_seq_id = int
type_synonym llama_token = int

text \<open>A float is only ever copied by the modelled code: it is its bit pattern.\<close>
type_synonym f32 = "32 word"

definition LLAMA_MAX_SEQ :: nat where
  "LLAMA_MAX_SEQ = 256"

definition LLAMA_TOKEN_NULL :: llama_token where
  "LLAMA_TOKEN_NULL = -1"

definition INT32_MAX :: int where
  "INT32_MAX = 2147483647"

definition INT32_MIN :: int where
  "INT32_MIN = -2147483648"

text \<open>Signed 32-bit arithmetic: an overflow is undefined behaviour, hence \<open>None\<close>.\<close>

definition i32 :: "int \<Rightarrow> int option" where
  "i32 x = (if INT32_MIN \<le> x \<and> x \<le> INT32_MAX then Some x else None)"

lemma i32_Some [simp]: "i32 x = Some y \<longleftrightarrow> y = x \<and> INT32_MIN \<le> x \<and> x \<le> INT32_MAX"
  by (auto simp: i32_def)

lemma i32_ok [simp]: "INT32_MIN \<le> x \<Longrightarrow> x \<le> INT32_MAX \<Longrightarrow> i32 x = Some x"
  by simp

text \<open>C division truncates towards zero; division by zero and \<open>INT_MIN / -1\<close> are undefined behaviour.\<close>

definition c_div :: "int \<Rightarrow> int \<Rightarrow> int option" where
  "c_div a b = (if b = 0 \<or> (a = INT32_MIN \<and> b = -1) then None else Some (sgn a * sgn b * (\<bar>a\<bar> div \<bar>b\<bar>)))"

lemma c_div_nonneg: "0 \<le> a \<Longrightarrow> 0 < b \<Longrightarrow> c_div a b = Some (a div b)"
  by (cases "a = 0") (auto simp: c_div_def INT32_MIN_def)

subsection \<open>Assertions\<close>

definition check :: "bool \<Rightarrow> unit option" where
  "check b = (if b then Some () else None)"

lemma check_bind_Some [failure_simps]:
  "(check b \<bind> f) = Some x \<longleftrightarrow> b \<and> f () = Some x"
  by (simp add: check_def)

lemma check_True [simp]: "(check True \<bind> f) = f ()"
  by (simp add: check_def)

lemma check_False [simp]: "(check False \<bind> f) = None"
  by (simp add: check_def)

lemma check_ok [simp]: "b \<Longrightarrow> (check b \<bind> f) = f ()"
  by (simp add: check_def)

declare Option.bind_eq_Some_conv [failure_simps]

lemma check_Some [simp]: "check b = Some x \<longleftrightarrow> b"
  by (simp add: check_def)

text \<open>Reading a vector element: past the end is undefined behaviour.\<close>

definition nth_opt :: "'a list \<Rightarrow> nat \<Rightarrow> 'a option" where
  "nth_opt xs i = (if i < length xs then Some (xs ! i) else None)"

lemma nth_opt_ok [simp]: "i < length xs \<Longrightarrow> nth_opt xs i = Some (xs ! i)"
  by (simp add: nth_opt_def)

lemma nth_opt_Some [failure_simps]: "nth_opt xs i = Some y \<longleftrightarrow> i < length xs \<and> y = xs ! i"
  by (auto simp: nth_opt_def)

text \<open>An index given by a signed integer: negative is past the end too.\<close>

definition put_opt :: "'a list \<Rightarrow> nat \<Rightarrow> 'a \<Rightarrow> 'a list option" where
  "put_opt xs i x = (if i < length xs then Some (xs[i := x]) else None)"

lemma put_opt_ok [simp]: "i < length xs \<Longrightarrow> put_opt xs i x = Some (xs[i := x])"
  by (simp add: put_opt_def)

lemma put_opt_Some [failure_simps]: "put_opt xs i x = Some ys \<longleftrightarrow> i < length xs \<and> ys = xs[i := x]"
  by (auto simp: put_opt_def)

definition inth_opt :: "'a list \<Rightarrow> int \<Rightarrow> 'a option" where
  "inth_opt xs i = (if 0 \<le> i then nth_opt xs (nat i) else None)"

lemma inth_opt_ok [simp]: "0 \<le> i \<Longrightarrow> i < int (length xs) \<Longrightarrow> inth_opt xs i = Some (xs ! nat i)"
  by (simp add: inth_opt_def nat_less_iff)

lemma inth_opt_Some [failure_simps]:
  "inth_opt xs i = Some y \<longleftrightarrow> 0 \<le> i \<and> i < int (length xs) \<and> y = xs ! nat i"
  by (auto simp: inth_opt_def nth_opt_def nat_less_iff)

subsection \<open>Loops\<close>

text \<open>\<open>for_opt f is s\<close> runs the loop body \<open>f\<close> for every index of \<open>is\<close> in order.\<close>

fun for_opt :: "('i \<Rightarrow> 's \<Rightarrow> 's option) \<Rightarrow> 'i list \<Rightarrow> 's \<Rightarrow> 's option" where
  "for_opt f [] s = Some s"
| "for_opt f (i # is) s = (f i s \<bind> for_opt f is)"

lemma for_opt_append: "for_opt f (xs @ ys) s = (for_opt f xs s \<bind> for_opt f ys)"
  by (induction xs arbitrary: s) (auto split: bind_splits)

lemma for_opt_cong [fundef_cong]:
  assumes "is = js" "s = t" "\<And>i u. i \<in> set js \<Longrightarrow> f i u = g i u"
  shows "for_opt f is s = for_opt g js t"
  using assms(3) unfolding assms(1,2) by (induction js arbitrary: t) (auto split: bind_splits)

text \<open>Total correctness of a loop: the body succeeds from every state of the invariant.\<close>

lemma for_opt_total:
  assumes "P s" and "\<And>i s. i \<in> set is \<Longrightarrow> P s \<Longrightarrow> \<exists>s'. f i s = Some s' \<and> P s'"
  shows "\<exists>s'. for_opt f is s = Some s' \<and> P s'"
  using assms
proof (induction "is" arbitrary: s)
  case Nil
  then show ?case by simp
next
  case (Cons i "is")
  obtain s1 where s1: "f i s = Some s1" "P s1"
    using Cons.prems by fastforce
  have "\<exists>s'. for_opt f is s1 = Some s' \<and> P s'"
    by (rule Cons.IH) (use s1 Cons.prems(2) in auto)
  with s1 show ?case by simp
qed

text \<open>Partial correctness: what holds of every successful body holds of a successful loop.\<close>

lemma for_opt_inv:
  assumes "for_opt f is s = Some s'" and "P s"
    and "\<And>i s s'. i \<in> set is \<Longrightarrow> P s \<Longrightarrow> f i s = Some s' \<Longrightarrow> P s'"
  shows "P s'"
  using assms
proof (induction "is" arbitrary: s)
  case Nil
  then show ?case by simp
next
  case (Cons i "is")
  from Cons.prems(1) obtain s1 where s1: "f i s = Some s1" "for_opt f is s1 = Some s'"
    by (auto simp: failure_simps)
  show ?case
    by (rule Cons.IH [OF s1(2)]) (use Cons.prems s1(1) in auto)
qed

text \<open>A loop whose body is a refinement of an abstract step: the states stay related.\<close>

lemma for_opt_refine:
  assumes "s = r a" and "I a"
    and "\<And>i a. i \<in> set is \<Longrightarrow> I a \<Longrightarrow> f i (r a) = Some (r (g i a)) \<and> I (g i a)"
  shows "for_opt f is s = Some (r (fold g is a)) \<and> I (fold g is a)"
  using assms(2,3) unfolding assms(1)
proof (induction "is" arbitrary: a)
  case Nil
  then show ?case by simp
next
  case (Cons i "is")
  have step: "f i (r a) = Some (r (g i a))" "I (g i a)"
    using Cons.prems by auto
  have "for_opt f is (r (g i a)) = Some (r (fold g is (g i a))) \<and> I (fold g is (g i a))"
    by (rule Cons.IH) (use step Cons.prems(2) in auto)
  with step show ?case by simp
qed

text \<open>A loop over \<open>[0..<n]\<close> with an invariant that knows the index.\<close>

lemma for_opt_upt_total:
  assumes "P 0 s" and "\<And>k s. k < n \<Longrightarrow> P k s \<Longrightarrow> \<exists>s'. f k s = Some s' \<and> P (Suc k) s'"
  shows "\<exists>s'. for_opt f [0..<n] s = Some s' \<and> P n s'"
  using assms(2)
proof (induction n)
  case 0
  then show ?case using assms(1) by simp
next
  case (Suc n)
  then obtain s1 where "for_opt f [0..<n] s = Some s1" "P n s1"
    by fastforce
  with Suc.prems [of n s1] show ?case
    by (auto simp: for_opt_append)
qed

lemma for_opt_upt_inv:
  assumes "for_opt f [0..<n] s = Some s'" and "P 0 s"
    and "\<And>k s s'. k < n \<Longrightarrow> P k s \<Longrightarrow> f k s = Some s' \<Longrightarrow> P (Suc k) s'"
  shows "P n s'"
  using assms
proof (induction n arbitrary: s')
  case 0
  then show ?case by simp
next
  case (Suc n)
  from Suc.prems(1) obtain s1 where s1: "for_opt f [0..<n] s = Some s1" "f n s1 = Some s'"
    by (auto simp: for_opt_append failure_simps)
  have "P n s1"
    by (rule Suc.IH [OF s1(1)]) (use Suc.prems in auto)
  then show ?case using Suc.prems(3) s1(2) by blast
qed

text \<open>Nested loops are one loop over the pairs.\<close>

lemma for_opt_nested:
  "for_opt (\<lambda>i. for_opt (g i) (xs i)) is s
    = for_opt (\<lambda>(i, x). g i x) (concat (map (\<lambda>i. map (Pair i) (xs i)) is)) s"
proof (induction "is" arbitrary: s)
  case Nil
  then show ?case by simp
next
  case (Cons i "is")
  have map_pair: "for_opt (\<lambda>(i, x). g i x) (map (Pair i) ys) s = for_opt (g i) ys s" for ys s
    by (induction ys arbitrary: s) (auto split: bind_splits)
  show ?case
    using Cons.IH by (auto simp: for_opt_append map_pair split: bind_splits)
qed

text \<open>
  A loop whose \<open>k\<close>-th iteration rewrites element \<open>k\<close> of a list and nothing else is a map.
\<close>

lemma fold_upt_pointwise:
  assumes "\<And>k xs. k < length xs \<Longrightarrow> g k xs = xs[k := f k (xs ! k)]"
  shows "n \<le> length xs \<Longrightarrow>
    fold g [0..<n] xs = map (\<lambda>k. if k < n then f k (xs ! k) else xs ! k) [0..<length xs]"
proof (induction n)
  case 0
  then show ?case by (simp add: map_nth)
next
  case (Suc n)
  let ?ys = "map (\<lambda>k. if k < n then f k (xs ! k) else xs ! k) [0..<length xs]"
  have "fold g [0..<Suc n] xs = g n ?ys"
    using Suc by simp
  also have "\<dots> = ?ys[n := f n (?ys ! n)]"
    by (rule assms) (use Suc.prems in simp)
  also have "\<dots> = map (\<lambda>k. if k < Suc n then f k (xs ! k) else xs ! k) [0..<length xs]"
    by (rule nth_equalityI) (use Suc.prems in \<open>auto simp: nth_list_update\<close>)
  finally show ?case .
qed

lemma fold_upt_map:
  assumes "\<And>k xs. k < length xs \<Longrightarrow> g k xs = xs[k := f (xs ! k)]"
  shows "fold g [0..<length xs] xs = map f xs"
proof -
  have "fold g [0..<length xs] xs
      = map (\<lambda>k. if k < length xs then f (xs ! k) else xs ! k) [0..<length xs]"
    by (rule fold_upt_pointwise [where f = "\<lambda>_. f"]) (auto simp: assms)
  also have "\<dots> = map f xs"
    by (rule nth_equalityI) auto
  finally show ?thesis .
qed

text \<open>
  A loop whose body may leave the function early with \<open>return false\<close>: the state is returned
  together with whether the loop ran to its end.
\<close>

fun for_ret :: "('i \<Rightarrow> 's \<Rightarrow> (bool \<times> 's) option) \<Rightarrow> 'i list \<Rightarrow> 's \<Rightarrow> (bool \<times> 's) option" where
  "for_ret f [] s = Some (True, s)"
| "for_ret f (i # is) s = do {
     (ok, s) \<leftarrow> f i s;
     if ok then for_ret f is s else Some (False, s) }"

text \<open>\<open>if (!f(s)) return false; g(s)\<close>.\<close>

definition and_then ::
  "(bool \<times> 's) option \<Rightarrow> ('s \<Rightarrow> (bool \<times> 's) option) \<Rightarrow> (bool \<times> 's) option" where
  "and_then m g = do { (ok, s) \<leftarrow> m; if ok then g s else Some (False, s) }"

lemma and_then_True [failure_simps]:
  "and_then m g = Some (True, s) \<longleftrightarrow> (\<exists>t. m = Some (True, t) \<and> g t = Some (True, s))"
  by (cases m) (auto simp: and_then_def split: if_splits)

lemma for_ret_append:
  "for_ret f (xs @ ys) s = and_then (for_ret f xs s) (for_ret f ys)"
  by (induction xs arbitrary: s) (auto simp: and_then_def split: bind_splits)

lemma for_ret_inv:
  assumes "for_ret f is s = Some (True, s')" and "P s"
    and "\<And>i s s'. i \<in> set is \<Longrightarrow> P s \<Longrightarrow> f i s = Some (True, s') \<Longrightarrow> P s'"
  shows "P s'"
  using assms
proof (induction "is" arbitrary: s)
  case Nil
  then show ?case by simp
next
  case (Cons i "is")
  from Cons.prems(1) obtain s1 where s1: "f i s = Some (True, s1)" "for_ret f is s1 = Some (True, s')"
    by (auto simp: failure_simps split: if_splits)
  show ?case
    by (rule Cons.IH [OF s1(2)]) (use Cons.prems s1(1) in auto)
qed

text \<open>A loop that only checks: it passes iff every iteration does.\<close>

lemma for_ret_guard:
  "for_ret (\<lambda>i s. Some (p i s, s)) is s = Some (\<forall>i \<in> set is. p i s, s)"
  by (induction "is") auto

lemma for_ret_guard2:
  "for_ret (\<lambda>i. for_ret (\<lambda>x s. Some (p i x s, s)) (xs i)) is s
    = Some (\<forall>i \<in> set is. \<forall>x \<in> set (xs i). p i x s, s)"
  by (induction "is") (auto simp: for_ret_guard)

text \<open>A loop whose body does not change the state, and that ran to its end.\<close>

lemma for_ret_pure_True:
  assumes "for_ret f is s = Some (True, s')"
    and "\<And>i s s' ok. f i s = Some (ok, s') \<Longrightarrow> s' = s"
  shows "s' = s \<and> (\<forall>i \<in> set is. f i s = Some (True, s))"
  using assms(1)
proof (induction "is")
  case Nil
  then show ?case by simp
next
  case (Cons i "is")
  then obtain s1 where s1: "f i s = Some (True, s1)" "for_ret f is s1 = Some (True, s')"
    by (auto simp: failure_simps split: if_splits)
  then show ?case
    using Cons.IH assms(2) [OF s1(1)] by simp
qed

lemma for_ret_pure_intro: "\<forall>i \<in> set is. f i s = Some (True, s) \<Longrightarrow> for_ret f is s = Some (True, s)"
  by (induction "is") auto

text \<open>A loop none of whose iterations leaves early.\<close>

lemma for_ret_total:
  assumes "P s" and "\<And>i s. i \<in> set is \<Longrightarrow> P s \<Longrightarrow> \<exists>s'. f i s = Some (True, s') \<and> P s'"
  shows "\<exists>s'. for_ret f is s = Some (True, s') \<and> P s'"
  using assms
proof (induction "is" arbitrary: s)
  case Nil
  then show ?case by simp
next
  case (Cons i "is")
  obtain s1 where s1: "f i s = Some (True, s1)" "P s1"
    using Cons.prems by fastforce
  have "\<exists>s'. for_ret f is s1 = Some (True, s') \<and> P s'"
    by (rule Cons.IH) (use s1 Cons.prems(2) in auto)
  with s1 show ?case by simp
qed

text \<open>Nested loops are one loop over the pairs.\<close>

lemma for_ret_nested:
  "for_ret (\<lambda>i. for_ret (g i) (xs i)) is s
    = for_ret (\<lambda>(i, x). g i x) (concat (map (\<lambda>i. map (Pair i) (xs i)) is)) s"
proof (induction "is" arbitrary: s)
  case Nil
  then show ?case by simp
next
  case (Cons i "is")
  have map_pair: "for_ret (\<lambda>(i, x). g i x) (map (Pair i) ys) s = for_ret (g i) ys s" for ys s
    by (induction ys arbitrary: s) (auto split: bind_splits)
  show ?case
    using Cons.IH by (auto simp: for_ret_append map_pair and_then_def split: bind_splits)
qed

lemma sorted_wrt_concat_upt:
  "sorted_wrt R (concat (map f [0..<n])) \<longleftrightarrow> (\<forall>j < n. sorted_wrt R (f j))
     \<and> (\<forall>j < n. \<forall>i < j. \<forall>x \<in> set (f i). \<forall>y \<in> set (f j). R x y)"
  by (induction n) (auto simp: sorted_wrt_append less_Suc_eq)

text \<open>The same loop with its prefixes visible to the invariant.\<close>

lemma for_ret_prefix_inv:
  assumes "for_ret f is s = Some (True, s')" and "P [] s"
    and "\<And>xs i s s'. \<exists>zs. is = xs @ i # zs \<Longrightarrow> P xs s \<Longrightarrow> f i s = Some (True, s') \<Longrightarrow> P (xs @ [i]) s'"
  shows "P is s'"
  using assms
proof (induction "is" arbitrary: s' rule: rev_induct)
  case Nil
  then show ?case by simp
next
  case (snoc i xs)
  from snoc.prems(1) obtain s1 where s1: "for_ret f xs s = Some (True, s1)" "f i s1 = Some (True, s')"
    by (auto simp: for_ret_append failure_simps split: if_splits)
  have "P xs s1"
    by (rule snoc.IH [OF s1(1) snoc.prems(2)]) (use snoc.prems(3) in fastforce)
  then show ?case
    using snoc.prems(3) s1(2) by blast
qed

subsection \<open>Vectors\<close>

text \<open>\<open>std::vector::resize\<close>, with the value new elements get.\<close>

definition vresize :: "'a \<Rightarrow> nat \<Rightarrow> 'a list \<Rightarrow> 'a list" where
  "vresize d n xs = take n xs @ replicate (n - length xs) d"

lemma length_vresize [simp]: "length (vresize d n xs) = n"
  by (simp add: vresize_def)

lemma vresize_same [simp]: "length xs = n \<Longrightarrow> vresize d n xs = xs"
  by (simp add: vresize_def)

lemma vresize_Nil [simp]: "vresize d n [] = replicate n d"
  by (simp add: vresize_def)

lemma nth_upd: "xs[i := x] ! j = (if i = j \<and> j < length xs then x else xs ! j)"
  by (cases "i < length xs") (auto simp: nth_list_update list_update_beyond)

lemma length_filter_full: "length (filter P xs) = length xs \<longleftrightarrow> (\<forall>x \<in> set xs. P x)"
  using length_filter_less [of _ xs P] by (metis filter_id_conv less_irrefl)

text \<open>A matrix stored row after row.\<close>

lemma length_concat_rows: "\<forall>r \<in> set rows. length r = n \<Longrightarrow> length (concat rows) = length rows * n"
  by (induction rows) auto

lemma take_drop_concat_rows:
  "\<forall>r \<in> set rows. length r = n \<Longrightarrow> i < length rows \<Longrightarrow> take n (drop (i * n) (concat rows)) = rows ! i"
proof (induction rows arbitrary: i)
  case Nil
  then show ?case by simp
next
  case (Cons r rows)
  then show ?case by (cases i) auto
qed

lemma nth_concat_rows:
  "\<forall>r \<in> set rows. length r = n \<Longrightarrow> j < length rows \<Longrightarrow> i < n \<Longrightarrow> concat rows ! (j * n + i) = rows ! j ! i"
proof -
  assume a: "\<forall>r \<in> set rows. length r = n" "j < length rows" "i < n"
  then have "length (concat rows) = length rows * n" by (simp add: length_concat_rows)
  moreover have "j * n + i < length rows * n"
  proof -
    have "Suc j * n \<le> length rows * n" using a(2) by (intro mult_le_mono1) simp
    then show ?thesis using a(3) by simp
  qed
  ultimately have "concat rows ! (j * n + i) = take n (drop (j * n) (concat rows)) ! i"
    using a(3) by (simp only: nth_take nth_drop)
  then show ?thesis using take_drop_concat_rows [OF a(1,2)] by simp
qed

subsection \<open>Finite sets ordered as \<open>std::set\<close>\<close>

text \<open>\<open>*s.begin()\<close> and \<open>*s.rbegin()\<close> of a non-empty \<open>std::set\<close> are its minimum and maximum.\<close>

lemma Min_eqI2: "finite A \<Longrightarrow> x \<in> A \<Longrightarrow> (\<And>y. y \<in> A \<Longrightarrow> x \<le> y) \<Longrightarrow> Min A = (x :: 'a :: linorder)"
  by (rule Min_eqI) auto

end
