(* ===== verification/KvCells.thy ===== *)
theory KvCells
  imports Prelude "HOL-Library.Product_Lexorder"
begin

section \<open>KV cells: the metadata of one stream of the KV cache\<close>

text \<open>
  Model of \<open>llama_kv_cells\<close> (\<open>src/llama-kv-cells.h\<close>). The record has the fields of the
  class: the vectors \<open>pos\<close>, \<open>ext\<close>, \<open>shift\<close>, \<open>seq\<close> (one entry per cell), the flag
  \<open>has_shift\<close>, and the two indexes the class keeps in step with them, \<open>used\<close> (the
  non-empty cells) and \<open>seq_pos\<close> (per sequence, the ordered set of (position, cell) pairs).
  A \<open>std::bitset<LLAMA_MAX_SEQ>\<close> is the set of its set bits. A failed \<open>assert\<close>, an
  out-of-range \<open>bitset::test\<close> and a signed overflow are \<open>None\<close>.

  The class is used correctly when the indexes agree with the vectors (\<open>cells_wf\<close>). Such
  a state is determined by its list of cells alone: \<open>cells_repr\<close> builds it, and every
  operation is shown to act on that list as one would expect.
\<close>

subsection \<open>State\<close>

record llama_kv_cell_ext =
  ext_x :: llama_pos
  ext_y :: llama_pos
  ext_tok :: llama_token

definition ext_default :: llama_kv_cell_ext where
  "ext_default = \<lparr>ext_x = 0, ext_y = 0, ext_tok = LLAMA_TOKEN_NULL\<rparr>"

definition is_2d_gt :: "llama_kv_cell_ext \<Rightarrow> llama_pos \<Rightarrow> llama_pos \<Rightarrow> bool" where
  "is_2d_gt e ox oy \<longleftrightarrow> ext_y e > oy \<or> (ext_y e = oy \<and> ext_x e > ox)"

record llama_kv_cells =
  kc_has_shift :: bool
  kc_used :: "nat set"
  kc_pos :: "llama_pos list"
  kc_ext :: "llama_kv_cell_ext list"
  kc_shift :: "llama_pos list"
  kc_seq :: "nat set list"
  kc_seq_pos :: "nat \<Rightarrow> (llama_pos \<times> nat) set"

definition cells_new :: llama_kv_cells where
  "cells_new = \<lparr>kc_has_shift = False, kc_used = {}, kc_pos = [], kc_ext = [], kc_shift = [],
     kc_seq = [], kc_seq_pos = (\<lambda>_. {})\<rparr>"

definition cells_reset :: "llama_kv_cells \<Rightarrow> llama_kv_cells" where
  "cells_reset c = \<lparr>kc_has_shift = False, kc_used = {},
     kc_pos = map (\<lambda>_. -1) (kc_pos c), kc_ext = map (\<lambda>_. ext_default) (kc_ext c),
     kc_shift = map (\<lambda>_. 0) (kc_shift c), kc_seq = map (\<lambda>_. {}) (kc_seq c),
     kc_seq_pos = (\<lambda>s. if s < LLAMA_MAX_SEQ then {} else kc_seq_pos c s)\<rparr>"

definition cells_reset_shift :: "llama_kv_cells \<Rightarrow> llama_kv_cells" where
  "cells_reset_shift c = c\<lparr>kc_has_shift := False, kc_shift := map (\<lambda>_. 0) (kc_shift c)\<rparr>"

definition cells_size :: "llama_kv_cells \<Rightarrow> nat" where
  "cells_size c = length (kc_pos c)"

definition cells_resize :: "nat \<Rightarrow> llama_kv_cells \<Rightarrow> llama_kv_cells" where
  "cells_resize n c = cells_reset (c\<lparr>kc_pos := vresize 0 n (kc_pos c),
     kc_ext := vresize ext_default n (kc_ext c), kc_shift := vresize 0 n (kc_shift c),
     kc_seq := vresize {} n (kc_seq c)\<rparr>)"

subsection \<open>Queries\<close>

definition cells_is_empty :: "nat \<Rightarrow> llama_kv_cells \<Rightarrow> bool option" where
  "cells_is_empty i c = do {
     check (i < cells_size c);
     check ((kc_pos c ! i < 0 \<and> kc_pos c ! i = -1) \<or> kc_pos c ! i \<ge> 0);
     Some (kc_pos c ! i = -1) }"

definition cells_get_used :: "llama_kv_cells \<Rightarrow> nat" where
  "cells_get_used c = card (kc_used c)"

definition cells_used_min :: "llama_kv_cells \<Rightarrow> nat" where
  "cells_used_min c = (if kc_used c = {} then 0 else Min (kc_used c))"

definition cells_used_max_p1 :: "llama_kv_cells \<Rightarrow> nat" where
  "cells_used_max_p1 c = (if kc_used c = {} then 0 else Max (kc_used c) + 1)"

definition cells_get_has_shift :: "llama_kv_cells \<Rightarrow> bool" where
  "cells_get_has_shift c = kc_has_shift c"

definition cells_seq_count :: "nat \<Rightarrow> llama_kv_cells \<Rightarrow> nat option" where
  "cells_seq_count i c = do {
     check (i < cells_size c);
     check (kc_pos c ! i \<noteq> -1);
     Some (card (kc_seq c ! i)) }"

definition cells_seq_get_all :: "nat \<Rightarrow> llama_kv_cells \<Rightarrow> nat set option" where
  "cells_seq_get_all i c = do { check (i < cells_size c); Some (kc_seq c ! i) }"

text \<open>\<open>bitset::test\<close> throws \<open>std::out_of_range\<close> past \<open>LLAMA_MAX_SEQ\<close>.\<close>

definition cells_seq_has :: "nat \<Rightarrow> llama_seq_id \<Rightarrow> llama_kv_cells \<Rightarrow> bool option" where
  "cells_seq_has i s c = do {
     check (i < cells_size c);
     check (s \<ge> 0);
     check (nat s < LLAMA_MAX_SEQ);
     Some (nat s \<in> kc_seq c ! i) }"

definition cells_seq_get :: "nat \<Rightarrow> llama_kv_cells \<Rightarrow> llama_seq_id option" where
  "cells_seq_get i c = do {
     check (i < cells_size c);
     check (card (kc_seq c ! i) = 1);
     (case find (\<lambda>s. s \<in> kc_seq c ! i) [0..<LLAMA_MAX_SEQ] of
        Some s \<Rightarrow> Some (int s)
      | None \<Rightarrow> Some (-1)) }"

definition cells_seq_pos_get :: "llama_seq_id \<Rightarrow> llama_kv_cells \<Rightarrow> (llama_pos \<times> nat) set option" where
  "cells_seq_pos_get s c = do {
     check (s \<ge> 0);
     check (s < int LLAMA_MAX_SEQ);
     Some (kc_seq_pos c (nat s)) }"

text \<open>
  \<open>upper_bound({p, UINT32_MAX})\<close> followed by \<open>--it\<close>: the greatest pair that is not
  above \<open>(p, UINT32_MAX)\<close>.
\<close>

definition cells_seq_pos_tok_le :: "llama_seq_id \<Rightarrow> llama_pos \<Rightarrow> llama_kv_cells \<Rightarrow> llama_token option" where
  "cells_seq_pos_tok_le s p c = do {
     check (s \<ge> 0);
     check (s < int LLAMA_MAX_SEQ);
     (let below = Set.filter (\<lambda>x. x \<le> (p, 4294967295)) (kc_seq_pos c (nat s)) in
      if below = {} then Some LLAMA_TOKEN_NULL
      else map_option ext_tok (nth_opt (kc_ext c) (snd (Max below)))) }"

definition cells_seq_pos_min :: "llama_seq_id \<Rightarrow> llama_kv_cells \<Rightarrow> llama_pos option" where
  "cells_seq_pos_min s c = do {
     check (s \<ge> 0);
     check (s < int LLAMA_MAX_SEQ);
     Some (if kc_seq_pos c (nat s) = {} then -1 else fst (Min (kc_seq_pos c (nat s)))) }"

definition cells_seq_pos_max :: "llama_seq_id \<Rightarrow> llama_kv_cells \<Rightarrow> llama_pos option" where
  "cells_seq_pos_max s c = do {
     check (s \<ge> 0);
     check (s < int LLAMA_MAX_SEQ);
     Some (if kc_seq_pos c (nat s) = {} then -1 else fst (Max (kc_seq_pos c (nat s)))) }"

definition cells_pos_get :: "nat \<Rightarrow> llama_kv_cells \<Rightarrow> llama_pos option" where
  "cells_pos_get i c = do {
     check (i < cells_size c); check (kc_pos c ! i \<noteq> -1); Some (kc_pos c ! i) }"

definition cells_ext_get :: "nat \<Rightarrow> llama_kv_cells \<Rightarrow> llama_kv_cell_ext option" where
  "cells_ext_get i c = do {
     check (i < cells_size c); check (kc_pos c ! i \<noteq> -1); Some (kc_ext c ! i) }"

definition cells_get_shift :: "nat \<Rightarrow> llama_kv_cells \<Rightarrow> llama_pos option" where
  "cells_get_shift i c = do {
     check (i < cells_size c); check (kc_pos c ! i \<noteq> -1); Some (kc_shift c ! i) }"

definition cells_pos_in :: "nat \<Rightarrow> llama_pos \<Rightarrow> llama_pos \<Rightarrow> llama_kv_cells \<Rightarrow> bool option" where
  "cells_pos_in i p0 p1 c = do {
     check (i < cells_size c); Some (kc_pos c ! i \<ge> p0 \<and> kc_pos c ! i < p1) }"

subsection \<open>Maintenance of the position index\<close>

definition seq_pos_dec :: "nat \<Rightarrow> nat \<Rightarrow> llama_kv_cells \<Rightarrow> llama_kv_cells option" where
  "seq_pos_dec s i c = do {
     check ((kc_pos c ! i, i) \<in> kc_seq_pos c s);
     Some (c\<lparr>kc_seq_pos := (kc_seq_pos c)(s := kc_seq_pos c s - {(kc_pos c ! i, i)})\<rparr>) }"

definition seq_pos_inc :: "nat \<Rightarrow> nat \<Rightarrow> llama_kv_cells \<Rightarrow> llama_kv_cells" where
  "seq_pos_inc s i c =
     c\<lparr>kc_seq_pos := (kc_seq_pos c)(s := insert (kc_pos c ! i, i) (kc_seq_pos c s))\<rparr>"

definition seq_pos_rm :: "nat \<Rightarrow> llama_kv_cells \<Rightarrow> llama_kv_cells option" where
  "seq_pos_rm i = for_opt
     (\<lambda>s c. if s \<in> kc_seq c ! i then seq_pos_dec s i c else Some c) [0..<LLAMA_MAX_SEQ]"

definition seq_pos_add :: "nat \<Rightarrow> llama_kv_cells \<Rightarrow> llama_kv_cells" where
  "seq_pos_add i = fold
     (\<lambda>s c. if s \<in> kc_seq c ! i then seq_pos_inc s i c else c) [0..<LLAMA_MAX_SEQ]"

subsection \<open>Updates\<close>

text \<open>What every emptying operation does to the vectors of cell \<open>i\<close>.\<close>

definition clear_slot :: "nat \<Rightarrow> llama_kv_cells \<Rightarrow> llama_kv_cells" where
  "clear_slot i c = c\<lparr>kc_pos := (kc_pos c)[i := -1], kc_ext := (kc_ext c)[i := ext_default],
     kc_shift := (kc_shift c)[i := 0], kc_used := kc_used c - {i}\<rparr>"

definition cells_rm :: "nat \<Rightarrow> llama_kv_cells \<Rightarrow> llama_kv_cells option" where
  "cells_rm i c = do {
     check (i < cells_size c);
     check (kc_pos c ! i \<noteq> -1);
     c \<leftarrow> seq_pos_rm i c;
     Some (clear_slot i (c\<lparr>kc_seq := (kc_seq c)[i := {}]\<rparr>)) }"

definition cells_seq_rm :: "nat \<Rightarrow> nat \<Rightarrow> llama_kv_cells \<Rightarrow> (bool \<times> llama_kv_cells) option" where
  "cells_seq_rm i s c = do {
     check (i < cells_size c);
     check (s < LLAMA_MAX_SEQ \<and> s \<in> kc_seq c ! i);
     check (kc_pos c ! i \<noteq> -1);
     c \<leftarrow> seq_pos_dec s i (c\<lparr>kc_seq := (kc_seq c)[i := kc_seq c ! i - {s}]\<rparr>);
     if kc_seq c ! i = {} then Some (True, clear_slot i c) else Some (False, c) }"

definition cells_seq_keep :: "nat \<Rightarrow> nat \<Rightarrow> llama_kv_cells \<Rightarrow> (bool \<times> llama_kv_cells) option" where
  "cells_seq_keep i s c = do {
     check (i < cells_size c);
     check (s < LLAMA_MAX_SEQ);
     if s \<in> kc_seq c ! i then do {
       c \<leftarrow> seq_pos_rm i c;
       Some (False, seq_pos_inc s i (c\<lparr>kc_seq := (kc_seq c)[i := {s}]\<rparr>)) }
     else if kc_seq c ! i \<noteq> {} then do {
       c \<leftarrow> seq_pos_rm i c;
       Some (True, clear_slot i (c\<lparr>kc_seq := (kc_seq c)[i := {}]\<rparr>)) }
     else do {
       check (kc_pos c ! i = -1);
       Some (False, c) } }"

definition cells_seq_add :: "nat \<Rightarrow> nat \<Rightarrow> llama_kv_cells \<Rightarrow> llama_kv_cells option" where
  "cells_seq_add i s c = do {
     check (i < cells_size c);
     check (kc_pos c ! i \<noteq> -1);
     check (s < LLAMA_MAX_SEQ \<and> s \<notin> kc_seq c ! i);
     Some (seq_pos_inc s i (c\<lparr>kc_seq := (kc_seq c)[i := insert s (kc_seq c ! i)]\<rparr>)) }"

definition cells_pos_set :: "nat \<Rightarrow> llama_pos \<Rightarrow> llama_kv_cells \<Rightarrow> llama_kv_cells option" where
  "cells_pos_set i p c = do {
     check (i < cells_size c);
     check (kc_pos c ! i = -1);
     check (kc_seq c ! i = {});
     Some (c\<lparr>kc_pos := (kc_pos c)[i := p], kc_used := insert i (kc_used c)\<rparr>) }"

definition cells_ext_set :: "nat \<Rightarrow> llama_kv_cell_ext \<Rightarrow> llama_kv_cells \<Rightarrow> llama_kv_cells option" where
  "cells_ext_set i e c = do {
     check (i < length (kc_ext c));
     Some (c\<lparr>kc_ext := (kc_ext c)[i := e]\<rparr>) }"

definition cells_pos_add :: "nat \<Rightarrow> llama_pos \<Rightarrow> llama_kv_cells \<Rightarrow> (bool \<times> llama_kv_cells) option" where
  "cells_pos_add i d c = do {
     check (i < cells_size c);
     check (kc_pos c ! i \<noteq> -1);
     c \<leftarrow> seq_pos_rm i c;
     p \<leftarrow> i32 (kc_pos c ! i + d);
     sh \<leftarrow> i32 (kc_shift c ! i + d);
     (let c = c\<lparr>kc_pos := (kc_pos c)[i := p], kc_shift := (kc_shift c)[i := sh],
                kc_has_shift := True\<rparr> in
      if p < 0 then
        Some (True, c\<lparr>kc_seq := (kc_seq c)[i := {}], kc_pos := (kc_pos c)[i := -1],
                      kc_shift := (kc_shift c)[i := 0], kc_used := kc_used c - {i}\<rparr>)
      else Some (False, seq_pos_add i c)) }"

definition cells_pos_div :: "nat \<Rightarrow> int \<Rightarrow> llama_kv_cells \<Rightarrow> llama_kv_cells option" where
  "cells_pos_div i d c = do {
     check (i < cells_size c);
     check (kc_pos c ! i \<noteq> -1);
     c \<leftarrow> seq_pos_rm i c;
     p \<leftarrow> c_div (kc_pos c ! i) d;
     sh \<leftarrow> i32 (kc_shift c ! i + (kc_pos c ! i - p));
     Some ((seq_pos_add i (c\<lparr>kc_pos := (kc_pos c)[i := p],
              kc_shift := (kc_shift c)[i := sh]\<rparr>))\<lparr>kc_has_shift := True\<rparr>) }"

subsection \<open>Saving and restoring cells\<close>

text \<open>
  \<open>cp\<close>: the copy starts as a resized fresh object, so its indexes stay empty. Both overloads
  read \<open>pos[idx]\<close>, \<open>ext[idx]\<close>, \<open>seq[idx]\<close> and assert that no shift is pending.
\<close>

definition cells_cp_body :: "llama_kv_cells \<Rightarrow> nat list \<Rightarrow> nat \<Rightarrow> llama_kv_cells \<Rightarrow> llama_kv_cells option" where
  "cells_cp_body c idxs j res = do {
     idx \<leftarrow> nth_opt idxs j;
     check (idx < cells_size c);
     check (kc_shift c ! idx = 0);
     Some (res\<lparr>kc_pos := (kc_pos res)[j := kc_pos c ! idx],
               kc_ext := (kc_ext res)[j := kc_ext c ! idx],
               kc_seq := (kc_seq res)[j := kc_seq c ! idx]\<rparr>) }"

definition cells_cp :: "nat list \<Rightarrow> llama_kv_cells \<Rightarrow> llama_kv_cells option" where
  "cells_cp idxs c =
     for_opt (cells_cp_body c idxs) [0..<length idxs] (cells_resize (length idxs) cells_new)"

definition cells_cp_range :: "nat \<Rightarrow> nat \<Rightarrow> llama_kv_cells \<Rightarrow> llama_kv_cells option" where
  "cells_cp_range i n c = do {
     check (i + n \<le> cells_size c);
     for_opt (cells_cp_body c [i..<i + n]) [0..<n] (cells_resize n cells_new) }"

text \<open>\<open>set\<close>: overwrite cells with saved ones, keeping the indexes in step.\<close>

definition cells_set_body :: "llama_kv_cells \<Rightarrow> nat list \<Rightarrow> nat \<Rightarrow> llama_kv_cells \<Rightarrow> llama_kv_cells option" where
  "cells_set_body ot idxs j c = do {
     idx \<leftarrow> nth_opt idxs j;
     check (idx < cells_size c);
     (let c = (if kc_pos c ! idx = -1 \<and> kc_pos ot ! j \<noteq> -1
               then c\<lparr>kc_used := insert idx (kc_used c)\<rparr> else c);
          c = (if kc_pos c ! idx \<noteq> -1 \<and> kc_pos ot ! j = -1
               then c\<lparr>kc_used := kc_used c - {idx}\<rparr> else c) in do {
     c \<leftarrow> (if kc_pos c ! idx \<noteq> -1 then seq_pos_rm idx c else Some c);
     (let c = c\<lparr>kc_pos := (kc_pos c)[idx := kc_pos ot ! j],
                kc_ext := (kc_ext c)[idx := kc_ext ot ! j],
                kc_seq := (kc_seq c)[idx := kc_seq ot ! j]\<rparr>;
          c = (if kc_pos c ! idx \<noteq> -1 then seq_pos_add idx c else c) in do {
     check (kc_shift c ! idx = 0);
     Some c }) }) }"

definition cells_set :: "nat list \<Rightarrow> llama_kv_cells \<Rightarrow> llama_kv_cells \<Rightarrow> llama_kv_cells option" where
  "cells_set idxs ot c = do {
     check (length idxs = cells_size ot);
     for_opt (cells_set_body ot idxs) [0..<cells_size ot] c }"

definition cells_set_range :: "nat \<Rightarrow> llama_kv_cells \<Rightarrow> llama_kv_cells \<Rightarrow> llama_kv_cells option" where
  "cells_set_range i ot c = do {
     check (i + cells_size ot \<le> cells_size c);
     for_opt (cells_set_body ot [i..<i + cells_size ot]) [0..<cells_size ot] c }"

subsection \<open>The abstract cells\<close>

text \<open>
  One cell by itself. \<open>cells_repr hs xs\<close> is the object whose vectors hold the cells
  \<open>xs\<close> and whose two indexes are the ones these cells determine.
\<close>

record acell =
  a_pos :: llama_pos
  a_ext :: llama_kv_cell_ext
  a_shift :: llama_pos
  a_seq :: "nat set"

definition empty_cell :: acell where
  "empty_cell = \<lparr>a_pos = -1, a_ext = ext_default, a_shift = 0, a_seq = {}\<rparr>"

lemma empty_cell_sel [simp]:
  "a_pos empty_cell = -1" "a_ext empty_cell = ext_default" "a_shift empty_cell = 0"
  "a_seq empty_cell = {}"
  by (simp_all add: empty_cell_def)

definition used_of :: "acell list \<Rightarrow> nat set" where
  "used_of xs = {i. i < length xs \<and> a_pos (xs ! i) \<noteq> -1}"

definition seq_pos_of :: "acell list \<Rightarrow> nat \<Rightarrow> (llama_pos \<times> nat) set" where
  "seq_pos_of xs s = {(a_pos (xs ! i), i) |i. i < length xs \<and> s \<in> a_seq (xs ! i)}"

definition cells_repr :: "bool \<Rightarrow> acell list \<Rightarrow> llama_kv_cells" where
  "cells_repr hs xs = \<lparr>kc_has_shift = hs, kc_used = used_of xs, kc_pos = map a_pos xs,
     kc_ext = map a_ext xs, kc_shift = map a_shift xs, kc_seq = map a_seq xs,
     kc_seq_pos = seq_pos_of xs\<rparr>"

definition acell_ok :: "acell \<Rightarrow> bool" where
  "acell_ok x \<longleftrightarrow> -1 \<le> a_pos x \<and> a_pos x \<le> INT32_MAX \<and> a_seq x \<subseteq> {..<LLAMA_MAX_SEQ}
     \<and> (a_pos x = -1 \<longrightarrow> a_seq x = {} \<and> a_shift x = 0)"

text \<open>The invariant of the class, over its fields.\<close>

definition cells_abs :: "llama_kv_cells \<Rightarrow> acell list" where
  "cells_abs c = map (\<lambda>i. \<lparr>a_pos = kc_pos c ! i, a_ext = kc_ext c ! i,
     a_shift = kc_shift c ! i, a_seq = kc_seq c ! i\<rparr>) [0..<length (kc_pos c)]"

definition cells_wf :: "llama_kv_cells \<Rightarrow> bool" where
  "cells_wf c \<longleftrightarrow>
     length (kc_ext c) = length (kc_pos c) \<and> length (kc_shift c) = length (kc_pos c)
     \<and> length (kc_seq c) = length (kc_pos c)
     \<and> kc_used c = {i. i < length (kc_pos c) \<and> kc_pos c ! i \<noteq> -1}
     \<and> (\<forall>s. kc_seq_pos c s = {(kc_pos c ! i, i) |i. i < length (kc_pos c) \<and> s \<in> kc_seq c ! i})
     \<and> (\<forall>i < length (kc_pos c). acell_ok (cells_abs c ! i))"

lemma cells_repr_sel [simp]:
  "kc_has_shift (cells_repr hs xs) = hs" "kc_used (cells_repr hs xs) = used_of xs"
  "kc_pos (cells_repr hs xs) = map a_pos xs" "kc_ext (cells_repr hs xs) = map a_ext xs"
  "kc_shift (cells_repr hs xs) = map a_shift xs" "kc_seq (cells_repr hs xs) = map a_seq xs"
  "kc_seq_pos (cells_repr hs xs) = seq_pos_of xs" "cells_size (cells_repr hs xs) = length xs"
  by (simp_all add: cells_repr_def cells_size_def)

lemma cells_abs_repr [simp]: "cells_abs (cells_repr hs xs) = xs"
  by (rule nth_equalityI) (simp_all add: cells_abs_def)

lemma length_cells_abs [simp]: "length (cells_abs c) = length (kc_pos c)"
  by (simp add: cells_abs_def)

lemma cells_repr_abs: "cells_wf c \<Longrightarrow> cells_repr (kc_has_shift c) (cells_abs c) = c"
proof -
  assume wf: "cells_wf c"
  have "map a_pos (cells_abs c) = kc_pos c" "map a_ext (cells_abs c) = kc_ext c"
    "map a_shift (cells_abs c) = kc_shift c" "map a_seq (cells_abs c) = kc_seq c"
    by (rule nth_equalityI; use wf in \<open>simp add: cells_wf_def cells_abs_def\<close>)+
  moreover have "used_of (cells_abs c) = kc_used c"
    using wf by (auto simp: used_of_def cells_wf_def cells_abs_def)
  moreover have "seq_pos_of (cells_abs c) = kc_seq_pos c"
  proof
    fix s
    show "seq_pos_of (cells_abs c) s = kc_seq_pos c s"
      using wf by (auto simp: seq_pos_of_def cells_wf_def cells_abs_def)
  qed
  ultimately show ?thesis
    by (simp add: cells_repr_def)
qed

lemma cells_wf_repr_iff [simp]: "cells_wf (cells_repr hs xs) \<longleftrightarrow> (\<forall>x \<in> set xs. acell_ok x)"
  by (auto simp: cells_wf_def used_of_def seq_pos_of_def all_set_conv_all_nth)

lemma cells_wfE:
  assumes "cells_wf c"
  obtains hs xs where "c = cells_repr hs xs" and "\<forall>x \<in> set xs. acell_ok x"
  using assms cells_repr_abs cells_wf_repr_iff by metis

lemma acell_ok_empty [simp]: "acell_ok empty_cell"
  by (simp add: acell_ok_def INT32_MAX_def)

lemma acells_ok_update:
  "\<forall>x \<in> set xs. acell_ok x \<Longrightarrow> acell_ok y \<Longrightarrow> \<forall>x \<in> set (xs[i := y]). acell_ok x"
  using set_update_subset_insert [of xs i y] by blast

lemma acells_ok_nth: "\<forall>x \<in> set xs. acell_ok x \<Longrightarrow> i < length xs \<Longrightarrow> acell_ok (xs ! i)"
  by (simp add: all_set_conv_all_nth)

subsection \<open>How the indexes follow an update of one cell\<close>

lemma finite_used_of [simp]: "finite (used_of xs)"
  by (simp add: used_of_def)

lemma finite_seq_pos_of [simp]: "finite (seq_pos_of xs s)"
proof -
  have "seq_pos_of xs s \<subseteq> (\<lambda>i. (a_pos (xs ! i), i)) ` {..<length xs}"
    by (auto simp: seq_pos_of_def)
  then show ?thesis by (rule finite_subset) simp
qed

lemma used_of_update:
  "i < length xs \<Longrightarrow>
   used_of (xs[i := y]) = (if a_pos y = -1 then used_of xs - {i} else insert i (used_of xs))"
  by (auto simp: used_of_def nth_list_update split: if_splits)

lemma seq_pos_of_update:
  "i < length xs \<Longrightarrow>
   seq_pos_of (xs[i := y]) s =
     (if s \<in> a_seq y then insert (a_pos y, i) (seq_pos_of xs s - {(a_pos (xs ! i), i)})
      else seq_pos_of xs s - {(a_pos (xs ! i), i)})"
  by (auto simp: seq_pos_of_def nth_list_update split: if_splits)

lemma seq_pos_of_mem: "i < length xs \<Longrightarrow> s \<in> a_seq (xs ! i) \<Longrightarrow> (a_pos (xs ! i), i) \<in> seq_pos_of xs s"
  by (auto simp: seq_pos_of_def)

lemma seq_pos_of_notmem: "s \<notin> a_seq (xs ! i) \<Longrightarrow> (p, i) \<notin> seq_pos_of xs s"
  by (auto simp: seq_pos_of_def)

text \<open>The two index loops over all sequences, on any object.\<close>

lemma seq_pos_rm_upto:
  assumes "\<And>s. s < n \<Longrightarrow> s \<in> kc_seq c ! i \<Longrightarrow> (kc_pos c ! i, i) \<in> kc_seq_pos c s"
  shows "for_opt (\<lambda>s c. if s \<in> kc_seq c ! i then seq_pos_dec s i c else Some c) [0..<n] c
    = Some (c\<lparr>kc_seq_pos := \<lambda>s. if s < n \<and> s \<in> kc_seq c ! i
                then kc_seq_pos c s - {(kc_pos c ! i, i)} else kc_seq_pos c s\<rparr>)"
  using assms
proof (induction n)
  case 0
  then show ?case by simp
next
  case (Suc n)
  then show ?case
    by (auto simp: for_opt_append seq_pos_dec_def fun_eq_iff less_Suc_eq
        intro!: arg_cong [where f = "\<lambda>h. c\<lparr>kc_seq_pos := h\<rparr>"])
qed

lemma seq_pos_rm_eq:
  assumes "\<And>s. s \<in> kc_seq c ! i \<Longrightarrow> (kc_pos c ! i, i) \<in> kc_seq_pos c s"
    and "kc_seq c ! i \<subseteq> {..<LLAMA_MAX_SEQ}"
  shows "seq_pos_rm i c = Some (c\<lparr>kc_seq_pos := \<lambda>s. if s \<in> kc_seq c ! i
           then kc_seq_pos c s - {(kc_pos c ! i, i)} else kc_seq_pos c s\<rparr>)"
proof -
  have "(\<lambda>s. if s < LLAMA_MAX_SEQ \<and> s \<in> kc_seq c ! i
           then kc_seq_pos c s - {(kc_pos c ! i, i)} else kc_seq_pos c s)
      = (\<lambda>s. if s \<in> kc_seq c ! i
           then kc_seq_pos c s - {(kc_pos c ! i, i)} else kc_seq_pos c s)"
    using assms(2) by (intro ext) auto
  then show ?thesis
    unfolding seq_pos_rm_def by (subst seq_pos_rm_upto) (use assms(1) in auto)
qed

lemma seq_pos_add_upto:
  "fold (\<lambda>s c. if s \<in> kc_seq c ! i then seq_pos_inc s i c else c) [0..<n] c
    = c\<lparr>kc_seq_pos := \<lambda>s. if s < n \<and> s \<in> kc_seq c ! i
          then insert (kc_pos c ! i, i) (kc_seq_pos c s) else kc_seq_pos c s\<rparr>"
proof (induction n)
  case 0
  then show ?case by simp
next
  case (Suc n)
  then show ?case
    by (auto simp: seq_pos_inc_def fun_eq_iff less_Suc_eq
        intro!: arg_cong [where f = "\<lambda>h. c\<lparr>kc_seq_pos := h\<rparr>"])
qed

lemma seq_pos_add_eq:
  assumes "kc_seq c ! i \<subseteq> {..<LLAMA_MAX_SEQ}"
  shows "seq_pos_add i c = c\<lparr>kc_seq_pos := \<lambda>s. if s \<in> kc_seq c ! i
           then insert (kc_pos c ! i, i) (kc_seq_pos c s) else kc_seq_pos c s\<rparr>"
proof -
  have "(\<lambda>s. if s < LLAMA_MAX_SEQ \<and> s \<in> kc_seq c ! i
           then insert (kc_pos c ! i, i) (kc_seq_pos c s) else kc_seq_pos c s)
      = (\<lambda>s. if s \<in> kc_seq c ! i
           then insert (kc_pos c ! i, i) (kc_seq_pos c s) else kc_seq_pos c s)"
    using assms by (intro ext) auto
  then show ?thesis
    unfolding seq_pos_add_def by (simp add: seq_pos_add_upto)
qed

subsection \<open>Every operation acts on the list of cells\<close>

lemma map_update_same [simp]: "i < length xs \<Longrightarrow> (map f xs)[i := f (xs ! i)] = map f xs"
  by (simp add: list_update_same_conv)

lemma cells_repr_eqI:
  assumes "kc_has_shift c = hs" "kc_used c = used_of xs" "kc_pos c = map a_pos xs"
    and "kc_ext c = map a_ext xs" "kc_shift c = map a_shift xs" "kc_seq c = map a_seq xs"
    and "\<And>s. kc_seq_pos c s = seq_pos_of xs s"
  shows "c = cells_repr hs xs"
proof -
  have "kc_seq_pos c = seq_pos_of xs" using assms(7) by (rule ext)
  with assms(1-6) show ?thesis by (simp add: cells_repr_def)
qed

lemma seq_pos_rm_repr:
  assumes "\<forall>x \<in> set xs. acell_ok x" "i < length xs"
  shows "seq_pos_rm i (cells_repr hs xs) = Some ((cells_repr hs xs)
    \<lparr>kc_seq_pos := \<lambda>s. seq_pos_of xs s - {(a_pos (xs ! i), i)}\<rparr>)"
proof -
  have ok: "acell_ok (xs ! i)" using assms by (rule acells_ok_nth)
  have "(\<lambda>s. if s \<in> a_seq (xs ! i) then seq_pos_of xs s - {(a_pos (xs ! i), i)}
            else seq_pos_of xs s) = (\<lambda>s. seq_pos_of xs s - {(a_pos (xs ! i), i)})"
    by (auto simp: fun_eq_iff dest: seq_pos_of_notmem)
  moreover have "seq_pos_rm i (cells_repr hs xs) = Some ((cells_repr hs xs)
      \<lparr>kc_seq_pos := \<lambda>s. if s \<in> kc_seq (cells_repr hs xs) ! i
         then kc_seq_pos (cells_repr hs xs) s - {(kc_pos (cells_repr hs xs) ! i, i)}
         else kc_seq_pos (cells_repr hs xs) s\<rparr>)"
    by (rule seq_pos_rm_eq) (use ok assms(2) in \<open>auto simp: seq_pos_of_mem acell_ok_def\<close>)
  ultimately show ?thesis using assms(2) by (simp cong: if_cong)
qed

text \<open>The facts with which an operation on cell \<open>i\<close> is read off the representation.\<close>

lemmas cell_update = used_of_update seq_pos_of_update map_update

lemma cells_rm_repr:
  assumes "\<forall>x \<in> set xs. acell_ok x" "i < length xs" "a_pos (xs ! i) \<noteq> -1"
  shows "cells_rm i (cells_repr hs xs) = Some (cells_repr hs (xs[i := empty_cell]))"
  using assms
  by (simp add: cells_rm_def seq_pos_rm_repr clear_slot_def, intro cells_repr_eqI)
     (simp_all add: cell_update)

definition drop_seq :: "nat \<Rightarrow> acell \<Rightarrow> acell" where
  "drop_seq s x = (if a_seq x - {s} = {} then empty_cell else x\<lparr>a_seq := a_seq x - {s}\<rparr>)"

lemma cells_seq_rm_repr:
  assumes "\<forall>x \<in> set xs. acell_ok x" "i < length xs" "s \<in> a_seq (xs ! i)"
  shows "cells_seq_rm i s (cells_repr hs xs)
    = Some (a_seq (xs ! i) - {s} = {}, cells_repr hs (xs[i := drop_seq s (xs ! i)]))"
proof -
  have "acell_ok (xs ! i)" using assms(1,2) by (rule acells_ok_nth)
  then have pos: "a_pos (xs ! i) \<noteq> -1" "s < LLAMA_MAX_SEQ"
    using assms(3) by (auto simp: acell_ok_def)
  have mem: "t \<in> a_seq (xs ! i) \<Longrightarrow> (a_pos (xs ! i), i) \<in> seq_pos_of xs t" for t
    using assms(2) by (rule seq_pos_of_mem)
  have nomem: "t \<notin> a_seq (xs ! i) \<Longrightarrow> (a_pos (xs ! i), i) \<notin> seq_pos_of xs t" for t
    by (rule seq_pos_of_notmem)
  have used: "i \<in> used_of xs" using assms(2) pos(1) by (simp add: used_of_def)
  show ?thesis
  proof (cases "a_seq (xs ! i) - {s} = {}")
    case True
    then have "a_seq (xs ! i) = {s}" using assms(3) by auto
    with True show ?thesis using assms pos mem nomem
      by (simp add: cells_seq_rm_def seq_pos_dec_def clear_slot_def drop_seq_def,
          intro cells_repr_eqI) (simp_all add: cell_update)
  next
    case False
    then show ?thesis using assms pos mem nomem used
      by (simp add: cells_seq_rm_def seq_pos_dec_def drop_seq_def, intro cells_repr_eqI)
         (auto simp: cell_update)
  qed
qed

definition keep_seq :: "nat \<Rightarrow> acell \<Rightarrow> acell" where
  "keep_seq s x = (if s \<in> a_seq x then x\<lparr>a_seq := {s}\<rparr>
     else if a_seq x \<noteq> {} then empty_cell else x)"

lemma cells_seq_keep_repr:
  assumes "\<forall>x \<in> set xs. acell_ok x" "i < length xs" "s < LLAMA_MAX_SEQ"
    and "a_pos (xs ! i) \<noteq> -1 \<longrightarrow> a_seq (xs ! i) \<noteq> {}"
  shows "cells_seq_keep i s (cells_repr hs xs)
    = Some (s \<notin> a_seq (xs ! i) \<and> a_seq (xs ! i) \<noteq> {},
            cells_repr hs (xs[i := keep_seq s (xs ! i)]))"
proof -
  have ok: "acell_ok (xs ! i)" using assms(1,2) by (rule acells_ok_nth)
  consider "s \<in> a_seq (xs ! i)" | "s \<notin> a_seq (xs ! i)" "a_seq (xs ! i) \<noteq> {}"
    | "a_seq (xs ! i) = {}" by blast
  then show ?thesis
  proof cases
    case 1
    then have pos: "a_pos (xs ! i) \<noteq> -1" using ok by (auto simp: acell_ok_def)
    then have "i \<in> used_of xs" using assms(2) by (simp add: used_of_def)
    with 1 pos assms show ?thesis
      by (simp add: cells_seq_keep_def seq_pos_rm_repr seq_pos_inc_def keep_seq_def,
          intro conjI cells_repr_eqI) (auto simp: cell_update)
  next
    case 2
    then show ?thesis using assms
      by (simp add: cells_seq_keep_def seq_pos_rm_repr clear_slot_def keep_seq_def,
          intro cells_repr_eqI) (simp_all add: cell_update)
  next
    case 3
    then show ?thesis using assms by (simp add: cells_seq_keep_def keep_seq_def)
  qed
qed

lemma cells_seq_add_repr:
  assumes "i < length xs" "a_pos (xs ! i) \<noteq> -1" "s < LLAMA_MAX_SEQ" "s \<notin> a_seq (xs ! i)"
  shows "cells_seq_add i s (cells_repr hs xs)
    = Some (cells_repr hs (xs[i := (xs ! i)\<lparr>a_seq := insert s (a_seq (xs ! i))\<rparr>]))"
proof -
  have "i \<in> used_of xs" using assms by (simp add: used_of_def)
  moreover have "t \<in> a_seq (xs ! i) \<Longrightarrow> (a_pos (xs ! i), i) \<in> seq_pos_of xs t" for t
    using assms(1) by (rule seq_pos_of_mem)
  moreover have "t \<notin> a_seq (xs ! i) \<Longrightarrow> (a_pos (xs ! i), i) \<notin> seq_pos_of xs t" for t
    by (rule seq_pos_of_notmem)
  ultimately show ?thesis using assms
    by (simp add: cells_seq_add_def seq_pos_inc_def, intro cells_repr_eqI)
       (auto simp: cell_update)
qed

lemma cells_pos_set_repr:
  assumes "i < length xs" "a_pos (xs ! i) = -1" "a_seq (xs ! i) = {}" "p \<noteq> -1"
  shows "cells_pos_set i p (cells_repr hs xs) = Some (cells_repr hs (xs[i := (xs ! i)\<lparr>a_pos := p\<rparr>]))"
proof -
  have "(q, i) \<notin> seq_pos_of xs t" for q t
    using assms(3) by (simp add: seq_pos_of_notmem)
  then show ?thesis using assms map_update_same [of i xs a_seq]
    by (simp add: cells_pos_set_def, intro cells_repr_eqI) (simp_all add: cell_update)
qed

lemma cells_ext_set_repr:
  assumes "i < length xs"
  shows "cells_ext_set i e (cells_repr hs xs) = Some (cells_repr hs (xs[i := (xs ! i)\<lparr>a_ext := e\<rparr>]))"
proof -
  have "t \<in> a_seq (xs ! i) \<Longrightarrow> (a_pos (xs ! i), i) \<in> seq_pos_of xs t" for t
    using assms(1) by (rule seq_pos_of_mem)
  moreover have "t \<notin> a_seq (xs ! i) \<Longrightarrow> (a_pos (xs ! i), i) \<notin> seq_pos_of xs t" for t
    by (rule seq_pos_of_notmem)
  moreover have "(i \<in> used_of xs) = (a_pos (xs ! i) \<noteq> -1)"
    using assms by (simp add: used_of_def)
  ultimately show ?thesis using assms
    by (simp add: cells_ext_set_def, intro cells_repr_eqI) (auto simp: cell_update)
qed

text \<open>Shifting a position; a cell whose position becomes negative is freed (its \<open>ext\<close> stays).\<close>

definition shift_pos :: "int \<Rightarrow> acell \<Rightarrow> acell" where
  "shift_pos d x = (if a_pos x + d < 0 then x\<lparr>a_pos := -1, a_shift := 0, a_seq := {}\<rparr>
     else x\<lparr>a_pos := a_pos x + d, a_shift := a_shift x + d\<rparr>)"

definition div_pos :: "int \<Rightarrow> acell \<Rightarrow> acell" where
  "div_pos d x = x\<lparr>a_pos := a_pos x div d, a_shift := a_shift x + (a_pos x - a_pos x div d)\<rparr>"

lemma cells_pos_add_repr:
  assumes "\<forall>x \<in> set xs. acell_ok x" "i < length xs" "a_pos (xs ! i) \<noteq> -1"
    and "a_pos (xs ! i) + d \<le> INT32_MAX" "INT32_MIN \<le> a_pos (xs ! i) + d"
    and "a_shift (xs ! i) + d \<le> INT32_MAX" "INT32_MIN \<le> a_shift (xs ! i) + d"
  shows "cells_pos_add i d (cells_repr hs xs)
    = Some (a_pos (xs ! i) + d < 0, cells_repr True (xs[i := shift_pos d (xs ! i)]))"
proof -
  have ok: "a_seq (xs ! i) \<subseteq> {..<LLAMA_MAX_SEQ}"
    using acells_ok_nth [OF assms(1,2)] by (simp add: acell_ok_def)
  have used: "i \<in> used_of xs" using assms(2,3) by (simp add: used_of_def)
  show ?thesis
  proof (cases "a_pos (xs ! i) + d < 0")
    case True
    then show ?thesis using assms
      by (simp add: cells_pos_add_def seq_pos_rm_repr shift_pos_def, intro cells_repr_eqI)
         (simp_all add: cell_update)
  next
    case False
    then show ?thesis using assms ok used
      by (simp add: cells_pos_add_def seq_pos_rm_repr shift_pos_def seq_pos_add_eq,
          intro cells_repr_eqI) (auto simp: cell_update)
  qed
qed

lemma cells_pos_div_repr:
  assumes "\<forall>x \<in> set xs. acell_ok x" "i < length xs" "a_pos (xs ! i) \<noteq> -1" "0 < d"
    and "INT32_MIN \<le> a_shift (xs ! i) + (a_pos (xs ! i) - a_pos (xs ! i) div d)"
    and "a_shift (xs ! i) + (a_pos (xs ! i) - a_pos (xs ! i) div d) \<le> INT32_MAX"
  shows "cells_pos_div i d (cells_repr hs xs) = Some (cells_repr True (xs[i := div_pos d (xs ! i)]))"
proof -
  have ok: "acell_ok (xs ! i)" using assms(1,2) by (rule acells_ok_nth)
  then have pos: "0 \<le> a_pos (xs ! i)" using assms(3) by (simp add: acell_ok_def)
  then have q: "0 \<le> a_pos (xs ! i) div d" using assms(4) by (simp add: pos_imp_zdiv_nonneg_iff)
  have "i \<in> used_of xs" using assms(2,3) by (simp add: used_of_def)
  then show ?thesis using assms ok pos q
    by (simp add: cells_pos_div_def seq_pos_rm_repr div_pos_def c_div_nonneg seq_pos_add_eq
        acell_ok_def, intro cells_repr_eqI) (auto simp: cell_update)
qed

lemma cells_reset_shift_repr:
  "cells_reset_shift (cells_repr hs xs) = cells_repr False (map (\<lambda>x. x\<lparr>a_shift := 0\<rparr>) xs)"
  by (rule cells_repr_eqI)
     (auto simp: cells_reset_shift_def used_of_def seq_pos_of_def comp_def)

lemma cells_resize_eq:
  assumes "\<And>s. LLAMA_MAX_SEQ \<le> s \<Longrightarrow> kc_seq_pos c s = {}"
  shows "cells_resize n c = cells_repr False (replicate n empty_cell)"
  by (rule cells_repr_eqI)
     (use assms in \<open>auto simp: cells_resize_def cells_reset_def used_of_def seq_pos_of_def map_replicate_const\<close>)

lemma seq_pos_of_high: "\<forall>x \<in> set xs. acell_ok x \<Longrightarrow> LLAMA_MAX_SEQ \<le> s \<Longrightarrow> seq_pos_of xs s = {}"
  by (fastforce simp: seq_pos_of_def acell_ok_def all_set_conv_all_nth)

lemma seq_pos_of_replicate_empty [simp]: "seq_pos_of (replicate n empty_cell) s = {}"
  by (auto simp: seq_pos_of_def)

lemma used_of_replicate_empty [simp]: "used_of (replicate n empty_cell) = {}"
  by (auto simp: used_of_def)

lemma cells_reset_repr:
  assumes "\<forall>x \<in> set xs. acell_ok x"
  shows "cells_reset (cells_repr hs xs) = cells_repr False (replicate (length xs) empty_cell)"
  by (rule cells_repr_eqI)
     (simp_all add: cells_reset_def seq_pos_of_high [OF assms] map_replicate_const)

text \<open>Saved cells: the object \<open>cp\<close> returns.\<close>

definition cells_saved :: "acell list \<Rightarrow> llama_kv_cells" where
  "cells_saved ys = \<lparr>kc_has_shift = False, kc_used = {}, kc_pos = map a_pos ys,
     kc_ext = map a_ext ys, kc_shift = replicate (length ys) 0, kc_seq = map a_seq ys,
     kc_seq_pos = (\<lambda>_. {})\<rparr>"

lemma cells_saved_sel [simp]:
  "cells_size (cells_saved ys) = length ys" "kc_pos (cells_saved ys) = map a_pos ys"
  "kc_ext (cells_saved ys) = map a_ext ys" "kc_seq (cells_saved ys) = map a_seq ys"
  by (simp_all add: cells_saved_def cells_size_def)

text \<open>The copy after \<open>k\<close> of its \<open>n\<close> cells were filled in.\<close>

definition cp_partial :: "acell list \<Rightarrow> nat \<Rightarrow> llama_kv_cells" where
  "cp_partial ys k = cells_saved (map (\<lambda>j. if j < k then ys ! j else empty_cell) [0..<length ys])"

lemma map_partial_step:
  assumes "k < length ys"
  shows "(map f (map (\<lambda>j. if j < k then ys ! j else e) [0..<length ys]))[k := f (ys ! k)]
    = map f (map (\<lambda>j. if j < Suc k then ys ! j else e) [0..<length ys])"
  by (rule nth_equalityI) (use assms in \<open>auto simp: nth_list_update\<close>)

lemma cp_partial_step:
  assumes "k < length ys"
  shows "(cp_partial ys k)\<lparr>kc_pos := (kc_pos (cp_partial ys k))[k := a_pos (ys ! k)],
      kc_ext := (kc_ext (cp_partial ys k))[k := a_ext (ys ! k)],
      kc_seq := (kc_seq (cp_partial ys k))[k := a_seq (ys ! k)]\<rparr> = cp_partial ys (Suc k)"
  unfolding cp_partial_def cells_saved_def
  by (simp add: map_partial_step [OF assms] del: map_map)

lemma cells_cp_repr:
  assumes "\<forall>idx \<in> set idxs. idx < length xs \<and> a_shift (xs ! idx) = 0"
  shows "cells_cp idxs (cells_repr hs xs) = Some (cells_saved (map ((!) xs) idxs))"
proof -
  let ?ys = "map ((!) xs) idxs"
  have start: "cells_resize (length idxs) cells_new = cp_partial ?ys 0"
    by (simp add: cells_resize_def cells_reset_def cells_new_def vresize_def cp_partial_def
        cells_saved_def map_replicate_const comp_def cong: if_cong)
  have "\<exists>r. for_opt (cells_cp_body (cells_repr hs xs) idxs) [0..<length idxs] (cp_partial ?ys 0)
          = Some r \<and> r = cp_partial ?ys (length idxs)"
  proof (rule for_opt_upt_total)
    fix k s
    assume k: "k < length idxs" and s: "s = cp_partial ?ys k"
    have "idxs ! k < length xs" "a_shift (xs ! (idxs ! k)) = 0"
      using assms k by auto
    then show "\<exists>s'. cells_cp_body (cells_repr hs xs) idxs k s = Some s' \<and> s' = cp_partial ?ys (Suc k)"
      using k cp_partial_step [of k ?ys] by (simp add: s cells_cp_body_def)
  qed simp
  moreover have "cp_partial ?ys (length idxs) = cells_saved ?ys"
    unfolding cp_partial_def by (rule arg_cong [where f = cells_saved], rule nth_equalityI) auto
  ultimately show ?thesis
    by (simp add: cells_cp_def start)
qed

lemma cells_set_body_repr:
  assumes "\<forall>x \<in> set xs. acell_ok x" "j < length idxs" "idxs ! j < length xs"
    and "j < length ys" "acell_ok (ys ! j)" "a_shift (xs ! (idxs ! j)) = 0"
  shows "cells_set_body (cells_saved ys) idxs j (cells_repr hs xs)
    = Some (cells_repr hs (xs[idxs ! j := (ys ! j)\<lparr>a_shift := 0\<rparr>]))"
proof -
  let ?i = "idxs ! j"
  have ok: "acell_ok (xs ! ?i)" using assms(1,3) by (rule acells_ok_nth)
  have mem: "(q, ?i) \<notin> seq_pos_of xs t" if "a_pos (xs ! ?i) = -1" for q t
    using ok that by (intro seq_pos_of_notmem) (auto simp: acell_ok_def)
  have used: "?i \<in> used_of xs \<longleftrightarrow> a_pos (xs ! ?i) \<noteq> -1"
    using assms(3) by (simp add: used_of_def)
  have rm: "seq_pos_rm ?i ((cells_repr hs xs)\<lparr>kc_used := u\<rparr>)
     = Some ((cells_repr hs xs)\<lparr>kc_used := u, kc_seq_pos := \<lambda>s. seq_pos_of xs s - {(a_pos (xs ! ?i), ?i)}\<rparr>)"
    for u
  proof -
    have "(\<lambda>s. if s \<in> a_seq (xs ! ?i) then seq_pos_of xs s - {(a_pos (xs ! ?i), ?i)}
            else seq_pos_of xs s) = (\<lambda>s. seq_pos_of xs s - {(a_pos (xs ! ?i), ?i)})"
      by (auto simp: fun_eq_iff dest: seq_pos_of_notmem)
    then show ?thesis
      using ok assms(3) seq_pos_rm_eq [of "(cells_repr hs xs)\<lparr>kc_used := u\<rparr>" ?i]
      by (simp add: seq_pos_of_mem acell_ok_def cong: if_cong)
  qed
  have sub: "a_seq (ys ! j) \<subseteq> {..<LLAMA_MAX_SEQ}" using assms(5) by (simp add: acell_ok_def)
  have yempty: "a_pos (ys ! j) = -1 \<Longrightarrow> a_seq (ys ! j) = {}" using assms(5) by (simp add: acell_ok_def)
  have keep: "(map a_shift xs)[?i := 0] = map a_shift xs"
    using assms(3,6) map_update_same [of ?i xs a_shift] by simp
  show ?thesis
  proof (cases "a_pos (xs ! ?i) = -1"; cases "a_pos (ys ! j) = -1")
    assume a: "a_pos (xs ! ?i) = -1" "a_pos (ys ! j) = -1"
    then show ?thesis using assms yempty mem keep used
      by (simp add: cells_set_body_def Let_def, intro cells_repr_eqI) (simp_all add: cell_update)
  next
    assume a: "a_pos (xs ! ?i) = -1" "a_pos (ys ! j) \<noteq> -1"
    then show ?thesis using assms mem keep used sub
      by (simp add: cells_set_body_def Let_def seq_pos_add_eq, intro cells_repr_eqI)
         (simp_all add: cell_update)
  next
    assume a: "a_pos (xs ! ?i) \<noteq> -1" "a_pos (ys ! j) = -1"
    then show ?thesis using assms yempty keep used
      by (simp add: cells_set_body_def Let_def rm, intro cells_repr_eqI) (simp_all add: cell_update)
  next
    assume a: "a_pos (xs ! ?i) \<noteq> -1" "a_pos (ys ! j) \<noteq> -1"
    then show ?thesis using assms keep used sub
      by (simp add: cells_set_body_def Let_def seq_pos_rm_repr seq_pos_add_eq, intro cells_repr_eqI)
         (auto simp: cell_update)
  qed
qed

text \<open>What \<open>set\<close> leaves: the saved cells, in the order they are written.\<close>

definition restore_cells :: "nat list \<Rightarrow> acell list \<Rightarrow> acell list \<Rightarrow> acell list" where
  "restore_cells idxs ys xs = fold (\<lambda>j xs. xs[idxs ! j := (ys ! j)\<lparr>a_shift := 0\<rparr>]) [0..<length ys] xs"

lemma cells_set_repr:
  assumes "\<forall>x \<in> set xs. acell_ok x" "length idxs = length ys" "\<forall>y \<in> set ys. acell_ok y"
    and "\<forall>idx \<in> set idxs. idx < length xs \<and> a_shift (xs ! idx) = 0"
  shows "cells_set idxs (cells_saved ys) (cells_repr hs xs)
      = Some (cells_repr hs (restore_cells idxs ys xs))
    \<and> (\<forall>x \<in> set (restore_cells idxs ys xs). acell_ok x)
    \<and> length (restore_cells idxs ys xs) = length xs"
proof -
  let ?I = "\<lambda>zs. (\<forall>x \<in> set zs. acell_ok x) \<and> length zs = length xs
     \<and> (\<forall>idx \<in> set idxs. a_shift (zs ! idx) = 0)"
  have "for_opt (cells_set_body (cells_saved ys) idxs) [0..<length ys] (cells_repr hs xs)
      = Some (cells_repr hs (restore_cells idxs ys xs)) \<and> ?I (restore_cells idxs ys xs)"
    unfolding restore_cells_def
  proof (rule for_opt_refine)
    fix j zs
    assume j: "j \<in> set [0..<length ys]" and I: "?I zs"
    have y: "acell_ok ((ys ! j)\<lparr>a_shift := 0\<rparr>)" "acell_ok (ys ! j)"
      using j assms(3) by (auto simp: acell_ok_def)
    have i: "idxs ! j < length zs" "a_shift (zs ! (idxs ! j)) = 0"
      using I j assms(2,4) by auto
    have "\<forall>x \<in> set (zs[idxs ! j := (ys ! j)\<lparr>a_shift := 0\<rparr>]). acell_ok x"
      using I y(1) acells_ok_update by blast
    then show "cells_set_body (cells_saved ys) idxs j (cells_repr hs zs)
        = Some (cells_repr hs (zs[idxs ! j := (ys ! j)\<lparr>a_shift := 0\<rparr>]))
        \<and> ?I (zs[idxs ! j := (ys ! j)\<lparr>a_shift := 0\<rparr>])"
      using I i y(2) j assms(2,4)
      by (auto simp: cells_set_body_repr nth_list_update)
  qed (use assms in auto)
  then show ?thesis
    using assms(2) by (simp add: cells_set_def)
qed

lemma nth_fold_write:
  "k < length xs \<Longrightarrow> fold (\<lambda>i xs. xs[i := f i]) is xs ! k = (if k \<in> set is then f k else xs ! k)"
  by (induction "is" arbitrary: xs) (auto simp: nth_list_update)

lemma length_fold_write [simp]: "length (fold (\<lambda>i xs. xs[i := f i]) is xs) = length xs"
  by (induction "is" arbitrary: xs) auto

lemma restore_cells_map:
  "restore_cells idxs (map f idxs) xs = fold (\<lambda>i xs. xs[i := (f i)\<lparr>a_shift := 0\<rparr>]) idxs xs"
proof -
  have "fold (\<lambda>i xs. xs[i := (f i)\<lparr>a_shift := 0\<rparr>]) (map ((!) idxs) [0..<length idxs]) xs
    = fold (\<lambda>j xs. xs[idxs ! j := (map f idxs ! j)\<lparr>a_shift := 0\<rparr>]) [0..<length idxs] xs"
    unfolding fold_map comp_def by (rule fold_cong) auto
  then show ?thesis by (simp add: restore_cells_def map_nth)
qed

text \<open>Writing back the saved cells undoes any change confined to them.\<close>

lemma restore_cells_undo:
  assumes "length zs = length xs" "\<And>i. i < length xs \<Longrightarrow> i \<notin> set idxs \<Longrightarrow> zs ! i = xs ! i"
    and "\<forall>i \<in> set idxs. a_shift (xs ! i) = 0"
  shows "restore_cells idxs (map ((!) xs) idxs) zs = xs"
proof (rule nth_equalityI)
  show "length (restore_cells idxs (map ((!) xs) idxs) zs) = length xs"
    by (simp add: restore_cells_map assms(1))
  fix k
  assume "k < length (restore_cells idxs (map ((!) xs) idxs) zs)"
  then have k: "k < length zs" by (simp add: restore_cells_map)
  have "k \<in> set idxs \<Longrightarrow> (xs ! k)\<lparr>a_shift := 0\<rparr> = xs ! k"
    using assms(3) by simp
  then show "restore_cells idxs (map ((!) xs) idxs) zs ! k = xs ! k"
    using k assms(1,2) by (auto simp: restore_cells_map nth_fold_write)
qed

subsection \<open>Queries read the list of cells\<close>

definition seq_positions :: "acell list \<Rightarrow> nat \<Rightarrow> llama_pos set" where
  "seq_positions xs s = {a_pos x |x. x \<in> set xs \<and> s \<in> a_seq x}"

lemma fst_seq_pos_of: "fst ` seq_pos_of xs s = seq_positions xs s"
  by (force simp: seq_pos_of_def seq_positions_def in_set_conv_nth)

lemma finite_seq_positions [simp]: "finite (seq_positions xs s)"
  by (metis fst_seq_pos_of finite_imageI finite_seq_pos_of)

lemma seq_pos_of_empty_iff: "seq_pos_of xs s = {} \<longleftrightarrow> seq_positions xs s = {}"
  by (metis fst_seq_pos_of image_is_empty)

lemma mono_fst_lex: "mono (fst :: 'a :: linorder \<times> 'b :: linorder \<Rightarrow> 'a)"
  by (auto simp: mono_def less_eq_prod_def)

lemma fst_Min_seq_pos_of: "seq_positions xs s \<noteq> {} \<Longrightarrow> fst (Min (seq_pos_of xs s)) = Min (seq_positions xs s)"
  unfolding fst_seq_pos_of [symmetric] by (rule mono_Min_commute [OF mono_fst_lex]) auto

lemma fst_Max_seq_pos_of: "seq_positions xs s \<noteq> {} \<Longrightarrow> fst (Max (seq_pos_of xs s)) = Max (seq_positions xs s)"
  unfolding fst_seq_pos_of [symmetric] by (rule mono_Max_commute [OF mono_fst_lex]) auto

definition pos_min_of :: "acell list \<Rightarrow> nat \<Rightarrow> llama_pos" where
  "pos_min_of xs s = (if seq_positions xs s = {} then -1 else Min (seq_positions xs s))"

definition pos_max_of :: "acell list \<Rightarrow> nat \<Rightarrow> llama_pos" where
  "pos_max_of xs s = (if seq_positions xs s = {} then -1 else Max (seq_positions xs s))"

lemma cells_seq_pos_min_repr [simp]:
  "0 \<le> s \<Longrightarrow> s < int LLAMA_MAX_SEQ \<Longrightarrow>
   cells_seq_pos_min s (cells_repr hs xs) = Some (pos_min_of xs (nat s))"
  using fst_Min_seq_pos_of [of xs "nat s"]
  by (auto simp: cells_seq_pos_min_def pos_min_of_def seq_pos_of_empty_iff)

lemma cells_seq_pos_max_repr [simp]:
  "0 \<le> s \<Longrightarrow> s < int LLAMA_MAX_SEQ \<Longrightarrow>
   cells_seq_pos_max s (cells_repr hs xs) = Some (pos_max_of xs (nat s))"
  using fst_Max_seq_pos_of [of xs "nat s"]
  by (auto simp: cells_seq_pos_max_def pos_max_of_def seq_pos_of_empty_iff)

lemma cells_is_empty_repr [simp]:
  "i < length xs \<Longrightarrow> -1 \<le> a_pos (xs ! i) \<Longrightarrow>
   cells_is_empty i (cells_repr hs xs) = Some (a_pos (xs ! i) = -1)"
  by (subst cells_is_empty_def) (simp, rule check_ok, auto)

lemma cells_pos_in_repr [simp]:
  "i < length xs \<Longrightarrow>
   cells_pos_in i p0 p1 (cells_repr hs xs) = Some (p0 \<le> a_pos (xs ! i) \<and> a_pos (xs ! i) < p1)"
  by (simp add: cells_pos_in_def)

lemma cells_seq_has_repr [simp]:
  "i < length xs \<Longrightarrow> 0 \<le> s \<Longrightarrow> s < int LLAMA_MAX_SEQ \<Longrightarrow>
   cells_seq_has i s (cells_repr hs xs) = Some (nat s \<in> a_seq (xs ! i))"
  by (simp add: cells_seq_has_def nat_less_iff)

lemma cells_pos_get_repr [simp]:
  "i < length xs \<Longrightarrow> a_pos (xs ! i) \<noteq> -1 \<Longrightarrow> cells_pos_get i (cells_repr hs xs) = Some (a_pos (xs ! i))"
  by (simp add: cells_pos_get_def)

lemma cells_ext_get_repr [simp]:
  "i < length xs \<Longrightarrow> a_pos (xs ! i) \<noteq> -1 \<Longrightarrow> cells_ext_get i (cells_repr hs xs) = Some (a_ext (xs ! i))"
  by (simp add: cells_ext_get_def)

lemma cells_get_shift_repr [simp]:
  "i < length xs \<Longrightarrow> a_pos (xs ! i) \<noteq> -1 \<Longrightarrow> cells_get_shift i (cells_repr hs xs) = Some (a_shift (xs ! i))"
  by (simp add: cells_get_shift_def)

lemma cells_seq_count_repr [simp]:
  "i < length xs \<Longrightarrow> a_pos (xs ! i) \<noteq> -1 \<Longrightarrow> cells_seq_count i (cells_repr hs xs) = Some (card (a_seq (xs ! i)))"
  by (simp add: cells_seq_count_def)

lemma find_singleton:
  "s < n \<Longrightarrow> find (\<lambda>x. x = s) [0..<n] = Some s"
  unfolding find_Some_iff by (rule exI [where x = s]) simp

lemma cells_seq_get_repr [simp]:
  "i < length xs \<Longrightarrow> a_seq (xs ! i) = {s} \<Longrightarrow> s < LLAMA_MAX_SEQ \<Longrightarrow>
   cells_seq_get i (cells_repr hs xs) = Some (int s)"
  by (simp add: cells_seq_get_def find_singleton)

text \<open>The cells of a sequence up to a position, with their index, and the token of the last one.\<close>

definition cells_up_to :: "acell list \<Rightarrow> nat \<Rightarrow> llama_pos \<Rightarrow> (llama_pos \<times> nat) set" where
  "cells_up_to xs s p = {(a_pos (xs ! i), i) |i. i < length xs \<and> s \<in> a_seq (xs ! i) \<and> a_pos (xs ! i) \<le> p}"

definition tok_up_to :: "acell list \<Rightarrow> nat \<Rightarrow> llama_pos \<Rightarrow> llama_token" where
  "tok_up_to xs s p = (if cells_up_to xs s p = {} then LLAMA_TOKEN_NULL
     else ext_tok (a_ext (xs ! snd (Max (cells_up_to xs s p)))))"

lemma cells_up_to_Max:
  assumes "cells_up_to xs s p \<noteq> {}"
  shows "snd (Max (cells_up_to xs s p)) < length xs"
proof -
  have "finite (cells_up_to xs s p)"
    unfolding cells_up_to_def by (rule finite_subset [of _ "(\<lambda>i. (a_pos (xs ! i), i)) ` {..<length xs}"]) auto
  then have "Max (cells_up_to xs s p) \<in> cells_up_to xs s p" using assms by (rule Max_in)
  then show ?thesis by (auto simp: cells_up_to_def)
qed

lemma cells_seq_pos_tok_le_repr:
  assumes "0 \<le> s" "s < int LLAMA_MAX_SEQ" "length xs \<le> 4294967296"
  shows "cells_seq_pos_tok_le s p (cells_repr hs xs) = Some (tok_up_to xs (nat s) p)"
proof -
  let ?B = "Set.filter (\<lambda>x. x \<le> (p, 4294967295)) (seq_pos_of xs (nat s))"
  have "?B = cells_up_to xs (nat s) p"
    using assms(3) by (force simp: cells_up_to_def seq_pos_of_def less_eq_prod_def)
  moreover have "cells_up_to xs (nat s) p \<noteq> {} \<Longrightarrow> snd (Max (cells_up_to xs (nat s) p)) < length xs"
    by (rule cells_up_to_Max)
  ultimately show ?thesis
    using assms(1,2) by (simp add: cells_seq_pos_tok_le_def tok_up_to_def Let_def)
qed

subsection \<open>The class invariant\<close>

text \<open>
  The mutating operations, and the state in which the comments and the assertions of the class allow each: cells in
  range, ids below \<open>LLAMA_MAX_SEQ\<close>, positions that stay in \<open>int32_t\<close>, a non-negative position for \<open>pos_set\<close>, a positive
  divisor for \<open>pos_div\<close> (\<open>llama.h\<close> asks for \<open>d > 1\<close>), a non-empty cell with a sequence or an empty cell for \<open>seq_keep\<close>. The argument of
  \<open>set\<close> is a snapshot, what \<open>cp\<close> returns: its vectors hold cells, its indexes are empty.
\<close>

definition snapshot_ok :: "llama_kv_cells \<Rightarrow> bool" where
  "snapshot_ok sv \<longleftrightarrow> sv = cells_saved (cells_abs sv) \<and> (\<forall>x \<in> set (cells_abs sv). acell_ok x)"

lemma cells_abs_saved: "\<forall>y \<in> set ys. a_shift y = 0 \<Longrightarrow> cells_abs (cells_saved ys) = ys"
  by (rule nth_equalityI) (simp_all add: cells_abs_def cells_saved_def)

datatype cells_op =
    OpReset | OpResetShift | OpResize nat | OpRm nat | OpSeqRm nat nat | OpSeqKeep nat nat
  | OpSeqAdd nat nat | OpPosSet nat llama_pos | OpExtSet nat llama_kv_cell_ext
  | OpPosAdd nat llama_pos | OpPosDiv nat int | OpSet "nat list" llama_kv_cells | OpSetRange nat llama_kv_cells

fun cells_exec :: "cells_op \<Rightarrow> llama_kv_cells \<Rightarrow> llama_kv_cells option" where
  "cells_exec OpReset c = Some (cells_reset c)"
| "cells_exec OpResetShift c = Some (cells_reset_shift c)"
| "cells_exec (OpResize n) c = Some (cells_resize n c)"
| "cells_exec (OpRm i) c = cells_rm i c"
| "cells_exec (OpSeqRm i s) c = map_option snd (cells_seq_rm i s c)"
| "cells_exec (OpSeqKeep i s) c = map_option snd (cells_seq_keep i s c)"
| "cells_exec (OpSeqAdd i s) c = cells_seq_add i s c"
| "cells_exec (OpPosSet i p) c = cells_pos_set i p c"
| "cells_exec (OpExtSet i e) c = cells_ext_set i e c"
| "cells_exec (OpPosAdd i d) c = map_option snd (cells_pos_add i d c)"
| "cells_exec (OpPosDiv i d) c = cells_pos_div i d c"
| "cells_exec (OpSet idxs sv) c = cells_set idxs sv c"
| "cells_exec (OpSetRange i sv) c = cells_set_range i sv c"

fun cells_pre :: "cells_op \<Rightarrow> llama_kv_cells \<Rightarrow> bool" where
  "cells_pre OpReset c = True"
| "cells_pre OpResetShift c = True"
| "cells_pre (OpResize n) c = True"
| "cells_pre (OpRm i) c = (i < cells_size c \<and> kc_pos c ! i \<noteq> -1)"
| "cells_pre (OpSeqRm i s) c = (i < cells_size c \<and> s \<in> kc_seq c ! i)"
| "cells_pre (OpSeqKeep i s) c =
     (i < cells_size c \<and> s < LLAMA_MAX_SEQ \<and> (kc_pos c ! i \<noteq> -1 \<longrightarrow> kc_seq c ! i \<noteq> {}))"
| "cells_pre (OpSeqAdd i s) c =
     (i < cells_size c \<and> kc_pos c ! i \<noteq> -1 \<and> s < LLAMA_MAX_SEQ \<and> s \<notin> kc_seq c ! i)"
| "cells_pre (OpPosSet i p) c =
     (i < cells_size c \<and> kc_pos c ! i = -1 \<and> 0 \<le> p \<and> p \<le> INT32_MAX)"
| "cells_pre (OpExtSet i e) c = (i < cells_size c)"
| "cells_pre (OpPosAdd i d) c = (i < cells_size c \<and> kc_pos c ! i \<noteq> -1
     \<and> INT32_MIN \<le> kc_pos c ! i + d \<and> kc_pos c ! i + d \<le> INT32_MAX
     \<and> INT32_MIN \<le> kc_shift c ! i + d \<and> kc_shift c ! i + d \<le> INT32_MAX)"
| "cells_pre (OpPosDiv i d) c = (i < cells_size c \<and> kc_pos c ! i \<noteq> -1 \<and> 0 < d
     \<and> INT32_MIN \<le> kc_shift c ! i + (kc_pos c ! i - kc_pos c ! i div d)
     \<and> kc_shift c ! i + (kc_pos c ! i - kc_pos c ! i div d) \<le> INT32_MAX)"
| "cells_pre (OpSet idxs sv) c = (snapshot_ok sv \<and> length idxs = cells_size sv
     \<and> (\<forall>i \<in> set idxs. i < cells_size c \<and> kc_shift c ! i = 0))"
| "cells_pre (OpSetRange i sv) c = (snapshot_ok sv \<and> i + cells_size sv \<le> cells_size c
     \<and> (\<forall>j < cells_size sv. kc_shift c ! (i + j) = 0))"

lemma acell_ok_drop_seq: "acell_ok x \<Longrightarrow> acell_ok (drop_seq s x)"
  by (auto simp: drop_seq_def acell_ok_def INT32_MAX_def)

lemma acell_ok_keep_seq: "acell_ok x \<Longrightarrow> acell_ok (keep_seq s x)"
  by (auto simp: keep_seq_def acell_ok_def INT32_MAX_def)

lemma acell_ok_shift_pos:
  "acell_ok x \<Longrightarrow> a_pos x \<noteq> -1 \<Longrightarrow> a_pos x + d \<le> INT32_MAX \<Longrightarrow> acell_ok (shift_pos d x)"
  by (auto simp: shift_pos_def acell_ok_def INT32_MAX_def)

lemma acell_ok_div_pos:
  assumes "acell_ok x" "a_pos x \<noteq> -1" "0 < d"
  shows "acell_ok (div_pos d x)"
proof -
  have "0 \<le> a_pos x" using assms by (simp add: acell_ok_def)
  then have "0 \<le> a_pos x div d" "a_pos x div d \<le> a_pos x"
    using assms(3) zdiv_mono2 [of "a_pos x" 1 d] by (simp_all add: pos_imp_zdiv_nonneg_iff)
  then show ?thesis using assms by (auto simp: div_pos_def acell_ok_def)
qed

lemma acell_ok_add_seq:
  "acell_ok x \<Longrightarrow> a_pos x \<noteq> -1 \<Longrightarrow> s < LLAMA_MAX_SEQ \<Longrightarrow> acell_ok (x\<lparr>a_seq := insert s (a_seq x)\<rparr>)"
  by (auto simp: acell_ok_def)

lemma acell_ok_set_pos:
  "acell_ok x \<Longrightarrow> 0 \<le> p \<Longrightarrow> p \<le> INT32_MAX \<Longrightarrow> acell_ok (x\<lparr>a_pos := p\<rparr>)"
  by (auto simp: acell_ok_def)

lemma acell_ok_set_ext: "acell_ok x \<Longrightarrow> acell_ok (x\<lparr>a_ext := e\<rparr>)"
  by (auto simp: acell_ok_def)

lemmas acell_ok_ops = acell_ok_drop_seq acell_ok_keep_seq acell_ok_shift_pos acell_ok_div_pos
  acell_ok_add_seq acell_ok_set_pos acell_ok_set_ext

text \<open>On represented objects an operation is an update of the list of cells.\<close>

fun cells_exec_abs :: "cells_op \<Rightarrow> bool \<times> acell list \<Rightarrow> bool \<times> acell list" where
  "cells_exec_abs OpReset (hs, xs) = (False, replicate (length xs) empty_cell)"
| "cells_exec_abs OpResetShift (hs, xs) = (False, map (\<lambda>x. x\<lparr>a_shift := 0\<rparr>) xs)"
| "cells_exec_abs (OpResize n) (hs, xs) = (False, replicate n empty_cell)"
| "cells_exec_abs (OpRm i) (hs, xs) = (hs, xs[i := empty_cell])"
| "cells_exec_abs (OpSeqRm i s) (hs, xs) = (hs, xs[i := drop_seq s (xs ! i)])"
| "cells_exec_abs (OpSeqKeep i s) (hs, xs) = (hs, xs[i := keep_seq s (xs ! i)])"
| "cells_exec_abs (OpSeqAdd i s) (hs, xs) = (hs, xs[i := (xs ! i)\<lparr>a_seq := insert s (a_seq (xs ! i))\<rparr>])"
| "cells_exec_abs (OpPosSet i p) (hs, xs) = (hs, xs[i := (xs ! i)\<lparr>a_pos := p\<rparr>])"
| "cells_exec_abs (OpExtSet i e) (hs, xs) = (hs, xs[i := (xs ! i)\<lparr>a_ext := e\<rparr>])"
| "cells_exec_abs (OpPosAdd i d) (hs, xs) = (True, xs[i := shift_pos d (xs ! i)])"
| "cells_exec_abs (OpPosDiv i d) (hs, xs) = (True, xs[i := div_pos d (xs ! i)])"
| "cells_exec_abs (OpSet idxs sv) (hs, xs) = (hs, restore_cells idxs (cells_abs sv) xs)"
| "cells_exec_abs (OpSetRange i sv) (hs, xs) = (hs, restore_cells [i..<i + cells_size sv] (cells_abs sv) xs)"

lemma cells_set_snapshot:
  assumes "\<forall>x \<in> set xs. acell_ok x" "snapshot_ok sv" "length idxs = cells_size sv"
    and "\<forall>i \<in> set idxs. i < length xs \<and> a_shift (xs ! i) = 0"
  shows "cells_set idxs sv (cells_repr hs xs) = Some (cells_repr hs (restore_cells idxs (cells_abs sv) xs))"
    "\<forall>x \<in> set (restore_cells idxs (cells_abs sv) xs). acell_ok x"
proof -
  have sv: "cells_saved (cells_abs sv) = sv" "\<forall>x \<in> set (cells_abs sv). acell_ok x"
    using assms(2) unfolding snapshot_ok_def by (rule conjunct1 [THEN sym], blast)
  have "length idxs = length (cells_abs sv)" using assms(3) by (simp add: cells_size_def)
  from cells_set_repr [OF assms(1) this sv(2) assms(4)]
  show "cells_set idxs sv (cells_repr hs xs) = Some (cells_repr hs (restore_cells idxs (cells_abs sv) xs))"
    "\<forall>x \<in> set (restore_cells idxs (cells_abs sv) xs). acell_ok x" unfolding sv(1) by blast+
qed

lemma cells_set_range_eq: "i + cells_size sv \<le> cells_size c \<Longrightarrow> cells_set_range i sv c = cells_set [i..<i + cells_size sv] sv c"
  by (simp add: cells_set_range_def cells_set_def)

lemma cells_cp_snapshot:
  assumes "cells_wf c" "\<forall>i \<in> set idxs. i < cells_size c \<and> kc_shift c ! i = 0"
  shows "\<exists>sv. cells_cp idxs c = Some sv \<and> snapshot_ok sv"
proof -
  obtain hs xs where c: "c = cells_repr hs xs" and ok: "\<forall>x \<in> set xs. acell_ok x"
    using assms(1) by (rule cells_wfE)
  have idx: "\<forall>i \<in> set idxs. i < length xs \<and> a_shift (xs ! i) = 0" using assms(2) by (auto simp: c)
  then have "cells_abs (cells_saved (map ((!) xs) idxs)) = map ((!) xs) idxs" by (intro cells_abs_saved) auto
  moreover have "\<forall>y \<in> set (map ((!) xs) idxs). acell_ok y" using idx ok by (simp add: acells_ok_nth)
  ultimately have "snapshot_ok (cells_saved (map ((!) xs) idxs))" by (simp only: snapshot_ok_def simp_thms)
  then show ?thesis using cells_cp_repr [OF idx, of hs] by (simp add: c)
qed

lemma cells_exec_repr:
  assumes "\<forall>x \<in> set xs. acell_ok x" "cells_pre op (cells_repr hs xs)"
  shows "cells_exec op (cells_repr hs xs) = Some (case_prod cells_repr (cells_exec_abs op (hs, xs)))"
proof -
  have ok: "i < length xs \<Longrightarrow> acell_ok (xs ! i)" for i
    using assms(1) by (rule acells_ok_nth)
  show ?thesis
  proof (cases op)
    case (OpResize n)
    then show ?thesis
      using cells_resize_eq [of "cells_repr hs xs" n] seq_pos_of_high [OF assms(1)] by simp
  next
    case (OpPosSet i p)
    then show ?thesis
      using assms(2) ok [of i] by (auto simp: cells_pos_set_repr acell_ok_def)
  next
    case (OpSeqKeep i s)
    then have i: "i < length xs" "s < LLAMA_MAX_SEQ"
      using assms(2) by simp_all
    then have pre: "i < length xs" "s < LLAMA_MAX_SEQ"
      "a_pos (xs ! i) \<noteq> -1 \<longrightarrow> a_seq (xs ! i) \<noteq> {}"
      using assms(2) OpSeqKeep by simp_all
    show ?thesis
      using cells_seq_keep_repr [OF assms(1) pre, of hs] OpSeqKeep by simp
  next
    case (OpSet idxs sv)
    then show ?thesis using assms(2) by (auto intro!: cells_set_snapshot(1) [OF assms(1)])
  next
    case (OpSetRange i sv)
    then show ?thesis
      using assms(2) by (auto simp: cells_set_range_eq nat_le_iff_add intro!: cells_set_snapshot(1) [OF assms(1)])
  qed (use assms ok in \<open>auto simp: cells_reset_repr cells_reset_shift_repr cells_rm_repr
     cells_seq_rm_repr cells_seq_keep_repr cells_seq_add_repr cells_ext_set_repr
     cells_pos_add_repr cells_pos_div_repr\<close>)
qed

lemma cells_exec_abs_ok:
  assumes "\<forall>x \<in> set xs. acell_ok x" "cells_pre op (cells_repr hs xs)"
  shows "\<forall>x \<in> set (snd (cells_exec_abs op (hs, xs))). acell_ok x"
proof -
  have ok: "i < length xs \<Longrightarrow> acell_ok (xs ! i)" for i
    using assms(1) by (rule acells_ok_nth)
  have upd: "acell_ok y \<Longrightarrow> \<forall>x \<in> set (xs[i := y]). acell_ok x" for i y
    using assms(1) by (rule acells_ok_update)
  have set1: "\<forall>x \<in> set (restore_cells idxs (cells_abs sv) xs). acell_ok x" if "op = OpSet idxs sv" for idxs sv
    using assms(2) that by (intro cells_set_snapshot(2) [OF assms(1)]) auto
  have set2: "\<forall>x \<in> set (restore_cells [i..<i + cells_size sv] (cells_abs sv) xs). acell_ok x" if "op = OpSetRange i sv" for i sv
    using assms(2) that by (intro cells_set_snapshot(2) [OF assms(1)]) (auto simp: nat_le_iff_add)
  have rest: ?thesis if "\<And>idxs sv. op \<noteq> OpSet idxs sv" "\<And>i sv. op \<noteq> OpSetRange i sv"
    by (cases op; (use that in blast)?; use assms ok in simp; (rule upd)?; (auto simp: acell_ok_ops)?)
       (auto simp: acell_ok_def)
  show ?thesis
  proof (cases op)
    case (OpSet idxs sv)
    then show ?thesis using set1 by simp
  next
    case (OpSetRange i sv)
    then show ?thesis using set2 by simp
  qed (rule rest; simp)+
qed

text \<open>Every object reachable from a fresh one by calls the comments of the class allow.\<close>

inductive cells_reachable :: "llama_kv_cells \<Rightarrow> bool" where
  fresh: "cells_reachable cells_new"
| step: "cells_reachable c \<Longrightarrow> cells_pre op c \<Longrightarrow> cells_exec op c = Some c' \<Longrightarrow> cells_reachable c'"

lemma cells_new_repr: "cells_new = cells_repr False []"
  by (rule cells_repr_eqI) (simp_all add: cells_new_def used_of_def seq_pos_of_def)

lemma cells_exec_wf:
  assumes "cells_wf c" "cells_pre op c"
  shows "\<exists>c'. cells_exec op c = Some c' \<and> cells_wf c'"
proof -
  obtain hs xs where c: "c = cells_repr hs xs" and ok: "\<forall>x \<in> set xs. acell_ok x"
    using assms(1) by (rule cells_wfE)
  obtain hs' ys where ys: "cells_exec_abs op (hs, xs) = (hs', ys)"
    by fastforce
  have "cells_exec op c = Some (cells_repr hs' ys)"
    using cells_exec_repr [OF ok] assms(2) by (simp add: c ys)
  moreover have "\<forall>x \<in> set ys. acell_ok x"
    using cells_exec_abs_ok [OF ok] assms(2) by (simp add: c ys)
  ultimately show ?thesis by simp
qed

lemma cells_reachable_wf: "cells_reachable c \<Longrightarrow> cells_wf c"
proof (induction rule: cells_reachable.induct)
  case fresh
  then show ?case by (simp add: cells_new_repr)
next
  case (step c op c')
  then show ?case using cells_exec_wf by fastforce
qed

text \<open>
  C1: The metadata invariant of \<open>llama_kv_cells\<close>. In every object reached from a fresh one
  by the mutating operations (\<open>reset\<close>, \<open>reset_shift\<close>, \<open>resize\<close>, \<open>rm\<close>, \<open>seq_rm\<close>, \<open>seq_keep\<close>, \<open>seq_add\<close>,
  \<open>pos_set\<close>, \<open>ext_set\<close>, \<open>pos_add\<close>, \<open>pos_div\<close> and both forms of \<open>set\<close>), each called where \<open>cells_pre\<close>
  allows it, the set \<open>used\<close> and the per-sequence position index \<open>seq_pos\<close> agree with the cell
  vectors, and the next such call returns, none of its assertions failing (in particular
  \<open>assert(n == 1)\<close> of \<open>seq_pos_dec\<close>). Copying cells without a pending shift returns a snapshot that \<open>set\<close> accepts.
\<close>
theorem kv_cells_invariant:
  assumes "cells_reachable c" "cells_pre op c"
  shows "cells_wf c \<and> cells_exec op c \<noteq> None
    \<and> (\<forall>idxs. (\<forall>i \<in> set idxs. i < cells_size c \<and> kc_shift c ! i = 0)
          \<longrightarrow> (\<exists>sv. cells_cp idxs c = Some sv \<and> snapshot_ok sv))"
  using cells_reachable_wf [OF assms(1)] cells_exec_wf [OF _ assms(2)] cells_cp_snapshot by auto

theorem kv_cells_invariant_witness:
  "\<exists>c. cells_reachable c \<and> kc_pos c = [5, -1] \<and> kc_seq c = [{0}, {}] \<and> cells_exec (OpSeqRm 0 0) c \<noteq> None"
proof -
  let ?x = "empty_cell\<lparr>a_pos := 5\<rparr>" and ?y = "empty_cell\<lparr>a_pos := 5, a_seq := {0}\<rparr>"
  have 0: "cells_reachable (cells_repr False [empty_cell, empty_cell])"
    by (rule cells_reachable.step [OF cells_reachable.fresh, of "OpResize 2"])
      (simp_all add: cells_new_repr cells_resize_eq seq_pos_of_def numeral_2_eq_2)
  have 1: "cells_reachable (cells_repr False [?x, empty_cell])"
    by (rule cells_reachable.step [OF 0, of "OpPosSet 0 5"]) (simp_all add: cells_pos_set_repr INT32_MAX_def)
  have 2: "cells_reachable (cells_repr False [?y, empty_cell])"
    by (rule cells_reachable.step [OF 1, of "OpSeqAdd 0 0"]) (simp_all add: cells_seq_add_repr LLAMA_MAX_SEQ_def)
  have "cells_exec (OpSeqRm 0 0) (cells_repr False [?y, empty_cell]) \<noteq> None"
    using kv_cells_invariant [OF 2, of "OpSeqRm 0 0"] by simp
  with 2 show ?thesis by (intro exI [of _ "cells_repr False [?y, empty_cell]"]) simp
qed

text \<open>
  The per-sequence queries of \<open>llama_kv_cells\<close>. \<open>seq_pos_min\<close> and
  \<open>seq_pos_max\<close> return \<open>-1\<close> exactly when no cell carries the sequence, and otherwise the
  least and the greatest position of the cells that do.
\<close>
theorem seq_pos_min_max_correct:
  assumes "cells_wf c" "s < LLAMA_MAX_SEQ"
  defines "P \<equiv> {kc_pos c ! i |i. i < cells_size c \<and> s \<in> kc_seq c ! i}"
  shows "cells_seq_pos_min (int s) c = Some (if P = {} then -1 else Min P)
    \<and> cells_seq_pos_max (int s) c = Some (if P = {} then -1 else Max P)"
proof -
  obtain hs xs where c: "c = cells_repr hs xs" and ok: "\<forall>x \<in> set xs. acell_ok x"
    using assms(1) by (rule cells_wfE)
  have "P = seq_positions xs s"
    unfolding P_def c by (force simp: seq_positions_def in_set_conv_nth)
  then show ?thesis
    using assms(2) by (simp add: c pos_min_of_def pos_max_of_def)
qed

theorem seq_pos_min_max_correct_witness:
  "cells_seq_pos_min 3 (cells_repr False [\<lparr>a_pos = 7, a_ext = ext_default, a_shift = 0, a_seq = {3}\<rparr>,
      empty_cell, \<lparr>a_pos = 4, a_ext = ext_default, a_shift = 0, a_seq = {1, 3}\<rparr>]) = Some 4"
proof -
  let ?c = "cells_repr False [\<lparr>a_pos = 7, a_ext = ext_default, a_shift = 0, a_seq = {3}\<rparr>,
      empty_cell, \<lparr>a_pos = 4, a_ext = ext_default, a_shift = 0, a_seq = {1, 3}\<rparr>]"
  have wf: "cells_wf ?c"
    by (simp add: acell_ok_def INT32_MAX_def LLAMA_MAX_SEQ_def)
  have "{i. i < cells_size ?c \<and> 3 \<in> kc_seq ?c ! i} = {0, 2}"
    by (auto simp: less_Suc_eq numeral_2_eq_2)
  moreover have "{kc_pos ?c ! i |i. i < cells_size ?c \<and> 3 \<in> kc_seq ?c ! i}
      = (!) (kc_pos ?c) ` {i. i < cells_size ?c \<and> 3 \<in> kc_seq ?c ! i}"
    by (simp only: setcompr_eq_image)
  ultimately have "{kc_pos ?c ! i |i. i < cells_size ?c \<and> 3 \<in> kc_seq ?c ! i} = {7, 4}"
    by simp
  then show ?thesis
    using seq_pos_min_max_correct [OF wf, of 3] by (simp add: LLAMA_MAX_SEQ_def)
qed

text \<open>
  Looking up the token before a position. Among the cells of sequence \<open>s\<close> at a position
  not above \<open>p\<close>, \<open>seq_pos_tok_le\<close> reads the token of the one with the greatest position
  and, among cells that share it, the highest index; without such a cell it returns
  \<open>LLAMA_TOKEN_NULL\<close>.
\<close>
theorem seq_pos_tok_le_correct:
  fixes p :: llama_pos
  assumes "cells_wf c" "s < LLAMA_MAX_SEQ" "cells_size c \<le> 2 ^ 32"
  defines "B \<equiv> {(kc_pos c ! i, i) |i. i < cells_size c \<and> s \<in> kc_seq c ! i \<and> kc_pos c ! i \<le> p}"
  shows "cells_seq_pos_tok_le (int s) p c
    = Some (if B = {} then LLAMA_TOKEN_NULL else ext_tok (kc_ext c ! snd (Max B)))"
proof -
  obtain hs xs where c: "c = cells_repr hs xs" and ok: "\<forall>x \<in> set xs. acell_ok x"
    using assms(1) by (rule cells_wfE)
  have B: "B = cells_up_to xs s p"
    unfolding B_def cells_up_to_def by (rule Collect_cong) (auto simp: c)
  then have "B \<noteq> {} \<Longrightarrow> snd (Max B) < length xs" by (simp add: cells_up_to_Max)
  then show ?thesis
    using assms(2,3) cells_seq_pos_tok_le_repr [of "int s" xs p hs] by (simp add: c B tok_up_to_def)
qed

theorem seq_pos_tok_le_correct_witness:
  "cells_seq_pos_tok_le 3 6 (cells_repr False
      [\<lparr>a_pos = 7, a_ext = ext_default, a_shift = 0, a_seq = {3}\<rparr>, empty_cell,
       \<lparr>a_pos = 4, a_ext = ext_default\<lparr>ext_tok := 99\<rparr>, a_shift = 0, a_seq = {1, 3}\<rparr>]) = Some 99"
proof -
  let ?c = "cells_repr False [\<lparr>a_pos = 7, a_ext = ext_default, a_shift = 0, a_seq = {3}\<rparr>,
      empty_cell,
      \<lparr>a_pos = 4, a_ext = ext_default\<lparr>ext_tok := 99\<rparr>, a_shift = 0, a_seq = {1, 3}\<rparr>]"
  have wf: "cells_wf ?c"
    by (simp add: acell_ok_def INT32_MAX_def LLAMA_MAX_SEQ_def)
  have "{i. i < cells_size ?c \<and> 3 \<in> kc_seq ?c ! i \<and> kc_pos ?c ! i \<le> 6} = {2}"
    by (auto simp: less_Suc_eq numeral_2_eq_2)
  moreover have "{(kc_pos ?c ! i, i) |i. i < cells_size ?c \<and> 3 \<in> kc_seq ?c ! i \<and> kc_pos ?c ! i \<le> 6}
      = (\<lambda>i. (kc_pos ?c ! i, i)) ` {i. i < cells_size ?c \<and> 3 \<in> kc_seq ?c ! i \<and> kc_pos ?c ! i \<le> 6}"
    by (simp only: setcompr_eq_image)
  ultimately have "{(kc_pos ?c ! i, i) |i. i < cells_size ?c \<and> 3 \<in> kc_seq ?c ! i \<and> kc_pos ?c ! i \<le> 6}
      = {(4, 2)}"
    by simp
  then show ?thesis
    using seq_pos_tok_le_correct [OF wf, of 3 6] by (simp add: LLAMA_MAX_SEQ_def)
qed

text \<open>
  C31: Saving and restoring cells is a round trip. Let \<open>c\<close> be copied at \<open>idxs\<close> by
  \<open>cp\<close> and changed into \<open>c'\<close> only at those cells, with no shift pending there. Then
  \<open>set\<close> on \<open>c'\<close> gives back \<open>c\<close> exactly, with both of its indexes.
\<close>
theorem cells_cp_set_roundtrip:
  assumes "cells_wf c" "cells_wf c'" "cells_size c' = cells_size c"
    and "kc_has_shift c' = kc_has_shift c"
    and "\<forall>i \<in> set idxs. i < cells_size c \<and> kc_shift c ! i = 0 \<and> kc_shift c' ! i = 0"
    and "\<forall>i < cells_size c. i \<notin> set idxs \<longrightarrow> cells_abs c' ! i = cells_abs c ! i"
  shows "\<exists>sv. cells_cp idxs c = Some sv \<and> cells_set idxs sv c' = Some c"
proof -
  obtain hs xs where c: "c = cells_repr hs xs" and ok: "\<forall>x \<in> set xs. acell_ok x"
    using assms(1) by (rule cells_wfE)
  obtain hs' zs where c': "c' = cells_repr hs' zs" and ok': "\<forall>x \<in> set zs. acell_ok x"
    using assms(2) by (rule cells_wfE)
  have len: "length zs = length xs" and hs: "hs' = hs"
    using assms(3,4) by (simp_all add: c c')
  have at: "i < length xs \<and> a_shift (xs ! i) = 0 \<and> a_shift (zs ! i) = 0" if "i \<in> set idxs" for i
    using bspec [OF assms(5) that] by (auto simp: c c' len)
  then have idx: "\<forall>i \<in> set idxs. i < length xs \<and> a_shift (xs ! i) = 0"
    and idx': "\<forall>i \<in> set idxs. i < length zs \<and> a_shift (zs ! i) = 0"
    by (simp_all add: len)
  have undo: "restore_cells idxs (map ((!) xs) idxs) zs = xs"
    by (rule restore_cells_undo) (use len idx assms(6) in \<open>simp_all add: c c'\<close>)
  have "\<forall>y \<in> set (map ((!) xs) idxs). acell_ok y"
    using idx ok by (simp add: acells_ok_nth)
  then have "cells_set idxs (cells_saved (map ((!) xs) idxs)) (cells_repr hs' zs)
      = Some (cells_repr hs' (restore_cells idxs (map ((!) xs) idxs) zs))"
    using cells_set_repr [OF ok' _ _ idx'] by (metis length_map)
  then have "cells_set idxs (cells_saved (map ((!) xs) idxs)) c' = Some c"
    by (simp only: undo c c' hs)
  moreover have "cells_cp idxs c = Some (cells_saved (map ((!) xs) idxs))"
    unfolding c by (rule cells_cp_repr [OF idx])
  ultimately show ?thesis by blast
qed

theorem cells_cp_set_roundtrip_witness:
  "\<exists>sv. cells_cp [1] (cells_repr False [\<lparr>a_pos = 7, a_ext = ext_default, a_shift = 0, a_seq = {3}\<rparr>,
        empty_cell]) = Some sv
    \<and> cells_set [1] sv (cells_repr False [\<lparr>a_pos = 7, a_ext = ext_default, a_shift = 0, a_seq = {3}\<rparr>,
        \<lparr>a_pos = 8, a_ext = ext_default, a_shift = 0, a_seq = {3, 4}\<rparr>])
      = Some (cells_repr False [\<lparr>a_pos = 7, a_ext = ext_default, a_shift = 0, a_seq = {3}\<rparr>, empty_cell])"
  by (rule cells_cp_set_roundtrip; simp add: less_Suc_eq acell_ok_def INT32_MAX_def LLAMA_MAX_SEQ_def)

end
