(* ===== verification/Batch.thy ===== *)
theory Batch
  imports Prelude
begin

section \<open>Batches: the input API and the batch allocator\<close>

text \<open>
  Model of \<open>src/llama-batch.h\<close> and \<open>src/llama-batch.cpp\<close> up to the splits (those are in
  \<open>BatchSplit\<close>): the input object \<open>llama_batch_ext\<close> with its operations, the conversion of
  an old \<open>llama_batch\<close>, and \<open>llama_batch_allocr\<close> with \<open>init\<close>, which validates an input
  batch and lays it out in flat arrays.

  A pointer argument that may be null is an \<open>option\<close>; the pointers inside the internal
  \<open>llama_batch\<close> of the allocator only alias its own vectors, so the vectors stand for them
  and \<open>al_has_token\<close>, \<open>al_has_embd\<close> say which pointers are not null. The iteration order of
  \<open>std::unordered_set\<close> is not specified: it is the parameter \<open>ord\<close>, of which only
  \<open>set (ord A) = A \<and> distinct (ord A)\<close> is used. The memory module is seen through its
  \<open>seq_pos_min\<close> and \<open>seq_pos_max\<close>. The debug output is not modelled.
\<close>

definition GGML_MROPE_SECTIONS :: nat where
  "GGML_MROPE_SECTIONS = 4"

subsection \<open>The input object\<close>

record memory_view =
  mem_pos_min :: "nat \<Rightarrow> llama_pos"
  mem_pos_max :: "nat \<Rightarrow> llama_pos"

record ext_token =
  et_id :: llama_token
  et_has_embd :: bool
  et_embd_off :: nat
  et_has_state :: bool
  et_state_off :: nat
  et_output :: bool
  et_decision_order :: int
  et_seq_ids :: "llama_seq_id set"
  et_pos :: "llama_pos list"

definition ext_token_new :: ext_token where
  "ext_token_new = \<lparr>et_id = LLAMA_TOKEN_NULL, et_has_embd = False, et_embd_off = 0,
     et_has_state = False, et_state_off = 0, et_output = False, et_decision_order = 0,
     et_seq_ids = {}, et_pos = [0, 0, 0, 0]\<rparr>"

record llama_batch_ext =
  be_n_tokens_max :: nat
  be_n_embd_inp :: nat
  be_n_embd_inp_enc :: nat
  be_n_embd_state :: nat
  be_n_seq_max :: llama_seq_id
  be_mem :: "memory_view option"
  be_n_vocab :: llama_token
  be_n_pos_per_embd :: nat
  be_n_embd :: nat
  be_tokens :: "ext_token list"
  be_embd :: "f32 list"
  be_state :: "f32 list"

text \<open>The constructor used without a context.\<close>

definition batch_ext_new ::
  "nat \<Rightarrow> nat \<Rightarrow> nat \<Rightarrow> llama_seq_id \<Rightarrow> memory_view option \<Rightarrow> llama_token \<Rightarrow> nat \<Rightarrow> llama_batch_ext" where
  "batch_ext_new n_tokens_max n_embd_inp n_embd_inp_enc n_seq_max mem n_vocab n_pos =
     \<lparr>be_n_tokens_max = n_tokens_max, be_n_embd_inp = n_embd_inp,
      be_n_embd_inp_enc = n_embd_inp_enc, be_n_embd_state = 0, be_n_seq_max = n_seq_max,
      be_mem = mem, be_n_vocab = n_vocab, be_n_pos_per_embd = n_pos, be_n_embd = 0,
      be_tokens = [], be_embd = [], be_state = []\<rparr>"

definition batch_clear :: "llama_batch_ext \<Rightarrow> llama_batch_ext" where
  "batch_clear b = b\<lparr>be_tokens := [], be_embd := [], be_state := [], be_n_embd := 0\<rparr>"

definition batch_add_token :: "llama_seq_id \<Rightarrow> llama_batch_ext \<Rightarrow> int \<times> llama_batch_ext" where
  "batch_add_token sid b =
     (if length (be_tokens b) \<ge> be_n_tokens_max b then (-1, b)
      else if sid < 0 \<or> sid \<ge> be_n_seq_max b then (-3, b)
      else (let t = ext_token_new\<lparr>et_seq_ids := insert sid {}\<rparr>;
                ts = be_tokens b @ [t]
            in (int (length ts) - 1, b\<lparr>be_tokens := ts\<rparr>)))"

definition batch_idx_ok :: "int \<Rightarrow> llama_batch_ext \<Rightarrow> bool" where
  "batch_idx_ok idx b \<longleftrightarrow> \<not> (idx < 0 \<or> idx \<ge> int (length (be_tokens b)))"

definition upd_token :: "int \<Rightarrow> (ext_token \<Rightarrow> ext_token) \<Rightarrow> llama_batch_ext \<Rightarrow> llama_batch_ext" where
  "upd_token idx f b = b\<lparr>be_tokens := (be_tokens b)[nat idx := f (be_tokens b ! nat idx)]\<rparr>"

definition batch_add_seq :: "int \<Rightarrow> llama_seq_id \<Rightarrow> llama_batch_ext \<Rightarrow> bool \<times> llama_batch_ext" where
  "batch_add_seq idx sid b =
     (if \<not> batch_idx_ok idx b then (False, b)
      else if sid < 0 \<or> sid \<ge> be_n_seq_max b then (False, b)
      else (True, upd_token idx (\<lambda>t. t\<lparr>et_seq_ids := insert sid (et_seq_ids t)\<rparr>) b))"

definition batch_set_token_id :: "int \<Rightarrow> llama_token \<Rightarrow> llama_batch_ext \<Rightarrow> bool \<times> llama_batch_ext" where
  "batch_set_token_id idx tid b =
     (if \<not> batch_idx_ok idx b then (False, b)
      else if tid < 0 \<or> tid \<ge> be_n_vocab b then (False, b)
      else (True, upd_token idx (\<lambda>t. t\<lparr>et_id := tid\<rparr>) b))"

text \<open>\<open>llama_embd\<close>: \<open>n_rows * n_embd\<close> floats, or a null pointer.\<close>

record llama_embd =
  em_data :: "f32 list option"
  em_n_rows :: nat
  em_n_embd :: nat

definition batch_set_token_embd :: "int \<Rightarrow> llama_embd \<Rightarrow> llama_batch_ext \<Rightarrow> (bool \<times> llama_batch_ext) option" where
  "batch_set_token_embd idx e b =
     (if \<not> batch_idx_ok idx b then Some (False, b)
      else (case em_data e of
        None \<Rightarrow> Some (False, b)
      | Some src \<Rightarrow>
          (let n_total = em_n_rows e * em_n_embd e in
           if be_n_embd b = 0 \<and> n_total \<noteq> be_n_embd_inp b \<and> n_total \<noteq> be_n_embd_inp_enc b
             then Some (False, b)
           else if be_n_embd b \<noteq> 0 \<and> n_total \<noteq> be_n_embd b then Some (False, b)
           else (let b = (if be_n_embd b = 0 then b\<lparr>be_n_embd := n_total\<rparr> else b) in
             if et_has_embd (be_tokens b ! nat idx) then Some (False, b)
             else do {
               check (n_total \<le> length src);
               Some (True, (upd_token idx (\<lambda>t. t\<lparr>et_has_embd := True,
                                                  et_embd_off := length (be_embd b)\<rparr>) b)
                 \<lparr>be_embd := be_embd b @ take n_total src\<rparr>) }))))"

definition batch_set_token_state :: "int \<Rightarrow> llama_embd \<Rightarrow> llama_batch_ext \<Rightarrow> (bool \<times> llama_batch_ext) option" where
  "batch_set_token_state idx e b =
     (if \<not> batch_idx_ok idx b then Some (False, b)
      else (case em_data e of
        None \<Rightarrow> Some (False, b)
      | Some src \<Rightarrow>
          if be_n_embd_state b = 0 then Some (False, b)
          else (let n_total = em_n_rows e * em_n_embd e in
            if n_total \<noteq> be_n_embd_state b then Some (False, b)
            else if et_has_state (be_tokens b ! nat idx) then Some (False, b)
            else do {
              check (n_total \<le> length src);
              Some (True, (upd_token idx (\<lambda>t. t\<lparr>et_has_state := True,
                                                 et_state_off := length (be_state b)\<rparr>) b)
                \<lparr>be_state := be_state b @ take n_total src\<rparr>) })))"

text \<open>The loop over the \<open>n_pos\<close> sections of \<open>tok.pos\<close>, an array of four.\<close>

definition set_pos_sections :: "nat \<Rightarrow> llama_pos list \<Rightarrow> llama_pos list \<Rightarrow> llama_pos list option" where
  "set_pos_sections n_pos pos_in = for_opt (\<lambda>i pos. do {
     p \<leftarrow> nth_opt pos_in i;
     check (i < length pos);
     Some (pos[i := p]) }) [0..<n_pos]"

definition batch_set_token_pos ::
  "int \<Rightarrow> llama_pos list option \<Rightarrow> llama_batch_ext \<Rightarrow> (bool \<times> llama_batch_ext) option" where
  "batch_set_token_pos idx pos_in b =
     (if \<not> batch_idx_ok idx b then Some (False, b)
      else (case pos_in of
        None \<Rightarrow> Some (False, b)
      | Some ps \<Rightarrow>
          (let t = be_tokens b ! nat idx;
               n_pos = (if et_id t \<noteq> LLAMA_TOKEN_NULL then 1 else be_n_pos_per_embd b)
           in do {
             pos \<leftarrow> set_pos_sections n_pos ps (et_pos t);
             Some (True, upd_token idx (\<lambda>t. t\<lparr>et_pos := pos\<rparr>) b) })))"

definition batch_set_output :: "int \<Rightarrow> bool \<Rightarrow> llama_batch_ext \<Rightarrow> bool \<times> llama_batch_ext" where
  "batch_set_output idx out b =
     (if \<not> batch_idx_ok idx b then (False, b)
      else (True, upd_token idx (\<lambda>t. t\<lparr>et_output := out\<rparr>) b))"

definition batch_set_decision_order :: "int \<Rightarrow> int \<Rightarrow> llama_batch_ext \<Rightarrow> bool \<times> llama_batch_ext" where
  "batch_set_decision_order idx order b =
     (if \<not> batch_idx_ok idx b then (False, b)
      else (True, upd_token idx (\<lambda>t. t\<lparr>et_decision_order := order\<rparr>) b))"

text \<open>The two compound calls of the C API.\<close>

definition llama_batch_ext_add_token ::
  "llama_seq_id \<Rightarrow> llama_token \<Rightarrow> llama_batch_ext \<Rightarrow> int \<times> llama_batch_ext" where
  "llama_batch_ext_add_token sid tid b =
     (let (idx, b) = batch_add_token sid b in
      if idx < 0 then (idx, b)
      else (let (ok, b) = batch_set_token_id idx tid b in
            if \<not> ok then (-2, b) else (idx, b)))"

definition llama_batch_ext_add_embd ::
  "llama_seq_id \<Rightarrow> llama_embd \<Rightarrow> llama_batch_ext \<Rightarrow> (int \<times> llama_batch_ext) option" where
  "llama_batch_ext_add_embd sid e b =
     (let (idx, b) = batch_add_token sid b in
      if idx < 0 then Some (idx, b)
      else do {
        (ok, b) \<leftarrow> batch_set_token_embd idx e b;
        if \<not> ok then Some (-2, b) else Some (idx, b) })"

subsection \<open>Converting an old batch\<close>

record llama_batch_old =
  bi_n_tokens :: nat
  bi_token :: "llama_token list option"
  bi_embd :: "f32 list option"
  bi_pos :: "llama_pos list option"
  bi_n_seq_id :: "int list option"
  bi_seq_id :: "llama_seq_id list list option"
  bi_logits :: "int list option"

definition llama_batch_get_one :: "llama_token list \<Rightarrow> nat \<Rightarrow> llama_batch_old" where
  "llama_batch_get_one tokens n_tokens = \<lparr>bi_n_tokens = n_tokens, bi_token = Some tokens,
     bi_embd = None, bi_pos = None, bi_n_seq_id = None, bi_seq_id = None, bi_logits = None\<rparr>"

definition memory_seq_pos_max :: "memory_view option \<Rightarrow> nat \<Rightarrow> llama_pos" where
  "memory_seq_pos_max mem s = (case mem of None \<Rightarrow> -1 | Some m \<Rightarrow> mem_pos_max m s)"

text \<open>The position part of the loop body: the token's \<open>pos\<close> array and \<open>pos_next\<close> afterwards.\<close>

definition compat_pos :: "llama_batch_old \<Rightarrow> nat \<Rightarrow> nat \<Rightarrow> llama_seq_id list \<Rightarrow> llama_pos list
    \<Rightarrow> (llama_pos list \<times> llama_pos list) option" where
  "compat_pos bi n_pos i sids pos_next = (case bi_pos bi of
     Some ps \<Rightarrow>
       if bi_token bi \<noteq> None then do {
         p \<leftarrow> nth_opt ps i;
         Some ([p, 0, 0, 0], pos_next) }
       else do {
         pos \<leftarrow> for_opt (\<lambda>j pos. do {
           p \<leftarrow> nth_opt ps (j * bi_n_tokens bi + i);
           check (j < length pos);
           Some (pos[j := p]) }) [0..<n_pos] [0, 0, 0, 0];
         Some (pos, pos_next) }
   | None \<Rightarrow> do {
       s \<leftarrow> nth_opt sids 0;
       p \<leftarrow> inth_opt pos_next s;
       p' \<leftarrow> i32 (p + 1);
       Some ([p, 0, 0, 0], pos_next[nat s := p']) })"

text \<open>The embedding part: legacy MTP batches carry the hidden state next to the token ids.\<close>

definition compat_embd :: "llama_batch_old \<Rightarrow> nat \<Rightarrow> nat \<Rightarrow> ext_token \<Rightarrow> llama_batch_ext
    \<Rightarrow> (ext_token \<times> llama_batch_ext) option" where
  "compat_embd bi n_embd_row i t b = (case bi_embd bi of
     None \<Rightarrow> Some (t, b)
   | Some src \<Rightarrow>
       if bi_token bi \<noteq> None \<and> be_n_embd_state b > 0 then do {
         check (i * be_n_embd_state b + be_n_embd_state b \<le> length src);
         Some (t\<lparr>et_has_state := True, et_state_off := length (be_state b)\<rparr>,
               b\<lparr>be_state := be_state b @ take (be_n_embd_state b) (drop (i * be_n_embd_state b) src)\<rparr>) }
       else do {
         check (i * n_embd_row + n_embd_row \<le> length src);
         Some (t\<lparr>et_has_embd := True, et_embd_off := length (be_embd b)\<rparr>,
               b\<lparr>be_embd := be_embd b @ take n_embd_row (drop (i * n_embd_row) src),
                 be_n_embd := n_embd_row\<rparr>) })"

definition compat_body :: "llama_batch_old \<Rightarrow> nat \<Rightarrow> nat \<Rightarrow> llama_batch_ext \<times> llama_pos list
    \<Rightarrow> (llama_batch_ext \<times> llama_pos list) option" where
  "compat_body bi n_embd_row i = (\<lambda>(b, pos_next). do {
     n_sid \<leftarrow> (case bi_n_seq_id bi of None \<Rightarrow> Some 1 | Some ns \<Rightarrow> nth_opt ns i);
     sids \<leftarrow> (case bi_seq_id bi of None \<Rightarrow> Some [0] | Some ss \<Rightarrow> nth_opt ss i);
     check (nat n_sid \<le> length sids);
     (pos, pos_next) \<leftarrow> compat_pos bi (be_n_pos_per_embd b) i sids pos_next;
     tid \<leftarrow> (case bi_token bi of None \<Rightarrow> Some LLAMA_TOKEN_NULL | Some ts \<Rightarrow> nth_opt ts i);
     (t, b) \<leftarrow> compat_embd bi n_embd_row i
       (ext_token_new\<lparr>et_seq_ids := set (take (nat n_sid) sids), et_pos := pos, et_id := tid\<rparr>) b;
     out \<leftarrow> (case bi_logits bi of
       None \<Rightarrow> Some (Suc i = bi_n_tokens bi)
     | Some ls \<Rightarrow> do { l \<leftarrow> nth_opt ls i; Some (l \<noteq> 0) });
     Some (b\<lparr>be_tokens := be_tokens b @ [t\<lparr>et_output := out\<rparr>]\<rparr>, pos_next) })"

definition batch_compat_init :: "llama_batch_ext \<Rightarrow> llama_batch_old \<Rightarrow> nat \<Rightarrow> llama_batch_ext option" where
  "batch_compat_init b bi n_embd_row =
     (let n_embd_row = (if n_embd_row = 0 then be_n_embd_inp b else n_embd_row) in do {
      pos_next \<leftarrow> for_opt (\<lambda>s ps. do {
        p \<leftarrow> i32 (memory_seq_pos_max (be_mem b) s + 1);
        Some (ps @ [p]) }) [0..<nat (be_n_seq_max b)] [];
      (b, _) \<leftarrow> for_opt (compat_body bi n_embd_row) [0..<bi_n_tokens bi] (b, pos_next);
      Some b })"

subsection \<open>The allocator\<close>

record llama_batch_allocr =
  al_n_pos_per_embd :: nat
  al_allow_mixed :: bool
  al_n_embd :: nat
  al_n_embd_state :: nat
  al_n_seq_max :: nat
  al_n_outputs :: nat
  al_n_tokens :: nat
  al_has_token :: bool
  al_has_embd :: bool
  al_token_vec :: "llama_token list"
  al_embd_vec :: "f32 list"
  al_is_embd_vec :: "bool list"
  al_state_vec :: "f32 list"
  al_pos :: "llama_pos list"
  al_seq_id :: "llama_seq_id list list"
  al_seq_id_unq :: "nat list"
  al_seq_idx :: "int list"
  al_output :: "bool list"
  al_decision_order :: "int list"
  al_has_cpl :: bool
  al_seq_pos :: "nat \<Rightarrow> llama_pos set"
  al_seq_cpl :: "nat \<Rightarrow> nat \<Rightarrow> bool"
  al_seq_set :: "nat set list"
  al_seq_set_map :: "nat set \<Rightarrow> nat list"
  al_out_ids :: "nat list"
  al_n_used :: nat
  al_used :: "bool list"

definition allocr_new :: "nat \<Rightarrow> bool \<Rightarrow> llama_batch_allocr" where
  "allocr_new n_pos allow_mixed = \<lparr>al_n_pos_per_embd = n_pos, al_allow_mixed = allow_mixed,
     al_n_embd = 0, al_n_embd_state = 0, al_n_seq_max = 0, al_n_outputs = 0, al_n_tokens = 0,
     al_has_token = False, al_has_embd = False, al_token_vec = [], al_embd_vec = [],
     al_is_embd_vec = [], al_state_vec = [], al_pos = [], al_seq_id = [], al_seq_id_unq = [],
     al_seq_idx = replicate LLAMA_MAX_SEQ (-1), al_output = [], al_decision_order = [],
     al_has_cpl = False, al_seq_pos = (\<lambda>_. {}), al_seq_cpl = (\<lambda>_ _. False), al_seq_set = [],
     al_seq_set_map = (\<lambda>_. []), al_out_ids = [], al_n_used = 0, al_used = []\<rparr>"

lemma allocr_new_sel [simp]:
  "al_n_pos_per_embd (allocr_new n m) = n" "al_allow_mixed (allocr_new n m) = m"
  by (simp_all add: allocr_new_def)

definition alloc_clear :: "llama_batch_allocr \<Rightarrow> llama_batch_allocr" where
  "alloc_clear al = al\<lparr>al_n_outputs := 0, al_n_tokens := 0, al_has_token := False,
     al_has_embd := False, al_token_vec := [], al_embd_vec := [], al_is_embd_vec := [],
     al_state_vec := [], al_pos := [], al_seq_id := [], al_seq_id_unq := [], al_output := [],
     al_decision_order := [], al_seq_pos := (\<lambda>_. {}), al_seq_cpl := (\<lambda>_ _. False),
     al_seq_set := [], al_seq_set_map := (\<lambda>_. []),
     al_seq_idx := map (\<lambda>_. -1) (al_seq_idx al)\<rparr>"

definition alloc_split_reset :: "llama_batch_allocr \<Rightarrow> llama_batch_allocr" where
  "alloc_split_reset al = al\<lparr>al_out_ids := [], al_n_used := 0,
     al_used := replicate (al_n_tokens al) False\<rparr>"

definition alloc_seq_pos_min :: "nat \<Rightarrow> llama_batch_allocr \<Rightarrow> llama_pos" where
  "alloc_seq_pos_min s al = (if al_seq_pos al s = {} then -1 else Min (al_seq_pos al s))"

definition alloc_seq_pos_max :: "nat \<Rightarrow> llama_batch_allocr \<Rightarrow> llama_pos" where
  "alloc_seq_pos_max s al = (if al_seq_pos al s = {} then -1 else Max (al_seq_pos al s))"

subsection \<open>\<open>init\<close>, phase by phase\<close>

text \<open>
  Every phase returns \<open>(False, s)\<close> where the code does \<open>return false\<close>. The first one counts
  the entries by content.
\<close>

record content_counts =
  n_tok_only :: nat
  n_embd_only :: nat
  n_both :: nat

definition content_step :: "bool \<Rightarrow> ext_token \<Rightarrow> content_counts \<Rightarrow> (bool \<times> content_counts) option" where
  "content_step has_state t c =
     (let is_tok = (et_id t \<noteq> LLAMA_TOKEN_NULL); is_emb = et_has_embd t in
      if \<not> is_tok \<and> \<not> is_emb then Some (False, c)
      else if et_has_state t \<noteq> has_state then Some (False, c)
      else Some (True, \<lparr>n_tok_only = n_tok_only c + of_bool (is_tok \<and> \<not> is_emb),
                        n_embd_only = n_embd_only c + of_bool (is_emb \<and> \<not> is_tok),
                        n_both = n_both c + of_bool (is_tok \<and> is_emb)\<rparr>))"

definition content_scan :: "ext_token list \<Rightarrow> (bool \<times> content_counts) option" where
  "content_scan ts = do {
     t0 \<leftarrow> nth_opt ts 0;
     for_ret (content_step (et_has_state t0)) ts \<lparr>n_tok_only = 0, n_embd_only = 0, n_both = 0\<rparr> }"

definition is_mixed_content :: "content_counts \<Rightarrow> bool" where
  "is_mixed_content c \<longleftrightarrow> n_tok_only c > 0 \<and> n_embd_only c > 0"

text \<open>The flat token array; an invalid id ends \<open>init\<close>.\<close>

definition token_step :: "llama_token \<Rightarrow> bool \<Rightarrow> ext_token \<Rightarrow> llama_token list
    \<Rightarrow> (bool \<times> llama_token list) option" where
  "token_step n_vocab mixed t v =
     (if mixed \<and> et_has_embd t then Some (True, v @ [0])
      else if et_id t < 0 \<or> et_id t \<ge> n_vocab then Some (False, v)
      else Some (True, v @ [et_id t]))"

text \<open>The flat embeddings of a mixed batch, one row per entry, zero for token entries.\<close>

definition mixed_embd_row :: "llama_batch_ext \<Rightarrow> nat \<Rightarrow> ext_token \<Rightarrow> f32 list option" where
  "mixed_embd_row b n_embd t =
     (if et_has_embd t then do {
        check (et_embd_off t + n_embd \<le> length (be_embd b));
        Some (take n_embd (drop (et_embd_off t) (be_embd b))) }
      else Some (replicate n_embd 0))"

definition mixed_embd :: "llama_batch_ext \<Rightarrow> nat \<Rightarrow> f32 list option" where
  "mixed_embd b n_embd = for_opt
     (\<lambda>t v. do { r \<leftarrow> mixed_embd_row b n_embd t; Some (v @ r) }) (be_tokens b) []"

definition init_content :: "llama_batch_ext \<Rightarrow> llama_batch_allocr \<Rightarrow> (bool \<times> llama_batch_allocr) option" where
  "init_content b al = do {
     (ok, c) \<leftarrow> content_scan (be_tokens b);
     if \<not> ok then Some (False, al)
     else if n_both c > 0 \<and> n_both c \<noteq> length (be_tokens b) then Some (False, al)
     else if is_mixed_content c \<and> \<not> al_allow_mixed al then Some (False, al)
     else Some (True, al\<lparr>
       al_has_token := n_tok_only c > 0 \<or> n_both c > 0,
       al_has_embd := n_embd_only c > 0 \<or> n_both c > 0,
       al_is_embd_vec := (if is_mixed_content c then map et_has_embd (be_tokens b) else [])\<rparr>) }"

text \<open>From here on a batch is mixed iff \<open>al_is_embd_vec\<close> is not empty.\<close>

definition init_rows :: "llama_batch_ext \<Rightarrow> llama_batch_allocr \<Rightarrow> (bool \<times> llama_batch_allocr) option" where
  "init_rows b al = (let mixed = (al_is_embd_vec al \<noteq> []) in do {
     (ok, tv) \<leftarrow> (if al_has_token al
        then for_ret (token_step (be_n_vocab b) mixed) (be_tokens b) [] else Some (True, []));
     if \<not> ok then Some (False, al\<lparr>al_token_vec := vresize 0 (length (be_tokens b)) tv\<rparr>)
     else do {
       ev \<leftarrow> (if mixed then mixed_embd b (al_n_embd al)
               else if al_has_embd al then Some (be_embd b) else Some []);
       t0 \<leftarrow> nth_opt (be_tokens b) 0;
       Some (True, al\<lparr>al_token_vec := tv, al_embd_vec := ev,
         al_state_vec := (if et_has_state t0 then be_state b else [])\<rparr>) } })"

text \<open>Section \<open>j\<close> of an entry's position: a token entry is \<open>[p, p, p, 0]\<close>.\<close>

definition pos_section :: "nat \<Rightarrow> ext_token \<Rightarrow> llama_pos" where
  "pos_section j t = (if et_id t \<noteq> LLAMA_TOKEN_NULL then (if j < 3 then et_pos t ! 0 else 0)
     else et_pos t ! j)"

definition init_pos :: "llama_batch_ext \<Rightarrow> llama_batch_allocr \<Rightarrow> (bool \<times> llama_batch_allocr) option" where
  "init_pos b al = do {
     check (\<forall>t \<in> set (be_tokens b). al_n_pos_per_embd al \<le> length (et_pos t));
     Some (True, al\<lparr>al_pos := concat (map (\<lambda>j. map (pos_section j) (be_tokens b))
       [0..<al_n_pos_per_embd al])\<rparr>) }"

definition init_seq_ids :: "(llama_seq_id set \<Rightarrow> llama_seq_id list) \<Rightarrow> llama_batch_ext
    \<Rightarrow> llama_batch_allocr \<Rightarrow> (bool \<times> llama_batch_allocr) option" where
  "init_seq_ids ord b al =
     (let al = al\<lparr>al_seq_id := map (\<lambda>t. ord (et_seq_ids t)) (be_tokens b)\<rparr> in
      for_ret (\<lambda>ids. for_ret (\<lambda>s al. Some (\<not> (s < 0 \<or> s \<ge> int (al_n_seq_max al)), al)) ids)
        (al_seq_id al) al)"

definition init_output :: "bool \<Rightarrow> llama_batch_ext \<Rightarrow> llama_batch_allocr \<Rightarrow> llama_batch_allocr" where
  "init_output output_all b al =
     (let out = map et_output (be_tokens b);
          out = (if output_all \<and> (\<exists>o' \<in> set out. \<not> o') then map (\<lambda>_. True) out else out)
      in al\<lparr>al_output := out\<rparr>)"

definition init_decision_order :: "llama_batch_ext \<Rightarrow> llama_batch_allocr \<Rightarrow> llama_batch_allocr" where
  "init_decision_order b al = al\<lparr>al_decision_order := fold
     (\<lambda>i d. if et_decision_order (be_tokens b ! i) \<noteq> 0
        then (vresize 0 (length (be_tokens b)) d)[i := et_decision_order (be_tokens b ! i)] else d)
     [0..<length (be_tokens b)] []\<rparr>"

text \<open>
  The statistics. \<open>batch.seq_id[i][0]\<close> is read through a pointer into the flat storage, so
  for an entry without sequences it is the first id of the entries that follow.
\<close>

definition seq_id_first :: "llama_batch_allocr \<Rightarrow> nat \<Rightarrow> llama_seq_id option" where
  "seq_id_first al i = nth_opt (concat (drop i (al_seq_id al))) 0"

definition couple_step :: "llama_pos \<Rightarrow> llama_seq_id \<Rightarrow> nat \<times> llama_seq_id \<Rightarrow> llama_batch_allocr
    \<Rightarrow> llama_batch_allocr" where
  "couple_step p s0 = (\<lambda>(s, s1) al.
     (let al = al\<lparr>al_seq_pos := (al_seq_pos al)(nat s1 := insert p (al_seq_pos al (nat s1)))\<rparr> in
      if s > 0 then al\<lparr>al_seq_cpl := (al_seq_cpl al)(nat s1 := (al_seq_cpl al (nat s1))(nat s0 := True)),
                       al_has_cpl := True\<rparr>
      else al))"

definition init_coupled :: "llama_batch_allocr \<Rightarrow> llama_batch_allocr option" where
  "init_coupled al = for_opt (\<lambda>i al. do {
       s0 \<leftarrow> seq_id_first al i;
       p \<leftarrow> nth_opt (al_pos al) i;
       Some (fold (couple_step p s0) (enumerate 0 (al_seq_id al ! i)) al) })
     [0..<al_n_tokens al] (al\<lparr>al_has_cpl := False\<rparr>)"

definition init_seq_sets :: "llama_batch_allocr \<Rightarrow> llama_batch_allocr" where
  "init_seq_sets al = fold (\<lambda>i al.
     (let cur = nat ` set (al_seq_id al ! i) in
      al\<lparr>al_seq_set := al_seq_set al @ [cur],
         al_seq_set_map := (al_seq_set_map al)(cur := al_seq_set_map al cur @ [i])\<rparr>))
     [0..<al_n_tokens al] al"

text \<open>The numbering of the sequences that occur: used by \<open>init\<close> and by \<open>ubatch_add\<close>.\<close>

definition number_seqs :: "nat \<Rightarrow> nat set \<Rightarrow> int list \<times> nat list \<Rightarrow> int list \<times> nat list" where
  "number_seqs n_seq_max unq = fold (\<lambda>s (idx, u).
     if s \<in> unq then (idx[s := int (length u)], u @ [s]) else (idx, u)) [0..<n_seq_max]"

definition init_stats :: "llama_batch_ext \<Rightarrow> llama_batch_allocr \<Rightarrow> (bool \<times> llama_batch_allocr) option" where
  "init_stats b al = do {
     al \<leftarrow> Some (al\<lparr>al_n_tokens := length (be_tokens b),
       al_n_outputs := al_n_outputs al + length (filter id (al_output al))\<rparr>);
     al \<leftarrow> init_coupled al;
     al \<leftarrow> Some (init_seq_sets al);
     (let (idx, u) = number_seqs (al_n_seq_max al) (\<Union> (set (al_seq_set al)))
                       (al_seq_idx al, al_seq_id_unq al) in
      Some (True, al\<lparr>al_seq_idx := idx, al_seq_id_unq := u\<rparr>)) }"

text \<open>
  Consistency of the positions with the memory. M-RoPE: positions may jump forward, and a
  sequence whose first entry is an embedding may start at the last stored position.
\<close>

definition seq_first_embd :: "llama_batch_allocr \<Rightarrow> nat \<Rightarrow> bool" where
  "seq_first_embd al s =
     (if al_is_embd_vec al \<noteq> [] then
        (case find (\<lambda>i. int s \<in> set (al_seq_id al ! i)) [0..<al_n_tokens al] of
           Some i \<Rightarrow> al_is_embd_vec al ! i
         | None \<Rightarrow> \<not> al_has_token al)
      else \<not> al_has_token al)"

definition mrope_pos_ok :: "memory_view option \<Rightarrow> llama_batch_allocr \<Rightarrow> nat \<Rightarrow> bool" where
  "mrope_pos_ok mem al s =
     (if al_seq_pos al s = {} then True
      else (let p0 = memory_seq_pos_max mem s in
        if \<not> seq_first_embd al s then \<not> (p0 \<ge> 0 \<and> p0 \<ge> alloc_seq_pos_min s al)
        else \<not> (p0 \<ge> 0 \<and> p0 > alloc_seq_pos_min s al)))"

definition text_pos_ok :: "memory_view option \<Rightarrow> llama_batch_allocr \<Rightarrow> nat \<Rightarrow> bool option" where
  "text_pos_ok mem al s =
     (if al_seq_pos al s = {} then Some True
      else (let p0 = memory_seq_pos_max mem s in do {
        ok \<leftarrow> (if p0 \<ge> 0 then do { p1 \<leftarrow> i32 (p0 + 1); Some (alloc_seq_pos_min s al = p1) }
              else Some True);
        if \<not> ok then Some False
        else do {
          d \<leftarrow> i32 (alloc_seq_pos_max s al - alloc_seq_pos_min s al);
          d \<leftarrow> i32 (d + 1);
          Some (\<not> (d > int (card (al_seq_pos al s)))) } }))"

definition check_positions :: "memory_view option \<Rightarrow> llama_batch_allocr \<Rightarrow> (bool \<times> llama_batch_allocr) option" where
  "check_positions mem al = for_ret (\<lambda>s al.
     if al_n_pos_per_embd al > 1 then Some (mrope_pos_ok mem al s, al)
     else do { ok \<leftarrow> text_pos_ok mem al s; Some (ok, al) }) [0..<al_n_seq_max al] al"

definition check_coupled :: "memory_view option \<Rightarrow> llama_batch_allocr \<Rightarrow> (bool \<times> llama_batch_allocr) option" where
  "check_coupled mem al = (case mem of
     None \<Rightarrow> Some (True, al)
   | Some m \<Rightarrow> for_ret (\<lambda>s0. for_ret (\<lambda>s1 al.
       Some (\<not> (al_seq_cpl al s0 s1 \<and> (mem_pos_min m s0 \<noteq> mem_pos_min m s1
                                      \<or> mem_pos_max m s0 \<noteq> mem_pos_max m s1)), al))
       [0..<al_n_seq_max al]) [0..<al_n_seq_max al] al)"

text \<open>No partial sequence sub-sets and no decreasing positions.\<close>

type_synonym subset_state = "(nat \<Rightarrow> nat set) \<times> (nat \<Rightarrow> llama_pos)"

definition subset_step :: "nat set \<Rightarrow> llama_pos \<Rightarrow> llama_seq_id \<Rightarrow> subset_state
    \<Rightarrow> (bool \<times> subset_state) option" where
  "subset_step seq_set_i p s = (\<lambda>(cur_seq_set, cur_seq_pos).
     (let cur_seq_set = cur_seq_set(nat s := cur_seq_set (nat s) \<inter> seq_set_i) in
      if cur_seq_set (nat s) = {} then Some (False, cur_seq_set, cur_seq_pos)
      else if p < cur_seq_pos (nat s) then Some (False, cur_seq_set, cur_seq_pos)
      else Some (True, cur_seq_set, cur_seq_pos(nat s := p))))"

definition subset_scan :: "llama_batch_allocr \<Rightarrow> (bool \<times> subset_state) option" where
  "subset_scan al = for_ret
     (\<lambda>i. for_ret (subset_step (al_seq_set al ! i) (al_pos al ! i)) (al_seq_id al ! i))
     [0..<al_n_tokens al] (\<lambda>_. {..<LLAMA_MAX_SEQ}, \<lambda>_. -1)"

definition check_subsets :: "llama_batch_allocr \<Rightarrow> (bool \<times> llama_batch_allocr) option" where
  "check_subsets al = do { (ok, _) \<leftarrow> subset_scan al; Some (ok, al) }"

definition alloc_init :: "(llama_seq_id set \<Rightarrow> llama_seq_id list) \<Rightarrow> llama_batch_ext \<Rightarrow> bool
    \<Rightarrow> llama_batch_allocr \<Rightarrow> (bool \<times> llama_batch_allocr) option" where
  "alloc_init ord b output_all al =
     (let al = (alloc_clear al)\<lparr>
            al_n_embd := (if be_n_embd b > 0 then be_n_embd b else be_n_embd_inp b),
            al_n_embd_state := be_n_embd_state b,
            al_n_seq_max := nat (be_n_seq_max b mod 4294967296)\<rparr> in do {
      check (0 < length (be_tokens b) \<and> int (length (be_tokens b)) \<le> INT32_MAX);
      if al_n_seq_max al > LLAMA_MAX_SEQ then Some (False, al)
      else and_then (init_content b al) (\<lambda>al.
           and_then (init_rows b al) (\<lambda>al.
           and_then (init_pos b al) (\<lambda>al.
           and_then (init_seq_ids ord b al) (\<lambda>al.
           and_then (init_stats b (init_decision_order b (init_output output_all b al))) (\<lambda>al.
           and_then (check_positions (be_mem b) al) (\<lambda>al.
           and_then (check_coupled (be_mem b) al) (\<lambda>al.
           and_then (check_subsets al) (\<lambda>al.
             Some (True, alloc_split_reset al))))))))) })"

subsection \<open>What the phases establish\<close>

lemma content_scan_True:
  assumes "content_scan ts = Some (True, c)"
  shows "(\<forall>t \<in> set ts. (et_id t \<noteq> LLAMA_TOKEN_NULL \<or> et_has_embd t)
        \<and> et_has_state t = et_has_state (ts ! 0))
    \<and> n_tok_only c = length (filter (\<lambda>t. et_id t \<noteq> LLAMA_TOKEN_NULL \<and> \<not> et_has_embd t) ts)
    \<and> n_embd_only c = length (filter (\<lambda>t. et_has_embd t \<and> et_id t = LLAMA_TOKEN_NULL) ts)
    \<and> n_both c = length (filter (\<lambda>t. et_id t \<noteq> LLAMA_TOKEN_NULL \<and> et_has_embd t) ts)"
proof -
  define hs where "hs = et_has_state (ts ! 0)"
  from assms have loop: "for_ret (content_step hs) ts
      \<lparr>n_tok_only = 0, n_embd_only = 0, n_both = 0\<rparr> = Some (True, c)"
    by (auto simp: content_scan_def hs_def failure_simps)
  show ?thesis
    unfolding hs_def [symmetric]
    by (rule for_ret_prefix_inv [OF loop])
       (auto simp: content_step_def Let_def split: if_splits)
qed

text \<open>The kinds of entries a batch may consist of.\<close>

definition text_batch :: "ext_token list \<Rightarrow> bool" where
  "text_batch ts \<longleftrightarrow> (\<forall>t \<in> set ts. et_id t \<noteq> LLAMA_TOKEN_NULL \<and> \<not> et_has_embd t)"

definition embd_batch :: "ext_token list \<Rightarrow> bool" where
  "embd_batch ts \<longleftrightarrow> (\<forall>t \<in> set ts. et_id t = LLAMA_TOKEN_NULL \<and> et_has_embd t)"

definition both_batch :: "ext_token list \<Rightarrow> bool" where
  "both_batch ts \<longleftrightarrow> (\<forall>t \<in> set ts. et_id t \<noteq> LLAMA_TOKEN_NULL \<and> et_has_embd t)"

definition mixed_batch :: "ext_token list \<Rightarrow> bool" where
  "mixed_batch ts \<longleftrightarrow> (\<forall>t \<in> set ts. et_id t \<noteq> LLAMA_TOKEN_NULL \<longleftrightarrow> \<not> et_has_embd t)
     \<and> (\<exists>t \<in> set ts. et_has_embd t) \<and> (\<exists>t \<in> set ts. \<not> et_has_embd t)"

lemma content_kinds:
  assumes "ts \<noteq> []" "\<forall>t \<in> set ts. et_id t \<noteq> LLAMA_TOKEN_NULL \<or> et_has_embd t"
    and "n1 = length (filter (\<lambda>t. et_id t \<noteq> LLAMA_TOKEN_NULL \<and> \<not> et_has_embd t) ts)"
    and "n2 = length (filter (\<lambda>t. et_has_embd t \<and> et_id t = LLAMA_TOKEN_NULL) ts)"
    and "n3 = length (filter (\<lambda>t. et_id t \<noteq> LLAMA_TOKEN_NULL \<and> et_has_embd t) ts)"
    and "\<not> (n3 > 0 \<and> n3 \<noteq> length ts)"
  shows "(text_batch ts \<and> n1 > 0 \<and> n2 = 0 \<and> n3 = 0) \<or> (embd_batch ts \<and> n1 = 0 \<and> n2 > 0 \<and> n3 = 0)
    \<or> (both_batch ts \<and> n1 = 0 \<and> n2 = 0 \<and> n3 > 0) \<or> (mixed_batch ts \<and> n1 > 0 \<and> n2 > 0 \<and> n3 = 0)"
proof (cases "n3 > 0")
  case True
  then have "n3 = length ts" using assms(6) by simp
  then have all: "\<forall>t \<in> set ts. et_id t \<noteq> LLAMA_TOKEN_NULL \<and> et_has_embd t"
    unfolding assms(5) by (simp only: length_filter_full)
  then have "n1 = 0" "n2 = 0" unfolding assms(3,4) by (simp_all add: filter_empty_conv)
  with all True show ?thesis by (simp add: both_batch_def)
next
  case False
  then have excl: "\<forall>t \<in> set ts. et_id t \<noteq> LLAMA_TOKEN_NULL \<longleftrightarrow> \<not> et_has_embd t"
    using assms(2,5) by (auto simp: filter_empty_conv)
  have n1: "n1 > 0 \<longleftrightarrow> (\<exists>t \<in> set ts. \<not> et_has_embd t)"
    unfolding assms(3) using excl by (auto simp: filter_empty_conv)
  have n2: "n2 > 0 \<longleftrightarrow> (\<exists>t \<in> set ts. et_has_embd t)"
    unfolding assms(4) using excl by (auto simp: filter_empty_conv)
  obtain t where "t \<in> set ts" using assms(1) by (cases ts) auto
  with excl n1 n2 False show ?thesis
    by (auto simp: text_batch_def embd_batch_def mixed_batch_def)
qed

lemma init_content_True:
  assumes "init_content b al = Some (True, al')" "be_tokens b \<noteq> []"
  defines "ts \<equiv> be_tokens b"
  shows "(\<forall>t \<in> set ts. et_has_state t = et_has_state (ts ! 0))
    \<and> al' = al\<lparr>al_has_token := \<not> embd_batch ts, al_has_embd := \<not> text_batch ts,
        al_is_embd_vec := (if mixed_batch ts then map et_has_embd ts else [])\<rparr>
    \<and> (text_batch ts \<or> embd_batch ts \<or> both_batch ts \<or> mixed_batch ts \<and> al_allow_mixed al)"
proof -
  obtain c where c: "content_scan ts = Some (True, c)"
    and both: "\<not> (n_both c > 0 \<and> n_both c \<noteq> length ts)"
    and mix: "\<not> (is_mixed_content c \<and> \<not> al_allow_mixed al)"
    and al': "al' = al\<lparr>al_has_token := n_tok_only c > 0 \<or> n_both c > 0,
       al_has_embd := n_embd_only c > 0 \<or> n_both c > 0,
       al_is_embd_vec := (if is_mixed_content c then map et_has_embd ts else [])\<rparr>"
    using assms(1) unfolding ts_def init_content_def
    by (simp add: failure_simps split: if_splits)
  have ne: "ts \<noteq> []" using assms(2) by (simp add: ts_def)
  then obtain t where t: "t \<in> set ts" by (cases ts) auto
  have excl: "text_batch ts \<Longrightarrow> \<not> embd_batch ts" "both_batch ts \<Longrightarrow> \<not> embd_batch ts \<and> \<not> text_batch ts"
    "mixed_batch ts \<Longrightarrow> \<not> embd_batch ts \<and> \<not> text_batch ts"
    "text_batch ts \<or> both_batch ts \<or> embd_batch ts \<Longrightarrow> \<not> mixed_batch ts"
    using t by (auto simp: text_batch_def embd_batch_def both_batch_def mixed_batch_def)
  have kinds: "(text_batch ts \<and> n_tok_only c > 0 \<and> n_embd_only c = 0 \<and> n_both c = 0)
    \<or> (embd_batch ts \<and> n_tok_only c = 0 \<and> n_embd_only c > 0 \<and> n_both c = 0)
    \<or> (both_batch ts \<and> n_tok_only c = 0 \<and> n_embd_only c = 0 \<and> n_both c > 0)
    \<or> (mixed_batch ts \<and> n_tok_only c > 0 \<and> n_embd_only c > 0 \<and> n_both c = 0)"
    by (rule content_kinds) (use content_scan_True [OF c] ne both in auto)
  have hs: "\<forall>t \<in> set ts. et_has_state t = et_has_state (ts ! 0)"
    using content_scan_True [OF c] by blast
  consider (tok) "text_batch ts" "\<not> embd_batch ts" "\<not> mixed_batch ts"
      "n_tok_only c > 0" "n_embd_only c = 0" "n_both c = 0"
    | (embd) "embd_batch ts" "\<not> text_batch ts" "\<not> mixed_batch ts"
      "n_tok_only c = 0" "n_embd_only c > 0" "n_both c = 0"
    | (both) "both_batch ts" "\<not> text_batch ts" "\<not> embd_batch ts" "\<not> mixed_batch ts"
      "n_tok_only c = 0" "n_embd_only c = 0" "n_both c > 0"
    | (mixed) "mixed_batch ts" "\<not> text_batch ts" "\<not> embd_batch ts"
      "n_tok_only c > 0" "n_embd_only c > 0" "n_both c = 0"
    using kinds excl by metis
  then show ?thesis
    by cases (intro conjI hs; use mix in \<open>simp add: al' is_mixed_content_def\<close>)+
qed

lemma token_loop_True:
  assumes "for_ret (token_step nv m) ts [] = Some (True, v)"
  shows "v = map (\<lambda>t. if m \<and> et_has_embd t then 0 else et_id t) ts
    \<and> (\<forall>t \<in> set ts. m \<and> et_has_embd t \<or> 0 \<le> et_id t \<and> et_id t < nv)"
  by (rule for_ret_prefix_inv [OF assms]) (auto simp: token_step_def split: if_splits)

lemma init_rows_True:
  assumes "init_rows b al = Some (True, al')"
  shows "\<exists>tv ev sv. al' = al\<lparr>al_token_vec := tv, al_embd_vec := ev, al_state_vec := sv\<rparr>
    \<and> (al_has_token al \<longrightarrow> tv = map (\<lambda>t. if al_is_embd_vec al \<noteq> [] \<and> et_has_embd t then 0 else et_id t) (be_tokens b)
        \<and> (\<forall>t \<in> set (be_tokens b). al_is_embd_vec al \<noteq> [] \<and> et_has_embd t
             \<or> 0 \<le> et_id t \<and> et_id t < be_n_vocab b))
    \<and> (\<not> al_has_token al \<longrightarrow> tv = [])
    \<and> (if al_is_embd_vec al \<noteq> [] then mixed_embd b (al_n_embd al) = Some ev
       else ev = (if al_has_embd al then be_embd b else []))
    \<and> sv = (if et_has_state (be_tokens b ! 0) then be_state b else [])"
proof -
  let ?m = "al_is_embd_vec al \<noteq> []"
  obtain tv ev where tv: "(if al_has_token al then for_ret (token_step (be_n_vocab b) ?m) (be_tokens b) []
        else Some (True, [])) = Some (True, tv)"
    and ev: "(if ?m then mixed_embd b (al_n_embd al)
        else if al_has_embd al then Some (be_embd b) else Some []) = Some ev"
    and al': "al' = al\<lparr>al_token_vec := tv, al_embd_vec := ev,
      al_state_vec := (if et_has_state (be_tokens b ! 0) then be_state b else [])\<rparr>"
    using assms by (fastforce simp: init_rows_def Let_def failure_simps split: if_splits)
  show ?thesis
    by (rule exI [of _ tv], rule exI [of _ ev],
        rule exI [of _ "if et_has_state (be_tokens b ! 0) then be_state b else []"])
       (use tv ev al' in \<open>auto split: if_splits dest!: token_loop_True\<close>)
qed

lemma init_pos_True:
  "init_pos b al = Some (True, al') \<Longrightarrow>
   al' = al\<lparr>al_pos := concat (map (\<lambda>j. map (pos_section j) (be_tokens b)) [0..<al_n_pos_per_embd al])\<rparr>"
  by (simp add: init_pos_def failure_simps)

lemma init_seq_ids_True:
  "init_seq_ids ord b al = Some (True, al') \<Longrightarrow>
   al' = al\<lparr>al_seq_id := map (\<lambda>t. ord (et_seq_ids t)) (be_tokens b)\<rparr>
   \<and> (\<forall>ids \<in> set (al_seq_id al'). \<forall>s \<in> set ids. 0 \<le> s \<and> s < int (al_n_seq_max al))"
  unfolding init_seq_ids_def Let_def
  by (subst (asm) for_ret_guard2 [where xs = "\<lambda>ids. ids"]) (auto simp: not_less not_le)

lemma couple_step_fold:
  "\<exists>sp sc h. fold (couple_step p s0) (enumerate n ids) al
        = al\<lparr>al_seq_pos := sp, al_seq_cpl := sc, al_has_cpl := h\<rparr>
    \<and> (\<forall>s. sp s = (if s \<in> nat ` set ids then insert p (al_seq_pos al s) else al_seq_pos al s))
    \<and> (\<forall>a b. sc a b \<longleftrightarrow> al_seq_cpl al a b
        \<or> (b = nat s0 \<and> (\<exists>j < length ids. 0 < n + j \<and> a = nat (ids ! j))))
    \<and> (h \<longleftrightarrow> al_has_cpl al \<or> (\<exists>j < length ids. 0 < n + j))"
proof (induction ids arbitrary: n al)
  case Nil
  then show ?case
    by (intro exI [of _ "al_seq_pos al"] exI [of _ "al_seq_cpl al"] exI [of _ "al_has_cpl al"]) simp
next
  case (Cons s1 ids)
  have ex: "(\<exists>j < length (s1 # ids). 0 < n + j \<and> Q ((s1 # ids) ! j))
      \<longleftrightarrow> (0 < n \<and> Q s1) \<or> (\<exists>j < length ids. 0 < Suc n + j \<and> Q (ids ! j))" for Q
    by (auto simp: less_Suc_eq_0_disj)
  have one: "couple_step p s0 (n, s1) al = al\<lparr>
      al_seq_pos := \<lambda>s. if s = nat s1 then insert p (al_seq_pos al s) else al_seq_pos al s,
      al_seq_cpl := \<lambda>a b. al_seq_cpl al a b \<or> (b = nat s0 \<and> 0 < n \<and> a = nat s1),
      al_has_cpl := al_has_cpl al \<or> 0 < n\<rparr>" (is "_ = al\<lparr>al_seq_pos := ?sp, al_seq_cpl := ?sc, al_has_cpl := ?h\<rparr>")
  proof -
    have sp: "(al_seq_pos al)(nat s1 := insert p (al_seq_pos al (nat s1))) = ?sp"
      by (rule ext) simp
    have sc: "(al_seq_cpl al)(nat s1 := (al_seq_cpl al (nat s1))(nat s0 := True))
        = (\<lambda>a b. al_seq_cpl al a b \<or> b = nat s0 \<and> a = nat s1)"
      by (intro ext) simp
    show ?thesis
    proof (cases "n = 0")
      case True
      then show ?thesis by (simp add: couple_step_def Let_def sp)
    next
      case False
      then show ?thesis
        by (simp add: couple_step_def Let_def sp sc)
    qed
  qed
  define al1 where "al1 = couple_step p s0 (n, s1) al"
  obtain sp sc h where st: "fold (couple_step p s0) (enumerate (Suc n) ids) al1
        = al1\<lparr>al_seq_pos := sp, al_seq_cpl := sc, al_has_cpl := h\<rparr>"
    and sp: "\<forall>s. sp s = (if s \<in> nat ` set ids then insert p (al_seq_pos al1 s) else al_seq_pos al1 s)"
    and sc: "\<forall>a b. sc a b \<longleftrightarrow> al_seq_cpl al1 a b
        \<or> (b = nat s0 \<and> (\<exists>j < length ids. 0 < Suc n + j \<and> a = nat (ids ! j)))"
    and h: "h \<longleftrightarrow> al_has_cpl al1 \<or> (\<exists>j < length ids. 0 < Suc n + j)"
    using Cons.IH [of "Suc n" al1] by (elim exE conjE) (rule that)
  show ?case
  proof (intro exI conjI)
    show "fold (couple_step p s0) (enumerate n (s1 # ids)) al
        = al\<lparr>al_seq_pos := sp, al_seq_cpl := sc, al_has_cpl := h\<rparr>"
      using st by (simp add: al1_def one)
    show "\<forall>s. sp s = (if s \<in> nat ` set (s1 # ids) then insert p (al_seq_pos al s) else al_seq_pos al s)"
      using sp by (simp add: al1_def one)
    show "\<forall>a b. sc a b \<longleftrightarrow> al_seq_cpl al a b
        \<or> (b = nat s0 \<and> (\<exists>j < length (s1 # ids). 0 < n + j \<and> a = nat ((s1 # ids) ! j)))"
    proof (intro allI)
      fix a b
      show "sc a b \<longleftrightarrow> al_seq_cpl al a b
          \<or> (b = nat s0 \<and> (\<exists>j < length (s1 # ids). 0 < n + j \<and> a = nat ((s1 # ids) ! j)))"
        unfolding ex [of "\<lambda>x. a = nat x"] using sc by (simp add: al1_def one) blast
    qed
    show "h \<longleftrightarrow> al_has_cpl al \<or> (\<exists>j < length (s1 # ids). 0 < n + j)"
      using h ex [of "\<lambda>_. True"] by (simp add: al1_def one)
  qed
qed

text \<open>Sequence \<open>a\<close> is coupled to \<open>b\<close>: some entry lists \<open>b\<close> first and \<open>a\<close> after it.\<close>

definition coupled_in :: "llama_seq_id list list \<Rightarrow> nat \<Rightarrow> nat \<Rightarrow> nat \<Rightarrow> bool" where
  "coupled_in ids k a b \<longleftrightarrow> (\<exists>i < k. \<exists>j < length (ids ! i). 0 < j \<and> a = nat (ids ! i ! j) \<and> b = nat (ids ! i ! 0))"

definition positions_in :: "llama_seq_id list list \<Rightarrow> llama_pos list \<Rightarrow> nat \<Rightarrow> nat \<Rightarrow> llama_pos set" where
  "positions_in ids ps k s = {ps ! i |i. i < k \<and> s \<in> nat ` set (ids ! i)}"

lemma seq_id_first_Some:
  "seq_id_first al i = Some s0 \<Longrightarrow> i < length (al_seq_id al) \<Longrightarrow> al_seq_id al ! i \<noteq> [] \<Longrightarrow>
   s0 = al_seq_id al ! i ! 0"
  by (auto simp: seq_id_first_def failure_simps Cons_nth_drop_Suc [symmetric] nth_append)

lemma positions_in_Suc: "positions_in ids ps (Suc k) s
    = (if s \<in> nat ` set (ids ! k) then insert (ps ! k) (positions_in ids ps k s) else positions_in ids ps k s)"
  by (auto simp: positions_in_def less_Suc_eq)

lemma coupled_in_Suc: "coupled_in ids (Suc k) a b \<longleftrightarrow> coupled_in ids k a b
    \<or> (\<exists>j < length (ids ! k). 0 < j \<and> a = nat (ids ! k ! j) \<and> b = nat (ids ! k ! 0))"
  by (auto simp: coupled_in_def less_Suc_eq)

lemma init_coupled_Some:
  assumes "init_coupled al = Some al'" "al_seq_pos al = (\<lambda>_. {})" "al_seq_cpl al = (\<lambda>_ _. False)"
    and "al_n_tokens al \<le> length (al_seq_id al)"
  defines "n \<equiv> al_n_tokens al" and "ids \<equiv> al_seq_id al"
  shows "al' = al\<lparr>al_seq_pos := positions_in ids (al_pos al) n, al_seq_cpl := coupled_in ids n,
      al_has_cpl := (\<exists>i < n. 1 < length (ids ! i))\<rparr>"
proof -
  let ?S = "\<lambda>k. al\<lparr>al_seq_pos := positions_in ids (al_pos al) k, al_seq_cpl := coupled_in ids k,
      al_has_cpl := (\<exists>i < k. 1 < length (ids ! i))\<rparr>"
  have "al' = ?S n"
  proof (rule for_opt_upt_inv [where P = "\<lambda>k s. s = ?S k"])
    show "for_opt (\<lambda>i al. do {
       s0 \<leftarrow> seq_id_first al i;
       p \<leftarrow> nth_opt (al_pos al) i;
       Some (fold (couple_step p s0) (enumerate 0 (al_seq_id al ! i)) al) })
     [0..<n] (al\<lparr>al_has_cpl := False\<rparr>) = Some al'"
      using assms(1) by (simp add: init_coupled_def n_def)
    show "al\<lparr>al_has_cpl := False\<rparr> = ?S 0"
      using assms(2,3) by (simp add: positions_in_def coupled_in_def fun_eq_iff)
  next
    fix k s s'
    assume k: "k < n" and s: "s = ?S k" and step: "(do {
       s0 \<leftarrow> seq_id_first s k;
       p \<leftarrow> nth_opt (al_pos s) k;
       Some (fold (couple_step p s0) (enumerate 0 (al_seq_id s ! k)) s) }) = Some s'"
    obtain s0 where s0: "seq_id_first s k = Some s0"
      and s': "s' = fold (couple_step (al_pos al ! k) s0) (enumerate 0 (ids ! k)) s"
      using step s by (auto simp: failure_simps ids_def)
    have first: "ids ! k \<noteq> [] \<Longrightarrow> s0 = ids ! k ! 0"
      using seq_id_first_Some [OF s0] k assms(4) s by (simp add: ids_def n_def)
    obtain sp sc h where st: "s' = s\<lparr>al_seq_pos := sp, al_seq_cpl := sc, al_has_cpl := h\<rparr>"
      and sp: "\<forall>t. sp t = (if t \<in> nat ` set (ids ! k) then insert (al_pos al ! k) (al_seq_pos s t)
          else al_seq_pos s t)"
      and sc: "\<forall>a b. sc a b \<longleftrightarrow> al_seq_cpl s a b
          \<or> (b = nat s0 \<and> (\<exists>j < length (ids ! k). 0 < 0 + j \<and> a = nat (ids ! k ! j)))"
      and h: "h \<longleftrightarrow> al_has_cpl s \<or> (\<exists>j < length (ids ! k). 0 < 0 + j)"
      using couple_step_fold [of "al_pos al ! k" s0 0 "ids ! k" s, folded s']
      by (elim exE conjE) (rule that)
    have "sp = positions_in ids (al_pos al) (Suc k)"
      using sp by (intro ext) (simp add: s positions_in_Suc)
    moreover have "sc = coupled_in ids (Suc k)"
      using sc first by (cases "ids ! k = []") (auto simp: fun_eq_iff s coupled_in_Suc)
    moreover have "h = (\<exists>i < Suc k. 1 < length (ids ! i))"
      using h by (auto simp: s less_Suc_eq intro: exI [of _ 1])
    ultimately show "s' = ?S (Suc k)"
      unfolding st by (simp add: s)
  qed
  then show ?thesis by simp
qed

lemma init_seq_sets_eq:
  assumes "al_seq_set al = []" "al_seq_set_map al = (\<lambda>_. [])"
  defines "f \<equiv> \<lambda>i. nat ` set (al_seq_id al ! i)"
  shows "init_seq_sets al = al\<lparr>al_seq_set := map f [0..<al_n_tokens al],
     al_seq_set_map := \<lambda>S. filter (\<lambda>i. f i = S) [0..<al_n_tokens al]\<rparr>"
proof -
  have "fold (\<lambda>i al.
     (let cur = nat ` set (al_seq_id al ! i) in
      al\<lparr>al_seq_set := al_seq_set al @ [cur],
         al_seq_set_map := (al_seq_set_map al)(cur := al_seq_set_map al cur @ [i])\<rparr>))
     [0..<n] al = al\<lparr>al_seq_set := map f [0..<n], al_seq_set_map := \<lambda>S. filter (\<lambda>i. f i = S) [0..<n]\<rparr>" for n
  proof (induction n)
    case 0
    then show ?case using assms(1,2) by simp
  next
    case (Suc n)
    then show ?case
      by (auto simp: Let_def f_def fun_eq_iff intro!: llama_batch_allocr.equality)
  qed
  then show ?thesis by (simp add: init_seq_sets_def)
qed

text \<open>The sequences are numbered in increasing order.\<close>

lemma number_seqs_eq:
  assumes "number_seqs n unq (idx, []) = (idx', u)"
  shows "u = filter (\<lambda>s. s \<in> unq) [0..<n] \<and> length idx' = length idx
    \<and> (\<forall>s < length idx. idx' ! s = (if s < n \<and> s \<in> unq
         then int (length (filter (\<lambda>s. s \<in> unq) [0..<s])) else idx ! s))"
  using assms unfolding number_seqs_def
proof (induction n arbitrary: idx' u)
  case 0
  then show ?case by auto
next
  case (Suc n)
  obtain idx1 u1 where 1: "fold (\<lambda>s (idx, u).
     if s \<in> unq then (idx[s := int (length u)], u @ [s]) else (idx, u)) [0..<n] (idx, []) = (idx1, u1)"
    by (cases "fold (\<lambda>s (idx, u).
     if s \<in> unq then (idx[s := int (length u)], u @ [s]) else (idx, u)) [0..<n] (idx, [])")
  show ?case
    using Suc.prems Suc.IH [OF 1] 1
    by (auto simp: nth_upd less_Suc_eq split: if_splits)
qed

lemma check_positions_True:
  assumes "check_positions mem al = Some (True, al')"
  shows "al' = al \<and> (\<forall>s < al_n_seq_max al. if al_n_pos_per_embd al > 1 then mrope_pos_ok mem al s
     else text_pos_ok mem al s = Some True)"
proof -
  let ?f = "\<lambda>s al. if al_n_pos_per_embd al > 1 then Some (mrope_pos_ok mem al s, al)
     else do { ok \<leftarrow> text_pos_ok mem al s; Some (ok, al) }"
  have "al' = al \<and> (\<forall>s \<in> set [0..<al_n_seq_max al]. ?f s al = Some (True, al))"
    by (rule for_ret_pure_True)
       (use assms in \<open>auto simp: check_positions_def failure_simps split: if_splits\<close>)
  then show ?thesis
    by (auto simp: failure_simps split: if_splits)
qed

lemma check_coupled_True:
  assumes "check_coupled mem al = Some (True, al')"
  shows "al' = al \<and> (\<forall>m s0 s1. mem = Some m \<longrightarrow> s0 < al_n_seq_max al \<longrightarrow> s1 < al_n_seq_max al
     \<longrightarrow> al_seq_cpl al s0 s1 \<longrightarrow> mem_pos_min m s0 = mem_pos_min m s1 \<and> mem_pos_max m s0 = mem_pos_max m s1)"
  using assms
  by (cases mem)
     (auto simp: check_coupled_def for_ret_guard2 [where xs = "\<lambda>_. [0..<al_n_seq_max al]"])

text \<open>The position checks do not look at the split state.\<close>

lemma pos_checks_split_state:
  "alloc_seq_pos_min s (al\<lparr>al_out_ids := a, al_n_used := k, al_used := u\<rparr>) = alloc_seq_pos_min s al"
  "alloc_seq_pos_max s (al\<lparr>al_out_ids := a, al_n_used := k, al_used := u\<rparr>) = alloc_seq_pos_max s al"
  "seq_first_embd (al\<lparr>al_out_ids := a, al_n_used := k, al_used := u\<rparr>) s = seq_first_embd al s"
  "mrope_pos_ok mem (al\<lparr>al_out_ids := a, al_n_used := k, al_used := u\<rparr>) s = mrope_pos_ok mem al s"
  "text_pos_ok mem (al\<lparr>al_out_ids := a, al_n_used := k, al_used := u\<rparr>) s = text_pos_ok mem al s"
proof -
  show min: "alloc_seq_pos_min s (al\<lparr>al_out_ids := a, al_n_used := k, al_used := u\<rparr>) = alloc_seq_pos_min s al"
    by (simp add: alloc_seq_pos_min_def)
  show max: "alloc_seq_pos_max s (al\<lparr>al_out_ids := a, al_n_used := k, al_used := u\<rparr>) = alloc_seq_pos_max s al"
    by (simp add: alloc_seq_pos_max_def)
  show first: "seq_first_embd (al\<lparr>al_out_ids := a, al_n_used := k, al_used := u\<rparr>) s = seq_first_embd al s"
    by (simp add: seq_first_embd_def split: option.split)
  show "mrope_pos_ok mem (al\<lparr>al_out_ids := a, al_n_used := k, al_used := u\<rparr>) s = mrope_pos_ok mem al s"
    by (simp add: mrope_pos_ok_def min first)
  show "text_pos_ok mem (al\<lparr>al_out_ids := a, al_n_used := k, al_used := u\<rparr>) s = text_pos_ok mem al s"
    by (simp add: text_pos_ok_def min max cong: if_cong)
qed

text \<open>
  The sub-set check: the intersection of the sequence sets seen for \<open>s\<close> always contains
  \<open>s\<close> itself, so only the order of the positions decides.
\<close>

definition pos_ordered :: "llama_seq_id list list \<Rightarrow> llama_pos list \<Rightarrow> bool" where
  "pos_ordered ids ps \<longleftrightarrow> (\<forall>j < length ids. \<forall>s \<in> set (ids ! j). -1 \<le> ps ! j
     \<and> (\<forall>i < j. s \<in> set (ids ! i) \<longrightarrow> ps ! i \<le> ps ! j))"

lemma subset_loop:
  assumes "\<forall>(i, x) \<in> set prs. 0 \<le> x \<and> x < int LLAMA_MAX_SEQ \<and> nat x \<in> ss ! i"
    and "\<forall>x < LLAMA_MAX_SEQ. x \<in> css x"
  shows "\<exists>st. for_ret (\<lambda>(i, x). subset_step (ss ! i) (ps ! i) x) prs (css, csp)
    = Some ((\<forall>(i, x) \<in> set prs. csp (nat x) \<le> ps ! i)
        \<and> sorted_wrt (\<lambda>(i, x) (j, y). nat x = nat y \<longrightarrow> ps ! i \<le> ps ! j) prs, st)"
  using assms
proof (induction prs arbitrary: css csp)
  case Nil
  then show ?case by simp
next
  case (Cons ix prs)
  obtain i x where ix: "ix = (i, x)" by (cases ix)
  let ?css = "css(nat x := css (nat x) \<inter> ss ! i)"
  have x: "nat x < LLAMA_MAX_SEQ" "nat x \<in> ss ! i" "nat x \<in> css (nat x)"
    using Cons.prems by (auto simp: ix nat_less_iff)
  then have ne: "css (nat x) \<inter> ss ! i \<noteq> {}" by auto
  have inv: "\<forall>x < LLAMA_MAX_SEQ. x \<in> ?css x"
    using Cons.prems(2) x by auto
  show ?case
  proof (cases "ps ! i < csp (nat x)")
    case True
    then show ?thesis using ne by (simp add: ix subset_step_def Let_def)
  next
    case False
    let ?csp = "csp(nat x := ps ! i)"
    have "\<forall>(i, x) \<in> set prs. 0 \<le> x \<and> x < int LLAMA_MAX_SEQ \<and> nat x \<in> ss ! i"
      using Cons.prems(1) by simp
    then obtain st where st: "for_ret (\<lambda>(i, x). subset_step (ss ! i) (ps ! i) x) prs (?css, ?csp)
      = Some ((\<forall>(i, x) \<in> set prs. ?csp (nat x) \<le> ps ! i)
        \<and> sorted_wrt (\<lambda>(i, x) (j, y). nat x = nat y \<longrightarrow> ps ! i \<le> ps ! j) prs, st)"
      using Cons.IH [OF _ inv, of ?csp] by (elim meta_impE exE) (simp, rule that)
    have "(\<forall>(j, y) \<in> set prs. ?csp (nat y) \<le> ps ! j)
      \<longleftrightarrow> (\<forall>(j, y) \<in> set prs. csp (nat y) \<le> ps ! j \<and> (nat x = nat y \<longrightarrow> ps ! i \<le> ps ! j))"
      by (rule ball_cong [OF refl]) (use False in auto)
    then show ?thesis
      using ne False st by (auto simp: ix subset_step_def Let_def)
  qed
qed

lemma subset_scan_eq:
  assumes "length (al_seq_id al) = al_n_tokens al"
    and "\<forall>i < al_n_tokens al. al_seq_set al ! i = nat ` set (al_seq_id al ! i)"
    and "\<forall>ids \<in> set (al_seq_id al). \<forall>s \<in> set ids. 0 \<le> s \<and> s < int LLAMA_MAX_SEQ"
  shows "\<exists>st. subset_scan al = Some (pos_ordered (al_seq_id al) (al_pos al), st)"
proof -
  let ?ids = "al_seq_id al" and ?ps = "al_pos al" and ?n = "al_n_tokens al"
  let ?prs = "concat (map (\<lambda>i. map (Pair i) (?ids ! i)) [0..<?n])"
  let ?R = "\<lambda>(i, x) (j, y). nat x = nat y \<longrightarrow> ?ps ! i \<le> ?ps ! j"
  have val: "\<forall>(i, x) \<in> set ?prs. 0 \<le> x \<and> x < int LLAMA_MAX_SEQ \<and> nat x \<in> al_seq_set al ! i"
    using assms by auto
  have "subset_scan al = for_ret (\<lambda>(i, x). subset_step (al_seq_set al ! i) (?ps ! i) x) ?prs
      (\<lambda>_. {..<LLAMA_MAX_SEQ}, \<lambda>_. -1)"
    unfolding subset_scan_def by (rule for_ret_nested)
  then obtain st where st: "subset_scan al = Some ((\<forall>(i, x) \<in> set ?prs. -1 \<le> ?ps ! i)
      \<and> sorted_wrt ?R ?prs, st)"
    using subset_loop [OF val, of "\<lambda>_. {..<LLAMA_MAX_SEQ}" ?ps "\<lambda>_. -1"] by auto
  have nn: "nat x = nat y \<longleftrightarrow> x = y"
    if "i < ?n" "j < ?n" "x \<in> set (?ids ! i)" "y \<in> set (?ids ! j)" for i j x y
  proof -
    have "0 \<le> x" "0 \<le> y"
      using that assms(1,3) by (metis nth_mem)+
    then show ?thesis by (simp add: eq_nat_nat_iff)
  qed
  have self: "sorted_wrt ?R (map (Pair j) xs)" for j and xs :: "llama_seq_id list"
    by (induction xs) auto
  have "(\<forall>x \<in> set (map (Pair i) (?ids ! i)). \<forall>y \<in> set (map (Pair j) (?ids ! j)). ?R x y)
      \<longleftrightarrow> (\<forall>x \<in> set (?ids ! i). x \<in> set (?ids ! j) \<longrightarrow> ?ps ! i \<le> ?ps ! j)"
    if "i < j" "j < ?n" for i j
  proof -
    have "(\<forall>x \<in> set (map (Pair i) (?ids ! i)). \<forall>y \<in> set (map (Pair j) (?ids ! j)). ?R x y)
      \<longleftrightarrow> (\<forall>x \<in> set (?ids ! i). \<forall>y \<in> set (?ids ! j). nat x = nat y \<longrightarrow> ?ps ! i \<le> ?ps ! j)"
      by simp
    also have "\<dots> \<longleftrightarrow> (\<forall>x \<in> set (?ids ! i). \<forall>y \<in> set (?ids ! j). x = y \<longrightarrow> ?ps ! i \<le> ?ps ! j)"
      using nn [of i j] that by (metis less_trans)
    finally show ?thesis by metis
  qed
  then have cross: "(\<forall>j < ?n. \<forall>i < j. \<forall>x \<in> set (map (Pair i) (?ids ! i)). \<forall>y \<in> set (map (Pair j) (?ids ! j)). ?R x y)
      \<longleftrightarrow> (\<forall>j < ?n. \<forall>i < j. \<forall>x \<in> set (?ids ! i). x \<in> set (?ids ! j) \<longrightarrow> ?ps ! i \<le> ?ps ! j)"
    by (intro iff_allI imp_cong refl)
  have "sorted_wrt ?R ?prs
      \<longleftrightarrow> (\<forall>j < ?n. \<forall>i < j. \<forall>x \<in> set (?ids ! i). x \<in> set (?ids ! j) \<longrightarrow> ?ps ! i \<le> ?ps ! j)"
    by (simp only: sorted_wrt_concat_upt self cross simp_thms)
  moreover have "(\<forall>(i, x) \<in> set ?prs. -1 \<le> ?ps ! i)
      \<longleftrightarrow> (\<forall>j < ?n. \<forall>s \<in> set (?ids ! j). -1 \<le> ?ps ! j)"
    by auto
  ultimately have "(\<forall>(i, x) \<in> set ?prs. -1 \<le> ?ps ! i) \<and> sorted_wrt ?R ?prs \<longleftrightarrow> pos_ordered ?ids ?ps"
    unfolding pos_ordered_def assms(1) by blast
  with st show ?thesis by auto
qed

subsection \<open>What \<open>init\<close> establishes\<close>

text \<open>The inputs of \<open>init\<close> in the flat layout.\<close>

definition flat_ids :: "(llama_seq_id set \<Rightarrow> llama_seq_id list) \<Rightarrow> llama_batch_ext \<Rightarrow> llama_seq_id list list" where
  "flat_ids ord b = map (\<lambda>t. ord (et_seq_ids t)) (be_tokens b)"

definition flat_pos :: "nat \<Rightarrow> llama_batch_ext \<Rightarrow> llama_pos list" where
  "flat_pos n_pos b = concat (map (\<lambda>j. map (pos_section j) (be_tokens b)) [0..<n_pos])"

lemma length_flat_ids [simp]: "length (flat_ids ord b) = length (be_tokens b)"
  by (simp add: flat_ids_def)

lemma length_flat_pos [simp]: "length (flat_pos m b) = m * length (be_tokens b)"
  using length_concat_rows [of "map (\<lambda>j. map (pos_section j) (be_tokens b)) [0..<m]" "length (be_tokens b)"]
  by (simp add: flat_pos_def)

lemma flat_pos_nth: "j < m \<Longrightarrow> i < length (be_tokens b) \<Longrightarrow>
   flat_pos m b ! (j * length (be_tokens b) + i) = pos_section j (be_tokens b ! i)"
  using nth_concat_rows [of "map (\<lambda>j. map (pos_section j) (be_tokens b)) [0..<m]" "length (be_tokens b)" j i]
  by (simp add: flat_pos_def)

lemma length_decision_order:
  "al_decision_order (init_decision_order b al) = [] \<or>
   length (al_decision_order (init_decision_order b al)) = length (be_tokens b)"
proof -
  let ?n = "length (be_tokens b)"
  let ?g = "\<lambda>i d. if et_decision_order (be_tokens b ! i) \<noteq> 0
        then (vresize 0 ?n d)[i := et_decision_order (be_tokens b ! i)] else d"
  have "d = [] \<or> length d = ?n \<Longrightarrow> fold ?g is d = [] \<or> length (fold ?g is d) = ?n" for "is" d
    by (induction "is" arbitrary: d) auto
  then show ?thesis by (simp add: init_decision_order_def)
qed

text \<open>The state in which \<open>init\<close> starts its phases, and the states between them.\<close>

lemma init_stats_True:
  assumes "init_stats b al = Some (True, al')" "al_seq_pos al = (\<lambda>_. {})"
    and "al_seq_cpl al = (\<lambda>_ _. False)" "al_seq_set al = []" "al_seq_set_map al = (\<lambda>_. [])"
    and "al_seq_id_unq al = []" "length (al_seq_id al) = length (be_tokens b)"
  defines "n \<equiv> length (be_tokens b)" and "ids \<equiv> al_seq_id al"
  shows "\<exists>idx u. al' = al\<lparr>al_n_tokens := n,
      al_n_outputs := al_n_outputs al + length (filter id (al_output al)),
      al_seq_pos := positions_in ids (al_pos al) n, al_seq_cpl := coupled_in ids n,
      al_has_cpl := (\<exists>i < n. 1 < length (ids ! i)),
      al_seq_set := map (\<lambda>i. nat ` set (ids ! i)) [0..<n],
      al_seq_set_map := (\<lambda>S. filter (\<lambda>i. nat ` set (ids ! i) = S) [0..<n]),
      al_seq_idx := idx, al_seq_id_unq := u\<rparr>
    \<and> number_seqs (al_n_seq_max al) (\<Union> i \<in> {..<n}. nat ` set (ids ! i)) (al_seq_idx al, []) = (idx, u)"
proof -
  let ?al1 = "al\<lparr>al_n_tokens := n, al_n_outputs := al_n_outputs al + length (filter id (al_output al))\<rparr>"
  obtain al2 al3 where al2: "init_coupled ?al1 = Some al2" and al3: "al3 = init_seq_sets al2"
    and al': "(let (idx, u) = number_seqs (al_n_seq_max al3) (\<Union> (set (al_seq_set al3)))
          (al_seq_idx al3, al_seq_id_unq al3) in
      Some (True, al3\<lparr>al_seq_idx := idx, al_seq_id_unq := u\<rparr>)) = Some (True, al')"
    using assms(1) by (auto simp: init_stats_def n_def failure_simps simp del: Let_def)
  have al2_eq: "al2 = ?al1\<lparr>al_seq_pos := positions_in ids (al_pos al) n, al_seq_cpl := coupled_in ids n,
      al_has_cpl := (\<exists>i < n. 1 < length (ids ! i))\<rparr>"
    using init_coupled_Some [OF al2] assms(2-3,7) by (simp add: ids_def n_def)
  have al3_eq: "al3 = al2\<lparr>al_seq_set := map (\<lambda>i. nat ` set (ids ! i)) [0..<n],
      al_seq_set_map := (\<lambda>S. filter (\<lambda>i. nat ` set (ids ! i) = S) [0..<n])\<rparr>"
    using init_seq_sets_eq [of al2] assms(4,5) by (simp add: al3 al2_eq ids_def)
  obtain idx u where nu: "number_seqs (al_n_seq_max al) (\<Union> i \<in> {..<n}. nat ` set (ids ! i))
      (al_seq_idx al, []) = (idx, u)"
    by fastforce
  have "al' = al3\<lparr>al_seq_idx := idx, al_seq_id_unq := u\<rparr>"
    using al' nu assms(6) by (simp add: al3_eq al2_eq atLeast_upt lessThan_atLeast0)
  with nu show ?thesis by (simp add: al3_eq al2_eq)
qed

lemma alloc_init_True:
  assumes "alloc_init ord b oa al = Some (True, al')"
  defines "ts \<equiv> be_tokens b"
  defines "n \<equiv> length ts" and "ids \<equiv> flat_ids ord b" and "ps \<equiv> flat_pos (al_n_pos_per_embd al) b"
  shows alloc_init_shape: "0 < n" "al_n_tokens al' = n" "al_n_pos_per_embd al' = al_n_pos_per_embd al"
      "al_n_seq_max al' \<le> LLAMA_MAX_SEQ" "al_n_seq_max al' = nat (be_n_seq_max b mod 4294967296)"
      "al_n_embd al' = (if be_n_embd b > 0 then be_n_embd b else be_n_embd_inp b)"
      "al_n_embd_state al' = be_n_embd_state b"
    and alloc_init_ids: "al_seq_id al' = ids"
      "\<forall>i < n. \<forall>s \<in> set (ids ! i). 0 \<le> s \<and> s < int (al_n_seq_max al')"
    and alloc_init_pos: "al_pos al' = ps" "al_seq_pos al' = positions_in ids ps n"
      "al_seq_cpl al' = coupled_in ids n" "al_has_cpl al' = (\<exists>i < n. 1 < length (ids ! i))"
    and alloc_init_sets: "al_seq_set al' = map (\<lambda>i. nat ` set (ids ! i)) [0..<n]"
      "al_seq_set_map al' = (\<lambda>S. filter (\<lambda>i. nat ` set (ids ! i) = S) [0..<n])"
      "number_seqs (al_n_seq_max al') (\<Union> i \<in> {..<n}. nat ` set (ids ! i))
         (map (\<lambda>_. -1) (al_seq_idx al), []) = (al_seq_idx al', al_seq_id_unq al')"
    and alloc_init_out: "al_output al' = (if oa then replicate n True else map et_output ts)"
      "al_n_outputs al' = length (filter id (al_output al'))"
      "al_decision_order al' = [] \<or> length (al_decision_order al') = n"
    and alloc_init_split: "al_used al' = replicate n False" "al_n_used al' = 0" "al_out_ids al' = []"
    and alloc_init_rows:
      "al_has_token al' = (\<not> embd_batch ts)" "al_has_embd al' = (\<not> text_batch ts)"
      "al_is_embd_vec al' = (if mixed_batch ts then map et_has_embd ts else [])"
      "text_batch ts \<or> embd_batch ts \<or> both_batch ts \<or> mixed_batch ts \<and> al_allow_mixed al"
      "al_token_vec al' = (if embd_batch ts then [] else map (\<lambda>t. if mixed_batch ts \<and> et_has_embd t then 0 else et_id t) ts)"
      "embd_batch ts \<or> (\<forall>t \<in> set ts. mixed_batch ts \<and> et_has_embd t \<or> 0 \<le> et_id t \<and> et_id t < be_n_vocab b)"
      "if mixed_batch ts then mixed_embd b (al_n_embd al') = Some (al_embd_vec al')
       else al_embd_vec al' = (if text_batch ts then [] else be_embd b)"
      "al_state_vec al' = (if et_has_state (ts ! 0) then be_state b else [])"
      "\<forall>t \<in> set ts. et_has_state t = et_has_state (ts ! 0)"
    and alloc_init_checked:
      "\<forall>s < al_n_seq_max al'. if al_n_pos_per_embd al' > 1 then mrope_pos_ok (be_mem b) al' s
         else text_pos_ok (be_mem b) al' s = Some True"
      "\<forall>m s0 s1. be_mem b = Some m \<longrightarrow> s0 < al_n_seq_max al' \<longrightarrow> s1 < al_n_seq_max al' \<longrightarrow> al_seq_cpl al' s0 s1
         \<longrightarrow> mem_pos_min m s0 = mem_pos_min m s1 \<and> mem_pos_max m s0 = mem_pos_max m s1"
      "pos_ordered ids ps"
proof -
  define al0 where "al0 = (alloc_clear al)\<lparr>
            al_n_embd := (if be_n_embd b > 0 then be_n_embd b else be_n_embd_inp b),
            al_n_embd_state := be_n_embd_state b,
            al_n_seq_max := nat (be_n_seq_max b mod 4294967296)\<rparr>"
  obtain al1 al2 al3 al4 al5 al6 al7 al8 where pos: "0 < length (be_tokens b)"
    and le: "al_n_seq_max al0 \<le> LLAMA_MAX_SEQ"
    and 1: "init_content b al0 = Some (True, al1)" and 2: "init_rows b al1 = Some (True, al2)"
    and 3: "init_pos b al2 = Some (True, al3)" and 4: "init_seq_ids ord b al3 = Some (True, al4)"
    and 5: "init_stats b (init_decision_order b (init_output oa b al4)) = Some (True, al5)"
    and 6: "check_positions (be_mem b) al5 = Some (True, al6)"
    and 7: "check_coupled (be_mem b) al6 = Some (True, al7)"
    and 8: "check_subsets al7 = Some (True, al8)" and al': "al' = alloc_split_reset al8"
    using assms(1) unfolding alloc_init_def Let_def al0_def [symmetric]
    by (simp add: failure_simps split: if_splits) (elim exE conjE, rule that; (simp; fail | rule sym, assumption))
  have ne: "ts \<noteq> []" "be_tokens b \<noteq> []" using pos by (auto simp: ts_def)
  have hs: "\<forall>t \<in> set ts. et_has_state t = et_has_state (ts ! 0)"
    and al1: "al1 = al0\<lparr>al_has_token := \<not> embd_batch ts, al_has_embd := \<not> text_batch ts,
        al_is_embd_vec := (if mixed_batch ts then map et_has_embd ts else [])\<rparr>"
    and kinds: "text_batch ts \<or> embd_batch ts \<or> both_batch ts \<or> mixed_batch ts \<and> al_allow_mixed al0"
    using init_content_True [OF 1 ne(2), folded ts_def] by blast+
  obtain tv ev sv where al2: "al2 = al1\<lparr>al_token_vec := tv, al_embd_vec := ev, al_state_vec := sv\<rparr>"
    and tv: "\<not> embd_batch ts \<longrightarrow> tv = map (\<lambda>t. if mixed_batch ts \<and> et_has_embd t then 0 else et_id t) ts
      \<and> (\<forall>t \<in> set ts. mixed_batch ts \<and> et_has_embd t \<or> 0 \<le> et_id t \<and> et_id t < be_n_vocab b)"
    and tv0: "\<not> \<not> embd_batch ts \<longrightarrow> tv = []"
    and ev: "if mixed_batch ts then mixed_embd b (al_n_embd al0) = Some ev
       else ev = (if \<not> text_batch ts then be_embd b else [])"
    and sv: "sv = (if et_has_state (ts ! 0) then be_state b else [])"
  proof -
    have m: "al_is_embd_vec al1 \<noteq> [] \<longleftrightarrow> mixed_batch ts" "al_has_token al1 \<longleftrightarrow> \<not> embd_batch ts"
      "al_has_embd al1 \<longleftrightarrow> \<not> text_batch ts" "al_n_embd al1 = al_n_embd al0"
      using ne by (simp_all add: al1)
    show thesis
      using init_rows_True [OF 2, folded ts_def] unfolding m
      by (elim exE conjE) (rule that)
  qed
  have al3: "al3 = al2\<lparr>al_pos := ps\<rparr>"
    using init_pos_True [OF 3]
    by (simp add: al2 al1 ps_def flat_pos_def al0_def alloc_clear_def)
  have al4: "al4 = al3\<lparr>al_seq_id := ids\<rparr>" and val: "\<forall>i < n. \<forall>s \<in> set (ids ! i). 0 \<le> s \<and> s < int (al_n_seq_max al0)"
    using init_seq_ids_True [OF 4]
    by (auto simp: al3 al2 al1 ids_def flat_ids_def n_def ts_def all_set_conv_all_nth)
  let ?out = "if oa then replicate n True else map et_output ts"
  obtain d where d: "init_decision_order b (init_output oa b al4) = al4\<lparr>al_output := ?out, al_decision_order := d\<rparr>"
    and dl: "d = [] \<or> length d = n"
  proof
    have out: "al_output (init_output oa b al4) = ?out"
      by (auto simp: init_output_def Let_def n_def ts_def map_replicate_const comp_def
          intro!: nth_equalityI split: if_splits)
    show "init_decision_order b (init_output oa b al4) = al4\<lparr>al_output := ?out,
        al_decision_order := al_decision_order (init_decision_order b (init_output oa b al4))\<rparr>"
      using out by (simp add: init_decision_order_def init_output_def Let_def)
    show "al_decision_order (init_decision_order b (init_output oa b al4)) = []
        \<or> length (al_decision_order (init_decision_order b (init_output oa b al4))) = n"
      unfolding n_def ts_def by (rule length_decision_order)
  qed
  have "\<exists>idx u. al5 = al4\<lparr>al_output := ?out, al_decision_order := d, al_n_tokens := n,
      al_n_outputs := length (filter id ?out),
      al_seq_pos := positions_in ids ps n, al_seq_cpl := coupled_in ids n,
      al_has_cpl := (\<exists>i < n. 1 < length (ids ! i)),
      al_seq_set := map (\<lambda>i. nat ` set (ids ! i)) [0..<n],
      al_seq_set_map := (\<lambda>S. filter (\<lambda>i. nat ` set (ids ! i) = S) [0..<n]),
      al_seq_idx := idx, al_seq_id_unq := u\<rparr>
    \<and> number_seqs (al_n_seq_max al0) (\<Union> i \<in> {..<n}. nat ` set (ids ! i))
       (map (\<lambda>_. -1) (al_seq_idx al), []) = (idx, u)"
    using init_stats_True [OF 5 [unfolded d]]
    by (simp add: al4 al3 al2 al1 al0_def alloc_clear_def n_def ts_def ids_def)
  then obtain idx u where al5: "al5 = al4\<lparr>al_output := ?out, al_decision_order := d, al_n_tokens := n,
      al_n_outputs := length (filter id ?out),
      al_seq_pos := positions_in ids ps n, al_seq_cpl := coupled_in ids n,
      al_has_cpl := (\<exists>i < n. 1 < length (ids ! i)),
      al_seq_set := map (\<lambda>i. nat ` set (ids ! i)) [0..<n],
      al_seq_set_map := (\<lambda>S. filter (\<lambda>i. nat ` set (ids ! i) = S) [0..<n]),
      al_seq_idx := idx, al_seq_id_unq := u\<rparr>"
    and nu: "number_seqs (al_n_seq_max al0) (\<Union> i \<in> {..<n}. nat ` set (ids ! i))
       (map (\<lambda>_. -1) (al_seq_idx al), []) = (idx, u)"
    by (elim exE conjE) (rule that)
  have al8: "al8 = al5" "al7 = al5" "al6 = al5"
    using check_positions_True [OF 6] check_coupled_True [OF 7] 8
    by (auto simp: check_subsets_def failure_simps)
  have al'_eq: "al' = al5\<lparr>al_out_ids := [], al_n_used := 0, al_used := replicate n False\<rparr>"
    unfolding al' alloc_split_reset_def al8 by (simp add: al5)
  note eqs = al5 al4 al3 al2 al1 al0_def alloc_clear_def
  have n_tokens5: "al_n_tokens al5 = n" "al_seq_id al5 = ids" "al_pos al5 = ps"
    "al_seq_set al5 = map (\<lambda>i. nat ` set (ids ! i)) [0..<n]"
    by (simp_all add: eqs)
  show "0 < n" using pos by (simp add: n_def ts_def)
  show "text_batch ts \<or> embd_batch ts \<or> both_batch ts \<or> mixed_batch ts \<and> al_allow_mixed al"
    using kinds by (simp add: al0_def alloc_clear_def)
  show "\<forall>t \<in> set ts. et_has_state t = et_has_state (ts ! 0)"
    by (rule hs)
  show "al_n_tokens al' = n" "al_n_pos_per_embd al' = al_n_pos_per_embd al"
    "al_n_seq_max al' = nat (be_n_seq_max b mod 4294967296)"
    "al_n_embd al' = (if be_n_embd b > 0 then be_n_embd b else be_n_embd_inp b)"
    "al_n_embd_state al' = be_n_embd_state b" "al_seq_id al' = ids" "al_pos al' = ps"
    "al_seq_pos al' = positions_in ids ps n" "al_seq_cpl al' = coupled_in ids n"
    "al_has_cpl al' = (\<exists>i < n. 1 < length (ids ! i))"
    "al_seq_set al' = map (\<lambda>i. nat ` set (ids ! i)) [0..<n]"
    "al_seq_set_map al' = (\<lambda>S. filter (\<lambda>i. nat ` set (ids ! i) = S) [0..<n])"
    "al_output al' = (if oa then replicate n True else map et_output ts)"
    "al_n_outputs al' = length (filter id (al_output al'))"
    "al_used al' = replicate n False" "al_n_used al' = 0" "al_out_ids al' = []"
    "al_has_token al' = (\<not> embd_batch ts)" "al_has_embd al' = (\<not> text_batch ts)"
    "al_is_embd_vec al' = (if mixed_batch ts then map et_has_embd ts else [])"
    "al_state_vec al' = (if et_has_state (ts ! 0) then be_state b else [])"
    unfolding al'_eq by (simp_all add: eqs sv)
  show "al_n_seq_max al' \<le> LLAMA_MAX_SEQ"
    unfolding al'_eq using le by (simp add: eqs)
  show "\<forall>i < n. \<forall>s \<in> set (ids ! i). 0 \<le> s \<and> s < int (al_n_seq_max al')"
    using val unfolding al'_eq by (simp add: eqs)
  show "number_seqs (al_n_seq_max al') (\<Union> i \<in> {..<n}. nat ` set (ids ! i))
         (map (\<lambda>_. -1) (al_seq_idx al), []) = (al_seq_idx al', al_seq_id_unq al')"
    using nu unfolding al'_eq by (simp add: eqs)
  show "al_decision_order al' = [] \<or> length (al_decision_order al') = n"
    unfolding al'_eq using dl by (simp add: eqs)
  show "al_token_vec al' = (if embd_batch ts then [] else map (\<lambda>t. if mixed_batch ts \<and> et_has_embd t then 0 else et_id t) ts)"
    unfolding al'_eq using tv tv0 by (simp add: eqs)
  show "embd_batch ts \<or> (\<forall>t \<in> set ts. mixed_batch ts \<and> et_has_embd t \<or> 0 \<le> et_id t \<and> et_id t < be_n_vocab b)"
    using tv by blast
  show "if mixed_batch ts then mixed_embd b (al_n_embd al') = Some (al_embd_vec al')
       else al_embd_vec al' = (if text_batch ts then [] else be_embd b)"
    using ev unfolding al'_eq by (simp add: eqs split: if_splits)
  show "\<forall>s < al_n_seq_max al'. if al_n_pos_per_embd al' > 1 then mrope_pos_ok (be_mem b) al' s
         else text_pos_ok (be_mem b) al' s = Some True"
    using check_positions_True [OF 6] unfolding al'_eq
    by (simp add: pos_checks_split_state)
  show "\<forall>m s0 s1. be_mem b = Some m \<longrightarrow> s0 < al_n_seq_max al' \<longrightarrow> s1 < al_n_seq_max al' \<longrightarrow> al_seq_cpl al' s0 s1
         \<longrightarrow> mem_pos_min m s0 = mem_pos_min m s1 \<and> mem_pos_max m s0 = mem_pos_max m s1"
    using check_coupled_True [OF 7] unfolding al'_eq al8 by simp
  have "\<exists>st. subset_scan al5 = Some (pos_ordered (al_seq_id al5) (al_pos al5), st)"
  proof (rule subset_scan_eq)
    show "\<forall>ids \<in> set (al_seq_id al5). \<forall>s \<in> set ids. 0 \<le> s \<and> s < int LLAMA_MAX_SEQ"
    proof (intro ballI)
      fix xs s assume "xs \<in> set (al_seq_id al5)" "s \<in> set xs"
      then obtain i where "i < n" "s \<in> set (ids ! i)"
        by (auto simp: n_tokens5 in_set_conv_nth ids_def n_def ts_def)
      then have "0 \<le> s \<and> s < int (al_n_seq_max al0)" using val by blast
      with le show "0 \<le> s \<and> s < int LLAMA_MAX_SEQ" by simp
    qed
  qed (simp_all add: n_tokens5 ids_def n_def ts_def)
  then show "pos_ordered ids ps"
    using 8 by (auto simp: check_subsets_def failure_simps al8 n_tokens5)
qed

subsection \<open>The input object stays well formed\<close>

text \<open>The calls a client can make, and the results they return.\<close>

datatype batch_op =
    BClear | BAddToken llama_seq_id | BAddSeq int llama_seq_id | BSetId int llama_token
  | BSetEmbd int llama_embd | BSetState int llama_embd | BSetPos int "llama_pos list option"
  | BSetOutput int bool | BSetOrder int int

fun batch_exec :: "batch_op \<Rightarrow> llama_batch_ext \<Rightarrow> llama_batch_ext option" where
  "batch_exec BClear b = Some (batch_clear b)"
| "batch_exec (BAddToken s) b = Some (snd (batch_add_token s b))"
| "batch_exec (BAddSeq i s) b = Some (snd (batch_add_seq i s b))"
| "batch_exec (BSetId i t) b = Some (snd (batch_set_token_id i t b))"
| "batch_exec (BSetEmbd i e) b = map_option snd (batch_set_token_embd i e b)"
| "batch_exec (BSetState i e) b = map_option snd (batch_set_token_state i e b)"
| "batch_exec (BSetPos i ps) b = map_option snd (batch_set_token_pos i ps b)"
| "batch_exec (BSetOutput i v) b = Some (snd (batch_set_output i v b))"
| "batch_exec (BSetOrder i v) b = Some (snd (batch_set_decision_order i v b))"

definition token_ok :: "llama_batch_ext \<Rightarrow> ext_token \<Rightarrow> bool" where
  "token_ok b t \<longleftrightarrow> finite (et_seq_ids t) \<and> et_seq_ids t \<noteq> {}
     \<and> (\<forall>s \<in> et_seq_ids t. 0 \<le> s \<and> s < be_n_seq_max b)
     \<and> length (et_pos t) = GGML_MROPE_SECTIONS
     \<and> (et_id t = LLAMA_TOKEN_NULL \<or> 0 \<le> et_id t \<and> et_id t < be_n_vocab b)
     \<and> (et_has_embd t \<longrightarrow> 0 < be_n_embd b \<and> et_embd_off t + be_n_embd b \<le> length (be_embd b))
     \<and> (et_has_state t \<longrightarrow> et_state_off t + be_n_embd_state b \<le> length (be_state b))"

definition batch_ext_ok :: "llama_batch_ext \<Rightarrow> bool" where
  "batch_ext_ok b \<longleftrightarrow> 0 < be_n_embd_inp b \<and> 0 < be_n_embd_inp_enc b
     \<and> length (be_tokens b) \<le> be_n_tokens_max b
     \<and> (\<forall>t \<in> set (be_tokens b). token_ok b t)
     \<and> length (be_embd b) = length (filter et_has_embd (be_tokens b)) * be_n_embd b
     \<and> length (be_state b) = length (filter et_has_state (be_tokens b)) * be_n_embd_state b"

lemma length_filter_update:
  "i < length xs \<Longrightarrow> length (filter P (xs[i := y])) + of_bool (P (xs ! i)) = length (filter P xs) + of_bool (P y)"
proof (induction xs arbitrary: i)
  case Nil
  then show ?case by simp
next
  case (Cons x xs)
  then show ?case by (cases i) auto
qed

lemma batch_idx_ok_iff: "batch_idx_ok idx b \<longleftrightarrow> 0 \<le> idx \<and> nat idx < length (be_tokens b)"
  by (auto simp: batch_idx_ok_def)

text \<open>Updating one token without touching what it stores in the flat vectors.\<close>

lemma batch_ext_ok_upd_token:
  assumes "batch_ext_ok b" "batch_idx_ok idx b"
    and "\<And>t. token_ok b t \<Longrightarrow> token_ok b (f t)"
    and "\<And>t. et_has_embd (f t) = et_has_embd t" "\<And>t. et_has_state (f t) = et_has_state t"
  shows "batch_ext_ok (upd_token idx f b)"
proof -
  let ?ts = "be_tokens b" and ?i = "nat idx"
  have i: "?i < length ?ts" using assms(2) by (simp add: batch_idx_ok_iff)
  have tok: "token_ok (upd_token idx f b) = token_ok b"
    by (rule ext) (simp add: token_ok_def upd_token_def)
  have "\<forall>t \<in> set (?ts[?i := f (?ts ! ?i)]). token_ok b t"
    using assms(1,3) i set_update_subset_insert [of ?ts ?i "f (?ts ! ?i)"]
    by (auto simp: batch_ext_ok_def)
  moreover have "length (filter et_has_embd (?ts[?i := f (?ts ! ?i)])) = length (filter et_has_embd ?ts)"
    "length (filter et_has_state (?ts[?i := f (?ts ! ?i)])) = length (filter et_has_state ?ts)"
    using length_filter_update [OF i, of et_has_embd "f (?ts ! ?i)"]
      length_filter_update [OF i, of et_has_state "f (?ts ! ?i)"] assms(4,5) by simp_all
  ultimately show ?thesis
    using assms(1) unfolding batch_ext_ok_def tok by (simp add: upd_token_def)
qed

lemma batch_ext_ok_add_token:
  assumes "batch_ext_ok b"
  shows "batch_ext_ok (snd (batch_add_token sid b))"
  using assms
  by (auto simp: batch_add_token_def batch_ext_ok_def token_ok_def ext_token_new_def Let_def
      GGML_MROPE_SECTIONS_def)

lemma set_pos_sections_length: "set_pos_sections n ps pos = Some pos' \<Longrightarrow> length pos' = length pos"
  unfolding set_pos_sections_def
  by (rule for_opt_inv [where P = "\<lambda>p. length p = length pos"]) (auto simp: failure_simps)

lemma token_ok_mono:
  assumes "token_ok b t" "be_n_seq_max b' = be_n_seq_max b" "be_n_vocab b' = be_n_vocab b"
    and "be_n_embd_state b' = be_n_embd_state b"
    and "length (be_embd b) \<le> length (be_embd b')" "length (be_state b) \<le> length (be_state b')"
    and "be_n_embd b = 0 \<or> be_n_embd b' = be_n_embd b"
  shows "token_ok b' t"
  using assms by (auto simp: token_ok_def)

lemma batch_ext_ok_set_embd:
  assumes "batch_ext_ok b" "batch_set_token_embd idx e b = Some (r, b')"
  shows "batch_ext_ok b'"
proof (cases r)
  case False
  have no: "be_n_embd b = 0 \<Longrightarrow> t \<in> set (be_tokens b) \<Longrightarrow> \<not> et_has_embd t" for t
    using assms(1) by (auto simp: batch_ext_ok_def token_ok_def)
  have "b' = b \<or> be_n_embd b = 0 \<and> batch_idx_ok idx b \<and> et_has_embd (be_tokens b ! nat idx)"
    using assms(2) False
    by (auto simp: batch_set_token_embd_def Let_def failure_simps split: if_splits option.splits)
  then show ?thesis
    using assms(1) no [of "be_tokens b ! nat idx"] by (auto simp: batch_idx_ok_iff)
next
  case True
  then obtain src where idx: "batch_idx_ok idx b"
    and src: "em_data e = Some src" "em_n_rows e * em_n_embd e \<le> length src"
    and n: "be_n_embd b = 0 \<longrightarrow> em_n_rows e * em_n_embd e = be_n_embd_inp b
              \<or> em_n_rows e * em_n_embd e = be_n_embd_inp_enc b"
      "be_n_embd b \<noteq> 0 \<longrightarrow> em_n_rows e * em_n_embd e = be_n_embd b"
    and unset: "\<not> et_has_embd (be_tokens b ! nat idx)"
    and b': "b' = (upd_token idx (\<lambda>t. t\<lparr>et_has_embd := True, et_embd_off := length (be_embd b)\<rparr>)
        (b\<lparr>be_n_embd := em_n_rows e * em_n_embd e\<rparr>))
        \<lparr>be_embd := be_embd b @ take (em_n_rows e * em_n_embd e) src\<rparr>"
    using assms(2)
    by (auto simp: batch_set_token_embd_def Let_def failure_simps split: if_splits option.splits)
  let ?n = "em_n_rows e * em_n_embd e" and ?ts = "be_tokens b" and ?i = "nat idx"
  let ?t = "(?ts ! ?i)\<lparr>et_has_embd := True, et_embd_off := length (be_embd b)\<rparr>"
  have i: "?i < length ?ts" using idx by (simp add: batch_idx_ok_iff)
  have pos: "0 < ?n" using n assms(1) unfolding batch_ext_ok_def by (metis gr0I)
  have old: "token_ok b' t" if "t \<in> set ?ts" for t
  proof (rule token_ok_mono)
    show "token_ok b t" using assms(1) that by (simp add: batch_ext_ok_def)
  qed (use n in \<open>auto simp: b' upd_token_def\<close>)
  have new: "token_ok b' ?t"
    using old [of "?ts ! ?i"] i pos src(2) by (auto simp: token_ok_def b' upd_token_def)
  have "\<forall>t \<in> set (?ts[?i := ?t]). token_ok b' t"
    using old new set_update_subset_insert [of ?ts ?i ?t] by blast
  moreover have "length (filter et_has_embd (?ts[?i := ?t])) = Suc (length (filter et_has_embd ?ts))"
    using length_filter_update [OF i, of et_has_embd ?t] unset by simp
  moreover have "length (filter et_has_state (?ts[?i := ?t])) = length (filter et_has_state ?ts)"
    using length_filter_update [OF i, of et_has_state ?t] by simp
  moreover have "length (filter et_has_embd ?ts) * be_n_embd b = length (filter et_has_embd ?ts) * ?n"
  proof (cases "be_n_embd b = 0")
    case True
    then have "filter et_has_embd ?ts = []"
      using assms(1) by (auto simp: batch_ext_ok_def token_ok_def filter_empty_conv)
    then show ?thesis by simp
  qed (use n in simp)
  ultimately show ?thesis
    using assms(1) src(2) by (simp add: batch_ext_ok_def b' upd_token_def min_absorb2)
qed

lemma batch_ext_ok_set_state:
  assumes "batch_ext_ok b" "batch_set_token_state idx e b = Some (r, b')"
  shows "batch_ext_ok b'"
proof (cases r)
  case False
  then have "b' = b"
    using assms(2)
    by (auto simp: batch_set_token_state_def Let_def failure_simps split: if_splits option.splits)
  then show ?thesis using assms(1) by simp
next
  case True
  then obtain src where idx: "batch_idx_ok idx b"
    and src: "em_n_rows e * em_n_embd e \<le> length src"
    and n: "em_n_rows e * em_n_embd e = be_n_embd_state b"
    and unset: "\<not> et_has_state (be_tokens b ! nat idx)"
    and b': "b' = (upd_token idx (\<lambda>t. t\<lparr>et_has_state := True, et_state_off := length (be_state b)\<rparr>) b)
        \<lparr>be_state := be_state b @ take (em_n_rows e * em_n_embd e) src\<rparr>"
    using assms(2)
    by (auto simp: batch_set_token_state_def Let_def failure_simps split: if_splits option.splits)
  let ?ts = "be_tokens b" and ?i = "nat idx"
  let ?t = "(?ts ! ?i)\<lparr>et_has_state := True, et_state_off := length (be_state b)\<rparr>"
  have i: "?i < length ?ts" using idx by (simp add: batch_idx_ok_iff)
  have old: "token_ok b' t" if "t \<in> set ?ts" for t
  proof (rule token_ok_mono)
    show "token_ok b t" using assms(1) that by (simp add: batch_ext_ok_def)
  qed (auto simp: b' upd_token_def)
  have new: "token_ok b' ?t"
    using old [of "?ts ! ?i"] i src n by (auto simp: token_ok_def b' upd_token_def)
  have "\<forall>t \<in> set (?ts[?i := ?t]). token_ok b' t"
    using old new set_update_subset_insert [of ?ts ?i ?t] by blast
  moreover have "length (filter et_has_state (?ts[?i := ?t])) = Suc (length (filter et_has_state ?ts))"
    using length_filter_update [OF i, of et_has_state ?t] unset by simp
  moreover have "length (filter et_has_embd (?ts[?i := ?t])) = length (filter et_has_embd ?ts)"
    using length_filter_update [OF i, of et_has_embd ?t] by simp
  ultimately show ?thesis
    using assms(1) src n by (simp add: batch_ext_ok_def b' upd_token_def min_absorb2)
qed

lemma batch_exec_ok:
  assumes "batch_ext_ok b" "batch_exec op b = Some b'"
  shows "batch_ext_ok b'"
proof (cases op)
  case BClear
  then show ?thesis using assms by (auto simp: batch_clear_def batch_ext_ok_def)
next
  case (BAddToken s)
  then show ?thesis using assms batch_ext_ok_add_token by auto
next
  case (BAddSeq i s)
  then show ?thesis using assms
    by (auto simp: batch_add_seq_def token_ok_def intro!: batch_ext_ok_upd_token)
next
  case (BSetId i t)
  then show ?thesis using assms
    by (auto simp: batch_set_token_id_def token_ok_def intro!: batch_ext_ok_upd_token)
next
  case (BSetEmbd i e)
  then show ?thesis using assms batch_ext_ok_set_embd by auto
next
  case (BSetState i e)
  then show ?thesis using assms batch_ext_ok_set_state by auto
next
  case (BSetPos i ps)
  then obtain r where r: "batch_set_token_pos i ps b = Some (r, b')" using assms(2) by auto
  then consider "b' = b" | pos where "batch_idx_ok i b" "length pos = length (et_pos (be_tokens b ! nat i))"
    "b' = upd_token i (\<lambda>t. t\<lparr>et_pos := pos\<rparr>) b"
  proof -
    show thesis
    proof (cases "batch_idx_ok i b \<and> ps \<noteq> None")
      case False
      then have "b' = b"
        using r by (auto simp: batch_set_token_pos_def split: if_splits)
      then show thesis by (rule that(1))
    next
      case True
      then obtain src where "ps = Some src" by blast
      with r True obtain n pos where pos: "set_pos_sections n src (et_pos (be_tokens b ! nat i)) = Some pos"
        and b': "b' = upd_token i (\<lambda>t. t\<lparr>et_pos := pos\<rparr>) b"
        by (auto simp: batch_set_token_pos_def Let_def failure_simps)
      show thesis
        using that(2) True set_pos_sections_length [OF pos] b' by blast
    qed
  qed
  then show ?thesis
  proof cases
    case 2
    have "token_ok b (be_tokens b ! nat i)"
      using assms(1) 2(1) by (simp add: batch_ext_ok_def batch_idx_ok_iff)
    then have "length pos = GGML_MROPE_SECTIONS" using 2(2) by (simp add: token_ok_def)
    then show ?thesis using assms(1) 2
      by (auto simp: token_ok_def intro!: batch_ext_ok_upd_token)
  qed (use assms in simp)
next
  case (BSetOutput i v)
  then show ?thesis using assms
    by (auto simp: batch_set_output_def token_ok_def intro!: batch_ext_ok_upd_token)
next
  case (BSetOrder i v)
  then show ?thesis using assms
    by (auto simp: batch_set_decision_order_def token_ok_def intro!: batch_ext_ok_upd_token)
qed

subsection \<open>Which batches \<open>init\<close> accepts\<close>

definition content_ok :: "bool \<Rightarrow> ext_token list \<Rightarrow> bool" where
  "content_ok allow_mixed ts \<longleftrightarrow>
     (text_batch ts \<or> embd_batch ts \<or> both_batch ts \<or> mixed_batch ts \<and> allow_mixed)
     \<and> (\<forall>t \<in> set ts. et_has_state t = et_has_state (ts ! 0))"

lemma content_ok_nonempty:
  "content_ok m ts \<Longrightarrow> t \<in> set ts \<Longrightarrow> et_id t \<noteq> LLAMA_TOKEN_NULL \<or> et_has_embd t"
  by (auto simp: content_ok_def text_batch_def embd_batch_def both_batch_def mixed_batch_def)

lemma content_ok_both:
  assumes "content_ok m ts" "t \<in> set ts" "et_id t \<noteq> LLAMA_TOKEN_NULL" "et_has_embd t"
  shows "both_batch ts"
  using assms by (auto simp: content_ok_def text_batch_def embd_batch_def mixed_batch_def)

lemma init_content_total:
  assumes "content_ok (al_allow_mixed al) (be_tokens b)" "be_tokens b \<noteq> []"
  shows "\<exists>al'. init_content b al = Some (True, al')"
proof -
  let ?ts = "be_tokens b"
  define hs where "hs = et_has_state (?ts ! 0)"
  have "\<exists>c. for_ret (content_step hs) ?ts \<lparr>n_tok_only = 0, n_embd_only = 0, n_both = 0\<rparr> = Some (True, c) \<and> True"
  proof (rule for_ret_total)
    fix t c assume t: "t \<in> set ?ts"
    have "et_has_state t = hs" using assms(1) t unfolding content_ok_def hs_def by blast
    then show "\<exists>c'. content_step hs t c = Some (True, c') \<and> True"
      using content_ok_nonempty [OF assms(1) t] by (auto simp: content_step_def Let_def)
  qed simp
  then obtain c where c: "content_scan ?ts = Some (True, c)"
    using assms(2) by (auto simp: content_scan_def hs_def)
  note counts = content_scan_True [OF c]
  have both: "\<not> (n_both c > 0 \<and> n_both c \<noteq> length ?ts)"
  proof
    assume a: "n_both c > 0 \<and> n_both c \<noteq> length ?ts"
    then obtain t where "t \<in> set ?ts" "et_id t \<noteq> LLAMA_TOKEN_NULL" "et_has_embd t"
      using counts by (auto simp: filter_empty_conv)
    then have "both_batch ?ts" by (rule content_ok_both [OF assms(1)])
    then have "filter (\<lambda>t. et_id t \<noteq> LLAMA_TOKEN_NULL \<and> et_has_embd t) ?ts = ?ts"
      by (simp add: both_batch_def filter_id_conv)
    then show False using a counts by simp
  qed
  have "\<not> (is_mixed_content c \<and> \<not> al_allow_mixed al)"
  proof
    assume a: "is_mixed_content c \<and> \<not> al_allow_mixed al"
    then have "text_batch ?ts \<or> embd_batch ?ts \<or> both_batch ?ts"
      using assms(1) by (auto simp: content_ok_def)
    moreover obtain t u where "t \<in> set ?ts" "et_id t \<noteq> LLAMA_TOKEN_NULL" "\<not> et_has_embd t"
      "u \<in> set ?ts" "et_id u = LLAMA_TOKEN_NULL" "et_has_embd u"
      using a counts by (auto simp: is_mixed_content_def filter_empty_conv)
    ultimately show False
      by (auto simp: text_batch_def embd_batch_def both_batch_def)
  qed
  then show ?thesis
    using c both by (auto simp: init_content_def)
qed

lemma token_loop_total:
  assumes "\<forall>t \<in> set ts. m \<and> et_has_embd t \<or> 0 \<le> et_id t \<and> et_id t < nv"
  shows "\<exists>v. for_ret (token_step nv m) ts [] = Some (True, v)"
proof -
  have "\<exists>v. for_ret (token_step nv m) ts [] = Some (True, v) \<and> True"
    by (rule for_ret_total) (use assms in \<open>auto simp: token_step_def\<close>)
  then show ?thesis by simp
qed

text \<open>The flat embeddings of a mixed batch are its rows, one after the other.\<close>

definition embd_row :: "llama_batch_ext \<Rightarrow> nat \<Rightarrow> ext_token \<Rightarrow> f32 list" where
  "embd_row b n t = (if et_has_embd t then take n (drop (et_embd_off t) (be_embd b)) else replicate n 0)"

lemma mixed_embd_eq:
  "mixed_embd b n = (if \<forall>t \<in> set (be_tokens b). et_has_embd t \<longrightarrow> et_embd_off t + n \<le> length (be_embd b)
     then Some (concat (map (embd_row b n) (be_tokens b))) else None)"
proof -
  have "for_opt (\<lambda>t v. do { r \<leftarrow> mixed_embd_row b n t; Some (v @ r) }) ts v
      = (if \<forall>t \<in> set ts. et_has_embd t \<longrightarrow> et_embd_off t + n \<le> length (be_embd b)
         then Some (v @ concat (map (embd_row b n) ts)) else None)" for ts v
    by (induction ts arbitrary: v) (auto simp: mixed_embd_row_def embd_row_def check_def)
  then show ?thesis by (simp add: mixed_embd_def)
qed

lemma init_rows_total:
  assumes "\<forall>t \<in> set (be_tokens b). al_is_embd_vec al \<noteq> [] \<and> et_has_embd t \<or> \<not> al_has_token al
        \<or> 0 \<le> et_id t \<and> et_id t < be_n_vocab b"
    and "\<forall>t \<in> set (be_tokens b). et_has_embd t \<longrightarrow> et_embd_off t + al_n_embd al \<le> length (be_embd b)"
    and "be_tokens b \<noteq> []"
  shows "\<exists>al'. init_rows b al = Some (True, al')"
proof -
  obtain tv where "(if al_has_token al
      then for_ret (token_step (be_n_vocab b) (al_is_embd_vec al \<noteq> [])) (be_tokens b) [] else Some (True, []))
      = Some (True, tv)"
    using token_loop_total [of "be_tokens b" "al_is_embd_vec al \<noteq> []" "be_n_vocab b"] assms(1)
    by (cases "al_has_token al") auto
  then show ?thesis
    using assms(2,3) by (simp add: init_rows_def Let_def mixed_embd_eq)
qed

lemma init_coupled_total:
  assumes "length (al_seq_id al) = al_n_tokens al" "al_n_tokens al \<le> length (al_pos al)"
    and "\<forall>ids \<in> set (al_seq_id al). ids \<noteq> []"
  shows "\<exists>al'. init_coupled al = Some al'"
proof -
  let ?P = "\<lambda>s :: llama_batch_allocr. al_seq_id s = al_seq_id al \<and> al_pos s = al_pos al"
  let ?f = "\<lambda>i al. do {
       s0 \<leftarrow> seq_id_first al i;
       p \<leftarrow> nth_opt (al_pos al) i;
       Some (fold (couple_step p s0) (enumerate 0 (al_seq_id al ! i)) al) }"
  have "\<exists>s'. for_opt ?f [0..<al_n_tokens al] (al\<lparr>al_has_cpl := False\<rparr>) = Some s' \<and> ?P s'"
  proof (rule for_opt_total)
    fix i and s :: llama_batch_allocr
    assume i: "i \<in> set [0..<al_n_tokens al]" and P: "?P s"
    have ne: "al_seq_id al ! i \<noteq> []" using i assms(1,3) by auto
    have "0 < length (concat (drop i (al_seq_id al)))"
      using i ne assms(1) by (simp add: Cons_nth_drop_Suc [symmetric])
    then obtain s0 where s0: "seq_id_first s i = Some s0"
      using P by (auto simp: seq_id_first_def)
    obtain s' where s': "s' = fold (couple_step (al_pos s ! i) s0) (enumerate 0 (al_seq_id s ! i)) s" by blast
    have "?P s'"
      using couple_step_fold [of "al_pos s ! i" s0 0 "al_seq_id s ! i" s] P
      by (elim exE conjE) (simp add: s')
    then show "\<exists>s'. ?f i s = Some s' \<and> ?P s'"
      using s0 i P assms(2) s' by auto
  qed simp
  then show ?thesis by (auto simp: init_coupled_def)
qed

lemma init_stats_total:
  assumes "al_seq_pos al = (\<lambda>_. {})" "length (al_seq_id al) = length (be_tokens b)"
    and "length (be_tokens b) \<le> length (al_pos al)" "\<forall>ids \<in> set (al_seq_id al). ids \<noteq> []"
  shows "\<exists>al'. init_stats b al = Some (True, al')"
proof -
  obtain al2 where "init_coupled (al\<lparr>al_n_tokens := length (be_tokens b),
      al_n_outputs := al_n_outputs al + length (filter id (al_output al))\<rparr>) = Some al2"
    using init_coupled_total [of "al\<lparr>al_n_tokens := length (be_tokens b),
      al_n_outputs := al_n_outputs al + length (filter id (al_output al))\<rparr>"] assms by auto
  then show ?thesis
    by (simp add: init_stats_def Let_def split: prod.split)
qed

lemma alloc_init_run:
  assumes "0 < length (be_tokens b)" "int (length (be_tokens b)) \<le> INT32_MAX"
    and "al_n_seq_max al0 \<le> LLAMA_MAX_SEQ"
    and "al0 = (alloc_clear al)\<lparr>
            al_n_embd := (if be_n_embd b > 0 then be_n_embd b else be_n_embd_inp b),
            al_n_embd_state := be_n_embd_state b,
            al_n_seq_max := nat (be_n_seq_max b mod 4294967296)\<rparr>"
    and "init_content b al0 = Some (True, al1)" "init_rows b al1 = Some (True, al2)"
    and "init_pos b al2 = Some (True, al3)" "init_seq_ids ord b al3 = Some (True, al4)"
    and "init_stats b (init_decision_order b (init_output oa b al4)) = Some (True, al5)"
    and "check_positions (be_mem b) al5 = Some (True, al5)"
    and "check_coupled (be_mem b) al5 = Some (True, al5)"
    and "check_subsets al5 = Some (True, al5)"
  shows "alloc_init ord b oa al = Some (True, alloc_split_reset al5)"
  using assms by (simp add: alloc_init_def Let_def and_then_def)

lemma interval_iff_card:
  fixes P :: "int set"
  assumes "finite P" "P \<noteq> {}"
  shows "Max P - Min P + 1 \<le> int (card P) \<longleftrightarrow> P = {Min P..Max P}"
proof
  have sub: "P \<subseteq> {Min P..Max P}" using assms by auto
  have le: "Min P \<le> Max P" using assms by simp
  {
    assume "Max P - Min P + 1 \<le> int (card P)"
    then have "card {Min P..Max P} \<le> card P" by simp
    then show "P = {Min P..Max P}" using sub by (intro card_seteq) simp_all
  }
  {
    assume "P = {Min P..Max P}"
    then have "card P = card {Min P..Max P}" by simp
    then show "Max P - Min P + 1 \<le> int (card P)" using le by simp
  }
qed

text \<open>The positions an input batch gives to sequence \<open>s\<close>.\<close>

definition batch_positions :: "llama_batch_ext \<Rightarrow> llama_seq_id \<Rightarrow> llama_pos set" where
  "batch_positions b s = {et_pos t ! 0 |t. t \<in> set (be_tokens b) \<and> s \<in> et_seq_ids t}"

lemma finite_batch_positions [simp]: "finite (batch_positions b s)"
proof -
  have "batch_positions b s \<subseteq> (\<lambda>t. et_pos t ! 0) ` set (be_tokens b)"
    by (auto simp: batch_positions_def)
  then show ?thesis by (rule finite_subset) simp
qed

lemma batch_positions_code:
  "batch_positions b s = set (map (\<lambda>t. et_pos t ! 0) (filter (\<lambda>t. s \<in> et_seq_ids t) (be_tokens b)))"
  by (auto simp: batch_positions_def)

text \<open>
  The rule for the positions of a sequence \<open>s\<close> that has entries, \<open>n_pos\<close> positions per entry.
  One position: a gap-free interval that starts right after the last stored position. More
  (M-RoPE): start after the last stored position, or at it when the first entry of \<open>s\<close> is an
  embedding.
\<close>

definition starts_with_embd :: "llama_batch_ext \<Rightarrow> llama_seq_id \<Rightarrow> bool" where
  "starts_with_embd b s = (case find (\<lambda>t. s \<in> et_seq_ids t) (be_tokens b) of
     Some t \<Rightarrow> et_id t = LLAMA_TOKEN_NULL | None \<Rightarrow> False)"

definition positions_valid :: "nat \<Rightarrow> llama_batch_ext \<Rightarrow> llama_seq_id \<Rightarrow> bool" where
  "positions_valid n_pos b s \<longleftrightarrow>
     (let P = batch_positions b s; p0 = memory_seq_pos_max (be_mem b) (nat s) in
      if n_pos > 1 then 0 \<le> p0 \<longrightarrow> (if starts_with_embd b s then p0 \<le> Min P else p0 < Min P)
      else P = {Min P..Max P} \<and> (0 \<le> p0 \<longrightarrow> Min P = p0 + 1))"

text \<open>What a client must respect; \<open>flat_ids\<close> is needed only to say what is coupled.\<close>

definition batch_valid :: "(llama_seq_id set \<Rightarrow> llama_seq_id list) \<Rightarrow> nat \<Rightarrow> bool \<Rightarrow> llama_batch_ext \<Rightarrow> bool" where
  "batch_valid ord n_pos allow_mixed b \<longleftrightarrow>
     be_n_seq_max b \<le> int LLAMA_MAX_SEQ
     \<and> content_ok allow_mixed (be_tokens b)
     \<and> (\<forall>t \<in> set (be_tokens b). et_id t \<noteq> LLAMA_TOKEN_NULL \<longrightarrow> 0 \<le> et_id t \<and> et_id t < be_n_vocab b)
     \<and> (\<forall>t \<in> set (be_tokens b). \<forall>s \<in> et_seq_ids t. 0 \<le> s \<and> s < be_n_seq_max b)
     \<and> (\<forall>t \<in> set (be_tokens b). -1 \<le> et_pos t ! 0)
     \<and> (\<forall>s. 0 \<le> s \<longrightarrow> s < be_n_seq_max b \<longrightarrow> batch_positions b s \<noteq> {} \<longrightarrow> positions_valid n_pos b s)
     \<and> (\<forall>m s0 s1. be_mem b = Some m \<longrightarrow> int s0 < be_n_seq_max b \<longrightarrow> int s1 < be_n_seq_max b \<longrightarrow>
          coupled_in (flat_ids ord b) (length (be_tokens b)) s0 s1 \<longrightarrow>
          mem_pos_min m s0 = mem_pos_min m s1 \<and> mem_pos_max m s0 = mem_pos_max m s1)
     \<and> (\<forall>i j s. i < j \<longrightarrow> j < length (be_tokens b) \<longrightarrow>
          s \<in> et_seq_ids (be_tokens b ! i) \<longrightarrow> s \<in> et_seq_ids (be_tokens b ! j) \<longrightarrow>
          et_pos (be_tokens b ! i) ! 0 \<le> et_pos (be_tokens b ! j) ! 0)"

lemma batch_validI:
  assumes "be_n_seq_max b \<le> int LLAMA_MAX_SEQ" "content_ok am (be_tokens b)"
    and "\<And>t. t \<in> set (be_tokens b) \<Longrightarrow> et_id t \<noteq> LLAMA_TOKEN_NULL \<Longrightarrow> 0 \<le> et_id t \<and> et_id t < be_n_vocab b"
    and "\<And>t s. t \<in> set (be_tokens b) \<Longrightarrow> s \<in> et_seq_ids t \<Longrightarrow> 0 \<le> s \<and> s < be_n_seq_max b"
    and "\<And>t. t \<in> set (be_tokens b) \<Longrightarrow> -1 \<le> et_pos t ! 0"
    and "\<And>s. 0 \<le> s \<Longrightarrow> s < be_n_seq_max b \<Longrightarrow> batch_positions b s \<noteq> {} \<Longrightarrow> positions_valid n b s"
    and "\<And>m s0 s1. be_mem b = Some m \<Longrightarrow> int s0 < be_n_seq_max b \<Longrightarrow> int s1 < be_n_seq_max b \<Longrightarrow>
          coupled_in (flat_ids ord b) (length (be_tokens b)) s0 s1 \<Longrightarrow>
          mem_pos_min m s0 = mem_pos_min m s1 \<and> mem_pos_max m s0 = mem_pos_max m s1"
    and "\<And>i j s. i < j \<Longrightarrow> j < length (be_tokens b) \<Longrightarrow>
          s \<in> et_seq_ids (be_tokens b ! i) \<Longrightarrow> s \<in> et_seq_ids (be_tokens b ! j) \<Longrightarrow>
          et_pos (be_tokens b ! i) ! 0 \<le> et_pos (be_tokens b ! j) ! 0"
  shows "batch_valid ord n am b"
  unfolding batch_valid_def using assms by blast

text \<open>
  The shape of the inputs considered: machine integers in their ranges, and per entry the
  non-empty id set, the position slots and, with an embedding, the row inside the flat vector
  that the batch API provides. Nothing that \<open>init\<close> itself checks is among it.
\<close>

definition batch_input :: "(llama_seq_id set \<Rightarrow> llama_seq_id list) \<Rightarrow> nat \<Rightarrow> llama_batch_ext \<Rightarrow> bool" where
  "batch_input ord n_pos b \<longleftrightarrow> (\<forall>A. finite A \<longrightarrow> set (ord A) = A) \<and> 0 < n_pos
     \<and> 0 < length (be_tokens b) \<and> int (length (be_tokens b)) \<le> INT32_MAX
     \<and> 0 \<le> be_n_seq_max b \<and> be_n_seq_max b \<le> INT32_MAX
     \<and> (\<forall>t \<in> set (be_tokens b). finite (et_seq_ids t) \<and> et_seq_ids t \<noteq> {}
          \<and> n_pos \<le> length (et_pos t) \<and> INT32_MIN \<le> et_pos t ! 0 \<and> et_pos t ! 0 \<le> INT32_MAX
          \<and> (et_has_embd t \<longrightarrow> 0 < be_n_embd b \<and> et_embd_off t + be_n_embd b \<le> length (be_embd b)))
     \<and> (\<forall>s. INT32_MIN \<le> memory_seq_pos_max (be_mem b) s \<and> memory_seq_pos_max (be_mem b) s \<le> INT32_MAX)"

text \<open>The first section of the flat positions.\<close>

lemma flat_pos_0:
  assumes "0 < n" "i < length (be_tokens b)"
  shows "flat_pos n b ! i = et_pos (be_tokens b ! i) ! 0"
  using flat_pos_nth [of 0 n i b] assms by (simp add: pos_section_def)

lemma flat_ids_set:
  assumes "batch_input ord n b" "i < length (be_tokens b)"
  shows "set (flat_ids ord b ! i) = et_seq_ids (be_tokens b ! i)"
  using assms by (simp add: flat_ids_def batch_input_def)

lemma positions_in_flat:
  assumes "batch_input ord n b" "\<forall>t \<in> set (be_tokens b). \<forall>s \<in> et_seq_ids t. 0 \<le> s"
  shows "positions_in (flat_ids ord b) (flat_pos n b) (length (be_tokens b)) s = batch_positions b (int s)"
proof -
  have n: "0 < n" using assms(1) by (simp add: batch_input_def)
  have mem: "s \<in> nat ` set (flat_ids ord b ! i) \<longleftrightarrow> int s \<in> et_seq_ids (be_tokens b ! i)"
    if "i < length (be_tokens b)" for i
  proof -
    have "\<forall>x \<in> et_seq_ids (be_tokens b ! i). 0 \<le> x"
      using bspec [OF assms(2) nth_mem [OF that]] .
    then show ?thesis
      unfolding flat_ids_set [OF assms(1) that] by force
  qed
  have "positions_in (flat_ids ord b) (flat_pos n b) (length (be_tokens b)) s
      = {et_pos (be_tokens b ! i) ! 0 |i. i < length (be_tokens b) \<and> int s \<in> et_seq_ids (be_tokens b ! i)}"
    unfolding positions_in_def using mem flat_pos_0 [OF n, of _ b] by (intro Collect_cong) metis
  also have "\<dots> = batch_positions b (int s)"
    unfolding batch_positions_def by (intro Collect_cong) (metis in_set_conv_nth)
  finally show ?thesis .
qed

lemma card_batch_positions: "card (batch_positions b s) \<le> length (be_tokens b)"
proof -
  have "batch_positions b s \<subseteq> (\<lambda>t. et_pos t ! 0) ` set (be_tokens b)"
    by (auto simp: batch_positions_def)
  then have "card (batch_positions b s) \<le> card ((\<lambda>t. et_pos t ! 0) ` set (be_tokens b))"
    by (intro card_mono) auto
  also have "\<dots> \<le> card (set (be_tokens b))" by (rule card_image_le) simp
  also have "\<dots> \<le> length (be_tokens b)" by (rule card_length)
  finally show ?thesis .
qed

lemma batch_positions_range:
  "batch_input ord n b \<Longrightarrow> p \<in> batch_positions b s \<Longrightarrow> INT32_MIN \<le> p \<and> p \<le> INT32_MAX"
  by (auto simp: batch_input_def batch_positions_def)

lemma text_pos_ok_nonempty:
  assumes "al_seq_pos al s = P" "P \<noteq> {}"
  shows "text_pos_ok mem al s = (let p0 = memory_seq_pos_max mem s in do {
        ok \<leftarrow> (if p0 \<ge> 0 then do { p1 \<leftarrow> i32 (p0 + 1); Some (Min P = p1) } else Some True);
        if \<not> ok then Some False
        else do {
          d \<leftarrow> i32 (Max P - Min P);
          d \<leftarrow> i32 (d + 1);
          Some (\<not> (d > int (card P))) } })"
  using assms(2)
  unfolding text_pos_ok_def alloc_seq_pos_min_def alloc_seq_pos_max_def assms(1) by (simp only: if_False)

lemma text_pos_ok_valid:
  assumes "al_seq_pos al (nat s) = batch_positions b s" "text_pos_ok (be_mem b) al (nat s) = Some True"
    and "batch_positions b s \<noteq> {}"
  shows "positions_valid 1 b s"
proof -
  let ?P = "batch_positions b s" and ?p0 = "memory_seq_pos_max (be_mem b) (nat s)"
  have run: "0 \<le> ?p0 \<longrightarrow> Min ?P = ?p0 + 1" "\<not> (Max ?P - Min ?P + 1 > int (card ?P))"
    using assms(2) unfolding text_pos_ok_nonempty [OF assms(1,3)] Let_def
    by (auto simp: failure_simps bind_eq_Some_conv split: if_splits)
  then have "?P = {Min ?P..Max ?P}"
    using interval_iff_card [OF finite_batch_positions assms(3)] by linarith
  with run(1) show ?thesis by (simp add: positions_valid_def Let_def)
qed

lemma valid_text_pos_ok:
  assumes "batch_input ord n b" "al_seq_pos al s = batch_positions b (int s)"
    and "batch_positions b (int s) \<noteq> {} \<longrightarrow> positions_valid 1 b (int s)"
  shows "text_pos_ok (be_mem b) al s = Some True"
proof (cases "batch_positions b (int s) = {}")
  case True
  then show ?thesis using assms(2) by (simp add: text_pos_ok_def)
next
  case False
  let ?P = "batch_positions b (int s)" and ?p0 = "memory_seq_pos_max (be_mem b) s"
  have iv: "?P = {Min ?P..Max ?P}" and cont: "0 \<le> ?p0 \<longrightarrow> Min ?P = ?p0 + 1"
    using assms(3) False by (simp_all add: positions_valid_def Let_def)
  have fin: "finite ?P" by simp
  have le: "Min ?P \<le> Max ?P" using False by simp
  have len: "Max ?P - Min ?P + 1 = int (card ?P)"
    using arg_cong [OF iv, of card] le by simp
  moreover have "int (card ?P) \<le> INT32_MAX"
    using card_batch_positions [of b "int s"] assms(1) unfolding batch_input_def by linarith
  moreover have "Min ?P \<le> INT32_MAX" "INT32_MIN \<le> Min ?P"
    using batch_positions_range [OF assms(1) Min_in [OF fin False]] by auto
  ultimately show ?thesis
    using cont le unfolding text_pos_ok_nonempty [OF assms(2) False] Let_def
    by (cases "0 \<le> ?p0") (simp_all add: INT32_MIN_def del: Min_le_iff Max_ge_iff Min_ge_iff Max_le_iff)
qed

lemma find_upt_map:
  "(\<And>i. i < length ts \<Longrightarrow> p i = q (ts ! i)) \<Longrightarrow>
   map_option (\<lambda>i. ts ! i) (find p [0..<length ts]) = find q ts"
proof (induction ts rule: rev_induct)
  case Nil
  then show ?case by simp
next
  case (snoc t ts)
  have app: "find p (xs @ ys) = (case find p xs of None \<Rightarrow> find p ys | Some x \<Rightarrow> Some x)" for p :: "'b \<Rightarrow> bool" and xs ys
    by (induction xs) auto
  have p: "p i = q (ts ! i)" if "i < length ts" for i
    using snoc.prems [of i] that by (simp add: nth_append)
  have last: "p (length ts) = q t" using snoc.prems [of "length ts"] by simp
  show ?case
  proof (cases "find p [0..<length ts]")
    case None
    then have "find q ts = None" using snoc.IH [OF p] by simp
    then show ?thesis using None last app [of q ts] app [of p "[0..<length ts]"] by simp
  next
    case (Some i)
    then have "i < length ts" by (auto simp: find_Some_iff)
    moreover have "find q ts = Some (ts ! i)" using snoc.IH [OF p] Some by simp
    ultimately show ?thesis using Some app [of q ts] app [of p "[0..<length ts]"] by (simp add: nth_append)
  qed
qed

lemma seq_first_embd_eq:
  assumes "content_ok am (be_tokens b)" "al_is_embd_vec al = (if mixed_batch (be_tokens b) then map et_has_embd (be_tokens b) else [])"
    and "al_has_token al \<longleftrightarrow> \<not> embd_batch (be_tokens b)" "al_n_tokens al = length (be_tokens b)"
    and "\<forall>i < length (be_tokens b). set (al_seq_id al ! i) = et_seq_ids (be_tokens b ! i)"
    and "batch_positions b (int s) \<noteq> {}"
  shows "seq_first_embd al s = starts_with_embd b (int s)"
proof -
  let ?ts = "be_tokens b" and ?q = "\<lambda>t. int s \<in> et_seq_ids t"
  have "find ?q ?ts \<noteq> None" using assms(6) by (auto simp: find_None_iff batch_positions_def)
  then obtain t where t: "find ?q ?ts = Some t" by blast
  then have tin: "t \<in> set ?ts" by (auto simp: find_Some_iff)
  have "map_option (\<lambda>i. ?ts ! i) (find (\<lambda>i. int s \<in> set (al_seq_id al ! i)) [0..<length ?ts]) = find ?q ?ts"
    by (rule find_upt_map) (simp add: assms(5))
  then obtain i where i: "find (\<lambda>i. int s \<in> set (al_seq_id al ! i)) [0..<length ?ts] = Some i" "t = ?ts ! i"
    using t by auto
  then have il: "i < length ?ts" by (auto simp: find_Some_iff)
  have ne: "?ts \<noteq> []" using tin by auto
  show ?thesis
  proof (cases "mixed_batch ?ts")
    case True
    then have "et_has_embd t \<longleftrightarrow> et_id t = LLAMA_TOKEN_NULL"
      using tin by (auto simp: mixed_batch_def)
    then show ?thesis
      using True t i il ne by (simp add: seq_first_embd_def starts_with_embd_def assms(2,4))
  next
    case False
    then have "embd_batch ?ts \<longleftrightarrow> et_id t = LLAMA_TOKEN_NULL"
      using assms(1) tin by (auto simp: content_ok_def text_batch_def embd_batch_def both_batch_def)
    then show ?thesis
      using False t by (simp add: seq_first_embd_def starts_with_embd_def assms(2,3))
  qed
qed

lemma mrope_pos_ok_iff:
  assumes "al_seq_pos al s = batch_positions b (int s)" "1 < n"
    and "batch_positions b (int s) \<noteq> {} \<Longrightarrow> seq_first_embd al s = starts_with_embd b (int s)"
  shows "mrope_pos_ok (be_mem b) al s \<longleftrightarrow> (batch_positions b (int s) \<noteq> {} \<longrightarrow> positions_valid n b (int s))"
  using assms
  by (auto simp: mrope_pos_ok_def positions_valid_def Let_def alloc_seq_pos_min_def not_le not_less)

text \<open>The first steps of \<open>init\<close> on a valid batch.\<close>

lemma init_rows_valid:
  assumes "batch_input ord n b" "batch_valid ord n am b"
    and "al_is_embd_vec al = (if mixed_batch (be_tokens b) then map et_has_embd (be_tokens b) else [])"
    and "al_has_token al \<longleftrightarrow> \<not> embd_batch (be_tokens b)"
    and "al_n_embd al = (if be_n_embd b > 0 then be_n_embd b else be_n_embd_inp b)"
  shows "\<exists>al'. init_rows b al = Some (True, al')"
proof (rule init_rows_total)
  let ?ts = "be_tokens b"
  have content: "content_ok am ?ts" and ne: "?ts \<noteq> []"
    and vids: "\<forall>t \<in> set ?ts. et_id t \<noteq> LLAMA_TOKEN_NULL \<longrightarrow> 0 \<le> et_id t \<and> et_id t < be_n_vocab b"
    using assms(1,2) by (auto simp: batch_valid_def batch_input_def)
  have mix: "al_is_embd_vec al \<noteq> [] \<longleftrightarrow> mixed_batch ?ts" using ne by (simp add: assms(3))
  show "\<forall>t \<in> set ?ts. al_is_embd_vec al \<noteq> [] \<and> et_has_embd t \<or> \<not> al_has_token al
      \<or> 0 \<le> et_id t \<and> et_id t < be_n_vocab b"
    unfolding mix assms(4)
  proof (intro ballI)
    fix t assume t: "t \<in> set ?ts"
    show "mixed_batch ?ts \<and> et_has_embd t \<or> \<not> \<not> embd_batch ?ts \<or> 0 \<le> et_id t \<and> et_id t < be_n_vocab b"
    proof (cases "et_id t = LLAMA_TOKEN_NULL")
      case True
      then have "et_has_embd t" "\<not> text_batch ?ts" "\<not> both_batch ?ts"
        using t content_ok_nonempty [OF content t] by (auto simp: text_batch_def both_batch_def)
      with content show ?thesis by (auto simp: content_ok_def)
    qed (use vids t in blast)
  qed
  show "\<forall>t \<in> set ?ts. et_has_embd t \<longrightarrow> et_embd_off t + al_n_embd al \<le> length (be_embd b)"
    using assms(1) unfolding assms(5) batch_input_def by auto
  show "?ts \<noteq> []" by (rule ne)
qed

lemma flat_ids_valid:
  assumes "batch_input ord n b" "batch_valid ord n am b"
  shows "\<forall>ids \<in> set (flat_ids ord b). ids \<noteq> [] \<and> (\<forall>s \<in> set ids. 0 \<le> s \<and> s < be_n_seq_max b)"
proof
  fix ids assume "ids \<in> set (flat_ids ord b)"
  then obtain i where i: "i < length (be_tokens b)" "ids = flat_ids ord b ! i" by (auto simp: in_set_conv_nth)
  then have t: "be_tokens b ! i \<in> set (be_tokens b)" by simp
  have ids: "set ids = et_seq_ids (be_tokens b ! i)" using flat_ids_set [OF assms(1) i(1)] i(2) by simp
  then have "set ids \<noteq> {}" using assms(1) t by (auto simp: batch_input_def)
  moreover have "\<forall>s \<in> set ids. 0 \<le> s \<and> s < be_n_seq_max b"
    using assms(2) t ids by (auto simp: batch_valid_def)
  ultimately show "ids \<noteq> [] \<and> (\<forall>s \<in> set ids. 0 \<le> s \<and> s < be_n_seq_max b)" by auto
qed

lemma pos_ordered_valid:
  assumes "batch_input ord n b"
  shows "pos_ordered (flat_ids ord b) (flat_pos n b) \<longleftrightarrow> (\<forall>t \<in> set (be_tokens b). -1 \<le> et_pos t ! 0)
    \<and> (\<forall>i j s. i < j \<longrightarrow> j < length (be_tokens b) \<longrightarrow>
          s \<in> et_seq_ids (be_tokens b ! i) \<longrightarrow> s \<in> et_seq_ids (be_tokens b ! j) \<longrightarrow>
          et_pos (be_tokens b ! i) ! 0 \<le> et_pos (be_tokens b ! j) ! 0)"
    (is "_ \<longleftrightarrow> ?low \<and> ?ord")
proof -
  let ?ts = "be_tokens b"
  have n: "0 < n" using assms by (simp add: batch_input_def)
  have ne: "et_seq_ids t \<noteq> {}" if "t \<in> set ?ts" for t using assms that by (simp add: batch_input_def)
  have "pos_ordered (flat_ids ord b) (flat_pos n b) \<longleftrightarrow>
      (\<forall>j < length ?ts. \<forall>s \<in> et_seq_ids (?ts ! j). -1 \<le> et_pos (?ts ! j) ! 0
         \<and> (\<forall>i < j. s \<in> et_seq_ids (?ts ! i) \<longrightarrow> et_pos (?ts ! i) ! 0 \<le> et_pos (?ts ! j) ! 0))"
    unfolding pos_ordered_def by (simp add: flat_ids_set [OF assms] flat_pos_0 [OF n] cong: conj_cong)
  also have "\<dots> \<longleftrightarrow> (\<forall>j < length ?ts. -1 \<le> et_pos (?ts ! j) ! 0) \<and> ?ord"
    using ne [OF nth_mem] by fastforce
  finally show ?thesis by (simp add: all_set_conv_all_nth)
qed

lemma check_positions_valid:
  assumes "batch_input ord n b" "batch_valid ord n am b"
    and "al_n_pos_per_embd al = n" "int (al_n_seq_max al) = be_n_seq_max b"
    and "\<And>s. al_seq_pos al s = batch_positions b (int s)"
    and "\<And>s. batch_positions b (int s) \<noteq> {} \<Longrightarrow> seq_first_embd al s = starts_with_embd b (int s)"
  shows "check_positions (be_mem b) al = Some (True, al)"
  unfolding check_positions_def
proof (rule for_ret_pure_intro, intro ballI)
  fix s assume "s \<in> set [0..<al_n_seq_max al]"
  then have "int s < be_n_seq_max b" using assms(4) by simp
  then have v: "batch_positions b (int s) \<noteq> {} \<longrightarrow> positions_valid n b (int s)"
    using assms(2) by (simp add: batch_valid_def)
  show "(if al_n_pos_per_embd al > 1 then Some (mrope_pos_ok (be_mem b) al s, al)
     else do { ok \<leftarrow> text_pos_ok (be_mem b) al s; Some (ok, al) }) = Some (True, al)"
  proof (cases "n > 1")
    case True
    then show ?thesis using mrope_pos_ok_iff [OF assms(5) True assms(6)] v by (simp add: assms(3))
  next
    case False
    then have "n = 1" using assms(1) by (simp add: batch_input_def)
    then show ?thesis using valid_text_pos_ok [OF assms(1,5)] v by (simp add: assms(3))
  qed
qed

lemma check_coupled_valid:
  assumes "batch_valid ord n am b" "int (al_n_seq_max al) = be_n_seq_max b"
    and "al_seq_cpl al = coupled_in (flat_ids ord b) (length (be_tokens b))"
  shows "check_coupled (be_mem b) al = Some (True, al)"
proof (cases "be_mem b")
  case (Some m)
  have "\<forall>i \<in> set [0..<al_n_seq_max al]. \<forall>j \<in> set [0..<al_n_seq_max al].
      \<not> (al_seq_cpl al i j \<and> (mem_pos_min m i \<noteq> mem_pos_min m j \<or> mem_pos_max m i \<noteq> mem_pos_max m j))"
  proof (intro ballI)
    fix i j assume "i \<in> set [0..<al_n_seq_max al]" "j \<in> set [0..<al_n_seq_max al]"
    then have "int i < be_n_seq_max b" "int j < be_n_seq_max b"
      by (simp_all flip: assms(2))
    then show "\<not> (al_seq_cpl al i j \<and> (mem_pos_min m i \<noteq> mem_pos_min m j \<or> mem_pos_max m i \<noteq> mem_pos_max m j))"
      using assms(1) Some unfolding batch_valid_def assms(3) by blast
  qed
  then show ?thesis
    unfolding check_coupled_def Some option.case
    by (subst for_ret_guard2 [where xs = "\<lambda>_. [0..<al_n_seq_max al]"]) simp
qed (simp add: check_coupled_def)

lemma alloc_init_complete:
  assumes "batch_input ord (al_n_pos_per_embd al) b" "batch_valid ord (al_n_pos_per_embd al) (al_allow_mixed al) b"
  shows "\<exists>al'. alloc_init ord b oa al = Some (True, al')"
proof -
  let ?ts = "be_tokens b" and ?ids = "flat_ids ord b" and ?n = "al_n_pos_per_embd al"
  let ?ps = "flat_pos ?n b"
  define al0 where "al0 = (alloc_clear al)\<lparr>
            al_n_embd := (if be_n_embd b > 0 then be_n_embd b else be_n_embd_inp b),
            al_n_embd_state := be_n_embd_state b,
            al_n_seq_max := nat (be_n_seq_max b mod 4294967296)\<rparr>"
  have n: "0 < length ?ts" "int (length ?ts) \<le> INT32_MAX" "?ts \<noteq> []" "0 < ?n"
    using assms(1) by (auto simp: batch_input_def)
  have content: "content_ok (al_allow_mixed al0) ?ts"
    using assms(2) by (simp add: batch_valid_def al0_def alloc_clear_def)
  have max: "int (al_n_seq_max al0) = be_n_seq_max b"
    using assms(1) by (simp add: al0_def batch_input_def INT32_MAX_def)
  then have le: "al_n_seq_max al0 \<le> LLAMA_MAX_SEQ"
    using assms(2) by (simp add: batch_valid_def)
  obtain al1 where 1: "init_content b al0 = Some (True, al1)"
    using init_content_total [OF content n(3)] by blast
  have al1: "al1 = al0\<lparr>al_has_token := \<not> embd_batch ?ts, al_has_embd := \<not> text_batch ?ts,
        al_is_embd_vec := (if mixed_batch ?ts then map et_has_embd ?ts else [])\<rparr>"
    using init_content_True [OF 1 n(3)] by blast
  obtain al2 where 2: "init_rows b al1 = Some (True, al2)"
    using init_rows_valid [OF assms, of al1] by (auto simp: al1 al0_def)
  obtain tv ev sv where al2: "al2 = al1\<lparr>al_token_vec := tv, al_embd_vec := ev, al_state_vec := sv\<rparr>"
    using init_rows_True [OF 2] by blast
  define al3 where "al3 = al2\<lparr>al_pos := ?ps\<rparr>"
  have npos: "al_n_pos_per_embd al2 = ?n" by (simp add: al2 al1 al0_def alloc_clear_def)
  have 3: "init_pos b al2 = Some (True, al3)"
    using assms(1) unfolding init_pos_def npos by (simp add: al3_def flat_pos_def batch_input_def)
  define al4 where "al4 = al3\<lparr>al_seq_id := ?ids\<rparr>"
  have 4: "init_seq_ids ord b al3 = Some (True, al4)"
    unfolding init_seq_ids_def Let_def
    by (subst for_ret_guard2 [where xs = "\<lambda>ids. ids"])
       (use flat_ids_valid [OF assms] max in \<open>auto simp: al4_def al3_def al2 al1 flat_ids_def not_less not_le\<close>)
  let ?al4 = "init_decision_order b (init_output oa b al4)"
  have sel4: "al_seq_id ?al4 = ?ids" "al_pos ?al4 = ?ps" "al_seq_pos ?al4 = (\<lambda>_. {})"
    "al_seq_cpl ?al4 = (\<lambda>_ _. False)" "al_seq_set ?al4 = []" "al_seq_set_map ?al4 = (\<lambda>_. [])"
    "al_seq_id_unq ?al4 = []" "al_n_seq_max ?al4 = al_n_seq_max al0" "al_n_pos_per_embd ?al4 = ?n"
    "al_is_embd_vec ?al4 = al_is_embd_vec al1" "al_has_token ?al4 = al_has_token al1"
    by (simp_all add: init_decision_order_def init_output_def Let_def al4_def al3_def al2 al1
        al0_def alloc_clear_def)
  have "length ?ts \<le> ?n * length ?ts" using n(4) by simp
  then obtain al5 where 5: "init_stats b ?al4 = Some (True, al5)"
    using init_stats_total [of ?al4 b] flat_ids_valid [OF assms] by (auto simp: sel4)
  have lenids: "length (al_seq_id ?al4) = length ?ts" by (simp add: sel4)
  have sel5: "al_n_tokens al5 = length ?ts" "al_seq_id al5 = ?ids" "al_pos al5 = ?ps"
    "al_n_pos_per_embd al5 = ?n" "al_n_seq_max al5 = al_n_seq_max al0"
    "al_seq_pos al5 = positions_in ?ids ?ps (length ?ts)"
    "al_seq_cpl al5 = coupled_in ?ids (length ?ts)"
    "al_seq_set al5 = map (\<lambda>i. nat ` set (?ids ! i)) [0..<length ?ts]"
    "al_is_embd_vec al5 = (if mixed_batch ?ts then map et_has_embd ?ts else [])"
    "al_has_token al5 \<longleftrightarrow> \<not> embd_batch ?ts"
    using init_stats_True [OF 5 sel4(3-7) lenids]
    by (auto simp: sel4 al1)
  have nonneg: "\<forall>t \<in> set ?ts. \<forall>s \<in> et_seq_ids t. 0 \<le> s"
    using assms(2) by (auto simp: batch_valid_def)
  have max5: "int (al_n_seq_max al5) = be_n_seq_max b" using max by (simp add: sel5)
  have 6: "check_positions (be_mem b) al5 = Some (True, al5)"
  proof (rule check_positions_valid [OF assms sel5(4) max5])
    show "al_seq_pos al5 s = batch_positions b (int s)" for s
      using positions_in_flat [OF assms(1) nonneg] by (simp add: sel5)
    show "seq_first_embd al5 s = starts_with_embd b (int s)" if "batch_positions b (int s) \<noteq> {}" for s
      by (rule seq_first_embd_eq [OF content sel5(9,10,1) _ that]) (simp add: sel5 flat_ids_set [OF assms(1)])
  qed
  have 7: "check_coupled (be_mem b) al5 = Some (True, al5)"
    by (rule check_coupled_valid [OF assms(2) max5 sel5(7)])
  have "pos_ordered ?ids ?ps"
    unfolding pos_ordered_valid [OF assms(1)] using assms(2) unfolding batch_valid_def by blast
  moreover have "\<exists>st. subset_scan al5 = Some (pos_ordered (al_seq_id al5) (al_pos al5), st)"
  proof (rule subset_scan_eq)
    show "\<forall>ids \<in> set (al_seq_id al5). \<forall>s \<in> set ids. 0 \<le> s \<and> s < int LLAMA_MAX_SEQ"
      using flat_ids_valid [OF assms] max le unfolding sel5 by fastforce
  qed (use n(4) in \<open>simp_all add: sel5\<close>)
  ultimately have 8: "check_subsets al5 = Some (True, al5)"
    by (auto simp: check_subsets_def sel5)
  show ?thesis
    using alloc_init_run [OF n(1,2) le al0_def 1 2 3 4 5 6 7 8] by blast
qed

lemma alloc_init_new:
  assumes "batch_input ord n b" "batch_valid ord n am b"
  shows "\<exists>al'. alloc_init ord b oa (allocr_new n am) = Some (True, al')"
  by (rule alloc_init_complete) (use assms in \<open>simp_all only: allocr_new_sel\<close>)

lemma alloc_init_content:
  assumes "alloc_init ord b oa al = Some (True, al')"
  shows "content_ok (al_allow_mixed al) (be_tokens b)"
  using alloc_init_rows(4,9) [OF assms] by (simp add: content_ok_def)

lemma alloc_init_sound:
  assumes "batch_input ord (al_n_pos_per_embd al) b" "alloc_init ord b oa al = Some (True, al')"
  shows "batch_valid ord (al_n_pos_per_embd al) (al_allow_mixed al) b"
proof -
  let ?ts = "be_tokens b" and ?ids = "flat_ids ord b" and ?n = "al_n_pos_per_embd al"
  note shape = alloc_init_shape [OF assms(2)] and rows = alloc_init_rows [OF assms(2)]
    and checked = alloc_init_checked [OF assms(2)]
  have max: "int (al_n_seq_max al') = be_n_seq_max b"
    using assms(1) shape(5) by (simp add: batch_input_def INT32_MAX_def)
  have ids_set: "i < length ?ts \<Longrightarrow> set (?ids ! i) = et_seq_ids (?ts ! i)" for i
    using flat_ids_set [OF assms(1)] .
  have rng: "0 \<le> s \<and> s < be_n_seq_max b" if "t \<in> set ?ts" "s \<in> et_seq_ids t" for t s
    using alloc_init_ids(2) [OF assms(2)] that ids_set max by (metis in_set_conv_nth)
  have tok: "\<forall>t \<in> set ?ts. et_id t \<noteq> LLAMA_TOKEN_NULL \<longrightarrow> 0 \<le> et_id t \<and> et_id t < be_n_vocab b"
    using rows(6) unfolding embd_batch_def mixed_batch_def by blast
  have sp: "al_seq_pos al' s = batch_positions b (int s)" for s
    using positions_in_flat [OF assms(1)] rng alloc_init_pos(2) [OF assms(2)] by simp
  have sfe: "seq_first_embd al' s = starts_with_embd b (int s)" if "batch_positions b (int s) \<noteq> {}" for s
    by (rule seq_first_embd_eq [OF alloc_init_content [OF assms(2)] rows(3,1) shape(2) _ that])
       (simp add: alloc_init_ids(1) [OF assms(2)] ids_set)
  have valid: "positions_valid ?n b s"
    if s: "0 \<le> s" "s < be_n_seq_max b" "batch_positions b s \<noteq> {}" for s
  proof (cases "?n > 1")
    case True
    then have "mrope_pos_ok (be_mem b) al' (nat s)"
      using checked(1) shape(3) s(1,2) max by (auto simp: nat_less_iff)
    then show ?thesis
      using mrope_pos_ok_iff [OF sp True sfe] s by simp
  next
    case False
    then have "?n = 1" using assms(1) by (simp add: batch_input_def)
    moreover have "text_pos_ok (be_mem b) al' (nat s) = Some True"
      using False checked(1) shape(3) s(1,2) max by (auto simp: nat_less_iff)
    ultimately show ?thesis
      using text_pos_ok_valid [of al' s b] s sp by simp
  qed
  have order: "pos_ordered ?ids (flat_pos ?n b)" by (rule checked(3))
  show ?thesis
  proof (rule batch_validI [OF _ alloc_init_content [OF assms(2)]])
    show "be_n_seq_max b \<le> int LLAMA_MAX_SEQ" using shape(4) max by simp
    show "mem_pos_min m s0 = mem_pos_min m s1 \<and> mem_pos_max m s0 = mem_pos_max m s1"
      if "be_mem b = Some m" "int s0 < be_n_seq_max b" "int s1 < be_n_seq_max b"
        "coupled_in ?ids (length ?ts) s0 s1" for m s0 s1
      using checked(2) alloc_init_pos(3) [OF assms(2)] that max by simp
  qed (use order [unfolded pos_ordered_valid [OF assms(1)]] tok rng valid in blast)+
qed

subsection \<open>Properties\<close>

text \<open>
  C3: Every input batch a client can build is well formed. From an empty batch, any sequence
  of calls of the batch API leaves a batch whose entries all have at least one sequence id
  below \<open>n_seq_max\<close>, ids inside the vocabulary, four position slots, embedding and state rows
  that lie inside the flat vectors, and whose flat vectors hold exactly one row per entry
  that has one.
\<close>
theorem batch_ext_invariant:
  assumes "0 < be_n_embd_inp b0" "0 < be_n_embd_inp_enc b0"
    and "for_opt batch_exec ops (batch_clear b0) = Some b"
  shows "batch_ext_ok b"
proof (rule for_opt_inv [OF assms(3)])
  show "batch_ext_ok (batch_clear b0)"
    using assms(1,2) by (simp add: batch_ext_ok_def batch_clear_def)
qed (rule batch_exec_ok)

theorem batch_ext_invariant_witness:
  "batch_ext_ok (snd (batch_set_output 0 True (snd (batch_set_token_id 0 7
     (snd (batch_add_token 1 (batch_clear (batch_ext_new 8 4 4 2 None 100 1))))))))"
  by (rule batch_ext_invariant [of "batch_ext_new 8 4 4 2 None 100 1"
        "[BAddToken 1, BSetId 0 7, BSetOutput 0 True]"])
     (simp_all add: batch_ext_new_def)

text \<open>
  C2: \<open>init\<close> accepts exactly the valid batches. For a non-empty batch as the API builds it (every entry
  with a non-empty finite id set, its position slots and its embedding row, machine integers in
  range), for models with one position per entry and for M-RoPE models, \<open>init\<close> succeeds if and
  only if: there are at most \<open>LLAMA_MAX_SEQ\<close> sequences; all entries are tokens, all are
  embeddings, all are both, or (where the allocator allows it) they mix the first two, and all
  or none have a state; every token id is in the vocabulary and every sequence id below
  \<open>n_seq_max\<close>; no position is below \<open>-1\<close>; the positions of each sequence are a gap-free interval
  that starts right after the last position the memory holds for it (M-RoPE: start after that
  position, or at it when the sequence starts with an embedding); sequences coupled by an entry
  agree on their stored range; and the positions of a sequence never decrease along the batch.
  Partial overlaps between the sequence sets of entries, which a comment of \<open>init\<close> calls
  invalid, are not among the reasons for a rejection.
\<close>
theorem batch_init_accepts_iff_valid:
  assumes "batch_input ord (al_n_pos_per_embd al) b"
  shows "(\<exists>al'. alloc_init ord b output_all al = Some (True, al'))
    \<longleftrightarrow> batch_valid ord (al_n_pos_per_embd al) (al_allow_mixed al) b"
  using alloc_init_complete [OF assms] alloc_init_sound [OF assms] by blast

definition batch_example :: llama_batch_ext where
  "batch_example = (batch_ext_new 8 4 4 3 None 100 1)\<lparr>be_tokens := [
     ext_token_new\<lparr>et_id := 5, et_seq_ids := {0, 1, 2}, et_pos := [0, 0, 0, 0]\<rparr>,
     ext_token_new\<lparr>et_id := 6, et_seq_ids := {0, 1}, et_pos := [1, 0, 0, 0]\<rparr>,
     ext_token_new\<lparr>et_id := 7, et_seq_ids := {1, 2}, et_pos := [1, 0, 0, 0]\<rparr>]\<rparr>"

lemma batch_example_input: "batch_input sorted_list_of_set 1 batch_example"
  by (simp add: batch_input_def batch_example_def batch_ext_new_def ext_token_new_def
      memory_seq_pos_max_def INT32_MAX_def INT32_MIN_def LLAMA_TOKEN_NULL_def)

lemma batch_example_valid: "batch_valid sorted_list_of_set 1 False batch_example"
proof -
  have pos: "batch_positions batch_example s = {0, 1}" if "0 \<le> s" "s < 3" for s
  proof -
    have "s = 0 \<or> s = 1 \<or> s = 2" using that by arith
    then show ?thesis
      by (auto simp: batch_positions_code batch_example_def batch_ext_new_def ext_token_new_def)
  qed
  have iv: "{0, 1} = {0..1 :: int}" "Min {0..1 :: int} = 0" "Max {0..1 :: int} = 1"
    by (auto intro: Min_eqI Max_eqI)
  have max: "be_n_seq_max batch_example = 3" "be_mem batch_example = None"
    by (simp_all add: batch_example_def batch_ext_new_def)
  show ?thesis
  proof (rule batch_validI)
    show "positions_valid 1 batch_example s" if "0 \<le> s" "s < be_n_seq_max batch_example" for s
      using pos [of s] that iv by (simp add: max positions_valid_def memory_seq_pos_max_def)
    show "et_pos (be_tokens batch_example ! i) ! 0 \<le> et_pos (be_tokens batch_example ! j) ! 0"
      if "i < j" "j < length (be_tokens batch_example)" for i j
      using that by (auto simp: batch_example_def ext_token_new_def batch_ext_new_def less_Suc_eq
          numeral_3_eq_3)
  qed (auto simp: batch_example_def batch_ext_new_def ext_token_new_def LLAMA_MAX_SEQ_def content_ok_def
      text_batch_def LLAMA_TOKEN_NULL_def)
qed

theorem batch_init_accepts_iff_valid_witness:
  "(\<exists>al'. alloc_init sorted_list_of_set batch_example False (allocr_new 1 False) = Some (True, al'))
   \<and> \<not> (\<exists>al'. alloc_init sorted_list_of_set (batch_example\<lparr>be_tokens := be_tokens batch_example @
       [ext_token_new\<lparr>et_has_embd := True, et_seq_ids := {0}, et_pos := [2, 0, 0, 0]\<rparr>],
       be_n_embd := 1, be_embd := [7]\<rparr>) False (allocr_new 1 False) = Some (True, al'))"
proof
  show "\<exists>al'. alloc_init sorted_list_of_set batch_example False (allocr_new 1 False) = Some (True, al')"
    using batch_init_accepts_iff_valid [of sorted_list_of_set "allocr_new 1 False" batch_example False]
      batch_example_valid batch_example_input by simp
  let ?b = "batch_example\<lparr>be_tokens := be_tokens batch_example @
       [ext_token_new\<lparr>et_has_embd := True, et_seq_ids := {0}, et_pos := [2, 0, 0, 0]\<rparr>],
       be_n_embd := 1, be_embd := [7]\<rparr>"
  have "batch_input sorted_list_of_set 1 ?b"
    by (simp add: batch_input_def batch_example_def batch_ext_new_def ext_token_new_def
      memory_seq_pos_max_def INT32_MAX_def INT32_MIN_def LLAMA_TOKEN_NULL_def)
  moreover have "\<not> batch_valid sorted_list_of_set 1 False ?b"
    by (simp add: batch_valid_def content_ok_def text_batch_def embd_batch_def both_batch_def
        batch_example_def ext_token_new_def batch_ext_new_def LLAMA_TOKEN_NULL_def)
  ultimately show "\<not> (\<exists>al'. alloc_init sorted_list_of_set ?b False (allocr_new 1 False) = Some (True, al'))"
    using batch_init_accepts_iff_valid [of sorted_list_of_set "allocr_new 1 False" ?b False] by simp
qed

text \<open>
  C32: The flat embedding rows. In a mixed batch, row \<open>i\<close> of the flat array \<open>init\<close> builds is
  the embedding that was set for entry \<open>i\<close>, and zero for a token entry. In a batch where
  every entry has an embedding this holds as long as the embeddings were set in the order of
  the entries.
\<close>
theorem batch_init_embd_rows:
  assumes "alloc_init ord b output_all al = Some (True, al')" "i < length (be_tokens b)"
    and "mixed_batch (be_tokens b) \<or> \<not> text_batch (be_tokens b) \<and> et_has_embd (be_tokens b ! i)
           \<and> et_embd_off (be_tokens b ! i) = i * al_n_embd al'"
  shows "take (al_n_embd al') (drop (i * al_n_embd al') (al_embd_vec al'))
    = embd_row b (al_n_embd al') (be_tokens b ! i)"
proof (cases "mixed_batch (be_tokens b)")
  case True
  then have m: "mixed_embd b (al_n_embd al') = Some (al_embd_vec al')"
    using alloc_init_rows(7) [OF assms(1)] by simp
  let ?rows = "map (embd_row b (al_n_embd al')) (be_tokens b)"
  have ev: "al_embd_vec al' = concat ?rows"
    and off: "\<forall>t \<in> set (be_tokens b). et_has_embd t \<longrightarrow> et_embd_off t + al_n_embd al' \<le> length (be_embd b)"
    using m by (auto simp: mixed_embd_eq split: if_splits)
  have "\<forall>r \<in> set ?rows. length r = al_n_embd al'"
    using off by (auto simp: embd_row_def)
  then show ?thesis
    using take_drop_concat_rows [of ?rows "al_n_embd al'" i] assms(2) by (simp add: ev)
next
  case False
  then show ?thesis
    using alloc_init_rows(7) [OF assms(1)] assms(3) by (simp add: embd_row_def)
qed

text \<open>Two entries whose embeddings are set in the opposite order of the entries.\<close>

definition embd1 :: "f32 \<Rightarrow> llama_embd" where
  "embd1 x = \<lparr>em_data = Some [x], em_n_rows = 1, em_n_embd = 1\<rparr>"

definition embd_ops :: "bool \<Rightarrow> batch_op list" where
  "embd_ops swapped = [BAddToken 0, BAddToken 0]
     @ (if swapped then [BSetEmbd 1 (embd1 20), BSetEmbd 0 (embd1 10)]
        else [BSetEmbd 0 (embd1 10), BSetEmbd 1 (embd1 20)])
     @ [BSetPos 0 (Some [0]), BSetPos 1 (Some [1])]"

definition embd_batch_of :: "bool \<Rightarrow> llama_batch_ext" where
  "embd_batch_of swapped = (batch_ext_new 8 1 1 1 None 100 1)\<lparr>be_n_embd := 1,
     be_embd := (if swapped then [20, 10] else [10, 20]), be_tokens :=
      [ext_token_new\<lparr>et_has_embd := True, et_embd_off := of_bool swapped, et_seq_ids := {0}\<rparr>,
       ext_token_new\<lparr>et_has_embd := True, et_embd_off := of_bool (\<not> swapped), et_seq_ids := {0},
                      et_pos := [1, 0, 0, 0]\<rparr>]\<rparr>"

lemma embd_ops_result:
  "for_opt batch_exec (embd_ops swapped) (batch_ext_new 8 1 1 1 None 100 1) = Some (embd_batch_of swapped)"
  by (cases swapped)
     (simp_all add: embd_ops_def embd_batch_of_def embd1_def batch_ext_new_def batch_add_token_def
      batch_set_token_embd_def batch_set_token_pos_def set_pos_sections_def upd_token_def batch_idx_ok_def
      ext_token_new_def)

lemma embd_batch_of_input: "batch_input sorted_list_of_set 1 (embd_batch_of swapped)"
  by (cases swapped)
     (simp_all add: batch_input_def embd_batch_of_def batch_ext_new_def ext_token_new_def
      memory_seq_pos_max_def INT32_MAX_def INT32_MIN_def)

lemma embd_batch_of_valid: "batch_valid sorted_list_of_set 1 False (embd_batch_of swapped)"
proof -
  have pos: "batch_positions (embd_batch_of swapped) s = {0, 1}" if "0 \<le> s" "s < 1" for s
  proof -
    have "s = 0" using that by arith
    then show ?thesis
      by (simp add: batch_positions_code embd_batch_of_def batch_ext_new_def ext_token_new_def)
  qed
  have iv: "{0, 1} = {0..1 :: int}" "Min {0..1 :: int} = 0" "Max {0..1 :: int} = 1"
    by (auto intro: Min_eqI Max_eqI)
  have max: "be_n_seq_max (embd_batch_of swapped) = 1" "be_mem (embd_batch_of swapped) = None"
    by (simp_all add: embd_batch_of_def batch_ext_new_def)
  show ?thesis
  proof (rule batch_validI)
    show "positions_valid 1 (embd_batch_of swapped) s" if "0 \<le> s" "s < be_n_seq_max (embd_batch_of swapped)" for s
      using pos [of s] that iv by (simp add: max positions_valid_def memory_seq_pos_max_def)
    show "et_pos (be_tokens (embd_batch_of swapped) ! i) ! 0 \<le> et_pos (be_tokens (embd_batch_of swapped) ! j) ! 0"
      if "i < j" "j < length (be_tokens (embd_batch_of swapped))" for i j
      using that by (auto simp: embd_batch_of_def ext_token_new_def batch_ext_new_def less_Suc_eq)
  qed (auto simp: embd_batch_of_def batch_ext_new_def ext_token_new_def LLAMA_MAX_SEQ_def content_ok_def
      embd_batch_def)
qed

lemma embd_batch_of_accepted:
  "\<exists>al'. alloc_init sorted_list_of_set (embd_batch_of swapped) False (allocr_new 1 False) = Some (True, al')"
  by (rule alloc_init_new [OF embd_batch_of_input embd_batch_of_valid])

theorem batch_init_embd_rows_witness:
  "\<exists>al'. alloc_init sorted_list_of_set (embd_batch_of False) False (allocr_new 1 False) = Some (True, al')
    \<and> take 1 (drop 1 (al_embd_vec al')) = [20]"
proof -
  obtain al' where al': "alloc_init sorted_list_of_set (embd_batch_of False) False (allocr_new 1 False) = Some (True, al')"
    using embd_batch_of_accepted by blast
  have n: "al_n_embd al' = 1"
    using alloc_init_shape(6) [OF al'] by (simp add: embd_batch_of_def batch_ext_new_def)
  have "take (al_n_embd al') (drop (1 * al_n_embd al') (al_embd_vec al'))
      = embd_row (embd_batch_of False) (al_n_embd al') (be_tokens (embd_batch_of False) ! 1)"
    by (rule batch_init_embd_rows [OF al'])
       (simp_all add: n embd_batch_of_def batch_ext_new_def ext_token_new_def text_batch_def)
  then show ?thesis
    using al' by (simp add: n embd_row_def embd_batch_of_def batch_ext_new_def ext_token_new_def)
qed

text \<open>
  C33: Embeddings set out of order are fed to the wrong entries. Two embedding entries are
  added, then \<open>set_token_embd\<close> is called for entry 1 with the row \<open>20\<close> and for entry 0
  with the row \<open>10\<close>. All calls and \<open>init\<close> succeed, but the flat row of entry 0 is
  \<open>20\<close>: outside of mixed batches \<open>init\<close> copies the rows in the order they were set and
  ignores the recorded offset \<open>embd_off\<close>.
\<close>
theorem embd_rows_swapped:
  "for_opt batch_exec (embd_ops True) (batch_ext_new 8 1 1 1 None 100 1) = Some (embd_batch_of True)
   \<and> embd_row (embd_batch_of True) 1 (be_tokens (embd_batch_of True) ! 0) = [10]
   \<and> (\<exists>al'. alloc_init sorted_list_of_set (embd_batch_of True) False (allocr_new 1 False) = Some (True, al')
        \<and> take 1 (drop 0 (al_embd_vec al')) = [20])"
proof -
  obtain al' where al': "alloc_init sorted_list_of_set (embd_batch_of True) False (allocr_new 1 False) = Some (True, al')"
    using embd_batch_of_accepted by blast
  have "al_embd_vec al' = be_embd (embd_batch_of True)"
    using alloc_init_rows(7) [OF al']
    by (simp add: mixed_batch_def text_batch_def embd_batch_of_def batch_ext_new_def ext_token_new_def)
  then show ?thesis
    using al' embd_ops_result [of True]
    by (simp add: embd_row_def embd_batch_of_def batch_ext_new_def ext_token_new_def)
qed

text \<open>
  Partial overlaps between sequence sets are not rejected. Sequence 1 appears with the sets
  \<open>{0, 1, 2}\<close>, \<open>{0, 1}\<close> and \<open>{1, 2}\<close>, the example a comment of \<open>init\<close> calls invalid;
  \<open>init\<close> accepts the batch, since the intersection it tests always contains the sequence itself.
\<close>
theorem partial_sequence_sets_accepted:
  "map et_seq_ids (be_tokens batch_example) = [{0, 1, 2}, {0, 1}, {1, 2}]
   \<and> (\<exists>al'. alloc_init sorted_list_of_set batch_example False (allocr_new 1 False) = Some (True, al'))"
proof -
  have "\<exists>al'. alloc_init sorted_list_of_set batch_example False (allocr_new 1 False) = Some (True, al')"
    by (rule alloc_init_new [OF batch_example_input batch_example_valid])
  then show ?thesis
    by (simp add: batch_example_def ext_token_new_def)
qed

subsection \<open>\<open>llama_batch_get_one\<close>\<close>

text \<open>The batch the conversion builds for \<open>n\<close> bare tokens when sequence 0 ends at \<open>p0\<close>.\<close>

definition get_one_token :: "llama_token list \<Rightarrow> llama_pos \<Rightarrow> nat \<Rightarrow> nat \<Rightarrow> ext_token" where
  "get_one_token toks p0 n i = ext_token_new\<lparr>et_seq_ids := {0}, et_pos := [p0 + 1 + int i, 0, 0, 0],
     et_id := toks ! i, et_output := (Suc i = n)\<rparr>"

lemma pos_next_loop:
  assumes "\<forall>s < n. INT32_MIN \<le> memory_seq_pos_max mem s \<and> memory_seq_pos_max mem s < INT32_MAX"
  shows "for_opt (\<lambda>s ps. do {
        p \<leftarrow> i32 (memory_seq_pos_max mem s + 1);
        Some (ps @ [p]) }) [0..<n] [] = Some (map (\<lambda>s. memory_seq_pos_max mem s + 1) [0..<n])"
  using assms
proof (induction n)
  case 0
  then show ?case by simp
next
  case (Suc n)
  then have "INT32_MIN \<le> memory_seq_pos_max mem n + 1" "memory_seq_pos_max mem n + 1 \<le> INT32_MAX"
    by (auto simp: less_Suc_eq)
  with Suc show ?case by (simp add: for_opt_append)
qed

lemma compat_get_one_loop:
  assumes "be_tokens b = []" "m \<le> length toks" "n \<le> length toks"
    and "-1 \<le> p0" "p0 + 1 + int n \<le> INT32_MAX"
    and "ps \<noteq> []" "ps ! 0 = p0 + 1" "m \<le> n"
  shows "for_opt (compat_body (llama_batch_get_one toks n) r) [0..<m] (b, ps)
    = Some (b\<lparr>be_tokens := map (get_one_token toks p0 n) [0..<m]\<rparr>, ps[0 := p0 + 1 + int m])"
  using assms
proof (induction m)
  case 0
  then have "ps[0 := p0 + 1] = ps" by (metis list_update_id)
  with 0 show ?case by simp
next
  case (Suc m)
  have ok: "INT32_MIN \<le> p0 + 1 + int m + 1" "p0 + 1 + int m + 1 \<le> INT32_MAX"
    using Suc.prems by (simp_all add: INT32_MIN_def)
  have "compat_body (llama_batch_get_one toks n) r m
      (b\<lparr>be_tokens := map (get_one_token toks p0 n) [0..<m]\<rparr>, ps[0 := p0 + 1 + int m])
    = Some (b\<lparr>be_tokens := map (get_one_token toks p0 n) [0..<Suc m]\<rparr>, ps[0 := p0 + 1 + int (Suc m)])"
    using Suc.prems ok
    by (simp add: compat_body_def llama_batch_get_one_def compat_pos_def compat_embd_def get_one_token_def
        inth_opt_def algebra_simps)
  then show ?case using Suc by (simp add: for_opt_append)
qed

lemma get_one_batch:
  assumes "be_tokens b = []" "length toks = n" "-1 \<le> p0" "p0 + 1 + int n \<le> INT32_MAX"
    and "p0 = memory_seq_pos_max (be_mem b) 0" "1 \<le> be_n_seq_max b"
    and "\<forall>s. INT32_MIN \<le> memory_seq_pos_max (be_mem b) s \<and> memory_seq_pos_max (be_mem b) s < INT32_MAX"
  shows "batch_compat_init b (llama_batch_get_one toks n) r
    = Some (b\<lparr>be_tokens := map (get_one_token toks p0 n) [0..<n]\<rparr>)"
proof -
  let ?ps = "map (\<lambda>s. memory_seq_pos_max (be_mem b) s + 1) [0..<nat (be_n_seq_max b)]"
  have len: "0 < nat (be_n_seq_max b)" using assms(6) by simp
  have "for_opt (compat_body (llama_batch_get_one toks n) k) [0..<n] (b, ?ps)
    = Some (b\<lparr>be_tokens := map (get_one_token toks p0 n) [0..<n]\<rparr>, ?ps[0 := p0 + 1 + int n])" for k
    by (rule compat_get_one_loop) (use assms len in auto)
  moreover have "bi_n_tokens (llama_batch_get_one toks n) = n" by (simp add: llama_batch_get_one_def)
  moreover have "\<forall>s < nat (be_n_seq_max b). INT32_MIN \<le> memory_seq_pos_max (be_mem b) s
      \<and> memory_seq_pos_max (be_mem b) s < INT32_MAX"
    using assms(7) by blast
  ultimately show ?thesis
    using pos_next_loop [of "nat (be_n_seq_max b)" "be_mem b"] by (simp add: batch_compat_init_def)
qed

text \<open>
  \<open>llama_batch_get_one\<close> continues sequence 0. Converting a bare list of valid tokens gives
  every token sequence 0 and the positions that follow the last one in the memory, marks only
  the last token as output, and yields a batch that \<open>init\<close> accepts.
\<close>
theorem get_one_continues_sequence:
  assumes "\<forall>A. finite A \<longrightarrow> set (ord A) = A" "be_tokens b = []" "toks \<noteq> []"
    and "\<forall>t \<in> set toks. 0 \<le> t \<and> t < be_n_vocab b"
    and "1 \<le> be_n_seq_max b" "be_n_seq_max b \<le> int LLAMA_MAX_SEQ" "al_n_pos_per_embd al = 1"
    and "p0 = memory_seq_pos_max (be_mem b) 0" "-1 \<le> p0" "p0 + 1 + int (length toks) \<le> INT32_MAX"
    and "\<forall>s. INT32_MIN \<le> memory_seq_pos_max (be_mem b) s \<and> memory_seq_pos_max (be_mem b) s < INT32_MAX"
  shows "\<exists>b'. batch_compat_init b (llama_batch_get_one toks (length toks)) 0 = Some b'
    \<and> be_tokens b' = map (get_one_token toks p0 (length toks)) [0..<length toks]
    \<and> (\<exists>al'. alloc_init ord b' output_all al = Some (True, al'))"
proof -
  let ?n = "length toks"
  let ?b = "b\<lparr>be_tokens := map (get_one_token toks p0 ?n) [0..<?n]\<rparr>"
  have tok: "et_id (get_one_token toks p0 ?n i) = toks ! i" "et_seq_ids (get_one_token toks p0 ?n i) = {0}"
    "et_has_embd (get_one_token toks p0 ?n i) = False" "et_has_state (get_one_token toks p0 ?n i) = False"
    "et_pos (get_one_token toks p0 ?n i) = [p0 + 1 + int i, 0, 0, 0]" for i
    by (simp_all add: get_one_token_def ext_token_new_def)
  have valid: "0 \<le> toks ! i \<and> toks ! i < be_n_vocab b" if "i < ?n" for i
    using assms(4) that by simp
  have txtb: "text_batch (be_tokens ?b)"
    using valid by (fastforce simp: text_batch_def tok LLAMA_TOKEN_NULL_def)
  have input: "batch_input ord (al_n_pos_per_embd al) ?b"
    unfolding batch_input_def
  proof (intro conjI)
    show "\<forall>A. finite A \<longrightarrow> set (ord A) = A" by (rule assms(1))
    show "\<forall>s. INT32_MIN \<le> memory_seq_pos_max (be_mem ?b) s \<and> memory_seq_pos_max (be_mem ?b) s \<le> INT32_MAX"
      using assms(11) by (simp add: less_imp_le)
    show "\<forall>t \<in> set (be_tokens ?b). finite (et_seq_ids t) \<and> et_seq_ids t \<noteq> {}
          \<and> al_n_pos_per_embd al \<le> length (et_pos t) \<and> INT32_MIN \<le> et_pos t ! 0 \<and> et_pos t ! 0 \<le> INT32_MAX
          \<and> (et_has_embd t \<longrightarrow> 0 < be_n_embd ?b \<and> et_embd_off t + be_n_embd ?b \<le> length (be_embd ?b))"
      using assms(9,10) by (auto simp: tok assms(7) INT32_MIN_def)
  qed (use assms(3,5,6,7,9,10) in \<open>auto simp: LLAMA_MAX_SEQ_def INT32_MAX_def\<close>)
  have pos: "batch_positions ?b s = (if s = 0 then {p0 + 1..p0 + int ?n} else {})" for s
  proof -
    have "(\<lambda>i. p0 + 1 + int i) ` {0..<?n} = {p0 + 1..p0 + int ?n}"
    proof
      show "{p0 + 1..p0 + int ?n} \<subseteq> (\<lambda>i. p0 + 1 + int i) ` {0..<?n}"
      proof
        fix x assume "x \<in> {p0 + 1..p0 + int ?n}"
        then have "x = p0 + 1 + int (nat (x - p0 - 1))" "nat (x - p0 - 1) < ?n" by auto
        then show "x \<in> (\<lambda>i. p0 + 1 + int i) ` {0..<?n}" by (intro image_eqI) auto
      qed
    qed auto
    moreover have "batch_positions ?b s = (if s = 0 then (\<lambda>i. p0 + 1 + int i) ` {0..<?n} else {})"
    proof -
      have "{x. x < ?n} = {0..<?n}" by auto
      then show ?thesis by (simp add: batch_positions_code tok filter_map comp_def)
    qed
    ultimately show ?thesis by simp
  qed
  have mm: "Min {p0 + 1..p0 + int ?n} = p0 + 1" "Max {p0 + 1..p0 + int ?n} = p0 + int ?n"
    using assms(3) by (auto intro!: Min_eqI Max_eqI simp: Suc_le_eq)
  have cpl: "s0 = 0 \<and> s1 = 0" if "coupled_in (flat_ids ord ?b) ?n s0 s1" for s0 s1
  proof -
    obtain i j where ij: "i < ?n" "j < length (flat_ids ord ?b ! i)" "s0 = nat (flat_ids ord ?b ! i ! j)"
      "s1 = nat (flat_ids ord ?b ! i ! 0)"
      using \<open>coupled_in (flat_ids ord ?b) ?n s0 s1\<close> by (auto simp: coupled_in_def)
    have "set (flat_ids ord ?b ! i) = {0}"
      using flat_ids_set [OF input] ij(1) by (simp add: tok)
    moreover have "flat_ids ord ?b ! i ! j \<in> set (flat_ids ord ?b ! i)"
      "flat_ids ord ?b ! i ! 0 \<in> set (flat_ids ord ?b ! i)"
      using ij(2) by (auto intro: nth_mem)
    ultimately show ?thesis using ij(3,4) by simp
  qed
  have "batch_valid ord (al_n_pos_per_embd al) (al_allow_mixed al) ?b"
  proof (rule batch_validI)
    show "mem_pos_min m s0 = mem_pos_min m s1 \<and> mem_pos_max m s0 = mem_pos_max m s1"
      if "coupled_in (flat_ids ord ?b) (length (be_tokens ?b)) s0 s1" for m s0 s1
      using cpl [of s0 s1] that by simp
    show "content_ok (al_allow_mixed al) (be_tokens ?b)"
      using txtb assms(3) by (auto simp: content_ok_def tok)
    show "positions_valid (al_n_pos_per_embd al) ?b s" if "batch_positions ?b s \<noteq> {}" for s
      using that unfolding positions_valid_def pos assms(7) by (auto simp: Let_def mm assms(8) [symmetric] split: if_splits)
  qed (use valid assms(5,6,9) in \<open>auto simp: tok\<close>)
  then obtain al' where "alloc_init ord ?b output_all al = Some (True, al')"
    using alloc_init_complete [OF input] by blast
  moreover have "batch_compat_init b (llama_batch_get_one toks ?n) 0 = Some ?b"
    by (rule get_one_batch) (use assms in auto)
  ultimately show ?thesis by simp
qed

theorem get_one_continues_sequence_witness:
  "\<exists>b'. batch_compat_init (batch_ext_new 8 4 4 1 (Some \<lparr>mem_pos_min = \<lambda>_. 0, mem_pos_max = \<lambda>_. 6\<rparr>) 100 1)
      (llama_batch_get_one [3, 9] 2) 0 = Some b'
    \<and> map et_pos (be_tokens b') = [[7, 0, 0, 0], [8, 0, 0, 0]]
    \<and> (\<exists>al'. alloc_init sorted_list_of_set b' False (allocr_new 1 False) = Some (True, al'))"
proof -
  let ?b = "batch_ext_new 8 4 4 1 (Some \<lparr>mem_pos_min = \<lambda>_. 0, mem_pos_max = \<lambda>_. 6\<rparr>) 100 1"
  have "\<exists>b'. batch_compat_init ?b (llama_batch_get_one [3, 9] (length [3, 9 :: int])) 0 = Some b'
    \<and> be_tokens b' = map (get_one_token [3, 9] 6 (length [3, 9 :: int])) [0..<length [3, 9 :: int]]
    \<and> (\<exists>al'. alloc_init sorted_list_of_set b' False (allocr_new 1 False) = Some (True, al'))"
    by (rule get_one_continues_sequence)
       (simp_all add: batch_ext_new_def memory_seq_pos_max_def INT32_MAX_def INT32_MIN_def LLAMA_MAX_SEQ_def)
  then show ?thesis
    by (auto simp: get_one_token_def ext_token_new_def numeral_2_eq_2)
qed

end
