(* ===== verification/BatchSplit.thy ===== *)
theory BatchSplit
  imports Batch
begin

section \<open>Splitting a batch into ubatches\<close>

text \<open>
  Model of the second half of \<open>llama_batch_allocr\<close> (\<open>src/llama-batch.cpp\<close>):
  \<open>ubatch_add\<close>, \<open>ubatch_reserve\<close> and the three splits. A loop with \<open>break\<close> is a recursive
  function whose result is the state at the break; \<open>None\<close> is a read past the end of a vector
  or a failed assertion. \<open>return {}\<close> is \<open>ubatch_nil\<close>, the zero-initialised ubatch.

  What a caller relies on is the locale \<open>ubatch_splitter\<close>: a call takes a non-empty set of
  entries that were not used yet, or returns an empty ubatch when there are none. Every loop
  that calls a split until it returns an empty ubatch then consumes the batch exactly once.
\<close>

subsection \<open>The ubatch\<close>

record llama_ubatch =
  ub_equal_seqs :: bool
  ub_n_tokens :: nat
  ub_n_seq_tokens :: nat
  ub_n_seqs :: nat
  ub_n_seqs_unq :: nat
  ub_n_pos :: nat
  ub_token :: "llama_token list option"
  ub_embd :: "f32 list option"
  ub_embd_state :: "f32 list option"
  ub_pos :: "llama_pos list"
  ub_seq_id :: "llama_seq_id list list"
  ub_seq_id_unq :: "nat list"
  ub_seq_idx :: "int list"
  ub_output :: "bool list"
  ub_type :: "bool list option"
  ub_decision_order :: "int list option"
  ub_batch_idxs :: "nat list"

definition ubatch_nil :: llama_ubatch where
  "ubatch_nil = \<lparr>ub_equal_seqs = False, ub_n_tokens = 0, ub_n_seq_tokens = 0, ub_n_seqs = 0,
     ub_n_seqs_unq = 0, ub_n_pos = 0, ub_token = None, ub_embd = None, ub_embd_state = None,
     ub_pos = [], ub_seq_id = [], ub_seq_id_unq = [], ub_seq_idx = [], ub_output = [],
     ub_type = None, ub_decision_order = None, ub_batch_idxs = []\<rparr>"

definition is_pos_2d :: "llama_ubatch \<Rightarrow> bool" where
  "is_pos_2d ub \<longleftrightarrow> ub_n_pos ub \<ge> 3"

definition ub_is_mixed :: "llama_ubatch \<Rightarrow> bool" where
  "ub_is_mixed ub \<longleftrightarrow> ub_type ub \<noteq> None"

text \<open>Row \<open>i\<close> of a matrix with rows of \<open>n\<close> floats.\<close>

definition row_of :: "nat \<Rightarrow> f32 list \<Rightarrow> nat \<Rightarrow> f32 list" where
  "row_of n m i = take n (drop (i * n) m)"

definition ubatch_add :: "nat list \<Rightarrow> nat \<Rightarrow> bool \<Rightarrow> llama_batch_allocr
    \<Rightarrow> (llama_ubatch \<times> llama_batch_allocr) option" where
  "ubatch_add idxs n_seqs equal_seqs al = do {
     check (n_seqs \<noteq> 0);
     check (length idxs mod n_seqs = 0);
     check (\<forall>idx \<in> set idxs. idx < al_n_tokens al);
     (let n_tokens = length idxs;
          mixed_b = (al_is_embd_vec al \<noteq> []);
          n_embd_rows = (if mixed_b then length (filter (\<lambda>idx. al_is_embd_vec al ! idx) idxs) else 0);
          mixed = (mixed_b \<and> n_embd_rows > 0 \<and> n_embd_rows < n_tokens);
          use_token = (al_has_token al \<and> \<not> (mixed_b \<and> n_embd_rows = n_tokens));
          use_embd = (al_has_embd al \<and> \<not> (mixed_b \<and> n_embd_rows = 0));
          has_state = (al_state_vec al \<noteq> []);
          out = map (\<lambda>idx. al_output al ! idx) idxs;
          unq = (\<Union>idx \<in> set idxs. nat ` set (al_seq_id al ! idx));
          (seq_idx, seq_id_unq) = number_seqs (al_n_seq_max al) unq (replicate LLAMA_MAX_SEQ (-1), [])
      in Some (\<lparr>ub_equal_seqs = equal_seqs,
          ub_n_tokens = n_tokens,
          ub_n_seq_tokens = n_tokens div n_seqs,
          ub_n_seqs = n_seqs,
          ub_n_seqs_unq = length seq_id_unq,
          ub_n_pos = al_n_pos_per_embd al,
          ub_token = (if use_token then Some (map (\<lambda>idx. al_token_vec al ! idx) idxs) else None),
          ub_embd = (if use_embd then Some (concat (map (row_of (al_n_embd al) (al_embd_vec al)) idxs)) else None),
          ub_embd_state = (if has_state
            then Some (concat (map (row_of (al_n_embd_state al) (al_state_vec al)) idxs)) else None),
          ub_pos = concat (map (\<lambda>j. map (\<lambda>idx. al_pos al ! (j * al_n_tokens al + idx)) idxs)
            [0..<al_n_pos_per_embd al]),
          ub_seq_id = map (\<lambda>idx. al_seq_id al ! idx) idxs,
          ub_seq_id_unq = seq_id_unq,
          ub_seq_idx = seq_idx,
          ub_output = out,
          ub_type = (if mixed then Some (map (\<lambda>idx. al_is_embd_vec al ! idx) idxs) else None),
          ub_decision_order = (if al_decision_order al = [] then None
            else Some (map (\<lambda>idx. al_decision_order al ! idx) idxs)),
          ub_batch_idxs = idxs\<rparr>,
        al\<lparr>al_out_ids := al_out_ids al @ filter (\<lambda>idx. al_output al ! idx) idxs\<rparr>)) }"

definition ubatch_reserve :: "nat \<Rightarrow> nat \<Rightarrow> llama_batch_allocr \<Rightarrow> (llama_ubatch \<times> llama_batch_allocr) option" where
  "ubatch_reserve n_seq_tokens n_seqs al =
     (let n_tokens = n_seq_tokens * n_seqs;
          al = alloc_split_reset (alloc_clear al) in do {
      check (n_seqs \<le> LLAMA_MAX_SEQ);
      Some (\<lparr>ub_equal_seqs = True, ub_n_tokens = n_tokens, ub_n_seq_tokens = n_seq_tokens,
          ub_n_seqs = n_seqs, ub_n_seqs_unq = n_seqs, ub_n_pos = al_n_pos_per_embd al,
          ub_token = Some (replicate n_tokens 0), ub_embd = None, ub_embd_state = None,
          ub_pos = replicate (n_tokens * al_n_pos_per_embd al) 0,
          ub_seq_id = replicate n_tokens [], ub_seq_id_unq = [0..<n_seqs],
          ub_seq_idx = map int [0..<n_seqs] @ replicate (LLAMA_MAX_SEQ - n_seqs) (-1),
          ub_output = replicate n_tokens False, ub_type = None, ub_decision_order = None,
          ub_batch_idxs = []\<rparr>, al) })"

subsection \<open>\<open>split_simple\<close>\<close>

text \<open>\<open>while (cur_idx < used.size() && used[cur_idx]) ++cur_idx;\<close>\<close>

definition first_unused :: "bool list \<Rightarrow> nat" where
  "first_unused used = length (takeWhile (\<lambda>u. u) used)"

text \<open>\<open>used[idx] = true; ++n_used;\<close> and its inverse.\<close>

definition mark_used :: "nat \<Rightarrow> llama_batch_allocr \<Rightarrow> llama_batch_allocr" where
  "mark_used idx al = al\<lparr>al_used := (al_used al)[idx := True], al_n_used := al_n_used al + 1\<rparr>"

definition unmark_used :: "nat \<Rightarrow> llama_batch_allocr \<Rightarrow> llama_batch_allocr" where
  "unmark_used idx al = al\<lparr>al_used := (al_used al)[idx := False], al_n_used := al_n_used al - 1\<rparr>"

lemma length_used_mark [simp]: "length (al_used (mark_used i al)) = length (al_used al)"
  by (simp add: mark_used_def)

function simple_loop :: "nat \<Rightarrow> nat \<Rightarrow> nat list \<Rightarrow> llama_batch_allocr \<Rightarrow> nat list \<times> llama_batch_allocr" where
  "simple_loop n_ubatch cur_idx idxs al =
     (let idxs = idxs @ [cur_idx];
          al = mark_used cur_idx al;
          cur_idx = cur_idx + 1
      in if cur_idx \<ge> length (al_used al) then (idxs, al)
         else if length idxs \<ge> n_ubatch then (idxs, al)
         else simple_loop n_ubatch cur_idx idxs al)"
  by auto
termination
  by (relation "measure (\<lambda>(n, cur, idxs, al). length (al_used al) - cur)") auto

declare simple_loop.simps [simp del]

definition split_simple :: "nat \<Rightarrow> llama_batch_allocr \<Rightarrow> (llama_ubatch \<times> llama_batch_allocr) option" where
  "split_simple n_ubatch al =
     (let cur_idx = first_unused (al_used al) in
      if cur_idx \<ge> length (al_used al) then Some (ubatch_nil, al)
      else (let (idxs, al) = simple_loop n_ubatch cur_idx [] al in
            ubatch_add idxs (length idxs) False al))"

subsection \<open>\<open>split_seq\<close>\<close>

text \<open>The \<open>do ... while\<close> that looks for the next unused entry whose sequence set is a subset.\<close>

function seq_next :: "nat set \<Rightarrow> nat \<Rightarrow> llama_batch_allocr \<Rightarrow> nat" where
  "seq_next cur_seq_set cur_idx al =
     (let cur_idx = cur_idx + 1 in
      if cur_idx < al_n_tokens al
          \<and> (al_used al ! cur_idx \<or> cur_seq_set \<inter> al_seq_set al ! cur_idx \<noteq> al_seq_set al ! cur_idx)
      then seq_next cur_seq_set cur_idx al else cur_idx)"
  by auto
termination
  by (relation "measure (\<lambda>(s, cur, al). al_n_tokens al - cur)") auto

declare seq_next.simps [simp del]

lemma seq_next_gt: "cur < seq_next S cur al"
proof (induction S cur al rule: seq_next.induct)
  case (1 S cur al)
  show ?case
  proof (cases "Suc cur < al_n_tokens al \<and> (al_used al ! Suc cur \<or> S \<inter> al_seq_set al ! Suc cur \<noteq> al_seq_set al ! Suc cur)")
    case True
    then have "Suc cur < seq_next S (Suc cur) al" using 1 by simp
    with True show ?thesis by (subst seq_next.simps) (simp add: Let_def)
  next
    case False
    then show ?thesis by (subst seq_next.simps) (auto simp: Let_def)
  qed
qed

lemma al_n_tokens_mark [simp]: "al_n_tokens (mark_used i al) = al_n_tokens al"
  by (simp add: mark_used_def)

function seq_loop :: "nat \<Rightarrow> nat set \<Rightarrow> nat \<Rightarrow> nat list \<Rightarrow> llama_batch_allocr \<Rightarrow> nat list \<times> llama_batch_allocr" where
  "seq_loop n_ubatch cur_seq_set cur_idx idxs al =
     (let idxs = idxs @ [cur_idx];
          al = mark_used cur_idx al
      in if length idxs \<ge> n_ubatch then (idxs, al)
         else (let cur_idx = seq_next cur_seq_set cur_idx al in
               if cur_idx \<ge> al_n_tokens al then (idxs, al)
               else seq_loop n_ubatch (al_seq_set al ! cur_idx) cur_idx idxs al))"
  by auto
termination
proof (relation "measure (\<lambda>(n, s, cur, idxs, al). al_n_tokens al - cur)")
  fix n_ubatch cur_seq_set cur_idx idxs and al x xa xb
  assume "x = idxs @ [cur_idx]" "xa = mark_used cur_idx (al :: llama_batch_allocr)"
    "xb = seq_next cur_seq_set cur_idx xa" "\<not> al_n_tokens xa \<le> xb"
  then show "((n_ubatch, al_seq_set xa ! xb, xb, x, xa), n_ubatch, cur_seq_set, cur_idx, idxs, al)
      \<in> measure (\<lambda>(n, s, cur, idxs, al). al_n_tokens al - cur)"
    using seq_next_gt [of cur_idx cur_seq_set xa] by simp
qed simp

declare seq_loop.simps [simp del]

definition split_seq :: "nat \<Rightarrow> llama_batch_allocr \<Rightarrow> (llama_ubatch \<times> llama_batch_allocr) option" where
  "split_seq n_ubatch al =
     (let cur_idx = first_unused (al_used al) in
      if cur_idx \<ge> length (al_used al) then Some (ubatch_nil, al)
      else do {
        cur_seq_set \<leftarrow> nth_opt (al_seq_set al) cur_idx;
        (let (idxs, al) = seq_loop n_ubatch cur_seq_set cur_idx [] al in
         ubatch_add idxs 1 True al) })"

subsection \<open>\<open>split_equal\<close>\<close>

text \<open>
  The loop that chooses the sequence sets: those of unused entries, pairwise disjoint, with
  consecutive first ids when \<open>sequential\<close>. It runs over the batch indices.
\<close>

fun equal_select :: "llama_batch_allocr \<Rightarrow> nat \<Rightarrow> bool \<Rightarrow> nat list \<Rightarrow> nat set list \<Rightarrow> llama_seq_id
    \<Rightarrow> nat set list option" where
  "equal_select al n_ubatch sequential [] css last_seq_id = Some css"
| "equal_select al n_ubatch sequential (i # is) css last_seq_id = do {
     u \<leftarrow> nth_opt (al_used al) i;
     if u then equal_select al n_ubatch sequential is css last_seq_id
     else do {
       S \<leftarrow> nth_opt (al_seq_set al) i;
       (let add = list_all (\<lambda>c. c \<inter> S = {}) css in do {
       add \<leftarrow> (if sequential \<and> add \<and> css \<noteq> [] then do {
                s0 \<leftarrow> seq_id_first al i;
                Some (s0 = last_seq_id + 1) }
              else Some add);
       if \<not> add then equal_select al n_ubatch sequential is css last_seq_id
       else do {
         s0 \<leftarrow> seq_id_first al i;
         (let css = css @ [S] in
          if length css > n_ubatch then Some css
          else equal_select al n_ubatch sequential is css s0) } }) } }"

text \<open>\<open>seq_set_map[cur_seq_set[s]]\<close>\<close>

abbreviation set_idxs :: "llama_batch_allocr \<Rightarrow> nat set \<Rightarrow> nat list" where
  "set_idxs al S \<equiv> al_seq_set_map al S"

text \<open>The first unused index of a sequence set; the loop does not look for the end.\<close>

definition equal_start :: "llama_batch_allocr \<Rightarrow> nat set \<Rightarrow> nat option" where
  "equal_start al S = do {
     (let k = length (takeWhile (\<lambda>i. al_used al ! i) (set_idxs al S)) in do {
      check (k < length (set_idxs al S));
      Some k }) }"

text \<open>The state of the loops: the allocator, \<open>cur_idx\<close> and \<open>idxs_per_seq\<close>.\<close>

record equal_state =
  es_al :: llama_batch_allocr
  es_cur :: "nat list"
  es_idxs :: "nat list list"

text \<open>Taking the next index of sequence set \<open>s\<close>.\<close>

definition equal_push :: "nat set list \<Rightarrow> nat \<Rightarrow> equal_state \<Rightarrow> equal_state option" where
  "equal_push css s st = do {
     c \<leftarrow> nth_opt (es_cur st) s;
     S \<leftarrow> nth_opt css s;
     idx \<leftarrow> nth_opt (set_idxs (es_al st) S) c;
     Some \<lparr>es_al = mark_used idx (es_al st), es_cur = (es_cur st)[s := c + 1],
           es_idxs = (es_idxs st)[s := es_idxs st ! s @ [idx]]\<rparr> }"

definition equal_can_expand :: "nat set list \<Rightarrow> equal_state \<Rightarrow> bool" where
  "equal_can_expand css st =
     list_all (\<lambda>s. \<not> (es_cur st ! s \<ge> length (set_idxs (es_al st) (css ! s)))) [0..<length css]"

text \<open>
  The expanding loop, with the number of rounds it may take as fuel: each round uses one entry
  of every set, so the number of entries of the batch is enough (\<open>equal_expand_enough\<close>).
\<close>

fun equal_expand :: "nat \<Rightarrow> nat \<Rightarrow> nat set list \<Rightarrow> equal_state \<Rightarrow> equal_state option" where
  "equal_expand 0 n_ubatch css st = None"
| "equal_expand (Suc fuel) n_ubatch css st =
     (if \<not> equal_can_expand css st then Some st
      else do {
        st \<leftarrow> for_opt (equal_push css) [0..<length css] st;
        if (length (es_idxs st ! 0) + 1) * length css > n_ubatch then Some st
        else equal_expand fuel n_ubatch css st })"

text \<open>The \<open>n_keep_tail\<close> part.\<close>

definition n_remaining :: "nat set list \<Rightarrow> equal_state \<Rightarrow> nat \<Rightarrow> nat" where
  "n_remaining css st s = length (set_idxs (es_al st) (css ! s)) - es_cur st ! s"

definition equal_n_keep :: "nat set list \<Rightarrow> equal_state \<Rightarrow> nat \<Rightarrow> nat" where
  "equal_n_keep css st n_keep_tail = length (takeWhile
     (\<lambda>s. \<not> (n_remaining css st s \<noteq> 0 \<and> n_remaining css st s < n_keep_tail)) [0..<length css])"

text \<open>Extending the first sequence to its end: \<open>n_remaining(0)\<close> pushes.\<close>

definition equal_complete :: "nat set list \<Rightarrow> equal_state \<Rightarrow> equal_state option" where
  "equal_complete css st = for_opt (\<lambda>_. equal_push css 0) [0..<n_remaining css st 0] st"

text \<open>Truncating it so that \<open>n_keep_tail\<close> entries remain.\<close>

definition equal_pop :: "equal_state \<Rightarrow> equal_state option" where
  "equal_pop st = do {
     check (es_idxs st ! 0 \<noteq> []);
     check (0 < es_cur st ! 0);
     Some \<lparr>es_al = unmark_used (last (es_idxs st ! 0)) (es_al st),
           es_cur = (es_cur st)[0 := es_cur st ! 0 - 1],
           es_idxs = (es_idxs st)[0 := butlast (es_idxs st ! 0)]\<rparr> }"

definition equal_truncate :: "nat set list \<Rightarrow> nat \<Rightarrow> equal_state \<Rightarrow> equal_state option" where
  "equal_truncate css n_keep_tail st =
     for_opt (\<lambda>_. equal_pop) [0..<n_keep_tail - n_remaining css st 0] st"

definition equal_release :: "nat \<Rightarrow> nat \<Rightarrow> equal_state \<Rightarrow> equal_state" where
  "equal_release n_keep n_seqs st = fold
     (\<lambda>s st. fold (\<lambda>idx st. st\<lparr>es_al := unmark_used idx (es_al st)\<rparr>) (es_idxs st ! s) st)
     [n_keep..<n_seqs] st"

definition equal_keep_tail :: "nat \<Rightarrow> nat \<Rightarrow> nat set list \<Rightarrow> equal_state
    \<Rightarrow> (nat \<times> equal_state) option" where
  "equal_keep_tail n_ubatch n_keep_tail css st =
     (if n_keep_tail > 0 then do {
        check (n_ubatch > n_keep_tail);
        (let n_keep = equal_n_keep css st n_keep_tail in
         if n_keep = 0 then do {
           st \<leftarrow> (if length (es_idxs st ! 0) + n_remaining css st 0 \<le> n_ubatch
                 then equal_complete css st else equal_truncate css n_keep_tail st);
           Some (1, equal_release 1 (length css) st) }
         else Some (n_keep, equal_release n_keep (length css) st)) }
      else Some (length css, st))"

definition split_equal :: "nat \<Rightarrow> bool \<Rightarrow> nat \<Rightarrow> llama_batch_allocr
    \<Rightarrow> (llama_ubatch \<times> llama_batch_allocr) option" where
  "split_equal n_ubatch sequential n_keep_tail al =
     (if sequential \<and> al_has_cpl al then Some (ubatch_nil, al)
      else do {
        css \<leftarrow> equal_select al n_ubatch sequential [0..<al_n_tokens al] [] (-1);
        if css = [] then Some (ubatch_nil, al)
        else do {
          cur \<leftarrow> for_opt (\<lambda>S cur. do { k \<leftarrow> equal_start al S; Some (cur @ [k]) }) css [];
          st \<leftarrow> equal_expand (Suc (al_n_tokens al)) n_ubatch css
            \<lparr>es_al = al, es_cur = cur, es_idxs = replicate (length css) []\<rparr>;
          (n_seqs, st) \<leftarrow> equal_keep_tail n_ubatch n_keep_tail css st;
          ubatch_add (concat (take n_seqs (es_idxs st))) n_seqs True (es_al st) } })"

subsection \<open>What a split does to the allocator\<close>

definition unused :: "llama_batch_allocr \<Rightarrow> nat set" where
  "unused al = {i. i < length (al_used al) \<and> \<not> al_used al ! i}"

lemma finite_unused [simp]: "finite (unused al)"
  by (simp add: unused_def)

text \<open>A split changes only which entries are used and the recorded outputs.\<close>

definition batch_part :: "llama_batch_allocr \<Rightarrow> llama_batch_allocr" where
  "batch_part al = al\<lparr>al_used := [], al_n_used := 0, al_out_ids := []\<rparr>"

definition same_batch :: "llama_batch_allocr \<Rightarrow> llama_batch_allocr \<Rightarrow> bool" where
  "same_batch al al' \<longleftrightarrow> length (al_used al') = length (al_used al) \<and> batch_part al' = batch_part al"

lemma same_batch_refl [simp]: "same_batch al al"
  by (simp add: same_batch_def)

lemma same_batch_trans: "same_batch al al1 \<Longrightarrow> same_batch al1 al2 \<Longrightarrow> same_batch al al2"
  by (simp add: same_batch_def)

lemma batch_part_sel:
  "al_n_tokens (batch_part al) = al_n_tokens al" "al_seq_set (batch_part al) = al_seq_set al"
  "al_seq_set_map (batch_part al) = al_seq_set_map al" "al_seq_id (batch_part al) = al_seq_id al"
  "al_has_cpl (batch_part al) = al_has_cpl al" "al_pos (batch_part al) = al_pos al"
  "al_output (batch_part al) = al_output al" "al_token_vec (batch_part al) = al_token_vec al"
  by (simp_all add: batch_part_def)

lemma same_batchD:
  assumes "same_batch al al'"
  shows "al_n_tokens al' = al_n_tokens al" "al_seq_set al' = al_seq_set al"
    "al_seq_set_map al' = al_seq_set_map al" "al_seq_id al' = al_seq_id al"
    "al_has_cpl al' = al_has_cpl al" "length (al_used al') = length (al_used al)"
    "al_pos al' = al_pos al" "al_output al' = al_output al" "al_token_vec al' = al_token_vec al"
  using assms batch_part_sel unfolding same_batch_def by metis+

lemma same_batch_mark [simp]: "same_batch al (mark_used i al)"
  by (simp add: same_batch_def mark_used_def batch_part_def)

lemma same_batch_unmark [simp]: "same_batch al (unmark_used i al)"
  by (simp add: same_batch_def unmark_used_def batch_part_def)

lemma seq_id_first_same: "same_batch al al' \<Longrightarrow> seq_id_first al' i = seq_id_first al i"
  by (simp add: seq_id_first_def same_batchD)

lemma unused_mark: "unused (mark_used i al) = unused al - {i}"
  by (auto simp: unused_def mark_used_def nth_upd)

lemma unused_fold_mark: "unused (fold mark_used is al) = unused al - set is"
  by (induction "is" arbitrary: al) (auto simp: unused_mark)

lemma out_ids_fold_mark: "al_out_ids (fold mark_used is al) = al_out_ids al"
  by (induction "is" arbitrary: al) (auto simp: mark_used_def)

lemma n_used_fold_mark: "al_n_used (fold mark_used is al) = al_n_used al + length is"
  by (induction "is" arbitrary: al) (auto simp: mark_used_def)

lemma same_batch_fold_mark [simp]: "same_batch al (fold mark_used is al)"
  by (induction "is" arbitrary: al) (auto intro: same_batch_trans [OF same_batch_mark])

text \<open>\<open>ubatch_add\<close> succeeds on entries of the batch and only records outputs.\<close>

lemma ubatch_add_Some:
  assumes "n_seqs \<noteq> 0" "length idxs mod n_seqs = 0" "\<forall>i \<in> set idxs. i < al_n_tokens al"
  shows "\<exists>ub al'. ubatch_add idxs n_seqs eq al = Some (ub, al') \<and> ub_batch_idxs ub = idxs
    \<and> ub_n_tokens ub = length idxs \<and> ub_n_seqs ub = n_seqs \<and> ub_n_seq_tokens ub = length idxs div n_seqs
    \<and> ub_equal_seqs ub = eq \<and> al' = al\<lparr>al_out_ids := al_out_ids al @ filter (\<lambda>i. al_output al ! i) idxs\<rparr>"
proof -
  obtain si su where nu: "number_seqs (al_n_seq_max al) (\<Union>idx \<in> set idxs. nat ` set (al_seq_id al ! idx))
      (replicate LLAMA_MAX_SEQ (-1), []) = (si, su)"
    by fastforce
  show ?thesis
    unfolding ubatch_add_def Let_def nu prod.case check_ok [OF assms(1)] check_ok [OF assms(2)]
      check_ok [OF assms(3)]
    by (intro exI conjI) (rule refl, simp_all only: llama_ubatch.simps)
qed

lemma same_batch_out [simp]: "same_batch al (al\<lparr>al_out_ids := ids\<rparr>)"
  by (simp add: same_batch_def batch_part_def)

lemma unused_out [simp]: "unused (al\<lparr>al_out_ids := ids\<rparr>) = unused al"
  by (simp add: unused_def)

subsection \<open>The contract of a split\<close>

text \<open>
  The loop of the memory modules: split until the ubatch is empty.
\<close>

partial_function (option) drain :: "(llama_batch_allocr \<Rightarrow> (llama_ubatch \<times> llama_batch_allocr) option)
    \<Rightarrow> llama_batch_allocr \<Rightarrow> (llama_ubatch list \<times> llama_batch_allocr) option" where
  "drain split al = do {
     x \<leftarrow> split al;
     (if ub_n_tokens (fst x) = 0 then Some ([], snd x)
      else do {
        y \<leftarrow> drain split (snd x);
        Some (fst x # fst y, snd y) }) }"

definition built_from :: "llama_batch_allocr \<Rightarrow> llama_ubatch \<Rightarrow> bool" where
  "built_from al ub \<longleftrightarrow> (\<exists>al1 n eq al2. same_batch al al1
     \<and> ubatch_add (ub_batch_idxs ub) n eq al1 = Some (ub, al2))"

text \<open>
  One call that hands out a ubatch: unused entries, each once, recorded as used, their outputs
  appended to \<open>out_ids\<close>; the ubatch is the one \<open>ubatch_add\<close> builds for them.
\<close>

definition takes :: "llama_batch_allocr \<Rightarrow> llama_ubatch \<Rightarrow> llama_batch_allocr \<Rightarrow> bool" where
  "takes al ub al' \<longleftrightarrow> ub_batch_idxs ub \<noteq> [] \<and> distinct (ub_batch_idxs ub)
     \<and> set (ub_batch_idxs ub) \<subseteq> unused al
     \<and> unused al' = unused al - set (ub_batch_idxs ub)
     \<and> al_n_used al' = al_n_used al + length (ub_batch_idxs ub)
     \<and> al_out_ids al' = al_out_ids al @ filter (\<lambda>i. al_output al ! i) (ub_batch_idxs ub)
     \<and> ub_n_tokens ub = length (ub_batch_idxs ub) \<and> same_batch al al'
     \<and> built_from al ub"

lemma takesI:
  assumes "ubatch_add idxs n eq al1 = Some (ub, al')" "idxs \<noteq> []" "distinct idxs" "set idxs \<subseteq> unused al"
    and "same_batch al al1" "unused al1 = unused al - set idxs"
    and "al_n_used al1 = al_n_used al + length idxs" "al_out_ids al1 = al_out_ids al"
  shows "takes al ub al'"
proof -
  have "n \<noteq> 0" "length idxs mod n = 0" "\<forall>i \<in> set idxs. i < al_n_tokens al1"
    using assms(1) by (simp_all add: ubatch_add_def failure_simps)
  from ubatch_add_Some [OF this, of eq] assms(1) have "ub_batch_idxs ub = idxs" "ub_n_tokens ub = length idxs"
    "al' = al1\<lparr>al_out_ids := al_out_ids al1 @ filter (\<lambda>i. al_output al1 ! i) idxs\<rparr>"
    by auto
  moreover have "same_batch al (al1\<lparr>al_out_ids := x\<rparr>)" for x
    using same_batch_trans [OF assms(5) same_batch_out] .
  ultimately show ?thesis
    using assms unfolding takes_def built_from_def by (auto simp: same_batchD [OF assms(5)])
qed

text \<open>The same for a call that marks a list of entries and nothing else.\<close>

lemma takes_mark:
  assumes "ubatch_add idxs n eq (fold mark_used idxs al) = Some (ub, al')" "idxs \<noteq> []" "distinct idxs"
    and "set idxs \<subseteq> unused al"
  shows "takes al ub al'"
  by (rule takesI [OF assms]) (simp_all add: unused_fold_mark n_used_fold_mark out_ids_fold_mark)

text \<open>
  A whole run: every unused entry is handed out exactly once, and \<open>out_ids\<close> lists the outputs
  in that order.
\<close>

definition delivers :: "llama_batch_allocr \<Rightarrow> llama_ubatch list \<Rightarrow> llama_batch_allocr \<Rightarrow> bool" where
  "delivers al ubs al' \<longleftrightarrow> distinct (concat (map ub_batch_idxs ubs))
     \<and> set (concat (map ub_batch_idxs ubs)) = unused al \<and> unused al' = {}
     \<and> al_n_used al' = al_n_used al + length (concat (map ub_batch_idxs ubs))
     \<and> al_out_ids al' = al_out_ids al @ filter (\<lambda>i. al_output al ! i) (concat (map ub_batch_idxs ubs))
     \<and> same_batch al al'
     \<and> (\<forall>ub \<in> set ubs. ub_n_tokens ub = length (ub_batch_idxs ub) \<and> ub_batch_idxs ub \<noteq> [] \<and> built_from al ub)"

lemma delivers_Nil: "unused al = {} \<Longrightarrow> delivers al [] al"
  by (simp add: delivers_def)

lemma built_from_same: "same_batch al al' \<Longrightarrow> built_from al' ub \<Longrightarrow> built_from al ub"
  unfolding built_from_def using same_batch_trans by blast

lemma delivers_Cons:
  assumes "takes al ub al1" "delivers al1 ubs al'"
  shows "delivers al (ub # ubs) al'"
proof -
  note t = assms(1) [unfolded takes_def] and d = assms(2) [unfolded delivers_def]
  have same: "same_batch al al1" using t by simp
  have "set (ub_batch_idxs ub) \<inter> set (concat (map ub_batch_idxs ubs)) = {}"
    using t d by auto
  then have "distinct (concat (map ub_batch_idxs (ub # ubs)))"
    using t d by (simp only: list.map concat.simps distinct_append)
  moreover have "set (concat (map ub_batch_idxs (ub # ubs))) = unused al"
  proof -
    have "set (concat (map ub_batch_idxs (ub # ubs))) = set (ub_batch_idxs ub) \<union> unused al1"
      using d by (simp only: list.map concat.simps set_append)
    then show ?thesis using t by auto
  qed
  moreover have "al_out_ids al' = al_out_ids al @ filter (\<lambda>i. al_output al ! i) (concat (map ub_batch_idxs (ub # ubs)))"
    using t d by (simp add: same_batchD [OF same])
  moreover have "\<forall>x \<in> set (ub # ubs). ub_n_tokens x = length (ub_batch_idxs x) \<and> ub_batch_idxs x \<noteq> [] \<and> built_from al x"
    using t d built_from_same [OF same] by simp
  moreover have "al_n_used al' = al_n_used al + length (concat (map ub_batch_idxs (ub # ubs)))"
    "unused al' = {}" "same_batch al al'"
    using t d same_batch_trans [OF same] by simp_all
  ultimately show ?thesis unfolding delivers_def by blast
qed

locale ubatch_splitter =
  fixes split :: "llama_batch_allocr \<Rightarrow> (llama_ubatch \<times> llama_batch_allocr) option"
    and inv :: "llama_batch_allocr \<Rightarrow> bool"
    and good :: "llama_batch_allocr \<Rightarrow> llama_ubatch \<Rightarrow> bool"
  assumes split_done: "inv al \<Longrightarrow> unused al = {} \<Longrightarrow> split al = Some (ubatch_nil, al)"
    and split_step: "inv al \<Longrightarrow> unused al \<noteq> {} \<Longrightarrow> \<exists>ub al'. split al = Some (ub, al') \<and> inv al' \<and> takes al ub al' \<and> good al ub"
    and good_same: "same_batch al al' \<Longrightarrow> good al' ub \<Longrightarrow> good al ub"
begin

lemma drain_delivers:
  assumes "inv al"
  shows "\<exists>ubs al'. drain split al = Some (ubs, al') \<and> inv al' \<and> delivers al ubs al' \<and> (\<forall>ub \<in> set ubs. good al ub)"
  using assms
proof (induction "card (unused al)" arbitrary: al rule: less_induct)
  case less
  show ?case
  proof (cases "unused al = {}")
    case True
    then have "drain split al = Some ([], al)"
      using split_done [OF less.prems] by (subst drain.simps) (simp add: ubatch_nil_def)
    with delivers_Nil [OF True] less.prems show ?thesis by simp
  next
    case False
    obtain ub al1 where st: "split al = Some (ub, al1)" "inv al1" "takes al ub al1" "good al ub"
      using split_step [OF less.prems False] by (elim exE conjE) (rule that)
    have t: "ub_batch_idxs ub \<noteq> []" "set (ub_batch_idxs ub) \<subseteq> unused al" "same_batch al al1"
      "unused al1 = unused al - set (ub_batch_idxs ub)" "ub_n_tokens ub = length (ub_batch_idxs ub)"
      using st(3) by (simp_all add: takes_def)
    obtain i where "i \<in> set (ub_batch_idxs ub)" using t(1) by (cases "ub_batch_idxs ub") auto
    then have "unused al1 \<subset> unused al" using t by auto
    then have "card (unused al1) < card (unused al)" by (rule psubset_card_mono [OF finite_unused])
    from less.hyps [OF this st(2)] obtain ubs al' where rec: "drain split al1 = Some (ubs, al')"
      "inv al'" "delivers al1 ubs al'" "\<forall>ub \<in> set ubs. good al1 ub"
      by (elim exE conjE) (rule that)
    have "drain split al = Some (ub # ubs, al')"
      using st(1) t rec(1) by (subst drain.simps) simp
    moreover have "\<forall>x \<in> set (ub # ubs). good al x"
      using st(4) rec(4) good_same [OF t(3)] by simp
    ultimately show ?thesis
      using rec(2) delivers_Cons [OF st(3) rec(3)] by blast
  qed
qed

end

subsection \<open>\<open>split_simple\<close> meets the contract\<close>

lemma simple_loop_spec:
  assumes "cur < length (al_used al)"
  shows "\<exists>e. cur < e \<and> e \<le> length (al_used al)
    \<and> simple_loop nb cur idxs al = (idxs @ [cur..<e], fold mark_used [cur..<e] al)
    \<and> (length idxs + (e - cur) = max nb (length idxs + 1)
       \<or> e = length (al_used al) \<and> length idxs + (e - cur) \<le> max nb (length idxs + 1))"
  using assms
proof (induction nb cur idxs al rule: simple_loop.induct)
  case (1 nb cur idxs al)
  let ?al = "mark_used cur al"
  consider (last) "Suc cur \<ge> length (al_used al)"
    | (full) "Suc cur < length (al_used al)" "length idxs + 1 \<ge> nb"
    | (more) "Suc cur < length (al_used al)" "length idxs + 1 < nb" by linarith
  then show ?case
  proof cases
    case last
    then show ?thesis using "1.prems"
      by (intro exI [of _ "Suc cur"]) (subst simple_loop.simps, auto simp: Let_def)
  next
    case full
    then show ?thesis
      by (intro exI [of _ "Suc cur"]) (subst simple_loop.simps, auto simp: Let_def)
  next
    case more
    have "\<exists>e. Suc cur < e \<and> e \<le> length (al_used ?al)
      \<and> simple_loop nb (cur + 1) (idxs @ [cur]) ?al
          = ((idxs @ [cur]) @ [Suc cur..<e], fold mark_used [Suc cur..<e] ?al)
      \<and> (length (idxs @ [cur]) + (e - Suc cur) = max nb (length (idxs @ [cur]) + 1)
         \<or> e = length (al_used ?al) \<and> length (idxs @ [cur]) + (e - Suc cur) \<le> max nb (length (idxs @ [cur]) + 1))"
      using "1.IH" [OF refl refl refl] more by simp
    then obtain e where e: "Suc cur < e" "e \<le> length (al_used al)"
      "simple_loop nb (Suc cur) (idxs @ [cur]) ?al
          = (idxs @ [cur] @ [Suc cur..<e], fold mark_used [Suc cur..<e] ?al)"
      "length idxs + 1 + (e - Suc cur) = max nb (length idxs + 2)
         \<or> e = length (al_used al) \<and> length idxs + 1 + (e - Suc cur) \<le> max nb (length idxs + 2)"
      by auto
    have up: "[cur..<e] = cur # [Suc cur..<e]" using e(1) by (simp add: upt_conv_Cons)
    have "simple_loop nb cur idxs al = (idxs @ [cur..<e], fold mark_used [cur..<e] al)"
      using more e(3) by (subst simple_loop.simps) (simp add: Let_def up)
    moreover have "length idxs + (e - cur) = max nb (length idxs + 1)
       \<or> e = length (al_used al) \<and> length idxs + (e - cur) \<le> max nb (length idxs + 1)"
      using e(1,4) more(2) by auto
    ultimately show ?thesis using e(1,2) by (intro exI [of _ e]) simp
  qed
qed

definition simple_inv :: "llama_batch_allocr \<Rightarrow> bool" where
  "simple_inv al \<longleftrightarrow> length (al_used al) = al_n_tokens al
     \<and> (\<exists>k. \<forall>i < al_n_tokens al. al_used al ! i \<longleftrightarrow> i < k)"

text \<open>A chunk of consecutive entries: as many as allowed, or up to the end of the batch.\<close>

definition simple_chunk :: "nat \<Rightarrow> llama_batch_allocr \<Rightarrow> llama_ubatch \<Rightarrow> bool" where
  "simple_chunk nb al ub \<longleftrightarrow> (\<exists>i e. i < e \<and> e \<le> al_n_tokens al \<and> ub_batch_idxs ub = [i..<e]
     \<and> (e - i = max nb 1 \<or> e = al_n_tokens al \<and> e - i \<le> max nb 1))"

lemma first_unused_prefix:
  assumes "\<forall>i < length us. us ! i \<longleftrightarrow> i < k"
  shows "first_unused us = min k (length us)"
proof -
  have "us = replicate (min k (length us)) True @ replicate (length us - k) False"
    by (rule nth_equalityI) (use assms in \<open>auto simp: nth_append\<close>)
  then have "takeWhile (\<lambda>u. u) us = takeWhile (\<lambda>u. u) (replicate (min k (length us)) True @ replicate (length us - k) False)"
    by simp
  also have "\<dots> = replicate (min k (length us)) True"
    by (cases "length us - k") (simp_all add: takeWhile_append)
  finally show ?thesis by (simp add: first_unused_def)
qed

lemma used_iff_unused: "i < length (al_used al) \<Longrightarrow> al_used al ! i \<longleftrightarrow> i \<notin> unused al"
  by (simp add: unused_def)

lemma first_unused_in:
  assumes "first_unused (al_used al) < length (al_used al)"
  shows "first_unused (al_used al) \<in> unused al"
  using nth_length_takeWhile [of "\<lambda>u. u" "al_used al"] assms by (simp add: first_unused_def unused_def)

lemma first_unused_none:
  "first_unused (al_used al) \<ge> length (al_used al) \<longleftrightarrow> unused al = {}"
proof
  assume "first_unused (al_used al) \<ge> length (al_used al)"
  then have "takeWhile (\<lambda>u. u) (al_used al) = al_used al"
    unfolding first_unused_def by (metis le_antisym length_takeWhile_le takeWhile_eq_take take_all)
  then have "\<forall>u \<in> set (al_used al). u" by (simp add: takeWhile_eq_all_conv)
  then show "unused al = {}" by (auto simp: unused_def)
next
  assume "unused al = {}"
  then show "first_unused (al_used al) \<ge> length (al_used al)"
    using first_unused_in [of al] by (metis empty_iff linorder_not_le)
qed

lemma split_simple_step:
  assumes "simple_inv al" "unused al \<noteq> {}"
  shows "\<exists>ub al'. split_simple nb al = Some (ub, al') \<and> simple_inv al' \<and> takes al ub al' \<and> simple_chunk nb al ub"
proof -
  let ?n = "al_n_tokens al"
  obtain k where len: "length (al_used al) = ?n" and k: "\<forall>i < ?n. al_used al ! i \<longleftrightarrow> i < k"
    using assms(1) by (auto simp: simple_inv_def)
  have fu: "first_unused (al_used al) = min k ?n"
    using first_unused_prefix [of "al_used al" k] k len by simp
  have kn: "k < ?n" using assms(2) first_unused_none [of al] by (auto simp: fu len)
  obtain e where e: "k < e" "e \<le> ?n"
    and run: "simple_loop nb k [] al = ([k..<e], fold mark_used [k..<e] al)"
    and size: "e - k = max nb 1 \<or> e = ?n \<and> e - k \<le> max nb 1"
    using simple_loop_spec [of k al nb "[]"] kn by (auto simp: len)
  let ?al = "fold mark_used [k..<e] al"
  obtain ub al' where ub: "ubatch_add [k..<e] (length [k..<e]) False ?al = Some (ub, al')"
    "ub_batch_idxs ub = [k..<e]" "ub_n_tokens ub = length [k..<e]"
    and al': "al' = ?al\<lparr>al_out_ids := al_out_ids ?al @ filter (\<lambda>i. al_output ?al ! i) [k..<e]\<rparr>"
    using ubatch_add_Some [of "length [k..<e]" "[k..<e]" ?al False] e same_batchD(1) [of al ?al]
    by auto
  have split: "split_simple nb al = Some (ub, al')"
    using run ub(1) kn by (simp add: split_simple_def fu len Let_def)
  have same: "same_batch al al'"
    unfolding al' by (rule same_batch_trans [OF same_batch_fold_mark same_batch_out])
  have un: "unused al' = unused al - {k..<e}" "unused al = {k..<?n}"
    using k by (simp add: al' unused_fold_mark) (auto simp: unused_def len k)
  have "simple_inv al'"
    unfolding simple_inv_def same_batchD [OF same] len
  proof (intro conjI exI [of _ e] allI impI)
    fix i assume i: "i < ?n"
    then have "al_used al' ! i \<longleftrightarrow> i \<notin> unused al'"
      by (intro used_iff_unused) (simp add: same_batchD [OF same] len)
    then show "al_used al' ! i \<longleftrightarrow> i < e" using un i e by auto
  qed simp
  moreover have "simple_chunk nb al ub"
    using e size ub(2) by (auto simp: simple_chunk_def)
  moreover have "takes al ub al'"
    by (rule takes_mark [OF ub(1)]) (use un(2) e in auto)
  ultimately show ?thesis using split by blast
qed

interpretation simple: ubatch_splitter "split_simple nb" simple_inv "simple_chunk nb" for nb
proof
  fix al
  assume "unused al = {}"
  then show "split_simple nb al = Some (ubatch_nil, al)"
    using first_unused_none [of al] by (simp add: split_simple_def)
next
  fix al
  assume "simple_inv al" "unused al \<noteq> {}"
  then show "\<exists>ub al'. split_simple nb al = Some (ub, al') \<and> simple_inv al' \<and> takes al ub al' \<and> simple_chunk nb al ub"
    by (rule split_simple_step)
next
  fix al al' ub
  assume "same_batch al al'" "simple_chunk nb al' ub"
  then show "simple_chunk nb al ub" by (simp add: simple_chunk_def same_batchD)
qed

subsection \<open>\<open>split_seq\<close> meets the contract\<close>

lemma seq_next_spec:
  assumes "cur < al_n_tokens al"
  shows "seq_next S cur al \<le> al_n_tokens al
    \<and> (seq_next S cur al < al_n_tokens al \<longrightarrow>
        \<not> al_used al ! seq_next S cur al \<and> al_seq_set al ! seq_next S cur al \<subseteq> S)"
  using assms
proof (induction S cur al rule: seq_next.induct)
  case (1 S cur al)
  let ?skip = "Suc cur < al_n_tokens al \<and> (al_used al ! Suc cur \<or> S \<inter> al_seq_set al ! Suc cur \<noteq> al_seq_set al ! Suc cur)"
  show ?case
  proof (cases ?skip)
    case True
    then have "seq_next S cur al = seq_next S (Suc cur) al"
      by (subst seq_next.simps) (simp add: Let_def)
    with True 1 show ?thesis by simp
  next
    case False
    then have "seq_next S cur al = Suc cur"
      by (subst seq_next.simps) (auto simp: Let_def)
    with False 1 show ?thesis by auto
  qed
qed

text \<open>The order in which entries are taken: increasing, with decreasing sequence sets.\<close>

definition seq_chain :: "llama_batch_allocr \<Rightarrow> nat list \<Rightarrow> bool" where
  "seq_chain al js \<longleftrightarrow> sorted_wrt (\<lambda>i j. i < j \<and> al_seq_set al ! j \<subseteq> al_seq_set al ! i) js"

lemma seq_chain_Cons:
  assumes "seq_chain al (j # js)" "i < j" "al_seq_set al ! j \<subseteq> al_seq_set al ! i"
  shows "seq_chain al (i # j # js)"
proof -
  have "\<forall>k \<in> set js. j < k \<and> al_seq_set al ! k \<subseteq> al_seq_set al ! j" "seq_chain al js"
    using assms(1) by (simp_all add: seq_chain_def)
  then show ?thesis
    using assms unfolding seq_chain_def by (auto simp: subset_eq)
qed

lemma seq_chain_same: "same_batch al al' \<Longrightarrow> seq_chain al' js = seq_chain al js"
  by (simp add: seq_chain_def same_batchD)

lemma seq_loop_spec:
  assumes "length (al_used al) = al_n_tokens al" "cur \<in> unused al" "S = al_seq_set al ! cur"
  shows "\<exists>js. seq_loop nb S cur idxs al = (idxs @ cur # js, fold mark_used (cur # js) al)
    \<and> seq_chain al (cur # js) \<and> set (cur # js) \<subseteq> unused al
    \<and> length idxs + length (cur # js) \<le> max nb (length idxs + 1)"
  using assms
proof (induction nb S cur idxs al rule: seq_loop.induct)
  case (1 nb S cur idxs al)
  let ?al = "mark_used cur al" and ?nx = "seq_next S cur (mark_used cur al)"
  have cur: "cur < al_n_tokens al" using "1.prems" by (simp add: unused_def)
  show ?case
  proof (cases "length idxs + 1 \<ge> nb \<or> ?nx \<ge> al_n_tokens al")
    case True
    then have "seq_loop nb S cur idxs al = (idxs @ [cur], ?al)"
      by (subst seq_loop.simps) (auto simp: Let_def)
    then show ?thesis using "1.prems"
      by (intro exI [of _ "[]"]) (simp add: seq_chain_def)
  next
    case False
    then have step: "seq_loop nb S cur idxs al = seq_loop nb (al_seq_set al ! ?nx) ?nx (idxs @ [cur]) ?al"
      by (subst seq_loop.simps) (simp add: Let_def mark_used_def)
    have nx: "cur < ?nx" "?nx < al_n_tokens al" "\<not> al_used ?al ! ?nx" "al_seq_set al ! ?nx \<subseteq> S"
      using seq_next_gt seq_next_spec [of cur ?al S] cur False by (auto simp: mark_used_def)
    have un: "?nx \<in> unused ?al" using nx "1.prems"(1) by (simp add: unused_def)
    obtain js where js: "seq_loop nb (al_seq_set al ! ?nx) ?nx (idxs @ [cur]) ?al
        = ((idxs @ [cur]) @ ?nx # js, fold mark_used (?nx # js) ?al)"
      "seq_chain ?al (?nx # js)" "set (?nx # js) \<subseteq> unused ?al"
      "length (idxs @ [cur]) + length (?nx # js) \<le> max nb (length (idxs @ [cur]) + 1)"
    proof -
      have "\<exists>js. seq_loop nb (al_seq_set ?al ! ?nx) ?nx (idxs @ [cur]) ?al
          = ((idxs @ [cur]) @ ?nx # js, fold mark_used (?nx # js) ?al)
        \<and> seq_chain ?al (?nx # js) \<and> set (?nx # js) \<subseteq> unused ?al
        \<and> length (idxs @ [cur]) + length (?nx # js) \<le> max nb (length (idxs @ [cur]) + 1)"
        by (rule "1.IH") (use False un "1.prems"(1) in auto)
      then show ?thesis using that by (auto simp: same_batchD [OF same_batch_mark])
    qed
    show ?thesis
    proof (intro exI [of _ "?nx # js"] conjI)
      show "seq_chain al (cur # ?nx # js)"
        by (rule seq_chain_Cons) (use js(2) nx "1.prems"(3) in \<open>simp_all add: seq_chain_same [OF same_batch_mark]\<close>)
      show "set (cur # ?nx # js) \<subseteq> unused al"
        using js(3) "1.prems"(2) by (auto simp: unused_mark)
    qed (use js step False in \<open>auto\<close>)
  qed
qed

definition seq_inv :: "llama_batch_allocr \<Rightarrow> bool" where
  "seq_inv al \<longleftrightarrow> length (al_used al) = al_n_tokens al \<and> length (al_seq_set al) = al_n_tokens al"

definition seq_ubatch :: "nat \<Rightarrow> llama_batch_allocr \<Rightarrow> llama_ubatch \<Rightarrow> bool" where
  "seq_ubatch nb al ub \<longleftrightarrow> seq_chain al (ub_batch_idxs ub) \<and> ub_n_seqs ub = 1
     \<and> length (ub_batch_idxs ub) \<le> max nb 1"

lemma split_seq_step:
  assumes "seq_inv al" "unused al \<noteq> {}"
  shows "\<exists>ub al'. split_seq nb al = Some (ub, al') \<and> seq_inv al' \<and> takes al ub al' \<and> seq_ubatch nb al ub"
proof -
  let ?cur = "first_unused (al_used al)"
  have cur: "?cur < length (al_used al)" using assms(2) first_unused_none [of al] by simp
  then have un: "?cur \<in> unused al" by (rule first_unused_in)
  obtain js where run: "seq_loop nb (al_seq_set al ! ?cur) ?cur [] al = (?cur # js, fold mark_used (?cur # js) al)"
    and chain: "seq_chain al (?cur # js)" and sub: "set (?cur # js) \<subseteq> unused al"
    and size: "length (?cur # js) \<le> max nb 1"
    using seq_loop_spec [of al ?cur "al_seq_set al ! ?cur" nb "[]"] un assms(1) by (auto simp: seq_inv_def)
  let ?idxs = "?cur # js" and ?al = "fold mark_used (?cur # js) al"
  have lt: "\<forall>i \<in> set ?idxs. i < al_n_tokens ?al"
    using sub assms(1) by (auto simp: same_batchD [OF same_batch_fold_mark] unused_def seq_inv_def simp del: fold.simps)
  obtain ub al' where ub: "ubatch_add ?idxs 1 True ?al = Some (ub, al')" "ub_batch_idxs ub = ?idxs"
    "ub_n_tokens ub = length ?idxs" "ub_n_seqs ub = 1"
    and al': "al' = ?al\<lparr>al_out_ids := al_out_ids ?al @ filter (\<lambda>i. al_output ?al ! i) ?idxs\<rparr>"
    using ubatch_add_Some [of 1 ?idxs ?al True] lt by auto
  have split: "split_seq nb al = Some (ub, al')"
    using run ub(1) cur assms(1) by (simp add: split_seq_def Let_def seq_inv_def del: fold.simps)
  have same: "same_batch al al'"
    unfolding al' by (rule same_batch_trans [OF same_batch_fold_mark same_batch_out])
  have "distinct ?idxs"
    using chain unfolding seq_chain_def
    by (metis (mono_tags, lifting) sorted_wrt_mono_rel strict_sorted_iff)
  then have "takes al ub al'"
    by (intro takes_mark [OF ub(1)]) (use sub in auto)
  moreover have "seq_inv al'"
    using assms(1) by (simp add: seq_inv_def same_batchD [OF same])
  moreover have "seq_ubatch nb al ub"
    using chain ub size by (simp add: seq_ubatch_def)
  ultimately show ?thesis using split by blast
qed

interpretation seq: ubatch_splitter "split_seq nb" seq_inv "seq_ubatch nb" for nb
proof
  fix al
  assume "unused al = {}"
  then show "split_seq nb al = Some (ubatch_nil, al)"
    using first_unused_none [of al] by (simp add: split_seq_def)
next
  fix al
  assume "seq_inv al" "unused al \<noteq> {}"
  then show "\<exists>ub al'. split_seq nb al = Some (ub, al') \<and> seq_inv al' \<and> takes al ub al' \<and> seq_ubatch nb al ub"
    by (rule split_seq_step)
next
  fix al al' ub
  assume "same_batch al al'" "seq_ubatch nb al' ub"
  then show "seq_ubatch nb al ub" by (simp add: seq_ubatch_def seq_chain_same)
qed

subsection \<open>\<open>split_equal\<close>: the invariant it needs\<close>

text \<open>
  The entries of one sequence set are used front to back: \<open>split_equal\<close> looks only for the
  first unused one.
\<close>

definition equal_inv :: "llama_batch_allocr \<Rightarrow> bool" where
  "equal_inv al \<longleftrightarrow> length (al_used al) = al_n_tokens al \<and> length (al_seq_set al) = al_n_tokens al
     \<and> length (al_seq_id al) = al_n_tokens al
     \<and> (\<forall>i < al_n_tokens al. al_seq_id al ! i \<noteq> [] \<and> al_seq_set al ! i \<noteq> {})
     \<and> al_seq_set_map al = (\<lambda>S. filter (\<lambda>i. al_seq_set al ! i = S) [0..<al_n_tokens al])
     \<and> (\<forall>S. \<exists>k. \<forall>j < length (set_idxs al S). al_used al ! (set_idxs al S ! j) \<longleftrightarrow> j < k)"

lemma set_idxs_mem: "equal_inv al \<Longrightarrow> i \<in> set (set_idxs al S) \<longleftrightarrow> i < al_n_tokens al \<and> al_seq_set al ! i = S"
  by (auto simp: equal_inv_def)

lemma set_idxs_sorted: "equal_inv al \<Longrightarrow> sorted_wrt (<) (set_idxs al S)"
  by (simp add: equal_inv_def sorted_wrt_filter)

lemma set_idxs_distinct: "equal_inv al \<Longrightarrow> distinct (set_idxs al S)"
  by (simp add: equal_inv_def)

lemma length_set_idxs: "equal_inv al \<Longrightarrow> length (set_idxs al S) \<le> al_n_tokens al"
  using length_filter_le [of "\<lambda>i. al_seq_set al ! i = S" "[0..<al_n_tokens al]"] by (simp add: equal_inv_def)

lemma takeWhile_prefix:
  assumes "\<exists>k. \<forall>j < length xs. P (xs ! j) \<longleftrightarrow> j < k"
  shows "\<forall>j < length xs. P (xs ! j) \<longleftrightarrow> j < length (takeWhile P xs)"
proof -
  obtain k where k: "\<forall>j < length xs. P (xs ! j) \<longleftrightarrow> j < k" using assms by blast
  have "takeWhile P xs = take k xs"
    by (rule takeWhile_eq_take_P_nth) (use k in auto)
  then show ?thesis using k by auto
qed

lemma equal_start_spec:
  assumes "equal_inv al" "i \<in> unused al" "al_seq_set al ! i = S"
  shows "\<exists>k. equal_start al S = Some k \<and> k < length (set_idxs al S)
    \<and> (\<forall>j < length (set_idxs al S). set_idxs al S ! j \<in> unused al \<longleftrightarrow> k \<le> j)"
proof -
  let ?L = "set_idxs al S" and ?k = "length (takeWhile (\<lambda>i. al_used al ! i) (set_idxs al S))"
  have pre: "\<forall>j < length ?L. al_used al ! (?L ! j) \<longleftrightarrow> j < ?k"
    by (rule takeWhile_prefix) (use assms(1) in \<open>unfold equal_inv_def, blast\<close>)
  have un: "?L ! j \<in> unused al \<longleftrightarrow> ?k \<le> j" if "j < length ?L" for j
  proof -
    have "?L ! j < al_n_tokens al" using set_idxs_mem [OF assms(1)] nth_mem [OF that] by blast
    then show ?thesis using pre that assms(1) by (auto simp: unused_def equal_inv_def)
  qed
  have "i \<in> set ?L" using assms by (simp add: set_idxs_mem unused_def equal_inv_def)
  then obtain j where "j < length ?L" "?L ! j = i" by (auto simp: in_set_conv_nth)
  then have "?k < length ?L" using un assms(2) by fastforce
  then show ?thesis using un by (simp add: equal_start_def)
qed

text \<open>The chosen sequence sets: disjoint, and each the set of some unused entry.\<close>

definition css_ok :: "llama_batch_allocr \<Rightarrow> nat set list \<Rightarrow> bool" where
  "css_ok al css \<longleftrightarrow> sorted_wrt (\<lambda>A B. A \<inter> B = {}) css
     \<and> (\<forall>S \<in> set css. \<exists>i \<in> unused al. al_seq_set al ! i = S)"

lemma equal_select_spec:
  assumes "equal_inv al" "css_ok al css" "length css \<le> nb" "\<forall>i \<in> set is. i < al_n_tokens al"
  shows "\<exists>css'. equal_select al nb sq is css lsi = Some css' \<and> css_ok al css' \<and> length css' \<le> nb + 1
    \<and> length css \<le> length css' \<and> (css = [] \<longrightarrow> (\<exists>i \<in> set is. i \<in> unused al) \<longrightarrow> css' \<noteq> [])"
  using assms(2-4)
proof (induction "is" arbitrary: css lsi)
  case Nil
  then show ?case by simp
next
  case (Cons i "is")
  have i: "i < al_n_tokens al" using Cons.prems by simp
  have sz: "i < length (al_used al)" "i < length (al_seq_set al)" "i < length (al_seq_id al)"
    using i assms(1) by (simp_all add: equal_inv_def)
  have "0 < length (concat (drop i (al_seq_id al)))"
    using i assms(1) by (simp add: equal_inv_def Cons_nth_drop_Suc [symmetric])
  then obtain s0 where s0: "seq_id_first al i = Some s0" by (auto simp: seq_id_first_def)
  let ?S = "al_seq_set al ! i"
  let ?add = "list_all (\<lambda>c. c \<inter> ?S = {}) css \<and> (sq \<and> css \<noteq> [] \<longrightarrow> s0 = lsi + 1)"
  have skip: "\<exists>css'. equal_select al nb sq is css lsi = Some css' \<and> css_ok al css' \<and> length css' \<le> nb + 1
    \<and> length css \<le> length css' \<and> (css = [] \<longrightarrow> (\<exists>i \<in> set is. i \<in> unused al) \<longrightarrow> css' \<noteq> [])"
    by (rule Cons.IH) (use Cons.prems in auto)
  show ?case
  proof (cases "al_used al ! i \<or> \<not> ?add")
    case True
    then have "equal_select al nb sq (i # is) css lsi = equal_select al nb sq is css lsi"
      using sz s0 by (auto simp: Let_def)
    moreover have "css = [] \<Longrightarrow> i \<notin> unused al" using True by (auto simp: unused_def)
    ultimately show ?thesis using skip by auto
  next
    case False
    then have add: "\<not> al_used al ! i" ?add by blast+
    have un: "i \<in> unused al" using add(1) sz(1) by (simp add: unused_def)
    have ok: "css_ok al (css @ [?S])"
      using Cons.prems(1) add(2) un by (auto simp: css_ok_def sorted_wrt_append list_all_iff)
    have run: "equal_select al nb sq (i # is) css lsi = (if length (css @ [?S]) > nb then Some (css @ [?S])
        else equal_select al nb sq is (css @ [?S]) s0)"
      using sz s0 add by (auto simp: Let_def)
    show ?thesis
    proof (cases "length (css @ [?S]) > nb")
      case True
      then show ?thesis using run ok Cons.prems(2) by auto
    next
      case False
      have "\<exists>css'. equal_select al nb sq is (css @ [?S]) s0 = Some css' \<and> css_ok al css' \<and> length css' \<le> nb + 1
        \<and> length (css @ [?S]) \<le> length css'
        \<and> (css @ [?S] = [] \<longrightarrow> (\<exists>i \<in> set is. i \<in> unused al) \<longrightarrow> css' \<noteq> [])"
        by (rule Cons.IH) (use Cons.prems ok False in auto)
      then show ?thesis using run False by auto
    qed
  qed
qed

lemma css_ok_distinct:
  assumes "equal_inv al" "css_ok al css"
  shows "distinct css"
proof -
  have "\<forall>S \<in> set css. S \<noteq> {}"
    using assms by (auto simp: css_ok_def equal_inv_def unused_def)
  moreover have "sorted_wrt (\<lambda>A B. A \<inter> B = {}) css"
    using assms(2) by (simp add: css_ok_def)
  ultimately show ?thesis
    by (induction css) auto
qed

subsection \<open>\<open>split_equal\<close>: the state of its loops\<close>

definition eq_ctx :: "llama_batch_allocr \<Rightarrow> nat set list \<Rightarrow> nat list \<Rightarrow> bool" where
  "eq_ctx al css ks \<longleftrightarrow> equal_inv al \<and> css_ok al css \<and> length ks = length css
     \<and> (\<forall>s < length css. ks ! s < length (set_idxs al (css ! s))
          \<and> (\<forall>j < length (set_idxs al (css ! s)). set_idxs al (css ! s) ! j \<in> unused al \<longleftrightarrow> ks ! s \<le> j))"

text \<open>The entries taken of sequence set \<open>s\<close> after \<open>rs ! s\<close> pushes.\<close>

definition blk :: "llama_batch_allocr \<Rightarrow> nat set list \<Rightarrow> nat list \<Rightarrow> nat list \<Rightarrow> nat \<Rightarrow> nat list" where
  "blk al css ks rs s = take (rs ! s) (drop (ks ! s) (set_idxs al (css ! s)))"

definition eq_rel :: "llama_batch_allocr \<Rightarrow> nat set list \<Rightarrow> nat list \<Rightarrow> nat list \<Rightarrow> equal_state \<Rightarrow> bool" where
  "eq_rel al css ks rs st \<longleftrightarrow> length rs = length css
     \<and> (\<forall>s < length css. ks ! s + rs ! s \<le> length (set_idxs al (css ! s)))
     \<and> es_cur st = map (\<lambda>s. ks ! s + rs ! s) [0..<length css]
     \<and> es_idxs st = map (blk al css ks rs) [0..<length css]
     \<and> same_batch al (es_al st)
     \<and> unused (es_al st) = unused al - (\<Union>s < length css. set (blk al css ks rs s))
     \<and> al_n_used (es_al st) = al_n_used al + (\<Sum>s < length css. rs ! s)
     \<and> al_out_ids (es_al st) = al_out_ids al"

lemma blk_update: "t \<noteq> s \<Longrightarrow> blk al css ks (rs[s := r]) t = blk al css ks rs t"
  by (simp add: blk_def)

lemma blk_push:
  "s < length rs \<Longrightarrow> ks ! s + rs ! s < length (set_idxs al (css ! s)) \<Longrightarrow>
   blk al css ks (rs[s := Suc (rs ! s)]) s = blk al css ks rs s @ [set_idxs al (css ! s) ! (ks ! s + rs ! s)]"
  by (simp add: blk_def take_Suc_conv_app_nth)

lemma length_blk:
  "ks ! s + rs ! s \<le> length (set_idxs al (css ! s)) \<Longrightarrow> length (blk al css ks rs s) = rs ! s"
  by (simp add: blk_def)

lemma blk_subset: "set (blk al css ks rs s) \<subseteq> set (set_idxs al (css ! s))"
  unfolding blk_def by (meson order_trans set_drop_subset set_take_subset)

lemma sum_update:
  "s < n \<Longrightarrow> n = length rs \<Longrightarrow> (\<Sum>t < n. rs[s := r] ! t) + rs ! s = (\<Sum>t < n. rs ! t) + (r :: nat)"
proof -
  assume s: "s < n" "n = length rs"
  have "(\<Sum>t < n. rs[s := r] ! t) = r + (\<Sum>t \<in> {..<n} - {s}. rs ! t)"
    using s by (subst sum.remove [of _ s]) (auto intro!: sum.cong)
  moreover have "(\<Sum>t < n. rs ! t) = rs ! s + (\<Sum>t \<in> {..<n} - {s}. rs ! t)"
    using s by (intro sum.remove) auto
  ultimately show ?thesis by simp
qed

lemma map_upt_update:
  "s < n \<Longrightarrow> (\<And>t. t < n \<Longrightarrow> t \<noteq> s \<Longrightarrow> g t = f t) \<Longrightarrow> (map f [0..<n])[s := g s] = map g [0..<n]"
  by (rule nth_equalityI) (auto simp: nth_list_update)

lemma equal_push_rel:
  assumes "eq_rel al css ks rs st" "s < length css"
    and "ks ! s + rs ! s < length (set_idxs al (css ! s))"
  shows "\<exists>st'. equal_push css s st = Some st' \<and> eq_rel al css ks (rs[s := Suc (rs ! s)]) st'"
proof -
  let ?m = "length css" and ?L = "set_idxs al (css ! s)" and ?rs = "rs[s := Suc (rs ! s)]"
  let ?idx = "?L ! (ks ! s + rs ! s)"
  have rel: "length rs = ?m" "es_cur st = map (\<lambda>s. ks ! s + rs ! s) [0..<?m]"
    "es_idxs st = map (blk al css ks rs) [0..<?m]" "same_batch al (es_al st)"
    "unused (es_al st) = unused al - (\<Union>s < ?m. set (blk al css ks rs s))"
    "al_n_used (es_al st) = al_n_used al + (\<Sum>s < ?m. rs ! s)" "al_out_ids (es_al st) = al_out_ids al"
    using assms(1) by (simp_all add: eq_rel_def)
  let ?st = "\<lparr>es_al = mark_used ?idx (es_al st), es_cur = (es_cur st)[s := ks ! s + rs ! s + 1],
           es_idxs = (es_idxs st)[s := es_idxs st ! s @ [?idx]]\<rparr>"
  have run: "equal_push css s st = Some ?st"
    using assms(2,3) by (simp add: equal_push_def rel(2,3) same_batchD(3) [OF rel(4)])
  have bp: "blk al css ks ?rs s = blk al css ks rs s @ [?idx]"
    by (rule blk_push) (use assms rel(1) in auto)
  have un: "(\<Union>t < ?m. set (blk al css ks ?rs t)) = insert ?idx (\<Union>t < ?m. set (blk al css ks rs t))"
  proof -
    have "set (blk al css ks ?rs t) = (if t = s then insert ?idx (set (blk al css ks rs t)) else set (blk al css ks rs t))" for t
      using bp by (simp add: blk_update)
    then show ?thesis using assms(2) by (auto split: if_splits)
  qed
  have "eq_rel al css ks ?rs ?st"
    unfolding eq_rel_def
  proof (intro conjI)
    show "\<forall>t < ?m. ks ! t + ?rs ! t \<le> length (set_idxs al (css ! t))"
    proof (intro allI impI)
      fix t assume "t < ?m"
      then show "ks ! t + ?rs ! t \<le> length (set_idxs al (css ! t))"
        using assms by (cases "t = s") (simp_all add: eq_rel_def)
    qed
    show "es_cur ?st = map (\<lambda>s. ks ! s + ?rs ! s) [0..<?m]"
      using map_upt_update [of s ?m "\<lambda>t. ks ! t + ?rs ! t" "\<lambda>t. ks ! t + rs ! t"] assms(2) rel(1,2) by simp
    show "es_idxs ?st = map (blk al css ks ?rs) [0..<?m]"
      using map_upt_update [of s ?m "blk al css ks ?rs" "blk al css ks rs"] assms(2) bp
      by (simp add: rel(3) blk_update)
    show "same_batch al (es_al ?st)"
      using same_batch_trans [OF rel(4) same_batch_mark] by simp
    show "unused (es_al ?st) = unused al - (\<Union>t < ?m. set (blk al css ks ?rs t))"
      by (auto simp: unused_mark rel(5) un)
    show "al_n_used (es_al ?st) = al_n_used al + (\<Sum>t < ?m. ?rs ! t)"
    proof -
      have "(\<Sum>t < ?m. ?rs ! t) + rs ! s = (\<Sum>t < ?m. rs ! t) + Suc (rs ! s)"
        by (rule sum_update) (use assms(2) rel(1) in simp_all)
      moreover have "al_n_used (es_al ?st) = Suc (al_n_used (es_al st))"
        by (simp add: mark_used_def)
      ultimately show ?thesis using rel(6) by linarith
    qed
  qed (simp_all add: rel(1,7) mark_used_def)
  with run show ?thesis by blast
qed

text \<open>One round of the expanding loop.\<close>

lemma equal_round_rel:
  assumes "eq_rel al css ks (replicate (length css) r) st"
    and "\<forall>s < length css. ks ! s + r < length (set_idxs al (css ! s))"
  shows "\<exists>st'. for_opt (equal_push css) [0..<length css] st = Some st'
    \<and> eq_rel al css ks (replicate (length css) (Suc r)) st'"
proof -
  let ?m = "length css"
  let ?rs = "\<lambda>k. map (\<lambda>s. if s < k then Suc r else r) [0..<?m]"
  have "\<exists>st'. for_opt (equal_push css) [0..<?m] st = Some st' \<and> eq_rel al css ks (?rs ?m) st'"
  proof (rule for_opt_upt_total [where P = "\<lambda>k. eq_rel al css ks (?rs k)"])
    show "eq_rel al css ks (?rs 0) st"
      using assms(1) by (simp add: map_replicate_const)
  next
    fix k st1 assume k: "k < ?m" and rel: "eq_rel al css ks (?rs k) st1"
    have "(?rs k)[k := Suc (?rs k ! k)] = ?rs (Suc k)"
      by (rule nth_equalityI) (use k in \<open>auto simp: nth_list_update less_Suc_eq\<close>)
    then show "\<exists>st'. equal_push css k st1 = Some st' \<and> eq_rel al css ks (?rs (Suc k)) st'"
      using equal_push_rel [OF rel k] assms(2) k by simp
  qed
  moreover have "?rs ?m = replicate ?m (Suc r)"
    by (rule nth_equalityI) auto
  ultimately show ?thesis by simp
qed

lemma equal_can_expand_rel:
  assumes "eq_rel al css ks (replicate (length css) r) st"
  shows "equal_can_expand css st \<longleftrightarrow> (\<forall>s < length css. ks ! s + r < length (set_idxs al (css ! s)))"
proof -
  have "es_cur st ! s = ks ! s + r" if "s < length css" for s
    using assms that by (simp add: eq_rel_def)
  moreover have "set_idxs (es_al st) = set_idxs al"
    using assms by (simp add: eq_rel_def same_batchD)
  ultimately show ?thesis
    by (auto simp: equal_can_expand_def list_all_iff not_le)
qed

text \<open>The loop ends, having taken the same number of entries of every set.\<close>

lemma equal_expand_rel:
  assumes "eq_rel al css ks (replicate (length css) r) st" "css \<noteq> []"
    and "length (set_idxs al (css ! 0)) < ks ! 0 + r + fuel"
    and "r = 0 \<or> Suc r * length css \<le> nb"
  shows "\<exists>r' st'. equal_expand fuel nb css st = Some st' \<and> eq_rel al css ks (replicate (length css) r') st'
    \<and> r \<le> r' \<and> ((\<forall>s < length css. ks ! s + r < length (set_idxs al (css ! s))) \<longrightarrow> r < r')
    \<and> r' * length css \<le> max nb (length css)"
  using assms
proof (induction fuel arbitrary: r st)
  case 0
  then show ?case by (auto simp: eq_rel_def)
next
  case (Suc fuel)
  let ?m = "length css"
  note can = equal_can_expand_rel [OF Suc.prems(1)]
  show ?case
  proof (cases "equal_can_expand css st")
    case False
    have "r * ?m \<le> max nb ?m"
    proof (cases "r = 0")
      case False
      then have "r * ?m + ?m \<le> nb" using Suc.prems(4) by simp
      then show ?thesis by simp
    qed simp
    then show ?thesis using False Suc.prems(1) can
      by (intro exI [of _ r] exI [of _ st]) auto
  next
    case True
    then have room: "\<forall>s < ?m. ks ! s + r < length (set_idxs al (css ! s))" using can by simp
    obtain st1 where st1: "for_opt (equal_push css) [0..<?m] st = Some st1"
      and rel1: "eq_rel al css ks (replicate ?m (Suc r)) st1"
      using equal_round_rel [OF Suc.prems(1) room] by blast
    have "length (es_idxs st1 ! 0) = Suc r"
    proof -
      have "0 < ?m" using Suc.prems(2) by simp
      then have "es_idxs st1 ! 0 = blk al css ks (replicate ?m (Suc r)) 0"
        using rel1 by (simp add: eq_rel_def)
      moreover have "ks ! 0 + replicate ?m (Suc r) ! 0 \<le> length (set_idxs al (css ! 0))"
        using rel1 \<open>0 < ?m\<close> by (simp add: eq_rel_def)
      ultimately show ?thesis using length_blk \<open>0 < ?m\<close> by fastforce
    qed
    then have run: "equal_expand (Suc fuel) nb css st
        = (if Suc (Suc r) * ?m > nb then Some st1 else equal_expand fuel nb css st1)"
      using True st1 by simp
    have small: "Suc r * ?m \<le> max nb ?m"
      using Suc.prems(4) by auto
    show ?thesis
    proof (cases "Suc (Suc r) * ?m > nb")
      case True
      then show ?thesis using run rel1 small
        by (intro exI [of _ "Suc r"] exI [of _ st1]) simp
    next
      case False
      have "length (set_idxs al (css ! 0)) < ks ! 0 + Suc r + fuel" using Suc.prems(3) by simp
      then obtain r' st' where "equal_expand fuel nb css st1 = Some st'"
        "eq_rel al css ks (replicate ?m r') st'" "Suc r \<le> r'" "r' * ?m \<le> max nb ?m"
        using Suc.IH [OF rel1 Suc.prems(2)] False by auto
      then show ?thesis using run False
        by (intro exI [of _ r'] exI [of _ st']) auto
    qed
  qed
qed

subsection \<open>\<open>split_equal\<close>: keeping the tails together\<close>

lemma unused_unmark: "i < length (al_used al) \<Longrightarrow> unused (unmark_used i al) = insert i (unused al)"
  by (auto simp: unused_def unmark_used_def nth_upd)

lemma length_used_unmark [simp]: "length (al_used (unmark_used i al)) = length (al_used al)"
  by (simp add: unmark_used_def)

lemma unused_fold_unmark:
  "\<forall>i \<in> set is. i < length (al_used al) \<Longrightarrow> unused (fold unmark_used is al) = unused al \<union> set is"
  by (induction "is" arbitrary: al) (auto simp: unused_unmark)

lemma n_used_fold_unmark: "al_n_used (fold unmark_used is al) = al_n_used al - length is"
  by (induction "is" arbitrary: al) (auto simp: unmark_used_def)

lemma out_ids_fold_unmark: "al_out_ids (fold unmark_used is al) = al_out_ids al"
  by (induction "is" arbitrary: al) (auto simp: unmark_used_def)

lemma same_batch_fold_unmark [simp]: "same_batch al (fold unmark_used is al)"
  by (induction "is" arbitrary: al) (auto intro: same_batch_trans [OF same_batch_unmark])

lemma eq_ctxD:
  assumes "eq_ctx al css ks"
  shows "equal_inv al" "css_ok al css" "length ks = length css"
    "s < length css \<Longrightarrow> ks ! s < length (set_idxs al (css ! s))"
    "s < length css \<Longrightarrow> j < length (set_idxs al (css ! s)) \<Longrightarrow>
       set_idxs al (css ! s) ! j \<in> unused al \<longleftrightarrow> ks ! s \<le> j"
  using assms by (simp_all add: eq_ctx_def)

lemma blk_distinct: "eq_ctx al css ks \<Longrightarrow> distinct (blk al css ks rs s)"
  unfolding blk_def by (simp add: set_idxs_distinct eq_ctxD(1))

lemma blk_disjoint:
  assumes "eq_ctx al css ks" "s < length css" "t < length css" "s \<noteq> t"
  shows "set (blk al css ks rs s) \<inter> set (blk al css ks rs' t) = {}"
proof -
  have "css ! s \<noteq> css ! t"
    using css_ok_distinct eq_ctxD(1,2) [OF assms(1)] assms(2-4) by (simp add: nth_eq_iff_index_eq)
  then have "set (set_idxs al (css ! s)) \<inter> set (set_idxs al (css ! t)) = {}"
    using set_idxs_mem [OF eq_ctxD(1) [OF assms(1)]] by auto
  then show ?thesis using blk_subset [of al css ks] by blast
qed

lemma blk_nth: "s < length css \<Longrightarrow> ks ! s + rs ! s \<le> length (set_idxs al (css ! s)) \<Longrightarrow>
    set (blk al css ks rs s) = (\<lambda>j. set_idxs al (css ! s) ! j) ` {ks ! s..<ks ! s + rs ! s}"
proof -
  assume "s < length css" "ks ! s + rs ! s \<le> length (set_idxs al (css ! s))"
  then have "blk al css ks rs s = map ((!) (set_idxs al (css ! s))) [ks ! s..<ks ! s + rs ! s]"
    unfolding blk_def by (intro nth_equalityI) simp_all
  then show ?thesis by simp
qed

lemma blk_unused:
  assumes "eq_ctx al css ks" "s < length css" "ks ! s + rs ! s \<le> length (set_idxs al (css ! s))"
  shows "set (blk al css ks rs s) \<subseteq> unused al"
  using assms by (auto simp: blk_nth eq_ctxD(5))

lemma blk_lt:
  assumes "eq_ctx al css ks" "i \<in> set (blk al css ks rs s)"
  shows "i < al_n_tokens al" "i < length (al_used al)"
proof -
  have "i \<in> set (set_idxs al (css ! s))" using assms(2) blk_subset by blast
  then show "i < al_n_tokens al" using set_idxs_mem [OF eq_ctxD(1) [OF assms(1)]] by simp
  then show "i < length (al_used al)" using eq_ctxD(1) [OF assms(1)] by (simp add: equal_inv_def)
qed

text \<open>Releasing the blocks of the deferred sequences.\<close>

lemma equal_release_eq:
  "fold (\<lambda>s st. fold (\<lambda>idx st. st\<lparr>es_al := unmark_used idx (es_al st)\<rparr>) (es_idxs st ! s) st) is (st :: equal_state)
    = st\<lparr>es_al := fold unmark_used (concat (map ((!) (es_idxs st)) is)) (es_al st)\<rparr>"
proof -
  have inner: "fold (\<lambda>idx st. st\<lparr>es_al := unmark_used idx (es_al st)\<rparr>) xs st
      = st\<lparr>es_al := fold unmark_used xs (es_al st)\<rparr>" for xs and st :: equal_state
    by (induction xs arbitrary: st) simp_all
  show ?thesis by (induction "is" arbitrary: st) (simp_all add: inner)
qed

lemma equal_release_rel:
  assumes "eq_ctx al css ks" "eq_rel al css ks rs st" "n \<le> length css"
  defines "st' \<equiv> equal_release n (length css) st"
  shows "es_idxs st' = es_idxs st" "same_batch al (es_al st')"
    "unused (es_al st') = unused al - (\<Union>s < n. set (blk al css ks rs s))"
    "al_n_used (es_al st') = al_n_used al + (\<Sum>s < n. rs ! s)" "al_out_ids (es_al st') = al_out_ids al"
proof -
  let ?m = "length css" and ?rel = "concat (map ((!) (es_idxs st)) [n..<length css])"
  have st': "st' = st\<lparr>es_al := fold unmark_used ?rel (es_al st)\<rparr>"
    unfolding st'_def equal_release_def by (rule equal_release_eq)
  have rel: "es_idxs st = map (blk al css ks rs) [0..<?m]" "same_batch al (es_al st)"
    "unused (es_al st) = unused al - (\<Union>s < ?m. set (blk al css ks rs s))"
    "al_n_used (es_al st) = al_n_used al + (\<Sum>s < ?m. rs ! s)"
    and fit: "\<forall>s < ?m. ks ! s + rs ! s \<le> length (set_idxs al (css ! s))"
    using assms(2) by (simp_all add: eq_rel_def)
  have map_blk: "map ((!) (es_idxs st)) [n..<?m] = map (blk al css ks rs) [n..<?m]"
    by (rule map_cong) (auto simp: rel(1))
  have rel_set: "set ?rel = (\<Union>s \<in> {n..<?m}. set (blk al css ks rs s))"
    unfolding map_blk by simp
  have rel_len: "length ?rel = (\<Sum>s = n..<?m. rs ! s)"
  proof -
    have "length ?rel = (\<Sum>s \<leftarrow> [n..<?m]. length (blk al css ks rs s))"
      unfolding map_blk by (simp add: length_concat comp_def)
    also have "\<dots> = (\<Sum>s \<leftarrow> [n..<?m]. rs ! s)"
      by (rule arg_cong [where f = sum_list], rule map_cong) (use fit in \<open>auto intro!: length_blk\<close>)
    also have "\<dots> = (\<Sum>s = n..<?m. rs ! s)"
      by (simp add: interv_sum_list_conv_sum_set_nat)
    finally show ?thesis .
  qed
  show "es_idxs st' = es_idxs st" by (simp add: st')
  show "al_out_ids (es_al st') = al_out_ids al"
    using assms(2) by (simp add: st' out_ids_fold_unmark eq_rel_def)
  show "same_batch al (es_al st')"
    using same_batch_trans [OF rel(2) same_batch_fold_unmark] by (simp add: st')
  have "\<forall>i \<in> set ?rel. i < length (al_used (es_al st))"
    unfolding rel_set same_batchD(6) [OF rel(2)] using blk_lt(2) [OF assms(1)] by blast
  moreover have e: "es_al st' = fold unmark_used ?rel (es_al st)" by (simp add: st')
  ultimately have un: "unused (es_al st') = (unused al - (\<Union>s < ?m. set (blk al css ks rs s)))
      \<union> (\<Union>s \<in> {n..<?m}. set (blk al css ks rs s))"
    using unused_fold_unmark [of ?rel "es_al st"] by (simp only: e rel(3) rel_set)
  show "unused (es_al st') = unused al - (\<Union>s < n. set (blk al css ks rs s))"
  proof (rule set_eqI)
    fix i
    have sub: "i \<in> unused al" if "i \<in> set (blk al css ks rs s)" "s < ?m" for s
      using blk_unused [OF assms(1)] fit that by blast
    have one: "s = t" if "i \<in> set (blk al css ks rs s)" "i \<in> set (blk al css ks rs t)" "s < ?m" "t < ?m" for s t
      using blk_disjoint [OF assms(1) that(3,4)] that(1,2) by blast
    show "i \<in> unused (es_al st') \<longleftrightarrow> i \<in> unused al - (\<Union>s < n. set (blk al css ks rs s))"
    proof (cases "\<exists>s < ?m. i \<in> set (blk al css ks rs s)")
      case True
      then obtain s where s: "s < ?m" "i \<in> set (blk al css ks rs s)" by blast
      then have "i \<in> set (blk al css ks rs t) \<longleftrightarrow> t = s" if "t < ?m" for t
        using one that by blast
      then show ?thesis using s sub assms(3) by (auto simp: un)
    next
      case False
      then show ?thesis using assms(3) by (auto simp: un)
    qed
  qed
  have "(\<Sum>s < ?m. rs ! s) = (\<Sum>s < n. rs ! s) + (\<Sum>s = n..<?m. rs ! s)"
    using sum.atLeastLessThan_concat [of 0 n ?m "(!) rs"] assms(3) by (simp add: atLeast0LessThan)
  then show "al_n_used (es_al st') = al_n_used al + (\<Sum>s < n. rs ! s)"
    by (simp add: st' n_used_fold_unmark rel(4) rel_len)
qed

lemma n_remaining_rel:
  assumes "eq_rel al css ks rs st" "s < length css"
  shows "n_remaining css st s = length (set_idxs al (css ! s)) - (ks ! s + rs ! s)"
proof -
  have "es_cur st ! s = ks ! s + rs ! s" "set_idxs (es_al st) = set_idxs al"
    using assms by (simp_all add: eq_rel_def same_batchD)
  then show ?thesis by (simp add: n_remaining_def)
qed

lemma equal_complete_rel:
  assumes "eq_rel al css ks rs st" "css \<noteq> []"
  shows "\<exists>st'. equal_complete css st = Some st'
    \<and> eq_rel al css ks (rs[0 := length (set_idxs al (css ! 0)) - ks ! 0]) st'"
proof -
  let ?L = "length (set_idxs al (css ! 0))"
  have m: "0 < length css" "length rs = length css" "ks ! 0 + rs ! 0 \<le> ?L"
    using assms by (simp_all add: eq_rel_def)
  let ?k = "?L - (ks ! 0 + rs ! 0)"
  have "\<exists>st'. for_opt (\<lambda>_. equal_push css 0) [0..<?k] st = Some st' \<and> eq_rel al css ks (rs[0 := rs ! 0 + ?k]) st'"
  proof (rule for_opt_upt_total [where P = "\<lambda>k. eq_rel al css ks (rs[0 := rs ! 0 + k])"])
    show "eq_rel al css ks (rs[0 := rs ! 0 + 0]) st" using assms(1) by simp
  next
    fix k st1 assume k: "k < ?k" and rel: "eq_rel al css ks (rs[0 := rs ! 0 + k]) st1"
    have "ks ! 0 + rs[0 := rs ! 0 + k] ! 0 < ?L" using k m by simp
    from equal_push_rel [OF rel m(1) this] show "\<exists>st'. equal_push css 0 st1 = Some st'
        \<and> eq_rel al css ks (rs[0 := rs ! 0 + Suc k]) st'"
      using m by simp
  qed
  moreover have "rs ! 0 + ?k = ?L - ks ! 0" using m(3) by simp
  ultimately show ?thesis
    using n_remaining_rel [OF assms(1) m(1)] by (simp add: equal_complete_def)
qed

lemma equal_pop_rel:
  assumes "eq_ctx al css ks" "eq_rel al css ks rs st" "css \<noteq> []" "0 < rs ! 0"
  shows "\<exists>st'. equal_pop st = Some st' \<and> eq_rel al css ks (rs[0 := rs ! 0 - 1]) st'"
proof -
  let ?m = "length css" and ?rs = "rs[0 := rs ! 0 - 1]"
  have m: "0 < ?m" using assms(3) by simp
  have rel: "length rs = ?m" "\<forall>s < ?m. ks ! s + rs ! s \<le> length (set_idxs al (css ! s))"
    "es_cur st = map (\<lambda>s. ks ! s + rs ! s) [0..<?m]"
    "es_idxs st = map (blk al css ks rs) [0..<?m]" "same_batch al (es_al st)"
    "unused (es_al st) = unused al - (\<Union>s < ?m. set (blk al css ks rs s))"
    "al_n_used (es_al st) = al_n_used al + (\<Sum>s < ?m. rs ! s)" "al_out_ids (es_al st) = al_out_ids al"
    using assms(2) by (simp_all add: eq_rel_def)
  let ?b = "blk al css ks rs 0" and ?b' = "blk al css ks ?rs 0"
  have b_len: "length ?b = rs ! 0" using rel(2) m by (intro length_blk) simp
  then have b_ne: "?b \<noteq> []" using assms(4) by auto
  have b': "?b' = butlast ?b"
    unfolding butlast_conv_take b_len using m rel(1) by (simp add: blk_def)
  have b: "?b = ?b' @ [List.last ?b]" unfolding b' using b_ne by simp
  let ?i = "List.last ?b"
  have i_in: "?i \<in> set ?b" using b_ne by simp
  have i_new: "?i \<notin> set ?b'"
    using blk_distinct [OF assms(1), of rs 0] b by (metis distinct_append disjoint_insert(1) list.set(2))
  have i_other: "?i \<notin> set (blk al css ks rs t)" if "t < ?m" "t \<noteq> 0" for t
    using blk_disjoint [OF assms(1) m that(1)] that(2) i_in by blast
  have i_un: "?i \<in> unused al"
    using blk_unused [OF assms(1) m] rel(2) m i_in by blast
  have i_lt: "?i < length (al_used (es_al st))"
    using i_un by (simp add: unused_def same_batchD [OF rel(5)])
  let ?st = "\<lparr>es_al = unmark_used ?i (es_al st), es_cur = (es_cur st)[0 := ks ! 0 + rs ! 0 - 1],
           es_idxs = (es_idxs st)[0 := butlast ?b]\<rparr>"
  have run: "equal_pop st = Some ?st"
    using m assms(4) b_ne by (simp add: equal_pop_def rel(3,4))
  have other: "blk al css ks ?rs t = blk al css ks rs t" if "t \<noteq> 0" for t
    using that by (rule blk_update)
  have un: "(\<Union>t < ?m. set (blk al css ks rs t)) = insert ?i (\<Union>t < ?m. set (blk al css ks ?rs t))"
    "?i \<notin> (\<Union>t < ?m. set (blk al css ks ?rs t))"
  proof -
    have sets: "set (blk al css ks rs t) = (if t = 0 then insert ?i (set (blk al css ks ?rs t)) else set (blk al css ks ?rs t))" for t
    proof (cases "t = 0")
      case True
      have "set ?b = insert ?i (set ?b')" by (subst b) simp
      then show ?thesis using True by simp
    next
      case False
      then show ?thesis using other [OF False] by (simp only: if_False)
    qed
    show "(\<Union>t < ?m. set (blk al css ks rs t)) = insert ?i (\<Union>t < ?m. set (blk al css ks ?rs t))"
    proof (rule set_eqI)
      fix x
      have "(\<exists>t < ?m. x \<in> set (blk al css ks rs t)) \<longleftrightarrow> x = ?i \<or> (\<exists>t < ?m. x \<in> set (blk al css ks ?rs t))"
        using sets m by (metis insert_iff)
      then show "x \<in> (\<Union>t < ?m. set (blk al css ks rs t)) \<longleftrightarrow> x \<in> insert ?i (\<Union>t < ?m. set (blk al css ks ?rs t))"
        by (simp only: UN_iff insert_iff lessThan_iff Bex_def)
    qed
    show "?i \<notin> (\<Union>t < ?m. set (blk al css ks ?rs t))"
    proof
      assume "?i \<in> (\<Union>t < ?m. set (blk al css ks ?rs t))"
      then obtain t where t: "t < ?m" "?i \<in> set (blk al css ks ?rs t)" by blast
      then show False using i_new i_other other by (cases "t = 0") auto
    qed
  qed
  have "eq_rel al css ks ?rs ?st"
    unfolding eq_rel_def
  proof (intro conjI)
    show "\<forall>t < ?m. ks ! t + ?rs ! t \<le> length (set_idxs al (css ! t))"
    proof (intro allI impI)
      fix t assume "t < ?m"
      then show "ks ! t + ?rs ! t \<le> length (set_idxs al (css ! t))"
        using rel(1,2) m by (cases "t = 0") (auto intro: le_trans [OF diff_le_self])
    qed
    show "es_cur ?st = map (\<lambda>s. ks ! s + ?rs ! s) [0..<?m]"
      using map_upt_update [of 0 ?m "\<lambda>t. ks ! t + ?rs ! t" "\<lambda>t. ks ! t + rs ! t"] m assms(4) rel(1,3) by simp
    show "es_idxs ?st = map (blk al css ks ?rs) [0..<?m]"
    proof -
      have "(map (blk al css ks rs) [0..<?m])[0 := ?b'] = map (blk al css ks ?rs) [0..<?m]"
        by (rule map_upt_update [OF m]) (rule other)
      then show ?thesis by (simp only: rel(4) b' equal_state.simps)
    qed
    show "same_batch al (es_al ?st)"
      using same_batch_trans [OF rel(5) same_batch_unmark] by simp
    show "unused (es_al ?st) = unused al - (\<Union>t < ?m. set (blk al css ks ?rs t))"
      using un i_un by (simp add: unused_unmark [OF i_lt] rel(6)) blast
    show "al_n_used (es_al ?st) = al_n_used al + (\<Sum>t < ?m. ?rs ! t)"
    proof -
      have "(\<Sum>t < ?m. ?rs ! t) + rs ! 0 = (\<Sum>t < ?m. rs ! t) + (rs ! 0 - 1)"
        by (rule sum_update) (use m rel(1) in simp_all)
      moreover have "al_n_used (es_al ?st) = al_n_used (es_al st) - 1"
        by (simp add: unmark_used_def)
      ultimately show ?thesis using rel(7) assms(4) by linarith
    qed
  qed (simp_all add: rel(1,8) unmark_used_def)
  with run show ?thesis by blast
qed

lemma equal_truncate_rel:
  assumes "eq_ctx al css ks" "eq_rel al css ks rs st" "css \<noteq> []"
    and "d = nkt - n_remaining css st 0" "d \<le> rs ! 0"
  shows "\<exists>st'. equal_truncate css nkt st = Some st' \<and> eq_rel al css ks (rs[0 := rs ! 0 - d]) st'"
proof -
  have m: "0 < length css" "length rs = length css" using assms(2,3) by (simp_all add: eq_rel_def)
  have "\<exists>st'. for_opt (\<lambda>_. equal_pop) [0..<d] st = Some st' \<and> eq_rel al css ks (rs[0 := rs ! 0 - d]) st'"
  proof (rule for_opt_upt_total [where P = "\<lambda>k. eq_rel al css ks (rs[0 := rs ! 0 - k])"])
    show "eq_rel al css ks (rs[0 := rs ! 0 - 0]) st" using assms(2) by simp
  next
    fix k st1 assume k: "k < d" and rel: "eq_rel al css ks (rs[0 := rs ! 0 - k]) st1"
    have "0 < rs[0 := rs ! 0 - k] ! 0" using k m assms(5) by simp
    from equal_pop_rel [OF assms(1) rel assms(3) this] show "\<exists>st'. equal_pop st1 = Some st'
        \<and> eq_rel al css ks (rs[0 := rs ! 0 - Suc k]) st'"
      using m by simp
  qed
  then show ?thesis by (simp add: equal_truncate_def assms(4))
qed

subsection \<open>\<open>split_equal\<close> meets the contract\<close>

lemma ex3I: "P a b c \<Longrightarrow> \<exists>x y z. P x y z"
  by blast

text \<open>
  What the selected part of the loops' state must provide: \<open>n\<close> sequence sets with \<open>r\<close> entries
  each, every one of them ending at its last entry or at least \<open>n_keep_tail\<close> before it.
\<close>

definition eq_kept :: "nat \<Rightarrow> llama_batch_allocr \<Rightarrow> nat set list \<Rightarrow> nat list \<Rightarrow> nat \<Rightarrow> nat \<Rightarrow> equal_state \<Rightarrow> bool" where
  "eq_kept nkt al css ks n r st \<longleftrightarrow> 1 \<le> n \<and> n \<le> length css \<and> 1 \<le> r
     \<and> (\<forall>s < n. ks ! s + r \<le> length (set_idxs al (css ! s))
          \<and> (ks ! s + r = length (set_idxs al (css ! s)) \<or> ks ! s + r + nkt \<le> length (set_idxs al (css ! s))))
     \<and> take n (es_idxs st) = map (blk al css ks (replicate (length css) r)) [0..<n]
     \<and> same_batch al (es_al st)
     \<and> unused (es_al st) = unused al - (\<Union>s < n. set (blk al css ks (replicate (length css) r) s))
     \<and> al_n_used (es_al st) = al_n_used al + n * r \<and> al_out_ids (es_al st) = al_out_ids al"

lemma blk_cong: "rs ! s = rs' ! s \<Longrightarrow> blk al css ks rs s = blk al css ks rs' s"
  by (simp add: blk_def)

text \<open>Releasing all but \<open>n\<close> sequences whose blocks have the same length.\<close>

lemma eq_kept_release:
  assumes "eq_ctx al css ks" "eq_rel al css ks rs st" "1 \<le> n" "n \<le> length css" "1 \<le> r"
    and "\<forall>s < n. rs ! s = r"
    and "\<forall>s < n. ks ! s + r = length (set_idxs al (css ! s)) \<or> ks ! s + r + nkt \<le> length (set_idxs al (css ! s))"
  shows "eq_kept nkt al css ks n r (equal_release n (length css) st)"
proof -
  note rel = equal_release_rel [OF assms(1,2,4)]
  have fit: "\<forall>s < length css. ks ! s + rs ! s \<le> length (set_idxs al (css ! s))"
    and idxs: "es_idxs st = map (blk al css ks rs) [0..<length css]"
    using assms(2) by (simp_all add: eq_rel_def)
  have same: "blk al css ks rs s = blk al css ks (replicate (length css) r) s" if "s < n" for s
    by (rule blk_cong) (use assms(4,6) that in simp)
  have "take n (es_idxs st) = map (blk al css ks rs) [0..<n]"
    using assms(4) by (simp add: idxs take_map)
  also have "\<dots> = map (blk al css ks (replicate (length css) r)) [0..<n]"
    by (rule map_cong) (simp_all add: same)
  finally have take: "take n (es_idxs st) = map (blk al css ks (replicate (length css) r)) [0..<n]" .
  have un: "(\<Union>s < n. set (blk al css ks rs s)) = (\<Union>s < n. set (blk al css ks (replicate (length css) r) s))"
    by (rule SUP_cong) (simp_all add: same)
  have sum: "(\<Sum>s < n. rs ! s) = n * r" using assms(6) by simp
  show ?thesis
    unfolding eq_kept_def rel(1) take rel(3) un rel(4) sum rel(5)
    using assms(3-7) rel(2) fit by auto
qed

lemma equal_n_keep_prefix:
  assumes "s < equal_n_keep css st nkt"
  shows "n_remaining css st s = 0 \<or> nkt \<le> n_remaining css st s"
proof -
  let ?P = "\<lambda>s. \<not> (n_remaining css st s \<noteq> 0 \<and> n_remaining css st s < nkt)"
  have "takeWhile ?P [0..<length css] ! s \<in> set (takeWhile ?P [0..<length css])"
    using assms by (intro nth_mem) (simp add: equal_n_keep_def)
  then have "?P (takeWhile ?P [0..<length css] ! s)" by (rule set_takeWhileD [THEN conjunct2])
  moreover have "takeWhile ?P [0..<length css] ! s = s"
    using assms length_takeWhile_le [of ?P "[0..<length css]"]
    by (simp add: takeWhile_nth equal_n_keep_def)
  ultimately show ?thesis by auto
qed

lemma equal_n_keep_le: "equal_n_keep css st nkt \<le> length css"
  using length_takeWhile_le [of _ "[0..<length css]"] by (simp add: equal_n_keep_def)

lemma equal_n_keep_0:
  assumes "equal_n_keep css st nkt = 0" "css \<noteq> []"
  shows "n_remaining css st 0 \<noteq> 0" "n_remaining css st 0 < nkt"
proof -
  have "[0..<length css] = 0 # [1..<length css]" using assms(2) by (simp add: upt_conv_Cons)
  then show "n_remaining css st 0 \<noteq> 0" "n_remaining css st 0 < nkt"
    using assms(1) by (auto simp: equal_n_keep_def split: if_splits)
qed

lemma equal_keep_tail_spec:
  assumes ctx: "eq_ctx al css ks" and rel: "eq_rel al css ks (replicate (length css) r) st"
    and "css \<noteq> []" "1 \<le> r" "r * length css \<le> max nb (length css)" "length css \<le> nb + 1"
    and "0 < nkt \<longrightarrow> nkt < nb"
  shows "\<exists>n r' st'. equal_keep_tail nb nkt css st = Some (n, st') \<and> eq_kept nkt al css ks n r' st'
    \<and> n * r' \<le> max nb (length css)"
proof -
  let ?m = "length css" and ?rs = "replicate (length css) r"
  let ?L = "\<lambda>s. length (set_idxs al (css ! s))"
  have m: "0 < ?m" using assms(3) by simp
  have fit: "ks ! s + r \<le> ?L s" if "s < ?m" for s using rel that by (simp add: eq_rel_def)
  have rem: "n_remaining css st s = ?L s - (ks ! s + r)" if "s < ?m" for s
    using n_remaining_rel [OF rel that] that by simp
  have idxs0: "length (es_idxs st ! 0) = r"
    using rel m fit by (simp add: eq_rel_def length_blk)
  let ?nk = "equal_n_keep css st nkt"
  consider (off) "nkt = 0" | (keep) "0 < nkt" "0 < ?nk" | (complete) "0 < nkt" "?nk = 0" "r + n_remaining css st 0 \<le> nb"
    | (truncate) "0 < nkt" "?nk = 0" "nb < r + n_remaining css st 0" by linarith
  then show ?thesis
  proof cases
    case off
    have "eq_kept nkt al css ks ?m r st"
    proof -
      have "equal_release ?m ?m st = st" by (simp add: equal_release_def)
      moreover have "eq_kept nkt al css ks ?m r (equal_release ?m ?m st)"
        by (rule eq_kept_release [OF ctx rel]) (use m assms(4) off fit in \<open>auto simp: Suc_le_eq\<close>)
      ultimately show ?thesis by simp
    qed
    then show ?thesis using off assms(5)
      by (intro ex3I [where a = ?m and b = r and c = st])
        (simp add: Let_def equal_keep_tail_def mult.commute)
  next
    case keep
    have "eq_kept nkt al css ks ?nk r (equal_release ?nk ?m st)"
    proof (rule eq_kept_release [OF ctx rel])
      show "\<forall>s < ?nk. ks ! s + r = ?L s \<or> ks ! s + r + nkt \<le> ?L s"
      proof (intro allI impI)
        fix s assume s: "s < ?nk"
        then have "s < ?m" using equal_n_keep_le [of css st nkt] by simp
        with equal_n_keep_prefix [OF s] fit [of s] rem [of s] keep(1)
        show "ks ! s + r = ?L s \<or> ks ! s + r + nkt \<le> ?L s" by linarith
      qed
    qed (use keep equal_n_keep_le [of css st nkt] assms(4) in \<open>auto simp: Suc_le_eq\<close>)
    moreover have "?nk * r \<le> max nb ?m"
      using le_trans [OF mult_le_mono2 [OF equal_n_keep_le [of css st nkt], of r] assms(5)]
      by (subst mult.commute)
    ultimately show ?thesis using keep assms(7)
      by (intro ex3I [where a = ?nk and b = r and c = "equal_release ?nk ?m st"])
        (simp add: Let_def equal_keep_tail_def)
  next
    case complete
    obtain st1 where st1: "equal_complete css st = Some st1"
      and rel1: "eq_rel al css ks (?rs[0 := ?L 0 - ks ! 0]) st1"
      using equal_complete_rel [OF rel assms(3)] by blast
    have "eq_kept nkt al css ks 1 (?L 0 - ks ! 0) (equal_release 1 ?m st1)"
      by (rule eq_kept_release [OF ctx rel1]) (use m fit [of 0] assms(4) in \<open>auto simp: Suc_le_eq\<close>)
    moreover have "?L 0 - ks ! 0 \<le> nb" using complete(3) rem [OF m] fit [OF m] by simp
    ultimately show ?thesis using complete assms(7) st1
      by (intro ex3I [where a = 1 and b = "?L 0 - ks ! 0" and c = "equal_release 1 ?m st1"])
        (simp add: Let_def equal_keep_tail_def idxs0)
  next
    case truncate
    let ?d = "nkt - n_remaining css st 0"
    note nk0 = equal_n_keep_0 [OF truncate(2) assms(3)]
    have d: "?d < r" using truncate(1,3) assms(7) nk0 by linarith
    obtain st1 where st1: "equal_truncate css nkt st = Some st1"
      and rel1: "eq_rel al css ks (?rs[0 := r - ?d]) st1"
      using equal_truncate_rel [OF ctx rel assms(3) refl, of nkt] d m by auto
    have "ks ! 0 + (r - ?d) + nkt \<le> ?L 0" using d nk0 rem [OF m] fit [OF m] by linarith
    then have "eq_kept nkt al css ks 1 (r - ?d) (equal_release 1 ?m st1)"
      by (intro eq_kept_release [OF ctx rel1]) (use m d in \<open>auto simp: Suc_le_eq\<close>)
    moreover have "r - ?d \<le> max nb ?m"
    proof -
      have "r * 1 \<le> r * ?m" by (rule mult_le_mono2) (use m in \<open>simp add: Suc_le_eq\<close>)
      then show ?thesis using assms(5) by linarith
    qed
    ultimately show ?thesis using truncate assms(7) st1
      by (intro ex3I [where a = 1 and b = "r - ?d" and c = "equal_release 1 ?m st1"])
        (simp add: Let_def equal_keep_tail_def idxs0)
  qed
qed

text \<open>Using the next entries of some sequence sets keeps the invariant.\<close>

lemma blk_index:
  assumes "eq_ctx al css ks" "t < length css" "ks ! t + rs ! t \<le> length (set_idxs al (css ! t))"
    and "j < length (set_idxs al S)"
  shows "set_idxs al S ! j \<in> set (blk al css ks rs t) \<longleftrightarrow> S = css ! t \<and> ks ! t \<le> j \<and> j < ks ! t + rs ! t"
proof
  assume in_blk: "set_idxs al S ! j \<in> set (blk al css ks rs t)"
  have inv: "equal_inv al" using eq_ctxD(1) [OF assms(1)] .
  have "set_idxs al S ! j \<in> set (set_idxs al (css ! t))" using in_blk blk_subset by blast
  moreover have "set_idxs al S ! j \<in> set (set_idxs al S)" using assms(4) by simp
  ultimately have S: "S = css ! t" using set_idxs_mem [OF inv] by metis
  obtain j' where j': "ks ! t \<le> j'" "j' < ks ! t + rs ! t" "set_idxs al S ! j = set_idxs al (css ! t) ! j'"
    using in_blk by (auto simp: blk_nth [OF assms(2,3)])
  have "j' < length (set_idxs al (css ! t))" using j'(2) assms(3) by simp
  then have "j = j'"
    using j'(3) assms(4) set_idxs_distinct [OF inv, of S] unfolding S by (simp add: nth_eq_iff_index_eq)
  then show "S = css ! t \<and> ks ! t \<le> j \<and> j < ks ! t + rs ! t" using S j' by simp
next
  assume "S = css ! t \<and> ks ! t \<le> j \<and> j < ks ! t + rs ! t"
  then show "set_idxs al S ! j \<in> set (blk al css ks rs t)" by (simp add: blk_nth [OF assms(2,3)])
qed

lemma equal_inv_advance:
  assumes "eq_ctx al css ks" "n \<le> length css" "same_batch al al'"
    and "\<forall>s < n. ks ! s + rs ! s \<le> length (set_idxs al (css ! s))"
    and "unused al' = unused al - (\<Union>s < n. set (blk al css ks rs s))"
  shows "equal_inv al'"
proof -
  have inv: "equal_inv al" using eq_ctxD(1) [OF assms(1)] .
  note same = same_batchD [OF assms(3)]
  have pre: "\<exists>k. \<forall>j < length (set_idxs al S). al_used al' ! (set_idxs al S ! j) \<longleftrightarrow> j < k" for S
  proof -
    let ?L = "set_idxs al S"
    have used: "al_used al' ! (?L ! j) \<longleftrightarrow> ?L ! j \<notin> unused al \<or> (\<exists>s < n. ?L ! j \<in> set (blk al css ks rs s))"
      if "j < length ?L" for j
    proof -
      have "?L ! j < al_n_tokens al" using set_idxs_mem [OF inv] nth_mem [OF that] by blast
      then have "?L ! j < length (al_used al')" using inv same(6) by (simp add: equal_inv_def)
      then show ?thesis using used_iff_unused assms(5) by auto
    qed
    have blk: "?L ! j \<in> set (blk al css ks rs s) \<longleftrightarrow> S = css ! s \<and> ks ! s \<le> j \<and> j < ks ! s + rs ! s"
      if "j < length ?L" "s < n" for j s
      by (rule blk_index [OF assms(1)]) (use that assms(2,4) in auto)
    show ?thesis
    proof (cases "\<exists>s < n. S = css ! s")
      case True
      then obtain s where s: "s < n" "S = css ! s" by blast
      have one: "t = s" if "t < n" "S = css ! t" for t
        using css_ok_distinct [OF inv eq_ctxD(2) [OF assms(1)]] s that assms(2)
        by (simp add: nth_eq_iff_index_eq)
      have "al_used al' ! (?L ! j) \<longleftrightarrow> j < ks ! s + rs ! s" if j: "j < length ?L" for j
      proof -
        have "(\<exists>t < n. ?L ! j \<in> set (blk al css ks rs t)) \<longleftrightarrow> ks ! s \<le> j \<and> j < ks ! s + rs ! s"
          using blk [OF j] s one by blast
        moreover have "?L ! j \<in> unused al \<longleftrightarrow> ks ! s \<le> j"
          using eq_ctxD(5) [OF assms(1), of s j] s assms(2) j by simp
        ultimately show ?thesis using used [OF j] by auto
      qed
      then show ?thesis by blast
    next
      case False
      obtain k where k: "\<forall>j < length ?L. al_used al ! (?L ! j) \<longleftrightarrow> j < k"
        using inv unfolding equal_inv_def by blast
      have "al_used al' ! (?L ! j) \<longleftrightarrow> j < k" if j: "j < length ?L" for j
      proof -
        have "?L ! j < length (al_used al)"
          using set_idxs_mem [OF inv] nth_mem [OF j] inv by (simp add: equal_inv_def)
        then show ?thesis using used [OF j] blk [OF j] False k j used_iff_unused by blast
      qed
      then show ?thesis by blast
    qed
  qed
  show ?thesis
    unfolding equal_inv_def same using inv pre by (simp add: equal_inv_def)
qed

text \<open>The start of the loops.\<close>

lemma equal_starts:
  assumes "equal_inv al" "css_ok al css"
  shows "\<exists>ks. for_opt (\<lambda>S cur. do { k \<leftarrow> equal_start al S; Some (cur @ [k]) }) css [] = Some ks
    \<and> eq_ctx al css ks"
proof -
  define f where "f S = the (equal_start al S)" for S
  have f: "equal_start al S = Some (f S) \<and> f S < length (set_idxs al S)
      \<and> (\<forall>j < length (set_idxs al S). set_idxs al S ! j \<in> unused al \<longleftrightarrow> f S \<le> j)" if "S \<in> set css" for S
  proof -
    have "\<forall>S \<in> set css. \<exists>i \<in> unused al. al_seq_set al ! i = S"
      using assms(2) by (simp add: css_ok_def)
    from bspec [OF this that] obtain i where "i \<in> unused al" "al_seq_set al ! i = S"
      by (rule bexE)
    from equal_start_spec [OF assms(1) this] obtain k where k: "equal_start al S = Some k"
      "k < length (set_idxs al S)"
      "\<forall>j < length (set_idxs al S). set_idxs al S ! j \<in> unused al \<longleftrightarrow> k \<le> j"
      by (elim exE conjE) (rule that)
    have fS: "f S = k" by (simp only: f_def k(1) option.sel)
    show ?thesis unfolding fS using k by blast
  qed
  have "for_opt (\<lambda>S cur. do { k \<leftarrow> equal_start al S; Some (cur @ [k]) }) cs acc = Some (acc @ map f cs)"
    if "set cs \<subseteq> set css" for cs acc
    using that by (induction cs arbitrary: acc) (simp_all add: f)
  from this [of css "[]"] have "for_opt (\<lambda>S cur. do { k \<leftarrow> equal_start al S; Some (cur @ [k]) }) css [] = Some (map f css)"
    by simp
  moreover have "eq_ctx al css (map f css)"
    using assms f by (simp add: eq_ctx_def)
  ultimately show ?thesis by blast
qed

lemma eq_rel_start:
  assumes "eq_ctx al css ks"
  shows "eq_rel al css ks (replicate (length css) 0)
    \<lparr>es_al = al, es_cur = ks, es_idxs = replicate (length css) []\<rparr>"
proof -
  have "ks = map (\<lambda>s. ks ! s + replicate (length css) 0 ! s) [0..<length css]"
    by (rule nth_equalityI) (use eq_ctxD(3) [OF assms] in simp_all)
  moreover have "replicate (length css) [] = map (blk al css ks (replicate (length css) 0)) [0..<length css]"
    by (rule nth_equalityI) (simp_all add: blk_def)
  ultimately show ?thesis
    using eq_ctxD(4) [OF assms] by (simp add: eq_rel_def blk_def less_imp_le)
qed

text \<open>
  A ubatch of \<open>split_equal\<close>: a block of \<open>r\<close> consecutive entries of each of some pairwise
  disjoint sequence sets; no block ends inside the last \<open>n_keep_tail\<close> entries of its set.
\<close>

definition equal_ubatch :: "nat \<Rightarrow> nat \<Rightarrow> llama_batch_allocr \<Rightarrow> llama_ubatch \<Rightarrow> bool" where
  "equal_ubatch nb nkt al ub \<longleftrightarrow> (\<exists>css ks r. css \<noteq> [] \<and> 1 \<le> r \<and> length ks = length css
     \<and> sorted_wrt (\<lambda>A B. A \<inter> B = {}) css
     \<and> (\<forall>s < length css. ks ! s + r = length (set_idxs al (css ! s))
          \<or> ks ! s + r + nkt \<le> length (set_idxs al (css ! s)))
     \<and> ub_batch_idxs ub = concat (map (\<lambda>s. take r (drop (ks ! s) (set_idxs al (css ! s)))) [0..<length css])
     \<and> ub_n_seqs ub = length css \<and> ub_n_seq_tokens ub = r \<and> ub_n_tokens ub = length css * r
     \<and> length css * r \<le> nb + 1)"

definition equal_ready :: "bool \<Rightarrow> llama_batch_allocr \<Rightarrow> bool" where
  "equal_ready sequential al \<longleftrightarrow> equal_inv al \<and> \<not> (sequential \<and> al_has_cpl al)"

lemma split_equal_step:
  assumes "equal_ready sq al" "unused al \<noteq> {}" "0 < nkt \<longrightarrow> nkt < nb"
  shows "\<exists>ub al'. split_equal nb sq nkt al = Some (ub, al') \<and> equal_ready sq al'
    \<and> takes al ub al' \<and> equal_ubatch nb nkt al ub"
proof -
  have inv: "equal_inv al" and cpl: "\<not> (sq \<and> al_has_cpl al)" using assms(1) by (simp_all add: equal_ready_def)
  obtain i where i: "i \<in> unused al" using assms(2) by blast
  then have i_lt: "i < al_n_tokens al" using inv by (simp add: unused_def equal_inv_def)
  have "css_ok al []" "length ([] :: nat set list) \<le> nb" "\<forall>i \<in> set [0..<al_n_tokens al]. i < al_n_tokens al"
    by (simp_all add: css_ok_def)
  from equal_select_spec [OF inv this, of sq "-1"] obtain css where
    sel: "equal_select al nb sq [0..<al_n_tokens al] [] (-1) = Some css" and ok: "css_ok al css"
    and size: "length css \<le> nb + 1" and ne: "css \<noteq> []"
    using i i_lt by (elim exE conjE) (auto intro: that)
  let ?m = "length css"
  obtain ks where start: "for_opt (\<lambda>S cur. do { k \<leftarrow> equal_start al S; Some (cur @ [k]) }) css [] = Some ks"
    and ctx: "eq_ctx al css ks"
    using equal_starts [OF inv ok] by blast
  have m: "0 < ?m" using ne by simp
  let ?st = "\<lparr>es_al = al, es_cur = ks, es_idxs = replicate ?m []\<rparr>"
  have "length (set_idxs al (css ! 0)) < ks ! 0 + 0 + Suc (al_n_tokens al)"
    using length_set_idxs [OF inv, of "css ! 0"] by simp
  from equal_expand_rel [OF eq_rel_start [OF ctx] ne this disjI1 [OF refl], of nb] obtain r st1 where
    expand: "equal_expand (Suc (al_n_tokens al)) nb css ?st = Some st1"
    and rel: "eq_rel al css ks (replicate ?m r) st1" and r2: "r * ?m \<le> max nb ?m"
    and "(\<forall>s < ?m. ks ! s + 0 < length (set_idxs al (css ! s))) \<longrightarrow> 0 < r"
    by (elim exE conjE) (rule that)
  then have r: "1 \<le> r" using eq_ctxD(4) [OF ctx] by simp
  obtain n r' st2 where keep: "equal_keep_tail nb nkt css st1 = Some (n, st2)"
    and kept: "eq_kept nkt al css ks n r' st2" and total: "n * r' \<le> max nb ?m"
    using equal_keep_tail_spec [OF ctx rel ne r r2 size assms(3)] by blast
  let ?bl = "\<lambda>s. blk al css ks (replicate ?m r') s"
  let ?idxs = "concat (map ?bl [0..<n])"
  have k: "1 \<le> n" "n \<le> ?m" "1 \<le> r'" "same_batch al (es_al st2)"
    "take n (es_idxs st2) = map ?bl [0..<n]"
    "unused (es_al st2) = unused al - (\<Union>s < n. set (?bl s))"
    "al_n_used (es_al st2) = al_n_used al + n * r'" "al_out_ids (es_al st2) = al_out_ids al"
    and fit: "\<forall>s < n. ks ! s + r' \<le> length (set_idxs al (css ! s))"
    and tail: "\<forall>s < n. ks ! s + r' = length (set_idxs al (css ! s)) \<or> ks ! s + r' + nkt \<le> length (set_idxs al (css ! s))"
    using kept by (simp_all add: eq_kept_def)
  have fit': "\<forall>s < n. ks ! s + replicate ?m r' ! s \<le> length (set_idxs al (css ! s))"
    using fit k(2) by simp
  have len: "length ?idxs = n * r'"
  proof -
    have "\<forall>b \<in> set (map ?bl [0..<n]). length b = r'"
      using fit' k(2) by (auto simp: length_blk)
    then show ?thesis using length_concat_rows [of "map ?bl [0..<n]" r'] by simp
  qed
  have set_idxs: "set ?idxs = (\<Union>s < n. set (?bl s))" by (simp add: atLeast0LessThan)
  have sub: "set ?idxs \<subseteq> unused al"
    unfolding set_idxs
  proof (rule UN_least)
    fix s assume "s \<in> {..<n}"
    then have "s < n" by simp
    then show "set (?bl s) \<subseteq> unused al"
      by (intro blk_unused [OF ctx]) (use fit' k(2) in auto)
  qed
  have dist: "distinct ?idxs"
  proof -
    have "distinct (concat (map ?bl [0..<j]))" if "j \<le> n" for j
      using that
    proof (induction j)
      case (Suc j)
      have "set (?bl j) \<inter> set (?bl t) = {}" if "t < j" for t
        by (rule blk_disjoint [OF ctx]) (use that Suc.prems k(2) in auto)
      then have "set (?bl j) \<inter> set (concat (map ?bl [0..<j])) = {}"
        by (simp add: Int_UN_distrib)
      then show ?case using Suc blk_distinct [OF ctx] by auto
    qed simp
    then show ?thesis by simp
  qed
  have in_batch: "\<forall>i \<in> set ?idxs. i < al_n_tokens (es_al st2)"
    unfolding same_batchD(1) [OF k(4)] set_idxs using blk_lt(1) [OF ctx] by blast
  have n0: "n \<noteq> 0" and md: "length ?idxs mod n = 0" using k(1) by (simp_all add: len)
  obtain ub al' where ub: "ubatch_add ?idxs n True (es_al st2) = Some (ub, al')"
    "ub_batch_idxs ub = ?idxs" "ub_n_tokens ub = length ?idxs" "ub_n_seqs ub = n"
    "ub_n_seq_tokens ub = length ?idxs div n"
    and al': "al' = es_al st2\<lparr>al_out_ids := al_out_ids (es_al st2) @ filter (\<lambda>i. al_output (es_al st2) ! i) ?idxs\<rparr>"
    using ubatch_add_Some [OF n0 md in_batch, of True] by (elim exE conjE) (rule that)
  have split: "split_equal nb sq nkt al = Some (ub, al')"
    unfolding split_equal_def if_not_P [OF cpl]
    using ne by (simp add: sel start expand keep k(5) ub(1) del: equal_expand.simps)
  have "0 < length ?idxs" unfolding len using k(1,3) by simp
  then have idxs_ne: "?idxs \<noteq> []" by (rule length_greater_0_conv [THEN iffD1])
  have takes: "takes al ub al'"
    by (rule takesI [OF ub(1) idxs_ne dist sub k(4)]) (simp_all only: k(6,7,8) set_idxs len)
  have same: "same_batch al al'" unfolding al' by (rule same_batch_trans [OF k(4) same_batch_out])
  have "equal_inv al'"
    by (rule equal_inv_advance [OF ctx k(2) same fit']) (simp only: al' unused_out k(6))
  then have ready: "equal_ready sq al'"
    using cpl by (simp add: equal_ready_def same_batchD [OF same])
  have blocks: "map ?bl [0..<n] = map (\<lambda>s. take r' (drop (take n ks ! s) (set_idxs al (take n css ! s)))) [0..<n]"
    using k(2) by (intro map_cong) (simp_all add: blk_def)
  have good: "equal_ubatch nb nkt al ub"
    unfolding equal_ubatch_def
  proof (intro exI conjI)
    show "take n css \<noteq> []" using k(1,2) by auto
    show "1 \<le> r'" by (rule k(3))
    show "length (take n ks) = length (take n css)" using eq_ctxD(3) [OF ctx] by simp
    show "sorted_wrt (\<lambda>A B. A \<inter> B = {}) (take n css)"
      using ok by (simp add: css_ok_def sorted_wrt_take)
    show "\<forall>s < length (take n css). take n ks ! s + r' = length (set_idxs al (take n css ! s))
          \<or> take n ks ! s + r' + nkt \<le> length (set_idxs al (take n css ! s))"
      using tail k(2) by simp
    show "ub_batch_idxs ub = concat (map (\<lambda>s. take r' (drop (take n ks ! s) (set_idxs al (take n css ! s))))
        [0..<length (take n css)])"
      unfolding ub(2) blocks using k(2) by (simp add: min_absorb2)
    show "length (take n css) * r' \<le> nb + 1" using total size k(2) by simp
  qed (use ub k(1,2) len in simp_all)
  show ?thesis using split ready takes good by blast
qed

text \<open>The splitter of a fixed configuration; \<open>GGML_ASSERT(n_ubatch > n_keep_tail)\<close> holds.\<close>

definition equal_splitter :: "nat \<Rightarrow> bool \<Rightarrow> nat \<Rightarrow> llama_batch_allocr \<Rightarrow> bool" where
  "equal_splitter nb sequential nkt al \<longleftrightarrow> equal_ready sequential al \<and> (0 < nkt \<longrightarrow> nkt < nb)"

lemma equal_select_none:
  "unused al = {} \<Longrightarrow> length (al_used al) = al_n_tokens al \<Longrightarrow> \<forall>i \<in> set is. i < al_n_tokens al \<Longrightarrow>
    equal_select al nb sq is [] lsi = Some []"
  by (induction "is") (auto simp: unused_def)

interpretation equal: ubatch_splitter "split_equal nb sq nkt" "equal_splitter nb sq nkt" "equal_ubatch nb nkt"
  for nb sq nkt
proof
  fix al
  assume "equal_splitter nb sq nkt al" "unused al = {}"
  then show "split_equal nb sq nkt al = Some (ubatch_nil, al)"
    using equal_select_none [of al "[0..<al_n_tokens al]" nb sq "-1"]
    by (simp add: split_equal_def equal_splitter_def equal_ready_def equal_inv_def)
next
  fix al
  assume "equal_splitter nb sq nkt al" "unused al \<noteq> {}"
  then show "\<exists>ub al'. split_equal nb sq nkt al = Some (ub, al') \<and> equal_splitter nb sq nkt al'
      \<and> takes al ub al' \<and> equal_ubatch nb nkt al ub"
    using split_equal_step [of sq al nkt nb] unfolding equal_splitter_def by blast
next
  fix al al' ub
  assume "same_batch al al'" "equal_ubatch nb nkt al' ub"
  then show "equal_ubatch nb nkt al ub" unfolding equal_ubatch_def by (simp only: same_batchD)
qed

subsection \<open>A batch that \<open>init\<close> accepted is ready for every split\<close>

lemma alloc_init_ready:
  assumes "alloc_init ord b oa al = Some (True, al')" "\<forall>t \<in> set (be_tokens b). ord (et_seq_ids t) \<noteq> []"
  shows "simple_inv al'" "seq_inv al'" "equal_inv al'" "unused al' = {..<length (be_tokens b)}"
    "al_n_tokens al' = length (be_tokens b)"
proof -
  note n = alloc_init_shape(2) [OF assms(1)] and used = alloc_init_split(1) [OF assms(1)]
  note sets = alloc_init_sets(1,2) [OF assms(1)] and ids = alloc_init_ids(1) [OF assms(1)]
  show "al_n_tokens al' = length (be_tokens b)" by (rule n)
  show "simple_inv al'" unfolding simple_inv_def n used by (intro conjI exI [of _ 0]) simp_all
  show "seq_inv al'" by (simp add: seq_inv_def n used sets)
  show "unused al' = {..<length (be_tokens b)}" by (auto simp: unused_def used)
  have "flat_ids ord b ! i \<noteq> []" if "i < length (be_tokens b)" for i
    using assms(2) that by (simp add: flat_ids_def)
  moreover have "al_seq_set_map al' = (\<lambda>S. filter (\<lambda>i. al_seq_set al' ! i = S) [0..<al_n_tokens al'])"
    unfolding sets n by (intro ext filter_cong) simp_all
  moreover have "al_used al' ! (set_idxs al' S ! j) \<longleftrightarrow> j < 0" if "j < length (set_idxs al' S)" for S j
  proof -
    have "set_idxs al' S ! j \<in> set (set_idxs al' S)" using that by (rule nth_mem)
    then have "set_idxs al' S ! j < length (be_tokens b)" unfolding sets by simp
    then show ?thesis by (simp add: used)
  qed
  ultimately show "equal_inv al'"
    unfolding equal_inv_def by (auto simp: n used sets(1) ids)
qed

subsection \<open>Properties\<close>

lemma ubatch_add_token:
  assumes "ubatch_add idxs n eq al = Some (ub, al')" "al_has_token al" "al_is_embd_vec al = []"
  shows "ub_token ub = Some (map (\<lambda>i. al_token_vec al ! i) idxs)"
  using assms by (auto simp: ubatch_add_def failure_simps Let_def split: prod.splits)

lemma simple_drain_order:
  assumes "simple_inv al" "drain (split_simple nb) al = Some (ubs, al')"
  shows "concat (map ub_batch_idxs ubs) = sorted_list_of_set (unused al)
    \<and> (\<forall>ub \<in> set (butlast ubs). ub_n_tokens ub = max nb 1) \<and> (\<forall>ub \<in> set ubs. ub_n_tokens ub \<le> max nb 1)"
  using assms
proof (induction "card (unused al)" arbitrary: al ubs rule: less_induct)
  case less
  show ?case
  proof (cases "unused al = {}")
    case True
    then have "drain (split_simple nb) al = Some ([], al)"
      using simple.split_done [OF less.prems(1)] by (subst drain.simps) (simp add: ubatch_nil_def)
    then show ?thesis using less.prems(2) True by simp
  next
    case False
    obtain ub al1 where st: "split_simple nb al = Some (ub, al1)" "simple_inv al1" "takes al ub al1" "simple_chunk nb al ub"
      using simple.split_step [OF less.prems(1) False, where nb = nb] by (elim exE conjE) (rule that)
    have t: "ub_batch_idxs ub \<noteq> []" "set (ub_batch_idxs ub) \<subseteq> unused al" "same_batch al al1"
      "unused al1 = unused al - set (ub_batch_idxs ub)" "ub_n_tokens ub = length (ub_batch_idxs ub)"
      using st(3) by (simp_all add: takes_def)
    obtain ubs1 where rec: "drain (split_simple nb) al1 = Some (ubs1, al')" "ubs = ub # ubs1"
      using less.prems(2) st(1) t(1,5) by (subst (asm) drain.simps) (auto simp: failure_simps)
    obtain k where k: "unused al = {k..<al_n_tokens al}"
    proof -
      obtain k where "\<forall>i < al_n_tokens al. al_used al ! i \<longleftrightarrow> i < k" "length (al_used al) = al_n_tokens al"
        using less.prems(1) by (auto simp: simple_inv_def)
      then have "unused al = {k..<al_n_tokens al}" by (auto simp: unused_def)
      then show ?thesis using that by blast
    qed
    obtain k1 where k1: "unused al1 = {k1..<al_n_tokens al}"
    proof -
      obtain k where "\<forall>i < al_n_tokens al1. al_used al1 ! i \<longleftrightarrow> i < k" "length (al_used al1) = al_n_tokens al1"
        using st(2) by (auto simp: simple_inv_def)
      then have "unused al1 = {k..<al_n_tokens al1}" by (auto simp: unused_def)
      then show ?thesis using that same_batchD(1) [OF t(3)] by simp
    qed
    obtain i e where ie: "i < e" "e \<le> al_n_tokens al" "ub_batch_idxs ub = [i..<e]"
      "e - i = max nb 1 \<or> e = al_n_tokens al \<and> e - i \<le> max nb 1"
      using st(4) by (auto simp: simple_chunk_def)
    have diff: "{k1..<al_n_tokens al} = {k..<al_n_tokens al} - {i..<e}"
      using t(4) k k1 ie(3) by simp
    have sub: "{i..<e} \<subseteq> {k..<al_n_tokens al}" using t(2) k ie(3) by simp
    then have ki: "k \<le> i" using ie(1) by auto
    have "\<not> k < i"
    proof
      assume ki: "k < i"
      then have "k \<in> {k1..<al_n_tokens al}" unfolding diff using ie by auto
      then have "i \<in> {k1..<al_n_tokens al}" using ki ie by auto
      then show False unfolding diff using ie(1) by auto
    qed
    then have ik: "i = k" using ki by simp
    have un1: "unused al1 = {e..<al_n_tokens al}"
      unfolding k1 diff using ie ki ik by auto
    have "card (unused al1) < card (unused al)"
      unfolding un1 k using ie ik by simp
    from less.hyps [OF this st(2) rec(1)] have IH: "concat (map ub_batch_idxs ubs1) = sorted_list_of_set (unused al1)"
      "\<forall>ub \<in> set (butlast ubs1). ub_n_tokens ub = max nb 1" "\<forall>ub \<in> set ubs1. ub_n_tokens ub \<le> max nb 1"
      by blast+
    have order: "concat (map ub_batch_idxs ubs) = sorted_list_of_set (unused al)"
    proof -
      have "concat (map ub_batch_idxs ubs) = [k..<e] @ [e..<al_n_tokens al]"
        using IH(1) rec(2) ie(3) ik un1 by simp
      also have "\<dots> = sorted_list_of_set (unused al)"
        using upt_add_eq_append [of k e "al_n_tokens al - e"] ie ik by (simp add: k)
      finally show ?thesis .
    qed
    have full: "ub_n_tokens ub = max nb 1" if "ubs1 \<noteq> []"
    proof -
      have "unused al1 \<noteq> {}"
      proof
        assume "unused al1 = {}"
        then have "drain (split_simple nb) al1 = Some ([], al1)"
          using simple.split_done [OF st(2)] by (subst drain.simps) (simp add: ubatch_nil_def)
        then show False using rec(1) that by simp
      qed
      then show ?thesis using ie t(5) un1 by auto
    qed
    show ?thesis using order full IH(2,3) ie t(5) unfolding rec(2) by auto
  qed
qed

text \<open>
  C6: \<open>split_simple\<close> cuts the batch into consecutive chunks. Draining a batch that \<open>init\<close>
  accepted ends, hands out the entries in their order, every ubatch but the last one full
  (\<open>n_ubatch\<close> entries), and leaves in \<open>out_ids\<close> the indices of the outputs in batch order; all
  entries are then counted as used. For a batch of token entries the token arrays of the
  ubatches, one after the other, are the token ids of the batch.
\<close>
theorem split_simple_in_order:
  assumes "alloc_init ord b oa al = Some (True, al')"
  shows "\<exists>ubs al''. drain (split_simple nb) al' = Some (ubs, al'')
    \<and> concat (map ub_batch_idxs ubs) = [0..<length (be_tokens b)]
    \<and> (\<forall>ub \<in> set (butlast ubs). ub_n_tokens ub = max nb 1) \<and> (\<forall>ub \<in> set ubs. ub_n_tokens ub \<le> max nb 1)
    \<and> al_out_ids al'' = filter (\<lambda>i. al_output al' ! i) [0..<length (be_tokens b)]
    \<and> al_n_used al'' = length (be_tokens b)
    \<and> (text_batch (be_tokens b) \<longrightarrow> concat (map (\<lambda>ub. the (ub_token ub)) ubs) = map et_id (be_tokens b))"
proof -
  let ?n = "length (be_tokens b)"
  note shape = alloc_init_shape [OF assms] and split = alloc_init_split [OF assms]
  note rows = alloc_init_rows [OF assms]
  have inv: "simple_inv al'"
    unfolding simple_inv_def shape(2) split(1) by (intro conjI exI [of _ 0]) simp_all
  have un: "unused al' = {..<?n}" by (auto simp: unused_def split(1))
  obtain ubs al'' where run: "drain (split_simple nb) al' = Some (ubs, al'')" and del: "delivers al' ubs al''"
    using simple.drain_delivers [OF inv] by blast
  note order = simple_drain_order [OF inv run]
  have idxs: "concat (map ub_batch_idxs ubs) = [0..<?n]"
    using order by (simp add: un lessThan_atLeast0)
  have toks: "concat (map (\<lambda>ub. the (ub_token ub)) ubs) = map et_id (be_tokens b)" if kind: "text_batch (be_tokens b)"
  proof -
    have ne: "be_tokens b \<noteq> []" using shape(1) by simp
    have kinds: "\<not> mixed_batch (be_tokens b)" "\<not> embd_batch (be_tokens b)"
      using kind ne by (auto simp: text_batch_def mixed_batch_def embd_batch_def neq_Nil_conv)
    have tok: "the (ub_token ub) = map (\<lambda>i. et_id (be_tokens b ! i)) (ub_batch_idxs ub)" if ub: "ub \<in> set ubs" for ub
    proof -
      obtain al1 n eq al2 where same: "same_batch al' al1" and add: "ubatch_add (ub_batch_idxs ub) n eq al1 = Some (ub, al2)"
        using del ub by (auto simp: delivers_def built_from_def)
      have bp: "batch_part al1 = batch_part al'" using same by (simp add: same_batch_def)
      have "al_has_token al1 = al_has_token al'" "al_is_embd_vec al1 = al_is_embd_vec al'"
        "al_token_vec al1 = al_token_vec al'"
        using arg_cong [OF bp, of al_has_token] arg_cong [OF bp, of al_is_embd_vec] arg_cong [OF bp, of al_token_vec]
        by (simp_all add: batch_part_def)
      then have f: "al_has_token al1" "al_is_embd_vec al1 = []" "al_token_vec al1 = map et_id (be_tokens b)"
        using rows(1,3,5) kinds by simp_all
      have lt: "\<forall>i \<in> set (ub_batch_idxs ub). i < ?n"
      proof -
        have "set (ub_batch_idxs ub) \<subseteq> set (concat (map ub_batch_idxs ubs))" using ub by auto
        then show ?thesis unfolding idxs by auto
      qed
      have "ub_token ub = Some (map (\<lambda>i. al_token_vec al1 ! i) (ub_batch_idxs ub))"
        by (rule ubatch_add_token [OF add f(1,2)])
      then show ?thesis using lt by (simp add: f(3))
    qed
    have "concat (map (\<lambda>ub. the (ub_token ub)) ubs)
        = concat (map (map (\<lambda>i. et_id (be_tokens b ! i)) \<circ> ub_batch_idxs) ubs)"
      by (rule arg_cong [where f = concat], rule map_cong) (simp_all add: tok)
    also have "\<dots> = map (\<lambda>i. et_id (be_tokens b ! i)) (concat (map ub_batch_idxs ubs))"
      by (simp add: map_concat comp_def)
    also have "\<dots> = map et_id (be_tokens b)"
      unfolding idxs by (rule nth_equalityI) simp_all
    finally show ?thesis .
  qed
  have outs: "al_out_ids al'' = filter (\<lambda>i. al_output al' ! i) [0..<?n]" "al_n_used al'' = ?n"
    using del by (simp_all add: delivers_def idxs split(2,3))
  show ?thesis using run idxs order outs toks by blast
qed

theorem split_simple_in_order_witness:
  "\<exists>al' ubs al''. alloc_init sorted_list_of_set batch_example False (allocr_new 1 False) = Some (True, al')
    \<and> drain (split_simple 2) al' = Some (ubs, al'') \<and> concat (map ub_batch_idxs ubs) = [0, 1, 2]"
proof -
  obtain al' where al': "alloc_init sorted_list_of_set batch_example False (allocr_new 1 False) = Some (True, al')"
    using alloc_init_new [OF batch_example_input batch_example_valid] by blast
  have "length (be_tokens batch_example) = 3" "[0..<3] = [0, 1, 2 :: nat]"
    by (simp_all add: batch_example_def upt_rec)
  then show ?thesis
    using split_simple_in_order [OF al', of 2] al' by auto
qed

text \<open>
  C7: \<open>split_seq\<close> hands out each entry once, in ubatches of one sequence set. Draining a batch
  that \<open>init\<close> accepted ends; every entry is in exactly one ubatch; a ubatch has at most
  \<open>n_ubatch\<close> entries, in batch order, each with a sequence set that is a subset of the one
  before it; \<open>out_ids\<close> lists the outputs in the order they were handed out.
\<close>
theorem split_seq_partition:
  assumes "alloc_init ord b oa al = Some (True, al')"
  shows "\<exists>ubs al''. drain (split_seq nb) al' = Some (ubs, al'')
    \<and> distinct (concat (map ub_batch_idxs ubs))
    \<and> set (concat (map ub_batch_idxs ubs)) = {..<length (be_tokens b)}
    \<and> al_out_ids al'' = filter (\<lambda>i. al_output al' ! i) (concat (map ub_batch_idxs ubs))
    \<and> (\<forall>ub \<in> set ubs. ub_n_seqs ub = 1 \<and> 0 < ub_n_tokens ub \<and> ub_n_tokens ub \<le> max nb 1
        \<and> sorted_wrt (\<lambda>i j. i < j \<and> al_seq_set al' ! j \<subseteq> al_seq_set al' ! i) (ub_batch_idxs ub))"
proof -
  note split = alloc_init_split [OF assms]
  have inv: "seq_inv al'"
    by (simp add: seq_inv_def alloc_init_shape(2) [OF assms] split(1) alloc_init_sets(1) [OF assms])
  have un: "unused al' = {..<length (be_tokens b)}" by (auto simp: unused_def split(1))
  obtain ubs al'' where run: "drain (split_seq nb) al' = Some (ubs, al'')" and del: "delivers al' ubs al''"
    and good: "\<forall>ub \<in> set ubs. seq_ubatch nb al' ub"
    using seq.drain_delivers [OF inv] by blast
  have "\<forall>ub \<in> set ubs. ub_n_seqs ub = 1 \<and> 0 < ub_n_tokens ub \<and> ub_n_tokens ub \<le> max nb 1
        \<and> sorted_wrt (\<lambda>i j. i < j \<and> al_seq_set al' ! j \<subseteq> al_seq_set al' ! i) (ub_batch_idxs ub)"
    using del good by (simp add: delivers_def seq_ubatch_def seq_chain_def)
  then show ?thesis using run del un by (auto simp: delivers_def split(3))
qed

theorem split_seq_partition_witness:
  "\<exists>al' ubs al''. alloc_init sorted_list_of_set batch_example False (allocr_new 1 False) = Some (True, al')
    \<and> drain (split_seq 2) al' = Some (ubs, al'') \<and> set (concat (map ub_batch_idxs ubs)) = {0, 1, 2}"
proof -
  obtain al' where al': "alloc_init sorted_list_of_set batch_example False (allocr_new 1 False) = Some (True, al')"
    using alloc_init_new [OF batch_example_input batch_example_valid] by blast
  have "{..<length (be_tokens batch_example)} = {0, 1, 2}"
    by (auto simp: batch_example_def)
  then show ?thesis
    using split_seq_partition [OF al', of 2] al' by auto
qed

lemma equal_ubatch_blocks:
  assumes "equal_ubatch nb nkt al ub"
  shows "0 < ub_n_tokens ub \<and> ub_n_tokens ub \<le> nb + 1
    \<and> (\<exists>css ks. sorted_wrt (\<lambda>A B. A \<inter> B = {}) css \<and> length css = ub_n_seqs ub
        \<and> ub_batch_idxs ub = concat (map (\<lambda>s. take (ub_n_seq_tokens ub) (drop (ks ! s) (set_idxs al (css ! s))))
            [0..<ub_n_seqs ub])
        \<and> ub_n_tokens ub = ub_n_seqs ub * ub_n_seq_tokens ub)"
proof -
  obtain css ks r where "css \<noteq> []" "1 \<le> r" "sorted_wrt (\<lambda>A B. A \<inter> B = {}) css"
    "ub_batch_idxs ub = concat (map (\<lambda>s. take r (drop (ks ! s) (set_idxs al (css ! s)))) [0..<length css])"
    "ub_n_seqs ub = length css" "ub_n_seq_tokens ub = r" "ub_n_tokens ub = length css * r"
    "length css * r \<le> nb + 1"
    using assms unfolding equal_ubatch_def by blast
  then show ?thesis by auto
qed

lemma split_equal_refused:
  "sequential \<Longrightarrow> al_has_cpl al \<Longrightarrow> drain (split_equal nb sequential n_keep_tail) al = Some ([], al)"
  by (subst drain.simps) (simp add: split_equal_def ubatch_nil_def)

text \<open>
  C4: \<open>split_equal\<close> hands out each entry once, in ubatches of equal-length blocks. Take a batch
  that \<open>init\<close> accepted, in which every entry has a sequence id (the batch API gives it one), and
  an \<open>n_keep_tail\<close> that is zero or below \<open>n_ubatch\<close> (the code asserts it). A sequential split of
  coupled sequences is refused: nothing is handed out and nothing changes. In every other case
  draining ends; every entry is in exactly one ubatch; \<open>out_ids\<close> lists the outputs in the order
  handed out; a ubatch is a block of \<open>r\<close> consecutive entries of each of \<open>n_seqs\<close> pairwise
  disjoint sequence sets, with at most \<open>n_ubatch + 1\<close> entries.
\<close>
theorem split_equal_partition:
  assumes "alloc_init ord b oa al = Some (True, al')" "\<forall>t \<in> set (be_tokens b). ord (et_seq_ids t) \<noteq> []"
    and "n_keep_tail = 0 \<or> n_keep_tail < nb"
  shows "if sequential \<and> al_has_cpl al' then drain (split_equal nb sequential n_keep_tail) al' = Some ([], al')
    else \<exists>ubs al''. drain (split_equal nb sequential n_keep_tail) al' = Some (ubs, al'')
    \<and> distinct (concat (map ub_batch_idxs ubs))
    \<and> set (concat (map ub_batch_idxs ubs)) = {..<length (be_tokens b)}
    \<and> al_out_ids al'' = filter (\<lambda>i. al_output al' ! i) (concat (map ub_batch_idxs ubs))
    \<and> (\<forall>ub \<in> set ubs. 0 < ub_n_tokens ub \<and> ub_n_tokens ub \<le> nb + 1
        \<and> (\<exists>css ks. sorted_wrt (\<lambda>A B. A \<inter> B = {}) css \<and> length css = ub_n_seqs ub
            \<and> ub_batch_idxs ub = concat (map (\<lambda>s. take (ub_n_seq_tokens ub) (drop (ks ! s) (set_idxs al' (css ! s))))
                [0..<ub_n_seqs ub])
            \<and> ub_n_tokens ub = ub_n_seqs ub * ub_n_seq_tokens ub))"
proof (cases "sequential \<and> al_has_cpl al'")
  case True
  then show ?thesis using split_equal_refused by simp
next
  case ok: False
  note split = alloc_init_split [OF assms(1)] and ready = alloc_init_ready [OF assms(1,2)]
  have "equal_splitter nb sequential n_keep_tail al'"
    using ready(3) assms(3) ok by (auto simp: equal_splitter_def equal_ready_def)
  then obtain ubs al'' where run: "drain (split_equal nb sequential n_keep_tail) al' = Some (ubs, al'')"
    and del: "delivers al' ubs al''" and good: "\<forall>ub \<in> set ubs. equal_ubatch nb n_keep_tail al' ub"
    using equal.drain_delivers by blast
  have "\<forall>ub \<in> set ubs. 0 < ub_n_tokens ub \<and> ub_n_tokens ub \<le> nb + 1
        \<and> (\<exists>css ks. sorted_wrt (\<lambda>A B. A \<inter> B = {}) css \<and> length css = ub_n_seqs ub
            \<and> ub_batch_idxs ub = concat (map (\<lambda>s. take (ub_n_seq_tokens ub) (drop (ks ! s) (set_idxs al' (css ! s))))
                [0..<ub_n_seqs ub])
            \<and> ub_n_tokens ub = ub_n_seqs ub * ub_n_seq_tokens ub)"
    by (rule ballI, rule equal_ubatch_blocks) (use good in blast)
  then show ?thesis using run del ready(4) ok by (auto simp: delivers_def split(3))
qed

theorem split_equal_partition_witness:
  "\<exists>al' ubs al''. alloc_init sorted_list_of_set batch_example False (allocr_new 1 False) = Some (True, al')
    \<and> drain (split_equal 2 False 1) al' = Some (ubs, al'') \<and> set (concat (map ub_batch_idxs ubs)) = {0, 1, 2}"
proof -
  obtain al' where al': "alloc_init sorted_list_of_set batch_example False (allocr_new 1 False) = Some (True, al')"
    using alloc_init_new [OF batch_example_input batch_example_valid] by blast
  have "{..<length (be_tokens batch_example)} = {0, 1, 2}"
    by (auto simp: batch_example_def)
  moreover have "\<forall>t \<in> set (be_tokens batch_example). sorted_list_of_set (et_seq_ids t) \<noteq> []"
    by (simp add: batch_example_def ext_token_new_def)
  ultimately show ?thesis
    using split_equal_partition [OF al', of 1 2 False] al' by auto
qed

lemma distinct_concat_unique:
  "distinct (concat (map f xs)) \<Longrightarrow> a \<in> set xs \<Longrightarrow> b \<in> set xs \<Longrightarrow> x \<in> set (f a) \<Longrightarrow> x \<in> set (f b) \<Longrightarrow> a = b"
  by (induction xs) (auto simp: disjoint_iff)

lemma equal_ubatch_tail:
  assumes "equal_inv al" "equal_ubatch nb nkt al ub" "i \<le> j" "j < length (set_idxs al S)"
    and "length (set_idxs al S) \<le> i + nkt" "set_idxs al S ! i \<in> set (ub_batch_idxs ub)"
  shows "set_idxs al S ! j \<in> set (ub_batch_idxs ub)"
proof -
  obtain css ks r where tail: "\<forall>s < length css. ks ! s + r = length (set_idxs al (css ! s))
      \<or> ks ! s + r + nkt \<le> length (set_idxs al (css ! s))"
    and idxs: "ub_batch_idxs ub = concat (map (\<lambda>s. take r (drop (ks ! s) (set_idxs al (css ! s)))) [0..<length css])"
    using assms(2) unfolding equal_ubatch_def by blast
  let ?b = "\<lambda>s. take r (drop (ks ! s) (set_idxs al (css ! s)))"
  obtain s where s: "s < length css" "set_idxs al S ! i \<in> set (?b s)"
    using assms(6) unfolding idxs by auto
  have "set_idxs al S ! i \<in> set (set_idxs al (css ! s))"
    using s(2) by (meson in_set_dropD in_set_takeD)
  moreover have "set_idxs al S ! i \<in> set (set_idxs al S)" using assms(3,4) by simp
  ultimately have S: "css ! s = S" using set_idxs_mem [OF assms(1)] by metis
  let ?L = "set_idxs al S"
  obtain t where t: "t < length (?b s)" "?b s ! t = ?L ! i" using s(2) by (auto simp: in_set_conv_nth)
  have t2: "t < r" "ks ! s + t < length ?L" using t(1) unfolding S by auto
  have "?b s ! t = ?L ! (ks ! s + t)" using t2 by (simp add: S)
  then have "?L ! (ks ! s + t) = ?L ! i" using t(2) by simp
  with t2 have it: "i = ks ! s + t"
    using set_idxs_distinct [OF assms(1), of S] assms(3,4) by (simp add: nth_eq_iff_index_eq)
  have full: "ks ! s + r = length ?L"
    using tail s(1) t2 assms(5) it unfolding S [symmetric] by fastforce
  have "?b s ! (j - ks ! s) = ?L ! j" "j - ks ! s < length (?b s)"
    using full it assms(3,4) by (simp_all add: S)
  then have "?L ! j \<in> set (?b s)" by (metis nth_mem)
  then show ?thesis unfolding idxs using s(1) by auto
qed

text \<open>
  C5: \<open>n_keep_tail\<close>. Draining with \<open>split_equal\<close> never separates the last \<open>n_keep_tail\<close> entries
  of a sequence set: any two of them are in the same ubatch.
\<close>
theorem split_equal_keeps_tails:
  assumes "alloc_init ord b oa al = Some (True, al')" "\<forall>t \<in> set (be_tokens b). ord (et_seq_ids t) \<noteq> []"
    and "\<not> (sequential \<and> al_has_cpl al')" "n_keep_tail < nb"
    and "drain (split_equal nb sequential n_keep_tail) al' = Some (ubs, al'')" "ub \<in> set ubs"
    and "i < length (set_idxs al' S)" "length (set_idxs al' S) \<le> i + n_keep_tail"
    and "j < length (set_idxs al' S)" "length (set_idxs al' S) \<le> j + n_keep_tail"
  shows "set_idxs al' S ! i \<in> set (ub_batch_idxs ub) \<longleftrightarrow> set_idxs al' S ! j \<in> set (ub_batch_idxs ub)"
proof -
  note ready = alloc_init_ready [OF assms(1,2)]
  let ?L = "set_idxs al' S"
  have "equal_splitter nb sequential n_keep_tail al'"
    using ready(3) assms(3,4) by (auto simp: equal_splitter_def equal_ready_def)
  from equal.drain_delivers [OF this] assms(5) have del: "delivers al' ubs al''"
    and good: "\<forall>ub \<in> set ubs. equal_ubatch nb n_keep_tail al' ub"
    by auto
  have part: "distinct (concat (map ub_batch_idxs ubs))" "set (concat (map ub_batch_idxs ubs)) = {..<length (be_tokens b)}"
    using del ready(4) by (simp_all add: delivers_def)
  have up: "?L ! j \<in> set (ub_batch_idxs x)"
    if "x \<in> set ubs" "i \<le> j" "j < length ?L" "length ?L \<le> i + n_keep_tail" "?L ! i \<in> set (ub_batch_idxs x)" for x i j
    using equal_ubatch_tail [OF ready(3) _ that(2,3,4,5)] good that(1) by blast
  have both: "?L ! i \<in> set (ub_batch_idxs ub) \<longleftrightarrow> ?L ! j \<in> set (ub_batch_idxs ub)"
    if "i \<le> j" "j < length ?L" "length ?L \<le> i + n_keep_tail" for i j
  proof
    assume "?L ! i \<in> set (ub_batch_idxs ub)"
    then show "?L ! j \<in> set (ub_batch_idxs ub)" using up [OF assms(6) that] by blast
  next
    assume j: "?L ! j \<in> set (ub_batch_idxs ub)"
    have "?L ! i \<in> set ?L" using that by simp
    then have "?L ! i < length (be_tokens b)" using set_idxs_mem [OF ready(3)] ready(5) by simp
    then have "?L ! i \<in> set (concat (map ub_batch_idxs ubs))" using part(2) by simp
    then obtain x where x: "x \<in> set ubs" "?L ! i \<in> set (ub_batch_idxs x)" by auto
    then have "?L ! j \<in> set (ub_batch_idxs x)" using up that by blast
    then have "x = ub" using distinct_concat_unique [OF part(1) x(1) assms(6)] j by blast
    then show "?L ! i \<in> set (ub_batch_idxs ub)" using x by simp
  qed
  show ?thesis
  proof (cases "i \<le> j")
    case True
    show ?thesis by (rule both [OF True assms(9,8)])
  next
    case False
    then have "j \<le> i" by simp
    from both [OF this assms(7,10)] show ?thesis by (rule sym)
  qed
qed

definition batch_line :: llama_batch_ext where
  "batch_line = (batch_ext_new 8 4 4 1 None 100 1)\<lparr>be_tokens := map (\<lambda>i.
     ext_token_new\<lparr>et_id := 5, et_seq_ids := {0}, et_pos := [int i, 0, 0, 0]\<rparr>) [0..<4]\<rparr>"

definition batch_two :: llama_batch_ext where
  "batch_two = (batch_ext_new 8 4 4 2 None 100 1)\<lparr>be_tokens := map (\<lambda>i.
     ext_token_new\<lparr>et_id := 5, et_seq_ids := {int i}, et_pos := [0, 0, 0, 0]\<rparr>) [0..<2]\<rparr>"

lemma upt_4: "[0..<4] = [0, 1, 2, 3 :: nat]" and upt_2: "[0..<2] = [0, 1 :: nat]"
  by (simp_all add: upt_rec)

lemma batch_line_input: "batch_input sorted_list_of_set 1 batch_line"
  and batch_two_input: "batch_input sorted_list_of_set 1 batch_two"
  by (simp_all add: batch_input_def batch_line_def batch_two_def batch_ext_new_def ext_token_new_def
      memory_seq_pos_max_def INT32_MAX_def INT32_MIN_def LLAMA_TOKEN_NULL_def upt_4 upt_2)

lemma batch_line_valid: "batch_valid sorted_list_of_set 1 False batch_line"
proof -
  have pos: "batch_positions batch_line s = {0..3}" if "0 \<le> s" "s < 1" for s
  proof -
    have "s = 0" using that by simp
    then have "batch_positions batch_line s = {0, 1, 2, 3}"
      by (simp add: batch_positions_code batch_line_def batch_ext_new_def ext_token_new_def upt_4)
    also have "\<dots> = {0..3 :: int}" by auto
    finally show ?thesis .
  qed
  have mm: "Min {0..3 :: int} = 0" "Max {0..3 :: int} = 3" by (auto intro: Min_eqI Max_eqI)
  have mx: "be_n_seq_max batch_line = 1" "be_mem batch_line = None"
    by (simp_all add: batch_line_def batch_ext_new_def)
  show ?thesis
  proof (rule batch_validI)
    show "positions_valid 1 batch_line s" if "0 \<le> s" "s < be_n_seq_max batch_line" for s
      using pos [of s] that mm by (simp add: mx positions_valid_def memory_seq_pos_max_def)
  qed (auto simp: batch_line_def batch_ext_new_def ext_token_new_def LLAMA_MAX_SEQ_def content_ok_def
      text_batch_def LLAMA_TOKEN_NULL_def)
qed

lemma batch_two_valid: "batch_valid sorted_list_of_set 1 False batch_two"
proof -
  have pos: "batch_positions batch_two s = {0}" if "0 \<le> s" "s < 2" for s
  proof -
    have "s = 0 \<or> s = 1" using that by arith
    then show ?thesis
      by (auto simp: batch_positions_code batch_two_def batch_ext_new_def ext_token_new_def upt_2)
  qed
  have mx: "be_n_seq_max batch_two = 2" "be_mem batch_two = None"
    by (simp_all add: batch_two_def batch_ext_new_def)
  show ?thesis
  proof (rule batch_validI)
    show "positions_valid 1 batch_two s" if "0 \<le> s" "s < be_n_seq_max batch_two" for s
      using pos [of s] that by (simp add: mx positions_valid_def memory_seq_pos_max_def)
  qed (auto simp: batch_two_def batch_ext_new_def ext_token_new_def LLAMA_MAX_SEQ_def content_ok_def
      text_batch_def LLAMA_TOKEN_NULL_def)
qed

theorem split_equal_keeps_tails_witness:
  "\<exists>al' ubs al''. alloc_init sorted_list_of_set batch_line False (allocr_new 1 False) = Some (True, al')
    \<and> drain (split_equal 3 False 2) al' = Some (ubs, al'')
    \<and> (\<forall>ub \<in> set ubs. 2 \<in> set (ub_batch_idxs ub) \<longleftrightarrow> 3 \<in> set (ub_batch_idxs ub))"
proof -
  obtain al' where al': "alloc_init sorted_list_of_set batch_line False (allocr_new 1 False) = Some (True, al')"
    using alloc_init_new [OF batch_line_input batch_line_valid] by blast
  have ids: "\<forall>t \<in> set (be_tokens batch_line). sorted_list_of_set (et_seq_ids t) \<noteq> []"
    by (simp add: batch_line_def)
  have L: "set_idxs al' {0} = [0, 1, 2, 3]"
    unfolding alloc_init_sets(2) [OF al']
    by (simp add: flat_ids_def batch_line_def upt_4)
  have "equal_splitter 3 False 2 al'"
    using alloc_init_ready(3) [OF al' ids] by (simp add: equal_splitter_def equal_ready_def)
  from equal.drain_delivers [OF this] obtain ubs al'' where
    run: "drain (split_equal 3 False 2) al' = Some (ubs, al'')" by blast
  have "2 \<in> set (ub_batch_idxs ub) \<longleftrightarrow> 3 \<in> set (ub_batch_idxs ub)" if "ub \<in> set ubs" for ub
    using split_equal_keeps_tails [OF al' ids _ _ run that, of 2 "{0}" 3] by (simp add: L)
  then show ?thesis using al' run by blast
qed

text \<open>
  C34: A ubatch larger than \<open>n_ubatch\<close>. Two entries in two sequences, split with
  \<open>n_ubatch = 1\<close>: \<open>split_equal\<close> stops selecting sequence sets only after it has
  \<open>n_ubatch + 1\<close> of them, and returns both entries in one ubatch.
\<close>
theorem split_equal_exceeds_n_ubatch:
  "\<exists>al' ub al''. alloc_init sorted_list_of_set batch_two False (allocr_new 1 False) = Some (True, al')
    \<and> split_equal 1 False 0 al' = Some (ub, al'') \<and> ub_n_tokens ub = 2"
proof -
  obtain al' where al': "alloc_init sorted_list_of_set batch_two False (allocr_new 1 False) = Some (True, al')"
    using alloc_init_new [OF batch_two_input batch_two_valid] by blast
  have n: "length (be_tokens batch_two) = 2" by (simp add: batch_two_def)
  have ids: "al_seq_id al' = [[0], [1]]"
    unfolding alloc_init_ids(1) [OF al'] by (simp add: flat_ids_def batch_two_def upt_2)
  have sets: "al_seq_set al' = [{0}, {1}]"
    "al_seq_set_map al' = (\<lambda>S. filter (\<lambda>i. [{0}, {1}] ! i = S) [0, 1])"
  proof -
    have f: "flat_ids sorted_list_of_set batch_two = [[0], [1]]" by (simp add: flat_ids_def batch_two_def upt_2)
    show "al_seq_set al' = [{0}, {1}]"
      unfolding alloc_init_sets(1) [OF al'] f n by (simp add: upt_2)
    show "al_seq_set_map al' = (\<lambda>S. filter (\<lambda>i. [{0}, {1}] ! i = S) [0, 1])"
      unfolding alloc_init_sets(2) [OF al'] f n by (intro ext) (simp add: upt_2)
  qed
  have used: "al_used al' = [False, False]" "al_n_tokens al' = 2"
    using alloc_init_split(1) [OF al'] alloc_init_shape(2) [OF al'] n by (simp_all add: numeral_2_eq_2)
  have sel: "equal_select al' 1 False [0..<2] [] (-1) = Some [{0}, {1}]"
    by (simp add: upt_2 used sets seq_id_first_def ids)
  have start: "for_opt (\<lambda>S cur. do { k \<leftarrow> equal_start al' S; Some (cur @ [k]) }) [{0}, {1}] [] = Some [0, 0]"
    by (simp add: equal_start_def sets used)
  have push: "for_opt (equal_push [{0}, {1}]) [0..<2] \<lparr>es_al = al', es_cur = [0, 0], es_idxs = [[], []]\<rparr>
      = Some \<lparr>es_al = mark_used 1 (mark_used 0 al'), es_cur = [1, 1], es_idxs = [[0], [1]]\<rparr>"
    by (simp add: upt_2 equal_push_def sets mark_used_def)
  have can: "equal_can_expand [{0}, {1}] \<lparr>es_al = al', es_cur = [0, 0], es_idxs = [[], []]\<rparr>"
    by (simp add: equal_can_expand_def upt_2 [unfolded numeral_2_eq_2] sets)
  have expand: "equal_expand (Suc 2) 1 [{0}, {1}] \<lparr>es_al = al', es_cur = [0, 0], es_idxs = [[], []]\<rparr>
      = Some \<lparr>es_al = mark_used 1 (mark_used 0 al'), es_cur = [1, 1], es_idxs = [[0], [1]]\<rparr>"
    using push can by (simp add: numeral_2_eq_2)
  obtain ub al'' where ub: "ubatch_add [0, 1] 2 True (mark_used 1 (mark_used 0 al')) = Some (ub, al'')" "ub_n_tokens ub = 2"
    using ubatch_add_Some [of 2 "[0, 1]" "mark_used 1 (mark_used 0 al')" True] used(2) by auto
  have "split_equal 1 False 0 al' = Some (ub, al'')"
    unfolding split_equal_def used(2) sel bind.bind_lunit start
    using expand ub(1) by (simp add: equal_keep_tail_def numeral_2_eq_2 del: equal_expand.simps)
  then show ?thesis using al' ub(2) by blast
qed

end
