(* ===== verification/Memory.thy ===== *)
theory Memory
  imports Prelude
begin

section \<open>The memory interface\<close>

text \<open>
  Model of \<open>src/llama-memory.h\<close> and \<open>src/llama-memory.cpp\<close>: the status of a memory
  context and how two of them combine, and \<open>is_masked_swa\<close> of \<open>src/llama-hparams.h\<close>,
  the sliding-window rule every cache shares. The locale \<open>seq_memory\<close> states what the
  callers of \<open>llama_memory_i\<close> rely on: each sequence is a set of positions, and the
  sequence operations act on these sets.
\<close>

subsection \<open>Status\<close>

datatype llama_memory_status =
    LLAMA_MEMORY_STATUS_SUCCESS
  | LLAMA_MEMORY_STATUS_NO_UPDATE
  | LLAMA_MEMORY_STATUS_FAILED_PREPARE
  | LLAMA_MEMORY_STATUS_FAILED_COMPUTE

definition llama_memory_status_is_fail :: "llama_memory_status \<Rightarrow> bool" where
  "llama_memory_status_is_fail status = (case status of
     LLAMA_MEMORY_STATUS_SUCCESS \<Rightarrow> False
   | LLAMA_MEMORY_STATUS_NO_UPDATE \<Rightarrow> False
   | LLAMA_MEMORY_STATUS_FAILED_PREPARE \<Rightarrow> True
   | LLAMA_MEMORY_STATUS_FAILED_COMPUTE \<Rightarrow> True)"

text \<open>The two \<open>switch\<close> statements: a failure returns at once, a success sets \<open>has_update\<close>.\<close>

definition status_switch ::
  "llama_memory_status \<Rightarrow> bool \<Rightarrow> (bool \<Rightarrow> llama_memory_status) \<Rightarrow> llama_memory_status" where
  "status_switch s has_update k = (case s of
     LLAMA_MEMORY_STATUS_SUCCESS \<Rightarrow> k True
   | LLAMA_MEMORY_STATUS_NO_UPDATE \<Rightarrow> k has_update
   | LLAMA_MEMORY_STATUS_FAILED_PREPARE \<Rightarrow> s
   | LLAMA_MEMORY_STATUS_FAILED_COMPUTE \<Rightarrow> s)"

definition llama_memory_status_combine ::
  "llama_memory_status \<Rightarrow> llama_memory_status \<Rightarrow> llama_memory_status" where
  "llama_memory_status_combine s0 s1 =
     status_switch s0 False (\<lambda>has_update.
     status_switch s1 has_update (\<lambda>has_update.
       if has_update then LLAMA_MEMORY_STATUS_SUCCESS else LLAMA_MEMORY_STATUS_NO_UPDATE))"

lemma status_combine_fail:
  "llama_memory_status_is_fail (llama_memory_status_combine s0 s1)
     \<longleftrightarrow> llama_memory_status_is_fail s0 \<or> llama_memory_status_is_fail s1"
  by (cases s0; cases s1)
    (simp_all add: llama_memory_status_combine_def status_switch_def llama_memory_status_is_fail_def)

lemma status_combine_left: "llama_memory_status_is_fail a \<Longrightarrow> llama_memory_status_combine a s = a"
  by (cases a) (simp_all add: llama_memory_status_combine_def status_switch_def llama_memory_status_is_fail_def)

text \<open>
  Combining statuses. The combined status of a list of memory modules fails with the
  status of the first module that failed; without a failure it reports an update iff some
  module has one.
\<close>
theorem status_combine_correct:
  "fold (\<lambda>s acc. llama_memory_status_combine acc s) ss LLAMA_MEMORY_STATUS_NO_UPDATE
     = (case find llama_memory_status_is_fail ss of
          Some s \<Rightarrow> s
        | None \<Rightarrow> if LLAMA_MEMORY_STATUS_SUCCESS \<in> set ss
                  then LLAMA_MEMORY_STATUS_SUCCESS else LLAMA_MEMORY_STATUS_NO_UPDATE)"
proof -
  have fail: "fold (\<lambda>s acc. llama_memory_status_combine acc s) ss a = a" if "llama_memory_status_is_fail a" for a ss
    by (induction ss) (simp_all add: status_combine_left [OF that])
  have "fold (\<lambda>s acc. llama_memory_status_combine acc s) ss a
     = (case find llama_memory_status_is_fail ss of
          Some s \<Rightarrow> s
        | None \<Rightarrow> if LLAMA_MEMORY_STATUS_SUCCESS \<in> set (a # ss)
                  then LLAMA_MEMORY_STATUS_SUCCESS else LLAMA_MEMORY_STATUS_NO_UPDATE)"
    if "\<not> llama_memory_status_is_fail a" for a
    using that
  proof (induction ss arbitrary: a)
    case Nil
    then show ?case by (cases a) (simp_all add: llama_memory_status_is_fail_def)
  next
    case (Cons s ss)
    show ?case
    proof (cases "llama_memory_status_is_fail s")
      case True
      have "llama_memory_status_combine a s = s"
        using True Cons.prems by (cases a; cases s)
          (simp_all add: llama_memory_status_combine_def status_switch_def llama_memory_status_is_fail_def)
      then show ?thesis using True fail [OF True, of ss] by simp
    next
      case False
      then have "\<not> llama_memory_status_is_fail (llama_memory_status_combine a s)"
        using Cons.prems by (simp add: status_combine_fail)
      from Cons.IH [OF this] show ?thesis
        using False Cons.prems by (cases a; cases s)
          (simp_all add: llama_memory_status_combine_def status_switch_def llama_memory_status_is_fail_def)
    qed
  qed
  from this [of LLAMA_MEMORY_STATUS_NO_UPDATE] show ?thesis
    by (simp add: llama_memory_status_is_fail_def)
qed

subsection \<open>The sliding window\<close>

datatype llama_swa_type =
    LLAMA_SWA_TYPE_NONE | LLAMA_SWA_TYPE_STANDARD | LLAMA_SWA_TYPE_CHUNKED | LLAMA_SWA_TYPE_SYMMETRIC

datatype llama_non_causal_type =
    LLAMA_NON_CAUSAL_TYPE_ALL | LLAMA_NON_CAUSAL_TYPE_SWA_ONLY | LLAMA_NON_CAUSAL_TYPE_SWA_FULL

text \<open>
  \<open>n_swa\<close> is a \<open>uint32_t\<close>; \<open>(int32_t) n_swa\<close> reads its bits as a signed number. In the
  chunked case the arithmetic is unsigned, and so is the result until it is stored.
\<close>

definition u32_to_i32 :: "nat \<Rightarrow> int" where
  "u32_to_i32 n = (if int n \<le> INT32_MAX then int n else int n - 4294967296)"

definition is_masked_swa :: "nat \<Rightarrow> llama_swa_type \<Rightarrow> llama_pos \<Rightarrow> llama_pos \<Rightarrow> bool option" where
  "is_masked_swa n_swa swa_type p0 p1 = do {
     check (p0 \<ge> 0 \<and> p1 \<ge> 0);
     (case swa_type of
        LLAMA_SWA_TYPE_NONE \<Rightarrow> Some False
      | LLAMA_SWA_TYPE_STANDARD \<Rightarrow> do { d \<leftarrow> i32 (p1 - p0); Some (d \<ge> u32_to_i32 n_swa) }
      | LLAMA_SWA_TYPE_CHUNKED \<Rightarrow> do {
          check (n_swa \<noteq> 0);
          Some (p0 < (p1 div int n_swa) * int n_swa) }
      | LLAMA_SWA_TYPE_SYMMETRIC \<Rightarrow> do {
          half \<leftarrow> c_div (u32_to_i32 n_swa) 2;
          d \<leftarrow> i32 (p1 - p0);
          Some (d < - half \<or> d > half) }) }"

text \<open>The rule as a predicate, for windows a model can have.\<close>

definition swa_ok :: "nat \<Rightarrow> llama_swa_type \<Rightarrow> bool" where
  "swa_ok n_swa ty \<longleftrightarrow> int n_swa \<le> INT32_MAX \<and> (ty = LLAMA_SWA_TYPE_CHUNKED \<longrightarrow> n_swa \<noteq> 0)"

definition swa_masked :: "nat \<Rightarrow> llama_swa_type \<Rightarrow> llama_pos \<Rightarrow> llama_pos \<Rightarrow> bool" where
  "swa_masked n ty p0 p1 = (case ty of
     LLAMA_SWA_TYPE_NONE \<Rightarrow> False
   | LLAMA_SWA_TYPE_STANDARD \<Rightarrow> p1 - p0 \<ge> int n
   | LLAMA_SWA_TYPE_CHUNKED \<Rightarrow> p0 < (p1 div int n) * int n
   | LLAMA_SWA_TYPE_SYMMETRIC \<Rightarrow> p1 - p0 < - int (n div 2) \<or> p1 - p0 > int (n div 2))"

lemma is_masked_swa_eq:
  assumes "swa_ok n ty" "0 \<le> p0" "0 \<le> p1" "p0 \<le> INT32_MAX" "p1 \<le> INT32_MAX"
  shows "is_masked_swa n ty p0 p1 = Some (swa_masked n ty p0 p1)"
proof -
  have "u32_to_i32 n = int n" using assms(1) by (simp add: u32_to_i32_def swa_ok_def)
  moreover have "c_div (int n) 2 = Some (int (n div 2))"
    by (simp add: c_div_nonneg zdiv_int)
  moreover have "i32 (p1 - p0) = Some (p1 - p0)"
    using assms by (intro i32_ok) (simp_all add: INT32_MIN_def INT32_MAX_def)
  ultimately show ?thesis
    using assms unfolding is_masked_swa_def swa_masked_def
    by (cases ty) (simp_all add: swa_ok_def)
qed

text \<open>A position that is masked stays masked as the sequence grows.\<close>

lemma swa_masked_mono:
  assumes "swa_masked n ty p0 p1" "p1 \<le> p1'" "p0 \<le> p1"
  shows "swa_masked n ty p0 p1'"
proof (cases ty)
  case LLAMA_SWA_TYPE_CHUNKED
  have "(p1 div int n) * int n \<le> (p1' div int n) * int n"
  proof (cases "n = 0")
    case False
    then have "p1 div int n \<le> p1' div int n" using assms(2) by (intro zdiv_mono1) simp_all
    then show ?thesis by (rule mult_right_mono) simp
  qed simp
  then show ?thesis using assms LLAMA_SWA_TYPE_CHUNKED by (simp add: swa_masked_def)
qed (use assms in \<open>auto simp: swa_masked_def\<close>)

subsection \<open>The sequences of a memory\<close>

text \<open>The range \<open>[p0, p1)\<close> of the sequence operations; a negative bound is an open end.\<close>

definition pos_between :: "llama_pos \<Rightarrow> llama_pos \<Rightarrow> llama_pos \<Rightarrow> bool" where
  "pos_between p0 p1 p \<longleftrightarrow> (p0 < 0 \<or> p0 \<le> p) \<and> (p1 < 0 \<or> p < p1)"

text \<open>The least and the greatest element as \<open>seq_pos_min\<close> and \<open>seq_pos_max\<close> report them.\<close>

definition set_pos_min :: "llama_pos set \<Rightarrow> llama_pos" where
  "set_pos_min P = (if P = {} then -1 else Min P)"

definition set_pos_max :: "llama_pos set \<Rightarrow> llama_pos" where
  "set_pos_max P = (if P = {} then -1 else Max P)"

text \<open>
  What the callers of a memory rely on: each sequence it knows has a finite set of
  positions, \<open>seq_rm\<close> removes a range of one sequence and leaves the others alone, and the
  two queries read the ends of the set.
\<close>

locale seq_memory =
  fixes inv :: "'m \<Rightarrow> bool"
    and known :: "'m \<Rightarrow> nat \<Rightarrow> bool"
    and positions :: "'m \<Rightarrow> nat \<Rightarrow> llama_pos set"
    and seq_rm :: "llama_seq_id \<Rightarrow> llama_pos \<Rightarrow> llama_pos \<Rightarrow> 'm \<Rightarrow> (bool \<times> 'm) option"
    and seq_pos_min :: "llama_seq_id \<Rightarrow> 'm \<Rightarrow> llama_pos option"
    and seq_pos_max :: "llama_seq_id \<Rightarrow> 'm \<Rightarrow> llama_pos option"
  assumes finite_positions: "inv m \<Longrightarrow> known m s \<Longrightarrow> finite (positions m s)"
    and positions_nonneg: "inv m \<Longrightarrow> known m s \<Longrightarrow> p \<in> positions m s \<Longrightarrow> 0 \<le> p"
    and seq_rm_ok: "inv m \<Longrightarrow> known m s \<Longrightarrow> \<exists>m'. seq_rm (int s) p0 p1 m = Some (True, m') \<and> inv m'
        \<and> known m' = known m
        \<and> (\<forall>t. known m t \<longrightarrow> positions m' t =
             (if t = s then {p \<in> positions m s. \<not> pos_between p0 p1 p} else positions m t))"
    and seq_pos_min_ok: "inv m \<Longrightarrow> known m s \<Longrightarrow> seq_pos_min (int s) m = Some (set_pos_min (positions m s))"
    and seq_pos_max_ok: "inv m \<Longrightarrow> known m s \<Longrightarrow> seq_pos_max (int s) m = Some (set_pos_max (positions m s))"
begin

text \<open>Rolling a sequence back to position \<open>p\<close>, as speculative decoding does.\<close>

lemma rollback:
  assumes "inv m" "known m s" "0 \<le> p"
  shows "\<exists>m' q. seq_rm (int s) p (-1) m = Some (True, m') \<and> inv m'
    \<and> seq_pos_max (int s) m' = Some q \<and> q < p
    \<and> (\<forall>r \<in> positions m s. r < p \<longrightarrow> r \<le> q \<and> r \<in> positions m' s)
    \<and> (\<forall>t. known m t \<longrightarrow> t \<noteq> s \<longrightarrow> positions m' t = positions m t)"
proof -
  obtain m' where m': "seq_rm (int s) p (-1) m = Some (True, m')" "inv m'" "known m' = known m"
    "\<forall>t. known m t \<longrightarrow> positions m' t =
      (if t = s then {r \<in> positions m s. \<not> pos_between p (-1) r} else positions m t)"
    using seq_rm_ok [OF assms(1,2)] by blast
  have P: "positions m' s = {r \<in> positions m s. r < p}"
    using m'(4) assms by (auto simp: pos_between_def)
  have fin: "finite (positions m' s)"
    using finite_positions m'(2,3) assms(2) by simp
  have max: "seq_pos_max (int s) m' = Some (set_pos_max (positions m' s))"
    using seq_pos_max_ok m'(2,3) assms(2) by simp
  have lt: "set_pos_max (positions m' s) < p"
  proof (cases "positions m' s = {}")
    case True
    then show ?thesis using assms(3) by (simp add: set_pos_max_def)
  next
    case False
    then have "Max (positions m' s) \<in> positions m' s" using fin by simp
    then have "Max (positions m' s) < p" unfolding P by blast
    then show ?thesis using False by (simp add: set_pos_max_def)
  qed
  have "r \<le> set_pos_max (positions m' s) \<and> r \<in> positions m' s" if "r \<in> positions m s" "r < p" for r
  proof -
    have "r \<in> positions m' s" using that P by simp
    then show ?thesis using Max_ge [OF fin] by (auto simp: set_pos_max_def)
  qed
  then show ?thesis using m' max lt by auto
qed

lemma seq_rm_one:
  assumes "inv m" "known m s"
  obtains m' where "seq_rm (int s) p0 p1 m = Some (True, m')" "inv m'" "known m' s"
    "positions m' s = {p \<in> positions m s. \<not> pos_between p0 p1 p}"
proof -
  obtain m' where m': "seq_rm (int s) p0 p1 m = Some (True, m')" "inv m'" "known m' = known m"
    "\<forall>t. known m t \<longrightarrow> positions m' t =
      (if t = s then {p \<in> positions m s. \<not> pos_between p0 p1 p} else positions m t)"
    using seq_rm_ok [OF assms] by blast
  show thesis
    by (rule that [OF m'(1,2)]) (use m'(3) m'(4) [rule_format, OF assms(2)] assms(2) in simp_all)
qed

text \<open>Removing everything of a sequence empties it.\<close>

lemma remove_all:
  assumes "inv m" "known m s"
  shows "\<exists>m'. seq_rm (int s) (-1) (-1) m = Some (True, m') \<and> inv m' \<and> positions m' s = {}
    \<and> seq_pos_min (int s) m' = Some (-1) \<and> seq_pos_max (int s) m' = Some (-1)"
proof -
  obtain m' where m': "seq_rm (int s) (-1) (-1) m = Some (True, m')" "inv m'" "known m' s"
    "positions m' s = {r \<in> positions m s. \<not> pos_between (-1) (-1) r}"
    by (rule seq_rm_one [OF assms])
  have empty: "positions m' s = {}" using m'(4) by (simp add: pos_between_def)
  then have "seq_pos_min (int s) m' = Some (-1)" "seq_pos_max (int s) m' = Some (-1)"
    using seq_pos_min_ok [OF m'(2,3)] seq_pos_max_ok [OF m'(2,3)]
    by (simp_all add: set_pos_min_def set_pos_max_def)
  then show ?thesis using m'(1,2) empty by blast
qed

text \<open>Removals of two ranges of one sequence can be done in either order.\<close>

lemma remove_twice:
  assumes "inv m" "known m s"
  shows "\<exists>m1 m2. seq_rm (int s) a b m = Some (True, m1) \<and> seq_rm (int s) c d m1 = Some (True, m2)
    \<and> inv m2 \<and> positions m2 s = {p \<in> positions m s. \<not> pos_between a b p \<and> \<not> pos_between c d p}"
proof -
  obtain m1 where m1: "seq_rm (int s) a b m = Some (True, m1)" "inv m1" "known m1 s"
    "positions m1 s = {p \<in> positions m s. \<not> pos_between a b p}"
    by (rule seq_rm_one [OF assms])
  obtain m2 where m2: "seq_rm (int s) c d m1 = Some (True, m2)" "inv m2"
    "positions m2 s = {p \<in> positions m1 s. \<not> pos_between c d p}"
    by (rule seq_rm_one [OF m1(2,3)])
  have "positions m2 s = {p \<in> positions m s. \<not> pos_between a b p \<and> \<not> pos_between c d p}"
    unfolding m2(3) m1(4) by blast
  then show ?thesis using m1(1) m2(1,2) by blast
qed

end

subsection \<open>Commands and their specification\<close>

text \<open>
  The commands on the sequences of a memory with one stream, and their specification on the positions alone. A copy
  asks that the destination has none of the positions copied, which the code asserts cell by cell.
\<close>

datatype mem_cmd =
    Cmd_rm nat llama_pos llama_pos
  | Cmd_keep nat
  | Cmd_cp nat nat llama_pos llama_pos
  | Cmd_clear

type_synonym seq_sets = "nat \<Rightarrow> llama_pos set"

fun spec_cmd :: "mem_cmd \<Rightarrow> seq_sets \<Rightarrow> seq_sets" where
  "spec_cmd (Cmd_rm s p0 p1) P = P(s := {p \<in> P s. \<not> pos_between p0 p1 p})"
| "spec_cmd (Cmd_keep s) P = (\<lambda>t. if t = s then P s else {})"
| "spec_cmd (Cmd_cp src dst p0 p1) P = P(dst := P dst \<union> {p \<in> P src. pos_between p0 p1 p})"
| "spec_cmd Cmd_clear P = (\<lambda>_. {})"

fun cmd_ok :: "(nat \<Rightarrow> bool) \<Rightarrow> mem_cmd \<Rightarrow> seq_sets \<Rightarrow> bool" where
  "cmd_ok K (Cmd_rm s p0 p1) P \<longleftrightarrow> K s"
| "cmd_ok K (Cmd_keep s) P \<longleftrightarrow> K s"
| "cmd_ok K (Cmd_cp src dst p0 p1) P \<longleftrightarrow> K src \<and> K dst \<and> src \<noteq> dst \<and> (\<forall>p \<in> P src. pos_between p0 p1 p \<longrightarrow> p \<notin> P dst)"
| "cmd_ok K Cmd_clear P \<longleftrightarrow> True"

fun cmds_ok :: "(nat \<Rightarrow> bool) \<Rightarrow> mem_cmd list \<Rightarrow> seq_sets \<Rightarrow> bool" where
  "cmds_ok K [] P \<longleftrightarrow> True"
| "cmds_ok K (c # cs) P \<longleftrightarrow> cmd_ok K c P \<and> cmds_ok K cs (spec_cmd c P)"

fun run_cmd :: "(llama_seq_id \<Rightarrow> llama_pos \<Rightarrow> llama_pos \<Rightarrow> 'm \<Rightarrow> (bool \<times> 'm) option) \<Rightarrow> (llama_seq_id \<Rightarrow> 'm \<Rightarrow> 'm option)
    \<Rightarrow> (llama_seq_id \<Rightarrow> llama_seq_id \<Rightarrow> llama_pos \<Rightarrow> llama_pos \<Rightarrow> 'm \<Rightarrow> 'm option) \<Rightarrow> ('m \<Rightarrow> 'm option)
    \<Rightarrow> mem_cmd \<Rightarrow> 'm \<Rightarrow> 'm option" where
  "run_cmd rm keep cp clr (Cmd_rm s p0 p1) m = map_option snd (rm (int s) p0 p1 m)"
| "run_cmd rm keep cp clr (Cmd_keep s) m = keep (int s) m"
| "run_cmd rm keep cp clr (Cmd_cp src dst p0 p1) m = cp (int src) (int dst) p0 p1 m"
| "run_cmd rm keep cp clr Cmd_clear m = clr m"

text \<open>The specification looks at known sequences only, and is monotone.\<close>

lemma spec_cmd_cong:
  assumes "\<forall>t. K t \<longrightarrow> P t = Q t" "cmd_ok K c P"
  shows "cmd_ok K c Q" "\<forall>t. K t \<longrightarrow> spec_cmd c P t = spec_cmd c Q t"
  using assms by (cases c; simp)+

lemma spec_cmds_cong:
  assumes "\<forall>t. K t \<longrightarrow> P t = Q t" "cmds_ok K cs P"
  shows "cmds_ok K cs Q \<and> (\<forall>t. K t \<longrightarrow> fold spec_cmd cs P t = fold spec_cmd cs Q t)"
  using assms
proof (induction cs arbitrary: P Q)
  case (Cons c cs)
  then have c: "cmd_ok K c P" "cmds_ok K cs (spec_cmd c P)" by simp_all
  show ?case using Cons.IH [OF spec_cmd_cong(2) [OF Cons.prems(1) c(1)] c(2)] spec_cmd_cong(1) [OF Cons.prems(1) c(1)] by simp
qed simp

lemma spec_cmd_mono:
  assumes "\<forall>t. K t \<longrightarrow> P t \<subseteq> Q t" "cmd_ok K c Q"
  shows "cmd_ok K c P" "\<forall>t. K t \<longrightarrow> spec_cmd c P t \<subseteq> spec_cmd c Q t"
proof -
  have sub: "p \<in> Q t" if "K t" "p \<in> P t" for t p using assms(1) that by blast
  show "cmd_ok K c P" using assms(2) sub by (cases c) auto
  show "\<forall>t. K t \<longrightarrow> spec_cmd c P t \<subseteq> spec_cmd c Q t" using assms(2) sub by (cases c) auto
qed

lemma spec_cmds_mono:
  assumes "\<forall>t. K t \<longrightarrow> P t \<subseteq> Q t" "cmds_ok K cs Q"
  shows "cmds_ok K cs P \<and> (\<forall>t. K t \<longrightarrow> fold spec_cmd cs P t \<subseteq> fold spec_cmd cs Q t)"
  using assms
proof (induction cs arbitrary: P Q)
  case (Cons c cs)
  then have c: "cmd_ok K c Q" "cmds_ok K cs (spec_cmd c Q)" by simp_all
  show ?case using Cons.IH [OF spec_cmd_mono(2) [OF Cons.prems(1) c(1)] c(2)] spec_cmd_mono(1) [OF Cons.prems(1) c(1)] by simp
qed simp

text \<open>A memory whose commands do what the specification says, one by one, refines it over any list of commands.\<close>

locale command_memory =
  fixes inv :: "'m \<Rightarrow> bool"
    and known :: "'m \<Rightarrow> nat \<Rightarrow> bool"
    and positions :: "'m \<Rightarrow> nat \<Rightarrow> llama_pos set"
    and exec :: "mem_cmd \<Rightarrow> 'm \<Rightarrow> 'm option"
  assumes exec_ok: "inv m \<Longrightarrow> cmd_ok (known m) c (positions m) \<Longrightarrow> \<exists>m'. exec c m = Some m' \<and> inv m' \<and> known m' = known m
      \<and> (\<forall>t. known m t \<longrightarrow> positions m' t = spec_cmd c (positions m) t)"
begin

lemma refine:
  assumes "inv m" "cmds_ok (known m) cs (positions m)"
  shows "\<exists>m'. for_opt exec cs m = Some m' \<and> inv m' \<and> known m' = known m
    \<and> (\<forall>t. known m t \<longrightarrow> positions m' t = fold spec_cmd cs (positions m) t)"
  using assms
proof (induction cs arbitrary: m)
  case (Cons c cs)
  have c: "cmd_ok (known m) c (positions m)" "cmds_ok (known m) cs (spec_cmd c (positions m))" using Cons.prems(2) by simp_all
  obtain m1 where m1: "exec c m = Some m1" "inv m1" "known m1 = known m"
    "\<forall>t. known m t \<longrightarrow> positions m1 t = spec_cmd c (positions m) t" using exec_ok [OF Cons.prems(1) c(1)] by blast
  have eq: "cmds_ok (known m) cs (positions m1) \<and> (\<forall>t. known m t \<longrightarrow>
      fold spec_cmd cs (spec_cmd c (positions m)) t = fold spec_cmd cs (positions m1) t)"
    by (rule spec_cmds_cong [OF _ c(2)]) (use m1(4) in simp)
  then obtain m' where "for_opt exec cs m1 = Some m'" "inv m'" "known m' = known m1"
    "\<forall>t. known m1 t \<longrightarrow> positions m' t = fold spec_cmd cs (positions m1) t"
    using Cons.IH [OF m1(2)] m1(3) by auto
  then show ?case using m1(1,3) eq by auto
qed simp

end

end
