(* ===== verification/KvCache.thy ===== *)
theory KvCache
  imports KvCells BatchSplit Memory
begin


section \<open>The KV cache\<close>

text \<open>
  Model of the bookkeeping of \<open>llama_kv_cache\<close> (\<open>src/llama-kv-cache.h\<close>,
  \<open>src/llama-kv-cache.cpp\<close>): which cell holds which token of which sequence. A cache has
  one \<open>llama_kv_cells\<close> object per stream, a search head per stream, and a map from sequences
  to streams (all sequences share stream 0 in a unified cache, otherwise sequence \<open>s\<close> owns
  stream \<open>s\<close>). The K and V tensors and the compute graphs are not modelled.

  \<open>kv_other\<close> is \<open>Some m\<close> for a cache that views the cells of another one (\<open>other\<close> is not
  null), with \<open>m\<close> the stream map of that other cache: such a cache ignores updates.
  Of \<open>hparams\<close> and the model only the values the code reads are kept.
\<close>

subsection \<open>State\<close>

record kv_hparams =
  hp_n_pos_per_embd :: nat
  hp_ple_n_heads :: nat
  hp_ple_image_token_id :: nat
  hp_ple_eos_token_id :: nat
  hp_is_step35 :: bool
  hp_rope_none :: bool
  hp_use_alibi :: bool
  hp_non_causal_type :: llama_non_causal_type

record llama_kv_cache =
  kv_hp :: kv_hparams
  kv_n_seq_max :: nat
  kv_n_stream :: nat
  kv_n_pad :: nat
  kv_n_swa :: nat
  kv_swa_type :: llama_swa_type
  kv_v_heads :: "nat list"
  kv_other :: "nat list option"
  kv_v_cells :: "llama_kv_cells list"
  kv_seq_to_stream :: "nat list"
  kv_ssrc :: "nat list"
  kv_sdst :: "nat list"

definition kv_get_size :: "llama_kv_cache \<Rightarrow> nat option" where
  "kv_get_size kv = do {
     t \<leftarrow> nth_opt (kv_seq_to_stream kv) 0;
     c \<leftarrow> nth_opt (kv_v_cells kv) t;
     Some (cells_size c) }"

text \<open>
  The metadata part of the constructor. A cache that is given another one takes its size and
  its cells, and resizes them like its own.
\<close>

definition kv_new :: "kv_hparams \<Rightarrow> bool \<Rightarrow> nat \<Rightarrow> nat \<Rightarrow> nat \<Rightarrow> nat \<Rightarrow> llama_swa_type \<Rightarrow> llama_kv_cache option
    \<Rightarrow> llama_kv_cache option" where
  "kv_new hp unified kv_size n_seq_max n_pad n_swa swa_type mem_other =
     (let n_stream = (if unified then 1 else n_seq_max) in do {
      kv_size \<leftarrow> (case mem_other of None \<Rightarrow> Some kv_size | Some other \<Rightarrow> kv_get_size other);
      check (n_pad \<noteq> 0 \<and> kv_size mod n_pad = 0);
      check (n_stream = 1 \<or> n_stream = n_seq_max);
      (let vcs = vresize cells_new n_stream (case mem_other of None \<Rightarrow> [] | Some other \<Rightarrow> kv_v_cells other);
           stos = vresize 0 LLAMA_MAX_SEQ [];
           stos = (if n_stream > 1 then map (\<lambda>s. s) [0..<n_stream] else stos)
       in Some \<lparr>kv_hp = hp, kv_n_seq_max = n_seq_max, kv_n_stream = n_stream, kv_n_pad = n_pad,
            kv_n_swa = n_swa, kv_swa_type = swa_type, kv_v_heads = replicate n_stream 0,
            kv_other = map_option kv_seq_to_stream mem_other,
            kv_v_cells = map (cells_resize kv_size) vcs,
            kv_seq_to_stream = stos, kv_ssrc = [], kv_sdst = []\<rparr>) })"

definition kv_get_has_shift :: "llama_kv_cache \<Rightarrow> bool option" where
  "kv_get_has_shift kv = for_opt (\<lambda>s r. do {
     c \<leftarrow> nth_opt (kv_v_cells kv) s; Some (r \<or> cells_get_has_shift c) }) [0..<kv_n_stream kv] False"

definition kv_get_can_shift :: "llama_kv_cache \<Rightarrow> bool" where
  "kv_get_can_shift kv =
     (if hp_is_step35 (kv_hp kv) then False
      else if hp_n_pos_per_embd (kv_hp kv) > 1 then False else True)"

definition kv_has_cell_ext :: "llama_kv_cache \<Rightarrow> bool" where
  "kv_has_cell_ext kv \<longleftrightarrow> hp_n_pos_per_embd (kv_hp kv) > 1 \<or> hp_ple_n_heads (kv_hp kv) > 0"

text \<open>\<open>GGML_ASSERT(seq_id >= 0 && (size_t) seq_id < seq_to_stream.size())\<close> and the lookup.\<close>

definition kv_get_stream :: "llama_seq_id \<Rightarrow> llama_kv_cache \<Rightarrow> nat option" where
  "kv_get_stream s kv = inth_opt (kv_seq_to_stream kv) s"

definition kv_get_cells :: "llama_seq_id \<Rightarrow> llama_kv_cache \<Rightarrow> llama_kv_cells option" where
  "kv_get_cells s kv = do { t \<leftarrow> kv_get_stream s kv; nth_opt (kv_v_cells kv) t }"

definition set_stream :: "nat \<Rightarrow> llama_kv_cells \<Rightarrow> nat \<Rightarrow> llama_kv_cache \<Rightarrow> llama_kv_cache" where
  "set_stream t c head kv = kv\<lparr>kv_v_cells := (kv_v_cells kv)[t := c], kv_v_heads := (kv_v_heads kv)[t := head]\<rparr>"

subsection \<open>Sequence operations\<close>

definition kv_clear :: "llama_kv_cache \<Rightarrow> llama_kv_cache option" where
  "kv_clear kv = for_opt (\<lambda>s kv. do {
     c \<leftarrow> nth_opt (kv_v_cells kv) s;
     _ \<leftarrow> nth_opt (kv_v_heads kv) s;
     Some (set_stream s (cells_reset c) 0 kv) }) [0..<kv_n_stream kv] kv"

definition clamp_p0 :: "llama_pos \<Rightarrow> llama_pos" where
  "clamp_p0 p0 = (if p0 < 0 then 0 else p0)"

definition clamp_p1 :: "llama_pos \<Rightarrow> llama_pos" where
  "clamp_p1 p1 = (if p1 < 0 then INT32_MAX else p1)"

text \<open>\<open>if (new_head == cells.size()) new_head = i;\<close> when a slot was freed.\<close>

definition note_freed :: "bool \<Rightarrow> nat \<Rightarrow> llama_kv_cells \<Rightarrow> nat \<Rightarrow> nat" where
  "note_freed freed i c new_head = (if freed \<and> new_head = cells_size c then i else new_head)"

text \<open>\<open>if (new_head != cells.size() && new_head < head) head = new_head;\<close>\<close>

definition lower_head :: "nat \<Rightarrow> llama_kv_cells \<Rightarrow> nat \<Rightarrow> nat" where
  "lower_head new_head c head = (if new_head \<noteq> cells_size c \<and> new_head < head then new_head else head)"

type_synonym scan_state = "llama_kv_cells \<times> nat"

definition seq_rm_body :: "llama_seq_id \<Rightarrow> llama_pos \<Rightarrow> llama_pos \<Rightarrow> nat \<Rightarrow> scan_state \<Rightarrow> scan_state option" where
  "seq_rm_body s p0 p1 i = (\<lambda>(c, new_head). do {
     b \<leftarrow> cells_pos_in i p0 p1 c;
     if \<not> b then Some (c, new_head)
     else do {
       h \<leftarrow> cells_seq_has i s c;
       if \<not> h then Some (c, new_head)
       else do {
         (freed, c) \<leftarrow> cells_seq_rm i (nat s) c;
         Some (c, note_freed freed i c new_head) } } })"

definition rm_any_body :: "llama_pos \<Rightarrow> llama_pos \<Rightarrow> nat \<Rightarrow> scan_state \<Rightarrow> scan_state option" where
  "rm_any_body p0 p1 i = (\<lambda>(c, new_head). do {
     b \<leftarrow> cells_pos_in i p0 p1 c;
     if \<not> b then Some (c, new_head)
     else do {
       c \<leftarrow> cells_rm i c;
       Some (c, note_freed True i c new_head) } })"

text \<open>A scan over the cells of stream \<open>t\<close> that lowers the head to the first freed cell.\<close>

definition scan_stream :: "(nat \<Rightarrow> scan_state \<Rightarrow> scan_state option) \<Rightarrow> nat \<Rightarrow> llama_kv_cache \<Rightarrow> llama_kv_cache option" where
  "scan_stream body t kv = do {
     c \<leftarrow> nth_opt (kv_v_cells kv) t;
     head \<leftarrow> nth_opt (kv_v_heads kv) t;
     (c, new_head) \<leftarrow> for_opt body [0..<cells_size c] (c, cells_size c);
     Some (set_stream t c (lower_head new_head c head) kv) }"

definition kv_seq_rm :: "llama_seq_id \<Rightarrow> llama_pos \<Rightarrow> llama_pos \<Rightarrow> llama_kv_cache \<Rightarrow> (bool \<times> llama_kv_cache) option" where
  "kv_seq_rm s p0 p1 kv =
     (if kv_other kv \<noteq> None then Some (True, kv)
      else do {
        check (s = -1 \<or> (s \<ge> 0 \<and> nat s < length (kv_seq_to_stream kv)));
        (let p0 = clamp_p0 p0; p1 = clamp_p1 p1 in
         if s \<ge> 0 then do {
           t \<leftarrow> inth_opt (kv_seq_to_stream kv) s;
           kv \<leftarrow> scan_stream (seq_rm_body s p0 p1) t kv;
           Some (True, kv) }
         else do {
           kv \<leftarrow> for_opt (\<lambda>t kv. scan_stream (rm_any_body p0 p1) t kv) [0..<kv_n_stream kv] kv;
           Some (True, kv) }) })"

definition seq_cp_body :: "llama_seq_id \<Rightarrow> llama_seq_id \<Rightarrow> llama_pos \<Rightarrow> llama_pos \<Rightarrow> nat \<Rightarrow> llama_kv_cells
    \<Rightarrow> llama_kv_cells option" where
  "seq_cp_body src dst p0 p1 i c = do {
     b \<leftarrow> cells_pos_in i p0 p1 c;
     if \<not> b then Some c
     else do {
       h \<leftarrow> cells_seq_has i src c;
       if h then cells_seq_add i (nat dst) c else Some c } }"

text \<open>The copy between streams: the cells of the source sequence, with their pending shift.\<close>

definition stream_cp_body :: "llama_kv_cells \<Rightarrow> llama_seq_id \<Rightarrow> llama_seq_id \<Rightarrow> nat \<Rightarrow> llama_kv_cells
    \<Rightarrow> llama_kv_cells option" where
  "stream_cp_body c0 src dst i c1 = do {
     h \<leftarrow> cells_seq_has i src c0;
     if \<not> h then Some c1
     else do {
       pos \<leftarrow> cells_pos_get i c0;
       shift \<leftarrow> cells_get_shift i c0;
       ext \<leftarrow> cells_ext_get i c0;
       pos \<leftarrow> (if shift \<noteq> 0 then do { pos \<leftarrow> i32 (pos - shift); check (pos \<ge> 0); Some pos } else Some pos);
       c1 \<leftarrow> cells_pos_set i pos c1;
       c1 \<leftarrow> cells_seq_add i (nat dst) c1;
       c1 \<leftarrow> (if shift \<noteq> 0 then map_option snd (cells_pos_add i shift c1) else Some c1);
       cells_ext_set i ext c1 } }"

definition kv_seq_cp :: "llama_seq_id \<Rightarrow> llama_seq_id \<Rightarrow> llama_pos \<Rightarrow> llama_pos \<Rightarrow> llama_kv_cache
    \<Rightarrow> llama_kv_cache option" where
  "kv_seq_cp src dst p0 p1 kv =
     (if kv_other kv \<noteq> None then Some kv
      else do {
        s0 \<leftarrow> inth_opt (kv_seq_to_stream kv) src;
        s1 \<leftarrow> inth_opt (kv_seq_to_stream kv) dst;
        c0 \<leftarrow> nth_opt (kv_v_cells kv) s0;
        if s0 = s1 then
          (if src = dst then Some kv
           else do {
             c \<leftarrow> for_opt (seq_cp_body src dst (clamp_p0 p0) (clamp_p1 p1)) [0..<cells_size c0] c0;
             Some (kv\<lparr>kv_v_cells := (kv_v_cells kv)[s0 := c]\<rparr>) })
        else do {
          size \<leftarrow> kv_get_size kv;
          b0 \<leftarrow> (if p0 > 0 then do { q \<leftarrow> i32 (p0 + 1); Some (q < int size) } else Some False);
          b1 \<leftarrow> (if p1 > 0 then do { q \<leftarrow> i32 (p1 + 1); Some (q < int size) } else Some False);
          check (\<not> b0 \<and> \<not> b1);
          c1 \<leftarrow> nth_opt (kv_v_cells kv) s1;
          h0 \<leftarrow> nth_opt (kv_v_heads kv) s0;
          c1 \<leftarrow> for_opt (stream_cp_body c0 src dst) [0..<cells_size c0] (cells_reset c1);
          Some (set_stream s1 c1 h0 (kv\<lparr>kv_ssrc := kv_ssrc kv @ [s0], kv_sdst := kv_sdst kv @ [s1]\<rparr>)) } })"

definition seq_keep_body :: "llama_seq_id \<Rightarrow> nat \<Rightarrow> scan_state \<Rightarrow> scan_state option" where
  "seq_keep_body s i = (\<lambda>(c, new_head). do {
     (freed, c) \<leftarrow> cells_seq_keep i (nat s) c;
     Some (c, note_freed freed i c new_head) })"

definition kv_seq_keep :: "llama_seq_id \<Rightarrow> llama_kv_cache \<Rightarrow> llama_kv_cache option" where
  "kv_seq_keep s kv =
     (if kv_other kv \<noteq> None then Some kv
      else do {
        t \<leftarrow> inth_opt (kv_seq_to_stream kv) s;
        scan_stream (seq_keep_body s) t kv })"

definition seq_add_body :: "llama_seq_id \<Rightarrow> llama_pos \<Rightarrow> llama_pos \<Rightarrow> llama_pos \<Rightarrow> nat \<Rightarrow> scan_state
    \<Rightarrow> scan_state option" where
  "seq_add_body s p0 p1 shift i = (\<lambda>(c, new_head). do {
     b \<leftarrow> cells_pos_in i p0 p1 c;
     if \<not> b then Some (c, new_head)
     else do {
       h \<leftarrow> cells_seq_has i s c;
       if \<not> h then Some (c, new_head)
       else do {
         (freed, c) \<leftarrow> cells_pos_add i shift c;
         Some (c, note_freed freed i c new_head) } } })"

definition kv_seq_add :: "llama_seq_id \<Rightarrow> llama_pos \<Rightarrow> llama_pos \<Rightarrow> llama_pos \<Rightarrow> llama_kv_cache
    \<Rightarrow> llama_kv_cache option" where
  "kv_seq_add s p0 p1 shift kv =
     (if kv_other kv \<noteq> None then Some kv
      else do {
        t \<leftarrow> inth_opt (kv_seq_to_stream kv) s;
        check (hp_n_pos_per_embd (kv_hp kv) = 1);
        (let q0 = clamp_p0 p0; q1 = clamp_p1 p1 in
         if shift = 0 then Some kv
         else if q0 = q1 then Some kv
         else do {
           c \<leftarrow> nth_opt (kv_v_cells kv) t;
           _ \<leftarrow> nth_opt (kv_v_heads kv) t;
           (c, new_head) \<leftarrow> for_opt (seq_add_body s q0 q1 shift) [0..<cells_size c] (c, cells_size c);
           Some (set_stream t c (if new_head \<noteq> cells_size c then new_head else 0) kv) }) })"

definition seq_div_body :: "llama_seq_id \<Rightarrow> llama_pos \<Rightarrow> llama_pos \<Rightarrow> int \<Rightarrow> nat \<Rightarrow> llama_kv_cells
    \<Rightarrow> llama_kv_cells option" where
  "seq_div_body s p0 p1 d i c = do {
     b \<leftarrow> cells_pos_in i p0 p1 c;
     if \<not> b then Some c
     else do {
       h \<leftarrow> cells_seq_has i s c;
       if h then cells_pos_div i d c else Some c } }"

definition kv_seq_div :: "llama_seq_id \<Rightarrow> llama_pos \<Rightarrow> llama_pos \<Rightarrow> int \<Rightarrow> llama_kv_cache
    \<Rightarrow> llama_kv_cache option" where
  "kv_seq_div s p0 p1 d kv =
     (if kv_other kv \<noteq> None then Some kv
      else do {
        t \<leftarrow> inth_opt (kv_seq_to_stream kv) s;
        check (hp_n_pos_per_embd (kv_hp kv) = 1);
        (let q0 = clamp_p0 p0; q1 = clamp_p1 p1 in
         if d = 1 then Some kv
         else if q0 = q1 then Some kv
         else do {
           c \<leftarrow> nth_opt (kv_v_cells kv) t;
           c \<leftarrow> for_opt (seq_div_body s q0 q1 d) [0..<cells_size c] c;
           Some (kv\<lparr>kv_v_cells := (kv_v_cells kv)[t := c]\<rparr>) }) })"

text \<open>The stream map of the cache that owns the cells.\<close>

definition owner_streams :: "llama_kv_cache \<Rightarrow> nat list" where
  "owner_streams kv = (case kv_other kv of Some m \<Rightarrow> m | None \<Rightarrow> kv_seq_to_stream kv)"

definition kv_seq_pos_min :: "llama_seq_id \<Rightarrow> llama_kv_cache \<Rightarrow> llama_pos option" where
  "kv_seq_pos_min s kv = do {
     t \<leftarrow> inth_opt (owner_streams kv) s;
     c \<leftarrow> nth_opt (kv_v_cells kv) t;
     cells_seq_pos_min s c }"

definition kv_seq_pos_max :: "llama_seq_id \<Rightarrow> llama_kv_cache \<Rightarrow> llama_pos option" where
  "kv_seq_pos_max s kv = do {
     t \<leftarrow> inth_opt (owner_streams kv) s;
     c \<leftarrow> nth_opt (kv_v_cells kv) t;
     cells_seq_pos_max s c }"

subsection \<open>The invariant of a cache\<close>

text \<open>
  A cell of stream \<open>t\<close> of a cache with \<open>n\<close> streams: a used cell belongs to a sequence, and
  with more than one stream to sequence \<open>t\<close> alone. Positions stay below \<open>INT32_MAX\<close>, which
  the code uses as the open end of a range.
\<close>

definition cell_ok :: "nat \<Rightarrow> nat \<Rightarrow> acell \<Rightarrow> bool" where
  "cell_ok n t x \<longleftrightarrow> acell_ok x \<and> a_pos x < INT32_MAX \<and> (a_pos x \<noteq> -1 \<longrightarrow> a_seq x \<noteq> {})
     \<and> (1 < n \<longrightarrow> a_seq x \<subseteq> {t})"

definition stream_ok :: "nat \<Rightarrow> nat \<Rightarrow> llama_kv_cells \<Rightarrow> bool" where
  "stream_ok n t c \<longleftrightarrow> cells_wf c \<and> (\<forall>x \<in> set (cells_abs c). cell_ok n t x)"

definition kv_length :: "llama_kv_cache \<Rightarrow> nat" where
  "kv_length kv = cells_size (kv_v_cells kv ! 0)"

definition kv_wf :: "llama_kv_cache \<Rightarrow> bool" where
  "kv_wf kv \<longleftrightarrow> (let n = kv_n_stream kv in
     0 < n \<and> n \<le> LLAMA_MAX_SEQ \<and> length (kv_v_heads kv) = n \<and> length (kv_v_cells kv) = n
     \<and> kv_seq_to_stream kv = (if n > 1 then [0..<n] else replicate LLAMA_MAX_SEQ 0)
     \<and> (\<forall>t < n. stream_ok n t (kv_v_cells kv ! t)
          \<and> kv_v_heads kv ! t \<le> kv_length kv
          \<and> cells_size (kv_v_cells kv ! t) = kv_length kv))"

text \<open>The cells of a stream, the stream of a sequence and the positions of a sequence.\<close>

definition kv_cells :: "llama_kv_cache \<Rightarrow> nat \<Rightarrow> acell list" where
  "kv_cells kv t = cells_abs (kv_v_cells kv ! t)"

definition kv_stream :: "llama_kv_cache \<Rightarrow> nat \<Rightarrow> nat" where
  "kv_stream kv s = (if kv_n_stream kv > 1 then s else 0)"

definition kv_has_seq :: "llama_kv_cache \<Rightarrow> nat \<Rightarrow> bool" where
  "kv_has_seq kv s \<longleftrightarrow> s < (if kv_n_stream kv > 1 then kv_n_stream kv else LLAMA_MAX_SEQ)"

definition kv_positions :: "llama_kv_cache \<Rightarrow> nat \<Rightarrow> llama_pos set" where
  "kv_positions kv s = seq_positions (kv_cells kv (kv_stream kv s)) s"

lemma cell_okD: "cell_ok n t x \<Longrightarrow> acell_ok x"
  by (simp add: cell_ok_def)

lemma cell_ok_empty [simp]: "cell_ok n t empty_cell"
  by (simp add: cell_ok_def INT32_MAX_def)

lemma stream_ok_repr [simp]: "stream_ok n t (cells_repr hs xs) \<longleftrightarrow> (\<forall>x \<in> set xs. cell_ok n t x)"
  by (auto simp: stream_ok_def cell_ok_def)

lemma kv_wfD:
  assumes "kv_wf kv"
  shows "0 < kv_n_stream kv" "kv_n_stream kv \<le> LLAMA_MAX_SEQ" "length (kv_v_heads kv) = kv_n_stream kv"
    "length (kv_v_cells kv) = kv_n_stream kv"
    "\<And>t. t < kv_n_stream kv \<Longrightarrow> stream_ok (kv_n_stream kv) t (kv_v_cells kv ! t)"
    "\<And>t. t < kv_n_stream kv \<Longrightarrow> kv_v_heads kv ! t \<le> kv_length kv"
    "\<And>t. t < kv_n_stream kv \<Longrightarrow> cells_size (kv_v_cells kv ! t) = kv_length kv"
  using assms by (simp_all add: kv_wf_def Let_def)

lemma kv_streams:
  assumes "kv_wf kv"
  shows "length (kv_seq_to_stream kv) = (if kv_n_stream kv > 1 then kv_n_stream kv else LLAMA_MAX_SEQ)"
    "\<And>s. kv_has_seq kv s \<Longrightarrow> kv_seq_to_stream kv ! s = kv_stream kv s"
    "\<And>s. kv_has_seq kv s \<Longrightarrow> kv_stream kv s < kv_n_stream kv"
    "\<And>s. kv_has_seq kv s \<Longrightarrow> s < LLAMA_MAX_SEQ"
  using assms unfolding kv_wf_def Let_def kv_has_seq_def kv_stream_def
  by (auto split: if_splits)

lemma kv_stream_lookup:
  assumes "kv_wf kv" "kv_has_seq kv (nat s)" "0 \<le> s"
  shows "inth_opt (kv_seq_to_stream kv) s = Some (kv_stream kv (nat s))"
proof -
  have "s < int (length (kv_seq_to_stream kv))"
    using kv_streams(1) [OF assms(1)] assms(2,3) by (auto simp: kv_has_seq_def nat_less_iff split: if_splits)
  then show ?thesis using assms by (simp add: kv_streams(2))
qed

lemma kv_cells_repr:
  assumes "kv_wf kv" "t < kv_n_stream kv"
  shows "kv_v_cells kv ! t = cells_repr (kc_has_shift (kv_v_cells kv ! t)) (kv_cells kv t)"
    "\<forall>x \<in> set (kv_cells kv t). cell_ok (kv_n_stream kv) t x"
    "cells_size (kv_v_cells kv ! t) = length (kv_cells kv t)"
  using kv_wfD(5) [OF assms] by (simp_all add: stream_ok_def kv_cells_def cells_repr_abs cells_size_def)

text \<open>Replacing one stream.\<close>

lemma set_stream_sel [simp]:
  "kv_n_stream (set_stream t c h kv) = kv_n_stream kv"
  "kv_seq_to_stream (set_stream t c h kv) = kv_seq_to_stream kv"
  "kv_other (set_stream t c h kv) = kv_other kv" "kv_hp (set_stream t c h kv) = kv_hp kv"
  "kv_v_cells (set_stream t c h kv) = (kv_v_cells kv)[t := c]"
  "kv_v_heads (set_stream t c h kv) = (kv_v_heads kv)[t := h]"
  "kv_n_swa (set_stream t c h kv) = kv_n_swa kv" "kv_swa_type (set_stream t c h kv) = kv_swa_type kv"
  "kv_stream (set_stream t c h kv) s = kv_stream kv s"
  "kv_has_seq (set_stream t c h kv) s = kv_has_seq kv s"
  by (simp_all add: set_stream_def kv_stream_def kv_has_seq_def)

lemma kv_cells_set_stream:
  "t < length (kv_v_cells kv) \<Longrightarrow>
   kv_cells (set_stream t (cells_repr hs xs) h kv) u = (if u = t then xs else kv_cells kv u)"
  by (simp add: kv_cells_def nth_list_update)

lemma kv_wf_set_stream:
  assumes "kv_wf kv" "t < kv_n_stream kv" "\<forall>x \<in> set xs. cell_ok (kv_n_stream kv) t x"
    and "length xs = length (kv_cells kv t)" "h \<le> length xs"
  shows "kv_wf (set_stream t (cells_repr hs xs) h kv)"
proof -
  have size: "kv_length kv = length xs"
    using kv_cells_repr(3) [OF assms(1,2)] assms(4) kv_wfD(7) [OF assms(1,2)] by simp
  have len: "length (kv_v_cells kv) = kv_n_stream kv" "length (kv_v_heads kv) = kv_n_stream kv"
    using kv_wfD [OF assms(1)] by simp_all
  have "stream_ok (kv_n_stream kv) u ((kv_v_cells kv)[t := cells_repr hs xs] ! u)
      \<and> (kv_v_heads kv)[t := h] ! u \<le> length xs
      \<and> cells_size ((kv_v_cells kv)[t := cells_repr hs xs] ! u) = length xs"
    if "u < kv_n_stream kv" for u
    using that assms(3,5) len kv_wfD(5,6) [OF assms(1) that] kv_wfD(7) [OF assms(1) that] size
    by (cases "u = t") simp_all
  moreover have "kv_length (set_stream t (cells_repr hs xs) h kv) = length xs"
    using calculation [OF kv_wfD(1) [OF assms(1)]] by (simp add: kv_length_def)
  ultimately show ?thesis
    using assms(1) unfolding kv_wf_def Let_def set_stream_sel length_list_update by metis
qed

subsection \<open>Scans over the cells\<close>

text \<open>
  A loop over all cells whose body rewrites the cell by \<open>f\<close>; \<open>touched\<close> says for which cells
  it sets \<open>has_shift\<close>.
\<close>

definition map_upto :: "nat \<Rightarrow> ('a \<Rightarrow> 'a) \<Rightarrow> 'a list \<Rightarrow> 'a list" where
  "map_upto k f xs = map f (take k xs) @ drop k xs"

lemma map_upto_simps [simp]:
  "map_upto 0 f xs = xs" "map_upto (length xs) f xs = map f xs" "length (map_upto k f xs) = length xs"
  by (simp_all add: map_upto_def)

lemma map_upto_step:
  assumes "k < length xs"
  shows "map_upto k f xs ! k = xs ! k" "(map_upto k f xs)[k := f (xs ! k)] = map_upto (Suc k) f xs"
proof -
  have "drop k xs = xs ! k # drop (Suc k) xs"
    using assms by (rule Cons_nth_drop_Suc [symmetric])
  then show "map_upto k f xs ! k = xs ! k" "(map_upto k f xs)[k := f (xs ! k)] = map_upto (Suc k) f xs"
    using assms by (simp_all add: map_upto_def nth_append list_update_append take_Suc_conv_app_nth)
qed

lemma map_upto_all:
  "\<forall>x \<in> set xs. P x \<Longrightarrow> (\<And>x. x \<in> set xs \<Longrightarrow> P (f x)) \<Longrightarrow> \<forall>y \<in> set (map_upto k f xs). P y"
  by (auto simp: map_upto_def dest: in_set_takeD in_set_dropD)

lemma for_opt_cells_map:
  assumes "\<forall>x \<in> set xs. acell_ok x" "\<And>x. x \<in> set xs \<Longrightarrow> acell_ok (f x)"
    and "\<And>i hs ys. i < length xs \<Longrightarrow> length ys = length xs \<Longrightarrow> ys ! i = xs ! i \<Longrightarrow> \<forall>y \<in> set ys. acell_ok y \<Longrightarrow>
      body i (cells_repr hs ys) = Some (cells_repr (hs \<or> touched (xs ! i)) (ys[i := f (xs ! i)]))"
  shows "for_opt body [0..<length xs] (cells_repr hs xs)
    = Some (cells_repr (hs \<or> (\<exists>x \<in> set xs. touched x)) (map f xs))"
proof -
  have ok: "\<forall>y \<in> set (map_upto k f xs). acell_ok y" for k
    by (rule map_upto_all) (fact assms)+
  have "\<exists>r. for_opt body [0..<length xs] (cells_repr hs xs) = Some r
      \<and> r = cells_repr (hs \<or> (\<exists>j < length xs. touched (xs ! j))) (map_upto (length xs) f xs)"
  proof (rule for_opt_upt_total [where P = "\<lambda>k r. r = cells_repr (hs \<or> (\<exists>j < k. touched (xs ! j))) (map_upto k f xs)"])
    show "cells_repr hs xs = cells_repr (hs \<or> (\<exists>j < 0. touched (xs ! j))) (map_upto 0 f xs)"
      by simp
  next
    fix k r
    assume k: "k < length xs" and r: "r = cells_repr (hs \<or> (\<exists>j < k. touched (xs ! j))) (map_upto k f xs)"
    have "(hs \<or> (\<exists>j < k. touched (xs ! j))) \<or> touched (xs ! k) \<longleftrightarrow> hs \<or> (\<exists>j < Suc k. touched (xs ! j))"
      by (auto simp: less_Suc_eq)
    with assms(3) [OF k map_upto_simps(3) map_upto_step(1) [OF k] ok] show "\<exists>s'. body k r = Some s'
        \<and> s' = cells_repr (hs \<or> (\<exists>j < Suc k. touched (xs ! j))) (map_upto (Suc k) f xs)"
      by (simp add: r map_upto_step(2) [OF k])
  qed
  moreover have "(\<exists>j < length xs. touched (xs ! j)) \<longleftrightarrow> (\<exists>x \<in> set xs. touched x)"
    by (metis in_set_conv_nth)
  ultimately show ?thesis by simp
qed

text \<open>The same loop when it also remembers the first freed cell.\<close>

definition first_idx :: "('a \<Rightarrow> bool) \<Rightarrow> 'a list \<Rightarrow> nat" where
  "first_idx P xs = length (takeWhile (\<lambda>x. \<not> P x) xs)"

lemma first_idx_le: "first_idx P xs \<le> length xs"
  by (simp add: first_idx_def length_takeWhile_le)

lemma first_idx_snoc:
  "first_idx P (xs @ [x]) = (if first_idx P xs < length xs then first_idx P xs
     else if P x then length xs else Suc (length xs))"
  by (induction xs) (auto simp: first_idx_def)

lemma for_opt_scan:
  assumes "\<forall>x \<in> set xs. acell_ok x" "\<And>x. x \<in> set xs \<Longrightarrow> acell_ok (f x)"
    and step: "\<And>i hs ys nh. i < length xs \<Longrightarrow> length ys = length xs \<Longrightarrow> ys ! i = xs ! i \<Longrightarrow>
      \<forall>y \<in> set ys. acell_ok y \<Longrightarrow>
      body i (cells_repr hs ys, nh) = Some (cells_repr (hs \<or> touched (xs ! i)) (ys[i := f (xs ! i)]),
        if freed (xs ! i) \<and> nh = length xs then i else nh)"
  shows "for_opt body [0..<length xs] (cells_repr hs xs, length xs)
    = Some (cells_repr (hs \<or> (\<exists>x \<in> set xs. touched x)) (map f xs), first_idx freed xs)"
proof -
  define nhs where "nhs k = (let m = first_idx freed (take k xs) in if m < k then m else length xs)" for k
  have nhs: "(if freed (xs ! k) \<and> nhs k = length xs then k else nhs k) = nhs (Suc k)" if "k < length xs" for k
    using that first_idx_le [of freed "take k xs"]
    by (auto simp: nhs_def Let_def take_Suc_conv_app_nth first_idx_snoc)
  define body' where "body' i c = map_option fst (body i (c, nhs i))" for i c
  have cells: "for_opt body' [0..<length xs] (cells_repr hs xs)
      = Some (cells_repr (hs \<or> (\<exists>x \<in> set xs. touched x)) (map f xs))"
    by (rule for_opt_cells_map) (use assms(1,2) step in \<open>simp_all add: body'_def\<close>)
  have ok: "\<forall>y \<in> set (map_upto k f xs). acell_ok y" for k
    by (rule map_upto_all) (fact assms)+
  have "\<exists>r. for_opt body [0..<length xs] (cells_repr hs xs, length xs) = Some r
      \<and> (\<exists>h. r = (cells_repr h (map_upto (length xs) f xs), nhs (length xs)))
      \<and> for_opt body' [0..<length xs] (cells_repr hs xs) = Some (fst r)"
  proof (rule for_opt_upt_total [where P = "\<lambda>k r. (\<exists>h. r = (cells_repr h (map_upto k f xs), nhs k))
      \<and> for_opt body' [0..<k] (cells_repr hs xs) = Some (fst r)"])
    show "(\<exists>h. (cells_repr hs xs, length xs) = (cells_repr h (map_upto 0 f xs), nhs 0))
        \<and> for_opt body' [0..<0] (cells_repr hs xs) = Some (fst (cells_repr hs xs, length xs))"
      by (auto simp: nhs_def)
  next
    fix k r
    assume k: "k < length xs" and "(\<exists>h. r = (cells_repr h (map_upto k f xs), nhs k))
      \<and> for_opt body' [0..<k] (cells_repr hs xs) = Some (fst r)"
    then obtain h where r: "r = (cells_repr h (map_upto k f xs), nhs k)"
      "for_opt body' [0..<k] (cells_repr hs xs) = Some (cells_repr h (map_upto k f xs))" by auto
    have "body k r = Some (cells_repr (h \<or> touched (xs ! k)) (map_upto (Suc k) f xs), nhs (Suc k))"
      using step [OF k map_upto_simps(3) map_upto_step(1) [OF k] ok, of h "nhs k"] nhs [OF k]
      by (simp add: r(1) map_upto_step(2) [OF k])
    then show "\<exists>r'. body k r = Some r' \<and> (\<exists>h. r' = (cells_repr h (map_upto (Suc k) f xs), nhs (Suc k)))
        \<and> for_opt body' [0..<Suc k] (cells_repr hs xs) = Some (fst r')"
      by (auto simp: for_opt_append r body'_def)
  qed
  moreover have "nhs (length xs) = first_idx freed xs"
    using first_idx_le [of freed xs] by (auto simp: nhs_def Let_def)
  ultimately show ?thesis using cells by auto
qed

text \<open>The cells of one stream, scanned, and the scan as the operations run it.\<close>

lemma scan_cells_map:
  assumes wf: "kv_wf kv" and t: "t < kv_n_stream kv"
    and ok: "\<And>x. x \<in> set (kv_cells kv t) \<Longrightarrow> cell_ok (kv_n_stream kv) t (f x)"
    and step: "\<And>i hs ys nh. i < length (kv_cells kv t) \<Longrightarrow> length ys = length (kv_cells kv t) \<Longrightarrow>
      ys ! i \<in> set (kv_cells kv t) \<Longrightarrow> \<forall>y \<in> set ys. acell_ok y \<Longrightarrow>
      body i (cells_repr hs ys, nh) = Some (cells_repr (hs \<or> touched (ys ! i)) (ys[i := f (ys ! i)]),
        note_freed (freed (ys ! i)) i (cells_repr hs ys) nh)"
  shows "\<exists>hs. for_opt body [0..<cells_size (kv_v_cells kv ! t)] (kv_v_cells kv ! t, cells_size (kv_v_cells kv ! t))
      = Some (cells_repr hs (map f (kv_cells kv t)), first_idx freed (kv_cells kv t))"
proof -
  let ?xs = "kv_cells kv t"
  obtain hs where c: "kv_v_cells kv ! t = cells_repr hs ?xs"
    using kv_cells_repr(1) [OF wf t] by blast
  have acells: "\<forall>x \<in> set ?xs. acell_ok x"
    using kv_cells_repr(2) [OF wf t] cell_okD by blast
  have fok: "\<And>x. x \<in> set ?xs \<Longrightarrow> acell_ok (f x)"
    using ok cell_okD by blast
  have "for_opt body [0..<length ?xs] (cells_repr hs ?xs, length ?xs)
      = Some (cells_repr (hs \<or> (\<exists>x \<in> set ?xs. touched x)) (map f ?xs), first_idx freed ?xs)"
    by (rule for_opt_scan) (use acells step fok in \<open>simp_all add: note_freed_def\<close>)
  then show ?thesis unfolding c by auto
qed

lemma kv_stream_get:
  assumes "kv_wf kv" "t < kv_n_stream kv"
  shows "nth_opt (kv_v_cells kv) t = Some (kv_v_cells kv ! t)" "nth_opt (kv_v_heads kv) t = Some (kv_v_heads kv ! t)"
    "kv_v_heads kv ! t \<le> length (kv_cells kv t)" "length (kv_cells kv t) = kv_length kv"
  using kv_wfD(3,4) [OF assms(1)] kv_wfD(6,7) [OF assms] kv_cells_repr(3) [OF assms] assms(2) by simp_all

lemma scan_stream_map:
  assumes wf: "kv_wf kv" and t: "t < kv_n_stream kv"
    and ok: "\<And>x. x \<in> set (kv_cells kv t) \<Longrightarrow> cell_ok (kv_n_stream kv) t (f x)"
    and step: "\<And>i hs ys nh. i < length (kv_cells kv t) \<Longrightarrow> length ys = length (kv_cells kv t) \<Longrightarrow>
      ys ! i \<in> set (kv_cells kv t) \<Longrightarrow> \<forall>y \<in> set ys. acell_ok y \<Longrightarrow>
      body i (cells_repr hs ys, nh) = Some (cells_repr (hs \<or> touched (ys ! i)) (ys[i := f (ys ! i)]),
        note_freed (freed (ys ! i)) i (cells_repr hs ys) nh)"
  shows "\<exists>hs h. scan_stream body t kv = Some (set_stream t (cells_repr hs (map f (kv_cells kv t))) h kv)
     \<and> h = min (first_idx freed (kv_cells kv t)) (kv_v_heads kv ! t)
     \<and> kv_wf (set_stream t (cells_repr hs (map f (kv_cells kv t))) h kv)"
proof -
  let ?xs = "kv_cells kv t" and ?h = "min (first_idx freed (kv_cells kv t)) (kv_v_heads kv ! t)"
  obtain hs where run: "for_opt body [0..<cells_size (kv_v_cells kv ! t)] (kv_v_cells kv ! t, cells_size (kv_v_cells kv ! t))
      = Some (cells_repr hs (map f ?xs), first_idx freed ?xs)"
    using scan_cells_map [OF wf t ok step] by blast
  have "lower_head (first_idx freed ?xs) (cells_repr hs (map f ?xs)) (kv_v_heads kv ! t) = ?h"
    using kv_stream_get(3) [OF wf t] first_idx_le [of freed ?xs] by (auto simp: lower_head_def)
  then have "scan_stream body t kv = Some (set_stream t (cells_repr hs (map f ?xs)) ?h kv)"
    by (simp add: scan_stream_def run kv_stream_get [OF wf t])
  moreover have "kv_wf (set_stream t (cells_repr hs (map f ?xs)) ?h kv)"
    by (rule kv_wf_set_stream [OF wf t]) (use ok kv_stream_get(3) [OF wf t] in auto)
  ultimately show ?thesis by blast
qed

subsection \<open>Removing, keeping and shifting sequences\<close>

definition in_range :: "llama_pos \<Rightarrow> llama_pos \<Rightarrow> acell \<Rightarrow> bool" where
  "in_range p0 p1 x \<longleftrightarrow> 0 \<le> a_pos x \<and> pos_between p0 p1 (a_pos x)"

lemma in_range_clamp:
  "acell_ok x \<Longrightarrow> a_pos x < INT32_MAX \<Longrightarrow>
   clamp_p0 p0 \<le> a_pos x \<and> a_pos x < clamp_p1 p1 \<longleftrightarrow> in_range p0 p1 x"
  by (auto simp: in_range_def pos_between_def clamp_p0_def clamp_p1_def)

definition rm_cell :: "nat \<Rightarrow> llama_pos \<Rightarrow> llama_pos \<Rightarrow> acell \<Rightarrow> acell" where
  "rm_cell s p0 p1 x = (if in_range p0 p1 x \<and> s \<in> a_seq x then drop_seq s x else x)"

lemma cell_ok_drop_seq: "cell_ok n t x \<Longrightarrow> cell_ok n t (drop_seq s x)"
  using acell_ok_drop_seq [of x s] by (auto simp: cell_ok_def drop_seq_def INT32_MAX_def)

lemma cell_ok_rm_cell: "cell_ok n t x \<Longrightarrow> cell_ok n t (rm_cell s p0 p1 x)"
  by (simp add: rm_cell_def cell_ok_drop_seq)

lemma cell_ok_keep_seq: "cell_ok n t x \<Longrightarrow> cell_ok n t (keep_seq s x)"
  using acell_ok_keep_seq [of x s] by (auto simp: cell_ok_def keep_seq_def INT32_MAX_def)

lemma seq_rm_body_repr:
  assumes "\<forall>x \<in> set xs. acell_ok x" "i < length xs" "cell_ok n t (xs ! i)" "0 \<le> s" "nat s < LLAMA_MAX_SEQ"
  shows "seq_rm_body s (clamp_p0 p0) (clamp_p1 p1) i (cells_repr hs xs, nh)
    = Some (cells_repr hs (xs[i := rm_cell (nat s) p0 p1 (xs ! i)]),
        note_freed (in_range p0 p1 (xs ! i) \<and> a_seq (xs ! i) = {nat s}) i (cells_repr hs xs) nh)"
proof -
  have r: "clamp_p0 p0 \<le> a_pos (xs ! i) \<and> a_pos (xs ! i) < clamp_p1 p1 \<longleftrightarrow> in_range p0 p1 (xs ! i)"
    using assms(3) by (intro in_range_clamp) (auto simp: cell_ok_def)
  have s: "s < int LLAMA_MAX_SEQ" using assms(4,5) by simp
  consider "\<not> in_range p0 p1 (xs ! i)" | "in_range p0 p1 (xs ! i)" "nat s \<notin> a_seq (xs ! i)"
    | "in_range p0 p1 (xs ! i)" "nat s \<in> a_seq (xs ! i)" by blast
  then show ?thesis
  proof cases
    case 1
    then show ?thesis using assms(2) r by (simp add: seq_rm_body_def rm_cell_def note_freed_def)
  next
    case 2
    then have "a_seq (xs ! i) \<noteq> {nat s}" by blast
    then show ?thesis using 2 assms(2,4) r s by (simp add: seq_rm_body_def rm_cell_def note_freed_def)
  next
    case 3
    then have "a_seq (xs ! i) - {nat s} = {} \<longleftrightarrow> a_seq (xs ! i) = {nat s}" by blast
    then show ?thesis using 3 assms(2,4) r s cells_seq_rm_repr [OF assms(1,2) 3(2)]
      by (simp add: seq_rm_body_def rm_cell_def note_freed_def)
  qed
qed

lemma scan_seq_rm:
  assumes wf: "kv_wf kv" and t: "t < kv_n_stream kv" and s: "0 \<le> s" "nat s < LLAMA_MAX_SEQ"
  shows "\<exists>hs h. scan_stream (seq_rm_body s (clamp_p0 p0) (clamp_p1 p1)) t kv
      = Some (set_stream t (cells_repr hs (map (rm_cell (nat s) p0 p1) (kv_cells kv t))) h kv)
    \<and> kv_wf (set_stream t (cells_repr hs (map (rm_cell (nat s) p0 p1) (kv_cells kv t))) h kv)"
proof -
  have "\<exists>hs h. scan_stream (seq_rm_body s (clamp_p0 p0) (clamp_p1 p1)) t kv
      = Some (set_stream t (cells_repr hs (map (rm_cell (nat s) p0 p1) (kv_cells kv t))) h kv)
    \<and> h = min (first_idx (\<lambda>x. in_range p0 p1 x \<and> a_seq x = {nat s}) (kv_cells kv t)) (kv_v_heads kv ! t)
    \<and> kv_wf (set_stream t (cells_repr hs (map (rm_cell (nat s) p0 p1) (kv_cells kv t))) h kv)"
  proof (rule scan_stream_map [OF wf t, where touched = "\<lambda>_. False"])
    fix x assume "x \<in> set (kv_cells kv t)"
    then show "cell_ok (kv_n_stream kv) t (rm_cell (nat s) p0 p1 x)"
      using kv_cells_repr(2) [OF wf t] by (simp add: cell_ok_rm_cell)
  next
    fix i hs ys nh
    assume i: "i < length (kv_cells kv t)" "length ys = length (kv_cells kv t)" "ys ! i \<in> set (kv_cells kv t)"
      and ys: "\<forall>y \<in> set ys. acell_ok y"
    have "cell_ok (kv_n_stream kv) t (ys ! i)"
      using kv_cells_repr(2) [OF wf t] i by simp
    then show "seq_rm_body s (clamp_p0 p0) (clamp_p1 p1) i (cells_repr hs ys, nh)
      = Some (cells_repr (hs \<or> False) (ys[i := rm_cell (nat s) p0 p1 (ys ! i)]),
        note_freed (in_range p0 p1 (ys ! i) \<and> a_seq (ys ! i) = {nat s}) i (cells_repr hs ys) nh)"
      using seq_rm_body_repr [OF ys _ _ s, of i _ _ p0 p1 hs nh] i by simp
  qed
  then show ?thesis by blast
qed

lemma seq_positions_map:
  "seq_positions (map f xs) u = {a_pos (f x) |x. x \<in> set xs \<and> u \<in> a_seq (f x)}"
  by (auto simp: seq_positions_def)

lemma seq_positions_rm_cell:
  assumes "\<forall>x \<in> set xs. cell_ok n t x"
  shows "seq_positions (map (rm_cell s p0 p1) xs) u
    = (if u = s then {p \<in> seq_positions xs s. \<not> pos_between p0 p1 p} else seq_positions xs u)"
proof -
  have eq: "u \<in> a_seq (rm_cell s p0 p1 x) \<longleftrightarrow> u \<in> a_seq x \<and> (u = s \<longrightarrow> \<not> in_range p0 p1 x)"
    "u \<in> a_seq (rm_cell s p0 p1 x) \<Longrightarrow> a_pos (rm_cell s p0 p1 x) = a_pos x" for x
    by (auto simp: rm_cell_def drop_seq_def split: if_splits)
  have nonneg: "0 \<le> a_pos x" if "x \<in> set xs" "v \<in> a_seq x" for x v
    using assms that by (fastforce simp: cell_ok_def acell_ok_def)
  have "seq_positions (map (rm_cell s p0 p1) xs) u
      = {a_pos x |x. x \<in> set xs \<and> u \<in> a_seq x \<and> (u = s \<longrightarrow> \<not> in_range p0 p1 x)}"
    unfolding seq_positions_map using eq(1) eq(2) by (intro Collect_cong ex_cong) metis
  also have "\<dots> = (if u = s then {p \<in> seq_positions xs s. \<not> pos_between p0 p1 p} else seq_positions xs u)"
    using nonneg by (auto simp: seq_positions_def in_range_def)
  finally show ?thesis .
qed

lemma kv_positions_set_stream:
  assumes "kv_wf kv" "t < kv_n_stream kv"
  shows "kv_positions (set_stream t (cells_repr hs xs) h kv) u
    = (if kv_stream kv u = t then seq_positions xs u else kv_positions kv u)"
  using assms kv_wfD(4) [OF assms(1)] by (simp add: kv_positions_def kv_cells_set_stream)

lemma kv_seq_rm_run:
  assumes wf: "kv_wf kv" and own: "kv_other kv = None" and s: "kv_has_seq kv s"
  shows "\<exists>hs h. kv_seq_rm (int s) p0 p1 kv = Some (True, set_stream (kv_stream kv s)
      (cells_repr hs (map (rm_cell s p0 p1) (kv_cells kv (kv_stream kv s)))) h kv)
    \<and> kv_wf (set_stream (kv_stream kv s)
      (cells_repr hs (map (rm_cell s p0 p1) (kv_cells kv (kv_stream kv s)))) h kv)"
proof -
  have look: "inth_opt (kv_seq_to_stream kv) (int s) = Some (kv_stream kv s)"
    using kv_stream_lookup [OF wf, of "int s"] s by simp
  then have "s < length (kv_seq_to_stream kv)" by (simp add: inth_opt_Some)
  moreover obtain hs h where "scan_stream (seq_rm_body (int s) (clamp_p0 p0) (clamp_p1 p1)) (kv_stream kv s) kv
      = Some (set_stream (kv_stream kv s) (cells_repr hs (map (rm_cell s p0 p1) (kv_cells kv (kv_stream kv s)))) h kv)"
    and "kv_wf (set_stream (kv_stream kv s) (cells_repr hs (map (rm_cell s p0 p1) (kv_cells kv (kv_stream kv s)))) h kv)"
    using scan_seq_rm [OF wf kv_streams(3) [OF wf s], of "int s" p0 p1] kv_streams(4) [OF wf s] by auto
  ultimately show ?thesis using own look by (auto simp: kv_seq_rm_def)
qed

lemma kv_seq_rm_positions:
  assumes wf: "kv_wf kv" and own: "kv_other kv = None" and s: "kv_has_seq kv s"
  shows "\<exists>kv'. kv_seq_rm (int s) p0 p1 kv = Some (True, kv') \<and> kv_wf kv' \<and> kv_other kv' = None
    \<and> kv_has_seq kv' = kv_has_seq kv
    \<and> (\<forall>t. kv_positions kv' t =
          (if t = s then {p \<in> kv_positions kv s. \<not> pos_between p0 p1 p} else kv_positions kv t))"
proof -
  let ?t = "kv_stream kv s"
  have t: "?t < kv_n_stream kv" by (rule kv_streams(3) [OF wf s])
  obtain hs h where run: "kv_seq_rm (int s) p0 p1 kv = Some (True, set_stream ?t
      (cells_repr hs (map (rm_cell s p0 p1) (kv_cells kv ?t))) h kv)"
    and wf': "kv_wf (set_stream ?t (cells_repr hs (map (rm_cell s p0 p1) (kv_cells kv ?t))) h kv)"
    using kv_seq_rm_run [OF assms] by blast
  let ?kv = "set_stream ?t (cells_repr hs (map (rm_cell s p0 p1) (kv_cells kv ?t))) h kv"
  have "kv_positions ?kv u =
      (if u = s then {p \<in> kv_positions kv s. \<not> pos_between p0 p1 p} else kv_positions kv u)" for u
    unfolding kv_positions_set_stream [OF wf t]
    using seq_positions_rm_cell [OF kv_cells_repr(2) [OF wf t], of s p0 p1 u]
    by (cases "u = s"; cases "kv_stream kv u = ?t") (simp_all add: kv_positions_def)
  moreover have "kv_other ?kv = None" "kv_has_seq ?kv = kv_has_seq kv"
    using own by (simp_all add: fun_eq_iff)
  ultimately show ?thesis using run wf' by blast
qed

subsection \<open>The queries\<close>

lemma seq_positions_nonneg:
  assumes "kv_wf kv" "t < kv_n_stream kv" "p \<in> seq_positions (kv_cells kv t) s"
  shows "0 \<le> p" "p < INT32_MAX"
  using kv_cells_repr(2) [OF assms(1,2)] assms(3)
  by (fastforce simp: seq_positions_def cell_ok_def acell_ok_def)+

lemma kv_seq_pos:
  assumes wf: "kv_wf kv" and own: "kv_other kv = None" and s: "kv_has_seq kv s"
  shows "kv_seq_pos_min (int s) kv = Some (set_pos_min (kv_positions kv s))"
    "kv_seq_pos_max (int s) kv = Some (set_pos_max (kv_positions kv s))"
proof -
  have t: "kv_stream kv s < kv_n_stream kv" by (rule kv_streams(3) [OF wf s])
  have look: "inth_opt (owner_streams kv) (int s) = Some (kv_stream kv s)"
    "nth_opt (kv_v_cells kv) (kv_stream kv s) = Some (kv_v_cells kv ! kv_stream kv s)"
    using kv_stream_lookup [OF wf, of "int s"] s own t kv_wfD(4) [OF wf] by (simp_all add: owner_streams_def)
  obtain hs where c: "kv_v_cells kv ! kv_stream kv s = cells_repr hs (kv_cells kv (kv_stream kv s))"
    using kv_cells_repr(1) [OF wf t] by blast
  have "int s < int LLAMA_MAX_SEQ" using kv_streams(4) [OF wf s] by simp
  then show "kv_seq_pos_min (int s) kv = Some (set_pos_min (kv_positions kv s))"
    "kv_seq_pos_max (int s) kv = Some (set_pos_max (kv_positions kv s))"
    by (simp_all add: kv_seq_pos_min_def kv_seq_pos_max_def look c
        kv_positions_def set_pos_min_def set_pos_max_def pos_min_of_def pos_max_of_def)
qed

text \<open>A cache with cells of its own is a memory of sequences.\<close>

definition kv_inv :: "llama_kv_cache \<Rightarrow> bool" where
  "kv_inv kv \<longleftrightarrow> kv_wf kv \<and> kv_other kv = None"

interpretation kv_mem: seq_memory kv_inv kv_has_seq kv_positions kv_seq_rm kv_seq_pos_min kv_seq_pos_max
proof
  fix kv s and p :: llama_pos
  assume kv: "kv_inv kv" "kv_has_seq kv s"
  then have t: "kv_stream kv s < kv_n_stream kv" by (simp add: kv_inv_def kv_streams(3))
  show "finite (kv_positions kv s)" by (simp add: kv_positions_def)
  show "p \<in> kv_positions kv s \<Longrightarrow> 0 \<le> p"
    using seq_positions_nonneg(1) [OF _ t] kv(1) by (simp add: kv_positions_def kv_inv_def)
next
  fix kv s p0 p1
  assume "kv_inv kv" "kv_has_seq kv s"
  then show "\<exists>kv'. kv_seq_rm (int s) p0 p1 kv = Some (True, kv') \<and> kv_inv kv' \<and> kv_has_seq kv' = kv_has_seq kv
      \<and> (\<forall>t. kv_has_seq kv t \<longrightarrow> kv_positions kv' t =
          (if t = s then {p \<in> kv_positions kv s. \<not> pos_between p0 p1 p} else kv_positions kv t))"
    using kv_seq_rm_positions [of kv s p0 p1] by (auto simp: kv_inv_def)
next
  fix kv s
  assume "kv_inv kv" "kv_has_seq kv s"
  then show "kv_seq_pos_min (int s) kv = Some (set_pos_min (kv_positions kv s))"
    "kv_seq_pos_max (int s) kv = Some (set_pos_max (kv_positions kv s))"
    by (simp_all add: kv_inv_def kv_seq_pos)
qed

subsection \<open>Keeping, shifting and dividing\<close>

lemma kv_lookup:
  assumes "kv_wf kv" "kv_has_seq kv s"
  shows "inth_opt (kv_seq_to_stream kv) (int s) = Some (kv_stream kv s)"
    "kv_stream kv s < kv_n_stream kv" "s < LLAMA_MAX_SEQ"
  using kv_stream_lookup [of kv "int s"] kv_streams(3,4) assms by simp_all

lemma kv_seq_keep_run:
  assumes wf: "kv_wf kv" and own: "kv_other kv = None" and s: "kv_has_seq kv s"
  shows "\<exists>hs h. kv_seq_keep (int s) kv = Some (set_stream (kv_stream kv s)
      (cells_repr hs (map (keep_seq s) (kv_cells kv (kv_stream kv s)))) h kv)
    \<and> kv_wf (set_stream (kv_stream kv s) (cells_repr hs (map (keep_seq s) (kv_cells kv (kv_stream kv s)))) h kv)"
proof -
  let ?t = "kv_stream kv s"
  have t: "?t < kv_n_stream kv" by (rule kv_lookup(2) [OF wf s])
  have "\<exists>hs h. scan_stream (seq_keep_body (int s)) ?t kv
      = Some (set_stream ?t (cells_repr hs (map (keep_seq s) (kv_cells kv ?t))) h kv)
    \<and> h = min (first_idx (\<lambda>x. s \<notin> a_seq x \<and> a_seq x \<noteq> {}) (kv_cells kv ?t)) (kv_v_heads kv ! ?t)
    \<and> kv_wf (set_stream ?t (cells_repr hs (map (keep_seq s) (kv_cells kv ?t))) h kv)"
  proof (rule scan_stream_map [OF wf t, where touched = "\<lambda>_. False"])
    fix x assume "x \<in> set (kv_cells kv ?t)"
    then show "cell_ok (kv_n_stream kv) ?t (keep_seq s x)"
      using kv_cells_repr(2) [OF wf t] by (simp add: cell_ok_keep_seq)
  next
    fix i hs ys nh
    assume i: "i < length (kv_cells kv ?t)" "length ys = length (kv_cells kv ?t)" "ys ! i \<in> set (kv_cells kv ?t)"
      and ys: "\<forall>y \<in> set ys. acell_ok y"
    have "cell_ok (kv_n_stream kv) ?t (ys ! i)"
      using kv_cells_repr(2) [OF wf t] i by simp
    then show "seq_keep_body (int s) i (cells_repr hs ys, nh)
      = Some (cells_repr (hs \<or> False) (ys[i := keep_seq s (ys ! i)]),
        note_freed (s \<notin> a_seq (ys ! i) \<and> a_seq (ys ! i) \<noteq> {}) i (cells_repr hs ys) nh)"
      using cells_seq_keep_repr [OF ys, of i s hs] i kv_lookup(3) [OF wf s]
      by (simp add: seq_keep_body_def cell_ok_def note_freed_def)
  qed
  then show ?thesis using own kv_lookup(1) [OF wf s] by (auto simp: kv_seq_keep_def)
qed

lemma seq_positions_keep_seq:
  "seq_positions (map (keep_seq s) xs) u = (if u = s then seq_positions xs s else {})"
  by (auto simp: seq_positions_map keep_seq_def) (auto simp: seq_positions_def)

definition shift_safe :: "int \<Rightarrow> acell \<Rightarrow> bool" where
  "shift_safe d x \<longleftrightarrow> INT32_MIN \<le> a_pos x + d \<and> a_pos x + d < INT32_MAX
     \<and> INT32_MIN \<le> a_shift x + d \<and> a_shift x + d \<le> INT32_MAX"

definition add_cell :: "nat \<Rightarrow> llama_pos \<Rightarrow> llama_pos \<Rightarrow> int \<Rightarrow> acell \<Rightarrow> acell" where
  "add_cell s p0 p1 d x = (if in_range p0 p1 x \<and> s \<in> a_seq x then shift_pos d x else x)"

lemma cell_ok_shift_pos: "cell_ok n t x \<Longrightarrow> a_pos x + d < INT32_MAX \<Longrightarrow> 0 \<le> a_pos x \<Longrightarrow> cell_ok n t (shift_pos d x)"
  using acell_ok_shift_pos [of x d] by (auto simp: cell_ok_def shift_pos_def INT32_MAX_def)

lemma cell_ok_add_cell:
  assumes "cell_ok n t x" "in_range p0 p1 x \<and> s \<in> a_seq x \<longrightarrow> shift_safe d x"
  shows "cell_ok n t (add_cell s p0 p1 d x)"
  using assms cell_ok_shift_pos [of n t x d] by (auto simp: add_cell_def shift_safe_def in_range_def)

lemma seq_add_body_repr:
  assumes "\<forall>x \<in> set xs. acell_ok x" "i < length xs" "cell_ok n t (xs ! i)" "s < LLAMA_MAX_SEQ"
    and "in_range p0 p1 (xs ! i) \<and> s \<in> a_seq (xs ! i) \<longrightarrow> shift_safe d (xs ! i)"
  shows "seq_add_body (int s) (clamp_p0 p0) (clamp_p1 p1) d i (cells_repr hs xs, nh)
    = Some (cells_repr (hs \<or> in_range p0 p1 (xs ! i) \<and> s \<in> a_seq (xs ! i)) (xs[i := add_cell s p0 p1 d (xs ! i)]),
        note_freed (in_range p0 p1 (xs ! i) \<and> s \<in> a_seq (xs ! i) \<and> a_pos (xs ! i) + d < 0) i (cells_repr hs xs) nh)"
proof -
  have r: "clamp_p0 p0 \<le> a_pos (xs ! i) \<and> a_pos (xs ! i) < clamp_p1 p1 \<longleftrightarrow> in_range p0 p1 (xs ! i)"
    using assms(3) by (intro in_range_clamp) (auto simp: cell_ok_def)
  consider "\<not> in_range p0 p1 (xs ! i)" | "in_range p0 p1 (xs ! i)" "s \<notin> a_seq (xs ! i)"
    | "in_range p0 p1 (xs ! i)" "s \<in> a_seq (xs ! i)" by blast
  then show ?thesis
  proof cases
    case 3
    then have "cells_pos_add i d (cells_repr hs xs)
      = Some (a_pos (xs ! i) + d < 0, cells_repr True (xs[i := shift_pos d (xs ! i)]))"
      using assms by (intro cells_pos_add_repr) (auto simp: shift_safe_def in_range_def)
    then show ?thesis using 3 assms(2,4) r by (simp add: seq_add_body_def add_cell_def note_freed_def)
  qed (use assms(2,4) r in \<open>simp_all add: seq_add_body_def add_cell_def note_freed_def\<close>)
qed

lemma kv_seq_add_run:
  assumes wf: "kv_wf kv" and own: "kv_other kv = None" and s: "kv_has_seq kv s"
    and one: "hp_n_pos_per_embd (kv_hp kv) = 1" and d: "d \<noteq> 0" and p: "clamp_p0 p0 \<noteq> clamp_p1 p1"
    and safe: "\<forall>x \<in> set (kv_cells kv (kv_stream kv s)). in_range p0 p1 x \<and> s \<in> a_seq x \<longrightarrow> shift_safe d x"
  shows "\<exists>hs h. kv_seq_add (int s) p0 p1 d kv = Some (set_stream (kv_stream kv s)
      (cells_repr hs (map (add_cell s p0 p1 d) (kv_cells kv (kv_stream kv s)))) h kv)
    \<and> kv_wf (set_stream (kv_stream kv s)
      (cells_repr hs (map (add_cell s p0 p1 d) (kv_cells kv (kv_stream kv s)))) h kv)"
proof -
  let ?t = "kv_stream kv s" and ?fr = "\<lambda>x. in_range p0 p1 x \<and> s \<in> a_seq x \<and> a_pos x + d < 0"
  let ?xs = "kv_cells kv ?t"
  have t: "?t < kv_n_stream kv" by (rule kv_lookup(2) [OF wf s])
  have ok: "cell_ok (kv_n_stream kv) ?t (add_cell s p0 p1 d x)" if "x \<in> set ?xs" for x
    using kv_cells_repr(2) [OF wf t] safe that by (simp add: cell_ok_add_cell)
  have "\<exists>hs. for_opt (seq_add_body (int s) (clamp_p0 p0) (clamp_p1 p1) d) [0..<cells_size (kv_v_cells kv ! ?t)]
        (kv_v_cells kv ! ?t, cells_size (kv_v_cells kv ! ?t))
      = Some (cells_repr hs (map (add_cell s p0 p1 d) ?xs), first_idx ?fr ?xs)"
  proof (rule scan_cells_map [OF wf t ok])
    fix i hs ys nh
    assume i: "i < length ?xs" "length ys = length ?xs" "ys ! i \<in> set ?xs" and ys: "\<forall>y \<in> set ys. acell_ok y"
    then have "cell_ok (kv_n_stream kv) ?t (ys ! i)" "in_range p0 p1 (ys ! i) \<and> s \<in> a_seq (ys ! i) \<longrightarrow> shift_safe d (ys ! i)"
      using kv_cells_repr(2) [OF wf t] safe by blast+
    then show "seq_add_body (int s) (clamp_p0 p0) (clamp_p1 p1) d i (cells_repr hs ys, nh)
      = Some (cells_repr (hs \<or> (in_range p0 p1 (ys ! i) \<and> s \<in> a_seq (ys ! i))) (ys[i := add_cell s p0 p1 d (ys ! i)]),
          note_freed (?fr (ys ! i)) i (cells_repr hs ys) nh)"
      using seq_add_body_repr [OF ys _ _ kv_lookup(3) [OF wf s]] i by simp
  qed
  then obtain hs where run: "for_opt (seq_add_body (int s) (clamp_p0 p0) (clamp_p1 p1) d) [0..<cells_size (kv_v_cells kv ! ?t)]
        (kv_v_cells kv ! ?t, cells_size (kv_v_cells kv ! ?t))
      = Some (cells_repr hs (map (add_cell s p0 p1 d) ?xs), first_idx ?fr ?xs)" by blast
  let ?h = "if first_idx ?fr ?xs \<noteq> length ?xs then first_idx ?fr ?xs else 0"
  have "kv_seq_add (int s) p0 p1 d kv = Some (set_stream ?t (cells_repr hs (map (add_cell s p0 p1 d) ?xs)) ?h kv)"
    using own one d p by (simp add: kv_seq_add_def Let_def kv_lookup(1) [OF wf s] kv_stream_get [OF wf t] run)
  moreover have "kv_wf (set_stream ?t (cells_repr hs (map (add_cell s p0 p1 d) ?xs)) ?h kv)"
    by (rule kv_wf_set_stream [OF wf t]) (use ok first_idx_le [of ?fr ?xs] in auto)
  ultimately show ?thesis by blast
qed

text \<open>A loop over the cells of one stream that does not look at the head.\<close>

lemma cells_map_stream:
  assumes wf: "kv_wf kv" and t: "t < kv_n_stream kv"
    and ok: "\<And>x. x \<in> set (kv_cells kv t) \<Longrightarrow> cell_ok (kv_n_stream kv) t (f x)"
    and step: "\<And>i hs ys. i < length (kv_cells kv t) \<Longrightarrow> length ys = length (kv_cells kv t) \<Longrightarrow>
      ys ! i \<in> set (kv_cells kv t) \<Longrightarrow> \<forall>y \<in> set ys. acell_ok y \<Longrightarrow>
      body i (cells_repr hs ys) = Some (cells_repr (hs \<or> touched (ys ! i)) (ys[i := f (ys ! i)]))"
  shows "\<exists>hs. for_opt body [0..<cells_size (kv_v_cells kv ! t)] (kv_v_cells kv ! t)
      = Some (cells_repr hs (map f (kv_cells kv t)))
    \<and> kv\<lparr>kv_v_cells := (kv_v_cells kv)[t := cells_repr hs (map f (kv_cells kv t))]\<rparr>
      = set_stream t (cells_repr hs (map f (kv_cells kv t))) (kv_v_heads kv ! t) kv
    \<and> kv_wf (set_stream t (cells_repr hs (map f (kv_cells kv t))) (kv_v_heads kv ! t) kv)"
proof -
  let ?xs = "kv_cells kv t"
  obtain hs where c: "kv_v_cells kv ! t = cells_repr hs ?xs"
    using kv_cells_repr(1) [OF wf t] by blast
  have acells: "\<forall>x \<in> set ?xs. acell_ok x"
    using kv_cells_repr(2) [OF wf t] cell_okD by blast
  have fok: "\<And>x. x \<in> set ?xs \<Longrightarrow> acell_ok (f x)"
    using ok cell_okD by blast
  have "for_opt body [0..<length ?xs] (cells_repr hs ?xs)
      = Some (cells_repr (hs \<or> (\<exists>x \<in> set ?xs. touched x)) (map f ?xs))"
    by (rule for_opt_cells_map) (use acells step fok in simp_all)
  moreover have "kv_wf (set_stream t (cells_repr h (map f ?xs)) (kv_v_heads kv ! t) kv)" for h
    by (rule kv_wf_set_stream [OF wf t]) (use ok kv_stream_get(3) [OF wf t] in auto)
  ultimately show ?thesis unfolding c by (auto simp: set_stream_def)
qed

definition div_cell :: "nat \<Rightarrow> llama_pos \<Rightarrow> llama_pos \<Rightarrow> int \<Rightarrow> acell \<Rightarrow> acell" where
  "div_cell s p0 p1 d x = (if in_range p0 p1 x \<and> s \<in> a_seq x then div_pos d x else x)"

definition div_safe :: "int \<Rightarrow> acell \<Rightarrow> bool" where
  "div_safe d x \<longleftrightarrow> a_shift x + (a_pos x - a_pos x div d) \<le> INT32_MAX \<and> INT32_MIN \<le> a_shift x"

lemma div_le_self: "0 \<le> a \<Longrightarrow> 0 < d \<Longrightarrow> a div d \<le> (a :: int)"
  using zdiv_mono2 [of a 1 d] by simp

lemma cell_ok_div_pos:
  assumes "cell_ok n t x" "0 < d" "0 \<le> a_pos x"
  shows "cell_ok n t (div_pos d x)"
proof -
  have "0 \<le> a_pos x div d" "a_pos x div d \<le> a_pos x"
    using assms(2,3) by (simp_all add: pos_imp_zdiv_nonneg_iff div_le_self)
  then show ?thesis using assms by (auto simp: cell_ok_def acell_ok_def div_pos_def)
qed

lemma kv_seq_div_run:
  assumes wf: "kv_wf kv" and own: "kv_other kv = None" and s: "kv_has_seq kv s"
    and one: "hp_n_pos_per_embd (kv_hp kv) = 1" and d: "1 < d" and p: "clamp_p0 p0 \<noteq> clamp_p1 p1"
    and safe: "\<forall>x \<in> set (kv_cells kv (kv_stream kv s)). in_range p0 p1 x \<and> s \<in> a_seq x \<longrightarrow> div_safe d x"
  shows "\<exists>hs h. kv_seq_div (int s) p0 p1 d kv = Some (set_stream (kv_stream kv s)
      (cells_repr hs (map (div_cell s p0 p1 d) (kv_cells kv (kv_stream kv s)))) h kv)
    \<and> kv_wf (set_stream (kv_stream kv s)
      (cells_repr hs (map (div_cell s p0 p1 d) (kv_cells kv (kv_stream kv s)))) h kv)"
proof -
  let ?t = "kv_stream kv s"
  let ?xs = "kv_cells kv ?t"
  have t: "?t < kv_n_stream kv" by (rule kv_lookup(2) [OF wf s])
  have ok: "cell_ok (kv_n_stream kv) ?t (div_cell s p0 p1 d x)" if "x \<in> set ?xs" for x
    using kv_cells_repr(2) [OF wf t] that d by (simp add: div_cell_def in_range_def cell_ok_div_pos)
  have "\<exists>hs. for_opt (seq_div_body (int s) (clamp_p0 p0) (clamp_p1 p1) d) [0..<cells_size (kv_v_cells kv ! ?t)]
        (kv_v_cells kv ! ?t) = Some (cells_repr hs (map (div_cell s p0 p1 d) ?xs))
      \<and> kv\<lparr>kv_v_cells := (kv_v_cells kv)[?t := cells_repr hs (map (div_cell s p0 p1 d) ?xs)]\<rparr>
        = set_stream ?t (cells_repr hs (map (div_cell s p0 p1 d) ?xs)) (kv_v_heads kv ! ?t) kv
      \<and> kv_wf (set_stream ?t (cells_repr hs (map (div_cell s p0 p1 d) ?xs)) (kv_v_heads kv ! ?t) kv)"
  proof (rule cells_map_stream [OF wf t ok])
    fix i hs ys
    assume i: "i < length ?xs" "length ys = length ?xs" "ys ! i \<in> set ?xs" and ys: "\<forall>y \<in> set ys. acell_ok y"
    have okx: "cell_ok (kv_n_stream kv) ?t (ys ! i)" and
      safex: "in_range p0 p1 (ys ! i) \<and> s \<in> a_seq (ys ! i) \<longrightarrow> div_safe d (ys ! i)"
      using kv_cells_repr(2) [OF wf t] safe i(3) by blast+
    have r: "clamp_p0 p0 \<le> a_pos (ys ! i) \<and> a_pos (ys ! i) < clamp_p1 p1 \<longleftrightarrow> in_range p0 p1 (ys ! i)"
      using okx by (intro in_range_clamp) (auto simp: cell_ok_def)
    have "cells_pos_div i d (cells_repr hs ys) = Some (cells_repr True (ys[i := div_pos d (ys ! i)]))"
      if "in_range p0 p1 (ys ! i)" "s \<in> a_seq (ys ! i)"
    proof (rule cells_pos_div_repr)
      have "a_pos (ys ! i) div d \<le> a_pos (ys ! i)"
        using that(1) d by (simp add: in_range_def div_le_self)
      then show "INT32_MIN \<le> a_shift (ys ! i) + (a_pos (ys ! i) - a_pos (ys ! i) div d)"
        using safex that by (simp add: div_safe_def)
    qed (use that ys i d safex in \<open>auto simp: div_safe_def in_range_def\<close>)
    then show "seq_div_body (int s) (clamp_p0 p0) (clamp_p1 p1) d i (cells_repr hs ys)
      = Some (cells_repr (hs \<or> (in_range p0 p1 (ys ! i) \<and> s \<in> a_seq (ys ! i))) (ys[i := div_cell s p0 p1 d (ys ! i)]))"
      using i r kv_lookup(3) [OF wf s] by (simp add: seq_div_body_def div_cell_def)
  qed
  then obtain hs where
    run: "for_opt (seq_div_body (int s) (clamp_p0 p0) (clamp_p1 p1) d) [0..<cells_size (kv_v_cells kv ! ?t)]
        (kv_v_cells kv ! ?t) = Some (cells_repr hs (map (div_cell s p0 p1 d) ?xs))"
    and upd: "kv\<lparr>kv_v_cells := (kv_v_cells kv)[?t := cells_repr hs (map (div_cell s p0 p1 d) ?xs)]\<rparr>
        = set_stream ?t (cells_repr hs (map (div_cell s p0 p1 d) ?xs)) (kv_v_heads kv ! ?t) kv"
    and wf': "kv_wf (set_stream ?t (cells_repr hs (map (div_cell s p0 p1 d) ?xs)) (kv_v_heads kv ! ?t) kv)"
    by blast
  have "kv_seq_div (int s) p0 p1 d kv
      = Some (set_stream ?t (cells_repr hs (map (div_cell s p0 p1 d) ?xs)) (kv_v_heads kv ! ?t) kv)"
    using own one d p
    by (simp add: kv_seq_div_def Let_def kv_lookup(1) [OF wf s] kv_stream_get [OF wf t] run upd)
  with wf' show ?thesis by blast
qed

subsection \<open>Copying a sequence within a stream\<close>

definition cp_cell :: "nat \<Rightarrow> nat \<Rightarrow> llama_pos \<Rightarrow> llama_pos \<Rightarrow> acell \<Rightarrow> acell" where
  "cp_cell src dst p0 p1 x = (if in_range p0 p1 x \<and> src \<in> a_seq x then x\<lparr>a_seq := insert dst (a_seq x)\<rparr> else x)"

lemma kv_wf_queue: "kv_wf (kv\<lparr>kv_ssrc := a, kv_sdst := b\<rparr>) \<longleftrightarrow> kv_wf kv"
  by (simp add: kv_wf_def kv_length_def)

lemma kv_seq_cp_self:
  assumes "kv_wf kv" "kv_other kv = None" "kv_has_seq kv s"
  shows "kv_seq_cp (int s) (int s) p0 p1 kv = Some kv"
  using kv_lookup [OF assms(1,3)] kv_stream_get(1) [OF assms(1)] assms(2) by (simp add: kv_seq_cp_def)

lemma kv_seq_cp_same_run:
  assumes wf: "kv_wf kv" and own: "kv_other kv = None" and src: "kv_has_seq kv src" and dst: "kv_has_seq kv dst"
    and one: "kv_n_stream kv = 1" and neq: "src \<noteq> dst"
    and free: "\<forall>x \<in> set (kv_cells kv 0). in_range p0 p1 x \<and> src \<in> a_seq x \<longrightarrow> dst \<notin> a_seq x"
  shows "\<exists>hs h. kv_seq_cp (int src) (int dst) p0 p1 kv = Some (set_stream 0
      (cells_repr hs (map (cp_cell src dst p0 p1) (kv_cells kv 0))) h kv)
    \<and> kv_wf (set_stream 0 (cells_repr hs (map (cp_cell src dst p0 p1) (kv_cells kv 0))) h kv)"
proof -
  let ?xs = "kv_cells kv 0"
  have t: "0 < kv_n_stream kv" using one by simp
  have st: "kv_stream kv src = 0" "kv_stream kv dst = 0" using one by (simp_all add: kv_stream_def)
  have lim: "src < LLAMA_MAX_SEQ" "dst < LLAMA_MAX_SEQ" using kv_lookup(3) [OF wf] src dst by simp_all
  have ok: "cell_ok (kv_n_stream kv) 0 (cp_cell src dst p0 p1 x)" if "x \<in> set ?xs" for x
    using kv_cells_repr(2) [OF wf t] that lim(2) one
    by (auto simp: cp_cell_def cell_ok_def acell_ok_def in_range_def)
  have "\<exists>hs. for_opt (seq_cp_body (int src) (int dst) (clamp_p0 p0) (clamp_p1 p1)) [0..<cells_size (kv_v_cells kv ! 0)]
        (kv_v_cells kv ! 0) = Some (cells_repr hs (map (cp_cell src dst p0 p1) ?xs))
      \<and> kv\<lparr>kv_v_cells := (kv_v_cells kv)[0 := cells_repr hs (map (cp_cell src dst p0 p1) ?xs)]\<rparr>
        = set_stream 0 (cells_repr hs (map (cp_cell src dst p0 p1) ?xs)) (kv_v_heads kv ! 0) kv
      \<and> kv_wf (set_stream 0 (cells_repr hs (map (cp_cell src dst p0 p1) ?xs)) (kv_v_heads kv ! 0) kv)"
  proof (rule cells_map_stream [OF wf t ok, where touched = "\<lambda>_. False"])
    fix i hs ys
    assume i: "i < length ?xs" "length ys = length ?xs" "ys ! i \<in> set ?xs" and ys: "\<forall>y \<in> set ys. acell_ok y"
    have okx: "cell_ok (kv_n_stream kv) 0 (ys ! i)" and
      freex: "in_range p0 p1 (ys ! i) \<and> src \<in> a_seq (ys ! i) \<longrightarrow> dst \<notin> a_seq (ys ! i)"
      using kv_cells_repr(2) [OF wf t] free i(3) by blast+
    have r: "clamp_p0 p0 \<le> a_pos (ys ! i) \<and> a_pos (ys ! i) < clamp_p1 p1 \<longleftrightarrow> in_range p0 p1 (ys ! i)"
      using okx by (intro in_range_clamp) (auto simp: cell_ok_def)
    have "cells_seq_add i dst (cells_repr hs ys) = Some (cells_repr hs (ys[i := (ys ! i)\<lparr>a_seq := insert dst (a_seq (ys ! i))\<rparr>]))"
      if "in_range p0 p1 (ys ! i)" "src \<in> a_seq (ys ! i)"
      by (rule cells_seq_add_repr) (use that freex i lim in \<open>auto simp: in_range_def\<close>)
    then show "seq_cp_body (int src) (int dst) (clamp_p0 p0) (clamp_p1 p1) i (cells_repr hs ys)
      = Some (cells_repr (hs \<or> False) (ys[i := cp_cell src dst p0 p1 (ys ! i)]))"
      using i r lim by (simp add: seq_cp_body_def cp_cell_def)
  qed
  then obtain hs where
    run: "for_opt (seq_cp_body (int src) (int dst) (clamp_p0 p0) (clamp_p1 p1)) [0..<cells_size (kv_v_cells kv ! 0)]
        (kv_v_cells kv ! 0) = Some (cells_repr hs (map (cp_cell src dst p0 p1) ?xs))"
    and upd: "kv\<lparr>kv_v_cells := (kv_v_cells kv)[0 := cells_repr hs (map (cp_cell src dst p0 p1) ?xs)]\<rparr>
        = set_stream 0 (cells_repr hs (map (cp_cell src dst p0 p1) ?xs)) (kv_v_heads kv ! 0) kv"
    and wf': "kv_wf (set_stream 0 (cells_repr hs (map (cp_cell src dst p0 p1) ?xs)) (kv_v_heads kv ! 0) kv)"
    by blast
  have "kv_seq_cp (int src) (int dst) p0 p1 kv
      = Some (set_stream 0 (cells_repr hs (map (cp_cell src dst p0 p1) ?xs)) (kv_v_heads kv ! 0) kv)"
    using own neq st kv_lookup(1) [OF wf src] kv_lookup(1) [OF wf dst]
    by (simp add: kv_seq_cp_def kv_stream_get [OF wf t] run upd)
  with wf' show ?thesis by blast
qed

lemma seq_positions_cp_cell:
  assumes "\<forall>x \<in> set xs. cell_ok n t x" "src \<noteq> dst"
  shows "seq_positions (map (cp_cell src dst p0 p1) xs) u
    = (if u = dst then seq_positions xs dst \<union> {p \<in> seq_positions xs src. pos_between p0 p1 p} else seq_positions xs u)"
proof -
  have nonneg: "0 \<le> a_pos x" if "x \<in> set xs" "v \<in> a_seq x" for x v
    using assms that by (fastforce simp: cell_ok_def acell_ok_def)
  have eq: "a_pos (cp_cell src dst p0 p1 x) = a_pos x" 
    "u \<in> a_seq (cp_cell src dst p0 p1 x) \<longleftrightarrow> u \<in> a_seq x \<or> u = dst \<and> in_range p0 p1 x \<and> src \<in> a_seq x" for x
    by (auto simp: cp_cell_def)
  show ?thesis
    unfolding seq_positions_map eq using nonneg by (auto simp: seq_positions_def in_range_def)
qed

subsection \<open>Copying a sequence to another stream\<close>

definition copy_cell :: "nat \<Rightarrow> nat \<Rightarrow> acell \<Rightarrow> acell" where
  "copy_cell src dst x = (if src \<in> a_seq x then x\<lparr>a_seq := {dst}\<rparr> else empty_cell)"

definition copy_safe :: "acell \<Rightarrow> bool" where
  "copy_safe x \<longleftrightarrow> INT32_MIN \<le> a_shift x \<and> a_shift x \<le> a_pos x \<and> a_pos x - a_shift x \<le> INT32_MAX"

lemma stream_cp_body_repr:
  assumes "\<forall>x \<in> set xs. acell_ok x" "\<forall>y \<in> set ys. acell_ok y" "i < length xs" "length ys = length xs"
    and "ys ! i = empty_cell" "src < LLAMA_MAX_SEQ" "dst < LLAMA_MAX_SEQ"
    and "src \<in> a_seq (xs ! i) \<longrightarrow> copy_safe (xs ! i) \<and> 0 \<le> a_pos (xs ! i)"
  shows "\<exists>h. stream_cp_body (cells_repr hs xs) (int src) (int dst) i (cells_repr hs' ys)
    = Some (cells_repr h (ys[i := copy_cell src dst (xs ! i)]))"
proof (cases "src \<in> a_seq (xs ! i)")
  case False
  then have "ys[i := copy_cell src dst (xs ! i)] = ys"
    using assms(5) by (simp add: copy_cell_def list_update_same_conv assms(3,4))
  then show ?thesis using False assms by (intro exI [of _ hs']) (simp add: stream_cp_body_def)
next
  case True
  let ?x = "xs ! i"
  let ?p = "a_pos ?x - a_shift ?x"
  let ?y1 = "empty_cell\<lparr>a_pos := ?p, a_seq := {dst}\<rparr>"
  have x: "0 \<le> ?p" "?p \<le> INT32_MAX" "0 \<le> a_pos ?x" "a_pos ?x \<le> INT32_MAX" "a_pos ?x \<noteq> -1"
      "INT32_MIN \<le> a_shift ?x" "a_shift ?x \<le> INT32_MAX"
    using True assms(8) acells_ok_nth [OF assms(1,3)]
    by (auto simp: copy_safe_def acell_ok_def)
  have set1: "cells_pos_set i ?p (cells_repr hs' ys) = Some (cells_repr hs' (ys[i := empty_cell\<lparr>a_pos := ?p\<rparr>]))"
    using cells_pos_set_repr [of i ys ?p hs'] assms(3,4,5) x(1) by simp
  have add1: "cells_seq_add i dst (cells_repr hs' (ys[i := empty_cell\<lparr>a_pos := ?p\<rparr>])) = Some (cells_repr hs' (ys[i := ?y1]))"
    using cells_seq_add_repr [of i "ys[i := empty_cell\<lparr>a_pos := ?p\<rparr>]" dst hs'] assms(3,4,7) x(1) by simp
  have "acell_ok ?y1" using x(1,2) assms(7) by (simp add: acell_ok_def)
  then have ok1: "\<forall>y \<in> set (ys[i := ?y1]). acell_ok y"
    using assms(2) acells_ok_update by blast
  have shift1: "\<exists>h. (if a_shift ?x \<noteq> 0 then map_option snd (cells_pos_add i (a_shift ?x) (cells_repr hs' (ys[i := ?y1])))
        else Some (cells_repr hs' (ys[i := ?y1])))
      = Some (cells_repr h (ys[i := empty_cell\<lparr>a_pos := a_pos ?x, a_shift := a_shift ?x, a_seq := {dst}\<rparr>]))"
  proof (cases "a_shift ?x = 0")
    case True
    then show ?thesis by (simp add: empty_cell_def) blast
  next
    case False
    have "cells_pos_add i (a_shift ?x) (cells_repr hs' (ys[i := ?y1]))
      = Some (a_pos (ys[i := ?y1] ! i) + a_shift ?x < 0, cells_repr True (ys[i := ?y1, i := shift_pos (a_shift ?x) (ys[i := ?y1] ! i)]))"
      by (rule cells_pos_add_repr [OF ok1]) (use assms(3,4) x in \<open>simp_all add: INT32_MIN_def\<close>)
    then show ?thesis using False x(3) assms(3,4)
      by (intro exI [of _ True]) (simp add: shift_pos_def empty_cell_def)
  qed
  then obtain h where shift2: "(if a_shift ?x \<noteq> 0 then map_option snd (cells_pos_add i (a_shift ?x) (cells_repr hs' (ys[i := ?y1])))
        else Some (cells_repr hs' (ys[i := ?y1])))
      = Some (cells_repr h (ys[i := empty_cell\<lparr>a_pos := a_pos ?x, a_shift := a_shift ?x, a_seq := {dst}\<rparr>]))" by blast
  have rec: "?x\<lparr>a_seq := {dst}\<rparr> = \<lparr>a_pos = a_pos ?x, a_ext = a_ext ?x, a_shift = a_shift ?x, a_seq = {dst}\<rparr>"
    by (cases ?x) simp
  have ext: "cells_ext_set i (a_ext ?x) (cells_repr h (ys[i := empty_cell\<lparr>a_pos := a_pos ?x, a_shift := a_shift ?x, a_seq := {dst}\<rparr>]))
      = Some (cells_repr h (ys[i := copy_cell src dst ?x]))"
    using cells_ext_set_repr [of i "ys[i := empty_cell\<lparr>a_pos := a_pos ?x, a_shift := a_shift ?x, a_seq := {dst}\<rparr>]" "a_ext ?x" h]
      True assms(3,4) by (simp add: copy_cell_def empty_cell_def rec)
  have pos: "(if a_shift ?x \<noteq> 0 then do { pos \<leftarrow> i32 ?p; check (pos \<ge> 0); Some pos } else Some (a_pos ?x)) = Some ?p"
    using x(1,2) by (simp add: INT32_MIN_def check_def)
  show ?thesis
    using True assms(3,6) x(5)
    by (intro exI [of _ h]) (simp add: stream_cp_body_def pos set1 add1 shift2 ext del: i32_Some)
qed

lemma kv_seq_cp_stream_run:
  assumes wf: "kv_wf kv" and own: "kv_other kv = None" and src: "kv_has_seq kv src" and dst: "kv_has_seq kv dst"
    and many: "1 < kv_n_stream kv" and neq: "src \<noteq> dst" and full: "p0 \<le> 0" "p1 \<le> 0"
    and safe: "\<forall>x \<in> set (kv_cells kv src). src \<in> a_seq x \<longrightarrow> copy_safe x"
  shows "\<exists>hs h. kv_seq_cp (int src) (int dst) p0 p1 kv
      = Some (set_stream dst (cells_repr hs (map (copy_cell src dst) (kv_cells kv src))) h
          (kv\<lparr>kv_ssrc := kv_ssrc kv @ [src], kv_sdst := kv_sdst kv @ [dst]\<rparr>))
    \<and> kv_wf (set_stream dst (cells_repr hs (map (copy_cell src dst) (kv_cells kv src))) h
          (kv\<lparr>kv_ssrc := kv_ssrc kv @ [src], kv_sdst := kv_sdst kv @ [dst]\<rparr>))"
proof -
  let ?kv = "kv\<lparr>kv_ssrc := kv_ssrc kv @ [src], kv_sdst := kv_sdst kv @ [dst]\<rparr>"
  let ?xs = "kv_cells kv src"
  let ?n = "length ?xs"
  have st: "kv_stream kv src = src" "kv_stream kv dst = dst" using many by (simp_all add: kv_stream_def)
  have t: "src < kv_n_stream kv" "dst < kv_n_stream kv"
    using kv_lookup(2) [OF wf src] kv_lookup(2) [OF wf dst] st by simp_all
  have lim: "src < LLAMA_MAX_SEQ" "dst < LLAMA_MAX_SEQ" using kv_lookup(3) [OF wf] src dst by simp_all
  obtain hs where c0: "kv_v_cells kv ! src = cells_repr hs ?xs"
    using kv_cells_repr(1) [OF wf t(1)] by blast
  have len: "length (kv_cells kv dst) = ?n"
    using kv_stream_get(4) [OF wf t(1)] kv_stream_get(4) [OF wf t(2)] by simp
  obtain hd where c1: "kv_v_cells kv ! dst = cells_repr hd (kv_cells kv dst)"
    using kv_cells_repr(1) [OF wf t(2)] by blast
  have okx: "\<forall>x \<in> set ?xs. cell_ok (kv_n_stream kv) src x" and acells: "\<forall>x \<in> set ?xs. acell_ok x"
    using kv_cells_repr(2) [OF wf t(1)] cell_okD by blast+
  have "\<forall>x \<in> set (kv_cells kv dst). acell_ok x"
    using kv_cells_repr(2) [OF wf t(2)] cell_okD by blast
  then have reset: "cells_reset (kv_v_cells kv ! dst) = cells_repr False (replicate ?n empty_cell)"
    by (simp add: c1 cells_reset_repr len)
  have okf: "cell_ok (kv_n_stream kv) dst (copy_cell src dst x)" if "x \<in> set ?xs" for x
  proof (cases "src \<in> a_seq x")
    case True
    have "cell_ok (kv_n_stream kv) src x" using okx that by blast
    then show ?thesis using True lim(2) by (auto simp: copy_cell_def cell_ok_def acell_ok_def)
  qed (simp add: copy_cell_def)
  define mid where "mid k = map (copy_cell src dst) (take k ?xs) @ replicate (?n - k) empty_cell" for k
  have "\<exists>r. for_opt (stream_cp_body (cells_repr hs ?xs) (int src) (int dst)) [0..<?n] (cells_repr False (replicate ?n empty_cell))
      = Some r \<and> (\<exists>h. r = cells_repr h (mid ?n))"
  proof (rule for_opt_upt_total [where P = "\<lambda>k r. \<exists>h. r = cells_repr h (mid k)"])
    show "\<exists>h. cells_repr False (replicate ?n empty_cell) = cells_repr h (mid 0)"
      by (auto simp: mid_def)
  next
    fix k r
    assume k: "k < ?n" and "\<exists>h. r = cells_repr h (mid k)"
    then obtain h where r: "r = cells_repr h (mid k)" by blast
    have len: "length (mid k) = ?n" using k by (simp add: mid_def)
    have upd: "(mid k)[k := copy_cell src dst (?xs ! k)] = mid (Suc k)"
    proof -
      have "replicate (?n - k) empty_cell = empty_cell # replicate (?n - Suc k) empty_cell"
        using k by (metis Suc_diff_Suc replicate_Suc)
      then show ?thesis using k by (simp add: mid_def list_update_append take_Suc_conv_app_nth)
    qed
    have okm: "\<forall>y \<in> set (mid k). acell_ok y"
      using okf cell_okD by (fastforce simp: mid_def dest: in_set_takeD)
    have mk: "mid k ! k = empty_cell" using k by (simp add: mid_def nth_append)
    have sf: "src \<in> a_seq (?xs ! k) \<longrightarrow> copy_safe (?xs ! k) \<and> 0 \<le> a_pos (?xs ! k)"
      using safe k okx by (fastforce simp: cell_ok_def acell_ok_def)
    obtain h' where "stream_cp_body (cells_repr hs ?xs) (int src) (int dst) k r = Some (cells_repr h' (mid (Suc k)))"
      using stream_cp_body_repr [OF acells okm k len mk lim sf, of hs h] unfolding r upd by blast
    then show "\<exists>r'. stream_cp_body (cells_repr hs ?xs) (int src) (int dst) k r = Some r'
        \<and> (\<exists>h. r' = cells_repr h (mid (Suc k)))" by blast
  qed
  then obtain h where run: "for_opt (stream_cp_body (cells_repr hs ?xs) (int src) (int dst)) [0..<?n]
      (cells_repr False (replicate ?n empty_cell)) = Some (cells_repr h (map (copy_cell src dst) ?xs))"
    by (auto simp: mid_def)
  have size: "kv_get_size kv = Some (kv_length kv)"
  proof -
    have "kv_seq_to_stream kv ! 0 = 0" "0 < length (kv_seq_to_stream kv)"
      using kv_streams(1,2) [OF wf] many by (auto simp: kv_has_seq_def kv_stream_def)
    then show ?thesis using kv_wfD(4) [OF wf] many by (simp add: kv_get_size_def kv_length_def)
  qed
  have eq: "kv_seq_cp (int src) (int dst) p0 p1 kv
      = Some (set_stream dst (cells_repr h (map (copy_cell src dst) ?xs)) (kv_v_heads kv ! src) ?kv)"
    using own neq full
    by (simp add: kv_seq_cp_def kv_lookup(1) [OF wf src] kv_lookup(1) [OF wf dst] st kv_stream_get(1,2) [OF wf t(1)]
        kv_stream_get(1,2) [OF wf t(2)] size reset c0 run)
  have wfk: "kv_wf ?kv" using wf by (simp add: kv_wf_def kv_length_def)
  have "kv_wf (set_stream dst (cells_repr h (map (copy_cell src dst) ?xs)) (kv_v_heads kv ! src) ?kv)"
    by (rule kv_wf_set_stream [OF wfk])
       (use t okf len kv_stream_get(3) [OF wf t(1)] in \<open>auto simp: kv_cells_def\<close>)
  with eq show ?thesis by blast
qed

lemma seq_positions_copy_cell:
  "seq_positions (map (copy_cell src dst) xs) dst = seq_positions xs src"
  unfolding seq_positions_map by (auto simp: copy_cell_def seq_positions_def)

subsection \<open>Clearing and a new cache\<close>

lemma kv_cells_eqI:
  "kv_wf kv \<Longrightarrow> t < kv_n_stream kv \<Longrightarrow> kv_v_cells kv ! t = cells_repr hs xs \<Longrightarrow> kv_cells kv t = xs"
  by (simp add: kv_cells_def)

lemma kv_clear_step:
  assumes "kv_wf kv" "t < kv_n_stream kv"
  shows "cells_reset (kv_v_cells kv ! t) = cells_repr False (replicate (kv_length kv) empty_cell)"
proof -
  obtain hs where "kv_v_cells kv ! t = cells_repr hs (kv_cells kv t)"
    using kv_cells_repr(1) [OF assms] by blast
  moreover have "\<forall>x \<in> set (kv_cells kv t). acell_ok x"
    using kv_cells_repr(2) [OF assms] cell_okD by blast
  ultimately show ?thesis by (simp add: cells_reset_repr kv_stream_get(4) [OF assms])
qed

lemma kv_length_set_stream:
  assumes "kv_wf kv" "t < kv_n_stream kv" "cells_size c = kv_length kv"
  shows "kv_length (set_stream t c h kv) = kv_length kv"
  using assms kv_wfD(1,4) [OF assms(1)] by (simp add: kv_length_def nth_list_update)

lemma kv_clear_run:
  assumes wf: "kv_wf kv"
  shows "\<exists>kv'. kv_clear kv = Some kv' \<and> kv_wf kv' \<and> kv_other kv' = kv_other kv
    \<and> kv_n_stream kv' = kv_n_stream kv \<and> kv_length kv' = kv_length kv
    \<and> (\<forall>t < kv_n_stream kv. kv_cells kv' t = replicate (kv_length kv) empty_cell \<and> kv_v_heads kv' ! t = 0)"
proof -
  let ?P = "\<lambda>k kv'. kv_wf kv' \<and> kv_other kv' = kv_other kv \<and> kv_n_stream kv' = kv_n_stream kv
    \<and> kv_length kv' = kv_length kv
    \<and> (\<forall>t < k. kv_cells kv' t = replicate (kv_length kv) empty_cell \<and> kv_v_heads kv' ! t = 0)"
  have "\<exists>kv'. kv_clear kv = Some kv' \<and> ?P (kv_n_stream kv) kv'"
    unfolding kv_clear_def
  proof (rule for_opt_upt_total [where P = ?P])
    show "?P 0 kv" using wf by simp
  next
    fix k kv1
    assume k: "k < kv_n_stream kv" and P: "?P k kv1"
    then have wf1: "kv_wf kv1" and n1: "k < kv_n_stream kv1" and l1: "kv_length kv1 = kv_length kv" by simp_all
    let ?e = "replicate (kv_length kv) empty_cell"
    let ?kv2 = "set_stream k (cells_repr False ?e) 0 kv1"
    have "kv_wf ?kv2"
      by (rule kv_wf_set_stream [OF wf1 n1]) (simp_all add: kv_stream_get(4) [OF wf1 n1] l1)
    moreover have "kv_length ?kv2 = kv_length kv"
      using kv_length_set_stream [OF wf1 n1, of "cells_repr False ?e" 0] l1 by simp
    moreover have "kv_cells ?kv2 t = ?e \<and> kv_v_heads ?kv2 ! t = 0" if "t < Suc k" for t
      using P that n1 kv_wfD(3,4) [OF wf1] by (auto simp: kv_cells_set_stream nth_list_update less_Suc_eq)
    ultimately have "?P (Suc k) ?kv2" using P by simp
    then show "\<exists>kv'. (do { c \<leftarrow> nth_opt (kv_v_cells kv1) k; _ \<leftarrow> nth_opt (kv_v_heads kv1) k;
        Some (set_stream k (cells_reset c) 0 kv1) }) = Some kv' \<and> ?P (Suc k) kv'"
      by (simp add: kv_stream_get(1,2) [OF wf1 n1] kv_clear_step [OF wf1 n1] l1)
  qed
  then show ?thesis by blast
qed

lemma kv_new_own:
  assumes "n_pad \<noteq> 0" "kv_size mod n_pad = 0" "0 < n_seq_max" "n_seq_max \<le> LLAMA_MAX_SEQ"
  shows "\<exists>kv. kv_new hp unified kv_size n_seq_max n_pad n_swa swa_type None = Some kv \<and> kv_inv kv
    \<and> kv_n_stream kv = (if unified then 1 else n_seq_max)
    \<and> (\<forall>t < kv_n_stream kv. kv_cells kv t = replicate kv_size empty_cell \<and> kv_v_heads kv ! t = 0)"
proof -
  have cells: "cells_resize kv_size cells_new = cells_repr False (replicate kv_size empty_cell)"
    by (rule cells_resize_eq) (simp add: cells_new_def)
  show ?thesis
    using assms
    by (auto simp: kv_new_def Let_def cells kv_inv_def kv_wf_def kv_length_def kv_cells_def map_nth LLAMA_MAX_SEQ_def
        simp del: upt_Suc)
qed

subsection \<open>What the sequence operations do\<close>

text \<open>Two small caches: a unified one with a shared cell, and one with a stream per sequence.\<close>

definition demo_hp :: kv_hparams where
  "demo_hp = \<lparr>hp_n_pos_per_embd = 1, hp_ple_n_heads = 0, hp_ple_image_token_id = 0,
     hp_ple_eos_token_id = 0, hp_is_step35 = False, hp_rope_none = False,
     hp_use_alibi = False, hp_non_causal_type = LLAMA_NON_CAUSAL_TYPE_ALL\<rparr>"

definition demo_cell :: "llama_pos \<Rightarrow> nat set \<Rightarrow> acell" where
  "demo_cell p S = \<lparr>a_pos = p, a_ext = ext_default, a_shift = 0, a_seq = S\<rparr>"

definition kv_demo :: llama_kv_cache where
  "kv_demo = \<lparr>kv_hp = demo_hp, kv_n_seq_max = 2, kv_n_stream = 1, kv_n_pad = 1, kv_n_swa = 0,
     kv_swa_type = LLAMA_SWA_TYPE_NONE, kv_v_heads = [3], kv_other = None,
     kv_v_cells = [cells_repr False [demo_cell 0 {0}, demo_cell 1 {0, 1}, demo_cell 2 {0}, empty_cell]],
     kv_seq_to_stream = replicate LLAMA_MAX_SEQ 0, kv_ssrc = [], kv_sdst = []\<rparr>"

definition kv_demo2 :: llama_kv_cache where
  "kv_demo2 = \<lparr>kv_hp = demo_hp, kv_n_seq_max = 2, kv_n_stream = 2, kv_n_pad = 1, kv_n_swa = 0,
     kv_swa_type = LLAMA_SWA_TYPE_NONE, kv_v_heads = [2, 1], kv_other = None,
     kv_v_cells = [cells_repr False [demo_cell 0 {0}, demo_cell 1 {0}],
                   cells_repr False [demo_cell 5 {1}, empty_cell]],
     kv_seq_to_stream = [0, 1], kv_ssrc = [], kv_sdst = []\<rparr>"

lemma demo_sel [simp]:
  "kv_n_stream kv_demo = 1" "kv_n_stream kv_demo2 = 2" "kv_other kv_demo = None" "kv_other kv_demo2 = None"
  "kv_hp kv_demo = demo_hp" "kv_hp kv_demo2 = demo_hp" "hp_n_pos_per_embd demo_hp = 1"
  "kv_stream kv_demo s = 0" "kv_stream kv_demo2 s = s"
  "kv_cells kv_demo 0 = [demo_cell 0 {0}, demo_cell 1 {0, 1}, demo_cell 2 {0}, empty_cell]"
  "kv_cells kv_demo2 0 = [demo_cell 0 {0}, demo_cell 1 {0}]"
  "kv_cells kv_demo2 (Suc 0) = [demo_cell 5 {1}, empty_cell]"
  "a_pos (demo_cell p S) = p" "a_seq (demo_cell p S) = S" "a_shift (demo_cell p S) = 0"
  by (simp_all add: kv_demo_def kv_demo2_def kv_stream_def kv_cells_def demo_cell_def demo_hp_def)

lemma demo_inv: "kv_inv kv_demo" "kv_inv kv_demo2"
proof -
  have ok: "acell_ok (demo_cell p S)" if "0 \<le> p" "p < 9" "S \<subseteq> {0, 1}" for p S
    using that by (auto simp: acell_ok_def INT32_MAX_def LLAMA_MAX_SEQ_def)
  show "kv_inv kv_demo"
    by (simp add: kv_inv_def kv_wf_def kv_demo_def kv_length_def cell_ok_def ok INT32_MAX_def LLAMA_MAX_SEQ_def)
  show "kv_inv kv_demo2"
    by (auto simp: kv_inv_def kv_wf_def kv_demo2_def kv_length_def cell_ok_def ok INT32_MAX_def LLAMA_MAX_SEQ_def
        less_Suc_eq numeral_2_eq_2)
qed

lemma demo_has_seq [simp]: "kv_has_seq kv_demo s \<longleftrightarrow> s < 256" "kv_has_seq kv_demo2 s \<longleftrightarrow> s < 2"
  by (simp_all add: kv_has_seq_def LLAMA_MAX_SEQ_def)

lemma seq_positions_Nil [simp]: "seq_positions [] s = {}"
  by (simp add: seq_positions_def)

lemma seq_positions_Cons [simp]:
  "seq_positions (x # xs) s = (if s \<in> a_seq x then insert (a_pos x) (seq_positions xs s) else seq_positions xs s)"
  by (auto simp: seq_positions_def)

text \<open>
  C19: \<open>seq_rm\<close>. On a cache in its invariant the removal of \<open>[p0, p1)\<close> of a sequence succeeds,
  keeps the invariant, takes exactly these positions from the sequence and none from another
  one, and empties exactly the cells that belonged to that sequence alone.
\<close>
theorem kv_seq_rm_correct:
  assumes "kv_inv kv" "kv_has_seq kv s"
  shows "\<exists>kv'. kv_seq_rm (int s) p0 p1 kv = Some (True, kv') \<and> kv_inv kv'
    \<and> (\<forall>t. kv_positions kv' t =
          (if t = s then {p \<in> kv_positions kv s. \<not> pos_between p0 p1 p} else kv_positions kv t))
    \<and> (\<forall>i < length (kv_cells kv (kv_stream kv s)). let x = kv_cells kv (kv_stream kv s) ! i in
          a_pos (kv_cells kv' (kv_stream kv s) ! i) =
            (if a_seq x = {s} \<and> pos_between p0 p1 (a_pos x) then -1 else a_pos x))"
proof -
  have wf: "kv_wf kv" and own: "kv_other kv = None" using assms(1) by (simp_all add: kv_inv_def)
  let ?t = "kv_stream kv s"
  have t: "?t < kv_n_stream kv" by (rule kv_lookup(2) [OF wf assms(2)])
  obtain kv' where kv': "kv_seq_rm (int s) p0 p1 kv = Some (True, kv')" "kv_wf kv'" "kv_other kv' = None"
    "\<forall>t. kv_positions kv' t =
          (if t = s then {p \<in> kv_positions kv s. \<not> pos_between p0 p1 p} else kv_positions kv t)"
    using kv_seq_rm_positions [OF wf own assms(2)] by blast
  obtain hs h where "kv_seq_rm (int s) p0 p1 kv = Some (True, set_stream ?t
      (cells_repr hs (map (rm_cell s p0 p1) (kv_cells kv ?t))) h kv)"
    using kv_seq_rm_run [OF wf own assms(2)] by blast
  then have "kv' = set_stream ?t (cells_repr hs (map (rm_cell s p0 p1) (kv_cells kv ?t))) h kv"
    using kv'(1) by simp
  then have cells: "kv_cells kv' ?t = map (rm_cell s p0 p1) (kv_cells kv ?t)"
    using t kv_wfD(4) [OF wf] by (simp add: kv_cells_set_stream)
  have "a_pos (rm_cell s p0 p1 x) = (if a_seq x = {s} \<and> pos_between p0 p1 (a_pos x) then -1 else a_pos x)"
    if "x \<in> set (kv_cells kv ?t)" for x
  proof -
    have "acell_ok x" using kv_cells_repr(2) [OF wf t] that cell_okD by blast
    then have "s \<in> a_seq x \<Longrightarrow> 0 \<le> a_pos x" by (fastforce simp: acell_ok_def)
    moreover have "a_seq x - {s} = {} \<and> s \<in> a_seq x \<longleftrightarrow> a_seq x = {s}" by blast
    ultimately show ?thesis by (auto simp: rm_cell_def drop_seq_def in_range_def)
  qed
  then show ?thesis using kv' by (auto simp: kv_inv_def cells Let_def)
qed

theorem kv_seq_rm_correct_witness:
  "\<exists>kv'. kv_seq_rm 0 1 (-1) kv_demo = Some (True, kv') \<and> kv_positions kv' 0 = {0} \<and> kv_positions kv' 1 = {1}"
proof -
  obtain kv' where "kv_seq_rm (int 0) 1 (-1) kv_demo = Some (True, kv')"
    "\<forall>t. kv_positions kv' t = (if t = 0 then {p \<in> kv_positions kv_demo 0. \<not> pos_between 1 (-1) p}
      else kv_positions kv_demo t)"
    using kv_seq_rm_correct [OF demo_inv(1), of 0 1 "-1"] by auto
  then show ?thesis by (intro exI [of _ kv']) (auto simp: kv_positions_def pos_between_def)
qed

text \<open>
  C21: Rolling a sequence back to position \<open>p\<close> (\<open>seq_rm\<close> with an open end) leaves its greatest
  position below \<open>p\<close>, keeps every position below \<open>p\<close>, and no other sequence notices.
\<close>
theorem kv_rollback:
  assumes "kv_inv kv" "kv_has_seq kv s" "0 \<le> p"
  shows "\<exists>kv' q. kv_seq_rm (int s) p (-1) kv = Some (True, kv') \<and> kv_inv kv'
    \<and> kv_seq_pos_max (int s) kv' = Some q \<and> q < p
    \<and> (\<forall>r \<in> kv_positions kv s. r < p \<longrightarrow> r \<le> q \<and> r \<in> kv_positions kv' s)
    \<and> (\<forall>t. kv_has_seq kv t \<longrightarrow> t \<noteq> s \<longrightarrow> kv_positions kv' t = kv_positions kv t)"
  by (rule kv_mem.rollback [OF assms])

theorem kv_rollback_witness:
  "\<exists>kv' q. kv_seq_rm 0 2 (-1) kv_demo = Some (True, kv') \<and> kv_seq_pos_max 0 kv' = Some q \<and> q < 2 \<and> 1 \<le> q"
proof -
  obtain kv' q where "kv_seq_rm (int 0) 2 (-1) kv_demo = Some (True, kv')" "kv_seq_pos_max (int 0) kv' = Some q"
    "q < 2" "\<forall>r \<in> kv_positions kv_demo 0. r < 2 \<longrightarrow> r \<le> q \<and> r \<in> kv_positions kv' 0"
    using kv_rollback [OF demo_inv(1), of 0 2] by auto
  then show ?thesis by (intro exI [of _ kv'] exI [of _ q]) (simp add: kv_positions_def)
qed

text \<open>
  \<open>seq_keep\<close>. Sequence \<open>s\<close> keeps its positions, every other sequence of its stream loses
  all of its own, and the sequences of other streams are left alone.
\<close>
theorem kv_seq_keep_correct:
  assumes "kv_inv kv" "kv_has_seq kv s"
  shows "\<exists>kv'. kv_seq_keep (int s) kv = Some kv' \<and> kv_inv kv'
    \<and> (\<forall>t. kv_positions kv' t =
          (if t = s then kv_positions kv s
           else if kv_stream kv t = kv_stream kv s then {} else kv_positions kv t))"
proof -
  have wf: "kv_wf kv" and own: "kv_other kv = None" using assms(1) by (simp_all add: kv_inv_def)
  let ?t = "kv_stream kv s"
  have t: "?t < kv_n_stream kv" by (rule kv_lookup(2) [OF wf assms(2)])
  obtain hs h where run: "kv_seq_keep (int s) kv = Some (set_stream ?t
      (cells_repr hs (map (keep_seq s) (kv_cells kv ?t))) h kv)"
    and wf': "kv_wf (set_stream ?t (cells_repr hs (map (keep_seq s) (kv_cells kv ?t))) h kv)"
    using kv_seq_keep_run [OF wf own assms(2)] by blast
  let ?kv = "set_stream ?t (cells_repr hs (map (keep_seq s) (kv_cells kv ?t))) h kv"
  have "kv_positions ?kv u = (if u = s then kv_positions kv s
           else if kv_stream kv u = kv_stream kv s then {} else kv_positions kv u)" for u
    unfolding kv_positions_set_stream [OF wf t]
    by (cases "u = s"; cases "kv_stream kv u = ?t") (simp_all add: seq_positions_keep_seq kv_positions_def)
  moreover have "kv_inv ?kv" using wf' own by (simp add: kv_inv_def)
  ultimately show ?thesis using run by blast
qed

theorem kv_seq_keep_correct_witness:
  "\<exists>kv'. kv_seq_keep 1 kv_demo = Some kv' \<and> kv_positions kv' 0 = {} \<and> kv_positions kv' 1 = {1}"
proof -
  obtain kv' where "kv_seq_keep (int 1) kv_demo = Some kv'"
    "\<forall>t. kv_positions kv' t = (if t = 1 then kv_positions kv_demo 1
           else if kv_stream kv_demo t = kv_stream kv_demo 1 then {} else kv_positions kv_demo t)"
    using kv_seq_keep_correct [OF demo_inv(1), of 1] by auto
  then show ?thesis by (intro exI [of _ kv']) (auto simp: kv_positions_def)
qed

text \<open>
  \<open>seq_keep\<close> on a cache with a stream per sequence does not remove the tokens of the
  other sequences, although the interface says it removes all tokens that do not belong to
  the given one.
\<close>
theorem seq_keep_other_streams:
  "\<exists>kv'. kv_seq_keep 0 kv_demo2 = Some kv' \<and> kv_inv kv' \<and> kv_seq_pos_max 1 kv' = Some 5"
proof -
  obtain hs h where run: "kv_seq_keep (int 0) kv_demo2 = Some (set_stream 0
      (cells_repr hs (map (keep_seq 0) (kv_cells kv_demo2 0))) h kv_demo2)" (is "_ = Some ?kv")
    and wf: "kv_wf (set_stream 0 (cells_repr hs (map (keep_seq 0) (kv_cells kv_demo2 0))) h kv_demo2)"
    using kv_seq_keep_run [of kv_demo2 0] demo_inv(2) by (auto simp: kv_inv_def)
  let ?kv = "set_stream 0 (cells_repr hs (map (keep_seq 0) (kv_cells kv_demo2 0))) h kv_demo2"
  have inv: "kv_inv ?kv" using wf by (simp add: kv_inv_def)
  have "kv_positions ?kv 1 = {5}"
    using kv_positions_set_stream [of kv_demo2 0] demo_inv(2) by (simp add: kv_inv_def kv_positions_def)
  then have "kv_seq_pos_max 1 ?kv = Some 5"
    using kv_mem.seq_pos_max_ok [OF inv, of 1] by (simp add: set_pos_max_def)
  then show ?thesis using run inv by auto
qed

text \<open>Early returns: no shift, or an empty range.\<close>

lemma add_cell_id:
  assumes "cell_ok n t x" "d = 0 \<or> clamp_p0 p0 = clamp_p1 p1"
  shows "add_cell s p0 p1 d x = x"
proof (cases "in_range p0 p1 x")
  case True
  moreover have "clamp_p0 p0 \<le> a_pos x \<and> a_pos x < clamp_p1 p1"
    using in_range_clamp [of x p0 p1] assms(1) True by (simp add: cell_ok_def)
  ultimately show ?thesis using assms(2) by (auto simp: add_cell_def shift_pos_def in_range_def)
qed (simp add: add_cell_def)

text \<open>
  C20: \<open>seq_add\<close>. When no position and no pending shift leaves the range of a \<open>llama_pos\<close>, the
  positions of \<open>s\<close> in \<open>[p0, p1)\<close> move by \<open>d\<close>, those that become negative are dropped, the
  others stay; a sequence that shares none of the moved cells is left alone; and every cell
  still in use has a pending shift that makes up for its new position, so that position minus
  shift, the position its K row was rotated for, is what it was.
\<close>
theorem kv_seq_add_correct:
  assumes "kv_inv kv" "kv_has_seq kv s" "hp_n_pos_per_embd (kv_hp kv) = 1"
    and "\<forall>x \<in> set (kv_cells kv (kv_stream kv s)). in_range p0 p1 x \<and> s \<in> a_seq x \<longrightarrow> shift_safe d x"
  shows "\<exists>kv'. kv_seq_add (int s) p0 p1 d kv = Some kv' \<and> kv_inv kv'
    \<and> kv_positions kv' s = {p \<in> kv_positions kv s. \<not> pos_between p0 p1 p}
        \<union> {p + d |p. p \<in> kv_positions kv s \<and> pos_between p0 p1 p \<and> 0 \<le> p + d}
    \<and> (\<forall>u. (\<forall>x \<in> set (kv_cells kv (kv_stream kv s)). in_range p0 p1 x \<and> s \<in> a_seq x \<longrightarrow> u \<notin> a_seq x)
         \<longrightarrow> kv_positions kv' u = kv_positions kv u)
    \<and> (\<forall>i < length (kv_cells kv (kv_stream kv s)).
         let x = kv_cells kv (kv_stream kv s) ! i; y = kv_cells kv' (kv_stream kv s) ! i
         in a_pos y \<noteq> -1 \<longrightarrow> a_pos y - a_shift y = a_pos x - a_shift x)"
proof -
  have wf: "kv_wf kv" and own: "kv_other kv = None" using assms(1) by (simp_all add: kv_inv_def)
  let ?t = "kv_stream kv s"
  let ?xs = "kv_cells kv ?t"
  have t: "?t < kv_n_stream kv" by (rule kv_lookup(2) [OF wf assms(2)])
  have okx: "\<forall>x \<in> set ?xs. cell_ok (kv_n_stream kv) ?t x" by (rule kv_cells_repr(2) [OF wf t])
  obtain kv' where run: "kv_seq_add (int s) p0 p1 d kv = Some kv'" and wf': "kv_wf kv'" "kv_other kv' = None"
    and cells: "kv_cells kv' ?t = map (add_cell s p0 p1 d) ?xs"
    and pos: "\<And>u. kv_positions kv' u =
      (if kv_stream kv u = ?t then seq_positions (map (add_cell s p0 p1 d) ?xs) u else kv_positions kv u)"
  proof (cases "d = 0 \<or> clamp_p0 p0 = clamp_p1 p1")
    case True
    have "map (add_cell s p0 p1 d) ?xs = ?xs"
      using add_cell_id [OF _ True] okx by (intro map_idI) blast
    moreover have "kv_seq_add (int s) p0 p1 d kv = Some kv"
      using True own assms(3) kv_lookup(1) [OF wf assms(2)] by (auto simp: kv_seq_add_def Let_def)
    ultimately show ?thesis by (intro that [of kv]) (use wf own in \<open>auto simp: kv_positions_def\<close>)
  next
    case False
    obtain hs h where "kv_seq_add (int s) p0 p1 d kv = Some (set_stream ?t
        (cells_repr hs (map (add_cell s p0 p1 d) ?xs)) h kv)"
      "kv_wf (set_stream ?t (cells_repr hs (map (add_cell s p0 p1 d) ?xs)) h kv)"
      using kv_seq_add_run [OF wf own assms(2,3) _ _ assms(4)] False by auto
    then show ?thesis
      by (rule that [of "set_stream ?t (cells_repr hs (map (add_cell s p0 p1 d) ?xs)) h kv"]) (use own t kv_wfD(4) [OF wf] in \<open>simp_all add: kv_cells_set_stream kv_positions_set_stream [OF wf t]\<close>)
  qed
  have nonneg: "0 \<le> a_pos x" if "x \<in> set ?xs" "v \<in> a_seq x" for x v
    using okx that by (fastforce simp: cell_ok_def acell_ok_def)
  have "kv_positions kv' s = {p \<in> seq_positions ?xs s. \<not> pos_between p0 p1 p}
        \<union> {p + d |p. p \<in> seq_positions ?xs s \<and> pos_between p0 p1 p \<and> 0 \<le> p + d}"
  proof -
    have "kv_positions kv' s = {a_pos (add_cell s p0 p1 d x) |x. x \<in> set ?xs \<and> s \<in> a_seq (add_cell s p0 p1 d x)}"
      by (simp add: pos seq_positions_map)
    also have "\<dots> = {a_pos x |x. x \<in> set ?xs \<and> s \<in> a_seq x \<and> \<not> pos_between p0 p1 (a_pos x)}
        \<union> {a_pos x + d |x. x \<in> set ?xs \<and> s \<in> a_seq x \<and> pos_between p0 p1 (a_pos x) \<and> 0 \<le> a_pos x + d}"
      (is "?L = ?A \<union> ?B")
    proof (intro equalityI subsetI)
      fix p assume "p \<in> ?L"
      then obtain x where x: "p = a_pos (add_cell s p0 p1 d x)" "x \<in> set ?xs" "s \<in> a_seq (add_cell s p0 p1 d x)" by blast
      then show "p \<in> ?A \<union> ?B" using nonneg [of x s]
        by (auto simp: add_cell_def shift_pos_def in_range_def split: if_splits)
    next
      fix p assume "p \<in> ?A \<union> ?B"
      then obtain x where "x \<in> set ?xs" "s \<in> a_seq x" "p = a_pos (add_cell s p0 p1 d x)" "s \<in> a_seq (add_cell s p0 p1 d x)"
        using nonneg by (auto simp: add_cell_def shift_pos_def in_range_def)
      then show "p \<in> ?L" by blast
    qed
    also have "?A = {p \<in> seq_positions ?xs s. \<not> pos_between p0 p1 p}"
      by (auto simp: seq_positions_def)
    also have "?B = {p + d |p. p \<in> seq_positions ?xs s \<and> pos_between p0 p1 p \<and> 0 \<le> p + d}"
      by (auto simp: seq_positions_def)
    finally show ?thesis .
  qed
  moreover have "kv_positions kv' u = kv_positions kv u"
    if u: "\<forall>x \<in> set ?xs. in_range p0 p1 x \<and> s \<in> a_seq x \<longrightarrow> u \<notin> a_seq x" for u
  proof (cases "kv_stream kv u = ?t")
    case True
    have "u \<in> a_seq (add_cell s p0 p1 d x) \<longleftrightarrow> u \<in> a_seq x"
      "u \<in> a_seq x \<longrightarrow> a_pos (add_cell s p0 p1 d x) = a_pos x" if "x \<in> set ?xs" for x
      using u that by (auto simp: add_cell_def shift_pos_def)
    then have "{a_pos (add_cell s p0 p1 d x) |x. x \<in> set ?xs \<and> u \<in> a_seq (add_cell s p0 p1 d x)}
        = {a_pos x |x. x \<in> set ?xs \<and> u \<in> a_seq x}" by force
    then show ?thesis using True by (simp add: pos seq_positions_map) (simp add: kv_positions_def seq_positions_def)
  qed (simp add: pos)
  moreover have "a_pos y - a_shift y = a_pos x - a_shift x" if "y = add_cell s p0 p1 d x" "a_pos y \<noteq> -1" for x y
    using that by (auto simp: add_cell_def shift_pos_def split: if_splits)
  ultimately show ?thesis using run wf' cells
    by (intro exI [of _ kv']) (simp add: kv_inv_def Let_def kv_positions_def)
qed

theorem kv_seq_add_correct_witness:
  "\<exists>kv'. kv_seq_add 0 1 (-1) (-2) kv_demo = Some kv' \<and> kv_positions kv' 0 = {0}"
proof -
  obtain kv' where "kv_seq_add (int 0) 1 (-1) (-2) kv_demo = Some kv'"
    "kv_positions kv' 0 = {p \<in> kv_positions kv_demo 0. \<not> pos_between 1 (-1) p}
        \<union> {p + -2 |p. p \<in> kv_positions kv_demo 0 \<and> pos_between 1 (-1) p \<and> 0 \<le> p + -2}"
    using kv_seq_add_correct [OF demo_inv(1), of 0 1 "-1" "-2"]
    by (auto simp: shift_safe_def INT32_MAX_def INT32_MIN_def)
  then show ?thesis
    by (intro exI [of _ kv']) (auto simp: kv_positions_def pos_between_def)
qed

text \<open>
  C38: \<open>seq_div\<close> and \<open>seq_add\<close> disagree about the sign of the pending shift: moving a token
  from position 2 to position 1 leaves a pending rotation by -1 with \<open>seq_add\<close> and by +1 with
  \<open>seq_div\<close>, although both end at the same position.
\<close>
theorem seq_div_shift_sign:
  "\<exists>kv1 kv2. kv_seq_add 0 2 3 (-1) kv_demo = Some kv1 \<and> kv_seq_div 0 2 3 2 kv_demo = Some kv2
    \<and> a_pos (kv_cells kv1 0 ! 2) = 1 \<and> a_pos (kv_cells kv2 0 ! 2) = 1
    \<and> a_shift (kv_cells kv1 0 ! 2) = -1 \<and> a_shift (kv_cells kv2 0 ! 2) = 1"
proof -
  have wf: "kv_wf kv_demo" using demo_inv(1) by (simp add: kv_inv_def)
  have len: "length (kv_v_cells kv_demo) = 1" using kv_wfD(4) [OF wf] by simp
  obtain hs1 h1 where add: "kv_seq_add (int 0) 2 3 (-1) kv_demo = Some (set_stream 0
      (cells_repr hs1 (map (add_cell 0 2 3 (-1)) (kv_cells kv_demo 0))) h1 kv_demo)"
    using kv_seq_add_run [OF wf, of 0 "-1" 2 3]
    by (auto simp: shift_safe_def INT32_MAX_def INT32_MIN_def clamp_p0_def clamp_p1_def)
  obtain hs2 h2 where dv: "kv_seq_div (int 0) 2 3 2 kv_demo = Some (set_stream 0
      (cells_repr hs2 (map (div_cell 0 2 3 2) (kv_cells kv_demo 0))) h2 kv_demo)"
    using kv_seq_div_run [OF wf, of 0 2 2 3]
    by (auto simp: div_safe_def INT32_MAX_def INT32_MIN_def clamp_p0_def clamp_p1_def)
  show ?thesis
    by (intro exI conjI, use add in simp, use dv in simp)
       (simp_all add: kv_cells_set_stream len add_cell_def div_cell_def shift_pos_def div_pos_def
          in_range_def pos_between_def)
qed

text \<open>
  C22: \<open>seq_cp\<close> in a unified cache. For valid sequences, the destination (when it is not the
  source itself) owning none of the source's cells in \<open>[p0, p1)\<close>, as \<open>seq_add\<close> of the cells
  asserts, the destination gains exactly the positions of the source in \<open>[p0, p1)\<close> and no other
  sequence changes. No cell changes except that the destination joins the owners of the
  source's cells in the range: position, pending shift and extra data of every cell stay.
\<close>
theorem kv_seq_cp_correct:
  assumes "kv_inv kv" "kv_n_stream kv = 1" "kv_has_seq kv src" "kv_has_seq kv dst"
    and "\<forall>x \<in> set (kv_cells kv 0). src \<noteq> dst \<and> in_range p0 p1 x \<and> src \<in> a_seq x \<longrightarrow> dst \<notin> a_seq x"
  shows "\<exists>kv'. kv_seq_cp (int src) (int dst) p0 p1 kv = Some kv' \<and> kv_inv kv'
    \<and> (\<forall>u. kv_positions kv' u = (if u = dst
          then kv_positions kv dst \<union> {p \<in> kv_positions kv src. pos_between p0 p1 p} else kv_positions kv u))
    \<and> kv_cells kv' 0 = map (\<lambda>x. if in_range p0 p1 x \<and> src \<in> a_seq x
          then x\<lparr>a_seq := insert dst (a_seq x)\<rparr> else x) (kv_cells kv 0)"
proof (cases "src = dst")
  case True
  have st: "(if in_range p0 p1 x \<and> dst \<in> a_seq x then x\<lparr>a_seq := insert dst (a_seq x)\<rparr> else x) = x" for x :: acell
    by (simp add: insert_absorb)
  have wf: "kv_wf kv" and own: "kv_other kv = None" using assms(1) by (simp_all add: kv_inv_def)
  have "kv_seq_cp (int src) (int dst) p0 p1 kv = Some kv"
    using kv_seq_cp_self [OF wf own assms(3)] True by simp
  with True assms(1) show ?thesis by (auto simp: st)
next
  case False
  have wf: "kv_wf kv" and own: "kv_other kv = None" using assms(1) by (simp_all add: kv_inv_def)
  have t: "0 < kv_n_stream kv" using assms(2) by simp
  let ?xs = "map (cp_cell src dst p0 p1) (kv_cells kv 0)"
  have free: "\<forall>x \<in> set (kv_cells kv 0). in_range p0 p1 x \<and> src \<in> a_seq x \<longrightarrow> dst \<notin> a_seq x"
    using assms(5) False by blast
  obtain hs h where run: "kv_seq_cp (int src) (int dst) p0 p1 kv = Some (set_stream 0 (cells_repr hs ?xs) h kv)"
    and wf': "kv_wf (set_stream 0 (cells_repr hs ?xs) h kv)"
    using kv_seq_cp_same_run [OF wf own assms(3,4,2) False free] by blast
  have "kv_positions (set_stream 0 (cells_repr hs ?xs) h kv) u = (if u = dst
          then kv_positions kv dst \<union> {p \<in> kv_positions kv src. pos_between p0 p1 p} else kv_positions kv u)" for u
    using seq_positions_cp_cell [OF kv_cells_repr(2) [OF wf t] False, of p0 p1 u] assms(2)
    unfolding kv_positions_set_stream [OF wf t] by (simp add: kv_stream_def kv_positions_def)
  moreover have "kv_cells (set_stream 0 (cells_repr hs ?xs) h kv) 0 = ?xs"
    using t kv_wfD(4) [OF wf] by (simp add: kv_cells_set_stream)
  ultimately show ?thesis using run wf' own
    by (intro exI [of _ "set_stream 0 (cells_repr hs ?xs) h kv"]) (simp add: kv_inv_def cp_cell_def)
qed

theorem kv_seq_cp_correct_witness:
  "\<exists>kv'. kv_seq_cp 0 2 1 (-1) kv_demo = Some kv' \<and> kv_positions kv' 2 = {1, 2}"
proof -
  obtain kv' where "kv_seq_cp (int 0) (int 2) 1 (-1) kv_demo = Some kv'"
    "\<forall>u. kv_positions kv' u = (if u = 2
          then kv_positions kv_demo 2 \<union> {p \<in> kv_positions kv_demo 0. pos_between 1 (-1) p} else kv_positions kv_demo u)"
    using kv_seq_cp_correct [OF demo_inv(1), of 0 2 1 "-1"] by auto
  then show ?thesis by (intro exI [of _ kv']) (auto simp: kv_positions_def pos_between_def)
qed

text \<open>
  C23: \<open>seq_cp\<close> between streams, of the whole sequence (\<open>p0 <= 0\<close>, \<open>p1 < 0\<close>). The destination
  stream is replaced: its sequence gets exactly the positions of the source, the copy of the
  stream's data is queued, and the other sequences, the source among them, are left alone. The
  source's cells must not have a pending shift greater than their position, which the code
  asserts (\<open>copy_safe\<close>; it also keeps \<open>pos - shift\<close> inside \<open>int32_t\<close>).
\<close>
theorem kv_seq_cp_stream_correct:
  assumes "kv_inv kv" "1 < kv_n_stream kv" "kv_has_seq kv src" "kv_has_seq kv dst" "src \<noteq> dst"
    and "p0 \<le> 0" "p1 < 0"
    and "\<forall>x \<in> set (kv_cells kv src). src \<in> a_seq x \<longrightarrow> copy_safe x"
  shows "\<exists>kv'. kv_seq_cp (int src) (int dst) p0 p1 kv = Some kv' \<and> kv_inv kv'
    \<and> (\<forall>u. kv_positions kv' u = (if u = dst then kv_positions kv src else kv_positions kv u))
    \<and> kv_ssrc kv' = kv_ssrc kv @ [src] \<and> kv_sdst kv' = kv_sdst kv @ [dst]"
proof -
  have wf: "kv_wf kv" and own: "kv_other kv = None" using assms(1) by (simp_all add: kv_inv_def)
  have p1: "p1 \<le> 0" using assms(7) by simp
  let ?xs = "map (copy_cell src dst) (kv_cells kv src)"
  let ?kv = "kv\<lparr>kv_ssrc := kv_ssrc kv @ [src], kv_sdst := kv_sdst kv @ [dst]\<rparr>"
  obtain hs h where run: "kv_seq_cp (int src) (int dst) p0 p1 kv = Some (set_stream dst (cells_repr hs ?xs) h ?kv)"
    and wf': "kv_wf (set_stream dst (cells_repr hs ?xs) h ?kv)"
    using kv_seq_cp_stream_run [OF wf own assms(3,4,2,5,6) p1 assms(8)] by blast
  have st: "kv_stream kv u = u" for u using assms(2) by (simp add: kv_stream_def)
  have t: "dst < kv_n_stream ?kv" using kv_lookup(2) [OF wf assms(4)] st by simp
  have wfk: "kv_wf ?kv" using wf by (simp add: kv_wf_def kv_length_def)
  have [simp]: "kv_positions ?kv u = kv_positions kv u" "kv_stream ?kv u = u" for u
    using assms(2) by (simp_all add: kv_positions_def kv_stream_def kv_cells_def)
  have "kv_positions (set_stream dst (cells_repr hs ?xs) h ?kv) u
      = (if u = dst then kv_positions kv src else kv_positions kv u)" for u
    by (simp add: kv_positions_set_stream [OF wfk t] seq_positions_copy_cell) (simp add: kv_positions_def st)
  then show ?thesis using run wf' own
    by (intro exI [of _ "set_stream dst (cells_repr hs ?xs) h ?kv"]) (simp add: kv_inv_def set_stream_def)
qed

theorem kv_seq_cp_stream_correct_witness:
  "\<exists>kv'. kv_seq_cp 0 1 (-1) (-1) kv_demo2 = Some kv' \<and> kv_positions kv' 1 = {0, 1} \<and> kv_sdst kv' = [1]"
proof -
  obtain kv' where "kv_seq_cp (int 0) (int 1) (-1) (-1) kv_demo2 = Some kv'"
    "\<forall>u. kv_positions kv' u = (if u = 1 then kv_positions kv_demo2 0 else kv_positions kv_demo2 u)"
    "kv_sdst kv' = kv_sdst kv_demo2 @ [1]"
    using kv_seq_cp_stream_correct [OF demo_inv(2), of 0 1 "-1" "-1"]
    by (auto simp: copy_safe_def INT32_MAX_def INT32_MIN_def)
  then show ?thesis by (intro exI [of _ kv']) (simp add: kv_positions_def, simp add: kv_demo2_def insert_commute)
qed

text \<open>
  The range is only tested, not used, when the streams differ: \<open>seq_cp(0, 1, 0, 0)\<close>, whose range
  \<open>[0, 0)\<close> is empty, copies the whole sequence.
\<close>
theorem seq_cp_stream_empty_range:
  "\<not> pos_between 0 0 p \<and> (\<exists>kv'. kv_seq_cp 0 1 0 0 kv_demo2 = Some kv' \<and> kv_positions kv' 1 = {0, 1})"
proof -
  have wf: "kv_wf kv_demo2" and own: "kv_other kv_demo2 = None"
    using demo_inv(2) by (simp_all add: kv_inv_def)
  let ?xs = "map (copy_cell 0 1) (kv_cells kv_demo2 0)"
  let ?kv = "kv_demo2\<lparr>kv_ssrc := kv_ssrc kv_demo2 @ [0], kv_sdst := kv_sdst kv_demo2 @ [1]\<rparr>"
  have has: "kv_has_seq kv_demo2 0" "kv_has_seq kv_demo2 1" and many: "1 < kv_n_stream kv_demo2" by simp_all
  have safe: "\<forall>x \<in> set (kv_cells kv_demo2 0). 0 \<in> a_seq x \<longrightarrow> copy_safe x"
    by (simp add: copy_safe_def INT32_MAX_def INT32_MIN_def)
  obtain hs h where run: "kv_seq_cp (int 0) (int 1) 0 0 kv_demo2 = Some (set_stream 1 (cells_repr hs ?xs) h ?kv)"
    using kv_seq_cp_stream_run [OF wf own has many zero_neq_one order_refl order_refl safe] by blast
  have t: "1 < kv_n_stream ?kv" by simp
  have wfk: "kv_wf ?kv" using wf by (simp only: kv_wf_queue)
  have st: "kv_stream ?kv u = u" for u by (simp add: kv_stream_def)
  have "kv_positions (set_stream 1 (cells_repr hs ?xs) h ?kv) 1 = seq_positions (kv_cells kv_demo2 0) 0"
    by (simp only: kv_positions_set_stream [OF wfk t] st simp_thms if_True seq_positions_copy_cell)
  also have "\<dots> = {0, 1}" by (simp add: insert_commute)
  finally have pos: "kv_positions (set_stream 1 (cells_repr hs ?xs) h ?kv) 1 = {0, 1}" .
  have "\<not> pos_between 0 0 p" by (simp add: pos_between_def)
  then show ?thesis using run pos unfolding int_ops by blast
qed

subsection \<open>The commands on a unified cache\<close>

definition kv_exec :: "mem_cmd \<Rightarrow> llama_kv_cache \<Rightarrow> llama_kv_cache option" where
  "kv_exec = run_cmd kv_seq_rm kv_seq_keep kv_seq_cp kv_clear"

definition kv_unified :: "llama_kv_cache \<Rightarrow> bool" where
  "kv_unified kv \<longleftrightarrow> kv_inv kv \<and> kv_n_stream kv = 1"

lemma kv_has_seq_stream: "kv_n_stream kv' = kv_n_stream kv \<Longrightarrow> kv_has_seq kv' = kv_has_seq kv"
  by (simp add: kv_has_seq_def fun_eq_iff)

lemma kv_seq_rm_n_stream: "kv_inv kv \<Longrightarrow> kv_has_seq kv s \<Longrightarrow> kv_seq_rm (int s) p0 p1 kv = Some (b, kv') \<Longrightarrow> kv_n_stream kv' = kv_n_stream kv"
  using kv_seq_rm_run [of kv s p0 p1] by (auto simp: kv_inv_def)

interpretation kv_cmds: command_memory kv_unified kv_has_seq kv_positions kv_exec
proof
  fix kv c
  assume u: "kv_unified kv" and ok: "cmd_ok (kv_has_seq kv) c (kv_positions kv)"
  have inv: "kv_inv kv" and wf: "kv_wf kv" and own: "kv_other kv = None" and one: "kv_n_stream kv = 1"
    using u by (simp_all add: kv_unified_def kv_inv_def)
  have t: "0 < kv_n_stream kv" and st: "kv_stream kv s = 0" for s using one by (simp_all add: kv_stream_def)
  show "\<exists>kv'. kv_exec c kv = Some kv' \<and> kv_unified kv' \<and> kv_has_seq kv' = kv_has_seq kv
      \<and> (\<forall>s. kv_has_seq kv s \<longrightarrow> kv_positions kv' s = spec_cmd c (kv_positions kv) s)"
  proof (cases c)
    case (Cmd_rm s p0 p1)
    then obtain kv' where "kv_seq_rm (int s) p0 p1 kv = Some (True, kv')" "kv_wf kv'" "kv_other kv' = None"
      "kv_has_seq kv' = kv_has_seq kv"
      "\<forall>t. kv_positions kv' t = (if t = s then {p \<in> kv_positions kv s. \<not> pos_between p0 p1 p} else kv_positions kv t)"
      using kv_seq_rm_positions [OF wf own, of s p0 p1] ok by auto
    moreover from this have "kv_n_stream kv' = 1" using kv_seq_rm_n_stream [OF inv, of s p0 p1 True kv'] Cmd_rm ok one by simp
    ultimately show ?thesis using Cmd_rm by (simp add: kv_exec_def kv_unified_def kv_inv_def)
  next
    case (Cmd_keep s)
    then obtain hs h where run: "kv_seq_keep (int s) kv = Some (set_stream 0 (cells_repr hs (map (keep_seq s) (kv_cells kv 0))) h kv)"
      "kv_wf (set_stream 0 (cells_repr hs (map (keep_seq s) (kv_cells kv 0))) h kv)" (is "kv_wf ?kv'")
      using kv_seq_keep_run [OF wf own, of s] ok st by auto
    have "kv_positions ?kv' u = spec_cmd c (kv_positions kv) u" for u
      unfolding kv_positions_set_stream [OF wf t] using Cmd_keep st by (simp add: seq_positions_keep_seq kv_positions_def)
    moreover have "kv_unified ?kv'" using run(2) own one by (simp add: kv_unified_def kv_inv_def)
    moreover have "kv_has_seq ?kv' = kv_has_seq kv" by (rule kv_has_seq_stream) simp
    ultimately show ?thesis using run(1) Cmd_keep by (simp add: kv_exec_def)
  next
    case (Cmd_cp src dst p0 p1)
    have has: "kv_has_seq kv src" "kv_has_seq kv dst" "src \<noteq> dst" using ok Cmd_cp by simp_all
    have nonneg: "0 \<le> a_pos x" if "x \<in> set (kv_cells kv 0)" "u \<in> a_seq x" for x u
      using kv_cells_repr(2) [OF wf t] that by (fastforce simp: cell_ok_def acell_ok_def)
    have free: "\<forall>x \<in> set (kv_cells kv 0). in_range p0 p1 x \<and> src \<in> a_seq x \<longrightarrow> dst \<notin> a_seq x"
      using ok Cmd_cp by (auto simp: kv_positions_def st seq_positions_def in_range_def)
    obtain hs h where run: "kv_seq_cp (int src) (int dst) p0 p1 kv
        = Some (set_stream 0 (cells_repr hs (map (cp_cell src dst p0 p1) (kv_cells kv 0))) h kv)"
      "kv_wf (set_stream 0 (cells_repr hs (map (cp_cell src dst p0 p1) (kv_cells kv 0))) h kv)" (is "kv_wf ?kv'")
      using kv_seq_cp_same_run [OF wf own has(1,2) one has(3) free] by blast
    have "kv_positions ?kv' u = spec_cmd c (kv_positions kv) u" for u
      using seq_positions_cp_cell [OF kv_cells_repr(2) [OF wf t] has(3), of p0 p1 u] Cmd_cp st
      unfolding kv_positions_set_stream [OF wf t] by (simp add: kv_positions_def)
    moreover have "kv_unified ?kv'" using run(2) own one by (simp add: kv_unified_def kv_inv_def)
    moreover have "kv_has_seq ?kv' = kv_has_seq kv" by (rule kv_has_seq_stream) simp
    ultimately show ?thesis using run(1) Cmd_cp by (simp add: kv_exec_def)
  next
    case Cmd_clear
    obtain kv' where kv': "kv_clear kv = Some kv'" "kv_wf kv'" "kv_other kv' = kv_other kv" "kv_n_stream kv' = kv_n_stream kv"
      "\<forall>t < kv_n_stream kv. kv_cells kv' t = replicate (kv_length kv) empty_cell"
      using kv_clear_run [OF wf] by blast
    have "kv_positions kv' s = {}" for s
      using kv'(4,5) one by (auto simp: kv_positions_def kv_stream_def seq_positions_def empty_cell_def)
    moreover have "kv_has_seq kv' = kv_has_seq kv" by (rule kv_has_seq_stream) (rule kv'(4))
    ultimately show ?thesis using kv' own one Cmd_clear by (simp add: kv_exec_def kv_unified_def kv_inv_def)
  qed
qed

text \<open>
  C17: A unified cache refines the specification on sets of positions: over every list of \<open>seq_rm\<close>,
  \<open>seq_keep\<close>, \<open>seq_cp\<close> and \<open>clear\<close> that the specification allows, the operations succeed, and then each sequence has
  the positions the specification gives it; \<open>seq_pos_min\<close> and \<open>seq_pos_max\<close> read the ends of them.
\<close>

theorem kv_commands_refine:
  assumes "kv_inv kv" "kv_n_stream kv = 1" "cmds_ok (kv_has_seq kv) cs (kv_positions kv)"
  shows "\<exists>kv'. for_opt kv_exec cs kv = Some kv' \<and> kv_inv kv'
    \<and> (\<forall>s. kv_has_seq kv s \<longrightarrow> (let P = fold spec_cmd cs (kv_positions kv) s in
          kv_positions kv' s = P \<and> kv_seq_pos_min (int s) kv' = Some (set_pos_min P) \<and> kv_seq_pos_max (int s) kv' = Some (set_pos_max P)))"
proof -
  obtain kv' where kv': "for_opt kv_exec cs kv = Some kv'" "kv_unified kv'" "kv_has_seq kv' = kv_has_seq kv"
    "\<forall>s. kv_has_seq kv s \<longrightarrow> kv_positions kv' s = fold spec_cmd cs (kv_positions kv) s"
    using kv_cmds.refine [of kv cs] assms by (auto simp: kv_unified_def)
  then have "kv_inv kv'" by (simp add: kv_unified_def)
  then show ?thesis using kv' kv_mem.seq_pos_min_ok [of kv'] kv_mem.seq_pos_max_ok [of kv'] by auto
qed

theorem kv_commands_refine_witness:
  "\<exists>kv'. for_opt kv_exec [Cmd_rm 1 0 (-1), Cmd_cp 0 1 1 (-1), Cmd_rm 0 0 1] kv_demo = Some kv'
    \<and> kv_positions kv' 0 = {1, 2} \<and> kv_positions kv' 1 = {1, 2}"
proof -
  have P: "kv_positions kv_demo 0 = {0, 1, 2}" "kv_positions kv_demo 1 = {1}" by (auto simp: kv_positions_def)
  let ?cs = "[Cmd_rm 1 0 (-1), Cmd_cp 0 1 1 (-1), Cmd_rm 0 0 1]"
  have "cmds_ok (kv_has_seq kv_demo) ?cs (kv_positions kv_demo)" using P by (auto simp: pos_between_def)
  from kv_commands_refine [OF demo_inv(1) _ this] obtain kv' where "for_opt kv_exec ?cs kv_demo = Some kv'"
    "\<forall>s. s < 256 \<longrightarrow> kv_positions kv' s = fold spec_cmd ?cs (kv_positions kv_demo) s" by (auto simp: Let_def)
  then show ?thesis using P by (intro exI [of _ kv']) (auto simp: pos_between_def)
qed

end
