(* ===== verification/KvSlots.thy ===== *)
theory KvSlots
  imports KvCache
begin

unbundle bit_operations_syntax

section \<open>Slots of the KV cache\<close>

text \<open>
  Model of how \<open>llama_kv_cache\<close> (\<open>src/llama-kv-cache.h\<close>, \<open>src/llama-kv-cache.cpp\<close>)
  finds the cells for a ubatch (\<open>find_slot\<close>), places it (\<open>apply_ubatch\<close>), tries a whole
  batch and undoes the trial (\<open>prepare\<close>), and of the contexts these functions return
  (\<open>llama_kv_cache_context\<close>).
\<close>

subsection \<open>Slots\<close>

record slot_info =
  si_s0 :: nat
  si_s1 :: nat
  si_strm :: "nat list"
  si_idxs :: "nat list list"

definition slot_nil :: slot_info where
  "slot_nil = \<lparr>si_s0 = 0, si_s1 = 0, si_strm = [], si_idxs = []\<rparr>"

definition si_empty :: "slot_info \<Rightarrow> bool" where
  "si_empty si \<longleftrightarrow> si_idxs si = []"

definition si_n_stream :: "slot_info \<Rightarrow> nat" where
  "si_n_stream si = length (si_strm si)"

definition si_size :: "slot_info \<Rightarrow> nat option" where
  "si_size si = do {
     check (length (si_idxs si) = length (si_strm si));
     check (si_idxs si \<noteq> []);
     Some (length (si_idxs si ! 0)) }"

definition si_head :: "slot_info \<Rightarrow> nat option" where
  "si_head si = do {
     check (length (si_idxs si) = 1);
     check (si_idxs si ! 0 \<noteq> []);
     Some (si_idxs si ! 0 ! 0) }"

definition si_is_contiguous :: "slot_info \<Rightarrow> bool" where
  "si_is_contiguous si \<longleftrightarrow>
     (if si_idxs si = [] \<or> si_idxs si ! 0 = [] then True
      else if length (si_idxs si) > 1 then False
      else (let h = si_idxs si ! 0 ! 0 in
            list_all (\<lambda>i. \<not> si_idxs si ! 0 ! i \<noteq> h + i) [0..<length (si_idxs si ! 0)]))"

text \<open>Whether \<open>find_slot\<close> may use a cell.\<close>

definition cell_can_use :: "nat \<Rightarrow> llama_swa_type \<Rightarrow> llama_kv_cells \<Rightarrow> nat \<Rightarrow> bool option" where
  "cell_can_use n_swa swa_type c idx = do {
     e \<leftarrow> cells_is_empty idx c;
     if e then Some True
     else do {
       n \<leftarrow> cells_seq_count idx c;
       if n = 1 then do {
         pos_cell \<leftarrow> cells_pos_get idx c;
         s \<leftarrow> cells_seq_get idx c;
         m \<leftarrow> cells_seq_pos_max s c;
         m1 \<leftarrow> i32 (m + 1);
         is_masked_swa n_swa swa_type pos_cell m1 }
       else Some False } }"

text \<open>
  The \<open>for\<close> loop of the search: up to \<open>k\<close> cells from \<open>head_cur\<close>; for a continuous slot it
  stops at the first cell that cannot be used. The search itself is a \<open>while (true)\<close>;
  \<open>Some None\<close> is its \<open>return { }\<close>, and a search that never ends has no result.
  A head past the end of the cells, where \<open>cells.size() - head_cur\<close> would wrap, is a failure;
  the invariant of the cache excludes it.
\<close>

fun slot_test :: "(nat \<Rightarrow> bool option) \<Rightarrow> bool \<Rightarrow> nat \<Rightarrow> nat \<times> nat \<times> nat list \<Rightarrow> (nat \<times> nat \<times> nat list) option" where
  "slot_test use cont 0 st = Some st"
| "slot_test use cont (Suc k) (head_cur, n_tested, idxs) = do {
     can_use \<leftarrow> use head_cur;
     if can_use then slot_test use cont k (head_cur + 1, n_tested + 1, idxs @ [head_cur])
     else if cont then Some (head_cur + 1, n_tested + 1, idxs)
     else slot_test use cont k (head_cur + 1, n_tested + 1, idxs) }"

partial_function (option) slot_loop :: "(nat \<Rightarrow> bool option) \<Rightarrow> nat \<Rightarrow> nat \<Rightarrow> bool \<Rightarrow> nat \<Rightarrow> nat \<Rightarrow> nat \<Rightarrow> nat list
    \<Rightarrow> nat list option option" where
  "slot_loop use sz n_tokens cont n_test head_cur n_tested idxs =
     (if head_cur + n_test > sz
      then do {
        _ \<leftarrow> check (head_cur \<le> sz);
        slot_loop use sz n_tokens cont n_test 0 (n_tested + (sz - head_cur)) idxs }
      else do {
        (h, k, is) \<leftarrow> slot_test use cont n_test (head_cur, n_tested, idxs);
        (if length is = n_tokens then Some (Some is)
         else if k \<ge> sz then Some None
         else slot_loop use sz n_tokens cont n_test h k (if cont then [] else is)) })"

definition find_slot_seq :: "llama_kv_cache \<Rightarrow> llama_ubatch \<Rightarrow> bool \<Rightarrow> nat \<Rightarrow> nat \<Rightarrow> slot_info
    \<Rightarrow> (bool \<times> slot_info) option" where
  "find_slot_seq kv ub cont n_tokens s res = do {
     seq_id \<leftarrow> nth_opt (ub_seq_id_unq ub) s;
     (if kv_n_stream kv > 1 then do {
        ids \<leftarrow> nth_opt (ub_seq_id ub) (s * n_tokens);
        check (ids = [int seq_id]); Some () } else Some ());
     t \<leftarrow> nth_opt (kv_seq_to_stream kv) seq_id;
     c \<leftarrow> nth_opt (kv_v_cells kv) t;
     head_cur \<leftarrow> nth_opt (kv_v_heads kv) t;
     (let res = res\<lparr>si_s0 := min (si_s0 res) t, si_s1 := max (si_s1 res) t,
                    si_strm := si_strm res @ [t]\<rparr>;
          head_cur = (if head_cur > cells_get_used c + 2 * n_tokens then 0 else head_cur)
      in if n_tokens > cells_size c then Some (False, slot_nil)
         else do {
           r \<leftarrow> slot_loop (cell_can_use (kv_n_swa kv) (kv_swa_type kv) c) (cells_size c) n_tokens cont
                 (if cont then n_tokens else 1) head_cur 0 [];
           (case r of
              None \<Rightarrow> Some (False, slot_nil)
            | Some idxs \<Rightarrow> Some (True, res\<lparr>si_idxs := si_idxs res @ [idxs]\<rparr>)) }) }"

text \<open>The result is an empty slot when the ubatch does not fit.\<close>

definition kv_find_slot :: "llama_ubatch \<Rightarrow> bool \<Rightarrow> llama_kv_cache \<Rightarrow> slot_info option" where
  "kv_find_slot ub cont kv =
     (let n_tokens = ub_n_tokens ub; n_unq = ub_n_seqs_unq ub in do {
      (if kv_n_stream kv > 1 then do { check (n_unq \<noteq> 0); check (n_tokens mod n_unq = 0); Some () } else Some ());
      (let n_seqs = (if kv_n_stream kv > 1 then n_unq else 1);
           n_tokens = (if kv_n_stream kv > 1 then n_tokens div n_seqs else n_tokens) in do {
       (ok, res) \<leftarrow> for_ret (find_slot_seq kv ub cont n_tokens) [0..<n_seqs]
          \<lparr>si_s0 = LLAMA_MAX_SEQ, si_s1 = 0, si_strm = [], si_idxs = []\<rparr>;
       if \<not> ok then Some slot_nil
       else do {
         check (si_s1 res \<ge> si_s0 res);
         Some res } }) })"

subsection \<open>Placing a ubatch\<close>

definition ubatch_ext :: "kv_hparams \<Rightarrow> llama_ubatch \<Rightarrow> nat \<Rightarrow> llama_kv_cell_ext option" where
  "ubatch_ext hp ub i = do {
     (x, y) \<leftarrow> (if is_pos_2d ub then do {
         x \<leftarrow> nth_opt (ub_pos ub) (i + ub_n_tokens ub * 2);
         y \<leftarrow> nth_opt (ub_pos ub) (i + ub_n_tokens ub);
         Some (x, y) } else Some (0, 0));
     (case ub_token ub of
        Some toks \<Rightarrow> do {
          embd \<leftarrow> (case ub_type ub of None \<Rightarrow> Some False | Some ty \<Rightarrow> nth_opt ty i);
          t \<leftarrow> (if \<not> embd then nth_opt toks i
                else if hp_ple_n_heads hp > 0 then Some (if hp_ple_image_token_id hp \<noteq> 0
                  then u32_to_i32 (hp_ple_image_token_id hp) else u32_to_i32 (hp_ple_eos_token_id hp))
                else Some LLAMA_TOKEN_NULL);
          Some \<lparr>ext_x = x, ext_y = y, ext_tok = t\<rparr> }
      | None \<Rightarrow> Some \<lparr>ext_x = x, ext_y = y, ext_tok =
          (if hp_ple_n_heads hp > 0 then (if hp_ple_image_token_id hp \<noteq> 0
             then u32_to_i32 (hp_ple_image_token_id hp) else u32_to_i32 (hp_ple_eos_token_id hp))
           else LLAMA_TOKEN_NULL)\<rparr>) }"

text \<open>The state of the placing loop: the cells and \<open>seq_pos_max_rm\<close>.\<close>

type_synonym place_state = "llama_kv_cells list \<times> (nat \<Rightarrow> llama_pos)"

definition free_cell :: "nat \<Rightarrow> llama_kv_cells \<times> (nat \<Rightarrow> llama_pos) \<Rightarrow> (llama_kv_cells \<times> (nat \<Rightarrow> llama_pos)) option" where
  "free_cell idx = (\<lambda>(c, rm). do {
     e \<leftarrow> cells_is_empty idx c;
     if e then Some (c, rm)
     else do {
       n \<leftarrow> cells_seq_count idx c;
       check (n = 1);
       s \<leftarrow> cells_seq_get idx c;
       pos \<leftarrow> cells_pos_get idx c;
       check (s \<ge> 0);
       c \<leftarrow> cells_rm idx c;
       Some (c, rm(nat s := max (rm (nat s)) pos)) } })"

definition fill_cell :: "kv_hparams \<Rightarrow> llama_ubatch \<Rightarrow> nat \<Rightarrow> nat \<Rightarrow> llama_kv_cells \<Rightarrow> llama_kv_cells option" where
  "fill_cell hp ub i idx c = do {
     p \<leftarrow> nth_opt (ub_pos ub) i;
     c \<leftarrow> cells_pos_set idx p c;
     c \<leftarrow> (if is_pos_2d ub \<or> ub_token ub \<noteq> None \<or> hp_ple_n_heads hp > 0
           then do { e \<leftarrow> ubatch_ext hp ub i; cells_ext_set idx e c } else Some c);
     ids \<leftarrow> nth_opt (ub_seq_id ub) i;
     for_opt (\<lambda>s c. do { check (s \<ge> 0); cells_seq_add idx (nat s) c }) ids c }"

definition place_token :: "kv_hparams \<Rightarrow> slot_info \<Rightarrow> llama_ubatch \<Rightarrow> nat \<Rightarrow> nat \<Rightarrow> nat \<Rightarrow> place_state
    \<Rightarrow> place_state option" where
  "place_token hp si ub sz s ii = (\<lambda>(vcs, rm). do {
     t \<leftarrow> nth_opt (si_strm si) s;
     c \<leftarrow> nth_opt vcs t;
     idxs \<leftarrow> nth_opt (si_idxs si) s;
     idx \<leftarrow> nth_opt idxs ii;
     (c, rm) \<leftarrow> free_cell idx (c, rm);
     c \<leftarrow> fill_cell hp ub (s * sz + ii) idx c;
     Some (vcs[t := c], rm) })"

definition purge_step :: "(nat \<Rightarrow> llama_pos) \<Rightarrow> nat \<Rightarrow> llama_kv_cache \<Rightarrow> llama_kv_cache option" where
  "purge_step rm s kv =
     (if rm s = -1 then Some kv
      else do {
        t \<leftarrow> nth_opt (kv_seq_to_stream kv) s;
        c \<leftarrow> nth_opt (kv_v_cells kv) t;
        m \<leftarrow> cells_seq_pos_min (int s) c;
        if m \<le> rm s then do {
          q \<leftarrow> i32 (rm s + 1);
          (_, kv) \<leftarrow> kv_seq_rm (int s) m q kv;
          Some kv }
        else Some kv })"

definition move_head :: "slot_info \<Rightarrow> nat \<Rightarrow> llama_kv_cache \<Rightarrow> llama_kv_cache option" where
  "move_head si s kv = do {
     t \<leftarrow> nth_opt (si_strm si) s;
     idxs \<leftarrow> nth_opt (si_idxs si) s;
     check (idxs \<noteq> []);
     check (t < length (kv_v_heads kv));
     Some (kv\<lparr>kv_v_heads := (kv_v_heads kv)[t := List.last idxs + 1]\<rparr>) }"

definition kv_apply_ubatch :: "slot_info \<Rightarrow> llama_ubatch \<Rightarrow> llama_kv_cache \<Rightarrow> llama_kv_cache option" where
  "kv_apply_ubatch si ub kv =
     (if kv_other kv \<noteq> None then Some kv
      else do {
        size \<leftarrow> si_size si;
        check (ub_n_tokens ub = si_n_stream si * size);
        (vcs, rm) \<leftarrow> for_opt (\<lambda>s. for_opt (place_token (kv_hp kv) si ub size s) [0..<size])
          [0..<si_n_stream si] (kv_v_cells kv, \<lambda>_. -1);
        kv \<leftarrow> for_opt (purge_step rm) [0..<LLAMA_MAX_SEQ] (kv\<lparr>kv_v_cells := vcs\<rparr>);
        for_opt (move_head si) [0..<si_n_stream si] kv })"

subsection \<open>Preparing a batch\<close>

record prep_state =
  ps_sinfo :: slot_info
  ps_v_heads_old :: "nat list"
  ps_v_cells :: "llama_kv_cells list"

definition save_cells :: "slot_info \<Rightarrow> llama_kv_cache \<Rightarrow> nat \<Rightarrow> llama_kv_cells list \<Rightarrow> llama_kv_cells list option" where
  "save_cells si kv s acc = do {
     t \<leftarrow> nth_opt (si_strm si) s;
     c \<leftarrow> nth_opt (kv_v_cells kv) t;
     idxs \<leftarrow> nth_opt (si_idxs si) s;
     sv \<leftarrow> cells_cp idxs c;
     Some (acc @ [sv]) }"

definition prepare_step :: "llama_ubatch \<Rightarrow> llama_kv_cache \<times> slot_info list \<times> prep_state list
    \<Rightarrow> (bool \<times> llama_kv_cache \<times> slot_info list \<times> prep_state list) option" where
  "prepare_step ub = (\<lambda>(kv, res, states). do {
     si \<leftarrow> kv_find_slot ub False kv;
     if si_empty si then Some (False, kv, res, states)
     else do {
       saved \<leftarrow> for_opt (save_cells si kv) [0..<si_n_stream si] [];
       (let st = \<lparr>ps_sinfo = si, ps_v_heads_old = kv_v_heads kv, ps_v_cells = saved\<rparr> in do {
        kv \<leftarrow> kv_apply_ubatch si ub kv;
        Some (True, kv, res @ [si], states @ [st]) }) } })"

text \<open>
  Restoring one saved state. The head of stream \<open>strm[s]\<close> is read at index \<open>s\<close> of the saved
  heads.
\<close>

definition restore_stream :: "prep_state \<Rightarrow> nat \<Rightarrow> llama_kv_cache \<Rightarrow> llama_kv_cache option" where
  "restore_stream st s kv = do {
     t \<leftarrow> nth_opt (si_strm (ps_sinfo st)) s;
     c \<leftarrow> nth_opt (kv_v_cells kv) t;
     idxs \<leftarrow> nth_opt (si_idxs (ps_sinfo st)) s;
     sv \<leftarrow> nth_opt (ps_v_cells st) s;
     c \<leftarrow> cells_set idxs sv c;
     h \<leftarrow> nth_opt (ps_v_heads_old st) s;
     check (t < length (kv_v_heads kv));
     Some (set_stream t c h kv) }"

definition restore_state :: "prep_state \<Rightarrow> llama_kv_cache \<Rightarrow> llama_kv_cache option" where
  "restore_state st = for_opt (restore_stream st) [0..<si_n_stream (ps_sinfo st)]"

definition kv_prepare :: "llama_ubatch list \<Rightarrow> llama_kv_cache \<Rightarrow> (slot_info list \<times> llama_kv_cache) option" where
  "kv_prepare ubatches kv = do {
     (ok, kv, res, states) \<leftarrow> for_ret prepare_step ubatches (kv, [], []);
     check (states \<noteq> [] \<or> \<not> ok);
     kv \<leftarrow> for_opt restore_state (rev states) kv;
     if \<not> ok then Some ([], kv) else Some (res, kv) }"

definition GGML_PAD :: "nat \<Rightarrow> nat \<Rightarrow> nat" where
  "GGML_PAD x n = unat ((word_of_nat x + word_of_nat n - 1 :: 32 word) AND NOT (word_of_nat n - 1))"

definition kv_get_n_kv :: "slot_info \<Rightarrow> llama_kv_cache \<Rightarrow> nat option" where
  "kv_get_n_kv si kv = (let n_pad_cur = max (kv_n_pad kv) 256 in
     for_opt (\<lambda>s result. do {
       t \<leftarrow> nth_opt (si_strm si) s;
       c \<leftarrow> nth_opt (kv_v_cells kv) t;
       Some (max (min (cells_size c) (max n_pad_cur (GGML_PAD (cells_used_max_p1 c) n_pad_cur))) result) })
       [0..<si_n_stream si] 0)"

subsection \<open>Batch contexts\<close>

record kv_context =
  kx_status :: llama_memory_status
  kx_sinfos :: "slot_info list"
  kx_ubatches :: "llama_ubatch list"
  kx_i_cur :: nat
  kx_n_kv :: nat
  kx_do_shift :: bool
  kx_ssrc :: "nat list"
  kx_sdst :: "nat list"

definition kv_context_failed :: "llama_memory_status \<Rightarrow> kv_context" where
  "kv_context_failed status = \<lparr>kx_status = status, kx_sinfos = [], kx_ubatches = [], kx_i_cur = 0,
     kx_n_kv = 0, kx_do_shift = False, kx_ssrc = [], kx_sdst = []\<rparr>"

definition kv_context_batch :: "slot_info list \<Rightarrow> llama_ubatch list \<Rightarrow> kv_context" where
  "kv_context_batch sinfos ubatches = (kv_context_failed LLAMA_MEMORY_STATUS_SUCCESS)
     \<lparr>kx_sinfos := sinfos, kx_ubatches := ubatches\<rparr>"

definition kv_context_full :: "llama_kv_cache \<Rightarrow> kv_context option" where
  "kv_context_full kv = do {
     n_kv \<leftarrow> kv_get_size kv;
     Some ((kv_context_failed LLAMA_MEMORY_STATUS_SUCCESS)\<lparr>kx_n_kv := n_kv, kx_sinfos := [
       \<lparr>si_s0 = 0, si_s1 = kv_n_stream kv - 1, si_strm = [0..<kv_n_stream kv],
        si_idxs = replicate (kv_n_stream kv) [0]\<rparr>]\<rparr>) }"

definition kv_context_update :: "bool \<Rightarrow> nat list \<Rightarrow> nat list \<Rightarrow> kv_context option" where
  "kv_context_update do_shift ssrc sdst = do {
     check (length ssrc = length sdst);
     Some ((kv_context_failed (if \<not> do_shift \<and> ssrc = [] then LLAMA_MEMORY_STATUS_NO_UPDATE
         else LLAMA_MEMORY_STATUS_SUCCESS))
       \<lparr>kx_do_shift := do_shift, kx_ssrc := ssrc, kx_sdst := sdst\<rparr>) }"

definition kv_context_next :: "kv_context \<Rightarrow> (bool \<times> kv_context) option" where
  "kv_context_next x = do {
     check (kx_status x = LLAMA_MEMORY_STATUS_SUCCESS);
     (let x = x\<lparr>kx_i_cur := kx_i_cur x + 1\<rparr> in
      if kx_i_cur x \<ge> length (kx_ubatches x) then Some (False, x) else Some (True, x)) }"

text \<open>
  \<open>update\<close>: the pending copies between streams, then the K-shift, after which no shift is
  pending. The copies of the tensor data are left out, their assertions are not; \<open>computed\<close>
  says whether the graph of the shift could be allocated and computed.
\<close>

definition copy_stream_ok :: "llama_kv_cache \<Rightarrow> nat \<times> nat \<Rightarrow> bool" where
  "copy_stream_ok kv = (\<lambda>(ssrc, sdst). ssrc < kv_n_stream kv \<and> sdst < kv_n_stream kv \<and> ssrc \<noteq> sdst)"

definition kv_update :: "bool \<Rightarrow> bool \<Rightarrow> nat list \<Rightarrow> nat list \<Rightarrow> llama_kv_cache
    \<Rightarrow> (bool \<times> llama_kv_cache) option" where
  "kv_update computed do_shift ssrc sdst kv =
     (if kv_other kv \<noteq> None then Some (True, kv)
      else do {
        check (length ssrc = length sdst);
        check (ssrc \<noteq> [] \<longrightarrow> kv_n_stream kv > 1);
        check (list_all (copy_stream_ok kv) (zip ssrc sdst));
        if \<not> do_shift then Some (False, kv)
        else do {
          check (kv_get_can_shift kv);
          if \<not> hp_rope_none (kv_hp kv) \<and> \<not> computed then Some (False, kv)
          else do {
            kv \<leftarrow> for_opt (\<lambda>s kv. do {
              c \<leftarrow> nth_opt (kv_v_cells kv) s;
              Some (kv\<lparr>kv_v_cells := (kv_v_cells kv)[s := cells_reset_shift c]\<rparr>) }) [0..<kv_n_stream kv] kv;
            Some (\<not> hp_rope_none (kv_hp kv), kv) } } })"

definition kv_context_apply :: "bool \<Rightarrow> kv_context \<Rightarrow> llama_kv_cache \<Rightarrow> (kv_context \<times> llama_kv_cache) option" where
  "kv_context_apply computed x kv = do {
     check (\<not> llama_memory_status_is_fail (kx_status x));
     if kx_ubatches x = [] then do {
       (_, kv) \<leftarrow> kv_update computed (kx_do_shift x) (kx_ssrc x) (kx_sdst x) kv;
       Some (x, kv) }
     else do {
       si \<leftarrow> nth_opt (kx_sinfos x) (kx_i_cur x);
       ub \<leftarrow> nth_opt (kx_ubatches x) (kx_i_cur x);
       kv \<leftarrow> kv_apply_ubatch si ub kv;
       n_kv \<leftarrow> kv_get_n_kv si kv;
       Some (x\<lparr>kx_n_kv := n_kv\<rparr>, kv) } }"

definition kv_init_batch :: "nat \<Rightarrow> llama_batch_allocr \<Rightarrow> llama_kv_cache
    \<Rightarrow> (kv_context \<times> llama_batch_allocr \<times> llama_kv_cache) option" where
  "kv_init_batch n_ubatch balloc kv = do {
     (ubatches, balloc) \<leftarrow> drain (if kv_n_stream kv = 1 then split_simple n_ubatch else split_equal n_ubatch True 0)
        (alloc_split_reset balloc);
     if al_n_used balloc < al_n_tokens balloc
     then Some (kv_context_failed LLAMA_MEMORY_STATUS_FAILED_PREPARE, balloc, kv)
     else do {
       (sinfos, kv) \<leftarrow> kv_prepare ubatches kv;
       if sinfos = [] then Some (kv_context_failed LLAMA_MEMORY_STATUS_FAILED_PREPARE, balloc, kv)
       else Some (kv_context_batch sinfos ubatches, balloc, kv) } }"

definition kv_init_update :: "llama_kv_cache \<Rightarrow> (kv_context \<times> llama_kv_cache) option" where
  "kv_init_update kv = do {
     do_shift \<leftarrow> kv_get_has_shift kv;
     x \<leftarrow> kv_context_update do_shift (kv_ssrc kv) (kv_sdst kv);
     Some (x, kv\<lparr>kv_ssrc := [], kv_sdst := []\<rparr>) }"

subsection \<open>The search loop\<close>

text \<open>
  The search starts at the head and goes once around the ring of cells. It takes the first
  \<open>n\<close> usable ones; every cell is tested at most once, so the \<open>while (true)\<close> ends.
\<close>

definition ring_from :: "nat \<Rightarrow> nat \<Rightarrow> nat \<Rightarrow> nat list" where
  "ring_from h sz m = map (\<lambda>j. (h + j) mod sz) [0..<m]"

definition first_usable :: "(nat \<Rightarrow> bool) \<Rightarrow> nat \<Rightarrow> nat \<Rightarrow> nat \<Rightarrow> nat list option" where
  "first_usable u sz n h = (let av = filter u (ring_from h sz sz) in
     if n \<le> length av then Some (take n av) else None)"

lemma ring_from_Suc: "h < sz \<Longrightarrow> ring_from h sz (Suc m) = h # ring_from (Suc h) sz m"
  by (simp add: ring_from_def upt_conv_Cons map_Suc_upt [symmetric] comp_def del: upt_Suc)

lemma ring_from_wrap: "ring_from sz sz m = ring_from 0 sz m"
  by (simp add: ring_from_def)

lemma ring_from_rotate: "ring_from h sz sz = rotate h [0..<sz]"
  by (rule nth_equalityI) (simp_all add: ring_from_def nth_rotate)

lemma set_ring_from: "set (ring_from h sz sz) = {..<sz}"
  by (auto simp: ring_from_rotate)

lemma distinct_ring_from: "distinct (ring_from h sz sz)"
  by (simp add: ring_from_rotate)

lemma slot_test_one:
  "use h = Some b \<Longrightarrow> slot_test use False (Suc 0) (h, k, is) = Some (h + 1, k + 1, if b then is @ [h] else is)"
  by simp

lemma slot_loop_ring:
  assumes "\<And>i. i < sz \<Longrightarrow> use i = Some (u i)"
  shows "h \<le> sz \<Longrightarrow> k < sz \<Longrightarrow> length is < n \<Longrightarrow> slot_loop use sz n False 1 h k is
    = Some (let av = filter u (ring_from h sz (sz - k)) in
        if n \<le> length is + length av then Some (is @ take (n - length is) av) else None)"
proof (induction "sz - k" arbitrary: h k "is")
  case 0
  then show ?case by simp
next
  case (Suc m)
  have inside: "slot_loop use sz n False 1 h k is
    = Some (let av = filter u (ring_from h sz (sz - k)) in
        if n \<le> length is + length av then Some (is @ take (n - length is) av) else None)" if h: "h < sz" for h
  proof -
    let ?is = "if u h then is @ [h] else is"
    have ring: "ring_from h sz (sz - k) = h # ring_from (Suc h) sz m"
      using ring_from_Suc [OF h] Suc.hyps(2) by metis
    have step: "slot_loop use sz n False 1 h k is =
        (if length ?is = n then Some (Some ?is)
         else if k + 1 \<ge> sz then Some None
         else slot_loop use sz n False 1 (h + 1) (k + 1) ?is)"
      using h by (subst slot_loop.simps) (simp add: assms [OF h])
    consider "length ?is = n" | "length ?is \<noteq> n" "k + 1 \<ge> sz" | "length ?is \<noteq> n" "k + 1 < sz" by linarith
    then show ?thesis
    proof cases
      case 1
      then have "u h" "n - length is = 1" using Suc.prems(3) by (auto split: if_splits)
      then show ?thesis using 1 unfolding step ring by simp
    next
      case 2
      then have "m = 0" using Suc.hyps(2) by simp
      then show ?thesis using 2 Suc.prems(3) unfolding step ring
        by (auto simp: ring_from_def Let_def split: if_splits)
    next
      case 3
      have lt: "length ?is < n" using 3(1) Suc.prems(3) by (auto split: if_splits)
      have "slot_loop use sz n False 1 (h + 1) (k + 1) ?is
        = Some (let av = filter u (ring_from (h + 1) sz (sz - (k + 1))) in
        if n \<le> length ?is + length av then Some (?is @ take (n - length ?is) av) else None)"
        by (rule Suc.hyps(1)) (use Suc.hyps(2) h 3(2) lt in simp_all)
      moreover have "sz - (k + 1) = m" using Suc.hyps(2) by simp
      ultimately show ?thesis using 3 lt Suc.prems(3) unfolding step ring
        by (cases "u h") (simp_all add: Let_def Suc_diff_Suc [symmetric])
    qed
  qed
  show ?case
  proof (cases "h = sz")
    case True
    have "slot_loop use sz n False 1 h k is = slot_loop use sz n False 1 0 k is"
      using True by (subst slot_loop.simps) simp
    then show ?thesis using inside [of 0] Suc.prems(2) True by (simp add: ring_from_wrap)
  qed (use inside Suc.prems(1) in simp)
qed

lemma slot_loop_first_usable:
  assumes "\<And>i. i < sz \<Longrightarrow> use i = Some (u i)" "h \<le> sz" "0 < sz" "0 < n"
  shows "slot_loop use sz n False 1 h 0 [] = Some (first_usable u sz n h)"
  using slot_loop_ring [of sz use u h 0 "[]" n] assms by (simp add: first_usable_def Let_def)

lemma first_usable_Some:
  assumes "first_usable u sz n h = Some is"
  shows "length is = n" "distinct is" "\<forall>i \<in> set is. i < sz \<and> u i"
proof -
  let ?av = "filter u (ring_from h sz sz)"
  have "is": "is = take n ?av" "n \<le> length ?av" using assms(1) by (auto simp: first_usable_def Let_def split: if_splits)
  then show "length is = n" by simp
  show "distinct is" using distinct_ring_from [of h sz] by (simp add: "is")
  have "set is \<subseteq> set ?av" unfolding "is" by (rule set_take_subset)
  then show "\<forall>i \<in> set is. i < sz \<and> u i" using set_ring_from [of h sz] by auto
qed

lemma first_usable_None:
  "first_usable u sz n h = None \<longleftrightarrow> card {i. i < sz \<and> u i} < n"
proof -
  have "length (filter u (ring_from h sz sz)) = card (set (filter u (ring_from h sz sz)))"
    by (rule distinct_card [symmetric]) (simp add: distinct_ring_from)
  also have "set (filter u (ring_from h sz sz)) = {i. i < sz \<and> u i}"
    using set_ring_from [of h sz] by auto
  finally show ?thesis by (simp add: first_usable_def Let_def not_le)
qed

subsection \<open>What \<open>find_slot\<close> returns\<close>

definition usable :: "llama_kv_cache \<Rightarrow> nat \<Rightarrow> nat \<Rightarrow> bool" where
  "usable kv t i = (let xs = kv_cells kv t; x = xs ! i in
     a_pos x = -1 \<or> (card (a_seq x) = 1 \<and>
       swa_masked (kv_n_swa kv) (kv_swa_type kv) (a_pos x) (pos_max_of xs (the_elem (a_seq x)) + 1)))"

definition search_head :: "llama_kv_cache \<Rightarrow> nat \<Rightarrow> nat \<Rightarrow> nat" where
  "search_head kv n t = (if kv_v_heads kv ! t > cells_get_used (kv_v_cells kv ! t) + 2 * n then 0 else kv_v_heads kv ! t)"

definition stream_slot :: "llama_kv_cache \<Rightarrow> nat \<Rightarrow> nat \<Rightarrow> nat list option" where
  "stream_slot kv n t = first_usable (usable kv t) (kv_length kv) n (search_head kv n t)"

text \<open>The sequences whose streams a ubatch goes to, and how many tokens each gets.\<close>

definition slot_seqs :: "llama_kv_cache \<Rightarrow> llama_ubatch \<Rightarrow> nat list" where
  "slot_seqs kv ub = (if kv_n_stream kv > 1 then ub_seq_id_unq ub else take 1 (ub_seq_id_unq ub))"

definition slot_len :: "llama_kv_cache \<Rightarrow> llama_ubatch \<Rightarrow> nat" where
  "slot_len kv ub = (if kv_n_stream kv > 1 then ub_n_tokens ub div ub_n_seqs_unq ub else ub_n_tokens ub)"

text \<open>
  A ubatch in the shape the splits give it: in a cache with several streams the tokens are
  grouped by sequence, in equal parts, and each token belongs to that sequence alone.
\<close>

definition ub_shape :: "llama_kv_cache \<Rightarrow> llama_ubatch \<Rightarrow> bool" where
  "ub_shape kv ub \<longleftrightarrow> 0 < ub_n_tokens ub \<and> ub_seq_id_unq ub \<noteq> []
     \<and> ub_n_seqs_unq ub = length (ub_seq_id_unq ub) \<and> distinct (ub_seq_id_unq ub)
     \<and> (\<forall>s \<in> set (ub_seq_id_unq ub). kv_has_seq kv s)
     \<and> length (ub_seq_id ub) = ub_n_tokens ub
     \<and> (1 < kv_n_stream kv \<longrightarrow> ub_n_tokens ub mod ub_n_seqs_unq ub = 0
         \<and> (\<forall>s < ub_n_seqs_unq ub. \<forall>j < slot_len kv ub.
              ub_seq_id ub ! (s * slot_len kv ub + j) = [int (ub_seq_id_unq ub ! s)]))"

lemma ub_shape_len:
  assumes "ub_shape kv ub"
  shows "0 < slot_len kv ub" "ub_n_tokens ub = length (slot_seqs kv ub) * slot_len kv ub"
    "slot_seqs kv ub \<noteq> []" "distinct (slot_seqs kv ub)" "\<forall>s \<in> set (slot_seqs kv ub). kv_has_seq kv s"
proof -
  have n: "0 < ub_n_tokens ub" "ub_seq_id_unq ub \<noteq> []" "ub_n_seqs_unq ub = length (ub_seq_id_unq ub)"
    using assms by (simp_all add: ub_shape_def)
  show "ub_n_tokens ub = length (slot_seqs kv ub) * slot_len kv ub"
  proof (cases "kv_n_stream kv > 1")
    case True
    then have "ub_n_tokens ub mod length (ub_seq_id_unq ub) = 0" using assms n(3) by (simp add: ub_shape_def)
    then show ?thesis using True n(3) by (simp add: slot_seqs_def slot_len_def dvd_eq_mod_eq_0 [symmetric])
  next
    case False
    then show ?thesis using n(2) by (cases "ub_seq_id_unq ub") (simp_all add: slot_seqs_def slot_len_def)
  qed
  then show "0 < slot_len kv ub" using n(1) by (metis gr0I mult_0_right)
  show "slot_seqs kv ub \<noteq> []" "distinct (slot_seqs kv ub)" "\<forall>s \<in> set (slot_seqs kv ub). kv_has_seq kv s"
    using assms by (cases "ub_seq_id_unq ub"; auto simp: ub_shape_def slot_seqs_def)+
qed

lemma cell_can_use_eq:
  assumes wf: "kv_wf kv" and t: "t < kv_n_stream kv" and i: "i < kv_length kv"
    and swa: "swa_ok (kv_n_swa kv) (kv_swa_type kv)"
  shows "cell_can_use (kv_n_swa kv) (kv_swa_type kv) (kv_v_cells kv ! t) i = Some (usable kv t i)"
proof -
  let ?xs = "kv_cells kv t"
  let ?x = "?xs ! i"
  obtain hs where c: "kv_v_cells kv ! t = cells_repr hs ?xs"
    using kv_cells_repr(1) [OF wf t] by blast
  have i': "i < length ?xs" using i kv_stream_get(4) [OF wf t] by simp
  have ok: "cell_ok (kv_n_stream kv) t ?x" using kv_cells_repr(2) [OF wf t] i' by simp
  then have a: "-1 \<le> a_pos ?x" "a_pos ?x < INT32_MAX" "a_seq ?x \<subseteq> {..<LLAMA_MAX_SEQ}"
    by (simp_all add: cell_ok_def acell_ok_def)
  show ?thesis
  proof (cases "a_pos ?x = -1 \<or> card (a_seq ?x) \<noteq> 1")
    case True
    then show ?thesis using i' a(1) by (auto simp: cell_can_use_def c usable_def)
  next
    case False
    then obtain s where s: "a_seq ?x = {s}" by (auto simp: card_1_singleton_iff)
    then have lim: "s < LLAMA_MAX_SEQ" using a(3) by simp
    have "a_pos ?x \<in> seq_positions ?xs s" using s i' by (auto simp: seq_positions_def)
    then have ne: "seq_positions ?xs s \<noteq> {}" by blast
    then have "Max (seq_positions ?xs s) \<in> seq_positions ?xs s" by (intro Max_in) simp_all
    then have "0 \<le> Max (seq_positions ?xs s)" "Max (seq_positions ?xs s) < INT32_MAX"
      by (rule seq_positions_nonneg [OF wf t])+
    then have m: "0 \<le> pos_max_of ?xs s" "pos_max_of ?xs s < INT32_MAX"
      using ne by (simp_all only: pos_max_of_def if_False)
    have "is_masked_swa (kv_n_swa kv) (kv_swa_type kv) (a_pos ?x) (pos_max_of ?xs s + 1)
        = Some (swa_masked (kv_n_swa kv) (kv_swa_type kv) (a_pos ?x) (pos_max_of ?xs s + 1))"
      by (rule is_masked_swa_eq [OF swa]) (use False a(1,2) m in simp_all)
    then show ?thesis
      using False s lim m i' a(1)
      by (simp add: cell_can_use_def c usable_def Let_def INT32_MIN_def)
  qed
qed

definition add_stream_slot :: "nat \<Rightarrow> nat list \<Rightarrow> slot_info \<Rightarrow> slot_info" where
  "add_stream_slot t idxs res = res\<lparr>si_s0 := min (si_s0 res) t, si_s1 := max (si_s1 res) t,
     si_strm := si_strm res @ [t], si_idxs := si_idxs res @ [idxs]\<rparr>"

lemma find_slot_seq_eq:
  assumes wf: "kv_wf kv" and swa: "swa_ok (kv_n_swa kv) (kv_swa_type kv)" and ub: "ub_shape kv ub"
    and s: "s < length (slot_seqs kv ub)"
  shows "find_slot_seq kv ub False (slot_len kv ub) s res =
    Some (case stream_slot kv (slot_len kv ub) (kv_stream kv (slot_seqs kv ub ! s)) of
        None \<Rightarrow> (False, slot_nil)
      | Some idxs \<Rightarrow> (True, add_stream_slot (kv_stream kv (slot_seqs kv ub ! s)) idxs res))"
proof -
  let ?n = "slot_len kv ub" and ?seq = "slot_seqs kv ub ! s"
  let ?t = "kv_stream kv ?seq"
  have has: "kv_has_seq kv ?seq" using ub_shape_len(5) [OF ub] s by simp
  have t: "?t < kv_n_stream kv" by (rule kv_lookup(2) [OF wf has])
  have su: "s < length (ub_seq_id_unq ub)" "ub_seq_id_unq ub ! s = ?seq"
    using s by (auto simp: slot_seqs_def split: if_splits)
  have look: "nth_opt (kv_seq_to_stream kv) ?seq = Some ?t"
    using kv_lookup(1) [OF wf has] by (simp add: inth_opt_def)
  have grp: "(if kv_n_stream kv > 1 then do { ids \<leftarrow> nth_opt (ub_seq_id ub) (s * ?n);
        check (ids = [int ?seq]); Some () } else Some ()) = Some ()"
  proof (cases "kv_n_stream kv > 1")
    case True
    have "s * ?n < ub_n_tokens ub"
      using ub_shape_len(1,2) [OF ub] s by simp
    moreover have "ub_seq_id ub ! (s * ?n + 0) = [int ?seq]"
      using ub True su ub_shape_len(1) [OF ub] unfolding ub_shape_def by metis
    ultimately show ?thesis using True ub by (simp add: ub_shape_def)
  qed simp
  have size: "cells_size (kv_v_cells kv ! ?t) = kv_length kv" by (rule kv_wfD(7) [OF wf t])
  have loop: "slot_loop (cell_can_use (kv_n_swa kv) (kv_swa_type kv) (kv_v_cells kv ! ?t)) (kv_length kv) ?n False 1
      (search_head kv ?n ?t) 0 [] = Some (stream_slot kv ?n ?t)" if "\<not> ?n > kv_length kv"
    unfolding stream_slot_def
  proof (rule slot_loop_first_usable)
    show "search_head kv ?n ?t \<le> kv_length kv"
      using kv_wfD(6) [OF wf t] by (simp add: search_head_def)
  qed (use that ub_shape_len(1) [OF ub] cell_can_use_eq [OF wf t _ swa] in auto)
  have none: "stream_slot kv ?n ?t = None" if "?n > kv_length kv"
  proof -
    have "card {i. i < kv_length kv \<and> usable kv ?t i} \<le> card {..<kv_length kv}"
      by (rule card_mono) auto
    then show ?thesis unfolding stream_slot_def first_usable_None using that by simp
  qed
  have head: "(if kv_v_heads kv ! ?t > cells_get_used (kv_v_cells kv ! ?t) + 2 * ?n then 0 else kv_v_heads kv ! ?t)
      = search_head kv ?n ?t"
    by (simp add: search_head_def)
  show ?thesis
    unfolding find_slot_seq_def nth_opt_ok [OF su(1)] su(2) bind.bind_lunit grp look
      kv_stream_get(1,2) [OF wf t] Let_def head size if_False
    by (cases "?n > kv_length kv") (simp_all add: loop none add_stream_slot_def del: One_nat_def split: option.split)
qed

lemma for_ret_slots:
  assumes "\<And>s res. s \<in> set is \<Longrightarrow> f s res = Some (case slot s of None \<Rightarrow> (False, z) | Some idxs \<Rightarrow> (True, g s idxs res))"
  shows "for_ret f is res = Some (if \<forall>s \<in> set is. slot s \<noteq> None
      then (True, fold (\<lambda>s. g s (the (slot s))) is res) else (False, z))"
  using assms
proof (induction "is" arbitrary: res)
  case (Cons s "is")
  then show ?case by (cases "slot s") auto
qed simp

lemma fold_add_stream_slot:
  "si_strm (fold (\<lambda>s. add_stream_slot (st s) (ix s)) is res) = si_strm res @ map st is"
  "si_idxs (fold (\<lambda>s. add_stream_slot (st s) (ix s)) is res) = si_idxs res @ map ix is"
  by (induction "is" arbitrary: res) (auto simp: add_stream_slot_def)

lemma fold_add_stream_slot_range:
  "is \<noteq> [] \<or> si_s0 res \<le> si_s1 res \<Longrightarrow>
     si_s0 (fold (\<lambda>s. add_stream_slot (st s) (ix s)) is res) \<le> si_s1 (fold (\<lambda>s. add_stream_slot (st s) (ix s)) is res)"
proof (induction "is" arbitrary: res)
  case (Cons a "is")
  have "min (si_s0 res) (st a) \<le> max (si_s1 res) (st a)"
    by (intro min.coboundedI2 max.cobounded2)
  then show ?case using Cons.IH [of "add_stream_slot (st a) (ix a) res"]
    by (simp add: add_stream_slot_def)
qed simp

text \<open>The slot for a ubatch: for each of its streams the first usable cells after the head.\<close>

lemma find_slot_eq:
  assumes wf: "kv_wf kv" and swa: "swa_ok (kv_n_swa kv) (kv_swa_type kv)" and ub: "ub_shape kv ub"
  shows "\<exists>si. kv_find_slot ub False kv = Some si
    \<and> (if \<forall>s \<in> set (slot_seqs kv ub). stream_slot kv (slot_len kv ub) (kv_stream kv s) \<noteq> None
       then si_strm si = map (kv_stream kv) (slot_seqs kv ub)
         \<and> si_idxs si = map (\<lambda>s. the (stream_slot kv (slot_len kv ub) (kv_stream kv s))) (slot_seqs kv ub)
       else si = slot_nil)"
proof -
  let ?n = "slot_len kv ub" and ?seqs = "slot_seqs kv ub"
  let ?slot = "\<lambda>s. stream_slot kv ?n (kv_stream kv (?seqs ! s))"
  let ?res = "\<lparr>si_s0 = LLAMA_MAX_SEQ, si_s1 = 0, si_strm = [], si_idxs = []\<rparr>"
  let ?fold = "fold (\<lambda>s. add_stream_slot (kv_stream kv (?seqs ! s)) (the (?slot s))) [0..<length ?seqs] ?res"
  have n_seqs: "(if kv_n_stream kv > 1 then ub_n_seqs_unq ub else 1) = length ?seqs"
    using ub by (cases "ub_seq_id_unq ub") (auto simp: ub_shape_def slot_seqs_def)
  have n_tok: "(if kv_n_stream kv > 1 then ub_n_tokens ub div length ?seqs else ub_n_tokens ub) = ?n"
    using n_seqs by (simp add: slot_len_def split: if_splits)
  have chk: "(if kv_n_stream kv > 1 then do { check (ub_n_seqs_unq ub \<noteq> 0);
      check (ub_n_tokens ub mod ub_n_seqs_unq ub = 0); Some () } else Some ()) = Some ()"
    using ub by (auto simp: ub_shape_def)
  have loop: "for_ret (find_slot_seq kv ub False ?n) [0..<length ?seqs] ?res
    = Some (if \<forall>s \<in> set [0..<length ?seqs]. ?slot s \<noteq> None then (True, ?fold) else (False, slot_nil))"
    by (rule for_ret_slots) (use find_slot_seq_eq [OF wf swa ub] in auto)
  have all: "(\<forall>s \<in> set [0..<length ?seqs]. ?slot s \<noteq> None)
      \<longleftrightarrow> (\<forall>s \<in> set ?seqs. stream_slot kv ?n (kv_stream kv s) \<noteq> None)"
    by (auto simp: all_set_conv_all_nth)
  have le: "si_s0 ?fold \<le> si_s1 ?fold"
    by (rule fold_add_stream_slot_range) (use ub_shape_len(3) [OF ub] in simp)
  have "map (\<lambda>s. kv_stream kv (?seqs ! s)) [0..<length ?seqs] = map (kv_stream kv) ?seqs"
    "map (\<lambda>s. the (?slot s)) [0..<length ?seqs] = map (\<lambda>s. the (stream_slot kv ?n (kv_stream kv s))) ?seqs"
    by (simp_all add: map_equality_iff)
  then have fields: "si_strm ?fold = map (kv_stream kv) ?seqs"
    "si_idxs ?fold = map (\<lambda>s. the (stream_slot kv ?n (kv_stream kv s))) ?seqs"
    by (simp_all add: fold_add_stream_slot)
  show ?thesis
  proof (cases "\<forall>s \<in> set ?seqs. stream_slot kv ?n (kv_stream kv s) \<noteq> None")
    case True
    then have "kv_find_slot ub False kv = Some ?fold"
      unfolding kv_find_slot_def Let_def chk n_seqs n_tok bind.bind_lunit loop all
      using le by simp
    then show ?thesis using True fields by simp
  next
    case False
    then have "kv_find_slot ub False kv = Some slot_nil"
      unfolding kv_find_slot_def Let_def chk n_seqs n_tok bind.bind_lunit loop all if_not_P [OF False] by simp
    then show ?thesis unfolding if_not_P [OF False] by blast
  qed
qed

text \<open>A ubatch of one token for sequence \<open>s\<close>, for the witnesses.\<close>

definition ub_one :: "nat \<Rightarrow> llama_pos \<Rightarrow> llama_ubatch" where
  "ub_one s p = ubatch_nil\<lparr>ub_n_tokens := 1, ub_n_seq_tokens := 1, ub_n_seqs := 1, ub_n_seqs_unq := 1,
     ub_n_pos := 1, ub_token := Some [7], ub_pos := [p], ub_seq_id := [[int s]], ub_seq_id_unq := [s],
     ub_output := [True], ub_batch_idxs := [0]\<rparr>"

lemma ub_one_sel [simp]:
  "ub_n_tokens (ub_one s p) = 1" "ub_seq_id_unq (ub_one s p) = [s]" "ub_n_seqs_unq (ub_one s p) = 1"
  "ub_seq_id (ub_one s p) = [[int s]]" "ub_pos (ub_one s p) = [p]" "ub_token (ub_one s p) = Some [7]"
  "ub_n_pos (ub_one s p) = 1" "ub_type (ub_one s p) = None"
  by (simp_all add: ub_one_def ubatch_nil_def)

lemma ub_one_shape [simp]:
  "kv_has_seq kv s \<Longrightarrow> ub_shape kv (ub_one s p)" "slot_len kv (ub_one s p) = 1" "slot_seqs kv (ub_one s p) = [s]"
  by (simp_all add: ub_shape_def slot_len_def slot_seqs_def)

lemma demo_length [simp]: "kv_length kv_demo = 4" "kv_length kv_demo2 = 2"
  by (simp_all add: kv_length_def kv_demo_def kv_demo2_def)

text \<open>
  C24: \<open>find_slot\<close>. The search always ends. A ubatch gets a slot iff each of its streams has at
  least as many usable cells as the stream's share of the tokens, and then the cells of each
  stream are the first usable ones in ring order from the search head; a cell is usable when
  it is empty, or when it belongs to one sequence and its position has left the window of that
  sequence.
\<close>
theorem find_slot_correct:
  assumes "kv_inv kv" "swa_ok (kv_n_swa kv) (kv_swa_type kv)" "ub_shape kv ub"
  shows "\<exists>si. kv_find_slot ub False kv = Some si
    \<and> (si \<noteq> slot_nil \<longleftrightarrow> (\<forall>s \<in> set (slot_seqs kv ub).
          slot_len kv ub \<le> card {i. i < kv_length kv \<and> usable kv (kv_stream kv s) i}))
    \<and> (si \<noteq> slot_nil \<longrightarrow> si_strm si = map (kv_stream kv) (slot_seqs kv ub)
         \<and> si_idxs si = map (\<lambda>s. take (slot_len kv ub) (filter (usable kv (kv_stream kv s))
              (rotate (search_head kv (slot_len kv ub) (kv_stream kv s)) [0..<kv_length kv]))) (slot_seqs kv ub))"
proof -
  have wf: "kv_wf kv" using assms(1) by (simp add: kv_inv_def)
  let ?n = "slot_len kv ub" and ?seqs = "slot_seqs kv ub"
  obtain si where si: "kv_find_slot ub False kv = Some si"
    "if \<forall>s \<in> set ?seqs. stream_slot kv ?n (kv_stream kv s) \<noteq> None
     then si_strm si = map (kv_stream kv) ?seqs
       \<and> si_idxs si = map (\<lambda>s. the (stream_slot kv ?n (kv_stream kv s))) ?seqs
     else si = slot_nil"
    using find_slot_eq [OF wf assms(2,3)] by blast
  have iff: "stream_slot kv ?n t \<noteq> None \<longleftrightarrow> ?n \<le> card {i. i < kv_length kv \<and> usable kv t i}" for t
    using first_usable_None [of "usable kv t" "kv_length kv" ?n "search_head kv ?n t"]
    by (simp add: stream_slot_def not_less [symmetric])
  have val: "the (stream_slot kv ?n t) = take ?n (filter (usable kv t) (rotate (search_head kv ?n t) [0..<kv_length kv]))"
    if "stream_slot kv ?n t \<noteq> None" for t
    using that by (auto simp: stream_slot_def first_usable_def ring_from_rotate Let_def split: if_splits)
  show ?thesis
  proof (cases "\<forall>s \<in> set ?seqs. stream_slot kv ?n (kv_stream kv s) \<noteq> None")
    case True
    note fields = si(2) [unfolded if_P [OF True]]
    then have "si \<noteq> slot_nil" using ub_shape_len(3) [OF assms(3)] by (auto simp: slot_nil_def)
    moreover have "map (\<lambda>s. the (stream_slot kv ?n (kv_stream kv s))) ?seqs = map (\<lambda>s. take ?n (filter (usable kv (kv_stream kv s))
              (rotate (search_head kv ?n (kv_stream kv s)) [0..<kv_length kv]))) ?seqs"
      by (rule map_cong) (use val True in auto)
    ultimately show ?thesis using si(1) fields True iff by auto
  next
    case False
    then have "si = slot_nil" using si(2) by (simp only: if_False)
    then show ?thesis using si(1) False [unfolded iff] by simp
  qed
qed

theorem find_slot_correct_witness:
  "\<exists>si. kv_find_slot (ub_one 1 3) False kv_demo = Some si \<and> si_strm si = [0] \<and> si_idxs si = [[3]]"
proof -
  have u: "usable kv_demo 0 i \<longleftrightarrow> i = 3" if "i < 4" for i
    using that by (auto simp: usable_def kv_demo_def swa_masked_def less_Suc_eq numeral_eq_Suc
        kv_cells_def demo_cell_def)
  have "{i. i < (4::nat) \<and> usable kv_demo 0 i} = {3}" using u by auto
  then have card: "card {i. i < (4::nat) \<and> usable kv_demo 0 i} = 1" by simp
  have swa: "swa_ok (kv_n_swa kv_demo) (kv_swa_type kv_demo)"
    by (simp add: kv_demo_def swa_ok_def INT32_MAX_def)
  have used: "used_of [demo_cell 0 {0}, demo_cell 1 {0, 1}, demo_cell 2 {0}, empty_cell] = {0, 1, 2}"
    by (auto simp: used_of_def less_Suc_eq numeral_eq_Suc)
  have head: "search_head kv_demo 1 0 = 3"
    by (simp add: search_head_def kv_demo_def cells_get_used_def used [simplified])
  have ring: "rotate 3 [0..<4] = [3, 0, 1, 2 :: nat]" by code_simp
  obtain si where "kv_find_slot (ub_one 1 3) False kv_demo = Some si"
    "si \<noteq> slot_nil \<longleftrightarrow> (\<forall>s \<in> set (slot_seqs kv_demo (ub_one 1 3)). slot_len kv_demo (ub_one 1 3)
          \<le> card {i. i < kv_length kv_demo \<and> usable kv_demo (kv_stream kv_demo s) i})"
    "si \<noteq> slot_nil \<longrightarrow> si_strm si = map (kv_stream kv_demo) (slot_seqs kv_demo (ub_one 1 3))
         \<and> si_idxs si = map (\<lambda>s. take (slot_len kv_demo (ub_one 1 3)) (filter (usable kv_demo (kv_stream kv_demo s))
              (rotate (search_head kv_demo (slot_len kv_demo (ub_one 1 3)) (kv_stream kv_demo s)) [0..<kv_length kv_demo])))
            (slot_seqs kv_demo (ub_one 1 3))"
    using find_slot_correct [OF demo_inv(1) swa ub_one_shape(1), of 1 3] by auto
  then show ?thesis
    by (intro exI [of _ si]) (simp add: card head [simplified] ring u)
qed

subsection \<open>Writing one token into a cell\<close>

definition has_ext :: "kv_hparams \<Rightarrow> llama_ubatch \<Rightarrow> bool" where
  "has_ext hp ub \<longleftrightarrow> is_pos_2d ub \<or> ub_token ub \<noteq> None \<or> hp_ple_n_heads hp > 0"

text \<open>What a token of a ubatch must look like, and the cell it becomes.\<close>

definition token_ok :: "llama_kv_cache \<Rightarrow> llama_ubatch \<Rightarrow> nat \<Rightarrow> bool" where
  "token_ok kv ub i \<longleftrightarrow> i < length (ub_pos ub) \<and> i < length (ub_seq_id ub)
     \<and> 0 \<le> ub_pos ub ! i \<and> ub_pos ub ! i < INT32_MAX
     \<and> ub_seq_id ub ! i \<noteq> [] \<and> distinct (ub_seq_id ub ! i)
     \<and> (\<forall>s \<in> set (ub_seq_id ub ! i). 0 \<le> s \<and> nat s < LLAMA_MAX_SEQ)
     \<and> (has_ext (kv_hp kv) ub \<longrightarrow> ubatch_ext (kv_hp kv) ub i \<noteq> None)"

definition token_seqs :: "llama_ubatch \<Rightarrow> nat \<Rightarrow> nat set" where
  "token_seqs ub i = nat ` set (ub_seq_id ub ! i)"

definition token_cell :: "kv_hparams \<Rightarrow> llama_ubatch \<Rightarrow> nat \<Rightarrow> acell \<Rightarrow> acell" where
  "token_cell hp ub i x = x\<lparr>a_pos := ub_pos ub ! i,
     a_ext := (if has_ext hp ub then the (ubatch_ext hp ub i) else a_ext x), a_seq := token_seqs ub i\<rparr>"

lemma token_cell_sel [simp]:
  "a_pos (token_cell hp ub i x) = ub_pos ub ! i" "a_seq (token_cell hp ub i x) = token_seqs ub i"
  "a_shift (token_cell hp ub i x) = a_shift x"
  by (simp_all add: token_cell_def)

lemma add_seqs_repr:
  assumes "idx < length xs" "a_pos y \<noteq> -1" "distinct ids" "\<forall>s \<in> set ids. 0 \<le> s \<and> nat s < LLAMA_MAX_SEQ \<and> nat s \<notin> a_seq y"
  shows "for_opt (\<lambda>s c. do { check (s \<ge> 0); cells_seq_add idx (nat s) c }) ids (cells_repr hs (xs[idx := y]))
    = Some (cells_repr hs (xs[idx := y\<lparr>a_seq := a_seq y \<union> nat ` set ids\<rparr>]))"
  using assms
proof (induction ids arbitrary: y)
  case Nil
  then show ?case by simp
next
  case (Cons s ids)
  let ?y = "y\<lparr>a_seq := insert (nat s) (a_seq y)\<rparr>"
  have "cells_seq_add idx (nat s) (cells_repr hs (xs[idx := y])) = Some (cells_repr hs (xs[idx := ?y]))"
    using cells_seq_add_repr [of idx "xs[idx := y]" "nat s" hs] Cons.prems by simp
  moreover have "for_opt (\<lambda>s c. do { check (s \<ge> 0); cells_seq_add idx (nat s) c }) ids (cells_repr hs (xs[idx := ?y]))
    = Some (cells_repr hs (xs[idx := ?y\<lparr>a_seq := a_seq ?y \<union> nat ` set ids\<rparr>]))"
    by (rule Cons.IH) (use Cons.prems in \<open>auto simp: nat_eq_iff\<close>)
  ultimately show ?case using Cons.prems(4) by simp
qed

lemma fill_cell_repr:
  assumes "idx < length xs" "a_pos (xs ! idx) = -1" "a_seq (xs ! idx) = {}" "token_ok kv ub i"
  shows "fill_cell (kv_hp kv) ub i idx (cells_repr hs xs)
    = Some (cells_repr hs (xs[idx := token_cell (kv_hp kv) ub i (xs ! idx)]))"
proof -
  let ?hp = "kv_hp kv" and ?x = "xs ! idx" and ?p = "ub_pos ub ! i"
  let ?e = "if has_ext ?hp ub then the (ubatch_ext ?hp ub i) else a_ext ?x"
  let ?y = "?x\<lparr>a_pos := ?p, a_ext := ?e\<rparr>"
  have tok: "i < length (ub_pos ub)" "i < length (ub_seq_id ub)" "0 \<le> ?p" "distinct (ub_seq_id ub ! i)"
    "\<forall>s \<in> set (ub_seq_id ub ! i). 0 \<le> s \<and> nat s < LLAMA_MAX_SEQ" "has_ext ?hp ub \<longrightarrow> ubatch_ext ?hp ub i \<noteq> None"
    using assms(4) by (simp_all add: token_ok_def)
  have pos: "cells_pos_set idx ?p (cells_repr hs xs) = Some (cells_repr hs (xs[idx := ?x\<lparr>a_pos := ?p\<rparr>]))"
    using cells_pos_set_repr [OF assms(1,2,3), of ?p hs] tok(3) by simp
  have ext: "(if has_ext ?hp ub then do { e \<leftarrow> ubatch_ext ?hp ub i;
        cells_ext_set idx e (cells_repr hs (xs[idx := ?x\<lparr>a_pos := ?p\<rparr>])) }
      else Some (cells_repr hs (xs[idx := ?x\<lparr>a_pos := ?p\<rparr>]))) = Some (cells_repr hs (xs[idx := ?y]))"
  proof (cases "has_ext ?hp ub")
    case True
    then obtain e where "ubatch_ext ?hp ub i = Some e" using tok(6) by auto
    then show ?thesis
      using True cells_ext_set_repr [of idx "xs[idx := ?x\<lparr>a_pos := ?p\<rparr>]" e hs] assms(1) by simp
  next
    case False
    have "?x\<lparr>a_pos := ?p, a_ext := a_ext ?x\<rparr> = ?x\<lparr>a_pos := ?p\<rparr>" by (cases ?x) simp
    then show ?thesis using False by simp
  qed
  have seqs: "for_opt (\<lambda>s c. do { check (s \<ge> 0); cells_seq_add idx (nat s) c }) (ub_seq_id ub ! i)
      (cells_repr hs (xs[idx := ?y])) = Some (cells_repr hs (xs[idx := ?y\<lparr>a_seq := a_seq ?y \<union> nat ` set (ub_seq_id ub ! i)\<rparr>]))"
    by (rule add_seqs_repr) (use assms(1,3) tok in simp_all)
  have "?y\<lparr>a_seq := a_seq ?y \<union> nat ` set (ub_seq_id ub ! i)\<rparr> = token_cell ?hp ub i ?x"
    using assms(3) by (simp add: token_cell_def token_seqs_def)
  then show ?thesis
    unfolding fill_cell_def has_ext_def [symmetric]
    by (simp only: nth_opt_ok [OF tok(1)] nth_opt_ok [OF tok(2)] bind.bind_lunit pos ext seqs)
qed

subsection \<open>Placing the tokens\<close>

text \<open>The cells of a cache that differ from another one's in their contents only.\<close>

definition kv_frame :: "llama_kv_cache \<Rightarrow> llama_kv_cache \<Rightarrow> bool" where
  "kv_frame kv kv' \<longleftrightarrow> kv' = kv\<lparr>kv_v_cells := kv_v_cells kv', kv_v_heads := kv_v_heads kv'\<rparr>"

lemma kv_frame_refl [simp]: "kv_frame kv kv"
  by (simp add: kv_frame_def)

lemma kv_frameD:
  assumes "kv_frame kv kv'"
  shows "kv_n_stream kv' = kv_n_stream kv" "kv_seq_to_stream kv' = kv_seq_to_stream kv" "kv_other kv' = kv_other kv"
    "kv_hp kv' = kv_hp kv" "kv_n_swa kv' = kv_n_swa kv" "kv_swa_type kv' = kv_swa_type kv"
    "kv_n_pad kv' = kv_n_pad kv" "kv_stream kv' s = kv_stream kv s" "kv_has_seq kv' s = kv_has_seq kv s"
  by (subst assms [unfolded kv_frame_def], simp add: kv_stream_def kv_has_seq_def)+

lemma kv_frame_trans: "kv_frame a b \<Longrightarrow> kv_frame b c \<Longrightarrow> kv_frame a c"
  unfolding kv_frame_def by (cases a, cases b, cases c) simp

definition put_cell :: "nat \<Rightarrow> nat \<Rightarrow> acell \<Rightarrow> llama_kv_cache \<Rightarrow> llama_kv_cache" where
  "put_cell t idx y kv = kv\<lparr>kv_v_cells := (kv_v_cells kv)[t :=
     cells_repr (kc_has_shift (kv_v_cells kv ! t)) ((kv_cells kv t)[idx := y])]\<rparr>"

lemma put_cell_frame [simp]: "kv_frame kv (put_cell t idx y kv)"
  by (simp add: kv_frame_def put_cell_def)

lemma put_cell_sel [simp]:
  "kv_v_heads (put_cell t idx y kv) = kv_v_heads kv" "kv_n_stream (put_cell t idx y kv) = kv_n_stream kv"
  "kv_hp (put_cell t idx y kv) = kv_hp kv" "kv_seq_to_stream (put_cell t idx y kv) = kv_seq_to_stream kv"
  "kv_other (put_cell t idx y kv) = kv_other kv"
  by (simp_all add: put_cell_def)

lemma kv_cells_put_cell:
  "t < length (kv_v_cells kv) \<Longrightarrow> kv_cells (put_cell t idx y kv) u =
     (if u = t then (kv_cells kv t)[idx := y] else kv_cells kv u)"
  by (simp add: kv_cells_def put_cell_def nth_list_update)

lemma put_cell_shift:
  "t < length (kv_v_cells kv) \<Longrightarrow> kc_has_shift (kv_v_cells (put_cell t idx y kv) ! u) = kc_has_shift (kv_v_cells kv ! u)"
  by (simp add: put_cell_def nth_list_update)

lemma kv_wf_put_cell:
  assumes "kv_wf kv" "t < kv_n_stream kv" "cell_ok (kv_n_stream kv) t y"
  shows "kv_wf (put_cell t idx y kv)"
proof -
  have "put_cell t idx y kv = set_stream t (cells_repr (kc_has_shift (kv_v_cells kv ! t)) ((kv_cells kv t)[idx := y])) (kv_v_heads kv ! t) kv"
    by (simp add: put_cell_def set_stream_def)
  moreover have "kv_wf (set_stream t (cells_repr (kc_has_shift (kv_v_cells kv ! t)) ((kv_cells kv t)[idx := y])) (kv_v_heads kv ! t) kv)"
    by (rule kv_wf_set_stream [OF assms(1,2)])
       (use assms(3) kv_cells_repr(2) [OF assms(1,2)] kv_stream_get(3) [OF assms(1,2)] in
         \<open>auto dest!: subsetD [OF set_update_subset_insert]\<close>)
  ultimately show ?thesis by simp
qed

text \<open>
  One iteration on the abstract cells: the target cell, emptied first when it is in use, gets
  the token, and the position it loses is noted for its sequence.
\<close>

definition target :: "slot_info \<Rightarrow> nat \<times> nat \<Rightarrow> nat \<times> nat" where
  "target si = (\<lambda>(s, ii). (si_strm si ! s, si_idxs si ! s ! ii))"

definition vacate :: "acell \<Rightarrow> acell" where
  "vacate x = (if a_pos x = -1 then x else empty_cell)"

definition note_rm :: "acell \<Rightarrow> (nat \<Rightarrow> llama_pos) \<Rightarrow> nat \<Rightarrow> llama_pos" where
  "note_rm x rm = (if a_pos x = -1 then rm
     else rm(the_elem (a_seq x) := max (rm (the_elem (a_seq x))) (a_pos x)))"

definition place :: "slot_info \<Rightarrow> llama_ubatch \<Rightarrow> nat \<Rightarrow> nat \<times> nat \<Rightarrow> llama_kv_cache \<times> (nat \<Rightarrow> llama_pos)
    \<Rightarrow> llama_kv_cache \<times> (nat \<Rightarrow> llama_pos)" where
  "place si ub sz p = (\<lambda>(kv, rm). let (t, idx) = target si p; x = kv_cells kv t ! idx in
     (put_cell t idx (token_cell (kv_hp kv) ub (fst p * sz + snd p) (vacate x)) kv, note_rm x rm))"

text \<open>A target that may be written to.\<close>

definition target_ok :: "llama_kv_cache \<Rightarrow> slot_info \<Rightarrow> llama_ubatch \<Rightarrow> nat \<Rightarrow> nat \<times> nat \<Rightarrow> bool" where
  "target_ok kv si ub sz = (\<lambda>(s, ii). s < length (si_strm si) \<and> s < length (si_idxs si) \<and> ii < length (si_idxs si ! s)
     \<and> si_strm si ! s < kv_n_stream kv \<and> si_idxs si ! s ! ii < kv_length kv
     \<and> token_ok kv ub (s * sz + ii)
     \<and> (1 < kv_n_stream kv \<longrightarrow> token_seqs ub (s * sz + ii) \<subseteq> {si_strm si ! s})
     \<and> (let x = kv_cells kv (si_strm si ! s) ! (si_idxs si ! s ! ii) in a_pos x = -1 \<or> card (a_seq x) = 1))"

lemma cell_ok_token_cell:
  assumes "token_ok kv ub i" "1 < kv_n_stream kv \<longrightarrow> token_seqs ub i \<subseteq> {t}" "a_shift x = 0"
  shows "cell_ok (kv_n_stream kv) t (token_cell (kv_hp kv) ub i x)"
proof -
  have "a_seq (token_cell (kv_hp kv) ub i x) \<subseteq> {..<LLAMA_MAX_SEQ}" "a_seq (token_cell (kv_hp kv) ub i x) \<noteq> {}"
    using assms(1) by (auto simp: token_ok_def token_seqs_def)
  then show ?thesis using assms by (auto simp: cell_ok_def acell_ok_def token_ok_def)
qed

lemma vacate_shift: "cell_ok n t x \<Longrightarrow> a_shift (vacate x) = 0"
  by (auto simp: vacate_def cell_ok_def acell_ok_def)

lemma place_token_eq:
  assumes wf: "kv_wf kv" and ok: "target_ok kv si ub sz (s, ii)"
  shows "place_token (kv_hp kv) si ub sz s ii (kv_v_cells kv, rm)
      = Some (apfst kv_v_cells (place si ub sz (s, ii) (kv, rm)))"
    "kv_wf (fst (place si ub sz (s, ii) (kv, rm)))"
proof -
  let ?t = "si_strm si ! s" and ?idx = "si_idxs si ! s ! ii" and ?i = "s * sz + ii"
  let ?xs = "kv_cells kv ?t"
  let ?x = "?xs ! ?idx" and ?c = "kv_v_cells kv ! ?t"
  have b: "s < length (si_strm si)" "s < length (si_idxs si)" "ii < length (si_idxs si ! s)"
    "?t < kv_n_stream kv" "?idx < kv_length kv" "token_ok kv ub ?i"
    "1 < kv_n_stream kv \<longrightarrow> token_seqs ub ?i \<subseteq> {?t}" "a_pos ?x = -1 \<or> card (a_seq ?x) = 1"
    using ok by (simp_all add: target_ok_def Let_def)
  have i: "?idx < length ?xs" using b(5) kv_stream_get(4) [OF wf b(4)] by simp
  have xok: "cell_ok (kv_n_stream kv) ?t ?x" using kv_cells_repr(2) [OF wf b(4)] i by simp
  have acells: "\<forall>x \<in> set ?xs. acell_ok x" using kv_cells_repr(2) [OF wf b(4)] cell_okD by blast
  obtain hs where c: "?c = cells_repr hs ?xs" using kv_cells_repr(1) [OF wf b(4)] by blast
  have free: "free_cell ?idx (?c, rm) = Some (cells_repr hs (?xs[?idx := vacate ?x]), note_rm ?x rm)"
  proof (cases "a_pos ?x = -1")
    case True
    then show ?thesis using i by (simp add: free_cell_def c vacate_def note_rm_def)
  next
    case False
    then obtain q where q: "a_seq ?x = {q}" using b(8) by (auto simp: card_1_singleton_iff)
    have "q < LLAMA_MAX_SEQ" "-1 \<le> a_pos ?x" using xok q by (auto simp: cell_ok_def acell_ok_def)
    then show ?thesis
      using False i q cells_rm_repr [OF acells i False, of hs]
      by (simp add: free_cell_def c vacate_def note_rm_def)
  qed
  have v: "a_pos (vacate ?x) = -1" "a_seq (vacate ?x) = {}"
    using xok by (auto simp: vacate_def cell_ok_def acell_ok_def)
  have fill: "fill_cell (kv_hp kv) ub ?i ?idx (cells_repr hs (?xs[?idx := vacate ?x]))
      = Some (cells_repr hs (?xs[?idx := token_cell (kv_hp kv) ub ?i (vacate ?x)]))"
    using fill_cell_repr [of ?idx "?xs[?idx := vacate ?x]" kv ub ?i hs] i v b(6) by simp
  have t: "nth_opt (kv_v_cells kv) ?t = Some ?c" by (rule kv_stream_get(1) [OF wf b(4)])
  show "place_token (kv_hp kv) si ub sz s ii (kv_v_cells kv, rm)
      = Some (apfst kv_v_cells (place si ub sz (s, ii) (kv, rm)))"
    unfolding place_token_def
    by (simp add: nth_opt_ok [OF b(1)] nth_opt_ok [OF b(2)] nth_opt_ok [OF b(3)] t free [unfolded c] fill place_def target_def
        put_cell_def c Let_def)
  show "kv_wf (fst (place si ub sz (s, ii) (kv, rm)))"
    unfolding place_def target_def
    by (simp add: kv_wf_put_cell [OF wf b(4)] cell_ok_token_cell b(6,7) vacate_shift [OF xok] Let_def)
qed

lemma place_frame: "kv_frame kv (fst (place si ub sz p (kv, rm)))"
  by (simp add: place_def Let_def split: prod.split)

lemma place_cells:
  assumes "t < length (kv_v_cells kv)" "target si p = (t, idx)"
  shows "kv_cells (fst (place si ub sz p (kv, rm))) u =
    (if u = t then (kv_cells kv t)[idx := token_cell (kv_hp kv) ub (fst p * sz + snd p) (vacate (kv_cells kv t ! idx))]
     else kv_cells kv u)"
  using assms by (simp add: place_def Let_def kv_cells_put_cell)

lemma kv_length_frame: "kv_wf kv \<Longrightarrow> kv_length kv = length (kv_cells kv 0)"
  using kv_stream_get(4) kv_wfD(1) by metis

definition cell_at :: "llama_kv_cache \<Rightarrow> nat \<times> nat \<Rightarrow> acell" where
  "cell_at kv = (\<lambda>(t, idx). kv_cells kv t ! idx)"

definition token_at :: "nat \<Rightarrow> nat \<times> nat \<Rightarrow> nat" where
  "token_at sz p = fst p * sz + snd p"

text \<open>One iteration, with targets that are distinct.\<close>

lemma place_step:
  assumes wf: "kv_wf kv" and dist: "distinct (map (target si) (p # ps))"
    and ok: "\<forall>q \<in> set (p # ps). target_ok kv si ub sz q"
  shows "\<exists>kv1. place si ub sz p (kv, rm) = (kv1, note_rm (cell_at kv (target si p)) rm)
    \<and> (case p of (s, ii) \<Rightarrow> place_token (kv_hp kv) si ub sz s ii (kv_v_cells kv, rm))
        = Some (kv_v_cells kv1, note_rm (cell_at kv (target si p)) rm)
    \<and> kv_wf kv1 \<and> kv_frame kv kv1 \<and> kv_length kv1 = kv_length kv \<and> kv_v_heads kv1 = kv_v_heads kv
    \<and> (\<forall>t. length (kv_cells kv1 t) = length (kv_cells kv t)
          \<and> kc_has_shift (kv_v_cells kv1 ! t) = kc_has_shift (kv_v_cells kv ! t))
    \<and> (\<forall>q \<in> set ps. target_ok kv1 si ub sz q)
    \<and> cell_at kv1 (target si p) = token_cell (kv_hp kv) ub (token_at sz p) (vacate (cell_at kv (target si p)))
    \<and> (\<forall>tj. tj \<noteq> target si p \<longrightarrow> cell_at kv1 tj = cell_at kv tj)"
proof -
  obtain s ii where p: "p = (s, ii)" by (cases p)
  let ?x = "cell_at kv (target si p)"
  obtain kv1 where one: "place si ub sz (s, ii) (kv, rm) = (kv1, note_rm ?x rm)"
    and kv1: "kv1 = put_cell (si_strm si ! s) (si_idxs si ! s ! ii)
      (token_cell (kv_hp kv) ub (token_at sz p) (vacate ?x)) kv"
    by (simp add: place_def target_def cell_at_def p Let_def token_at_def)
  have okp: "target_ok kv si ub sz (s, ii)" using ok p by simp
  have step: "place_token (kv_hp kv) si ub sz s ii (kv_v_cells kv, rm) = Some (kv_v_cells kv1, note_rm ?x rm)" and wf1: "kv_wf kv1"
    using place_token_eq [OF wf okp, of rm] one by simp_all
  have fr: "kv_frame kv kv1" by (simp add: kv1)
  have t: "si_strm si ! s < length (kv_v_cells kv)" "si_idxs si ! s ! ii < length (kv_cells kv (si_strm si ! s))"
    using okp kv_wfD(4) [OF wf] kv_stream_get(4) [OF wf] by (simp_all add: target_ok_def)
  have cells: "kv_cells kv1 u = (if u = si_strm si ! s then (kv_cells kv u)[si_idxs si ! s ! ii :=
      token_cell (kv_hp kv) ub (token_at sz p) (vacate ?x)] else kv_cells kv u)" for u
    using t(1) by (simp add: kv1 kv_cells_put_cell)
  have len: "kv_length kv1 = kv_length kv"
    by (simp add: kv_length_frame [OF wf1] kv_length_frame [OF wf] cells)
  have same: "cell_at kv1 tj = cell_at kv tj" if "tj \<noteq> target si p" for tj
    using that by (cases tj) (auto simp: cell_at_def cells target_def p)
  have "target_ok kv1 si ub sz q" if q: "q \<in> set ps" for q
  proof -
    obtain s' jj where qq: "q = (s', jj)" by (cases q)
    have okq: "target_ok kv si ub sz (s', jj)" using ok q qq by simp
    have "target si q \<noteq> target si p" using dist q by (metis distinct.simps(2) image_eqI list.simps(9) set_map)
    from same [OF this] show ?thesis using okq
      by (simp add: target_ok_def qq kv_frameD [OF fr] len token_ok_def cell_at_def target_def)
  qed
  moreover have "kc_has_shift (kv_v_cells kv1 ! u) = kc_has_shift (kv_v_cells kv ! u)" for u
    using t(1) by (simp add: kv1 put_cell_shift)
  moreover have "cell_at kv1 (target si p) = token_cell (kv_hp kv) ub (token_at sz p) (vacate ?x)"
    using t(2) by (simp add: cell_at_def target_def p cells)
  ultimately show ?thesis
    using one step wf1 fr len same by (intro exI [of _ kv1]) (simp add: p cells, simp add: kv1)
qed

text \<open>The positions of sequence \<open>s\<close> that the ubatch overwrites.\<close>

definition freed_pos :: "llama_kv_cache \<Rightarrow> (nat \<times> nat) list \<Rightarrow> nat \<Rightarrow> llama_pos set" where
  "freed_pos kv ts s = a_pos ` {x \<in> cell_at kv ` set ts. a_pos x \<noteq> -1 \<and> the_elem (a_seq x) = s}"

lemma freed_pos_Nil [simp]: "freed_pos kv [] s = {}"
  by (simp add: freed_pos_def)

lemma freed_pos_Cons:
  "freed_pos kv (q # ts) s = (if a_pos (cell_at kv q) \<noteq> -1 \<and> the_elem (a_seq (cell_at kv q)) = s
     then insert (a_pos (cell_at kv q)) (freed_pos kv ts s) else freed_pos kv ts s)"
  by (auto simp: freed_pos_def)

lemma finite_freed_pos [simp]: "finite (freed_pos kv ts s)"
  by (induction ts) (auto simp: freed_pos_Cons)

lemma Max_insert_max: "finite F \<Longrightarrow> Max (insert (max a b) F) = Max (insert a (insert b F))"
  by (cases "F = {}") (simp_all add: max.assoc)

text \<open>The whole loop.\<close>

lemma place_loop:
  assumes "kv_wf kv" "distinct (map (target si) ps)" "\<forall>p \<in> set ps. target_ok kv si ub sz p"
  shows "\<exists>kv' rm'. for_opt (\<lambda>(s, ii). place_token (kv_hp kv) si ub sz s ii) ps (kv_v_cells kv, rm) = Some (kv_v_cells kv', rm')
    \<and> kv_wf kv' \<and> kv_frame kv kv' \<and> kv_length kv' = kv_length kv \<and> kv_v_heads kv' = kv_v_heads kv
    \<and> (\<forall>t. length (kv_cells kv' t) = length (kv_cells kv t)
          \<and> kc_has_shift (kv_v_cells kv' ! t) = kc_has_shift (kv_v_cells kv ! t))
    \<and> (\<forall>p \<in> set ps. cell_at kv' (target si p) = token_cell (kv_hp kv) ub (token_at sz p) (vacate (cell_at kv (target si p))))
    \<and> (\<forall>tj. tj \<notin> target si ` set ps \<longrightarrow> cell_at kv' tj = cell_at kv tj)
    \<and> (\<forall>s. rm' s = Max (insert (rm s) (freed_pos kv (map (target si) ps) s)))"
  using assms
proof (induction ps arbitrary: kv rm)
  case Nil
  show ?case by (intro exI [of _ kv] exI [of _ rm]) (simp add: Nil)
next
  case (Cons p ps)
  let ?rm1 = "note_rm (cell_at kv (target si p)) rm"
  obtain kv1 where step: "(case p of (s, ii) \<Rightarrow> place_token (kv_hp kv) si ub sz s ii (kv_v_cells kv, rm)) = Some (kv_v_cells kv1, ?rm1)"
    and wf1: "kv_wf kv1" and fr: "kv_frame kv kv1" and len1: "kv_length kv1 = kv_length kv" and heads1: "kv_v_heads kv1 = kv_v_heads kv"
    and cells1: "\<forall>t. length (kv_cells kv1 t) = length (kv_cells kv t)
          \<and> kc_has_shift (kv_v_cells kv1 ! t) = kc_has_shift (kv_v_cells kv ! t)"
    and ok1: "\<forall>q \<in> set ps. target_ok kv1 si ub sz q"
    and new1: "cell_at kv1 (target si p) = token_cell (kv_hp kv) ub (token_at sz p) (vacate (cell_at kv (target si p)))"
    and same1: "\<forall>tj. tj \<noteq> target si p \<longrightarrow> cell_at kv1 tj = cell_at kv tj"
    using place_step [OF Cons.prems, of rm] by blast
  have dist: "distinct (map (target si) ps)" and notin: "target si p \<notin> target si ` set ps"
    using Cons.prems(2) by simp_all
  obtain kv' rm' where run: "for_opt (\<lambda>(s, ii). place_token (kv_hp kv1) si ub sz s ii) ps (kv_v_cells kv1, ?rm1) = Some (kv_v_cells kv', rm')"
    and wf': "kv_wf kv'" and fr': "kv_frame kv1 kv'" and len': "kv_length kv' = kv_length kv1" and heads': "kv_v_heads kv' = kv_v_heads kv1"
    and cells': "\<forall>t. length (kv_cells kv' t) = length (kv_cells kv1 t)
          \<and> kc_has_shift (kv_v_cells kv' ! t) = kc_has_shift (kv_v_cells kv1 ! t)"
    and new': "\<forall>q \<in> set ps. cell_at kv' (target si q) = token_cell (kv_hp kv1) ub (token_at sz q) (vacate (cell_at kv1 (target si q)))"
    and same': "\<forall>tj. tj \<notin> target si ` set ps \<longrightarrow> cell_at kv' tj = cell_at kv1 tj"
    and rm': "\<forall>s. rm' s = Max (insert (?rm1 s) (freed_pos kv1 (map (target si) ps) s))"
    using Cons.IH [OF wf1 dist ok1, of ?rm1] by blast
  have at: "cell_at kv1 (target si q) = cell_at kv (target si q)" if "q \<in> set ps" for q
    using same1 notin that by (metis imageI)
  have freed: "freed_pos kv1 (map (target si) ps) s = freed_pos kv (map (target si) ps) s" for s
  proof -
    have "cell_at kv1 ` set (map (target si) ps) = cell_at kv ` set (map (target si) ps)"
      using at by (force simp: image_image)
    then show ?thesis by (simp add: freed_pos_def)
  qed
  have rmc: "\<forall>s. rm' s = Max (insert (rm s) (freed_pos kv (map (target si) (p # ps)) s))"
    unfolding rm' [rule_format] freed
    by (simp add: note_rm_def freed_pos_Cons Max_insert_max del: Max_insert)
  have runc: "for_opt (\<lambda>(s, ii). place_token (kv_hp kv) si ub sz s ii) (p # ps) (kv_v_cells kv, rm) = Some (kv_v_cells kv', rm')"
    using step run kv_frameD(4) [OF fr] by (cases p) simp
  have newc: "\<forall>q \<in> set (p # ps). cell_at kv' (target si q) = token_cell (kv_hp kv) ub (token_at sz q) (vacate (cell_at kv (target si q)))"
    using new1 new' same' [rule_format, OF notin] at kv_frameD(4) [OF fr] by simp
  have samec: "\<forall>tj. tj \<notin> target si ` set (p # ps) \<longrightarrow> cell_at kv' tj = cell_at kv tj"
    using same1 same' by simp
  have cellsc: "\<forall>t. length (kv_cells kv' t) = length (kv_cells kv t)
          \<and> kc_has_shift (kv_v_cells kv' ! t) = kc_has_shift (kv_v_cells kv ! t)"
    using cells1 cells' by simp
  have "kv_length kv' = kv_length kv" "kv_v_heads kv' = kv_v_heads kv" "kv_frame kv kv'"
    using len1 len' heads1 heads' kv_frame_trans [OF fr fr'] by simp_all
  then show ?case using rmc runc newc samec cellsc wf' by blast
qed

subsection \<open>Purging and moving the heads\<close>

lemma kv_frame_set_stream [simp]: "kv_frame kv (set_stream t c h kv)"
  by (simp add: kv_frame_def set_stream_def)

lemma kv_seq_rm_frame:
  assumes wf: "kv_wf kv" and own: "kv_other kv = None" and s: "kv_has_seq kv s"
  shows "\<exists>kv'. kv_seq_rm (int s) p0 p1 kv = Some (True, kv') \<and> kv_wf kv' \<and> kv_frame kv kv'
    \<and> kv_length kv' = kv_length kv
    \<and> (\<forall>t. kv_positions kv' t =
          (if t = s then {p \<in> kv_positions kv s. \<not> pos_between p0 p1 p} else kv_positions kv t))"
proof -
  obtain kv' where kv': "kv_seq_rm (int s) p0 p1 kv = Some (True, kv')" "kv_wf kv'"
    "\<forall>t. kv_positions kv' t =
          (if t = s then {p \<in> kv_positions kv s. \<not> pos_between p0 p1 p} else kv_positions kv t)"
    using kv_seq_rm_positions [OF assms] by blast
  obtain hs h where "kv_seq_rm (int s) p0 p1 kv = Some (True, set_stream (kv_stream kv s)
      (cells_repr hs (map (rm_cell s p0 p1) (kv_cells kv (kv_stream kv s)))) h kv)"
    using kv_seq_rm_run [OF assms] by blast
  then have eq: "kv' = set_stream (kv_stream kv s)
      (cells_repr hs (map (rm_cell s p0 p1) (kv_cells kv (kv_stream kv s)))) h kv"
    using kv'(1) by simp
  have "kv_length kv' = kv_length kv"
    unfolding eq by (rule kv_length_set_stream [OF wf kv_lookup(2) [OF wf s]])
      (simp add: kv_stream_get(4) [OF wf kv_lookup(2) [OF wf s]])
  then show ?thesis using kv' eq by auto
qed

lemma set_pos_min_le: "finite P \<Longrightarrow> p \<in> P \<Longrightarrow> set_pos_min P \<le> p"
  by (auto simp: set_pos_min_def)

lemma purge_step_run:
  assumes wf: "kv_wf kv" and own: "kv_other kv = None" and s: "rm s \<noteq> -1 \<longrightarrow> kv_has_seq kv s"
    and rm: "-1 \<le> rm s" "rm s < INT32_MAX"
  shows "\<exists>kv'. purge_step rm s kv = Some kv' \<and> kv_wf kv' \<and> kv_frame kv kv' \<and> kv_length kv' = kv_length kv
    \<and> (\<forall>t. kv_has_seq kv t \<longrightarrow> kv_positions kv' t =
          (if t = s then {p \<in> kv_positions kv s. rm s < p} else kv_positions kv t))"
proof -
  have inv: "kv_inv kv" using wf own by (simp add: kv_inv_def)
  have nonneg: "0 \<le> p" if "kv_has_seq kv t" "p \<in> kv_positions kv t" for t p
    using kv_mem.positions_nonneg [OF inv that] .
  show ?thesis
  proof (cases "rm s = -1")
    case True
    have "{p \<in> kv_positions kv s. rm s < p} = kv_positions kv s" if "kv_has_seq kv s"
      using nonneg [OF that] True by force
    then show ?thesis using True wf by (intro exI [of _ kv]) (auto simp: purge_step_def)
  next
    case False
    then have has: "kv_has_seq kv s" using s by simp
    let ?t = "kv_stream kv s" and ?P = "kv_positions kv s"
    have t: "?t < kv_n_stream kv" by (rule kv_lookup(2) [OF wf has])
    have fin: "finite ?P" by (rule kv_mem.finite_positions [OF inv has])
    have look: "nth_opt (kv_seq_to_stream kv) s = Some ?t"
      using kv_lookup(1) [OF wf has] by (simp add: inth_opt_def)
    have m: "cells_seq_pos_min (int s) (kv_v_cells kv ! ?t) = Some (set_pos_min ?P)"
      using kv_seq_pos(1) [OF wf own has] kv_lookup(1) [OF wf has] kv_stream_get(1) [OF wf t] own
      by (simp add: kv_seq_pos_min_def owner_streams_def)
    show ?thesis
    proof (cases "set_pos_min ?P \<le> rm s")
      case True
      obtain kv' where kv': "kv_seq_rm (int s) (set_pos_min ?P) (rm s + 1) kv = Some (True, kv')" "kv_wf kv'" "kv_frame kv kv'"
        "kv_length kv' = kv_length kv" "\<forall>t. kv_positions kv' t =
          (if t = s then {p \<in> ?P. \<not> pos_between (set_pos_min ?P) (rm s + 1) p} else kv_positions kv t)"
        using kv_seq_rm_frame [OF wf own has] by blast
      have "{p \<in> ?P. \<not> pos_between (set_pos_min ?P) (rm s + 1) p} = {p \<in> ?P. rm s < p}"
        using False rm(1) set_pos_min_le [OF fin] by (auto simp: pos_between_def)
      then show ?thesis using kv' False True rm
        by (intro exI [of _ kv']) (simp add: purge_step_def look kv_stream_get(1) [OF wf t] m INT32_MIN_def)
    next
      case le: False
      then have "?P \<noteq> {}" using False rm(1) by (auto simp: set_pos_min_def)
      then have "{p \<in> ?P. rm s < p} = ?P"
        using le set_pos_min_le [OF fin] by force
      then show ?thesis using False le wf
        by (intro exI [of _ kv]) (auto simp: purge_step_def look kv_stream_get(1) [OF wf t] m)
    qed
  qed
qed

lemma purge_loop:
  assumes wf: "kv_wf kv" and own: "kv_other kv = None"
    and rm: "\<forall>s < n. (rm s \<noteq> -1 \<longrightarrow> kv_has_seq kv s) \<and> -1 \<le> rm s \<and> rm s < INT32_MAX"
  shows "\<exists>kv'. for_opt (purge_step rm) [0..<n] kv = Some kv' \<and> kv_wf kv' \<and> kv_frame kv kv' \<and> kv_length kv' = kv_length kv
    \<and> (\<forall>t. kv_has_seq kv t \<longrightarrow> kv_positions kv' t =
          (if t < n then {p \<in> kv_positions kv t. rm t < p} else kv_positions kv t))"
proof -
  let ?P = "\<lambda>k kv'. kv_wf kv' \<and> kv_frame kv kv' \<and> kv_length kv' = kv_length kv
    \<and> (\<forall>t. kv_has_seq kv t \<longrightarrow> kv_positions kv' t =
          (if t < k then {p \<in> kv_positions kv t. rm t < p} else kv_positions kv t))"
  have "\<exists>kv'. for_opt (purge_step rm) [0..<n] kv = Some kv' \<and> ?P n kv'"
  proof (rule for_opt_upt_total [where P = ?P])
    show "?P 0 kv" using wf by simp
  next
    fix k kv1
    assume k: "k < n" and P: "?P k kv1"
    then have wf1: "kv_wf kv1" and fr: "kv_frame kv kv1" by simp_all
    note same = kv_frameD [OF fr]
    obtain kv2 where kv2: "purge_step rm k kv1 = Some kv2" "kv_wf kv2" "kv_frame kv1 kv2" "kv_length kv2 = kv_length kv1"
      "\<forall>t. kv_has_seq kv t \<longrightarrow> kv_positions kv2 t =
          (if t = k then {p \<in> kv_positions kv1 k. rm k < p} else kv_positions kv1 t)"
      using purge_step_run [OF wf1, of rm k] own rm k same by auto
    have "?P (Suc k) kv2" using kv2 P kv_frame_trans [OF fr kv2(3)] by (auto simp: less_Suc_eq)
    then show "\<exists>kv2. purge_step rm k kv1 = Some kv2 \<and> ?P (Suc k) kv2" using kv2(1) by blast
  qed
  then show ?thesis by blast
qed

lemma purge_none: "for_opt (purge_step (\<lambda>_. -1)) is kv = Some kv"
  by (induction "is") (simp_all add: purge_step_def)

text \<open>The heads after a ubatch was placed.\<close>

definition heads_fold :: "slot_info \<Rightarrow> nat list \<Rightarrow> nat list \<Rightarrow> nat list" where
  "heads_fold si is hs = fold (\<lambda>s hs. hs[si_strm si ! s := Suc (List.last (si_idxs si ! s))]) is hs"

lemma heads_fold_simps [simp]:
  "heads_fold si [] hs = hs"
  "heads_fold si (s # is) hs = heads_fold si is (hs[si_strm si ! s := Suc (List.last (si_idxs si ! s))])"
  "heads_fold si (is @ [s]) hs = (heads_fold si is hs)[si_strm si ! s := Suc (List.last (si_idxs si ! s))]"
  by (simp_all add: heads_fold_def)

lemma length_heads_fold [simp]: "length (heads_fold si is hs) = length hs"
  by (induction "is" arbitrary: hs) simp_all

definition heads_after :: "slot_info \<Rightarrow> nat list \<Rightarrow> nat list" where
  "heads_after si hs = heads_fold si [0..<si_n_stream si] hs"

lemma move_heads:
  assumes "\<forall>s < n. s < length (si_strm si) \<and> s < length (si_idxs si) \<and> si_idxs si ! s \<noteq> [] \<and> si_strm si ! s < length (kv_v_heads kv)"
  shows "for_opt (move_head si) [0..<n] kv = Some (kv\<lparr>kv_v_heads := heads_fold si [0..<n] (kv_v_heads kv)\<rparr>)"
  using assms
proof (induction n)
  case 0
  then show ?case by simp
next
  case (Suc n)
  then show ?case by (simp add: for_opt_append move_head_def)
qed

lemma heads_fold_le:
  assumes "\<forall>h \<in> set hs. h \<le> L" "\<forall>s \<in> set is. List.last (si_idxs si ! s) < L"
  shows "\<forall>h \<in> set (heads_fold si is hs). h \<le> L"
  using assms
proof (induction "is" arbitrary: hs)
  case (Cons s "is")
  have "\<forall>h \<in> set (hs[si_strm si ! s := Suc (List.last (si_idxs si ! s))]). h \<le> L"
    using Cons.prems by (auto dest!: subsetD [OF set_update_subset_insert])
  then show ?case using Cons by simp
qed simp

lemma kv_wf_heads:
  assumes "kv_wf kv" "length hs = kv_n_stream kv" "\<forall>h \<in> set hs. h \<le> kv_length kv"
  shows "kv_wf (kv\<lparr>kv_v_heads := hs\<rparr>)"
proof -
  have "kv_length (kv\<lparr>kv_v_heads := hs\<rparr>) = kv_length kv" by (simp add: kv_length_def)
  then show ?thesis using assms by (simp add: kv_wf_def Let_def)
qed

subsection \<open>Placing a ubatch\<close>

definition slot_pairs :: "slot_info \<Rightarrow> nat \<Rightarrow> (nat \<times> nat) list" where
  "slot_pairs si sz = List.product [0..<si_n_stream si] [0..<sz]"

definition slot_size :: "slot_info \<Rightarrow> nat" where
  "slot_size si = length (si_idxs si ! 0)"

text \<open>
  A slot that fits a ubatch: distinct streams, for each of them distinct cells that are empty
  or belong to one sequence, and tokens that are well formed.
\<close>

definition slot_ok :: "llama_kv_cache \<Rightarrow> slot_info \<Rightarrow> llama_ubatch \<Rightarrow> bool" where
  "slot_ok kv si ub \<longleftrightarrow> si_strm si \<noteq> [] \<and> length (si_idxs si) = length (si_strm si) \<and> distinct (si_strm si)
     \<and> 0 < slot_size si \<and> (\<forall>is \<in> set (si_idxs si). length is = slot_size si \<and> distinct is)
     \<and> ub_n_tokens ub = si_n_stream si * slot_size si
     \<and> (\<forall>p \<in> set (slot_pairs si (slot_size si)). target_ok kv si ub (slot_size si) p)"

definition ub_positions :: "llama_ubatch \<Rightarrow> nat \<Rightarrow> llama_pos set" where
  "ub_positions ub s = {ub_pos ub ! i |i. i < ub_n_tokens ub \<and> s \<in> token_seqs ub i}"

text \<open>The greatest position of \<open>s\<close> that is overwritten, -1 if there is none.\<close>

definition cut_pos :: "llama_kv_cache \<Rightarrow> slot_info \<Rightarrow> nat \<Rightarrow> llama_pos" where
  "cut_pos kv si s = set_pos_max (freed_pos kv (map (target si) (slot_pairs si (slot_size si))) s)"

lemma set_slot_pairs: "(s, ii) \<in> set (slot_pairs si sz) \<longleftrightarrow> s < si_n_stream si \<and> ii < sz"
  by (auto simp: slot_pairs_def)

lemma card_1_the_elem: "card A = 1 \<Longrightarrow> A = {the_elem A}"
  by (metis card_1_singletonE the_elem_eq)

lemma target_okD:
  assumes "target_ok kv si ub sz p"
  shows "fst (target si p) < kv_n_stream kv" "snd (target si p) < kv_length kv"
    "a_pos (cell_at kv (target si p)) = -1 \<or> card (a_seq (cell_at kv (target si p))) = 1"
  using assms by (cases p; simp add: target_ok_def target_def cell_at_def Let_def)+

lemma distinct_slot_targets:
  assumes "slot_ok kv si ub"
  shows "distinct (map (target si) (slot_pairs si (slot_size si)))"
proof -
  let ?sz = "slot_size si"
  have dp: "distinct (slot_pairs si ?sz)"
    unfolding slot_pairs_def by (simp add: distinct_product)
  have "inj_on (target si) (set (slot_pairs si ?sz))"
  proof (rule inj_onI)
    fix p q
    assume pq: "p \<in> set (slot_pairs si ?sz)" "q \<in> set (slot_pairs si ?sz)" "target si p = target si q"
    obtain s ii t jj where e: "p = (s, ii)" "q = (t, jj)" by (cases p; cases q)
    have b: "s < length (si_strm si)" "t < length (si_strm si)" "ii < ?sz" "jj < ?sz"
      using pq(1,2) e by (simp_all add: set_slot_pairs si_n_stream_def)
    have "s = t" using pq(3) b(1,2) assms e by (simp add: target_def slot_ok_def nth_eq_iff_index_eq)
    moreover have "length (si_idxs si ! s) = ?sz" "distinct (si_idxs si ! s)"
      using assms b(1) by (simp_all add: slot_ok_def)
    ultimately show "p = q" using pq(3) b(3,4) e by (simp add: target_def nth_eq_iff_index_eq)
  qed
  then show ?thesis using dp by (simp add: distinct_map)
qed

lemma bij_token_at:
  assumes "0 < sz" "i < n * sz"
  shows "i div sz < n" "i mod sz < sz" "token_at sz (i div sz, i mod sz) = i"
  using assms by (simp_all add: token_at_def less_mult_imp_div_less)

lemma token_at_less: "s < n \<Longrightarrow> ii < sz \<Longrightarrow> token_at sz (s, ii) < n * sz"
proof -
  assume "s < n" "ii < sz"
  then have "s * sz + ii < s * sz + sz" "Suc s * sz \<le> n * sz" by (simp, intro mult_le_mono1, simp)
  then show ?thesis by (simp add: token_at_def)
qed

text \<open>The positions after the loop, by sequence.\<close>

lemma kv_positions_cell_at:
  "kv_positions kv s = {a_pos (cell_at kv (kv_stream kv s, j)) |j. j < length (kv_cells kv (kv_stream kv s))
     \<and> s \<in> a_seq (cell_at kv (kv_stream kv s, j))}"
  by (auto simp: kv_positions_def seq_positions_def cell_at_def in_set_conv_nth)

lemma placed_positions:
  assumes wf: "kv_wf kv" and ok: "slot_ok kv si ub" and s: "kv_has_seq kv s"
    and fr: "kv_frame kv kv'" and len: "\<forall>t. length (kv_cells kv' t) = length (kv_cells kv t)"
    and new: "\<forall>p \<in> set (slot_pairs si (slot_size si)). cell_at kv' (target si p)
        = token_cell (kv_hp kv) ub (token_at (slot_size si) p) (vacate (cell_at kv (target si p)))"
    and same: "\<forall>tj. tj \<notin> target si ` set (slot_pairs si (slot_size si)) \<longrightarrow> cell_at kv' tj = cell_at kv tj"
  shows "kv_positions kv' s \<subseteq> kv_positions kv s \<union> ub_positions ub s"
    "ub_positions ub s \<subseteq> kv_positions kv' s"
    "kv_positions kv s \<subseteq> kv_positions kv' s \<union> freed_pos kv (map (target si) (slot_pairs si (slot_size si))) s"
    "freed_pos kv (map (target si) (slot_pairs si (slot_size si))) s \<subseteq> kv_positions kv s"
proof -
  let ?sz = "slot_size si" and ?ps = "slot_pairs si (slot_size si)" and ?t = "kv_stream kv s"
  have t: "?t < kv_n_stream kv" by (rule kv_lookup(2) [OF wf s])
  have st: "kv_stream kv' s = ?t" by (simp add: kv_frameD [OF fr])
  have sz: "0 < ?sz" and ntok: "ub_n_tokens ub = si_n_stream si * ?sz" using ok by (simp_all add: slot_ok_def)
  have tok: "target_ok kv si ub ?sz p" if "p \<in> set ?ps" for p using ok that by (simp add: slot_ok_def)
  have bound: "fst (target si p) < kv_n_stream kv" "snd (target si p) < length (kv_cells kv (fst (target si p)))"
    if "p \<in> set ?ps" for p
    using target_okD(1,2) [OF tok [OF that]] kv_stream_get(4) [OF wf] by simp_all
  show "kv_positions kv' s \<subseteq> kv_positions kv s \<union> ub_positions ub s"
  proof
    fix q assume "q \<in> kv_positions kv' s"
    then obtain j where j: "q = a_pos (cell_at kv' (?t, j))" "j < length (kv_cells kv ?t)" "s \<in> a_seq (cell_at kv' (?t, j))"
      unfolding kv_positions_cell_at st using len by auto
    show "q \<in> kv_positions kv s \<union> ub_positions ub s"
    proof (cases "(?t, j) \<in> target si ` set ?ps")
      case True
      then obtain p where p: "p \<in> set ?ps" "(?t, j) = target si p" by blast
      have "token_at ?sz p < ub_n_tokens ub"
        using p(1) token_at_less [of "fst p" "si_n_stream si" "snd p" ?sz] set_slot_pairs [of "fst p" "snd p" si ?sz] ntok
        by simp
      then show ?thesis using j new p by (auto simp: ub_positions_def)
    next
      case False
      then have "cell_at kv' (?t, j) = cell_at kv (?t, j)" using same by blast
      then show ?thesis using j unfolding kv_positions_cell_at by auto
    qed
  qed
  show "ub_positions ub s \<subseteq> kv_positions kv' s"
  proof
    fix q assume "q \<in> ub_positions ub s"
    then obtain i where i: "q = ub_pos ub ! i" "i < si_n_stream si * ?sz" "s \<in> token_seqs ub i"
      by (auto simp: ub_positions_def ntok)
    let ?p = "(i div ?sz, i mod ?sz)"
    have p: "?p \<in> set ?ps" using bij_token_at [OF sz i(2)] by (simp add: set_slot_pairs)
    have at: "token_at ?sz ?p = i" by (rule bij_token_at(3) [OF sz i(2)])
    obtain u j where tg: "target si ?p = (u, j)" by (cases "target si ?p")
    have "u = ?t"
    proof (cases "1 < kv_n_stream kv")
      case True
      then have "token_seqs ub i \<subseteq> {u}" using tok [OF p] tg at by (simp add: target_ok_def target_def token_at_def)
      then show ?thesis using i(3) True by (auto simp: kv_stream_def)
    next
      case False
      then show ?thesis using bound(1) [OF p] tg by (simp add: kv_stream_def)
    qed
    then have "cell_at kv' (?t, j) = token_cell (kv_hp kv) ub i (vacate (cell_at kv (?t, j)))"
      "j < length (kv_cells kv' ?t)"
      using new [rule_format, OF p] bound(2) [OF p] tg at len by simp_all
    then show "q \<in> kv_positions kv' s"
      using i(1,3) unfolding kv_positions_cell_at st by (intro CollectI exI [of _ j]) simp
  qed
  show "kv_positions kv s \<subseteq> kv_positions kv' s \<union> freed_pos kv (map (target si) ?ps) s"
  proof
    fix q assume "q \<in> kv_positions kv s"
    then obtain j where j: "q = a_pos (cell_at kv (?t, j))" "j < length (kv_cells kv ?t)" "s \<in> a_seq (cell_at kv (?t, j))"
      unfolding kv_positions_cell_at by auto
    show "q \<in> kv_positions kv' s \<union> freed_pos kv (map (target si) ?ps) s"
    proof (cases "(?t, j) \<in> target si ` set ?ps")
      case True
      then obtain p where p: "p \<in> set ?ps" "(?t, j) = target si p" by blast
      have "a_pos (cell_at kv (?t, j)) = -1 \<or> card (a_seq (cell_at kv (?t, j))) = 1"
        using target_okD(3) [OF tok [OF p(1)]] p(2) by simp
      moreover have "cell_ok (kv_n_stream kv) ?t (cell_at kv (?t, j))"
        using kv_cells_repr(2) [OF wf t] j(2) by (simp add: cell_at_def)
      then have "a_pos (cell_at kv (?t, j)) \<noteq> -1" using j(3) by (auto simp: cell_ok_def acell_ok_def)
      ultimately have "a_pos (cell_at kv (?t, j)) \<noteq> -1 \<and> the_elem (a_seq (cell_at kv (?t, j))) = s"
        using j(3) by (auto simp: card_1_singleton_iff)
      then show ?thesis using j(1) p by (auto simp: freed_pos_def intro!: image_eqI [of _ _ "cell_at kv (?t, j)"])
    next
      case False
      then have "cell_at kv' (?t, j) = cell_at kv (?t, j)" using same by blast
      then have "q \<in> kv_positions kv' s"
        using j len unfolding kv_positions_cell_at st by (intro CollectI exI [of _ j]) simp
      then show ?thesis by simp
    qed
  qed
  show "freed_pos kv (map (target si) ?ps) s \<subseteq> kv_positions kv s"
  proof
    fix q assume "q \<in> freed_pos kv (map (target si) ?ps) s"
    then obtain p where p: "p \<in> set ?ps" "q = a_pos (cell_at kv (target si p))" "q \<noteq> -1"
        "the_elem (a_seq (cell_at kv (target si p))) = s"
      by (auto simp: freed_pos_def)
    obtain u j where tg: "target si p = (u, j)" by (cases "target si p")
    have u: "u < kv_n_stream kv" "j < length (kv_cells kv u)" using bound [OF p(1)] tg by simp_all
    have "card (a_seq (cell_at kv (u, j))) = 1"
      using target_okD(3) [OF tok [OF p(1)]] tg p(2,3) by simp
    from card_1_the_elem [OF this] have seq: "a_seq (cell_at kv (u, j)) = {s}" using p(4) tg by simp
    have "cell_ok (kv_n_stream kv) u (cell_at kv (u, j))"
      using kv_cells_repr(2) [OF wf u(1)] u(2) by (simp add: cell_at_def)
    then have "u = ?t" using seq u(1) by (auto simp: cell_ok_def kv_stream_def)
    then show "q \<in> kv_positions kv s"
      using p(2) tg u(2) seq unfolding kv_positions_cell_at by (intro CollectI exI [of _ j]) simp
  qed
qed

lemma apply_ubatch_run:
  assumes wf: "kv_wf kv" and own: "kv_other kv = None" and ok: "slot_ok kv si ub"
  shows "\<exists>kv1 rm1 kv2. kv_apply_ubatch si ub kv = Some (kv2\<lparr>kv_v_heads := heads_after si (kv_v_heads kv2)\<rparr>)
    \<and> for_opt (purge_step rm1) [0..<LLAMA_MAX_SEQ] kv1 = Some kv2 \<and> kv_wf kv1 \<and> kv_frame kv kv1
    \<and> kv_length kv1 = kv_length kv \<and> kv_v_heads kv1 = kv_v_heads kv \<and> kv_wf kv2 \<and> kv_frame kv1 kv2 \<and> kv_length kv2 = kv_length kv
    \<and> kv_wf (kv2\<lparr>kv_v_heads := heads_after si (kv_v_heads kv2)\<rparr>)
    \<and> (\<forall>t. length (kv_cells kv1 t) = length (kv_cells kv t)
          \<and> kc_has_shift (kv_v_cells kv1 ! t) = kc_has_shift (kv_v_cells kv ! t))
    \<and> (\<forall>p \<in> set (slot_pairs si (slot_size si)). cell_at kv1 (target si p)
          = token_cell (kv_hp kv) ub (token_at (slot_size si) p) (vacate (cell_at kv (target si p))))
    \<and> (\<forall>tj. tj \<notin> target si ` set (slot_pairs si (slot_size si)) \<longrightarrow> cell_at kv1 tj = cell_at kv tj)
    \<and> (\<forall>s. rm1 s = Max (insert (-1) (freed_pos kv (map (target si) (slot_pairs si (slot_size si))) s)))
    \<and> (\<forall>s. kv_has_seq kv s \<longrightarrow> kv_positions kv2 s = {p \<in> kv_positions kv1 s. rm1 s < p})"
proof -
  let ?sz = "slot_size si" and ?ps = "slot_pairs si (slot_size si)" and ?n = "si_n_stream si"
  have sh: "si_strm si \<noteq> []" "length (si_idxs si) = length (si_strm si)" "0 < ?sz" "ub_n_tokens ub = ?n * ?sz"
    "\<forall>is \<in> set (si_idxs si). length is = ?sz"
    using ok by (simp_all add: slot_ok_def)
  have size: "si_size si = Some ?sz" using sh(1,2) by (cases "si_idxs si") (auto simp: si_size_def slot_size_def)
  have tok: "\<forall>p \<in> set ?ps. target_ok kv si ub ?sz p" using ok by (simp add: slot_ok_def)
  have tgt: "fst (target si p) < kv_n_stream kv" "snd (target si p) < kv_length kv" if "p \<in> set ?ps" for p
    using target_okD(1,2) tok that by blast+
  obtain kv1 rm1 where loop: "for_opt (\<lambda>(s, ii). place_token (kv_hp kv) si ub ?sz s ii) ?ps (kv_v_cells kv, \<lambda>_. -1) = Some (kv_v_cells kv1, rm1)"
    and wf1: "kv_wf kv1" and fr1: "kv_frame kv kv1" and len1: "kv_length kv1 = kv_length kv" and heads1: "kv_v_heads kv1 = kv_v_heads kv"
    and cells1: "\<forall>t. length (kv_cells kv1 t) = length (kv_cells kv t)
          \<and> kc_has_shift (kv_v_cells kv1 ! t) = kc_has_shift (kv_v_cells kv ! t)"
    and new1: "\<forall>p \<in> set ?ps. cell_at kv1 (target si p) = token_cell (kv_hp kv) ub (token_at ?sz p) (vacate (cell_at kv (target si p)))"
    and same1: "\<forall>tj. tj \<notin> target si ` set ?ps \<longrightarrow> cell_at kv1 tj = cell_at kv tj"
    and rm1: "\<forall>s. rm1 s = Max (insert (-1) (freed_pos kv (map (target si) ?ps) s))"
    using place_loop [OF wf distinct_slot_targets [OF ok] tok, of "\<lambda>_. -1"] by blast
  have nest: "for_opt (\<lambda>s. for_opt (place_token (kv_hp kv) si ub ?sz s) [0..<?sz]) [0..<?n] (kv_v_cells kv, \<lambda>_. -1) = Some (kv_v_cells kv1, rm1)"
    using loop unfolding for_opt_nested slot_pairs_def product_concat_map .
  have kv1: "kv\<lparr>kv_v_cells := kv_v_cells kv1\<rparr> = kv1"
    using fr1 heads1 unfolding kv_frame_def by (metis llama_kv_cache.surjective llama_kv_cache.update_convs(7,9))
  have rmb: "(rm1 s \<noteq> -1 \<longrightarrow> kv_has_seq kv s) \<and> -1 \<le> rm1 s \<and> rm1 s < INT32_MAX" if "s < LLAMA_MAX_SEQ" for s
  proof -
    have fin: "finite (insert (-1) (freed_pos kv (map (target si) ?ps) s))" by simp
    have ge: "-1 \<le> rm1 s" unfolding rm1 [rule_format] by (rule Max_ge [OF fin]) simp
    have "rm1 s \<in> insert (-1) (freed_pos kv (map (target si) ?ps) s)" unfolding rm1 [rule_format] by (rule Max_in) simp_all
    then consider "rm1 s = -1" | p where "p \<in> set ?ps" "rm1 s = a_pos (cell_at kv (target si p))" "rm1 s \<noteq> -1"
        "the_elem (a_seq (cell_at kv (target si p))) = s"
      by (auto simp: freed_pos_def)
    then show ?thesis
    proof cases
      case 1
      then show ?thesis by (simp add: INT32_MAX_def)
    next
      case 2
      obtain u j where tg: "target si p = (u, j)" by (cases "target si p")
      have u: "u < kv_n_stream kv" "j < length (kv_cells kv u)"
        using tgt [OF 2(1)] tg kv_stream_get(4) [OF wf] by simp_all
      have "card (a_seq (cell_at kv (u, j))) = 1"
        using target_okD(3) [OF tok [rule_format, OF 2(1)]] tg 2(2,3) by simp
      from card_1_the_elem [OF this] have seq: "a_seq (cell_at kv (u, j)) = {s}" using 2(4) tg by simp
      have "cell_ok (kv_n_stream kv) u (cell_at kv (u, j))"
        using kv_cells_repr(2) [OF wf u(1)] u(2) by (simp add: cell_at_def)
      then have "a_pos (cell_at kv (u, j)) < INT32_MAX" "kv_has_seq kv s"
        using seq u(1) by (auto simp: cell_ok_def kv_has_seq_def acell_ok_def)
      then show ?thesis using 2(2) tg ge by simp
    qed
  qed
  obtain kv2 where purge: "for_opt (purge_step rm1) [0..<LLAMA_MAX_SEQ] kv1 = Some kv2" "kv_wf kv2" "kv_frame kv1 kv2" "kv_length kv2 = kv_length kv1"
    and pos2: "\<forall>t. kv_has_seq kv1 t \<longrightarrow> kv_positions kv2 t =
          (if t < LLAMA_MAX_SEQ then {p \<in> kv_positions kv1 t. rm1 t < p} else kv_positions kv1 t)"
    using purge_loop [OF wf1, of LLAMA_MAX_SEQ rm1] own kv_frameD [OF fr1] rmb by auto
  have n2: "kv_n_stream kv2 = kv_n_stream kv" using kv_frameD(1) [OF fr1] kv_frameD(1) [OF purge(3)] by simp
  have strm: "si_strm si ! s < kv_n_stream kv \<and> List.last (si_idxs si ! s) < kv_length kv \<and> si_idxs si ! s \<noteq> []" if s: "s < ?n" for s
  proof -
    have l: "length (si_idxs si ! s) = ?sz" using sh(2,5) s by (simp add: si_n_stream_def)
    then have ne: "si_idxs si ! s \<noteq> []" using sh(3) by auto
    have "(s, ?sz - 1) \<in> set ?ps" using s sh(3) by (simp add: set_slot_pairs)
    from tgt [OF this] show ?thesis using ne l by (simp add: target_def last_conv_nth)
  qed
  have heads2: "length (kv_v_heads kv2) = kv_n_stream kv" using kv_wfD(3) [OF purge(2)] n2 by simp
  have move: "for_opt (move_head si) [0..<?n] kv2 = Some (kv2\<lparr>kv_v_heads := heads_after si (kv_v_heads kv2)\<rparr>)"
    unfolding heads_after_def by (rule move_heads) (use strm sh(2) heads2 in \<open>simp add: si_n_stream_def\<close>)
  have "\<forall>h \<in> set (kv_v_heads kv2). h \<le> kv_length kv2"
    using kv_wfD(3,6) [OF purge(2)] by (metis in_set_conv_nth)
  then have wfh: "kv_wf (kv2\<lparr>kv_v_heads := heads_after si (kv_v_heads kv2)\<rparr>)"
    unfolding heads_after_def
    by (intro kv_wf_heads purge(2) heads_fold_le) (use strm len1 purge(4) heads2 n2 in simp_all)
  have "kv_apply_ubatch si ub kv = Some (kv2\<lparr>kv_v_heads := heads_after si (kv_v_heads kv2)\<rparr>)"
    using own sh(4) by (simp add: kv_apply_ubatch_def size nest kv1 purge(1) move)
  moreover have "kv_positions kv2 s = {p \<in> kv_positions kv1 s. rm1 s < p}" if "kv_has_seq kv s" for s
    using pos2 that kv_frameD(9) [OF fr1] kv_lookup(3) [OF wf that] by simp
  ultimately show ?thesis
    using purge wf1 fr1 len1 heads1 wfh cells1 new1 same1 rm1 by (intro exI [of _ kv1] exI [of _ rm1] exI [of _ kv2]) simp
qed

text \<open>A slot of \<open>find_slot\<close> fits the ubatch it was found for, when its tokens are well formed.\<close>

lemma find_slot_ok:
  assumes wf: "kv_wf kv" and swa: "swa_ok (kv_n_swa kv) (kv_swa_type kv)" and ub: "ub_shape kv ub"
    and tok: "\<forall>i < ub_n_tokens ub. token_ok kv ub i"
    and find: "kv_find_slot ub False kv = Some si" and ne: "si \<noteq> slot_nil"
  shows "slot_ok kv si ub"
proof -
  let ?n = "slot_len kv ub" and ?seqs = "slot_seqs kv ub"
  have fits: "\<forall>s \<in> set ?seqs. stream_slot kv ?n (kv_stream kv s) \<noteq> None"
    and strm: "si_strm si = map (kv_stream kv) ?seqs"
    and idxs: "si_idxs si = map (\<lambda>s. the (stream_slot kv ?n (kv_stream kv s))) ?seqs"
    using find_slot_eq [OF wf swa ub] find ne by (auto split: if_splits)
  have has: "\<forall>s \<in> set ?seqs. kv_has_seq kv s" by (rule ub_shape_len(5) [OF ub])
  have slot: "length is = ?n" "distinct is" "\<forall>i \<in> set is. i < kv_length kv \<and> usable kv (kv_stream kv s) i"
    if "s \<in> set ?seqs" "is = the (stream_slot kv ?n (kv_stream kv s))" for s "is"
  proof -
    have "first_usable (usable kv (kv_stream kv s)) (kv_length kv) ?n (search_head kv ?n (kv_stream kv s)) = Some is"
      using fits that by (simp add: stream_slot_def [symmetric])
    from first_usable_Some [OF this] show "length is = ?n" "distinct is"
      "\<forall>i \<in> set is. i < kv_length kv \<and> usable kv (kv_stream kv s) i" by simp_all
  qed
  have size: "slot_size si = ?n"
    using slot(1) ub_shape_len(3) [OF ub] by (cases ?seqs) (simp_all add: slot_size_def idxs)
  have dist: "distinct (si_strm si)"
  proof (cases "1 < kv_n_stream kv")
    case True
    then have "map (kv_stream kv) ?seqs = ?seqs" by (intro map_idI) (simp add: kv_stream_def)
    then show ?thesis using ub_shape_len(4) [OF ub] strm by simp
  next
    case False
    then have "length ?seqs \<le> 1" by (simp add: slot_seqs_def)
    then show ?thesis unfolding strm by (cases ?seqs) auto
  qed
  have n: "si_n_stream si = length ?seqs" by (simp add: si_n_stream_def strm)
  have ntok: "ub_n_tokens ub = si_n_stream si * slot_size si"
    using ub_shape_len(2) [OF ub] by (simp add: n size)
  have "target_ok kv si ub (slot_size si) (s, ii)" if p: "(s, ii) \<in> set (slot_pairs si (slot_size si))" for s ii
  proof -
    have b: "s < length ?seqs" "ii < ?n" using p by (simp_all add: set_slot_pairs n size)
    let ?s = "?seqs ! s" and ?is = "si_idxs si ! s"
    have mem: "?s \<in> set ?seqs" and "is": "?is = the (stream_slot kv ?n (kv_stream kv ?s))" and st: "si_strm si ! s = kv_stream kv ?s"
      using b(1) by (simp_all add: idxs strm)
    have ii: "ii < length ?is" using slot(1) [OF mem "is"] b(2) by simp
    then have cell: "?is ! ii < kv_length kv" "usable kv (kv_stream kv ?s) (?is ! ii)"
      using slot(3) [OF mem "is"] by simp_all
    have t: "kv_stream kv ?s < kv_n_stream kv" using kv_lookup(2) [OF wf] has mem by blast
    have "token_at ?n (s, ii) < ub_n_tokens ub"
      using token_at_less [OF b] ub_shape_len(2) [OF ub] by simp
    then have tk: "token_ok kv ub (s * ?n + ii)" using tok by (simp add: token_at_def)
    have one: "token_seqs ub (s * ?n + ii) \<subseteq> {kv_stream kv ?s}" if m: "1 < kv_n_stream kv"
    proof -
      have "ub_seq_id ub ! (s * ?n + ii) = [int (ub_seq_id_unq ub ! s)]"
        using ub m b by (simp add: ub_shape_def slot_seqs_def)
      moreover have "ub_seq_id_unq ub ! s = ?s" using m by (simp add: slot_seqs_def)
      ultimately show ?thesis using m by (simp add: token_seqs_def kv_stream_def)
    qed
    have "a_pos (kv_cells kv (kv_stream kv ?s) ! (?is ! ii)) = -1 \<or> card (a_seq (kv_cells kv (kv_stream kv ?s) ! (?is ! ii))) = 1"
      using cell(2) by (auto simp: usable_def Let_def)
    then show ?thesis
      using b ii cell(1) t tk one by (simp add: target_ok_def size st Let_def idxs strm)
  qed
  moreover have "\<forall>is \<in> set (si_idxs si). length is = slot_size si \<and> distinct is"
    unfolding size idxs using slot(1,2) by auto
  ultimately show ?thesis
    using ub_shape_len(1,3) [OF ub] dist ntok size strm idxs
    unfolding slot_ok_def by (auto simp del: split_paired_All)
qed

lemma apply_ubatch_positions:
  assumes "kv_inv kv" "slot_ok kv si ub"
  shows "\<exists>kv'. kv_apply_ubatch si ub kv = Some kv' \<and> kv_inv kv' \<and> kv_frame kv kv'
    \<and> (\<forall>s. kv_has_seq kv s \<longrightarrow>
          kv_positions kv' s = {p \<in> kv_positions kv s \<union> ub_positions ub s. cut_pos kv si s < p})"
proof -
  have wf: "kv_wf kv" and own: "kv_other kv = None" using assms(1) by (simp_all add: kv_inv_def)
  let ?ps = "slot_pairs si (slot_size si)"
  obtain kv1 rm1 kv2 where run: "kv_apply_ubatch si ub kv = Some (kv2\<lparr>kv_v_heads := heads_after si (kv_v_heads kv2)\<rparr>)"
    and fr1: "kv_frame kv kv1" and fr2: "kv_frame kv1 kv2"
    and wfh: "kv_wf (kv2\<lparr>kv_v_heads := heads_after si (kv_v_heads kv2)\<rparr>)"
    and cells1: "\<forall>t. length (kv_cells kv1 t) = length (kv_cells kv t)
          \<and> kc_has_shift (kv_v_cells kv1 ! t) = kc_has_shift (kv_v_cells kv ! t)"
    and new1: "\<forall>p \<in> set ?ps. cell_at kv1 (target si p)
          = token_cell (kv_hp kv) ub (token_at (slot_size si) p) (vacate (cell_at kv (target si p)))"
    and same1: "\<forall>tj. tj \<notin> target si ` set ?ps \<longrightarrow> cell_at kv1 tj = cell_at kv tj"
    and rm1: "\<forall>s. rm1 s = Max (insert (-1) (freed_pos kv (map (target si) ?ps) s))"
    and pos2: "\<forall>s. kv_has_seq kv s \<longrightarrow> kv_positions kv2 s = {p \<in> kv_positions kv1 s. rm1 s < p}"
    using apply_ubatch_run [OF wf own assms(2)] by blast
  let ?kv = "kv2\<lparr>kv_v_heads := heads_after si (kv_v_heads kv2)\<rparr>"
  have inv: "kv_inv ?kv"
    using wfh own kv_frameD(3) [OF fr1] kv_frameD(3) [OF fr2] by (simp add: kv_inv_def)
  have "kv_positions ?kv s = {p \<in> kv_positions kv s \<union> ub_positions ub s. cut_pos kv si s < p}" if s: "kv_has_seq kv s" for s
  proof -
    let ?F = "freed_pos kv (map (target si) ?ps) s"
    note place = placed_positions [OF wf assms(2) s fr1 _ new1 same1]
    have sub: "kv_positions kv1 s \<subseteq> kv_positions kv s \<union> ub_positions ub s" "ub_positions ub s \<subseteq> kv_positions kv1 s"
      "kv_positions kv s \<subseteq> kv_positions kv1 s \<union> ?F" "?F \<subseteq> kv_positions kv s"
      using place cells1 by simp_all
    have F: "0 \<le> p" if "p \<in> ?F" for p
      using kv_mem.positions_nonneg [OF assms(1) s] sub(4) that by blast
    have rm: "rm1 s = cut_pos kv si s"
    proof (cases "?F = {}")
      case False
      then have "Max ?F \<in> ?F" by (intro Max_in) simp_all
      then have "-1 \<le> Max ?F" using F by force
      then show ?thesis using rm1 False by (simp add: cut_pos_def set_pos_max_def max_def)
    qed (simp add: rm1 cut_pos_def set_pos_max_def)
    have gone: "\<not> cut_pos kv si s < p" if "p \<in> ?F" for p
      using that Max_ge [of ?F p] by (auto simp: cut_pos_def set_pos_max_def not_less)
    have "kv_positions ?kv s = kv_positions kv2 s"
      by (simp add: kv_positions_def kv_stream_def kv_cells_def)
    also have "\<dots> = {p \<in> kv_positions kv1 s. cut_pos kv si s < p}" using pos2 s rm by simp
    also have "\<dots> = {p \<in> kv_positions kv s \<union> ub_positions ub s. cut_pos kv si s < p}"
      using sub gone by blast
    finally show ?thesis .
  qed
  moreover have "kv_frame kv ?kv" using kv_frame_trans [OF fr1 fr2] unfolding kv_frame_def by (cases kv; cases kv2) simp
  ultimately show ?thesis using run inv by blast
qed

text \<open>
  C25: \<open>apply_ubatch\<close>. Placing a ubatch into a slot that fits it succeeds and keeps the cache
  well formed. Afterwards each sequence has its old and its new positions, less everything up
  to the greatest of its positions that the ubatch overwrote; the purge never leaves a hole
  below the positions that remain.
\<close>
theorem apply_ubatch_correct:
  assumes "kv_inv kv" "slot_ok kv si ub"
  shows "\<exists>kv'. kv_apply_ubatch si ub kv = Some kv' \<and> kv_inv kv'
    \<and> (\<forall>s. kv_has_seq kv s \<longrightarrow>
          kv_positions kv' s = {p \<in> kv_positions kv s \<union> ub_positions ub s. cut_pos kv si s < p})"
  using apply_ubatch_positions [OF assms] by blast

definition demo_slot :: slot_info where
  "demo_slot = \<lparr>si_s0 = 0, si_s1 = 0, si_strm = [0], si_idxs = [[3]]\<rparr>"

lemma demo_slot_sel [simp]:
  "si_strm demo_slot = [0]" "si_idxs demo_slot = [[3]]" "slot_size demo_slot = 1" "si_n_stream demo_slot = 1"
  "slot_pairs demo_slot (Suc 0) = [(0, 0)]"
  by (simp_all add: demo_slot_def slot_size_def si_n_stream_def slot_pairs_def)

lemma ub_one_token: "0 \<le> p \<Longrightarrow> p < INT32_MAX \<Longrightarrow> s < LLAMA_MAX_SEQ \<Longrightarrow> token_ok kv (ub_one s p) 0"
  by (simp add: token_ok_def has_ext_def ubatch_ext_def is_pos_2d_def)

lemma ub_one_positions: "ub_positions (ub_one s p) u = (if u = s then {p} else {})"
  by (auto simp: ub_positions_def token_seqs_def)

lemma demo_slot_ok: "slot_ok kv_demo demo_slot (ub_one 1 3)"
  using ub_one_token [of 3 1 kv_demo]
  by (simp add: slot_ok_def target_ok_def INT32_MAX_def LLAMA_MAX_SEQ_def)

theorem apply_ubatch_correct_witness:
  "\<exists>kv'. kv_apply_ubatch demo_slot (ub_one 1 3) kv_demo = Some kv' \<and> kv_positions kv' 1 = {1, 3}"
proof -
  have cut: "cut_pos kv_demo demo_slot 1 = -1"
    by (simp add: cut_pos_def freed_pos_def target_def cell_at_def set_pos_max_def)
  have old: "kv_positions kv_demo 1 = {1}" by (simp add: kv_positions_def)
  obtain kv' where run: "kv_apply_ubatch demo_slot (ub_one 1 3) kv_demo = Some kv'"
    "kv_positions kv' 1 = {p \<in> kv_positions kv_demo 1 \<union> ub_positions (ub_one 1 3) 1. cut_pos kv_demo demo_slot 1 < p}"
    using apply_ubatch_correct [OF demo_inv(1) demo_slot_ok] by (auto simp: LLAMA_MAX_SEQ_def)
  have "kv_positions kv' 1 = {p \<in> {1} \<union> {3}. -1 < p}"
    unfolding run(2) cut old ub_one_positions by (simp only: refl if_True)
  also have "\<dots> = {1, 3}" by auto
  finally show ?thesis using run(1) by blast
qed

text \<open>
  C26: No holes. When a sequence occupies an interval of positions and the ubatch continues it,
  finding a slot and placing the ubatch leaves an interval that ends with the last new
  position, even when the window has let some of the old cells be reused.
\<close>
theorem apply_keeps_interval:
  assumes "kv_inv kv" "swa_ok (kv_n_swa kv) (kv_swa_type kv)" "ub_shape kv ub" "\<forall>i < ub_n_tokens ub. token_ok kv ub i"
    and "kv_find_slot ub False kv = Some si" "si \<noteq> slot_nil"
    and "kv_has_seq kv s" "kv_positions kv s = {a..b}" "ub_positions ub s = {b + 1..c}" "a \<le> b + 1" "b \<le> c"
  shows "\<exists>kv' a'. kv_apply_ubatch si ub kv = Some kv' \<and> kv_inv kv' \<and> a \<le> a' \<and> kv_positions kv' s = {a'..c}"
proof -
  have wf: "kv_wf kv" using assms(1) by (simp add: kv_inv_def)
  have ok: "slot_ok kv si ub" by (rule find_slot_ok [OF wf assms(2-6)])
  obtain kv' where kv': "kv_apply_ubatch si ub kv = Some kv'" "kv_inv kv'"
    "kv_positions kv' s = {p \<in> {a..b} \<union> {b + 1..c}. cut_pos kv si s < p}"
    using apply_ubatch_positions [OF assms(1) ok] assms(7-9) by auto
  have "{p \<in> {a..b} \<union> {b + 1..c}. cut_pos kv si s < p} = {max a (cut_pos kv si s + 1)..c}"
    using assms(10,11) by auto
  then show ?thesis using kv' by (intro exI [of _ kv'] exI [of _ "max a (cut_pos kv si s + 1)"]) simp
qed

text \<open>A full cache with a window of two tokens: the oldest cell is reused.\<close>

definition kv_swa_demo :: llama_kv_cache where
  "kv_swa_demo = \<lparr>kv_hp = demo_hp, kv_n_seq_max = 1, kv_n_stream = 1, kv_n_pad = 1, kv_n_swa = 2,
     kv_swa_type = LLAMA_SWA_TYPE_STANDARD, kv_v_heads = [0], kv_other = None,
     kv_v_cells = [cells_repr False [demo_cell 0 {0}, demo_cell 1 {0}, demo_cell 2 {0}]],
     kv_seq_to_stream = replicate LLAMA_MAX_SEQ 0, kv_ssrc = [], kv_sdst = []\<rparr>"

lemma swa_demo_sel [simp]:
  "kv_n_stream kv_swa_demo = 1" "kv_other kv_swa_demo = None" "kv_stream kv_swa_demo s = 0"
  "kv_cells kv_swa_demo 0 = [demo_cell 0 {0}, demo_cell 1 {0}, demo_cell 2 {0}]"
  "kv_n_swa kv_swa_demo = 2" "kv_swa_type kv_swa_demo = LLAMA_SWA_TYPE_STANDARD"
  "kv_length kv_swa_demo = 3" "kv_v_heads kv_swa_demo = [0]"
  by (simp_all add: kv_swa_demo_def kv_stream_def kv_cells_def kv_length_def)

lemma swa_demo_inv: "kv_inv kv_swa_demo"
proof -
  have ok: "acell_ok (demo_cell p S)" if "0 \<le> p" "p < 9" "S \<subseteq> {0, 1}" for p S
    using that by (auto simp: acell_ok_def INT32_MAX_def LLAMA_MAX_SEQ_def)
  show ?thesis
    by (simp add: kv_inv_def kv_wf_def kv_swa_demo_def kv_length_def cell_ok_def ok INT32_MAX_def LLAMA_MAX_SEQ_def)
qed

lemma swa_demo_find: "\<exists>si. kv_find_slot (ub_one 0 3) False kv_swa_demo = Some si \<and> si \<noteq> slot_nil"
proof -
  have swa: "swa_ok (kv_n_swa kv_swa_demo) (kv_swa_type kv_swa_demo)"
    by (simp add: swa_ok_def INT32_MAX_def)
  have has: "kv_has_seq kv_swa_demo 0" by (simp add: kv_has_seq_def LLAMA_MAX_SEQ_def)
  have max: "pos_max_of [demo_cell 0 {0}, demo_cell 1 {0}, demo_cell 2 {0}] 0 = 2"
    by (simp add: pos_max_of_def)
  have "usable kv_swa_demo 0 0" by (simp add: usable_def max swa_masked_def)
  then have "stream_slot kv_swa_demo 1 0 \<noteq> None"
    using first_usable_None [of "usable kv_swa_demo 0" 3 1 "search_head kv_swa_demo 1 0"]
    by (auto simp: stream_slot_def)
  then obtain si where "kv_find_slot (ub_one 0 3) False kv_swa_demo = Some si" "si_strm si = [0]"
    using find_slot_eq [OF swa_demo_inv [unfolded kv_inv_def, THEN conjunct1] swa ub_one_shape(1) [OF has], of 3] by auto
  then show ?thesis by (auto simp: slot_nil_def)
qed

theorem apply_keeps_interval_witness:
  "\<exists>si kv' a'. kv_find_slot (ub_one 0 3) False kv_swa_demo = Some si
    \<and> kv_apply_ubatch si (ub_one 0 3) kv_swa_demo = Some kv' \<and> kv_positions kv' 0 = {a'..3}"
proof -
  obtain si where si: "kv_find_slot (ub_one 0 3) False kv_swa_demo = Some si" "si \<noteq> slot_nil"
    using swa_demo_find by blast
  have swa: "swa_ok (kv_n_swa kv_swa_demo) (kv_swa_type kv_swa_demo)"
    by (simp add: swa_ok_def INT32_MAX_def)
  have has: "kv_has_seq kv_swa_demo 0" by (simp add: kv_has_seq_def LLAMA_MAX_SEQ_def)
  have tok: "\<forall>i < ub_n_tokens (ub_one 0 3). token_ok kv_swa_demo (ub_one 0 3) i"
    using ub_one_token [of 3 0 kv_swa_demo] by (simp add: INT32_MAX_def LLAMA_MAX_SEQ_def)
  have pos: "kv_positions kv_swa_demo 0 = {0..2}" by (auto simp: kv_positions_def)
  have new: "ub_positions (ub_one 0 3) 0 = {2 + 1..3}" by (auto simp: ub_one_positions)
  obtain kv' a' where "kv_apply_ubatch si (ub_one 0 3) kv_swa_demo = Some kv'" "kv_positions kv' 0 = {a'..3}"
    using apply_keeps_interval [OF swa_demo_inv swa ub_one_shape(1) [OF has] tok si has pos new] by auto
  then show ?thesis using si(1) by blast
qed

subsection \<open>Trying a batch: \<open>prepare\<close>\<close>

text \<open>
  Without a window a slot holds empty cells only, so nothing is overwritten or purged. Two
  caches that differ in their heads alone are then served alike.
\<close>

definition same_cells :: "llama_kv_cache \<Rightarrow> llama_kv_cache \<Rightarrow> bool" where
  "same_cells kv kv' \<longleftrightarrow> kv' = kv\<lparr>kv_v_heads := kv_v_heads kv'\<rparr>"

lemma same_cellsD:
  assumes "same_cells kv kv'"
  shows "kv_v_cells kv' = kv_v_cells kv" "kv_frame kv kv'" "kv_cells kv' t = kv_cells kv t"
    "kv_length kv' = kv_length kv" "kv_positions kv' s = kv_positions kv s" "cell_at kv' tj = cell_at kv tj"
proof -
  obtain hs where "kv' = kv\<lparr>kv_v_heads := hs\<rparr>" using assms unfolding same_cells_def by blast
  then show "kv_v_cells kv' = kv_v_cells kv" "kv_frame kv kv'" "kv_cells kv' t = kv_cells kv t"
    "kv_length kv' = kv_length kv" "kv_positions kv' s = kv_positions kv s" "cell_at kv' tj = cell_at kv tj"
    by (simp_all add: kv_frame_def kv_cells_def kv_length_def kv_positions_def kv_stream_def cell_at_def split_def)
qed

lemma same_cells_refl [simp]: "same_cells kv kv"
  by (simp add: same_cells_def)

lemma same_cells_trans: "same_cells a b \<Longrightarrow> same_cells b c \<Longrightarrow> same_cells a c"
  unfolding same_cells_def by (cases a, cases b, cases c) simp

definition targets_empty :: "llama_kv_cache \<Rightarrow> slot_info \<Rightarrow> bool" where
  "targets_empty kv si \<longleftrightarrow> (\<forall>p \<in> set (slot_pairs si (slot_size si)). a_pos (cell_at kv (target si p)) = -1)"

lemma apply_plain:
  assumes wf: "kv_wf kv" and own: "kv_other kv = None" and ok: "slot_ok kv si ub" and empty: "targets_empty kv si"
  shows "\<exists>kv'. kv_apply_ubatch si ub kv = Some kv' \<and> kv_wf kv' \<and> kv_frame kv kv'
    \<and> kv_v_heads kv' = heads_after si (kv_v_heads kv) \<and> kv_length kv' = kv_length kv
    \<and> (\<forall>t. length (kv_cells kv' t) = length (kv_cells kv t)
          \<and> kc_has_shift (kv_v_cells kv' ! t) = kc_has_shift (kv_v_cells kv ! t))
    \<and> (\<forall>p \<in> set (slot_pairs si (slot_size si)). cell_at kv' (target si p)
          = token_cell (kv_hp kv) ub (token_at (slot_size si) p) (cell_at kv (target si p)))
    \<and> (\<forall>tj. tj \<notin> target si ` set (slot_pairs si (slot_size si)) \<longrightarrow> cell_at kv' tj = cell_at kv tj)"
proof -
  let ?ps = "slot_pairs si (slot_size si)"
  obtain kv1 rm1 kv2 where run: "kv_apply_ubatch si ub kv = Some (kv2\<lparr>kv_v_heads := heads_after si (kv_v_heads kv2)\<rparr>)"
    and purge: "for_opt (purge_step rm1) [0..<LLAMA_MAX_SEQ] kv1 = Some kv2"
    and fr1: "kv_frame kv kv1" and len1: "kv_length kv1 = kv_length kv" and h1: "kv_v_heads kv1 = kv_v_heads kv"
    and wfh: "kv_wf (kv2\<lparr>kv_v_heads := heads_after si (kv_v_heads kv2)\<rparr>)"
    and cells1: "\<forall>t. length (kv_cells kv1 t) = length (kv_cells kv t)
          \<and> kc_has_shift (kv_v_cells kv1 ! t) = kc_has_shift (kv_v_cells kv ! t)"
    and new1: "\<forall>p \<in> set ?ps. cell_at kv1 (target si p)
          = token_cell (kv_hp kv) ub (token_at (slot_size si) p) (vacate (cell_at kv (target si p)))"
    and same1: "\<forall>tj. tj \<notin> target si ` set ?ps \<longrightarrow> cell_at kv1 tj = cell_at kv tj"
    and rm1: "\<forall>s. rm1 s = Max (insert (-1) (freed_pos kv (map (target si) ?ps) s))"
    using apply_ubatch_run [OF wf own ok] by blast
  have "freed_pos kv (map (target si) ?ps) s = {}" for s
    using empty by (auto simp: freed_pos_def targets_empty_def)
  then have "rm1 = (\<lambda>_. -1)" using rm1 by (simp add: fun_eq_iff)
  then have kv2: "kv2 = kv1" using purge by (simp add: purge_none)
  let ?kv = "kv1\<lparr>kv_v_heads := heads_after si (kv_v_heads kv)\<rparr>"
  have eq: "kv2\<lparr>kv_v_heads := heads_after si (kv_v_heads kv2)\<rparr> = ?kv" by (simp add: kv2 h1)
  have same: "same_cells kv1 ?kv" by (simp add: same_cells_def)
  have fr: "kv_frame kv ?kv" by (rule kv_frame_trans [OF fr1 same_cellsD(2) [OF same]])
  have vac: "vacate (cell_at kv (target si p)) = cell_at kv (target si p)" if "p \<in> set ?ps" for p
    using empty that by (simp add: vacate_def targets_empty_def)
  have "\<forall>p \<in> set ?ps. cell_at ?kv (target si p) = token_cell (kv_hp kv) ub (token_at (slot_size si) p) (cell_at kv (target si p))"
    using new1 vac by (simp add: same_cellsD(6) [OF same])
  moreover have "\<forall>tj. tj \<notin> target si ` set ?ps \<longrightarrow> cell_at ?kv tj = cell_at kv tj"
    unfolding same_cellsD(6) [OF same] by (rule same1)
  moreover have "\<forall>t. length (kv_cells ?kv t) = length (kv_cells kv t)
          \<and> kc_has_shift (kv_v_cells ?kv ! t) = kc_has_shift (kv_v_cells kv ! t)"
    unfolding same_cellsD(1,3) [OF same] by (rule cells1)
  ultimately show ?thesis
    using run wfh fr len1 by (intro exI [of _ ?kv]) (simp add: eq same_cellsD(4) [OF same])
qed

text \<open>The cells of a cache are determined by their contents and the shift flags.\<close>

lemma kv_v_cells_eqI:
  assumes "kv_wf a" "kv_wf b" "kv_n_stream a = kv_n_stream b"
    and "\<And>t. t < kv_n_stream a \<Longrightarrow> kv_cells a t = kv_cells b t"
    and "\<And>t. t < kv_n_stream a \<Longrightarrow> kc_has_shift (kv_v_cells a ! t) = kc_has_shift (kv_v_cells b ! t)"
  shows "kv_v_cells a = kv_v_cells b"
proof (rule nth_equalityI)
  show "length (kv_v_cells a) = length (kv_v_cells b)" using kv_wfD(4) assms(1,2,3) by simp
  fix t assume "t < length (kv_v_cells a)"
  then have t: "t < kv_n_stream a" "t < kv_n_stream b" using kv_wfD(4) [OF assms(1)] assms(3) by simp_all
  show "kv_v_cells a ! t = kv_v_cells b ! t"
    using kv_cells_repr(1) [OF assms(1) t(1)] kv_cells_repr(1) [OF assms(2) t(2)] assms(4,5) [OF t(1)] by simp
qed

lemma kv_cells_cell_at:
  assumes "length (kv_cells a t) = length (kv_cells b t)" "\<And>j. j < length (kv_cells b t) \<Longrightarrow> cell_at a (t, j) = cell_at b (t, j)"
  shows "kv_cells a t = kv_cells b t"
  by (rule nth_equalityI) (use assms in \<open>simp_all add: cell_at_def\<close>)

text \<open>Placing a ubatch does not look at the heads.\<close>

lemma apply_same_cells:
  assumes "kv_wf a" "kv_wf b" "kv_other a = None" "same_cells a b" "slot_ok a si ub" "targets_empty a si"
  shows "\<exists>a' b'. kv_apply_ubatch si ub a = Some a' \<and> kv_apply_ubatch si ub b = Some b'
    \<and> kv_wf a' \<and> kv_wf b' \<and> same_cells a' b' \<and> kv_frame a a'"
proof -
  note sm = same_cellsD [OF assms(4)]
  note fr = kv_frameD [OF sm(2)]
  have "target_ok b si ub sz p = target_ok a si ub sz p" for sz p
    by (cases p) (simp add: target_ok_def fr sm token_ok_def)
  then have ok: "slot_ok b si ub" using assms(5) by (simp add: slot_ok_def)
  have empty: "targets_empty b si" using assms(6) by (simp add: targets_empty_def sm)
  obtain a' where a': "kv_apply_ubatch si ub a = Some a'" "kv_wf a'" "kv_frame a a'"
    "\<forall>t. length (kv_cells a' t) = length (kv_cells a t)
          \<and> kc_has_shift (kv_v_cells a' ! t) = kc_has_shift (kv_v_cells a ! t)"
    "\<forall>p \<in> set (slot_pairs si (slot_size si)). cell_at a' (target si p)
          = token_cell (kv_hp a) ub (token_at (slot_size si) p) (cell_at a (target si p))"
    "\<forall>tj. tj \<notin> target si ` set (slot_pairs si (slot_size si)) \<longrightarrow> cell_at a' tj = cell_at a tj"
    using apply_plain [OF assms(1,3,5,6)] by blast
  have "kv_other b = None" using assms(3) fr(3) by simp
  then obtain b' where b': "kv_apply_ubatch si ub b = Some b'" "kv_wf b'" "kv_frame b b'"
    "\<forall>t. length (kv_cells b' t) = length (kv_cells b t)
          \<and> kc_has_shift (kv_v_cells b' ! t) = kc_has_shift (kv_v_cells b ! t)"
    "\<forall>p \<in> set (slot_pairs si (slot_size si)). cell_at b' (target si p)
          = token_cell (kv_hp b) ub (token_at (slot_size si) p) (cell_at b (target si p))"
    "\<forall>tj. tj \<notin> target si ` set (slot_pairs si (slot_size si)) \<longrightarrow> cell_at b' tj = cell_at b tj"
    using apply_plain [OF assms(2) _ ok empty] by blast
  have at: "cell_at b' tj = cell_at a' tj" for tj
  proof (cases "tj \<in> target si ` set (slot_pairs si (slot_size si))")
    case True
    then obtain p where p: "p \<in> set (slot_pairs si (slot_size si))" "tj = target si p" by blast
    show ?thesis using a'(5) [rule_format, OF p(1)] b'(5) [rule_format, OF p(1)] fr(4) sm(6) p(2) by simp
  next
    case False
    show ?thesis using a'(6) [rule_format, OF False] b'(6) [rule_format, OF False] sm(6) by simp
  qed
  have n: "kv_n_stream b' = kv_n_stream a'" using kv_frameD(1) [OF a'(3)] kv_frameD(1) [OF b'(3)] fr(1) by simp
  have "kv_v_cells b' = kv_v_cells a'"
    by (rule kv_v_cells_eqI [OF b'(2) a'(2) n], rule kv_cells_cell_at)
       (use a'(4) b'(4) sm at in simp_all)
  moreover have "b' = b\<lparr>kv_v_cells := kv_v_cells b', kv_v_heads := kv_v_heads b'\<rparr>"
    "a' = a\<lparr>kv_v_cells := kv_v_cells a', kv_v_heads := kv_v_heads a'\<rparr>" "b = a\<lparr>kv_v_heads := kv_v_heads b\<rparr>"
    using b'(3) a'(3) assms(4) by (simp_all only: kv_frame_def same_cells_def)
  ultimately have "same_cells a' b'" unfolding same_cells_def
    by (cases a, cases b, cases a', cases b') simp
  then show ?thesis using a'(1-3) b'(1,2) by blast
qed

lemma slot_ok_stream:
  assumes wf: "kv_wf kv" and ok: "slot_ok kv si ub" and s: "s < si_n_stream si"
  shows "s < length (si_strm si)" "s < length (si_idxs si)" "si_strm si ! s < kv_n_stream kv"
    "length (si_idxs si ! s) = slot_size si"
    "\<And>i. i \<in> set (si_idxs si ! s) \<Longrightarrow> i < length (kv_cells kv (si_strm si ! s))"
    "\<And>i. i \<in> set (si_idxs si ! s) \<Longrightarrow> \<exists>p \<in> set (slot_pairs si (slot_size si)). target si p = (si_strm si ! s, i)"
    "s < kv_n_stream kv"
proof -
  show l: "s < length (si_strm si)" "s < length (si_idxs si)" using ok s by (simp_all add: slot_ok_def si_n_stream_def)
  show len: "length (si_idxs si ! s) = slot_size si" using ok l(2) by (simp add: slot_ok_def)
  have tok: "target_ok kv si ub (slot_size si) p" if "p \<in> set (slot_pairs si (slot_size si))" for p
    using ok that by (simp add: slot_ok_def)
  have str: "si_strm si ! u < kv_n_stream kv" if "u < si_n_stream si" for u
  proof -
    have "(u, 0) \<in> set (slot_pairs si (slot_size si))"
      using ok that by (simp add: set_slot_pairs slot_ok_def)
    from target_okD(1) [OF tok [OF this]] show ?thesis by (simp add: target_def)
  qed
  show "si_strm si ! s < kv_n_stream kv" by (rule str [OF s])
  show mem: "\<exists>p \<in> set (slot_pairs si (slot_size si)). target si p = (si_strm si ! s, i)" if i: "i \<in> set (si_idxs si ! s)" for i
  proof -
    obtain ii where "ii < slot_size si" "si_idxs si ! s ! ii = i" using i len by (auto simp: in_set_conv_nth)
    then show ?thesis using s by (intro bexI [of _ "(s, ii)"]) (simp_all add: target_def set_slot_pairs)
  qed
  show "i < length (kv_cells kv (si_strm si ! s))" if i: "i \<in> set (si_idxs si ! s)" for i
  proof -
    obtain p where p: "p \<in> set (slot_pairs si (slot_size si))" "target si p = (si_strm si ! s, i)" using mem [OF i] by blast
    show ?thesis using target_okD(2) [OF tok [OF p(1)]] p(2) kv_stream_get(4) [OF wf str [OF s]] by simp
  qed
  have "set (si_strm si) \<subseteq> {..<kv_n_stream kv}"
    using str by (auto simp: in_set_conv_nth si_n_stream_def)
  then have "card (set (si_strm si)) \<le> card {..<kv_n_stream kv}" by (intro card_mono) simp_all
  then have "length (si_strm si) \<le> kv_n_stream kv" using ok by (simp add: slot_ok_def distinct_card)
  then show "s < kv_n_stream kv" using l(1) by simp
qed

lemma empty_shift:
  assumes wf: "kv_wf kv" and ok: "slot_ok kv si ub" and empty: "targets_empty kv si" and s: "s < si_n_stream si"
    and i: "i \<in> set (si_idxs si ! s)"
  shows "a_pos (kv_cells kv (si_strm si ! s) ! i) = -1" "a_shift (kv_cells kv (si_strm si ! s) ! i) = 0"
proof -
  note sl = slot_ok_stream [OF wf ok s]
  obtain p where p: "p \<in> set (slot_pairs si (slot_size si))" "target si p = (si_strm si ! s, i)" using sl(6) [OF i] by blast
  show pos: "a_pos (kv_cells kv (si_strm si ! s) ! i) = -1"
    using empty p by (auto simp: targets_empty_def cell_at_def)
  have "acell_ok (kv_cells kv (si_strm si ! s) ! i)"
    using kv_cells_repr(2) [OF wf sl(3)] sl(5) [OF i] by (simp add: cell_ok_def)
  then show "a_shift (kv_cells kv (si_strm si ! s) ! i) = 0" using pos by (simp add: acell_ok_def)
qed

lemma kv_cells_repr_shift:
  assumes "kv_wf kv" "t < kv_n_stream kv" "kc_has_shift (kv_v_cells kv ! t) = h"
  shows "kv_v_cells kv ! t = cells_repr h (kv_cells kv t)"
  using kv_cells_repr(1) [OF assms(1,2)] unfolding assms(3) .

definition saved_of :: "llama_kv_cache \<Rightarrow> slot_info \<Rightarrow> nat \<Rightarrow> llama_kv_cells" where
  "saved_of kv si s = cells_saved (map ((!) (kv_cells kv (si_strm si ! s))) (si_idxs si ! s))"

lemma save_loop:
  assumes wf: "kv_wf kv" and ok: "slot_ok kv si ub" and empty: "targets_empty kv si"
  shows "k \<le> si_n_stream si \<Longrightarrow> for_opt (save_cells si kv) [0..<k] [] = Some (map (saved_of kv si) [0..<k])"
proof (induction k)
  case 0
  then show ?case by simp
next
  case (Suc k)
  then have k: "k < si_n_stream si" by simp
  note sl = slot_ok_stream [OF wf ok k]
  obtain hs where c: "kv_v_cells kv ! (si_strm si ! k) = cells_repr hs (kv_cells kv (si_strm si ! k))"
    using kv_cells_repr(1) [OF wf sl(3)] by blast
  have "cells_cp (si_idxs si ! k) (kv_v_cells kv ! (si_strm si ! k)) = Some (saved_of kv si k)"
    unfolding c saved_of_def
    by (rule cells_cp_repr) (use sl(5) empty_shift(2) [OF wf ok empty k] in blast)
  then show ?case
    using Suc k by (simp add: for_opt_append save_cells_def sl(1,2) kv_stream_get(1) [OF wf sl(3)])
qed

text \<open>Undoing one placed ubatch.\<close>

definition prep_of :: "llama_kv_cache \<Rightarrow> slot_info \<Rightarrow> prep_state" where
  "prep_of kv si = \<lparr>ps_sinfo = si, ps_v_heads_old = kv_v_heads kv, ps_v_cells = map (saved_of kv si) [0..<si_n_stream si]\<rparr>"

lemma restore_undo:
  assumes wf: "kv_wf kv" and own: "kv_other kv = None" and ok: "slot_ok kv si ub" and empty: "targets_empty kv si"
    and app: "kv_apply_ubatch si ub kv = Some kva" and wfb: "kv_wf kvb" and same: "same_cells kva kvb"
  shows "\<exists>kvc. restore_state (prep_of kv si) kvb = Some kvc \<and> kv_wf kvc \<and> same_cells kv kvc
    \<and> (kv_n_stream kv = 1 \<longrightarrow> kvc = kv)"
proof -
  let ?n = "si_n_stream si"
  obtain kva' where "kv_apply_ubatch si ub kv = Some kva'" "kv_wf kva'" "kv_frame kv kva'"
    "kv_v_heads kva' = heads_after si (kv_v_heads kv)" "kv_length kva' = kv_length kv"
    "\<forall>t. length (kv_cells kva' t) = length (kv_cells kv t)
          \<and> kc_has_shift (kv_v_cells kva' ! t) = kc_has_shift (kv_v_cells kv ! t)"
    "\<forall>p \<in> set (slot_pairs si (slot_size si)). cell_at kva' (target si p)
          = token_cell (kv_hp kv) ub (token_at (slot_size si) p) (cell_at kv (target si p))"
    "\<forall>tj. tj \<notin> target si ` set (slot_pairs si (slot_size si)) \<longrightarrow> cell_at kva' tj = cell_at kv tj"
    using apply_plain [OF wf own ok empty] by blast
  moreover have "kva' = kva" using calculation(1) app by simp
  ultimately have a: "kv_wf kva" "kv_frame kv kva"
    "\<forall>t. length (kv_cells kva t) = length (kv_cells kv t)
          \<and> kc_has_shift (kv_v_cells kva ! t) = kc_has_shift (kv_v_cells kv ! t)"
    "\<forall>p \<in> set (slot_pairs si (slot_size si)). cell_at kva (target si p)
          = token_cell (kv_hp kv) ub (token_at (slot_size si) p) (cell_at kv (target si p))"
    "\<forall>tj. tj \<notin> target si ` set (slot_pairs si (slot_size si)) \<longrightarrow> cell_at kva tj = cell_at kv tj"
    by simp_all
  have frb: "kv_frame kv kvb" by (rule kv_frame_trans [OF a(2) same_cellsD(2) [OF same]])
  have heads_old: "length (kv_v_heads kv) = kv_n_stream kv" by (rule kv_wfD(3) [OF wf])
  let ?done = "\<lambda>k t. t \<in> set (take k (si_strm si))"
  let ?P = "\<lambda>k kvx. kv_wf kvx \<and> kv_frame kv kvx \<and>
    (\<forall>t < kv_n_stream kv. kv_v_cells kvx ! t = (if ?done k t then kv_v_cells kv ! t else kv_v_cells kva ! t))
    \<and> (kv_n_stream kv = 1 \<longrightarrow> 0 < k \<longrightarrow> kv_v_heads kvx = kv_v_heads kv)"
  have "\<exists>kvc. for_opt (restore_stream (prep_of kv si)) [0..<?n] kvb = Some kvc \<and> ?P ?n kvc"
  proof (rule for_opt_upt_total [where P = ?P])
    show "?P 0 kvb" using wfb frb by (simp add: same_cellsD(1) [OF same])
  next
    fix k kvx
    assume k: "k < ?n" and P: "?P k kvx"
    note sl = slot_ok_stream [OF wf ok k]
    let ?t = "si_strm si ! k" and ?is = "si_idxs si ! k"
    have wfx: "kv_wf kvx" and frx: "kv_frame kv kvx" using P by simp_all
    have tx: "?t < kv_n_stream kvx" using sl(3) kv_frameD(1) [OF frx] by simp
    have notdone: "\<not> ?done k ?t"
    proof
      assume "?done k ?t"
      then obtain j where "j < k" "si_strm si ! j = ?t" by (auto simp: in_set_conv_nth)
      then show False using ok k by (simp add: slot_ok_def nth_eq_iff_index_eq si_n_stream_def)
    qed
    then have cx: "kv_v_cells kvx ! ?t = kv_v_cells kva ! ?t" using P sl(3) by simp
    define hs where "hs = kc_has_shift (kv_v_cells kv ! ?t)"
    have ta: "?t < kv_n_stream kva" using sl(3) kv_frameD(1) [OF a(2)] by simp
    have ca: "kv_v_cells kva ! ?t = cells_repr hs (kv_cells kva ?t)"
      by (rule kv_cells_repr_shift [OF a(1) ta]) (simp add: a(3) hs_def)
    have c0: "kv_v_cells kv ! ?t = cells_repr hs (kv_cells kv ?t)"
      by (rule kv_cells_repr_shift [OF wf sl(3)]) (simp add: hs_def)
    have la: "length (kv_cells kva ?t) = length (kv_cells kv ?t)" using a(3) by blast
    have shift_a: "a_shift (kv_cells kva ?t ! i) = 0" if i: "i \<in> set ?is" for i
    proof -
      obtain p where p: "p \<in> set (slot_pairs si (slot_size si))" "target si p = (?t, i)" using sl(6) [OF i] by blast
      have "cell_at kva (?t, i) = token_cell (kv_hp kv) ub (token_at (slot_size si) p) (cell_at kv (?t, i))"
        using a(4) [rule_format, OF p(1)] p(2) by simp
      then show ?thesis using empty_shift(2) [OF wf ok empty k i] by (simp add: cell_at_def)
    qed
    have same_off: "kv_cells kva ?t ! i = kv_cells kv ?t ! i" if "i \<notin> set ?is" for i
    proof -
      have "(?t, i) \<notin> target si ` set (slot_pairs si (slot_size si))"
      proof
        assume "(?t, i) \<in> target si ` set (slot_pairs si (slot_size si))"
        then obtain s ii where sii: "s < ?n" "ii < slot_size si" "si_strm si ! s = ?t" "si_idxs si ! s ! ii = i"
          by (auto simp: target_def set_slot_pairs)
        then have "s = k" using ok k by (simp add: slot_ok_def nth_eq_iff_index_eq si_n_stream_def)
        then show False using sii that sl(4) by auto
      qed
      from a(5) [rule_format, OF this] show ?thesis by (simp add: cell_at_def)
    qed
    have oka: "\<forall>x \<in> set (kv_cells kva ?t). acell_ok x"
      using kv_cells_repr(2) [OF a(1) ta] cell_okD by blast
    have ok0: "\<forall>y \<in> set (map ((!) (kv_cells kv ?t)) ?is). acell_ok y"
      using kv_cells_repr(2) [OF wf sl(3)] sl(5) by (auto simp: cell_ok_def)
    have set: "cells_set ?is (saved_of kv si k) (kv_v_cells kvx ! ?t) = Some (kv_v_cells kv ! ?t)"
    proof -
      have "restore_cells ?is (map ((!) (kv_cells kv ?t)) ?is) (kv_cells kva ?t) = kv_cells kv ?t"
        by (rule restore_cells_undo) (use la same_off empty_shift(2) [OF wf ok empty k] in auto)
      moreover have "cells_set ?is (cells_saved (map ((!) (kv_cells kv ?t)) ?is)) (cells_repr hs (kv_cells kva ?t))
          = Some (cells_repr hs (restore_cells ?is (map ((!) (kv_cells kv ?t)) ?is) (kv_cells kva ?t)))"
        using cells_set_repr [OF oka _ ok0, of ?is hs] sl(5) shift_a la by simp
      ultimately show ?thesis by (simp add: cx ca c0 saved_of_def)
    qed
    let ?h = "kv_v_heads kv ! k"
    let ?kvy = "set_stream ?t (kv_v_cells kv ! ?t) ?h kvx"
    have step: "restore_stream (prep_of kv si) k kvx = Some ?kvy"
      using k sl(1,2,7) tx kv_wfD(3) [OF wfx] heads_old
      by (simp add: restore_stream_def prep_of_def kv_stream_get(1) [OF wfx tx] set)
    have hle: "?h \<le> length (kv_cells kv ?t)"
      using kv_stream_get(4) [OF wf sl(3)] kv_wfD(6) [OF wf sl(7)] by simp
    have lx: "length (kv_cells kv ?t) = length (kv_cells kvx ?t)"
      using la cx by (simp add: kv_cells_def)
    have wfy: "kv_wf ?kvy"
      unfolding c0 by (rule kv_wf_set_stream [OF wfx tx])
        (use kv_cells_repr(2) [OF wf sl(3)] kv_frameD(1) [OF frx] hle lx in simp_all)
    have done': "?done (Suc k) t \<longleftrightarrow> ?done k t \<or> t = ?t" for t
      using sl(1) by (auto simp: take_Suc_conv_app_nth)
    have "?P (Suc k) ?kvy"
    proof (intro conjI allI impI)
      show "kv_wf ?kvy" by (rule wfy)
      show "kv_frame kv ?kvy" by (rule kv_frame_trans [OF frx]) simp
      show "kv_v_cells ?kvy ! t = (if ?done (Suc k) t then kv_v_cells kv ! t else kv_v_cells kva ! t)"
        if "t < kv_n_stream kv" for t
        unfolding done' using P that tx kv_wfD(4) [OF wfx] by (cases "t = ?t") (simp_all add: nth_list_update)
      show "kv_v_heads ?kvy = kv_v_heads kv" if "kv_n_stream kv = 1"
      proof -
        have "?t = 0" "k = 0" using that sl(3,7) by simp_all
        moreover have "length (kv_v_heads kvx) = 1" using kv_wfD(3) [OF wfx] kv_frameD(1) [OF frx] that by simp
        moreover have "length (kv_v_heads kv) = 1" using heads_old that by simp
        ultimately show ?thesis by (intro nth_equalityI) simp_all
      qed
    qed
    then show "\<exists>kvy. restore_stream (prep_of kv si) k kvx = Some kvy \<and> ?P (Suc k) kvy" using step by blast
  qed
  then obtain kvc where kvc: "for_opt (restore_stream (prep_of kv si)) [0..<?n] kvb = Some kvc \<and> ?P ?n kvc"
    by (elim exE) (rule that)
  note run = kvc [THEN conjunct1] and P = kvc [THEN conjunct2]
  have all: "kv_v_cells kvc ! t = kv_v_cells kv ! t" if t: "t < kv_n_stream kv" for t
  proof (cases "?done ?n t")
    case False
    have "(t, j) \<notin> target si ` set (slot_pairs si (slot_size si))" for j
      using False by (auto simp: target_def set_slot_pairs si_n_stream_def)
    then have "kv_cells kva t = kv_cells kv t"
      using a(3,5) by (intro kv_cells_cell_at) simp_all
    moreover have "t < kv_n_stream kva" using t kv_frameD(1) [OF a(2)] by simp
    ultimately have "kv_v_cells kva ! t = kv_v_cells kv ! t"
      using kv_cells_repr_shift [OF a(1) _ refl] kv_cells_repr_shift [OF wf t refl] a(3) by simp
    then show ?thesis using P False t by simp
  qed (use P t in simp)
  have len: "length (kv_v_cells kvc) = length (kv_v_cells kv)"
    using kv_wfD(4) [OF wf] kv_wfD(4) [of kvc] P kv_frameD(1) [of kv kvc] by simp
  have "kv_v_cells kvc = kv_v_cells kv"
    by (rule nth_equalityI [OF len]) (use all len kv_wfD(4) [OF wf] in simp)
  moreover have "kvc = kv\<lparr>kv_v_cells := kv_v_cells kvc, kv_v_heads := kv_v_heads kvc\<rparr>" using P by (simp only: kv_frame_def)
  ultimately have same': "same_cells kv kvc" unfolding same_cells_def by (cases kv, cases kvc) simp
  have n0: "0 < ?n" using ok by (simp add: slot_ok_def si_n_stream_def)
  have "kvc = kv" if one: "kv_n_stream kv = 1"
  proof -
    have heads: "kv_v_heads kvc = kv_v_heads kv" using P one n0 by (elim conjE) (erule mp [OF mp])
    have "kvc = kv\<lparr>kv_v_heads := kv_v_heads kvc\<rparr>" using same' by (simp only: same_cells_def)
    also have "\<dots> = kv" unfolding heads by simp
    finally show ?thesis .
  qed
  moreover have "restore_state (prep_of kv si) kvb = Some kvc" using run by (simp add: restore_state_def prep_of_def)
  moreover have "kv_wf kvc" using P by (elim conjE)
  ultimately show ?thesis using same' by blast
qed

definition place_all :: "slot_info list \<Rightarrow> llama_ubatch list \<Rightarrow> llama_kv_cache \<Rightarrow> llama_kv_cache option" where
  "place_all sis ubs = for_opt (\<lambda>(si, ub). kv_apply_ubatch si ub) (zip sis ubs)"

lemma place_all_simps [simp]:
  "place_all [] ubs kv = Some kv"
  "place_all (si # sis) (ub # ubs) kv = (kv_apply_ubatch si ub kv \<bind> place_all sis ubs)"
  by (simp_all add: place_all_def)

definition ub_ready :: "llama_kv_cache \<Rightarrow> llama_ubatch \<Rightarrow> bool" where
  "ub_ready kv ub \<longleftrightarrow> ub_shape kv ub \<and> (\<forall>i < ub_n_tokens ub. token_ok kv ub i)"

lemma ub_ready_frame: "kv_frame kv kv' \<Longrightarrow> ub_ready kv' ub = ub_ready kv ub"
  by (simp add: ub_ready_def ub_shape_def slot_len_def token_ok_def kv_frameD cong: conj_cong)

lemma usable_none: "kv_swa_type kv = LLAMA_SWA_TYPE_NONE \<Longrightarrow> usable kv t i \<longleftrightarrow> a_pos (kv_cells kv t ! i) = -1"
  by (simp add: usable_def swa_masked_def Let_def)

lemma find_slot_empty:
  assumes wf: "kv_wf kv" and none: "kv_swa_type kv = LLAMA_SWA_TYPE_NONE" "int (kv_n_swa kv) \<le> INT32_MAX" and ub: "ub_ready kv ub"
    and find: "kv_find_slot ub False kv = Some si" and ne: "si \<noteq> slot_nil"
  shows "slot_ok kv si ub" "targets_empty kv si" "\<not> si_empty si"
proof -
  have swa: "swa_ok (kv_n_swa kv) (kv_swa_type kv)" using none by (simp add: swa_ok_def)
  have shape: "ub_shape kv ub" using ub by (simp add: ub_ready_def)
  show ok: "slot_ok kv si ub"
    by (rule find_slot_ok [OF wf swa shape _ find ne]) (use ub in \<open>simp add: ub_ready_def\<close>)
  then show "\<not> si_empty si" by (auto simp: slot_ok_def si_empty_def)
  let ?n = "slot_len kv ub" and ?seqs = "slot_seqs kv ub"
  have fits: "\<forall>s \<in> set ?seqs. stream_slot kv ?n (kv_stream kv s) \<noteq> None"
    and strm: "si_strm si = map (kv_stream kv) ?seqs"
    and idxs: "si_idxs si = map (\<lambda>s. the (stream_slot kv ?n (kv_stream kv s))) ?seqs"
    using find_slot_eq [OF wf swa shape] find ne by (auto split: if_splits)
  show "targets_empty kv si"
    unfolding targets_empty_def
  proof
    fix p assume p: "p \<in> set (slot_pairs si (slot_size si))"
    obtain s ii where e: "p = (s, ii)" by (cases p)
    have b: "s < length ?seqs" "ii < slot_size si" using p e strm by (simp_all add: set_slot_pairs si_n_stream_def)
    have len: "length (si_idxs si ! s) = slot_size si"
      by (rule slot_ok_stream(4) [OF wf ok]) (use b(1) strm in \<open>simp add: si_n_stream_def\<close>)
    have "first_usable (usable kv (kv_stream kv (?seqs ! s))) (kv_length kv) ?n (search_head kv ?n (kv_stream kv (?seqs ! s)))
        = Some (si_idxs si ! s)"
      using fits b(1) by (simp add: stream_slot_def [symmetric] idxs)
    from first_usable_Some(3) [OF this] have "usable kv (kv_stream kv (?seqs ! s)) (si_idxs si ! s ! ii)"
      using b(2) len by simp
    then show "a_pos (cell_at kv (target si p)) = -1"
      using b(1) by (simp add: usable_none [OF none(1)] cell_at_def target_def e strm)
  qed
qed

lemma targets_empty_cut:
  assumes "targets_empty kv si"
  shows "cut_pos kv si s = -1"
proof -
  have "freed_pos kv (map (target si) (slot_pairs si (slot_size si))) s = {}"
    using assms by (auto simp: targets_empty_def freed_pos_def)
  then show ?thesis by (simp add: cut_pos_def set_pos_max_def)
qed

lemma prepare_trial:
  assumes "kv_wf kv" "kv_other kv = None" "kv_swa_type kv = LLAMA_SWA_TYPE_NONE" "int (kv_n_swa kv) \<le> INT32_MAX"
    and "\<forall>ub \<in> set ubs. ub_ready kv ub"
  shows "\<exists>ok kvT sis sts. for_ret prepare_step ubs (kv, res, states) = Some (ok, kvT, res @ sis, states @ sts)
    \<and> kv_wf kvT \<and> kv_frame kv kvT \<and> length sts = length sis
    \<and> place_all sis (take (length sis) ubs) kv = Some kvT
    \<and> (if ok then length sis = length ubs
       else length sis < length ubs \<and> kv_find_slot (ubs ! length sis) False kvT = Some slot_nil)
    \<and> (\<forall>kv0. kv_wf kv0 \<and> same_cells kv kv0 \<longrightarrow>
          (\<exists>kv1. place_all sis (take (length sis) ubs) kv0 = Some kv1 \<and> kv_wf kv1 \<and> same_cells kvT kv1))
    \<and> (\<forall>kvB. kv_wf kvB \<and> same_cells kvT kvB \<longrightarrow>
          (\<exists>kvR. for_opt restore_state (rev sts) kvB = Some kvR \<and> kv_wf kvR \<and> same_cells kv kvR
             \<and> (kv_n_stream kv = 1 \<and> sts \<noteq> [] \<longrightarrow> kvR = kv)))"
  using assms
proof (induction ubs arbitrary: kv res states)
  case Nil
  then show ?case
    by (intro exI [of _ True] exI [of _ kv] exI [of _ "[]"]) auto
next
  case (Cons ub ubs)
  have ready: "ub_ready kv ub" using Cons.prems(5) by simp
  have swa: "swa_ok (kv_n_swa kv) (kv_swa_type kv)" using Cons.prems(3,4) by (simp add: swa_ok_def)
  obtain si where find: "kv_find_slot ub False kv = Some si"
    using find_slot_eq [OF Cons.prems(1) swa] ready by (auto simp: ub_ready_def)
  show ?case
  proof (cases "si = slot_nil")
    case True
    then have "prepare_step ub (kv, res, states) = Some (False, kv, res, states)"
      using find by (simp add: prepare_step_def si_empty_def slot_nil_def)
    then show ?thesis
      using Cons.prems(1) find True
      by (intro exI [of _ False] exI [of _ kv] exI [of _ "[]"]) auto
  next
    case False
    note slot = find_slot_empty [OF Cons.prems(1,3,4) ready find False]
    obtain kv' where app: "kv_apply_ubatch si ub kv = Some kv'" and wf': "kv_wf kv'" and fr: "kv_frame kv kv'"
      using apply_plain [OF Cons.prems(1,2) slot(1,2)] by blast
    have save: "for_opt (save_cells si kv) [0..<si_n_stream si] [] = Some (map (saved_of kv si) [0..<si_n_stream si])"
      by (rule save_loop [OF Cons.prems(1) slot(1,2)]) simp
    have step: "prepare_step ub (kv, res, states) = Some (True, kv', res @ [si], states @ [prep_of kv si])"
      using find slot(3) by (simp add: prepare_step_def save app prep_of_def)
    have ready': "\<forall>ub \<in> set ubs. ub_ready kv' ub" using Cons.prems(5) ub_ready_frame [OF fr] by simp
    obtain ok kvT sis sts where IH: "for_ret prepare_step ubs (kv', res @ [si], states @ [prep_of kv si])
        = Some (ok, kvT, (res @ [si]) @ sis, (states @ [prep_of kv si]) @ sts)"
      "kv_wf kvT" "kv_frame kv' kvT" "length sts = length sis"
      "place_all sis (take (length sis) ubs) kv' = Some kvT"
      "if ok then length sis = length ubs
       else length sis < length ubs \<and> kv_find_slot (ubs ! length sis) False kvT = Some slot_nil"
      and replay: "\<forall>kv0. kv_wf kv0 \<and> same_cells kv' kv0 \<longrightarrow>
          (\<exists>kv1. place_all sis (take (length sis) ubs) kv0 = Some kv1 \<and> kv_wf kv1 \<and> same_cells kvT kv1)"
      and restore: "\<forall>kvB. kv_wf kvB \<and> same_cells kvT kvB \<longrightarrow>
          (\<exists>kvR. for_opt restore_state (rev sts) kvB = Some kvR \<and> kv_wf kvR \<and> same_cells kv' kvR
             \<and> (kv_n_stream kv' = 1 \<and> sts \<noteq> [] \<longrightarrow> kvR = kv'))"
      using Cons.IH [OF wf', of "res @ [si]" "states @ [prep_of kv si]"] Cons.prems(2-4) ready' kv_frameD [OF fr] by auto
    have "for_ret prepare_step (ub # ubs) (kv, res, states) = Some (ok, kvT, res @ (si # sis), states @ (prep_of kv si # sts))"
      using step IH(1) by simp
    moreover have "kv_frame kv kvT" by (rule kv_frame_trans [OF fr IH(3)])
    moreover have "place_all (si # sis) (take (length (si # sis)) (ub # ubs)) kv = Some kvT"
      using app IH(5) by simp
    moreover have "if ok then length (si # sis) = length (ub # ubs)
       else length (si # sis) < length (ub # ubs) \<and> kv_find_slot ((ub # ubs) ! length (si # sis)) False kvT = Some slot_nil"
      using IH(6) by simp
    moreover have "\<exists>kv1. place_all (si # sis) (take (length (si # sis)) (ub # ubs)) kv0 = Some kv1 \<and> kv_wf kv1 \<and> same_cells kvT kv1"
      if kv0: "kv_wf kv0" "same_cells kv kv0" for kv0
    proof -
      obtain b' where "kv_apply_ubatch si ub kv0 = Some b'" "kv_wf b'" "same_cells kv' b'"
        using apply_same_cells [OF Cons.prems(1) kv0(1) Cons.prems(2) kv0(2) slot(1,2)] app by auto
      then show ?thesis using replay by auto
    qed
    moreover have "\<exists>kvR. for_opt restore_state (rev (prep_of kv si # sts)) kvB = Some kvR \<and> kv_wf kvR \<and> same_cells kv kvR
             \<and> (kv_n_stream kv = 1 \<and> prep_of kv si # sts \<noteq> [] \<longrightarrow> kvR = kv)"
      if kvB: "kv_wf kvB" "same_cells kvT kvB" for kvB
    proof -
      obtain kvR where R: "for_opt restore_state (rev sts) kvB = Some kvR" "kv_wf kvR" "same_cells kv' kvR"
        using restore kvB by blast
      obtain kvc where "restore_state (prep_of kv si) kvR = Some kvc" "kv_wf kvc" "same_cells kv kvc"
        "kv_n_stream kv = 1 \<longrightarrow> kvc = kv"
        using restore_undo [OF Cons.prems(1,2) slot(1,2) app R(2,3)] by blast
      then show ?thesis using R(1) by (simp add: for_opt_append)
    qed
    ultimately show ?thesis
      using IH(2,4) by (intro exI [of _ ok] exI [of _ kvT] exI [of _ "si # sis"] exI [of _ "prep_of kv si # sts"]) auto
  qed
qed

text \<open>
  C27: \<open>prepare\<close> (no window). Trying a batch always returns and undoes the trial: the cells are
  exactly as before, in a unified cache the whole state is. It gives up only at a ubatch for
  which \<open>find_slot\<close> finds no slot once the ones before it are placed; otherwise it returns one
  slot per ubatch, and placing the ubatches into these slots, one after the other, succeeds.
\<close>
theorem prepare_correct:
  assumes "kv_inv kv" "kv_swa_type kv = LLAMA_SWA_TYPE_NONE" "int (kv_n_swa kv) \<le> INT32_MAX"
    and "ubs \<noteq> []" "\<forall>ub \<in> set ubs. ub_ready kv ub"
  shows "\<exists>sinfos kv'. kv_prepare ubs kv = Some (sinfos, kv') \<and> kv_inv kv' \<and> same_cells kv kv'
    \<and> (kv_n_stream kv = 1 \<longrightarrow> kv' = kv)
    \<and> (if sinfos = []
       then \<exists>k sis kvk. k < length ubs \<and> place_all sis (take k ubs) kv = Some kvk
              \<and> kv_find_slot (ubs ! k) False kvk = Some slot_nil
       else length sinfos = length ubs \<and> (\<exists>kv''. place_all sinfos ubs kv' = Some kv'' \<and> kv_inv kv''))"
proof -
  have wf: "kv_wf kv" and own: "kv_other kv = None" using assms(1) by (simp_all add: kv_inv_def)
  obtain ok kvT sis sts where run: "for_ret prepare_step ubs (kv, [], []) = Some (ok, kvT, sis, sts)"
    and T: "kv_wf kvT" "kv_frame kv kvT" "length sts = length sis" "place_all sis (take (length sis) ubs) kv = Some kvT"
    and ok: "if ok then length sis = length ubs
       else length sis < length ubs \<and> kv_find_slot (ubs ! length sis) False kvT = Some slot_nil"
    and replay: "\<forall>kv0. kv_wf kv0 \<and> same_cells kv kv0 \<longrightarrow>
          (\<exists>kv1. place_all sis (take (length sis) ubs) kv0 = Some kv1 \<and> kv_wf kv1 \<and> same_cells kvT kv1)"
    and restore: "\<forall>kvB. kv_wf kvB \<and> same_cells kvT kvB \<longrightarrow>
          (\<exists>kvR. for_opt restore_state (rev sts) kvB = Some kvR \<and> kv_wf kvR \<and> same_cells kv kvR
             \<and> (kv_n_stream kv = 1 \<and> sts \<noteq> [] \<longrightarrow> kvR = kv))"
    using prepare_trial [OF wf own assms(2,3,5), of "[]" "[]"] by auto
  obtain kvR where R: "for_opt restore_state (rev sts) kvT = Some kvR" "kv_wf kvR" "same_cells kv kvR"
    "kv_n_stream kv = 1 \<and> sts \<noteq> [] \<longrightarrow> kvR = kv"
    using restore T(1) same_cells_refl by blast
  have nonempty: "ok \<Longrightarrow> sis \<noteq> [] \<and> sts \<noteq> []" using ok assms(4) T(3) by auto
  have prep: "kv_prepare ubs kv = Some (if ok then sis else [], kvR)"
    using nonempty by (simp add: kv_prepare_def run R(1))
  have inv: "kv_inv kvR" using R(2) own kv_frameD(3) [OF same_cellsD(2) [OF R(3)]] by (simp add: kv_inv_def)
  have whole: "kvR = kv" if "kv_n_stream kv = 1"
  proof (cases "sts = []")
    case True
    then have "kvT = kv" using T(3,4) by simp
    then show ?thesis using R(1) True by simp
  qed (use R(4) that in simp)
  show ?thesis
  proof (cases ok)
    case True
    then have len: "length sis = length ubs" using ok by simp
    obtain kv1 where kv1: "place_all sis ubs kvR = Some kv1" "kv_wf kv1" "same_cells kvT kv1"
      using replay R(2,3) len by auto
    have "kv_other kv1 = None"
      using own kv_frameD(3) [OF T(2)] kv_frameD(3) [OF same_cellsD(2) [OF kv1(3)]] by simp
    then show ?thesis
      using prep inv R(3) whole True len kv1 nonempty
      by (intro exI [of _ sis] exI [of _ kvR]) (auto simp: kv_inv_def)
  next
    case False
    then show ?thesis
      using prep inv R(3) whole ok T(4)
      by (intro exI [of _ "[]"] exI [of _ kvR]) auto
  qed
qed

lemma ub_one_ready: "kv_has_seq kv s \<Longrightarrow> s < LLAMA_MAX_SEQ \<Longrightarrow> 0 \<le> p \<Longrightarrow> p < INT32_MAX \<Longrightarrow> ub_ready kv (ub_one s p)"
  using ub_one_token [of p s kv] by (simp add: ub_ready_def)

theorem prepare_correct_witness:
  "\<exists>sinfos. kv_prepare [ub_one 1 3] kv_demo = Some (sinfos, kv_demo)"
proof -
  have "kv_swa_type kv_demo = LLAMA_SWA_TYPE_NONE" "int (kv_n_swa kv_demo) \<le> INT32_MAX"
    by (simp_all add: kv_demo_def INT32_MAX_def)
  moreover have "ub_ready kv_demo (ub_one 1 3)"
    by (rule ub_one_ready) (simp_all add: LLAMA_MAX_SEQ_def INT32_MAX_def)
  ultimately obtain sinfos kv' where "kv_prepare [ub_one 1 3] kv_demo = Some (sinfos, kv')" "kv_n_stream kv_demo = 1 \<longrightarrow> kv' = kv_demo"
    using prepare_correct [OF demo_inv(1), of "[ub_one 1 3]"] by auto
  then show ?thesis by auto
qed

subsection \<open>Where \<open>prepare\<close> does not restore the state\<close>

text \<open>
  C39: Heads. \<open>prepare\<close> saves the heads of all streams but restores the head of the stream of a
  slot with the head saved at the index of the slot's part, not of the stream. Trying one
  ubatch whose slot lies in the stream \<open>t\<close> alone leaves the head of \<open>t\<close> at what was the head
  of stream 0.
\<close>
theorem prepare_restores_wrong_head:
  assumes "kv_inv kv" "kv_swa_type kv = LLAMA_SWA_TYPE_NONE" "int (kv_n_swa kv) \<le> INT32_MAX"
    and "ub_ready kv ub" "kv_find_slot ub False kv = Some si" "si \<noteq> slot_nil" "si_strm si = [t]"
  shows "\<exists>kv'. kv_prepare [ub] kv = Some ([si], kv')
    \<and> kv_v_heads kv' = (kv_v_heads kv)[t := kv_v_heads kv ! 0]"
proof -
  have wf: "kv_wf kv" and own: "kv_other kv = None" using assms(1) by (simp_all add: kv_inv_def)
  note ok = find_slot_empty [OF wf assms(2-6)]
  have n: "si_n_stream si = 1" by (simp add: si_n_stream_def assms(7))
  obtain kva where app: "kv_apply_ubatch si ub kv = Some kva" and wfa: "kv_wf kva"
    and ha: "kv_v_heads kva = heads_after si (kv_v_heads kv)"
    using apply_plain [OF wf own ok(1,2)] by auto
  obtain h where ha': "kv_v_heads kva = (kv_v_heads kv)[t := h]"
    by (simp add: ha heads_after_def heads_fold_def n assms(7))
  obtain kvc where undo: "restore_state (prep_of kv si) kva = Some kvc"
    using restore_undo [OF wf own ok(1,2) app wfa same_cells_refl] by auto
  then have "kv_v_heads kvc = (kv_v_heads kv)[t := kv_v_heads kv ! 0]"
    by (auto simp: restore_state_def prep_of_def n restore_stream_def assms(7) ha' failure_simps)
  moreover have "prepare_step ub (kv, [], []) = Some (True, kva, [si], [prep_of kv si])"
    using assms(5) app ok(3) save_loop [OF wf ok(1,2), of "si_n_stream si"] by (simp add: prepare_step_def prep_of_def)
  ultimately show ?thesis
    using undo by (simp add: kv_prepare_def)
qed

definition kv_demo3 :: llama_kv_cache where
  "kv_demo3 = kv_demo2\<lparr>kv_v_heads := [0, 1]\<rparr>"

theorem prepare_restores_wrong_head_witness:
  "\<exists>si kva kv'. kv_find_slot (ub_one 1 6) False kv_demo3 = Some si
    \<and> kv_apply_ubatch si (ub_one 1 6) kv_demo3 = Some kva
    \<and> kv_prepare [ub_one 1 6] kv_demo3 = Some ([si], kv')
    \<and> kv_v_heads kv_demo3 = [0, 1] \<and> kv_v_heads kva = [0, 2] \<and> kv_v_heads kv' = [0, 0]"
proof -
  have len: "kv_length kv_demo2 = 2" by simp
  have wf: "kv_wf kv_demo3" and inv: "kv_inv kv_demo3"
    using kv_wf_heads [of kv_demo2 "[0, 1]"] demo_inv(2) by (simp_all add: kv_inv_def kv_demo3_def)
  have none: "kv_swa_type kv_demo3 = LLAMA_SWA_TYPE_NONE" "int (kv_n_swa kv_demo3) \<le> INT32_MAX"
    and heads: "kv_v_heads kv_demo3 = [0, 1]"
    by (simp_all add: kv_demo3_def kv_demo2_def INT32_MAX_def)
  have swa: "swa_ok (kv_n_swa kv_demo3) (kv_swa_type kv_demo3)" using none by (simp add: swa_ok_def)
  have has: "kv_has_seq kv_demo3 1"
    using demo_has_seq(2) [of 1] by (simp add: kv_demo3_def kv_has_seq_def)
  have ready: "ub_ready kv_demo3 (ub_one 1 6)"
    by (rule ub_one_ready [OF has]) (simp_all add: LLAMA_MAX_SEQ_def INT32_MAX_def)
  have shape: "ub_shape kv_demo3 (ub_one 1 6)" using ready by (simp add: ub_ready_def)
  have cells: "kv_cells kv_demo3 1 = kv_cells kv_demo2 1" by (simp add: kv_demo3_def kv_cells_def)
  have u: "usable kv_demo3 1 i \<longleftrightarrow> i = 1" if "i < 2" for i
    using that by (auto simp: usable_none [OF none(1)] cells [simplified] less_Suc_eq numeral_2_eq_2)
  have len3: "kv_length kv_demo3 = 2" and ns: "kv_n_stream kv_demo3 = 2" and st: "kv_stream kv_demo3 s = s" for s
    by (simp_all add: kv_demo3_def kv_length_def kv_stream_def) (simp add: kv_demo2_def)
  have head: "search_head kv_demo3 1 1 = 1"
    by (simp add: search_head_def heads)
  have ring: "rotate 1 [0..<2] = [1, 0 :: nat]" by code_simp
  have slot: "stream_slot kv_demo3 1 1 = Some [1]"
    by (simp add: stream_slot_def first_usable_def ring_from_rotate len3 head [simplified] ring [simplified] u [simplified] Let_def)
  obtain si where find: "kv_find_slot (ub_one 1 6) False kv_demo3 = Some si" and strm: "si_strm si = [1]" and idxs: "si_idxs si = [[1]]"
    using find_slot_eq [OF wf swa shape] slot by (auto simp: slot_seqs_def ns st)
  have ne: "si \<noteq> slot_nil" using strm by (auto simp: slot_nil_def)
  note ok = find_slot_empty [OF wf none ready find ne]
  obtain kva where app: "kv_apply_ubatch si (ub_one 1 6) kv_demo3 = Some kva"
    and ha: "kv_v_heads kva = heads_after si (kv_v_heads kv_demo3)"
    using apply_plain [OF wf _ ok(1,2)] inv by (auto simp: kv_inv_def)
  have "kv_v_heads kva = [0, 2]"
    by (simp add: ha heads heads_after_def heads_fold_def si_n_stream_def strm idxs)
  moreover obtain kv' where "kv_prepare [ub_one 1 6] kv_demo3 = Some ([si], kv')"
    "kv_v_heads kv' = (kv_v_heads kv_demo3)[1 := kv_v_heads kv_demo3 ! 0]"
    using prepare_restores_wrong_head [OF inv none ready find ne strm] by blast
  ultimately show ?thesis using find app heads by auto
qed

definition kv_swa_demo1 :: llama_kv_cache where
  "kv_swa_demo1 = kv_swa_demo\<lparr>kv_v_heads := [1]\<rparr>"

text \<open>
  C40: Window. When placing a ubatch overwrites a cell that has left the window, the positions
  below it are purged from cells outside the slot, and these are not restored: trying a token
  that reuses the cell of position 1 removes position 0 from the cache for good.
\<close>
theorem prepare_loses_purged_cells:
  "\<exists>kv sinfos kv'. kv_inv kv \<and> kv_positions kv 0 = {0, 1, 2}
    \<and> kv_prepare [ub_one 0 3] kv = Some (sinfos, kv') \<and> kv_positions kv' 0 = {1, 2}"
proof -
  let ?cs = "[demo_cell 0 {0}, demo_cell 1 {0}, demo_cell 2 {0}]"
  let ?kv = kv_swa_demo1 and ?ub = "ub_one 0 3"
  have wf: "kv_wf ?kv"
    using kv_wf_heads [of kv_swa_demo "[1]"] swa_demo_inv by (simp add: kv_inv_def kv_swa_demo1_def)
  have sel: "kv_n_stream ?kv = 1" "kv_other ?kv = None" "kv_cells ?kv 0 = ?cs" "kv_v_heads ?kv = [1]"
    "kv_n_swa ?kv = 2" "kv_swa_type ?kv = LLAMA_SWA_TYPE_STANDARD" "kv_length ?kv = 3" "kv_stream ?kv s = 0"
    "kv_hp ?kv = demo_hp" "kv_v_cells ?kv = [cells_repr False ?cs]" "kv_seq_to_stream ?kv = replicate LLAMA_MAX_SEQ 0" for s
    by (simp_all add: kv_swa_demo1_def kv_swa_demo_def kv_cells_def kv_length_def kv_stream_def)
  have swa: "swa_ok (kv_n_swa ?kv) (kv_swa_type ?kv)" by (simp add: sel swa_ok_def INT32_MAX_def)
  have has: "kv_has_seq ?kv 0" by (simp add: kv_has_seq_def sel LLAMA_MAX_SEQ_def)
  have ready: "ub_ready ?kv ?ub" by (rule ub_one_ready [OF has]) (simp_all add: LLAMA_MAX_SEQ_def INT32_MAX_def)
  have shape: "ub_shape ?kv ?ub" using ready by (simp add: ub_ready_def)
  have max: "pos_max_of ?cs 0 = 2" by (simp add: pos_max_of_def)
  have u: "usable ?kv 0 1" by (simp add: usable_def sel max swa_masked_def Let_def)
  have head: "search_head ?kv 1 0 = 1" by (simp add: search_head_def sel)
  have ring: "rotate 1 [0..<3] = [1, 2, 0 :: nat]" by code_simp
  have slot: "stream_slot ?kv 1 0 = Some [1]"
    using u by (simp add: stream_slot_def first_usable_def ring_from_rotate head [simplified] ring [simplified] sel Let_def)
  obtain si where find: "kv_find_slot ?ub False ?kv = Some si" and strm: "si_strm si = [0]" and idxs: "si_idxs si = [[1]]"
    using find_slot_eq [OF wf swa shape] slot by (auto simp: sel)
  have ne: "si \<noteq> slot_nil" using strm by (auto simp: slot_nil_def)
  have ok: "slot_ok ?kv si ?ub"
    by (rule find_slot_ok [OF wf swa shape _ find ne]) (use ready in \<open>simp add: ub_ready_def\<close>)
  have n: "si_n_stream si = 1" "slot_size si = 1" "si_empty si = False"
    by (simp_all add: si_n_stream_def slot_size_def si_empty_def strm idxs)
  have size: "si_size si = Some 1" by (simp add: si_size_def strm idxs)
  let ?y = "token_cell demo_hp ?ub 0 empty_cell"
  let ?cs1 = "[demo_cell 0 {0}, ?y, demo_cell 2 {0}]" and ?cs2 = "[empty_cell, ?y, demo_cell 2 {0}]"
  let ?kv1 = "?kv\<lparr>kv_v_cells := [cells_repr False ?cs1]\<rparr>"
  have tgt: "target_ok ?kv si ?ub 1 (0, 0)"
    using ok by (simp add: slot_ok_def n set_slot_pairs [symmetric] slot_pairs_def)
  have "place si ?ub 1 (0, 0) (?kv, \<lambda>_. -1) = (?kv1, (\<lambda>_. -1)(0 := 1))"
    by (simp add: place_def target_def strm idxs Let_def sel put_cell_def vacate_def note_rm_def)
  then have place: "place_token demo_hp si ?ub 1 0 0 (kv_v_cells ?kv, \<lambda>_. -1) = Some (kv_v_cells ?kv1, (\<lambda>_. -1)(0 := 1))"
    and wf1: "kv_wf ?kv1"
    using place_token_eq [OF wf tgt, of "\<lambda>_. -1"] sel(9) by simp_all
  have own1: "kv_other ?kv1 = None" and has1: "kv_has_seq ?kv1 0" and c1: "kv_cells ?kv1 0 = ?cs1" and st1: "kv_stream ?kv1 s = 0" for s
    by (simp_all add: sel kv_has_seq_def LLAMA_MAX_SEQ_def kv_cells_def kv_stream_def)
  have toks: "token_seqs ?ub 0 = {0}" "ub_pos ?ub ! 0 = 3" by (simp_all add: token_seqs_def)
  have rm_cells: "map (rm_cell 0 0 2) ?cs1 = ?cs2"
    by (simp add: rm_cell_def in_range_def pos_between_def drop_seq_def toks)
  obtain hs h where rm: "kv_seq_rm (int 0) 0 2 ?kv1 = Some (True, set_stream 0 (cells_repr hs ?cs2) h ?kv1)"
    and wf2: "kv_wf (set_stream 0 (cells_repr hs ?cs2) h ?kv1)"
    using kv_seq_rm_run [OF wf1 own1 has1, of 0 2] unfolding st1 c1 rm_cells by blast
  let ?kv2 = "set_stream 0 (cells_repr hs ?cs2) h ?kv1"
  have min: "cells_seq_pos_min 0 (cells_repr False ?cs1) = Some 0"
    using cells_seq_pos_min_repr [of 0 False ?cs1] by (simp add: pos_min_of_def toks LLAMA_MAX_SEQ_def)
  have first: "purge_step ((\<lambda>_. -1)(0 := 1)) 0 ?kv1 = Some ?kv2"
    using rm by (simp add: purge_step_def sel LLAMA_MAX_SEQ_def min INT32_MIN_def INT32_MAX_def)
  have rest: "for_opt (purge_step ((\<lambda>_. -1)(0 := 1))) is kv = Some kv" if "0 \<notin> set is" for "is" kv
    using that by (induction "is") (auto simp: purge_step_def)
  have "[0..<LLAMA_MAX_SEQ] = 0 # [1..<LLAMA_MAX_SEQ]" by (simp add: upt_conv_Cons LLAMA_MAX_SEQ_def del: upt_Suc)
  then have purge: "for_opt (purge_step ((\<lambda>_. -1)(0 := 1))) [0..<LLAMA_MAX_SEQ] ?kv1 = Some ?kv2"
    using first rest [of "[1..<LLAMA_MAX_SEQ]"] by simp
  let ?kv3 = "?kv2\<lparr>kv_v_heads := [2]\<rparr>"
  have heads2: "length (kv_v_heads ?kv2) = 1" by (simp add: sel)
  have app: "kv_apply_ubatch si ?ub ?kv = Some ?kv3"
    using place purge heads2
    by (simp add: kv_apply_ubatch_def sel size n move_head_def strm idxs list_update_nonempty)
  have cp: "cells_cp [1] (cells_repr False ?cs) = Some (cells_saved [demo_cell 1 {0}])"
    using cells_cp_repr [of "[1]" ?cs False] by simp
  have acells: "\<forall>x \<in> set ?cs2. acell_ok x"
    using kv_cells_repr(2) [OF wf2, of 0] by (simp add: kv_cells_set_stream sel cell_ok_def)
  have okd: "acell_ok (demo_cell 1 {0})"
    using kv_cells_repr(2) [OF wf, of 0] by (simp add: sel cell_ok_def)
  have set: "cells_set [1] (cells_saved [demo_cell 1 {0}]) (cells_repr hs ?cs2)
      = Some (cells_repr hs [empty_cell, demo_cell 1 {0}, demo_cell 2 {0}])"
  proof -
    have d: "(demo_cell 1 {0})\<lparr>a_shift := 0\<rparr> = demo_cell 1 {0}" by (simp add: demo_cell_def)
    have sh: "a_shift ?y = 0" by (simp add: token_cell_def)
    have res: "restore_cells [1] [demo_cell 1 {0}] ?cs2 = [empty_cell, demo_cell 1 {0}, demo_cell 2 {0}]"
      unfolding restore_cells_def by (simp add: d)
    have a: "\<forall>idx \<in> set [1]. idx < length ?cs2 \<and> a_shift (?cs2 ! idx) = 0" using sh by simp
    have b: "\<forall>y \<in> set [demo_cell 1 {0}]. acell_ok y" using okd by simp
    have l: "length [1 :: nat] = length [demo_cell 1 {0}]" by simp
    show ?thesis
      by (rule conjunct1 [OF cells_set_repr [OF acells l b a, of hs, unfolded res]])
  qed
  let ?kv4 = "set_stream 0 (cells_repr hs [empty_cell, demo_cell 1 {0}, demo_cell 2 {0}]) 1 ?kv3"
  have prep: "kv_prepare [?ub] ?kv = Some ([si], ?kv4)"
    using find app set
    by (simp add: kv_prepare_def prepare_step_def n sel save_cells_def strm idxs cp [simplified] restore_state_def restore_stream_def)
  have pos: "kv_positions ?kv4 0 = {1, 2}" "kv_positions ?kv 0 = {0, 1, 2}"
    by (simp_all add: kv_positions_def sel kv_stream_def kv_cells_def)
  have "kv_inv ?kv" using wf sel(2) by (simp add: kv_inv_def)
  then show ?thesis using prep pos by blast
qed

end
