(* ===== verification/KvMask.thy ===== *)
theory KvMask
  imports KvSlots
begin

section \<open>The inputs of attention that the KV cache computes\<close>

text \<open>
  Model of the \<open>set_input_*\<close> functions and \<open>get_prev_tokens\<close> of \<open>src/llama-kv-cache.cpp\<close>:
  the index tensors that say where the rows of K and V go, the shift tensor, and the KQ mask.
  A tensor is the list of its elements. The mask has the values \<open>0\<close>, \<open>-INFINITY\<close> and, with
  ALiBi, minus a distance; their conversion to \<open>float\<close> or \<open>ggml_fp16_t\<close> is left out.
  The mask is computed with a shortcut that copies the row of an earlier token of the same
  sequence and recomputes only some cells; the main theorem is that this gives the mask of the
  plain rule, which is stated per cell.
\<close>

subsection \<open>Indices\<close>

text \<open>
  The offset of a stream, \<open>sinfo.strm[s]*get_size()\<close>, and the index into the shift tensor are
  computed in \<open>uint32_t\<close>; the transposed layout of V is computed in \<open>int64_t\<close>.
\<close>

definition k_idx_row :: "nat \<Rightarrow> slot_info \<Rightarrow> nat \<Rightarrow> nat \<Rightarrow> nat \<Rightarrow> nat list \<Rightarrow> nat list option" where
  "k_idx_row kv_size si sz s i data = do {
     t \<leftarrow> nth_opt (si_strm si) s;
     idxs \<leftarrow> nth_opt (si_idxs si) s;
     idx \<leftarrow> nth_opt idxs i;
     put_opt data (s * sz + i) ((t * kv_size) mod 4294967296 + idx) }"

definition kv_set_input_k_idxs :: "llama_kv_cache \<Rightarrow> llama_ubatch \<Rightarrow> slot_info \<Rightarrow> nat list \<Rightarrow> nat list option" where
  "kv_set_input_k_idxs kv ub si data = do {
     sz \<leftarrow> si_size si;
     check (ub_n_tokens ub = sz * si_n_stream si);
     kv_size \<leftarrow> kv_get_size kv;
     for_opt (\<lambda>s. for_opt (k_idx_row kv_size si sz s) [0..<sz]) [0..<si_n_stream si] data }"

text \<open>\<open>n_embd\<close> is \<open>hparams.n_embd_v_gqa_max()\<close>, and \<open>v_trans\<close> the member of the cache.\<close>

definition v_idx_elem :: "nat \<Rightarrow> nat \<Rightarrow> slot_info \<Rightarrow> nat \<Rightarrow> nat \<Rightarrow> nat \<Rightarrow> nat \<Rightarrow> nat list \<Rightarrow> nat list option" where
  "v_idx_elem kv_size n_embd si sz s i j data = do {
     t \<leftarrow> nth_opt (si_strm si) s;
     idxs \<leftarrow> nth_opt (si_idxs si) s;
     idx \<leftarrow> nth_opt idxs i;
     put_opt data (s * sz * n_embd + i * n_embd + j) (t * kv_size * n_embd + j * kv_size + idx) }"

definition kv_set_input_v_idxs :: "bool \<Rightarrow> nat \<Rightarrow> llama_kv_cache \<Rightarrow> llama_ubatch \<Rightarrow> slot_info \<Rightarrow> nat list
    \<Rightarrow> nat list option" where
  "kv_set_input_v_idxs v_trans n_embd kv ub si data = do {
     sz \<leftarrow> si_size si;
     check (ub_n_tokens ub = sz * si_n_stream si);
     kv_size \<leftarrow> kv_get_size kv;
     (if \<not> v_trans
      then for_opt (\<lambda>s. for_opt (k_idx_row kv_size si sz s) [0..<sz]) [0..<si_n_stream si] data
      else for_opt (\<lambda>s. for_opt (\<lambda>i. for_opt (v_idx_elem kv_size n_embd si sz s i) [0..<n_embd]) [0..<sz])
             [0..<si_n_stream si] data) }"

definition k_shift_elem :: "llama_kv_cells \<Rightarrow> nat \<Rightarrow> nat \<Rightarrow> int list \<Rightarrow> int list option" where
  "k_shift_elem c s i data = do {
     e \<leftarrow> cells_is_empty i c;
     v \<leftarrow> (if e then Some 0 else cells_get_shift i c);
     put_opt data ((s * cells_size c + i) mod 4294967296) v }"

definition kv_set_input_k_shift :: "llama_kv_cache \<Rightarrow> int list \<Rightarrow> int list option" where
  "kv_set_input_k_shift kv data =
     for_opt (\<lambda>s data. do {
       c \<leftarrow> nth_opt (kv_v_cells kv) s;
       for_opt (k_shift_elem c s) [0..<cells_size c] data }) [0..<kv_n_stream kv] data"

subsection \<open>The KQ mask\<close>

datatype mask_val = MaskKeep | MaskDrop | MaskAlibi int

record kq_args =
  ka_non_causal_type :: llama_non_causal_type
  ka_ubatch :: llama_ubatch
  ka_v_cells :: "llama_kv_cells list"
  ka_seq_to_stream :: "nat list"
  ka_n_swa :: nat
  ka_swa_type :: llama_swa_type
  ka_n_kv :: nat
  ka_n_stream :: nat
  ka_n_tps :: nat

text \<open>The minimal position of each sequence in the ubatch.\<close>

definition seq_min_step :: "llama_ubatch \<Rightarrow> nat \<Rightarrow> llama_pos list \<Rightarrow> llama_pos list option" where
  "seq_min_step ub i mins = do {
     ids \<leftarrow> nth_opt (ub_seq_id ub) i;
     s \<leftarrow> nth_opt ids 0;
     m \<leftarrow> inth_opt mins s;
     p \<leftarrow> nth_opt (ub_pos ub) i;
     Some (mins[nat s := min m p]) }"

text \<open>
  A token that asks: its sequence and position, and its two further positions for M-RoPE.
  \<open>mask_hidden\<close> says whether the cell \<open>j\<close>, at position \<open>p0\<close>, is masked for it;
  \<open>pmin\<close> is \<open>seq_pos_min[seq_id]\<close>.
\<close>

record mask_query =
  mq_seq :: llama_seq_id
  mq_p1 :: llama_pos
  mq_p1_x :: llama_pos
  mq_p1_y :: llama_pos

definition mask_hidden :: "kq_args \<Rightarrow> bool \<Rightarrow> bool \<Rightarrow> bool \<Rightarrow> llama_pos \<Rightarrow> llama_kv_cells \<Rightarrow> mask_query \<Rightarrow> nat
    \<Rightarrow> llama_pos \<Rightarrow> bool option" where
  "mask_hidden a causal swa is_2d pmin c q j p0 = do {
     future \<leftarrow> (if \<not> causal then Some False
                else if p0 > mq_p1 q then Some True
                else if is_2d \<and> p0 = mq_p1 q then do {
                  e \<leftarrow> cells_ext_get j c;
                  Some (is_2d_gt e (mq_p1_x q) (mq_p1_y q)) }
                else Some False);
     if future then Some True
     else if swa then
       (let in_span = (\<not> causal \<and> ka_non_causal_type a = LLAMA_NON_CAUSAL_TYPE_SWA_FULL \<and> p0 \<ge> pmin)
        in if in_span then Some False
           else is_masked_swa (ka_n_swa a) (ka_swa_type a) p0 (mq_p1 q))
     else Some False }"

text \<open>
  One cell of a row; \<open>idst\<close> is the offset of the row. The state is the list of the cells whose
  mask may change for later tokens of the sequence, and the data.
\<close>

definition mask_cell :: "kq_args \<Rightarrow> bool \<Rightarrow> bool \<Rightarrow> bool \<Rightarrow> bool \<Rightarrow> llama_pos \<Rightarrow> llama_kv_cells \<Rightarrow> mask_query
    \<Rightarrow> bool \<Rightarrow> nat \<Rightarrow> nat \<Rightarrow> nat list \<times> mask_val list \<Rightarrow> (nat list \<times> mask_val list) option" where
  "mask_cell a causal swa is_2d alibi pmin c q prev idst j = (\<lambda>(idxs, data). do {
     e \<leftarrow> cells_is_empty j c;
     has \<leftarrow> (if e then Some False else cells_seq_has j (mq_seq q) c);
     if \<not> has then do { data \<leftarrow> put_opt data (idst + j) MaskDrop; Some (idxs, data) }
     else do {
       p0 \<leftarrow> cells_pos_get j c;
       idxs \<leftarrow> (if \<not> alibi \<and> \<not> prev then do {
            w \<leftarrow> i32 (p0 + u32_to_i32 ((ka_n_swa a + 32) mod 4294967296));
            Some (if w \<ge> pmin then idxs @ [j] else idxs) }
          else Some idxs);
       hidden \<leftarrow> mask_hidden a causal swa is_2d pmin c q j p0;
       v \<leftarrow> (if hidden then Some MaskDrop
             else if alibi then do { d \<leftarrow> i32 (p0 - mq_p1 q); Some (MaskAlibi (- \<bar>d\<bar>)) }
             else Some MaskKeep);
       data \<leftarrow> put_opt data (idst + j) v;
       Some (idxs, data) } })"

definition copy_row :: "nat \<Rightarrow> nat \<Rightarrow> nat \<Rightarrow> 'a list \<Rightarrow> 'a list option" where
  "copy_row n src dst data = do {
     check (src + n \<le> length data \<and> dst + n \<le> length data);
     Some (take dst data @ take n (drop src data) @ drop (dst + n) data) }"

text \<open>
  One token. \<open>seq_srct\<close> maps a sequence to its first token in the stream, \<open>seq_idxs\<close> to its
  recorded cells. A row that was copied is updated at the recorded cells only; the loop stops
  after \<open>n_kv\<close> of them.
\<close>

type_synonym mask_state = "(llama_seq_id \<Rightarrow> nat option) \<times> (llama_seq_id \<Rightarrow> nat list) \<times> mask_val list"

definition mask_token :: "kq_args \<Rightarrow> bool \<Rightarrow> bool \<Rightarrow> bool \<Rightarrow> bool \<Rightarrow> llama_pos list \<Rightarrow> nat \<Rightarrow> nat
    \<Rightarrow> mask_state \<Rightarrow> mask_state option" where
  "mask_token a causal swa is_2d alibi mins s ii = (\<lambda>(srct, seq_idxs, data).
     let i = s * ka_n_tps a + ii; ub = ka_ubatch a; n_kv = ka_n_kv a; idst = n_kv * i in do {
       ids \<leftarrow> nth_opt (ub_seq_id ub) i;
       seq_id \<leftarrow> nth_opt ids 0;
       t \<leftarrow> inth_opt (ka_seq_to_stream a) seq_id;
       c \<leftarrow> nth_opt (ka_v_cells a) t;
       pmin \<leftarrow> inth_opt mins seq_id;
       p1 \<leftarrow> nth_opt (ub_pos ub) i;
       p1_x \<leftarrow> (if is_2d then nth_opt (ub_pos ub) (i + ub_n_tokens ub * 2) else Some 0);
       p1_y \<leftarrow> (if is_2d then nth_opt (ub_pos ub) (i + ub_n_tokens ub) else Some 0);
       (let q = \<lparr>mq_seq = seq_id, mq_p1 = p1, mq_p1_x = p1_x, mq_p1_y = p1_y\<rparr> in do {
        (prev, srct, idxs, data) \<leftarrow>
          (if alibi then Some (False, srct, seq_idxs seq_id, data)
           else (case srct seq_id of
               Some r \<Rightarrow> do { data \<leftarrow> copy_row n_kv (n_kv * r) idst data; Some (True, srct, seq_idxs seq_id, data) }
             | None \<Rightarrow> Some (False, srct(seq_id := Some i), [], data)));
        (idxs, data) \<leftarrow> for_opt (mask_cell a causal swa is_2d alibi pmin c q prev idst)
           (if prev then take n_kv idxs else [0..<n_kv]) (idxs, data);
        Some (srct, seq_idxs(seq_id := idxs), data) }) })"

definition kq_mask_impl :: "kq_args \<Rightarrow> bool \<Rightarrow> bool \<Rightarrow> bool \<Rightarrow> bool \<Rightarrow> mask_val list \<Rightarrow> mask_val list option" where
  "kq_mask_impl a causal swa is_2d alibi data = do {
     mins \<leftarrow> for_opt (seq_min_step (ka_ubatch a)) [0..<ub_n_tokens (ka_ubatch a)] (replicate LLAMA_MAX_SEQ INT32_MAX);
     for_opt (\<lambda>s data. do {
       (_, _, data) \<leftarrow> for_opt (mask_token a causal swa is_2d alibi mins s) [0..<ka_n_tps a]
          (\<lambda>_. None, \<lambda>_. [], data);
       Some data }) [0..<ka_n_stream a] data }"

text \<open>
  The instances of the template, chosen by the run-time values; \<open>n_kv\<close> and \<open>n_stream\<close> are the
  dimensions \<open>ne[0]\<close> and \<open>ne[3]\<close> of the destination.
\<close>

definition kv_set_input_kq_mask :: "llama_kv_cache \<Rightarrow> llama_ubatch \<Rightarrow> bool \<Rightarrow> nat \<Rightarrow> nat \<Rightarrow> mask_val list
    \<Rightarrow> mask_val list option" where
  "kv_set_input_kq_mask kv ub causal_attn n_kv n_stream data = do {
     check (n_stream \<noteq> 0);
     check (ub_n_tokens ub mod n_stream = 0);
     (let n_tps = ub_n_tokens ub div n_stream;
          causal_attn = (if \<not> causal_attn \<and> hp_non_causal_type (kv_hp kv) = LLAMA_NON_CAUSAL_TYPE_SWA_ONLY
                         then kv_swa_type kv = LLAMA_SWA_TYPE_NONE else causal_attn);
          args = \<lparr>ka_non_causal_type = hp_non_causal_type (kv_hp kv), ka_ubatch = ub, ka_v_cells = kv_v_cells kv,
                  ka_seq_to_stream = kv_seq_to_stream kv, ka_n_swa = kv_n_swa kv, ka_swa_type = kv_swa_type kv,
                  ka_n_kv = n_kv, ka_n_stream = n_stream, ka_n_tps = n_tps\<rparr>
      in kq_mask_impl args causal_attn (kv_swa_type kv \<noteq> LLAMA_SWA_TYPE_NONE) (is_pos_2d ub)
           (hp_use_alibi (kv_hp kv)) data) }"

subsection \<open>The tokens before a token\<close>

text \<open>The first loop: \<open>ord\<close> counts the earlier tokens of the same sequence, \<open>seq_idx\<close> lists them.\<close>

definition order_step :: "llama_ubatch \<Rightarrow> nat \<Rightarrow> nat list \<times> (llama_seq_id \<Rightarrow> nat list)
    \<Rightarrow> (nat list \<times> (llama_seq_id \<Rightarrow> nat list)) option" where
  "order_step ub i = (\<lambda>(ord, seq_idx). do {
     ids \<leftarrow> nth_opt (ub_seq_id ub) i;
     s \<leftarrow> nth_opt ids 0;
     Some (ord @ [length (seq_idx s)], seq_idx(s := seq_idx s @ [i])) })"

definition prev_pos :: "llama_ubatch \<Rightarrow> bool \<Rightarrow> nat list \<Rightarrow> (llama_seq_id \<Rightarrow> nat list) \<Rightarrow> llama_seq_id \<Rightarrow> nat \<Rightarrow> llama_pos
    \<Rightarrow> llama_pos option" where
  "prev_pos ub by_order ord seq_idx s i d =
     (if by_order then do {
        o_i \<leftarrow> nth_opt ord i;
        (let k = int o_i - d in
         if k \<ge> 0 then do { m \<leftarrow> nth_opt (seq_idx s) (nat k); nth_opt (ub_pos ub) m }
         else do { m \<leftarrow> nth_opt (seq_idx s) 0; p \<leftarrow> nth_opt (ub_pos ub) m; i32 (p + k) }) }
      else do { p \<leftarrow> nth_opt (ub_pos ub) i; i32 (p - d) })"

definition prev_token :: "llama_kv_cache \<Rightarrow> llama_ubatch \<Rightarrow> bool \<Rightarrow> nat list \<Rightarrow> (llama_seq_id \<Rightarrow> nat list) \<Rightarrow> nat \<Rightarrow> nat \<Rightarrow> nat
    \<Rightarrow> llama_token list \<Rightarrow> llama_token list option" where
  "prev_token kv ub by_order ord seq_idx n i j res = do {
     ids \<leftarrow> nth_opt (ub_seq_id ub) i;
     s \<leftarrow> nth_opt ids 0;
     p \<leftarrow> prev_pos ub by_order ord seq_idx s i (int (n - j));
     if p < 0 then Some res
     else do {
       t \<leftarrow> inth_opt (kv_seq_to_stream kv) s;
       c \<leftarrow> nth_opt (kv_v_cells kv) t;
       tok \<leftarrow> cells_seq_pos_tok_le s p c;
       put_opt res (i * n + j) tok } }"

definition kv_get_prev_tokens :: "llama_kv_cache \<Rightarrow> llama_ubatch \<Rightarrow> nat \<Rightarrow> llama_token list option" where
  "kv_get_prev_tokens kv ub n =
     (let n_tokens = ub_n_tokens ub; res = replicate (n_tokens * n) LLAMA_TOKEN_NULL;
          by_order = (ub_token ub = None \<or> ub_is_mixed ub) in
      if n = 0 then Some res
      else do {
        (ord, seq_idx) \<leftarrow> (if by_order then for_opt (order_step ub) [0..<n_tokens] ([], \<lambda>_. [])
                          else Some ([], \<lambda>_. []));
        for_opt (\<lambda>i. for_opt (prev_token kv ub by_order ord seq_idx n i) [0..<n]) [0..<n_tokens] res })"

subsection \<open>Loops that write\<close>

lemma for_opt_writes:
  assumes "\<And>i d. i \<in> set is \<Longrightarrow> length d = length data \<Longrightarrow> body i d = Some (d[pos i := val i])"
    and "inj_on pos (set is)" and "\<forall>i \<in> set is. pos i < length data"
  shows "\<exists>d. for_opt body is data = Some d \<and> length d = length data
    \<and> (\<forall>i \<in> set is. d ! pos i = val i) \<and> (\<forall>k. k \<notin> pos ` set is \<longrightarrow> d ! k = data ! k)"
  using assms
proof (induction "is" arbitrary: data)
  case Nil
  then show ?case by simp
next
  case (Cons i "is")
  let ?d = "data[pos i := val i]"
  obtain d where d: "for_opt body is ?d = Some d" "length d = length data"
    "\<forall>i \<in> set is. d ! pos i = val i" "\<forall>k. k \<notin> pos ` set is \<longrightarrow> d ! k = ?d ! k"
    using Cons.IH [of ?d] Cons.prems by (auto simp: inj_on_insert)
  have i: "pos i < length data" using Cons.prems(3) by simp
  have "d ! pos i = val i"
  proof (cases "i \<in> set is")
    case True
    then show ?thesis using d(3) by simp
  next
    case False
    then have "pos i \<notin> pos ` set is" using Cons.prems(2) by auto
    then show ?thesis using d(4) i by simp
  qed
  then have "\<forall>j \<in> set (i # is). d ! pos j = val j" using d(3) by simp
  moreover have "\<forall>k. k \<notin> pos ` set (i # is) \<longrightarrow> d ! k = data ! k" using d(4) by simp
  moreover have "body i data = Some ?d" using Cons.prems(1) [of i data] by simp
  ultimately show ?case using d(1,2) by simp
qed

lemma for_opt_nested3:
  "for_opt (\<lambda>i. for_opt (\<lambda>j. for_opt (g i j) ks) js) is s = for_opt (\<lambda>((i, j), k). g i j k)
     (concat (map (\<lambda>p. map (Pair p) ks) (concat (map (\<lambda>i. map (Pair i) js) is)))) s"
  using for_opt_nested [of "\<lambda>i j. for_opt (g i j) ks" "\<lambda>_. js" "is" s]
    for_opt_nested [of "\<lambda>p. g (fst p) (snd p)" "\<lambda>_. ks" "concat (map (\<lambda>i. map (Pair i) js) is)" s]
  by (simp add: split_def)

lemma set_pairs: "set (concat (map (\<lambda>i. map (Pair i) (xs i)) is)) = {(i, x). i \<in> set is \<and> x \<in> set (xs i)}"
  by auto

text \<open>Row-major numbering of pairs.\<close>

lemma row_major_div: "i < n \<Longrightarrow> (a * n + i) div n = (a :: nat) \<and> (a * n + i) mod n = i"
  by simp

lemma row_major_inj:
  assumes "i < (n :: nat)" "j < n"
  shows "a * n + i = b * n + j \<longleftrightarrow> a = b \<and> i = j"
proof
  assume eq: "a * n + i = b * n + j"
  show "a = b \<and> i = j"
    using row_major_div [OF assms(1), of a] row_major_div [OF assms(2), of b] unfolding eq by simp
qed simp

lemma row_major_less: "a < m \<Longrightarrow> i < n \<Longrightarrow> a * n + i < m * (n::nat)"
proof -
  assume "a < m" "i < n"
  then have "a * n + i < Suc a * n" "Suc a * n \<le> m * n" by (simp, intro mult_le_mono1, simp)
  then show ?thesis by linarith
qed

lemma kv_get_size_run: "kv_wf kv \<Longrightarrow> kv_get_size kv = Some (kv_length kv)"
proof -
  assume wf: "kv_wf kv"
  have s: "kv_has_seq kv 0" using kv_wfD(1) [OF wf] by (simp add: kv_has_seq_def LLAMA_MAX_SEQ_def)
  note l = kv_lookup(1,2) [OF wf s]
  have "nth_opt (kv_seq_to_stream kv) 0 = Some (kv_stream kv 0)" using l(1) by (simp add: inth_opt_def)
  then show ?thesis
    using kv_stream_get(1) [OF wf l(2)] kv_wfD(7) [OF wf l(2)] by (simp add: kv_get_size_def)
qed

subsection \<open>Where the rows of K and V go\<close>

lemma slot_ok_size:
  assumes "slot_ok kv si ub"
  shows "si_size si = Some (slot_size si)" "ub_n_tokens ub = slot_size si * si_n_stream si"
proof -
  have "si_idxs si \<noteq> []" "length (si_idxs si) = length (si_strm si)" using assms by (auto simp: slot_ok_def)
  then show "si_size si = Some (slot_size si)" by (simp add: si_size_def slot_size_def)
  show "ub_n_tokens ub = slot_size si * si_n_stream si" using assms by (simp add: slot_ok_def mult.commute)
qed

lemma slot_ok_target:
  assumes "slot_ok kv si ub" "s < si_n_stream si" "i < slot_size si"
  shows "nth_opt (si_strm si) s = Some (si_strm si ! s)" "nth_opt (si_idxs si) s = Some (si_idxs si ! s)"
    "nth_opt (si_idxs si ! s) i = Some (si_idxs si ! s ! i)"
    "si_strm si ! s < kv_n_stream kv" "si_idxs si ! s ! i < kv_length kv"
proof -
  have "(s, i) \<in> set (slot_pairs si (slot_size si))" using assms(2,3) by (simp add: set_slot_pairs)
  then have "target_ok kv si ub (slot_size si) (s, i)" using assms(1) by (auto simp: slot_ok_def)
  then show "nth_opt (si_strm si) s = Some (si_strm si ! s)" "nth_opt (si_idxs si) s = Some (si_idxs si ! s)"
    "nth_opt (si_idxs si ! s) i = Some (si_idxs si ! s ! i)"
    "si_strm si ! s < kv_n_stream kv" "si_idxs si ! s ! i < kv_length kv"
    by (simp_all add: target_ok_def)
qed

lemma slot_target_inj:
  assumes "slot_ok kv si ub" "s < si_n_stream si" "i < slot_size si" "s' < si_n_stream si" "i' < slot_size si"
    and "si_strm si ! s = si_strm si ! s'" "si_idxs si ! s ! i = si_idxs si ! s' ! i'"
  shows "s = s' \<and> i = i'"
proof -
  have s: "s = s'"
    using assms by (simp add: slot_ok_def si_n_stream_def nth_eq_iff_index_eq)
  have "si_idxs si ! s \<in> set (si_idxs si)" using assms(1,2) by (simp add: slot_ok_def si_n_stream_def)
  then have "distinct (si_idxs si ! s)" "length (si_idxs si ! s) = slot_size si"
    using assms(1) by (simp_all add: slot_ok_def)
  then have "i = i'" using assms(3,5,7) s by (simp add: nth_eq_iff_index_eq)
  then show ?thesis using s by simp
qed

text \<open>The flat row of a cell in the K tensor.\<close>

definition k_row :: "nat \<Rightarrow> slot_info \<Rightarrow> nat \<times> nat \<Rightarrow> nat" where
  "k_row len si = (\<lambda>(s, i). si_strm si ! s * len + si_idxs si ! s ! i)"

lemma k_idxs_loop:
  assumes ok: "slot_ok kv si ub" and fit: "kv_n_stream kv * kv_length kv \<le> 4294967296"
    and len: "length data = ub_n_tokens ub"
  shows "\<exists>d. for_opt (\<lambda>s. for_opt (k_idx_row (kv_length kv) si (slot_size si) s) [0..<slot_size si]) [0..<si_n_stream si] data = Some d
    \<and> length d = ub_n_tokens ub
    \<and> (\<forall>s < si_n_stream si. \<forall>i < slot_size si. d ! (s * slot_size si + i) = k_row (kv_length kv) si (s, i))"
proof -
  let ?sz = "slot_size si" and ?n = "si_n_stream si" and ?L = "kv_length kv"
  let ?ps = "concat (map (\<lambda>s. map (Pair s) [0..<?sz]) [0..<?n])"
  let ?pos = "\<lambda>(s, i). s * ?sz + i"
  have ps: "set ?ps = {(s, i). s < ?n \<and> i < ?sz}" unfolding set_pairs by auto
  have body: "(case p of (s, i) \<Rightarrow> k_idx_row ?L si ?sz s i) d = Some (d[?pos p := k_row ?L si p])"
    if "p \<in> set ?ps" "length d = length data" for p d
  proof -
    obtain s i where p1: "p = (s, i)" by fastforce
    then have p: "p = (s, i)" "s < ?n" "i < ?sz" using that(1) unfolding ps by simp_all
    note t = slot_ok_target [OF ok p(2,3)]
    have "si_strm si ! s * ?L < kv_n_stream kv * ?L" using t(4,5) by simp
    then have "(si_strm si ! s * ?L) mod 4294967296 = si_strm si ! s * ?L"
      by (rule mod_less [OF less_le_trans [OF _ fit]])
    moreover have "s * ?sz + i < length d"
      using row_major_less [OF p(2,3)] that(2) len slot_ok_size(2) [OF ok] by (simp add: mult.commute)
    ultimately show ?thesis by (simp add: p(1) k_idx_row_def t k_row_def)
  qed
  have inj: "inj_on ?pos (set ?ps)"
    unfolding ps by (auto simp: inj_on_def row_major_inj)
  have rng: "\<forall>p \<in> set ?ps. ?pos p < length data"
    unfolding ps using row_major_less len slot_ok_size(2) [OF ok] by (auto simp: mult.commute)
  obtain d where d: "for_opt (\<lambda>(s, i). k_idx_row ?L si ?sz s i) ?ps data = Some d" "length d = length data"
    "\<forall>p \<in> set ?ps. d ! ?pos p = k_row ?L si p"
    using for_opt_writes [of ?ps data "\<lambda>(s, i). k_idx_row ?L si ?sz s i" ?pos "k_row ?L si", OF body inj rng] by blast
  have "d ! (s * ?sz + i) = k_row ?L si (s, i)" if "s < ?n" "i < ?sz" for s i
    using bspec [OF d(3), of "(s, i)"] that unfolding ps by simp
  then show ?thesis using d(1,2) len by (simp add: for_opt_nested)
qed

text \<open>The transposed V tensor: the row of element \<open>j\<close> of a stream holds one entry per cell.\<close>

definition v_elem :: "nat \<Rightarrow> nat \<Rightarrow> slot_info \<Rightarrow> nat \<times> nat \<times> nat \<Rightarrow> nat" where
  "v_elem len n_embd si = (\<lambda>(s, i, j). (si_strm si ! s * n_embd + j) * len + si_idxs si ! s ! i)"

lemma v_idxs_loop:
  assumes ok: "slot_ok kv si ub" and len: "length data = ub_n_tokens ub * n_embd"
  shows "\<exists>d. for_opt (\<lambda>s. for_opt (\<lambda>i. for_opt (v_idx_elem (kv_length kv) n_embd si (slot_size si) s i) [0..<n_embd]) [0..<slot_size si])
      [0..<si_n_stream si] data = Some d
    \<and> length d = ub_n_tokens ub * n_embd
    \<and> (\<forall>s < si_n_stream si. \<forall>i < slot_size si. \<forall>j < n_embd.
         d ! ((s * slot_size si + i) * n_embd + j) = v_elem (kv_length kv) n_embd si (s, i, j))"
proof -
  let ?sz = "slot_size si" and ?n = "si_n_stream si" and ?L = "kv_length kv"
  let ?pairs = "concat (map (\<lambda>s. map (Pair s) [0..<?sz]) [0..<?n])"
  let ?ps = "concat (map (\<lambda>p. map (Pair p) [0..<n_embd]) ?pairs)"
  let ?pos = "\<lambda>((s, i), j). (s * ?sz + i) * n_embd + j"
  let ?body = "\<lambda>((s, i), j). v_idx_elem ?L n_embd si ?sz s i j"
  let ?val = "\<lambda>((s, i), j). v_elem ?L n_embd si (s, i, j)"
  have ps: "set ?ps = {((s, i), j). s < ?n \<and> i < ?sz \<and> j < n_embd}" unfolding set_pairs by auto
  have pos: "(s * ?sz + i) * n_embd + j < length data" if "s < ?n" "i < ?sz" "j < n_embd" for s i j
    using row_major_less [OF row_major_less [OF that(1,2)] that(3)] len slot_ok_size(2) [OF ok] by (simp add: mult.commute)
  have body: "?body p d = Some (d[?pos p := ?val p])" if "p \<in> set ?ps" "length d = length data" for p d
  proof -
    obtain s i j where p1: "p = ((s, i), j)" by (metis surj_pair)
    then have p: "p = ((s, i), j)" "s < ?n" "i < ?sz" "j < n_embd" using that(1) unfolding ps by simp_all
    have idx: "s * ?sz * n_embd + i * n_embd + j = (s * ?sz + i) * n_embd + j" by (simp add: algebra_simps)
    have val: "si_strm si ! s * ?L * n_embd + j * ?L + si_idxs si ! s ! i = v_elem ?L n_embd si (s, i, j)"
      by (simp add: v_elem_def algebra_simps)
    show ?thesis
      unfolding p(1) by (simp add: v_idx_elem_def slot_ok_target(1-3) [OF ok p(2,3)] idx val pos [OF p(2-4)] that(2))
  qed
  have inj: "inj_on ?pos (set ?ps)"
    unfolding ps by (auto simp: inj_on_def row_major_inj)
  have rng: "\<forall>p \<in> set ?ps. ?pos p < length data"
    unfolding ps using pos by auto
  obtain d where d: "for_opt ?body ?ps data = Some d" "length d = length data" "\<forall>p \<in> set ?ps. d ! ?pos p = ?val p"
    using for_opt_writes [of ?ps data ?body ?pos ?val, OF body inj rng] by blast
  have "d ! ((s * ?sz + i) * n_embd + j) = v_elem ?L n_embd si (s, i, j)" if "s < ?n" "i < ?sz" "j < n_embd" for s i j
    using bspec [OF d(3), of "((s, i), j)"] that unfolding ps by simp
  then show ?thesis using d(1,2) len by (simp add: for_opt_nested3)
qed

lemma distinct_by_pos:
  assumes "length xs = n" "\<And>i j. i < n \<Longrightarrow> j < n \<Longrightarrow> xs ! i = xs ! j \<Longrightarrow> i = j"
  shows "distinct xs"
  using assms by (auto simp: distinct_conv_nth)

lemma k_row_bound:
  assumes "slot_ok kv si ub" "s < si_n_stream si" "i < slot_size si"
  shows "k_row (kv_length kv) si (s, i) < kv_n_stream kv * kv_length kv"
  using slot_ok_target(4,5) [OF assms] row_major_less by (simp add: k_row_def)

lemma v_elem_bound:
  assumes "slot_ok kv si ub" "s < si_n_stream si" "i < slot_size si" "j < n_embd"
  shows "v_elem (kv_length kv) n_embd si (s, i, j) < kv_n_stream kv * n_embd * kv_length kv"
  using slot_ok_target(4,5) [OF assms(1-3)] assms(4) row_major_less by (simp add: v_elem_def)

lemma row_major_split:
  assumes "m < a * (n :: nat)"
  obtains s i where "m = s * n + i" "s < a" "i < n"
proof -
  have n: "0 < n" using assms by (cases n) simp_all
  show thesis
    by (rule that [of "m div n" "m mod n"]) (use n assms in \<open>simp_all add: less_mult_imp_div_less\<close>)
qed

text \<open>
  C29: Where a ubatch goes. \<open>set_input_k_idxs\<close> and \<open>set_input_v_idxs\<close> give every token (for the
  transposed V, every element of every token) a row of its own inside the cache tensor: row
  \<open>cell\<close> of its stream, and for element \<open>j\<close> of the transposed V the column \<open>cell\<close> of row \<open>j\<close>.
  No two are the same, so no token overwrites another one.
\<close>
theorem kv_idxs_correct:
  assumes "kv_inv kv" "slot_ok kv si ub" "kv_n_stream kv * kv_length kv \<le> 4294967296"
    and "length kd = ub_n_tokens ub" "length vd = ub_n_tokens ub * n_embd"
  shows "\<exists>k v. kv_set_input_k_idxs kv ub si kd = Some k
    \<and> kv_set_input_v_idxs False n_embd kv ub si kd = Some k
    \<and> kv_set_input_v_idxs True n_embd kv ub si vd = Some v
    \<and> distinct k \<and> set k \<subseteq> {..<kv_n_stream kv * kv_length kv}
    \<and> distinct v \<and> set v \<subseteq> {..<kv_n_stream kv * n_embd * kv_length kv}
    \<and> (\<forall>s < si_n_stream si. \<forall>i < slot_size si.
         k ! (s * slot_size si + i) = si_strm si ! s * kv_length kv + si_idxs si ! s ! i
       \<and> (\<forall>j < n_embd. v ! ((s * slot_size si + i) * n_embd + j)
            = (si_strm si ! s * n_embd + j) * kv_length kv + si_idxs si ! s ! i))"
proof -
  let ?sz = "slot_size si" and ?n = "si_n_stream si" and ?L = "kv_length kv"
  have wf: "kv_wf kv" using assms(1) by (simp add: kv_inv_def)
  note ok = assms(2) and size = slot_ok_size [OF assms(2)]
  obtain k where k: "for_opt (\<lambda>s. for_opt (k_idx_row ?L si ?sz s) [0..<?sz]) [0..<?n] kd = Some k"
    "length k = ub_n_tokens ub" "\<forall>s < ?n. \<forall>i < ?sz. k ! (s * ?sz + i) = k_row ?L si (s, i)"
    using k_idxs_loop [OF ok assms(3,4)] by blast
  obtain v where v: "for_opt (\<lambda>s. for_opt (\<lambda>i. for_opt (v_idx_elem ?L n_embd si ?sz s i) [0..<n_embd]) [0..<?sz]) [0..<?n] vd = Some v"
    "length v = ub_n_tokens ub * n_embd"
    "\<forall>s < ?n. \<forall>i < ?sz. \<forall>j < n_embd. v ! ((s * ?sz + i) * n_embd + j) = v_elem ?L n_embd si (s, i, j)"
    using v_idxs_loop [OF ok assms(5)] by blast
  have run: "kv_set_input_k_idxs kv ub si kd = Some k" "kv_set_input_v_idxs False n_embd kv ub si kd = Some k"
    "kv_set_input_v_idxs True n_embd kv ub si vd = Some v"
    using k(1) v(1) by (simp_all add: kv_set_input_k_idxs_def kv_set_input_v_idxs_def size kv_get_size_run [OF wf])
  have lk: "length k = ?n * ?sz" and lv: "length v = ?n * ?sz * n_embd"
    using k(2) v(2) size(2) by (simp_all add: mult.commute)
  have dk: "distinct k"
  proof (rule distinct_by_pos [OF lk])
    fix a b
    assume ab: "a < ?n * ?sz" "b < ?n * ?sz" "k ! a = k ! b"
    obtain s i where a: "a = s * ?sz + i" "s < ?n" "i < ?sz" by (rule row_major_split [OF ab(1)])
    obtain s' i' where b: "b = s' * ?sz + i'" "s' < ?n" "i' < ?sz" by (rule row_major_split [OF ab(2)])
    have "k_row ?L si (s, i) = k_row ?L si (s', i')" using ab(3) k(3) a b by simp
    then have "si_strm si ! s = si_strm si ! s' \<and> si_idxs si ! s ! i = si_idxs si ! s' ! i'"
      using slot_ok_target(5) [OF ok a(2,3)] slot_ok_target(5) [OF ok b(2,3)] by (simp add: k_row_def row_major_inj)
    then show "a = b" using slot_target_inj [OF ok a(2,3) b(2,3)] a(1) b(1) by simp
  qed
  have dv: "distinct v"
  proof (rule distinct_by_pos [OF lv])
    fix a b
    assume ab: "a < ?n * ?sz * n_embd" "b < ?n * ?sz * n_embd" "v ! a = v ! b"
    obtain m j where m: "a = m * n_embd + j" "m < ?n * ?sz" "j < n_embd" by (rule row_major_split [OF ab(1)])
    obtain m' j' where m': "b = m' * n_embd + j'" "m' < ?n * ?sz" "j' < n_embd" by (rule row_major_split [OF ab(2)])
    obtain s i where a: "m = s * ?sz + i" "s < ?n" "i < ?sz" by (rule row_major_split [OF m(2)])
    obtain s' i' where b: "m' = s' * ?sz + i'" "s' < ?n" "i' < ?sz" by (rule row_major_split [OF m'(2)])
    have "v_elem ?L n_embd si (s, i, j) = v_elem ?L n_embd si (s', i', j')" using ab(3) v(3) a b m m' by simp
    then have "(si_strm si ! s = si_strm si ! s' \<and> j = j') \<and> si_idxs si ! s ! i = si_idxs si ! s' ! i'"
      using slot_ok_target(5) [OF ok a(2,3)] slot_ok_target(5) [OF ok b(2,3)] m(3) m'(3)
      by (simp add: v_elem_def row_major_inj)
    then show "a = b" using slot_target_inj [OF ok a(2,3) b(2,3)] a(1) b(1) m(1) m'(1) by simp
  qed
  have sk: "x < kv_n_stream kv * ?L" if x: "x \<in> set k" for x
  proof -
    obtain a where "a < length k" "k ! a = x" using x unfolding in_set_conv_nth by blast
    then have a: "a < ?n * ?sz" "x = k ! a" by (simp_all only: lk)
    obtain s i where "a = s * ?sz + i" "s < ?n" "i < ?sz" by (rule row_major_split [OF a(1)])
    then show ?thesis using k(3) k_row_bound [OF ok] a(2) by simp
  qed
  have sv: "x < kv_n_stream kv * n_embd * ?L" if x: "x \<in> set v" for x
  proof -
    obtain a where "a < length v" "v ! a = x" using x unfolding in_set_conv_nth by blast
    then have a: "a < ?n * ?sz * n_embd" "x = v ! a" by (simp_all only: lv)
    obtain m j where m: "a = m * n_embd + j" "m < ?n * ?sz" "j < n_embd" by (rule row_major_split [OF a(1)])
    obtain s i where "m = s * ?sz + i" "s < ?n" "i < ?sz" by (rule row_major_split [OF m(2)])
    then show ?thesis using v(3) v_elem_bound [OF ok] a(2) m by simp
  qed
  show ?thesis
    using run dk dv sk sv k(3) v(3) by (intro exI [of _ k] exI [of _ v]) (auto simp: k_row_def v_elem_def)
qed

theorem kv_idxs_correct_witness:
  "\<exists>v. kv_set_input_v_idxs True 2 kv_demo (ub_one 1 3) demo_slot [0, 0] = Some v \<and> distinct v \<and> v ! 1 = 7"
proof -
  have fit: "kv_n_stream kv_demo * kv_length kv_demo \<le> 4294967296" by (simp add: demo_length)
  have len: "length [0 :: nat] = ub_n_tokens (ub_one 1 3)" "length [0, 0 :: nat] = ub_n_tokens (ub_one 1 3) * 2" by simp_all
  show ?thesis
    using kv_idxs_correct [OF demo_inv(1) demo_slot_ok fit len] by (auto simp: demo_length numeral_2_eq_2)
qed

subsection \<open>The mask of the plain rule\<close>

text \<open>The rule for one cell, seen as an abstract cell \<open>x\<close>, and whether the shortcut records it.\<close>

definition cell_hidden :: "kq_args \<Rightarrow> bool \<Rightarrow> bool \<Rightarrow> llama_pos \<Rightarrow> mask_query \<Rightarrow> acell \<Rightarrow> bool" where
  "cell_hidden a causal is_2d pmin q x \<longleftrightarrow>
     causal \<and> (a_pos x > mq_p1 q \<or> is_2d \<and> a_pos x = mq_p1 q \<and> is_2d_gt (a_ext x) (mq_p1_x q) (mq_p1_y q))
   \<or> \<not> (\<not> causal \<and> ka_non_causal_type a = LLAMA_NON_CAUSAL_TYPE_SWA_FULL \<and> pmin \<le> a_pos x)
     \<and> swa_masked (ka_n_swa a) (ka_swa_type a) (a_pos x) (mq_p1 q)"

definition cell_mask :: "kq_args \<Rightarrow> bool \<Rightarrow> bool \<Rightarrow> bool \<Rightarrow> llama_pos \<Rightarrow> mask_query \<Rightarrow> acell \<Rightarrow> mask_val" where
  "cell_mask a causal is_2d alibi pmin q x =
     (if nat (mq_seq q) \<notin> a_seq x \<or> cell_hidden a causal is_2d pmin q x then MaskDrop
      else if alibi then MaskAlibi (- \<bar>a_pos x - mq_p1 q\<bar>) else MaskKeep)"

definition mask_recorded :: "kq_args \<Rightarrow> llama_pos \<Rightarrow> llama_seq_id \<Rightarrow> acell \<Rightarrow> bool" where
  "mask_recorded a pmin s x \<longleftrightarrow> nat s \<in> a_seq x \<and> pmin \<le> a_pos x + int (ka_n_swa a) + 32"

text \<open>
  The cells that are not recorded look the same to all tokens of the sequence: those that it
  owns lie more than the window, and more than 32 positions, before all of them.
\<close>

lemma far_cell_same:
  assumes "\<not> mask_recorded a pmin (mq_seq q) x" "mq_seq q' = mq_seq q" "pmin \<le> mq_p1 q" "pmin \<le> mq_p1 q'"
    and "swa_ok (ka_n_swa a) (ka_swa_type a)" "0 \<le> a_pos x \<or> a_seq x = {}"
  shows "cell_mask a causal is_2d False pmin q x = cell_mask a causal is_2d False pmin q' x"
proof (cases "nat (mq_seq q) \<in> a_seq x")
  case False
  then show ?thesis using assms(2) by (simp add: cell_mask_def)
next
  case True
  then have pos: "0 \<le> a_pos x" using assms(6) by auto
  have far: "a_pos x + int (ka_n_swa a) + 32 < p1" if "pmin \<le> p1" for p1
    using assms(1) True that by (auto simp: mask_recorded_def)
  have masked: "swa_masked (ka_n_swa a) (ka_swa_type a) (a_pos x) p1 \<longleftrightarrow> ka_swa_type a \<noteq> LLAMA_SWA_TYPE_NONE"
    if "pmin \<le> p1" for p1
  proof (cases "ka_swa_type a")
    case LLAMA_SWA_TYPE_CHUNKED
    let ?n = "int (ka_n_swa a)"
    have "0 < ?n" using assms(5) LLAMA_SWA_TYPE_CHUNKED by (simp add: swa_ok_def)
    then have "p1 - p1 div ?n * ?n < ?n" by (simp add: minus_div_mult_eq_mod)
    then show ?thesis using far [OF that] LLAMA_SWA_TYPE_CHUNKED by (simp add: swa_masked_def)
  next
    case LLAMA_SWA_TYPE_SYMMETRIC
    have "int (ka_n_swa a div 2) \<le> int (ka_n_swa a)" by simp
    then show ?thesis using far [OF that] LLAMA_SWA_TYPE_SYMMETRIC by (simp add: swa_masked_def)
  qed (use far [OF that] in \<open>simp_all add: swa_masked_def\<close>)
  have "a_pos x < mq_p1 q" "a_pos x < mq_p1 q'" "\<not> pmin \<le> a_pos x"
    using far [OF assms(3)] far [OF assms(4)] far [of pmin] by simp_all
  then have "cell_hidden a causal is_2d pmin q x = cell_hidden a causal is_2d pmin q' x"
    using masked [OF assms(3)] masked [OF assms(4)] by (auto simp: cell_hidden_def)
  then show ?thesis using assms(2) by (simp add: cell_mask_def)
qed

subsection \<open>One row\<close>

lemma mask_hidden_repr:
  assumes x: "j < length xs" "0 \<le> a_pos (xs ! j)" "a_pos (xs ! j) \<le> INT32_MAX"
    and q: "0 \<le> mq_p1 q" "mq_p1 q \<le> INT32_MAX" and swa: "swa_ok (ka_n_swa a) (ka_swa_type a)"
  shows "mask_hidden a causal (ka_swa_type a \<noteq> LLAMA_SWA_TYPE_NONE) is_2d pmin (cells_repr hs xs) q j (a_pos (xs ! j))
    = Some (cell_hidden a causal is_2d pmin q (xs ! j))"
proof -
  have "cells_ext_get j (cells_repr hs xs) = Some (a_ext (xs ! j))" using x by simp
  moreover have "is_masked_swa (ka_n_swa a) (ka_swa_type a) (a_pos (xs ! j)) (mq_p1 q)
      = Some (swa_masked (ka_n_swa a) (ka_swa_type a) (a_pos (xs ! j)) (mq_p1 q))"
    by (rule is_masked_swa_eq [OF swa x(2) q(1) x(3) q(2)])
  moreover have "swa_masked n LLAMA_SWA_TYPE_NONE p0 p1 = False" for n p0 p1 by (simp add: swa_masked_def)
  ultimately show ?thesis
    unfolding mask_hidden_def cell_hidden_def Let_def by (cases "ka_swa_type a") auto
qed

definition query_ok :: "mask_query \<Rightarrow> bool" where
  "query_ok q \<longleftrightarrow> 0 \<le> mq_seq q \<and> mq_seq q < int LLAMA_MAX_SEQ \<and> 0 \<le> mq_p1 q \<and> mq_p1 q \<le> INT32_MAX"

definition window_ok :: "kq_args \<Rightarrow> acell list \<Rightarrow> bool" where
  "window_ok a xs \<longleftrightarrow> (\<forall>x \<in> set xs. a_pos x + int (ka_n_swa a) + 32 \<le> INT32_MAX)"

lemma window_value: "int n + 32 \<le> INT32_MAX \<Longrightarrow> u32_to_i32 ((n + 32) mod 4294967296) = int n + 32"
  by (simp add: u32_to_i32_def INT32_MAX_def)

lemma mask_cell_repr:
  assumes x: "j < length xs" "acell_ok (xs ! j)" and q: "query_ok q" and swa: "swa_ok (ka_n_swa a) (ka_swa_type a)"
    and win: "window_ok a xs" and dst: "idst + j < length data"
  shows "mask_cell a causal (ka_swa_type a \<noteq> LLAMA_SWA_TYPE_NONE) is_2d alibi pmin (cells_repr hs xs) q prev idst j (idxs, data)
    = Some (if \<not> alibi \<and> \<not> prev \<and> mask_recorded a pmin (mq_seq q) (xs ! j) then idxs @ [j] else idxs,
            data[idst + j := cell_mask a causal is_2d alibi pmin q (xs ! j)])"
proof (cases "a_pos (xs ! j) \<noteq> -1 \<and> nat (mq_seq q) \<in> a_seq (xs ! j)")
  case False
  have p: "-1 \<le> a_pos (xs ! j)" and "a_pos (xs ! j) = -1 \<Longrightarrow> a_seq (xs ! j) = {}" using x(2) by (simp_all add: acell_ok_def)
  then have "nat (mq_seq q) \<notin> a_seq (xs ! j)" using False by auto
  then show ?thesis
    using x(1) p q dst by (auto simp: mask_cell_def query_ok_def mask_recorded_def cell_mask_def)
next
  case True
  let ?x = "xs ! j"
  have p: "0 \<le> a_pos ?x" "a_pos ?x \<le> INT32_MAX" "a_pos ?x \<noteq> -1" using x(2) True by (auto simp: acell_ok_def)
  have w: "a_pos ?x + int (ka_n_swa a) + 32 \<le> INT32_MAX" using win x(1) by (simp add: window_ok_def)
  have wv: "u32_to_i32 ((ka_n_swa a + 32) mod 4294967296) = int (ka_n_swa a) + 32"
    by (rule window_value) (use w p(1) in simp)
  have iw: "i32 (a_pos ?x + (int (ka_n_swa a) + 32)) = Some (a_pos ?x + (int (ka_n_swa a) + 32))"
    by (rule i32_ok) (use w p(1) in \<open>simp_all add: INT32_MIN_def\<close>)
  have id: "i32 (a_pos ?x - mq_p1 q) = Some (a_pos ?x - mq_p1 q)"
    by (rule i32_ok) (use p q in \<open>simp_all add: query_ok_def INT32_MIN_def INT32_MAX_def\<close>)
  have hid: "mask_hidden a causal (ka_swa_type a \<noteq> LLAMA_SWA_TYPE_NONE) is_2d pmin (cells_repr hs xs) q j (a_pos ?x)
      = Some (cell_hidden a causal is_2d pmin q ?x)"
    by (rule mask_hidden_repr [OF x(1) p(1,2) _ _ swa]) (use q in \<open>simp_all add: query_ok_def\<close>)
  have base: "cells_is_empty j (cells_repr hs xs) = Some False" "cells_pos_get j (cells_repr hs xs) = Some (a_pos ?x)"
    "cells_seq_has j (mq_seq q) (cells_repr hs xs) = Some True"
    using x(1) p True q by (simp_all add: query_ok_def)
  have rec: "mask_recorded a pmin (mq_seq q) ?x \<longleftrightarrow> pmin \<le> a_pos ?x + (int (ka_n_swa a) + 32)"
    using True by (simp add: mask_recorded_def algebra_simps)
  show ?thesis
    using True dst unfolding mask_cell_def
    by (auto simp: base wv iw id hid rec cell_mask_def)
qed

lemma mask_row:
  assumes js: "\<forall>j \<in> set js. j < length xs \<and> idst + j < length data" and ok: "\<forall>x \<in> set xs. acell_ok x" and q: "query_ok q"
    and swa: "swa_ok (ka_n_swa a) (ka_swa_type a)" and win: "window_ok a xs"
  shows "for_opt (mask_cell a causal (ka_swa_type a \<noteq> LLAMA_SWA_TYPE_NONE) is_2d alibi pmin (cells_repr hs xs) q prev idst) js (idxs, data)
    = Some (idxs @ (if alibi \<or> prev then [] else filter (\<lambda>j. mask_recorded a pmin (mq_seq q) (xs ! j)) js),
            fold (\<lambda>j d. d[idst + j := cell_mask a causal is_2d alibi pmin q (xs ! j)]) js data)"
  using js
proof (induction js arbitrary: idxs data)
  case Nil
  then show ?case by simp
next
  case (Cons j js)
  have x: "j < length xs" "acell_ok (xs ! j)" "idst + j < length data" using Cons.prems ok by simp_all
  show ?case
    using Cons.IH Cons.prems by (simp add: mask_cell_repr [OF x(1,2) q swa win x(3)])
qed

lemma nth_fold_offset:
  "k < length d \<Longrightarrow> fold (\<lambda>j d. d[n + j := f j]) js d ! k = (if n \<le> k \<and> k - n \<in> set js then f (k - n) else d ! k)"
  by (induction js arbitrary: d) (auto simp: nth_list_update)

lemma length_fold_offset [simp]: "length (fold (\<lambda>j d. d[n + j := f j]) js d) = length d"
  by (induction js arbitrary: d) auto

lemma copy_row_ok:
  assumes "src + n \<le> length d" "dst + n \<le> length d"
  obtains d' where "copy_row n src dst d = Some d'" "length d' = length d"
    "\<And>k. k < length d \<Longrightarrow> d' ! k = (if dst \<le> k \<and> k < dst + n then d ! (src + (k - dst)) else d ! k)"
proof (rule that)
  let ?d = "take dst d @ take n (drop src d) @ drop (dst + n) d"
  show "copy_row n src dst d = Some ?d" using assms by (simp add: copy_row_def)
  show "length ?d = length d" using assms by simp
  show "?d ! k = (if dst \<le> k \<and> k < dst + n then d ! (src + (k - dst)) else d ! k)" if "k < length d" for k
    using assms that by (auto simp: nth_append)
qed

subsection \<open>The tokens of a ubatch\<close>

text \<open>The sequence a token asks for, the least position of a sequence, and the cells of one.\<close>

definition ask_seq :: "llama_ubatch \<Rightarrow> nat \<Rightarrow> nat" where
  "ask_seq ub i = nat (ub_seq_id ub ! i ! 0)"

definition ub_pos_min :: "llama_ubatch \<Rightarrow> nat \<Rightarrow> llama_pos" where
  "ub_pos_min ub s = Min (insert INT32_MAX {ub_pos ub ! i |i. i < ub_n_tokens ub \<and> ask_seq ub i = s})"

definition seq_cells :: "llama_kv_cache \<Rightarrow> nat \<Rightarrow> acell list" where
  "seq_cells kv s = kv_cells kv (kv_stream kv s)"

definition ub_asks_ok :: "llama_kv_cache \<Rightarrow> llama_ubatch \<Rightarrow> bool" where
  "ub_asks_ok kv ub \<longleftrightarrow> (\<forall>i < ub_n_tokens ub. i < length (ub_seq_id ub) \<and> i < length (ub_pos ub)
     \<and> ub_seq_id ub ! i \<noteq> [] \<and> 0 \<le> ub_seq_id ub ! i ! 0 \<and> kv_has_seq kv (ask_seq ub i)
     \<and> 0 \<le> ub_pos ub ! i \<and> ub_pos ub ! i < INT32_MAX)
   \<and> (is_pos_2d ub \<longrightarrow> 3 * ub_n_tokens ub \<le> length (ub_pos ub))"

lemma ub_asksD:
  assumes "ub_asks_ok kv ub" "i < ub_n_tokens ub"
  shows "nth_opt (ub_seq_id ub) i = Some (ub_seq_id ub ! i)" "nth_opt (ub_seq_id ub ! i) 0 = Some (int (ask_seq ub i))"
    "ub_seq_id ub ! i ! 0 = int (ask_seq ub i)" "kv_has_seq kv (ask_seq ub i)"
    "nth_opt (ub_pos ub) i = Some (ub_pos ub ! i)" "0 \<le> ub_pos ub ! i" "ub_pos ub ! i < INT32_MAX"
    "is_pos_2d ub \<Longrightarrow> i + ub_n_tokens ub * 2 < length (ub_pos ub)" "is_pos_2d ub \<Longrightarrow> i + ub_n_tokens ub < length (ub_pos ub)"
  using assms by (auto simp: ub_asks_ok_def ask_seq_def)

lemma ub_pos_min_le: "i < ub_n_tokens ub \<Longrightarrow> ub_pos_min ub (ask_seq ub i) \<le> ub_pos ub ! i"
  unfolding ub_pos_min_def by (rule Min_le) auto

lemma seq_mins_run:
  assumes "ub_asks_ok kv ub" "kv_wf kv" "n \<le> ub_n_tokens ub"
  shows "\<exists>mins. for_opt (seq_min_step ub) [0..<n] (replicate LLAMA_MAX_SEQ INT32_MAX) = Some mins \<and> length mins = LLAMA_MAX_SEQ
    \<and> (\<forall>s < LLAMA_MAX_SEQ. mins ! s = Min (insert INT32_MAX {ub_pos ub ! i |i. i < n \<and> ask_seq ub i = s}))"
  using assms(3)
proof (induction n)
  case 0
  then show ?case by simp
next
  case (Suc n)
  obtain mins where mins: "for_opt (seq_min_step ub) [0..<n] (replicate LLAMA_MAX_SEQ INT32_MAX) = Some mins"
    "length mins = LLAMA_MAX_SEQ" "\<forall>s < LLAMA_MAX_SEQ. mins ! s = Min (insert INT32_MAX {ub_pos ub ! i |i. i < n \<and> ask_seq ub i = s})"
    using Suc by auto
  have n: "n < ub_n_tokens ub" using Suc.prems by simp
  note t = ub_asksD [OF assms(1) n]
  have s: "ask_seq ub n < LLAMA_MAX_SEQ" by (rule kv_lookup(3) [OF assms(2) t(4)])
  let ?mins = "mins[ask_seq ub n := min (mins ! ask_seq ub n) (ub_pos ub ! n)]"
  have "seq_min_step ub n mins = Some ?mins" using t s mins(2) by (simp add: seq_min_step_def)
  then have run: "for_opt (seq_min_step ub) [0..<Suc n] (replicate LLAMA_MAX_SEQ INT32_MAX) = Some ?mins"
    using mins(1) by (simp add: for_opt_append)
  have "?mins ! u = Min (insert INT32_MAX {ub_pos ub ! i |i. i < Suc n \<and> ask_seq ub i = u})" if u: "u < LLAMA_MAX_SEQ" for u
  proof -
    let ?A = "{ub_pos ub ! i |i. i < n \<and> ask_seq ub i = u}"
    have "{ub_pos ub ! i |i. i < Suc n \<and> ask_seq ub i = u} = (if ask_seq ub n = u then insert (ub_pos ub ! n) ?A else ?A)"
      by (auto simp: less_Suc_eq)
    moreover have "Min (insert INT32_MAX (insert (ub_pos ub ! n) ?A)) = min (Min (insert INT32_MAX ?A)) (ub_pos ub ! n)"
      by (subst insert_commute, subst Min_insert) (simp_all add: min.commute)
    ultimately show ?thesis using mins(2,3) u by (auto simp: nth_list_update simp del: Min_insert)
  qed
  then show ?case using run mins(2) by auto
qed

definition ask_query :: "llama_ubatch \<Rightarrow> nat \<Rightarrow> mask_query" where
  "ask_query ub i = \<lparr>mq_seq = int (ask_seq ub i), mq_p1 = ub_pos ub ! i,
     mq_p1_x = (if is_pos_2d ub then ub_pos ub ! (i + ub_n_tokens ub * 2) else 0),
     mq_p1_y = (if is_pos_2d ub then ub_pos ub ! (i + ub_n_tokens ub) else 0)\<rparr>"

definition ask_mask :: "llama_kv_cache \<Rightarrow> kq_args \<Rightarrow> bool \<Rightarrow> bool \<Rightarrow> nat \<Rightarrow> nat \<Rightarrow> mask_val" where
  "ask_mask kv a causal alibi i j = (let ub = ka_ubatch a; s = ask_seq ub i in
     cell_mask a causal (is_pos_2d ub) alibi (ub_pos_min ub s) (ask_query ub i) (seq_cells kv s ! j))"

definition row_done :: "llama_kv_cache \<Rightarrow> kq_args \<Rightarrow> bool \<Rightarrow> bool \<Rightarrow> mask_val list \<Rightarrow> nat \<Rightarrow> bool" where
  "row_done kv a causal alibi d i \<longleftrightarrow> (\<forall>j < ka_n_kv a. d ! (ka_n_kv a * i + j) = ask_mask kv a causal alibi i j)"

definition recorded_cells :: "llama_kv_cache \<Rightarrow> kq_args \<Rightarrow> nat \<Rightarrow> nat list" where
  "recorded_cells kv a s = filter (\<lambda>j. mask_recorded a (ub_pos_min (ka_ubatch a) s) (int s) (seq_cells kv s ! j)) [0..<ka_n_kv a]"

text \<open>What holds before token \<open>i\<close> of the block: the rows are right, and so are the records.\<close>

definition mask_inv :: "llama_kv_cache \<Rightarrow> kq_args \<Rightarrow> bool \<Rightarrow> bool \<Rightarrow> nat \<Rightarrow> nat \<Rightarrow> mask_state \<Rightarrow> bool" where
  "mask_inv kv a causal alibi len i = (\<lambda>(srct, seq_idxs, d). length d = len \<and> (\<forall>i' < i. row_done kv a causal alibi d i')
     \<and> (alibi \<or> (\<forall>s r. srct (int s) = Some r \<longrightarrow>
          r < i \<and> ask_seq (ka_ubatch a) r = s \<and> seq_idxs (int s) = recorded_cells kv a s)))"

definition mask_ok :: "llama_kv_cache \<Rightarrow> kq_args \<Rightarrow> bool" where
  "mask_ok kv a \<longleftrightarrow> kv_wf kv \<and> ub_asks_ok kv (ka_ubatch a) \<and> ka_v_cells a = kv_v_cells kv
     \<and> ka_seq_to_stream a = kv_seq_to_stream kv \<and> swa_ok (ka_n_swa a) (ka_swa_type a) \<and> ka_n_kv a \<le> kv_length kv
     \<and> (\<forall>t < kv_n_stream kv. window_ok a (kv_cells kv t)) \<and> ub_n_tokens (ka_ubatch a) = ka_n_stream a * ka_n_tps a"

lemma mask_invI:
  assumes "length d = len" "row_done kv a causal alibi d i" "\<And>i'. i' < i \<Longrightarrow> row_done kv a causal alibi d i'"
    and "\<And>s r. \<not> alibi \<Longrightarrow> srct (int s) = Some r \<Longrightarrow>
       r < Suc i \<and> ask_seq (ka_ubatch a) r = s \<and> seq_idxs (int s) = recorded_cells kv a s"
  shows "mask_inv kv a causal alibi len (Suc i) (srct, seq_idxs, d)"
  using assms by (auto simp: mask_inv_def less_Suc_eq)

lemma row_offsets: "i' < i \<Longrightarrow> j < n \<Longrightarrow> n * i' + j < n * (i :: nat)"
  using row_major_less [of i' i j n] by (simp add: mult.commute)

lemma mask_token_step:
  assumes ok: "mask_ok kv a" and i: "i = s * ka_n_tps a + ii" "i < ub_n_tokens (ka_ubatch a)"
    and mins: "length mins = LLAMA_MAX_SEQ" "\<forall>s < LLAMA_MAX_SEQ. mins ! s = ub_pos_min (ka_ubatch a) s"
    and inv: "mask_inv kv a causal alibi (ka_n_kv a * ub_n_tokens (ka_ubatch a)) i st"
  shows "\<exists>st'. mask_token a causal (ka_swa_type a \<noteq> LLAMA_SWA_TYPE_NONE) (is_pos_2d (ka_ubatch a)) alibi mins s ii st = Some st'
    \<and> mask_inv kv a causal alibi (ka_n_kv a * ub_n_tokens (ka_ubatch a)) (Suc i) st'"
proof -
  let ?ub = "ka_ubatch a" and ?n = "ka_n_kv a" and ?is_2d = "is_pos_2d (ka_ubatch a)"
  let ?u = "ask_seq ?ub i"
  let ?pmin = "ub_pos_min ?ub ?u" and ?q = "ask_query ?ub i" and ?xs = "seq_cells kv ?u"
  let ?rule = "\<lambda>j. cell_mask a causal ?is_2d alibi ?pmin ?q (?xs ! j)"
  obtain srct sidx d where st: "st = (srct, sidx, d)" by (cases st)
  have wf: "kv_wf kv" and asks: "ub_asks_ok kv ?ub" and swa: "swa_ok (ka_n_swa a) (ka_swa_type a)"
    using ok by (simp_all add: mask_ok_def)
  note t = ub_asksD [OF asks i(2)]
  note l = kv_lookup [OF wf t(4)]
  note r = kv_cells_repr [OF wf l(2)]
  obtain hs where c: "kv_v_cells kv ! kv_stream kv ?u = cells_repr hs ?xs" using r(1) by (auto simp: seq_cells_def)
  have cells: "\<forall>x \<in> set ?xs. acell_ok x" using r(2) by (simp add: seq_cells_def cell_ok_def)
  have pos: "0 \<le> a_pos (?xs ! j) \<or> a_seq (?xs ! j) = {}" if "j < length ?xs" for j
    using acells_ok_nth [OF cells that] by (auto simp: acell_ok_def)
  have n_len: "?n \<le> length ?xs"
    using ok kv_stream_get(4) [OF wf l(2)] by (simp add: mask_ok_def seq_cells_def)
  have win: "window_ok a ?xs" using ok l(2) by (simp add: mask_ok_def seq_cells_def)
  have q: "query_ok ?q" using l(3) t(6,7) by (simp add: query_ok_def ask_query_def)
  have seq: "mq_seq ?q = int ?u" by (simp add: ask_query_def)
  have d: "length d = ?n * ub_n_tokens ?ub" and rows: "\<forall>i' < i. row_done kv a causal alibi d i'"
    and recs: "alibi \<or> (\<forall>s r. srct (int s) = Some r \<longrightarrow> r < i \<and> ask_seq ?ub r = s \<and> sidx (int s) = recorded_cells kv a s)"
    using inv by (simp_all add: mask_inv_def st)
  have dst: "?n * i + j < length d" if "j < ?n" for j using row_offsets [OF i(2) that] d by simp
  have row: "for_opt (mask_cell a causal (ka_swa_type a \<noteq> LLAMA_SWA_TYPE_NONE) ?is_2d alibi ?pmin (cells_repr hs ?xs) ?q prev (?n * i)) js (idxs, e)
      = Some (idxs @ (if alibi \<or> prev then [] else filter (\<lambda>j. mask_recorded a ?pmin (int ?u) (?xs ! j)) js),
              fold (\<lambda>j d. d[?n * i + j := ?rule j]) js e)"
    if "\<forall>j \<in> set js. j < ?n" "length e = length d" for js prev idxs e
  proof -
    have "\<forall>j \<in> set js. j < length ?xs \<and> ?n * i + j < length e" using that dst n_len by auto
    from mask_row [OF this cells q swa win] show ?thesis unfolding seq .
  qed
  have pre: "mask_token a causal (ka_swa_type a \<noteq> LLAMA_SWA_TYPE_NONE) ?is_2d alibi mins s ii st = do {
        (prev, srct, idxs, data) \<leftarrow>
          (if alibi then Some (False, srct, sidx (int ?u), d)
           else (case srct (int ?u) of
               Some r \<Rightarrow> do { data \<leftarrow> copy_row ?n (?n * r) (?n * i) d; Some (True, srct, sidx (int ?u), data) }
             | None \<Rightarrow> Some (False, srct(int ?u := Some i), [], d)));
        (idxs, data) \<leftarrow> for_opt (mask_cell a causal (ka_swa_type a \<noteq> LLAMA_SWA_TYPE_NONE) ?is_2d alibi ?pmin (cells_repr hs ?xs) ?q prev (?n * i))
           (if prev then take ?n idxs else [0..<?n]) (idxs, data);
        Some (srct, sidx(int ?u := idxs), data) }"
  proof -
    have "ka_seq_to_stream a = kv_seq_to_stream kv" "ka_v_cells a = kv_v_cells kv" using ok by (simp_all add: mask_ok_def)
    moreover have "inth_opt mins (int ?u) = Some ?pmin" using mins l(3) by simp
    moreover have "nth_opt (kv_v_cells kv) (kv_stream kv ?u) = Some (cells_repr hs ?xs)"
      using kv_stream_get(1) [OF wf l(2)] c by simp
    moreover have "(if ?is_2d then nth_opt (ub_pos ?ub) (i + ub_n_tokens ?ub * 2) else Some 0) = Some (mq_p1_x ?q)"
      "(if ?is_2d then nth_opt (ub_pos ?ub) (i + ub_n_tokens ?ub) else Some 0) = Some (mq_p1_y ?q)"
      using t(8,9) by (simp_all add: ask_query_def)
    moreover have "\<lparr>mq_seq = int ?u, mq_p1 = ub_pos ?ub ! i, mq_p1_x = mq_p1_x ?q, mq_p1_y = mq_p1_y ?q\<rparr> = ?q"
      by (simp add: ask_query_def)
    ultimately show ?thesis
      using t(1,2,5) l(1) by (simp add: mask_token_def st i(1) [symmetric] Let_def)
  qed
  have old: "row_done kv a causal alibi d' i'" if "i' < i" "\<forall>k < ?n * i. d' ! k = d ! k" for d' i'
    using rows that row_offsets [OF that(1)] by (simp add: row_done_def)
  have new: "row_done kv a causal alibi d' i" if "\<forall>j < ?n. d' ! (?n * i + j) = ?rule j" for d'
    using that by (simp add: row_done_def ask_mask_def Let_def)
  show ?thesis
  proof (cases "alibi \<or> srct (int ?u) = None")
    case True
    let ?d = "fold (\<lambda>j d. d[?n * i + j := ?rule j]) [0..<?n] d"
    let ?srct = "if alibi then srct else srct(int ?u := Some i)"
    let ?idxs = "if alibi then sidx (int ?u) else recorded_cells kv a ?u"
    have run: "mask_token a causal (ka_swa_type a \<noteq> LLAMA_SWA_TYPE_NONE) ?is_2d alibi mins s ii st
        = Some (?srct, sidx(int ?u := ?idxs), ?d)"
      using True row [of "[0..<?n]" d] unfolding pre by (auto simp: recorded_cells_def)
    have "mask_inv kv a causal alibi (?n * ub_n_tokens ?ub) (Suc i) (?srct, sidx(int ?u := ?idxs), ?d)"
    proof (rule mask_invI)
      show "length ?d = ?n * ub_n_tokens ?ub" using d by simp
      show "row_done kv a causal alibi ?d i" by (rule new) (use dst in \<open>simp add: nth_fold_offset\<close>)
      have n: "?n * i \<le> length d" using i(2) d by simp
      show "row_done kv a causal alibi ?d i'" if "i' < i" for i'
        by (rule old [OF that], intro allI impI) (use n in \<open>simp add: nth_fold_offset\<close>)
      show "r < Suc i \<and> ask_seq ?ub r = s \<and> (sidx(int ?u := ?idxs)) (int s) = recorded_cells kv a s"
        if "\<not> alibi" "?srct (int s) = Some r" for s r
      proof (cases "s = ?u")
        case True
        then show ?thesis using that by auto
      next
        case False
        then have "srct (int s) = Some r" using that by simp
        then have "r < i \<and> ask_seq ?ub r = s \<and> sidx (int s) = recorded_cells kv a s" using recs that(1) by blast
        then show ?thesis using False by simp
      qed
    qed
    then show ?thesis using run by blast
  next
    case False
    then obtain r where sr: "srct (int ?u) = Some r" and na: "\<not> alibi" by auto
    then have rr: "r < i" "ask_seq ?ub r = ?u" "sidx (int ?u) = recorded_cells kv a ?u" using recs by auto
    let ?js = "recorded_cells kv a ?u"
    have js: "\<forall>j \<in> set ?js. j < ?n" by (simp add: recorded_cells_def)
    have take: "take ?n ?js = ?js" by (rule take_all) (simp add: recorded_cells_def length_filter_le [THEN le_trans])
    have "?n * r + ?n \<le> length d" "?n * i + ?n \<le> length d"
      using mult_le_mono2 [of "Suc r" "ub_n_tokens ?ub" ?n] mult_le_mono2 [of "Suc i" "ub_n_tokens ?ub" ?n] rr(1) i(2) d by simp_all
    then obtain e where e: "copy_row ?n (?n * r) (?n * i) d = Some e" "length e = length d"
      "\<And>k. k < length d \<Longrightarrow> e ! k = (if ?n * i \<le> k \<and> k < ?n * i + ?n then d ! (?n * r + (k - ?n * i)) else d ! k)"
      by (rule copy_row_ok) (rule that)
    let ?d = "fold (\<lambda>j d. d[?n * i + j := ?rule j]) ?js e"
    have run: "mask_token a causal (ka_swa_type a \<noteq> LLAMA_SWA_TYPE_NONE) ?is_2d alibi mins s ii st
        = Some (srct, sidx(int ?u := ?js), ?d)"
      unfolding pre using row [OF js e(2)] by (simp add: na sr e(1) rr(3) take)
    have "?d ! (?n * i + j) = ?rule j" if j: "j < ?n" for j
    proof (cases "j \<in> set ?js")
      case True
      then show ?thesis using dst [OF j] e(2) by (simp add: nth_fold_offset)
    next
      case False
      have "?d ! (?n * i + j) = d ! (?n * r + j)"
        using False dst [OF j] e(2) e(3) [OF dst [OF j]] j by (simp add: nth_fold_offset)
      also have "\<dots> = cell_mask a causal ?is_2d False ?pmin (ask_query ?ub r) (?xs ! j)"
        using rows rr(1) j na by (simp add: row_done_def ask_mask_def rr(2) Let_def)
      also have "\<dots> = cell_mask a causal ?is_2d False ?pmin ?q (?xs ! j)"
      proof (rule far_cell_same [OF _ _ _ _ swa pos])
        show "\<not> mask_recorded a ?pmin (mq_seq (ask_query ?ub r)) (?xs ! j)"
          using False j by (simp add: recorded_cells_def ask_query_def rr(2))
        show "mq_seq ?q = mq_seq (ask_query ?ub r)" by (simp add: ask_query_def rr(2))
        show "?pmin \<le> mq_p1 (ask_query ?ub r)"
          using ub_pos_min_le [of r ?ub] rr i(2) by (simp add: ask_query_def)
        show "?pmin \<le> mq_p1 ?q" using ub_pos_min_le [OF i(2)] by (simp add: ask_query_def)
        show "j < length ?xs" using j n_len by simp
      qed
      finally show ?thesis using na by simp
    qed
    then have "row_done kv a causal alibi ?d i" by (intro new) simp
    moreover have "row_done kv a causal alibi ?d i'" if "i' < i" for i'
    proof (rule old [OF that], intro allI impI)
      fix k assume k: "k < ?n * i"
      moreover have "?n * i \<le> length d" using i(2) d by simp
      ultimately have "k < length d" by simp
      then show "?d ! k = d ! k" using k e(2) e(3) [of k] by (simp add: nth_fold_offset)
    qed
    moreover have "t < Suc i \<and> ask_seq ?ub t = s \<and> (sidx(int ?u := ?js)) (int s) = recorded_cells kv a s"
      if t: "srct (int s) = Some t" for s t
    proof -
      have "t < i \<and> ask_seq ?ub t = s \<and> sidx (int s) = recorded_cells kv a s" using recs na t by blast
      then show ?thesis by simp
    qed
    ultimately have "mask_inv kv a causal alibi (?n * ub_n_tokens ?ub) (Suc i) (srct, sidx(int ?u := ?js), ?d)"
      using d e(2) by (intro mask_invI) simp_all
    then show ?thesis using run by blast
  qed
qed

lemma kq_mask_impl_run:
  assumes ok: "mask_ok kv a" and len: "length data = ka_n_kv a * ub_n_tokens (ka_ubatch a)"
  shows "\<exists>d. kq_mask_impl a causal (ka_swa_type a \<noteq> LLAMA_SWA_TYPE_NONE) (is_pos_2d (ka_ubatch a)) alibi data = Some d
    \<and> length d = length data \<and> (\<forall>i < ub_n_tokens (ka_ubatch a). row_done kv a causal alibi d i)"
proof -
  let ?ub = "ka_ubatch a" and ?tps = "ka_n_tps a"
  let ?N = "ka_n_kv a * ub_n_tokens ?ub"
  have wf: "kv_wf kv" and asks: "ub_asks_ok kv ?ub" and n: "ub_n_tokens ?ub = ka_n_stream a * ?tps"
    using ok by (simp_all add: mask_ok_def)
  obtain mins where mins: "for_opt (seq_min_step ?ub) [0..<ub_n_tokens ?ub] (replicate LLAMA_MAX_SEQ INT32_MAX) = Some mins"
    "length mins = LLAMA_MAX_SEQ" "\<forall>s < LLAMA_MAX_SEQ. mins ! s = ub_pos_min ?ub s"
    using seq_mins_run [OF asks wf order_refl] unfolding ub_pos_min_def by blast
  let ?tok = "mask_token a causal (ka_swa_type a \<noteq> LLAMA_SWA_TYPE_NONE) (is_pos_2d ?ub) alibi mins"
  let ?body = "\<lambda>s data. do { (_, _, data) \<leftarrow> for_opt (?tok s) [0..<?tps] (\<lambda>_. None, \<lambda>_. [], data); Some data }"
  have block: "\<exists>d'. ?body s d = Some d' \<and> length d' = ?N \<and> (\<forall>i < Suc s * ?tps. row_done kv a causal alibi d' i)"
    if s: "s < ka_n_stream a" and d: "length d = ?N" "\<forall>i < s * ?tps. row_done kv a causal alibi d i" for s d
  proof -
    have "\<exists>st. for_opt (?tok s) [0..<?tps] (\<lambda>_. None, \<lambda>_. [], d) = Some st \<and> mask_inv kv a causal alibi ?N (s * ?tps + ?tps) st"
    proof (rule for_opt_upt_total [where P = "\<lambda>ii. mask_inv kv a causal alibi ?N (s * ?tps + ii)"])
      show "mask_inv kv a causal alibi ?N (s * ?tps + 0) (\<lambda>_. None, \<lambda>_. [], d)" using d by (simp add: mask_inv_def)
      show "\<exists>st'. ?tok s ii st = Some st' \<and> mask_inv kv a causal alibi ?N (s * ?tps + Suc ii) st'"
        if "ii < ?tps" "mask_inv kv a causal alibi ?N (s * ?tps + ii) st" for ii st
        using mask_token_step [OF ok refl _ mins(2,3) that(2)] row_major_less [OF s that(1)] n by simp
    qed
    then obtain srct sidx d' where st: "for_opt (?tok s) [0..<?tps] (\<lambda>_. None, \<lambda>_. [], d) = Some (srct, sidx, d')"
      "mask_inv kv a causal alibi ?N (s * ?tps + ?tps) (srct, sidx, d')"
      by (metis prod_cases3)
    then show ?thesis by (simp add: mask_inv_def add.commute)
  qed
  have "\<exists>d. for_opt ?body [0..<ka_n_stream a] data = Some d \<and> length d = ?N
      \<and> (\<forall>i < ka_n_stream a * ?tps. row_done kv a causal alibi d i)"
    by (rule for_opt_upt_total [where P = "\<lambda>s d. length d = ?N \<and> (\<forall>i < s * ?tps. row_done kv a causal alibi d i)"])
      (use len block in auto)
  then show ?thesis using mins(1) len n by (simp add: kq_mask_impl_def)
qed

subsection \<open>The mask is the plain rule\<close>

text \<open>
  \<open>causal_mode\<close> is the mode a cache uses; \<open>attends\<close> says which cells token \<open>i\<close> sees: those of its
  sequence that are not in its future (at the same position, not after it in the order of the
  M-RoPE grid) and not outside its window, where a model of type \<open>SWA_FULL\<close> in non-causal
  mode exempts the positions of the current ubatch from the window.
\<close>

definition causal_mode :: "llama_kv_cache \<Rightarrow> bool \<Rightarrow> bool" where
  "causal_mode kv causal \<longleftrightarrow> (if hp_non_causal_type (kv_hp kv) = LLAMA_NON_CAUSAL_TYPE_SWA_ONLY
     then causal \<or> kv_swa_type kv = LLAMA_SWA_TYPE_NONE else causal)"

definition attends :: "llama_kv_cache \<Rightarrow> llama_ubatch \<Rightarrow> bool \<Rightarrow> nat \<Rightarrow> acell \<Rightarrow> bool" where
  "attends kv ub causal i x \<longleftrightarrow> (let p0 = a_pos x; p1 = ub_pos ub ! i; n = ub_n_tokens ub in
     ask_seq ub i \<in> a_seq x
   \<and> (causal_mode kv causal \<longrightarrow> p0 < p1 \<or> p0 = p1 \<and>
        (is_pos_2d ub \<longrightarrow> \<not> is_2d_gt (a_ext x) (ub_pos ub ! (i + n * 2)) (ub_pos ub ! (i + n))))
   \<and> (swa_masked (kv_n_swa kv) (kv_swa_type kv) p0 p1 \<longrightarrow> \<not> causal_mode kv causal
        \<and> hp_non_causal_type (kv_hp kv) = LLAMA_NON_CAUSAL_TYPE_SWA_FULL \<and> ub_pos_min ub (ask_seq ub i) \<le> p0))"

definition mask_rule :: "llama_kv_cache \<Rightarrow> llama_ubatch \<Rightarrow> bool \<Rightarrow> nat \<Rightarrow> acell \<Rightarrow> mask_val" where
  "mask_rule kv ub causal i x = (if \<not> attends kv ub causal i x then MaskDrop
     else if hp_use_alibi (kv_hp kv) then MaskAlibi (- \<bar>a_pos x - ub_pos ub ! i\<bar>) else MaskKeep)"

text \<open>
  C28: The KQ mask. For every token of the ubatch and every cell, the mask that the optimised
  code computes, which copies the row of an earlier token of the sequence and updates only
  the cells it recorded, is the mask of the plain rule.
\<close>
theorem kq_mask_correct:
  assumes "kv_inv kv" "ub_asks_ok kv ub" "swa_ok (kv_n_swa kv) (kv_swa_type kv)"
    and "\<forall>t < kv_n_stream kv. \<forall>x \<in> set (kv_cells kv t). a_pos x + int (kv_n_swa kv) + 32 \<le> INT32_MAX"
    and "n_kv \<le> kv_length kv" "n_stream \<noteq> 0" "ub_n_tokens ub mod n_stream = 0" "length data = n_kv * ub_n_tokens ub"
  shows "\<exists>d. kv_set_input_kq_mask kv ub causal n_kv n_stream data = Some d \<and> length d = n_kv * ub_n_tokens ub
    \<and> (\<forall>i < ub_n_tokens ub. \<forall>j < n_kv. d ! (n_kv * i + j)
         = mask_rule kv ub causal i (kv_cells kv (kv_stream kv (ask_seq ub i)) ! j))"
proof -
  let ?tps = "ub_n_tokens ub div n_stream" and ?alibi = "hp_use_alibi (kv_hp kv)"
  let ?a = "\<lparr>ka_non_causal_type = hp_non_causal_type (kv_hp kv), ka_ubatch = ub, ka_v_cells = kv_v_cells kv,
    ka_seq_to_stream = kv_seq_to_stream kv, ka_n_swa = kv_n_swa kv, ka_swa_type = kv_swa_type kv,
    ka_n_kv = n_kv, ka_n_stream = n_stream, ka_n_tps = ?tps\<rparr>"
  have mode: "(if \<not> causal \<and> hp_non_causal_type (kv_hp kv) = LLAMA_NON_CAUSAL_TYPE_SWA_ONLY
      then kv_swa_type kv = LLAMA_SWA_TYPE_NONE else causal) = causal_mode kv causal"
    by (simp add: causal_mode_def)
  have ok: "mask_ok kv ?a"
    using assms dvd_mult_div_cancel [of n_stream "ub_n_tokens ub"]
    by (simp add: mask_ok_def kv_inv_def window_ok_def mod_eq_0_iff_dvd)
  obtain d where d: "kq_mask_impl ?a (causal_mode kv causal) (kv_swa_type kv \<noteq> LLAMA_SWA_TYPE_NONE) (is_pos_2d ub) ?alibi data = Some d"
    "length d = length data" "\<forall>i < ub_n_tokens ub. row_done kv ?a (causal_mode kv causal) ?alibi d i"
    using kq_mask_impl_run [OF ok, of data "causal_mode kv causal" ?alibi] assms(8) by auto
  have "kv_set_input_kq_mask kv ub causal n_kv n_stream data = Some d"
    unfolding kv_set_input_kq_mask_def Let_def mode using assms(6,7) d(1) by simp
  moreover have "ask_mask kv ?a (causal_mode kv causal) ?alibi i j
      = mask_rule kv ub causal i (kv_cells kv (kv_stream kv (ask_seq ub i)) ! j)" for i j
    by (auto simp: ask_mask_def mask_rule_def cell_mask_def cell_hidden_def attends_def ask_query_def seq_cells_def Let_def)
  ultimately show ?thesis using d(2,3) assms(8) by (simp add: row_done_def)
qed

text \<open>Two tokens that continue sequence 0 of a unified cache: the second row is a copy, updated.\<close>

definition ub_two :: llama_ubatch where
  "ub_two = ubatch_nil\<lparr>ub_n_tokens := 2, ub_n_seq_tokens := 2, ub_n_seqs := 1, ub_n_seqs_unq := 1,
     ub_n_pos := 1, ub_token := Some [7, 8], ub_pos := [1, 2], ub_seq_id := [[0], [0]], ub_seq_id_unq := [0],
     ub_output := [False, True], ub_batch_idxs := [0, 1]\<rparr>"

lemma ub_two_sel [simp]:
  "ub_n_tokens ub_two = 2" "ub_pos ub_two = [1, 2]" "ub_seq_id ub_two = [[0], [0]]" "\<not> is_pos_2d ub_two"
  "ask_seq ub_two 0 = 0" "ask_seq ub_two (Suc 0) = 0" "ub_token ub_two = Some [7, 8]" "ub_type ub_two = None"
  by (simp_all add: ub_two_def is_pos_2d_def ask_seq_def ubatch_nil_def)

lemma ub_two_asks: "kv_has_seq kv 0 \<Longrightarrow> ub_asks_ok kv ub_two"
  by (auto simp: ub_asks_ok_def less_Suc_eq numeral_2_eq_2 INT32_MAX_def)

theorem kq_mask_correct_witness:
  "\<exists>d. kv_set_input_kq_mask kv_demo ub_two True 4 1 (replicate 8 MaskDrop) = Some d
    \<and> d = [MaskKeep, MaskKeep, MaskDrop, MaskDrop, MaskKeep, MaskKeep, MaskKeep, MaskDrop]"
proof -
  have none: "kv_swa_type kv_demo = LLAMA_SWA_TYPE_NONE" "kv_n_swa kv_demo = 0" "\<not> hp_use_alibi demo_hp"
    "causal_mode kv_demo True"
    by (simp_all add: kv_demo_def demo_hp_def causal_mode_def)
  have win: "\<forall>t < kv_n_stream kv_demo. \<forall>x \<in> set (kv_cells kv_demo t). a_pos x + int (kv_n_swa kv_demo) + 32 \<le> INT32_MAX"
    by (simp add: none INT32_MAX_def)
  have swa: "swa_ok (kv_n_swa kv_demo) (kv_swa_type kv_demo)" by (simp add: none swa_ok_def INT32_MAX_def)
  have has: "kv_has_seq kv_demo 0" by (simp add: LLAMA_MAX_SEQ_def)
  obtain d where d: "kv_set_input_kq_mask kv_demo ub_two True 4 1 (replicate 8 MaskDrop) = Some d" "length d = 8"
    "\<forall>i < 2. \<forall>j < 4. d ! (4 * i + j) = mask_rule kv_demo ub_two True i (kv_cells kv_demo (kv_stream kv_demo (ask_seq ub_two i)) ! j)"
    using kq_mask_correct [OF demo_inv(1) ub_two_asks [OF has] swa win, of 4 1 "replicate 8 MaskDrop" True]
    by (auto simp: demo_length)
  have rule: "mask_rule kv_demo ub_two True i x = (if 0 \<in> a_seq x \<and> a_pos x \<le> [1, 2] ! i then MaskKeep else MaskDrop)" if "i < 2" for i x
    using that by (auto simp: mask_rule_def attends_def none swa_masked_def less_Suc_eq numeral_2_eq_2 Let_def)
  have v: "d ! (4 * i + j) = (let x = kv_cells kv_demo 0 ! j in if 0 \<in> a_seq x \<and> a_pos x \<le> [1, 2] ! i then MaskKeep else MaskDrop)"
    if "i < 2" "j < 4" for i j
    using d(3) that by (simp add: rule Let_def)
  have "d = map (\<lambda>k. d ! k) [0..<8]" using d(2) map_nth [of d] by simp
  also have "\<dots> = [d ! (4 * 0 + 0), d ! (4 * 0 + 1), d ! (4 * 0 + 2), d ! (4 * 0 + 3), d ! (4 * 1 + 0), d ! (4 * 1 + 1), d ! (4 * 1 + 2), d ! (4 * 1 + 3)]"
    by (simp add: upt_rec eval_nat_numeral)
  also have "\<dots> = [MaskKeep, MaskKeep, MaskDrop, MaskDrop, MaskKeep, MaskKeep, MaskKeep, MaskDrop]"
    using v [of 0 0] v [of 0 1] v [of 0 2] v [of 0 3] v [of 1 0] v [of 1 1] v [of 1 2] v [of 1 3]
    by (simp add: eval_nat_numeral)
  finally show ?thesis using d(1) by blast
qed

subsection \<open>The shift tensor\<close>

lemma k_shift_run:
  assumes wf: "kv_wf kv" and len: "length data = kv_n_stream kv * kv_length kv" and fit: "length data \<le> 4294967296"
  shows "\<exists>d. kv_set_input_k_shift kv data = Some d \<and> length d = length data
    \<and> (\<forall>t < kv_n_stream kv. \<forall>i < kv_length kv. d ! (t * kv_length kv + i)
         = (let x = kv_cells kv t ! i in if a_pos x = -1 then 0 else a_shift x))"
proof -
  let ?L = "kv_length kv" and ?n = "kv_n_stream kv"
  let ?f = "\<lambda>t i. let x = kv_cells kv t ! i in if a_pos x = -1 then 0 else a_shift x"
  let ?body = "\<lambda>s data. do { c \<leftarrow> nth_opt (kv_v_cells kv) s; for_opt (k_shift_elem c s) [0..<cells_size c] data }"
  let ?P = "\<lambda>t d. length d = length data \<and> (\<forall>u < t. \<forall>i < ?L. d ! (u * ?L + i) = ?f u i)"
  have step: "\<exists>d'. ?body t d = Some d' \<and> ?P (Suc t) d'" if t: "t < ?n" and d: "?P t d" for t d
  proof -
    note st = kv_stream_get(1,4) [OF wf t] and r = kv_cells_repr [OF wf t]
    have elem: "k_shift_elem (kv_v_cells kv ! t) t i e = Some (e[t * ?L + i := ?f t i])"
      if i: "i < ?L" and e: "length e = length data" for i e
    proof -
      have lt: "t * ?L + i < length data" using row_major_less [OF t i] len by simp
      have x: "-1 \<le> a_pos (kv_cells kv t ! i)" "i < length (kv_cells kv t)"
        using i st(2) r(2) by (auto simp: cell_ok_def acell_ok_def)
      have sz: "cells_size (kv_v_cells kv ! t) = ?L" using r(3) st(2) by simp
      have idx: "(t * ?L + i) mod 4294967296 = t * ?L + i" using lt fit by simp
      obtain hs where c: "kv_v_cells kv ! t = cells_repr hs (kv_cells kv t)" using r(1) by metis
      show ?thesis
        using x lt e unfolding k_shift_elem_def sz idx by (auto simp: c Let_def)
    qed
    have "\<exists>e. for_opt (k_shift_elem (kv_v_cells kv ! t) t) [0..<?L] d = Some e \<and> length e = length d
        \<and> (\<forall>i \<in> set [0..<?L]. e ! (t * ?L + i) = ?f t i) \<and> (\<forall>k. k \<notin> (\<lambda>i. t * ?L + i) ` set [0..<?L] \<longrightarrow> e ! k = d ! k)"
      by (rule for_opt_writes) (use elem d row_major_less [OF t] len in \<open>auto simp: inj_on_def\<close>)
    then obtain e where e: "for_opt (k_shift_elem (kv_v_cells kv ! t) t) [0..<?L] d = Some e" "length e = length d"
      "\<forall>i < ?L. e ! (t * ?L + i) = ?f t i" "\<forall>k. k \<notin> (\<lambda>i. t * ?L + i) ` {0..<?L} \<longrightarrow> e ! k = d ! k"
      by auto
    have "e ! (u * ?L + i) = ?f u i" if u: "u < Suc t" "i < ?L" for u i
    proof (cases "u = t")
      case True
      then show ?thesis using e(3) u(2) by simp
    next
      case False
      then have lt: "u < t" using u(1) by simp
      have "u * ?L + i \<notin> (\<lambda>i. t * ?L + i) ` {0..<?L}"
      proof
        assume "u * ?L + i \<in> (\<lambda>i. t * ?L + i) ` {0..<?L}"
        then obtain j where j: "j < ?L" "u * ?L + i = t * ?L + j" by (auto simp only: image_iff atLeastLessThan_iff)
        then show False using row_major_inj [OF u(2) j(1), of u t] lt by simp
      qed
      then show ?thesis using e(4) d lt u(2) by simp
    qed
    moreover have "cells_size (kv_v_cells kv ! t) = ?L" using r(3) st(2) by simp
    ultimately show ?thesis using e(1,2) d st(1) by simp
  qed
  have "\<exists>d. for_opt ?body [0..<?n] data = Some d \<and> ?P ?n d"
    by (rule for_opt_upt_total [where P = ?P]) (use step in auto)
  then show ?thesis by (auto simp: kv_set_input_k_shift_def)
qed

subsection \<open>The tokens before a token\<close>

text \<open>
  The position \<open>d\<close> tokens before token \<open>i\<close>: for a text ubatch by counting positions; for one with
  embeddings by the order of the tokens of its sequence in the ubatch, and by counting from
  the first of them beyond that.
\<close>

definition prev_position :: "llama_ubatch \<Rightarrow> nat \<Rightarrow> nat \<Rightarrow> llama_pos" where
  "prev_position ub i d =
     (if ub_token ub = None \<or> ub_is_mixed ub
      then let earlier = filter (\<lambda>k. ask_seq ub k = ask_seq ub i) [0..<i] in
        if d \<le> length earlier then ub_pos ub ! ((earlier @ [i]) ! (length earlier - d))
        else ub_pos ub ! ((earlier @ [i]) ! 0) + int (length earlier) - int d
      else ub_pos ub ! i - int d)"

definition same_seq :: "llama_ubatch \<Rightarrow> nat \<Rightarrow> nat \<Rightarrow> nat list" where
  "same_seq ub n s = filter (\<lambda>k. ask_seq ub k = s) [0..<n]"

lemma order_loop:
  assumes "ub_asks_ok kv ub" "n \<le> ub_n_tokens ub"
  shows "\<exists>si. for_opt (order_step ub) [0..<n] ([], \<lambda>_. []) = Some (map (\<lambda>i. length (same_seq ub i (ask_seq ub i))) [0..<n], si)
    \<and> (\<forall>s. si (int s) = same_seq ub n s)"
  using assms(2)
proof (induction n)
  case 0
  then show ?case by (simp add: same_seq_def)
next
  case (Suc n)
  then obtain si where si: "for_opt (order_step ub) [0..<n] ([], \<lambda>_. []) = Some (map (\<lambda>i. length (same_seq ub i (ask_seq ub i))) [0..<n], si)"
    "\<forall>s. si (int s) = same_seq ub n s" by auto
  have n: "n < ub_n_tokens ub" using Suc.prems by simp
  note t = ub_asksD(1,2) [OF assms(1) n]
  let ?u = "ask_seq ub n"
  have "order_step ub n (map (\<lambda>i. length (same_seq ub i (ask_seq ub i))) [0..<n], si)
    = Some (map (\<lambda>i. length (same_seq ub i (ask_seq ub i))) [0..<Suc n], si(int ?u := si (int ?u) @ [n]))"
    using si(2) by (simp add: order_step_def t)
  moreover have "\<forall>s. (si(int ?u := si (int ?u) @ [n])) (int s) = same_seq ub (Suc n) s"
    using si(2) by (auto simp: same_seq_def)
  ultimately show ?case using si(1) by (simp add: for_opt_append)
qed

lemma same_seq_split:
  assumes "i < n"
  obtains rest where "same_seq ub n (ask_seq ub i) = same_seq ub i (ask_seq ub i) @ i # rest"
proof -
  have "[0..<n] = [0..<i] @ [i] @ [Suc i..<n]"
    using assms by (metis append_Cons append_Nil le_add1 less_imp_add_positive less_or_eq_imp_le upt_add_eq_append upt_conv_Cons zero_le plus_nat.add_0)
  then show thesis by (intro that) (simp add: same_seq_def)
qed

lemma prev_pos_eq:
  assumes asks: "ub_asks_ok kv ub" and i: "i < ub_n_tokens ub" and d: "int d \<le> INT32_MAX"
    and ord: "by_order \<Longrightarrow> nth_opt ord i = Some (length (same_seq ub i (ask_seq ub i)))"
    and si: "by_order \<Longrightarrow> si (int (ask_seq ub i)) = same_seq ub (ub_n_tokens ub) (ask_seq ub i)"
    and by_order: "by_order \<longleftrightarrow> ub_token ub = None \<or> ub_is_mixed ub"
  shows "prev_pos ub by_order ord si (int (ask_seq ub i)) i (int d) = Some (prev_position ub i d)"
proof (cases by_order)
  case False
  note t = ub_asksD(5,6,7) [OF asks i]
  have "i32 (ub_pos ub ! i - int d) = Some (ub_pos ub ! i - int d)"
    by (rule i32_ok) (use t d in \<open>simp_all add: INT32_MIN_def INT32_MAX_def\<close>)
  moreover have plain: "\<not> (ub_token ub = None \<or> ub_is_mixed ub)" using False by_order by simp
  ultimately show ?thesis
    unfolding prev_pos_def prev_position_def if_not_P [OF False] if_not_P [OF plain] by (simp add: t)
next
  case True
  then have emb: "ub_token ub = None \<or> ub_is_mixed ub" using by_order by simp
  let ?e = "same_seq ub i (ask_seq ub i)"
  obtain rest where v: "same_seq ub (ub_n_tokens ub) (ask_seq ub i) = ?e @ i # rest" by (rule same_seq_split [OF i])
  have mem: "m < ub_n_tokens ub" if "m \<in> set (?e @ [i])" for m using that i by (auto simp: same_seq_def)
  have at: "nth_opt (?e @ i # rest) k = Some ((?e @ [i]) ! k)" "(?e @ [i]) ! k < ub_n_tokens ub" if "k \<le> length ?e" for k
  proof -
    show "nth_opt (?e @ i # rest) k = Some ((?e @ [i]) ! k)" using that by (simp add: nth_append nth_opt_def)
    show "(?e @ [i]) ! k < ub_n_tokens ub" by (rule mem, rule nth_mem) (use that in simp)
  qed
  show ?thesis
  proof (cases "d \<le> length ?e")
    case d_le: True
    then have "nat (int (length ?e) - int d) = length ?e - d" by simp
    then show ?thesis
      using True d_le ord si v at [of "length ?e - d"] ub_asksD(5) [OF asks, of "(?e @ [i]) ! (length ?e - d)"]
      unfolding prev_pos_def prev_position_def if_P [OF emb] if_P [OF True]
      by (simp add: same_seq_def Let_def)
  next
    case d_gt: False
    let ?p = "ub_pos ub ! ((?e @ [i]) ! 0)"
    note t = ub_asksD(5,6,7) [OF asks at(2) [of 0]]
    have "i32 (?p + (int (length ?e) - int d)) = Some (?p + (int (length ?e) - int d))"
      by (rule i32_ok) (use t d d_gt in \<open>simp_all add: INT32_MIN_def INT32_MAX_def\<close>)
    then show ?thesis
      using True d_gt ord si v at [of 0] t(1)
      unfolding prev_pos_def prev_position_def if_P [OF emb] if_P [OF True]
      by (simp add: same_seq_def Let_def add_diff_eq)
  qed
qed

lemma tok_up_to_neg: "\<forall>x \<in> set xs. acell_ok x \<Longrightarrow> p < 0 \<Longrightarrow> tok_up_to xs s p = LLAMA_TOKEN_NULL"
  by (force simp: tok_up_to_def cells_up_to_def acell_ok_def dest: nth_mem)

text \<open>What \<open>get_prev_tokens\<close> computes, for every token and distance.\<close>

lemma get_prev_tokens_eq:
  assumes "kv_inv kv" "ub_asks_ok kv ub" "kv_length kv \<le> 4294967296" "int n \<le> INT32_MAX"
  shows "\<exists>res. kv_get_prev_tokens kv ub n = Some res \<and> length res = ub_n_tokens ub * n
    \<and> (\<forall>i < ub_n_tokens ub. \<forall>j < n. res ! (i * n + j)
         = tok_up_to (kv_cells kv (kv_stream kv (ask_seq ub i))) (ask_seq ub i) (prev_position ub i (n - j)))"
proof (cases "n = 0")
  case True
  then show ?thesis by (simp add: kv_get_prev_tokens_def)
next
  case False
  let ?m = "ub_n_tokens ub" and ?ordered = "ub_token ub = None \<or> ub_is_mixed ub"
  let ?val = "\<lambda>(i, j). tok_up_to (kv_cells kv (kv_stream kv (ask_seq ub i))) (ask_seq ub i) (prev_position ub i (n - j))"
  let ?res = "replicate (?m * n) LLAMA_TOKEN_NULL"
  have wf: "kv_wf kv" using assms(1) by (simp add: kv_inv_def)
  obtain ord si where os: "(if ?ordered then for_opt (order_step ub) [0..<?m] ([], \<lambda>_. []) else Some ([], \<lambda>_. [])) = Some (ord, si)"
    "?ordered \<Longrightarrow> \<forall>i < ?m. nth_opt ord i = Some (length (same_seq ub i (ask_seq ub i)))"
    "?ordered \<Longrightarrow> \<forall>s. si (int s) = same_seq ub ?m s"
    using order_loop [OF assms(2) order_refl] by (cases ?ordered) auto
  let ?body = "prev_token kv ub ?ordered ord si n"
  let ?ps = "concat (map (\<lambda>i. map (Pair i) [0..<n]) [0..<?m])"
  have step: "?body i j e = Some (if prev_position ub i (n - j) < 0 then e else e[i * n + j := ?val (i, j)])"
    if ij: "i < ?m" "j < n" and e: "length e = length ?res" for i j e
  proof -
    note t = ub_asksD [OF assms(2) ij(1)]
    note l = kv_lookup [OF wf t(4)]
    obtain hs where c: "kv_v_cells kv ! kv_stream kv (ask_seq ub i) = cells_repr hs (kv_cells kv (kv_stream kv (ask_seq ub i)))"
      using kv_cells_repr(1) [OF wf l(2)] by metis
    have pos: "prev_pos ub ?ordered ord si (int (ask_seq ub i)) i (int (n - j)) = Some (prev_position ub i (n - j))"
      by (rule prev_pos_eq [OF assms(2) ij(1)]) (use os(2,3) ij(1) assms(4) in auto)
    have tok: "cells_seq_pos_tok_le (int (ask_seq ub i)) p (kv_v_cells kv ! kv_stream kv (ask_seq ub i))
        = Some (tok_up_to (kv_cells kv (kv_stream kv (ask_seq ub i))) (ask_seq ub i) p)" for p
      using cells_seq_pos_tok_le_repr [of "int (ask_seq ub i)" _ p hs] l(3) assms(3) kv_stream_get(4) [OF wf l(2)] by (simp add: c)
    have "i * n + j < length e" using row_major_less [OF ij] e by simp
    then show ?thesis
      using t(1,2) l(1) kv_stream_get(1) [OF wf l(2)] by (simp add: prev_token_def pos tok)
  qed
  let ?P = "\<lambda>k e. length e = length ?res \<and> (\<forall>i < k. \<forall>j < n. e ! (i * n + j) = ?val (i, j))
      \<and> (\<forall>i j. k \<le> i \<longrightarrow> i < ?m \<longrightarrow> j < n \<longrightarrow> e ! (i * n + j) = LLAMA_TOKEN_NULL)"
  have null: "?val (i, j) = LLAMA_TOKEN_NULL" if "i < ?m" "prev_position ub i (n - j) < 0" for i j
  proof -
    have "kv_stream kv (ask_seq ub i) < kv_n_stream kv" using kv_lookup(2) [OF wf ub_asksD(4) [OF assms(2) that(1)]] .
    then have "\<forall>x \<in> set (kv_cells kv (kv_stream kv (ask_seq ub i))). acell_ok x"
      using kv_cells_repr(2) [OF wf] by (auto simp: cell_ok_def)
    then show ?thesis using tok_up_to_neg that(2) by simp
  qed
  have row: "\<exists>e'. for_opt (?body i) [0..<n] e = Some e' \<and> ?P (Suc i) e'" if i: "i < ?m" and e: "?P i e" for i e
  proof -
    let ?Q = "\<lambda>k d. length d = length ?res \<and> (\<forall>j < k. d ! (i * n + j) = ?val (i, j))
        \<and> (\<forall>j. k \<le> j \<longrightarrow> j < n \<longrightarrow> d ! (i * n + j) = LLAMA_TOKEN_NULL)
        \<and> (\<forall>i' j. i' \<noteq> i \<longrightarrow> j < n \<longrightarrow> d ! (i' * n + j) = e ! (i' * n + j))"
    have "\<exists>e'. for_opt (?body i) [0..<n] e = Some e' \<and> ?Q n e'"
    proof (rule for_opt_upt_total [where P = ?Q])
      show "?Q 0 e" using e i by simp
      show "\<exists>d'. ?body i j d = Some d' \<and> ?Q (Suc j) d'" if j: "j < n" and d: "?Q j d" for j d
      proof -
        let ?d = "if prev_position ub i (n - j) < 0 then d else d[i * n + j := ?val (i, j)]"
        have lt: "i * n + j < length d" using row_major_less [OF i j] d by simp
        have at: "?d ! (i * n + j) = ?val (i, j)" using lt null [OF i] d j by simp
        have other: "?d ! (i' * n + j') = d ! (i' * n + j')" if "j' < n" "i' \<noteq> i \<or> j' \<noteq> j" for i' j'
          using row_major_inj [OF that(1) j, of i' i] that(2) by auto
        have "?Q (Suc j) ?d" using d at other by (auto simp: less_Suc_eq)
        then show ?thesis using step [OF i j] d by auto
      qed
    qed
    then obtain e' where e': "for_opt (?body i) [0..<n] e = Some e'" "?Q n e'" by blast
    have "?P (Suc i) e'" using e e'(2) by (auto simp: less_Suc_eq)
    then show ?thesis using e'(1) by blast
  qed
  have "\<exists>res. for_opt (\<lambda>i. for_opt (?body i) [0..<n]) [0..<?m] ?res = Some res \<and> ?P ?m res"
  proof (rule for_opt_upt_total [where P = ?P])
    show "?P 0 ?res" using row_major_less [of _ ?m _ n] by simp
  qed (use row in blast)
  then show ?thesis using False os(1) by (auto simp: kv_get_prev_tokens_def Let_def)
qed



text \<open>Sequence 0 holds the tokens 5, 6, 9 at the positions 0, 1, 2.\<close>

definition tok_cell :: "llama_pos \<Rightarrow> llama_token \<Rightarrow> acell" where
  "tok_cell p tok = \<lparr>a_pos = p, a_ext = ext_default\<lparr>ext_tok := tok\<rparr>, a_shift = 0, a_seq = {0}\<rparr>"

definition kv_tok_demo :: llama_kv_cache where
  "kv_tok_demo = set_stream 0 (cells_repr False [tok_cell 0 5, tok_cell 1 6, tok_cell 2 9, empty_cell]) 3 kv_demo"

lemma tok_demo_sel [simp]:
  "kv_n_stream kv_tok_demo = 1" "kv_stream kv_tok_demo s = 0" "kv_length kv_tok_demo = 4"
  "kv_cells kv_tok_demo 0 = [tok_cell 0 5, tok_cell 1 6, tok_cell 2 9, empty_cell]"
  "a_pos (tok_cell p tok) = p" "a_seq (tok_cell p tok) = {0}" "ext_tok (a_ext (tok_cell p tok)) = tok"
proof -
  have v: "length (kv_v_cells kv_demo) = 1" by (simp add: kv_demo_def)
  show "kv_cells kv_tok_demo 0 = [tok_cell 0 5, tok_cell 1 6, tok_cell 2 9, empty_cell]"
    unfolding kv_tok_demo_def by (subst kv_cells_set_stream) (simp_all add: v)
  show "kv_length kv_tok_demo = 4" by (simp add: kv_tok_demo_def kv_length_def kv_demo_def set_stream_def)
qed (simp_all add: kv_tok_demo_def tok_cell_def kv_stream_def)


lemma cells_up_to_code:
  "cells_up_to xs s p = set (map (\<lambda>i. (a_pos (xs ! i), i)) (filter (\<lambda>i. s \<in> a_seq (xs ! i) \<and> a_pos (xs ! i) \<le> p) [0..<length xs]))"
  by (auto simp: cells_up_to_def)


text \<open>
  An image split over two ubatches. The sequence holds token 5 at position 0 and three tokens 9
  of an image at position 1; for an embedding ubatch with the last of them alone, the tokens
  before the ubatch are found by counting positions back from 1, which skips the rest of the
  image: the answer is no token and 5, where the two preceding tokens are 9 and 9.
\<close>

definition kv_image_demo :: llama_kv_cache where
  "kv_image_demo = set_stream 0 (cells_repr False [tok_cell 0 5, tok_cell 1 9, tok_cell 1 9, tok_cell 1 9]) 3 kv_demo"

definition ub_image :: llama_ubatch where
  "ub_image = (ub_one 0 1)\<lparr>ub_token := None\<rparr>"

theorem prev_tokens_split_image:
  "kv_inv kv_image_demo \<and> map (\<lambda>x. (a_pos x, ext_tok (a_ext x))) (kv_cells kv_image_demo 0) = [(0, 5), (1, 9), (1, 9), (1, 9)]
   \<and> kv_get_prev_tokens kv_image_demo ub_image 2 = Some [LLAMA_TOKEN_NULL, 5]"
proof -
  have wf: "kv_wf kv_demo" and own: "kv_other kv_demo = None" using demo_inv(1) by (simp_all add: kv_inv_def)
  have v: "length (kv_v_cells kv_demo) = 1" by (simp add: kv_demo_def)
  have cells: "kv_cells kv_image_demo 0 = [tok_cell 0 5, tok_cell 1 9, tok_cell 1 9, tok_cell 1 9]"
    unfolding kv_image_demo_def by (subst kv_cells_set_stream) (simp_all add: v)
  have len: "kv_length kv_image_demo = 4" by (simp add: kv_image_demo_def kv_length_def kv_demo_def set_stream_def)
  have st: "kv_n_stream kv_image_demo = 1" "kv_stream kv_image_demo s = 0" for s
    by (simp_all add: kv_image_demo_def kv_stream_def)
  have "kv_wf kv_image_demo"
    unfolding kv_image_demo_def
    by (rule kv_wf_set_stream [OF wf]) (simp_all add: cell_ok_def acell_ok_def tok_cell_def INT32_MAX_def LLAMA_MAX_SEQ_def)
  then have inv: "kv_inv kv_image_demo" using own by (simp add: kv_inv_def kv_image_demo_def)
  have ask: "ub_n_tokens ub_image = 1" "ask_seq ub_image 0 = 0" "ub_token ub_image = None" "ub_pos ub_image = [1]"
    "ub_seq_id ub_image = [[0]]" "is_pos_2d ub_image = False"
    by (simp_all add: ub_image_def ask_seq_def is_pos_2d_def)
  have asks: "ub_asks_ok kv_image_demo ub_image"
    by (simp add: ub_asks_ok_def ask kv_has_seq_def st LLAMA_MAX_SEQ_def INT32_MAX_def)
  have "kv_length kv_image_demo \<le> 4294967296" "int 2 \<le> INT32_MAX" by (simp_all add: len INT32_MAX_def)
  from get_prev_tokens_eq [OF inv asks this] obtain res where
    res: "kv_get_prev_tokens kv_image_demo ub_image 2 = Some res" "length res = 2"
    "\<forall>j < 2. res ! j = tok_up_to (kv_cells kv_image_demo 0) 0 (prev_position ub_image 0 (2 - j))"
    by (auto simp: ask st)
  have "prev_position ub_image 0 d = 1 - int d" for d
    by (simp add: prev_position_def ask Let_def)
  then have "res ! 0 = LLAMA_TOKEN_NULL" "res ! 1 = 5"
    using res(3) [rule_format, of 0] res(3) [rule_format, of 1]
    by (simp_all add: cells tok_up_to_def cells_up_to_code upt_rec less_eq_prod_def)
  then have "res = [LLAMA_TOKEN_NULL, 5]" using res(2) by (auto simp: length_Suc_conv numeral_2_eq_2)
  then show ?thesis using res(1) inv cells by simp
qed

end
