(* ===== verification/KvIswa.thy ===== *)
theory KvIswa
  imports KvSlots
begin

section \<open>The KV cache of models with a sliding window\<close>

text \<open>
  \<open>src/llama-kv-cache-iswa.cpp\<close>: two caches side by side, one for the layers that see the whole context and one
  for the layers with a sliding window, each command going to both. The theory has the constructor, the commands
  on sequences, the preparation of a batch and the contexts. What the queries rely on, as a comment says, is that
  the window cache holds no position the other one lacks.
\<close>

record llama_kv_cache_iswa =
  iw_unified :: bool
  iw_base :: llama_kv_cache
  iw_swa :: llama_kv_cache

subsection \<open>Construction and commands\<close>

definition iswa_size_swa :: "bool \<Rightarrow> bool \<Rightarrow> nat \<Rightarrow> nat \<Rightarrow> nat \<Rightarrow> nat \<Rightarrow> nat" where
  "iswa_size_swa swa_full unified size_base n_seq_max n_ubatch n_swa =
     (let size_swa = GGML_PAD (min size_base ((n_swa * (if unified then n_seq_max else 1) + n_ubatch) mod 2 ^ 32)) 256 in
      if swa_full then size_base else size_swa)"

definition iswa_new :: "kv_hparams \<Rightarrow> bool \<Rightarrow> bool \<Rightarrow> nat \<Rightarrow> nat \<Rightarrow> nat \<Rightarrow> nat \<Rightarrow> nat \<Rightarrow> llama_swa_type
    \<Rightarrow> llama_kv_cache_iswa option \<Rightarrow> llama_kv_cache_iswa option" where
  "iswa_new hp swa_full unified kv_size n_seq_max n_ubatch n_pad n_swa swa_type mem_other = do {
     base \<leftarrow> kv_new hp unified kv_size n_seq_max n_pad 0 LLAMA_SWA_TYPE_NONE (map_option iw_base mem_other);
     swa \<leftarrow> kv_new hp unified (iswa_size_swa swa_full unified kv_size n_seq_max n_ubatch n_swa) n_seq_max n_pad
       n_swa swa_type (map_option iw_swa mem_other);
     Some \<lparr>iw_unified = unified, iw_base = base, iw_swa = swa\<rparr> }"

text \<open>A command goes to the base cache first.\<close>

definition both :: "(llama_kv_cache \<Rightarrow> llama_kv_cache option) \<Rightarrow> llama_kv_cache_iswa \<Rightarrow> llama_kv_cache_iswa option" where
  "both f m = do {
     base \<leftarrow> f (iw_base m);
     swa \<leftarrow> f (iw_swa m);
     Some (m\<lparr>iw_base := base, iw_swa := swa\<rparr>) }"

definition iswa_clear :: "llama_kv_cache_iswa \<Rightarrow> llama_kv_cache_iswa option" where
  "iswa_clear = both kv_clear"

definition iswa_seq_rm :: "llama_seq_id \<Rightarrow> llama_pos \<Rightarrow> llama_pos \<Rightarrow> llama_kv_cache_iswa
    \<Rightarrow> (bool \<times> llama_kv_cache_iswa) option" where
  "iswa_seq_rm s p0 p1 m = do {
     (r0, base) \<leftarrow> kv_seq_rm s p0 p1 (iw_base m);
     (r1, swa) \<leftarrow> kv_seq_rm s p0 p1 (iw_swa m);
     Some (r0 \<and> r1, m\<lparr>iw_base := base, iw_swa := swa\<rparr>) }"

definition iswa_seq_cp :: "llama_seq_id \<Rightarrow> llama_seq_id \<Rightarrow> llama_pos \<Rightarrow> llama_pos \<Rightarrow> llama_kv_cache_iswa
    \<Rightarrow> llama_kv_cache_iswa option" where
  "iswa_seq_cp src dst p0 p1 = both (kv_seq_cp src dst p0 p1)"

definition iswa_seq_keep :: "llama_seq_id \<Rightarrow> llama_kv_cache_iswa \<Rightarrow> llama_kv_cache_iswa option" where
  "iswa_seq_keep s = both (kv_seq_keep s)"

definition iswa_seq_add :: "llama_seq_id \<Rightarrow> llama_pos \<Rightarrow> llama_pos \<Rightarrow> llama_pos \<Rightarrow> llama_kv_cache_iswa
    \<Rightarrow> llama_kv_cache_iswa option" where
  "iswa_seq_add s p0 p1 shift = both (kv_seq_add s p0 p1 shift)"

definition iswa_seq_div :: "llama_seq_id \<Rightarrow> llama_pos \<Rightarrow> llama_pos \<Rightarrow> int \<Rightarrow> llama_kv_cache_iswa
    \<Rightarrow> llama_kv_cache_iswa option" where
  "iswa_seq_div s p0 p1 d = both (kv_seq_div s p0 p1 d)"

definition iswa_seq_pos_min :: "llama_seq_id \<Rightarrow> llama_kv_cache_iswa \<Rightarrow> llama_pos option" where
  "iswa_seq_pos_min s m = kv_seq_pos_min s (iw_swa m)"

definition iswa_seq_pos_max :: "llama_seq_id \<Rightarrow> llama_kv_cache_iswa \<Rightarrow> llama_pos option" where
  "iswa_seq_pos_max s m = kv_seq_pos_max s (iw_swa m)"

definition iswa_get_can_shift :: "llama_kv_cache_iswa \<Rightarrow> bool option" where
  "iswa_get_can_shift m =
     (if \<not> kv_get_can_shift (iw_base m) then Some False
      else if \<not> kv_get_can_shift (iw_swa m) then Some False
      else do {
        size_base \<leftarrow> kv_get_size (iw_base m);
        size_swa \<leftarrow> kv_get_size (iw_swa m);
        Some (size_base = size_swa) })"

subsection \<open>Contexts\<close>

text \<open>A context made for an error has no contexts of the two caches.\<close>

record iswa_context =
  ix_i_next :: nat
  ix_ubatches :: "llama_ubatch list"
  ix_ctx :: "(kv_context \<times> kv_context) option"
  ix_status :: llama_memory_status

definition iswa_context_failed :: "llama_memory_status \<Rightarrow> iswa_context" where
  "iswa_context_failed status = \<lparr>ix_i_next = 0, ix_ubatches = [], ix_ctx = None, ix_status = status\<rparr>"

definition iswa_context_of :: "llama_ubatch list \<Rightarrow> kv_context \<Rightarrow> kv_context \<Rightarrow> iswa_context" where
  "iswa_context_of ubatches base swa = \<lparr>ix_i_next = 0, ix_ubatches = ubatches, ix_ctx = Some (base, swa),
     ix_status = llama_memory_status_combine (kx_status base) (kx_status swa)\<rparr>"

definition iswa_context_batch :: "slot_info list \<Rightarrow> slot_info list \<Rightarrow> llama_ubatch list \<Rightarrow> iswa_context" where
  "iswa_context_batch sinfos_base sinfos_swa ubatches =
     iswa_context_of ubatches (kv_context_batch sinfos_base ubatches) (kv_context_batch sinfos_swa ubatches)"

definition iswa_init_full :: "llama_kv_cache_iswa \<Rightarrow> iswa_context option" where
  "iswa_init_full m = do {
     base \<leftarrow> kv_context_full (iw_base m);
     swa \<leftarrow> kv_context_full (iw_swa m);
     Some (iswa_context_of [] base swa) }"

definition iswa_init_update :: "llama_kv_cache_iswa \<Rightarrow> (iswa_context \<times> llama_kv_cache_iswa) option" where
  "iswa_init_update m = do {
     (x, base) \<leftarrow> kv_init_update (iw_base m);
     (y, swa) \<leftarrow> kv_init_update (iw_swa m);
     Some (iswa_context_of [] x y, m\<lparr>iw_base := base, iw_swa := swa\<rparr>) }"

definition iswa_context_next :: "iswa_context \<Rightarrow> (bool \<times> iswa_context) option" where
  "iswa_context_next x = do {
     check (ix_status x = LLAMA_MEMORY_STATUS_SUCCESS);
     (base, swa) \<leftarrow> ix_ctx x;
     (_, base) \<leftarrow> kv_context_next base;
     (_, swa) \<leftarrow> kv_context_next swa;
     (let x = x\<lparr>ix_ctx := Some (base, swa), ix_i_next := ix_i_next x + 1\<rparr> in
      if ix_i_next x \<ge> length (ix_ubatches x) then Some (False, x) else Some (True, x)) }"

definition iswa_context_apply :: "bool \<Rightarrow> iswa_context \<Rightarrow> llama_kv_cache_iswa \<Rightarrow> (iswa_context \<times> llama_kv_cache_iswa) option" where
  "iswa_context_apply computed x m = do {
     check (\<not> llama_memory_status_is_fail (ix_status x));
     (xb, xs) \<leftarrow> ix_ctx x;
     (xb, base) \<leftarrow> kv_context_apply computed xb (iw_base m);
     (xs, swa) \<leftarrow> kv_context_apply computed xs (iw_swa m);
     Some (x\<lparr>ix_ctx := Some (xb, xs)\<rparr>, m\<lparr>iw_base := base, iw_swa := swa\<rparr>) }"

definition iswa_get_ubatch :: "iswa_context \<Rightarrow> llama_ubatch option" where
  "iswa_get_ubatch x = do {
     check (ix_status x = LLAMA_MEMORY_STATUS_SUCCESS);
     nth_opt (ix_ubatches x) (ix_i_next x) }"

subsection \<open>Preparing a batch\<close>

text \<open>
  One way of splitting: drain the allocator, then find slots in the base cache, then in the window cache. \<open>None\<close>
  as the first component is the \<open>break\<close> that leads to the next way.
\<close>

definition iswa_try_split :: "(llama_batch_allocr \<Rightarrow> (llama_ubatch \<times> llama_batch_allocr) option) \<Rightarrow> llama_batch_allocr
    \<Rightarrow> llama_kv_cache_iswa \<Rightarrow> (iswa_context option \<times> llama_batch_allocr \<times> llama_kv_cache_iswa) option" where
  "iswa_try_split split balloc m = do {
     (ubatches, balloc) \<leftarrow> drain split (alloc_split_reset balloc);
     if al_n_used balloc < al_n_tokens balloc then Some (None, balloc, m)
     else do {
       (sinfos_base, base) \<leftarrow> kv_prepare ubatches (iw_base m);
       (let m = m\<lparr>iw_base := base\<rparr> in
        if sinfos_base = [] then Some (None, balloc, m)
        else do {
          (sinfos_swa, swa) \<leftarrow> kv_prepare ubatches (iw_swa m);
          (let m = m\<lparr>iw_swa := swa\<rparr> in
           if sinfos_swa = [] then Some (None, balloc, m)
           else do {
             check (length sinfos_base = length sinfos_swa);
             Some (Some (iswa_context_batch sinfos_base sinfos_swa ubatches), balloc, m) }) }) } }"

definition iswa_init_batch :: "nat \<Rightarrow> llama_batch_allocr \<Rightarrow> llama_kv_cache_iswa
    \<Rightarrow> (iswa_context \<times> llama_batch_allocr \<times> llama_kv_cache_iswa) option" where
  "iswa_init_batch n_ubatch balloc m = do {
     (r, balloc, m) \<leftarrow> (if iw_unified m then iswa_try_split (split_simple n_ubatch) balloc m else Some (None, balloc, m));
     case r of Some x \<Rightarrow> Some (x, balloc, m)
     | None \<Rightarrow> do {
         (r, balloc, m) \<leftarrow> iswa_try_split (split_equal n_ubatch (\<not> iw_unified m) 0) balloc m;
         Some (case r of Some x \<Rightarrow> x | None \<Rightarrow> iswa_context_failed LLAMA_MEMORY_STATUS_FAILED_PREPARE, balloc, m) } }"

subsection \<open>The commands on both caches\<close>

definition iswa_inv :: "llama_kv_cache_iswa \<Rightarrow> bool" where
  "iswa_inv m \<longleftrightarrow> kv_inv (iw_base m) \<and> kv_inv (iw_swa m) \<and> kv_n_stream (iw_base m) = kv_n_stream (iw_swa m)"

definition iswa_has_seq :: "llama_kv_cache_iswa \<Rightarrow> nat \<Rightarrow> bool" where
  "iswa_has_seq m = kv_has_seq (iw_swa m)"

text \<open>The queries answer for the window cache.\<close>

definition iswa_positions :: "llama_kv_cache_iswa \<Rightarrow> nat \<Rightarrow> llama_pos set" where
  "iswa_positions m = kv_positions (iw_swa m)"

lemma iswa_has_seq_base: "iswa_inv m \<Longrightarrow> kv_has_seq (iw_base m) = iswa_has_seq m"
  unfolding iswa_has_seq_def by (rule kv_has_seq_stream) (simp add: iswa_inv_def)

interpretation iswa_mem: seq_memory iswa_inv iswa_has_seq iswa_positions iswa_seq_rm iswa_seq_pos_min iswa_seq_pos_max
proof
  fix m s and p :: llama_pos
  assume m: "iswa_inv m" "iswa_has_seq m s"
  then have w: "kv_inv (iw_swa m)" "kv_has_seq (iw_swa m) s" by (simp_all add: iswa_inv_def iswa_has_seq_def)
  show "finite (iswa_positions m s)" unfolding iswa_positions_def by (rule kv_mem.finite_positions [OF w])
  show "p \<in> iswa_positions m s \<Longrightarrow> 0 \<le> p" unfolding iswa_positions_def by (rule kv_mem.positions_nonneg [OF w])
  show "iswa_seq_pos_min (int s) m = Some (set_pos_min (iswa_positions m s))"
    unfolding iswa_seq_pos_min_def iswa_positions_def by (rule kv_mem.seq_pos_min_ok [OF w])
  show "iswa_seq_pos_max (int s) m = Some (set_pos_max (iswa_positions m s))"
    unfolding iswa_seq_pos_max_def iswa_positions_def by (rule kv_mem.seq_pos_max_ok [OF w])
next
  fix m s p0 p1
  assume m: "iswa_inv m" "iswa_has_seq m s"
  then have w: "kv_inv (iw_swa m)" "kv_has_seq (iw_swa m) s" and b: "kv_inv (iw_base m)" "kv_has_seq (iw_base m) s"
    by (simp_all add: iswa_inv_def iswa_has_seq_base) (simp add: iswa_has_seq_def)
  obtain b' where b': "kv_seq_rm (int s) p0 p1 (iw_base m) = Some (True, b')" "kv_inv b'" using kv_mem.seq_rm_ok [OF b] by blast
  obtain w' where w': "kv_seq_rm (int s) p0 p1 (iw_swa m) = Some (True, w')" "kv_inv w'" "kv_has_seq w' = kv_has_seq (iw_swa m)"
    "\<forall>t. kv_has_seq (iw_swa m) t \<longrightarrow> kv_positions w' t =
        (if t = s then {p \<in> kv_positions (iw_swa m) s. \<not> pos_between p0 p1 p} else kv_positions (iw_swa m) t)"
    using kv_mem.seq_rm_ok [OF w] by blast
  have "kv_n_stream b' = kv_n_stream w'"
    using kv_seq_rm_n_stream [OF b b'(1)] kv_seq_rm_n_stream [OF w w'(1)] m(1) by (simp add: iswa_inv_def)
  then show "\<exists>m'. iswa_seq_rm (int s) p0 p1 m = Some (True, m') \<and> iswa_inv m' \<and> iswa_has_seq m' = iswa_has_seq m
      \<and> (\<forall>t. iswa_has_seq m t \<longrightarrow> iswa_positions m' t =
          (if t = s then {p \<in> iswa_positions m s. \<not> pos_between p0 p1 p} else iswa_positions m t))"
    using b' w' by (simp add: iswa_seq_rm_def iswa_inv_def iswa_has_seq_def iswa_positions_def)
qed

definition iswa_exec :: "mem_cmd \<Rightarrow> llama_kv_cache_iswa \<Rightarrow> llama_kv_cache_iswa option" where
  "iswa_exec = run_cmd iswa_seq_rm iswa_seq_keep iswa_seq_cp iswa_clear"

lemma iswa_exec_both: "iswa_exec c m = both (kv_exec c) m"
proof (cases c)
  case (Cmd_rm s p0 p1)
  then show ?thesis
    by (cases "kv_seq_rm (int s) p0 p1 (iw_base m)"; cases "kv_seq_rm (int s) p0 p1 (iw_swa m)")
      (auto simp: iswa_exec_def kv_exec_def both_def iswa_seq_rm_def split: prod.splits)
qed (simp_all add: iswa_exec_def kv_exec_def both_def iswa_seq_keep_def iswa_seq_cp_def iswa_clear_def)

text \<open>
  In a unified cache the specification is read over the base cache, whose positions decide whether a copy is
  allowed; the window cache follows the same specification, since it is monotone.
\<close>

definition iswa_ok :: "llama_kv_cache_iswa \<Rightarrow> bool" where
  "iswa_ok m \<longleftrightarrow> kv_unified (iw_base m) \<and> kv_unified (iw_swa m)
     \<and> (\<forall>s. iswa_has_seq m s \<longrightarrow> kv_positions (iw_swa m) s \<subseteq> kv_positions (iw_base m) s)"

lemma iswa_ok_inv: "iswa_ok m \<Longrightarrow> iswa_inv m"
  by (simp add: iswa_ok_def iswa_inv_def kv_unified_def)

lemma iswa_exec_run:
  assumes m: "iswa_ok m" and c: "cmd_ok (iswa_has_seq m) c (kv_positions (iw_base m))"
  obtains b w where "iswa_exec c m = Some (m\<lparr>iw_base := b, iw_swa := w\<rparr>)" "kv_exec c (iw_base m) = Some b"
    "kv_exec c (iw_swa m) = Some w" "iswa_ok (m\<lparr>iw_base := b, iw_swa := w\<rparr>)" "kv_has_seq w = iswa_has_seq m"
    "\<forall>s. iswa_has_seq m s \<longrightarrow> kv_positions b s = spec_cmd c (kv_positions (iw_base m)) s"
    "\<forall>s. iswa_has_seq m s \<longrightarrow> kv_positions w s = spec_cmd c (kv_positions (iw_swa m)) s"
proof -
  have u: "kv_unified (iw_base m)" "kv_unified (iw_swa m)"
    and sub: "\<forall>s. iswa_has_seq m s \<longrightarrow> kv_positions (iw_swa m) s \<subseteq> kv_positions (iw_base m) s" using m by (simp_all add: iswa_ok_def)
  have K: "kv_has_seq (iw_base m) = iswa_has_seq m" by (rule iswa_has_seq_base [OF iswa_ok_inv [OF m]])
  note mono = spec_cmd_mono [OF sub c]
  obtain b where b: "kv_exec c (iw_base m) = Some b" "kv_unified b"
    "\<forall>s. iswa_has_seq m s \<longrightarrow> kv_positions b s = spec_cmd c (kv_positions (iw_base m)) s"
    using kv_cmds.exec_ok [OF u(1)] c K by metis
  obtain w where w: "kv_exec c (iw_swa m) = Some w" "kv_unified w" "kv_has_seq w = kv_has_seq (iw_swa m)"
    "\<forall>s. iswa_has_seq m s \<longrightarrow> kv_positions w s = spec_cmd c (kv_positions (iw_swa m)) s"
    using kv_cmds.exec_ok [OF u(2)] mono(1) unfolding iswa_has_seq_def by blast
  have run: "iswa_exec c m = Some (m\<lparr>iw_base := b, iw_swa := w\<rparr>)" using b(1) w(1) by (simp add: iswa_exec_both both_def)
  have hw: "kv_has_seq w = iswa_has_seq m" using w(3) by (simp add: iswa_has_seq_def)
  have ok: "iswa_ok (m\<lparr>iw_base := b, iw_swa := w\<rparr>)" using b w hw mono(2) by (simp add: iswa_ok_def iswa_has_seq_def)
  show thesis by (rule that [OF run b(1) w(1) ok hw b(3) w(4)])
qed

interpretation iswa_cmds: command_memory iswa_ok iswa_has_seq "\<lambda>m. kv_positions (iw_base m)" iswa_exec
proof
  fix m c assume m: "iswa_ok m" "cmd_ok (iswa_has_seq m) c (kv_positions (iw_base m))"
  show "\<exists>m'. iswa_exec c m = Some m' \<and> iswa_ok m' \<and> iswa_has_seq m' = iswa_has_seq m
      \<and> (\<forall>t. iswa_has_seq m t \<longrightarrow> kv_positions (iw_base m') t = spec_cmd c (kv_positions (iw_base m)) t)"
  proof (rule iswa_exec_run [OF m])
    fix b w assume "iswa_exec c m = Some (m\<lparr>iw_base := b, iw_swa := w\<rparr>)" "iswa_ok (m\<lparr>iw_base := b, iw_swa := w\<rparr>)"
      "kv_has_seq w = iswa_has_seq m" "\<forall>s. iswa_has_seq m s \<longrightarrow> kv_positions b s = spec_cmd c (kv_positions (iw_base m)) s"
    then show ?thesis by (intro exI [of _ "m\<lparr>iw_base := b, iw_swa := w\<rparr>"]) (simp add: iswa_has_seq_def)
  qed
qed

subsection \<open>Moving positions in both caches\<close>

text \<open>
  \<open>seq_add\<close> and \<open>seq_div\<close> move whole cells, so a sequence that shares a cell with the one being moved moves too.
  Where no cell of the range is shared, only the positions of the sequence itself move, in the same way in both
  caches.
\<close>

definition moved_to :: "(llama_pos \<Rightarrow> llama_pos) \<Rightarrow> llama_pos \<Rightarrow> llama_pos \<Rightarrow> llama_pos set \<Rightarrow> llama_pos set" where
  "moved_to h p0 p1 P = {p \<in> P. \<not> pos_between p0 p1 p} \<union> {h p |p. p \<in> P \<and> pos_between p0 p1 p \<and> 0 \<le> h p}"

lemma moved_to_mono: "P \<subseteq> Q \<Longrightarrow> moved_to h p0 p1 P \<subseteq> moved_to h p0 p1 Q"
  by (auto simp: moved_to_def)

definition own_range :: "nat \<Rightarrow> llama_pos \<Rightarrow> llama_pos \<Rightarrow> (acell \<Rightarrow> bool) \<Rightarrow> llama_kv_cache \<Rightarrow> bool" where
  "own_range s p0 p1 safe kv \<longleftrightarrow>
     (\<forall>x \<in> set (kv_cells kv 0). in_range p0 p1 x \<and> s \<in> a_seq x \<longrightarrow> a_seq x = {s} \<and> safe x)"

lemma seq_positions_moved:
  assumes ok: "\<forall>x \<in> set xs. acell_ok x" and own: "\<forall>x \<in> set xs. in_range p0 p1 x \<and> s \<in> a_seq x \<longrightarrow> a_seq x = {s}"
    and f: "\<And>x. f x = (if in_range p0 p1 x \<and> s \<in> a_seq x then g x else x)"
    and g: "\<And>x. 0 \<le> a_pos x \<Longrightarrow> 0 \<le> h (a_pos x) \<Longrightarrow> a_pos (g x) = h (a_pos x) \<and> a_seq (g x) = a_seq x"
      "\<And>x. 0 \<le> a_pos x \<Longrightarrow> h (a_pos x) < 0 \<Longrightarrow> a_seq (g x) = {}"
  shows "seq_positions (map f xs) u = (if u = s then moved_to h p0 p1 (seq_positions xs s) else seq_positions xs u)"
proof -
  have nonneg: "0 \<le> a_pos x" if "x \<in> set xs" "v \<in> a_seq x" for x v
    using ok that by (fastforce simp: acell_ok_def)
  have mv: "in_range p0 p1 x \<longleftrightarrow> pos_between p0 p1 (a_pos x)" if "x \<in> set xs" "v \<in> a_seq x" for x v
    using nonneg [OF that] by (simp add: in_range_def)
  show ?thesis
  proof (cases "u = s")
    case True
    have "s \<in> a_seq (f x) \<longleftrightarrow> s \<in> a_seq x \<and> (pos_between p0 p1 (a_pos x) \<longrightarrow> 0 \<le> h (a_pos x))"
      "s \<in> a_seq (f x) \<Longrightarrow> a_pos (f x) = (if pos_between p0 p1 (a_pos x) then h (a_pos x) else a_pos x)"
      if x: "x \<in> set xs" for x
    proof -
      have "(s \<in> a_seq (f x) \<longleftrightarrow> s \<in> a_seq x \<and> (pos_between p0 p1 (a_pos x) \<longrightarrow> 0 \<le> h (a_pos x)))
        \<and> (s \<in> a_seq (f x) \<longrightarrow> a_pos (f x) = (if pos_between p0 p1 (a_pos x) then h (a_pos x) else a_pos x))"
      proof (cases "in_range p0 p1 x \<and> s \<in> a_seq x")
        case True
        then have "0 \<le> a_pos x" "pos_between p0 p1 (a_pos x)" by (simp_all add: in_range_def)
        then show ?thesis
          using True g [of x] by (cases "0 \<le> h (a_pos x)") (simp_all add: f)
      qed (use mv [OF x] in \<open>auto simp: f\<close>)
      then show "s \<in> a_seq (f x) \<longleftrightarrow> s \<in> a_seq x \<and> (pos_between p0 p1 (a_pos x) \<longrightarrow> 0 \<le> h (a_pos x))"
        "s \<in> a_seq (f x) \<Longrightarrow> a_pos (f x) = (if pos_between p0 p1 (a_pos x) then h (a_pos x) else a_pos x)"
        by blast+
    qed
    then have "{a_pos (f x) |x. x \<in> set xs \<and> s \<in> a_seq (f x)}
        = {if pos_between p0 p1 (a_pos x) then h (a_pos x) else a_pos x |x. x \<in> set xs \<and> s \<in> a_seq x
            \<and> (pos_between p0 p1 (a_pos x) \<longrightarrow> 0 \<le> h (a_pos x))}"
      by (intro Collect_cong ex_cong) metis
    also have "\<dots> = moved_to h p0 p1 (seq_positions xs s)"
      by (auto simp: moved_to_def seq_positions_def)
    finally show ?thesis using True by (simp add: seq_positions_map)
  next
    case False
    have "u \<in> a_seq (f x) \<longleftrightarrow> u \<in> a_seq x" "u \<in> a_seq x \<Longrightarrow> f x = x" if x: "x \<in> set xs" for x
    proof -
      have "(u \<in> a_seq (f x) \<longleftrightarrow> u \<in> a_seq x) \<and> (u \<in> a_seq x \<longrightarrow> f x = x)"
      proof (cases "in_range p0 p1 x \<and> s \<in> a_seq x")
        case True
        then have "0 \<le> a_pos x" "a_seq x = {s}" using own x by (simp_all add: in_range_def)
        then show ?thesis
          using True False g [of x] by (cases "0 \<le> h (a_pos x)") (simp_all add: f)
      qed (auto simp: f)
      then show "u \<in> a_seq (f x) \<longleftrightarrow> u \<in> a_seq x" "u \<in> a_seq x \<Longrightarrow> f x = x" by blast+
    qed
    then have "{a_pos (f x) |x. x \<in> set xs \<and> u \<in> a_seq (f x)} = {a_pos x |x. x \<in> set xs \<and> u \<in> a_seq x}"
      by (intro Collect_cong ex_cong) metis
    then show ?thesis using False by (simp add: seq_positions_map) (simp add: seq_positions_def)
  qed
qed

text \<open>What the two move commands do to a unified cache.\<close>

definition moves_seq :: "nat \<Rightarrow> (llama_pos \<Rightarrow> llama_pos) \<Rightarrow> llama_pos \<Rightarrow> llama_pos \<Rightarrow> llama_kv_cache \<Rightarrow> llama_kv_cache \<Rightarrow> bool" where
  "moves_seq s h p0 p1 kv kv' \<longleftrightarrow> kv_unified kv' \<and> kv_frame kv kv'
     \<and> (\<forall>u. kv_positions kv' u = (if u = s then moved_to h p0 p1 (kv_positions kv s) else kv_positions kv u))"

lemma moves_seq_map:
  assumes u: "kv_unified kv" and own: "own_range s p0 p1 safe kv"
    and run: "kv' = kv \<and> map f (kv_cells kv 0) = kv_cells kv 0
      \<or> (\<exists>hs h'. kv' = set_stream 0 (cells_repr hs (map f (kv_cells kv 0))) h' kv) \<and> kv_wf kv'"
    and f: "\<And>x. f x = (if in_range p0 p1 x \<and> s \<in> a_seq x then g x else x)"
    and g: "\<And>x. 0 \<le> a_pos x \<Longrightarrow> 0 \<le> h (a_pos x) \<Longrightarrow> a_pos (g x) = h (a_pos x) \<and> a_seq (g x) = a_seq x"
      "\<And>x. 0 \<le> a_pos x \<Longrightarrow> h (a_pos x) < 0 \<Longrightarrow> a_seq (g x) = {}"
  shows "moves_seq s h p0 p1 kv kv'"
proof -
  have wf: "kv_wf kv" and one: "kv_n_stream kv = 1" and other: "kv_other kv = None"
    using u by (simp_all add: kv_unified_def kv_inv_def)
  have t: "0 < kv_n_stream kv" and st: "kv_stream kv v = 0" for v using one by (simp_all add: kv_stream_def)
  have ok: "\<forall>x \<in> set (kv_cells kv 0). acell_ok x" using kv_cells_repr(2) [OF wf t] cell_okD by blast
  have "\<forall>x \<in> set (kv_cells kv 0). in_range p0 p1 x \<and> s \<in> a_seq x \<longrightarrow> a_seq x = {s}" using own by (simp add: own_range_def)
  note P = seq_positions_moved [OF ok this f g]
  have "kv_positions kv' v = seq_positions (map f (kv_cells kv 0)) v" for v
    using run
    by (elim disjE exE conjE) (simp add: kv_positions_def st, simp add: kv_positions_set_stream [OF wf t] st)
  moreover have "kv_unified kv' \<and> kv_frame kv kv'"
    using run u other by (auto simp: kv_unified_def kv_inv_def)
  ultimately show ?thesis by (simp add: moves_seq_def P) (simp add: kv_positions_def st)
qed

lemma kv_seq_add_moves:
  assumes u: "kv_unified kv" and s: "kv_has_seq kv s" and own: "own_range s p0 p1 (shift_safe d) kv"
    and run: "kv_seq_add (int s) p0 p1 d kv = Some kv'"
  shows "moves_seq s (\<lambda>p. p + d) p0 p1 kv kv'"
proof (rule moves_seq_map [OF u own, where f = "add_cell s p0 p1 d" and g = "shift_pos d"])
  have wf: "kv_wf kv" and st: "kv_stream kv s = 0" and other: "kv_other kv = None" and t: "0 < kv_n_stream kv"
    using u by (simp_all add: kv_unified_def kv_inv_def kv_stream_def)
  have hp: "hp_n_pos_per_embd (kv_hp kv) = 1"
    using run other by (auto simp: kv_seq_add_def check_Some split: bind_splits)
  show "kv' = kv \<and> map (add_cell s p0 p1 d) (kv_cells kv 0) = kv_cells kv 0
      \<or> (\<exists>hs h'. kv' = set_stream 0 (cells_repr hs (map (add_cell s p0 p1 d) (kv_cells kv 0))) h' kv) \<and> kv_wf kv'"
  proof (cases "d = 0 \<or> clamp_p0 p0 = clamp_p1 p1")
    case True
    then have "kv' = kv"
      using run other hp kv_lookup(1) [OF wf s] by (auto simp: kv_seq_add_def Let_def split: if_splits)
    moreover have "map (add_cell s p0 p1 d) (kv_cells kv 0) = kv_cells kv 0"
      using add_cell_id [OF _ True] kv_cells_repr(2) [OF wf t] by (intro map_idI) blast
    ultimately show ?thesis by simp
  next
    case False
    then have "d \<noteq> 0" "clamp_p0 p0 \<noteq> clamp_p1 p1" by simp_all
    from kv_seq_add_run [OF wf other s hp this] show ?thesis
      using own run by (auto simp: own_range_def st)
  qed
qed (simp_all add: add_cell_def shift_pos_def)

lemma kv_seq_div_moves:
  assumes u: "kv_unified kv" and s: "kv_has_seq kv s" and own: "own_range s p0 p1 (div_safe d) kv" and d: "0 < d"
    and run: "kv_seq_div (int s) p0 p1 d kv = Some kv'"
  shows "moves_seq s (\<lambda>p. p div d) p0 p1 kv kv'"
proof (rule moves_seq_map [OF u own, where f = "div_cell s p0 p1 d" and g = "div_pos d"])
  have wf: "kv_wf kv" and st: "kv_stream kv s = 0" and other: "kv_other kv = None" and t: "0 < kv_n_stream kv"
    using u by (simp_all add: kv_unified_def kv_inv_def kv_stream_def)
  have hp: "hp_n_pos_per_embd (kv_hp kv) = 1"
    using run other by (auto simp: kv_seq_div_def check_Some split: bind_splits)
  show "kv' = kv \<and> map (div_cell s p0 p1 d) (kv_cells kv 0) = kv_cells kv 0
      \<or> (\<exists>hs h'. kv' = set_stream 0 (cells_repr hs (map (div_cell s p0 p1 d) (kv_cells kv 0))) h' kv) \<and> kv_wf kv'"
  proof (cases "d = 1 \<or> clamp_p0 p0 = clamp_p1 p1")
    case True
    then have "kv' = kv"
      using run other hp kv_lookup(1) [OF wf s] by (auto simp: kv_seq_div_def Let_def split: if_splits)
    moreover have "map (div_cell s p0 p1 d) (kv_cells kv 0) = kv_cells kv 0"
    proof (rule map_idI)
      fix x assume "x \<in> set (kv_cells kv 0)"
      then have x: "acell_ok x" "a_pos x < INT32_MAX" using kv_cells_repr(2) [OF wf t] by (auto simp: cell_ok_def)
      show "div_cell s p0 p1 d x = x"
        using True in_range_clamp [OF x, of p0 p1] by (auto simp: div_cell_def div_pos_def)
    qed
    ultimately show ?thesis by simp
  next
    case False
    then have "1 < d" "clamp_p0 p0 \<noteq> clamp_p1 p1" using d by simp_all
    from kv_seq_div_run [OF wf other s hp this] show ?thesis
      using own run by (auto simp: own_range_def st)
  qed
qed (use d in \<open>auto simp: div_cell_def div_pos_def pos_imp_zdiv_nonneg_iff dest: pos_imp_zdiv_neg_iff [THEN iffD1, rotated]\<close>)

lemma iswa_moves_ok:
  assumes m: "iswa_ok m" and s: "iswa_has_seq m s"
    and f: "f (iw_base m) = Some b" "f (iw_swa m) = Some w"
    and mv: "\<And>kv kv'. kv = iw_base m \<or> kv = iw_swa m \<Longrightarrow> kv_unified kv \<Longrightarrow> kv_has_seq kv s \<Longrightarrow> f kv = Some kv' \<Longrightarrow> moves_seq s h p0 p1 kv kv'"
  shows "iswa_ok (m\<lparr>iw_base := b, iw_swa := w\<rparr>)" "kv_frame (iw_base m) b" "kv_frame (iw_swa m) w"
proof -
  have u: "kv_unified (iw_base m)" "kv_unified (iw_swa m)"
    and sub: "\<forall>s. iswa_has_seq m s \<longrightarrow> kv_positions (iw_swa m) s \<subseteq> kv_positions (iw_base m) s"
    using m by (simp_all add: iswa_ok_def)
  have K: "kv_has_seq (iw_base m) = iswa_has_seq m" by (rule iswa_has_seq_base [OF iswa_ok_inv [OF m]])
  have b: "moves_seq s h p0 p1 (iw_base m) b" using mv u(1) f(1) K s by simp
  have w: "moves_seq s h p0 p1 (iw_swa m) w" using mv u(2) f(2) s by (simp add: iswa_has_seq_def)
  show "kv_frame (iw_base m) b" "kv_frame (iw_swa m) w" using b w by (simp_all add: moves_seq_def)
  then show "iswa_ok (m\<lparr>iw_base := b, iw_swa := w\<rparr>)"
    using b w sub s moved_to_mono [of "kv_positions (iw_swa m) s" "kv_positions (iw_base m) s" h p0 p1] kv_frameD(9) [of "iw_swa m" w]
    by (auto simp: iswa_ok_def moves_seq_def iswa_has_seq_def)
qed

subsection \<open>The window cache holds a part of the base cache\<close>

text \<open>
  What a context does to its memory: commands, moves of the positions of a sequence that shares no cell of the
  range (and no overflow), and ubatches placed into the slots that the search finds in each of the two caches.
\<close>

inductive iswa_reach :: "llama_kv_cache_iswa \<Rightarrow> llama_kv_cache_iswa \<Rightarrow> bool" for m0 where
  start: "iswa_reach m0 m0"
| command: "iswa_reach m0 m \<Longrightarrow> cmd_ok (iswa_has_seq m) c (kv_positions (iw_base m)) \<Longrightarrow> iswa_exec c m = Some m'
    \<Longrightarrow> iswa_reach m0 m'"
| add: "iswa_reach m0 m \<Longrightarrow> iswa_has_seq m s \<Longrightarrow> own_range s p0 p1 (shift_safe d) (iw_base m)
    \<Longrightarrow> own_range s p0 p1 (shift_safe d) (iw_swa m) \<Longrightarrow> iswa_seq_add (int s) p0 p1 d m = Some m'
    \<Longrightarrow> iswa_reach m0 m'"
| div: "iswa_reach m0 m \<Longrightarrow> iswa_has_seq m s \<Longrightarrow> 0 < d \<Longrightarrow> own_range s p0 p1 (div_safe d) (iw_base m)
    \<Longrightarrow> own_range s p0 p1 (div_safe d) (iw_swa m) \<Longrightarrow> iswa_seq_div (int s) p0 p1 d m = Some m'
    \<Longrightarrow> iswa_reach m0 m'"
| ubatch: "iswa_reach m0 m \<Longrightarrow> ub_ready (iw_base m) ub \<Longrightarrow> ub_ready (iw_swa m) ub
    \<Longrightarrow> kv_find_slot ub False (iw_base m) = Some sb \<Longrightarrow> sb \<noteq> slot_nil
    \<Longrightarrow> kv_find_slot ub False (iw_swa m) = Some sw \<Longrightarrow> sw \<noteq> slot_nil
    \<Longrightarrow> kv_apply_ubatch sb ub (iw_base m) = Some b \<Longrightarrow> kv_apply_ubatch sw ub (iw_swa m) = Some w
    \<Longrightarrow> iswa_reach m0 (m\<lparr>iw_base := b, iw_swa := w\<rparr>)"

lemma kv_clear_frame: "kv_clear kv = Some kv' \<Longrightarrow> kv_frame kv kv'"
  unfolding kv_clear_def
  by (erule for_opt_inv [where P = "kv_frame kv"]) (auto split: bind_splits intro: kv_frame_trans)

lemma kv_exec_frame:
  assumes u: "kv_unified kv" and ok: "cmd_ok (kv_has_seq kv) c (kv_positions kv)" and run: "kv_exec c kv = Some kv'"
  shows "kv_frame kv kv'"
proof (cases c)
  case (Cmd_rm s p0 p1)
  have wf: "kv_wf kv" "kv_other kv = None" using u by (simp_all add: kv_unified_def kv_inv_def)
  then show ?thesis using kv_seq_rm_frame [OF wf, of s p0 p1] Cmd_rm ok run by (auto simp: kv_exec_def)
next
  case (Cmd_keep s)
  have wf: "kv_wf kv" "kv_other kv = None" using u by (simp_all add: kv_unified_def kv_inv_def)
  then show ?thesis using kv_seq_keep_run [OF wf, of s] Cmd_keep ok run by (auto simp: kv_exec_def)
next
  case (Cmd_cp src dst p0 p1)
  have wf: "kv_wf kv" "kv_other kv = None" "kv_n_stream kv = 1" using u by (simp_all add: kv_unified_def kv_inv_def)
  have st: "kv_stream kv s = 0" for s using wf(3) by (simp add: kv_stream_def)
  have "\<forall>x \<in> set (kv_cells kv 0). in_range p0 p1 x \<and> src \<in> a_seq x \<longrightarrow> dst \<notin> a_seq x"
    using ok Cmd_cp by (auto simp: kv_positions_def st seq_positions_def in_range_def)
  then show ?thesis using kv_seq_cp_same_run [OF wf(1,2) _ _ wf(3), of src dst p0 p1] Cmd_cp ok run by (auto simp: kv_exec_def)
next
  case Cmd_clear
  then show ?thesis using run kv_clear_frame by (simp add: kv_exec_def)
qed

lemma ub_positions_nonneg: "ub_ready kv ub \<Longrightarrow> p \<in> ub_positions ub s \<Longrightarrow> 0 \<le> p"
  by (auto simp: ub_ready_def ub_positions_def token_ok_def)

lemma iswa_ubatch_ok:
  assumes m: "iswa_ok m" and none: "kv_swa_type (iw_base m) = LLAMA_SWA_TYPE_NONE" "int (kv_n_swa (iw_base m)) \<le> INT32_MAX"
    and swa: "swa_ok (kv_n_swa (iw_swa m)) (kv_swa_type (iw_swa m))"
    and ub: "ub_ready (iw_base m) ub" "ub_ready (iw_swa m) ub"
    and sb: "kv_find_slot ub False (iw_base m) = Some sb" "sb \<noteq> slot_nil"
    and sw: "kv_find_slot ub False (iw_swa m) = Some sw" "sw \<noteq> slot_nil"
    and b: "kv_apply_ubatch sb ub (iw_base m) = Some b" and w: "kv_apply_ubatch sw ub (iw_swa m) = Some w"
  shows "iswa_ok (m\<lparr>iw_base := b, iw_swa := w\<rparr>)" "kv_frame (iw_base m) b" "kv_frame (iw_swa m) w"
proof -
  have u: "kv_inv (iw_base m)" "kv_inv (iw_swa m)" "kv_n_stream (iw_base m) = 1" "kv_n_stream (iw_swa m) = 1"
    and sub: "\<forall>s. iswa_has_seq m s \<longrightarrow> kv_positions (iw_swa m) s \<subseteq> kv_positions (iw_base m) s"
    using m by (simp_all add: iswa_ok_def kv_unified_def)
  have wf: "kv_wf (iw_base m)" "kv_wf (iw_swa m)" using u by (simp_all add: kv_inv_def)
  have K: "kv_has_seq (iw_base m) = iswa_has_seq m" by (rule iswa_has_seq_base [OF iswa_ok_inv [OF m]])
  note slot = find_slot_empty [OF wf(1) none ub(1) sb]
  have b': "kv_inv b" "kv_frame (iw_base m) b" "\<forall>s. iswa_has_seq m s \<longrightarrow>
      kv_positions b s = {p \<in> kv_positions (iw_base m) s \<union> ub_positions ub s. -1 < p}"
    using apply_ubatch_positions [OF u(1) slot(1)] b targets_empty_cut [OF slot(2)] K by auto
  have "slot_ok (iw_swa m) sw ub"
    by (rule find_slot_ok [OF wf(2) swa _ _ sw]) (use ub(2) in \<open>simp_all add: ub_ready_def\<close>)
  from apply_ubatch_positions [OF u(2) this] w have w': "kv_inv w" "kv_frame (iw_swa m) w" "\<forall>s. iswa_has_seq m s \<longrightarrow>
      kv_positions w s \<subseteq> kv_positions (iw_swa m) s \<union> ub_positions ub s" by (auto simp: iswa_has_seq_def)
  have "kv_positions w s \<subseteq> kv_positions b s" if s: "iswa_has_seq m s" for s
  proof
    fix p assume "p \<in> kv_positions w s"
    then have "p \<in> kv_positions (iw_base m) s \<union> ub_positions ub s" using w'(3) sub s by blast
    moreover from this have "0 \<le> p" using kv_mem.positions_nonneg [OF u(1)] K s ub_positions_nonneg [OF ub(1)] by auto
    ultimately show "p \<in> kv_positions b s" using b'(3) s by simp
  qed
  then show "iswa_ok (m\<lparr>iw_base := b, iw_swa := w\<rparr>)"
    using b' w' u kv_frameD(1) [OF b'(2)] kv_frameD(1) [OF w'(2)] kv_frameD(9) [OF w'(2)]
    by (simp add: iswa_ok_def kv_unified_def iswa_has_seq_def)
  show "kv_frame (iw_base m) b" "kv_frame (iw_swa m) w" by (rule b'(2), rule w'(2))
qed

lemma iswa_reach_ok:
  assumes "iswa_reach m0 m" "iswa_ok m0" "kv_swa_type (iw_base m0) = LLAMA_SWA_TYPE_NONE" "int (kv_n_swa (iw_base m0)) \<le> INT32_MAX"
    "swa_ok (kv_n_swa (iw_swa m0)) (kv_swa_type (iw_swa m0))"
  shows "iswa_ok m \<and> kv_frame (iw_base m0) (iw_base m) \<and> kv_frame (iw_swa m0) (iw_swa m)"
  using assms
proof (induction rule: iswa_reach.induct)
  case start
  then show ?case by simp
next
  case (command m c m')
  then have ok: "iswa_ok m" and fr: "kv_frame (iw_base m0) (iw_base m)" "kv_frame (iw_swa m0) (iw_swa m)" by simp_all
  have K: "kv_has_seq (iw_base m) = iswa_has_seq m" by (rule iswa_has_seq_base [OF iswa_ok_inv [OF ok]])
  have u: "kv_unified (iw_base m)" "kv_unified (iw_swa m)"
    and sub: "\<forall>s. iswa_has_seq m s \<longrightarrow> kv_positions (iw_swa m) s \<subseteq> kv_positions (iw_base m) s" using ok by (simp_all add: iswa_ok_def)
  have cw: "cmd_ok (kv_has_seq (iw_swa m)) c (kv_positions (iw_swa m))"
    using spec_cmd_mono(1) [OF sub command.hyps(2)] by (simp add: iswa_has_seq_def)
  from iswa_exec_run [OF ok command.hyps(2)] command.hyps(3) obtain b w where
    m': "m' = m\<lparr>iw_base := b, iw_swa := w\<rparr>" "kv_exec c (iw_base m) = Some b" "kv_exec c (iw_swa m) = Some w" "iswa_ok m'"
    by (metis option.inject)
  have "kv_frame (iw_base m) b" using kv_exec_frame [OF u(1) _ m'(2)] command.hyps(2) K by simp
  moreover have "kv_frame (iw_swa m) w" by (rule kv_exec_frame [OF u(2) cw m'(3)])
  ultimately show ?case using m' fr kv_frame_trans by auto
next
  case (add m s p0 p1 d m')
  then have ok: "iswa_ok m" and fr: "kv_frame (iw_base m0) (iw_base m)" "kv_frame (iw_swa m0) (iw_swa m)" by simp_all
  obtain b w where run: "kv_seq_add (int s) p0 p1 d (iw_base m) = Some b" "kv_seq_add (int s) p0 p1 d (iw_swa m) = Some w"
    and m': "m' = m\<lparr>iw_base := b, iw_swa := w\<rparr>"
    using add.hyps(5) by (auto simp: iswa_seq_add_def both_def split: bind_splits)
  note step = iswa_moves_ok [OF ok add.hyps(2), where f = "kv_seq_add (int s) p0 p1 d", OF run]
  have mv: "moves_seq s (\<lambda>p. p + d) p0 p1 kv kv'"
    if "kv = iw_base m \<or> kv = iw_swa m" "kv_unified kv" "kv_has_seq kv s" "kv_seq_add (int s) p0 p1 d kv = Some kv'" for kv kv'
    using kv_seq_add_moves [OF that(2,3) _ that(4)] add.hyps(3,4) that(1) by blast
  have "iswa_ok m'" "kv_frame (iw_base m) b" "kv_frame (iw_swa m) w"
    unfolding m' by (rule step, rule mv; assumption)+
  then show ?case using fr kv_frame_trans by (simp add: m')
next
  case (div m s d p0 p1 m')
  then have ok: "iswa_ok m" and fr: "kv_frame (iw_base m0) (iw_base m)" "kv_frame (iw_swa m0) (iw_swa m)" by simp_all
  obtain b w where run: "kv_seq_div (int s) p0 p1 d (iw_base m) = Some b" "kv_seq_div (int s) p0 p1 d (iw_swa m) = Some w"
    and m': "m' = m\<lparr>iw_base := b, iw_swa := w\<rparr>"
    using div.hyps(6) by (auto simp: iswa_seq_div_def both_def split: bind_splits)
  note step = iswa_moves_ok [OF ok div.hyps(2), where f = "kv_seq_div (int s) p0 p1 d", OF run]
  have mv: "moves_seq s (\<lambda>p. p div d) p0 p1 kv kv'"
    if "kv = iw_base m \<or> kv = iw_swa m" "kv_unified kv" "kv_has_seq kv s" "kv_seq_div (int s) p0 p1 d kv = Some kv'" for kv kv'
    using kv_seq_div_moves [OF that(2,3) _ div.hyps(3) that(4)] div.hyps(4,5) that(1) by blast
  have "iswa_ok m'" "kv_frame (iw_base m) b" "kv_frame (iw_swa m) w"
    unfolding m' by (rule step, rule mv; assumption)+
  then show ?case using fr kv_frame_trans by (simp add: m')
next
  case (ubatch m ub sb sw b w)
  then have ok: "iswa_ok m" and fr: "kv_frame (iw_base m0) (iw_base m)" "kv_frame (iw_swa m0) (iw_swa m)" by simp_all
  have "iswa_ok (m\<lparr>iw_base := b, iw_swa := w\<rparr>)" "kv_frame (iw_base m) b" "kv_frame (iw_swa m) w"
    by (rule iswa_ubatch_ok [OF ok]; use ubatch kv_frameD(5,6) [OF fr(1)] kv_frameD(5,6) [OF fr(2)] in simp)+
  then show ?case using fr kv_frame_trans by auto
qed

lemma kv_new_fields:
  assumes "kv_new hp unified kv_size n_seq_max n_pad n_swa swa_type other = Some kv"
  shows "kv_n_swa kv = n_swa" "kv_swa_type kv = swa_type" "n_pad \<noteq> 0"
    "other = None \<Longrightarrow> kv_size mod n_pad = 0"
  using assms by (auto simp: kv_new_def Let_def check_Some split: bind_splits)

lemma kv_new_unified:
  assumes "kv_new hp True kv_size n_seq_max n_pad n_swa swa_type None = Some kv" "0 < n_seq_max" "n_seq_max \<le> LLAMA_MAX_SEQ"
  shows "kv_unified kv" "kv_positions kv s = {}" "kv_n_swa kv = n_swa" "kv_swa_type kv = swa_type"
proof -
  note f = kv_new_fields [OF assms(1)]
  have kv: "kv_inv kv" "kv_n_stream kv = 1" "kv_cells kv 0 = replicate kv_size empty_cell"
    using kv_new_own [OF f(3) f(4) assms(2,3), of hp True n_swa swa_type] assms(1) by auto
  then show "kv_unified kv" by (simp add: kv_unified_def)
  show "kv_positions kv s = {}"
    using kv(2,3) by (auto simp: kv_positions_def kv_stream_def seq_positions_def empty_cell_def)
  show "kv_n_swa kv = n_swa" "kv_swa_type kv = swa_type" by (rule f(1), rule f(2))
qed

lemma iswa_new_ok:
  assumes "iswa_new hp swa_full True kv_size n_seq_max n_ubatch n_pad n_swa swa_type None = Some m"
    and "0 < n_seq_max" "n_seq_max \<le> LLAMA_MAX_SEQ"
  shows "iswa_ok m" "kv_swa_type (iw_base m) = LLAMA_SWA_TYPE_NONE" "kv_n_swa (iw_base m) = 0"
    "kv_n_swa (iw_swa m) = n_swa" "kv_swa_type (iw_swa m) = swa_type"
proof -
  obtain b w where "kv_new hp True kv_size n_seq_max n_pad 0 LLAMA_SWA_TYPE_NONE None = Some b"
    "kv_new hp True (iswa_size_swa swa_full True kv_size n_seq_max n_ubatch n_swa) n_seq_max n_pad n_swa swa_type None = Some w"
    and m: "m = \<lparr>iw_unified = True, iw_base = b, iw_swa = w\<rparr>"
    using assms(1) by (auto simp: iswa_new_def split: bind_splits)
  note b = kv_new_unified [OF this(1) assms(2,3)] and w = kv_new_unified [OF this(2) assms(2,3)]
  show "iswa_ok m" using b(1,2) w(1,2) by (simp add: m iswa_ok_def)
  show "kv_swa_type (iw_base m) = LLAMA_SWA_TYPE_NONE" "kv_n_swa (iw_base m) = 0"
    "kv_n_swa (iw_swa m) = n_swa" "kv_swa_type (iw_swa m) = swa_type" using b w by (simp_all add: m)
qed

text \<open>
  C18: In a unified cache for sliding windows, over every run of \<open>seq_rm\<close>, \<open>seq_keep\<close>, \<open>seq_cp\<close> (the destination
  owning no copied cell), \<open>clear\<close>, \<open>seq_add\<close> and \<open>seq_div\<close> (no cell of the range shared with another sequence, no
  overflow) and placed ubatches from a new cache, the window cache holds no position that the base cache lacks; so
  what \<open>seq_pos_min\<close> and \<open>seq_pos_max\<close> read from the window cache alone, -1 aside, are positions of the sequence in
  both caches. Moves of shared cells are left out since they break the rule, see \<open>iswa_shared_add_diverges\<close>.
\<close>

theorem iswa_window_subset:
  assumes "iswa_new hp swa_full True kv_size n_seq_max n_ubatch n_pad n_swa swa_type None = Some m0"
    and "0 < n_seq_max" "n_seq_max \<le> LLAMA_MAX_SEQ" "swa_ok n_swa swa_type"
    and "iswa_reach m0 m" "s < LLAMA_MAX_SEQ"
  shows "kv_inv (iw_base m) \<and> kv_inv (iw_swa m) \<and> kv_positions (iw_swa m) s \<subseteq> kv_positions (iw_base m) s
    \<and> (\<exists>lo hi. iswa_seq_pos_min (int s) m = Some lo \<and> iswa_seq_pos_max (int s) m = Some hi
          \<and> (if kv_positions (iw_swa m) s = {} then lo = -1 \<and> hi = -1
             else lo \<in> kv_positions (iw_base m) s \<and> hi \<in> kv_positions (iw_base m) s))"
proof -
  note new = iswa_new_ok [OF assms(1-3)]
  have ok: "iswa_ok m" using iswa_reach_ok [OF assms(5) new(1,2)] new(3-5) assms(4) by (simp add: INT32_MAX_def)
  have inv: "iswa_inv m" by (rule iswa_ok_inv [OF ok])
  have s: "iswa_has_seq m s" using ok assms(6) by (simp add: iswa_ok_def kv_unified_def iswa_has_seq_def kv_has_seq_def)
  let ?P = "kv_positions (iw_swa m) s"
  have sub: "?P \<subseteq> kv_positions (iw_base m) s" using ok s by (simp add: iswa_ok_def)
  have fin: "finite ?P" using iswa_mem.finite_positions [OF inv s] by (simp add: iswa_positions_def)
  have "iswa_seq_pos_min (int s) m = Some (set_pos_min ?P)" "iswa_seq_pos_max (int s) m = Some (set_pos_max ?P)"
    using iswa_mem.seq_pos_min_ok [OF inv s] iswa_mem.seq_pos_max_ok [OF inv s] by (simp_all add: iswa_positions_def)
  moreover have "if ?P = {} then set_pos_min ?P = -1 \<and> set_pos_max ?P = -1
      else set_pos_min ?P \<in> kv_positions (iw_base m) s \<and> set_pos_max ?P \<in> kv_positions (iw_base m) s"
    using sub Min_in [OF fin] Max_in [OF fin] by (auto simp: set_pos_min_def set_pos_max_def)
  ultimately show ?thesis using inv sub by (auto simp: iswa_inv_def)
qed

text \<open>A token placed in an empty unified cache.\<close>

lemma first_ubatch:
  assumes u: "kv_unified kv" and empty: "\<forall>x \<in> set (kv_cells kv 0). x = empty_cell" and len: "0 < kv_length kv"
    and swa: "swa_ok (kv_n_swa kv) (kv_swa_type kv)" and ub: "ub_ready kv (ub_one 0 p)"
  obtains si kv' where "kv_find_slot (ub_one 0 p) False kv = Some si" "si \<noteq> slot_nil"
    "kv_apply_ubatch si (ub_one 0 p) kv = Some kv'" "kv_frame kv kv'"
    "\<And>s. kv_has_seq kv s \<Longrightarrow> kv_positions kv' s = (if s = 0 then {p} else {})"
    "\<And>x. x \<in> set (kv_cells kv' 0) \<Longrightarrow> a_shift x = 0"
proof -
  have inv: "kv_inv kv" and wf: "kv_wf kv" and other: "kv_other kv = None" and one: "kv_n_stream kv = 1" and st: "kv_stream kv s = 0" for s
    using u by (simp_all add: kv_unified_def kv_inv_def kv_stream_def)
  have t: "0 < kv_n_stream kv" using one by simp
  note l = kv_stream_get(4) [OF wf t]
  have shape: "ub_shape kv (ub_one 0 p)" and tok: "\<forall>i < ub_n_tokens (ub_one 0 p). token_ok kv (ub_one 0 p) i"
    using ub by (simp_all add: ub_ready_def)
  have all: "usable kv 0 i" if "i < kv_length kv" for i
  proof -
    have "kv_cells kv 0 ! i = empty_cell" using empty that l nth_mem by metis
    then show ?thesis by (simp add: usable_def Let_def empty_cell_def)
  qed
  have "filter (usable kv 0) (ring_from (search_head kv 1 0) (kv_length kv) (kv_length kv))
      = ring_from (search_head kv 1 0) (kv_length kv) (kv_length kv)"
    using all set_ring_from [of "search_head kv 1 0" "kv_length kv"] by (intro filter_True) blast
  then have slot: "stream_slot kv 1 0 \<noteq> None"
    using len by (simp add: stream_slot_def first_usable_def ring_from_rotate Let_def)
  obtain si where find: "kv_find_slot (ub_one 0 p) False kv = Some si" and strm: "si_strm si = [0]"
    using find_slot_eq [OF wf swa shape] slot by (auto simp: slot_seqs_def slot_len_def one st)
  have ne: "si \<noteq> slot_nil" using strm by (auto simp: slot_nil_def)
  have ok: "slot_ok kv si (ub_one 0 p)" by (rule find_slot_ok [OF wf swa shape tok find ne])
  have cells: "cell_at kv (target si q) = empty_cell" if "q \<in> set (slot_pairs si (slot_size si))" for q
  proof -
    have "target_ok kv si (ub_one 0 p) (slot_size si) q" using ok that unfolding slot_ok_def by blast
    then have "fst (target si q) = 0" "snd (target si q) < length (kv_cells kv 0)"
      using one l by (auto simp: target_ok_def target_def split: prod.splits)
    then have "cell_at kv (target si q) \<in> set (kv_cells kv 0)" by (auto simp: cell_at_def split: prod.splits)
    then show ?thesis using empty by blast
  qed
  have te: "targets_empty kv si" using cells by (simp add: targets_empty_def empty_cell_def)
  obtain kv' where run: "kv_apply_ubatch si (ub_one 0 p) kv = Some kv'" and fr: "kv_frame kv kv'"
    and lens: "length (kv_cells kv' 0) = length (kv_cells kv 0)"
    and at: "\<forall>q \<in> set (slot_pairs si (slot_size si)). cell_at kv' (target si q)
          = token_cell (kv_hp kv) (ub_one 0 p) (token_at (slot_size si) q) (cell_at kv (target si q))"
    and off: "\<forall>tj. tj \<notin> target si ` set (slot_pairs si (slot_size si)) \<longrightarrow> cell_at kv' tj = cell_at kv tj"
    using apply_plain [OF wf other ok te] by blast
  have old: "kv_positions kv s = {}" for s
    using empty by (auto simp: kv_positions_def st seq_positions_def empty_cell_def)
  have new: "ub_positions (ub_one 0 p) s = (if s = 0 then {p} else {})" for s
    by (auto simp: ub_positions_def token_seqs_def)
  have "0 \<le> p" using tok by (simp add: token_ok_def)
  then have pos: "kv_positions kv' s = (if s = 0 then {p} else {})" if "kv_has_seq kv s" for s
    using apply_ubatch_positions [OF inv ok] run that by (auto simp: old new targets_empty_cut [OF te])
  have "a_shift x = 0" if x: "x \<in> set (kv_cells kv' 0)" for x
  proof -
    obtain i where i: "i < length (kv_cells kv 0)" "x = cell_at kv' (0, i)"
      using x lens by (auto simp: in_set_conv_nth cell_at_def)
    have "cell_at kv (0, i) = empty_cell" using empty i(1) nth_mem by (simp add: cell_at_def)
    then show ?thesis
      using i(2) at cells off [rule_format, of "(0, i)"] by (cases "(0, i) \<in> target si ` set (slot_pairs si (slot_size si))") (auto simp: empty_cell_def)
  qed
  then show thesis using that [OF find ne run fr] pos by blast
qed

lemma first_moved:
  assumes "kv_unified kv" "kv_hp kv = demo_hp"
    and pos: "\<And>s. kv_has_seq kv s \<Longrightarrow> kv_positions kv s = (if s = 0 then {2} else {})"
    and shift: "\<And>x. x \<in> set (kv_cells kv 0) \<Longrightarrow> a_shift x = 0"
  shows "own_range 0 0 (-1) (shift_safe 1) kv" "\<exists>kv'. kv_seq_add 0 0 (-1) 1 kv = Some kv' \<and> kv_positions kv' 0 = {3}"
proof -
  have wf: "kv_wf kv" and other: "kv_other kv = None" and t: "0 < kv_n_stream kv" and st: "kv_stream kv s = 0"
    and has: "kv_has_seq kv s \<longleftrightarrow> s < LLAMA_MAX_SEQ" for s
    using assms(1) by (simp_all add: kv_unified_def kv_inv_def kv_stream_def kv_has_seq_def)
  have zero: "0 < LLAMA_MAX_SEQ" by (simp add: LLAMA_MAX_SEQ_def)
  show own: "own_range 0 0 (-1) (shift_safe 1) kv"
    unfolding own_range_def
  proof (intro ballI impI, elim conjE)
    fix x assume x: "x \<in> set (kv_cells kv 0)" "0 \<in> a_seq x"
    have P: "a_pos x \<in> kv_positions kv s" if "s \<in> a_seq x" for s
      using x(1) that by (auto simp: kv_positions_def st seq_positions_def)
    have "acell_ok x" using kv_cells_repr(2) [OF wf t] x(1) cell_okD by blast
    then have "s < LLAMA_MAX_SEQ" if "s \<in> a_seq x" for s using that by (auto simp: acell_ok_def)
    then have "s = 0" if "s \<in> a_seq x" for s
      using P [OF that] pos [of s] has [of s] that by (simp split: if_splits)
    then have "a_seq x = {0}" using x(2) by blast
    moreover have "a_pos x = 2" using P [OF x(2)] pos [of 0] has zero by simp
    ultimately show "a_seq x = {0} \<and> shift_safe 1 x"
      using shift [OF x(1)] by (simp add: shift_safe_def INT32_MIN_def INT32_MAX_def)
  qed
  have h0: "kv_has_seq kv 0" and hp: "hp_n_pos_per_embd (kv_hp kv) = 1" using has zero assms(2) by simp_all
  have c: "clamp_p0 0 \<noteq> clamp_p1 (-1)" by (simp add: clamp_p0_def clamp_p1_def INT32_MAX_def)
  obtain kv' where run: "kv_seq_add (int 0) 0 (-1) 1 kv = Some kv'"
    using kv_seq_add_run [OF wf other h0 hp one_neq_zero c] own by (auto simp: own_range_def st)
  have "kv_positions kv' 0 = moved_to (\<lambda>p. p + 1) 0 (-1) {2}"
    using kv_seq_add_moves [OF assms(1) h0 own run] pos [OF h0] by (simp add: moves_seq_def)
  also have "\<dots> = {3}" by (auto simp: moved_to_def pos_between_def)
  finally show "\<exists>kv'. kv_seq_add 0 0 (-1) 1 kv = Some kv' \<and> kv_positions kv' 0 = {3}" using run by simp
qed

theorem iswa_window_subset_witness:
  "\<exists>m0 m. iswa_new demo_hp False True 4 2 2 1 1 LLAMA_SWA_TYPE_STANDARD None = Some m0 \<and> iswa_reach m0 m
    \<and> kv_positions (iw_swa m) 0 = {3} \<and> 3 \<in> kv_positions (iw_base m) 0
    \<and> iswa_seq_pos_max 0 m = Some 3"
proof -
  have seqs: "(0 :: nat) < 2" "(2 :: nat) \<le> LLAMA_MAX_SEQ" by (simp_all add: LLAMA_MAX_SEQ_def)
  have size: "iswa_size_swa False True 4 2 2 1 = 256" by (simp add: iswa_size_swa_def GGML_PAD_def)
  obtain b w where new: "kv_new demo_hp True 4 2 1 0 LLAMA_SWA_TYPE_NONE None = Some b"
    "kv_new demo_hp True (iswa_size_swa False True 4 2 2 1) 2 1 1 LLAMA_SWA_TYPE_STANDARD None = Some w"
    and cells: "kv_cells b 0 = replicate 4 empty_cell" "kv_cells w 0 = replicate 256 empty_cell"
    using seqs kv_new_own [of 1 4 2 demo_hp True 0 LLAMA_SWA_TYPE_NONE] kv_new_own [of 1 256 2 demo_hp True 1 LLAMA_SWA_TYPE_STANDARD]
    unfolding size by fastforce
  let ?m = "\<lparr>iw_unified = True, iw_base = b, iw_swa = w\<rparr>"
  have m0: "iswa_new demo_hp False True 4 2 2 1 1 LLAMA_SWA_TYPE_STANDARD None = Some ?m" using new by (simp add: iswa_new_def)
  have win: "swa_ok 1 LLAMA_SWA_TYPE_STANDARD" by (simp add: swa_ok_def INT32_MAX_def)
  note ok = iswa_new_ok [OF m0 seqs]
  have u: "kv_unified b" "kv_unified w" using ok(1) by (simp_all add: iswa_ok_def)
  have hp: "kv_hp b = demo_hp" "kv_hp w = demo_hp" using new by (auto simp: kv_new_def Let_def check_Some split: bind_splits)
  have has: "kv_has_seq kv s \<longleftrightarrow> s < LLAMA_MAX_SEQ" if "kv_n_stream kv = 1" for kv s using that by (simp add: kv_has_seq_def)
  have one: "kv_n_stream b = 1" "kv_n_stream w = 1" using u by (simp_all add: kv_unified_def)
  have len: "0 < kv_length b" "0 < kv_length w"
    using kv_stream_get(4) [of b 0] kv_stream_get(4) [of w 0] u cells by (simp_all add: kv_unified_def kv_inv_def)
  have ready: "ub_ready kv (ub_one 0 2)" if "kv_n_stream kv = 1" for kv
    by (rule ub_one_ready) (simp_all add: has that LLAMA_MAX_SEQ_def INT32_MAX_def)
  have none: "swa_ok (kv_n_swa b) (kv_swa_type b)" "swa_ok (kv_n_swa w) (kv_swa_type w)"
    using ok(2-5) win by (simp_all add: swa_ok_def INT32_MAX_def)
  obtain sb b1 where b1: "kv_find_slot (ub_one 0 2) False b = Some sb" "sb \<noteq> slot_nil"
    "kv_apply_ubatch sb (ub_one 0 2) b = Some b1" "kv_frame b b1"
    "\<And>s. kv_has_seq b s \<Longrightarrow> kv_positions b1 s = (if s = 0 then {2} else {})"
    "\<And>x. x \<in> set (kv_cells b1 0) \<Longrightarrow> a_shift x = 0"
    by (rule first_ubatch [OF u(1) _ len(1) none(1) ready [OF one(1)]]) (use cells(1) in simp, blast)
  obtain sw w1 where w1: "kv_find_slot (ub_one 0 2) False w = Some sw" "sw \<noteq> slot_nil"
    "kv_apply_ubatch sw (ub_one 0 2) w = Some w1" "kv_frame w w1"
    "\<And>s. kv_has_seq w s \<Longrightarrow> kv_positions w1 s = (if s = 0 then {2} else {})"
    "\<And>x. x \<in> set (kv_cells w1 0) \<Longrightarrow> a_shift x = 0"
    by (rule first_ubatch [OF u(2) _ len(2) none(2) ready [OF one(2)]]) (use cells(2) in simp, blast)
  let ?m1 = "?m\<lparr>iw_base := b1, iw_swa := w1\<rparr>"
  have r1: "iswa_reach ?m ?m1"
    by (rule iswa_reach.ubatch [OF iswa_reach.start, where ub = "ub_one 0 2"]) (use b1(1-3) w1(1-3) ready one in simp_all)
  have "iswa_ok ?m1" using iswa_reach_ok [OF r1 ok(1,2)] ok(3-5) win by (simp add: INT32_MAX_def)
  then have u1: "kv_unified b1" "kv_unified w1" by (simp_all add: iswa_ok_def)
  have hs: "kv_has_seq b1 = kv_has_seq b" "kv_has_seq w1 = kv_has_seq w" using kv_frameD(9) b1(4) w1(4) by auto
  have hp1: "kv_hp b1 = demo_hp" "kv_hp w1 = demo_hp" using kv_frameD(4) [OF b1(4)] kv_frameD(4) [OF w1(4)] hp by simp_all
  obtain b2 where b2: "kv_seq_add 0 0 (-1) 1 b1 = Some b2" "kv_positions b2 0 = {3}"
    using first_moved(2) [OF u1(1) hp1(1) b1(5,6)] hs by auto
  obtain w2 where w2: "kv_seq_add 0 0 (-1) 1 w1 = Some w2" "kv_positions w2 0 = {3}"
    using first_moved(2) [OF u1(2) hp1(2) w1(5,6)] hs by auto
  let ?m2 = "?m\<lparr>iw_base := b2, iw_swa := w2\<rparr>"
  have r2: "iswa_reach ?m ?m2"
  proof (rule iswa_reach.add [OF r1, where s = 0 and d = 1])
    show "iswa_has_seq ?m1 0" using has [OF one(2)] hs by (simp add: iswa_has_seq_def LLAMA_MAX_SEQ_def)
    show "own_range 0 0 (-1) (shift_safe 1) (iw_base ?m1)" "own_range 0 0 (-1) (shift_safe 1) (iw_swa ?m1)"
      using first_moved(1) [OF u1(1) hp1(1) b1(5,6)] first_moved(1) [OF u1(2) hp1(2) w1(5,6)] hs by auto
    show "iswa_seq_add (int 0) 0 (-1) 1 ?m1 = Some ?m2" using b2(1) w2(1) by (simp add: iswa_seq_add_def both_def)
  qed
  have zero: "0 < LLAMA_MAX_SEQ" by (simp add: LLAMA_MAX_SEQ_def)
  have "3 \<in> kv_positions (iw_base ?m2) 0 \<and> iswa_seq_pos_max 0 ?m2 = Some 3"
    using iswa_window_subset [OF m0 seqs win r2 zero] b2(2) w2(2) by auto
  then show ?thesis using m0 r2 w2(2) by (intro exI [of _ ?m] exI [of _ ?m2]) simp
qed

text \<open>
  Why moves of shared cells are left out. Sequences 0 and 1 share the cell of position 0 in the base cache, while the
  window cache has dropped it for sequence 0 alone (the purge of positions below an overwritten one does that):
  moving sequence 0 by one carries sequence 1 along in the base cache only, and the window cache is left with a
  position of sequence 1 that the base cache lacks.
\<close>

definition iswa_shared :: llama_kv_cache_iswa where
  "iswa_shared = \<lparr>iw_unified = True,
     iw_base = kv_demo\<lparr>kv_v_cells := [cells_repr False [demo_cell 0 {0, 1}]], kv_v_heads := [0]\<rparr>,
     iw_swa = kv_demo\<lparr>kv_v_cells := [cells_repr False [demo_cell 0 {1}]], kv_v_heads := [0]\<rparr>\<rparr>"

lemma add_one_cell:
  assumes "kv_unified kv" "kv_cells kv 0 = [demo_cell 0 S]" "hp_n_pos_per_embd (kv_hp kv) = 1"
  shows "\<exists>kv'. kv_seq_add 0 0 (-1) 1 kv = Some kv'
    \<and> kv_positions kv' u = seq_positions [add_cell 0 0 (-1) 1 (demo_cell 0 S)] u"
proof -
  have wf: "kv_wf kv" and other: "kv_other kv = None" and st: "kv_stream kv s = 0" and t: "0 < kv_n_stream kv"
    and has: "kv_has_seq kv 0" for s
    using assms(1) by (simp_all add: kv_unified_def kv_inv_def kv_stream_def kv_has_seq_def LLAMA_MAX_SEQ_def)
  have c: "clamp_p0 0 \<noteq> clamp_p1 (-1)" by (simp add: clamp_p0_def clamp_p1_def INT32_MAX_def)
  have safe: "\<forall>x \<in> set (kv_cells kv (kv_stream kv 0)). in_range 0 (-1) x \<and> 0 \<in> a_seq x \<longrightarrow> shift_safe 1 x"
    by (simp add: st assms(2) shift_safe_def INT32_MIN_def INT32_MAX_def)
  obtain hs h where "kv_seq_add (int 0) 0 (-1) 1 kv
      = Some (set_stream 0 (cells_repr hs (map (add_cell 0 0 (-1) 1) (kv_cells kv 0))) h kv)"
    using kv_seq_add_run [OF wf other has assms(3) one_neq_zero c safe] unfolding st by blast
  then show ?thesis
    using kv_positions_set_stream [OF wf t, of hs _ h u] by (simp add: assms(2) st)
qed

theorem iswa_shared_add_diverges:
  "iswa_ok iswa_shared \<and> (\<exists>m. iswa_seq_add 0 0 (-1) 1 iswa_shared = Some m
     \<and> kv_positions (iw_base m) 1 = {1} \<and> kv_positions (iw_swa m) 1 = {0})"
proof -
  let ?kv = "\<lambda>S. kv_demo\<lparr>kv_v_cells := [cells_repr False [demo_cell 0 S]], kv_v_heads := [0]\<rparr>"
  have sel: "kv_n_stream (?kv S) = 1" "kv_other (?kv S) = None" "kv_cells (?kv S) 0 = [demo_cell 0 S]"
    "kv_stream (?kv S) s = 0" "hp_n_pos_per_embd (kv_hp (?kv S)) = 1" "kv_has_seq (?kv S) s \<longleftrightarrow> s < LLAMA_MAX_SEQ" for S s
    by (simp_all add: kv_cells_def kv_stream_def kv_has_seq_def)
  have wf: "kv_wf (?kv S)" if "S \<subseteq> {0, 1}" "S \<noteq> {}" for S
  proof -
    have "acell_ok (demo_cell 0 S)" using that by (auto simp: acell_ok_def INT32_MAX_def LLAMA_MAX_SEQ_def)
    then show ?thesis
      using that by (simp add: kv_wf_def kv_length_def cell_ok_def INT32_MAX_def LLAMA_MAX_SEQ_def) (simp add: kv_demo_def LLAMA_MAX_SEQ_def)
  qed
  have pos: "kv_positions (?kv S) s = (if s \<in> S then {0} else {})" for S s
    by (auto simp: kv_positions_def sel seq_positions_def)
  have ok: "iswa_ok iswa_shared"
    using wf [of "{0, 1}"] wf [of "{1}"] by (simp add: iswa_ok_def iswa_shared_def kv_unified_def kv_inv_def sel pos)
  have c: "clamp_p0 0 \<noteq> clamp_p1 (-1)" by (simp add: clamp_p0_def clamp_p1_def INT32_MAX_def)
  have u: "kv_unified (?kv S)" if "S \<subseteq> {0, 1}" "S \<noteq> {}" for S
    using wf [OF that] by (simp add: kv_unified_def kv_inv_def sel)
  obtain b where b: "kv_seq_add 0 0 (-1) 1 (?kv {0, 1}) = Some b" "kv_positions b 1 = {1}"
    using add_one_cell [OF u sel(3,5), of "{0, 1}" 1] by (auto simp: seq_positions_def add_cell_def shift_pos_def in_range_def pos_between_def)
  obtain w where w: "kv_seq_add 0 0 (-1) 1 (?kv {1}) = Some w" "kv_positions w 1 = {0}"
    using add_one_cell [OF u sel(3,5), of "{1}" 1] by (auto simp: seq_positions_def add_cell_def)
  have "iswa_seq_add 0 0 (-1) 1 iswa_shared = Some (iswa_shared\<lparr>iw_base := b, iw_swa := w\<rparr>)"
    using b(1) w(1) by (simp add: iswa_seq_add_def both_def iswa_shared_def)
  then show ?thesis using ok b(2) w(2) by (intro conjI exI [of _ "iswa_shared\<lparr>iw_base := b, iw_swa := w\<rparr>"]) simp_all
qed

end
