(* ===== verification/F32.thy ===== *)
theory F32
  imports Prelude "HOL-Library.Log_Nat" "HOL-Library.Product_Lexorder"
begin

section \<open>Single precision arithmetic\<close>

text \<open>
  The \<open>float\<close> of C as IEEE 754 binary32 with the default rounding: a value is not a number,
  an infinity, or a sign and a magnitude, a rational number; zero keeps its sign. An operation
  computes exactly and rounds to the nearest representable magnitude, ties to even; a magnitude
  of \<open>2 ^ 128\<close> or more becomes an infinity, and below \<open>2 ^ -126\<close> the spacing stays \<open>2 ^ -149\<close>.
  The functions compute, so that examples can be evaluated. The lemmas are what proofs about
  code need: rounding is monotone, exact on representable numbers and has a bounded error.
\<close>

subsection \<open>Rounding\<close>

definition round_even :: "rat \<Rightarrow> int" where
  "round_even x = (let f = \<lfloor>x\<rfloor>; r = x - of_int f in
     if r < 1 / 2 \<or> (r = 1 / 2 \<and> even f) then f else f + 1)"

text \<open>The exponent of the spacing in units of \<open>2 ^ -149\<close>, for 24 significant bits.\<close>

definition ulp_exp :: "rat \<Rightarrow> nat" where
  "ulp_exp q = floorlog 2 (nat \<lfloor>q * 2 ^ 149\<rfloor>) - 24"

definition rnd :: "rat \<Rightarrow> rat" where
  "rnd q = (let s = ulp_exp q in of_int (round_even (q * 2 ^ 149 / 2 ^ s)) * 2 ^ s / 2 ^ 149)"

definition representable :: "rat \<Rightarrow> bool" where
  "representable r \<longleftrightarrow> (\<exists>m k. m \<le> (2 :: nat) ^ 24 \<and> r = of_nat m * 2 ^ k / 2 ^ 149)"

lemma round_even_cases: "round_even x = \<lfloor>x\<rfloor> \<or> round_even x = \<lfloor>x\<rfloor> + 1"
  by (simp add: round_even_def Let_def)

lemma round_even_of_int [simp]: "round_even (of_int n) = n"
  by (simp add: round_even_def)

lemma round_even_of_nat [simp]: "round_even (of_nat n) = int n"
  using round_even_of_int [of "int n"] by simp

lemma round_even_error: "\<bar>of_int (round_even x) - x\<bar> \<le> 1 / 2"
proof -
  have "of_int \<lfloor>x\<rfloor> \<le> x" "x < of_int \<lfloor>x\<rfloor> + 1" by linarith+
  then show ?thesis by (auto simp: round_even_def Let_def abs_le_iff)
qed

lemma round_even_mono:
  assumes "x \<le> y"
  shows "round_even x \<le> round_even y"
proof (cases "\<lfloor>x\<rfloor> = \<lfloor>y\<rfloor>")
  case True
  then show ?thesis using assms by (auto simp: round_even_def Let_def)
next
  case False
  then have "\<lfloor>x\<rfloor> + 1 \<le> \<lfloor>y\<rfloor>" using floor_mono [OF assms] by linarith
  then show ?thesis using round_even_cases [of x] round_even_cases [of y] by linarith
qed

lemma round_even_nonneg: "0 \<le> x \<Longrightarrow> 0 \<le> round_even x"
  using round_even_mono [of 0 x] round_even_of_int [of 0] by simp

subsection \<open>Properties of rounding\<close>

lemma ulp_exp_mono: "q \<le> q' \<Longrightarrow> ulp_exp q \<le> ulp_exp q'"
  unfolding ulp_exp_def by (intro diff_le_mono floorlog_mono nat_mono floor_mono mult_right_mono) auto

lemma int_less_power:
  assumes "m < 2 ^ k"
  shows "int m + 1 \<le> 2 ^ k"
proof -
  have "int (Suc m) \<le> int (2 ^ k)" unfolding of_nat_le_iff using assms by simp
  then show ?thesis by simp
qed

lemma ulp_exp_upper:
  assumes "0 \<le> q"
  shows "q * 2 ^ 149 / 2 ^ ulp_exp q < 2 ^ 24"
proof -
  let ?n = "nat \<lfloor>q * 2 ^ 149\<rfloor>" and ?s = "ulp_exp q"
  have "?n < 2 ^ (?s + 24)"
    using floorlog_leD [of 2 ?n "?s + 24"] by (simp add: ulp_exp_def)
  then have n: "int ?n + 1 \<le> 2 ^ (?s + 24)" by (rule int_less_power)
  have "q * 2 ^ 149 < of_int (int ?n + 1)" using assms by (simp add: floor_less_iff [symmetric]) linarith
  also have "\<dots> \<le> of_int (2 ^ (?s + 24))" using n by (simp only: of_int_le_iff)
  finally show ?thesis by (simp add: field_simps power_add)
qed

lemma ulp_exp_lower:
  assumes "0 \<le> q" "0 < ulp_exp q"
  shows "2 ^ 23 \<le> q * 2 ^ 149 / 2 ^ ulp_exp q"
proof -
  let ?n = "nat \<lfloor>q * 2 ^ 149\<rfloor>" and ?s = "ulp_exp q"
  have "2 ^ (?s + 23) \<le> ?n"
    using floorlog_geD [of "?s + 24" 2 ?n] assms(2) by (simp add: ulp_exp_def)
  then have "(2 :: int) ^ (?s + 23) \<le> \<lfloor>q * 2 ^ 149\<rfloor>" by (simp add: le_nat_iff le_floor_iff flip: of_nat_le_iff)
  then have "of_int (2 ^ (?s + 23)) \<le> q * 2 ^ 149" by (simp only: le_floor_iff)
  then show ?thesis by (simp add: field_simps power_add)
qed

lemma rnd_nonneg: "0 \<le> q \<Longrightarrow> 0 \<le> rnd q"
  by (simp add: rnd_def Let_def round_even_nonneg)

lemma rnd_mono:
  assumes "0 \<le> q" "q \<le> q'"
  shows "rnd q \<le> rnd q'"
proof -
  let ?s = "ulp_exp q" and ?s' = "ulp_exp q'"
  let ?x = "q * 2 ^ 149 / 2 ^ ?s" and ?y = "q' * 2 ^ 149 / 2 ^ ?s'"
  consider "?s = ?s'" | "?s + 1 \<le> ?s'" using ulp_exp_mono [OF assms(2)] by linarith
  then have "of_int (round_even ?x) * (2 :: rat) ^ ?s \<le> of_int (round_even ?y) * 2 ^ ?s'"
  proof cases
    case 1
    have "round_even ?x \<le> round_even ?y"
      unfolding 1 by (rule round_even_mono) (use assms(2) in \<open>simp add: divide_right_mono\<close>)
    then show ?thesis unfolding 1 by (simp add: mult_right_mono)
  next
    case 2
    have "round_even ?x \<le> round_even (of_int (2 ^ 24))"
      by (rule round_even_mono) (use ulp_exp_upper [OF assms(1)] in simp)
    then have x: "of_int (round_even ?x) \<le> (of_int (2 ^ 24) :: rat)" unfolding round_even_of_int by (simp only: of_int_le_iff)
    have "round_even (of_int (2 ^ 23)) \<le> round_even ?y"
      by (rule round_even_mono) (use ulp_exp_lower [of q'] assms 2 in simp)
    then have y: "(of_int (2 ^ 23) :: rat) \<le> of_int (round_even ?y)" unfolding round_even_of_int by (simp only: of_int_le_iff)
    have "of_int (round_even ?x) * (2 :: rat) ^ ?s \<le> of_int (2 ^ 24) * 2 ^ ?s" using x by (rule mult_right_mono) simp
    also have "\<dots> = of_int (2 ^ 23) * 2 ^ (?s + 1)" by simp
    also have "\<dots> \<le> of_int (2 ^ 23) * 2 ^ ?s'" using 2 by (intro mult_left_mono power_increasing) simp_all
    also have "\<dots> \<le> of_int (round_even ?y) * 2 ^ ?s'" using y by (rule mult_right_mono) simp
    finally show ?thesis .
  qed
  then show ?thesis by (simp add: rnd_def Let_def divide_right_mono)
qed

lemma rnd_exact:
  assumes "q * 2 ^ 149 / 2 ^ ulp_exp q = of_int n"
  shows "rnd q = q"
proof -
  have "rnd q = of_int n * 2 ^ ulp_exp q / 2 ^ 149" unfolding rnd_def Let_def assms by simp
  then show ?thesis unfolding assms [symmetric] by simp
qed

lemma rnd_representable:
  assumes "representable r"
  shows "rnd r = r"
proof -
  obtain m k where m: "m \<le> (2 :: nat) ^ 24" "r = of_nat m * 2 ^ k / 2 ^ 149"
    using assms by (auto simp: representable_def)
  have N: "r * 2 ^ 149 = of_nat (m * 2 ^ k)" using m(2) by simp
  have s: "ulp_exp r = floorlog 2 (m * 2 ^ k) - 24"
    by (simp only: ulp_exp_def N floor_of_nat nat_int)
  obtain j where j: "m * 2 ^ k = j * 2 ^ ulp_exp r"
  proof (cases "m = 0 \<or> m = 2 ^ 24")
    case True
    then show thesis
    proof
      assume "m = 0"
      then show thesis using that [of 0] by simp
    next
      assume "m = 2 ^ 24"
      then have "m * 2 ^ k = 1 * 2 ^ (k + 24)" by (simp add: power_add)
      then have "ulp_exp r \<le> k + 24" using s floorlog_power [of 1 2 "k + 24"] by (simp add: floorlog_def)
      then have "(2 :: nat) ^ ulp_exp r dvd 2 ^ (k + 24)" by (rule le_imp_power_dvd)
      then show thesis using that \<open>m * 2 ^ k = 1 * 2 ^ (k + 24)\<close> by (metis dvdE mult.commute mult_1)
    qed
  next
    case False
    then have "floorlog 2 m \<le> 24" using m(1) by (simp add: floorlog_le_iff)
    then have "ulp_exp r \<le> k" using s False by simp
    then have "(2 :: nat) ^ ulp_exp r dvd m * 2 ^ k" by (simp add: le_imp_power_dvd)
    then show thesis using that by (metis dvdE mult.commute)
  qed
  have "r * 2 ^ 149 / 2 ^ ulp_exp r = of_int (int j)" unfolding N j by simp
  then show ?thesis by (rule rnd_exact)
qed

lemma representable_rnd:
  assumes "0 \<le> q"
  shows "representable (rnd q)"
proof -
  let ?x = "q * 2 ^ 149 / 2 ^ ulp_exp q"
  have "round_even ?x \<le> round_even (of_int (2 ^ 24))"
    by (rule round_even_mono) (use ulp_exp_upper [OF assms] in simp)
  then have le: "nat (round_even ?x) \<le> 2 ^ 24" unfolding round_even_of_int by (simp add: nat_le_iff)
  have "0 \<le> round_even ?x" using assms by (intro round_even_nonneg) simp
  then have "rnd q = of_nat (nat (round_even ?x)) * 2 ^ ulp_exp q / 2 ^ 149" by (simp add: rnd_def Let_def)
  then show ?thesis using le unfolding representable_def by blast
qed

lemma rnd_rnd [simp]: "0 \<le> q \<Longrightarrow> rnd (rnd q) = rnd q"
  by (simp add: rnd_representable representable_rnd)

lemma rnd_le: "0 \<le> q \<Longrightarrow> q \<le> r \<Longrightarrow> representable r \<Longrightarrow> rnd q \<le> r"
  using rnd_mono [of q r] rnd_representable [of r] by simp

lemma rnd_ge: "0 \<le> r \<Longrightarrow> r \<le> q \<Longrightarrow> representable r \<Longrightarrow> r \<le> rnd q"
  using rnd_mono [of r q] rnd_representable [of r] by simp

lemma rnd_error:
  assumes "0 \<le> q"
  shows "\<bar>rnd q - q\<bar> \<le> q / 2 ^ 24 + 1 / 2 ^ 150"
proof -
  let ?s = "ulp_exp q"
  let ?x = "q * 2 ^ 149 / 2 ^ ?s"
  have eq: "rnd q - q = (of_int (round_even ?x) - ?x) * 2 ^ ?s / 2 ^ 149"
    by (simp add: rnd_def Let_def field_simps)
  have "\<bar>rnd q - q\<bar> = \<bar>of_int (round_even ?x) - ?x\<bar> * 2 ^ ?s / 2 ^ 149"
    unfolding eq by (simp add: abs_mult)
  also have "\<dots> \<le> 1 / 2 * 2 ^ ?s / 2 ^ 149"
    by (intro divide_right_mono mult_right_mono round_even_error) simp_all
  also have "\<dots> \<le> q / 2 ^ 24 + 1 / 2 ^ 150"
  proof (cases "?s = 0")
    case True
    then show ?thesis using assms by simp
  next
    case False
    then have "2 ^ 23 \<le> ?x" using ulp_exp_lower [OF assms] by simp
    then have "2 ^ 23 * 2 ^ ?s \<le> q * 2 ^ 149" by (simp add: field_simps)
    then show ?thesis by (simp add: field_simps)
  qed
  finally show ?thesis .
qed

lemma representable_0 [simp]: "representable 0"
  unfolding representable_def by (rule exI [of _ 0]) simp

lemma representableI: "m \<le> 2 ^ 24 \<Longrightarrow> representable (of_nat m * 2 ^ k / 2 ^ 149)"
  unfolding representable_def by blast

lemma rnd_0 [simp]: "rnd 0 = 0"
  by (rule rnd_representable) simp

subsection \<open>Values and operations\<close>

text \<open>The sign is \<open>True\<close> for a negative number.\<close>

datatype float32 = FNan | FInf bool | FFin bool rat

definition fmax :: rat where
  "fmax = 2 ^ 128"

definition fl :: "bool \<Rightarrow> rat \<Rightarrow> float32" where
  "fl s q = (let r = rnd q in if fmax \<le> r then FInf s else FFin s r)"

text \<open>The exact value, and rounding of an exact value; \<open>z\<close> is the sign of a zero.\<close>

fun fval :: "float32 \<Rightarrow> rat" where
  "fval (FFin s q) = (if s then - q else q)"
| "fval _ = 0"

definition fround :: "bool \<Rightarrow> rat \<Rightarrow> float32" where
  "fround z q = fl (if q = 0 then z else q < 0) \<bar>q\<bar>"

fun is_finite :: "float32 \<Rightarrow> bool" where
  "is_finite (FFin s q) = True"
| "is_finite _ = False"

fun fneg :: "float32 \<Rightarrow> float32" where
  "fneg FNan = FNan"
| "fneg (FInf s) = FInf (\<not> s)"
| "fneg (FFin s q) = FFin (\<not> s) q"

fun fabs :: "float32 \<Rightarrow> float32" where
  "fabs FNan = FNan"
| "fabs (FInf s) = FInf False"
| "fabs (FFin s q) = FFin False q"

fun fmul :: "float32 \<Rightarrow> float32 \<Rightarrow> float32" where
  "fmul FNan y = FNan"
| "fmul x FNan = FNan"
| "fmul (FInf s) (FInf t) = FInf (s \<noteq> t)"
| "fmul (FInf s) (FFin t q) = (if q = 0 then FNan else FInf (s \<noteq> t))"
| "fmul (FFin s p) (FInf t) = (if p = 0 then FNan else FInf (s \<noteq> t))"
| "fmul (FFin s p) (FFin t q) = fl (s \<noteq> t) (p * q)"

fun fdiv :: "float32 \<Rightarrow> float32 \<Rightarrow> float32" where
  "fdiv FNan y = FNan"
| "fdiv x FNan = FNan"
| "fdiv (FInf s) (FInf t) = FNan"
| "fdiv (FInf s) (FFin t q) = FInf (s \<noteq> t)"
| "fdiv (FFin s p) (FInf t) = FFin (s \<noteq> t) 0"
| "fdiv (FFin s p) (FFin t q) =
     (if q = 0 then (if p = 0 then FNan else FInf (s \<noteq> t)) else fl (s \<noteq> t) (p / q))"

fun fadd :: "float32 \<Rightarrow> float32 \<Rightarrow> float32" where
  "fadd FNan y = FNan"
| "fadd x FNan = FNan"
| "fadd (FInf s) (FInf t) = (if s = t then FInf s else FNan)"
| "fadd (FInf s) (FFin t q) = FInf s"
| "fadd (FFin s p) (FInf t) = FInf t"
| "fadd (FFin s p) (FFin t q) = fround (s \<and> t) (fval (FFin s p) + fval (FFin t q))"

definition fsub :: "float32 \<Rightarrow> float32 \<Rightarrow> float32" where
  "fsub x y = fadd x (fneg y)"

text \<open>Comparisons are false when an operand is not a number; the two zeros are equal.\<close>

fun fless :: "float32 \<Rightarrow> float32 \<Rightarrow> bool" where
  "fless FNan y = False"
| "fless x FNan = False"
| "fless (FInf s) (FInf t) \<longleftrightarrow> s \<and> \<not> t"
| "fless (FInf s) (FFin t q) \<longleftrightarrow> s"
| "fless (FFin s p) (FInf t) \<longleftrightarrow> \<not> t"
| "fless (FFin s p) (FFin t q) \<longleftrightarrow> fval (FFin s p) < fval (FFin t q)"

fun feq :: "float32 \<Rightarrow> float32 \<Rightarrow> bool" where
  "feq (FInf s) (FInf t) \<longleftrightarrow> s = t"
| "feq (FFin s p) (FFin t q) \<longleftrightarrow> fval (FFin s p) = fval (FFin t q)"
| "feq _ _ = False"

definition fle :: "float32 \<Rightarrow> float32 \<Rightarrow> bool" where
  "fle x y \<longleftrightarrow> fless x y \<or> feq x y"

definition f_of_int :: "int \<Rightarrow> float32" where
  "f_of_int i = fround False (of_int i)"

text \<open>A decimal constant, rounded.\<close>

definition flit :: "rat \<Rightarrow> float32" where
  "flit q = fround False q"

definition f_zero :: float32 where
  "f_zero = FFin False 0"

definition f_one :: float32 where
  "f_one = FFin False 1"

text \<open>\<open>FLT_MAX\<close>\<close>

definition f_flt_max :: float32 where
  "f_flt_max = FFin False (2 ^ 128 - 2 ^ 104)"

text \<open>
  \<open>lroundf\<close> rounds half away from zero; a result outside of \<open>long\<close> (64 bits) is unspecified,
  hence \<open>None\<close>. The conversion to \<open>int\<close> keeps the low 32 bits.
\<close>

definition round_away :: "rat \<Rightarrow> int" where
  "round_away q = (if q < 0 then - \<lfloor>- q + 1 / 2\<rfloor> else \<lfloor>q + 1 / 2\<rfloor>)"

fun lroundf :: "float32 \<Rightarrow> int option" where
  "lroundf (FFin s q) = (let n = round_away (fval (FFin s q)) in
     if - (2 ^ 63) \<le> n \<and> n < 2 ^ 63 then Some n else None)"
| "lroundf _ = None"

definition long_to_int :: "int \<Rightarrow> int" where
  "long_to_int n = (n + 2 ^ 31) mod 2 ^ 32 - 2 ^ 31"

text \<open>
  \<open>sqrtf\<close>, correctly rounded: the integer square root of the magnitude in units of
  \<open>2 ^ -300\<close>, with a half as the sticky bit when it is not exact.
\<close>

function isqrt :: "nat \<Rightarrow> nat" where
  "isqrt n = (if n = 0 then 0 else let r = 2 * isqrt (n div 4) in if (r + 1) * (r + 1) \<le> n then r + 1 else r)"
  by auto
termination by (relation "measure (\<lambda>n. n)") auto

declare isqrt.simps [simp del]

definition sqrt_mag :: "rat \<Rightarrow> rat" where
  "sqrt_mag q = (let a = q * 2 ^ 300; r = isqrt (nat \<lfloor>a\<rfloor>) in
     rnd ((if of_nat (r * r) = a then of_nat r else of_nat r + 1 / 2) / 2 ^ 150))"

fun fsqrt :: "float32 \<Rightarrow> float32" where
  "fsqrt FNan = FNan"
| "fsqrt (FInf s) = (if s then FNan else FInf False)"
| "fsqrt (FFin s q) = (if q = 0 then FFin s 0 else if s then FNan else FFin False (sqrt_mag q))"

subsection \<open>Well-formed values\<close>

text \<open>A magnitude must be representable; \<open>fnum\<close> leaves out the values that are not numbers.\<close>

fun is_f32 :: "float32 \<Rightarrow> bool" where
  "is_f32 (FFin s q) \<longleftrightarrow> 0 \<le> q \<and> q < fmax \<and> representable q"
| "is_f32 _ = True"

text \<open>
  Numbers as rationals: an infinity lies beyond every finite value. On numbers the comparisons
  are those of the keys.
\<close>

fun fkey :: "float32 \<Rightarrow> rat" where
  "fkey (FFin s q) = (if s then - q else q)"
| "fkey (FInf s) = (if s then - fmax else fmax)"
| "fkey FNan = 0"

definition is_num :: "float32 \<Rightarrow> bool" where
  "is_num x \<longleftrightarrow> is_f32 x \<and> x \<noteq> FNan"

lemma is_num_simps [simp]:
  "is_num (FInf s)" "\<not> is_num FNan" "is_num (FFin s q) \<longleftrightarrow> 0 \<le> q \<and> q < fmax \<and> representable q"
  by (simp_all add: is_num_def)

lemma fmax_pos [simp]: "0 < fmax" "0 \<le> fmax" "\<not> fmax < 0" "\<not> fmax \<le> 0" "fmax \<noteq> 0" "0 \<noteq> fmax"
  by (simp_all add: fmax_def)

lemma fless_key: "is_num x \<Longrightarrow> is_num y \<Longrightarrow> fless x y \<longleftrightarrow> fkey x < fkey y"
  by (cases x; cases y) auto

lemma feq_key: "is_num x \<Longrightarrow> is_num y \<Longrightarrow> feq x y \<longleftrightarrow> fkey x = fkey y"
  by (cases x; cases y) auto

lemma fle_key: "is_num x \<Longrightarrow> is_num y \<Longrightarrow> fle x y \<longleftrightarrow> fkey x \<le> fkey y"
  by (auto simp: fle_def fless_key feq_key)

lemma fkey_finite: "is_finite x \<Longrightarrow> fkey x = fval x"
  by (cases x) auto

lemma fl_num [simp]: "0 \<le> q \<Longrightarrow> is_num (fl s q)"
  by (simp add: fl_def Let_def rnd_nonneg representable_rnd)

lemma fround_num [simp]: "is_num (fround z q)"
  by (simp add: fround_def)

text \<open>The key of a rounded value.\<close>

definition rkey :: "rat \<Rightarrow> rat" where
  "rkey q = (if q < 0 then - min fmax (rnd (- q)) else min fmax (rnd q))"

lemma fkey_fl: "0 \<le> q \<Longrightarrow> fkey (fl s q) = (if s then - min fmax (rnd q) else min fmax (rnd q))"
  by (auto simp: fl_def Let_def)

lemma fkey_fround: "fkey (fround z q) = rkey q"
  by (auto simp: fround_def fkey_fl rkey_def min_def)

lemma rkey_0 [simp]: "rkey 0 = 0"
  by (simp add: rkey_def)

lemma rkey_mono: "q \<le> r \<Longrightarrow> rkey q \<le> rkey r"
proof -
  assume qr: "q \<le> r"
  have nn: "0 \<le> min fmax (rnd x)" if "0 \<le> x" for x using rnd_nonneg [OF that] by simp
  consider "r < 0" | "q < 0" "0 \<le> r" | "0 \<le> q" by linarith
  then show ?thesis
  proof cases
    case 1
    have "rnd (- r) \<le> rnd (- q)" by (rule rnd_mono) (use 1 qr in simp_all)
    then show ?thesis using 1 qr by (auto simp: rkey_def)
  next
    case 2
    then have "rkey q = - min fmax (rnd (- q))" "rkey r = min fmax (rnd r)" by (simp_all add: rkey_def)
    then show ?thesis using nn [of "- q"] nn [of r] 2 by linarith
  next
    case 3
    have "rnd q \<le> rnd r" by (rule rnd_mono) (use 3 qr in simp_all)
    then show ?thesis using 3 qr by (auto simp: rkey_def)
  qed
qed

lemma rkey_exact: "representable \<bar>q\<bar> \<Longrightarrow> \<bar>q\<bar> < fmax \<Longrightarrow> rkey q = q"
  by (auto simp: rkey_def rnd_representable min_def split: if_splits)

lemma fround_exact: "representable \<bar>q\<bar> \<Longrightarrow> \<bar>q\<bar> < fmax \<Longrightarrow> fround z q = FFin (if q = 0 then z else q < 0) \<bar>q\<bar>"
  by (simp add: fround_def fl_def rnd_representable)

lemma fl_exact: "representable q \<Longrightarrow> q < fmax \<Longrightarrow> fl s q = FFin s q"
  by (simp add: fl_def rnd_representable)

subsection \<open>Operations on numbers\<close>

lemma is_finite_cases: "is_finite x \<Longrightarrow> (\<And>s q. x = FFin s q \<Longrightarrow> thesis) \<Longrightarrow> thesis"
  by (cases x) auto

lemma is_numI: "is_f32 x \<Longrightarrow> is_finite x \<Longrightarrow> is_num x"
  by (cases x) auto

lemma fmul_finite:
  assumes "is_finite x" "is_finite y" "is_f32 x" "is_f32 y"
  shows "is_num (fmul x y)" "fkey (fmul x y) = rkey (fval x * fval y)"
  using assms by (cases x; cases y; auto simp: fkey_fl rkey_def zero_less_mult_iff mult_less_0_iff)+

lemma fadd_finite:
  assumes "is_finite x" "is_finite y"
  shows "is_num (fadd x y)" "fkey (fadd x y) = rkey (fval x + fval y)"
  using assms by (cases x; cases y; simp add: fkey_fround)+

lemma fneg_simps [simp]:
  "is_finite (fneg x) = is_finite x" "fval (fneg x) = - fval x" "fkey (fneg x) = - fkey x"
  "is_f32 (fneg x) = is_f32 x" "is_num (fneg x) = is_num x"
  by (cases x; simp)+

lemma fsub_finite:
  assumes "is_finite x" "is_finite y"
  shows "is_num (fsub x y)" "fkey (fsub x y) = rkey (fval x - fval y)"
  using fadd_finite [of x "fneg y"] assms by (simp_all add: fsub_def)

lemma fabs_simps [simp]:
  "is_finite (fabs x) = is_finite x" "is_f32 (fabs x) = is_f32 x" "is_num (fabs x) = is_num x"
  by (cases x; simp)+

lemma fabs_val [simp]: "is_f32 x \<Longrightarrow> fval (fabs x) = \<bar>fval x\<bar>" "is_f32 x \<Longrightarrow> fkey (fabs x) = \<bar>fkey x\<bar>"
  by (cases x; auto)+

lemma f_of_int_key:
  assumes "\<bar>i\<bar> \<le> 2 ^ 24"
  shows "f_of_int i = FFin (i < 0) (of_int \<bar>i\<bar>)"
proof -
  have "representable \<bar>of_int i\<bar>"
    using representableI [of "nat \<bar>i\<bar>" 149] assms by (simp add: nat_le_iff)
  moreover have "\<bar>of_int i\<bar> < fmax"
  proof -
    have "\<bar>of_int i\<bar> \<le> (of_int (2 ^ 24) :: rat)" using assms unfolding of_int_abs [symmetric] of_int_le_iff .
    then show ?thesis by (simp add: fmax_def)
  qed
  ultimately show ?thesis by (simp add: f_of_int_def fround_exact)
qed

text \<open>Sums of numbers that are not negative: no NaN, and each summand is a lower bound.\<close>

definition nonneg :: "float32 \<Rightarrow> bool" where
  "nonneg x \<longleftrightarrow> is_num x \<and> 0 \<le> fkey x"

lemma nonnegD: "nonneg x \<Longrightarrow> is_num x" "nonneg x \<Longrightarrow> 0 \<le> fkey x"
  by (simp_all add: nonneg_def)

lemma fkey_le_fmax: "is_num x \<Longrightarrow> fkey x \<le> fmax"
  by (cases x) (auto simp: less_imp_le intro: order_trans [of _ 0])

lemma rkey_num: "is_f32 x \<Longrightarrow> is_finite x \<Longrightarrow> rkey (fval x) = fval x"
  by (cases x) (auto intro!: rkey_exact)

lemma nonneg_fadd:
  assumes "nonneg x" "nonneg y"
  shows "nonneg (fadd x y)" "fkey x \<le> fkey (fadd x y)" "fkey y \<le> fkey (fadd x y)"
proof -
  have "is_num (fadd x y) \<and> fkey x \<le> fkey (fadd x y) \<and> fkey y \<le> fkey (fadd x y)"
  proof (cases "is_finite x \<and> is_finite y")
    case True
    then have "fkey (fadd x y) = rkey (fval x + fval y)" "is_num (fadd x y)" by (simp_all add: fadd_finite)
    moreover have "fval x \<le> fval x + fval y" "fval y \<le> fval x + fval y"
      using assms True by (simp_all add: nonneg_def fkey_finite)
    then have "rkey (fval x) \<le> rkey (fval x + fval y)" "rkey (fval y) \<le> rkey (fval x + fval y)" by (simp_all add: rkey_mono)
    moreover have "rkey (fval x) = fkey x" "rkey (fval y) = fkey y"
      using assms True by (simp_all add: nonneg_def is_num_def rkey_num fkey_finite)
    ultimately show ?thesis by simp
  next
    case False
    then have "fadd x y = FInf False"
      using assms by (cases x; cases y) (auto simp: nonneg_def split: if_splits)
    then show ?thesis using assms by (simp add: nonneg_def fkey_le_fmax)
  qed
  then show "nonneg (fadd x y)" "fkey x \<le> fkey (fadd x y)" "fkey y \<le> fkey (fadd x y)"
    using assms by (auto simp: nonneg_def)
qed

lemma fadd_zero: "nonneg x \<Longrightarrow> fkey x = 0 \<Longrightarrow> nonneg y \<Longrightarrow> fkey (fadd x y) = fkey y"
proof -
  assume x: "nonneg x" "fkey x = 0" and y: "nonneg y"
  then obtain s where xs: "x = FFin s 0" by (cases x) (auto simp: nonneg_def split: if_splits)
  show ?thesis
  proof (cases "is_finite y")
    case True
    then have "rkey (fval y) = fkey y" using y by (simp add: nonneg_def is_num_def rkey_num fkey_finite)
    then show ?thesis using fadd_finite [of x y] True xs by simp
  next
    case False
    then show ?thesis using y xs by (cases y) (auto simp: nonneg_def)
  qed
qed

lemma square_nonneg: "is_num d \<Longrightarrow> nonneg (fmul d d)"
proof -
  assume d: "is_num d"
  show ?thesis
  proof (cases "is_finite d")
    case True
    have "rkey 0 \<le> rkey (fval d * fval d)" by (rule rkey_mono) simp
    then show ?thesis using fmul_finite [of d d] True d by (simp add: nonneg_def is_num_def)
  next
    case False
    then show ?thesis using d by (cases d) (auto simp: nonneg_def)
  qed
qed

lemma abs_mult_self_mono: "\<bar>a :: rat\<bar> \<le> \<bar>b\<bar> \<Longrightarrow> a * a \<le> b * b"
  using mult_mono [of "\<bar>a\<bar>" "\<bar>b\<bar>" "\<bar>a\<bar>" "\<bar>b\<bar>"] by simp

lemma square_mono:
  assumes "is_num c" "is_num d" "\<bar>fkey c\<bar> \<le> \<bar>fkey d\<bar>"
  shows "fkey (fmul c c) \<le> fkey (fmul d d)"
proof (cases "is_finite d")
  case False
  then have "fmul d d = FInf False" using assms(2) by (cases d) auto
  then show ?thesis using fkey_le_fmax [of "fmul c c"] square_nonneg [OF assms(1)] by (simp add: nonneg_def)
next
  case True
  then have "\<bar>fkey d\<bar> < fmax" using assms(2) by (cases d) (auto split: if_splits)
  then have c: "is_finite c" using assms(1,3) by (cases c) (auto split: if_splits)
  have "fkey (fmul c c) = rkey (fval c * fval c)" "fkey (fmul d d) = rkey (fval d * fval d)"
    using fmul_finite c True assms(1,2) by (simp_all add: is_num_def)
  moreover have "fval c * fval c \<le> fval d * fval d"
    by (rule abs_mult_self_mono) (use assms(3) c True in \<open>simp add: fkey_finite\<close>)
  ultimately show ?thesis by (simp add: rkey_mono)
qed

subsection \<open>The square root\<close>

lemma isqrt_spec: "isqrt n * isqrt n \<le> n \<and> n < (isqrt n + 1) * (isqrt n + 1)"
proof (induction n rule: less_induct)
  case (less n)
  show ?case
  proof (cases "n = 0")
    case True
    then show ?thesis by (simp add: isqrt.simps)
  next
    case False
    let ?s = "isqrt (n div 4)"
    have "n div 4 < n" using False by simp
    from less.IH [OF this] have s: "?s * ?s \<le> n div 4" "n div 4 < (?s + 1) * (?s + 1)" by blast+
    then have "n div 4 + 1 \<le> (?s + 1) * (?s + 1)" by simp
    have low: "4 * (?s * ?s) \<le> n" using s(1) by linarith
    have high: "n < 4 * ((?s + 1) * (?s + 1))" using s(2) by linarith
    let ?r = "2 * ?s"
    have unf: "isqrt n = (if (?r + 1) * (?r + 1) \<le> n then ?r + 1 else ?r)"
      using False by (subst isqrt.simps) (simp add: Let_def)
    show ?thesis unfolding unf using low high by (auto simp: algebra_simps)
  qed
qed

lemma fsqrt_nonneg:
  assumes "nonneg x"
  shows "nonneg (fsqrt x)"
proof (cases x)
  case FNan
  then show ?thesis using assms by (simp add: nonneg_def)
next
  case (FInf s)
  then show ?thesis using assms by (auto simp: nonneg_def split: if_splits)
next
  case (FFin s q)
  have q: "0 \<le> q" "q < fmax" using assms FFin by (simp_all add: nonneg_def)
  let ?n = "nat \<lfloor>q * 2 ^ 300\<rfloor>"
  let ?r = "isqrt ?n"
  have "?r < 2 ^ 214"
  proof (rule ccontr)
    assume "\<not> ?r < 2 ^ 214"
    then have "2 ^ 214 * 2 ^ 214 \<le> ?r * ?r" by (intro mult_le_mono) simp_all
    then have "2 ^ 428 \<le> ?n" using isqrt_spec [of ?n] by (simp flip: power_add)
    then have "int (2 ^ 428) \<le> int ?n" by (simp only: of_nat_le_iff)
    moreover have "int ?n = \<lfloor>q * 2 ^ 300\<rfloor>" using q(1) by (intro nat_0_le) (simp only: zero_le_floor, simp)
    ultimately have "(2 :: int) ^ 428 \<le> \<lfloor>q * 2 ^ 300\<rfloor>" by (simp only: of_nat_power of_nat_numeral)
    then have "of_int (2 ^ 428) \<le> q * 2 ^ 300" by (simp only: le_floor_iff)
    then show False using q(2) by (simp add: fmax_def)
  qed
  then have "of_nat ?r + 1 \<le> (2 :: rat) ^ 214"
  proof -
    assume "?r < 2 ^ 214"
    then have "of_nat (?r + 1) \<le> (of_nat (2 ^ 214) :: rat)" by (simp only: of_nat_le_iff)
    then show ?thesis by simp
  qed
  then have le: "(of_nat ?r + 1 / 2) / 2 ^ 150 \<le> (2 :: rat) ^ 64" "of_nat ?r / 2 ^ 150 \<le> (2 :: rat) ^ 64" by simp_all
  have nn: "(0 :: rat) \<le> (of_nat ?r + 1 / 2) / 2 ^ 150" "(0 :: rat) \<le> of_nat ?r / 2 ^ 150" by simp_all
  have rep: "representable (2 ^ 64)" using representableI [of 1 213] by (simp flip: power_add)
  have "0 \<le> sqrt_mag q \<and> sqrt_mag q \<le> 2 ^ 64 \<and> representable (sqrt_mag q)"
    unfolding sqrt_mag_def Let_def using rnd_le [OF _ _ rep] le nn by (simp add: rnd_nonneg representable_rnd)
  moreover have "(2 :: rat) ^ 64 < fmax" by (simp add: fmax_def)
  ultimately show ?thesis using FFin assms by (auto simp: nonneg_def split: if_splits)
qed

end
