(* ===== verification/ScaleSearch.thy ===== *)
theory ScaleSearch
  imports F32
begin

section \<open>Scales and the search for the best one\<close>

text \<open>
  What the ROCmFP quantizers of \<open>ggml/rocmfp4/rocmfp4.c\<close> and \<open>ggml/rocmfpx/rocmfpx.c\<close> share. A
  block stores its scale as a byte: an unsigned E4M3 number, decoded by a table of 127 entries.
  A quantizer finds the entry nearest to a target by binary search, and from there looks for the
  scale with the least error, going outwards in both directions and giving up the lower one
  when clipping alone costs more than the best error so far. The locale \<open>scale_search\<close> states
  what this search needs of the error function and of the clipping test, and shows that it then
  finds what a scan over all scales in ascending order finds.
\<close>

subsection \<open>Scale bytes\<close>

text \<open>The rows of the tables: \<open>SUB(M)\<close>, then \<open>E1(M)\<close> to \<open>E15(M)\<close>, less the last entry.\<close>

definition ue4m3_table :: "float32 list" where
  "ue4m3_table = map (\<lambda>m. flit (of_nat m / 2 ^ 10)) [0..<8]
     @ take 119 (concat (map (\<lambda>k. map (\<lambda>m. flit ((8 + of_nat m) * 2 ^ k / 2 ^ 11)) [0..<8]) [1..<16]))"

definition rocmfp4_ue4m3_to_fp32_half :: "nat \<Rightarrow> float32" where
  "rocmfp4_ue4m3_to_fp32_half e = (if e \<le> 126 then ue4m3_table ! e else f_zero)"

definition rocmfp4_scale_is_valid :: "nat \<Rightarrow> bool" where
  "rocmfp4_scale_is_valid e \<longleftrightarrow> e \<le> 126"

definition rocmfpx_scale_is_valid :: "nat \<Rightarrow> bool" where
  "rocmfpx_scale_is_valid e \<longleftrightarrow> e \<le> 126"

text \<open>ROCmFPX has the table twice, the first one with the power of two as a macro argument.\<close>

definition rocmfpx_scale_ue4m3 :: "float32 list" where
  "rocmfpx_scale_ue4m3 = map (\<lambda>m. flit (of_nat m / 2 ^ 10)) [0..<8]
     @ take 119 (concat (map (\<lambda>B. map (\<lambda>m. flit ((8 + of_nat m) * B)) [0..<8])
         [1 / 2 ^ 10, 1 / 2 ^ 9, 1 / 2 ^ 8, 1 / 2 ^ 7, 1 / 2 ^ 6, 1 / 2 ^ 5, 1 / 2 ^ 4, 1 / 2 ^ 3, 1 / 2 ^ 2, 1 / 2, 1, 2, 4, 8, 16]))"

definition rocmfpx_scale_table :: "float32 list" where
  "rocmfpx_scale_table = map (\<lambda>m. flit (of_nat m / 2 ^ 10)) [0..<8]
     @ take 119 (concat (map (\<lambda>k. map (\<lambda>m. flit ((8 + of_nat m) * 2 ^ k / 2 ^ 11)) [0..<8]) [1..<16]))"

definition rocmfpx_ue4m3_to_fp32 :: "nat \<Rightarrow> float32" where
  "rocmfpx_ue4m3_to_fp32 e = (if rocmfpx_scale_is_valid e then rocmfpx_scale_ue4m3 ! e else f_zero)"

definition rocmfpx_scale_lookup :: "nat \<Rightarrow> float32" where
  "rocmfpx_scale_lookup e = (if e \<le> 126 then rocmfpx_scale_table ! e else f_zero)"

lemma rocmfpx_tables: "rocmfpx_scale_table = ue4m3_table" "rocmfpx_scale_ue4m3 = ue4m3_table"
proof -
  have ks: "[1 / 2 ^ 10, 1 / 2 ^ 9, 1 / 2 ^ 8, 1 / 2 ^ 7, 1 / 2 ^ 6, 1 / 2 ^ 5, 1 / 2 ^ 4, 1 / 2 ^ 3, 1 / 2 ^ 2, 1 / 2, 1, 2, 4, 8, 16]
      = map (\<lambda>k. 2 ^ k / 2 ^ 11 :: rat) [1..<16]"
    by (simp add: upt_rec)
  show "rocmfpx_scale_table = ue4m3_table" by (simp only: rocmfpx_scale_table_def ue4m3_table_def)
  show "rocmfpx_scale_ue4m3 = ue4m3_table"
    unfolding rocmfpx_scale_ue4m3_def ue4m3_table_def ks map_map comp_def times_divide_eq_right ..
qed

subsection \<open>The nearest scale\<close>

text \<open>The loop \<open>while (lo < hi)\<close> of the binary search.\<close>

function lower_scale :: "float32 list \<Rightarrow> float32 \<Rightarrow> nat \<Rightarrow> nat \<Rightarrow> nat" where
  "lower_scale tab target lo hi =
     (if lo < hi
      then (let mid = lo + (hi - lo) div 2 in
        if fless (tab ! mid) target then lower_scale tab target (mid + 1) hi
        else lower_scale tab target lo mid)
      else lo)"
  by auto
termination by (relation "measure (\<lambda>(tab, target, lo, hi). hi - lo)") auto

declare lower_scale.simps [simp del]

definition nearer_scale :: "float32 list \<Rightarrow> float32 \<Rightarrow> nat" where
  "nearer_scale tab target = (let lo = lower_scale tab target 1 126 in
     if lo = 1 then 1
     else let hi_scale = tab ! lo; lo_scale = tab ! (lo - 1) in
       if fle (fsub target lo_scale) (fsub hi_scale target) then lo - 1 else lo)"

definition rocmfp4_nearest_scale_ue4m3 :: "float32 \<Rightarrow> nat" where
  "rocmfp4_nearest_scale_ue4m3 target =
     (if \<not> fless f_zero target \<or> \<not> is_finite target then 1 else nearer_scale ue4m3_table target)"

definition rocmfpx_nearest_scale_ue4m3 :: "float32 \<Rightarrow> nat" where
  "rocmfpx_nearest_scale_ue4m3 target =
     (if \<not> fless f_zero target \<or> \<not> is_finite target then 0 else nearer_scale rocmfpx_scale_table target)"

subsection \<open>The search\<close>

text \<open>
  \<open>err e best\<close> is the error of scale \<open>e\<close>, computed until it exceeds \<open>best\<close>; \<open>clip e best\<close> the
  test that ends the lower direction. The state is \<open>best_e\<close>, \<open>best_err\<close> and \<open>lower_done\<close>.
\<close>

definition try_scale :: "(nat \<Rightarrow> float32 \<Rightarrow> float32 option) \<Rightarrow> nat \<Rightarrow> nat \<times> float32 \<Rightarrow> (nat \<times> float32) option" where
  "try_scale err e = (\<lambda>(best_e, best_err). do {
     r \<leftarrow> err e best_err;
     Some (if fless r best_err \<or> (feq r best_err \<and> e < best_e) then (e, r) else (best_e, best_err)) })"

definition search_step :: "(nat \<Rightarrow> float32 \<Rightarrow> float32 option) \<Rightarrow> (nat \<Rightarrow> float32 \<Rightarrow> bool) \<Rightarrow> nat \<Rightarrow> nat
    \<Rightarrow> (nat \<times> float32) \<times> bool \<Rightarrow> (bool \<times> (nat \<times> float32) \<times> bool) option" where
  "search_step err clip start delta = (\<lambda>(best, lower_done).
     let e0 = int start - int delta; e1 = start + delta in do {
       (best, lower_done) \<leftarrow>
         (if \<not> lower_done \<and> e0 \<ge> 1 \<and> e0 \<le> 126
          then (if clip (nat e0) (snd best) then Some (best, True)
                else do { best \<leftarrow> try_scale err (nat e0) best; Some (best, lower_done) })
          else Some (best, lower_done));
       best \<leftarrow> (if delta \<noteq> 0 \<and> e1 \<ge> 1 \<and> e1 \<le> 126 then try_scale err e1 best else Some best);
       Some (\<not> ((lower_done \<or> e0 \<le> 1) \<and> e1 \<ge> 126), best, lower_done) })"

definition search_scale :: "(nat \<Rightarrow> float32 \<Rightarrow> float32 option) \<Rightarrow> (nat \<Rightarrow> float32 \<Rightarrow> bool) \<Rightarrow> nat \<Rightarrow> nat \<times> float32
    \<Rightarrow> nat option" where
  "search_scale err clip start best = do {
     (_, (best_e, _), _) \<leftarrow> for_ret (search_step err clip start) [0..<126] (best, False);
     Some best_e }"

lemma for_ret_upt:
  assumes "P 0 s"
    and "\<And>k s. k < n \<Longrightarrow> P k s \<Longrightarrow> \<exists>ok s'. f k s = Some (ok, s') \<and> (if ok then P (Suc k) s' else Q s')"
  shows "\<exists>ok s'. for_ret f [0..<n] s = Some (ok, s') \<and> (if ok then P n s' else Q s')"
  using assms(2)
proof (induction n)
  case 0
  show ?case by (intro exI [of _ True] exI [of _ s]) (use assms(1) in simp)
next
  case (Suc n)
  have "\<exists>ok s'. for_ret f [0..<n] s = Some (ok, s') \<and> (if ok then P n s' else Q s')"
  proof (rule Suc.IH)
    fix k s assume "k < n" "P k s"
    then show "\<exists>ok s'. f k s = Some (ok, s') \<and> (if ok then P (Suc k) s' else Q s')"
      by (intro Suc.prems) simp_all
  qed
  then obtain ok s1 where s1: "for_ret f [0..<n] s = Some (ok, s1)" "if ok then P n s1 else Q s1"
    by blast
  show ?case
  proof (cases ok)
    case True
    then obtain ok' s2 where s2: "f n s1 = Some (ok', s2)" "if ok' then P (Suc n) s2 else Q s2"
    proof -
      have "P n s1" using s1(2) True by simp
      from Suc.prems [OF lessI this] show thesis by (elim exE conjE) (rule that)
    qed
    have "for_ret f [0..<Suc n] s = Some (ok', s2)"
      using s1(1) s2(1) True by (cases ok') (simp_all add: for_ret_append and_then_def)
    then show ?thesis using s2(2) by blast
  next
    case False
    have "for_ret f [0..<Suc n] s = Some (False, s1)"
      using s1(1) False by (simp add: for_ret_append and_then_def)
    then show ?thesis using s1(2) False by auto
  qed
qed

text \<open>
  \<open>E e\<close> is the whole error of scale \<open>e\<close>. The result is the least pair of error and scale: the
  scale an ascending scan with strict comparisons finds.
\<close>

locale scale_search =
  fixes err :: "'d \<Rightarrow> nat \<Rightarrow> float32 \<Rightarrow> float32 option" and clip :: "'d \<Rightarrow> nat \<Rightarrow> float32 \<Rightarrow> bool"
    and E :: "'d \<Rightarrow> nat \<Rightarrow> float32" and good :: "'d \<Rightarrow> bool"
  assumes E_nonneg: "good d \<Longrightarrow> 1 \<le> e \<Longrightarrow> e \<le> 126 \<Longrightarrow> nonneg (E d e)"
    and err_ok: "good d \<Longrightarrow> 1 \<le> e \<Longrightarrow> e \<le> 126 \<Longrightarrow> nonneg b \<Longrightarrow> \<exists>r. err d e b = Some r \<and> nonneg r
        \<and> (fkey (E d e) \<le> fkey b \<longrightarrow> fkey r = fkey (E d e)) \<and> (fkey b < fkey (E d e) \<longrightarrow> fkey b < fkey r)"
    and clip_ok: "good d \<Longrightarrow> clip d e b \<Longrightarrow> nonneg b \<Longrightarrow> 1 \<le> e' \<Longrightarrow> e' \<le> e \<Longrightarrow> e \<le> 126 \<Longrightarrow> fkey b < fkey (E d e')"
begin

definition key :: "'d \<Rightarrow> nat \<Rightarrow> rat \<times> nat" where
  "key x e = (fkey (E x e), e)"

lemma try_scale_run:
  assumes x: "good x" and e: "1 \<le> e" "e \<le> 126" and b: "nonneg b"
  shows "\<exists>b' eb'. try_scale (err x) e (eb, b) = Some (eb', b') \<and> nonneg b' \<and> (fkey b', eb') = min (key x e) (fkey b, eb)"
proof -
  obtain r where r: "err x e b = Some r" "nonneg r" "fkey (E x e) \<le> fkey b \<longrightarrow> fkey r = fkey (E x e)"
    "fkey b < fkey (E x e) \<longrightarrow> fkey b < fkey r"
    using err_ok [OF x e b] by blast
  have cmp: "fless r b \<longleftrightarrow> fkey r < fkey b" "feq r b \<longleftrightarrow> fkey r = fkey b"
    using r(2) b by (simp_all add: nonneg_def fless_key feq_key)
  show ?thesis
    using r b by (auto simp: try_scale_def cmp key_def min_def less_eq_prod_def)
qed

lemma search_run:
  assumes x: "good x" and start: "start \<le> 126" and b0: "nonneg b0"
  shows "search_scale (err x) (clip x) start (e0, b0) = Some (snd (Min (insert (fkey b0, e0) (key x ` {1..min 126 (start + 125)}))))"
proof -
  let ?K = "insert (fkey b0, e0) (key x ` {1..min 126 (start + 125)})"
  let ?P = "\<lambda>d ((eb, b), ld). nonneg b \<and> (fkey b, eb) \<in> ?K \<and> (fkey b, eb) \<le> (fkey b0, e0)
      \<and> (\<forall>e. 1 \<le> e \<and> e \<le> 126 \<and> int start - int d < int e \<and> e < start + d \<longrightarrow> (fkey b, eb) \<le> key x e)
      \<and> (ld \<longrightarrow> (\<forall>e. 1 \<le> e \<and> e \<le> 126 \<and> int e \<le> int start - int d \<longrightarrow> fkey b < fkey (E x e)))"
  let ?Q = "\<lambda>((eb, b), ld :: bool). (fkey b, eb) \<in> ?K \<and> (\<forall>k \<in> ?K. (fkey b, eb) \<le> k)"
  have step: "\<exists>ok st'. search_step (err x) (clip x) start d st = Some (ok, st') \<and> (if ok then ?P (Suc d) st' else ?Q st')"
    if P: "?P d st" and d: "d < 126" for d st
  proof -
    obtain eb b ld where st: "st = ((eb, b), ld)" by (metis surj_pair)
    have b: "nonneg b" "(fkey b, eb) \<in> ?K" "(fkey b, eb) \<le> (fkey b0, e0)"
      "\<And>e. 1 \<le> e \<Longrightarrow> e \<le> 126 \<Longrightarrow> int start - int d < int e \<Longrightarrow> e < start + d \<Longrightarrow> (fkey b, eb) \<le> key x e"
      "\<And>e. ld \<Longrightarrow> 1 \<le> e \<Longrightarrow> e \<le> 126 \<Longrightarrow> int e \<le> int start - int d \<Longrightarrow> fkey b < fkey (E x e)"
      using P by (auto simp: st)
    let ?e0 = "int start - int d" and ?e1 = "start + d"
    let ?low = "(if \<not> ld \<and> ?e0 \<ge> 1 \<and> ?e0 \<le> 126
          then (if clip x (nat ?e0) b then Some ((eb, b), True)
                else do { best \<leftarrow> try_scale (err x) (nat ?e0) (eb, b); Some (best, ld) })
          else Some ((eb, b), ld))"
    obtain eb1 b1 ld1 where low: "?low = Some ((eb1, b1), ld1)" and b1: "nonneg b1" "(fkey b1, eb1) \<in> ?K"
      "(fkey b1, eb1) \<le> (fkey b, eb)" "1 \<le> ?e0 \<longrightarrow> (fkey b1, eb1) \<le> key x (nat ?e0)"
      "ld1 \<longrightarrow> (\<forall>e. 1 \<le> e \<and> e \<le> 126 \<and> int e \<le> ?e0 \<longrightarrow> fkey b1 < fkey (E x e))"
    proof (cases "\<not> ld \<and> ?e0 \<ge> 1")
      case False
      have "(fkey b, eb) \<le> key x (nat ?e0)" if "1 \<le> ?e0"
        using b(5) [of "nat ?e0"] False that start by (simp add: key_def less_eq_prod_def)
      then show thesis using that [of eb b ld] b False by auto
    next
      case True
      then have e: "1 \<le> nat ?e0" "nat ?e0 \<le> 126" "int (nat ?e0) = ?e0" "?e0 \<le> 126" using start by auto
      show thesis
      proof (cases "clip x (nat ?e0) b")
        case clip: True
        have lt: "fkey b < fkey (E x e')" if "1 \<le> e'" "int e' \<le> ?e0" for e'
          using clip_ok [OF x clip b(1) that(1) _ e(2)] that(2) by simp
        have "(fkey b, eb) \<le> key x (nat ?e0)" using lt [of "nat ?e0"] e by (simp add: key_def less_eq_prod_def)
        then show thesis using that [of eb b True] b(1-3) lt True e(4) clip by auto
      next
        case False
        obtain b' eb' where t: "try_scale (err x) (nat ?e0) (eb, b) = Some (eb', b')" "nonneg b'"
          "(fkey b', eb') = min (key x (nat ?e0)) (fkey b, eb)"
          using try_scale_run [OF x e(1,2) b(1)] by blast
        have "(fkey b', eb') \<in> ?K" using t(3) b(2) e(1,2) start by (auto simp: min_def)
        then show thesis using that [of eb' b' ld] t True False e(4) by (auto simp: t(3))
      qed
    qed
    let ?high = "(if d \<noteq> 0 \<and> ?e1 \<ge> 1 \<and> ?e1 \<le> 126 then try_scale (err x) ?e1 (eb1, b1) else Some (eb1, b1))"
    obtain eb2 b2 where high: "?high = Some (eb2, b2)" and b2: "nonneg b2" "(fkey b2, eb2) \<in> ?K"
      "(fkey b2, eb2) \<le> (fkey b1, eb1)" "1 \<le> ?e1 \<and> ?e1 \<le> 126 \<longrightarrow> (fkey b2, eb2) \<le> key x ?e1"
    proof (cases "d \<noteq> 0 \<and> ?e1 \<le> 126")
      case True
      obtain b' eb' where t: "try_scale (err x) ?e1 (eb1, b1) = Some (eb', b')" "nonneg b'"
        "(fkey b', eb') = min (key x ?e1) (fkey b1, eb1)"
        using try_scale_run [OF x, of ?e1 b1 eb1] True start b1(1) by auto
      have "(fkey b', eb') \<in> ?K" using t(3) b1(2) True start d by (auto simp: min_def)
      then show thesis using that [of eb' b'] t True start by (auto simp: t(3))
    next
      case False
      have "(fkey b1, eb1) \<le> key x ?e1" if "1 \<le> ?e1 \<and> ?e1 \<le> 126" using b1(4) False that start by simp
      then show thesis using that [of eb1 b1] b1 False by auto
    qed
    have run: "search_step (err x) (clip x) start d st = Some (\<not> ((ld1 \<or> ?e0 \<le> 1) \<and> ?e1 \<ge> 126), (eb2, b2), ld1)"
      unfolding search_step_def st Let_def prod.case snd_conv low bind.bind_lunit high ..
    have le2: "fkey b2 \<le> fkey b1" using b2(3) by (auto simp: less_eq_prod_def)
    have near: "(fkey b2, eb2) \<le> key x e" if "1 \<le> e" "e \<le> 126" "?e0 \<le> int e" "e \<le> ?e1" for e
    proof -
      have "int e = ?e0 \<or> e = ?e1 \<or> ?e0 < int e \<and> e < ?e1" using that by linarith
      then consider "int e = ?e0" | "e = ?e1" | "?e0 < int e" "e < ?e1" by blast
      then show ?thesis
      proof cases
        case 1
        then have "nat ?e0 = e" by simp
        then show ?thesis using b1(4) b2(3) 1 that(1) by (metis of_nat_1 of_nat_le_iff order.trans)
      next
        case 2
        then show ?thesis using b2(4) that(1,2) by simp
      next
        case 3
        then show ?thesis using b(4) [OF that(1,2)] b1(3) b2(3) by (meson order.trans)
      qed
    qed
    have lower: "fkey b2 < fkey (E x e)" if "ld1" "1 \<le> e" "e \<le> 126" "int e \<le> ?e0" for e
    proof -
      have "fkey b1 < fkey (E x e)" using b1(5) that by blast
      then show ?thesis using le2 by simp
    qed
    have le0: "(fkey b2, eb2) \<le> (fkey b0, e0)" using b(3) b1(3) b2(3) by (meson order.trans)
    have next_step: "?P (Suc d) ((eb2, b2), ld1)"
      using b2(1,2) le0 near lower by auto
    have final: "?Q ((eb2, b2), ld1)" if stop: "(ld1 \<or> ?e0 \<le> 1) \<and> ?e1 \<ge> 126"
    proof -
      have "(fkey b2, eb2) \<le> key x e" if "1 \<le> e" "e \<le> 126" for e
      proof (cases "?e0 \<le> int e")
        case True
        then show ?thesis using near that stop by simp
      next
        case False
        then have "ld1" "int e \<le> ?e0" using stop that(1) by auto
        then show ?thesis using lower [OF _ that] by (simp add: key_def less_eq_prod_def)
      qed
      then show ?thesis using b2(2) le0 by auto
    qed
    show ?thesis unfolding run using next_step final by auto
  qed
  have "\<exists>ok st. for_ret (search_step (err x) (clip x) start) [0..<126] ((e0, b0), False) = Some (ok, st)
      \<and> (if ok then ?P 126 st else ?Q st)"
  proof (rule for_ret_upt [where P = ?P and Q = ?Q])
    show "?P 0 ((e0, b0), False)" using b0 by auto
    fix d st assume "d < 126" "?P d st"
    then show "\<exists>ok st'. search_step (err x) (clip x) start d st = Some (ok, st') \<and> (if ok then ?P (Suc d) st' else ?Q st')"
      by (intro step)
  qed
  then obtain ok st where st: "for_ret (search_step (err x) (clip x) start) [0..<126] ((e0, b0), False) = Some (ok, st)"
    "if ok then ?P 126 st else ?Q st" by blast
  obtain eb b ld where eq: "st = ((eb, b), ld)" by (metis surj_pair)
  note run = st(1) [unfolded eq] and res = st(2) [unfolded eq]
  have "?Q ((eb, b), ld)"
  proof (cases ok)
    case True
    then have P: "?P 126 ((eb, b), ld)" using res by simp
    note P' = P [unfolded prod.case]
    note mem = P' [THEN conjunct2, THEN conjunct1]
    note le0 = P' [THEN conjunct2, THEN conjunct2, THEN conjunct1]
    note les = P' [THEN conjunct2, THEN conjunct2, THEN conjunct2, THEN conjunct1]
    have le: "(fkey b, eb) \<le> key x e" if e: "e \<in> {1..min 126 (start + 125)}" for e
    proof -
      have "1 \<le> e \<and> e \<le> 126 \<and> int start - int 126 < int e \<and> e < start + 126" using e start by auto
      then show ?thesis using les by blast
    qed
    have "\<forall>k \<in> ?K. (fkey b, eb) \<le> k" using le0 le by blast
    then show ?thesis unfolding prod.case using mem by blast
  next
    case False
    then show ?thesis using res by simp
  qed
  note Q = this [unfolded prod.case]
  have "Min ?K = (fkey b, eb)"
  proof (rule Min_eqI)
    show "finite ?K" by simp
    show "(fkey b, eb) \<in> ?K" using Q by (rule conjunct1)
    show "(fkey b, eb) \<le> k" if k: "k \<in> ?K" for k using Q k by blast
  qed
  then show ?thesis using run by (simp add: search_scale_def)
qed

end

subsection \<open>The table\<close>

definition scale_val :: "nat \<Rightarrow> rat" where
  "scale_val e = (if e < 8 then of_nat e * 2 / 2 ^ 11 else of_nat (8 + e mod 8) * 2 ^ (e div 8) / 2 ^ 11)"

lemma flit_dyadic:
  assumes "n \<le> 2 ^ 24"
  shows "flit (of_nat n / 2 ^ 11) = FFin False (of_nat n / 2 ^ 11)"
proof -
  have eq: "of_nat n / 2 ^ 11 = (of_nat n * 2 ^ 138 / 2 ^ 149 :: rat)" by simp
  have "of_nat n \<le> (of_nat (2 ^ 24) :: rat)" using assms by (simp only: of_nat_le_iff)
  then have "of_nat n / 2 ^ 11 < fmax" by (simp add: fmax_def)
  then show ?thesis using representableI [OF assms, of 138] by (simp add: flit_def fround_exact eq)
qed

lemma concat_rows:
  "concat (map (\<lambda>k. map (f k) [0..<8]) [0..<n]) = map (\<lambda>i. f (i div 8) (i mod 8)) [0..<8 * n]"
proof (induction n)
  case 0
  show ?case by simp
next
  case (Suc n)
  have "map (f n) [0..<8] = map (\<lambda>i. f (i div 8) (i mod 8)) (map (\<lambda>m. m + 8 * n) [0..<8])"
    unfolding map_map comp_def by (rule map_cong) (simp_all del: upt_rec_numeral)
  also have "map (\<lambda>m. m + 8 * n) [0..<8] = [8 * n..<8 * Suc n]"
    using map_add_upt [of "8 * n" 8] by (simp add: add.commute del: upt_rec_numeral)
  finally have "map (f n) [0..<8] = map (\<lambda>i. f (i div 8) (i mod 8)) [8 * n..<8 * Suc n]" .
  moreover have "[0..<8 * Suc n] = [0..<8 * n] @ [8 * n..<8 * Suc n]"
    using upt_add_eq_append [of 0 "8 * n" 8] by (simp add: add.commute del: upt_rec_numeral)
  ultimately show ?case using Suc by (simp del: upt_rec_numeral)
qed

lemma ue4m3_table_eq: "ue4m3_table = map (\<lambda>e. FFin False (scale_val e)) [0..<127]"
proof -
  let ?ns = "map (\<lambda>m. 2 * m) [0..<8] @ take 119 (concat (map (\<lambda>k. map (\<lambda>m. (8 + m) * 2 ^ k) [0..<8]) [1..<16]))"
  let ?n = "\<lambda>e. if e < 8 then 2 * e else (8 + e mod 8) * 2 ^ (e div 8)"
  have "ue4m3_table = map (\<lambda>n. flit (of_nat n / 2 ^ 11)) ?ns"
  proof -
    have sub: "flit (of_nat m / 2 ^ 10) = flit (of_nat (2 * m) / 2 ^ 11)" for m
      by (rule arg_cong [of _ _ flit]) simp
    have row: "flit ((8 + of_nat m) * 2 ^ k / 2 ^ 11) = flit (of_nat ((8 + m) * 2 ^ k) / 2 ^ 11)" for m k
      by (rule arg_cong [of _ _ flit]) simp
    show ?thesis
      unfolding ue4m3_table_def map_append take_map [symmetric] map_concat map_map comp_def sub row ..
  qed
  also have "?ns = map ?n [0..<127]"
  proof -
    have Suc: "[1..<16] = map Suc [0..<15]" by (simp only: map_Suc_upt) simp
    have "concat (map (\<lambda>k. map (\<lambda>m. (8 + m) * 2 ^ k) [0..<8]) [1..<16])
        = map (\<lambda>i. (8 + i mod 8) * 2 ^ Suc (i div 8)) [0..<120]"
      unfolding Suc map_map comp_def using concat_rows [of "\<lambda>k m. (8 + m) * 2 ^ Suc k" 15] by simp
    then have "?ns = map (\<lambda>m. 2 * m) [0..<8] @ map (\<lambda>i. (8 + i mod 8) * 2 ^ Suc (i div 8)) [0..<119]"
      by (simp only: take_map take_upt) simp
    also have "map (\<lambda>i. (8 + i mod 8) * 2 ^ Suc (i div 8)) [0..<119] = map ?n (map (\<lambda>i. i + 8) [0..<119])"
      unfolding map_map comp_def by (rule map_cong) simp_all
    also have "map (\<lambda>i. i + 8) [0..<119] = [8..<127]" using map_add_upt [of 8 119] by simp
    finally have "?ns = map (\<lambda>m. 2 * m) [0..<8] @ map ?n [8..<127]" .
    also have "\<dots> = map ?n ([0..<8] @ [8..<127])" by simp
    also have "[0..<8] @ [8..<127] = [0..<127]" using upt_add_eq_append [of 0 8 119] by simp
    finally show ?thesis .
  qed
  also have "map (\<lambda>n. flit (of_nat n / 2 ^ 11)) (map ?n [0..<127]) = map (\<lambda>e. FFin False (scale_val e)) [0..<127]"
  proof -
    have "?n e \<le> 2 ^ 24" if "e < 127" for e
    proof (cases "e < 8")
      case False
      have "e div 8 \<le> 15" using that by simp
      then have "(8 + e mod 8) * 2 ^ (e div 8) \<le> 16 * 2 ^ (15 :: nat)" by (intro mult_le_mono power_increasing) simp_all
      then show ?thesis using False by simp
    qed simp
    then have "flit (of_nat (?n e) / 2 ^ 11) = FFin False (scale_val e)" if "e < 127" for e
      using that flit_dyadic [of "?n e"] by (simp add: scale_val_def mult.commute)
    then show ?thesis by (simp del: upt_rec_numeral)
  qed
  finally show ?thesis .
qed

lemma ue4m3_table_nth: "e \<le> 126 \<Longrightarrow> ue4m3_table ! e = FFin False (scale_val e)"
  unfolding ue4m3_table_eq by (subst nth_map) (auto simp del: upt_rec_numeral)

lemma ue4m3_table_length [simp]: "length ue4m3_table = 127"
  unfolding ue4m3_table_eq length_map length_upt by simp

lemma scale_val_less_Suc: "e < 126 \<Longrightarrow> scale_val e < scale_val (Suc e)"
proof -
  assume e: "e < 126"
  have "\<forall>e \<in> set [0..<126]. scale_val e < scale_val (Suc e)" by code_simp
  then show ?thesis using e by (simp del: upt_rec_numeral)
qed

lemma scale_val_mono: "e \<le> e' \<Longrightarrow> e' \<le> 126 \<Longrightarrow> scale_val e \<le> scale_val e'"
proof (induction e' rule: dec_induct)
  case base
  then show ?case by simp
next
  case (step n)
  then show ?case using scale_val_less_Suc [of n] by simp
qed

lemma scale_val_strict: "e < e' \<Longrightarrow> e' \<le> 126 \<Longrightarrow> scale_val e < scale_val e'"
  using scale_val_less_Suc [of e] scale_val_mono [of "Suc e" e'] by linarith

lemma scale_val_double: "1 \<le> e \<Longrightarrow> e < 126 \<Longrightarrow> scale_val (Suc e) \<le> 2 * scale_val e"
proof -
  assume e: "1 \<le> e" "e < 126"
  have "\<forall>e \<in> set [1..<126]. scale_val (Suc e) \<le> 2 * scale_val e" by code_simp
  then show ?thesis using e by (simp del: upt_rec_numeral)
qed

lemma scale_val_bounds: "1 \<le> e \<Longrightarrow> e \<le> 126 \<Longrightarrow> 1 / 2 ^ 10 \<le> scale_val e \<and> scale_val e \<le> 240"
  using scale_val_mono [of 1 e] scale_val_mono [of e 126] by (simp add: scale_val_def)

subsection \<open>The nearest scale is found\<close>

lemma representable_pow: "n \<le> 2 ^ 24 \<Longrightarrow> representable (of_nat n * 2 ^ k / 2 ^ 11)"
  using representableI [of n "k + 138"] by (simp add: power_add)

lemma scale_val_representable: "e \<le> 126 \<Longrightarrow> representable (scale_val e)"
proof -
  have "representable (of_nat (e * 2) * 2 ^ 0 / 2 ^ 11)" if "e < 8" using that by (intro representable_pow) simp
  moreover have "representable (of_nat (8 + e mod 8) * 2 ^ (e div 8) / 2 ^ 11)"
    by (intro representable_pow) (use mod_less_divisor [of 8 e] in simp)
  ultimately show ?thesis by (simp add: scale_val_def)
qed

text \<open>Sterbenz: the difference of two numbers within a factor of two is exact.\<close>

lemma representable_diff:
  assumes "representable p" "representable q" "q \<le> p" "p \<le> 2 * q"
  shows "representable (p - q)"
proof -
  obtain m k where p: "m \<le> (2 :: nat) ^ 24" "p = of_nat m * 2 ^ k / 2 ^ 149"
    using assms(1) by (auto simp: representable_def)
  obtain n l where q: "n \<le> (2 :: nat) ^ 24" "q = of_nat n * 2 ^ l / 2 ^ 149"
    using assms(2) by (auto simp: representable_def)
  show ?thesis
  proof (cases "l \<le> k")
    case True
    have eq: "p = of_nat (m * 2 ^ (k - l)) * 2 ^ l / 2 ^ 149"
      unfolding p(2) using True by (simp add: power_add [symmetric])
    have le: "n \<le> m * 2 ^ (k - l)" "m * 2 ^ (k - l) \<le> 2 * n"
    proof -
      have "of_nat n \<le> (of_nat (m * 2 ^ (k - l)) :: rat)" "of_nat (m * 2 ^ (k - l)) \<le> (of_nat (2 * n) :: rat)"
        using assms(3,4) unfolding eq q(2) by (simp_all add: divide_le_cancel field_simps)
      then show "n \<le> m * 2 ^ (k - l)" "m * 2 ^ (k - l) \<le> 2 * n" by (simp_all only: of_nat_le_iff)
    qed
    then have "p - q = of_nat (m * 2 ^ (k - l) - n) * 2 ^ l / 2 ^ 149"
      unfolding eq q(2) of_nat_diff [OF le(1)] by (simp add: algebra_simps diff_divide_distrib)
    moreover have "m * 2 ^ (k - l) - n \<le> 2 ^ 24" using le q(1) by linarith
    ultimately show ?thesis unfolding representable_def by blast
  next
    case False
    have eq: "q = of_nat (n * 2 ^ (l - k)) * 2 ^ k / 2 ^ 149"
      unfolding q(2) using False by (simp add: power_add [symmetric])
    have "of_nat (n * 2 ^ (l - k)) \<le> (of_nat m :: rat)"
      using assms(3) unfolding eq p(2) by (simp add: divide_le_cancel field_simps)
    then have le: "n * 2 ^ (l - k) \<le> m" by (simp only: of_nat_le_iff)
    then have "p - q = of_nat (m - n * 2 ^ (l - k)) * 2 ^ k / 2 ^ 149"
      unfolding eq p(2) of_nat_diff [OF le] by (simp add: algebra_simps diff_divide_distrib)
    moreover have "m - n * 2 ^ (l - k) \<le> 2 ^ 24" using p(1) by linarith
    ultimately show ?thesis unfolding representable_def by blast
  qed
qed

lemma fless_table:
  assumes "is_num t" "e \<le> 126"
  shows "fless (ue4m3_table ! e) t \<longleftrightarrow> scale_val e < fkey t"
proof -
  have "0 \<le> scale_val e" using scale_val_mono [of 0 e] assms by (simp add: scale_val_def)
  moreover have "scale_val e < fmax"
    using scale_val_mono [of e 126] assms by (simp add: scale_val_def fmax_def)
  ultimately have "is_num (ue4m3_table ! e)" using assms by (simp add: ue4m3_table_nth scale_val_representable)
  then show ?thesis using assms by (simp add: fless_key ue4m3_table_nth)
qed

lemma lower_scale_bounds:
  assumes t: "is_num t" and hi: "1 \<le> lo" "lo \<le> hi" "hi \<le> 126"
    and below: "\<forall>e. 1 \<le> e \<and> e < lo \<longrightarrow> scale_val e < fkey t" and above: "hi < 126 \<longrightarrow> fkey t \<le> scale_val hi"
  shows "lo \<le> lower_scale ue4m3_table t lo hi \<and> lower_scale ue4m3_table t lo hi \<le> hi
    \<and> (\<forall>e. 1 \<le> e \<and> e < lower_scale ue4m3_table t lo hi \<longrightarrow> scale_val e < fkey t)
    \<and> (lower_scale ue4m3_table t lo hi < 126 \<longrightarrow> fkey t \<le> scale_val (lower_scale ue4m3_table t lo hi))"
  using hi below above
proof (induction "hi - lo" arbitrary: lo hi rule: less_induct)
  case less
  let ?mid = "lo + (hi - lo) div 2"
  show ?case
  proof (cases "lo < hi")
    case False
    then show ?thesis using less.prems by (simp add: lower_scale.simps)
  next
    case lt: True
    then have mid: "lo \<le> ?mid" "?mid < hi" "?mid \<le> 126" using less.prems by linarith+
    show ?thesis
    proof (cases "fless (ue4m3_table ! ?mid) t")
      case True
      then have m: "scale_val ?mid < fkey t" using fless_table [OF t mid(3)] by simp
      have *: "\<forall>e. 1 \<le> e \<and> e < ?mid + 1 \<longrightarrow> scale_val e < fkey t"
      proof (intro allI impI)
        fix e assume "1 \<le> e \<and> e < ?mid + 1"
        then have "scale_val e \<le> scale_val ?mid" using mid by (intro scale_val_mono) auto
        then show "scale_val e < fkey t" using m by simp
      qed
      have eq: "lower_scale ue4m3_table t lo hi = lower_scale ue4m3_table t (?mid + 1) hi"
        using lt True by (simp add: lower_scale.simps [of _ _ lo hi] Let_def)
      have I: "?mid + 1 \<le> lower_scale ue4m3_table t (?mid + 1) hi \<and> lower_scale ue4m3_table t (?mid + 1) hi \<le> hi
          \<and> (\<forall>e. 1 \<le> e \<and> e < lower_scale ue4m3_table t (?mid + 1) hi \<longrightarrow> scale_val e < fkey t)
          \<and> (lower_scale ue4m3_table t (?mid + 1) hi < 126 \<longrightarrow> fkey t \<le> scale_val (lower_scale ue4m3_table t (?mid + 1) hi))"
        by (rule less.hyps [of hi "?mid + 1", OF _ _ _ less.prems(3) * less.prems(5)]) (use mid less.prems(1) in linarith)+
      then have "lo \<le> lower_scale ue4m3_table t (?mid + 1) hi" using mid(1) by linarith
      then show ?thesis unfolding eq using I by blast
    next
      case False
      then have m: "fkey t \<le> scale_val ?mid" using fless_table [OF t mid(3)] by simp
      have eq: "lower_scale ue4m3_table t lo hi = lower_scale ue4m3_table t lo ?mid"
        using lt False by (simp add: lower_scale.simps [of _ _ lo hi] Let_def)
      have I: "lo \<le> lower_scale ue4m3_table t lo ?mid \<and> lower_scale ue4m3_table t lo ?mid \<le> ?mid
          \<and> (\<forall>e. 1 \<le> e \<and> e < lower_scale ue4m3_table t lo ?mid \<longrightarrow> scale_val e < fkey t)
          \<and> (lower_scale ue4m3_table t lo ?mid < 126 \<longrightarrow> fkey t \<le> scale_val (lower_scale ue4m3_table t lo ?mid))"
        by (rule less.hyps [of ?mid lo, OF _ less.prems(1) mid(1) mid(3) less.prems(4)]) (use mid m in simp_all)
      then have "lower_scale ue4m3_table t lo ?mid \<le> hi" using mid(2) by linarith
      then show ?thesis unfolding eq using I by blast
    qed
  qed
qed

lemma table_finite: "e \<le> 126 \<Longrightarrow> is_finite (ue4m3_table ! e) \<and> fval (ue4m3_table ! e) = scale_val e"
  by (simp add: ue4m3_table_nth)

lemma rkey_diff_exact:
  assumes "representable p" "representable q" "0 \<le> q" "q \<le> p" "p \<le> 2 * q" "p < fmax"
  shows "rkey (p - q) = p - q"
proof (rule rkey_exact)
  show "representable \<bar>p - q\<bar>" using representable_diff [OF assms(1,2,4,5)] assms(4) by simp
  show "\<bar>p - q\<bar> < fmax" using assms(3,4,6) by simp
qed

text \<open>
  The comparison of the two rounded differences decides between the neighbours: both differences
  are exact, unless the target lies above the table.
\<close>

lemma neighbour_test:
  assumes t: "is_f32 t" "is_finite t" and lo: "1 < lo" "lo \<le> 126" "scale_val (lo - 1) < fval t"
    and hi: "lo < 126 \<longrightarrow> fval t \<le> scale_val lo"
  shows "fle (fsub t (ue4m3_table ! (lo - 1))) (fsub (ue4m3_table ! lo) t) \<longleftrightarrow> fval t - scale_val (lo - 1) \<le> scale_val lo - fval t"
proof -
  let ?s = "scale_val (lo - 1)" and ?u = "scale_val lo"
  have tab: "is_finite (ue4m3_table ! (lo - 1))" "fval (ue4m3_table ! (lo - 1)) = ?s"
    "is_finite (ue4m3_table ! lo)" "fval (ue4m3_table ! lo) = ?u"
    using lo by (simp_all add: table_finite)
  have s: "0 < ?s" "?u \<le> 2 * ?s" "?s < ?u" "?u \<le> 240"
  proof -
    have b: "1 \<le> lo - 1" "lo - 1 \<le> 126" "lo - 1 < 126" "1 \<le> lo" "Suc (lo - 1) = lo" "lo - 1 < lo" using lo(1,2) by simp_all
    show "0 < ?s" using scale_val_bounds [OF b(1,2)] by (rule less_le_trans [rotated, OF conjunct1]) simp
    show "?u \<le> 2 * ?s" using scale_val_double [OF b(1,3)] by (simp only: b(5))
    show "?s < ?u" by (rule scale_val_strict [OF b(6) lo(2)])
    show "?u \<le> 240" using scale_val_bounds [OF b(4) lo(2)] by (rule conjunct2)
  qed
  have rep: "representable ?s" "representable ?u" using lo by (simp_all add: scale_val_representable)
  have trep: "representable (fval t)" "fval t < fmax" using t lo(3) s(1) by (cases t; simp split: if_splits)+
  have cmp: "fle (fsub t (ue4m3_table ! (lo - 1))) (fsub (ue4m3_table ! lo) t) \<longleftrightarrow> rkey (fval t - ?s) \<le> rkey (?u - fval t)"
    using t(2) tab by (simp add: fle_key fsub_finite)
  show ?thesis
  proof (cases "fval t \<le> ?u")
    case True
    have fu: "?u < fmax" using s(4) by (simp add: fmax_def)
    have "rkey (fval t - ?s) = fval t - ?s"
      by (rule rkey_diff_exact) (use rep trep lo(3) s True in auto)
    moreover have "rkey (?u - fval t) = ?u - fval t"
      by (rule rkey_diff_exact) (use rep trep lo(3) s True fu in auto)
    ultimately show ?thesis unfolding cmp by (simp only:)
  next
    case False
    have "rkey (?u - fval t) \<le> rkey 0" by (rule rkey_mono) (use False in simp)
    moreover have "rkey (?u - ?s) \<le> rkey (fval t - ?s)" by (rule rkey_mono) (use False in simp)
    moreover have "rkey (?u - ?s) = ?u - ?s"
      by (rule rkey_diff_exact) (use rep s in \<open>auto simp: fmax_def\<close>)
    ultimately have "\<not> rkey (fval t - ?s) \<le> rkey (?u - fval t)" using s(3) by simp
    moreover have "\<not> fval t - ?s \<le> ?u - fval t" using s(3) False by linarith
    ultimately show ?thesis unfolding cmp by blast
  qed
qed

definition nearest_scale :: "rat \<Rightarrow> nat \<Rightarrow> bool" where
  "nearest_scale q r \<longleftrightarrow> 1 \<le> r \<and> r \<le> 126
     \<and> (\<forall>e \<in> {1..126}. \<bar>q - scale_val r\<bar> < \<bar>q - scale_val e\<bar> \<or> (\<bar>q - scale_val r\<bar> = \<bar>q - scale_val e\<bar> \<and> r \<le> e))"

lemma nearer_arith:
  fixes t s u a r :: rat
  assumes "s < t" "s < u" "r = (if t - s \<le> u - t then s else u)"
  shows "a < s \<Longrightarrow> \<bar>t - r\<bar> < \<bar>t - a\<bar>" and "t \<le> u \<Longrightarrow> u < a \<Longrightarrow> \<bar>t - r\<bar> < \<bar>t - a\<bar>"
    and "r = u \<Longrightarrow> \<bar>t - r\<bar> < \<bar>t - s\<bar>" and "r = s \<Longrightarrow> \<bar>t - r\<bar> \<le> \<bar>t - u\<bar>"
  using assms by (auto simp: abs_if split: if_splits)

lemma nearer_scale_nearest:
  assumes t: "is_f32 t" "is_finite t" "0 < fval t"
  shows "nearest_scale (fval t) (nearer_scale ue4m3_table t)"
proof -
  let ?lo = "lower_scale ue4m3_table t 1 126"
  have num: "is_num t" using t by (simp add: is_numI)
  have lo: "1 \<le> ?lo" "?lo \<le> 126" "\<forall>e. 1 \<le> e \<and> e < ?lo \<longrightarrow> scale_val e < fval t" "?lo < 126 \<longrightarrow> fval t \<le> scale_val ?lo"
    using lower_scale_bounds [OF num, of 1 126] t(2) by (simp_all add: fkey_finite)
  have up: "scale_val ?lo \<le> scale_val e" if "?lo \<le> e" "e \<le> 126" for e using that by (rule scale_val_mono)
  show ?thesis
  proof (cases "?lo = 1")
    case True
    have "\<bar>fval t - scale_val 1\<bar> < \<bar>fval t - scale_val e\<bar> \<or> \<bar>fval t - scale_val 1\<bar> = \<bar>fval t - scale_val e\<bar> \<and> 1 \<le> e"
      if e: "e \<in> {1..126}" for e
    proof (cases "e = 1")
      case False
      then have "scale_val 1 < scale_val e" using e scale_val_strict [of 1 e] by simp
      moreover have "fval t \<le> scale_val 1" using lo(4) True by simp
      ultimately show ?thesis by (simp add: abs_if)
    qed simp
    then show ?thesis using True by (simp add: nearest_scale_def nearer_scale_def)
  next
    case False
    let ?s = "scale_val (?lo - 1)" and ?u = "scale_val ?lo"
    let ?r = "if fval t - ?s \<le> ?u - fval t then ?lo - 1 else ?lo"
    have gt: "1 < ?lo" using False lo(1) by linarith
    have r: "nearer_scale ue4m3_table t = ?r"
      using neighbour_test [OF t(1,2) gt lo(2)] lo(3,4) gt False by (simp add: nearer_scale_def Let_def)
    have st: "?s < fval t" using lo(3) gt by simp
    have su: "?s < ?u" using scale_val_strict [of "?lo - 1" ?lo] gt lo(2) by simp
    have "\<bar>fval t - scale_val ?r\<bar> < \<bar>fval t - scale_val e\<bar> \<or> \<bar>fval t - scale_val ?r\<bar> = \<bar>fval t - scale_val e\<bar> \<and> ?r \<le> e"
      if e: "e \<in> {1..126}" for e
    proof -
      have rv: "scale_val ?r = (if fval t - ?s \<le> ?u - fval t then ?s else ?u)" by simp
      note near = nearer_arith [OF st su rv]
      consider "e < ?lo - 1" | "e = ?lo - 1" | "e = ?lo" | "?lo < e" by linarith
      then show ?thesis
      proof cases
        case 1
        then have "scale_val e < ?s" using lo(2) by (intro scale_val_strict) auto
        from near(1) [OF this] show ?thesis by blast
      next
        case 2
        show ?thesis
        proof (cases "fval t - ?s \<le> ?u - fval t")
          case True
          then have "?r = e" using 2 by simp
          then show ?thesis by simp
        next
          case False
          then have "scale_val ?r = ?u" by simp
          from near(3) [OF this] show ?thesis unfolding 2 by (rule disjI1)
        qed
      next
        case 3
        show ?thesis
        proof (cases "fval t - ?s \<le> ?u - fval t")
          case True
          then have "scale_val ?r = ?s" "?r \<le> e" using 3 by simp_all
          then show ?thesis using near(4) unfolding 3 by linarith
        next
          case False
          then have "?r = e" using 3 by simp
          then show ?thesis by simp
        qed
      next
        case 4
        then have "fval t \<le> ?u" "?u < scale_val e" using e lo(4) by (auto intro: scale_val_strict)
        from near(2) [OF this] show ?thesis by blast
      qed
    qed
    then show ?thesis unfolding nearest_scale_def r using gt lo(2) by auto
  qed
qed

subsection \<open>The error of a block\<close>

text \<open>
  The error loops add \<open>d*d\<close>, or \<open>w*d*d\<close> with a weight, for the elements of a block and return as
  soon as the sum exceeds the best error. \<open>dec\<close> gives the value the code of an element stands for,
  in units of the scale.
\<close>

fun err_term :: "float32 option \<Rightarrow> float32 \<Rightarrow> float32" where
  "err_term None d = fmul d d"
| "err_term (Some w) d = fmul (fmul w d) d"

fun mse_loop :: "('a \<Rightarrow> float32 option) \<Rightarrow> float32 \<Rightarrow> float32 \<Rightarrow> 'a list \<Rightarrow> float32 option" where
  "mse_loop term best_err err [] = Some err"
| "mse_loop term best_err err (x # xs) = do {
     t \<leftarrow> term x;
     let err = fadd err t in if fless best_err err then Some err else mse_loop term best_err err xs }"

definition block_term :: "(float32 \<Rightarrow> float32 option) \<Rightarrow> float32 \<Rightarrow> float32 \<times> float32 option \<Rightarrow> float32 option" where
  "block_term dec scale = (\<lambda>(x, w). do {
     v \<leftarrow> dec x;
     let y = fmul v scale; d = fsub x y in Some (err_term w d) })"

definition block_mse :: "(float32 \<Rightarrow> float32 option) \<Rightarrow> float32 \<Rightarrow> (float32 \<times> float32 option) list \<Rightarrow> float32
    \<Rightarrow> float32 option" where
  "block_mse dec scale xs best_err = mse_loop (block_term dec scale) best_err f_zero xs"

text \<open>The whole sum.\<close>

definition block_err :: "(float32 \<Rightarrow> float32 option) \<Rightarrow> float32 \<Rightarrow> (float32 \<times> float32 option) list \<Rightarrow> float32" where
  "block_err dec scale xs = foldl (\<lambda>err x. fadd err (the (block_term dec scale x))) f_zero xs"

text \<open>The test that ends the search below: the largest element alone costs too much.\<close>

definition clip_exceeds :: "nat \<Rightarrow> float32 \<Rightarrow> float32 option \<Rightarrow> float32 \<Rightarrow> float32 \<Rightarrow> bool" where
  "clip_exceeds M max_abs w scale best_err =
     (let clip_delta = fsub max_abs (fmul (f_of_int (int M)) scale) in
       fless f_zero clip_delta \<and> fless best_err (err_term w clip_delta))"

lemma f_zero_nonneg [simp]: "nonneg f_zero" "fkey f_zero = 0" "is_num f_zero"
  by (simp_all add: f_zero_def nonneg_def)

lemma mse_sum:
  assumes "\<forall>x \<in> set xs. \<exists>t. term x = Some t \<and> nonneg t" "nonneg err"
  shows "nonneg (foldl (\<lambda>err x. fadd err (the (term x))) err xs)"
    and "fkey err \<le> fkey (foldl (\<lambda>err x. fadd err (the (term x))) err xs)"
  using assms
proof (induction xs arbitrary: err)
  case Nil
  { case 1 then show ?case by simp }
  { case 2 then show ?case by simp }
next
  case (Cons x xs)
  { case 1
    then obtain t where "term x = Some t" "nonneg t" by auto
    then show ?case using 1 Cons.IH(1) [of "fadd err t"] by (simp add: nonneg_fadd) }
  { case 2
    then obtain t where t: "term x = Some t" "nonneg t" by auto
    then have "fkey err \<le> fkey (fadd err t)" using 2 by (simp add: nonneg_fadd)
    also have "\<dots> \<le> fkey (foldl (\<lambda>err x. fadd err (the (term x))) (fadd err t) xs)"
      using 2 t Cons.IH(2) [of "fadd err t"] by (simp add: nonneg_fadd)
    finally show ?case using t by simp }
qed

text \<open>The loop agrees with the whole sum as far as comparing with the best error can tell.\<close>

lemma mse_loop_run:
  assumes "\<forall>x \<in> set xs. \<exists>t. term x = Some t \<and> nonneg t" "nonneg err" "nonneg b" "fkey err \<le> fkey b \<or> xs = []"
  shows "\<exists>r. mse_loop term b err xs = Some r \<and> nonneg r
    \<and> (fkey (foldl (\<lambda>err x. fadd err (the (term x))) err xs) \<le> fkey b
        \<longrightarrow> fkey r = fkey (foldl (\<lambda>err x. fadd err (the (term x))) err xs))
    \<and> (fkey b < fkey (foldl (\<lambda>err x. fadd err (the (term x))) err xs) \<longrightarrow> fkey b < fkey r)"
  using assms
proof (induction xs arbitrary: err)
  case Nil
  then show ?case by simp
next
  case (Cons x xs)
  then obtain t where t: "term x = Some t" "nonneg t" by auto
  let ?e = "fadd err t"
  have e: "nonneg ?e" using t Cons.prems by (simp add: nonneg_fadd)
  have cmp: "fless b ?e \<longleftrightarrow> fkey b < fkey ?e" using e Cons.prems(3) by (simp add: fless_key nonneg_def)
  show ?case
  proof (cases "fkey b < fkey ?e")
    case True
    have "fkey ?e \<le> fkey (foldl (\<lambda>err x. fadd err (the (term x))) ?e xs)"
      using mse_sum(2) [of xs "term" ?e] Cons.prems(1) e by simp
    then show ?thesis using True t e by (simp add: cmp Let_def)
  next
    case False
    then show ?thesis using Cons.IH [of ?e] Cons.prems e t by (simp add: cmp Let_def)
  qed
qed

lemma sum_ge_term:
  assumes "\<forall>x \<in> set xs. \<exists>t. term x = Some t \<and> nonneg t" "nonneg err" "x \<in> set xs"
  shows "fkey (the (term x)) \<le> fkey (foldl (\<lambda>err x. fadd err (the (term x))) err xs)"
  using assms
proof (induction xs arbitrary: err)
  case Nil
  then show ?case by simp
next
  case (Cons y ys)
  obtain t where t: "term y = Some t" "nonneg t" using Cons.prems by auto
  have e: "nonneg (fadd err t)" "fkey t \<le> fkey (fadd err t)" using t Cons.prems by (simp_all add: nonneg_fadd)
  show ?case
  proof (cases "x = y")
    case True
    then show ?thesis using mse_sum(2) [of ys "term" "fadd err t"] e t Cons.prems(1) by simp
  next
    case False
    then show ?thesis using Cons.IH [of "fadd err t"] Cons.prems e t by simp
  qed
qed

subsection \<open>Blocks with a bounded code\<close>

text \<open>
  What the search of a scale reads: the elements with their weights, the greatest magnitude and
  the greatest weight among the elements that have it. \<open>block_ok\<close> asks for finite elements below
  a limit, finite weights, and that the two maxima are those of an element.
\<close>

record scale_block =
  sb_elems :: "(float32 \<times> float32 option) list"
  sb_max :: float32
  sb_weight :: "float32 option"

fun weight_ok :: "float32 option \<Rightarrow> bool" where
  "weight_ok None = True"
| "weight_ok (Some w) \<longleftrightarrow> is_finite w \<and> is_f32 w \<and> 0 \<le> fval w"

definition elem_ok :: "rat \<Rightarrow> float32 \<times> float32 option \<Rightarrow> bool" where
  "elem_ok bd = (\<lambda>(x, w). is_finite x \<and> is_f32 x \<and> \<bar>fval x\<bar> < bd \<and> weight_ok w \<and> (w \<noteq> None \<longrightarrow> \<bar>fval x\<bar> < 2 ^ 127))"

definition block_ok :: "rat \<Rightarrow> scale_block \<Rightarrow> bool" where
  "block_ok bd d \<longleftrightarrow> (\<forall>x \<in> set (sb_elems d). elem_ok bd x)
     \<and> (\<exists>x. (x, sb_weight d) \<in> set (sb_elems d) \<and> sb_max d = fabs x)"

lemma err_term_props:
  assumes d: "is_num d" "w \<noteq> None \<longrightarrow> is_finite d" and w: "weight_ok w"
  shows "nonneg (err_term w d)"
proof (cases w)
  case None
  then show ?thesis using square_nonneg [OF d(1)] by simp
next
  case (Some a)
  let ?p = "fmul a d"
  have a: "is_finite a" "is_f32 a" "0 \<le> fval a" and fd: "is_finite d" "is_f32 d"
    using w d Some by (simp_all add: is_num_def)
  have p: "is_num ?p" "fkey ?p = rkey (fval a * fval d)" using fmul_finite [of a d] a fd by simp_all
  show ?thesis
  proof (cases "is_finite ?p")
    case True
    have "0 \<le> fval ?p * fval d"
    proof (cases "0 \<le> fval d")
      case pos: True
      have "rkey 0 \<le> rkey (fval a * fval d)" by (rule rkey_mono) (use a pos in simp)
      then show ?thesis using p True pos by (simp add: fkey_finite)
    next
      case neg: False
      have "rkey (fval a * fval d) \<le> rkey 0" by (rule rkey_mono) (use a neg in \<open>simp add: mult_nonneg_nonpos\<close>)
      then show ?thesis using p True neg by (simp add: fkey_finite mult_nonpos_nonpos)
    qed
    then have "rkey 0 \<le> rkey (fval ?p * fval d)" by (rule rkey_mono)
    then show ?thesis using fmul_finite [of ?p d] p True fd Some by (simp add: nonneg_def is_num_def)
  next
    case False
    obtain s q where ds: "d = FFin s q" using fd by (cases d) auto
    obtain s' q' where as: "a = FFin s' q'" using a by (cases a) auto
    have a0: "q' = 0 \<or> \<not> s'" using a as by (auto split: if_splits)
    have inf: "?p = FInf (s' \<noteq> s)" using False unfolding ds as by (auto simp: fl_def Let_def split: if_splits)
    have nz: "q' * q \<noteq> 0" using False unfolding ds as by (auto simp: fl_def Let_def)
    then have "\<not> s'" "q \<noteq> 0" using a0 by auto
    then show ?thesis using Some inf ds by (simp add: nonneg_def)
  qed
qed

lemma rkey_minus [simp]: "rkey (- q) = - rkey q"
  by (auto simp: rkey_def)

lemma rkey_abs: "\<bar>rkey q\<bar> = rkey \<bar>q\<bar>"
proof (cases "q < 0")
  case True
  then have "rkey q \<le> rkey 0" by (intro rkey_mono) simp
  then show ?thesis using True by (simp add: abs_if)
next
  case False
  then have "rkey 0 \<le> rkey q" by (intro rkey_mono) simp
  then show ?thesis using False by simp
qed

lemma err_term_mono:
  assumes c: "is_num c" "w \<noteq> None \<longrightarrow> is_finite c" and d: "is_num d" "w \<noteq> None \<longrightarrow> is_finite d"
    and w: "weight_ok w" and le: "\<bar>fkey c\<bar> \<le> \<bar>fkey d\<bar>"
  shows "fkey (err_term w c) \<le> fkey (err_term w d)"
proof (cases w)
  case None
  then show ?thesis using square_mono c d le by simp
next
  case (Some a)
  let ?p = "fmul a c" and ?r = "fmul a d"
  have a: "is_finite a" "is_f32 a" "0 \<le> fval a" using w Some by simp_all
  have fc: "is_finite c" "is_f32 c" and fd: "is_finite d" "is_f32 d" using c d Some by (simp_all add: is_num_def)
  have p: "is_num ?p" "fkey ?p = rkey (fval a * fval c)" and r: "is_num ?r" "fkey ?r = rkey (fval a * fval d)"
    using fmul_finite [of a] a fc fd by simp_all
  have "\<bar>fval a * fval c\<bar> \<le> \<bar>fval a * fval d\<bar>"
    using le fc fd a by (simp add: abs_mult fkey_finite mult_left_mono)
  then have pr: "\<bar>fkey ?p\<bar> \<le> \<bar>fkey ?r\<bar>" unfolding p r rkey_abs by (rule rkey_mono)
  show ?thesis
  proof (cases "is_finite ?r")
    case True
    then have rlt: "\<bar>fkey ?r\<bar> < fmax" using r(1) by (cases ?r) (auto split: if_splits)
    have fp: "is_finite ?p" using p(1) pr rlt by (cases ?p) (auto split: if_splits)
    have "\<bar>fval ?p * fval c\<bar> \<le> \<bar>fval ?r * fval d\<bar>"
      unfolding abs_mult by (rule mult_mono) (use pr le fp True fc fd in \<open>simp_all add: fkey_finite\<close>)
    then have "\<bar>rkey (fval ?p * fval c)\<bar> \<le> \<bar>rkey (fval ?r * fval d)\<bar>" unfolding rkey_abs by (rule rkey_mono)
    moreover have "fkey (err_term w c) = rkey (fval ?p * fval c)" "fkey (err_term w d) = rkey (fval ?r * fval d)"
      using fmul_finite [of ?p c] fmul_finite [of ?r d] p r fp True fc fd Some by (simp_all add: is_num_def)
    moreover have "0 \<le> fkey (err_term w c)" "0 \<le> fkey (err_term w d)"
      using err_term_props c d w by (simp_all add: nonneg_def)
    ultimately show ?thesis by simp
  next
    case False
    have nn: "nonneg (err_term w d)" "nonneg (err_term w c)" using err_term_props c d w by blast+
    have "err_term w d = FInf False"
    proof -
      obtain s q where ds: "d = FFin s q" using fd by (cases d) auto
      obtain t where inf: "?r = FInf t" using False r(1) by (cases ?r) auto
      show ?thesis using nn(1) unfolding Some err_term.simps inf unfolding ds by (auto simp: nonneg_def split: if_splits)
    qed
    then show ?thesis using fkey_le_fmax nn(2) by (simp add: nonneg_def)
  qed
qed

lemma scale_pos: "1 \<le> e \<Longrightarrow> e \<le> 126 \<Longrightarrow> 0 < scale_val e"
  using scale_val_bounds [of e] by (elim meta_impE conjE) (auto intro: less_le_trans [rotated])

lemma scale_le: "1 \<le> e \<Longrightarrow> e \<le> 126 \<Longrightarrow> scale_val e \<le> 240"
  using scale_val_bounds [of e] by blast

lemma fless_nan [simp]: "\<not> fless x FNan"
  by (cases x) simp_all

lemma finite_key: "is_num x \<Longrightarrow> \<bar>fkey x\<bar> < fmax \<Longrightarrow> is_finite x"
  by (cases x) (auto split: if_splits)

lemma representable_dyadic: "n \<le> 2 ^ 24 \<Longrightarrow> representable (of_nat n * 2 ^ k)"
  using representableI [of n "k + 149"] by (simp add: power_add)

lemma rkey_bound:
  assumes "\<bar>q\<bar> \<le> of_nat n * 2 ^ k" "n \<le> 2 ^ 24" "of_nat n * 2 ^ k < fmax"
  shows "\<bar>rkey q\<bar> \<le> of_nat n * 2 ^ k"
proof -
  have "\<bar>rkey q\<bar> \<le> rkey (of_nat n * 2 ^ k)" unfolding rkey_abs by (rule rkey_mono [OF assms(1)])
  also have "\<dots> = of_nat n * 2 ^ k" by (rule rkey_exact) (use assms in \<open>simp_all add: representable_dyadic\<close>)
  finally show ?thesis .
qed

lemma product_finite:
  assumes v: "is_finite v" "is_f32 v" "\<bar>fval v\<bar> \<le> of_nat M" "M \<le> 2 ^ 10" and e: "1 \<le> e" "e \<le> 126"
  shows "is_finite (fmul v (ue4m3_table ! e))" "is_num (fmul v (ue4m3_table ! e))"
    "fval (fmul v (ue4m3_table ! e)) = rkey (fval v * scale_val e)" "\<bar>rkey (fval v * scale_val e)\<bar> \<le> 2 ^ 18"
proof -
  note s = scale_pos [OF e] scale_le [OF e]
  have tab: "is_finite (ue4m3_table ! e)" "is_f32 (ue4m3_table ! e)" "fval (ue4m3_table ! e) = scale_val e"
    using e s scale_val_representable [of e] by (simp_all add: ue4m3_table_nth fmax_def)
  have "of_nat M \<le> (of_nat (2 ^ 10) :: rat)" using v(4) by (simp only: of_nat_le_iff)
  then have "\<bar>fval v\<bar> * scale_val e \<le> 1024 * 240" using v(3) s by (intro mult_mono) simp_all
  then have "\<bar>fval v * scale_val e\<bar> \<le> of_nat 1 * 2 ^ 18" using s by (simp add: abs_mult)
  then show le: "\<bar>rkey (fval v * scale_val e)\<bar> \<le> 2 ^ 18" using rkey_bound [of _ 1 18] by (simp add: fmax_def)
  show num: "is_num (fmul v (ue4m3_table ! e))" using fmul_finite [OF v(1) tab(1) v(2) tab(2)] by simp
  have "is_num (fmul v (ue4m3_table ! e))" "\<bar>fkey (fmul v (ue4m3_table ! e))\<bar> < fmax"
    using fmul_finite [OF v(1) tab(1) v(2) tab(2)] tab(3) le by (simp_all add: fmax_def)
  then show fin: "is_finite (fmul v (ue4m3_table ! e))" by (rule finite_key)
  show "fval (fmul v (ue4m3_table ! e)) = rkey (fval v * scale_val e)"
    using fmul_finite [OF v(1) tab(1) v(2) tab(2)] tab(3) fin by (simp add: fkey_finite)
qed

text \<open>
  The codes of a format have at most the magnitude \<open>M\<close>, which the largest element of the block
  reaches or exceeds when it is clipped.
\<close>

locale block_codec =
  fixes dec :: "nat \<Rightarrow> float32 \<Rightarrow> float32 option" and M :: nat and bd :: rat
    and err :: "scale_block \<Rightarrow> nat \<Rightarrow> float32 \<Rightarrow> float32 option" and clip :: "scale_block \<Rightarrow> nat \<Rightarrow> float32 \<Rightarrow> bool"
  assumes M_le: "M \<le> 2 ^ 10"
    and dec_ok: "is_finite x \<Longrightarrow> is_f32 x \<Longrightarrow> \<bar>fval x\<bar> < bd \<Longrightarrow> 1 \<le> e \<Longrightarrow> e \<le> 126
      \<Longrightarrow> \<exists>v. dec e x = Some v \<and> is_finite v \<and> is_f32 v \<and> \<bar>fval v\<bar> \<le> of_nat M"
    and err_eq: "block_ok bd d \<Longrightarrow> 1 \<le> e \<Longrightarrow> e \<le> 126
      \<Longrightarrow> err d e b = block_mse (dec e) (ue4m3_table ! e) (sb_elems d) b"
    and clip_imp: "block_ok bd d \<Longrightarrow> clip d e b \<Longrightarrow> nonneg b \<Longrightarrow> 1 \<le> e \<Longrightarrow> e \<le> 126
      \<Longrightarrow> clip_exceeds M (sb_max d) (sb_weight d) (ue4m3_table ! e) b"
begin

definition total :: "scale_block \<Rightarrow> nat \<Rightarrow> float32" where
  "total d e = block_err (dec e) (ue4m3_table ! e) (sb_elems d)"

lemma elem_term:
  assumes x: "elem_ok bd (x, w)" and e: "1 \<le> e" "e \<le> 126"
  obtains v d where "dec e x = Some v" "\<bar>fval v\<bar> \<le> of_nat M" "is_num d" "w \<noteq> None \<longrightarrow> is_finite d"
    "block_term (dec e) (ue4m3_table ! e) (x, w) = Some (err_term w d)"
    "fkey d = rkey (fval x - rkey (fval v * scale_val e))"
proof -
  have x': "is_finite x" "is_f32 x" "\<bar>fval x\<bar> < bd" "weight_ok w" "w \<noteq> None \<longrightarrow> \<bar>fval x\<bar> < 2 ^ 127"
    using x by (simp_all add: elem_ok_def)
  obtain v where v: "dec e x = Some v" "is_finite v" "is_f32 v" "\<bar>fval v\<bar> \<le> of_nat M"
    using dec_ok [OF x'(1-3) e] by blast
  let ?y = "fmul v (ue4m3_table ! e)"
  note y = product_finite [OF v(2,3,4) M_le e]
  have d: "is_num (fsub x ?y)" "fkey (fsub x ?y) = rkey (fval x - rkey (fval v * scale_val e))"
    using fsub_finite [OF x'(1) y(1)] y(3) by simp_all
  have fin: "is_finite (fsub x ?y)" if "w \<noteq> None"
  proof (rule finite_key [OF d(1)])
    have "\<bar>fval x - rkey (fval v * scale_val e)\<bar> \<le> 2 ^ 127 + 2 ^ 18" using x'(5) that y(4) by linarith
    then have "\<bar>fval x - rkey (fval v * scale_val e)\<bar> \<le> of_nat 3 * 2 ^ 126" by simp
    from rkey_bound [OF this] show "\<bar>fkey (fsub x ?y)\<bar> < fmax" unfolding d(2) by (simp add: fmax_def)
  qed
  show thesis
    by (rule that [OF v(1,4) d(1) _ _ d(2)]) (use fin v(1) in \<open>simp_all add: block_term_def Let_def\<close>)
qed

lemma terms_nonneg:
  assumes "block_ok bd d" "1 \<le> e" "e \<le> 126"
  shows "\<forall>x \<in> set (sb_elems d). \<exists>t. block_term (dec e) (ue4m3_table ! e) x = Some t \<and> nonneg t"
proof
  fix a assume a: "a \<in> set (sb_elems d)"
  obtain x w where aw: "a = (x, w)" by (cases a)
  have ok: "elem_ok bd (x, w)" using assms(1) a aw by (simp add: block_ok_def)
  obtain v d' where "is_num d'" "w \<noteq> None \<longrightarrow> is_finite d'" "block_term (dec e) (ue4m3_table ! e) (x, w) = Some (err_term w d')"
    using elem_term [OF ok assms(2,3)] by metis
  moreover have "weight_ok w" using ok by (simp add: elem_ok_def)
  ultimately show "\<exists>t. block_term (dec e) (ue4m3_table ! e) a = Some t \<and> nonneg t"
    using err_term_props aw by simp
qed

text \<open>Every scale from the tested one down costs more than the best error.\<close>

lemma clip_sound:
  assumes d: "block_ok bd d" and c: "clip_exceeds M (sb_max d) (sb_weight d) (ue4m3_table ! e) b" and b: "nonneg b"
    and e: "1 \<le> e'" "e' \<le> e" "e \<le> 126"
  shows "fkey b < fkey (total d e')"
proof -
  obtain x where x: "(x, sb_weight d) \<in> set (sb_elems d)" "sb_max d = fabs x" using d by (auto simp: block_ok_def)
  have ok: "elem_ok bd (x, sb_weight d)" using d x by (simp add: block_ok_def)
  have x': "is_finite x" "is_f32 x" "weight_ok (sb_weight d)" using ok by (simp_all add: elem_ok_def)
  have e1: "1 \<le> e" "e' \<le> 126" using e by simp_all
  let ?w = "sb_weight d" and ?m = "f_of_int (int M)"
  let ?c = "fsub (sb_max d) (fmul ?m (ue4m3_table ! e))"
  have M24: "\<bar>int M\<bar> \<le> 2 ^ 24"
  proof -
    have "int M \<le> int (2 ^ 10)" using M_le by (simp only: of_nat_le_iff)
    then show ?thesis by simp
  qed
  have m: "?m = FFin False (of_nat M)" using f_of_int_key [OF M24] by simp
  have mm: "is_finite ?m" "is_f32 ?m" "fval ?m = of_nat M" "\<bar>fval ?m\<bar> \<le> of_nat M"
  proof -
    have "of_nat M \<le> (of_nat (2 ^ 10) :: rat)" using M_le by (simp only: of_nat_le_iff)
    then show "is_f32 ?m" unfolding m using representable_dyadic [of M 0] M_le by (simp add: fmax_def)
  qed (simp_all add: m)
  note y = product_finite [OF mm(1,2,4) M_le e1(1) e(3)]
  have c': "is_num ?c" "fkey ?c = rkey (\<bar>fval x\<bar> - rkey (of_nat M * scale_val e))"
    using fsub_finite [of "sb_max d" "fmul ?m (ue4m3_table ! e)"] x' y(1,3) mm(3) by (simp_all add: x(2))
  have t: "fless f_zero ?c" "fless b (err_term ?w ?c)" using c by (simp_all add: clip_exceeds_def Let_def)
  have pos: "0 < fkey ?c" using t(1) c'(1) by (simp add: fless_key)
  have cfin: "is_finite ?c"
  proof (rule finite_key [OF c'(1)])
    have "0 \<le> rkey (of_nat M * scale_val e)"
      using rkey_mono [of 0 "of_nat M * scale_val e"] scale_pos [OF e1(1) e(3)] by simp
    then have "fkey ?c \<le> rkey \<bar>fval x\<bar>" unfolding c'(2) by (intro rkey_mono) simp
    also have "rkey \<bar>fval x\<bar> = \<bar>fval x\<bar>" using x' rkey_num [of "fabs x"] by simp
    also have "\<dots> < fmax" using x' by (cases x) auto
    finally show "\<bar>fkey ?c\<bar> < fmax" using pos by simp
  qed
  have "nonneg (err_term ?w ?c)" using err_term_props [OF c'(1) _ x'(3)] cfin by blast
  then have gt: "fkey b < fkey (err_term ?w ?c)" using t(2) b by (simp add: nonneg_def fless_key)
  obtain v d' where v: "\<bar>fval v\<bar> \<le> of_nat M" and d': "is_num d'" "?w \<noteq> None \<longrightarrow> is_finite d'"
    "block_term (dec e') (ue4m3_table ! e') (x, ?w) = Some (err_term ?w d')"
    "fkey d' = rkey (fval x - rkey (fval v * scale_val e'))"
    using elem_term [OF ok e(1) e1(2)] by metis
  have "\<bar>fkey ?c\<bar> \<le> \<bar>fkey d'\<bar>"
  proof -
    have s: "0 \<le> scale_val e'" "scale_val e' \<le> scale_val e"
      using scale_pos [OF e(1) e1(2)] scale_val_mono [OF e(2,3)] by simp_all
    have "\<bar>fval v * scale_val e'\<bar> \<le> of_nat M * scale_val e"
      using v s by (simp add: abs_mult mult_mono)
    then have "\<bar>rkey (fval v * scale_val e')\<bar> \<le> rkey (of_nat M * scale_val e)" unfolding rkey_abs by (rule rkey_mono)
    then have "\<bar>fval x\<bar> - rkey (of_nat M * scale_val e) \<le> \<bar>fval x - rkey (fval v * scale_val e')\<bar>" by linarith
    then have "fkey ?c \<le> rkey \<bar>fval x - rkey (fval v * scale_val e')\<bar>" unfolding c'(2) by (rule rkey_mono)
    then show ?thesis using pos unfolding d'(4) rkey_abs by simp
  qed
  then have "fkey (err_term ?w ?c) \<le> fkey (err_term ?w d')"
    using err_term_mono [OF c'(1) _ d'(1,2) x'(3)] cfin by blast
  also have "\<dots> = fkey (the (block_term (dec e') (ue4m3_table ! e') (x, ?w)))" unfolding d'(3) by simp
  also have "\<dots> \<le> fkey (total d e')"
    unfolding total_def block_err_def by (rule sum_ge_term [OF terms_nonneg [OF d e(1) e1(2)] _ x(1)]) simp
  finally show ?thesis using gt by simp
qed

end

sublocale block_codec \<subseteq> scale_search err clip total "block_ok bd"
proof unfold_locales
  fix d b and e :: nat assume d: "block_ok bd d" and e: "1 \<le> e" "e \<le> 126"
  show "nonneg (total d e)"
    unfolding total_def block_err_def by (rule mse_sum(1) [OF terms_nonneg [OF d e]]) simp
  assume b: "nonneg b"
  show "\<exists>r. err d e b = Some r \<and> nonneg r \<and> (fkey (total d e) \<le> fkey b \<longrightarrow> fkey r = fkey (total d e))
      \<and> (fkey b < fkey (total d e) \<longrightarrow> fkey b < fkey r)"
    unfolding err_eq [OF d e] block_mse_def total_def block_err_def
    by (rule mse_loop_run [OF terms_nonneg [OF d e] _ b]) (use b in \<open>simp_all add: nonneg_def\<close>)
next
  fix d b and e e' :: nat assume "block_ok bd d" "clip d e b" "nonneg b" "1 \<le> e'" "e' \<le> e" "e \<le> 126"
  note a = this
  have "1 \<le> e" using a(4,5) by simp
  then show "fkey b < fkey (total d e')"
    by (intro clip_sound [OF a(1) clip_imp [OF a(1-3) _ a(6)] a(3-6)])
qed

text \<open>Whatever the error function returns, the search ends with a byte it tried or started with.\<close>

lemma try_scale_total:
  assumes "\<exists>r. err e (snd st) = Some r"
  shows "\<exists>st'. try_scale err e st = Some st' \<and> fst st' \<in> {fst st, e}"
  using assms by (cases st) (auto simp: try_scale_def)

lemma search_scale_range:
  assumes "\<And>e b. 1 \<le> e \<Longrightarrow> e \<le> 126 \<Longrightarrow> \<exists>r. err e b = Some r" and "start \<le> 126"
  shows "\<exists>e. search_scale err clip start (e0, b0) = Some e \<and> (e = e0 \<or> (1 \<le> e \<and> e \<le> 126))"
proof -
  let ?S = "\<lambda>(st :: (nat \<times> float32) \<times> bool). fst (fst st) = e0 \<or> (1 \<le> fst (fst st) \<and> fst (fst st) \<le> 126)"
  have "\<exists>ok st. for_ret (search_step err clip start) [0..<126] ((e0, b0), False) = Some (ok, st)
      \<and> (if ok then ?S st else ?S st)"
  proof (rule for_ret_upt [where P = "\<lambda>_. ?S" and Q = ?S])
    show "?S ((e0, b0), False)" by simp
    fix d st assume S: "?S st"
    obtain best ld where st: "st = (best, ld)" by (cases st)
    let ?e0 = "int start - int d" and ?e1 = "start + d"
    let ?low = "(if \<not> ld \<and> ?e0 \<ge> 1 \<and> ?e0 \<le> 126
          then (if clip (nat ?e0) (snd best) then Some (best, True)
                else do { best \<leftarrow> try_scale err (nat ?e0) best; Some (best, ld) })
          else Some (best, ld))"
    have low: "\<exists>b1 ld1. ?low = Some (b1, ld1) \<and> ?S (b1, ld1)"
    proof (cases "\<not> ld \<and> ?e0 \<ge> 1 \<and> \<not> clip (nat ?e0) (snd best)")
      case True
      then have e: "1 \<le> nat ?e0" "nat ?e0 \<le> 126" using assms(2) by auto
      obtain b1 where b1: "try_scale err (nat ?e0) best = Some b1" "fst b1 \<in> {fst best, nat ?e0}"
        using try_scale_total [of err "nat ?e0" best] assms(1) [OF e] by blast
      then have "?S (b1, ld)" using S st e by auto
      moreover have "?low = Some (b1, ld)" using b1(1) True assms(2) by simp
      ultimately show ?thesis by blast
    next
      case False
      then have "?low = Some (best, ld) \<or> ?low = Some (best, True)" by (cases "\<not> ld \<and> ?e0 \<ge> 1 \<and> ?e0 \<le> 126") auto
      moreover have "?S (best, l)" for l using S st by simp
      ultimately show ?thesis by blast
    qed
    then obtain b1 ld1 where b1: "?low = Some (b1, ld1)" "?S (b1, ld1)" by blast
    have "\<exists>b2. (if d \<noteq> 0 \<and> ?e1 \<ge> 1 \<and> ?e1 \<le> 126 then try_scale err ?e1 b1 else Some b1) = Some b2 \<and> ?S (b2, ld1)"
    proof (cases "d \<noteq> 0 \<and> ?e1 \<ge> 1 \<and> ?e1 \<le> 126")
      case True
      obtain b2 where b2: "try_scale err ?e1 b1 = Some b2" "fst b2 \<in> {fst b1, ?e1}"
        using try_scale_total [of err ?e1 b1] assms(1) [of ?e1] True by blast
      then have "?S (b2, ld1)" using b1(2) True by auto
      moreover have "(if d \<noteq> 0 \<and> ?e1 \<ge> 1 \<and> ?e1 \<le> 126 then try_scale err ?e1 b1 else Some b1) = Some b2"
        using b2(1) True by simp
      ultimately show ?thesis by blast
    next
      case False
      then have "(if d \<noteq> 0 \<and> ?e1 \<ge> 1 \<and> ?e1 \<le> 126 then try_scale err ?e1 b1 else Some b1) = Some b1" by (rule if_not_P)
      then show ?thesis using b1(2) by blast
    qed
    then obtain b2 where b2: "(if d \<noteq> 0 \<and> ?e1 \<ge> 1 \<and> ?e1 \<le> 126 then try_scale err ?e1 b1 else Some b1) = Some b2"
      "?S (b2, ld1)" by blast
    have "search_step err clip start d st = Some (\<not> ((ld1 \<or> ?e0 \<le> 1) \<and> ?e1 \<ge> 126), b2, ld1)"
      unfolding search_step_def st Let_def prod.case b1(1) bind.bind_lunit b2(1) ..
    then show "\<exists>ok st'. search_step err clip start d st = Some (ok, st') \<and> (if ok then ?S st' else ?S st')"
      using b2(2) by auto
  qed
  then show ?thesis by (auto simp: search_scale_def)
qed

text \<open>
  C16: For a positive finite target the binary search gives the byte of the scale nearest to it, the lower one when
  the target is halfway between two; both formats agree. Any other target gives 1 in ROCmFP4 and 0 in ROCmFPX.
\<close>

theorem nearest_scale_correct:
  assumes "is_f32 t"
  shows "if is_finite t \<and> 0 < fval t
    then nearest_scale (fval t) (rocmfp4_nearest_scale_ue4m3 t) \<and> rocmfpx_nearest_scale_ue4m3 t = rocmfp4_nearest_scale_ue4m3 t
    else rocmfp4_nearest_scale_ue4m3 t = 1 \<and> rocmfpx_nearest_scale_ue4m3 t = 0"
proof -
  have pos: "fless f_zero t \<longleftrightarrow> 0 < fval t" if "is_finite t" using that by (cases t) (simp_all add: f_zero_def)
  show ?thesis
    using nearer_scale_nearest [OF assms] pos
    by (auto simp: rocmfp4_nearest_scale_ue4m3_def rocmfpx_nearest_scale_ue4m3_def rocmfpx_tables)
qed

theorem nearest_scale_correct_witness:
  "nearest_scale 1 (rocmfp4_nearest_scale_ue4m3 f_one)
    \<and> rocmfpx_nearest_scale_ue4m3 f_one = rocmfp4_nearest_scale_ue4m3 f_one"
proof -
  have "is_f32 f_one" using representable_dyadic [of 1 0] by (simp add: f_one_def fmax_def)
  from nearest_scale_correct [OF this] show ?thesis by (simp add: f_one_def)
qed

end
