(* ===== verification/Rocmfp4.thy ===== *)
theory Rocmfp4
  imports ScaleSearch "HOL-Library.Word"
begin

unbundle bit_operations_syntax

section \<open>The ROCmFP4 format\<close>

text \<open>
  The 4-bit format of \<open>ggml/rocmfp4/rocmfp4.c\<close>: 32 values are stored as codes of a signed codebook
  with one scale byte per half block (\<open>block_rocmfp4\<close>) or per block (\<open>block_rocmfp4_fast\<close>). The
  theory has the codebook and the thresholds of the encoder, the error functions and the search
  for a scale with and without weights, quantization, dequantization and validation of rows, and
  the dot product with \<open>q8_0\<close> blocks, scalar and with AVX2. A failed \<open>assert\<close> is \<open>None\<close>.
\<close>

subsection \<open>Codes\<close>

type_synonym byte = "8 word"

definition rocmfp4_codebook :: "int list" where
  "rocmfp4_codebook = [0, 1, 2, 3, 4, 6, 8, 10, 0, -1, -2, -3, -4, -6, -8, -10]"

definition rocmfp4_decode :: "byte \<Rightarrow> int" where
  "rocmfp4_decode q = (let q = q AND 0x0f; mag3 = uint (q AND 0x07);
     mag = (if mag3 \<le> 4 then mag3 else 2 * mag3 - 4) in
     if q AND 0x08 \<noteq> 0 then - mag else mag)"

definition rocmfp4_decode_table :: "byte \<Rightarrow> int" where
  "rocmfp4_decode_table q = rocmfp4_codebook ! unat (q AND 0x0f)"

definition rocmfp4_best_index_scaled_finite :: "float32 \<Rightarrow> float32 \<Rightarrow> byte" where
  "rocmfp4_best_index_scaled_finite x inv_scale_half = (let a = fabs (fmul x inv_scale_half) in
     if fle a (flit (1 / 2)) then 0
     else let neg = fless x f_zero in
       if fle a (flit (3 / 2)) then (if neg then 9 else 1)
       else if fle a (flit (5 / 2)) then (if neg then 10 else 2)
       else if fle a (flit (7 / 2)) then (if neg then 11 else 3)
       else if fle a (flit 5) then (if neg then 12 else 4)
       else if fle a (flit 7) then (if neg then 13 else 5)
       else if fle a (flit 9) then (if neg then 14 else 6)
       else (if neg then 15 else 7))"

definition rocmfp4_best_index_scaled :: "float32 \<Rightarrow> float32 \<Rightarrow> byte" where
  "rocmfp4_best_index_scaled x inv_scale_half =
     (if \<not> is_finite x then 0 else rocmfp4_best_index_scaled_finite x inv_scale_half)"

definition rocmfp4_decoded_mag_scaled_finite :: "float32 \<Rightarrow> float32 \<Rightarrow> float32" where
  "rocmfp4_decoded_mag_scaled_finite x inv_scale_half = (let a = fabs (fmul x inv_scale_half);
     mag = (if fle a (flit (1 / 2)) then f_zero
       else if fle a (flit (3 / 2)) then flit 1
       else if fle a (flit (5 / 2)) then flit 2
       else if fle a (flit (7 / 2)) then flit 3
       else if fle a (flit 5) then flit 4
       else if fle a (flit 7) then flit 6
       else if fle a (flit 9) then flit 8
       else flit 10) in
     if fless x f_zero then fneg mag else mag)"

definition rocmfp4_decoded_mag_scaled :: "float32 \<Rightarrow> float32 \<Rightarrow> float32" where
  "rocmfp4_decoded_mag_scaled x inv_scale_half =
     (if \<not> is_finite x then f_zero else rocmfp4_decoded_mag_scaled_finite x inv_scale_half)"

subsection \<open>Errors and weights\<close>

definition unweighted :: "float32 list \<Rightarrow> (float32 \<times> float32 option) list" where
  "unweighted xs = map (\<lambda>x. (x, None)) xs"

definition weighted :: "float32 list \<Rightarrow> float32 list \<Rightarrow> (float32 \<times> float32 option) list" where
  "weighted xs ws = zip xs (map Some ws)"

definition rocmfp4_block_mse_for_scale_unweighted :: "float32 list \<Rightarrow> nat \<Rightarrow> float32 \<Rightarrow> float32 option" where
  "rocmfp4_block_mse_for_scale_unweighted xs e best_err =
     (let scale_half = rocmfp4_ue4m3_to_fp32_half e; inv_scale_half = fdiv f_one scale_half in
       block_mse (\<lambda>x. Some (rocmfp4_decoded_mag_scaled x inv_scale_half)) scale_half (unweighted xs) best_err)"

definition rocmfp4_block_mse_for_scale_unweighted_finite :: "float32 list \<Rightarrow> nat \<Rightarrow> float32 \<Rightarrow> float32 option" where
  "rocmfp4_block_mse_for_scale_unweighted_finite xs e best_err =
     (let scale_half = rocmfp4_ue4m3_to_fp32_half e; inv_scale_half = fdiv f_one scale_half in
       block_mse (\<lambda>x. Some (rocmfp4_decoded_mag_scaled_finite x inv_scale_half)) scale_half (unweighted xs) best_err)"

definition rocmfp4_block_mse_for_scale_weighted ::
    "float32 list \<Rightarrow> float32 list \<Rightarrow> nat \<Rightarrow> float32 \<Rightarrow> float32 option" where
  "rocmfp4_block_mse_for_scale_weighted xs mse_weights e best_err =
     (let scale_half = rocmfp4_ue4m3_to_fp32_half e; inv_scale_half = fdiv f_one scale_half in
       block_mse (\<lambda>x. Some (rocmfp4_decoded_mag_scaled x inv_scale_half)) scale_half (weighted xs mse_weights) best_err)"

definition rocmfp4_block_mse_for_scale_weighted_finite ::
    "float32 list \<Rightarrow> float32 list \<Rightarrow> nat \<Rightarrow> float32 \<Rightarrow> float32 option" where
  "rocmfp4_block_mse_for_scale_weighted_finite xs mse_weights e best_err =
     (let scale_half = rocmfp4_ue4m3_to_fp32_half e; inv_scale_half = fdiv f_one scale_half in
       block_mse (\<lambda>x. Some (rocmfp4_decoded_mag_scaled_finite x inv_scale_half)) scale_half (weighted xs mse_weights) best_err)"

text \<open>The outputs of \<open>rocmfp4_prepare_mse_weights\<close>: \<open>dst\<close>, \<open>max_abs\<close>, \<open>max_abs_weight\<close>, \<open>all_finite\<close>.\<close>

record mse_weights =
  mw_dst :: "float32 list"
  mw_max_abs :: float32
  mw_max_abs_weight :: float32
  mw_all_finite :: bool

definition rocmfp4_weight :: "float32 \<Rightarrow> float32 \<times> float32 \<Rightarrow> float32" where
  "rocmfp4_weight sigma2 = (\<lambda>(x, qw).
     if is_finite qw \<and> fless f_zero qw then fmul qw (fsqrt (fadd sigma2 (fmul x x))) else f_zero)"

definition rocmfp4_prepare_elem :: "float32 \<Rightarrow> mse_weights \<Rightarrow> float32 \<times> float32 \<Rightarrow> mse_weights" where
  "rocmfp4_prepare_elem sigma2 st = (\<lambda>(x, qw).
     let ax = fabs x;
         weight = rocmfp4_weight sigma2 (x, qw);
         st = st\<lparr>mw_all_finite := mw_all_finite st \<and> is_finite x\<rparr>;
         st = (if fless (mw_max_abs st) ax then st\<lparr>mw_max_abs := ax, mw_max_abs_weight := weight\<rparr>
           else if feq ax (mw_max_abs st) \<and> fless (mw_max_abs_weight st) weight then st\<lparr>mw_max_abs_weight := weight\<rparr>
           else st)
     in st\<lparr>mw_dst := mw_dst st @ [weight]\<rparr>)"

definition rocmfp4_prepare_mse_weights :: "float32 list \<Rightarrow> float32 list \<Rightarrow> float32 \<Rightarrow> mse_weights" where
  "rocmfp4_prepare_mse_weights xs quant_weights sigma2 =
     foldl (rocmfp4_prepare_elem sigma2)
       \<lparr>mw_dst = [], mw_max_abs = f_zero, mw_max_abs_weight = f_zero, mw_all_finite = True\<rparr> (zip xs quant_weights)"

subsection \<open>Choosing a scale\<close>

definition rocmfp4_clip_unweighted :: "float32 \<Rightarrow> nat \<Rightarrow> float32 \<Rightarrow> bool" where
  "rocmfp4_clip_unweighted max_abs e0 best_err =
     (let scale_half = rocmfp4_ue4m3_to_fp32_half e0; clip_delta = fsub max_abs (fmul (flit 10) scale_half) in
       fless f_zero clip_delta \<and> fless best_err (fmul clip_delta clip_delta))"

definition rocmfp4_choose_scale_ue4m3_exhaustive_unweighted :: "float32 list \<Rightarrow> float32 \<Rightarrow> bool \<Rightarrow> nat option" where
  "rocmfp4_choose_scale_ue4m3_exhaustive_unweighted xs max_abs all_finite =
     search_scale
       (if all_finite then rocmfp4_block_mse_for_scale_unweighted_finite xs else rocmfp4_block_mse_for_scale_unweighted xs)
       (rocmfp4_clip_unweighted max_abs)
       (rocmfp4_nearest_scale_ue4m3 (fdiv max_abs (flit 10))) (0, f_flt_max)"

definition rocmfp4_clip_weighted :: "float32 \<Rightarrow> float32 \<Rightarrow> nat \<Rightarrow> float32 \<Rightarrow> bool" where
  "rocmfp4_clip_weighted max_abs max_abs_weight e0 best_err =
     (let scale_half = rocmfp4_ue4m3_to_fp32_half e0; clip_delta = fsub max_abs (fmul (flit 10) scale_half) in
       fless f_zero max_abs_weight \<and> fless f_zero clip_delta
         \<and> fless best_err (fmul (fmul max_abs_weight clip_delta) clip_delta))"

definition rocmfp4_choose_scale_ue4m3_exhaustive_weighted ::
    "float32 list \<Rightarrow> float32 list \<Rightarrow> float32 \<Rightarrow> float32 \<Rightarrow> bool \<Rightarrow> nat option" where
  "rocmfp4_choose_scale_ue4m3_exhaustive_weighted xs mse_weights max_abs max_abs_weight all_finite =
     search_scale
       (if all_finite then rocmfp4_block_mse_for_scale_weighted_finite xs mse_weights
        else rocmfp4_block_mse_for_scale_weighted xs mse_weights)
       (rocmfp4_clip_weighted max_abs max_abs_weight)
       (rocmfp4_nearest_scale_ue4m3 (fdiv max_abs (flit 10))) (0, f_flt_max)"

definition rocmfp4_max_abs :: "float32 list \<Rightarrow> float32 \<times> bool" where
  "rocmfp4_max_abs xs = foldl (\<lambda>(max_abs, all_finite) x.
     let all_finite = (all_finite \<and> is_finite x); ax = fabs x in
     (if fless max_abs ax then ax else max_abs, all_finite)) (f_zero, True) xs"

definition rocmfp4_choose_scale_ue4m3 :: "float32 list \<Rightarrow> float32 list option \<Rightarrow> float32 \<Rightarrow> nat option" where
  "rocmfp4_choose_scale_ue4m3 xs quant_weights sigma2 = (case quant_weights of
     Some qw \<Rightarrow> do {
       check (length xs \<le> 32);
       let w = rocmfp4_prepare_mse_weights xs qw sigma2 in
       if \<not> fless f_zero (mw_max_abs w) \<or> \<not> is_finite (mw_max_abs w) then Some 0
       else rocmfp4_choose_scale_ue4m3_exhaustive_weighted xs (mw_dst w) (mw_max_abs w) (mw_max_abs_weight w) (mw_all_finite w) }
   | None \<Rightarrow>
       let (max_abs, all_finite) = rocmfp4_max_abs xs in
       if \<not> fless f_zero max_abs \<or> \<not> is_finite max_abs then Some 0
       else rocmfp4_choose_scale_ue4m3_exhaustive_unweighted xs max_abs all_finite)"

subsection \<open>Rows\<close>

record block_rocmfp4 =
  b4_qs :: "byte list"
  b4_e :: "byte list"

record block_rocmfp4_fast =
  f4_qs :: "byte list"
  f4_e :: byte

text \<open>The slices of a row of \<open>k\<close> elements.\<close>

definition row_blocks :: "'a list \<Rightarrow> 'a list list" where
  "row_blocks xs = map (\<lambda>ib. take 32 (drop (ib * 32) xs)) [0..<length xs div 32]"

definition inv_scale_of :: "float32 \<Rightarrow> float32" where
  "inv_scale_of scale = (if fless f_zero scale then fdiv f_one scale else f_zero)"

definition rocmfp4_codes :: "float32 list \<Rightarrow> float32 \<Rightarrow> float32 \<Rightarrow> byte list" where
  "rocmfp4_codes xb inv_scale_half0 inv_scale_half1 = map (\<lambda>j.
     let q0 = rocmfp4_best_index_scaled (xb ! j) inv_scale_half0;
         q1 = rocmfp4_best_index_scaled (xb ! (j + 16)) inv_scale_half1
     in q0 OR push_bit 4 q1) [0..<16]"

definition rocmfp4_quantize_block :: "float32 list \<Rightarrow> float32 list option \<Rightarrow> float32 \<Rightarrow> block_rocmfp4 option" where
  "rocmfp4_quantize_block xb qw sigma2 = do {
     e0 \<leftarrow> rocmfp4_choose_scale_ue4m3 (take 16 xb) (map_option (take 16) qw) sigma2;
     e1 \<leftarrow> rocmfp4_choose_scale_ue4m3 (drop 16 xb) (map_option (drop 16) qw) sigma2;
     let inv_scale_half0 = inv_scale_of (rocmfp4_ue4m3_to_fp32_half e0);
         inv_scale_half1 = inv_scale_of (rocmfp4_ue4m3_to_fp32_half e1) in
     Some \<lparr>b4_qs = rocmfp4_codes xb inv_scale_half0 inv_scale_half1, b4_e = [of_nat e0, of_nat e1]\<rparr> }"

definition rocmfp4_quantize_block_fast ::
    "float32 list \<Rightarrow> float32 list option \<Rightarrow> float32 \<Rightarrow> block_rocmfp4_fast option" where
  "rocmfp4_quantize_block_fast xb qw sigma2 = do {
     e \<leftarrow> rocmfp4_choose_scale_ue4m3 xb qw sigma2;
     let inv_scale_half = inv_scale_of (rocmfp4_ue4m3_to_fp32_half e) in
     Some \<lparr>f4_qs = rocmfp4_codes xb inv_scale_half inv_scale_half, f4_e = of_nat e\<rparr> }"

text \<open>The mean square of a row, which the weights are scaled with.\<close>

definition rocmfp4_sigma2 :: "float32 list \<Rightarrow> float32" where
  "rocmfp4_sigma2 x = fdiv (foldl (\<lambda>sum_x2 x. fadd sum_x2 (fmul x x)) f_zero x) (f_of_int (int (length x)))"

definition rocmfp4_quantize_row_q4_0_weighted ::
    "float32 list \<Rightarrow> float32 list option \<Rightarrow> block_rocmfp4 list option" where
  "rocmfp4_quantize_row_q4_0_weighted x quant_weights = do {
     check (length x mod 32 = 0);
     let sigma2 = rocmfp4_sigma2 x in
     those (map (\<lambda>ib. rocmfp4_quantize_block (take 32 (drop (ib * 32) x))
         (map_option (\<lambda>w. take 32 (drop (ib * 32) w)) quant_weights) sigma2) [0..<length x div 32]) }"

definition rocmfp4_quantize_row_q4_0_fast_weighted ::
    "float32 list \<Rightarrow> float32 list option \<Rightarrow> block_rocmfp4_fast list option" where
  "rocmfp4_quantize_row_q4_0_fast_weighted x quant_weights = do {
     check (length x mod 32 = 0);
     let sigma2 = rocmfp4_sigma2 x in
     those (map (\<lambda>ib. rocmfp4_quantize_block_fast (take 32 (drop (ib * 32) x))
         (map_option (\<lambda>w. take 32 (drop (ib * 32) w)) quant_weights) sigma2) [0..<length x div 32]) }"

definition rocmfp4_quantize_row_q4_0_ref :: "float32 list \<Rightarrow> block_rocmfp4 list option" where
  "rocmfp4_quantize_row_q4_0_ref x = do {
     check (length x mod 32 = 0);
     those (map (\<lambda>xb. rocmfp4_quantize_block xb None f_zero) (row_blocks x)) }"

definition rocmfp4_quantize_row_q4_0_fast_ref :: "float32 list \<Rightarrow> block_rocmfp4_fast list option" where
  "rocmfp4_quantize_row_q4_0_fast_ref x = do {
     check (length x mod 32 = 0);
     those (map (\<lambda>xb. rocmfp4_quantize_block_fast xb None f_zero) (row_blocks x)) }"

definition rocmfp4_dequantize_values :: "byte list \<Rightarrow> float32 \<Rightarrow> float32 \<Rightarrow> float32 list" where
  "rocmfp4_dequantize_values qs d0 d1 =
     map (\<lambda>j. fmul (f_of_int (rocmfp4_decode (qs ! j AND 0x0f))) d0) [0..<16]
     @ map (\<lambda>j. fmul (f_of_int (rocmfp4_decode (drop_bit 4 (qs ! j)))) d1) [0..<16]"

definition rocmfp4_dequantize_block :: "block_rocmfp4 \<Rightarrow> float32 list" where
  "rocmfp4_dequantize_block b = rocmfp4_dequantize_values (b4_qs b)
     (rocmfp4_ue4m3_to_fp32_half (unat (b4_e b ! 0))) (rocmfp4_ue4m3_to_fp32_half (unat (b4_e b ! 1)))"

definition rocmfp4_dequantize_block_fast :: "block_rocmfp4_fast \<Rightarrow> float32 list" where
  "rocmfp4_dequantize_block_fast b = (let d = rocmfp4_ue4m3_to_fp32_half (unat (f4_e b)) in
     rocmfp4_dequantize_values (f4_qs b) d d)"

definition rocmfp4_dequantize_row_q4_0 :: "block_rocmfp4 list \<Rightarrow> nat \<Rightarrow> float32 list option" where
  "rocmfp4_dequantize_row_q4_0 x k = do {
     check (k mod 32 = 0);
     Some (concat (map rocmfp4_dequantize_block (take (k div 32) x))) }"

definition rocmfp4_dequantize_row_q4_0_fast :: "block_rocmfp4_fast list \<Rightarrow> nat \<Rightarrow> float32 list option" where
  "rocmfp4_dequantize_row_q4_0_fast x k = do {
     check (k mod 32 = 0);
     Some (concat (map rocmfp4_dequantize_block_fast (take (k div 32) x))) }"

text \<open>
  \<open>rocmfp4_quantize_q4_0\<close>: the rows are written one after the other; the result is the number of
  bytes. A block has 18 bytes, 17 in the fast format.
\<close>

definition rocmfp4_quantize_q4_0 ::
    "float32 list \<Rightarrow> nat \<Rightarrow> nat \<Rightarrow> float32 list option \<Rightarrow> (block_rocmfp4 list \<times> nat) option" where
  "rocmfp4_quantize_q4_0 src nrows n_per_row imatrix = (let row_size = 18 * n_per_row div 32 in
     if imatrix = None then do {
       dst \<leftarrow> rocmfp4_quantize_row_q4_0_ref (take (nrows * n_per_row) src);
       Some (dst, nrows * row_size) }
     else do {
       rows \<leftarrow> those (map (\<lambda>row. rocmfp4_quantize_row_q4_0_weighted (take n_per_row (drop (row * n_per_row) src)) imatrix) [0..<nrows]);
       Some (concat rows, nrows * row_size) })"

definition rocmfp4_quantize_q4_0_fast ::
    "float32 list \<Rightarrow> nat \<Rightarrow> nat \<Rightarrow> float32 list option \<Rightarrow> (block_rocmfp4_fast list \<times> nat) option" where
  "rocmfp4_quantize_q4_0_fast src nrows n_per_row imatrix = (let row_size = 17 * n_per_row div 32 in
     if imatrix = None then do {
       dst \<leftarrow> rocmfp4_quantize_row_q4_0_fast_ref (take (nrows * n_per_row) src);
       Some (dst, nrows * row_size) }
     else do {
       rows \<leftarrow> those (map (\<lambda>row. rocmfp4_quantize_row_q4_0_fast_weighted (take n_per_row (drop (row * n_per_row) src)) imatrix) [0..<nrows]);
       Some (concat rows, nrows * row_size) })"

text \<open>Rows as bytes, and their validation.\<close>

definition block_rocmfp4_bytes :: "block_rocmfp4 \<Rightarrow> byte list" where
  "block_rocmfp4_bytes b = b4_qs b @ b4_e b"

definition block_rocmfp4_fast_bytes :: "block_rocmfp4_fast \<Rightarrow> byte list" where
  "block_rocmfp4_fast_bytes b = f4_qs b @ [f4_e b]"

definition rocmfp4_validate_row_data :: "byte list \<Rightarrow> bool" where
  "rocmfp4_validate_row_data data \<longleftrightarrow> length data mod 18 = 0
     \<and> (\<forall>i \<in> {0..<length data div 18}. rocmfp4_scale_is_valid (unat (data ! (18 * i + 16)))
          \<and> rocmfp4_scale_is_valid (unat (data ! (18 * i + 17))))"

definition rocmfp4_validate_row_data_fast :: "byte list \<Rightarrow> bool" where
  "rocmfp4_validate_row_data_fast data \<longleftrightarrow> length data mod 17 = 0
     \<and> (\<forall>i \<in> {0..<length data div 17}. rocmfp4_scale_is_valid (unat (data ! (17 * i + 16))))"

subsection \<open>The dot product\<close>

text \<open>
  A row of \<open>q8_0\<close> blocks: 32 signed bytes with a half precision scale, whose conversion to
  \<open>float\<close> is the parameter \<open>fp16\<close>.
\<close>

record block_q8_0 =
  q8_d :: "16 word"
  q8_qs :: "byte list"

definition block_sumi :: "byte list \<Rightarrow> byte list \<Rightarrow> int \<times> int" where
  "block_sumi qs q8 = foldl (\<lambda>(sumi0, sumi1) j.
     let q = qs ! j in
       (sumi0 + rocmfp4_decode_table q * sint (q8 ! j),
        sumi1 + rocmfp4_decode_table (drop_bit 4 q) * sint (q8 ! (j + 16)))) (0, 0) [0..<16]"

definition block_sumi_fast :: "byte list \<Rightarrow> byte list \<Rightarrow> int" where
  "block_sumi_fast qs q8 = foldl (\<lambda>sumi j.
     let q = qs ! j; sumi = sumi + rocmfp4_decode_table q * sint (q8 ! j) in
       sumi + rocmfp4_decode_table (drop_bit 4 q) * sint (q8 ! (j + 16))) 0 [0..<16]"

definition rocmfp4_vec_dot_q4_0_q8_0_scalar ::
    "(16 word \<Rightarrow> float32) \<Rightarrow> nat \<Rightarrow> block_rocmfp4 list \<Rightarrow> block_q8_0 list \<Rightarrow> float32" where
  "rocmfp4_vec_dot_q4_0_q8_0_scalar fp16 nb x y = foldl (\<lambda>sumf ib.
     let d0 = fmul (rocmfp4_ue4m3_to_fp32_half (unat (b4_e (x ! ib) ! 0))) (fp16 (q8_d (y ! ib)));
         d1 = fmul (rocmfp4_ue4m3_to_fp32_half (unat (b4_e (x ! ib) ! 1))) (fp16 (q8_d (y ! ib)));
         (sumi0, sumi1) = block_sumi (b4_qs (x ! ib)) (q8_qs (y ! ib))
     in fadd sumf (fadd (fmul d0 (f_of_int sumi0)) (fmul d1 (f_of_int sumi1)))) f_zero [0..<nb]"

definition rocmfp4_vec_dot_q4_0_fast_q8_0_scalar ::
    "(16 word \<Rightarrow> float32) \<Rightarrow> nat \<Rightarrow> block_rocmfp4_fast list \<Rightarrow> block_q8_0 list \<Rightarrow> float32" where
  "rocmfp4_vec_dot_q4_0_fast_q8_0_scalar fp16 nb x y = foldl (\<lambda>sumf ib.
     let d = fmul (rocmfp4_ue4m3_to_fp32_half (unat (f4_e (x ! ib)))) (fp16 (q8_d (y ! ib)));
         sumi = block_sumi_fast (f4_qs (x ! ib)) (q8_qs (y ! ib))
     in fadd sumf (fmul d (f_of_int sumi))) f_zero [0..<nb]"

text \<open>
  The vector instructions of the AVX2 version, on registers as lists of lanes, the lowest lane
  first. \<open>srli_epi16\<close> shifts pairs of bytes; \<open>shuffle_epi8\<close> looks bytes up in a register;
  \<open>madd_epi16\<close> multiplies signed 16-bit lanes and adds adjacent products.
\<close>

fun srli_epi16 :: "nat \<Rightarrow> byte list \<Rightarrow> byte list" where
  "srli_epi16 n (l # h # bs) = (let w = drop_bit n (word_cat h l :: 16 word) in
     ucast w # ucast (drop_bit 8 w) # srli_epi16 n bs)"
| "srli_epi16 n bs = bs"

definition shuffle_epi8 :: "byte list \<Rightarrow> byte list \<Rightarrow> byte list" where
  "shuffle_epi8 tbl idx = map (\<lambda>i. if bit i 7 then 0 else tbl ! unat (i AND 0x0f)) idx"

fun madd_epi16 :: "16 word list \<Rightarrow> 16 word list \<Rightarrow> 32 word list" where
  "madd_epi16 (a0 # a1 # as) (b0 # b1 # bs) =
     (word_of_int (sint a0 * sint b0) + word_of_int (sint a1 * sint b1)) # madd_epi16 as bs"
| "madd_epi16 _ _ = []"

definition add_epi32 :: "32 word list \<Rightarrow> 32 word list \<Rightarrow> 32 word list" where
  "add_epi32 a b = map2 (+) a b"

definition shuffle_epi32 :: "32 word list \<Rightarrow> nat list \<Rightarrow> 32 word list" where
  "shuffle_epi32 v lanes = map (\<lambda>i. v ! i) lanes"

definition rocmfp4_hsum_i32_8_avx2 :: "32 word list \<Rightarrow> int" where
  "rocmfp4_hsum_i32_8_avx2 v =
     (let s = add_epi32 (take 4 v) (drop 4 v);
          s = add_epi32 s (shuffle_epi32 s [2, 3, 0, 1]);
          s = add_epi32 s (shuffle_epi32 s [1, 0, 3, 2])
      in sint (s ! 0))"

definition rocmfp4_block_isums_avx2 :: "byte list \<Rightarrow> byte list \<Rightarrow> int \<times> int" where
  "rocmfp4_block_isums_avx2 qs q8 =
     (let tbl = map word_of_int rocmfp4_codebook;
          lo = map (\<lambda>b. b AND 0x0f) qs;
          hi = map (\<lambda>b. b AND 0x0f) (srli_epi16 4 qs);
          dlo = shuffle_epi8 tbl lo;
          dhi = shuffle_epi8 tbl hi;
          ylo = take 16 q8;
          yhi = take 16 (drop 16 q8);
          pl = madd_epi16 (map scast dlo) (map scast ylo);
          ph = madd_epi16 (map scast dhi) (map scast yhi)
      in (rocmfp4_hsum_i32_8_avx2 pl, rocmfp4_hsum_i32_8_avx2 ph))"

definition rocmfp4_vec_dot_q4_0_q8_0_avx2 ::
    "(16 word \<Rightarrow> float32) \<Rightarrow> nat \<Rightarrow> block_rocmfp4 list \<Rightarrow> block_q8_0 list \<Rightarrow> float32" where
  "rocmfp4_vec_dot_q4_0_q8_0_avx2 fp16 nb x y = foldl (\<lambda>sumf ib.
     let d0 = fmul (rocmfp4_ue4m3_to_fp32_half (unat (b4_e (x ! ib) ! 0))) (fp16 (q8_d (y ! ib)));
         d1 = fmul (rocmfp4_ue4m3_to_fp32_half (unat (b4_e (x ! ib) ! 1))) (fp16 (q8_d (y ! ib)));
         (sumi0, sumi1) = rocmfp4_block_isums_avx2 (b4_qs (x ! ib)) (q8_qs (y ! ib))
     in fadd sumf (fadd (fmul d0 (f_of_int sumi0)) (fmul d1 (f_of_int sumi1)))) f_zero [0..<nb]"

definition rocmfp4_vec_dot_q4_0_fast_q8_0_avx2 ::
    "(16 word \<Rightarrow> float32) \<Rightarrow> nat \<Rightarrow> block_rocmfp4_fast list \<Rightarrow> block_q8_0 list \<Rightarrow> float32" where
  "rocmfp4_vec_dot_q4_0_fast_q8_0_avx2 fp16 nb x y = foldl (\<lambda>sumf ib.
     let d = fmul (rocmfp4_ue4m3_to_fp32_half (unat (f4_e (x ! ib)))) (fp16 (q8_d (y ! ib)));
         (sumi0, sumi1) = rocmfp4_block_isums_avx2 (f4_qs (x ! ib)) (q8_qs (y ! ib))
     in fadd sumf (fmul d (f_of_int (sumi0 + sumi1)))) f_zero [0..<nb]"

text \<open>The entry points take the AVX2 version when the processor has it.\<close>

definition rocmfp4_vec_dot_q4_0_q8_0 ::
    "bool \<Rightarrow> (16 word \<Rightarrow> float32) \<Rightarrow> nat \<Rightarrow> block_rocmfp4 list \<Rightarrow> block_q8_0 list \<Rightarrow> float32 option" where
  "rocmfp4_vec_dot_q4_0_q8_0 avx2 fp16 n x y = do {
     check (n mod 32 = 0);
     let nb = n div 32 in
     Some (if avx2 then rocmfp4_vec_dot_q4_0_q8_0_avx2 fp16 nb x y
       else rocmfp4_vec_dot_q4_0_q8_0_scalar fp16 nb x y) }"

definition rocmfp4_vec_dot_q4_0_fast_q8_0 ::
    "bool \<Rightarrow> (16 word \<Rightarrow> float32) \<Rightarrow> nat \<Rightarrow> block_rocmfp4_fast list \<Rightarrow> block_q8_0 list \<Rightarrow> float32 option" where
  "rocmfp4_vec_dot_q4_0_fast_q8_0 avx2 fp16 n x y = do {
     check (n mod 32 = 0);
     let nb = n div 32 in
     Some (if avx2 then rocmfp4_vec_dot_q4_0_fast_q8_0_avx2 fp16 nb x y
       else rocmfp4_vec_dot_q4_0_fast_q8_0_scalar fp16 nb x y) }"

subsection \<open>Codes are nearest codebook entries\<close>

lemma flit_of_nat: "n \<le> 2 ^ 13 \<Longrightarrow> flit (of_nat n / 2) = FFin False (of_nat n / 2)"
  using flit_dyadic [of "n * 2 ^ 10"] by simp

lemma flit_thresholds [simp]:
  "flit (1 / 2) = FFin False (1 / 2)" "flit (3 / 2) = FFin False (3 / 2)" "flit (5 / 2) = FFin False (5 / 2)"
  "flit (7 / 2) = FFin False (7 / 2)" "flit 1 = FFin False 1" "flit 2 = FFin False 2" "flit 3 = FFin False 3"
  "flit 4 = FFin False 4" "flit 5 = FFin False 5" "flit 6 = FFin False 6" "flit 7 = FFin False 7"
  "flit 8 = FFin False 8" "flit 9 = FFin False 9" "flit 10 = FFin False 10"
  using flit_of_nat [of 1] flit_of_nat [of 3] flit_of_nat [of 5] flit_of_nat [of 7] flit_of_nat [of 2]
    flit_of_nat [of 4] flit_of_nat [of 6] flit_of_nat [of 8] flit_of_nat [of 10] flit_of_nat [of 12]
    flit_of_nat [of 14] flit_of_nat [of 16] flit_of_nat [of 18] flit_of_nat [of 20] by simp_all

lemma fle_nan [simp]: "\<not> fle FNan y" "\<not> fle x FNan"
  by (cases x; simp add: fle_def)+

lemma fle_const:
  assumes "is_num a" "0 \<le> t" "t < fmax"
  shows "fle a (FFin False t) \<longleftrightarrow> fkey a \<le> t"
  using assms by (cases a) (auto simp: fle_def)

lemma rocmfp4_decode_values:
  "rocmfp4_decode 0 = 0" "rocmfp4_decode 1 = 1" "rocmfp4_decode 2 = 2" "rocmfp4_decode 3 = 3"
  "rocmfp4_decode 4 = 4" "rocmfp4_decode 5 = 6" "rocmfp4_decode 6 = 8" "rocmfp4_decode 7 = 10"
  "rocmfp4_decode 9 = -1" "rocmfp4_decode 10 = -2" "rocmfp4_decode 11 = -3"
  "rocmfp4_decode 12 = -4" "rocmfp4_decode 13 = -6" "rocmfp4_decode 14 = -8" "rocmfp4_decode 15 = -10"
  by (simp_all add: rocmfp4_decode_def Let_def)

lemma byte_low_nibble: "(q :: byte) AND 0x0f \<in> of_nat ` {..<16}"
proof -
  have low: "q AND 0x0f = take_bit 4 q" by (simp add: take_bit_eq_mask mask_eq_exp_minus_1)
  have "unat (q AND 0x0f) = unat q mod 16"
    unfolding low unsigned_take_bit_eq by (simp add: take_bit_eq_mod)
  then have "q AND 0x0f = of_nat (unat q mod 16)" using of_nat_unat [of "q AND 0x0f", where 'a = "8 word"] by simp
  then show ?thesis by simp
qed

lemma rocmfp4_decode_table_eq: "rocmfp4_decode_table q = rocmfp4_decode q"
proof -
  have "rocmfp4_decode_table q = rocmfp4_decode (q AND 0x0f)" "rocmfp4_decode q = rocmfp4_decode (q AND 0x0f)"
  proof -
    obtain n where "n < 16" "q AND 0x0f = of_nat n" using byte_low_nibble [of q] by auto
    moreover have "list_all (\<lambda>n. rocmfp4_codebook ! unat (of_nat n :: byte) = rocmfp4_decode (of_nat n)) [0..<16]"
      by (simp add: upt_rec rocmfp4_decode_def rocmfp4_codebook_def Let_def)
    ultimately show "rocmfp4_decode_table q = rocmfp4_decode (q AND 0x0f)"
      by (simp add: rocmfp4_decode_table_def list_all_iff)
    show "rocmfp4_decode q = rocmfp4_decode (q AND 0x0f)" by (simp add: rocmfp4_decode_def and.assoc)
  qed
  then show ?thesis by simp
qed

text \<open>The fused decoder agrees with encoding and decoding.\<close>

lemma decoded_mag_decode:
  "fval (rocmfp4_decoded_mag_scaled_finite x i) = of_int (rocmfp4_decode (rocmfp4_best_index_scaled_finite x i))"
  by (simp add: rocmfp4_decoded_mag_scaled_finite_def rocmfp4_best_index_scaled_finite_def Let_def
      rocmfp4_decode_values f_zero_def)

lemma decoded_mag_range:
  "is_finite (rocmfp4_decoded_mag_scaled_finite x i)" "is_f32 (rocmfp4_decoded_mag_scaled_finite x i)"
  "\<bar>fval (rocmfp4_decoded_mag_scaled_finite x i)\<bar> \<le> 10"
proof -
  have "representable (of_nat n)" if "n \<le> 2 ^ 24" for n using representable_dyadic [OF that, of 0] by simp
  from this [of 1] this [of 2] this [of 3] this [of 4] this [of 6] this [of 8] this [of 10]
  have rep: "representable 1" "representable 2" "representable 3" "representable 4" "representable 6"
    "representable 8" "representable 10" by simp_all
  show "is_finite (rocmfp4_decoded_mag_scaled_finite x i)" "is_f32 (rocmfp4_decoded_mag_scaled_finite x i)"
    "\<bar>fval (rocmfp4_decoded_mag_scaled_finite x i)\<bar> \<le> 10"
    by (simp_all add: rocmfp4_decoded_mag_scaled_finite_def Let_def f_zero_def rep fmax_def)
qed

text \<open>The chosen code is a nearest one, and on a tie the one of lower magnitude.\<close>

definition nearest_code :: "int list \<Rightarrow> rat \<Rightarrow> int \<Rightarrow> bool" where
  "nearest_code codes q v \<longleftrightarrow> v \<in> set codes \<and> (\<forall>u \<in> set codes. \<bar>q - of_int v\<bar> < \<bar>q - of_int u\<bar>
     \<or> (\<bar>q - of_int v\<bar> = \<bar>q - of_int u\<bar> \<and> \<bar>v\<bar> \<le> \<bar>u\<bar>))"

lemma fkey_sign:
  assumes "is_finite x" "is_f32 x" "is_finite i" "is_f32 i" "0 \<le> fval i"
  shows "fval x < 0 \<Longrightarrow> fkey (fmul x i) \<le> 0" and "0 \<le> fval x \<Longrightarrow> 0 \<le> fkey (fmul x i)"
  using fmul_finite [OF assms(1,3,2,4)] rkey_mono [of "fval x * fval i" 0] rkey_mono [of 0 "fval x * fval i"] assms(5)
  by (simp_all add: mult_nonpos_nonneg)

definition nearest_mag :: "rat \<Rightarrow> int" where
  "nearest_mag a = (if a \<le> 1 / 2 then 0 else if a \<le> 3 / 2 then 1 else if a \<le> 5 / 2 then 2 else if a \<le> 7 / 2 then 3
     else if a \<le> 5 then 4 else if a \<le> 7 then 6 else if a \<le> 9 then 8 else 10)"

lemma nearest_mag_least:
  assumes "0 \<le> a" "n \<in> {0, 1, 2, 3, 4, 6, 8, 10}"
  shows "\<bar>a - of_int (nearest_mag a)\<bar> < \<bar>a - of_int n\<bar> \<or> (\<bar>a - of_int (nearest_mag a)\<bar> = \<bar>a - of_int n\<bar> \<and> nearest_mag a \<le> n)"
proof -
  have pos: "\<bar>a - r\<bar> = (if a < r then r - a else a - r)" for r by simp
  have goal: ?thesis if "nearest_mag a = m" "\<bar>a - of_int m\<bar> < \<bar>a - of_int n\<bar> \<or> (\<bar>a - of_int m\<bar> = \<bar>a - of_int n\<bar> \<and> m \<le> n)" for m
    using that by simp
  consider "a \<le> 1 / 2" | "1 / 2 < a" "a \<le> 3 / 2" | "3 / 2 < a" "a \<le> 5 / 2" | "5 / 2 < a" "a \<le> 7 / 2" | "7 / 2 < a" "a \<le> 5"
    | "5 < a" "a \<le> 7" | "7 < a" "a \<le> 9" | "9 < a" by linarith
  then show ?thesis
  proof cases
    case 1 show ?thesis by (rule goal [of 0]) (use 1 assms in \<open>auto simp: nearest_mag_def pos\<close>)
  next
    case 2 show ?thesis by (rule goal [of 1]) (use 2 assms in \<open>auto simp: nearest_mag_def pos\<close>)
  next
    case 3 show ?thesis by (rule goal [of 2]) (use 3 assms in \<open>auto simp: nearest_mag_def pos\<close>)
  next
    case 4 show ?thesis by (rule goal [of 3]) (use 4 assms in \<open>auto simp: nearest_mag_def pos\<close>)
  next
    case 5 show ?thesis by (rule goal [of 4]) (use 5 assms in \<open>auto simp: nearest_mag_def pos\<close>)
  next
    case 6 show ?thesis by (rule goal [of 6]) (use 6 assms in \<open>auto simp: nearest_mag_def pos\<close>)
  next
    case 7 show ?thesis by (rule goal [of 8]) (use 7 assms in \<open>auto simp: nearest_mag_def pos\<close>)
  next
    case 8 show ?thesis by (rule goal [of 10]) (use 8 assms in \<open>auto simp: nearest_mag_def pos\<close>)
  qed
qed

lemma nearest_mag_mem: "nearest_mag a \<in> {0, 1, 2, 3, 4, 6, 8, 10}"
  by (simp add: nearest_mag_def)

lemma best_index_nearest:
  assumes x: "is_finite x" "is_f32 x" and i: "is_finite i" "is_f32 i" "0 \<le> fval i"
  shows "nearest_code rocmfp4_codebook (fkey (fmul x i)) (rocmfp4_decode (rocmfp4_best_index_scaled x i))"
proof -
  let ?p = "fmul x i"
  have p: "is_num ?p" using fmul_finite x i by blast
  have le: "fle (fabs ?p) (FFin False t) \<longleftrightarrow> \<bar>fkey ?p\<bar> \<le> t" if "0 \<le> t" "t < fmax" for t
  proof -
    have "is_num (fabs ?p)" using p by simp
    moreover have "fkey (fabs ?p) = \<bar>fkey ?p\<bar>" using p by (simp add: is_num_def)
    ultimately show ?thesis using fle_const [of "fabs ?p" t] that by metis
  qed
  have fm: "(10 :: rat) < fmax" by (simp add: fmax_def)
  have neg: "fless x f_zero \<longleftrightarrow> fval x < 0" using x by (cases x) (simp_all add: f_zero_def)
  define q where "q = fkey ?p"
  have sgn: "fval x < 0 \<longrightarrow> q \<le> 0" "\<not> fval x < 0 \<longrightarrow> 0 \<le> q"
    unfolding q_def using fkey_sign [OF x i] by auto
  let ?m = "nearest_mag \<bar>q\<bar>"
  define v where "v = (if fval x < 0 then - ?m else ?m)"
  have v: "rocmfp4_decode (rocmfp4_best_index_scaled x i) = v"
    using x(1) fm
    by (simp add: rocmfp4_best_index_scaled_def rocmfp4_best_index_scaled_finite_def Let_def neg le q_def [symmetric]
        rocmfp4_decode_values nearest_mag_def v_def)
  have dist: "\<bar>q - of_int v\<bar> = \<bar>\<bar>q\<bar> - of_int ?m\<bar>" "\<bar>v\<bar> = ?m"
    using sgn nearest_mag_mem [of "\<bar>q\<bar>"] by (auto simp: v_def)
  have "v \<in> set rocmfp4_codebook"
    using nearest_mag_mem [of "\<bar>q\<bar>"] by (auto simp: v_def rocmfp4_codebook_def)
  moreover have "\<bar>q - of_int v\<bar> < \<bar>q - of_int u\<bar> \<or> (\<bar>q - of_int v\<bar> = \<bar>q - of_int u\<bar> \<and> \<bar>v\<bar> \<le> \<bar>u\<bar>)"
    if u: "u \<in> set rocmfp4_codebook" for u
  proof -
    have "\<bar>u\<bar> \<in> {0, 1, 2, 3, 4, 6, 8, 10}" using u by (auto simp: rocmfp4_codebook_def)
    from nearest_mag_least [OF _ this, of "\<bar>q\<bar>"]
    have "\<bar>\<bar>q\<bar> - of_int ?m\<bar> < \<bar>\<bar>q\<bar> - of_int \<bar>u\<bar>\<bar> \<or> (\<bar>\<bar>q\<bar> - of_int ?m\<bar> = \<bar>\<bar>q\<bar> - of_int \<bar>u\<bar>\<bar> \<and> ?m \<le> \<bar>u\<bar>)" by simp
    moreover have "\<bar>\<bar>q\<bar> - of_int \<bar>u\<bar>\<bar> \<le> \<bar>q - of_int u\<bar>" by simp
    ultimately show ?thesis unfolding dist by linarith
  qed
  ultimately show ?thesis unfolding nearest_code_def v q_def [symmetric] by blast
qed

subsection \<open>The chosen scale is the best one\<close>

lemma half_table: "e \<le> 126 \<Longrightarrow> rocmfp4_ue4m3_to_fp32_half e = ue4m3_table ! e"
  by (simp add: rocmfp4_ue4m3_to_fp32_half_def)

definition fp4_dec :: "nat \<Rightarrow> float32 \<Rightarrow> float32 option" where
  "fp4_dec e x = Some (rocmfp4_decoded_mag_scaled_finite x (fdiv f_one (rocmfp4_ue4m3_to_fp32_half e)))"

definition fp4_err :: "scale_block \<Rightarrow> nat \<Rightarrow> float32 \<Rightarrow> float32 option" where
  "fp4_err d e b = block_mse (fp4_dec e) (rocmfp4_ue4m3_to_fp32_half e) (sb_elems d) b"

definition fp4_clip :: "scale_block \<Rightarrow> nat \<Rightarrow> float32 \<Rightarrow> bool" where
  "fp4_clip d e b = (case sb_weight d of
     None \<Rightarrow> rocmfp4_clip_unweighted (sb_max d) e b
   | Some w \<Rightarrow> rocmfp4_clip_weighted (sb_max d) w e b)"

lemma f_of_int_10: "f_of_int 10 = flit 10"
  by (simp add: f_of_int_def flit_def)

interpretation fp4: block_codec fp4_dec 10 fmax fp4_err fp4_clip
proof unfold_locales
  show "(10 :: nat) \<le> 2 ^ 10" by simp
  fix x :: float32 and e :: nat
  show "\<exists>v. fp4_dec e x = Some v \<and> is_finite v \<and> is_f32 v \<and> \<bar>fval v\<bar> \<le> of_nat 10"
    using decoded_mag_range by (simp add: fp4_dec_def)
next
  fix d b and e :: nat assume e: "e \<le> 126"
  show "fp4_err d e b = block_mse (fp4_dec e) (ue4m3_table ! e) (sb_elems d) b"
    by (simp add: fp4_err_def half_table e)
next
  fix d b and e :: nat assume e: "e \<le> 126" and c: "fp4_clip d e b"
  show "clip_exceeds 10 (sb_max d) (sb_weight d) (ue4m3_table ! e) b"
    using c e by (auto simp: fp4_clip_def rocmfp4_clip_unweighted_def rocmfp4_clip_weighted_def clip_exceeds_def
        Let_def half_table f_of_int_10 split: option.splits)
qed

text \<open>The total error of a scale, in the order and with the rounding of the code.\<close>

definition rocmfp4_weights :: "float32 list \<Rightarrow> float32 list option \<Rightarrow> float32 \<Rightarrow> (float32 \<times> float32 option) list" where
  "rocmfp4_weights xs qw sigma2 = (case qw of None \<Rightarrow> unweighted xs
     | Some q \<Rightarrow> weighted xs (mw_dst (rocmfp4_prepare_mse_weights xs q sigma2)))"

definition rocmfp4_scale_error :: "float32 list \<Rightarrow> float32 list option \<Rightarrow> float32 \<Rightarrow> nat \<Rightarrow> float32" where
  "rocmfp4_scale_error xs qw sigma2 e = block_err (fp4_dec e) (ue4m3_table ! e) (rocmfp4_weights xs qw sigma2)"

text \<open>The least pair of error and byte, or 0 when no error is below \<open>FLT_MAX\<close>.\<close>

definition best_scale :: "(nat \<Rightarrow> float32) \<Rightarrow> nat \<Rightarrow> bool" where
  "best_scale E e \<longleftrightarrow> (if e = 0 then \<forall>e' \<in> {1..126}. fkey f_flt_max \<le> fkey (E e')
     else e \<le> 126 \<and> fkey (E e) < fkey f_flt_max
       \<and> (\<forall>e' \<in> {1..126}. fkey (E e) < fkey (E e') \<or> (fkey (E e) = fkey (E e') \<and> e \<le> e')))"

lemma best_scale_Min:
  assumes "snd (Min (insert (fkey f_flt_max, 0) ((\<lambda>e. (fkey (E e), e)) ` {1..126}))) = e"
  shows "best_scale E e"
proof -
  let ?K = "insert (fkey f_flt_max, 0) ((\<lambda>e. (fkey (E e), e)) ` {1..126})"
  have mem: "Min ?K \<in> ?K" by (rule Min_in) simp_all
  have le: "Min ?K \<le> k" if "k \<in> ?K" for k using that by (intro Min_le) simp_all
  have le': "Min ?K \<le> (fkey (E e'), e')" if "e' \<in> {1..126}" for e' by (rule le) (use that in blast)
  show ?thesis
  proof (cases "e = 0")
    case True
    then have "Min ?K = (fkey f_flt_max, 0)" using mem assms by auto
    have "(fkey f_flt_max, 0) \<le> (fkey (E e'), e')" if "e' \<in> {1..126}" for e' using le' [OF that] unfolding \<open>Min ?K = (fkey f_flt_max, 0)\<close> .
    then have "fkey f_flt_max \<le> fkey (E e')" if "e' \<in> {1..126}" for e'
      using that unfolding less_eq_prod_def by force
    then show ?thesis using True by (simp add: best_scale_def)
  next
    case False
    then have m: "Min ?K = (fkey (E e), e)" "e \<in> {1..126}" using mem assms by auto
    have "Min ?K \<le> (fkey f_flt_max, 0)" by (rule le) blast
    then have "(fkey (E e), e) \<le> (fkey f_flt_max, 0)" unfolding m(1) .
    then have "fkey (E e) < fkey f_flt_max" using False by (auto simp: less_eq_prod_def)
    moreover have "fkey (E e) < fkey (E e') \<or> (fkey (E e) = fkey (E e') \<and> e \<le> e')" if "e' \<in> {1..126}" for e'
      using le' [OF that] unfolding m(1) less_eq_prod_def by auto
    ultimately show ?thesis using False m(2) by (simp add: best_scale_def)
  qed
qed

lemma f_flt_max_nonneg: "nonneg f_flt_max"
proof -
  have "(2 :: rat) ^ 128 - 2 ^ 104 = of_nat (2 ^ 24 - 1) * 2 ^ 104" by simp
  then have "representable (2 ^ 128 - 2 ^ 104)" using representable_dyadic [of "2 ^ 24 - 1" 104] by simp
  then show ?thesis by (simp add: nonneg_def f_flt_max_def fmax_def)
qed

lemma lower_scale_range: "lo \<le> hi \<Longrightarrow> lo \<le> lower_scale tab t lo hi \<and> lower_scale tab t lo hi \<le> hi"
proof (induction tab t lo hi rule: lower_scale.induct)
  case (1 tab t lo hi)
  let ?mid = "lo + (hi - lo) div 2"
  show ?case
  proof (cases "lo < hi")
    case lt: True
    then have mid: "lo \<le> ?mid" "?mid < hi" by linarith+
    show ?thesis
    proof (cases "fless (tab ! ?mid) t")
      case True
      have "?mid + 1 \<le> lower_scale tab t (?mid + 1) hi \<and> lower_scale tab t (?mid + 1) hi \<le> hi"
        by (rule "1.IH"(1) [OF lt refl True]) (use mid in linarith)
      moreover have "lower_scale tab t lo hi = lower_scale tab t (?mid + 1) hi"
        using lt True by (simp add: lower_scale.simps [of _ _ lo hi] Let_def)
      ultimately show ?thesis using mid(1) by linarith
    next
      case False
      have "lo \<le> lower_scale tab t lo ?mid \<and> lower_scale tab t lo ?mid \<le> ?mid"
        by (rule "1.IH"(2) [OF lt refl False]) (use mid in linarith)
      moreover have "lower_scale tab t lo hi = lower_scale tab t lo ?mid"
        using lt False by (simp add: lower_scale.simps [of _ _ lo hi] Let_def)
      ultimately show ?thesis using mid(2) by linarith
    qed
  next
    case False
    then show ?thesis using 1(3) by (simp add: lower_scale.simps)
  qed
qed

lemma rocmfp4_nearest_range: "1 \<le> rocmfp4_nearest_scale_ue4m3 t \<and> rocmfp4_nearest_scale_ue4m3 t \<le> 126"
proof (cases "\<not> fless f_zero t \<or> \<not> is_finite t")
  case True
  then show ?thesis by (simp add: rocmfp4_nearest_scale_ue4m3_def)
next
  case False
  show ?thesis
    using lower_scale_range [of 1 126 ue4m3_table t]
    using False by (auto simp: rocmfp4_nearest_scale_ue4m3_def nearer_scale_def Let_def)
qed

text \<open>The search on a good block.\<close>

lemma fp4_search:
  assumes "block_ok fmax d" "1 \<le> start" "start \<le> 126"
  shows "\<exists>e. search_scale (fp4_err d) (fp4_clip d) start (0, f_flt_max) = Some e \<and> best_scale (fp4.total d) e"
proof -
  have "{1..min 126 (start + 125)} = {1..126}" using assms(2) by auto
  then have run: "search_scale (fp4_err d) (fp4_clip d) start (0, f_flt_max)
      = Some (snd (Min (insert (fkey f_flt_max, 0) (fp4.key d ` {1..126}))))"
    using fp4.search_run [OF assms(1,3) f_flt_max_nonneg, of 0] by simp
  have "best_scale (fp4.total d) (snd (Min (insert (fkey f_flt_max, 0) (fp4.key d ` {1..126}))))"
    by (rule best_scale_Min) (simp add: fp4.key_def [abs_def])
  with run show ?thesis by blast
qed

text \<open>The greatest magnitude, and a weight that goes with it.\<close>

definition good_floats :: "float32 list \<Rightarrow> bool" where
  "good_floats xs \<longleftrightarrow> (\<forall>x \<in> set xs. is_finite x \<and> is_f32 x)"

lemma good_floats_simps [simp]:
  "good_floats []" "good_floats (xs @ ys) \<longleftrightarrow> good_floats xs \<and> good_floats ys"
  "good_floats (x # xs) \<longleftrightarrow> is_finite x \<and> is_f32 x \<and> good_floats xs"
  by (auto simp: good_floats_def)

lemma fabs_FFin: "is_finite x \<Longrightarrow> is_f32 x \<Longrightarrow> fabs x = FFin False \<bar>fval x\<bar>"
  by (cases x) auto

lemma rocmfp4_max_abs_props:
  assumes "good_floats xs"
  shows "\<exists>r. rocmfp4_max_abs xs = (FFin False r, True) \<and> 0 \<le> r \<and> (\<forall>x \<in> set xs. \<bar>fval x\<bar> \<le> r)
    \<and> (0 < r \<longrightarrow> (\<exists>x \<in> set xs. fabs x = FFin False r))"
  using assms
proof (induction xs rule: rev_induct)
  case Nil
  show ?case by (simp add: rocmfp4_max_abs_def f_zero_def)
next
  case (snoc x xs)
  then obtain r where r: "rocmfp4_max_abs xs = (FFin False r, True)" "0 \<le> r" "\<forall>x \<in> set xs. \<bar>fval x\<bar> \<le> r"
    "0 < r \<longrightarrow> (\<exists>x \<in> set xs. fabs x = FFin False r)" by auto
  have x: "is_finite x" "fabs x = FFin False \<bar>fval x\<bar>" using snoc.prems fabs_FFin by simp_all
  have step: "rocmfp4_max_abs (xs @ [x]) = (if r < \<bar>fval x\<bar> then FFin False \<bar>fval x\<bar> else FFin False r, True)"
    using r(1) x by (simp add: rocmfp4_max_abs_def)
  show ?case
  proof (cases "r < \<bar>fval x\<bar>")
    case True
    then show ?thesis using step r x by (intro exI [of _ "\<bar>fval x\<bar>"]) fastforce
  next
    case False
    then show ?thesis using step r by (intro exI [of _ r]) auto
  qed
qed

lemma prepare_props:
  fixes sigma2 :: float32
  assumes "good_floats (map fst l)"
  defines "st \<equiv> foldl (rocmfp4_prepare_elem sigma2)
       \<lparr>mw_dst = [], mw_max_abs = f_zero, mw_max_abs_weight = f_zero, mw_all_finite = True\<rparr> l"
  shows "mw_dst st = map (rocmfp4_weight sigma2) l" "mw_all_finite st"
    "\<exists>r. mw_max_abs st = FFin False r \<and> 0 \<le> r \<and> (\<forall>(x, q) \<in> set l. \<bar>fval x\<bar> \<le> r)
       \<and> (0 < r \<longrightarrow> (\<exists>x q. (x, q) \<in> set l \<and> fabs x = FFin False r \<and> mw_max_abs_weight st = rocmfp4_weight sigma2 (x, q)))"
proof -
  have "mw_dst st = map (rocmfp4_weight sigma2) l \<and> mw_all_finite st
    \<and> (\<exists>r. mw_max_abs st = FFin False r \<and> 0 \<le> r \<and> (\<forall>(x, q) \<in> set l. \<bar>fval x\<bar> \<le> r)
       \<and> (0 < r \<longrightarrow> (\<exists>x q. (x, q) \<in> set l \<and> fabs x = FFin False r \<and> mw_max_abs_weight st = rocmfp4_weight sigma2 (x, q))))"
    using assms(1) unfolding st_def
  proof (induction l rule: rev_induct)
    case Nil
    show ?case by (simp add: f_zero_def)
  next
    case (snoc a l)
    obtain x q where a: "a = (x, q)" by (cases a)
    let ?s = "foldl (rocmfp4_prepare_elem sigma2)
       \<lparr>mw_dst = [], mw_max_abs = f_zero, mw_max_abs_weight = f_zero, mw_all_finite = True\<rparr> l"
    obtain r where s: "mw_dst ?s = map (rocmfp4_weight sigma2) l" "mw_all_finite ?s"
      and r: "mw_max_abs ?s = FFin False r" "0 \<le> r" "\<forall>(x, q) \<in> set l. \<bar>fval x\<bar> \<le> r"
      "0 < r \<longrightarrow> (\<exists>x q. (x, q) \<in> set l \<and> fabs x = FFin False r \<and> mw_max_abs_weight ?s = rocmfp4_weight sigma2 (x, q))"
      using snoc by auto
    have x: "is_finite x" "fabs x = FFin False \<bar>fval x\<bar>" using snoc.prems fabs_FFin by (simp_all add: a)
    let ?w = "rocmfp4_weight sigma2 (x, q)"
    let ?t = "rocmfp4_prepare_elem sigma2 ?s a"
    have t: "mw_dst ?t = mw_dst ?s @ [?w]" "mw_all_finite ?t"
      using x s by (simp_all add: rocmfp4_prepare_elem_def a Let_def)
    have m: "mw_max_abs ?t = (if r < \<bar>fval x\<bar> then FFin False \<bar>fval x\<bar> else FFin False r)"
      "mw_max_abs_weight ?t = (if r < \<bar>fval x\<bar> \<or> (\<bar>fval x\<bar> = r \<and> fless (mw_max_abs_weight ?s) ?w) then ?w else mw_max_abs_weight ?s)"
      using x r(1) by (auto simp: rocmfp4_prepare_elem_def a Let_def)
    show ?case
    proof (cases "r < \<bar>fval x\<bar>")
      case True
      then have "\<forall>(x, q) \<in> set (l @ [a]). \<bar>fval x\<bar> \<le> \<bar>fval x\<bar>" by auto
      moreover have "\<forall>(y, q) \<in> set (l @ [a]). \<bar>fval y\<bar> \<le> \<bar>fval x\<bar>" using r(3) True a by fastforce
      ultimately show ?thesis using True m t s x by (auto simp: a)
    next
      case False
      have le: "\<forall>(y, q) \<in> set (l @ [a]). \<bar>fval y\<bar> \<le> r" using r(3) False a by auto
      have ex: "\<exists>x q. (x, q) \<in> set (l @ [a]) \<and> fabs x = FFin False r \<and> mw_max_abs_weight ?t = rocmfp4_weight sigma2 (x, q)"
        if pos: "0 < r"
      proof (cases "\<bar>fval x\<bar> = r \<and> fless (mw_max_abs_weight ?s) ?w")
        case True
        then show ?thesis using m(2) x a by (intro exI [of _ x] exI [of _ q]) simp
      next
        case f: False
        have "mw_max_abs_weight ?t = mw_max_abs_weight ?s" by (simp only: m(2) False f simp_thms if_False)
        then show ?thesis using r(4) pos by auto
      qed
      show ?thesis using False m(1) t s le ex r(2) by (auto simp: a)
    qed
  qed
  then show "mw_dst st = map (rocmfp4_weight sigma2) l" "mw_all_finite st"
    "\<exists>r. mw_max_abs st = FFin False r \<and> 0 \<le> r \<and> (\<forall>(x, q) \<in> set l. \<bar>fval x\<bar> \<le> r)
       \<and> (0 < r \<longrightarrow> (\<exists>x q. (x, q) \<in> set l \<and> fabs x = FFin False r \<and> mw_max_abs_weight st = rocmfp4_weight sigma2 (x, q)))"
    by blast+
qed

lemma rocmfp4_weight_ok:
  assumes x: "is_finite x" "is_f32 x" and q: "is_f32 q" and s: "nonneg sigma2"
    and w: "is_finite (rocmfp4_weight sigma2 (x, q))"
  shows "weight_ok (Some (rocmfp4_weight sigma2 (x, q)))"
proof (cases "is_finite q \<and> fless f_zero q")
  case False
  then show ?thesis by (auto simp: rocmfp4_weight_def f_zero_def)
next
  case True
  let ?r = "fsqrt (fadd sigma2 (fmul x x))"
  have r: "nonneg ?r"
    using fsqrt_nonneg nonneg_fadd(1) [OF s square_nonneg [of x]] x by (simp add: is_numI)
  have qpos: "0 < fval q" using True by (cases q) (auto simp: f_zero_def)
  have eq: "rocmfp4_weight sigma2 (x, q) = fmul q ?r" using True by (simp add: rocmfp4_weight_def)
  have fr: "is_finite ?r"
  proof (rule ccontr)
    assume "\<not> is_finite ?r"
    then have "?r = FInf False" using r by (cases ?r) (auto simp: nonneg_def split: if_splits)
    then show False using w eq True qpos by (cases q) (auto split: if_splits)
  qed
  have "is_num (fmul q ?r)" "fkey (fmul q ?r) = rkey (fval q * fval ?r)"
    using fmul_finite [of q ?r] True fr q r by (simp_all add: nonneg_def is_num_def)
  moreover have "rkey 0 \<le> rkey (fval q * fval ?r)"
    by (rule rkey_mono) (use qpos r fr in \<open>simp add: nonneg_def fkey_finite\<close>)
  ultimately show ?thesis using w eq by (simp add: is_num_def fkey_finite)
qed

lemma block_mse_cong:
  assumes "\<forall>(x, w) \<in> set xs. dec x = dec' x"
  shows "block_mse dec s xs b = block_mse dec' s xs b"
proof -
  have "mse_loop (block_term dec s) b err xs = mse_loop (block_term dec' s) b err xs" for err
    using assms by (induction xs arbitrary: err) (auto simp: block_term_def Let_def split: bind_splits)
  then show ?thesis by (simp add: block_mse_def)
qed

lemma choose_unweighted_search:
  "rocmfp4_choose_scale_ue4m3_exhaustive_unweighted xs m True
     = search_scale (fp4_err \<lparr>sb_elems = unweighted xs, sb_max = m, sb_weight = None\<rparr>)
         (fp4_clip \<lparr>sb_elems = unweighted xs, sb_max = m, sb_weight = None\<rparr>)
         (rocmfp4_nearest_scale_ue4m3 (fdiv m (flit 10))) (0, f_flt_max)"
proof -
  have "rocmfp4_block_mse_for_scale_unweighted_finite xs = fp4_err \<lparr>sb_elems = unweighted xs, sb_max = m, sb_weight = None\<rparr>"
    by (intro ext) (simp add: fp4_err_def rocmfp4_block_mse_for_scale_unweighted_finite_def fp4_dec_def [abs_def] Let_def)
  moreover have "rocmfp4_clip_unweighted m = fp4_clip \<lparr>sb_elems = unweighted xs, sb_max = m, sb_weight = None\<rparr>"
    by (intro ext) (simp add: fp4_clip_def)
  ultimately show ?thesis unfolding rocmfp4_choose_scale_ue4m3_exhaustive_unweighted_def by simp
qed

lemma choose_weighted_search:
  "rocmfp4_choose_scale_ue4m3_exhaustive_weighted xs ws m mw True
     = search_scale (fp4_err \<lparr>sb_elems = weighted xs ws, sb_max = m, sb_weight = Some mw\<rparr>)
         (fp4_clip \<lparr>sb_elems = weighted xs ws, sb_max = m, sb_weight = Some mw\<rparr>)
         (rocmfp4_nearest_scale_ue4m3 (fdiv m (flit 10))) (0, f_flt_max)"
proof -
  have "rocmfp4_block_mse_for_scale_weighted_finite xs ws = fp4_err \<lparr>sb_elems = weighted xs ws, sb_max = m, sb_weight = Some mw\<rparr>"
    by (intro ext) (simp add: fp4_err_def rocmfp4_block_mse_for_scale_weighted_finite_def fp4_dec_def [abs_def] Let_def)
  moreover have "rocmfp4_clip_weighted m mw = fp4_clip \<lparr>sb_elems = weighted xs ws, sb_max = m, sb_weight = Some mw\<rparr>"
    by (intro ext) (simp add: fp4_clip_def)
  ultimately show ?thesis unfolding rocmfp4_choose_scale_ue4m3_exhaustive_weighted_def by simp
qed

text \<open>The weights a row of importances gives are usable: they are finite and the elements not huge.\<close>

definition weights_ok :: "float32 list \<Rightarrow> float32 list option \<Rightarrow> float32 \<Rightarrow> bool" where
  "weights_ok xs qw sigma2 = (case qw of None \<Rightarrow> True
     | Some q \<Rightarrow> length q = length xs \<and> length xs \<le> 32 \<and> nonneg sigma2 \<and> (\<forall>w \<in> set q. is_f32 w)
         \<and> (\<forall>x \<in> set xs. \<bar>fval x\<bar> < 2 ^ 127)
         \<and> (\<forall>(x, w) \<in> set (zip xs q). is_finite (rocmfp4_weight sigma2 (x, w))))"

lemma fval_fmax: "is_finite x \<Longrightarrow> is_f32 x \<Longrightarrow> \<bar>fval x\<bar> < fmax"
  by (cases x) auto

lemma choose_scale_unweighted:
  assumes "good_floats xs"
  shows "\<exists>e. rocmfp4_choose_scale_ue4m3 xs None sigma2 = Some e
    \<and> (if \<forall>x \<in> set xs. fval x = 0 then e = 0 else best_scale (rocmfp4_scale_error xs None sigma2) e)"
proof -
  obtain r where r: "rocmfp4_max_abs xs = (FFin False r, True)" "0 \<le> r" "\<forall>x \<in> set xs. \<bar>fval x\<bar> \<le> r"
    "0 < r \<longrightarrow> (\<exists>x \<in> set xs. fabs x = FFin False r)"
    using rocmfp4_max_abs_props [OF assms] by blast
  show ?thesis
  proof (cases "r = 0")
    case True
    then show ?thesis using r by (auto simp: rocmfp4_choose_scale_ue4m3_def f_zero_def)
  next
    case False
    then have pos: "0 < r" using r(2) by simp
    obtain x where x: "x \<in> set xs" "fabs x = FFin False r" using r(4) pos by blast
    have "fval x \<noteq> 0" using x(2) pos by (cases x) auto
    then have nz: "\<not> (\<forall>x \<in> set xs. fval x = 0)" using x by blast
    let ?d = "\<lparr>sb_elems = unweighted xs, sb_max = FFin False r, sb_weight = None\<rparr>"
    have ok: "block_ok fmax ?d"
      using assms x by (auto simp: block_ok_def elem_ok_def unweighted_def good_floats_def intro!: fval_fmax)
    have "rocmfp4_choose_scale_ue4m3 xs None sigma2
        = search_scale (fp4_err ?d) (fp4_clip ?d) (rocmfp4_nearest_scale_ue4m3 (fdiv (FFin False r) (flit 10))) (0, f_flt_max)"
      using r(1) pos by (simp add: rocmfp4_choose_scale_ue4m3_def f_zero_def choose_unweighted_search)
    moreover have "fp4.total ?d = rocmfp4_scale_error xs None sigma2"
      by (intro ext) (simp add: fp4.total_def rocmfp4_scale_error_def rocmfp4_weights_def)
    ultimately show ?thesis using fp4_search [OF ok] rocmfp4_nearest_range nz by metis
  qed
qed

lemma weighted_zip:
  "length q = length xs \<Longrightarrow> weighted xs (map f (zip xs q)) = map (\<lambda>(x, p). (x, Some (f (x, p)))) (zip xs q)"
  unfolding weighted_def by (induction q xs rule: list_induct2) auto

lemma choose_scale_weighted:
  assumes "good_floats xs" "weights_ok xs (Some q) sigma2"
  shows "\<exists>e. rocmfp4_choose_scale_ue4m3 xs (Some q) sigma2 = Some e
    \<and> (if \<forall>x \<in> set xs. fval x = 0 then e = 0 else best_scale (rocmfp4_scale_error xs (Some q) sigma2) e)"
proof -
  let ?l = "zip xs q" and ?w = "rocmfp4_prepare_mse_weights xs q sigma2"
  have len: "length q = length xs" "length xs \<le> 32" using assms(2) by (simp_all add: weights_ok_def)
  have fst: "map fst ?l = xs" using len by simp
  have "good_floats (map fst ?l)" using assms(1) by (simp only: fst)
  from prepare_props [OF this, of sigma2]
  obtain r where dst: "mw_dst ?w = map (rocmfp4_weight sigma2) ?l" "mw_all_finite ?w"
    and r: "mw_max_abs ?w = FFin False r" "0 \<le> r" "\<forall>(x, q) \<in> set ?l. \<bar>fval x\<bar> \<le> r"
    "0 < r \<longrightarrow> (\<exists>x q. (x, q) \<in> set ?l \<and> fabs x = FFin False r \<and> mw_max_abs_weight ?w = rocmfp4_weight sigma2 (x, q))"
    unfolding rocmfp4_prepare_mse_weights_def by blast
  have memb: "x \<in> set xs \<longleftrightarrow> (\<exists>q. (x, q) \<in> set ?l)" for x
  proof -
    have "set xs = fst ` set ?l" using fst by (metis list.set_map)
    then show ?thesis by force
  qed
  have chk: "check (length xs \<le> 32) = Some ()" using len by (simp add: check_def)
  show ?thesis
  proof (cases "r = 0")
    case True
    then have "\<forall>x \<in> set xs. fval x = 0" using r(3) memb by fastforce
    moreover have "rocmfp4_choose_scale_ue4m3 xs (Some q) sigma2 = Some 0"
      using True r(1) chk by (simp add: rocmfp4_choose_scale_ue4m3_def f_zero_def Let_def)
    ultimately show ?thesis by simp
  next
    case False
    then have pos: "0 < r" using r(2) by simp
    obtain x p where x: "(x, p) \<in> set ?l" "fabs x = FFin False r" "mw_max_abs_weight ?w = rocmfp4_weight sigma2 (x, p)"
      using r(4) pos by blast
    have "fval x \<noteq> 0" using x(2) pos by (cases x) auto
    then have nz: "\<not> (\<forall>x \<in> set xs. fval x = 0)" using x(1) memb by blast
    let ?d = "\<lparr>sb_elems = weighted xs (mw_dst ?w), sb_max = FFin False r, sb_weight = Some (mw_max_abs_weight ?w)\<rparr>"
    have elems: "sb_elems ?d = map (\<lambda>(x, p). (x, Some (rocmfp4_weight sigma2 (x, p)))) ?l"
      using weighted_zip [OF len(1)] by (simp add: dst(1))
    have el: "elem_ok fmax (y, Some (rocmfp4_weight sigma2 (y, p')))" if "(y, p') \<in> set ?l" for y p'
    proof -
      have y: "y \<in> set xs" "p' \<in> set q" using that by (auto dest: set_zip_leftD set_zip_rightD)
      have fy: "is_finite y" "is_f32 y" using y assms(1) by (auto simp: good_floats_def)
      have "\<bar>fval y\<bar> < 2 ^ 127" "is_finite (rocmfp4_weight sigma2 (y, p'))" "is_f32 p'" "nonneg sigma2"
        using assms(2) y that by (auto simp: weights_ok_def)
      then show ?thesis using rocmfp4_weight_ok [OF fy] fy fval_fmax by (simp add: elem_ok_def)
    qed
    have ok: "block_ok fmax ?d"
      unfolding block_ok_def elems using el x by (fastforce intro: exI [of _ x])
    have "rocmfp4_choose_scale_ue4m3 xs (Some q) sigma2
        = search_scale (fp4_err ?d) (fp4_clip ?d) (rocmfp4_nearest_scale_ue4m3 (fdiv (FFin False r) (flit 10))) (0, f_flt_max)"
      using r(1) pos dst(2) chk by (simp add: rocmfp4_choose_scale_ue4m3_def f_zero_def Let_def choose_weighted_search)
    moreover have "fp4.total ?d = rocmfp4_scale_error xs (Some q) sigma2"
      by (intro ext) (simp add: fp4.total_def rocmfp4_scale_error_def rocmfp4_weights_def)
    ultimately show ?thesis using fp4_search [OF ok] rocmfp4_nearest_range nz by metis
  qed
qed

text \<open>
  C8: \<open>rocmfp4_choose_scale_ue4m3\<close> always returns for finite elements, with or without usable weights, and
  the pruned search finds the best scale: byte 0 for a block of zeros, and otherwise the least
  of the bytes 1 to 126 with the smallest error as the code computes it (0 when no error is below
  \<open>FLT_MAX\<close>).
\<close>

theorem rocmfp4_choose_scale_optimal:
  assumes "good_floats xs" "weights_ok xs qw sigma2"
  shows "\<exists>e. rocmfp4_choose_scale_ue4m3 xs qw sigma2 = Some e
    \<and> (if \<forall>x \<in> set xs. fval x = 0 then e = 0 else best_scale (rocmfp4_scale_error xs qw sigma2) e)"
proof (cases qw)
  case None
  show ?thesis unfolding None by (rule choose_scale_unweighted [OF assms(1)])
next
  case (Some q)
  show ?thesis unfolding Some by (rule choose_scale_weighted [OF assms(1)]) (use assms(2) Some in simp)
qed

subsection \<open>Quantized rows are valid\<close>

lemma mse_loop_total: "\<forall>x \<in> set xs. \<exists>t. term x = Some t \<Longrightarrow> \<exists>r. mse_loop term b err xs = Some r"
  by (induction xs arbitrary: err) (auto simp: Let_def)

lemma block_mse_total: "\<forall>x. \<exists>v. dec x = Some v \<Longrightarrow> \<exists>r. block_mse dec s xs b = Some r"
  unfolding block_mse_def
proof (rule mse_loop_total, rule ballI)
  fix a :: "float32 \<times> float32 option" assume dec: "\<forall>x. \<exists>v. dec x = Some v"
  obtain x w where "a = (x, w)" by (cases a)
  moreover obtain v where "dec x = Some v" using dec by blast
  ultimately show "\<exists>t. block_term dec s a = Some t" by (simp add: block_term_def Let_def)
qed

lemma rocmfp4_choose_total:
  assumes "qw \<noteq> None \<longrightarrow> length xs \<le> 32"
  shows "\<exists>e \<le> 126. rocmfp4_choose_scale_ue4m3 xs qw sigma2 = Some e"
proof -
  have run: "\<exists>e \<le> 126. search_scale err clip (rocmfp4_nearest_scale_ue4m3 t) (0, b0) = Some e"
    if "\<And>e b. \<exists>r. err e b = Some r" for err clip t b0
    using search_scale_range [of err "rocmfp4_nearest_scale_ue4m3 t" clip 0 b0] that rocmfp4_nearest_range [of t] by fastforce
  have u: "\<exists>e \<le> 126. rocmfp4_choose_scale_ue4m3_exhaustive_unweighted xs m f = Some e" for m f
    unfolding rocmfp4_choose_scale_ue4m3_exhaustive_unweighted_def
    by (rule run) (auto simp: rocmfp4_block_mse_for_scale_unweighted_def rocmfp4_block_mse_for_scale_unweighted_finite_def
        Let_def intro: block_mse_total)
  have w: "\<exists>e \<le> 126. rocmfp4_choose_scale_ue4m3_exhaustive_weighted xs ws m mw f = Some e" for ws m mw f
    unfolding rocmfp4_choose_scale_ue4m3_exhaustive_weighted_def
    by (rule run) (auto simp: rocmfp4_block_mse_for_scale_weighted_def rocmfp4_block_mse_for_scale_weighted_finite_def
        Let_def intro: block_mse_total)
  show ?thesis
  proof (cases qw)
    case None
    then show ?thesis using u by (auto simp: rocmfp4_choose_scale_ue4m3_def split: prod.splits)
  next
    case (Some q)
    then have "check (length xs \<le> 32) = Some ()" using assms by (simp add: check_def)
    then show ?thesis using w Some by (auto simp: rocmfp4_choose_scale_ue4m3_def Let_def)
  qed
qed

definition fp4_valid :: "block_rocmfp4 \<Rightarrow> bool" where
  "fp4_valid b \<longleftrightarrow> length (b4_qs b) = 16 \<and> length (b4_e b) = 2 \<and> (\<forall>e \<in> set (b4_e b). unat e \<le> 126)"

definition fp4_valid_fast :: "block_rocmfp4_fast \<Rightarrow> bool" where
  "fp4_valid_fast b \<longleftrightarrow> length (f4_qs b) = 16 \<and> unat (f4_e b) \<le> 126"

lemma byte_of_nat: "e \<le> 126 \<Longrightarrow> unat (of_nat e :: byte) = e"
  by (simp add: unsigned_of_nat take_bit_nat_eq_self)

lemma rocmfp4_codes_length [simp]: "length (rocmfp4_codes xb i0 i1) = 16"
  by (simp add: rocmfp4_codes_def)

lemma quantize_block_total:
  assumes "length xb = 32"
  shows "\<exists>b. rocmfp4_quantize_block xb qw sigma2 = Some b \<and> fp4_valid b"
    and "\<exists>b. rocmfp4_quantize_block_fast xb qw sigma2 = Some b \<and> fp4_valid_fast b"
proof -
  obtain e0 e1 where e: "e0 \<le> 126" "rocmfp4_choose_scale_ue4m3 (take 16 xb) (map_option (take 16) qw) sigma2 = Some e0"
    "e1 \<le> 126" "rocmfp4_choose_scale_ue4m3 (drop 16 xb) (map_option (drop 16) qw) sigma2 = Some e1"
    using rocmfp4_choose_total [of "map_option (take 16) qw" "take 16 xb" sigma2]
      rocmfp4_choose_total [of "map_option (drop 16) qw" "drop 16 xb" sigma2] assms by auto
  then show "\<exists>b. rocmfp4_quantize_block xb qw sigma2 = Some b \<and> fp4_valid b"
    by (simp add: rocmfp4_quantize_block_def Let_def fp4_valid_def byte_of_nat)
  obtain e where "e \<le> 126" "rocmfp4_choose_scale_ue4m3 xb qw sigma2 = Some e"
    using rocmfp4_choose_total [of qw xb sigma2] assms by auto
  then show "\<exists>b. rocmfp4_quantize_block_fast xb qw sigma2 = Some b \<and> fp4_valid_fast b"
    by (simp add: rocmfp4_quantize_block_fast_def Let_def fp4_valid_fast_def byte_of_nat)
qed

lemma those_map_total:
  assumes "\<And>x. x \<in> set xs \<Longrightarrow> \<exists>y. f x = Some y \<and> P x y"
  shows "\<exists>ys. those (map f xs) = Some ys \<and> list_all2 P xs ys"
  using assms
proof (induction xs)
  case Nil
  show ?case by simp
next
  case (Cons x xs)
  then obtain y ys where "f x = Some y" "P x y" "those (map f xs) = Some ys" "list_all2 P xs ys" by fastforce
  then show ?case by simp
qed

lemma those_map_all:
  "(\<And>x. x \<in> set xs \<Longrightarrow> \<exists>y. f x = Some y \<and> P y)
    \<Longrightarrow> \<exists>ys. those (map f xs) = Some ys \<and> length ys = length xs \<and> (\<forall>y \<in> set ys. P y)"
proof (induction xs)
  case Nil
  show ?case by simp
next
  case (Cons x xs)
  then obtain y ys where "f x = Some y" "P y" "those (map f xs) = Some ys" "length ys = length xs" "\<forall>y \<in> set ys. P y" by fastforce
  then show ?case by simp
qed

lemma row_blocks_length: "length xs mod 32 = 0 \<Longrightarrow> xb \<in> set (row_blocks xs) \<Longrightarrow> length xb = 32"
  by (auto simp: row_blocks_def)

lemma take_slice_length: "length xs mod 32 = 0 \<Longrightarrow> ib < length xs div 32 \<Longrightarrow> length (take 32 (drop (ib * 32) xs)) = 32"
  by auto

text \<open>The bytes of valid blocks pass the validation.\<close>

lemma validate_blocks:
  assumes "\<forall>b \<in> set bs. fp4_valid b"
  shows "rocmfp4_validate_row_data (concat (map block_rocmfp4_bytes bs))
    \<and> length (concat (map block_rocmfp4_bytes bs)) = 18 * length bs"
proof -
  let ?rows = "map block_rocmfp4_bytes bs"
  have rows: "\<forall>r \<in> set ?rows. length r = 18" using assms by (auto simp: fp4_valid_def block_rocmfp4_bytes_def)
  have len: "length (concat ?rows) = length bs * 18" using length_concat_rows [OF rows] by simp
  have "unat (concat ?rows ! (18 * i + 16)) \<le> 126 \<and> unat (concat ?rows ! (18 * i + 17)) \<le> 126" if i: "i < length bs" for i
  proof -
    have v: "fp4_valid (bs ! i)" using assms i by simp
    have "concat ?rows ! (i * 18 + j) = block_rocmfp4_bytes (bs ! i) ! j" if "j < 18" for j
      using nth_concat_rows [OF rows, of i j] i that by simp
    from this [of 16] this [of 17] show ?thesis
      using v by (auto simp: block_rocmfp4_bytes_def nth_append fp4_valid_def mult.commute)
  qed
  then show ?thesis using len by (simp add: rocmfp4_validate_row_data_def rocmfp4_scale_is_valid_def)
qed

lemma validate_blocks_fast:
  assumes "\<forall>b \<in> set bs. fp4_valid_fast b"
  shows "rocmfp4_validate_row_data_fast (concat (map block_rocmfp4_fast_bytes bs))
    \<and> length (concat (map block_rocmfp4_fast_bytes bs)) = 17 * length bs"
proof -
  let ?rows = "map block_rocmfp4_fast_bytes bs"
  have rows: "\<forall>r \<in> set ?rows. length r = 17" using assms by (auto simp: fp4_valid_fast_def block_rocmfp4_fast_bytes_def)
  have len: "length (concat ?rows) = length bs * 17" using length_concat_rows [OF rows] by simp
  have "unat (concat ?rows ! (17 * i + 16)) \<le> 126" if i: "i < length bs" for i
  proof -
    have v: "fp4_valid_fast (bs ! i)" using assms i by simp
    have "concat ?rows ! (i * 17 + 16) = block_rocmfp4_fast_bytes (bs ! i) ! 16"
      using nth_concat_rows [OF rows, of i 16] i by simp
    then show ?thesis
      using v by (auto simp: block_rocmfp4_fast_bytes_def nth_append fp4_valid_fast_def mult.commute)
  qed
  then show ?thesis using len by (simp add: rocmfp4_validate_row_data_fast_def rocmfp4_scale_is_valid_def)
qed

lemma quantize_row_total:
  assumes "length x mod 32 = 0"
  shows "\<exists>bs. rocmfp4_quantize_row_q4_0_weighted x qw = Some bs \<and> length bs = length x div 32 \<and> (\<forall>b \<in> set bs. fp4_valid b)"
    and "\<exists>bs. rocmfp4_quantize_row_q4_0_ref x = Some bs \<and> length bs = length x div 32 \<and> (\<forall>b \<in> set bs. fp4_valid b)"
    and "\<exists>bs. rocmfp4_quantize_row_q4_0_fast_weighted x qw = Some bs \<and> length bs = length x div 32 \<and> (\<forall>b \<in> set bs. fp4_valid_fast b)"
    and "\<exists>bs. rocmfp4_quantize_row_q4_0_fast_ref x = Some bs \<and> length bs = length x div 32 \<and> (\<forall>b \<in> set bs. fp4_valid_fast b)"
proof -
  have chk: "check (length x mod 32 = 0) = Some ()" using assms by (simp add: check_def)
  have slice: "length (take 32 (drop (ib * 32) x)) = 32" if "ib \<in> set [0..<length x div 32]" for ib
    using take_slice_length [OF assms, of ib] that by simp
  show "\<exists>bs. rocmfp4_quantize_row_q4_0_weighted x qw = Some bs \<and> length bs = length x div 32 \<and> (\<forall>b \<in> set bs. fp4_valid b)"
    using those_map_all [of "[0..<length x div 32]", OF quantize_block_total(1) [OF slice]] chk
    by (simp add: rocmfp4_quantize_row_q4_0_weighted_def Let_def)
  show "\<exists>bs. rocmfp4_quantize_row_q4_0_fast_weighted x qw = Some bs \<and> length bs = length x div 32 \<and> (\<forall>b \<in> set bs. fp4_valid_fast b)"
    using those_map_all [of "[0..<length x div 32]", OF quantize_block_total(2) [OF slice]] chk
    by (simp add: rocmfp4_quantize_row_q4_0_fast_weighted_def Let_def)
  have len: "length (row_blocks x) = length x div 32" by (simp add: row_blocks_def)
  show "\<exists>bs. rocmfp4_quantize_row_q4_0_ref x = Some bs \<and> length bs = length x div 32 \<and> (\<forall>b \<in> set bs. fp4_valid b)"
    using those_map_all [of "row_blocks x", OF quantize_block_total(1) [OF row_blocks_length [OF assms]]] chk len
    by (simp add: rocmfp4_quantize_row_q4_0_ref_def)
  show "\<exists>bs. rocmfp4_quantize_row_q4_0_fast_ref x = Some bs \<and> length bs = length x div 32 \<and> (\<forall>b \<in> set bs. fp4_valid_fast b)"
    using those_map_all [of "row_blocks x", OF quantize_block_total(2) [OF row_blocks_length [OF assms]]] chk len
    by (simp add: rocmfp4_quantize_row_q4_0_fast_ref_def)
qed

subsection \<open>Quantizing dequantized values loses nothing\<close>

lemma scale_val_dyadic: "e \<le> 126 \<Longrightarrow> \<exists>n \<le> 245760. scale_val e = of_nat n / 2 ^ 10"
proof -
  assume e: "e \<le> 126"
  obtain n where n: "scale_val e = of_nat n / 2 ^ 10"
  proof (cases "e < 8")
    case True
    then show thesis using that [of e] by (simp add: scale_val_def)
  next
    case False
    then obtain k where k: "e div 8 = Suc k" by (cases "e div 8") auto
    show thesis using that [of "(8 + e mod 8) * 2 ^ k"] False by (simp add: scale_val_def k)
  qed
  have "scale_val e \<le> 240" using scale_val_mono [of e 126] e by (simp add: scale_val_def)
  then have "of_nat n \<le> (of_nat 245760 :: rat)" by (simp add: n)
  then have "n \<le> 245760" by (simp only: of_nat_le_iff)
  then show ?thesis using n by blast
qed

lemma dyadic_exact:
  assumes "\<bar>i\<bar> \<le> 2 ^ 23"
  shows "representable \<bar>of_int i / 2 ^ 10\<bar>" "\<bar>of_int i / 2 ^ 10\<bar> < fmax" "rkey (of_int i / 2 ^ 10) = of_int i / 2 ^ 10"
proof -
  have eq: "\<bar>of_int i / 2 ^ 10\<bar> = (of_nat (nat \<bar>i\<bar>) * 2 ^ 139 / 2 ^ 149 :: rat)" by (simp add: abs_divide)
  have "nat \<bar>i\<bar> \<le> 2 ^ 24" using assms by (simp add: nat_le_iff)
  then show rep: "representable \<bar>of_int i / 2 ^ 10\<bar>" unfolding eq by (rule representableI)
  have "\<bar>of_int i\<bar> \<le> (of_int (2 ^ 23) :: rat)" using assms unfolding of_int_abs [symmetric] of_int_le_iff .
  then show lt: "\<bar>of_int i / 2 ^ 10\<bar> < fmax" by (simp add: fmax_def abs_divide)
  show "rkey (of_int i / 2 ^ 10) = of_int i / 2 ^ 10" by (rule rkey_exact [OF rep lt])
qed

lemma code_product:
  assumes "\<bar>v\<bar> \<le> 10" "e \<le> 126"
  shows "\<exists>i. \<bar>i\<bar> \<le> 2 ^ 22 \<and> of_int v * scale_val e = of_int i / 2 ^ 10"
proof -
  obtain n where n: "n \<le> 245760" "scale_val e = of_nat n / 2 ^ 10" using scale_val_dyadic [OF assms(2)] by blast
  have "\<bar>v * int n\<bar> \<le> 10 * 245760" unfolding abs_mult by (rule mult_mono) (use assms n in simp_all)
  then show ?thesis by (intro exI [of _ "v * int n"]) (simp add: n)
qed

text \<open>The product of a code and a scale is exact.\<close>

lemma dequantize_value:
  assumes v: "\<bar>v\<bar> \<le> 10" and e: "e \<le> 126"
  shows "fmul (f_of_int v) (rocmfp4_ue4m3_to_fp32_half e) = FFin (v < 0) (\<bar>of_int v\<bar> * scale_val e)"
proof -
  obtain i where i: "\<bar>i\<bar> \<le> 2 ^ 22" "of_int v * scale_val e = of_int i / 2 ^ 10" using code_product [OF assms] by blast
  have s: "0 \<le> scale_val e" using scale_val_mono [of 0 e] e by (simp add: scale_val_def)
  have eq: "\<bar>of_int v\<bar> * scale_val e = \<bar>of_int i / 2 ^ 10\<bar>" using s unfolding i(2) [symmetric] by (simp add: abs_mult)
  have "f_of_int v = FFin (v < 0) \<bar>of_int v\<bar>" using f_of_int_key [of v] v by simp
  then show ?thesis
    using dyadic_exact(1,2) [of i] i(1) by (simp add: half_table e ue4m3_table_nth fl_exact eq)
qed

lemma rkey_error:
  assumes "\<bar>q\<bar> \<le> 2 ^ 100"
  shows "\<bar>rkey q - q\<bar> \<le> \<bar>q\<bar> / 2 ^ 24 + 1 / 2 ^ 150"
proof -
  have r: "\<bar>rnd \<bar>q\<bar> - \<bar>q\<bar>\<bar> \<le> \<bar>q\<bar> / 2 ^ 24 + 1 / 2 ^ 150" by (rule rnd_error) simp
  have "rnd \<bar>q\<bar> \<le> \<bar>q\<bar> + (\<bar>q\<bar> / 2 ^ 24 + 1 / 2 ^ 150)" using r by linarith
  also have "\<dots> \<le> 2 ^ 100 + (2 ^ 100 / 2 ^ 24 + 1 / 2 ^ 150)" using assms by (intro add_mono divide_right_mono) simp_all
  also have "\<dots> \<le> fmax" by (simp add: fmax_def)
  finally have le: "rnd \<bar>q\<bar> \<le> fmax" .
  show ?thesis
  proof (cases "q < 0")
    case True
    then have "rkey q = - rnd \<bar>q\<bar>" using le by (simp add: rkey_def min_def)
    then show ?thesis using r True by (simp add: abs_if split: if_splits)
  next
    case False
    then have "rkey q = rnd \<bar>q\<bar>" using le by (simp add: rkey_def min_def)
    then show ?thesis using r False by simp
  qed
qed

text \<open>The scaled value of a multiple \<open>v\<close> of the scale is close to \<open>v\<close>, so its code is that of \<open>v\<close>.\<close>

lemma inverse_close:
  assumes v: "\<bar>v\<bar> \<le> 10" and e: "1 \<le> e" "e \<le> 126" and x: "x = FFin (v < 0) (\<bar>of_int v\<bar> * scale_val e)"
  defines "i \<equiv> fdiv f_one (rocmfp4_ue4m3_to_fp32_half e)"
  shows "is_finite i" "is_f32 i" "0 \<le> fval i" "\<bar>fkey (fmul x i) - of_int v\<bar> < 1 / 4"
proof -
  let ?s = "scale_val e"
  have s: "0 < ?s" "1 / 2 ^ 10 \<le> ?s" "?s \<le> 240" using scale_pos [OF e] scale_le [OF e] scale_val_bounds [OF e] by blast+
  have inv_le: "1 / ?s \<le> 2 ^ 10" using s by (simp add: field_simps)
  have rep: "representable (2 ^ 10)" using representable_dyadic [of 1 10] by simp
  have r: "rnd (1 / ?s) \<le> 2 ^ 10" by (rule rnd_le) (use s inv_le rep in simp_all)
  have iv: "i = FFin False (rnd (1 / ?s))"
    using s r e by (simp add: i_def f_one_def half_table ue4m3_table_nth fl_def fmax_def)
  have "rnd (1 / ?s) < fmax" using r by (simp add: fmax_def)
  then show i: "is_finite i" "is_f32 i" "0 \<le> fval i" using s by (simp_all add: iv rnd_nonneg representable_rnd)
  have fx: "is_finite x" "is_f32 x" "fval x = of_int v * ?s"
  proof -
    have "\<bar>of_int v\<bar> * ?s < fmax \<and> representable (\<bar>of_int v\<bar> * ?s)"
    proof -
      obtain k where k: "\<bar>k\<bar> \<le> 2 ^ 22" "of_int v * ?s = of_int k / 2 ^ 10" using code_product [OF v e(2)] by blast
      have "\<bar>of_int v\<bar> * ?s = \<bar>of_int k / 2 ^ 10\<bar>" using s unfolding k(2) [symmetric] by (simp add: abs_mult)
      moreover have "\<bar>k\<bar> \<le> 2 ^ 23" using k(1) by simp
      ultimately show ?thesis using dyadic_exact(1,2) [of k] by metis
    qed
    then show "is_finite x" "is_f32 x" "fval x = of_int v * ?s" using s by (auto simp: x)
  qed
  let ?t = "rnd (1 / ?s)"
  have v10: "\<bar>of_int v\<bar> \<le> (10 :: rat)"
  proof -
    have "of_int \<bar>v\<bar> \<le> (of_int 10 :: rat)" using v by (simp only: of_int_le_iff)
    then show ?thesis by simp
  qed
  have t: "\<bar>?t - 1 / ?s\<bar> \<le> (1 / ?s) / 2 ^ 24 + 1 / 2 ^ 150" by (rule rnd_error) (use s in simp)
  have "\<bar>of_int v * ?s * ?t - of_int v\<bar> = \<bar>of_int v\<bar> * (?s * \<bar>?t - 1 / ?s\<bar>)"
  proof -
    have "of_int v * ?s * ?t - of_int v = of_int v * (?s * (?t - 1 / ?s))" using s by (simp add: field_simps)
    then show ?thesis using s by (simp add: abs_mult)
  qed
  also have "\<dots> \<le> 10 * (?s * ((1 / ?s) / 2 ^ 24 + 1 / 2 ^ 150))"
    by (intro mult_mono mult_left_mono t v10) (use s in simp_all)
  also have "\<dots> = 10 / 2 ^ 24 + 10 * ?s / 2 ^ 150" using s by (simp add: field_simps)
  also have "\<dots> \<le> 1 / 2 ^ 20" using s by (simp add: field_simps)
  finally have q0: "\<bar>of_int v * ?s * ?t - of_int v\<bar> \<le> 1 / 2 ^ 20" .
  have "\<bar>of_int v * ?s * ?t - of_int v\<bar> \<le> 1" by (rule order_trans [OF q0]) simp
  then have "\<bar>of_int v * ?s * ?t\<bar> \<le> 11" using v10 by linarith
  then have "\<bar>rkey (of_int v * ?s * ?t) - of_int v * ?s * ?t\<bar> \<le> 11 / 2 ^ 24 + 1 / 2 ^ 150"
    using rkey_error [of "of_int v * ?s * ?t"] by simp
  then have a: "\<bar>rkey (of_int v * ?s * ?t) - of_int v * ?s * ?t\<bar> \<le> 1 / 16" by (rule order_trans) simp
  have b: "\<bar>of_int v * ?s * ?t - of_int v\<bar> \<le> 1 / 16" by (rule order_trans [OF q0]) simp
  have "fkey (fmul x i) = rkey (of_int v * ?s * ?t)"
    using fmul_finite(2) [OF fx(1) i(1) fx(2) i(2)] fx(3) by (simp add: iv)
  then show "\<bar>fkey (fmul x i) - of_int v\<bar> < 1 / 4" using a b by linarith
qed

lemma nearest_code_close:
  assumes "nearest_code codes q u" "v \<in> set codes" "\<bar>q - of_int v\<bar> < 1 / 4"
  shows "u = v"
proof -
  have "\<bar>q - of_int u\<bar> \<le> \<bar>q - of_int v\<bar>" 
  proof -
    have "\<bar>q - of_int u\<bar> < \<bar>q - of_int v\<bar> \<or> (\<bar>q - of_int u\<bar> = \<bar>q - of_int v\<bar> \<and> \<bar>u\<bar> \<le> \<bar>v\<bar>)"
      using assms(1,2) unfolding nearest_code_def by blast
    then show ?thesis by linarith
  qed
  then have "\<bar>of_int (u - v)\<bar> < (1 :: rat)" using assms(3) unfolding of_int_diff by linarith
  then have "\<bar>u - v\<bar> < 1" unfolding of_int_abs [symmetric] by simp
  then show ?thesis by simp
qed

lemma codebook_bound: "v \<in> set rocmfp4_codebook \<Longrightarrow> \<bar>v\<bar> \<le> 10"
  by (auto simp: rocmfp4_codebook_def)

text \<open>The values a scale byte can represent.\<close>

definition fp4_values :: "nat \<Rightarrow> float32 set" where
  "fp4_values e = {FFin (v < 0) (\<bar>of_int v\<bar> * scale_val e) | v. v \<in> set rocmfp4_codebook}"

lemma fp4_valuesE:
  assumes "x \<in> fp4_values e" "e \<le> 126"
  obtains v k where "v \<in> set rocmfp4_codebook" "x = FFin (v < 0) (\<bar>of_int v\<bar> * scale_val e)" "is_finite x" "is_f32 x"
    "fval x = of_int v * scale_val e" "\<bar>k\<bar> \<le> 2 ^ 22" "fval x = of_int k / 2 ^ 10"
proof -
  obtain v where v: "v \<in> set rocmfp4_codebook" "x = FFin (v < 0) (\<bar>of_int v\<bar> * scale_val e)"
    using assms(1) by (auto simp: fp4_values_def)
  obtain k where k: "\<bar>k\<bar> \<le> 2 ^ 22" "of_int v * scale_val e = of_int k / 2 ^ 10"
    using code_product [OF codebook_bound [OF v(1)] assms(2)] by blast
  have s: "0 \<le> scale_val e" using scale_val_mono [of 0 e] assms(2) by (simp add: scale_val_def)
  have eq: "\<bar>of_int v\<bar> * scale_val e = \<bar>of_int k / 2 ^ 10\<bar>" using s unfolding k(2) [symmetric] by (simp add: abs_mult)
  have "\<bar>k\<bar> \<le> 2 ^ 23" using k(1) by simp
  then have "is_f32 x" "is_finite x" using dyadic_exact(1,2) [of k] s by (simp_all add: v(2) eq)
  moreover have "fval x = of_int v * scale_val e" using s by (auto simp: v(2) split: if_splits)
  ultimately show thesis using that v k by metis
qed

lemma decoded_at_scale:
  assumes x: "x \<in> fp4_values e" and e: "1 \<le> e" "e \<le> 126"
  shows "fval (rocmfp4_decoded_mag_scaled_finite x (fdiv f_one (rocmfp4_ue4m3_to_fp32_half e))) * scale_val e = fval x"
proof -
  obtain v k where v: "v \<in> set rocmfp4_codebook" "x = FFin (v < 0) (\<bar>of_int v\<bar> * scale_val e)" "is_finite x" "is_f32 x"
    "fval x = of_int v * scale_val e"
    using fp4_valuesE [OF x e(2)] by metis
  note close = inverse_close [OF codebook_bound [OF v(1)] e v(2)]
  let ?i = "fdiv f_one (rocmfp4_ue4m3_to_fp32_half e)"
  have "rocmfp4_decode (rocmfp4_best_index_scaled x ?i) = v"
    by (rule nearest_code_close [OF best_index_nearest [OF v(3,4) close(1,2,3)] v(1) close(4)])
  then have "fval (rocmfp4_decoded_mag_scaled_finite x ?i) = of_int v"
    using decoded_mag_decode [of x ?i] v(3) by (simp add: rocmfp4_best_index_scaled_def)
  then show ?thesis using v(5) by simp
qed

text \<open>The term of an element vanishes exactly when the scale represents it.\<close>

lemma fp4_term_zero:
  assumes x: "x \<in> fp4_values e0" "e0 \<le> 126" and e: "1 \<le> e" "e \<le> 126"
  shows "fkey (the (block_term (fp4_dec e) (ue4m3_table ! e) (x, None))) = 0
    \<longleftrightarrow> fval (rocmfp4_decoded_mag_scaled_finite x (fdiv f_one (rocmfp4_ue4m3_to_fp32_half e))) * scale_val e = fval x"
proof -
  obtain v k where k: "is_finite x" "is_f32 x" "\<bar>k\<bar> \<le> 2 ^ 22" "fval x = of_int k / 2 ^ 10"
    using fp4_valuesE [OF x] by metis
  let ?i = "fdiv f_one (rocmfp4_ue4m3_to_fp32_half e)"
  let ?m = "rocmfp4_decoded_mag_scaled_finite x ?i" and ?u = "rocmfp4_decode (rocmfp4_best_index_scaled_finite x ?i)"
  have m: "fval ?m = of_int ?u" by (rule decoded_mag_decode)
  have u10: "\<bar>?u\<bar> \<le> 10"
  proof -
    have "\<bar>of_int ?u\<bar> \<le> (of_int 10 :: rat)" using decoded_mag_range(3) [of x ?i] unfolding m by simp
    then show ?thesis unfolding of_int_abs [symmetric] of_int_le_iff .
  qed
  obtain j where j: "\<bar>j\<bar> \<le> 2 ^ 22" "of_int ?u * scale_val e = of_int j / 2 ^ 10" using code_product [OF u10 e(2)] by blast
  have j23: "\<bar>j\<bar> \<le> 2 ^ 23" "\<bar>k - j\<bar> \<le> 2 ^ 23" using j(1) k(3) by simp_all
  have el: "elem_ok fmax (x, None)" using k fval_fmax by (simp add: elem_ok_def)
  obtain w d where d: "fp4_dec e x = Some w" "is_num d"
    "block_term (fp4_dec e) (ue4m3_table ! e) (x, None) = Some (err_term None d)"
    "fkey d = rkey (fval x - rkey (fval w * scale_val e))"
    using fp4.elem_term [OF el e] by metis
  have w: "fval w * scale_val e = of_int j / 2 ^ 10" using d(1) j(2) m by (simp add: fp4_dec_def)
  have kd: "fkey d = of_int (k - j) / 2 ^ 10"
  proof -
    have eq: "of_int k / 2 ^ 10 - of_int j / 2 ^ 10 = (of_int (k - j) / 2 ^ 10 :: rat)" by (simp add: diff_divide_distrib)
    show ?thesis unfolding d(4) w dyadic_exact(3) [OF j23(1)] k(4) eq dyadic_exact(3) [OF j23(2)] ..
  qed
  have fd: "is_finite d"
    by (rule finite_key [OF d(2)]) (use dyadic_exact(2) [OF j23(2)] kd in simp)
  have sq: "fkey (fmul d d) = rkey ((of_int (k - j) / 2 ^ 10) * (of_int (k - j) / 2 ^ 10))"
  proof -
    have fv: "fval d = of_int (k - j) / 2 ^ 10" using kd unfolding fkey_finite [OF fd] .
    have f32: "is_f32 d" using d(2) by (simp add: is_num_def)
    show ?thesis unfolding fmul_finite(2) [OF fd fd f32 f32] fv ..
  qed
  have "fkey (fmul d d) = 0 \<longleftrightarrow> k = j"
  proof (cases "k = j")
    case False
    let ?q = "(of_int (k - j) / 2 ^ 10) * (of_int (k - j) / 2 ^ 10) :: rat"
    have "1 \<le> (k - j) * (k - j)" using False by (metis linorder_not_less mult_eq_0_iff not_square_less_zero order_le_less zless_imp_add1_zle add_0 right_minus_eq)
    then have "(of_int 1 :: rat) \<le> of_int ((k - j) * (k - j))" by (simp only: of_int_le_iff)
    then have ge: "1 / 2 ^ 20 \<le> ?q" by simp
    have "representable (1 / 2 ^ 20)" using representableI [of 1 129] by simp
    then have "rkey (1 / 2 ^ 20) = 1 / 2 ^ 20" by (intro rkey_exact) (simp_all add: fmax_def)
    then have "0 < fkey (fmul d d)" using rkey_mono [OF ge] unfolding sq by simp
    then show ?thesis using False by simp
  qed (simp add: sq)
  moreover have "fval ?m * scale_val e = fval x \<longleftrightarrow> k = j" using m j(2) k(4) by auto
  ultimately show ?thesis unfolding d(3) by simp
qed

lemma block_err_zero:
  assumes "\<forall>x \<in> set xs. \<exists>t. block_term dec s x = Some t \<and> nonneg t \<and> fkey t = 0"
  shows "fkey (block_err dec s xs) = 0"
proof -
  have "nonneg err \<Longrightarrow> fkey (foldl (\<lambda>err x. fadd err (the (block_term dec s x))) err xs) = fkey err" for err
    using assms
  proof (induction xs arbitrary: err)
    case Nil
    then show ?case by simp
  next
    case (Cons x xs)
    obtain t where t: "block_term dec s x = Some t" "nonneg t" "fkey t = 0" using Cons.prems by auto
    have sum: "nonneg (fadd err t)" using t Cons.prems by (simp add: nonneg_fadd)
    have "fkey (fadd err t) = fkey err"
    proof (cases "is_finite err")
      case True
      have ft: "is_finite t" using t by (intro finite_key) (simp_all add: nonneg_def)
      have "fkey (fadd err t) = rkey (fval err + fval t)" by (rule fadd_finite(2) [OF True ft])
      also have "\<dots> = rkey (fval err)" using t(3) ft by (simp add: fkey_finite)
      also have "\<dots> = fval err" using Cons.prems(1) True by (intro rkey_num) (simp_all add: nonneg_def is_num_def)
      finally show ?thesis using True by (simp add: fkey_finite)
    next
      case False
      then have "err = FInf False" using Cons.prems(1) by (cases err) (auto simp: nonneg_def split: if_splits)
      then show ?thesis using t by (cases t) (auto simp: nonneg_def split: if_splits)
    qed
    then show ?case using Cons.IH [OF sum] Cons.prems(2) t by simp
  qed
  from this [of f_zero] show ?thesis by (simp add: block_err_def)
qed

lemma unweighted_ok:
  assumes "good_floats xs" "x \<in> set xs"
  shows "block_ok fmax \<lparr>sb_elems = unweighted xs, sb_max = fabs x, sb_weight = None\<rparr>"
  using assms by (auto simp: block_ok_def elem_ok_def unweighted_def good_floats_def intro!: fval_fmax)

lemma fp4_values_good: "\<forall>x \<in> set xs. x \<in> fp4_values e \<Longrightarrow> e \<le> 126 \<Longrightarrow> good_floats xs"
  unfolding good_floats_def by (metis fp4_valuesE)

lemma best_scale_zero:
  assumes "best_scale E e'" "e \<in> {1..126}" "fkey (E e) = 0"
  shows "1 \<le> e' \<and> e' \<le> 126 \<and> fkey (E e') \<le> 0"
proof (cases "e' = 0")
  case True
  then have "fkey f_flt_max \<le> fkey (E e)" using assms(1,2) unfolding best_scale_def by (simp only: if_True)
  then show ?thesis using assms(3) by (simp add: f_flt_max_def)
next
  case False
  then have b: "e' \<le> 126 \<and> fkey (E e') < fkey f_flt_max
      \<and> (\<forall>a \<in> {1..126}. fkey (E e') < fkey (E a) \<or> (fkey (E e') = fkey (E a) \<and> e' \<le> a))"
    using assms(1) by (simp add: best_scale_def)
  then show ?thesis using False bspec [OF b [THEN conjunct2, THEN conjunct2] assms(2)] assms(3) by auto
qed

text \<open>The scale chosen for values that some scale represents represents them.\<close>

lemma chosen_scale_exact:
  assumes xs: "\<forall>x \<in> set xs. x \<in> fp4_values e" "e \<le> 126"
    and c: "rocmfp4_choose_scale_ue4m3 xs None sigma2 = Some e'"
  defines "i \<equiv> inv_scale_of (rocmfp4_ue4m3_to_fp32_half e')"
  shows "e' \<le> 126" "\<forall>x \<in> set xs. of_int (rocmfp4_decode (rocmfp4_best_index_scaled x i)) * scale_val e' = fval x"
proof -
  have good: "good_floats xs" by (rule fp4_values_good [OF xs])
  have opt: "if \<forall>x \<in> set xs. fval x = 0 then e' = 0 else best_scale (rocmfp4_scale_error xs None sigma2) e'"
    using choose_scale_unweighted [OF good, of sigma2] c by auto
  show "e' \<le> 126" using rocmfp4_choose_total [of None xs sigma2] c by auto
  show "\<forall>x \<in> set xs. of_int (rocmfp4_decode (rocmfp4_best_index_scaled x i)) * scale_val e' = fval x"
  proof (cases "\<forall>x \<in> set xs. fval x = 0")
    case True
    then show ?thesis using opt by (simp add: scale_val_def)
  next
    case False
    then obtain x0 where x0: "x0 \<in> set xs" "fval x0 \<noteq> 0" by blast
    have "e \<noteq> 0"
    proof
      assume "e = 0"
      moreover obtain v where "fval x0 = of_int v * scale_val e" using fp4_valuesE xs x0(1) by metis
      ultimately show False using x0(2) by (simp add: scale_val_def)
    qed
    then have e1: "1 \<le> e" by simp
    let ?d = "\<lparr>sb_elems = unweighted xs, sb_max = fabs x0, sb_weight = None\<rparr>"
    have ok: "block_ok fmax ?d" by (rule unweighted_ok [OF good x0(1)])
    have terms: "\<exists>t. block_term (fp4_dec a) (ue4m3_table ! a) (x, None) = Some t \<and> nonneg t"
      if "x \<in> set xs" "1 \<le> a" "a \<le> 126" for x a
      using fp4.terms_nonneg [OF ok that(2,3)] that(1) by (auto simp: unweighted_def)
    have E: "rocmfp4_scale_error xs None sigma2 a = fp4.total ?d a" for a
      by (simp add: rocmfp4_scale_error_def rocmfp4_weights_def fp4.total_def)
    have zero: "fkey (fp4.total ?d e) = 0"
      unfolding fp4.total_def
    proof (rule block_err_zero, rule ballI)
      fix p assume "p \<in> set (sb_elems ?d)"
      then obtain x where p: "p = (x, None)" "x \<in> set xs" by (auto simp: unweighted_def)
      have xe: "x \<in> fp4_values e" using xs(1) p(2) by blast
      have "fkey (the (block_term (fp4_dec e) (ue4m3_table ! e) (x, None))) = 0"
        using fp4_term_zero [OF xe xs(2) e1 xs(2)] decoded_at_scale [OF xe e1 xs(2)] by blast
      then show "\<exists>t. block_term (fp4_dec e) (ue4m3_table ! e) p = Some t \<and> nonneg t \<and> fkey t = 0"
        using terms [OF p(2) e1 xs(2)] by (auto simp: p(1))
    qed
    have best: "best_scale (rocmfp4_scale_error xs None sigma2) e'" using opt False by simp
    have mem: "e \<in> {1..126}" using e1 xs(2) by simp
    have e': "1 \<le> e'" "e' \<le> 126" "fkey (fp4.total ?d e') \<le> 0"
      using best_scale_zero [OF best mem] zero unfolding E by blast+
    have i: "i = fdiv f_one (rocmfp4_ue4m3_to_fp32_half e')"
      using e' scale_pos [OF e'(1,2)] by (simp add: i_def inv_scale_of_def half_table ue4m3_table_nth f_zero_def)
    show ?thesis
    proof
      fix x assume x: "x \<in> set xs"
      obtain t where t: "block_term (fp4_dec e') (ue4m3_table ! e') (x, None) = Some t" "nonneg t"
        using terms [OF x e'(1,2)] by blast
      have "fkey (the (block_term (fp4_dec e') (ue4m3_table ! e') (x, None))) \<le> fkey (fp4.total ?d e')"
        unfolding fp4.total_def block_err_def
        by (rule sum_ge_term [OF fp4.terms_nonneg [OF ok e'(1,2)]]) (use x in \<open>auto simp: unweighted_def\<close>)
      then have "fkey (the (block_term (fp4_dec e') (ue4m3_table ! e') (x, None))) = 0"
        using e'(3) t by (simp add: nonneg_def)
      then have "fval (rocmfp4_decoded_mag_scaled_finite x i) * scale_val e' = fval x"
        using fp4_term_zero [OF _ xs(2) e'(1,2)] xs(1) x unfolding i by blast
      moreover have "is_finite x" using good x by (simp add: good_floats_def)
      ultimately show "of_int (rocmfp4_decode (rocmfp4_best_index_scaled x i)) * scale_val e' = fval x"
        by (simp add: decoded_mag_decode rocmfp4_best_index_scaled_def)
    qed
  qed
qed

text \<open>Packing two codes into a byte.\<close>

lemma best_index_nibble: "take_bit 4 (rocmfp4_best_index_scaled x i) = rocmfp4_best_index_scaled x i"
  by (simp add: rocmfp4_best_index_scaled_def rocmfp4_best_index_scaled_finite_def Let_def)

lemma nibbles:
  fixes q0 q1 :: byte
  assumes "take_bit 4 q0 = q0" "take_bit 4 q1 = q1"
  shows "(q0 OR push_bit 4 q1) AND 0x0f = q0" "drop_bit 4 (q0 OR push_bit 4 q1) = q1"
proof -
  have b: "bit q0 n \<Longrightarrow> n < 4" "bit q1 n \<Longrightarrow> n < 4" for n
    using bit_take_bit_iff [of 4 q0 n] bit_take_bit_iff [of 4 q1 n] unfolding assms by blast+
  have "(q0 OR push_bit 4 q1) AND 0x0f = take_bit 4 (q0 OR push_bit 4 q1)"
    by (simp add: take_bit_eq_mask mask_eq_exp_minus_1)
  also have "\<dots> = q0" by (rule bit_word_eqI) (auto simp: bit_simps dest: b)
  finally show "(q0 OR push_bit 4 q1) AND 0x0f = q0" .
  show "drop_bit 4 (q0 OR push_bit 4 q1) = q1" by (rule bit_word_eqI) (auto simp: bit_simps dest: b)
qed

lemma map_nth_upt: "length xs = n \<Longrightarrow> map (\<lambda>j. f (xs ! j)) [0..<n] = map f xs"
  by (rule nth_equalityI) auto

lemma map_nth_shift: "length xs = n + m \<Longrightarrow> map (\<lambda>j. f (xs ! (j + n))) [0..<m] = map f (drop n xs)"
  by (rule nth_equalityI) (auto simp: add.commute)

lemma map_nth_take: "n \<le> length xs \<Longrightarrow> map (\<lambda>j. f (xs ! j)) [0..<n] = map f (take n xs)"
  by (rule nth_equalityI) auto

lemma decode_codebook: "rocmfp4_decode q \<in> set rocmfp4_codebook"
proof -
  have "unat (q AND 0x0f) < 16" using byte_low_nibble [of q] by (auto simp: byte_of_nat)
  then have "unat (q AND 0x0f) < length rocmfp4_codebook" by (simp add: rocmfp4_codebook_def)
  then show ?thesis unfolding rocmfp4_decode_table_eq [symmetric] rocmfp4_decode_table_def by (rule nth_mem)
qed

text \<open>Dequantized values are representable at the scale of their block.\<close>

lemma dequantized_values:
  assumes "d0 = rocmfp4_ue4m3_to_fp32_half e0" "d1 = rocmfp4_ue4m3_to_fp32_half e1" "e0 \<le> 126" "e1 \<le> 126"
  shows "length (rocmfp4_dequantize_values qs d0 d1) = 32"
    and "\<forall>x \<in> set (take 16 (rocmfp4_dequantize_values qs d0 d1)). x \<in> fp4_values e0"
    and "\<forall>x \<in> set (drop 16 (rocmfp4_dequantize_values qs d0 d1)). x \<in> fp4_values e1"
proof -
  have val: "fmul (f_of_int (rocmfp4_decode q)) (rocmfp4_ue4m3_to_fp32_half e) \<in> fp4_values e" if "e \<le> 126" for q e
    unfolding dequantize_value [OF codebook_bound [OF decode_codebook] that] fp4_values_def
    using decode_codebook [of q] by blast
  show "length (rocmfp4_dequantize_values qs d0 d1) = 32" by (simp add: rocmfp4_dequantize_values_def)
  show "\<forall>x \<in> set (take 16 (rocmfp4_dequantize_values qs d0 d1)). x \<in> fp4_values e0"
    using val assms by (auto simp: rocmfp4_dequantize_values_def)
  show "\<forall>x \<in> set (drop 16 (rocmfp4_dequantize_values qs d0 d1)). x \<in> fp4_values e1"
    using val assms by (auto simp: rocmfp4_dequantize_values_def)
qed

text \<open>What is read back from freshly written codes.\<close>

lemma dequantize_codes:
  assumes "length xb = 32"
  shows "rocmfp4_dequantize_values (rocmfp4_codes xb i0 i1) d0 d1
    = map (\<lambda>x. fmul (f_of_int (rocmfp4_decode (rocmfp4_best_index_scaled x i0))) d0) (take 16 xb)
      @ map (\<lambda>x. fmul (f_of_int (rocmfp4_decode (rocmfp4_best_index_scaled x i1))) d1) (drop 16 xb)"
proof -
  have c: "rocmfp4_codes xb i0 i1 ! j AND 0x0f = rocmfp4_best_index_scaled (xb ! j) i0"
    "drop_bit 4 (rocmfp4_codes xb i0 i1 ! j) = rocmfp4_best_index_scaled (xb ! (j + 16)) i1" if "j < 16" for j
    using that nibbles [OF best_index_nibble best_index_nibble] by (simp_all add: rocmfp4_codes_def Let_def)
  have "map (\<lambda>j. fmul (f_of_int (rocmfp4_decode (rocmfp4_codes xb i0 i1 ! j AND 0x0f))) d0) [0..<16]
      = map (\<lambda>j. fmul (f_of_int (rocmfp4_decode (rocmfp4_best_index_scaled (xb ! j) i0))) d0) [0..<16]"
    by (rule map_cong) (simp_all only: c set_upt atLeastLessThan_iff)
  moreover have "map (\<lambda>j. fmul (f_of_int (rocmfp4_decode (drop_bit 4 (rocmfp4_codes xb i0 i1 ! j)))) d1) [0..<16]
      = map (\<lambda>j. fmul (f_of_int (rocmfp4_decode (rocmfp4_best_index_scaled (xb ! (j + 16)) i1))) d1) [0..<16]"
    by (rule map_cong) (simp_all only: c set_upt atLeastLessThan_iff)
  ultimately show ?thesis
    using map_nth_take [of 16 xb "\<lambda>x. fmul (f_of_int (rocmfp4_decode (rocmfp4_best_index_scaled x i0))) d0"]
      map_nth_shift [of xb 16 16 "\<lambda>x. fmul (f_of_int (rocmfp4_decode (rocmfp4_best_index_scaled x i1))) d1"] assms
    by (simp add: rocmfp4_dequantize_values_def)
qed

lemma requantized_values:
  assumes xs: "\<forall>x \<in> set xs. x \<in> fp4_values e" "e \<le> 126"
    and c: "rocmfp4_choose_scale_ue4m3 xs None sigma2 = Some e'"
  shows "map (fval \<circ> (\<lambda>x. fmul (f_of_int (rocmfp4_decode (rocmfp4_best_index_scaled x
           (inv_scale_of (rocmfp4_ue4m3_to_fp32_half e'))))) (rocmfp4_ue4m3_to_fp32_half e'))) xs = map fval xs"
proof (rule map_cong [OF refl])
  fix x assume x: "x \<in> set xs"
  let ?v = "rocmfp4_decode (rocmfp4_best_index_scaled x (inv_scale_of (rocmfp4_ue4m3_to_fp32_half e')))"
  note exact = chosen_scale_exact [OF xs c]
  have s: "0 \<le> scale_val e'" using scale_val_mono [of 0 e'] exact(1) by (simp add: scale_val_def)
  have "fval (fmul (f_of_int ?v) (rocmfp4_ue4m3_to_fp32_half e')) = of_int ?v * scale_val e'"
    unfolding dequantize_value [OF codebook_bound [OF decode_codebook] exact(1)] using s by (simp add: abs_if)
  also have "\<dots> = fval x" using exact(2) x by blast
  finally show "(fval \<circ> (\<lambda>x. fmul (f_of_int (rocmfp4_decode (rocmfp4_best_index_scaled x
           (inv_scale_of (rocmfp4_ue4m3_to_fp32_half e'))))) (rocmfp4_ue4m3_to_fp32_half e'))) x = fval x" by simp
qed

lemma block_roundtrip:
  assumes "fp4_valid b"
  shows "\<exists>b'. rocmfp4_quantize_block (rocmfp4_dequantize_block b) None f_zero = Some b'
    \<and> map fval (rocmfp4_dequantize_block b') = map fval (rocmfp4_dequantize_block b)"
proof -
  let ?x = "rocmfp4_dequantize_block b"
  have e: "unat (b4_e b ! 0) \<le> 126" "unat (b4_e b ! 1) \<le> 126" using assms by (auto simp: fp4_valid_def)
  note vals = dequantized_values [OF refl refl e, of "b4_qs b", folded rocmfp4_dequantize_block_def]
  obtain e0 e1 where c: "e0 \<le> 126" "rocmfp4_choose_scale_ue4m3 (take 16 ?x) None f_zero = Some e0"
    "e1 \<le> 126" "rocmfp4_choose_scale_ue4m3 (drop 16 ?x) None f_zero = Some e1"
    using rocmfp4_choose_total [of None] by blast
  let ?b = "\<lparr>b4_qs = rocmfp4_codes ?x (inv_scale_of (rocmfp4_ue4m3_to_fp32_half e0)) (inv_scale_of (rocmfp4_ue4m3_to_fp32_half e1)),
    b4_e = [of_nat e0, of_nat e1]\<rparr>"
  have q: "rocmfp4_quantize_block ?x None f_zero = Some ?b" using c by (simp add: rocmfp4_quantize_block_def Let_def)
  have "map fval (rocmfp4_dequantize_block ?b) = map fval (take 16 ?x) @ map fval (drop 16 ?x)"
    unfolding rocmfp4_dequantize_block_def [of ?b] block_rocmfp4.simps nth_Cons_0 One_nat_def nth_Cons_Suc
      byte_of_nat [OF c(1)] byte_of_nat [OF c(3)] dequantize_codes [OF vals(1)] map_append map_map
      requantized_values [OF vals(2) e(1) c(2)] requantized_values [OF vals(3) e(2) c(4)] ..
  also have "\<dots> = map fval ?x" unfolding map_append [symmetric] by simp
  finally show ?thesis using q by blast
qed

lemma block_roundtrip_fast:
  assumes "fp4_valid_fast b"
  shows "\<exists>b'. rocmfp4_quantize_block_fast (rocmfp4_dequantize_block_fast b) None f_zero = Some b'
    \<and> map fval (rocmfp4_dequantize_block_fast b') = map fval (rocmfp4_dequantize_block_fast b)"
proof -
  let ?x = "rocmfp4_dequantize_block_fast b"
  have e: "unat (f4_e b) \<le> 126" using assms by (auto simp: fp4_valid_fast_def)
  have x: "?x = rocmfp4_dequantize_values (f4_qs b) (rocmfp4_ue4m3_to_fp32_half (unat (f4_e b))) (rocmfp4_ue4m3_to_fp32_half (unat (f4_e b)))"
    by (simp add: rocmfp4_dequantize_block_fast_def Let_def)
  note vals = dequantized_values [OF refl refl e e, of "f4_qs b", folded x]
  have "\<forall>y \<in> set (take 16 ?x @ drop 16 ?x). y \<in> fp4_values (unat (f4_e b))" using vals(2,3) unfolding set_append by blast
  then have all: "\<forall>y \<in> set ?x. y \<in> fp4_values (unat (f4_e b))" unfolding append_take_drop_id .
  obtain e0 where c: "e0 \<le> 126" "rocmfp4_choose_scale_ue4m3 ?x None f_zero = Some e0"
    using rocmfp4_choose_total [of None] by blast
  let ?i = "inv_scale_of (rocmfp4_ue4m3_to_fp32_half e0)"
  let ?b = "\<lparr>f4_qs = rocmfp4_codes ?x ?i ?i, f4_e = of_nat e0\<rparr>"
  have q: "rocmfp4_quantize_block_fast ?x None f_zero = Some ?b" using c by (simp add: rocmfp4_quantize_block_fast_def Let_def)
  have "map fval (rocmfp4_dequantize_block_fast ?b) = map fval ?x"
    unfolding rocmfp4_dequantize_block_fast_def [of ?b] Let_def block_rocmfp4_fast.simps
      byte_of_nat [OF c(1)] dequantize_codes [OF vals(1)] map_append [symmetric] append_take_drop_id map_map
      requantized_values [OF all e c(2)] ..
  then show ?thesis using q by blast
qed

lemma those_Some_iff: "those xs = Some ys \<longleftrightarrow> xs = map Some ys"
  by (induction xs arbitrary: ys) (auto split: option.splits)

lemma row_blocks_concat:
  assumes "\<forall>r \<in> set rows. length r = 32"
  shows "row_blocks (concat rows) = rows"
proof -
  have len: "length (concat rows) = length rows * 32" by (rule length_concat_rows [OF assms])
  show ?thesis
    by (rule nth_equalityI) (use len take_drop_concat_rows [OF assms] in \<open>auto simp: row_blocks_def\<close>)
qed

lemma requantize_both:
  assumes "\<forall>b \<in> set bs. fp4_valid b" and "\<forall>b \<in> set fs. fp4_valid_fast b"
  shows "\<exists>y bs' y'. rocmfp4_dequantize_row_q4_0 bs (32 * length bs) = Some y
      \<and> rocmfp4_quantize_row_q4_0_ref y = Some bs' \<and> rocmfp4_dequantize_row_q4_0 bs' (32 * length bs) = Some y'
      \<and> map fval y' = map fval y"
    and "\<exists>y fs' y'. rocmfp4_dequantize_row_q4_0_fast fs (32 * length fs) = Some y
      \<and> rocmfp4_quantize_row_q4_0_fast_ref y = Some fs' \<and> rocmfp4_dequantize_row_q4_0_fast fs' (32 * length fs) = Some y'
      \<and> map fval y' = map fval y"
proof -
  have concat_eq: "map fval (concat (map g as')) = map fval (concat (map g as))"
    if "list_all2 (\<lambda>a a'. map fval (g a') = map fval (g a)) as as'" for g :: "'z \<Rightarrow> float32 list" and as as'
    using that by (induction as as' rule: list_all2_induct) auto
  let ?xs = "map rocmfp4_dequantize_block bs"
  have len: "\<forall>r \<in> set ?xs. length r = 32"
    by (auto simp: rocmfp4_dequantize_block_def rocmfp4_dequantize_values_def)
  obtain bs' where bs': "those (map (\<lambda>b. rocmfp4_quantize_block (rocmfp4_dequantize_block b) None f_zero) bs) = Some bs'"
    "list_all2 (\<lambda>b b'. map fval (rocmfp4_dequantize_block b') = map fval (rocmfp4_dequantize_block b)) bs bs'"
    using those_map_total [of bs "\<lambda>b. rocmfp4_quantize_block (rocmfp4_dequantize_block b) None f_zero"
        "\<lambda>b b'. map fval (rocmfp4_dequantize_block b') = map fval (rocmfp4_dequantize_block b)"] block_roundtrip assms(1) by blast
  have "length bs' = length bs" using bs'(2) by (simp add: list_all2_lengthD)
  then show "\<exists>y bs' y'. rocmfp4_dequantize_row_q4_0 bs (32 * length bs) = Some y
      \<and> rocmfp4_quantize_row_q4_0_ref y = Some bs' \<and> rocmfp4_dequantize_row_q4_0 bs' (32 * length bs) = Some y'
      \<and> map fval y' = map fval y"
    using bs' concat_eq [OF bs'(2)] row_blocks_concat [OF len] length_concat_rows [OF len]
    by (intro exI [of _ "concat ?xs"] exI [of _ bs'] exI [of _ "concat (map rocmfp4_dequantize_block bs')"])
       (simp add: rocmfp4_dequantize_row_q4_0_def rocmfp4_quantize_row_q4_0_ref_def comp_def)
  let ?ys = "map rocmfp4_dequantize_block_fast fs"
  have len: "\<forall>r \<in> set ?ys. length r = 32"
    by (auto simp: rocmfp4_dequantize_block_fast_def rocmfp4_dequantize_values_def Let_def)
  obtain fs' where fs': "those (map (\<lambda>b. rocmfp4_quantize_block_fast (rocmfp4_dequantize_block_fast b) None f_zero) fs) = Some fs'"
    "list_all2 (\<lambda>b b'. map fval (rocmfp4_dequantize_block_fast b') = map fval (rocmfp4_dequantize_block_fast b)) fs fs'"
    using those_map_total [of fs "\<lambda>b. rocmfp4_quantize_block_fast (rocmfp4_dequantize_block_fast b) None f_zero"
        "\<lambda>b b'. map fval (rocmfp4_dequantize_block_fast b') = map fval (rocmfp4_dequantize_block_fast b)"]
      block_roundtrip_fast assms(2) by blast
  have "length fs' = length fs" using fs'(2) by (simp add: list_all2_lengthD)
  then show "\<exists>y fs' y'. rocmfp4_dequantize_row_q4_0_fast fs (32 * length fs) = Some y
      \<and> rocmfp4_quantize_row_q4_0_fast_ref y = Some fs' \<and> rocmfp4_dequantize_row_q4_0_fast fs' (32 * length fs) = Some y'
      \<and> map fval y' = map fval y"
    using fs' concat_eq [OF fs'(2)] row_blocks_concat [OF len] length_concat_rows [OF len]
    by (intro exI [of _ "concat ?ys"] exI [of _ fs'] exI [of _ "concat (map rocmfp4_dequantize_block_fast fs')"])
       (simp add: rocmfp4_dequantize_row_q4_0_fast_def rocmfp4_quantize_row_q4_0_fast_ref_def comp_def)
qed

text \<open>
  C9: Quantizing the values of valid blocks again is lossless: the new blocks may have other scales and
  codes, but every value comes back exactly, in the format with two scales and in the fast one.
\<close>

theorem rocmfp4_requantize_lossless:
  assumes "\<forall>b \<in> set bs. fp4_valid b" and "\<forall>b \<in> set fs. fp4_valid_fast b"
  shows "(\<exists>y bs' y'. rocmfp4_dequantize_row_q4_0 bs (32 * length bs) = Some y
      \<and> rocmfp4_quantize_row_q4_0_ref y = Some bs' \<and> rocmfp4_dequantize_row_q4_0 bs' (32 * length bs) = Some y'
      \<and> map fval y' = map fval y)
    \<and> (\<exists>y fs' y'. rocmfp4_dequantize_row_q4_0_fast fs (32 * length fs) = Some y
      \<and> rocmfp4_quantize_row_q4_0_fast_ref y = Some fs' \<and> rocmfp4_dequantize_row_q4_0_fast fs' (32 * length fs) = Some y'
      \<and> map fval y' = map fval y)"
  using requantize_both [OF assms] by blast

lemma quantize_valid_both:
  assumes n: "n_per_row mod 32 = 0" and src: "length src = nrows * n_per_row"
  shows "\<exists>bs. rocmfp4_quantize_q4_0 src nrows n_per_row imatrix = Some (bs, length (concat (map block_rocmfp4_bytes bs)))
      \<and> length bs = nrows * (n_per_row div 32) \<and> rocmfp4_validate_row_data (concat (map block_rocmfp4_bytes bs))"
    and "\<exists>bs. rocmfp4_quantize_q4_0_fast src nrows n_per_row imatrix = Some (bs, length (concat (map block_rocmfp4_fast_bytes bs)))
      \<and> length bs = nrows * (n_per_row div 32) \<and> rocmfp4_validate_row_data_fast (concat (map block_rocmfp4_fast_bytes bs))"
proof -
  obtain m where m: "n_per_row = 32 * m" using n by auto
  have size: "18 * n_per_row div 32 = 18 * m" "17 * n_per_row div 32 = 17 * m" "n_per_row div 32 = m" by (simp_all add: m)
  have row: "length (take n_per_row (drop (r * n_per_row) src)) = n_per_row" if "r \<in> set [0..<nrows]" for r
  proof -
    have "(r + 1) * n_per_row \<le> nrows * n_per_row" using that by (intro mult_le_mono1) simp
    then show ?thesis using src by (simp add: algebra_simps)
  qed
  have rows: "\<exists>rs. those (map f [0..<nrows]) = Some rs \<and> length (concat rs) = nrows * m \<and> (\<forall>b \<in> set (concat rs). P b)"
    if f: "\<And>r. r \<in> set [0..<nrows] \<Longrightarrow> \<exists>bs. f r = Some bs \<and> length bs = m \<and> (\<forall>b \<in> set bs. P b)"
    for f :: "nat \<Rightarrow> 'y list option" and P
  proof -
    obtain rs where rs: "those (map f [0..<nrows]) = Some rs" and len: "length rs = nrows" "\<forall>bs \<in> set rs. length bs = m \<and> (\<forall>b \<in> set bs. P b)"
      using those_map_all [of "[0..<nrows]" f "\<lambda>bs. length bs = m \<and> (\<forall>b \<in> set bs. P b)"] f by auto
    then have "length (concat rs) = nrows * m" using length_concat_rows [of rs m] by simp
    then show ?thesis using rs len(2) by auto
  qed
  have valid: "\<exists>bs. rocmfp4_quantize_q4_0 src nrows n_per_row imatrix = Some (bs, nrows * (18 * m))
      \<and> length bs = nrows * m \<and> (\<forall>b \<in> set bs. fp4_valid b)"
  proof (cases imatrix)
    case None
    have "\<exists>bs. rocmfp4_quantize_row_q4_0_ref src = Some bs \<and> length bs = length src div 32 \<and> (\<forall>b \<in> set bs. fp4_valid b)"
      by (rule quantize_row_total(2)) (simp add: src m)
    then show ?thesis using None src by (auto simp: rocmfp4_quantize_q4_0_def size m)
  next
    case (Some im)
    have "\<exists>bs. rocmfp4_quantize_row_q4_0_weighted (take n_per_row (drop (r * n_per_row) src)) imatrix = Some bs
        \<and> length bs = m \<and> (\<forall>b \<in> set bs. fp4_valid b)" if "r \<in> set [0..<nrows]" for r
      using quantize_row_total(1) [of "take n_per_row (drop (r * n_per_row) src)" imatrix] row [OF that] n by (simp add: size)
    then obtain rs where "those (map (\<lambda>row. rocmfp4_quantize_row_q4_0_weighted (take n_per_row (drop (row * n_per_row) src)) imatrix)
        [0..<nrows]) = Some rs" "length (concat rs) = nrows * m" "\<forall>b \<in> set (concat rs). fp4_valid b"
      using rows [of "\<lambda>row. rocmfp4_quantize_row_q4_0_weighted (take n_per_row (drop (row * n_per_row) src)) imatrix" fp4_valid] by blast
    then show ?thesis using Some unfolding rocmfp4_quantize_q4_0_def size Let_def by simp
  qed
  then obtain bs where bs: "rocmfp4_quantize_q4_0 src nrows n_per_row imatrix = Some (bs, nrows * (18 * m))"
    "length bs = nrows * m" "\<forall>b \<in> set bs. fp4_valid b" by blast
  note v = validate_blocks [OF bs(3)]
  have "length (concat (map block_rocmfp4_bytes bs)) = nrows * (18 * m)" using v bs(2) by simp
  then show "\<exists>bs. rocmfp4_quantize_q4_0 src nrows n_per_row imatrix = Some (bs, length (concat (map block_rocmfp4_bytes bs)))
      \<and> length bs = nrows * (n_per_row div 32) \<and> rocmfp4_validate_row_data (concat (map block_rocmfp4_bytes bs))"
    unfolding size by (intro exI [of _ bs]) (use bs v in simp)
  have "\<exists>bs. rocmfp4_quantize_q4_0_fast src nrows n_per_row imatrix = Some (bs, nrows * (17 * m))
      \<and> length bs = nrows * m \<and> (\<forall>b \<in> set bs. fp4_valid_fast b)"
  proof (cases imatrix)
    case None
    have "\<exists>bs. rocmfp4_quantize_row_q4_0_fast_ref src = Some bs \<and> length bs = length src div 32 \<and> (\<forall>b \<in> set bs. fp4_valid_fast b)"
      by (rule quantize_row_total(4)) (simp add: src m)
    then show ?thesis using None src by (auto simp: rocmfp4_quantize_q4_0_fast_def size m)
  next
    case (Some im)
    have "\<exists>bs. rocmfp4_quantize_row_q4_0_fast_weighted (take n_per_row (drop (r * n_per_row) src)) imatrix = Some bs
        \<and> length bs = m \<and> (\<forall>b \<in> set bs. fp4_valid_fast b)" if "r \<in> set [0..<nrows]" for r
      using quantize_row_total(3) [of "take n_per_row (drop (r * n_per_row) src)" imatrix] row [OF that] n by (simp add: size)
    then obtain rs where "those (map (\<lambda>row. rocmfp4_quantize_row_q4_0_fast_weighted (take n_per_row (drop (row * n_per_row) src)) imatrix)
        [0..<nrows]) = Some rs" "length (concat rs) = nrows * m" "\<forall>b \<in> set (concat rs). fp4_valid_fast b"
      using rows [of "\<lambda>row. rocmfp4_quantize_row_q4_0_fast_weighted (take n_per_row (drop (row * n_per_row) src)) imatrix" fp4_valid_fast] by blast
    then show ?thesis using Some unfolding rocmfp4_quantize_q4_0_fast_def size Let_def by simp
  qed
  then obtain bs where bs: "rocmfp4_quantize_q4_0_fast src nrows n_per_row imatrix = Some (bs, nrows * (17 * m))"
    "length bs = nrows * m" "\<forall>b \<in> set bs. fp4_valid_fast b" by blast
  note v = validate_blocks_fast [OF bs(3)]
  have "length (concat (map block_rocmfp4_fast_bytes bs)) = nrows * (17 * m)" using v bs(2) by simp
  then show "\<exists>bs. rocmfp4_quantize_q4_0_fast src nrows n_per_row imatrix = Some (bs, length (concat (map block_rocmfp4_fast_bytes bs)))
      \<and> length bs = nrows * (n_per_row div 32) \<and> rocmfp4_validate_row_data_fast (concat (map block_rocmfp4_fast_bytes bs))"
    unfolding size by (intro exI [of _ bs]) (use bs v in simp)
qed

text \<open>
  C11: Quantization accepts every row of a multiple of 32 floats, with or without an importance matrix, whatever the values
  (infinities and NaN included): it returns the number of bytes it wrote, and they pass the
  validation of the format.
\<close>

theorem rocmfp4_quantize_valid:
  assumes n: "n_per_row mod 32 = 0" and src: "length src = nrows * n_per_row"
  shows "(\<exists>bs. rocmfp4_quantize_q4_0 src nrows n_per_row imatrix = Some (bs, length (concat (map block_rocmfp4_bytes bs)))
      \<and> length bs = nrows * (n_per_row div 32) \<and> rocmfp4_validate_row_data (concat (map block_rocmfp4_bytes bs)))
    \<and> (\<exists>bs. rocmfp4_quantize_q4_0_fast src nrows n_per_row imatrix = Some (bs, length (concat (map block_rocmfp4_fast_bytes bs)))
      \<and> length bs = nrows * (n_per_row div 32) \<and> rocmfp4_validate_row_data_fast (concat (map block_rocmfp4_fast_bytes bs)))"
  using quantize_valid_both [OF assms] by blast

subsection \<open>Non-finite elements\<close>

lemma mse_loop_nan_acc: "\<forall>x \<in> set xs. \<exists>t. term x = Some t \<Longrightarrow> mse_loop term b FNan xs = Some FNan"
  by (induction xs) auto

lemma fadd_nan [simp]: "fadd x FNan = FNan"
  by (cases x) simp_all

lemma mse_loop_nan:
  assumes "\<forall>x \<in> set xs. \<exists>t. term x = Some t" "\<exists>x \<in> set xs. term x = Some FNan"
  shows "\<exists>r. mse_loop term b err xs = Some r \<and> (r = FNan \<or> fless b r)"
  using assms
proof (induction xs arbitrary: err)
  case Nil
  then show ?case by simp
next
  case (Cons x xs)
  then obtain t where t: "term x = Some t" by auto
  show ?case
  proof (cases "fless b (fadd err t)")
    case True
    then show ?thesis using t by (simp add: Let_def)
  next
    case False
    show ?thesis
    proof (cases "t = FNan")
      case True
      then show ?thesis using t mse_loop_nan_acc [of xs "term" b] Cons.prems(1) by simp
    next
      case n: False
      then show ?thesis using Cons.IH [of "fadd err t"] Cons.prems t False by (auto simp: Let_def)
    qed
  qed
qed

lemma not_better: "r = FNan \<or> fless b r \<Longrightarrow> \<not> fless r b \<and> \<not> feq r b"
  by (cases r; cases b) auto

lemma search_scale_stuck:
  assumes "\<And>e. 1 \<le> e \<Longrightarrow> e \<le> 126 \<Longrightarrow> \<exists>r. err e b0 = Some r \<and> (r = FNan \<or> fless b0 r)" and "start \<le> 126"
  shows "search_scale err clip start (e0, b0) = Some e0"
proof -
  let ?S = "\<lambda>(st :: (nat \<times> float32) \<times> bool). fst st = (e0, b0)"
  have stay: "try_scale err e (e0, b0) = Some (e0, b0)" if "1 \<le> e" "e \<le> 126" for e
    using assms(1) [OF that] not_better by (auto simp: try_scale_def)
  have "\<exists>ok st. for_ret (search_step err clip start) [0..<126] ((e0, b0), False) = Some (ok, st)
      \<and> (if ok then ?S st else ?S st)"
  proof (rule for_ret_upt [where P = "\<lambda>_. ?S" and Q = ?S])
    show "?S ((e0, b0), False)" by simp
    fix d st assume "?S st"
    then obtain ld where st: "st = ((e0, b0), ld)" by (cases st) simp
    let ?e0 = "int start - int d" and ?e1 = "start + d"
    have "\<exists>ld1. (if \<not> ld \<and> ?e0 \<ge> 1 \<and> ?e0 \<le> 126
          then (if clip (nat ?e0) (snd (e0, b0)) then Some ((e0, b0), True)
                else do { best \<leftarrow> try_scale err (nat ?e0) (e0, b0); Some (best, ld) })
          else Some ((e0, b0), ld)) = Some ((e0, b0), ld1)"
    proof (cases "\<not> ld \<and> ?e0 \<ge> 1 \<and> ?e0 \<le> 126")
      case True
      then have "1 \<le> nat ?e0" "nat ?e0 \<le> 126" by auto
      then show ?thesis unfolding if_P [OF True] by (cases "clip (nat ?e0) (snd (e0, b0))") (auto simp: stay)
    next
      case False
      show ?thesis unfolding if_not_P [OF False] by blast
    qed
    then obtain ld1 where low: "(if \<not> ld \<and> ?e0 \<ge> 1 \<and> ?e0 \<le> 126
          then (if clip (nat ?e0) (snd (e0, b0)) then Some ((e0, b0), True)
                else do { best \<leftarrow> try_scale err (nat ?e0) (e0, b0); Some (best, ld) })
          else Some ((e0, b0), ld)) = Some ((e0, b0), ld1)" by blast
    have high: "(if d \<noteq> 0 \<and> ?e1 \<ge> 1 \<and> ?e1 \<le> 126 then try_scale err ?e1 (e0, b0) else Some (e0, b0)) = Some (e0, b0)"
      by (cases "d \<noteq> 0 \<and> ?e1 \<ge> 1 \<and> ?e1 \<le> 126") (simp_all add: stay)
    have "search_step err clip start d st = Some (\<not> ((ld1 \<or> ?e0 \<le> 1) \<and> ?e1 \<ge> 126), (e0, b0), ld1)"
      unfolding search_step_def st Let_def prod.case low bind.bind_lunit high ..
    then show "\<exists>ok st'. search_step err clip start d st = Some (ok, st') \<and> (if ok then ?S st' else ?S st')" by simp
  qed
  then show ?thesis by (auto simp: search_scale_def)
qed

lemma max_abs_inf:
  assumes "FInf s \<in> set xs"
  shows "fst (rocmfp4_max_abs xs) = FInf False"
proof -
  let ?f = "\<lambda>(max_abs, all_finite) x. let all_finite = (all_finite \<and> is_finite x); ax = fabs x in
     (if fless max_abs ax then ax else max_abs, all_finite)"
  have keep: "fst (foldl ?f (FInf False, a) ys) = FInf False" for a ys
  proof (induction ys arbitrary: a)
    case Nil
    show ?case by simp
  next
    case (Cons y ys)
    have "\<not> fless (FInf False) (fabs y)" by (cases y) simp_all
    then show ?case using Cons by simp
  qed
  obtain ys zs where xs: "xs = ys @ FInf s # zs" using assms by (meson split_list)
  have fin: "fst (foldl ?f (f_zero, True) ys) = FInf False \<or> is_finite (fst (foldl ?f (f_zero, True) ys))" for ys
  proof (induction ys rule: rev_induct)
    case Nil
    show ?case by (simp add: f_zero_def)
  next
    case (snoc y ys)
    show ?case using snoc by (cases y) (auto simp: case_prod_beta Let_def)
  qed
  have "fst (foldl ?f (f_zero, True) (ys @ [FInf s])) = FInf False"
    using fin [of ys] by (cases "fst (foldl ?f (f_zero, True) ys)") (auto simp: case_prod_beta Let_def)
  then have st: "foldl ?f (f_zero, True) (ys @ [FInf s]) = (FInf False, snd (foldl ?f (f_zero, True) (ys @ [FInf s])))"
    by (simp only: prod_eq_iff fst_conv snd_conv simp_thms)
  have xs': "xs = (ys @ [FInf s]) @ zs" using xs by simp
  show ?thesis unfolding rocmfp4_max_abs_def xs' foldl_append [of ?f _ "ys @ [FInf s]" zs] by (subst st) (rule keep)
qed

lemma max_abs_finite_flag: "snd (rocmfp4_max_abs xs) = (\<forall>x \<in> set xs. is_finite x)"
proof -
  have "snd (foldl (\<lambda>(max_abs, all_finite) x. let all_finite = (all_finite \<and> is_finite x); ax = fabs x in
     (if fless max_abs ax then ax else max_abs, all_finite)) (m, a) xs) = (a \<and> (\<forall>x \<in> set xs. is_finite x))" for m a
    by (induction xs arbitrary: m a) (auto simp: Let_def)
  then show ?thesis by (simp add: rocmfp4_max_abs_def)
qed

lemma choose_nonfinite:
  assumes "x \<in> set xs" "\<not> is_finite x"
  shows "rocmfp4_choose_scale_ue4m3 xs None sigma2 = Some 0"
proof (cases "\<exists>s. FInf s \<in> set xs")
  case True
  then obtain s where "fst (rocmfp4_max_abs xs) = FInf False" using max_abs_inf by blast
  then show ?thesis by (auto simp: rocmfp4_choose_scale_ue4m3_def split: prod.splits)
next
  case False
  then have nan: "FNan \<in> set xs" using assms by (cases x) auto
  obtain m where m: "rocmfp4_max_abs xs = (m, False)"
    using max_abs_finite_flag [of xs] assms by (metis prod.collapse)
  have run: "\<exists>r. rocmfp4_block_mse_for_scale_unweighted xs e b = Some r \<and> (r = FNan \<or> fless b r)" for e b
    unfolding rocmfp4_block_mse_for_scale_unweighted_def Let_def block_mse_def
  proof (rule mse_loop_nan)
    let ?t = "block_term (\<lambda>x. Some (rocmfp4_decoded_mag_scaled x (fdiv f_one (rocmfp4_ue4m3_to_fp32_half e)))) (rocmfp4_ue4m3_to_fp32_half e)"
    show "\<forall>p \<in> set (unweighted xs). \<exists>t. ?t p = Some t" by (auto simp: block_term_def Let_def)
    have "(FNan, None) \<in> set (unweighted xs)" using nan by (auto simp: unweighted_def)
    moreover have "?t (FNan, None) = Some FNan" by (simp add: block_term_def Let_def fsub_def)
    ultimately show "\<exists>p \<in> set (unweighted xs). ?t p = Some FNan" by blast
  qed
  have "rocmfp4_choose_scale_ue4m3_exhaustive_unweighted xs m False = Some 0"
    unfolding rocmfp4_choose_scale_ue4m3_exhaustive_unweighted_def if_False
    by (rule search_scale_stuck) (use run rocmfp4_nearest_range in auto)
  then show ?thesis by (simp add: rocmfp4_choose_scale_ue4m3_def m)
qed

lemma zero_scale_values:
  "fval (fmul (f_of_int (rocmfp4_decode (rocmfp4_best_index_scaled x f_zero))) (rocmfp4_ue4m3_to_fp32_half 0)) = 0"
proof -
  let ?q = "rocmfp4_best_index_scaled x f_zero"
  have "fval (fmul (f_of_int (rocmfp4_decode ?q)) (rocmfp4_ue4m3_to_fp32_half 0)) = of_int (rocmfp4_decode ?q) * 0"
    unfolding dequantize_value [OF codebook_bound [OF decode_codebook], of 0 ?q, simplified] by (simp add: scale_val_def)
  then show ?thesis by simp
qed

text \<open>
  C35: A NaN or an infinity in a half block of a row quantized without weights erases the half block: scale 0 is chosen, and all of its 16
  values, the finite ones included, are read back as zero. The code that means to skip such elements does not
  prevent it.
\<close>

theorem rocmfp4_nonfinite_erases_half:
  assumes "length xb = 32" "rocmfp4_quantize_block xb None sigma2 = Some b"
    and "x \<in> set (take 16 xb)" "\<not> is_finite x"
  shows "b4_e b ! 0 = 0 \<and> (\<forall>v \<in> set (take 16 (rocmfp4_dequantize_block b)). fval v = 0)"
proof -
  obtain e1 where e1: "rocmfp4_choose_scale_ue4m3 (drop 16 xb) None sigma2 = Some e1" "e1 \<le> 126"
    using rocmfp4_choose_total [of None] by blast
  let ?i = "inv_scale_of (rocmfp4_ue4m3_to_fp32_half e1)"
  have zero: "inv_scale_of (rocmfp4_ue4m3_to_fp32_half 0) = f_zero"
    by (simp add: inv_scale_of_def half_table ue4m3_table_nth scale_val_def f_zero_def)
  have b: "b = \<lparr>b4_qs = rocmfp4_codes xb f_zero ?i, b4_e = [0, of_nat e1]\<rparr>"
    using assms(2) choose_nonfinite [OF assms(3,4)] e1(1) by (simp add: rocmfp4_quantize_block_def Let_def zero)
  have "take 16 (rocmfp4_dequantize_block b)
      = map (\<lambda>x. fmul (f_of_int (rocmfp4_decode (rocmfp4_best_index_scaled x f_zero))) (rocmfp4_ue4m3_to_fp32_half 0)) (take 16 xb)"
    using assms(1) by (simp add: b rocmfp4_dequantize_block_def dequantize_codes)
  then show ?thesis using zero_scale_values by (auto simp: b)
qed

theorem rocmfp4_nonfinite_erases_half_witness:
  "\<exists>b. rocmfp4_quantize_block (FNan # replicate 31 f_one) None f_zero = Some b
    \<and> b4_e b ! 0 = 0 \<and> (\<forall>v \<in> set (take 16 (rocmfp4_dequantize_block b)). fval v = 0)"
proof -
  obtain b where b: "rocmfp4_quantize_block (FNan # replicate 31 f_one) None f_zero = Some b"
    using quantize_block_total(1) [of "FNan # replicate 31 f_one"] by auto
  have "b4_e b ! 0 = 0 \<and> (\<forall>v \<in> set (take 16 (rocmfp4_dequantize_block b)). fval v = 0)"
    by (rule rocmfp4_nonfinite_erases_half [OF _ b, of FNan]) simp_all
  then show ?thesis using b by blast
qed

theorem rocmfp4_quantize_valid_witness:
  "\<exists>bs. rocmfp4_quantize_q4_0 (replicate 64 FNan) 2 32 (Some (replicate 32 f_one))
      = Some (bs, length (concat (map block_rocmfp4_bytes bs)))
    \<and> length bs = 2 * (32 div 32) \<and> rocmfp4_validate_row_data (concat (map block_rocmfp4_bytes bs))"
  using rocmfp4_quantize_valid [of 32 "replicate 64 FNan" 2 "Some (replicate 32 f_one)"] by simp

lemma good_floats_example: "good_floats (f_one # replicate 15 f_zero)"
proof -
  have "representable 1" using representable_dyadic [of 1 0] by simp
  then show ?thesis by (auto simp: good_floats_def f_one_def f_zero_def fmax_def)
qed

theorem rocmfp4_choose_scale_optimal_witness:
  "\<exists>e. rocmfp4_choose_scale_ue4m3 (f_one # replicate 15 f_zero) None f_zero = Some e
    \<and> best_scale (rocmfp4_scale_error (f_one # replicate 15 f_zero) None f_zero) e"
proof -
  have "weights_ok (f_one # replicate 15 f_zero) None f_zero" by (simp add: weights_ok_def)
  from rocmfp4_choose_scale_optimal [OF good_floats_example this]
  show ?thesis by (simp add: f_one_def split: if_splits)
qed

theorem rocmfp4_requantize_lossless_witness:
  "\<exists>y bs' y'. rocmfp4_dequantize_row_q4_0 [\<lparr>b4_qs = replicate 16 0x7a, b4_e = [56, 3]\<rparr>] 32 = Some y
      \<and> rocmfp4_quantize_row_q4_0_ref y = Some bs' \<and> rocmfp4_dequantize_row_q4_0 bs' 32 = Some y'
      \<and> map fval y' = map fval y"
proof -
  have "\<forall>b \<in> set [\<lparr>b4_qs = replicate 16 0x7a, b4_e = [56, 3]\<rparr>]. fp4_valid b" by (simp add: fp4_valid_def)
  from rocmfp4_requantize_lossless [OF this, of "[]"] show ?thesis by simp
qed

subsection \<open>The AVX2 dot product equals the scalar one\<close>

lemma foldl_sum2:
  "foldl (\<lambda>(a, b) j. (a + f j, b + g j)) (x, y) js = (x + sum_list (map f js), y + sum_list (map g js) :: int)"
  by (induction js arbitrary: x y) (simp_all add: add.assoc)

lemma foldl_sum1: "foldl (\<lambda>a j. a + (f j + g j)) x js = (x + (sum_list (map f js) + sum_list (map g js)) :: int)"
  by (induction js arbitrary: x) (simp_all add: algebra_simps)

lemma block_sumi_eq:
  "block_sumi qs q8 = (sum_list (map (\<lambda>j. rocmfp4_decode_table (qs ! j) * sint (q8 ! j)) [0..<16]),
     sum_list (map (\<lambda>j. rocmfp4_decode_table (drop_bit 4 (qs ! j)) * sint (q8 ! (j + 16))) [0..<16]))"
  unfolding block_sumi_def Let_def foldl_sum2 by simp

lemma block_sumi_fast_eq: "block_sumi_fast qs q8 = fst (block_sumi qs q8) + snd (block_sumi qs q8)"
proof -
  have "block_sumi_fast qs q8 = foldl (\<lambda>sumi j. sumi + (rocmfp4_decode_table (qs ! j) * sint (q8 ! j)
      + rocmfp4_decode_table (drop_bit 4 (qs ! j)) * sint (q8 ! (j + 16)))) 0 [0..<16]"
    by (simp add: block_sumi_fast_def Let_def add.assoc)
  then show ?thesis unfolding foldl_sum1 block_sumi_eq by simp
qed

text \<open>The shift of 16-bit lanes, masked, is the shift of each byte.\<close>

lemma and_mask4: "(b :: byte) AND 0x0f = take_bit 4 b"
  by (simp add: take_bit_eq_mask mask_eq_exp_minus_1)

lemma srli_nibbles: "even (length bs) \<Longrightarrow> map (\<lambda>b. b AND 0x0f) (srli_epi16 4 bs) = map (drop_bit 4) bs"
proof (induction "4 :: nat" bs rule: srli_epi16.induct)
  case (1 l h bs)
  have lo: "take_bit 4 (ucast (drop_bit 4 (word_cat h l :: 16 word)) :: byte) = drop_bit 4 l"
    by (rule bit_word_eqI) (auto simp: bit_simps dest: bit_imp_le_length)
  have hi: "take_bit 4 (ucast (drop_bit 8 (drop_bit 4 (word_cat h l :: 16 word))) :: byte) = drop_bit 4 h"
    by (rule bit_word_eqI) (auto simp: bit_simps dest: bit_imp_le_length)
  show ?case using 1 lo hi by (simp add: Let_def and_mask4)
qed simp_all

lemma codebook_bytes: "i < 16 \<Longrightarrow> sint (map (word_of_int :: int \<Rightarrow> byte) rocmfp4_codebook ! i) = rocmfp4_codebook ! i"
proof -
  assume "i < 16"
  moreover have "list_all (\<lambda>i. sint (map (word_of_int :: int \<Rightarrow> byte) rocmfp4_codebook ! i) = rocmfp4_codebook ! i) [0..<16]"
    by (simp add: upt_rec rocmfp4_codebook_def)
  ultimately show ?thesis by (simp add: list_all_iff)
qed

lemma shuffle_lookup:
  assumes "\<forall>i \<in> set idx. take_bit 4 i = i"
  shows "map sint (shuffle_epi8 (map word_of_int rocmfp4_codebook) idx) = map rocmfp4_decode_table idx"
proof -
  have "sint (if bit i 7 then 0 else map (word_of_int :: int \<Rightarrow> byte) rocmfp4_codebook ! unat (i AND 0x0f)) = rocmfp4_decode_table i"
    if i: "i \<in> set idx" for i
  proof -
    have "bit (take_bit 4 i) 7 = False" by (simp add: bit_take_bit_iff)
    then have "\<not> bit i 7" using assms i by simp
    moreover have "unat (i AND 0x0f) < 16" using byte_low_nibble [of i] by (auto simp: byte_of_nat)
    ultimately show ?thesis by (simp only: if_False codebook_bytes rocmfp4_decode_table_def)
  qed
  then show ?thesis by (simp add: shuffle_epi8_def)
qed

lemma sint_scast_byte: "sint (scast (b :: byte) :: 16 word) = sint b"
  by (simp add: sint_up_scast is_up_def source_size_def target_size_def word_size)

lemma madd_sum:
  "length a = length b \<Longrightarrow> even (length a)
    \<Longrightarrow> sum_list (madd_epi16 a b) = word_of_int (sum_list (map2 (\<lambda>x y. sint x * sint y) a b))
      \<and> length (madd_epi16 a b) = length a div 2"
proof (induction a b rule: madd_epi16.induct)
  case (1 a0 a1 as b0 b1 bs)
  then have "sum_list (madd_epi16 as bs) = word_of_int (sum_list (map2 (\<lambda>x y. sint x * sint y) as bs))
      \<and> length (madd_epi16 as bs) = length as div 2" by simp
  then show ?case by (simp add: of_int_add algebra_simps del: of_int_add) (simp add: algebra_simps)
qed (auto simp: length_Suc_conv)

lemma hsum_sum: "length v = 8 \<Longrightarrow> rocmfp4_hsum_i32_8_avx2 v = sint (sum_list v)"
proof -
  assume "length v = 8"
  then obtain a b c d e f g h where v: "v = [a, b, c, d, e, f, g, h]"
    by (auto simp: numeral_eq_Suc length_Suc_conv)
  show ?thesis by (simp add: v rocmfp4_hsum_i32_8_avx2_def add_epi32_def shuffle_epi32_def Let_def numeral_eq_Suc ac_simps)
qed

lemma sint_small: "\<bar>i\<bar> < 2 ^ 31 \<Longrightarrow> sint (word_of_int i :: 32 word) = i"
  by (simp add: signed_of_int signed_take_bit_int_eq_self)

text \<open>One half of a block: a sum of 16 products fits into 32 bits.\<close>

lemma half_dot:
  assumes "length dq = 16" "length y = 16" "\<forall>d \<in> set dq. \<bar>sint d\<bar> \<le> 10"
  shows "rocmfp4_hsum_i32_8_avx2 (madd_epi16 (map scast dq) (map scast y))
    = sum_list (map2 (\<lambda>d b. sint d * sint b) (dq :: byte list) (y :: byte list))"
proof -
  let ?s = "sum_list (map2 (\<lambda>d b. sint d * sint b) dq y)"
  have prods: "map2 (\<lambda>x y. sint x * sint y) (map scast dq :: 16 word list) (map scast y :: 16 word list) = map2 (\<lambda>d b. sint d * sint b) dq y"
    by (simp add: zip_map1 zip_map2 comp_def case_prod_beta sint_scast_byte)
  have m: "sum_list (madd_epi16 (map scast dq) (map scast y)) = word_of_int ?s" "length (madd_epi16 (map scast dq) (map scast y)) = 8"
    using madd_sum [of "map scast dq" "map scast y"] assms(1,2) unfolding prods by simp_all
  have "\<bar>sint d * sint b\<bar> \<le> 1280" if "(d, b) \<in> set (zip dq y)" for d b
  proof -
    have "\<bar>sint d\<bar> \<le> 10" using assms(3) that by (auto dest: set_zip_leftD)
    moreover have "\<bar>sint b\<bar> \<le> 128" using sint_greater_eq [of b] sint_less [of b] by simp
    ultimately have "\<bar>sint d\<bar> * \<bar>sint b\<bar> \<le> 10 * 128" by (intro mult_mono) simp_all
    then show ?thesis by (simp add: abs_mult)
  qed
  note prod_le = this
  have "\<bar>sum_list (map (\<lambda>(d, b). sint d * sint b) l)\<bar> \<le> 1280 * int (length l)" if "set l \<subseteq> set (zip dq y)" for l
    using that
  proof (induction l)
    case (Cons p l)
    obtain d b where p: "p = (d, b)" by (cases p)
    have "\<bar>sint d * sint b\<bar> \<le> 1280" by (rule prod_le) (use Cons.prems p in simp)
    then show ?case using Cons by (simp add: p)
  qed simp
  from this [of "zip dq y"] have "\<bar>?s\<bar> < 2 ^ 31" using assms(1,2) by simp
  then show ?thesis using hsum_sum [OF m(2)] m(1) sint_small [of ?s] by simp
qed

lemma sum_map2_index:
  assumes "length as = n" "length bs = n"
  shows "sum_list (map2 f as bs) = sum_list (map (\<lambda>j. f (as ! j) (bs ! j)) [0..<n])"
proof -
  have "map2 f as bs = map (\<lambda>j. f (as ! j) (bs ! j)) [0..<n]" by (rule nth_equalityI) (use assms in auto)
  then show ?thesis by simp
qed

lemma block_isums_avx2_eq:
  assumes "length qs = 16" "length q8 = 32"
  shows "rocmfp4_block_isums_avx2 qs q8 = block_sumi qs q8"
proof -
  let ?tbl = "map (word_of_int :: int \<Rightarrow> byte) rocmfp4_codebook"
  let ?lo = "map (\<lambda>b. b AND 0x0f) qs" and ?hi = "map (\<lambda>b. b AND 0x0f) (srli_epi16 4 qs)"
  have hi: "?hi = map (drop_bit 4) qs" by (rule srli_nibbles) (simp add: assms)
  have n: "\<forall>i \<in> set ?lo. take_bit 4 i = i" "\<forall>i \<in> set ?hi. take_bit 4 i = i"
    by (auto simp: and_mask4)
  have lens: "length (shuffle_epi8 ?tbl ?lo) = 16" "length (shuffle_epi8 ?tbl ?hi) = 16"
    using hi assms by (simp_all add: shuffle_epi8_def)
  note sl = shuffle_lookup [OF n(1)] and sh = shuffle_lookup [OF n(2)]
  have small: "\<forall>d \<in> set ds. \<bar>sint d\<bar> \<le> 10" if "map sint ds = map rocmfp4_decode_table idx" for ds :: "byte list" and idx
  proof
    fix d assume "d \<in> set ds"
    then have "sint d \<in> set (map rocmfp4_decode_table idx)" unfolding that [symmetric] by simp
    then obtain q where "sint d = rocmfp4_decode q" by (auto simp: rocmfp4_decode_table_eq)
    then show "\<bar>sint d\<bar> \<le> 10" using codebook_bound [OF decode_codebook] by simp
  qed
  have at: "sint (ds ! j) = rocmfp4_decode_table (idx ! j)"
    if "map sint ds = map rocmfp4_decode_table idx" "j < length idx" for ds :: "byte list" and idx j
    using that by (metis length_map nth_map)
  have low: "rocmfp4_hsum_i32_8_avx2 (madd_epi16 (map scast (shuffle_epi8 ?tbl ?lo)) (map scast (take 16 q8)))
      = sum_list (map (\<lambda>j. rocmfp4_decode_table (qs ! j) * sint (q8 ! j)) [0..<16])"
  proof -
    have "rocmfp4_hsum_i32_8_avx2 (madd_epi16 (map scast (shuffle_epi8 ?tbl ?lo)) (map scast (take 16 q8)))
        = sum_list (map (\<lambda>j. sint (shuffle_epi8 ?tbl ?lo ! j) * sint (take 16 q8 ! j)) [0..<16])"
      using half_dot [OF lens(1) _ small [OF sl], of "take 16 q8"] sum_map2_index [OF lens(1), of "take 16 q8"] assms by simp
    also have "map (\<lambda>j. sint (shuffle_epi8 ?tbl ?lo ! j) * sint (take 16 q8 ! j)) [0..<16]
        = map (\<lambda>j. rocmfp4_decode_table (qs ! j) * sint (q8 ! j)) [0..<16]"
      by (rule map_cong) (use at [OF sl] assms in \<open>auto simp: rocmfp4_decode_table_def and.assoc\<close>)
    finally show ?thesis .
  qed
  have high: "rocmfp4_hsum_i32_8_avx2 (madd_epi16 (map scast (shuffle_epi8 ?tbl ?hi)) (map scast (take 16 (drop 16 q8))))
      = sum_list (map (\<lambda>j. rocmfp4_decode_table (drop_bit 4 (qs ! j)) * sint (q8 ! (j + 16))) [0..<16])"
  proof -
    have "rocmfp4_hsum_i32_8_avx2 (madd_epi16 (map scast (shuffle_epi8 ?tbl ?hi)) (map scast (take 16 (drop 16 q8))))
        = sum_list (map (\<lambda>j. sint (shuffle_epi8 ?tbl ?hi ! j) * sint (take 16 (drop 16 q8) ! j)) [0..<16])"
      using half_dot [OF lens(2) _ small [OF sh], of "take 16 (drop 16 q8)"] sum_map2_index [OF lens(2), of "take 16 (drop 16 q8)"] assms by simp
    also have "map (\<lambda>j. sint (shuffle_epi8 ?tbl ?hi ! j) * sint (take 16 (drop 16 q8) ! j)) [0..<16]
        = map (\<lambda>j. rocmfp4_decode_table (drop_bit 4 (qs ! j)) * sint (q8 ! (j + 16))) [0..<16]"
      by (rule map_cong) (use at [OF sh] assms in \<open>auto simp: hi add.commute\<close>)
    finally show ?thesis .
  qed
  show ?thesis unfolding rocmfp4_block_isums_avx2_def Let_def low high block_sumi_eq ..
qed

lemma vec_dot_both:
  assumes "n div 32 \<le> length x" "n div 32 \<le> length xf" "n div 32 \<le> length y"
    and "\<forall>b \<in> set x. length (b4_qs b) = 16" "\<forall>b \<in> set xf. length (f4_qs b) = 16" "\<forall>b \<in> set y. length (q8_qs b) = 32"
  shows "rocmfp4_vec_dot_q4_0_q8_0 True fp16 n x y = rocmfp4_vec_dot_q4_0_q8_0 False fp16 n x y"
    and "rocmfp4_vec_dot_q4_0_fast_q8_0 True fp16 n xf y = rocmfp4_vec_dot_q4_0_fast_q8_0 False fp16 n xf y"
proof -
  have eq: "rocmfp4_block_isums_avx2 (b4_qs (x ! ib)) (q8_qs (y ! ib)) = block_sumi (b4_qs (x ! ib)) (q8_qs (y ! ib))"
    "rocmfp4_block_isums_avx2 (f4_qs (xf ! ib)) (q8_qs (y ! ib)) = block_sumi (f4_qs (xf ! ib)) (q8_qs (y ! ib))"
    if "ib \<in> set [0..<n div 32]" for ib
    using assms that by (auto intro!: block_isums_avx2_eq)
  have "rocmfp4_vec_dot_q4_0_q8_0_avx2 fp16 (n div 32) x y = rocmfp4_vec_dot_q4_0_q8_0_scalar fp16 (n div 32) x y"
    unfolding rocmfp4_vec_dot_q4_0_q8_0_avx2_def rocmfp4_vec_dot_q4_0_q8_0_scalar_def Let_def
    by (rule foldl_cong) (simp_all only: eq)
  then show "rocmfp4_vec_dot_q4_0_q8_0 True fp16 n x y = rocmfp4_vec_dot_q4_0_q8_0 False fp16 n x y"
    by (simp add: rocmfp4_vec_dot_q4_0_q8_0_def)
  have "rocmfp4_vec_dot_q4_0_fast_q8_0_avx2 fp16 (n div 32) xf y = rocmfp4_vec_dot_q4_0_fast_q8_0_scalar fp16 (n div 32) xf y"
    unfolding rocmfp4_vec_dot_q4_0_fast_q8_0_avx2_def rocmfp4_vec_dot_q4_0_fast_q8_0_scalar_def Let_def
    by (rule foldl_cong) (simp_all only: eq block_sumi_fast_eq case_prod_beta)
  then show "rocmfp4_vec_dot_q4_0_fast_q8_0 True fp16 n xf y = rocmfp4_vec_dot_q4_0_fast_q8_0 False fp16 n xf y"
    by (simp add: rocmfp4_vec_dot_q4_0_fast_q8_0_def)
qed

text \<open>
  C10: The dot product of a ROCmFP4 row with a \<open>q8_0\<close> row does not depend on the processor: the AVX2 version
  gives the same float, bit for bit, as the scalar loop, for both formats.
\<close>

theorem rocmfp4_vec_dot_avx2_equals_scalar:
  assumes "n div 32 \<le> length x" "n div 32 \<le> length xf" "n div 32 \<le> length y"
    and "\<forall>b \<in> set x. length (b4_qs b) = 16" "\<forall>b \<in> set xf. length (f4_qs b) = 16" "\<forall>b \<in> set y. length (q8_qs b) = 32"
  shows "(rocmfp4_vec_dot_q4_0_q8_0 True fp16 n x y = rocmfp4_vec_dot_q4_0_q8_0 False fp16 n x y)
    \<and> (rocmfp4_vec_dot_q4_0_fast_q8_0 True fp16 n xf y = rocmfp4_vec_dot_q4_0_fast_q8_0 False fp16 n xf y)"
  using vec_dot_both [OF assms] by blast

theorem rocmfp4_vec_dot_avx2_equals_scalar_witness:
  "let x = [\<lparr>b4_qs = replicate 16 0x7a, b4_e = [56, 3]\<rparr>]; y = [\<lparr>q8_d = 0x3c00, q8_qs = replicate 32 0x81\<rparr>] in
   rocmfp4_vec_dot_q4_0_q8_0 True (\<lambda>_. f_one) 32 x y = rocmfp4_vec_dot_q4_0_q8_0 False (\<lambda>_. f_one) 32 x y"
  using rocmfp4_vec_dot_avx2_equals_scalar [of 32 "[\<lparr>b4_qs = replicate 16 0x7a, b4_e = [56, 3]\<rparr>]" "[\<lparr>f4_qs = replicate 16 0, f4_e = 0\<rparr>]"
      "[\<lparr>q8_d = 0x3c00, q8_qs = replicate 32 0x81\<rparr>]" "\<lambda>_. f_one"]
  by (simp add: Let_def)

text \<open>
  C12: The code of a finite value is a codebook entry nearest to the scaled value, and on a tie the one of lower
  magnitude; the fused decoder of the error loops and the lookup table of the dot product decode
  it to the same number.
\<close>

theorem rocmfp4_code_nearest:
  assumes "is_finite x" "is_f32 x" "is_finite i" "is_f32 i" "0 \<le> fval i"
  shows "nearest_code rocmfp4_codebook (fkey (fmul x i)) (rocmfp4_decode (rocmfp4_best_index_scaled x i))
    \<and> fval (rocmfp4_decoded_mag_scaled x i) = of_int (rocmfp4_decode (rocmfp4_best_index_scaled x i))
    \<and> rocmfp4_decode_table (rocmfp4_best_index_scaled x i) = rocmfp4_decode (rocmfp4_best_index_scaled x i)"
  using best_index_nearest [OF assms] decoded_mag_decode [of x i] rocmfp4_decode_table_eq assms(1)
  by (simp add: rocmfp4_decoded_mag_scaled_def rocmfp4_best_index_scaled_def)

theorem rocmfp4_code_nearest_witness:
  "nearest_code rocmfp4_codebook (fkey (fmul f_one f_one)) (rocmfp4_decode (rocmfp4_best_index_scaled f_one f_one))"
proof -
  have "is_f32 f_one" using representable_dyadic [of 1 0] by (simp add: f_one_def fmax_def)
  then show ?thesis using rocmfp4_code_nearest [of f_one f_one] by (simp add: f_one_def)
qed

end
