(* ===== verification/RocmfpPack.thy ===== *)
theory RocmfpPack
  imports Rocmfp4
begin

section \<open>Packed codes of the ROCmFPX formats\<close>

text \<open>
  How \<open>ggml/rocmfpx/rocmfpx.c\<close> stores codes that do not fill a byte: eight 3-bit codes or four
  6-bit codes in three bytes, four 2-bit codes in one, two 4-bit codes in one, and for 5 and 7 bits a
  dense little-endian bit stream. The lemmas are the round trips. A mask \<open>(1 << k) - 1\<close> is
  written \<open>take_bit k\<close>.
\<close>

subsection \<open>Groups of three bytes\<close>

definition rocmfpx_fp3_pack8 :: "byte list \<Rightarrow> byte list" where
  "rocmfpx_fp3_pack8 c =
     [take_bit 3 (c ! 0) OR push_bit 3 (take_bit 3 (c ! 1)) OR push_bit 6 (take_bit 2 (c ! 2)),
      take_bit 1 (drop_bit 2 (c ! 2)) OR push_bit 1 (take_bit 3 (c ! 3)) OR push_bit 4 (take_bit 3 (c ! 4))
        OR push_bit 7 (take_bit 1 (c ! 5)),
      take_bit 2 (drop_bit 1 (c ! 5)) OR push_bit 2 (take_bit 3 (c ! 6)) OR push_bit 5 (take_bit 3 (c ! 7))]"

definition rocmfpx_fp3_unpack8 :: "byte list \<Rightarrow> byte list" where
  "rocmfpx_fp3_unpack8 src =
     [take_bit 3 (src ! 0),
      take_bit 3 (drop_bit 3 (src ! 0)),
      take_bit 2 (drop_bit 6 (src ! 0)) OR push_bit 2 (take_bit 1 (src ! 1)),
      take_bit 3 (drop_bit 1 (src ! 1)),
      take_bit 3 (drop_bit 4 (src ! 1)),
      take_bit 1 (drop_bit 7 (src ! 1)) OR push_bit 1 (take_bit 2 (src ! 2)),
      take_bit 3 (drop_bit 2 (src ! 2)),
      take_bit 3 (drop_bit 5 (src ! 2))]"

definition rocmfpx_fp6_pack4 :: "byte list \<Rightarrow> byte list" where
  "rocmfpx_fp6_pack4 c =
     [take_bit 6 (c ! 0) OR push_bit 6 (take_bit 2 (c ! 1)),
      take_bit 4 (drop_bit 2 (c ! 1)) OR push_bit 4 (take_bit 4 (c ! 2)),
      take_bit 2 (drop_bit 4 (c ! 2)) OR push_bit 2 (take_bit 6 (c ! 3))]"

definition rocmfpx_fp6_unpack4 :: "byte list \<Rightarrow> byte list" where
  "rocmfpx_fp6_unpack4 src =
     [take_bit 6 (src ! 0),
      take_bit 2 (drop_bit 6 (src ! 0)) OR push_bit 2 (take_bit 4 (src ! 1)),
      take_bit 4 (drop_bit 4 (src ! 1)) OR push_bit 4 (take_bit 2 (src ! 2)),
      take_bit 6 (drop_bit 2 (src ! 2))]"

text \<open>Bytes are compared bit by bit.\<close>

lemma byte_bits:
  fixes a b :: byte
  shows "bit (a OR b) n \<longleftrightarrow> bit a n \<or> bit b n"
    and "bit (push_bit k a) n \<longleftrightarrow> k \<le> n \<and> n < 8 \<and> bit a (n - k)"
    and "bit (drop_bit k a) n \<longleftrightarrow> bit a (k + n)"
    and "bit (take_bit k a) n \<longleftrightarrow> n < k \<and> bit a n"
  by (auto simp: bit_or_iff bit_push_bit_iff bit_drop_bit_eq bit_take_bit_iff)

lemma byte_bits_high: "8 \<le> n \<Longrightarrow> \<not> bit (a :: byte) n"
  by (auto dest: bit_imp_le_length)

lemma byte_eqI: "(\<And>n. n \<in> {0, 1, 2, 3, 4, 5, 6, 7} \<Longrightarrow> bit (a :: byte) n = bit b n) \<Longrightarrow> a = b"
proof (rule bit_word_eqI)
  fix n assume "\<And>n. n \<in> {0, 1, 2, 3, 4, 5, 6, 7} \<Longrightarrow> bit a n = bit b n" "n < LENGTH(8)"
  moreover from this(2) have "n \<in> {0, 1, 2, 3, 4, 5, 6, 7}" by (simp, presburger)
  ultimately show "bit a n = bit b n" by blast
qed

lemma list_items:
  "[a, b, c] ! 0 = a" "[a, b, c] ! 1 = b" "[a, b, c] ! 2 = c"
  "(a # b # c # d # xs) ! 0 = a" "(a # b # c # d # xs) ! 1 = b" "(a # b # c # d # xs) ! 2 = c" "(a # b # c # d # xs) ! 3 = d"
  "(a # b # c # d # e # f # g # h # xs) ! 4 = e" "(a # b # c # d # e # f # g # h # xs) ! 5 = f"
  "(a # b # c # d # e # f # g # h # xs) ! 6 = g" "(a # b # c # d # e # f # g # h # xs) ! 7 = h"
  by simp_all

lemma fp3_unpack_pack:
  assumes "length c = 8"
  shows "rocmfpx_fp3_unpack8 (rocmfpx_fp3_pack8 c) = map (take_bit 3) c"
proof -
  obtain c0 c1 c2 c3 c4 c5 c6 c7 where c: "c = [c0, c1, c2, c3, c4, c5, c6, c7]"
    using assms by (auto simp: numeral_eq_Suc length_Suc_conv)
  show ?thesis
    unfolding c rocmfpx_fp3_unpack8_def rocmfpx_fp3_pack8_def list_items list.map list.inject
    by (intro conjI refl byte_eqI; unfold byte_bits insert_iff empty_iff; elim disjE; simp add: byte_bits_high numeral_eq_Suc)
qed

lemma fp6_unpack_pack:
  assumes "length c = 4"
  shows "rocmfpx_fp6_unpack4 (rocmfpx_fp6_pack4 c) = map (take_bit 6) c"
proof -
  obtain c0 c1 c2 c3 where c: "c = [c0, c1, c2, c3]"
    using assms by (auto simp: numeral_eq_Suc length_Suc_conv)
  show ?thesis
    unfolding c rocmfpx_fp6_unpack4_def rocmfpx_fp6_pack4_def list_items list.map list.inject
    by (intro conjI refl byte_eqI; unfold byte_bits insert_iff empty_iff; elim disjE; simp add: byte_bits_high numeral_eq_Suc)
qed

lemma pack_lengths [simp]: "length (rocmfpx_fp3_pack8 c) = 3" "length (rocmfpx_fp6_pack4 c) = 3"
  "length (rocmfpx_fp3_unpack8 c) = 8" "length (rocmfpx_fp6_unpack4 c) = 4"
  by (simp_all add: rocmfpx_fp3_pack8_def rocmfpx_fp6_pack4_def rocmfpx_fp3_unpack8_def rocmfpx_fp6_unpack4_def)

subsection \<open>The bit stream\<close>

definition rocmfpx_pack_linear_code :: "byte list \<Rightarrow> nat \<Rightarrow> nat \<Rightarrow> byte \<Rightarrow> byte list" where
  "rocmfpx_pack_linear_code qs index bits code =
     (let bt = index * bits; byt = bt div 8; shift = bt mod 8;
          packed = push_bit shift (ucast code :: 16 word);
          qs = qs[byt := qs ! byt OR ucast packed] in
      if shift + bits > 8 then qs[byt + 1 := qs ! (byt + 1) OR ucast (drop_bit 8 packed)] else qs)"

definition rocmfpx_unpack_linear_code :: "byte list \<Rightarrow> nat \<Rightarrow> nat \<Rightarrow> byte" where
  "rocmfpx_unpack_linear_code qs index bits =
     (let bt = index * bits; byt = bt div 8; shift = bt mod 8;
          packed = (ucast (qs ! byt) :: 16 word);
          packed = (if shift + bits > 8 then packed OR push_bit 8 (ucast (qs ! (byt + 1))) else packed) in
      ucast (take_bit bits (drop_bit shift packed)))"

text \<open>The payload as a sequence of bits.\<close>

definition payload_bit :: "byte list \<Rightarrow> nat \<Rightarrow> bool" where
  "payload_bit qs p \<longleftrightarrow> bit (qs ! (p div 8)) (p mod 8)"

lemma pack_linear_length [simp]: "length (rocmfpx_pack_linear_code qs index bits code) = length qs"
  by (simp add: rocmfpx_pack_linear_code_def Let_def)

lemma packed_bits:
  fixes code :: byte
  assumes "s < 8"
  shows "t < 8 \<Longrightarrow> bit (ucast (push_bit s (ucast code :: 16 word)) :: byte) t \<longleftrightarrow> s \<le> t \<and> bit code (t - s)"
    and "t < 8 \<Longrightarrow> bit (ucast (drop_bit 8 (push_bit s (ucast code :: 16 word))) :: byte) t \<longleftrightarrow> bit code (8 + t - s)"
  using assms by (auto simp: bit_simps)

lemma pack_bit:
  assumes bits: "0 < bits" "bits \<le> 8" and code: "take_bit bits code = code"
    and fits: "(index + 1) * bits \<le> 8 * length qs" and p: "p < 8 * length qs"
  shows "payload_bit (rocmfpx_pack_linear_code qs index bits code) p
    \<longleftrightarrow> payload_bit qs p \<or> (index * bits \<le> p \<and> bit code (p - index * bits))"
proof -
  define B s P t where d: "B = index * bits div 8" "s = index * bits mod 8" "P = p div 8" "t = p mod 8"
  have b: "index * bits = 8 * B + s" "s < 8" and pp: "p = 8 * P + t" "t < 8" by (simp_all add: d)
  have hi: "\<not> bit code n" if "bits \<le> n" for n using bit_take_bit_iff [of bits code n] that unfolding code by simp
  have PB: "P < length qs" "B < length qs" proof -
    show "P < length qs" using p by (simp add: d less_mult_imp_div_less mult.commute)
    have "8 * B < (index + 1) * bits" using b(1) bits(1) by simp
    also have "\<dots> \<le> 8 * length qs" by (rule fits)
    finally show "B < length qs" by simp
  qed
  note [simp] = packed_bits [OF b(2)]
  have pack: "rocmfpx_pack_linear_code qs index bits code =
      (let qs' = qs[B := qs ! B OR ucast (push_bit s (ucast code :: 16 word))] in
       if s + bits > 8 then qs'[B + 1 := qs' ! (B + 1) OR ucast (drop_bit 8 (push_bit s (ucast code :: 16 word)))] else qs')"
    by (simp add: rocmfpx_pack_linear_code_def d Let_def)
  have bitP: "payload_bit ys p \<longleftrightarrow> bit (ys ! P) t" for ys by (simp add: payload_bit_def d)
  consider "P < B" | "P = B" | "P = B + 1" | "B + 1 < P" by linarith
  then show ?thesis
  proof cases
    case 1
    moreover have "\<not> index * bits \<le> p" using 1 b pp by linarith
    ultimately show ?thesis unfolding pack bitP Let_def by simp
  next
    case 2
    have "index * bits \<le> p \<longleftrightarrow> s \<le> t" "p - index * bits = t - s" using b pp 2 by simp_all
    then show ?thesis using PB pp(2) 2 unfolding pack bitP Let_def by (simp add: bit_or_iff)
  next
    case 3
    have le: "index * bits \<le> p" "p - index * bits = 8 + t - s" using b pp 3 by simp_all
    show ?thesis
    proof (cases "s + bits > 8")
      case True
      then show ?thesis using PB pp(2) 3 unfolding pack bitP Let_def le(2) by (simp add: bit_or_iff le(1))
    next
      case False
      then have "\<not> bit code (8 + t - s)" by (intro hi) simp
      then show ?thesis using False 3 unfolding pack bitP Let_def le(2) by simp
    qed
  next
    case 4
    then have "\<not> bit code (p - index * bits)" using b pp bits by (intro hi) linarith
    then show ?thesis using 4 unfolding pack bitP Let_def by simp
  qed
qed

lemma unpack_bit:
  assumes "bits \<le> 8" "n < 8"
  shows "bit (rocmfpx_unpack_linear_code qs index bits) n \<longleftrightarrow> n < bits \<and> payload_bit qs (index * bits + n)"
proof -
  define B s where d: "B = index * bits div 8" "s = index * bits mod 8"
  have b: "index * bits = 8 * B + s" "s < 8" by (simp_all add: d)
  let ?p = "if s + bits > 8 then (ucast (qs ! B) :: 16 word) OR push_bit 8 (ucast (qs ! (B + 1))) else ucast (qs ! B)"
  have un: "bit (rocmfpx_unpack_linear_code qs index bits) n \<longleftrightarrow> n < bits \<and> bit ?p (s + n)"
    using assms(2) unfolding rocmfpx_unpack_linear_code_def Let_def d [symmetric]
    by (simp add: bit_ucast_iff bit_take_bit_iff bit_drop_bit_eq)
  show ?thesis
  proof (cases "n < bits")
    case lt: True
    show ?thesis
    proof (cases "s + n < 8")
      case True
      have "(index * bits + n) div 8 = B" "(index * bits + n) mod 8 = s + n"
        unfolding b(1) using True by (simp_all add: add.assoc)
      then show ?thesis using lt True unfolding un payload_bit_def by (simp add: bit_or_iff bit_push_bit_iff bit_ucast_iff)
    next
      case False
      then have s: "s + n = 8 + (s + n - 8)" "s + n - 8 < 8" "s + bits > 8" using b(2) assms lt by simp_all
      have "index * bits + n = 8 * (B + 1) + (s + n - 8)" unfolding b(1) using s(1) by simp
      then have "(index * bits + n) div 8 = B + 1" "(index * bits + n) mod 8 = s + n - 8"
        using s(2) by (simp_all only: div_mult_self4 mod_mult_self4) simp_all
      moreover have "\<not> bit (qs ! B) (s + n)" using False by (intro byte_bits_high) simp
      ultimately show ?thesis using lt False s b(2) assms(2) unfolding un payload_bit_def
        by (simp add: bit_or_iff bit_push_bit_iff bit_ucast_iff)
    qed
  qed (simp add: un)
qed

text \<open>Packing codes one after the other into a zeroed payload.\<close>

definition pack_codes :: "nat \<Rightarrow> byte list \<Rightarrow> nat \<Rightarrow> byte list \<Rightarrow> byte list" where
  "pack_codes bits qs off codes =
     foldl (\<lambda>qs (index, code). rocmfpx_pack_linear_code qs index bits code) qs (enumerate off codes)"

lemma pack_codes_length [simp]: "length (pack_codes bits qs off codes) = length qs"
  by (induction codes rule: rev_induct) (simp_all add: pack_codes_def enumerate_append_eq)

lemma pack_codes_append: "pack_codes bits (pack_codes bits qs off as) (off + length as) bs = pack_codes bits qs off (as @ bs)"
  by (simp add: pack_codes_def enumerate_append_eq)

lemma pack_codes_bit:
  assumes "0 < bits" "bits \<le> 8" "\<forall>c \<in> set codes. take_bit bits c = c" "length codes * bits \<le> 8 * length qs"
    "p < 8 * length qs"
  shows "payload_bit (pack_codes bits qs 0 codes) p
    \<longleftrightarrow> payload_bit qs p \<or> (\<exists>i < length codes. i * bits \<le> p \<and> bit (codes ! i) (p - i * bits))"
  using assms(3,4)
proof (induction codes rule: rev_induct)
  case Nil
  show ?case by (simp add: pack_codes_def)
next
  case (snoc c cs)
  let ?q = "pack_codes bits qs 0 cs"
  have "payload_bit (rocmfpx_pack_linear_code ?q (length cs) bits c) p
      \<longleftrightarrow> payload_bit ?q p \<or> (length cs * bits \<le> p \<and> bit c (p - length cs * bits))"
    by (rule pack_bit) (use assms snoc.prems in simp_all)
  moreover have "pack_codes bits qs 0 (cs @ [c]) = rocmfpx_pack_linear_code ?q (length cs) bits c"
    by (simp add: pack_codes_def enumerate_append_eq)
  ultimately show ?case using snoc by (auto simp: nth_append less_Suc_eq)
qed

lemma unpack_pack_codes:
  assumes "0 < bits" "bits \<le> 8" "\<forall>c \<in> set codes. take_bit bits c = c" "length codes * bits \<le> 8 * n" "i < length codes"
  shows "rocmfpx_unpack_linear_code (pack_codes bits (replicate n 0) 0 codes) i bits = codes ! i"
proof (rule byte_eqI)
  fix m :: nat assume "m \<in> {0, 1, 2, 3, 4, 5, 6, 7}"
  then have m: "m < 8" by auto
  have hi: "\<not> bit (codes ! j) k" if "bits \<le> k" "j < length codes" for j k
    using bit_take_bit_iff [of bits "codes ! j" k] that assms(3) by simp
  have "bit (rocmfpx_unpack_linear_code (pack_codes bits (replicate n 0) 0 codes) i bits) m
      \<longleftrightarrow> m < bits \<and> payload_bit (pack_codes bits (replicate n 0) 0 codes) (i * bits + m)"
    by (rule unpack_bit [OF assms(2) m])
  also have "\<dots> \<longleftrightarrow> m < bits \<and> bit (codes ! i) m"
  proof (cases "m < bits")
    case True
    have "i * bits + m < (i + 1) * bits" using True by simp
    also have "\<dots> \<le> length codes * bits" using assms(5) by (intro mult_le_mono1) simp
    finally have p: "i * bits + m < 8 * n" using assms(4) by linarith
    have "(\<exists>j < length codes. j * bits \<le> i * bits + m \<and> bit (codes ! j) (i * bits + m - j * bits)) \<longleftrightarrow> bit (codes ! i) m"
    proof
      assume "\<exists>j < length codes. j * bits \<le> i * bits + m \<and> bit (codes ! j) (i * bits + m - j * bits)"
      then obtain j where j: "j < length codes" "j * bits \<le> i * bits + m" "bit (codes ! j) (i * bits + m - j * bits)" by blast
      have "i * bits + m - j * bits < bits" using hi [of "i * bits + m - j * bits" j] j by force
      then have "j = (i * bits + m) div bits" using j(2) assms(1) by (intro div_nat_eqI [symmetric]) (simp_all add: algebra_simps)
      also have "\<dots> = i" using True by simp
      finally show "bit (codes ! i) m" using j(3) by simp
    qed (use assms(5) in auto)
    moreover have "\<not> payload_bit (replicate n 0) (i * bits + m)" using p by (simp add: payload_bit_def)
    ultimately show ?thesis using pack_codes_bit [OF assms(1-3), of "replicate n 0" "i * bits + m"] assms(4) p True by simp
  qed simp
  also have "\<dots> \<longleftrightarrow> bit (codes ! i) m" using hi [of m i] assms(5) by force
  finally show "bit (rocmfpx_unpack_linear_code (pack_codes bits (replicate n 0) 0 codes) i bits) m = bit (codes ! i) m" .
qed

end
