(* ===== verification/Rocmfpx.thy ===== *)
theory Rocmfpx
  imports RocmfpPack
begin

unbundle bit_operations_syntax

section \<open>The ROCmFPX formats\<close>

text \<open>
  The formats of \<open>ggml/rocmfpx/rocmfpx.c\<close>: signed codes of 2, 3, 5, 6, 7 and 8 bits and the 4-bit
  integers of \<open>ROCmI4\<close>, in blocks of 32 values with one scale byte per half block or per block.
  The theory has the codes, the error functions and the search for a scale, quantization,
  dequantization and validation of rows. The codes of 5 bits and more round with \<open>lroundf\<close>, which
  has no result beyond the range of \<open>long\<close>; there, and where an \<open>assert\<close> fails, the result is \<open>None\<close>.
\<close>

subsection \<open>Maxima and weights\<close>

definition rocmfpx_max_abs :: "float32 list \<Rightarrow> float32" where
  "rocmfpx_max_abs xs = foldl (\<lambda>max_abs x.
     if \<not> is_finite x then max_abs
     else let ax = fabs x in if fless max_abs ax then ax else max_abs) f_zero xs"

definition rocmfpx_weight :: "float32 \<Rightarrow> float32 \<times> float32 \<Rightarrow> float32" where
  "rocmfpx_weight sigma2 = (\<lambda>(x, qw).
     if is_finite qw \<and> fless f_zero qw \<and> is_finite x then fmul qw (fsqrt (fadd sigma2 (fmul x x))) else f_zero)"

definition rocmfpx_prepare_elem :: "float32 \<Rightarrow> mse_weights \<Rightarrow> float32 \<times> float32 \<Rightarrow> mse_weights" where
  "rocmfpx_prepare_elem sigma2 st = (\<lambda>(x, qw).
     let ax = fabs x;
         weight = rocmfpx_weight sigma2 (x, qw);
         st = st\<lparr>mw_all_finite := mw_all_finite st \<and> is_finite x\<rparr>;
         st = (if is_finite x then
             if fless (mw_max_abs st) ax then st\<lparr>mw_max_abs := ax, mw_max_abs_weight := weight\<rparr>
             else if feq ax (mw_max_abs st) \<and> fless (mw_max_abs_weight st) weight then st\<lparr>mw_max_abs_weight := weight\<rparr>
             else st
           else st)
     in st\<lparr>mw_dst := mw_dst st @ [weight]\<rparr>)"

definition rocmfpx_prepare_mse_weights :: "float32 list \<Rightarrow> float32 list \<Rightarrow> float32 \<Rightarrow> mse_weights" where
  "rocmfpx_prepare_mse_weights xs quant_weights sigma2 =
     foldl (rocmfpx_prepare_elem sigma2)
       \<lparr>mw_dst = [], mw_max_abs = f_zero, mw_max_abs_weight = f_zero, mw_all_finite = True\<rparr> (zip xs quant_weights)"

text \<open>The loops skip elements that are not finite.\<close>

definition skip_nonfinite :: "(float32 \<times> float32 option) list \<Rightarrow> (float32 \<times> float32 option) list" where
  "skip_nonfinite xs = filter (\<lambda>(x, w). is_finite x) xs"

text \<open>\<open>weights ? weights[i] : 1.0f\<close>\<close>

definition weight_or_one :: "float32 list \<Rightarrow> float32 list option \<Rightarrow> (float32 \<times> float32 option) list" where
  "weight_or_one xs mse_weights = (case mse_weights of
     Some ws \<Rightarrow> weighted xs ws
   | None \<Rightarrow> map (\<lambda>x. (x, Some f_one)) xs)"

text \<open>The loop over \<open>delta\<close>, which every format has with its own error function and clipping test.\<close>

definition rocmfpx_search :: "(nat \<Rightarrow> float32 \<Rightarrow> float32 option) \<Rightarrow> (nat \<Rightarrow> float32 \<Rightarrow> bool) \<Rightarrow> float32 \<Rightarrow> nat option" where
  "rocmfpx_search err clip target =
     (let start_e = rocmfpx_nearest_scale_ue4m3 target in search_scale err clip start_e (start_e, FInf False))"

definition rocmfpx_clip :: "nat \<Rightarrow> float32 \<Rightarrow> float32 option \<Rightarrow> nat \<Rightarrow> float32 \<Rightarrow> bool" where
  "rocmfpx_clip max_code max_abs max_abs_weight e0 best_err =
     (let scale = rocmfpx_scale_lookup e0;
          clip_delta = fsub max_abs (fmul (f_of_int (int max_code)) scale);
          clip_err = err_term max_abs_weight clip_delta in
      fless f_zero clip_delta \<and> fless best_err clip_err)"

subsection \<open>Two bits\<close>

definition rocmfpx_decode_fp2_code :: "byte \<Rightarrow> int" where
  "rocmfpx_decode_fp2_code code = [-4, -1, 1, 4] ! unat (take_bit 2 code)"

fun signbit :: "float32 \<Rightarrow> bool" where
  "signbit (FFin s q) = s"
| "signbit (FInf s) = s"
| "signbit FNan = False"

definition rocmfpx_quantize_fp2_code :: "float32 \<Rightarrow> float32 \<Rightarrow> byte" where
  "rocmfpx_quantize_fp2_code x inv_scale =
     (if \<not> is_finite x \<or> \<not> fless f_zero inv_scale then 0
      else let magnitude = fabs (fmul x inv_scale); outer = fless (flit (5 / 2)) magnitude in
        if signbit x then if outer then 0 else 1
        else if outer then 3 else 2)"

definition rocmfpx_fp2_group_mse_for_scale ::
    "float32 list \<Rightarrow> float32 list option \<Rightarrow> nat \<Rightarrow> float32 \<Rightarrow> float32 option" where
  "rocmfpx_fp2_group_mse_for_scale xs mse_weights e best_err =
     (let scale = rocmfpx_scale_lookup e; inv_scale = inv_scale_of scale in
       block_mse (\<lambda>x. Some (f_of_int (rocmfpx_decode_fp2_code (rocmfpx_quantize_fp2_code x inv_scale)))) scale
         (skip_nonfinite (weight_or_one xs mse_weights)) best_err)"

definition rocmfpx_choose_scale_fp2_mse :: "float32 list \<Rightarrow> float32 list option \<Rightarrow> float32 \<Rightarrow> nat option" where
  "rocmfpx_choose_scale_fp2_mse xs quant_weights sigma2 =
     (let (max_abs, max_abs_weight, weights) = (case quant_weights of
          Some qw \<Rightarrow> (let w = rocmfpx_prepare_mse_weights xs qw sigma2 in
             (mw_max_abs w, mw_max_abs_weight w, Some (mw_dst w)))
        | None \<Rightarrow> (rocmfpx_max_abs xs, f_one, None)) in
      if \<not> fless f_zero max_abs \<or> \<not> is_finite max_abs then Some 0
      else rocmfpx_search (rocmfpx_fp2_group_mse_for_scale xs weights)
        (rocmfpx_clip 4 max_abs (Some max_abs_weight)) (fdiv max_abs (flit 4)))"

subsection \<open>Three bits\<close>

definition rocmfpx_decode_fp3_code :: "byte \<Rightarrow> int" where
  "rocmfpx_decode_fp3_code code =
     (let val = [0, 1, 2, 4] ! unat (take_bit 2 code) in if code AND 4 \<noteq> 0 then - val else val)"

definition rocmfpx_quantize_fp3_code :: "float32 \<Rightarrow> float32 \<Rightarrow> byte" where
  "rocmfpx_quantize_fp3_code x inv_scale =
     (if \<not> is_finite x \<or> fle inv_scale f_zero then 0
      else let ax = fabs (fmul x inv_scale);
           mag = (if fle ax (flit (1 / 2)) then 0 else if fle ax (flit (3 / 2)) then 1
             else if fle ax (flit 3) then 2 else 3) in
        if mag = 0 then 0 else (if fless x f_zero then 4 else 0) OR mag)"

definition rocmfpx_fp3_decoded_mag :: "float32 \<Rightarrow> float32 \<Rightarrow> float32" where
  "rocmfpx_fp3_decoded_mag x inv_scale =
     (let a = fabs (fmul x inv_scale) in
      if fle a (flit (1 / 2)) then f_zero
      else let mag = (if fle a (flit (3 / 2)) then flit 1 else if fle a (flit 3) then flit 2 else flit 4) in
        if fless x f_zero then fneg mag else mag)"

definition rocmfpx_fp3_block_mse_for_scale :: "float32 list \<Rightarrow> nat \<Rightarrow> float32 \<Rightarrow> float32 option" where
  "rocmfpx_fp3_block_mse_for_scale xs e best_err =
     (let scale = rocmfpx_scale_lookup e; inv_scale = inv_scale_of scale in
       block_mse (\<lambda>x. Some (rocmfpx_fp3_decoded_mag x inv_scale)) scale (skip_nonfinite (unweighted xs)) best_err)"

definition rocmfpx_fp3_block_mse_for_scale_finite :: "float32 list \<Rightarrow> nat \<Rightarrow> float32 \<Rightarrow> float32 option" where
  "rocmfpx_fp3_block_mse_for_scale_finite xs e best_err =
     (let scale = rocmfpx_scale_lookup e; inv_scale = inv_scale_of scale in
       block_mse (\<lambda>x. Some (rocmfpx_fp3_decoded_mag x inv_scale)) scale (unweighted xs) best_err)"

definition rocmfpx_fp3_block_weighted_mse_for_scale ::
    "float32 list \<Rightarrow> float32 list \<Rightarrow> nat \<Rightarrow> float32 \<Rightarrow> float32 option" where
  "rocmfpx_fp3_block_weighted_mse_for_scale xs mse_weights e best_err =
     (let scale = rocmfpx_scale_lookup e; inv_scale = inv_scale_of scale in
       block_mse (\<lambda>x. Some (rocmfpx_fp3_decoded_mag x inv_scale)) scale (skip_nonfinite (weighted xs mse_weights)) best_err)"

definition rocmfpx_fp3_block_weighted_mse_for_scale_finite ::
    "float32 list \<Rightarrow> float32 list \<Rightarrow> nat \<Rightarrow> float32 \<Rightarrow> float32 option" where
  "rocmfpx_fp3_block_weighted_mse_for_scale_finite xs mse_weights e best_err =
     (let scale = rocmfpx_scale_lookup e; inv_scale = inv_scale_of scale in
       block_mse (\<lambda>x. Some (rocmfpx_fp3_decoded_mag x inv_scale)) scale (weighted xs mse_weights) best_err)"

definition rocmfpx_choose_scale_fp3_mse_impl ::
    "float32 list \<Rightarrow> float32 list option \<Rightarrow> float32 \<Rightarrow> float32 \<Rightarrow> bool \<Rightarrow> nat option" where
  "rocmfpx_choose_scale_fp3_mse_impl xs mse_weights max_abs max_abs_weight all_finite =
     rocmfpx_search
       (case mse_weights of
          Some ws \<Rightarrow> if all_finite then rocmfpx_fp3_block_weighted_mse_for_scale_finite xs ws
            else rocmfpx_fp3_block_weighted_mse_for_scale xs ws
        | None \<Rightarrow> if all_finite then rocmfpx_fp3_block_mse_for_scale_finite xs
            else rocmfpx_fp3_block_mse_for_scale xs)
       (rocmfpx_clip 4 max_abs (map_option (\<lambda>_. max_abs_weight) mse_weights)) (fdiv max_abs (flit 4))"

definition rocmfpx_choose_scale_fp3_mse :: "float32 list \<Rightarrow> nat option" where
  "rocmfpx_choose_scale_fp3_mse xs = (let max_abs = rocmfpx_max_abs xs in
     if \<not> fless f_zero max_abs \<or> \<not> is_finite max_abs then Some 0
     else rocmfpx_choose_scale_fp3_mse_impl xs None max_abs f_zero (list_all is_finite xs))"

definition rocmfpx_choose_scale_fp3_weighted_mse :: "float32 list \<Rightarrow> float32 list \<Rightarrow> float32 \<Rightarrow> nat option" where
  "rocmfpx_choose_scale_fp3_weighted_mse xs quant_weights sigma2 = do {
     check (length xs \<le> 32);
     let w = rocmfpx_prepare_mse_weights xs quant_weights sigma2 in
     if \<not> fless f_zero (mw_max_abs w) \<or> \<not> is_finite (mw_max_abs w) then Some 0
     else rocmfpx_choose_scale_fp3_mse_impl xs (Some (mw_dst w)) (mw_max_abs w) (mw_max_abs_weight w) (mw_all_finite w) }"

subsection \<open>Six bits\<close>

text \<open>\<open>(int) lroundf (x * inv_scale)\<close>, then the clamp.\<close>

definition lround_int :: "float32 \<Rightarrow> float32 \<Rightarrow> int option" where
  "lround_int x inv_scale = map_option long_to_int (lroundf (fmul x inv_scale))"

definition clamp_int :: "int \<Rightarrow> int \<Rightarrow> int \<Rightarrow> int" where
  "clamp_int low high q = (if q > high then high else if q < low then low else q)"

definition rocmfpx_decode_fp6_code :: "byte \<Rightarrow> int" where
  "rocmfpx_decode_fp6_code code =
     (let mag = uint (take_bit 5 code) in
      if code AND 32 \<noteq> 0 then - (if mag = 0 then 32 else mag) else mag)"

definition rocmfpx_quantize_fp6_code :: "float32 \<Rightarrow> float32 \<Rightarrow> byte option" where
  "rocmfpx_quantize_fp6_code x inv_scale =
     (if \<not> is_finite x \<or> \<not> is_finite inv_scale \<or> fle inv_scale f_zero then Some 0
      else do {
        q \<leftarrow> lround_int x inv_scale;
        let q = clamp_int (- 32) 31 q in
        Some (if q = 0 then 0 else if q < 0 then 32 OR take_bit 5 (word_of_int (- q)) else word_of_int q) })"

definition rocmfpx_fp6_decoded_value :: "float32 \<Rightarrow> float32 \<Rightarrow> float32 option" where
  "rocmfpx_fp6_decoded_value x inv_scale = do {
     q \<leftarrow> lround_int x inv_scale;
     Some (f_of_int (clamp_int (- 32) 31 q)) }"

definition rocmfpx_fp6_block_mse_for_scale :: "float32 list \<Rightarrow> nat \<Rightarrow> float32 \<Rightarrow> float32 option" where
  "rocmfpx_fp6_block_mse_for_scale xs e best_err =
     (let scale = rocmfpx_scale_lookup e; inv_scale = inv_scale_of scale in
       block_mse (\<lambda>x. rocmfpx_fp6_decoded_value x inv_scale) scale (skip_nonfinite (unweighted xs)) best_err)"

definition rocmfpx_fp6_block_mse_for_scale_finite :: "float32 list \<Rightarrow> nat \<Rightarrow> float32 \<Rightarrow> float32 option" where
  "rocmfpx_fp6_block_mse_for_scale_finite xs e best_err =
     (let scale = rocmfpx_scale_lookup e; inv_scale = inv_scale_of scale in
       block_mse (\<lambda>x. rocmfpx_fp6_decoded_value x inv_scale) scale (unweighted xs) best_err)"

definition rocmfpx_fp6_block_weighted_mse_for_scale ::
    "float32 list \<Rightarrow> float32 list \<Rightarrow> nat \<Rightarrow> float32 \<Rightarrow> float32 option" where
  "rocmfpx_fp6_block_weighted_mse_for_scale xs mse_weights e best_err =
     (let scale = rocmfpx_scale_lookup e; inv_scale = inv_scale_of scale in
       block_mse (\<lambda>x. rocmfpx_fp6_decoded_value x inv_scale) scale (skip_nonfinite (weighted xs mse_weights)) best_err)"

definition rocmfpx_fp6_block_weighted_mse_for_scale_finite ::
    "float32 list \<Rightarrow> float32 list \<Rightarrow> nat \<Rightarrow> float32 \<Rightarrow> float32 option" where
  "rocmfpx_fp6_block_weighted_mse_for_scale_finite xs mse_weights e best_err =
     (let scale = rocmfpx_scale_lookup e; inv_scale = inv_scale_of scale in
       block_mse (\<lambda>x. rocmfpx_fp6_decoded_value x inv_scale) scale (weighted xs mse_weights) best_err)"

definition rocmfpx_choose_scale_fp6_mse_impl ::
    "float32 list \<Rightarrow> float32 list option \<Rightarrow> float32 \<Rightarrow> float32 \<Rightarrow> bool \<Rightarrow> nat option" where
  "rocmfpx_choose_scale_fp6_mse_impl xs mse_weights max_abs max_abs_weight all_finite =
     rocmfpx_search
       (case mse_weights of
          Some ws \<Rightarrow> if all_finite then rocmfpx_fp6_block_weighted_mse_for_scale_finite xs ws
            else rocmfpx_fp6_block_weighted_mse_for_scale xs ws
        | None \<Rightarrow> if all_finite then rocmfpx_fp6_block_mse_for_scale_finite xs
            else rocmfpx_fp6_block_mse_for_scale xs)
       (rocmfpx_clip 31 max_abs (map_option (\<lambda>_. max_abs_weight) mse_weights)) (fdiv max_abs (flit 31))"

definition rocmfpx_choose_scale_fp6_mse :: "float32 list \<Rightarrow> nat option" where
  "rocmfpx_choose_scale_fp6_mse xs = (let max_abs = rocmfpx_max_abs xs in
     if \<not> fless f_zero max_abs \<or> \<not> is_finite max_abs then Some 0
     else rocmfpx_choose_scale_fp6_mse_impl xs None max_abs f_zero (list_all is_finite xs))"

definition rocmfpx_choose_scale_fp6_weighted_mse :: "float32 list \<Rightarrow> float32 list \<Rightarrow> float32 \<Rightarrow> nat option" where
  "rocmfpx_choose_scale_fp6_weighted_mse xs quant_weights sigma2 = do {
     check (length xs \<le> 32);
     let w = rocmfpx_prepare_mse_weights xs quant_weights sigma2 in
     if \<not> fless f_zero (mw_max_abs w) \<or> \<not> is_finite (mw_max_abs w) then Some 0
     else rocmfpx_choose_scale_fp6_mse_impl xs (Some (mw_dst w)) (mw_max_abs w) (mw_max_abs_weight w) (mw_all_finite w) }"

subsection \<open>Eight bits\<close>

definition rocmfpx_quantize_fp8_code :: "float32 \<Rightarrow> float32 \<Rightarrow> byte option" where
  "rocmfpx_quantize_fp8_code x inv_scale =
     (if \<not> is_finite x \<or> fle inv_scale f_zero then Some 0
      else do {
        q \<leftarrow> lround_int x inv_scale;
        Some (word_of_int (clamp_int (- 127) 127 q)) })"

definition rocmfpx_fp8_block_weighted_mse_for_scale ::
    "float32 list \<Rightarrow> float32 list \<Rightarrow> nat \<Rightarrow> float32 \<Rightarrow> float32 option" where
  "rocmfpx_fp8_block_weighted_mse_for_scale xs mse_weights e best_err =
     (let scale = rocmfpx_scale_lookup e; inv_scale = inv_scale_of scale in
       block_mse (\<lambda>x. map_option (\<lambda>code. f_of_int (sint code)) (rocmfpx_quantize_fp8_code x inv_scale)) scale
         (skip_nonfinite (weighted xs mse_weights)) best_err)"

definition rocmfpx_fp8_block_weighted_mse_for_scale_finite ::
    "float32 list \<Rightarrow> float32 list \<Rightarrow> nat \<Rightarrow> float32 \<Rightarrow> float32 option" where
  "rocmfpx_fp8_block_weighted_mse_for_scale_finite xs mse_weights e best_err =
     (let scale = rocmfpx_scale_lookup e; inv_scale = inv_scale_of scale in
       block_mse (\<lambda>x. map_option (\<lambda>code. f_of_int (sint code)) (rocmfpx_quantize_fp8_code x inv_scale)) scale
         (weighted xs mse_weights) best_err)"

definition rocmfpx_choose_scale_fp8_weighted_mse :: "float32 list \<Rightarrow> float32 list \<Rightarrow> float32 \<Rightarrow> nat option" where
  "rocmfpx_choose_scale_fp8_weighted_mse xs quant_weights sigma2 = do {
     check (length xs \<le> 32);
     let w = rocmfpx_prepare_mse_weights xs quant_weights sigma2 in
     if \<not> fless f_zero (mw_max_abs w) \<or> \<not> is_finite (mw_max_abs w) then Some 0
     else rocmfpx_search
       (if mw_all_finite w then rocmfpx_fp8_block_weighted_mse_for_scale_finite xs (mw_dst w)
        else rocmfpx_fp8_block_weighted_mse_for_scale xs (mw_dst w))
       (rocmfpx_clip 127 (mw_max_abs w) (Some (mw_max_abs_weight w))) (fdiv (mw_max_abs w) (flit 127)) }"

subsection \<open>Five and seven bits\<close>

definition rocmfpx_decode_linear_code :: "byte \<Rightarrow> nat \<Rightarrow> int" where
  "rocmfpx_decode_linear_code code bits =
     (let sign = push_bit (bits - 1) 1; mag = uint (code AND (sign - 1)) in
      if code AND sign \<noteq> 0 then - (if mag = 0 then uint sign else mag) else mag)"

definition rocmfpx_quantize_linear_code :: "float32 \<Rightarrow> float32 \<Rightarrow> nat \<Rightarrow> byte option" where
  "rocmfpx_quantize_linear_code x inv_scale bits =
     (if \<not> is_finite x \<or> \<not> is_finite inv_scale \<or> fle inv_scale f_zero then Some 0
      else let sign = 2 ^ (bits - 1) in do {
        q \<leftarrow> lround_int x inv_scale;
        let q = clamp_int (- sign) (sign - 1) q in
        Some (if q = 0 then 0
          else if q < 0 then word_of_int sign OR (word_of_int (- q) AND word_of_int (sign - 1)) else word_of_int q) })"

definition rocmfpx_linear_value :: "float32 \<Rightarrow> float32 \<Rightarrow> nat \<Rightarrow> int option" where
  "rocmfpx_linear_value x inv_scale bits = (let sign = 2 ^ (bits - 1) in do {
     q \<leftarrow> lround_int x inv_scale;
     Some (clamp_int (- sign) (sign - 1) q) })"

definition rocmfpx_linear_mse_for_scale ::
    "float32 list \<Rightarrow> float32 list option \<Rightarrow> nat \<Rightarrow> nat \<Rightarrow> float32 \<Rightarrow> float32 option" where
  "rocmfpx_linear_mse_for_scale xs weights bits e best_err =
     (let scale = rocmfpx_scale_lookup e; inv_scale = inv_scale_of scale in
       block_mse (\<lambda>x. map_option f_of_int (rocmfpx_linear_value x inv_scale bits)) scale
         (skip_nonfinite (weight_or_one xs weights)) best_err)"

definition rocmfpx_choose_scale_linear :: "float32 list \<Rightarrow> float32 list option \<Rightarrow> float32 \<Rightarrow> nat \<Rightarrow> nat option" where
  "rocmfpx_choose_scale_linear xs quant_weights sigma2 bits =
     (let (max_abs, max_abs_weight, weights) = (case quant_weights of
          Some qw \<Rightarrow> (let w = rocmfpx_prepare_mse_weights xs qw sigma2 in
             (mw_max_abs w, mw_max_abs_weight w, Some (mw_dst w)))
        | None \<Rightarrow> (rocmfpx_max_abs xs, f_one, None)) in
      if \<not> fless f_zero max_abs \<or> \<not> is_finite max_abs then Some 0
      else let max_code = 2 ^ (bits - 1) - 1 in
        rocmfpx_search (rocmfpx_linear_mse_for_scale xs weights bits)
          (rocmfpx_clip max_code max_abs (Some max_abs_weight)) (fdiv max_abs (f_of_int (int max_code))))"

subsection \<open>Four-bit integers\<close>

definition rocmi4_quantize_code :: "float32 \<Rightarrow> float32 \<Rightarrow> byte option" where
  "rocmi4_quantize_code x inv_scale =
     (if \<not> is_finite x \<or> fle inv_scale f_zero then Some 0
      else do {
        q \<leftarrow> lround_int x inv_scale;
        Some (word_of_int (clamp_int (- 8) 7 q)) })"

definition rocmi4_nibble_to_i8 :: "byte \<Rightarrow> int" where
  "rocmi4_nibble_to_i8 nibble = sint (if nibble AND 8 \<noteq> 0 then nibble OR 0xF0 else nibble AND 7)"

definition rocmfpx_i4_block_weighted_mse_for_scale ::
    "float32 list \<Rightarrow> float32 list \<Rightarrow> nat \<Rightarrow> float32 \<Rightarrow> float32 option" where
  "rocmfpx_i4_block_weighted_mse_for_scale xs mse_weights e best_err =
     (let scale = rocmfpx_scale_lookup e; inv_scale = inv_scale_of scale in
       block_mse (\<lambda>x. map_option (\<lambda>code. f_of_int (sint code)) (rocmi4_quantize_code x inv_scale)) scale
         (skip_nonfinite (weighted xs mse_weights)) best_err)"

definition rocmfpx_choose_scale_i4_weighted_mse :: "float32 list \<Rightarrow> float32 list \<Rightarrow> float32 \<Rightarrow> nat option" where
  "rocmfpx_choose_scale_i4_weighted_mse xs quant_weights sigma2 = do {
     check (length xs \<le> 32);
     let w = rocmfpx_prepare_mse_weights xs quant_weights sigma2 in
     if \<not> fless f_zero (mw_max_abs w) \<or> \<not> is_finite (mw_max_abs w) then Some 0
     else rocmfpx_search (rocmfpx_i4_block_weighted_mse_for_scale xs (mw_dst w))
       (rocmfpx_clip 7 (mw_max_abs w) (Some (mw_max_abs_weight w))) (fdiv (mw_max_abs w) (flit 7)) }"

subsection \<open>Rows\<close>

text \<open>
  \<open>block_rocmfp2\<close>, \<open>block_rocmfp3\<close>, \<open>block_rocmfp5\<close>, \<open>block_rocmfp6\<close> and \<open>block_rocmfp7\<close> have the
  same fields; they differ in the length of the payload.
\<close>

record block_rocmfpx =
  px_qs :: "byte list"
  px_e :: "byte list"

record block_rocmfp8 =
  p8_qs :: "byte list"
  p8_e :: byte

definition rocmfpx_sigma2 :: "float32 list \<Rightarrow> float32" where
  "rocmfpx_sigma2 x = fdiv (foldl (\<lambda>sum_x2 x. fadd sum_x2 (if is_finite x then fmul x x else f_zero)) f_zero x)
     (f_of_int (int (length x)))"

text \<open>The loop over the blocks of a row, and the loop over the halves of a block.\<close>

definition rocmfpx_blocks :: "(float32 list \<Rightarrow> float32 list option \<Rightarrow> 'b option) \<Rightarrow> float32 list \<Rightarrow> float32 list option
    \<Rightarrow> 'b list option" where
  "rocmfpx_blocks quantize_block x quant_weights = do {
     check (length x mod 32 = 0);
     those (map (\<lambda>ib. quantize_block (take 32 (drop (ib * 32) x))
       (map_option (\<lambda>w. take 32 (drop (ib * 32) w)) quant_weights)) [0..<length x div 32]) }"

definition rocmfpx_halves :: "(float32 list \<Rightarrow> float32 list option \<Rightarrow> (nat \<times> byte list) option)
    \<Rightarrow> float32 list \<Rightarrow> float32 list option \<Rightarrow> block_rocmfpx option" where
  "rocmfpx_halves quantize_half xb qw = do {
     (e0, qs0) \<leftarrow> quantize_half (take 16 xb) (map_option (take 16) qw);
     (e1, qs1) \<leftarrow> quantize_half (drop 16 xb) (map_option (drop 16) qw);
     Some \<lparr>px_qs = qs0 @ qs1, px_e = [of_nat e0, of_nat e1]\<rparr> }"

definition rocmfpx_fp2_pack4 :: "byte list \<Rightarrow> byte" where
  "rocmfpx_fp2_pack4 codes = foldl (\<lambda>b lane. b OR push_bit (2 * lane) (codes ! lane)) 0 [0..<4]"

definition fp2_quantize_half :: "float32 \<Rightarrow> float32 list \<Rightarrow> float32 list option \<Rightarrow> (nat \<times> byte list) option" where
  "fp2_quantize_half sigma2 xh qh = do {
     e \<leftarrow> rocmfpx_choose_scale_fp2_mse xh qh sigma2;
     let inv_scale = inv_scale_of (rocmfpx_scale_lookup e);
         codes = map (\<lambda>x. rocmfpx_quantize_fp2_code x inv_scale) xh in
     Some (e, map (\<lambda>packed. rocmfpx_fp2_pack4 (take 4 (drop (4 * packed) codes))) [0..<4]) }"

definition rocmfpx_quantize_row_fp2_impl :: "float32 list \<Rightarrow> float32 list option \<Rightarrow> block_rocmfpx list option" where
  "rocmfpx_quantize_row_fp2_impl x quant_weights =
     rocmfpx_blocks (rocmfpx_halves (fp2_quantize_half (rocmfpx_sigma2 x))) x quant_weights"

definition fp2_dequantize_block :: "block_rocmfpx \<Rightarrow> float32 list" where
  "fp2_dequantize_block xb = concat (map (\<lambda>half. let scale = rocmfpx_scale_lookup (unat (px_e xb ! half)) in
     map (\<lambda>j. let code = take_bit 2 (drop_bit (2 * (j mod 4)) (px_qs xb ! (half * 4 + j div 4))) in
       fmul (f_of_int (rocmfpx_decode_fp2_code code)) scale) [0..<16]) [0..<2])"

definition rocmfpx_dequantize_row_fp2 :: "block_rocmfpx list \<Rightarrow> nat \<Rightarrow> float32 list option" where
  "rocmfpx_dequantize_row_fp2 x k = do {
     check (k mod 32 = 0);
     Some (concat (map fp2_dequantize_block (take (k div 32) x))) }"

definition rocmfpx_fp3_codes :: "float32 list \<Rightarrow> nat \<Rightarrow> byte list" where
  "rocmfpx_fp3_codes xh e = (let inv_scale = inv_scale_of (rocmfpx_scale_lookup e);
       codes = map (\<lambda>x. rocmfpx_quantize_fp3_code x inv_scale) xh in
     rocmfpx_fp3_pack8 codes @ rocmfpx_fp3_pack8 (drop 8 codes))"

definition rocmfpx_quantize_row_fp3_ref :: "float32 list \<Rightarrow> block_rocmfpx list option" where
  "rocmfpx_quantize_row_fp3_ref x = rocmfpx_blocks (rocmfpx_halves (\<lambda>xh _. do {
     e \<leftarrow> rocmfpx_choose_scale_fp3_mse xh;
     Some (e, rocmfpx_fp3_codes xh e) })) x None"

definition rocmfpx_quantize_row_fp3_weighted :: "float32 list \<Rightarrow> float32 list option \<Rightarrow> block_rocmfpx list option" where
  "rocmfpx_quantize_row_fp3_weighted x quant_weights = (let sigma2 = rocmfpx_sigma2 x in
     rocmfpx_blocks (rocmfpx_halves (\<lambda>xh qh. do {
       e \<leftarrow> (case qh of Some qh \<Rightarrow> rocmfpx_choose_scale_fp3_weighted_mse xh qh sigma2
         | None \<Rightarrow> rocmfpx_choose_scale_fp3_mse xh);
       Some (e, rocmfpx_fp3_codes xh e) })) x quant_weights)"

definition fp3_dequantize_block :: "block_rocmfpx \<Rightarrow> float32 list" where
  "fp3_dequantize_block xb =
     (let qs = px_qs xb;
          codes = rocmfpx_fp3_unpack8 qs @ rocmfpx_fp3_unpack8 (drop 3 qs)
            @ rocmfpx_fp3_unpack8 (drop 6 qs) @ rocmfpx_fp3_unpack8 (drop 9 qs) in
      concat (map (\<lambda>half. let scale = rocmfpx_scale_lookup (unat (px_e xb ! half)) in
        map (\<lambda>j. fmul (f_of_int (rocmfpx_decode_fp3_code (codes ! (half * 16 + j)))) scale) [0..<16]) [0..<2]))"

definition rocmfpx_dequantize_row_fp3 :: "block_rocmfpx list \<Rightarrow> nat \<Rightarrow> float32 list option" where
  "rocmfpx_dequantize_row_fp3 x k = do {
     check (k mod 32 = 0);
     Some (concat (map fp3_dequantize_block (take (k div 32) x))) }"

definition rocmfpx_fp6_codes :: "float32 list \<Rightarrow> nat \<Rightarrow> byte list option" where
  "rocmfpx_fp6_codes xh e = (let inv_scale = inv_scale_of (rocmfpx_scale_lookup e) in do {
     codes \<leftarrow> those (map (\<lambda>x. rocmfpx_quantize_fp6_code x inv_scale) xh);
     Some (rocmfpx_fp6_pack4 codes @ rocmfpx_fp6_pack4 (drop 4 codes)
       @ rocmfpx_fp6_pack4 (drop 8 codes) @ rocmfpx_fp6_pack4 (drop 12 codes)) })"

definition rocmfpx_quantize_row_fp6_ref :: "float32 list \<Rightarrow> block_rocmfpx list option" where
  "rocmfpx_quantize_row_fp6_ref x = rocmfpx_blocks (rocmfpx_halves (\<lambda>xh _. do {
     e \<leftarrow> rocmfpx_choose_scale_fp6_mse xh;
     qs \<leftarrow> rocmfpx_fp6_codes xh e;
     Some (e, qs) })) x None"

definition rocmfpx_quantize_row_fp6_weighted :: "float32 list \<Rightarrow> float32 list option \<Rightarrow> block_rocmfpx list option" where
  "rocmfpx_quantize_row_fp6_weighted x quant_weights = (let sigma2 = rocmfpx_sigma2 x in
     rocmfpx_blocks (rocmfpx_halves (\<lambda>xh qh. do {
       e \<leftarrow> (case qh of Some qh \<Rightarrow> rocmfpx_choose_scale_fp6_weighted_mse xh qh sigma2
         | None \<Rightarrow> rocmfpx_choose_scale_fp6_mse xh);
       qs \<leftarrow> rocmfpx_fp6_codes xh e;
       Some (e, qs) })) x quant_weights)"

definition fp6_dequantize_block :: "block_rocmfpx \<Rightarrow> float32 list" where
  "fp6_dequantize_block xb =
     (let codes = concat (map (\<lambda>g. rocmfpx_fp6_unpack4 (drop (3 * g) (px_qs xb))) [0..<8]) in
      concat (map (\<lambda>half. let scale = rocmfpx_scale_lookup (unat (px_e xb ! half)) in
        map (\<lambda>j. fmul (f_of_int (rocmfpx_decode_fp6_code (codes ! (half * 16 + j)))) scale) [0..<16]) [0..<2]))"

definition rocmfpx_dequantize_row_fp6 :: "block_rocmfpx list \<Rightarrow> nat \<Rightarrow> float32 list option" where
  "rocmfpx_dequantize_row_fp6 x k = do {
     check (k mod 32 = 0);
     Some (concat (map fp6_dequantize_block (take (k div 32) x))) }"

definition rocmfpx_fp8_codes :: "float32 list \<Rightarrow> nat \<Rightarrow> block_rocmfp8 option" where
  "rocmfpx_fp8_codes xb e = (let inv_scale = inv_scale_of (rocmfpx_scale_lookup e) in do {
     qs \<leftarrow> those (map (\<lambda>x. rocmfpx_quantize_fp8_code x inv_scale) xb);
     Some \<lparr>p8_qs = qs, p8_e = of_nat e\<rparr> })"

definition rocmfpx_quantize_row_fp8_weighted :: "float32 list \<Rightarrow> float32 list option \<Rightarrow> block_rocmfp8 list option" where
  "rocmfpx_quantize_row_fp8_weighted x quant_weights = (let sigma2 = rocmfpx_sigma2 x in
     rocmfpx_blocks (\<lambda>xb qw. do {
       e \<leftarrow> (case qw of Some qw \<Rightarrow> rocmfpx_choose_scale_fp8_weighted_mse xb qw sigma2
         | None \<Rightarrow> Some (rocmfpx_nearest_scale_ue4m3 (fdiv (rocmfpx_max_abs xb) (flit 127))));
       rocmfpx_fp8_codes xb e }) x quant_weights)"

definition rocmfpx_quantize_row_fp8_ref :: "float32 list \<Rightarrow> block_rocmfp8 list option" where
  "rocmfpx_quantize_row_fp8_ref x = rocmfpx_blocks (\<lambda>xb _.
     let max_abs = rocmfpx_max_abs xb in
     rocmfpx_fp8_codes xb (rocmfpx_nearest_scale_ue4m3 (fdiv max_abs (flit 127)))) x None"

definition fp8_dequantize_block :: "block_rocmfp8 \<Rightarrow> float32 list" where
  "fp8_dequantize_block xb = (let scale = rocmfpx_scale_lookup (unat (p8_e xb)) in
     map (\<lambda>i. fmul (f_of_int (sint (p8_qs xb ! i))) scale) [0..<32])"

definition rocmfpx_dequantize_row_fp8 :: "block_rocmfp8 list \<Rightarrow> nat \<Rightarrow> float32 list option" where
  "rocmfpx_dequantize_row_fp8 x k = do {
     check (k mod 32 = 0);
     Some (concat (map fp8_dequantize_block (take (k div 32) x))) }"

text \<open>The formats of five and seven bits write into a payload of zeros.\<close>

definition linear_half :: "float32 \<Rightarrow> nat \<Rightarrow> byte list \<Rightarrow> nat \<Rightarrow> float32 list \<Rightarrow> float32 list option
    \<Rightarrow> (nat \<times> byte list) option" where
  "linear_half sigma2 bits block off xh weights = do {
     e \<leftarrow> rocmfpx_choose_scale_linear xh weights sigma2 bits;
     let inv_scale = inv_scale_of (rocmfpx_scale_lookup e) in do {
     codes \<leftarrow> those (map (\<lambda>x. rocmfpx_quantize_linear_code x inv_scale bits) xh);
     Some (e, pack_codes bits block off codes) } }"

definition linear_quantize_block :: "float32 \<Rightarrow> nat \<Rightarrow> float32 list \<Rightarrow> float32 list option \<Rightarrow> block_rocmfpx option" where
  "linear_quantize_block sigma2 bits xb qw = do {
     let block = replicate (32 * bits div 8) 0 in do {
     (e0, block) \<leftarrow> linear_half sigma2 bits block 0 (take 16 xb) (map_option (take 16) qw);
     (e1, block) \<leftarrow> linear_half sigma2 bits block 16 (drop 16 xb) (map_option (drop 16) qw);
     Some \<lparr>px_qs = block, px_e = [of_nat e0, of_nat e1]\<rparr> } }"

definition rocmfpx_quantize_row_linear :: "float32 list \<Rightarrow> float32 list option \<Rightarrow> nat \<Rightarrow> block_rocmfpx list option" where
  "rocmfpx_quantize_row_linear x quant_weights bits =
     (let sigma2 = (if quant_weights = None then f_zero else rocmfpx_sigma2 x) in
      rocmfpx_blocks (linear_quantize_block sigma2 bits) x quant_weights)"

definition linear_dequantize_block :: "nat \<Rightarrow> block_rocmfpx \<Rightarrow> float32 list" where
  "linear_dequantize_block bits xb = map (\<lambda>i.
     let scale = rocmfpx_scale_lookup (unat (px_e xb ! (i div 16))) in
     fmul (f_of_int (rocmfpx_decode_linear_code (rocmfpx_unpack_linear_code (px_qs xb) i bits) bits)) scale) [0..<32]"

definition rocmfpx_dequantize_row_linear :: "block_rocmfpx list \<Rightarrow> nat \<Rightarrow> nat \<Rightarrow> float32 list option" where
  "rocmfpx_dequantize_row_linear x k bits = do {
     check (k mod 32 = 0);
     Some (concat (map (linear_dequantize_block bits) (take (k div 32) x))) }"

text \<open>\<open>block_rocmi4\<close> has the fields of \<open>block_rocmfp8\<close>, with 16 bytes of payload.\<close>

definition rocmfpx_i4_codes :: "float32 list \<Rightarrow> nat \<Rightarrow> block_rocmfp8 option" where
  "rocmfpx_i4_codes xb e = (let inv_scale = inv_scale_of (rocmfpx_scale_lookup e) in do {
     qs \<leftarrow> those (map (\<lambda>j. do {
       q0 \<leftarrow> rocmi4_quantize_code (xb ! j) inv_scale;
       q1 \<leftarrow> rocmi4_quantize_code (xb ! (j + 16)) inv_scale;
       Some (take_bit 4 q0 OR push_bit 4 (take_bit 4 q1)) }) [0..<16]);
     Some \<lparr>p8_qs = qs, p8_e = of_nat e\<rparr> })"

definition rocmfpx_quantize_row_i4_weighted :: "float32 list \<Rightarrow> float32 list option \<Rightarrow> block_rocmfp8 list option" where
  "rocmfpx_quantize_row_i4_weighted x quant_weights = (let sigma2 = rocmfpx_sigma2 x in
     rocmfpx_blocks (\<lambda>xb qw. do {
       e \<leftarrow> (case qw of Some qw \<Rightarrow> rocmfpx_choose_scale_i4_weighted_mse xb qw sigma2
         | None \<Rightarrow> Some (rocmfpx_nearest_scale_ue4m3 (fdiv (rocmfpx_max_abs xb) (flit 7))));
       rocmfpx_i4_codes xb e }) x quant_weights)"

definition rocmfpx_quantize_row_i4_ref :: "float32 list \<Rightarrow> block_rocmfp8 list option" where
  "rocmfpx_quantize_row_i4_ref x = rocmfpx_blocks (\<lambda>xb _.
     let max_abs = rocmfpx_max_abs xb in
     rocmfpx_i4_codes xb (rocmfpx_nearest_scale_ue4m3 (fdiv max_abs (flit 7)))) x None"

definition i4_dequantize_block :: "block_rocmfp8 \<Rightarrow> float32 list" where
  "i4_dequantize_block xb = (let scale = rocmfpx_scale_lookup (unat (p8_e xb)) in
     map (\<lambda>j. fmul (f_of_int (rocmi4_nibble_to_i8 (p8_qs xb ! j AND 0x0F))) scale) [0..<16]
     @ map (\<lambda>j. fmul (f_of_int (rocmi4_nibble_to_i8 (drop_bit 4 (p8_qs xb ! j)))) scale) [0..<16])"

definition rocmfpx_dequantize_row_i4 :: "block_rocmfp8 list \<Rightarrow> nat \<Rightarrow> float32 list option" where
  "rocmfpx_dequantize_row_i4 x k = do {
     check (k mod 32 = 0);
     Some (concat (map i4_dequantize_block (take (k div 32) x))) }"

subsection \<open>Tensors and validation\<close>

definition rocmfpx_row_size :: "nat \<Rightarrow> nat \<Rightarrow> nat option" where
  "rocmfpx_row_size block_size k = do { check (k mod 32 = 0); Some (k div 32 * block_size) }"

definition rocmfpx_quantize_rows :: "nat \<Rightarrow> (float32 list \<Rightarrow> 'b list option) \<Rightarrow> float32 list \<Rightarrow> nat \<Rightarrow> nat
    \<Rightarrow> ('b list \<times> nat) option" where
  "rocmfpx_quantize_rows block_size quantize_row src nrows n_per_row = do {
     row_size \<leftarrow> rocmfpx_row_size block_size n_per_row;
     rows \<leftarrow> those (map (\<lambda>row. quantize_row (take n_per_row (drop (row * n_per_row) src))) [0..<nrows]);
     Some (concat rows, nrows * row_size) }"

definition rocmfpx_quantize_fp2 :: "float32 list \<Rightarrow> nat \<Rightarrow> nat \<Rightarrow> float32 list option \<Rightarrow> (block_rocmfpx list \<times> nat) option" where
  "rocmfpx_quantize_fp2 src nrows n_per_row imatrix =
     rocmfpx_quantize_rows 10 (\<lambda>x. rocmfpx_quantize_row_fp2_impl x imatrix) src nrows n_per_row"

definition rocmfpx_quantize_fp3 :: "float32 list \<Rightarrow> nat \<Rightarrow> nat \<Rightarrow> float32 list option \<Rightarrow> (block_rocmfpx list \<times> nat) option" where
  "rocmfpx_quantize_fp3 src nrows n_per_row imatrix =
     rocmfpx_quantize_rows 14 (\<lambda>x. if imatrix \<noteq> None then rocmfpx_quantize_row_fp3_weighted x imatrix
       else rocmfpx_quantize_row_fp3_ref x) src nrows n_per_row"

definition rocmfpx_quantize_fp5 :: "float32 list \<Rightarrow> nat \<Rightarrow> nat \<Rightarrow> float32 list option \<Rightarrow> (block_rocmfpx list \<times> nat) option" where
  "rocmfpx_quantize_fp5 src nrows n_per_row imatrix =
     rocmfpx_quantize_rows 22 (\<lambda>x. rocmfpx_quantize_row_linear x imatrix 5) src nrows n_per_row"

definition rocmfpx_quantize_fp6 :: "float32 list \<Rightarrow> nat \<Rightarrow> nat \<Rightarrow> float32 list option \<Rightarrow> (block_rocmfpx list \<times> nat) option" where
  "rocmfpx_quantize_fp6 src nrows n_per_row imatrix =
     rocmfpx_quantize_rows 26 (\<lambda>x. if imatrix \<noteq> None then rocmfpx_quantize_row_fp6_weighted x imatrix
       else rocmfpx_quantize_row_fp6_ref x) src nrows n_per_row"

definition rocmfpx_quantize_fp7 :: "float32 list \<Rightarrow> nat \<Rightarrow> nat \<Rightarrow> float32 list option \<Rightarrow> (block_rocmfpx list \<times> nat) option" where
  "rocmfpx_quantize_fp7 src nrows n_per_row imatrix =
     rocmfpx_quantize_rows 30 (\<lambda>x. rocmfpx_quantize_row_linear x imatrix 7) src nrows n_per_row"

definition rocmfpx_quantize_fp8 :: "float32 list \<Rightarrow> nat \<Rightarrow> nat \<Rightarrow> float32 list option \<Rightarrow> (block_rocmfp8 list \<times> nat) option" where
  "rocmfpx_quantize_fp8 src nrows n_per_row imatrix =
     rocmfpx_quantize_rows 33 (\<lambda>x. if imatrix \<noteq> None then rocmfpx_quantize_row_fp8_weighted x imatrix
       else rocmfpx_quantize_row_fp8_ref x) src nrows n_per_row"

definition rocmfpx_quantize_i4 :: "float32 list \<Rightarrow> nat \<Rightarrow> nat \<Rightarrow> float32 list option \<Rightarrow> (block_rocmfp8 list \<times> nat) option" where
  "rocmfpx_quantize_i4 src nrows n_per_row imatrix =
     rocmfpx_quantize_rows 17 (\<lambda>x. if imatrix \<noteq> None then rocmfpx_quantize_row_i4_weighted x imatrix
       else rocmfpx_quantize_row_i4_ref x) src nrows n_per_row"

text \<open>Rows as bytes; the scales come after the payload.\<close>

definition block_rocmfpx_bytes :: "block_rocmfpx \<Rightarrow> byte list" where
  "block_rocmfpx_bytes b = px_qs b @ px_e b"

definition block_rocmfp8_bytes :: "block_rocmfp8 \<Rightarrow> byte list" where
  "block_rocmfp8_bytes b = p8_qs b @ [p8_e b]"

definition scales_valid :: "nat \<Rightarrow> nat list \<Rightarrow> byte list \<Rightarrow> bool" where
  "scales_valid block_size offsets data \<longleftrightarrow> length data mod block_size = 0
     \<and> (\<forall>i \<in> {0..<length data div block_size}. \<forall>off \<in> set offsets.
          rocmfpx_scale_is_valid (unat (data ! (block_size * i + off))))"

definition rocmfpx_validate_row_data_linear :: "byte list \<Rightarrow> nat \<Rightarrow> bool" where
  "rocmfpx_validate_row_data_linear data bits =
     (let block_size = 32 * bits div 8 + 2; scale_offset = block_size - 2 in
      scales_valid block_size [scale_offset, scale_offset + 1] data)"

definition rocmfpx_validate_row_data_fp2 :: "byte list \<Rightarrow> bool" where
  "rocmfpx_validate_row_data_fp2 data = scales_valid 10 [8, 9] data"

definition rocmfpx_validate_row_data_fp3 :: "byte list \<Rightarrow> bool" where
  "rocmfpx_validate_row_data_fp3 data = scales_valid 14 [12, 13] data"

definition rocmfpx_validate_row_data_fp6 :: "byte list \<Rightarrow> bool" where
  "rocmfpx_validate_row_data_fp6 data = scales_valid 26 [24, 25] data"

definition rocmfpx_validate_row_data_fp8 :: "byte list \<Rightarrow> bool" where
  "rocmfpx_validate_row_data_fp8 data = scales_valid 33 [32] data"

definition rocmfpx_validate_row_data_i4 :: "byte list \<Rightarrow> bool" where
  "rocmfpx_validate_row_data_i4 data = scales_valid 17 [16] data"

subsection \<open>What the codes stand for\<close>

lemma small_int:
  assumes "\<bar>i\<bar> \<le> 2 ^ 10"
  shows "is_finite (f_of_int i)" "is_f32 (f_of_int i)" "fval (f_of_int i) = of_int i"
proof -
  have f: "f_of_int i = FFin (i < 0) (of_int \<bar>i\<bar>)" using f_of_int_key [of i] assms by simp
  show "is_finite (f_of_int i)" "fval (f_of_int i) = of_int i" unfolding f by auto
  have "representable (of_nat (nat \<bar>i\<bar>))" using representable_dyadic [of "nat \<bar>i\<bar>" 0] assms by (simp add: nat_le_iff)
  moreover have "of_nat (nat \<bar>i\<bar>) = (of_int \<bar>i\<bar> :: rat)" by simp
  moreover have "of_int \<bar>i\<bar> < fmax"
  proof -
    have "of_int \<bar>i\<bar> \<le> (of_int (2 ^ 10) :: rat)" using assms by (simp only: of_int_le_iff)
    then show ?thesis by (simp add: fmax_def)
  qed
  ultimately show "is_f32 (f_of_int i)" unfolding f by simp
qed

lemma lookup_table: "e \<le> 126 \<Longrightarrow> rocmfpx_scale_lookup e = ue4m3_table ! e"
  by (simp add: rocmfpx_scale_lookup_def rocmfpx_tables)

lemma lookup_pos:
  assumes "1 \<le> e" "e \<le> 126"
  shows "fless f_zero (rocmfpx_scale_lookup e)"
  using scale_pos [OF assms] assms by (simp add: lookup_table ue4m3_table_nth f_zero_def)

text \<open>The inverse of a scale is at most \<open>2 ^ 10\<close>.\<close>

lemma inv_scale_props:
  assumes "1 \<le> e" "e \<le> 126"
  shows "is_finite (inv_scale_of (rocmfpx_scale_lookup e))" "is_f32 (inv_scale_of (rocmfpx_scale_lookup e))"
    "0 < fval (inv_scale_of (rocmfpx_scale_lookup e))" "fval (inv_scale_of (rocmfpx_scale_lookup e)) \<le> 2 ^ 10"
proof -
  let ?s = "scale_val e" and ?i = "inv_scale_of (rocmfpx_scale_lookup e)"
  have s: "1 / 2 ^ 10 \<le> ?s" "?s \<le> 240" "0 < ?s" using scale_val_bounds [OF assms] scale_pos [OF assms] by simp_all
  have i: "?i = fl False (1 / ?s)"
    using lookup_pos [OF assms] s(3) assms by (simp add: inv_scale_of_def lookup_table ue4m3_table_nth f_one_def)
  have q: "1 / ?s \<le> 2 ^ 10" "1 / 2 ^ 8 \<le> 1 / ?s" "0 \<le> 1 / ?s" using s by (simp_all add: field_simps)
  have rep: "representable (2 ^ 10)" using representable_dyadic [of 1 10] by simp
  have rep': "representable (1 / 2 ^ 8)" using representableI [of 1 141] by simp
  have le: "rnd (1 / ?s) \<le> 2 ^ 10" using rnd_le [OF q(3) q(1) rep] .
  have ge: "1 / 2 ^ 8 \<le> rnd (1 / ?s)" using rnd_ge [OF _ q(2) rep'] by simp
  have f: "?i = FFin False (rnd (1 / ?s))" unfolding i fl_def Let_def using le by (simp add: fmax_def)
  show "is_finite ?i" "0 < fval ?i" "fval ?i \<le> 2 ^ 10" unfolding f using le ge by simp_all
  show "is_f32 ?i" unfolding f using le ge representable_rnd [OF q(3)] by (simp add: fmax_def)
qed

lemma round_away_bound: "\<bar>q\<bar> \<le> of_int n \<Longrightarrow> \<bar>round_away q\<bar> \<le> n"
proof -
  assume q: "\<bar>q\<bar> \<le> of_int n"
  have q0: "0 \<le> \<bar>q\<bar>" by simp
  then have "\<bar>q\<bar> + 1 / 2 < of_int (n + 1)" "0 \<le> \<bar>q\<bar> + 1 / 2" unfolding of_int_add using q by simp_all
  then have "\<lfloor>\<bar>q\<bar> + 1 / 2\<rfloor> < n + 1" "0 \<le> \<lfloor>\<bar>q\<bar> + 1 / 2\<rfloor>" by (simp_all only: floor_less_iff zero_le_floor)
  moreover have "\<bar>round_away q\<bar> = \<bar>\<lfloor>\<bar>q\<bar> + 1 / 2\<rfloor>\<bar>"
  proof (cases "q < 0")
    case True
    then show ?thesis by (simp only: round_away_def if_True abs_minus_cancel abs_of_neg)
  next
    case False
    then have "0 \<le> q" by simp
    with False show ?thesis by (simp only: round_away_def if_False abs_of_nonneg)
  qed
  ultimately show ?thesis by linarith
qed

text \<open>Rounding is defined for elements below \<open>2 ^ 52\<close>.\<close>

lemma lround_int_defined:
  assumes x: "is_finite x" "is_f32 x" "\<bar>fval x\<bar> < 2 ^ 52" and e: "1 \<le> e" "e \<le> 126"
  shows "\<exists>q. lround_int x (inv_scale_of (rocmfpx_scale_lookup e)) = Some q"
proof -
  let ?i = "inv_scale_of (rocmfpx_scale_lookup e)"
  note i = inv_scale_props [OF e]
  have "\<bar>fval x\<bar> * fval ?i \<le> 2 ^ 52 * 2 ^ 10" using x(3) i(3,4) by (intro mult_mono) simp_all
  then have "\<bar>fval x * fval ?i\<bar> \<le> of_nat 1 * 2 ^ 62" using i(3) by (simp add: abs_mult)
  then have b: "\<bar>rkey (fval x * fval ?i)\<bar> \<le> 2 ^ 62" using rkey_bound [of _ 1 62] by (simp add: fmax_def)
  have k: "is_num (fmul x ?i)" "fkey (fmul x ?i) = rkey (fval x * fval ?i)" using fmul_finite [OF x(1) i(1) x(2) i(2)] by simp_all
  have fin: "is_finite (fmul x ?i)" by (rule finite_key [OF k(1)]) (use k(2) b in \<open>simp add: fmax_def\<close>)
  then have "\<bar>fval (fmul x ?i)\<bar> \<le> of_int (2 ^ 62)" using b k(2) by (simp add: fkey_finite)
  then have "\<bar>round_away (fval (fmul x ?i))\<bar> \<le> 2 ^ 62" by (rule round_away_bound)
  then show ?thesis using fin by (cases "fmul x ?i") (auto simp: lround_int_def Let_def abs_le_iff)
qed

lemma clamp_int_range: "low \<le> high \<Longrightarrow> low \<le> clamp_int low high q \<and> clamp_int low high q \<le> high"
  by (auto simp: clamp_int_def)

text \<open>What the search assumes of an element is what the stored code decodes to.\<close>

lemma decode_fp2_range: "\<bar>rocmfpx_decode_fp2_code c\<bar> \<le> 4"
proof -
  have "unat (take_bit 2 c) < 4" using take_bit_nat_less_exp [of 2 "unat c"] by (simp add: unsigned_take_bit_eq)
  then have "unat (take_bit 2 c) \<in> {0, 1, 2, 3}" by auto
  then show ?thesis by (auto simp: rocmfpx_decode_fp2_code_def)
qed

lemma fp3_fused:
  assumes "is_finite x" "fless f_zero i"
  shows "fval (rocmfpx_fp3_decoded_mag x i) = of_int (rocmfpx_decode_fp3_code (rocmfpx_quantize_fp3_code x i))"
proof -
  have "\<not> fle i f_zero" using assms(2) by (cases i) (auto simp: fle_def f_zero_def)
  then show ?thesis using assms(1)
    by (simp add: rocmfpx_fp3_decoded_mag_def rocmfpx_quantize_fp3_code_def rocmfpx_decode_fp3_code_def Let_def f_zero_def)
qed

text \<open>The code of a clamped integer decodes to it.\<close>

definition fp6_encode :: "int \<Rightarrow> byte" where
  "fp6_encode q = (if q = 0 then 0 else if q < 0 then 32 OR take_bit 5 (word_of_int (- q)) else word_of_int q)"

definition linear_encode :: "nat \<Rightarrow> int \<Rightarrow> byte" where
  "linear_encode bits q = (let sign = 2 ^ (bits - 1) in if q = 0 then 0
     else if q < 0 then word_of_int sign OR (word_of_int (- q) AND word_of_int (sign - 1)) else word_of_int q)"

lemma fp6_decode_encode: "- 32 \<le> q \<Longrightarrow> q \<le> 31 \<Longrightarrow> rocmfpx_decode_fp6_code (fp6_encode q) = q"
proof -
  assume "- 32 \<le> q" "q \<le> 31"
  then have "q \<in> set [- 32..31]" by (simp only: set_upto atLeastAtMost_iff)
  moreover have "list_all (\<lambda>q. rocmfpx_decode_fp6_code (fp6_encode q) = q) [- 32..31]" by code_simp
  ultimately show ?thesis unfolding list_all_iff by blast
qed

lemma linear_decode_encode_5: "- 16 \<le> q \<Longrightarrow> q \<le> 15 \<Longrightarrow> rocmfpx_decode_linear_code (linear_encode 5 q) 5 = q"
proof -
  assume "- 16 \<le> q" "q \<le> 15"
  then have "q \<in> set [- 16..15]" by (simp only: set_upto atLeastAtMost_iff)
  moreover have "list_all (\<lambda>q. rocmfpx_decode_linear_code (linear_encode 5 q) 5 = q) [- 16..15]" by code_simp
  ultimately show ?thesis unfolding list_all_iff by blast
qed

lemma linear_decode_encode_7: "- 64 \<le> q \<Longrightarrow> q \<le> 63 \<Longrightarrow> rocmfpx_decode_linear_code (linear_encode 7 q) 7 = q"
proof -
  assume "- 64 \<le> q" "q \<le> 63"
  then have "q \<in> set [- 64..63]" by (simp only: set_upto atLeastAtMost_iff)
  moreover have "list_all (\<lambda>q. rocmfpx_decode_linear_code (linear_encode 7 q) 7 = q) [- 64..63]" by code_simp
  ultimately show ?thesis unfolding list_all_iff by blast
qed

subsection \<open>The scale of a block\<close>

lemma max_abs_props:
  assumes "\<forall>x \<in> set xs. is_f32 x"
  shows "\<exists>r. rocmfpx_max_abs xs = FFin False r \<and> 0 \<le> r \<and> (\<forall>x \<in> set xs. is_finite x \<longrightarrow> \<bar>fval x\<bar> \<le> r)
    \<and> (0 < r \<longrightarrow> (\<exists>x \<in> set xs. is_finite x \<and> fabs x = FFin False r))"
  using assms
proof (induction xs rule: rev_induct)
  case Nil
  show ?case by (simp add: rocmfpx_max_abs_def f_zero_def)
next
  case (snoc x xs)
  then obtain r where r: "rocmfpx_max_abs xs = FFin False r" "0 \<le> r" "\<forall>x \<in> set xs. is_finite x \<longrightarrow> \<bar>fval x\<bar> \<le> r"
    "0 < r \<longrightarrow> (\<exists>x \<in> set xs. is_finite x \<and> fabs x = FFin False r)" by auto
  have step: "rocmfpx_max_abs (xs @ [x]) = (if is_finite x \<and> r < \<bar>fval x\<bar> then FFin False \<bar>fval x\<bar> else FFin False r)"
    using r(1) snoc.prems fabs_FFin [of x] by (auto simp: rocmfpx_max_abs_def Let_def)
  show ?case
  proof (cases "is_finite x \<and> r < \<bar>fval x\<bar>")
    case True
    then show ?thesis using step r snoc.prems fabs_FFin [of x] by (intro exI [of _ "\<bar>fval x\<bar>"]) fastforce
  next
    case False
    then show ?thesis using step r by (intro exI [of _ r]) auto
  qed
qed

lemma px_prepare_props:
  fixes sigma2 :: float32
  assumes "\<forall>x \<in> set (map fst l). is_f32 x"
  defines "st \<equiv> foldl (rocmfpx_prepare_elem sigma2)
       \<lparr>mw_dst = [], mw_max_abs = f_zero, mw_max_abs_weight = f_zero, mw_all_finite = True\<rparr> l"
  shows "mw_dst st = map (rocmfpx_weight sigma2) l \<and> mw_all_finite st = list_all is_finite (map fst l)
    \<and> (\<exists>r. mw_max_abs st = FFin False r \<and> 0 \<le> r \<and> (\<forall>(x, q) \<in> set l. is_finite x \<longrightarrow> \<bar>fval x\<bar> \<le> r)
       \<and> (0 < r \<longrightarrow> (\<exists>x q. (x, q) \<in> set l \<and> is_finite x \<and> fabs x = FFin False r \<and> mw_max_abs_weight st = rocmfpx_weight sigma2 (x, q))))"
  using assms(1) unfolding st_def
proof (induction l rule: rev_induct)
  case Nil
  show ?case by (simp add: f_zero_def)
next
  case (snoc a l)
  obtain x q where a: "a = (x, q)" by (cases a)
  let ?s = "foldl (rocmfpx_prepare_elem sigma2)
     \<lparr>mw_dst = [], mw_max_abs = f_zero, mw_max_abs_weight = f_zero, mw_all_finite = True\<rparr> l"
  obtain r where s: "mw_dst ?s = map (rocmfpx_weight sigma2) l" "mw_all_finite ?s = list_all is_finite (map fst l)"
    and r: "mw_max_abs ?s = FFin False r" "0 \<le> r" "\<forall>(x, q) \<in> set l. is_finite x \<longrightarrow> \<bar>fval x\<bar> \<le> r"
    "0 < r \<longrightarrow> (\<exists>x q. (x, q) \<in> set l \<and> is_finite x \<and> fabs x = FFin False r \<and> mw_max_abs_weight ?s = rocmfpx_weight sigma2 (x, q))"
    using snoc by auto
  have x: "is_f32 x" using snoc.prems by (simp add: a)
  have fx: "fabs x = FFin False \<bar>fval x\<bar>" if "is_finite x" using fabs_FFin [OF that x] .
  let ?w = "rocmfpx_weight sigma2 (x, q)"
  let ?t = "rocmfpx_prepare_elem sigma2 ?s a"
  let ?new = "is_finite x \<and> (r < \<bar>fval x\<bar> \<or> (\<bar>fval x\<bar> = r \<and> fless (mw_max_abs_weight ?s) ?w))"
  have t: "mw_dst ?t = mw_dst ?s @ [?w]" "mw_all_finite ?t = (mw_all_finite ?s \<and> is_finite x)"
    by (simp_all add: rocmfpx_prepare_elem_def a Let_def)
  have m: "mw_max_abs ?t = (if is_finite x \<and> r < \<bar>fval x\<bar> then FFin False \<bar>fval x\<bar> else FFin False r)"
    "mw_max_abs_weight ?t = (if ?new then ?w else mw_max_abs_weight ?s)"
    using r(1) fx by (auto simp: rocmfpx_prepare_elem_def a Let_def)
  show ?case
  proof (cases "is_finite x \<and> r < \<bar>fval x\<bar>")
    case True
    moreover have "\<forall>(y, q) \<in> set (l @ [a]). is_finite y \<longrightarrow> \<bar>fval y\<bar> \<le> \<bar>fval x\<bar>" using r(3) True a by fastforce
    ultimately show ?thesis using m t s fx by (auto simp: a)
  next
    case False
    have le: "\<forall>(y, q) \<in> set (l @ [a]). is_finite y \<longrightarrow> \<bar>fval y\<bar> \<le> r" using r(3) False a by auto
    have ex: "\<exists>x q. (x, q) \<in> set (l @ [a]) \<and> is_finite x \<and> fabs x = FFin False r \<and> mw_max_abs_weight ?t = rocmfpx_weight sigma2 (x, q)"
      if pos: "0 < r"
    proof (cases ?new)
      case True
      then have "is_finite x" "\<bar>fval x\<bar> = r" using False by auto
      then show ?thesis using m(2) True fx a by (intro exI [of _ x] exI [of _ q]) simp
    next
      case f: False
      have "mw_max_abs_weight ?t = mw_max_abs_weight ?s" unfolding m(2) using f by (rule if_not_P)
      then show ?thesis using r(4) pos by auto
    qed
    have "mw_max_abs ?t = FFin False r" unfolding m(1) using False by (rule if_not_P)
    then show ?thesis using t s le ex r(2) by (auto simp: a)
  qed
qed

text \<open>
  The searched block: the finite elements, their weights if any, and the maximum. A row element
  that is not finite plays no role.
\<close>

definition px_elems :: "float32 list \<Rightarrow> float32 list option \<Rightarrow> float32 \<Rightarrow> (float32 \<times> float32 option) list" where
  "px_elems xs qw sigma2 = skip_nonfinite (case qw of None \<Rightarrow> unweighted xs
     | Some q \<Rightarrow> weighted xs (mw_dst (rocmfpx_prepare_mse_weights xs q sigma2)))"

text \<open>Usable input: finite elements below \<open>bd\<close>, not all tiny unless all are zero, and finite weights.\<close>

definition px_weights_ok :: "float32 list \<Rightarrow> float32 list option \<Rightarrow> float32 \<Rightarrow> bool" where
  "px_weights_ok xs qw sigma2 = (case qw of None \<Rightarrow> True
     | Some q \<Rightarrow> length q = length xs \<and> length xs \<le> 32 \<and> nonneg sigma2 \<and> (\<forall>w \<in> set q. is_f32 w)
         \<and> (\<forall>(x, w) \<in> set (zip xs q). is_finite (rocmfpx_weight sigma2 (x, w))))"

definition px_input_ok :: "rat \<Rightarrow> float32 list \<Rightarrow> float32 list option \<Rightarrow> float32 \<Rightarrow> bool" where
  "px_input_ok bd xs qw sigma2 \<longleftrightarrow> (\<forall>x \<in> set xs. is_f32 x \<and> (is_finite x \<longrightarrow> \<bar>fval x\<bar> < bd))
     \<and> ((\<forall>x \<in> set xs. is_finite x \<longrightarrow> fval x = 0) \<or> (\<exists>x \<in> set xs. is_finite x \<and> 1 / 2 ^ 126 \<le> \<bar>fval x\<bar>))
     \<and> px_weights_ok xs qw sigma2"

lemma px_weight_ok:
  assumes x: "is_finite x" "is_f32 x" and q: "is_f32 q" and s: "nonneg sigma2"
    and w: "is_finite (rocmfpx_weight sigma2 (x, q))"
  shows "weight_ok (Some (rocmfpx_weight sigma2 (x, q)))"
proof -
  have "rocmfpx_weight sigma2 (x, q) = rocmfp4_weight sigma2 (x, q)"
    using x by (simp add: rocmfpx_weight_def rocmfp4_weight_def)
  then show ?thesis using rocmfp4_weight_ok [OF x q s] w by simp
qed

lemma skip_nonfinite_simps [simp]:
  "(x, w) \<in> set (skip_nonfinite ys) \<longleftrightarrow> (x, w) \<in> set ys \<and> is_finite x"
  by (auto simp: skip_nonfinite_def)

lemma unweighted_mem [simp]: "(x, w) \<in> set (unweighted xs) \<longleftrightarrow> x \<in> set xs \<and> w = None"
  by (auto simp: unweighted_def)

text \<open>What the maximum over the elements has to satisfy for the block to be searched.\<close>

lemma f_one_finite: "is_finite f_one" "is_f32 f_one" "fval f_one = 1"
  using representable_dyadic [of 1 0] by (simp_all add: f_one_def fmax_def)

lemma px_unweighted_block:
  assumes ok: "px_input_ok bd xs None sigma2" and nz: "\<exists>x \<in> set xs. is_finite x \<and> fval x \<noteq> 0"
    and w: "w = None \<or> (w = Some f_one \<and> bd \<le> 2 ^ 127)"
  shows "\<exists>r \<ge> 1 / 2 ^ 126. rocmfpx_max_abs xs = FFin False r \<and> r < bd \<and> is_f32 (FFin False r)
    \<and> block_ok bd \<lparr>sb_elems = skip_nonfinite (map (\<lambda>x. (x, w)) xs), sb_max = FFin False r, sb_weight = w\<rparr>"
proof -
  have f32: "\<forall>x \<in> set xs. is_f32 x" using ok by (simp add: px_input_ok_def)
  obtain r where r: "rocmfpx_max_abs xs = FFin False r" "0 \<le> r" "\<forall>x \<in> set xs. is_finite x \<longrightarrow> \<bar>fval x\<bar> \<le> r"
    "0 < r \<longrightarrow> (\<exists>x \<in> set xs. is_finite x \<and> fabs x = FFin False r)"
    using max_abs_props [OF f32] by blast
  obtain x where "x \<in> set xs" "is_finite x" "1 / 2 ^ 126 \<le> \<bar>fval x\<bar>" using ok nz unfolding px_input_ok_def by blast
  then have ge: "1 / 2 ^ 126 \<le> r" using r(3) by fastforce
  then have "0 < r" by (rule order_less_le_trans [rotated]) simp
  then obtain y where y: "y \<in> set xs" "is_finite y" "fabs y = FFin False r" using r(4) by blast
  have "\<bar>fval y\<bar> = r" using y f32 fabs_val(1) [of y] by simp
  moreover have "\<bar>fval y\<bar> < bd" using y ok by (auto simp: px_input_ok_def)
  moreover have "is_f32 (FFin False r)" using fabs_simps(2) [of y] y f32 by simp
  moreover have "block_ok bd \<lparr>sb_elems = skip_nonfinite (map (\<lambda>x. (x, w)) xs), sb_max = FFin False r, sb_weight = w\<rparr>"
    using ok y w by (auto simp: block_ok_def elem_ok_def px_input_ok_def f_one_finite)
  ultimately show ?thesis using r(1) ge by auto
qed

lemma px_weighted_block:
  assumes ok: "px_input_ok bd xs (Some q) sigma2" and nz: "\<exists>x \<in> set xs. is_finite x \<and> fval x \<noteq> 0" and bd: "bd \<le> 2 ^ 127"
  defines "w \<equiv> rocmfpx_prepare_mse_weights xs q sigma2"
  shows "\<exists>r \<ge> 1 / 2 ^ 126. mw_max_abs w = FFin False r \<and> r < bd \<and> is_f32 (FFin False r) \<and> mw_all_finite w = list_all is_finite xs
    \<and> block_ok bd \<lparr>sb_elems = skip_nonfinite (weighted xs (mw_dst w)), sb_max = FFin False r, sb_weight = Some (mw_max_abs_weight w)\<rparr>"
proof -
  let ?l = "zip xs q"
  have f32: "\<forall>x \<in> set xs. is_f32 x" and len: "length q = length xs"
    using ok by (simp_all add: px_input_ok_def px_weights_ok_def)
  have fst: "map fst ?l = xs" using len by simp
  have "\<forall>x \<in> set (map fst ?l). is_f32 x" using f32 by (simp only: fst)
  from px_prepare_props [OF this, of sigma2]
  obtain r where dst: "mw_dst w = map (rocmfpx_weight sigma2) ?l" "mw_all_finite w = list_all is_finite xs"
    and r: "mw_max_abs w = FFin False r" "0 \<le> r" "\<forall>(x, q) \<in> set ?l. is_finite x \<longrightarrow> \<bar>fval x\<bar> \<le> r"
    "0 < r \<longrightarrow> (\<exists>x q. (x, q) \<in> set ?l \<and> is_finite x \<and> fabs x = FFin False r \<and> mw_max_abs_weight w = rocmfpx_weight sigma2 (x, q))"
    unfolding w_def rocmfpx_prepare_mse_weights_def fst by blast
  have memb: "\<exists>q. (x, q) \<in> set ?l" if "x \<in> set xs" for x
  proof -
    have "x \<in> fst ` set ?l" using fst that by (metis list.set_map)
    then show ?thesis by force
  qed
  obtain x where x: "x \<in> set xs" "is_finite x" "1 / 2 ^ 126 \<le> \<bar>fval x\<bar>" using ok nz unfolding px_input_ok_def by blast
  then have ge: "1 / 2 ^ 126 \<le> r" using r(3) memb [OF x(1)] by fastforce
  then have "0 < r" by (rule order_less_le_trans [rotated]) simp
  then obtain y p where y: "(y, p) \<in> set ?l" "is_finite y" "fabs y = FFin False r" "mw_max_abs_weight w = rocmfpx_weight sigma2 (y, p)"
    using r(4) by blast
  let ?d = "\<lparr>sb_elems = skip_nonfinite (weighted xs (mw_dst w)), sb_max = FFin False r, sb_weight = Some (mw_max_abs_weight w)\<rparr>"
  have elems: "weighted xs (mw_dst w) = map (\<lambda>(x, p). (x, Some (rocmfpx_weight sigma2 (x, p)))) ?l"
    using weighted_zip [OF len] by (simp add: dst(1))
  have el: "elem_ok bd (y, Some (rocmfpx_weight sigma2 (y, p')))" if "(y, p') \<in> set ?l" "is_finite y" for y p'
  proof -
    have y: "y \<in> set xs" "p' \<in> set q" using that by (auto dest: set_zip_leftD set_zip_rightD)
    have "is_f32 y" "\<bar>fval y\<bar> < bd" using y that ok by (auto simp: px_input_ok_def)
    moreover have "is_finite (rocmfpx_weight sigma2 (y, p'))" "is_f32 p'" "nonneg sigma2"
      using ok y that by (auto simp: px_input_ok_def px_weights_ok_def)
    ultimately show ?thesis using px_weight_ok that bd by (simp add: elem_ok_def)
  qed
  have mem: "(y, w') \<in> set (sb_elems ?d) \<longleftrightarrow> is_finite y \<and> (\<exists>p. (y, p) \<in> set ?l \<and> w' = Some (rocmfpx_weight sigma2 (y, p)))" for y w'
    by (auto simp: elems)
  have "block_ok bd ?d"
    unfolding block_ok_def
  proof (intro conjI ballI)
    fix a assume "a \<in> set (sb_elems ?d)"
    moreover obtain y v where a: "a = (y, v)" by (cases a)
    ultimately have "is_finite y \<and> (\<exists>p. (y, p) \<in> set ?l \<and> v = Some (rocmfpx_weight sigma2 (y, p)))" unfolding a mem by blast
    then show "elem_ok bd a" using el unfolding a by blast
  next
    have "(y, sb_weight ?d) \<in> set (sb_elems ?d)" unfolding mem using y by auto
    then show "\<exists>x. (x, sb_weight ?d) \<in> set (sb_elems ?d) \<and> sb_max ?d = fabs x" using y(3) by auto
  qed
  moreover have "\<bar>fval y\<bar> = r" "\<bar>fval y\<bar> < bd" "is_f32 (FFin False r)"
  proof -
    have "y \<in> set xs" using y(1) by (auto dest: set_zip_leftD)
    then show "\<bar>fval y\<bar> = r" "\<bar>fval y\<bar> < bd" "is_f32 (FFin False r)"
      using y f32 fabs_val(1) [of y] fabs_simps(2) [of y] ok by (auto simp: px_input_ok_def)
  qed
  ultimately show ?thesis using r(1) ge dst(2) by auto
qed

subsection \<open>The search finds the best scale\<close>

text \<open>The least error, and the lowest byte that has it.\<close>

definition least_scale :: "(nat \<Rightarrow> float32) \<Rightarrow> nat \<Rightarrow> bool" where
  "least_scale E e \<longleftrightarrow> e \<in> {1..126}
     \<and> (\<forall>e' \<in> {1..126}. fkey (E e) < fkey (E e') \<or> (fkey (E e) = fkey (E e') \<and> e \<le> e'))"

lemma flit_int: "n \<le> 2 ^ 12 \<Longrightarrow> flit (of_nat n) = FFin False (of_nat n)"
  using flit_of_nat [of "2 * n"] by simp

lemma rocmfpx_nearest_range:
  "rocmfpx_nearest_scale_ue4m3 t \<le> 126 \<and> (fless f_zero t \<and> is_finite t \<longrightarrow> 1 \<le> rocmfpx_nearest_scale_ue4m3 t)"
  using lower_scale_range [of 1 126 rocmfpx_scale_table t]
  by (auto simp: rocmfpx_nearest_scale_ue4m3_def nearer_scale_def Let_def)

lemma abs_of_int_le: "\<bar>i\<bar> \<le> n \<Longrightarrow> \<bar>of_int i :: rat\<bar> \<le> of_int n"
  unfolding of_int_abs [symmetric] of_int_le_iff .

lemma nearest_start:
  assumes "1 / 2 ^ 126 \<le> r" "is_f32 (FFin False r)" "1 \<le> c" "c \<le> 127"
  shows "1 \<le> rocmfpx_nearest_scale_ue4m3 (fdiv (FFin False r) (FFin False (of_nat c)))
    \<and> rocmfpx_nearest_scale_ue4m3 (fdiv (FFin False r) (FFin False (of_nat c))) \<le> 126"
proof -
  have c: "(0 :: rat) < of_nat c" "(of_nat c :: rat) \<le> 127" "(1 :: rat) \<le> of_nat c"
  proof -
    have "of_nat 1 \<le> (of_nat c :: rat)" "of_nat c \<le> (of_nat 127 :: rat)" using assms(3,4) by (simp_all only: of_nat_le_iff)
    then show "(0 :: rat) < of_nat c" "(of_nat c :: rat) \<le> 127" "(1 :: rat) \<le> of_nat c" by simp_all
  qed
  have rep: "representable (1 / 2 ^ 149)" using representableI [of 1 0] by simp
  have "1 / 2 ^ 149 * of_nat c \<le> (1 / 2 ^ 149 * 127 :: rat)" using c by (intro mult_left_mono) simp_all
  also have "\<dots> \<le> 1 / 2 ^ 126" by simp
  finally have "1 / 2 ^ 149 * of_nat c \<le> r" using assms(1) by simp
  then have "1 / 2 ^ 149 \<le> r / of_nat c" using c(1) by (simp add: pos_le_divide_eq)
  then have pos: "1 / 2 ^ 149 \<le> rnd (r / of_nat c)" using rnd_ge [OF _ _ rep] by simp
  then have gt: "0 < rnd (r / of_nat c)" by (rule order_less_le_trans [rotated]) simp
  let ?t = "fdiv (FFin False r) (FFin False (of_nat c))"
  have t: "?t = fl False (r / of_nat c)" using c(1) by simp
  have "fless f_zero ?t" unfolding t fl_def Let_def f_zero_def using gt by simp
  moreover have "is_finite ?t"
  proof -
    have r: "0 \<le> r" "representable r" "r < fmax" using assms(2) by simp_all
    then have "r / of_nat c \<le> r" "0 \<le> r / of_nat c" using c by (simp_all add: divide_le_eq mult_left_mono [of 1 _ r, simplified])
    then have "rnd (r / of_nat c) \<le> r" using r(2) by (intro rnd_le)
    then show ?thesis unfolding t fl_def Let_def using r(3) by simp
  qed
  ultimately show ?thesis using rocmfpx_nearest_range [of ?t] by blast
qed


context block_codec
begin

lemma rocmfpx_search_least:
  assumes d: "block_ok bd d" and r: "1 / 2 ^ 126 \<le> r" "is_f32 (FFin False r)" and c: "1 \<le> c" "c \<le> 127"
  shows "\<exists>e. rocmfpx_search (err d) (clip d) (fdiv (FFin False r) (FFin False (of_nat c))) = Some e \<and> least_scale (total d) e"
proof -
  define s where "s = rocmfpx_nearest_scale_ue4m3 (fdiv (FFin False r) (FFin False (of_nat c)))"
  have s: "1 \<le> s" "s \<le> 126" using nearest_start [OF r c] unfolding s_def by blast+
  have all: "{1..min 126 (s + 125)} = {1..126}" using s by auto
  have inf: "nonneg (FInf False)" by (simp add: nonneg_def)
  let ?K = "insert (fkey (FInf False), s) (key d ` {1..126})"
  have run: "search_scale (err d) (clip d) s (s, FInf False) = Some (snd (Min ?K))"
    using search_run [OF d s(2) inf, of s] unfolding all .
  have le: "Min ?K \<le> k" if "k \<in> ?K" for k using that by (intro Min_le) auto
  have ks: "key d s \<le> (fkey (FInf False), s)"
    using E_nonneg [OF d s] fkey_le_fmax [of "total d s"] by (simp add: key_def less_eq_prod_def nonneg_def)
  have "Min ?K \<in> key d ` {1..126}"
  proof (cases "Min ?K = (fkey (FInf False), s)")
    case True
    have "Min ?K \<le> key d s" using s by (intro le) auto
    then have "Min ?K = key d s" using ks unfolding True by simp
    then show ?thesis using s by auto
  next
    case False
    then show ?thesis using Min_in [of ?K] by auto
  qed
  then obtain e where e: "e \<in> {1..126}" "Min ?K = key d e" by blast
  have "fkey (total d e) < fkey (total d e') \<or> (fkey (total d e) = fkey (total d e') \<and> e \<le> e')" if "e' \<in> {1..126}" for e'
    using le [of "key d e'"] that unfolding e(2) key_def by (auto simp: less_eq_prod_def)
  then have "least_scale (total d) e" using e(1) unfolding least_scale_def by blast
  moreover have "snd (Min ?K) = e" unfolding e(2) key_def by simp
  ultimately show ?thesis unfolding rocmfpx_search_def Let_def s_def [symmetric] run by simp
qed

end

text \<open>The three formats whose codes are symmetric.\<close>

definition fp2_dec :: "nat \<Rightarrow> float32 \<Rightarrow> float32 option" where
  "fp2_dec e x = Some (f_of_int (rocmfpx_decode_fp2_code (rocmfpx_quantize_fp2_code x (inv_scale_of (rocmfpx_scale_lookup e)))))"

definition fp3_dec :: "nat \<Rightarrow> float32 \<Rightarrow> float32 option" where
  "fp3_dec e x = Some (rocmfpx_fp3_decoded_mag x (inv_scale_of (rocmfpx_scale_lookup e)))"

definition fp8_dec :: "nat \<Rightarrow> float32 \<Rightarrow> float32 option" where
  "fp8_dec e x = map_option (\<lambda>code. f_of_int (sint code)) (rocmfpx_quantize_fp8_code x (inv_scale_of (rocmfpx_scale_lookup e)))"

definition px_err :: "(nat \<Rightarrow> float32 \<Rightarrow> float32 option) \<Rightarrow> scale_block \<Rightarrow> nat \<Rightarrow> float32 \<Rightarrow> float32 option" where
  "px_err dec d e b = block_mse (dec e) (rocmfpx_scale_lookup e) (sb_elems d) b"

definition px_clip :: "nat \<Rightarrow> scale_block \<Rightarrow> nat \<Rightarrow> float32 \<Rightarrow> bool" where
  "px_clip max_code d e b = rocmfpx_clip max_code (sb_max d) (sb_weight d) e b"

lemma px_err_eq: "e \<le> 126 \<Longrightarrow> px_err dec d e b = block_mse (dec e) (ue4m3_table ! e) (sb_elems d) b"
  by (simp add: px_err_def lookup_table)

lemma px_clip_imp: "px_clip M d e b \<Longrightarrow> e \<le> 126 \<Longrightarrow> clip_exceeds M (sb_max d) (sb_weight d) (ue4m3_table ! e) b"
  by (simp add: px_clip_def rocmfpx_clip_def clip_exceeds_def lookup_table Let_def)

lemma fp8_code_value: "\<bar>sint (word_of_int (clamp_int (- 127) 127 q) :: byte)\<bar> \<le> 127"
proof -
  have "- 127 \<le> clamp_int (- 127) 127 q \<and> clamp_int (- 127) 127 q \<le> 127" by (rule clamp_int_range) simp
  then show ?thesis by (auto simp add: signed_of_int signed_take_bit_int_eq_self abs_le_iff)
qed

interpretation fp2: block_codec fp2_dec 4 fmax "px_err fp2_dec" "px_clip 4"
proof unfold_locales
  show "(4 :: nat) \<le> 2 ^ 10" by simp
  fix x :: float32 and e :: nat
  let ?c = "rocmfpx_decode_fp2_code (rocmfpx_quantize_fp2_code x (inv_scale_of (rocmfpx_scale_lookup e)))"
  have "\<bar>?c\<bar> \<le> 4" by (rule decode_fp2_range)
  then have c: "\<bar>?c\<bar> \<le> 2 ^ 10" "\<bar>of_int ?c :: rat\<bar> \<le> 4" using abs_of_int_le [of ?c 4] by simp_all
  show "\<exists>v. fp2_dec e x = Some v \<and> is_finite v \<and> is_f32 v \<and> \<bar>fval v\<bar> \<le> of_nat 4"
    using small_int [OF c(1)] c(2) by (simp add: fp2_dec_def)
qed (simp_all add: px_err_eq px_clip_imp)

lemma fp3_mag_range:
  "is_finite (rocmfpx_fp3_decoded_mag x i)" "is_f32 (rocmfpx_fp3_decoded_mag x i)" "\<bar>fval (rocmfpx_fp3_decoded_mag x i)\<bar> \<le> 4"
proof -
  have "representable (of_nat n)" if "n \<le> 2 ^ 24" for n using representable_dyadic [OF that, of 0] by simp
  from this [of 1] this [of 2] this [of 4] have rep: "representable 1" "representable 2" "representable 4" by simp_all
  show "is_finite (rocmfpx_fp3_decoded_mag x i)" "is_f32 (rocmfpx_fp3_decoded_mag x i)" "\<bar>fval (rocmfpx_fp3_decoded_mag x i)\<bar> \<le> 4"
    by (simp_all add: rocmfpx_fp3_decoded_mag_def Let_def f_zero_def rep fmax_def)
qed

interpretation fp3: block_codec fp3_dec 4 fmax "px_err fp3_dec" "px_clip 4"
proof unfold_locales
  show "(4 :: nat) \<le> 2 ^ 10" by simp
  fix x :: float32 and e :: nat
  show "\<exists>v. fp3_dec e x = Some v \<and> is_finite v \<and> is_f32 v \<and> \<bar>fval v\<bar> \<le> of_nat 4"
    using fp3_mag_range by (simp add: fp3_dec_def)
qed (simp_all add: px_err_eq px_clip_imp)

interpretation fp8: block_codec fp8_dec 127 "2 ^ 52" "px_err fp8_dec" "px_clip 127"
proof unfold_locales
  show "(127 :: nat) \<le> 2 ^ 10" by simp
  fix x :: float32 and e :: nat
  assume x: "is_finite x" "is_f32 x" "\<bar>fval x\<bar> < 2 ^ 52" and e: "1 \<le> e" "e \<le> 126"
  obtain q where q: "lround_int x (inv_scale_of (rocmfpx_scale_lookup e)) = Some q" using lround_int_defined [OF x e] by blast
  have "\<not> fle (inv_scale_of (rocmfpx_scale_lookup e)) f_zero"
    using inv_scale_props [OF e] fle_const [of _ 0] by (simp add: f_zero_def is_numI fkey_finite)
  then have "fp8_dec e x = Some (f_of_int (sint (word_of_int (clamp_int (- 127) 127 q) :: byte)))"
    using q x(1) by (simp add: fp8_dec_def rocmfpx_quantize_fp8_code_def)
  moreover have "\<bar>of_int (sint (word_of_int (clamp_int (- 127) 127 q) :: byte)) :: rat\<bar> \<le> 127"
    using abs_of_int_le [OF fp8_code_value [of q]] by simp
  ultimately show "\<exists>v. fp8_dec e x = Some v \<and> is_finite v \<and> is_f32 v \<and> \<bar>fval v\<bar> \<le> of_nat 127"
    using small_int [of "sint (word_of_int (clamp_int (- 127) 127 q) :: byte)"] fp8_code_value [of q] by simp
qed (simp_all add: px_err_eq px_clip_imp)

text \<open>The total error of a scale, in the order and with the rounding of the code.\<close>

definition mse_weights_of :: "float32 list \<Rightarrow> float32 list option \<Rightarrow> float32 \<Rightarrow> float32 list option" where
  "mse_weights_of xs qw sigma2 = map_option (\<lambda>q. mw_dst (rocmfpx_prepare_mse_weights xs q sigma2)) qw"

definition rocmfpx_fp2_error :: "float32 list \<Rightarrow> float32 list option \<Rightarrow> float32 \<Rightarrow> nat \<Rightarrow> float32" where
  "rocmfpx_fp2_error xs qw sigma2 e =
     block_err (fp2_dec e) (ue4m3_table ! e) (skip_nonfinite (weight_or_one xs (mse_weights_of xs qw sigma2)))"

definition rocmfpx_fp3_error :: "float32 list \<Rightarrow> float32 list option \<Rightarrow> float32 \<Rightarrow> nat \<Rightarrow> float32" where
  "rocmfpx_fp3_error xs qw sigma2 e = block_err (fp3_dec e) (ue4m3_table ! e) (px_elems xs qw sigma2)"

definition rocmfpx_fp8_error :: "float32 list \<Rightarrow> float32 list option \<Rightarrow> float32 \<Rightarrow> nat \<Rightarrow> float32" where
  "rocmfpx_fp8_error xs qw sigma2 e = block_err (fp8_dec e) (ue4m3_table ! e) (px_elems xs qw sigma2)"

definition scale_found :: "float32 list \<Rightarrow> (nat \<Rightarrow> float32) \<Rightarrow> nat option \<Rightarrow> bool" where
  "scale_found xs E r \<longleftrightarrow> (\<exists>e. r = Some e
     \<and> (if \<forall>x \<in> set xs. is_finite x \<longrightarrow> fval x = 0 then e = 0 else least_scale E e))"

lemma scale_foundI:
  "\<exists>x \<in> set xs. is_finite x \<and> fval x \<noteq> 0 \<Longrightarrow> \<exists>e. r = Some e \<and> least_scale E e \<Longrightarrow> scale_found xs E r"
  by (auto simp: scale_found_def)

lemma scale_found_zero: "\<forall>x \<in> set xs. is_finite x \<longrightarrow> fval x = 0 \<Longrightarrow> scale_found xs E (Some 0)"
  by (simp add: scale_found_def)

lemma max_abs_zero:
  assumes "\<forall>x \<in> set xs. is_f32 x" "\<forall>x \<in> set xs. is_finite x \<longrightarrow> fval x = 0"
  shows "rocmfpx_max_abs xs = FFin False 0"
proof -
  obtain r where r: "rocmfpx_max_abs xs = FFin False r" "0 \<le> r"
    "0 < r \<longrightarrow> (\<exists>x \<in> set xs. is_finite x \<and> fabs x = FFin False r)" using max_abs_props [OF assms(1)] by blast
  have "\<not> 0 < r"
  proof
    assume "0 < r"
    then obtain y where y: "y \<in> set xs" "is_finite y" "fabs y = FFin False r" using r(3) by blast
    then have "\<bar>fval y\<bar> = r" using assms(1) fabs_val(1) [of y] by simp
    then show False using \<open>0 < r\<close> y assms(2) by simp
  qed
  then show ?thesis using r(1,2) by simp
qed

lemma prepare_zero:
  assumes "\<forall>x \<in> set xs. is_f32 x" "\<forall>x \<in> set xs. is_finite x \<longrightarrow> fval x = 0" "length q = length xs"
  shows "mw_max_abs (rocmfpx_prepare_mse_weights xs q sigma2) = FFin False 0"
proof -
  have fst: "map fst (zip xs q) = xs" using assms(3) by simp
  have "\<forall>x \<in> set (map fst (zip xs q)). is_f32 x" using assms(1) by (simp only: fst)
  from px_prepare_props [OF this, of sigma2]
  obtain r where r: "mw_max_abs (rocmfpx_prepare_mse_weights xs q sigma2) = FFin False r" "0 \<le> r"
    "0 < r \<longrightarrow> (\<exists>x p. (x, p) \<in> set (zip xs q) \<and> is_finite x \<and> fabs x = FFin False r)"
    unfolding rocmfpx_prepare_mse_weights_def by blast
  have "\<not> 0 < r"
  proof
    assume "0 < r"
    then obtain y p where y: "(y, p) \<in> set (zip xs q)" "is_finite y" "fabs y = FFin False r" using r(3) by blast
    then have "y \<in> set xs" by (auto dest: set_zip_leftD)
    then have "\<bar>fval y\<bar> = r" "fval y = 0" using y assms fabs_val(1) [of y] by simp_all
    then show False using \<open>0 < r\<close> by simp
  qed
  then show ?thesis using r(1,2) by simp
qed

lemma block_ok_mono: "block_ok bd d \<Longrightarrow> bd \<le> bd' \<Longrightarrow> block_ok bd' d"
  by (fastforce simp: block_ok_def elem_ok_def)

lemma px_input_f32: "px_input_ok bd xs qw sigma2 \<Longrightarrow> \<forall>x \<in> set xs. is_f32 x"
  by (simp add: px_input_ok_def)

lemma px_input_len: "px_input_ok bd xs (Some q) sigma2 \<Longrightarrow> length q = length xs \<and> length xs \<le> 32"
  by (simp add: px_input_ok_def px_weights_ok_def)

lemma skip_finite: "list_all is_finite xs \<Longrightarrow> skip_nonfinite (map (\<lambda>x. (x, w)) xs) = map (\<lambda>x. (x, w)) xs"
  by (induction xs) (auto simp: skip_nonfinite_def)

lemma skip_finite_weighted: "list_all is_finite xs \<Longrightarrow> skip_nonfinite (weighted xs ws) = weighted xs ws"
  unfolding skip_nonfinite_def weighted_def
  by (rule filter_True) (auto simp: list_all_iff dest: set_zip_leftD)

lemma max_guard: "1 / 2 ^ 126 \<le> r \<Longrightarrow> fless f_zero (FFin False r)"
proof -
  assume "1 / 2 ^ 126 \<le> r"
  then have "0 < r" by (rule order_less_le_trans [rotated]) simp
  then show ?thesis by (simp add: f_zero_def)
qed

lemma fmax_127: "2 ^ 127 \<le> fmax" "2 ^ 52 \<le> (2 :: rat) ^ 127"
  by (simp_all add: fmax_def)

lemma flit_codes: "flit 4 = FFin False (of_nat 4)" "flit 127 = FFin False (of_nat 127)"
  using flit_int [of 4] flit_int [of 127] by simp_all

lemma choose_fp2_optimal:
  assumes ok: "px_input_ok (2 ^ 127) xs qw sigma2"
  shows "scale_found xs (rocmfpx_fp2_error xs qw sigma2) (rocmfpx_choose_scale_fp2_mse xs qw sigma2)"
proof (cases "\<exists>x \<in> set xs. is_finite x \<and> fval x \<noteq> 0")
  case False
  then have z: "\<forall>x \<in> set xs. is_finite x \<longrightarrow> fval x = 0" by blast
  have "rocmfpx_choose_scale_fp2_mse xs qw sigma2 = Some 0"
    using max_abs_zero [OF px_input_f32 [OF ok] z] prepare_zero [OF px_input_f32 [OF ok] z] px_input_len ok
    by (cases qw) (simp_all add: rocmfpx_choose_scale_fp2_mse_def f_zero_def Let_def)
  then show ?thesis using scale_found_zero [OF z] by simp
next
  case nz: True
  let ?ws = "mse_weights_of xs qw sigma2"
  obtain r w where r: "1 / 2 ^ 126 \<le> r" "is_f32 (FFin False r)"
    and d: "block_ok (2 ^ 127) \<lparr>sb_elems = skip_nonfinite (weight_or_one xs ?ws), sb_max = FFin False r, sb_weight = Some w\<rparr>"
    and c: "rocmfpx_choose_scale_fp2_mse xs qw sigma2 = rocmfpx_search (rocmfpx_fp2_group_mse_for_scale xs ?ws)
        (rocmfpx_clip 4 (FFin False r) (Some w)) (fdiv (FFin False r) (flit 4))"
  proof (cases qw)
    case None
    obtain r where r: "1 / 2 ^ 126 \<le> r" "rocmfpx_max_abs xs = FFin False r" "is_f32 (FFin False r)"
      "block_ok (2 ^ 127) \<lparr>sb_elems = skip_nonfinite (map (\<lambda>x. (x, Some f_one)) xs), sb_max = FFin False r, sb_weight = Some f_one\<rparr>"
      using px_unweighted_block [of "2 ^ 127" xs sigma2 "Some f_one"] ok nz unfolding None by auto
    show thesis
      by (rule that [of r f_one])
        (use r max_guard [OF r(1)] None in \<open>simp_all add: mse_weights_of_def weight_or_one_def rocmfpx_choose_scale_fp2_mse_def Let_def\<close>)
  next
    case (Some q)
    let ?w = "rocmfpx_prepare_mse_weights xs q sigma2"
    obtain r where r: "1 / 2 ^ 126 \<le> r" "mw_max_abs ?w = FFin False r" "is_f32 (FFin False r)"
      "block_ok (2 ^ 127) \<lparr>sb_elems = skip_nonfinite (weighted xs (mw_dst ?w)), sb_max = FFin False r, sb_weight = Some (mw_max_abs_weight ?w)\<rparr>"
      using px_weighted_block [of "2 ^ 127" xs q sigma2] ok nz unfolding Some by auto
    show thesis
      by (rule that [of r "mw_max_abs_weight ?w"])
        (use r max_guard [OF r(1)] Some in \<open>simp_all add: mse_weights_of_def weight_or_one_def rocmfpx_choose_scale_fp2_mse_def Let_def\<close>)
  qed
  let ?d = "\<lparr>sb_elems = skip_nonfinite (weight_or_one xs ?ws), sb_max = FFin False r, sb_weight = Some w\<rparr>"
  have err: "rocmfpx_fp2_group_mse_for_scale xs ?ws = px_err fp2_dec ?d"
    by (intro ext) (simp add: rocmfpx_fp2_group_mse_for_scale_def px_err_def fp2_dec_def [abs_def] Let_def)
  have clip: "rocmfpx_clip 4 (FFin False r) (Some w) = px_clip 4 ?d" by (intro ext) (simp add: px_clip_def)
  have tot: "fp2.total ?d = rocmfpx_fp2_error xs qw sigma2"
    by (intro ext) (simp add: fp2.total_def rocmfpx_fp2_error_def)
  have "\<exists>e. rocmfpx_search (px_err fp2_dec ?d) (px_clip 4 ?d) (fdiv (FFin False r) (FFin False (of_nat 4))) = Some e
      \<and> least_scale (fp2.total ?d) e"
    by (rule fp2.rocmfpx_search_least [OF block_ok_mono [OF d fmax_127(1)] r]) simp_all
  then show ?thesis unfolding c err clip tot flit_codes by (rule scale_foundI [OF nz])
qed

lemma choose_fp3_optimal:
  assumes ok: "px_input_ok (2 ^ 127) xs qw sigma2"
  shows "scale_found xs (rocmfpx_fp3_error xs qw sigma2)
    (case qw of None \<Rightarrow> rocmfpx_choose_scale_fp3_mse xs | Some q \<Rightarrow> rocmfpx_choose_scale_fp3_weighted_mse xs q sigma2)"
    (is "scale_found _ _ ?choose")
proof (cases "\<exists>x \<in> set xs. is_finite x \<and> fval x \<noteq> 0")
  case False
  then have z: "\<forall>x \<in> set xs. is_finite x \<longrightarrow> fval x = 0" by blast
  have "?choose = Some 0"
    using max_abs_zero [OF px_input_f32 [OF ok] z] prepare_zero [OF px_input_f32 [OF ok] z] px_input_len ok
    by (cases qw) (simp_all add: rocmfpx_choose_scale_fp3_mse_def rocmfpx_choose_scale_fp3_weighted_mse_def f_zero_def Let_def check_def)
  then show ?thesis using scale_found_zero [OF z] by simp
next
  case nz: True
  obtain r w where r: "1 / 2 ^ 126 \<le> r" "is_f32 (FFin False r)"
    and d: "block_ok (2 ^ 127) \<lparr>sb_elems = px_elems xs qw sigma2, sb_max = FFin False r, sb_weight = w\<rparr>"
    and c: "?choose = rocmfpx_search (px_err fp3_dec \<lparr>sb_elems = px_elems xs qw sigma2, sb_max = FFin False r, sb_weight = w\<rparr>)
        (rocmfpx_clip 4 (FFin False r) w) (fdiv (FFin False r) (flit 4))"
  proof (cases qw)
    case None
    obtain r where r: "1 / 2 ^ 126 \<le> r" "rocmfpx_max_abs xs = FFin False r" "is_f32 (FFin False r)"
      "block_ok (2 ^ 127) \<lparr>sb_elems = skip_nonfinite (unweighted xs), sb_max = FFin False r, sb_weight = None\<rparr>"
      using px_unweighted_block [of "2 ^ 127" xs sigma2 None] ok nz unfolding None unweighted_def by auto
    have e: "(if list_all is_finite xs then rocmfpx_fp3_block_mse_for_scale_finite xs else rocmfpx_fp3_block_mse_for_scale xs)
        = px_err fp3_dec \<lparr>sb_elems = skip_nonfinite (unweighted xs), sb_max = FFin False r, sb_weight = None\<rparr>"
      using skip_finite [of xs None]
      by (intro ext) (simp add: rocmfpx_fp3_block_mse_for_scale_def rocmfpx_fp3_block_mse_for_scale_finite_def unweighted_def
          px_err_def fp3_dec_def [abs_def] Let_def)
    show thesis
      by (rule that [of r None]) (use r max_guard [OF r(1)] None e in
          \<open>simp_all add: px_elems_def rocmfpx_choose_scale_fp3_mse_def rocmfpx_choose_scale_fp3_mse_impl_def Let_def\<close>)
  next
    case (Some q)
    let ?w = "rocmfpx_prepare_mse_weights xs q sigma2"
    obtain r where r: "1 / 2 ^ 126 \<le> r" "mw_max_abs ?w = FFin False r" "is_f32 (FFin False r)" "mw_all_finite ?w = list_all is_finite xs"
      "block_ok (2 ^ 127) \<lparr>sb_elems = skip_nonfinite (weighted xs (mw_dst ?w)), sb_max = FFin False r, sb_weight = Some (mw_max_abs_weight ?w)\<rparr>"
      using px_weighted_block [of "2 ^ 127" xs q sigma2] ok nz unfolding Some by auto
    have e: "(if list_all is_finite xs then rocmfpx_fp3_block_weighted_mse_for_scale_finite xs (mw_dst ?w)
          else rocmfpx_fp3_block_weighted_mse_for_scale xs (mw_dst ?w))
        = px_err fp3_dec \<lparr>sb_elems = skip_nonfinite (weighted xs (mw_dst ?w)), sb_max = FFin False r, sb_weight = Some (mw_max_abs_weight ?w)\<rparr>"
      using skip_finite_weighted [of xs "mw_dst ?w"]
      by (intro ext) (simp add: rocmfpx_fp3_block_weighted_mse_for_scale_def rocmfpx_fp3_block_weighted_mse_for_scale_finite_def
          px_err_def fp3_dec_def [abs_def] Let_def)
    have chk: "check (length xs \<le> 32) = Some ()" using px_input_len ok unfolding Some by (simp add: check_def)
    show thesis
      by (rule that [of r "Some (mw_max_abs_weight ?w)"]) (use r max_guard [OF r(1)] Some e chk in
          \<open>simp_all add: px_elems_def rocmfpx_choose_scale_fp3_weighted_mse_def rocmfpx_choose_scale_fp3_mse_impl_def Let_def\<close>)
  qed
  let ?d = "\<lparr>sb_elems = px_elems xs qw sigma2, sb_max = FFin False r, sb_weight = w\<rparr>"
  have clip: "rocmfpx_clip 4 (FFin False r) w = px_clip 4 ?d" by (intro ext) (simp add: px_clip_def)
  have tot: "fp3.total ?d = rocmfpx_fp3_error xs qw sigma2"
    by (intro ext) (simp add: fp3.total_def rocmfpx_fp3_error_def)
  have "\<exists>e. rocmfpx_search (px_err fp3_dec ?d) (px_clip 4 ?d) (fdiv (FFin False r) (FFin False (of_nat 4))) = Some e
      \<and> least_scale (fp3.total ?d) e"
    by (rule fp3.rocmfpx_search_least [OF block_ok_mono [OF d fmax_127(1)] r]) simp_all
  then show ?thesis unfolding c clip tot flit_codes by (rule scale_foundI [OF nz])
qed

lemma choose_fp8_optimal:
  assumes ok: "px_input_ok (2 ^ 52) xs (Some q) sigma2"
  shows "scale_found xs (rocmfpx_fp8_error xs (Some q) sigma2) (rocmfpx_choose_scale_fp8_weighted_mse xs q sigma2)"
proof (cases "\<exists>x \<in> set xs. is_finite x \<and> fval x \<noteq> 0")
  case False
  then have z: "\<forall>x \<in> set xs. is_finite x \<longrightarrow> fval x = 0" by blast
  have "rocmfpx_choose_scale_fp8_weighted_mse xs q sigma2 = Some 0"
    using prepare_zero [OF px_input_f32 [OF ok] z] px_input_len [OF ok]
    by (simp add: rocmfpx_choose_scale_fp8_weighted_mse_def f_zero_def Let_def check_def)
  then show ?thesis using scale_found_zero [OF z] by simp
next
  case nz: True
  let ?w = "rocmfpx_prepare_mse_weights xs q sigma2"
  obtain r where r: "1 / 2 ^ 126 \<le> r" "mw_max_abs ?w = FFin False r" "is_f32 (FFin False r)" "mw_all_finite ?w = list_all is_finite xs"
    and d: "block_ok (2 ^ 52) \<lparr>sb_elems = skip_nonfinite (weighted xs (mw_dst ?w)), sb_max = FFin False r, sb_weight = Some (mw_max_abs_weight ?w)\<rparr>"
    using px_weighted_block [OF ok nz fmax_127(2)] by auto
  let ?d = "\<lparr>sb_elems = skip_nonfinite (weighted xs (mw_dst ?w)), sb_max = FFin False r, sb_weight = Some (mw_max_abs_weight ?w)\<rparr>"
  have e: "(if list_all is_finite xs then rocmfpx_fp8_block_weighted_mse_for_scale_finite xs (mw_dst ?w)
        else rocmfpx_fp8_block_weighted_mse_for_scale xs (mw_dst ?w)) = px_err fp8_dec ?d"
    using skip_finite_weighted [of xs "mw_dst ?w"]
    by (intro ext) (simp add: rocmfpx_fp8_block_weighted_mse_for_scale_def rocmfpx_fp8_block_weighted_mse_for_scale_finite_def
        px_err_def fp8_dec_def [abs_def] Let_def)
  have chk: "check (length xs \<le> 32) = Some ()" using px_input_len [OF ok] by (simp add: check_def)
  have c: "rocmfpx_choose_scale_fp8_weighted_mse xs q sigma2
      = rocmfpx_search (px_err fp8_dec ?d) (rocmfpx_clip 127 (FFin False r) (Some (mw_max_abs_weight ?w))) (fdiv (FFin False r) (flit 127))"
    using r(2,4) max_guard [OF r(1)] e chk by (simp add: rocmfpx_choose_scale_fp8_weighted_mse_def Let_def)
  have clip: "rocmfpx_clip 127 (FFin False r) (Some (mw_max_abs_weight ?w)) = px_clip 127 ?d" by (intro ext) (simp add: px_clip_def)
  have tot: "fp8.total ?d = rocmfpx_fp8_error xs (Some q) sigma2"
    by (intro ext) (simp add: fp8.total_def rocmfpx_fp8_error_def px_elems_def)
  have "\<exists>e. rocmfpx_search (px_err fp8_dec ?d) (px_clip 127 ?d) (fdiv (FFin False r) (FFin False (of_nat 127))) = Some e
      \<and> least_scale (fp8.total ?d) e"
    by (rule fp8.rocmfpx_search_least [OF d r(1,3)]) simp_all
  then show ?thesis unfolding c clip tot flit_codes by (rule scale_foundI [OF nz])
qed

subsection \<open>Reading back what was written\<close>

lemma for_ret_any:
  assumes "for_ret f is s = Some (ok, s')" "P s"
    and "\<And>i s ok t. i \<in> set is \<Longrightarrow> P s \<Longrightarrow> f i s = Some (ok, t) \<Longrightarrow> P t"
  shows "P s'"
  using assms
proof (induction "is" arbitrary: s)
  case Nil
  then show ?case by simp
next
  case (Cons i "is")
  from Cons.prems(1) obtain ok1 t where t: "f i s = Some (ok1, t)"
    "(if ok1 then for_ret f is t else Some (False, t)) = Some (ok, s')"
    by (auto split: bind_splits)
  have Pt: "P t" using Cons.prems(3) [OF _ Cons.prems(2) t(1)] by simp
  show ?case
  proof (cases ok1)
    case True
    show ?thesis by (rule Cons.IH [OF _ Pt]) (use t(2) True Cons.prems(3) in auto)
  next
    case False
    then show ?thesis using t(2) Pt by simp
  qed
qed

lemma try_scale_byte: "try_scale err e st = Some st' \<Longrightarrow> fst st' = fst st \<or> fst st' = e"
  by (cases st) (auto simp: try_scale_def split: bind_splits if_splits)

lemma search_scale_byte:
  assumes "search_scale err clip start (start, b) = Some e" "start \<le> 126"
  shows "e \<le> 126"
proof -
  obtain ok eb b' ld where run: "for_ret (search_step err clip start) [0..<126] ((start, b), False) = Some (ok, (eb, b'), ld)" "e = eb"
    using assms(1) by (auto simp: search_scale_def split: bind_splits)
  have "fst (fst ((eb, b'), ld)) \<le> 126"
  proof (rule for_ret_any [OF run(1), where P = "\<lambda>st. fst (fst st) \<le> 126"])
    fix d st ok t assume st: "fst (fst st) \<le> (126 :: nat)" "search_step err clip start d st = Some (ok, t)"
    let ?e0 = "int start - int d" and ?e1 = "start + d"
    obtain best ld where s: "st = (best, ld)" by (cases st)
    define L where "L = (if \<not> ld \<and> ?e0 \<ge> 1 \<and> ?e0 \<le> 126
          then (if clip (nat ?e0) (snd best) then Some (best, True)
                else do { best \<leftarrow> try_scale err (nat ?e0) best; Some (best, ld) })
          else Some (best, ld))"
    define H where "H = (\<lambda>b1. if d \<noteq> 0 \<and> ?e1 \<ge> 1 \<and> ?e1 \<le> 126 then try_scale err ?e1 b1 else Some b1)"
    have step: "(L \<bind> (\<lambda>(b1, ld1). H b1 \<bind> (\<lambda>b2. Some (\<not> ((ld1 \<or> ?e0 \<le> 1) \<and> ?e1 \<ge> 126), b2, ld1)))) = Some (ok, t)"
      using st(2) unfolding search_step_def s Let_def prod.case L_def H_def .
    obtain b1 ld1 where b1: "L = Some (b1, ld1)" using step by (cases L) auto
    obtain b2 where b2: "H b1 = Some b2" "t = (b2, ld1)" using step b1 by (cases "H b1") auto
    have "fst b1 \<le> 126"
    proof (cases "\<not> ld \<and> ?e0 \<ge> 1 \<and> ?e0 \<le> 126 \<and> \<not> clip (nat ?e0) (snd best)")
      case True
      then obtain b' where "try_scale err (nat ?e0) best = Some b'" "b1 = b'"
        using b1 unfolding L_def by (cases "try_scale err (nat ?e0) best") auto
      then show ?thesis using try_scale_byte [of err "nat ?e0" best] st(1) s True by auto
    next
      case False
      then have "b1 = best" using b1 unfolding L_def by (auto split: if_splits)
      then show ?thesis using st(1) s by simp
    qed
    then have "fst b2 \<le> 126" using b2(1) try_scale_byte [of err ?e1 b1] unfolding H_def by (auto split: if_splits)
    then show "fst (fst t) \<le> 126" using b2(2) by simp
  qed (use assms(2) in simp)
  then show ?thesis using run(2) by simp
qed

lemma rocmfpx_search_byte: "rocmfpx_search err clip t = Some e \<Longrightarrow> e \<le> 126"
  using search_scale_byte rocmfpx_nearest_range unfolding rocmfpx_search_def Let_def by blast

lemma choose_bytes:
  "rocmfpx_choose_scale_fp2_mse xs qw s = Some e \<Longrightarrow> e \<le> 126"
  "rocmfpx_choose_scale_fp3_mse xs = Some e \<Longrightarrow> e \<le> 126"
  "rocmfpx_choose_scale_fp3_weighted_mse xs q s = Some e \<Longrightarrow> e \<le> 126"
  "rocmfpx_choose_scale_fp6_mse xs = Some e \<Longrightarrow> e \<le> 126"
  "rocmfpx_choose_scale_fp6_weighted_mse xs q s = Some e \<Longrightarrow> e \<le> 126"
  "rocmfpx_choose_scale_fp8_weighted_mse xs q s = Some e \<Longrightarrow> e \<le> 126"
  "rocmfpx_choose_scale_linear xs qw s bits = Some e \<Longrightarrow> e \<le> 126"
  "rocmfpx_choose_scale_i4_weighted_mse xs q s = Some e \<Longrightarrow> e \<le> 126"
  by (auto simp: rocmfpx_choose_scale_fp2_mse_def rocmfpx_choose_scale_fp3_mse_def rocmfpx_choose_scale_fp3_mse_impl_def
      rocmfpx_choose_scale_fp3_weighted_mse_def rocmfpx_choose_scale_fp6_mse_def rocmfpx_choose_scale_fp6_mse_impl_def
      rocmfpx_choose_scale_fp6_weighted_mse_def rocmfpx_choose_scale_fp8_weighted_mse_def rocmfpx_choose_scale_linear_def
      rocmfpx_choose_scale_i4_weighted_mse_def Let_def check_def
      split: if_splits option.splits bind_splits dest: rocmfpx_search_byte)

text \<open>The values a slice of a row is read back as: encode, decode, scale.\<close>

definition row_slice :: "nat \<Rightarrow> nat \<Rightarrow> 'a list \<Rightarrow> 'a list" where
  "row_slice n i xs = take n (drop (i * n) xs)"

definition px_values :: "(float32 \<Rightarrow> float32 \<Rightarrow> byte option) \<Rightarrow> (byte \<Rightarrow> int) \<Rightarrow> nat \<Rightarrow> float32 list \<Rightarrow> float32 list" where
  "px_values quant dec e xs = (let scale = rocmfpx_scale_lookup e in
     map (\<lambda>x. fmul (f_of_int (dec (the (quant x (inv_scale_of scale))))) scale) xs)"

definition row_values :: "nat \<Rightarrow> (float32 list \<Rightarrow> float32 list option \<Rightarrow> nat option) \<Rightarrow> (float32 \<Rightarrow> float32 \<Rightarrow> byte option)
    \<Rightarrow> (byte \<Rightarrow> int) \<Rightarrow> float32 list \<Rightarrow> float32 list option \<Rightarrow> float32 list" where
  "row_values n pick quant dec x qw = concat (map (\<lambda>i.
     let xs = row_slice n i x in
     px_values quant dec (the (pick xs (map_option (row_slice n i) qw))) xs) [0..<length x div n])"

lemma concat_pairs: "concat (map f [0..<2 * n]) = concat (map (\<lambda>i. f (2 * i) @ f (2 * i + 1)) [0..<n])"
proof (induction n)
  case (Suc n)
  have "[0..<2 * Suc n] = [0..<2 * n] @ [2 * n, 2 * n + 1]" by simp
  then show ?case using Suc by simp
qed simp

lemma halves_of_slice:
  "take 16 (row_slice 32 i x) = row_slice 16 (2 * i) x" "drop 16 (row_slice 32 i x) = row_slice 16 (2 * i + 1) x"
  by (simp_all add: row_slice_def drop_take take_take drop_drop min_def algebra_simps)

text \<open>A row is read back block by block.\<close>

lemma blocks_values:
  assumes y: "rocmfpx_blocks qb x qw = Some y"
    and b: "\<And>xb wb b. length xb = 32 \<Longrightarrow> qb xb wb = Some b \<Longrightarrow> deq b = vals xb wb"
  shows "length x mod 32 = 0 \<and> length y = length x div 32
    \<and> concat (map deq (take (length x div 32) y))
       = concat (map (\<lambda>ib. vals (row_slice 32 ib x) (map_option (row_slice 32 ib) qw)) [0..<length x div 32])"
proof -
  have k: "length x mod 32 = 0" and those: "those (map (\<lambda>ib. qb (row_slice 32 ib x) (map_option (row_slice 32 ib) qw)) [0..<length x div 32]) = Some y"
    using y by (auto simp: rocmfpx_blocks_def row_slice_def [abs_def] check_def split: if_splits)
  have gen: "length ys = length is \<and> map deq ys = map (\<lambda>ib. vals (row_slice 32 ib x) (map_option (row_slice 32 ib) qw)) is"
    if "those (map (\<lambda>ib. qb (row_slice 32 ib x) (map_option (row_slice 32 ib) qw)) is) = Some ys" "\<forall>i \<in> set is. i < length x div 32" for "is" ys
    using that
  proof (induction "is" arbitrary: ys)
    case (Cons i "is")
    then obtain b ys' where ys: "qb (row_slice 32 i x) (map_option (row_slice 32 i) qw) = Some b" "ys = b # ys'"
      "those (map (\<lambda>ib. qb (row_slice 32 ib x) (map_option (row_slice 32 ib) qw)) is) = Some ys'"
      by (auto split: option.splits)
    have "length (row_slice 32 i x) = 32" using take_slice_length [OF k, of i] Cons.prems(2) by (simp add: row_slice_def)
    then have "deq b = vals (row_slice 32 i x) (map_option (row_slice 32 i) qw)" using b ys(1) by blast
    then show ?case using Cons.IH [OF ys(3)] Cons.prems(2) ys(2) by simp
  qed simp
  from gen [OF those] show ?thesis using k by simp
qed

text \<open>Two halves of a block are two slices of 16.\<close>

lemma halves_values:
  assumes "length x mod 32 = 0"
    and v: "\<And>xb wb. vals xb wb = hv (take 16 xb) (map_option (take 16) wb) @ hv (drop 16 xb) (map_option (drop 16) wb)"
  shows "concat (map (\<lambda>ib. vals (row_slice 32 ib x) (map_option (row_slice 32 ib) qw)) [0..<length x div 32])
    = concat (map (\<lambda>i. hv (row_slice 16 i x) (map_option (row_slice 16 i) qw)) [0..<length x div 16])"
proof -
  have n: "length x div 16 = 2 * (length x div 32)" using assms(1) by auto
  have "map_option (take 16) (map_option (row_slice 32 i) qw) = map_option (row_slice 16 (2 * i)) qw"
    "map_option (drop 16) (map_option (row_slice 32 i) qw) = map_option (row_slice 16 (2 * i + 1)) qw" for i
    by (cases qw; simp add: halves_of_slice)+
  then show ?thesis unfolding n concat_pairs v halves_of_slice by simp
qed

lemma px_values_map:
  assumes "length xs = n" "\<And>j. j < n \<Longrightarrow> v j = dec (the (quant (xs ! j) (inv_scale_of (rocmfpx_scale_lookup e))))"
  shows "map (\<lambda>j. fmul (f_of_int (v j)) (rocmfpx_scale_lookup e)) [0..<n] = px_values quant dec e xs"
  using assms by (intro nth_equalityI) (simp_all add: px_values_def Let_def)

lemma scale_byte: "e \<le> 126 \<Longrightarrow> rocmfpx_scale_lookup (unat (of_nat e :: byte)) = rocmfpx_scale_lookup e"
  by (simp add: byte_of_nat)

lemma two_halves: "concat (map f [0..<2]) = f 0 @ f 1"
  by (simp add: upt_rec)

lemma list_of_four: "length c = 4 \<Longrightarrow> c = [c ! 0, c ! 1, c ! 2, c ! 3]"
  by (auto simp: numeral_eq_Suc length_Suc_conv)

text \<open>Two bits\<close>

lemma fp2_unpack_pack:
  assumes "length c = 4" "\<forall>x \<in> set c. take_bit 2 x = x" "lane < 4"
  shows "take_bit 2 (drop_bit (2 * lane) (rocmfpx_fp2_pack4 c)) = c ! lane"
proof -
  obtain c0 c1 c2 c3 where c: "c = [c0, c1, c2, c3]" using list_of_four [OF assms(1)] by blast
  have t: "take_bit 2 c0 = c0" "take_bit 2 c1 = c1" "take_bit 2 c2 = c2" "take_bit 2 c3 = c3" using assms(2) by (simp_all add: c)
  have hi: "\<not> bit a (Suc (Suc n))" if "take_bit 2 a = a" for a :: byte and n
    using bit_take_bit_iff [of 2 a "Suc (Suc n)"] that by simp
  note high = hi [OF t(1)] hi [OF t(2)] hi [OF t(3)] hi [OF t(4)]
  have pack: "rocmfpx_fp2_pack4 c = c0 OR push_bit 2 c1 OR push_bit 4 c2 OR push_bit 6 c3"
    by (simp add: rocmfpx_fp2_pack4_def c upt_rec or.assoc)
  have "lane = 0 \<or> lane = 1 \<or> lane = 2 \<or> lane = 3" using assms(3) by auto
  moreover have "take_bit 2 (drop_bit 0 (rocmfpx_fp2_pack4 c)) = c0" "take_bit 2 (drop_bit 2 (rocmfpx_fp2_pack4 c)) = c1"
    "take_bit 2 (drop_bit 4 (rocmfpx_fp2_pack4 c)) = c2" "take_bit 2 (drop_bit 6 (rocmfpx_fp2_pack4 c)) = c3"
    unfolding pack by (rule byte_eqI, unfold byte_bits insert_iff empty_iff, elim disjE; simp add: byte_bits_high high numeral_eq_Suc)+
  ultimately show ?thesis by (auto simp: c)
qed

lemma fp2_code_bits: "take_bit 2 (rocmfpx_quantize_fp2_code x i) = rocmfpx_quantize_fp2_code x i"
  by (simp add: rocmfpx_quantize_fp2_code_def Let_def)

abbreviation fp2_quant :: "float32 \<Rightarrow> float32 \<Rightarrow> byte option" where
  "fp2_quant x i \<equiv> Some (rocmfpx_quantize_fp2_code x i)"

lemma fp2_half:
  assumes "fp2_quantize_half s xh qh = Some (e, qs)" "length xh = 16"
  shows "rocmfpx_choose_scale_fp2_mse xh qh s = Some e \<and> e \<le> 126 \<and> length qs = 4
    \<and> (\<forall>j < 16. take_bit 2 (drop_bit (2 * (j mod 4)) (qs ! (j div 4))) = rocmfpx_quantize_fp2_code (xh ! j) (inv_scale_of (rocmfpx_scale_lookup e)))"
proof -
  let ?c = "map (\<lambda>x. rocmfpx_quantize_fp2_code x (inv_scale_of (rocmfpx_scale_lookup e))) xh"
  have e: "rocmfpx_choose_scale_fp2_mse xh qh s = Some e"
    and qs: "qs = map (\<lambda>packed. rocmfpx_fp2_pack4 (take 4 (drop (4 * packed) ?c))) [0..<4]"
    using assms(1) by (auto simp: fp2_quantize_half_def Let_def split: bind_splits)
  have "take_bit 2 (drop_bit (2 * (j mod 4)) (qs ! (j div 4))) = rocmfpx_quantize_fp2_code (xh ! j) (inv_scale_of (rocmfpx_scale_lookup e))"
    if j: "j < 16" for j
  proof -
    let ?g = "take 4 (drop (4 * (j div 4)) ?c)"
    have d: "j div 4 < 4" "j mod 4 < 4" "4 * (j div 4) + j mod 4 = j" using j by simp_all
    have len: "length ?g = 4" using assms(2) d by simp
    have "\<forall>x \<in> set ?g. take_bit 2 x = x"
    proof
      fix y assume "y \<in> set ?g"
      then have "y \<in> set ?c" by (meson in_set_dropD in_set_takeD)
      then show "take_bit 2 y = y" using fp2_code_bits by auto
    qed
    then have "take_bit 2 (drop_bit (2 * (j mod 4)) (rocmfpx_fp2_pack4 ?g)) = ?g ! (j mod 4)"
      using fp2_unpack_pack [OF len _ d(2)] by blast
    moreover have "qs ! (j div 4) = rocmfpx_fp2_pack4 ?g" using d(1) by (simp add: qs)
    moreover have "?g ! (j mod 4) = ?c ! j" using d j assms(2) by simp
    ultimately show ?thesis using j assms(2) by simp
  qed
  then show ?thesis using e choose_bytes(1) [OF e] by (simp add: qs)
qed

lemma fp2_block:
  assumes "length xb = 32" "rocmfpx_halves (fp2_quantize_half s) xb wb = Some b"
  shows "fp2_dequantize_block b
    = px_values fp2_quant rocmfpx_decode_fp2_code (the (rocmfpx_choose_scale_fp2_mse (take 16 xb) (map_option (take 16) wb) s)) (take 16 xb)
      @ px_values fp2_quant rocmfpx_decode_fp2_code (the (rocmfpx_choose_scale_fp2_mse (drop 16 xb) (map_option (drop 16) wb) s)) (drop 16 xb)"
proof -
  obtain e0 qs0 e1 qs1 where h: "fp2_quantize_half s (take 16 xb) (map_option (take 16) wb) = Some (e0, qs0)"
    "fp2_quantize_half s (drop 16 xb) (map_option (drop 16) wb) = Some (e1, qs1)"
    and b: "b = \<lparr>px_qs = qs0 @ qs1, px_e = [of_nat e0, of_nat e1]\<rparr>"
    using assms(2) by (auto simp: rocmfpx_halves_def split: bind_splits)
  have l: "length (take 16 xb) = 16" "length (drop 16 xb) = 16" using assms(1) by simp_all
  note f0 = fp2_half [OF h(1) l(1)] and f1 = fp2_half [OF h(2) l(2)]
  have "(qs0 @ qs1) ! (j div 4) = qs0 ! (j div 4)" "(qs0 @ qs1) ! (4 + j div 4) = qs1 ! (j div 4)" if "j < 16" for j
    using that f0 by (auto simp: nth_append)
  then show ?thesis
    using f0 f1 unfolding fp2_dequantize_block_def two_halves b Let_def
    by (intro arg_cong2 [where f = append]) (simp_all add: scale_byte px_values_map [OF l(1)] px_values_map [OF l(2)])
qed

text \<open>Three bits\<close>

abbreviation fp3_quant :: "float32 \<Rightarrow> float32 \<Rightarrow> byte option" where
  "fp3_quant x i \<equiv> Some (rocmfpx_quantize_fp3_code x i)"

lemma and_bit: "code AND push_bit n 1 \<noteq> 0 \<longleftrightarrow> bit code n" for code :: byte
  by (simp only: bit_iff_and_push_bit_not_eq_0)

lemma decode_fp3_take: "rocmfpx_decode_fp3_code (take_bit 3 c) = rocmfpx_decode_fp3_code c"
proof -
  have "(take_bit 3 c AND 4 \<noteq> 0) = (c AND 4 \<noteq> 0)"
    using and_bit [of "take_bit 3 c" 2] and_bit [of c 2] by (simp add: bit_take_bit_iff)
  moreover have "take_bit 2 (take_bit 3 c) = take_bit 2 c" by simp
  ultimately show ?thesis by (simp add: rocmfpx_decode_fp3_code_def)
qed

lemma list_of_three: "3 \<le> length xs \<Longrightarrow> \<exists>a b c zs. xs = a # b # c # zs"
  by (auto simp: numeral_3_eq_3 Suc_le_length_iff)

lemma fp3_unpack_append: "3 \<le> length xs \<Longrightarrow> rocmfpx_fp3_unpack8 (xs @ ys) = rocmfpx_fp3_unpack8 xs"
  using list_of_three [of xs] by (auto simp: rocmfpx_fp3_unpack8_def)

lemma fp3_pack_take: "8 \<le> length c \<Longrightarrow> rocmfpx_fp3_pack8 c = rocmfpx_fp3_pack8 (take 8 c)"
  by (simp add: rocmfpx_fp3_pack8_def)

lemma fp3_codes_unpack:
  assumes "length xh = 16"
  shows "length (rocmfpx_fp3_codes xh e) = 6"
    and "rocmfpx_fp3_unpack8 (rocmfpx_fp3_codes xh e) @ rocmfpx_fp3_unpack8 (drop 3 (rocmfpx_fp3_codes xh e))
      = map (\<lambda>x. take_bit 3 (rocmfpx_quantize_fp3_code x (inv_scale_of (rocmfpx_scale_lookup e)))) xh"
proof -
  let ?c = "map (\<lambda>x. rocmfpx_quantize_fp3_code x (inv_scale_of (rocmfpx_scale_lookup e))) xh"
  have c: "rocmfpx_fp3_codes xh e = rocmfpx_fp3_pack8 (take 8 ?c) @ rocmfpx_fp3_pack8 (drop 8 ?c)"
    using fp3_pack_take [of ?c] assms by (simp add: rocmfpx_fp3_codes_def Let_def)
  show "length (rocmfpx_fp3_codes xh e) = 6" unfolding c by simp
  have "length (take 8 ?c) = 8" "length (drop 8 ?c) = 8" using assms by simp_all
  then have "rocmfpx_fp3_unpack8 (rocmfpx_fp3_codes xh e) @ rocmfpx_fp3_unpack8 (drop 3 (rocmfpx_fp3_codes xh e))
      = map (take_bit 3) (take 8 ?c @ drop 8 ?c)"
    unfolding c by (simp only: fp3_unpack_append pack_lengths order_refl drop_append drop_all diff_self_eq_0 drop_0
        append_Nil fp3_unpack_pack map_append)
  then show "rocmfpx_fp3_unpack8 (rocmfpx_fp3_codes xh e) @ rocmfpx_fp3_unpack8 (drop 3 (rocmfpx_fp3_codes xh e))
      = map (\<lambda>x. take_bit 3 (rocmfpx_quantize_fp3_code x (inv_scale_of (rocmfpx_scale_lookup e)))) xh"
    by (simp only: append_take_drop_id map_map comp_def)
qed

lemma fp3_block_values:
  assumes l: "length x0 = 16" "length x1 = 16" and e: "e0 \<le> 126" "e1 \<le> 126"
  shows "fp3_dequantize_block \<lparr>px_qs = rocmfpx_fp3_codes x0 e0 @ rocmfpx_fp3_codes x1 e1, px_e = [of_nat e0, of_nat e1]\<rparr>
    = px_values fp3_quant rocmfpx_decode_fp3_code e0 x0 @ px_values fp3_quant rocmfpx_decode_fp3_code e1 x1"
proof -
  let ?q0 = "rocmfpx_fp3_codes x0 e0" and ?q1 = "rocmfpx_fp3_codes x1 e1"
  note c0 = fp3_codes_unpack [OF l(1), of e0] and c1 = fp3_codes_unpack [OF l(2), of e1]
  have "rocmfpx_fp3_unpack8 (?q0 @ ?q1) @ rocmfpx_fp3_unpack8 (drop 3 (?q0 @ ?q1))
      @ rocmfpx_fp3_unpack8 (drop 6 (?q0 @ ?q1)) @ rocmfpx_fp3_unpack8 (drop 9 (?q0 @ ?q1))
    = map (\<lambda>x. take_bit 3 (rocmfpx_quantize_fp3_code x (inv_scale_of (rocmfpx_scale_lookup e0)))) x0
      @ map (\<lambda>x. take_bit 3 (rocmfpx_quantize_fp3_code x (inv_scale_of (rocmfpx_scale_lookup e1)))) x1"
    unfolding c0(2) [symmetric] c1(2) [symmetric] using c0(1) c1(1) by (simp add: fp3_unpack_append)
  then show ?thesis
    unfolding fp3_dequantize_block_def two_halves Let_def using l e
    by (intro arg_cong2 [where f = append]) (simp_all add: scale_byte px_values_map [OF l(1)] px_values_map [OF l(2)] nth_append decode_fp3_take)
qed

lemma fp3_block:
  assumes "length xb = 32"
    and "rocmfpx_halves (\<lambda>xh qh. do { e \<leftarrow> pick xh qh; Some (e, rocmfpx_fp3_codes xh e) }) xb wb = Some b"
    and "\<And>xh qh e. pick xh qh = Some e \<Longrightarrow> e \<le> 126"
  shows "fp3_dequantize_block b
    = px_values fp3_quant rocmfpx_decode_fp3_code (the (pick (take 16 xb) (map_option (take 16) wb))) (take 16 xb)
      @ px_values fp3_quant rocmfpx_decode_fp3_code (the (pick (drop 16 xb) (map_option (drop 16) wb))) (drop 16 xb)"
proof -
  obtain e0 e1 where h: "pick (take 16 xb) (map_option (take 16) wb) = Some e0" "pick (drop 16 xb) (map_option (drop 16) wb) = Some e1"
    and b: "b = \<lparr>px_qs = rocmfpx_fp3_codes (take 16 xb) e0 @ rocmfpx_fp3_codes (drop 16 xb) e1, px_e = [of_nat e0, of_nat e1]\<rparr>"
    using assms(2) by (auto simp: rocmfpx_halves_def split: bind_splits)
  have l: "length (take 16 xb) = 16" "length (drop 16 xb) = 16" using assms(1) by simp_all
  show ?thesis unfolding b fp3_block_values [OF l assms(3) [OF h(1)] assms(3) [OF h(2)]] h option.sel ..
qed

text \<open>Six bits\<close>

lemma those_map_nth: "those (map f xs) = Some ys \<Longrightarrow> length ys = length xs \<and> (\<forall>j < length xs. f (xs ! j) = Some (ys ! j))"
proof (induction xs arbitrary: ys)
  case (Cons x xs)
  then obtain y ys' where "f x = Some y" "those (map f xs) = Some ys'" "ys = y # ys'" by (auto split: option.splits)
  then show ?case using Cons.IH [of ys'] by (auto simp: less_Suc_eq_0_disj nth_Cons')
qed simp

lemma decode_fp6_take: "rocmfpx_decode_fp6_code (take_bit 6 c) = rocmfpx_decode_fp6_code c"
proof -
  have "(take_bit 6 c AND 32 \<noteq> 0) = (c AND 32 \<noteq> 0)"
    using and_bit [of "take_bit 6 c" 5] and_bit [of c 5] by (simp add: bit_take_bit_iff)
  moreover have "take_bit 5 (take_bit 6 c) = take_bit 5 c" by simp
  ultimately show ?thesis by (simp add: rocmfpx_decode_fp6_code_def)
qed

lemma fp6_unpack_append: "3 \<le> length xs \<Longrightarrow> rocmfpx_fp6_unpack4 (xs @ ys) = rocmfpx_fp6_unpack4 xs"
  using list_of_three [of xs] by (auto simp: rocmfpx_fp6_unpack4_def)

lemma fp6_pack_take: "4 \<le> length c \<Longrightarrow> rocmfpx_fp6_pack4 c = rocmfpx_fp6_pack4 (take 4 c)"
  by (simp add: rocmfpx_fp6_pack4_def)

definition fp6_unpack_half :: "byte list \<Rightarrow> byte list" where
  "fp6_unpack_half qs = rocmfpx_fp6_unpack4 qs @ rocmfpx_fp6_unpack4 (drop 3 qs)
     @ rocmfpx_fp6_unpack4 (drop 6 qs) @ rocmfpx_fp6_unpack4 (drop 9 qs)"

lemma fp6_half_unpack:
  assumes c: "length c = 16"
  defines "qs \<equiv> rocmfpx_fp6_pack4 c @ rocmfpx_fp6_pack4 (drop 4 c) @ rocmfpx_fp6_pack4 (drop 8 c) @ rocmfpx_fp6_pack4 (drop 12 c)"
  shows "fp6_unpack_half qs = map (take_bit 6) c"
proof -
  let ?g = "\<lambda>i. take 4 (drop (4 * i) c)"
  have parts: "c = ?g 0 @ ?g 1 @ ?g 2 @ ?g 3"
  proof -
    have "c = take 4 c @ drop 4 c" by simp
    also have "drop 4 c = take 4 (drop 4 c) @ drop 8 c" using append_take_drop_id [of 4 "drop 4 c"] by simp
    also have "drop 8 c = take 4 (drop 8 c) @ drop 12 c" using append_take_drop_id [of 4 "drop 8 c"] by simp
    also have "drop 12 c = take 4 (drop 12 c)" using c by simp
    finally show ?thesis by simp
  qed
  have len: "length (?g i) = 4" if "i < 4" for i using c that by simp
  have q: "qs = rocmfpx_fp6_pack4 (?g 0) @ rocmfpx_fp6_pack4 (?g 1) @ rocmfpx_fp6_pack4 (?g 2) @ rocmfpx_fp6_pack4 (?g 3)"
    unfolding qs_def using c fp6_pack_take [of c] fp6_pack_take [of "drop 4 c"] fp6_pack_take [of "drop 8 c"] by simp
  have "fp6_unpack_half qs = rocmfpx_fp6_unpack4 (rocmfpx_fp6_pack4 (?g 0)) @ rocmfpx_fp6_unpack4 (rocmfpx_fp6_pack4 (?g 1))
      @ rocmfpx_fp6_unpack4 (rocmfpx_fp6_pack4 (?g 2)) @ rocmfpx_fp6_unpack4 (rocmfpx_fp6_pack4 (?g 3))"
    unfolding fp6_unpack_half_def q by (simp add: fp6_unpack_append)
  also have "\<dots> = map (take_bit 6) (?g 0 @ ?g 1 @ ?g 2 @ ?g 3)"
    unfolding map_append using len [of 0] len [of 1] len [of 2] len [of 3] by (simp only: fp6_unpack_pack)
  finally show ?thesis by (simp only: parts [symmetric])
qed

lemma fp6_codes_unpack:
  assumes "length xh = 16" "rocmfpx_fp6_codes xh e = Some qs"
  shows "length qs = 12 \<and> fp6_unpack_half qs
    = map (\<lambda>x. take_bit 6 (the (rocmfpx_quantize_fp6_code x (inv_scale_of (rocmfpx_scale_lookup e))))) xh"
proof -
  obtain c where c: "those (map (\<lambda>x. rocmfpx_quantize_fp6_code x (inv_scale_of (rocmfpx_scale_lookup e))) xh) = Some c"
    and qs: "qs = rocmfpx_fp6_pack4 c @ rocmfpx_fp6_pack4 (drop 4 c) @ rocmfpx_fp6_pack4 (drop 8 c) @ rocmfpx_fp6_pack4 (drop 12 c)"
    using assms(2) by (auto simp: rocmfpx_fp6_codes_def Let_def split: bind_splits)
  have len: "length c = 16" using those_map_nth [OF c] assms(1) by simp
  have "c = map (\<lambda>x. the (rocmfpx_quantize_fp6_code x (inv_scale_of (rocmfpx_scale_lookup e)))) xh"
    using those_map_nth [OF c] by (intro nth_equalityI) simp_all
  then show ?thesis using fp6_half_unpack [OF len] by (simp add: qs)
qed

lemma fp6_block_values:
  assumes l: "length x0 = 16" "length x1 = 16" and e: "e0 \<le> 126" "e1 \<le> 126"
    and q: "rocmfpx_fp6_codes x0 e0 = Some q0" "rocmfpx_fp6_codes x1 e1 = Some q1"
  shows "fp6_dequantize_block \<lparr>px_qs = q0 @ q1, px_e = [of_nat e0, of_nat e1]\<rparr>
    = px_values rocmfpx_quantize_fp6_code rocmfpx_decode_fp6_code e0 x0 @ px_values rocmfpx_quantize_fp6_code rocmfpx_decode_fp6_code e1 x1"
proof -
  note c0 = fp6_codes_unpack [OF l(1) q(1)] and c1 = fp6_codes_unpack [OF l(2) q(2)]
  have "concat (map (\<lambda>g. rocmfpx_fp6_unpack4 (drop (3 * g) (q0 @ q1))) [0..<8]) = fp6_unpack_half q0 @ fp6_unpack_half q1"
    unfolding fp6_unpack_half_def using c0 c1 by (simp add: upt_rec fp6_unpack_append)
  then show ?thesis
    unfolding fp6_dequantize_block_def two_halves Let_def using l e c0 c1
    by (intro arg_cong2 [where f = append]) (simp_all add: scale_byte px_values_map [OF l(1)] px_values_map [OF l(2)] nth_append decode_fp6_take)
qed

lemma fp6_block:
  assumes "length xb = 32"
    and "rocmfpx_halves (\<lambda>xh qh. do { e \<leftarrow> pick xh qh; qs \<leftarrow> rocmfpx_fp6_codes xh e; Some (e, qs) }) xb wb = Some b"
    and "\<And>xh qh e. pick xh qh = Some e \<Longrightarrow> e \<le> 126"
  shows "fp6_dequantize_block b
    = px_values rocmfpx_quantize_fp6_code rocmfpx_decode_fp6_code (the (pick (take 16 xb) (map_option (take 16) wb))) (take 16 xb)
      @ px_values rocmfpx_quantize_fp6_code rocmfpx_decode_fp6_code (the (pick (drop 16 xb) (map_option (drop 16) wb))) (drop 16 xb)"
proof -
  obtain e0 e1 q0 q1 where h: "pick (take 16 xb) (map_option (take 16) wb) = Some e0" "pick (drop 16 xb) (map_option (drop 16) wb) = Some e1"
    "rocmfpx_fp6_codes (take 16 xb) e0 = Some q0" "rocmfpx_fp6_codes (drop 16 xb) e1 = Some q1"
    and b: "b = \<lparr>px_qs = q0 @ q1, px_e = [of_nat e0, of_nat e1]\<rparr>"
    using assms(2) by (auto simp: rocmfpx_halves_def split: bind_splits)
  have l: "length (take 16 xb) = 16" "length (drop 16 xb) = 16" using assms(1) by simp_all
  show ?thesis
    unfolding b fp6_block_values [OF l assms(3) [OF h(1)] assms(3) [OF h(2)] h(3,4)] h(1,2) option.sel ..
qed

text \<open>Eight bits\<close>

lemma fp8_codes_values:
  assumes "length xb = 32" "e \<le> 126" "rocmfpx_fp8_codes xb e = Some b"
  shows "fp8_dequantize_block b = px_values rocmfpx_quantize_fp8_code sint e xb"
proof -
  obtain qs where qs: "those (map (\<lambda>x. rocmfpx_quantize_fp8_code x (inv_scale_of (rocmfpx_scale_lookup e))) xb) = Some qs"
    and b: "b = \<lparr>p8_qs = qs, p8_e = of_nat e\<rparr>"
    using assms(3) by (auto simp: rocmfpx_fp8_codes_def Let_def split: bind_splits)
  show ?thesis unfolding fp8_dequantize_block_def Let_def b
    using those_map_nth [OF qs] assms(1,2) by (simp add: scale_byte px_values_map [OF assms(1)])
qed

lemma fp8_block:
  assumes "length xb = 32" "do { e \<leftarrow> pick xb wb; rocmfpx_fp8_codes xb e } = Some b" "\<And>xb wb e. pick xb wb = Some e \<Longrightarrow> e \<le> 126"
  shows "fp8_dequantize_block b = px_values rocmfpx_quantize_fp8_code sint (the (pick xb wb)) xb"
proof -
  obtain e where e: "pick xb wb = Some e" "rocmfpx_fp8_codes xb e = Some b" using assms(2) by (auto split: bind_splits)
  show ?thesis using fp8_codes_values [OF assms(1) assms(3) [OF e(1)] e(2)] e(1) by simp
qed

text \<open>Five and seven bits\<close>

lemma linear_encode_bits:
  "- 16 \<le> q \<Longrightarrow> q \<le> 15 \<Longrightarrow> take_bit 5 (linear_encode 5 q) = linear_encode 5 q"
  "- 64 \<le> q' \<Longrightarrow> q' \<le> 63 \<Longrightarrow> take_bit 7 (linear_encode 7 q') = linear_encode 7 q'"
proof -
  assume "- 16 \<le> q" "q \<le> 15"
  then have "q \<in> set [- 16..15]" by (simp only: set_upto atLeastAtMost_iff)
  moreover have "list_all (\<lambda>q. take_bit 5 (linear_encode 5 q) = linear_encode 5 q) [- 16..15]" by code_simp
  ultimately show "take_bit 5 (linear_encode 5 q) = linear_encode 5 q" unfolding list_all_iff by blast
next
  assume "- 64 \<le> q'" "q' \<le> 63"
  then have "q' \<in> set [- 64..63]" by (simp only: set_upto atLeastAtMost_iff)
  moreover have "list_all (\<lambda>q. take_bit 7 (linear_encode 7 q) = linear_encode 7 q) [- 64..63]" by code_simp
  ultimately show "take_bit 7 (linear_encode 7 q') = linear_encode 7 q'" unfolding list_all_iff by blast
qed

lemma linear_code_cases:
  assumes "rocmfpx_quantize_linear_code x i bits = Some c" "bits = 5 \<or> bits = 7"
  shows "take_bit bits c = c"
proof -
  have "\<exists>q. - (2 ^ (bits - 1)) \<le> q \<and> q \<le> 2 ^ (bits - 1) - 1 \<and> c = linear_encode bits q"
  proof (cases "\<not> is_finite x \<or> \<not> is_finite i \<or> fle i f_zero")
    case True
    then show ?thesis using assms by (intro exI [of _ 0]) (auto simp: rocmfpx_quantize_linear_code_def linear_encode_def)
  next
    case False
    then obtain q where q: "lround_int x i = Some q" using assms(1) by (auto simp: rocmfpx_quantize_linear_code_def Let_def split: bind_splits)
    let ?q = "clamp_int (- (2 ^ (bits - 1))) (2 ^ (bits - 1) - 1) q"
    have "c = linear_encode bits ?q"
      using assms(1) False q by (simp add: rocmfpx_quantize_linear_code_def linear_encode_def Let_def)
    moreover have "(1 :: int) \<le> 2 ^ (bits - 1)" by simp
    then have "- (2 ^ (bits - 1)) \<le> ?q \<and> ?q \<le> 2 ^ (bits - 1) - 1" by (intro clamp_int_range) linarith
    ultimately show ?thesis by blast
  qed
  then show ?thesis using assms(2) linear_encode_bits by auto
qed

lemma linear_block:
  assumes "length xb = 32" "linear_quantize_block s bits xb wb = Some b" "bits = 5 \<or> bits = 7"
  shows "linear_dequantize_block bits b
    = px_values (\<lambda>x i. rocmfpx_quantize_linear_code x i bits) (\<lambda>c. rocmfpx_decode_linear_code c bits)
        (the (rocmfpx_choose_scale_linear (take 16 xb) (map_option (take 16) wb) s bits)) (take 16 xb)
      @ px_values (\<lambda>x i. rocmfpx_quantize_linear_code x i bits) (\<lambda>c. rocmfpx_decode_linear_code c bits)
        (the (rocmfpx_choose_scale_linear (drop 16 xb) (map_option (drop 16) wb) s bits)) (drop 16 xb)"
proof -
  let ?n = "32 * bits div 8"
  let ?q = "\<lambda>e x. rocmfpx_quantize_linear_code x (inv_scale_of (rocmfpx_scale_lookup e)) bits"
  obtain e0 e1 c0 c1 where e: "rocmfpx_choose_scale_linear (take 16 xb) (map_option (take 16) wb) s bits = Some e0"
      "rocmfpx_choose_scale_linear (drop 16 xb) (map_option (drop 16) wb) s bits = Some e1"
    and c: "those (map (?q e0) (take 16 xb)) = Some c0" "those (map (?q e1) (drop 16 xb)) = Some c1"
    and b: "b = \<lparr>px_qs = pack_codes bits (pack_codes bits (replicate ?n 0) 0 c0) 16 c1, px_e = [of_nat e0, of_nat e1]\<rparr>"
    using assms(2) by (auto simp: linear_quantize_block_def linear_half_def Let_def split: bind_splits)
  have l: "length (take 16 xb) = 16" "length (drop 16 xb) = 16" using assms(1) by simp_all
  note n0 = those_map_nth [OF c(1)] and n1 = those_map_nth [OF c(2)]
  have len: "length c0 = 16" "length c1 = 16" using n0 n1 l by simp_all
  have pack: "pack_codes bits (pack_codes bits (replicate ?n 0) 0 c0) 16 c1 = pack_codes bits (replicate ?n 0) 0 (c0 @ c1)"
    using pack_codes_append [of bits "replicate ?n 0" 0 c0 c1] len by simp
  have tb: "\<forall>c \<in> set (c0 @ c1). take_bit bits c = c"
  proof
    fix c assume "c \<in> set (c0 @ c1)"
    then have "c \<in> set c0 \<or> c \<in> set c1" by simp
    then show "take_bit bits c = c"
    proof
      assume "c \<in> set c0"
      then obtain j where "j < 16" "c0 ! j = c" using len by (auto simp: in_set_conv_nth)
      then show ?thesis using n0 assms(1) linear_code_cases [OF _ assms(3)] by auto
    next
      assume "c \<in> set c1"
      then obtain j where "j < 16" "c1 ! j = c" using len by (auto simp: in_set_conv_nth)
      then show ?thesis using n1 assms(1) linear_code_cases [OF _ assms(3)] by auto
    qed
  qed
  have un: "rocmfpx_unpack_linear_code (px_qs b) i bits = (c0 @ c1) ! i" if "i < 32" for i
    unfolding b block_rocmfpx.simps pack
    by (rule unpack_pack_codes) (use assms(3) tb len that in auto)
  have split: "[0..<32] = [0..<16] @ map ((+) 16) [0..<16]"
    by (rule nth_equalityI) (auto simp: nth_append)
  have "linear_dequantize_block bits b
      = map (\<lambda>j. fmul (f_of_int (rocmfpx_decode_linear_code (c0 ! j) bits)) (rocmfpx_scale_lookup e0)) [0..<16]
        @ map (\<lambda>j. fmul (f_of_int (rocmfpx_decode_linear_code (c1 ! j) bits)) (rocmfpx_scale_lookup e1)) [0..<16]"
    unfolding linear_dequantize_block_def split map_append map_map comp_def Let_def
    using len choose_bytes(7) [OF e(1)] choose_bytes(7) [OF e(2)]
    by (simp add: un nth_append) (simp add: b scale_byte)
  also have "map (\<lambda>j. fmul (f_of_int (rocmfpx_decode_linear_code (c0 ! j) bits)) (rocmfpx_scale_lookup e0)) [0..<16]
      = px_values (\<lambda>x i. rocmfpx_quantize_linear_code x i bits) (\<lambda>c. rocmfpx_decode_linear_code c bits) e0 (take 16 xb)"
    by (rule px_values_map [OF l(1)]) (use n0 assms(1) in simp)
  also have "map (\<lambda>j. fmul (f_of_int (rocmfpx_decode_linear_code (c1 ! j) bits)) (rocmfpx_scale_lookup e1)) [0..<16]
      = px_values (\<lambda>x i. rocmfpx_quantize_linear_code x i bits) (\<lambda>c. rocmfpx_decode_linear_code c bits) e1 (drop 16 xb)"
    by (rule px_values_map [OF l(2)]) (use n1 assms(1) in simp)
  finally show ?thesis unfolding e option.sel .
qed

text \<open>Four-bit integers\<close>

lemma nibble_value: "- 8 \<le> q \<Longrightarrow> q \<le> 7 \<Longrightarrow> rocmi4_nibble_to_i8 (take_bit 4 (word_of_int q)) = q \<and> sint (word_of_int q :: byte) = q"
proof -
  assume "- 8 \<le> q" "q \<le> 7"
  then have "q \<in> set [- 8..7]" by (simp only: set_upto atLeastAtMost_iff)
  moreover have "list_all (\<lambda>q. rocmi4_nibble_to_i8 (take_bit 4 (word_of_int q)) = q \<and> sint (word_of_int q :: byte) = q) [- 8..7]" by code_simp
  ultimately show ?thesis unfolding list_all_iff by blast
qed

lemma i4_code_nibble:
  assumes "rocmi4_quantize_code x i = Some c"
  shows "rocmi4_nibble_to_i8 (take_bit 4 c) = sint c"
proof -
  have "\<exists>q. - 8 \<le> q \<and> q \<le> 7 \<and> c = word_of_int q"
  proof (cases "\<not> is_finite x \<or> fle i f_zero")
    case True
    then show ?thesis using assms by (intro exI [of _ 0]) (auto simp: rocmi4_quantize_code_def)
  next
    case False
    then obtain q where "c = word_of_int (clamp_int (- 8) 7 q)" using assms by (auto simp: rocmi4_quantize_code_def split: bind_splits)
    moreover have "- 8 \<le> clamp_int (- 8) 7 q \<and> clamp_int (- 8) 7 q \<le> 7" by (rule clamp_int_range) simp
    ultimately show ?thesis by blast
  qed
  then show ?thesis using nibble_value by auto
qed

lemma i4_nibbles:
  fixes a b :: byte
  shows "(take_bit 4 a OR push_bit 4 (take_bit 4 b)) AND 0x0F = take_bit 4 a"
    and "drop_bit 4 (take_bit 4 a OR push_bit 4 (take_bit 4 b)) = take_bit 4 b"
proof -
  have "take_bit 4 (take_bit 4 a OR push_bit 4 (take_bit 4 b)) = take_bit 4 a"
    by (rule byte_eqI, unfold byte_bits insert_iff empty_iff, elim disjE; simp add: byte_bits_high numeral_eq_Suc)
  then show "(take_bit 4 a OR push_bit 4 (take_bit 4 b)) AND 0x0F = take_bit 4 a" by (simp add: and_mask4)
  show "drop_bit 4 (take_bit 4 a OR push_bit 4 (take_bit 4 b)) = take_bit 4 b"
    by (rule byte_eqI, unfold byte_bits insert_iff empty_iff, elim disjE; simp add: byte_bits_high numeral_eq_Suc)
qed

lemma i4_codes_values:
  assumes "length xb = 32" "e \<le> 126" "rocmfpx_i4_codes xb e = Some b"
  shows "i4_dequantize_block b = px_values rocmi4_quantize_code sint e xb"
proof -
  let ?i = "inv_scale_of (rocmfpx_scale_lookup e)"
  let ?f = "\<lambda>j. do {
       q0 \<leftarrow> rocmi4_quantize_code (xb ! j) ?i;
       q1 \<leftarrow> rocmi4_quantize_code (xb ! (j + 16)) ?i;
       Some (take_bit 4 q0 OR push_bit 4 (take_bit 4 q1)) }"
  obtain qs where qs: "those (map ?f [0..<16]) = Some qs" and b: "b = \<lparr>p8_qs = qs, p8_e = of_nat e\<rparr>"
    using assms(3) by (auto simp: rocmfpx_i4_codes_def Let_def split: bind_splits)
  note n = those_map_nth [OF qs]
  have val: "rocmi4_nibble_to_i8 (qs ! j AND 0x0F) = sint (the (rocmi4_quantize_code (xb ! j) ?i))
      \<and> rocmi4_nibble_to_i8 (drop_bit 4 (qs ! j)) = sint (the (rocmi4_quantize_code (xb ! (16 + j)) ?i))" if "j < 16" for j
  proof -
    have "?f j = Some (qs ! j)" using n that by simp
    then obtain q0 q1 where q: "rocmi4_quantize_code (xb ! j) ?i = Some q0" "rocmi4_quantize_code (xb ! (j + 16)) ?i = Some q1"
      "qs ! j = take_bit 4 q0 OR push_bit 4 (take_bit 4 q1)" by (auto split: bind_splits)
    show ?thesis unfolding q(3) i4_nibbles using i4_code_nibble [OF q(1)] i4_code_nibble [OF q(2)] q(1,2) by (simp add: add.commute)
  qed
  have l: "length (take 16 xb) = 16" "length (drop 16 xb) = 16" using assms(1) by simp_all
  have "i4_dequantize_block b = px_values rocmi4_quantize_code sint e (take 16 xb) @ px_values rocmi4_quantize_code sint e (drop 16 xb)"
    unfolding i4_dequantize_block_def Let_def b using assms(1,2) val
    by (simp add: scale_byte px_values_map [OF l(1)] px_values_map [OF l(2)])
  also have "\<dots> = px_values rocmi4_quantize_code sint e (take 16 xb @ drop 16 xb)" by (simp only: px_values_def Let_def map_append)
  finally show ?thesis by simp
qed

lemma i4_block:
  assumes "length xb = 32" "do { e \<leftarrow> pick xb wb; rocmfpx_i4_codes xb e } = Some b" "\<And>xb wb e. pick xb wb = Some e \<Longrightarrow> e \<le> 126"
  shows "i4_dequantize_block b = px_values rocmi4_quantize_code sint (the (pick xb wb)) xb"
proof -
  obtain e where e: "pick xb wb = Some e" "rocmfpx_i4_codes xb e = Some b" using assms(2) by (auto split: bind_splits)
  show ?thesis using i4_codes_values [OF assms(1) assms(3) [OF e(1)] e(2)] e(1) by simp
qed

text \<open>Rows: every element is read back as the decoding of its code.\<close>

lemma row_of_halves:
  assumes "rocmfpx_blocks qb x qw = Some y"
    and "\<And>xb wb b. length xb = 32 \<Longrightarrow> qb xb wb = Some b \<Longrightarrow>
      deq b = px_values quant dec (the (pick (take 16 xb) (map_option (take 16) wb))) (take 16 xb)
        @ px_values quant dec (the (pick (drop 16 xb) (map_option (drop 16) wb))) (drop 16 xb)"
  shows "do { check (length x mod 32 = 0); Some (concat (map deq (take (length x div 32) y))) } = Some (row_values 16 pick quant dec x qw)"
proof -
  let ?hv = "\<lambda>xh wh. px_values quant dec (the (pick xh wh)) xh"
  let ?vals = "\<lambda>xb wb. ?hv (take 16 xb) (map_option (take 16) wb) @ ?hv (drop 16 xb) (map_option (drop 16) wb)"
  note v = blocks_values [OF assms(1), of deq ?vals, OF assms(2)]
  then have k: "length x mod 32 = 0" by blast
  have "concat (map deq (take (length x div 32) y)) = row_values 16 pick quant dec x qw"
    using v halves_values [OF k, of ?vals ?hv qw] by (simp only: row_values_def Let_def)
  then show ?thesis using k by (simp only: check_def if_True bind.bind_lunit simp_thms)
qed

lemma row_of_blocks:
  assumes "rocmfpx_blocks qb x qw = Some y"
    and "\<And>xb wb b. length xb = 32 \<Longrightarrow> qb xb wb = Some b \<Longrightarrow> deq b = px_values quant dec (the (pick xb wb)) xb"
  shows "do { check (length x mod 32 = 0); Some (concat (map deq (take (length x div 32) y))) } = Some (row_values 32 pick quant dec x qw)"
proof -
  note v = blocks_values [OF assms(1), of deq "\<lambda>xb wb. px_values quant dec (the (pick xb wb)) xb", OF assms(2)]
  then have "length x mod 32 = 0" "concat (map deq (take (length x div 32) y)) = row_values 32 pick quant dec x qw"
    by (simp_all only: row_values_def Let_def)
  then show ?thesis by (simp only: check_def if_True bind.bind_lunit simp_thms)
qed

text \<open>The scale of a slice in the formats with and without importance weights.\<close>

definition fp3_pick :: "float32 \<Rightarrow> float32 list \<Rightarrow> float32 list option \<Rightarrow> nat option" where
  "fp3_pick sigma2 xs qw = (case qw of Some q \<Rightarrow> rocmfpx_choose_scale_fp3_weighted_mse xs q sigma2
     | None \<Rightarrow> rocmfpx_choose_scale_fp3_mse xs)"

definition fp6_pick :: "float32 \<Rightarrow> float32 list \<Rightarrow> float32 list option \<Rightarrow> nat option" where
  "fp6_pick sigma2 xs qw = (case qw of Some q \<Rightarrow> rocmfpx_choose_scale_fp6_weighted_mse xs q sigma2
     | None \<Rightarrow> rocmfpx_choose_scale_fp6_mse xs)"

definition fp8_pick :: "float32 \<Rightarrow> float32 list \<Rightarrow> float32 list option \<Rightarrow> nat option" where
  "fp8_pick sigma2 xs qw = (case qw of Some q \<Rightarrow> rocmfpx_choose_scale_fp8_weighted_mse xs q sigma2
     | None \<Rightarrow> Some (rocmfpx_nearest_scale_ue4m3 (fdiv (rocmfpx_max_abs xs) (flit 127))))"

definition i4_pick :: "float32 \<Rightarrow> float32 list \<Rightarrow> float32 list option \<Rightarrow> nat option" where
  "i4_pick sigma2 xs qw = (case qw of Some q \<Rightarrow> rocmfpx_choose_scale_i4_weighted_mse xs q sigma2
     | None \<Rightarrow> Some (rocmfpx_nearest_scale_ue4m3 (fdiv (rocmfpx_max_abs xs) (flit 7))))"

lemma pick_bytes:
  "fp3_pick s xs qw = Some e \<Longrightarrow> e \<le> 126" "fp6_pick s xs qw = Some e \<Longrightarrow> e \<le> 126"
  "fp8_pick s xs qw = Some e \<Longrightarrow> e \<le> 126" "i4_pick s xs qw = Some e \<Longrightarrow> e \<le> 126"
  using choose_bytes rocmfpx_nearest_range
  by (auto simp: fp3_pick_def fp6_pick_def fp8_pick_def i4_pick_def split: option.splits)

lemma blocks_cong: "(\<And>xb. qb xb None = qb' xb None) \<Longrightarrow> rocmfpx_blocks qb x None = rocmfpx_blocks qb' x None"
  by (simp add: rocmfpx_blocks_def)

lemma ref_rows:
  "rocmfpx_quantize_row_fp3_ref x = rocmfpx_quantize_row_fp3_weighted x None"
  "rocmfpx_quantize_row_fp6_ref x = rocmfpx_quantize_row_fp6_weighted x None"
  "rocmfpx_quantize_row_fp8_ref x = rocmfpx_quantize_row_fp8_weighted x None"
  "rocmfpx_quantize_row_i4_ref x = rocmfpx_quantize_row_i4_weighted x None"
  unfolding rocmfpx_quantize_row_fp3_ref_def rocmfpx_quantize_row_fp3_weighted_def
    rocmfpx_quantize_row_fp6_ref_def rocmfpx_quantize_row_fp6_weighted_def
    rocmfpx_quantize_row_fp8_ref_def rocmfpx_quantize_row_fp8_weighted_def
    rocmfpx_quantize_row_i4_ref_def rocmfpx_quantize_row_i4_weighted_def Let_def
  by (rule blocks_cong, simp add: rocmfpx_halves_def)+

lemma fp2_read_back:
  assumes "rocmfpx_quantize_row_fp2_impl x qw = Some y"
  shows "rocmfpx_dequantize_row_fp2 y (length x)
    = Some (row_values 16 (\<lambda>xs w. rocmfpx_choose_scale_fp2_mse xs w (rocmfpx_sigma2 x)) fp2_quant rocmfpx_decode_fp2_code x qw)"
  using assms unfolding rocmfpx_quantize_row_fp2_impl_def rocmfpx_dequantize_row_fp2_def
  by (rule row_of_halves) (rule fp2_block)

lemma fp3_read_back:
  assumes "rocmfpx_quantize_row_fp3_weighted x qw = Some y"
  shows "rocmfpx_dequantize_row_fp3 y (length x)
    = Some (row_values 16 (fp3_pick (rocmfpx_sigma2 x)) fp3_quant rocmfpx_decode_fp3_code x qw)"
  using assms unfolding rocmfpx_quantize_row_fp3_weighted_def Let_def rocmfpx_dequantize_row_fp3_def fp3_pick_def [symmetric]
  by (rule row_of_halves) (rule fp3_block [OF _ _ pick_bytes(1)])

lemma fp6_read_back:
  assumes "rocmfpx_quantize_row_fp6_weighted x qw = Some y"
  shows "rocmfpx_dequantize_row_fp6 y (length x)
    = Some (row_values 16 (fp6_pick (rocmfpx_sigma2 x)) rocmfpx_quantize_fp6_code rocmfpx_decode_fp6_code x qw)"
  using assms unfolding rocmfpx_quantize_row_fp6_weighted_def Let_def rocmfpx_dequantize_row_fp6_def fp6_pick_def [symmetric]
  by (rule row_of_halves) (rule fp6_block [OF _ _ pick_bytes(2)])

lemma fp8_read_back:
  assumes "rocmfpx_quantize_row_fp8_weighted x qw = Some y"
  shows "rocmfpx_dequantize_row_fp8 y (length x)
    = Some (row_values 32 (fp8_pick (rocmfpx_sigma2 x)) rocmfpx_quantize_fp8_code sint x qw)"
  using assms unfolding rocmfpx_quantize_row_fp8_weighted_def Let_def rocmfpx_dequantize_row_fp8_def fp8_pick_def [symmetric]
  by (rule row_of_blocks) (rule fp8_block [OF _ _ pick_bytes(3)])

lemma i4_read_back:
  assumes "rocmfpx_quantize_row_i4_weighted x qw = Some y"
  shows "rocmfpx_dequantize_row_i4 y (length x)
    = Some (row_values 32 (i4_pick (rocmfpx_sigma2 x)) rocmi4_quantize_code sint x qw)"
  using assms unfolding rocmfpx_quantize_row_i4_weighted_def Let_def rocmfpx_dequantize_row_i4_def i4_pick_def [symmetric]
  by (rule row_of_blocks) (rule i4_block [OF _ _ pick_bytes(4)])

lemma linear_read_back:
  assumes "rocmfpx_quantize_row_linear x qw bits = Some y" "bits = 5 \<or> bits = 7"
  shows "rocmfpx_dequantize_row_linear y (length x) bits
    = Some (row_values 16 (\<lambda>xs w. rocmfpx_choose_scale_linear xs w (if qw = None then f_zero else rocmfpx_sigma2 x) bits)
        (\<lambda>x i. rocmfpx_quantize_linear_code x i bits) (\<lambda>c. rocmfpx_decode_linear_code c bits) x qw)"
  using assms(1) unfolding rocmfpx_quantize_row_linear_def Let_def rocmfpx_dequantize_row_linear_def
  by (rule row_of_halves) (rule linear_block [OF _ _ assms(2)])

subsection \<open>Quantized rows are valid\<close>

text \<open>Elements that are not finite, or below the bound within which \<open>lroundf\<close> is defined.\<close>

definition px_small :: "float32 list \<Rightarrow> bool" where
  "px_small xs \<longleftrightarrow> (\<forall>x \<in> set xs. is_f32 x \<and> (is_finite x \<longrightarrow> \<bar>fval x\<bar> < 2 ^ 52))"

lemma px_small_slices [simp]: "px_small xs \<Longrightarrow> px_small (take n xs)" "px_small xs \<Longrightarrow> px_small (drop n xs)"
  by (auto simp: px_small_def dest: in_set_takeD in_set_dropD)

lemma block_mse_defined:
  assumes "\<forall>(x, w) \<in> set xs. \<exists>v. dec x = Some v"
  shows "\<exists>r. block_mse dec s xs b = Some r"
  unfolding block_mse_def
proof (rule mse_loop_total, rule ballI)
  fix a assume a: "a \<in> set xs"
  obtain x w where "a = (x, w)" by (cases a)
  moreover obtain v where "dec x = Some v" using assms a calculation by auto
  ultimately show "\<exists>t. block_term dec s a = Some t" by (simp add: block_term_def Let_def)
qed

lemma rocmfpx_search_total:
  assumes "\<And>e b. 1 \<le> e \<Longrightarrow> e \<le> 126 \<Longrightarrow> \<exists>r. err e b = Some r"
  shows "\<exists>e. rocmfpx_search err clip t = Some e"
  using search_scale_range [of err "rocmfpx_nearest_scale_ue4m3 t" clip "rocmfpx_nearest_scale_ue4m3 t" "FInf False"]
    assms rocmfpx_nearest_range [of t] unfolding rocmfpx_search_def Let_def by blast

lemma weighted_mem: "(x, w) \<in> set (weighted xs ws) \<Longrightarrow> x \<in> set xs"
  by (auto simp: weighted_def dest: set_zip_leftD)

lemma weight_or_one_mem: "(x, w) \<in> set (weight_or_one xs ws) \<Longrightarrow> x \<in> set xs"
  by (auto simp: weight_or_one_def dest: weighted_mem split: option.splits)

lemma weighted_all_finite:
  assumes "px_small xs" "length q = length xs" "mw_all_finite (rocmfpx_prepare_mse_weights xs q s)"
  shows "list_all is_finite xs"
proof -
  have fst: "map fst (zip xs q) = xs" using assms(2) by simp
  have "\<forall>x \<in> set (map fst (zip xs q)). is_f32 x" using assms(1) by (simp only: fst px_small_def) blast
  from px_prepare_props [OF this, of s] show ?thesis using assms(3) unfolding rocmfpx_prepare_mse_weights_def fst by blast
qed

text \<open>The codes that round are defined on such elements.\<close>

lemma rounded_defined:
  assumes "px_small xs" "x \<in> set xs" "e \<le> 126" "is_finite x" "1 \<le> e"
  shows "\<exists>q. lround_int x (inv_scale_of (rocmfpx_scale_lookup e)) = Some q"
  using assms lround_int_defined [of x e] by (simp add: px_small_def)

lemma codes_defined:
  assumes "px_small xs" "x \<in> set xs" "e \<le> 126"
  defines "i \<equiv> inv_scale_of (rocmfpx_scale_lookup e)"
  shows "\<exists>c. rocmfpx_quantize_fp6_code x i = Some c" "\<exists>c. rocmfpx_quantize_fp8_code x i = Some c"
    "\<exists>c. rocmfpx_quantize_linear_code x i bits = Some c" "\<exists>c. rocmi4_quantize_code x i = Some c"
proof -
  have "(\<exists>c. rocmfpx_quantize_fp6_code x i = Some c) \<and> (\<exists>c. rocmfpx_quantize_fp8_code x i = Some c)
    \<and> (\<exists>c. rocmfpx_quantize_linear_code x i bits = Some c) \<and> (\<exists>c. rocmi4_quantize_code x i = Some c)"
  proof (cases "e = 0 \<or> \<not> is_finite x")
    case True
    have "e = 0 \<Longrightarrow> i = f_zero"
      by (simp add: i_def inv_scale_of_def lookup_table ue4m3_table_nth scale_val_def f_zero_def)
    then have "fle i f_zero \<or> \<not> is_finite x" using True by (auto simp: fle_def f_zero_def)
    then show ?thesis
      by (auto simp: rocmfpx_quantize_fp6_code_def rocmfpx_quantize_fp8_code_def rocmfpx_quantize_linear_code_def rocmi4_quantize_code_def)
  next
    case False
    then have "1 \<le> e" "is_finite x" by auto
    then obtain q where "lround_int x i = Some q" using rounded_defined [OF assms(1-3)] unfolding i_def by blast
    then show ?thesis
      by (simp add: rocmfpx_quantize_fp6_code_def rocmfpx_quantize_fp8_code_def rocmfpx_quantize_linear_code_def rocmi4_quantize_code_def Let_def)
  qed
  then show "\<exists>c. rocmfpx_quantize_fp6_code x i = Some c" "\<exists>c. rocmfpx_quantize_fp8_code x i = Some c"
    "\<exists>c. rocmfpx_quantize_linear_code x i bits = Some c" "\<exists>c. rocmi4_quantize_code x i = Some c" by blast+
qed

text \<open>The search for a scale ends with one.\<close>

definition weights_for :: "'a list \<Rightarrow> 'b list option \<Rightarrow> bool" where
  "weights_for xs qw = (case qw of None \<Rightarrow> True | Some q \<Rightarrow> length q = length xs)"

lemma weights_for_simps [simp]: "weights_for xs None" "weights_for xs (Some q) \<longleftrightarrow> length q = length xs"
  by (simp_all add: weights_for_def)

lemma skip_defined:
  assumes "\<And>x. x \<in> set xs \<Longrightarrow> is_finite x \<Longrightarrow> \<exists>v. dec x = Some v" "\<And>x w. (x, w) \<in> set ys \<Longrightarrow> x \<in> set xs"
  shows "\<exists>r. block_mse dec s (skip_nonfinite ys) b = Some r"
  by (rule block_mse_defined) (use assms in auto)

lemma finite_defined:
  assumes "\<And>x. x \<in> set xs \<Longrightarrow> is_finite x \<Longrightarrow> \<exists>v. dec x = Some v" "\<And>x w. (x, w) \<in> set ys \<Longrightarrow> x \<in> set xs" "list_all is_finite xs"
  shows "\<exists>r. block_mse dec s ys b = Some r"
  by (rule block_mse_defined) (use assms in \<open>fastforce simp: list_all_iff\<close>)

lemma choose_fp2_total: "\<exists>e. rocmfpx_choose_scale_fp2_mse xs qw s = Some e"
proof -
  have "\<exists>e. rocmfpx_search (rocmfpx_fp2_group_mse_for_scale xs ws) clip t = Some e" for ws clip t
    by (rule rocmfpx_search_total) (auto simp: rocmfpx_fp2_group_mse_for_scale_def Let_def intro: block_mse_total)
  then show ?thesis by (auto simp: rocmfpx_choose_scale_fp2_mse_def Let_def split: option.splits)
qed

lemma fp3_impl_total: "\<exists>e. rocmfpx_choose_scale_fp3_mse_impl xs ws m mw f = Some e"
  unfolding rocmfpx_choose_scale_fp3_mse_impl_def
  by (rule rocmfpx_search_total)
    (auto simp: rocmfpx_fp3_block_mse_for_scale_def rocmfpx_fp3_block_mse_for_scale_finite_def Let_def
      rocmfpx_fp3_block_weighted_mse_for_scale_def rocmfpx_fp3_block_weighted_mse_for_scale_finite_def
      intro: block_mse_total split: option.splits)

lemma fp3_pick_total: "length xs \<le> 32 \<Longrightarrow> \<exists>e. fp3_pick s xs qw = Some e"
  using fp3_impl_total
  by (auto simp: fp3_pick_def rocmfpx_choose_scale_fp3_mse_def rocmfpx_choose_scale_fp3_weighted_mse_def Let_def check_def
      split: option.splits)

lemma fp6_value_defined:
  "px_small xs \<Longrightarrow> x \<in> set xs \<Longrightarrow> is_finite x \<Longrightarrow> 1 \<le> e \<Longrightarrow> e \<le> 126
    \<Longrightarrow> \<exists>v. rocmfpx_fp6_decoded_value x (inv_scale_of (rocmfpx_scale_lookup e)) = Some v"
  using rounded_defined [of xs x e] by (auto simp: rocmfpx_fp6_decoded_value_def)

lemma fp6_impl_total:
  assumes "px_small xs" "f \<Longrightarrow> list_all is_finite xs"
  shows "\<exists>e. rocmfpx_choose_scale_fp6_mse_impl xs ws m mw f = Some e"
  unfolding rocmfpx_choose_scale_fp6_mse_impl_def
proof (rule rocmfpx_search_total)
  fix e b assume e: "1 \<le> e" "e \<le> (126 :: nat)"
  let ?dec = "\<lambda>x. rocmfpx_fp6_decoded_value x (inv_scale_of (rocmfpx_scale_lookup e))"
  have v: "\<exists>v. ?dec x = Some v" if "x \<in> set xs" "is_finite x" for x
    using fp6_value_defined [OF assms(1) that e] .
  have sk: "\<exists>r. block_mse ?dec s (skip_nonfinite ys) b = Some r" if "\<And>x w. (x, w) \<in> set ys \<Longrightarrow> x \<in> set xs" for s ys b
    using v that by (rule skip_defined)
  have fi: "\<exists>r. block_mse ?dec s ys b = Some r" if "\<And>x w. (x, w) \<in> set ys \<Longrightarrow> x \<in> set xs" "list_all is_finite xs" for s ys b
    using v that by (rule finite_defined)
  show "\<exists>r. (case ws of
          Some ws \<Rightarrow> if f then rocmfpx_fp6_block_weighted_mse_for_scale_finite xs ws
            else rocmfpx_fp6_block_weighted_mse_for_scale xs ws
        | None \<Rightarrow> if f then rocmfpx_fp6_block_mse_for_scale_finite xs
            else rocmfpx_fp6_block_mse_for_scale xs) e b = Some r"
  proof (cases ws)
    case None
    then show ?thesis
      using sk [of "unweighted xs"] fi [of "unweighted xs"] assms(2)
      by (simp add: rocmfpx_fp6_block_mse_for_scale_def rocmfpx_fp6_block_mse_for_scale_finite_def Let_def)
  next
    case (Some q)
    then show ?thesis
      using sk [of "weighted xs q", OF weighted_mem] fi [of "weighted xs q", OF weighted_mem] assms(2)
      by (simp add: rocmfpx_fp6_block_weighted_mse_for_scale_def rocmfpx_fp6_block_weighted_mse_for_scale_finite_def Let_def)
  qed
qed

lemma fp6_pick_total:
  assumes "px_small xs" "weights_for xs qw" "length xs \<le> 32"
  shows "\<exists>e. fp6_pick s xs qw = Some e"
proof (cases qw)
  case None
  then show ?thesis using fp6_impl_total [OF assms(1)] by (simp add: fp6_pick_def rocmfpx_choose_scale_fp6_mse_def Let_def)
next
  case (Some q)
  let ?w = "rocmfpx_prepare_mse_weights xs q s"
  have "\<exists>e. rocmfpx_choose_scale_fp6_mse_impl xs (Some (mw_dst ?w)) (mw_max_abs ?w) (mw_max_abs_weight ?w) (mw_all_finite ?w) = Some e"
    by (rule fp6_impl_total [OF assms(1)]) (rule weighted_all_finite [OF assms(1)], use assms(2) Some in simp_all)
  then show ?thesis using Some assms(3) by (simp add: fp6_pick_def rocmfpx_choose_scale_fp6_weighted_mse_def Let_def check_def)
qed

lemma fp8_pick_total:
  assumes "px_small xs" "weights_for xs qw" "length xs \<le> 32"
  shows "\<exists>e. fp8_pick s xs qw = Some e"
proof (cases qw)
  case None
  then show ?thesis by (simp add: fp8_pick_def)
next
  case (Some q)
  let ?w = "rocmfpx_prepare_mse_weights xs q s"
  have fin: "mw_all_finite ?w \<Longrightarrow> list_all is_finite xs" using weighted_all_finite [OF assms(1)] assms(2) Some by simp
  have "\<exists>e. rocmfpx_search (if mw_all_finite ?w then rocmfpx_fp8_block_weighted_mse_for_scale_finite xs (mw_dst ?w)
        else rocmfpx_fp8_block_weighted_mse_for_scale xs (mw_dst ?w)) clip t = Some e" for clip t
  proof (rule rocmfpx_search_total)
    fix e b assume e: "1 \<le> e" "e \<le> (126 :: nat)"
    let ?dec = "\<lambda>x. map_option (\<lambda>code. f_of_int (sint code)) (rocmfpx_quantize_fp8_code x (inv_scale_of (rocmfpx_scale_lookup e)))"
    have v: "\<exists>v. ?dec x = Some v" if "x \<in> set xs" "is_finite x" for x using codes_defined(2) [OF assms(1) that(1) e(2)] by auto
    have sk: "\<exists>r. block_mse ?dec s (skip_nonfinite ys) b = Some r" if "\<And>x w. (x, w) \<in> set ys \<Longrightarrow> x \<in> set xs" for s ys b
      using v that by (rule skip_defined)
    have fi: "\<exists>r. block_mse ?dec s ys b = Some r" if "\<And>x w. (x, w) \<in> set ys \<Longrightarrow> x \<in> set xs" "list_all is_finite xs" for s ys b
      using v that by (rule finite_defined)
    show "\<exists>r. (if mw_all_finite ?w then rocmfpx_fp8_block_weighted_mse_for_scale_finite xs (mw_dst ?w)
        else rocmfpx_fp8_block_weighted_mse_for_scale xs (mw_dst ?w)) e b = Some r"
      using sk [of "weighted xs (mw_dst ?w)", OF weighted_mem] fi [of "weighted xs (mw_dst ?w)", OF weighted_mem] fin
      by (simp add: rocmfpx_fp8_block_weighted_mse_for_scale_def rocmfpx_fp8_block_weighted_mse_for_scale_finite_def Let_def)
  qed
  then show ?thesis using Some assms(3) by (simp add: fp8_pick_def rocmfpx_choose_scale_fp8_weighted_mse_def Let_def check_def)
qed

lemma i4_pick_total:
  assumes "px_small xs" "length xs \<le> 32"
  shows "\<exists>e. i4_pick s xs qw = Some e"
proof (cases qw)
  case None
  then show ?thesis by (simp add: i4_pick_def)
next
  case (Some q)
  have "\<exists>e. rocmfpx_search (rocmfpx_i4_block_weighted_mse_for_scale xs ws) clip t = Some e" for ws clip t
  proof (rule rocmfpx_search_total)
    fix e b assume e: "1 \<le> e" "e \<le> (126 :: nat)"
    let ?dec = "\<lambda>x. map_option (\<lambda>code. f_of_int (sint code)) (rocmi4_quantize_code x (inv_scale_of (rocmfpx_scale_lookup e)))"
    have v: "\<exists>v. ?dec x = Some v" if "x \<in> set xs" "is_finite x" for x using codes_defined(4) [OF assms(1) that(1) e(2)] by auto
    have sk: "\<exists>r. block_mse ?dec s (skip_nonfinite ys) b = Some r" if "\<And>x w. (x, w) \<in> set ys \<Longrightarrow> x \<in> set xs" for s ys b
      using v that by (rule skip_defined)
    show "\<exists>r. rocmfpx_i4_block_weighted_mse_for_scale xs ws e b = Some r"
      using sk [of "weighted xs ws", OF weighted_mem] by (simp add: rocmfpx_i4_block_weighted_mse_for_scale_def Let_def)
  qed
  then show ?thesis using Some assms(2) by (simp add: i4_pick_def rocmfpx_choose_scale_i4_weighted_mse_def Let_def check_def)
qed

lemma choose_linear_total:
  assumes "px_small xs"
  shows "\<exists>e. rocmfpx_choose_scale_linear xs qw s bits = Some e"
proof -
  have "\<exists>e. rocmfpx_search (rocmfpx_linear_mse_for_scale xs ws bits) clip t = Some e" for ws clip t
  proof (rule rocmfpx_search_total)
    fix e b assume e: "1 \<le> e" "e \<le> (126 :: nat)"
    let ?dec = "\<lambda>x. map_option f_of_int (rocmfpx_linear_value x (inv_scale_of (rocmfpx_scale_lookup e)) bits)"
    have v: "\<exists>v. ?dec x = Some v" if "x \<in> set xs" "is_finite x" for x
      using rounded_defined [OF assms that(1) e(2) that(2) e(1)] by (auto simp: rocmfpx_linear_value_def Let_def)
    have sk: "\<exists>r. block_mse ?dec s (skip_nonfinite ys) b = Some r" if "\<And>x w. (x, w) \<in> set ys \<Longrightarrow> x \<in> set xs" for s ys b
      using v that by (rule skip_defined)
    show "\<exists>r. rocmfpx_linear_mse_for_scale xs ws bits e b = Some r"
      using sk [of "weight_or_one xs ws", OF weight_or_one_mem] by (simp add: rocmfpx_linear_mse_for_scale_def Let_def)
  qed
  then show ?thesis by (auto simp: rocmfpx_choose_scale_linear_def Let_def split: option.splits)
qed

text \<open>Blocks and rows.\<close>

definition px_valid :: "nat \<Rightarrow> block_rocmfpx \<Rightarrow> bool" where
  "px_valid n b \<longleftrightarrow> length (px_qs b) = n \<and> length (px_e b) = 2 \<and> (\<forall>e \<in> set (px_e b). unat e \<le> 126)"

definition p8_valid :: "nat \<Rightarrow> block_rocmfp8 \<Rightarrow> bool" where
  "p8_valid n b \<longleftrightarrow> length (p8_qs b) = n \<and> unat (p8_e b) \<le> 126"

lemma halves_total:
  assumes h: "\<And>xh qh. length xh = 16 \<Longrightarrow> px_small xh \<Longrightarrow> weights_for xh qh
      \<Longrightarrow> \<exists>e qs. h xh qh = Some (e, qs) \<and> e \<le> 126 \<and> length qs = n"
    and "length xb = 32" "px_small xb" "weights_for xb wb"
  shows "\<exists>b. rocmfpx_halves h xb wb = Some b \<and> px_valid (2 * n) b"
proof -
  have w: "weights_for (take 16 xb) (map_option (take 16) wb)" "weights_for (drop 16 xb) (map_option (drop 16) wb)"
    using assms(2,4) by (cases wb; simp)+
  obtain e0 q0 e1 q1 where "h (take 16 xb) (map_option (take 16) wb) = Some (e0, q0)" "e0 \<le> 126" "length q0 = n"
    "h (drop 16 xb) (map_option (drop 16) wb) = Some (e1, q1)" "e1 \<le> 126" "length q1 = n"
    using h [OF _ _ w(1)] h [OF _ _ w(2)] assms(2,3) by auto
  then show ?thesis by (simp add: rocmfpx_halves_def px_valid_def byte_of_nat)
qed

lemma blocks_total:
  assumes "\<And>xb wb. length xb = 32 \<Longrightarrow> px_small xb \<Longrightarrow> weights_for xb wb \<Longrightarrow> \<exists>b. qb xb wb = Some b \<and> P b"
    and x: "length x mod 32 = 0" "px_small x" "weights_for x qw"
  shows "\<exists>y. rocmfpx_blocks qb x qw = Some y \<and> length y = length x div 32 \<and> (\<forall>b \<in> set y. P b)"
proof -
  have "\<exists>b. qb (take 32 (drop (ib * 32) x)) (map_option (\<lambda>w. take 32 (drop (ib * 32) w)) qw) = Some b \<and> P b"
    if "ib \<in> set [0..<length x div 32]" for ib
    by (rule assms(1)) (use take_slice_length [OF x(1), of ib] x that in \<open>cases qw; simp\<close>)+
  from those_map_all [of "[0..<length x div 32]", OF this] show ?thesis
    using x(1) by (simp add: rocmfpx_blocks_def check_def)
qed

lemma those_total: "(\<And>x. x \<in> set xs \<Longrightarrow> \<exists>y. f x = Some y) \<Longrightarrow> \<exists>ys. those (map f xs) = Some ys \<and> length ys = length xs"
  using those_map_all [of xs f "\<lambda>_. True"] by auto

lemma slices_defined:
  assumes "px_small xs" "e \<le> 126"
  defines "i \<equiv> inv_scale_of (rocmfpx_scale_lookup e)"
  shows "\<exists>c. those (map (\<lambda>x. rocmfpx_quantize_fp6_code x i) xs) = Some c \<and> length c = length xs"
    "\<exists>c. those (map (\<lambda>x. rocmfpx_quantize_fp8_code x i) xs) = Some c \<and> length c = length xs"
    "\<exists>c. those (map (\<lambda>x. rocmfpx_quantize_linear_code x i bits) xs) = Some c \<and> length c = length xs"
  unfolding i_def by (rule those_total, rule codes_defined [OF assms(1) _ assms(2)], assumption)+

lemma fp2_rows:
  assumes "length x mod 32 = 0" "px_small x" "weights_for x qw"
  shows "\<exists>y. rocmfpx_quantize_row_fp2_impl x qw = Some y \<and> length y = length x div 32 \<and> (\<forall>b \<in> set y. px_valid 8 b)"
  unfolding rocmfpx_quantize_row_fp2_impl_def
proof (rule blocks_total [OF _ assms])
  fix xb :: "float32 list" and wb :: "float32 list option" assume b: "length xb = 32" "px_small xb" "weights_for xb wb"
  have "\<exists>b. rocmfpx_halves (fp2_quantize_half (rocmfpx_sigma2 x)) xb wb = Some b \<and> px_valid (2 * 4) b"
  proof (rule halves_total [OF _ b])
    fix xh :: "float32 list" and qh assume "length xh = 16"
    obtain e where "rocmfpx_choose_scale_fp2_mse xh qh (rocmfpx_sigma2 x) = Some e" using choose_fp2_total by blast
    then show "\<exists>e qs. fp2_quantize_half (rocmfpx_sigma2 x) xh qh = Some (e, qs) \<and> e \<le> 126 \<and> length qs = 4"
      using choose_bytes(1) by (simp add: fp2_quantize_half_def Let_def)
  qed
  then show "\<exists>b. rocmfpx_halves (fp2_quantize_half (rocmfpx_sigma2 x)) xb wb = Some b \<and> px_valid 8 b" by simp
qed

lemma fp3_rows:
  assumes "length x mod 32 = 0" "px_small x" "weights_for x qw"
  shows "\<exists>y. rocmfpx_quantize_row_fp3_weighted x qw = Some y \<and> length y = length x div 32 \<and> (\<forall>b \<in> set y. px_valid 12 b)"
  unfolding rocmfpx_quantize_row_fp3_weighted_def Let_def fp3_pick_def [symmetric]
proof (rule blocks_total [OF _ assms])
  let ?h = "\<lambda>xh qh. do { e \<leftarrow> fp3_pick (rocmfpx_sigma2 x) xh qh; Some (e, rocmfpx_fp3_codes xh e) }"
  fix xb :: "float32 list" and wb :: "float32 list option" assume b: "length xb = 32" "px_small xb" "weights_for xb wb"
  have "\<exists>b. rocmfpx_halves ?h xb wb = Some b \<and> px_valid (2 * 6) b"
  proof (rule halves_total [OF _ b])
    fix xh :: "float32 list" and qh :: "float32 list option" assume l: "length xh = 16"
    then obtain e where e: "fp3_pick (rocmfpx_sigma2 x) xh qh = Some e" using fp3_pick_total [of xh] by force
    then show "\<exists>e qs. ?h xh qh = Some (e, qs) \<and> e \<le> 126 \<and> length qs = 6"
      using pick_bytes(1) [OF e] fp3_codes_unpack(1) [OF l, of e] by simp
  qed
  then show "\<exists>b. rocmfpx_halves ?h xb wb = Some b \<and> px_valid 12 b" by simp
qed

lemma fp6_rows:
  assumes "length x mod 32 = 0" "px_small x" "weights_for x qw"
  shows "\<exists>y. rocmfpx_quantize_row_fp6_weighted x qw = Some y \<and> length y = length x div 32 \<and> (\<forall>b \<in> set y. px_valid 24 b)"
  unfolding rocmfpx_quantize_row_fp6_weighted_def Let_def fp6_pick_def [symmetric]
proof (rule blocks_total [OF _ assms])
  let ?h = "\<lambda>xh qh. do { e \<leftarrow> fp6_pick (rocmfpx_sigma2 x) xh qh; qs \<leftarrow> rocmfpx_fp6_codes xh e; Some (e, qs) }"
  fix xb :: "float32 list" and wb :: "float32 list option" assume b: "length xb = 32" "px_small xb" "weights_for xb wb"
  have "\<exists>b. rocmfpx_halves ?h xb wb = Some b \<and> px_valid (2 * 12) b"
  proof (rule halves_total [OF _ b])
    fix xh :: "float32 list" and qh :: "float32 list option" assume l: "length xh = 16" and s: "px_small xh" "weights_for xh qh"
    then obtain e where e: "fp6_pick (rocmfpx_sigma2 x) xh qh = Some e" using fp6_pick_total [OF s] by force
    note e126 = pick_bytes(2) [OF e]
    obtain c where "those (map (\<lambda>x. rocmfpx_quantize_fp6_code x (inv_scale_of (rocmfpx_scale_lookup e))) xh) = Some c"
      using slices_defined(1) [OF s(1) e126] by blast
    then obtain qs where qs: "rocmfpx_fp6_codes xh e = Some qs" by (simp add: rocmfpx_fp6_codes_def Let_def)
    then show "\<exists>e qs. ?h xh qh = Some (e, qs) \<and> e \<le> 126 \<and> length qs = 12"
      using e e126 fp6_codes_unpack [OF l qs] by simp
  qed
  then show "\<exists>b. rocmfpx_halves ?h xb wb = Some b \<and> px_valid 24 b" by simp
qed

lemma fp8_rows:
  assumes "length x mod 32 = 0" "px_small x" "weights_for x qw"
  shows "\<exists>y. rocmfpx_quantize_row_fp8_weighted x qw = Some y \<and> length y = length x div 32 \<and> (\<forall>b \<in> set y. p8_valid 32 b)"
  unfolding rocmfpx_quantize_row_fp8_weighted_def Let_def fp8_pick_def [symmetric]
proof (rule blocks_total [OF _ assms])
  fix xb :: "float32 list" and wb :: "float32 list option" assume b: "length xb = 32" "px_small xb" "weights_for xb wb"
  then obtain e where e: "fp8_pick (rocmfpx_sigma2 x) xb wb = Some e" using fp8_pick_total [OF b(2,3)] by force
  note e126 = pick_bytes(3) [OF e]
  obtain c where "those (map (\<lambda>x. rocmfpx_quantize_fp8_code x (inv_scale_of (rocmfpx_scale_lookup e))) xb) = Some c" "length c = 32"
    using slices_defined(2) [OF b(2) e126] b(1) by auto
  then show "\<exists>b. do { e \<leftarrow> fp8_pick (rocmfpx_sigma2 x) xb wb; rocmfpx_fp8_codes xb e } = Some b \<and> p8_valid 32 b"
    using e e126 by (simp add: rocmfpx_fp8_codes_def Let_def p8_valid_def byte_of_nat)
qed

lemma i4_rows:
  assumes "length x mod 32 = 0" "px_small x" "weights_for x qw"
  shows "\<exists>y. rocmfpx_quantize_row_i4_weighted x qw = Some y \<and> length y = length x div 32 \<and> (\<forall>b \<in> set y. p8_valid 16 b)"
  unfolding rocmfpx_quantize_row_i4_weighted_def Let_def i4_pick_def [symmetric]
proof (rule blocks_total [OF _ assms])
  fix xb :: "float32 list" and wb :: "float32 list option" assume b: "length xb = 32" "px_small xb" "weights_for xb wb"
  then obtain e where e: "i4_pick (rocmfpx_sigma2 x) xb wb = Some e" using i4_pick_total [OF b(2)] by force
  note e126 = pick_bytes(4) [OF e]
  let ?i = "inv_scale_of (rocmfpx_scale_lookup e)"
  let ?f = "\<lambda>j. do {
       q0 \<leftarrow> rocmi4_quantize_code (xb ! j) ?i;
       q1 \<leftarrow> rocmi4_quantize_code (xb ! (j + 16)) ?i;
       Some (take_bit 4 q0 OR push_bit 4 (take_bit 4 q1)) }"
  have "\<exists>y. ?f j = Some y" if "j \<in> set [0..<16]" for j
    using codes_defined(4) [OF b(2) _ e126, of "xb ! j"] codes_defined(4) [OF b(2) _ e126, of "xb ! (j + 16)"] b(1) that by fastforce
  then obtain c where "those (map ?f [0..<16]) = Some c" "length c = 16" using those_total [of "[0..<16]" ?f] by auto
  then show "\<exists>b. do { e \<leftarrow> i4_pick (rocmfpx_sigma2 x) xb wb; rocmfpx_i4_codes xb e } = Some b \<and> p8_valid 16 b"
    using e e126 by (simp add: rocmfpx_i4_codes_def Let_def p8_valid_def byte_of_nat)
qed

lemma linear_rows:
  assumes "length x mod 32 = 0" "px_small x" "weights_for x qw"
  shows "\<exists>y. rocmfpx_quantize_row_linear x qw bits = Some y \<and> length y = length x div 32 \<and> (\<forall>b \<in> set y. px_valid (32 * bits div 8) b)"
  unfolding rocmfpx_quantize_row_linear_def Let_def
proof (rule blocks_total [OF _ assms])
  let ?s = "if qw = None then f_zero else rocmfpx_sigma2 x"
  fix xb :: "float32 list" and wb :: "float32 list option" assume b: "length xb = 32" "px_small xb" "weights_for xb wb"
  have half: "\<exists>e block'. linear_half ?s bits block off xh wh = Some (e, block') \<and> e \<le> 126 \<and> length block' = length block"
    if "px_small xh" for block off xh wh
  proof -
    have sm: "px_small xh" by (rule that)
    obtain e where e: "rocmfpx_choose_scale_linear xh wh ?s bits = Some e" using choose_linear_total [OF sm] by blast
    note e126 = choose_bytes(7) [OF e]
    obtain c where "those (map (\<lambda>x. rocmfpx_quantize_linear_code x (inv_scale_of (rocmfpx_scale_lookup e)) bits) xh) = Some c"
      using slices_defined(3) [OF sm e126] by blast
    then show ?thesis using e e126 by (simp add: linear_half_def Let_def)
  qed
  let ?n = "32 * bits div 8"
  obtain e0 b0 where "linear_half ?s bits (replicate ?n 0) 0 (take 16 xb) (map_option (take 16) wb) = Some (e0, b0)" "e0 \<le> 126" "length b0 = ?n"
    using half [of "take 16 xb" "replicate ?n 0"] b(2) by fastforce
  moreover obtain e1 b1 where "linear_half ?s bits b0 16 (drop 16 xb) (map_option (drop 16) wb) = Some (e1, b1)" "e1 \<le> 126" "length b1 = ?n"
    using half [of "drop 16 xb" b0] b(2) calculation by fastforce
  ultimately show "\<exists>b. linear_quantize_block ?s bits xb wb = Some b \<and> px_valid ?n b"
    unfolding linear_quantize_block_def Let_def px_valid_def by (simp add: byte_of_nat)
qed

text \<open>Tensors of several rows, and their bytes.\<close>

lemma quantize_rows_total:
  assumes q: "\<And>x. length x = n \<Longrightarrow> px_small x \<Longrightarrow> \<exists>y. qr x = Some y \<and> length y = n div 32 \<and> (\<forall>b \<in> set y. P b)"
    and s: "length src = nrows * n" "px_small src" "n mod 32 = 0"
  shows "\<exists>dst. rocmfpx_quantize_rows sz qr src nrows n = Some (dst, length dst * sz) \<and> length dst = nrows * (n div 32) \<and> (\<forall>b \<in> set dst. P b)"
proof -
  have "\<exists>y. qr (take n (drop (row * n) src)) = Some y \<and> length y = n div 32 \<and> (\<forall>b \<in> set y. P b)" if "row \<in> set [0..<nrows]" for row
  proof (rule q)
    have "(row + 1) * n \<le> nrows * n" using that by (intro mult_le_mono1) simp
    then show "length (take n (drop (row * n) src)) = n" using s(1) by simp
  qed (use s(2) in simp)
  then obtain ys where ys: "those (map (\<lambda>row. qr (take n (drop (row * n) src))) [0..<nrows]) = Some ys" "length ys = nrows"
    "\<forall>y \<in> set ys. length y = n div 32 \<and> (\<forall>b \<in> set y. P b)"
    using those_map_all [of "[0..<nrows]" "\<lambda>row. qr (take n (drop (row * n) src))" "\<lambda>y. length y = n div 32 \<and> (\<forall>b \<in> set y. P b)"]
    by auto
  have "length (concat ys) = nrows * (n div 32)" using length_concat_rows [of ys "n div 32"] ys(2,3) by simp
  then show ?thesis
    using ys s(3) by (intro exI [of _ "concat ys"]) (auto simp: rocmfpx_quantize_rows_def rocmfpx_row_size_def check_def)
qed

lemma scales_validI:
  assumes "length data = k * m" "0 < m" "\<And>i off. i < k \<Longrightarrow> off \<in> set offs \<Longrightarrow> unat (data ! (m * i + off)) \<le> 126"
  shows "scales_valid m offs data"
  using assms by (simp add: scales_valid_def rocmfpx_scale_is_valid_def)

lemma px_bytes_valid:
  assumes "\<forall>b \<in> set bs. px_valid n b"
  shows "length (concat (map block_rocmfpx_bytes bs)) = length bs * (n + 2)
    \<and> scales_valid (n + 2) [n, n + 1] (concat (map block_rocmfpx_bytes bs))"
proof -
  let ?rows = "map block_rocmfpx_bytes bs"
  have rows: "\<forall>r \<in> set ?rows. length r = n + 2" using assms by (auto simp: px_valid_def block_rocmfpx_bytes_def)
  have len: "length (concat ?rows) = length bs * (n + 2)" using length_concat_rows [OF rows] by simp
  have "unat (concat ?rows ! ((n + 2) * i + n)) \<le> 126 \<and> unat (concat ?rows ! ((n + 2) * i + (n + 1))) \<le> 126" if i: "i < length bs" for i
  proof -
    have v: "px_valid n (bs ! i)" using assms i by simp
    have "concat ?rows ! (i * (n + 2) + j) = block_rocmfpx_bytes (bs ! i) ! j" if "j < n + 2" for j
      using nth_concat_rows [OF rows, of i j] i that by simp
    from this [of n] this [of "n + 1"] show ?thesis
      using v unfolding mult.commute [of "n + 2" i] by (simp add: block_rocmfpx_bytes_def nth_append px_valid_def)
  qed
  then have "scales_valid (n + 2) [n, n + 1] (concat ?rows)" by (intro scales_validI [OF len]) auto
  then show ?thesis using len by blast
qed

lemma p8_bytes_valid:
  assumes "\<forall>b \<in> set bs. p8_valid n b"
  shows "length (concat (map block_rocmfp8_bytes bs)) = length bs * (n + 1)
    \<and> scales_valid (n + 1) [n] (concat (map block_rocmfp8_bytes bs))"
proof -
  let ?rows = "map block_rocmfp8_bytes bs"
  have rows: "\<forall>r \<in> set ?rows. length r = n + 1" using assms by (auto simp: p8_valid_def block_rocmfp8_bytes_def)
  have len: "length (concat ?rows) = length bs * (n + 1)" using length_concat_rows [OF rows] by simp
  have "unat (concat ?rows ! ((n + 1) * i + n)) \<le> 126" if i: "i < length bs" for i
  proof -
    have v: "p8_valid n (bs ! i)" using assms i by simp
    have "concat ?rows ! (i * (n + 1) + n) = block_rocmfp8_bytes (bs ! i) ! n"
      using nth_concat_rows [OF rows, of i n] i by simp
    then show ?thesis
      using v unfolding mult.commute [of "n + 1" i] by (simp add: block_rocmfp8_bytes_def nth_append p8_valid_def)
  qed
  then have "scales_valid (n + 1) [n] (concat ?rows)" by (intro scales_validI [OF len]) auto
  then show ?thesis using len by blast
qed

subsection \<open>Properties of the formats\<close>

text \<open>
  C13: The pruned search for the scale of a slice always returns in the formats of two and three bits, with or
  without importance weights, and in the weighted format of eight bits. For a slice whose finite elements are all zero
  it finds byte 0, otherwise the lowest of the bytes 1 to 126 with the least error, as computed in
  float arithmetic over the finite elements: what a scan of all bytes finds. Elements that are not finite play no role.
\<close>

theorem rocmfpx_choose_scale_optimal:
  assumes "px_input_ok bd xs qw sigma2" "bd \<le> 2 ^ 127"
  shows "scale_found xs (rocmfpx_fp2_error xs qw sigma2) (rocmfpx_choose_scale_fp2_mse xs qw sigma2)
    \<and> scale_found xs (rocmfpx_fp3_error xs qw sigma2)
        (case qw of None \<Rightarrow> rocmfpx_choose_scale_fp3_mse xs | Some q \<Rightarrow> rocmfpx_choose_scale_fp3_weighted_mse xs q sigma2)
    \<and> (\<forall>q. qw = Some q \<and> bd \<le> 2 ^ 52 \<longrightarrow>
        scale_found xs (rocmfpx_fp8_error xs qw sigma2) (rocmfpx_choose_scale_fp8_weighted_mse xs q sigma2))"
proof -
  have mono: "px_input_ok bd' xs qw sigma2" if "bd \<le> bd'" for bd' using assms(1) that by (fastforce simp: px_input_ok_def)
  show ?thesis
    using choose_fp2_optimal [OF mono] choose_fp3_optimal [OF mono] choose_fp8_optimal mono assms(2) by auto
qed

theorem rocmfpx_choose_scale_optimal_witness:
  "scale_found [f_one] (rocmfpx_fp2_error [f_one] None f_zero) (rocmfpx_choose_scale_fp2_mse [f_one] None f_zero)
    \<and> scale_found [f_one] (rocmfpx_fp3_error [f_one] None f_zero) (rocmfpx_choose_scale_fp3_mse [f_one])"
proof -
  have "px_input_ok (2 ^ 52) [f_one] None f_zero"
    using f_one_finite by (simp add: px_input_ok_def px_weights_ok_def)
  from rocmfpx_choose_scale_optimal [OF this] show ?thesis by simp
qed

text \<open>
  In the formats of 5 and 7 bits the code with the sign bit and magnitude zero is the least one: it is decoded to -16 and -64.
\<close>

theorem rocmfpx_linear_negative_zero:
  "rocmfpx_decode_linear_code 16 5 = - 16 \<and> rocmfpx_decode_linear_code 64 7 = - 64"
  by code_simp

text \<open>
  C14: In all seven formats a row of whole blocks of floats, each of them not finite or of magnitude below \<open>2 ^ 52\<close>, is
  quantized, and dequantizing the packed blocks gives for each element the value of its own code times the scale of its
  slice: what encoding and decoding it alone gives, without the packing. The values are those of the code's own decoders;
  in the formats of 5 and 7 bits the code of sign bit and magnitude zero counts as -16 and -64.
\<close>

theorem rocmfpx_row_reads_back:
  assumes "length x mod 32 = 0" "px_small x" "weights_for x qw"
  shows "(\<exists>y. rocmfpx_quantize_row_fp2_impl x qw = Some y \<and> rocmfpx_dequantize_row_fp2 y (length x)
        = Some (row_values 16 (\<lambda>xs w. rocmfpx_choose_scale_fp2_mse xs w (rocmfpx_sigma2 x)) fp2_quant rocmfpx_decode_fp2_code x qw))
    \<and> (\<exists>y. rocmfpx_quantize_row_fp3_weighted x qw = Some y \<and> rocmfpx_dequantize_row_fp3 y (length x)
        = Some (row_values 16 (fp3_pick (rocmfpx_sigma2 x)) fp3_quant rocmfpx_decode_fp3_code x qw))
    \<and> (\<exists>y. rocmfpx_quantize_row_fp6_weighted x qw = Some y \<and> rocmfpx_dequantize_row_fp6 y (length x)
        = Some (row_values 16 (fp6_pick (rocmfpx_sigma2 x)) rocmfpx_quantize_fp6_code rocmfpx_decode_fp6_code x qw))
    \<and> (\<exists>y. rocmfpx_quantize_row_fp8_weighted x qw = Some y \<and> rocmfpx_dequantize_row_fp8 y (length x)
        = Some (row_values 32 (fp8_pick (rocmfpx_sigma2 x)) rocmfpx_quantize_fp8_code sint x qw))
    \<and> (\<exists>y. rocmfpx_quantize_row_i4_weighted x qw = Some y \<and> rocmfpx_dequantize_row_i4 y (length x)
        = Some (row_values 32 (i4_pick (rocmfpx_sigma2 x)) rocmi4_quantize_code sint x qw))
    \<and> (\<forall>bits \<in> {5, 7}. \<exists>y. rocmfpx_quantize_row_linear x qw bits = Some y \<and> rocmfpx_dequantize_row_linear y (length x) bits
        = Some (row_values 16 (\<lambda>xs w. rocmfpx_choose_scale_linear xs w (if qw = None then f_zero else rocmfpx_sigma2 x) bits)
            (\<lambda>x i. rocmfpx_quantize_linear_code x i bits) (\<lambda>c. rocmfpx_decode_linear_code c bits) x qw))"
proof (intro conjI ballI, goal_cases)
  case 1
  show ?case using fp2_rows [OF assms] fp2_read_back by blast
next
  case 2
  show ?case using fp3_rows [OF assms] fp3_read_back by blast
next
  case 3
  show ?case using fp6_rows [OF assms] fp6_read_back by blast
next
  case 4
  show ?case using fp8_rows [OF assms] fp8_read_back by blast
next
  case 5
  show ?case using i4_rows [OF assms] i4_read_back by blast
next
  case (6 bits)
  then have "bits = 5 \<or> bits = 7" by simp
  then show ?case using linear_rows [OF assms, of bits] linear_read_back [of x qw bits] by blast
qed

theorem rocmfpx_row_reads_back_witness:
  "\<exists>y. rocmfpx_quantize_row_fp3_weighted (replicate 32 f_one) None = Some y \<and> rocmfpx_dequantize_row_fp3 y (length (replicate 32 f_one))
     = Some (row_values 16 (fp3_pick (rocmfpx_sigma2 (replicate 32 f_one))) fp3_quant rocmfpx_decode_fp3_code (replicate 32 f_one) None)"
proof -
  have "length (replicate 32 f_one) mod 32 = 0" "px_small (replicate 32 f_one)" "weights_for (replicate 32 f_one) (None :: float32 list option)"
    using f_one_finite by (simp_all add: px_small_def)
  from rocmfpx_row_reads_back [OF this] show ?thesis by blast
qed

text \<open>
  C15: Quantizing a tensor of such rows succeeds in all seven formats, with and without an importance matrix,
  reports the number of bytes written, and the bytes pass the validation of the format.
\<close>

theorem rocmfpx_quantize_valid:
  assumes "n mod 32 = 0" "length src = nrows * n" "px_small src" "\<forall>m. imatrix = Some m \<longrightarrow> length m = n"
  shows "(\<exists>dst. rocmfpx_quantize_fp2 src nrows n imatrix = Some (dst, length (concat (map block_rocmfpx_bytes dst)))
        \<and> rocmfpx_validate_row_data_fp2 (concat (map block_rocmfpx_bytes dst)))
    \<and> (\<exists>dst. rocmfpx_quantize_fp3 src nrows n imatrix = Some (dst, length (concat (map block_rocmfpx_bytes dst)))
        \<and> rocmfpx_validate_row_data_fp3 (concat (map block_rocmfpx_bytes dst)))
    \<and> (\<exists>dst. rocmfpx_quantize_fp5 src nrows n imatrix = Some (dst, length (concat (map block_rocmfpx_bytes dst)))
        \<and> rocmfpx_validate_row_data_linear (concat (map block_rocmfpx_bytes dst)) 5)
    \<and> (\<exists>dst. rocmfpx_quantize_fp6 src nrows n imatrix = Some (dst, length (concat (map block_rocmfpx_bytes dst)))
        \<and> rocmfpx_validate_row_data_fp6 (concat (map block_rocmfpx_bytes dst)))
    \<and> (\<exists>dst. rocmfpx_quantize_fp7 src nrows n imatrix = Some (dst, length (concat (map block_rocmfpx_bytes dst)))
        \<and> rocmfpx_validate_row_data_linear (concat (map block_rocmfpx_bytes dst)) 7)
    \<and> (\<exists>dst. rocmfpx_quantize_fp8 src nrows n imatrix = Some (dst, length (concat (map block_rocmfp8_bytes dst)))
        \<and> rocmfpx_validate_row_data_fp8 (concat (map block_rocmfp8_bytes dst)))
    \<and> (\<exists>dst. rocmfpx_quantize_i4 src nrows n imatrix = Some (dst, length (concat (map block_rocmfp8_bytes dst)))
        \<and> rocmfpx_validate_row_data_i4 (concat (map block_rocmfp8_bytes dst)))"
proof -
  have w: "weights_for x imatrix" if "length x = n" for x :: "float32 list"
    using assms(4) that by (cases imatrix) simp_all
  have px: "\<exists>dst. rocmfpx_quantize_rows (p + 2) qr src nrows n = Some (dst, length (concat (map block_rocmfpx_bytes dst)))
      \<and> scales_valid (p + 2) [p, p + 1] (concat (map block_rocmfpx_bytes dst))"
    if "\<And>x. length x = n \<Longrightarrow> px_small x \<Longrightarrow> \<exists>y. qr x = Some y \<and> length y = n div 32 \<and> (\<forall>b \<in> set y. px_valid p b)" for p qr
  proof -
    note rows = that
    obtain dst where "rocmfpx_quantize_rows (p + 2) qr src nrows n = Some (dst, length dst * (p + 2))" "\<forall>b \<in> set dst. px_valid p b"
      using quantize_rows_total [of n qr "px_valid p" src nrows "p + 2", OF rows assms(2,3,1)] by blast
    then show ?thesis using px_bytes_valid [of dst p] by simp
  qed
  have p8: "\<exists>dst. rocmfpx_quantize_rows (p + 1) qr src nrows n = Some (dst, length (concat (map block_rocmfp8_bytes dst)))
      \<and> scales_valid (p + 1) [p] (concat (map block_rocmfp8_bytes dst))"
    if "\<And>x. length x = n \<Longrightarrow> px_small x \<Longrightarrow> \<exists>y. qr x = Some y \<and> length y = n div 32 \<and> (\<forall>b \<in> set y. p8_valid p b)" for p qr
  proof -
    note rows = that
    obtain dst where "rocmfpx_quantize_rows (p + 1) qr src nrows n = Some (dst, length dst * (p + 1))" "\<forall>b \<in> set dst. p8_valid p b"
      using quantize_rows_total [of n qr "p8_valid p" src nrows "p + 1", OF rows assms(2,3,1)] by blast
    then show ?thesis using p8_bytes_valid [of dst p] by simp
  qed
  have k: "length x mod 32 = 0" if "length x = n" for x :: "float32 list" using assms(1) that by simp
  note row = k w
  have f2: "\<exists>y. rocmfpx_quantize_row_fp2_impl x imatrix = Some y \<and> length y = n div 32 \<and> (\<forall>b \<in> set y. px_valid 8 b)"
    if "length x = n" "px_small x" for x using fp2_rows [OF k [OF that(1)] that(2) w [OF that(1)]] that(1) by simp
  have f3: "\<exists>y. (if imatrix \<noteq> None then rocmfpx_quantize_row_fp3_weighted x imatrix else rocmfpx_quantize_row_fp3_ref x) = Some y
      \<and> length y = n div 32 \<and> (\<forall>b \<in> set y. px_valid 12 b)"
    if "length x = n" "px_small x" for x
    using fp3_rows [OF k [OF that(1)] that(2) w [OF that(1)]] that(1) by (cases imatrix) (simp_all add: ref_rows)
  have f6: "\<exists>y. (if imatrix \<noteq> None then rocmfpx_quantize_row_fp6_weighted x imatrix else rocmfpx_quantize_row_fp6_ref x) = Some y
      \<and> length y = n div 32 \<and> (\<forall>b \<in> set y. px_valid 24 b)"
    if "length x = n" "px_small x" for x
    using fp6_rows [OF k [OF that(1)] that(2) w [OF that(1)]] that(1) by (cases imatrix) (simp_all add: ref_rows)
  have f8: "\<exists>y. (if imatrix \<noteq> None then rocmfpx_quantize_row_fp8_weighted x imatrix else rocmfpx_quantize_row_fp8_ref x) = Some y
      \<and> length y = n div 32 \<and> (\<forall>b \<in> set y. p8_valid 32 b)"
    if "length x = n" "px_small x" for x
    using fp8_rows [OF k [OF that(1)] that(2) w [OF that(1)]] that(1) by (cases imatrix) (simp_all add: ref_rows)
  have i4: "\<exists>y. (if imatrix \<noteq> None then rocmfpx_quantize_row_i4_weighted x imatrix else rocmfpx_quantize_row_i4_ref x) = Some y
      \<and> length y = n div 32 \<and> (\<forall>b \<in> set y. p8_valid 16 b)"
    if "length x = n" "px_small x" for x
    using i4_rows [OF k [OF that(1)] that(2) w [OF that(1)]] that(1) by (cases imatrix) (simp_all add: ref_rows)
  have lin: "\<exists>y. rocmfpx_quantize_row_linear x imatrix bits = Some y \<and> length y = n div 32 \<and> (\<forall>b \<in> set y. px_valid (32 * bits div 8) b)"
    if "length x = n" "px_small x" for x bits using linear_rows [OF k [OF that(1)] that(2) w [OF that(1)]] that(1) by simp
  show ?thesis
    using px [of _ 8, OF f2] px [of _ 12, OF f3] px [of _ "32 * 5 div 8", OF lin] px [of _ 24, OF f6]
      px [of _ "32 * 7 div 8", OF lin] p8 [of _ 32, OF f8] p8 [of _ 16, OF i4]
    by (simp add: rocmfpx_quantize_fp2_def rocmfpx_quantize_fp3_def rocmfpx_quantize_fp5_def rocmfpx_quantize_fp6_def
        rocmfpx_quantize_fp7_def rocmfpx_quantize_fp8_def rocmfpx_quantize_i4_def rocmfpx_validate_row_data_fp2_def
        rocmfpx_validate_row_data_fp3_def rocmfpx_validate_row_data_linear_def rocmfpx_validate_row_data_fp6_def
        rocmfpx_validate_row_data_fp8_def rocmfpx_validate_row_data_i4_def Let_def)
qed

theorem rocmfpx_quantize_valid_witness:
  "\<exists>dst. rocmfpx_quantize_fp5 (replicate 32 f_one) 1 32 None = Some (dst, length (concat (map block_rocmfpx_bytes dst)))
     \<and> rocmfpx_validate_row_data_linear (concat (map block_rocmfpx_bytes dst)) 5"
proof -
  have "(32 :: nat) mod 32 = 0" "length (replicate 32 f_one) = 1 * 32" "px_small (replicate 32 f_one)"
    "\<forall>m. (None :: float32 list option) = Some m \<longrightarrow> length m = 32"
    using f_one_finite by (simp_all add: px_small_def)
  from rocmfpx_quantize_valid [OF this] show ?thesis by blast
qed

subsection \<open>The fused decoders and the clipping test\<close>

lemma fp3_fused_eq:
  assumes "is_finite x" "fless f_zero i"
  shows "rocmfpx_fp3_decoded_mag x i = f_of_int (rocmfpx_decode_fp3_code (rocmfpx_quantize_fp3_code x i))"
proof -
  have "\<not> fle i f_zero" using assms(2) by (cases i) (auto simp: fle_def f_zero_def)
  then show ?thesis using assms(1)
    by (simp add: rocmfpx_fp3_decoded_mag_def rocmfpx_quantize_fp3_code_def rocmfpx_decode_fp3_code_def Let_def f_zero_def
        f_of_int_key)
qed

lemma linear_fused:
  assumes "is_finite x" "is_finite i" "fless f_zero i"
  shows "rocmfpx_linear_value x i 5 = map_option (\<lambda>c. rocmfpx_decode_linear_code c 5) (rocmfpx_quantize_linear_code x i 5)"
    and "rocmfpx_linear_value x i 7 = map_option (\<lambda>c. rocmfpx_decode_linear_code c 7) (rocmfpx_quantize_linear_code x i 7)"
proof -
  have i: "\<not> fle i f_zero" using assms(3) by (cases i) (auto simp: fle_def f_zero_def)
  have code: "rocmfpx_quantize_linear_code x i bits = map_option (\<lambda>q. linear_encode bits (clamp_int (- (2 ^ (bits - 1))) (2 ^ (bits - 1) - 1) q)) (lround_int x i)"
    for bits using i assms by (cases "lround_int x i") (simp_all add: rocmfpx_quantize_linear_code_def linear_encode_def Let_def)
  show "rocmfpx_linear_value x i 5 = map_option (\<lambda>c. rocmfpx_decode_linear_code c 5) (rocmfpx_quantize_linear_code x i 5)"
    using linear_decode_encode_5 [of "clamp_int (- 16) 15 q" for q] clamp_int_range [of "- 16" 15]
    by (cases "lround_int x i") (simp_all add: code rocmfpx_linear_value_def)
  show "rocmfpx_linear_value x i 7 = map_option (\<lambda>c. rocmfpx_decode_linear_code c 7) (rocmfpx_quantize_linear_code x i 7)"
    using linear_decode_encode_7 [of "clamp_int (- 64) 63 q" for q] clamp_int_range [of "- 64" 63]
    by (cases "lround_int x i") (simp_all add: code rocmfpx_linear_value_def)
qed

lemma fp6_fused_eq:
  assumes "is_finite x" "is_finite i" "fless f_zero i"
  shows "rocmfpx_fp6_decoded_value x i = map_option (\<lambda>c. f_of_int (rocmfpx_decode_fp6_code c)) (rocmfpx_quantize_fp6_code x i)"
proof -
  have i: "\<not> fle i f_zero" using assms(3) by (cases i) (auto simp: fle_def f_zero_def)
  have "rocmfpx_decode_fp6_code (fp6_encode (clamp_int (- 32) 31 q)) = clamp_int (- 32) 31 q" for q
    using clamp_int_range [of "- 32" 31 q] by (intro fp6_decode_encode) simp_all
  then show ?thesis using i assms
    by (cases "lround_int x i") (simp_all add: rocmfpx_quantize_fp6_code_def rocmfpx_fp6_decoded_value_def fp6_encode_def Let_def)
qed

text \<open>
  The fused rounding and decoding of the search for a scale gives what encoding an element and decoding its
  code gives, for codes of 3, 5, 6 and 7 bits.
\<close>

theorem rocmfpx_fused_decoders:
  assumes "is_finite x" "is_finite i" "fless f_zero i"
  shows "rocmfpx_fp3_decoded_mag x i = f_of_int (rocmfpx_decode_fp3_code (rocmfpx_quantize_fp3_code x i))
    \<and> rocmfpx_fp6_decoded_value x i = map_option (\<lambda>c. f_of_int (rocmfpx_decode_fp6_code c)) (rocmfpx_quantize_fp6_code x i)
    \<and> rocmfpx_linear_value x i 5 = map_option (\<lambda>c. rocmfpx_decode_linear_code c 5) (rocmfpx_quantize_linear_code x i 5)
    \<and> rocmfpx_linear_value x i 7 = map_option (\<lambda>c. rocmfpx_decode_linear_code c 7) (rocmfpx_quantize_linear_code x i 7)"
  using linear_fused [OF assms] fp6_fused_eq [OF assms] fp3_fused_eq [OF assms(1,3)] by simp

theorem rocmfpx_fused_decoders_witness:
  "rocmfpx_fp6_decoded_value f_one f_one = map_option (\<lambda>c. f_of_int (rocmfpx_decode_fp6_code c)) (rocmfpx_quantize_fp6_code f_one f_one)"
  using rocmfpx_fused_decoders [of f_one f_one] f_one_finite by (simp add: f_one_def f_zero_def)

text \<open>Rounding a product with a rounded inverse: exact as long as the quotient is not near a half.\<close>

lemma round_near:
  assumes "\<bar>q - of_int n\<bar> < 1 / 2"
  shows "round_away q = n"
proof (cases "q < 0")
  case True
  have "\<lfloor>- q + 1 / 2\<rfloor> = - n"
  proof (rule floor_unique)
    show "of_int (- n) \<le> - q + 1 / 2" using assms unfolding abs_less_iff of_int_minus by linarith
    show "- q + 1 / 2 < of_int (- n) + 1" using assms unfolding abs_less_iff of_int_minus by linarith
  qed
  then show ?thesis using True by (simp add: round_away_def)
next
  case False
  have "\<lfloor>q + 1 / 2\<rfloor> = n"
  proof (rule floor_unique)
    show "of_int n \<le> q + 1 / 2" using assms unfolding abs_less_iff by linarith
    show "q + 1 / 2 < of_int n + 1" using assms unfolding abs_less_iff by linarith
  qed
  then show ?thesis using False by (simp add: round_away_def)
qed

lemma lround_quotient:
  assumes x: "is_finite x" "is_f32 x" "\<bar>fval x\<bar> \<le> 2 ^ 12" and e: "1 \<le> e" "e \<le> 126" and s: "1 \<le> scale_val e"
    and n: "\<bar>fval x / scale_val e - of_int n\<bar> \<le> 2 / 5" "\<bar>n\<bar> < 2 ^ 31"
  shows "lround_int x (inv_scale_of (rocmfpx_scale_lookup e)) = Some n"
proof -
  let ?S = "scale_val e" and ?i = "inv_scale_of (rocmfpx_scale_lookup e)" and ?X = "fval x"
  note i = inv_scale_props [OF e]
  have S: "0 < ?S" using s by simp
  have "?i = fl False (1 / ?S)"
    using lookup_pos [OF e] S e by (simp add: inv_scale_of_def lookup_table ue4m3_table_nth f_one_def)
  then have vi: "fval ?i = rnd (1 / ?S)" using i(1) by (auto simp: fl_def Let_def split: if_splits)
  have q1: "1 / ?S \<le> 1" "0 \<le> 1 / ?S" using s by simp_all
  have e1: "\<bar>fval ?i - 1 / ?S\<bar> \<le> 1 / 2 ^ 23" using rnd_error [OF q1(2)] q1(1) unfolding vi by simp
  have e2: "\<bar>?X * fval ?i - ?X / ?S\<bar> \<le> 1 / 2 ^ 11"
  proof -
    have "\<bar>?X * fval ?i - ?X / ?S\<bar> = \<bar>?X\<bar> * \<bar>fval ?i - 1 / ?S\<bar>" unfolding abs_mult [symmetric] by (simp add: algebra_simps)
    also have "\<dots> \<le> 2 ^ 12 * (1 / 2 ^ 23)" using x(3) e1 by (intro mult_mono) simp_all
    finally show ?thesis by simp
  qed
  have "fval ?i - 1 / ?S \<le> 1" using e1 abs_le_D1 [OF e1] by simp
  then have "fval ?i \<le> 2" using q1(1) by linarith
  then have "\<bar>?X\<bar> * fval ?i \<le> 2 ^ 12 * 2" using x(3) i(3) by (intro mult_mono) simp_all
  then have ab: "\<bar>?X * fval ?i\<bar> \<le> 2 ^ 13" using i(3) by (simp add: abs_mult)
  have e3: "\<bar>rkey (?X * fval ?i) - ?X * fval ?i\<bar> \<le> 1 / 2 ^ 10"
  proof -
    have "\<bar>rkey (?X * fval ?i) - ?X * fval ?i\<bar> \<le> \<bar>?X * fval ?i\<bar> / 2 ^ 24 + 1 / 2 ^ 150" using ab by (intro rkey_error) simp
    also have "\<dots> \<le> 2 ^ 13 / 2 ^ 24 + 1 / 2 ^ 150" using ab by (intro add_right_mono divide_right_mono) simp_all
    finally show ?thesis by simp
  qed
  have k: "is_num (fmul x ?i)" "fkey (fmul x ?i) = rkey (?X * fval ?i)" using fmul_finite [OF x(1) i(1) x(2) i(2)] by simp_all
  have fin: "is_finite (fmul x ?i)"
  proof (rule finite_key [OF k(1)])
    have "\<bar>rkey (?X * fval ?i)\<bar> \<le> 1 / 2 ^ 10 + 2 ^ 13"
      using abs_triangle_ineq2 [of "rkey (?X * fval ?i)" "?X * fval ?i"] e3 ab by linarith
    then have "\<bar>fkey (fmul x ?i)\<bar> \<le> 2 ^ 14" unfolding k(2) by (rule order_trans) simp
    then show "\<bar>fkey (fmul x ?i)\<bar> < fmax" by (simp add: fmax_def)
  qed
  have "\<bar>rkey (?X * fval ?i) - of_int n\<bar> \<le> 1 / 2 ^ 10 + (1 / 2 ^ 11 + 2 / 5)"
    using e2 e3 n(1) unfolding abs_le_iff by linarith
  then have "\<bar>rkey (?X * fval ?i) - of_int n\<bar> < 1 / 2" by (rule order_le_less_trans) simp
  then have "\<bar>fval (fmul x ?i) - of_int n\<bar> < 1 / 2" using k(2) fin by (simp add: fkey_finite)
  then have "round_away (fval (fmul x ?i)) = n" by (rule round_near)
  then have "lroundf (fmul x ?i) = Some n" using fin n(2) by (cases "fmul x ?i") (auto simp: Let_def abs_less_iff)
  moreover have "long_to_int n = n" using n(2) by (simp add: long_to_int_def abs_less_iff)
  ultimately show ?thesis by (simp add: lround_int_def)
qed

text \<open>Floats that are integers: arithmetic on small ones is exact.\<close>

definition int_float :: "float32 \<Rightarrow> int \<Rightarrow> bool" where
  "int_float x n \<longleftrightarrow> is_finite x \<and> is_f32 x \<and> fval x = of_int n"

lemma small_representable:
  assumes "\<bar>n\<bar> \<le> 2 ^ 24"
  shows "representable \<bar>of_int n\<bar>" "\<bar>of_int n\<bar> < fmax"
proof -
  show "representable \<bar>of_int n\<bar>" using representableI [of "nat \<bar>n\<bar>" 149] assms by (simp add: nat_le_iff)
  have "\<bar>of_int n\<bar> \<le> (of_int (2 ^ 24) :: rat)" using assms unfolding of_int_abs [symmetric] of_int_le_iff .
  then show "\<bar>of_int n\<bar> < fmax" by (simp add: fmax_def)
qed

lemma int_floatI:
  assumes "\<bar>n\<bar> \<le> 2 ^ 24" "is_num x" "fkey x = of_int n"
  shows "int_float x n"
proof -
  have "is_finite x" using finite_key [OF assms(2)] small_representable(2) [OF assms(1)] assms(3) by simp
  then show ?thesis using assms(3) small_representable [OF assms(1)] assms(2)
    by (cases x) (auto simp: int_float_def is_num_def split: if_splits)
qed

lemma int_float_of_int: "\<bar>n\<bar> \<le> 2 ^ 24 \<Longrightarrow> int_float (f_of_int n) n"
  using small_representable [of n] by (auto simp: int_float_def f_of_int_key)

lemma int_float_arith:
  assumes "int_float x a" "int_float y b"
  shows "\<bar>a * b\<bar> \<le> 2 ^ 24 \<Longrightarrow> int_float (fmul x y) (a * b)"
    and "\<bar>a + b\<bar> \<le> 2 ^ 24 \<Longrightarrow> int_float (fadd x y) (a + b)"
    and "\<bar>a - b\<bar> \<le> 2 ^ 24 \<Longrightarrow> int_float (fsub x y) (a - b)"
proof -
  have r: "rkey (of_int n) = of_int n" if "\<bar>n\<bar> \<le> 2 ^ 24" for n using rkey_exact small_representable [OF that] by simp
  note f = assms [unfolded int_float_def]
  show "int_float (fmul x y) (a * b)" if h: "\<bar>a * b\<bar> \<le> 2 ^ 24"
    using fmul_finite [of x y] f r [OF h] by (intro int_floatI [OF h]) simp_all
  show "int_float (fadd x y) (a + b)" if h: "\<bar>a + b\<bar> \<le> 2 ^ 24"
    using fadd_finite [of x y] f r [OF h] by (intro int_floatI [OF h]) simp_all
  show "int_float (fsub x y) (a - b)" if h: "\<bar>a - b\<bar> \<le> 2 ^ 24"
    using fsub_finite [of x y] f r [OF h] by (intro int_floatI [OF h]) simp_all
qed

lemma int_float_less: "int_float x a \<Longrightarrow> int_float y b \<Longrightarrow> fless x y \<longleftrightarrow> a < b"
  by (cases x; cases y) (simp_all add: int_float_def)

text \<open>A search whose second step finds the lower direction closed never goes below its start.\<close>

lemma search_scale_above:
  assumes run: "search_scale err clip start (start, FInf False) = Some e" and start: "2 \<le> start" "start \<le> 126"
    and first: "err start (FInf False) = Some r" "fless r (FInf False)"
    and clip: "\<not> clip start (FInf False)" "clip (start - 1) r"
  shows "start \<le> e"
proof -
  let ?P = "\<lambda>(st :: (nat \<times> float32) \<times> bool). start \<le> fst (fst st) \<and> snd st"
  let ?s = "search_step err clip start"
  have s0: "?s 0 ((start, FInf False), False) = Some (True, (start, r), False)"
    using start first clip(1) by (simp add: search_step_def try_scale_def)
  have up: "start \<le> fst b2" if "(if d \<noteq> 0 \<and> start + d \<ge> 1 \<and> start + d \<le> 126 then try_scale err (start + d) b else Some b) = Some b2"
    "start \<le> fst b" for d b b2 using that try_scale_byte [of err "start + d" b b2] by (auto split: if_splits)
  have low: "nat (int start - int 1) = start - 1" "int start - int 1 \<ge> 1" "int start - int 1 \<le> 126" using start by auto
  have s1: "?P t" if t: "?s 1 ((start, r), False) = Some (ok, t)" for ok t
  proof -
    have "?s 1 ((start, r), False) = (if start + 1 \<le> 126 then try_scale err (start + 1) (start, r) else Some (start, r))
        \<bind> (\<lambda>best. Some (\<not> start + 1 \<ge> 126, best, True))"
      using low clip(2) by (simp add: search_step_def Let_def)
    then show ?thesis using t up [of 1 "(start, r)"] by (auto split: bind_splits if_splits)
  qed
  have s2: "?P t" if s: "?P s" and t: "?s d s = Some (ok, t)" for d s ok t
  proof -
    obtain b where b: "s = (b, True)" "start \<le> fst b" using s by (cases s) auto
    have "?s d s = (if d \<noteq> 0 \<and> start + d \<ge> 1 \<and> start + d \<le> 126 then try_scale err (start + d) b else Some b)
        \<bind> (\<lambda>best. Some (\<not> start + d \<ge> 126, best, True))"
      unfolding b search_step_def Let_def by simp
    then obtain b2 where "(if d \<noteq> 0 \<and> start + d \<ge> 1 \<and> start + d \<le> 126 then try_scale err (start + d) b else Some b) = Some b2"
      "t = (b2, True)" using t by (auto split: bind_splits)
    then show ?thesis using up [OF _ b(2)] by simp
  qed
  define R where "R = [2..<126 :: nat]"
  have l: "[0..<126] = 0 # 1 # R" unfolding R_def by (simp add: upt_conv_Cons numeral_eq_Suc)
  obtain ok eb b' ld where r: "for_ret ?s [0..<126] ((start, FInf False), False) = Some (ok, (eb, b'), ld)" "e = eb"
    using run by (auto simp: search_scale_def split: bind_splits)
  obtain ok1 t1 where t1: "?s 1 ((start, r), False) = Some (ok1, t1)"
    "(if ok1 then for_ret ?s R t1 else Some (False, t1)) = Some (ok, (eb, b'), ld)"
    using r(1) unfolding l for_ret.simps s0 bind.bind_lunit prod.case if_True by (auto simp del: for_ret.simps split: bind_splits)
  have "?P ((eb, b'), ld)"
  proof (cases ok1)
    case True
    then have "for_ret ?s R t1 = Some (ok, (eb, b'), ld)" using t1(2) by simp
    then show ?thesis by (rule for_ret_any [where P = ?P]) (rule s1 [OF t1(1)], rule s2)
  next
    case False
    then show ?thesis using s1 [OF t1(1)] t1(2) by simp
  qed
  then show ?thesis using r(2) by simp
qed

text \<open>The error of a slice of integers at an integer scale.\<close>

lemma int_mse_loop:
  assumes "list_all2 (\<lambda>p n. \<exists>t. f p = Some t \<and> int_float t n \<and> 0 \<le> n) ps ns" "int_float acc a" "0 \<le> a" "a + sum_list ns \<le> 2 ^ 24"
  shows "\<exists>r. mse_loop f (FInf False) acc ps = Some r \<and> int_float r (a + sum_list ns)"
  using assms
proof (induction ps ns arbitrary: acc a rule: list_all2_induct)
  case Nil
  then show ?case by simp
next
  case (Cons p ps n ns)
  obtain t where t: "f p = Some t" "int_float t n" "0 \<le> n" using Cons.hyps(1) by blast
  have "0 \<le> sum_list ns" using Cons.hyps(2) by (induction rule: list_all2_induct) auto
  then have "\<bar>a + n\<bar> \<le> 2 ^ 24" using t(3) Cons.prems(2,3) by simp
  with int_float_arith(2) [OF Cons.prems(1) t(2)] have s: "int_float (fadd acc t) (a + n)" .
  then have "\<not> fless (FInf False) (fadd acc t)" by (cases "fadd acc t") (simp_all add: int_float_def)
  moreover obtain r where "mse_loop f (FInf False) (fadd acc t) ps = Some r" "int_float r (a + n + sum_list ns)"
    using Cons.IH [OF s] t(3) Cons.prems(2,3) by (auto simp: algebra_simps)
  ultimately show ?case using t(1) by (simp add: Let_def algebra_simps)
qed

lemma f_one_int: "int_float f_one 1"
  using f_one_finite by (simp add: int_float_def)

lemma int_block_term:
  assumes "int_float x X" "int_float s S" "dec x = Some (f_of_int k)"
    and "\<bar>k\<bar> \<le> 2 ^ 24" "\<bar>k * S\<bar> \<le> 2 ^ 24" "\<bar>X - k * S\<bar> \<le> 2 ^ 12"
  shows "\<exists>t. block_term dec s (x, Some f_one) = Some t \<and> int_float t ((X - k * S) * (X - k * S)) \<and> 0 \<le> (X - k * S) * (X - k * S)"
proof -
  let ?D = "X - k * S" and ?d = "fsub x (fmul (f_of_int k) s)"
  have D: "\<bar>?D * ?D\<bar> \<le> 2 ^ 24" using mult_mono [OF assms(6,6)] by (simp add: abs_mult)
  have d: "int_float ?d ?D"
    using assms int_float_arith(3) [OF assms(1) int_float_arith(1) [OF int_float_of_int assms(2)]] by simp
  have "int_float (fmul f_one ?d) (1 * ?D)" by (rule int_float_arith(1) [OF f_one_int d]) (use assms(6) in simp)
  with d D have "int_float (fmul (fmul f_one ?d) ?d) (?D * ?D)" using int_float_arith(1) [of "fmul f_one ?d" ?D ?d ?D] by simp
  then show ?thesis using assms(3) by (simp add: block_term_def Let_def)
qed

lemma int_scale:
  assumes "120 \<le> e" "e \<le> 126"
  shows "int_float (rocmfpx_scale_lookup e) (int (16 * (e - 112)))" "scale_val e = of_nat (16 * (e - 112))"
proof -
  have "list_all (\<lambda>e. scale_val e = of_nat (16 * (e - 112))) [120..<127]" by code_simp
  then have "\<forall>e \<in> {120..<127}. scale_val e = of_nat (16 * (e - 112))" unfolding list_all_iff set_upt .
  then show v: "scale_val e = of_nat (16 * (e - 112))" by (rule bspec) (use assms in simp)
  show "int_float (rocmfpx_scale_lookup e) (int (16 * (e - 112)))"
    using table_finite [of e] lookup_table [of e] ue4m3_table_nth [of e] scale_val_representable [of e] assms v
      small_representable(2) [of "int (16 * (e - 112))"]
    by (auto simp: int_float_def)
qed

lemma scale_119: "scale_val 119 = 120" "int_float (rocmfpx_scale_lookup 119) 120" "rocmfpx_scale_lookup 119 = FFin False 120"
proof -
  show v: "scale_val 119 = 120" by code_simp
  show l: "rocmfpx_scale_lookup 119 = FFin False 120" using lookup_table [of 119] ue4m3_table_nth [of 119] v by simp
  show "int_float (rocmfpx_scale_lookup 119) 120" unfolding l using small_representable [of 120] by (simp add: int_float_def)
qed

lemma start_120: "rocmfpx_nearest_scale_ue4m3 (fdiv (FFin False 1920) (f_of_int 15)) = 120"
proof -
  have r: "representable 128" "128 < fmax" using small_representable [of 128] by simp_all
  have t: "fdiv (FFin False 1920) (f_of_int 15) = FFin False 128" using fl_exact [OF r] by (simp add: f_of_int_key)
  let ?r = "nearer_scale ue4m3_table (FFin False 128)"
  have n: "nearest_scale 128 ?r" using nearer_scale_nearest [of "FFin False 128"] r by simp
  have s: "scale_val 120 = 128" using int_scale(2) [of 120] by simp
  have "\<bar>128 - scale_val ?r\<bar> \<le> \<bar>128 - scale_val 120\<bar>" using bspec [OF n [unfolded nearest_scale_def, THEN conjunct2, THEN conjunct2], of 120] by auto
  then have "scale_val ?r = scale_val 120" "?r \<le> 126" using n unfolding s by (simp_all add: nearest_scale_def)
  then have "?r = 120" using scale_val_strict [of ?r 120] scale_val_strict [of 120 ?r] by (cases rule: linorder_cases [of ?r 120]) auto
  then show ?thesis unfolding t by (simp add: rocmfpx_nearest_scale_ue4m3_def rocmfpx_tables f_zero_def)
qed

lemma lround_in_slice:
  assumes e: "e = 119 \<or> e = 120" and x: "x = FFin s q" "representable q" "q \<le> 2048" "0 \<le> q"
    and n: "\<bar>fval x / scale_val e - of_int n\<bar> \<le> 2 / 5" "\<bar>n\<bar> \<le> 16"
  shows "rocmfpx_linear_value x (inv_scale_of (rocmfpx_scale_lookup e)) 5 = Some (clamp_int (- 16) 15 n)"
proof -
  have "q < fmax" using x(3) by (rule order_le_less_trans) (simp add: fmax_def)
  moreover have "1 \<le> scale_val e"
    using e scale_119(1) int_scale(2) [of 120] by auto
  ultimately have "lround_int x (inv_scale_of (rocmfpx_scale_lookup e)) = Some n"
    using assms by (intro lround_quotient) (auto simp: power2_eq_square)
  then show ?thesis by (simp add: rocmfpx_linear_value_def)
qed

definition linear_slice :: "float32 list" where
  "linear_slice = FFin True 1920 # FFin False 600 # replicate 14 (FFin False 0)"

lemma slice_ints:
  "representable 1920" "representable 600"
  "int_float (FFin True 1920) (- 1920)" "int_float (FFin False 1920) 1920" "int_float (FFin False 600) 600" "int_float (FFin False 0) 0"
  using small_representable [of 1920] small_representable [of 600] by (simp_all add: int_float_def)

lemma slice_max: "rocmfpx_max_abs linear_slice = FFin False 1920"
proof -
  have "foldl (\<lambda>max_abs x. if \<not> is_finite x then max_abs else let ax = fabs x in if fless max_abs ax then ax else max_abs) (FFin False 1920)
      (replicate n (FFin False 0)) = FFin False 1920" for n by (induction n) simp_all
  then show ?thesis by (simp add: linear_slice_def rocmfpx_max_abs_def f_zero_def)
qed

lemma slice_error: "\<exists>r. rocmfpx_linear_mse_for_scale linear_slice None 5 120 (FInf False) = Some r \<and> int_float r 1600"
proof -
  let ?i = "inv_scale_of (rocmfpx_scale_lookup 120)" and ?s = "rocmfpx_scale_lookup 120"
  let ?t = "block_term (\<lambda>x. map_option f_of_int (rocmfpx_linear_value x ?i 5)) ?s"
  let ?ok = "\<lambda>p n. \<exists>t. ?t p = Some t \<and> int_float t n \<and> 0 \<le> n"
  have s: "int_float ?s 128" "scale_val 120 = 128" using int_scale [of 120] by simp_all
  have v: "rocmfpx_linear_value (FFin True 1920) ?i 5 = Some (- 15)" "rocmfpx_linear_value (FFin False 600) ?i 5 = Some 5"
    "rocmfpx_linear_value (FFin False 0) ?i 5 = Some 0"
    using lround_in_slice [of 120 _ True 1920 "- 15"] lround_in_slice [of 120 _ False 600 5] lround_in_slice [of 120 _ False 0 0] slice_ints s
    by (simp_all add: clamp_int_def)
  have "?ok (FFin True 1920, Some f_one) 0" using int_block_term [OF slice_ints(3) s(1), of _ "- 15"] v by simp
  moreover have "?ok (FFin False 600, Some f_one) 1600" using int_block_term [OF slice_ints(5) s(1), of _ 5] v by simp
  moreover have "list_all2 ?ok (replicate n (FFin False 0, Some f_one)) (replicate n 0)" for n
    using int_block_term [OF slice_ints(6) s(1), of _ 0] v by (induction n) simp_all
  ultimately have "list_all2 ?ok (skip_nonfinite (weight_or_one linear_slice None)) (0 # 1600 # replicate 14 0)"
    by (simp add: linear_slice_def weight_or_one_def skip_nonfinite_def filter_replicate map_replicate)
  from int_mse_loop [OF this, of f_zero 0] show ?thesis
    using slice_ints(6) by (simp add: f_zero_def sum_list_replicate rocmfpx_linear_mse_for_scale_def Let_def block_mse_def)
qed

lemma slice_choice:
  "\<exists>e. rocmfpx_choose_scale_linear linear_slice None f_zero 5 = Some e \<and> 120 \<le> e \<and> e \<le> 126"
proof -
  let ?err = "rocmfpx_linear_mse_for_scale linear_slice None 5" and ?clip = "rocmfpx_clip 15 (FFin False 1920) (Some f_one)"
  have choice: "rocmfpx_choose_scale_linear linear_slice None f_zero 5 = search_scale ?err ?clip 120 (120, FInf False)"
    using start_120 slice_max by (simp add: rocmfpx_choose_scale_linear_def rocmfpx_search_def f_zero_def)
  have "px_small linear_slice" using slice_ints by (auto simp: px_small_def linear_slice_def int_float_def)
  from choose_linear_total [OF this] obtain e where e: "rocmfpx_choose_scale_linear linear_slice None f_zero 5 = Some e" by blast
  obtain r where r: "?err 120 (FInf False) = Some r" "int_float r 1600" using slice_error by blast
  have delta: "int_float (fsub (FFin False 1920) (fmul (f_of_int 15) (rocmfpx_scale_lookup 119))) 120" (is "int_float ?d 120")
    using int_float_arith(3) [OF slice_ints(4) int_float_arith(1) [OF int_float_of_int [of 15] scale_119(2)]] by simp
  have "int_float (fmul (fmul f_one ?d) ?d) 14400"
    using int_float_arith(1) [OF int_float_arith(1) [OF f_one_int delta] delta] by simp
  then have clip: "?clip 119 r" using int_float_less [OF r(2)] int_float_less [OF slice_ints(6) delta]
    by (simp add: rocmfpx_clip_def Let_def f_zero_def)
  have "\<not> ?clip 120 (FInf False)"
    by (cases "err_term (Some f_one) (fsub (FFin False 1920) (fmul (f_of_int 15) (rocmfpx_scale_lookup 120)))") (simp_all add: rocmfpx_clip_def Let_def)
  moreover have "fless r (FInf False)" using r(2) by (cases r) (simp_all add: int_float_def)
  ultimately have "120 \<le> e" using search_scale_above [of ?err ?clip 120 e r] e choice r(1) clip by simp
  then show ?thesis using e choose_bytes(7) [OF e] by blast
qed

lemma linear_decode_bound: "\<bar>rocmfpx_decode_linear_code c 5\<bar> \<le> 2 ^ 10"
proof -
  have "uint (c AND 15) < 2 ^ 8" using uint_lt2p [of "c AND 15"] by simp
  then show ?thesis by (simp add: rocmfpx_decode_linear_code_def Let_def)
qed

text \<open>Every scale from byte 120 on is a multiple of 16, which 600 is not.\<close>

lemma slice_wrong:
  assumes "120 \<le> e" "e \<le> 126"
  shows "px_values quant (\<lambda>c. rocmfpx_decode_linear_code c 5) e linear_slice \<noteq> linear_slice"
proof
  define k where "k = rocmfpx_decode_linear_code (the (quant (FFin False 600) (inv_scale_of (rocmfpx_scale_lookup e)))) 5"
  define S where "S = int (16 * (e - 112))"
  assume "px_values quant (\<lambda>c. rocmfpx_decode_linear_code c 5) e linear_slice = linear_slice"
  then have v: "fmul (f_of_int k) (rocmfpx_scale_lookup e) = FFin False 600" by (simp add: px_values_def Let_def linear_slice_def k_def)
  have k: "\<bar>k\<bar> \<le> 2 ^ 10" unfolding k_def by (rule linear_decode_bound)
  have S: "\<bar>S\<bar> \<le> 2 ^ 10" using assms by (simp add: S_def)
  have "\<bar>k\<bar> * \<bar>S\<bar> \<le> 2 ^ 10 * 2 ^ 10" by (rule mult_mono [OF k S]) simp_all
  then have "int_float (FFin False 600) (k * S)"
    using int_float_arith(1) [OF int_float_of_int int_scale(1) [OF assms], of k] k v by (simp add: abs_mult S_def)
  then have "of_int (k * S) = (of_int 600 :: rat)" unfolding int_float_def by simp
  then have "k * S = 600" by (simp only: of_int_eq_iff)
  moreover have "k * S = 16 * (k * int (e - 112))" by (simp add: S_def)
  ultimately show False by presburger
qed

lemma slice_exact:
  "px_values (\<lambda>x i. rocmfpx_quantize_linear_code x i 5) (\<lambda>c. rocmfpx_decode_linear_code c 5) 119 linear_slice = linear_slice"
proof -
  let ?i = "inv_scale_of (rocmfpx_scale_lookup 119)"
  have v: "rocmfpx_linear_value (FFin True 1920) ?i 5 = Some (- 16)" "rocmfpx_linear_value (FFin False 600) ?i 5 = Some 5"
    "rocmfpx_linear_value (FFin False 0) ?i 5 = Some 0"
    using lround_in_slice [of 119 _ True 1920 "- 16"] lround_in_slice [of 119 _ False 600 5] lround_in_slice [of 119 _ False 0 0]
      slice_ints scale_119(1) by (simp_all add: clamp_int_def)
  have pos: "fless f_zero ?i" using inv_scale_props(1,3) [of 119] by (cases ?i) (simp_all add: f_zero_def)
  have c: "rocmfpx_decode_linear_code (the (rocmfpx_quantize_linear_code x ?i 5)) 5 = k"
    if "is_finite x" "rocmfpx_linear_value x ?i 5 = Some k" for x k
    using linear_fused(1) [OF that(1) _ pos] inv_scale_props(1) [of 119] that(2) by (cases "rocmfpx_quantize_linear_code x ?i 5") simp_all
  have f: "fmul (f_of_int (- 16)) (FFin False 120) = FFin True 1920" "fmul (f_of_int 5) (FFin False 120) = FFin False 600"
    "fmul (f_of_int 0) (FFin False 120) = FFin False 0"
    using fl_exact [of 1920 True] fl_exact [of 600 False] fl_exact [of 0 False] slice_ints small_representable [of 1920] small_representable [of 600]
    by (simp_all add: f_of_int_key)
  show ?thesis using c [OF _ v(1)] c [OF _ v(2)] c [OF _ v(3)] f scale_119(3)
    by (simp add: px_values_def linear_slice_def Let_def map_replicate)
qed

text \<open>
  The search of the five-bit format is not exhaustive: for the slice -1920, 600 and fourteen zeros the byte 119
  (scale 120, codes -16 and 5, where -16 is the code of sign and zero magnitude) reads every element back, but the test that
  ends the lower direction reckons with the largest code 15 and closes it above 119; the byte chosen reads the slice
  back with an error.
\<close>

theorem rocmfpx_linear_misses_lossless:
  "\<exists>e. rocmfpx_choose_scale_linear linear_slice None f_zero 5 = Some e
    \<and> px_values (\<lambda>x i. rocmfpx_quantize_linear_code x i 5) (\<lambda>c. rocmfpx_decode_linear_code c 5) e linear_slice \<noteq> linear_slice
    \<and> px_values (\<lambda>x i. rocmfpx_quantize_linear_code x i 5) (\<lambda>c. rocmfpx_decode_linear_code c 5) 119 linear_slice = linear_slice"
proof -
  obtain e where e: "rocmfpx_choose_scale_linear linear_slice None f_zero 5 = Some e" "120 \<le> e" "e \<le> 126" using slice_choice by blast
  then show ?thesis using slice_wrong slice_exact by blast
qed

subsection \<open>The conversion to int before the clamp\<close>

lemma wrap_product:
  "\<exists>n. lroundf (fmul (FFin False (672 * 2 ^ 30)) (inv_scale_of (rocmfpx_scale_lookup 126))) = Some n
     \<and> 3 * 2 ^ 30 - 1000 \<le> n \<and> n \<le> 3 * 2 ^ 30 + 1000"
proof -
  let ?x = "FFin False (672 * 2 ^ 30)" and ?i = "inv_scale_of (rocmfpx_scale_lookup 126)"
  have S: "scale_val 126 = 224" using int_scale(2) [of 126] by simp
  have x: "is_finite ?x" "is_f32 ?x" "fval ?x = 672 * 2 ^ 30"
    using representable_dyadic [of 672 30] by (simp_all add: fmax_def)
  have i: "is_finite ?i" "is_f32 ?i" using inv_scale_props(1,2) [of 126] by simp_all
  have "?i = fl False (1 / 224)"
    using lookup_pos [of 126] S by (simp add: inv_scale_of_def lookup_table ue4m3_table_nth f_one_def)
  then have vi: "fval ?i = rnd (1 / 224)" using i(1) by (auto simp: fl_def Let_def split: if_splits)
  have e1: "\<bar>fval ?i - 1 / 224\<bar> \<le> 1 / 2 ^ 31" using rnd_error [of "1 / 224"] unfolding vi by simp
  have e2: "\<bar>fval ?x * fval ?i - 3 * 2 ^ 30\<bar> \<le> 336"
  proof -
    have "fval ?x * fval ?i - 3 * 2 ^ 30 = fval ?x * (fval ?i - 1 / 224)" unfolding x(3) by (simp add: algebra_simps)
    then have "\<bar>fval ?x * fval ?i - 3 * 2 ^ 30\<bar> = fval ?x * \<bar>fval ?i - 1 / 224\<bar>" by (simp only: abs_mult) (simp add: x(3))
    also have "\<dots> \<le> 672 * 2 ^ 30 * (1 / 2 ^ 31)" unfolding x(3) by (rule mult_left_mono [OF e1]) simp
    finally show ?thesis by simp
  qed
  then have q: "\<bar>fval ?x * fval ?i\<bar> \<le> 2 ^ 32" by (simp add: abs_le_iff)
  then have "\<bar>rkey (fval ?x * fval ?i) - fval ?x * fval ?i\<bar> \<le> \<bar>fval ?x * fval ?i\<bar> / 2 ^ 24 + 1 / 2 ^ 150" by (intro rkey_error) simp
  also have "\<dots> \<le> 2 ^ 32 / 2 ^ 24 + 1 / 2 ^ 150" using q by (intro add_right_mono divide_right_mono) simp_all
  also have "\<dots> \<le> 257" by simp
  finally have k: "\<bar>rkey (fval ?x * fval ?i) - 3 * 2 ^ 30\<bar> \<le> 336 + 257" using e2 unfolding abs_le_iff by linarith
  let ?p = "fmul ?x ?i"
  have p: "is_num ?p" "fkey ?p = rkey (fval ?x * fval ?i)" using fmul_finite [OF x(1) i(1) x(2) i(2)] by simp_all
  have fin: "is_finite ?p"
    by (rule finite_key [OF p(1)]) (use p(2) k in \<open>simp add: abs_le_iff abs_less_iff fmax_def\<close>)
  have v: "\<bar>fval ?p - 3 * 2 ^ 30\<bar> \<le> 593" using k p(2) fin by (simp add: fkey_finite)
  define n where "n = round_away (fval ?p)"
  have "n = \<lfloor>fval ?p + 1 / 2\<rfloor>" using v by (simp add: n_def round_away_def abs_le_iff)
  then have "3 * 2 ^ 30 - 1000 \<le> n \<and> n \<le> 3 * 2 ^ 30 + 1000"
    using v by (simp add: le_floor_iff floor_le_iff abs_le_iff)
  moreover then have "lroundf ?p = Some n" using fin by (cases ?p) (auto simp: Let_def n_def)
  ultimately show ?thesis by blast
qed

text \<open>
  C37: In the eight-bit format a large positive element gets the lowest code: \<open>672 * 2 ^ 30\<close>, at the largest scale
  224, rounds to about \<open>3 * 2 ^ 30\<close>; the conversion to \<open>int\<close> before the clamp wraps this to a negative number,
  so the element is stored as -127 and not 127.
\<close>

theorem rocmfpx_fp8_wraps:
  "fless f_zero (FFin False (672 * 2 ^ 30))
    \<and> map_option sint (rocmfpx_quantize_fp8_code (FFin False (672 * 2 ^ 30)) (inv_scale_of (rocmfpx_scale_lookup 126))) = Some (- 127)"
proof -
  let ?i = "inv_scale_of (rocmfpx_scale_lookup 126)"
  obtain n where n: "lroundf (fmul (FFin False (672 * 2 ^ 30)) ?i) = Some n" "3 * 2 ^ 30 - 1000 \<le> n" "n \<le> 3 * 2 ^ 30 + 1000"
    using wrap_product by blast
  have "(n + 2 ^ 31) mod 2 ^ 32 = (n - 2 ^ 31) mod 2 ^ 32"
    using mod_add_self2 [of "n - 2 ^ 31" "2 ^ 32"] by (simp add: algebra_simps)
  also have "\<dots> = n - 2 ^ 31" using n(2,3) by (intro mod_pos_pos_trivial) simp_all
  finally have "(n + 2 ^ 31) mod 2 ^ 32 = n - 2 ^ 31" .
  then have "clamp_int (- 127) 127 (long_to_int n) = - 127" using n(2,3) by (simp add: long_to_int_def clamp_int_def)
  moreover have "\<not> fle ?i f_zero" using inv_scale_props(1,3) [of 126] by (cases ?i) (simp_all add: fle_def f_zero_def)
  ultimately show ?thesis using n(1) by (simp add: rocmfpx_quantize_fp8_code_def lround_int_def f_zero_def)
qed

end
