(* ===== verification/RocmfpxLimits.thy ===== *)
theory RocmfpxLimits
  imports Rocmfpx
begin

section \<open>A block of four-bit integers the search does not keep\<close>

text \<open>
  \<open>rocmfpx.c\<close>, \<open>rocmfpx_choose_scale_i4_weighted_mse\<close>, run on one block: integer-valued floats on which the arithmetic
  of the model is exact, so that the weights, the error at the first scale and the clipping test of the next one have known
  values. The result is a scale with an error where one without exists.
\<close>

subsection \<open>A lossless scale of the four-bit integers that is missed\<close>

lemma isqrt_square: "isqrt (m * m) = m"
proof -
  let ?r = "isqrt (m * m)"
  have "\<not> ?r < m"
  proof
    assume "?r < m"
    then have "(?r + 1) * (?r + 1) \<le> m * m" by (intro mult_le_mono) simp_all
    then show False using isqrt_spec [of "m * m"] by simp
  qed
  moreover have "\<not> m < ?r"
  proof
    assume "m < ?r"
    then have "m * m < ?r * ?r" by (intro mult_strict_mono) simp_all
    then show False using isqrt_spec [of "m * m"] by simp
  qed
  ultimately show ?thesis by simp
qed

lemma int_float_FFin: "int_float x n \<Longrightarrow> 0 < n \<Longrightarrow> x = FFin False (of_int n)"
  by (cases x) (auto simp: int_float_def split: if_splits)

lemma sqrt_square:
  assumes "m \<le> 2 ^ 12"
  shows "sqrt_mag (of_nat (m * m)) = of_nat m"
proof -
  have "of_nat (m * m) * 2 ^ 300 = (of_nat ((m * 2 ^ 150) * (m * 2 ^ 150)) :: rat)"
    by (simp add: mult_ac flip: power_add power_mult)
  moreover have "nat \<lfloor>of_nat ((m * 2 ^ 150) * (m * 2 ^ 150)) :: rat\<rfloor> = (m * 2 ^ 150) * (m * 2 ^ 150)"
    unfolding floor_of_nat nat_int ..
  moreover have "isqrt ((m * 2 ^ 150) * (m * 2 ^ 150)) = m * 2 ^ 150" by (rule isqrt_square)
  ultimately have "sqrt_mag (of_nat (m * m)) = rnd (of_nat (m * 2 ^ 150) / 2 ^ 150)"
    by (simp only: sqrt_mag_def Let_def if_True simp_thms)
  also have "\<dots> = rnd (of_nat m)" by simp
  also have "\<dots> = of_nat m"
    using small_representable(1) [of "int m"] assms by (intro rnd_representable) simp
  finally show ?thesis .
qed

lemma int_float_sqrt:
  assumes "int_float x (int m * int m)" "0 < m" "m \<le> 2 ^ 12"
  shows "int_float (fsqrt x) (int m)"
proof -
  have pos: "0 < int m * int m" using assms(2) by simp
  have x: "x = FFin False (of_nat (m * m))" using int_float_FFin [OF assms(1) pos] by simp
  have "(of_nat (m * m) :: rat) \<noteq> 0" using assms(2) by simp
  then have "fsqrt x = FFin False (of_nat m)" unfolding x fsqrt.simps sqrt_square [OF assms(3)] by (simp only: if_False)
  then show ?thesis
    using small_representable [of "int m"] assms(2,3) by (simp add: int_float_def)
qed

lemma int_weighted_term:
  assumes "int_float x X" "int_float s S" "int_float w W" "dec x = Some (f_of_int k)" "0 \<le> W"
    and "\<bar>k\<bar> \<le> 2 ^ 24" "\<bar>k * S\<bar> \<le> 2 ^ 24" "\<bar>X - k * S\<bar> \<le> 2 ^ 24"
      "\<bar>W * (X - k * S)\<bar> \<le> 2 ^ 24" "\<bar>W * (X - k * S) * (X - k * S)\<bar> \<le> 2 ^ 24"
  shows "\<exists>t. block_term dec s (x, Some w) = Some t \<and> int_float t (W * (X - k * S) * (X - k * S))
    \<and> 0 \<le> W * (X - k * S) * (X - k * S)"
proof -
  have d: "int_float (fsub x (fmul (f_of_int k) s)) (X - k * S)"
    by (rule int_float_arith(3) [OF assms(1) int_float_arith(1) [OF int_float_of_int [OF assms(6)] assms(2)]]) (use assms in simp_all)
  have "0 \<le> W * (X - k * S) * (X - k * S)" using assms(5) by (simp add: mult.assoc)
  then show ?thesis
    using int_float_arith(1) [OF int_float_arith(1) [OF assms(3) d assms(9)] d assms(10)] assms(4)
    by (simp add: block_term_def Let_def)
qed

text \<open>A row of two blocks; the first has the elements -960 and 600, the second makes the mean square 257796.\<close>

definition i4_ints :: "int list" where
  "i4_ints = [- 960, 600] @ replicate 30 0 @ [3900, 85, 9, 6, 1, 1] @ replicate 26 0"

definition i4_row :: "float32 list" where
  "i4_row = map f_of_int i4_ints"

definition i4_qw :: "float32 list" where
  "i4_qw = f_one # f_one # replicate 30 f_zero"

lemma sum_squares:
  assumes "\<forall>n \<in> set ns. \<bar>n\<bar> \<le> 2 ^ 12" "int_float acc a" "0 \<le> a" "a + sum_list (map (\<lambda>n. n * n) ns) \<le> 2 ^ 24"
  shows "int_float (foldl (\<lambda>sum_x2 x. fadd sum_x2 (if is_finite x then fmul x x else f_zero)) acc (map f_of_int ns))
    (a + sum_list (map (\<lambda>n. n * n) ns))"
  using assms
proof (induction ns arbitrary: acc a)
  case Nil
  then show ?case by simp
next
  case (Cons n ns)
  have n: "int_float (f_of_int n) n" by (rule int_float_of_int) (use Cons.prems(1) in auto)
  have rest: "0 \<le> sum_list (map (\<lambda>n. n * n) ns)" by (induction ns) auto
  then have le: "n * n \<le> 2 ^ 24" "a + n * n \<le> 2 ^ 24" using Cons.prems(3,4) zero_le_square [of n] by simp_all
  have sq: "int_float (fmul (f_of_int n) (f_of_int n)) (n * n)" by (rule int_float_arith(1) [OF n n]) (use le(1) in simp)
  have "int_float (fadd acc (fmul (f_of_int n) (f_of_int n))) (a + n * n)"
    by (rule int_float_arith(2) [OF Cons.prems(2) sq]) (use le(2) Cons.prems(3) in simp)
  from Cons.IH [OF _ this] show ?case
    using Cons.prems n by (simp add: int_float_def add.assoc)
qed

lemma i4_sigma2: "int_float (rocmfpx_sigma2 i4_row) 257796"
proof -
  have l: "length i4_row = 64" by (simp add: i4_row_def i4_ints_def)
  have s: "sum_list (map (\<lambda>n. n * n) i4_ints) = 16498944"
    by (simp add: i4_ints_def map_replicate sum_list_replicate)
  have "int_float (foldl (\<lambda>sum_x2 x. fadd sum_x2 (if is_finite x then fmul x x else f_zero)) f_zero (map f_of_int i4_ints))
      (0 + sum_list (map (\<lambda>n. n * n) i4_ints))"
    by (rule sum_squares) (use s int_float_of_int [of 0] in \<open>auto simp: i4_ints_def f_zero_def f_of_int_key\<close>)
  then have sum: "foldl (\<lambda>sum_x2 x. fadd sum_x2 (if is_finite x then fmul x x else f_zero)) f_zero i4_row = FFin False 16498944"
    using int_float_FFin [of _ 16498944] s by (simp add: i4_row_def)
  have r: "representable 257796" "257796 < fmax" using small_representable [of 257796] by simp_all
  have "fdiv (FFin False 16498944) (f_of_int 64) = FFin False 257796"
    using fl_exact [OF r] by (simp add: f_of_int_key)
  then show ?thesis using r unfolding rocmfpx_sigma2_def l sum by (simp add: int_float_def)
qed

lemma i4_weight:
  assumes "int_float x X" "X * X + 257796 = int m * int m" "0 < m" "m \<le> 2 ^ 12" "\<bar>X\<bar> \<le> 2 ^ 12"
  shows "int_float (rocmfpx_weight (rocmfpx_sigma2 i4_row) (x, f_one)) (int m)"
proof -
  have "int m * int m \<le> 2 ^ 12 * 2 ^ 12" by (rule mult_mono) (use assms(4) in simp_all)
  then have b: "X * X + 257796 \<le> 2 ^ 24" using assms(2) by simp
  have sq: "int_float (fmul x x) (X * X)" by (rule int_float_arith(1) [OF assms(1,1)]) (use b zero_le_square [of X] in simp)
  have "int_float (fadd (rocmfpx_sigma2 i4_row) (fmul x x)) (257796 + X * X)"
    by (rule int_float_arith(2) [OF i4_sigma2 sq]) (use b zero_le_square [of X] in simp)
  then have "int_float (fsqrt (fadd (rocmfpx_sigma2 i4_row) (fmul x x))) (int m)"
    by (intro int_float_sqrt [OF _ assms(3,4)]) (use assms(2) in \<open>simp add: add.commute\<close>)
  then have "int_float (fmul f_one (fsqrt (fadd (rocmfpx_sigma2 i4_row) (fmul x x)))) (1 * int m)"
    by (intro int_float_arith(1) [OF f_one_int]) (use assms(4) in simp_all)
  then show ?thesis
    using assms(1) f_one_finite by (simp add: rocmfpx_weight_def int_float_def f_zero_def f_one_def)
qed

lemma i4_first_block: "take 32 i4_row = f_of_int (- 960) # f_of_int 600 # replicate 30 (f_of_int 0)"
  by (simp add: i4_row_def i4_ints_def map_replicate)

lemma i4_ints_floats:
  "int_float (f_of_int (- 960)) (- 960)" "int_float (f_of_int 600) 600" "int_float (f_of_int 0) 0"
  "fabs (f_of_int (- 960)) = FFin False 960" "fabs (f_of_int 600) = FFin False 600" "fabs (f_of_int 0) = FFin False 0"
  "f_of_int 600 = FFin False 600" "int_float (FFin False 960) 960"
  using int_float_of_int [of "- 960"] int_float_of_int [of 600] int_float_of_int [of 0] small_representable [of 960]
  by (simp_all add: f_of_int_key int_float_def)

lemma prepare_zeros:
  assumes "int_float M 960" "mw_max_abs st = M" "mw_all_finite st"
  shows "foldl (rocmfpx_prepare_elem s) st (replicate n (f_of_int 0, f_zero)) = st\<lparr>mw_dst := mw_dst st @ replicate n f_zero\<rparr>"
  using assms(2,3)
proof (induction n arbitrary: st)
  case 0
  then show ?case by simp
next
  case (Suc n)
  have M: "\<not> fless M (FFin False 0)" "\<not> feq (FFin False 0) M" using assms(1) by (cases M; simp add: int_float_def)+
  have "rocmfpx_prepare_elem s st (f_of_int 0, f_zero) = st\<lparr>mw_dst := mw_dst st @ [f_zero]\<rparr>"
    using M Suc.prems i4_ints_floats(3,6) by (simp add: rocmfpx_prepare_elem_def rocmfpx_weight_def Let_def int_float_def f_zero_def)
  then show ?case using Suc by simp
qed

lemma i4_prepare:
  "\<exists>w0 w1. int_float w0 1086 \<and> int_float w1 786
    \<and> rocmfpx_prepare_mse_weights (take 32 i4_row) i4_qw (rocmfpx_sigma2 i4_row)
      = \<lparr>mw_dst = w0 # w1 # replicate 30 f_zero, mw_max_abs = FFin False 960, mw_max_abs_weight = w0, mw_all_finite = True\<rparr>"
proof -
  let ?s = "rocmfpx_sigma2 i4_row"
  let ?w0 = "rocmfpx_weight ?s (f_of_int (- 960), f_one)" and ?w1 = "rocmfpx_weight ?s (f_of_int 600, f_one)"
  have w: "int_float ?w0 1086" "int_float ?w1 786"
    using i4_weight [OF i4_ints_floats(1), of 1086] i4_weight [OF i4_ints_floats(2), of 786] by simp_all
  have z: "zip (replicate 30 (f_of_int 0)) (replicate 30 f_zero) = replicate 30 (f_of_int 0, f_zero)" by (simp add: zip_replicate)
  have two: "foldl (rocmfpx_prepare_elem ?s) \<lparr>mw_dst = [], mw_max_abs = f_zero, mw_max_abs_weight = f_zero, mw_all_finite = True\<rparr>
      [(f_of_int (- 960), f_one), (f_of_int 600, f_one)]
    = \<lparr>mw_dst = [?w0, ?w1], mw_max_abs = FFin False 960, mw_max_abs_weight = ?w0, mw_all_finite = True\<rparr>"
    using i4_ints_floats(1,2,4,5) by (simp add: rocmfpx_prepare_elem_def Let_def int_float_def f_zero_def)
  have zs: "foldl (rocmfpx_prepare_elem ?s) \<lparr>mw_dst = [?w0, ?w1], mw_max_abs = FFin False 960, mw_max_abs_weight = ?w0, mw_all_finite = True\<rparr>
      (replicate 30 (f_of_int 0, f_zero))
    = \<lparr>mw_dst = ?w0 # ?w1 # replicate 30 f_zero, mw_max_abs = FFin False 960, mw_max_abs_weight = ?w0, mw_all_finite = True\<rparr>"
    by (subst prepare_zeros [OF i4_ints_floats(8)]) simp_all
  have l: "zip (take 32 i4_row) i4_qw = [(f_of_int (- 960), f_one), (f_of_int 600, f_one)] @ replicate 30 (f_of_int 0, f_zero)"
    unfolding i4_first_block i4_qw_def zip_Cons_Cons z by simp
  have "rocmfpx_prepare_mse_weights (take 32 i4_row) i4_qw ?s
      = \<lparr>mw_dst = ?w0 # ?w1 # replicate 30 f_zero, mw_max_abs = FFin False 960, mw_max_abs_weight = ?w0, mw_all_finite = True\<rparr>"
    unfolding rocmfpx_prepare_mse_weights_def l foldl_append two zs ..
  then show ?thesis using w by blast
qed

lemma i4_start: "rocmfpx_nearest_scale_ue4m3 (fdiv (FFin False 960) (flit 7)) = 121"
proof -
  define q :: rat where "q = rnd (960 / 7)"
  have q: "\<bar>q - 960 / 7\<bar> \<le> 1" using rnd_error [of "960 / 7"] unfolding q_def by simp
  have b: "137 - 1 \<le> q" "q \<le> 138 + 1" using q by (auto simp: abs_le_iff)
  have "flit 7 = FFin False 7" using small_representable [of 7] rnd_representable [of 7] by (simp add: fl_def fround_def Let_def flit_def)
  then have t: "fdiv (FFin False 960) (flit 7) = FFin False q" using b by (simp add: fl_def fround_def Let_def q_def fmax_def)
  have r: "is_f32 (FFin False q)" using b representable_rnd [of "960 / 7"] by (simp add: q_def fmax_def)
  let ?r = "nearer_scale ue4m3_table (FFin False q)"
  have n: "nearest_scale q ?r" using nearer_scale_nearest [OF r] b by simp
  have s: "scale_val 121 = 144" "scale_val 120 = 128" "scale_val 122 = 160" using int_scale(2) [of 121] int_scale(2) [of 120] int_scale(2) [of 122] by simp_all
  have d: "\<bar>q - scale_val ?r\<bar> \<le> \<bar>q - scale_val 121\<bar>" "?r \<le> 126"
    using bspec [OF n [unfolded nearest_scale_def, THEN conjunct2, THEN conjunct2], of 121] n by (auto, simp add: nearest_scale_def)
  have "\<not> ?r \<le> 120"
  proof
    assume "?r \<le> 120"
    then have "scale_val ?r \<le> 128" using scale_val_mono [of ?r 120] s by simp
    then show False using d(1) q b unfolding s by (simp add: abs_le_iff)
  qed
  moreover have "\<not> 122 \<le> ?r"
  proof
    assume "122 \<le> ?r"
    then have "160 \<le> scale_val ?r" using scale_val_mono [of 122 ?r] s d(2) by simp
    then show False using d(1) b unfolding s by (simp add: abs_le_iff)
  qed
  ultimately have "?r = 121" by simp
  then show ?thesis unfolding t using b by (simp add: rocmfpx_nearest_scale_ue4m3_def rocmfpx_tables f_zero_def)
qed

lemma clamp_nibble: "sint (word_of_int (clamp_int (- 8) 7 n) :: byte) = clamp_int (- 8) 7 n"
  using nibble_value [of "clamp_int (- 8) 7 n"] clamp_int_range [of "- 8" 7 n] by simp

lemma i4_value:
  assumes x: "int_float x X" "\<bar>X\<bar> \<le> 2 ^ 12" and e: "1 \<le> e" "e \<le> 126" "1 \<le> scale_val e"
    and n: "\<bar>of_int X / scale_val e - of_int n\<bar> \<le> 2 / 5" "\<bar>n\<bar> < 2 ^ 31"
  shows "\<exists>c. rocmi4_quantize_code x (inv_scale_of (rocmfpx_scale_lookup e)) = Some c \<and> sint c = clamp_int (- 8) 7 n"
proof -
  let ?i = "inv_scale_of (rocmfpx_scale_lookup e)"
  have "\<bar>of_int X\<bar> \<le> (of_int (2 ^ 12) :: rat)" using x(2) unfolding of_int_abs [symmetric] of_int_le_iff .
  then have "lround_int x ?i = Some n" using x n by (intro lround_quotient [OF _ _ _ e]) (simp_all add: int_float_def)
  moreover have "\<not> fle ?i f_zero" using inv_scale_props(1,3) [OF e(1,2)] by (cases ?i) (simp_all add: fle_def f_zero_def)
  ultimately show ?thesis using x(1) clamp_nibble by (simp add: rocmi4_quantize_code_def int_float_def f_zero_def)
qed

lemma i4_error:
  assumes "int_float w0 1086" "int_float w1 786"
  shows "\<exists>r. rocmfpx_i4_block_weighted_mse_for_scale (take 32 i4_row) (w0 # w1 # replicate 30 f_zero) 121 (FInf False) = Some r \<and> int_float r 2954880"
proof -
  let ?i = "inv_scale_of (rocmfpx_scale_lookup 121)" and ?s = "rocmfpx_scale_lookup 121"
  let ?t = "block_term (\<lambda>x. map_option (\<lambda>code. f_of_int (sint code)) (rocmi4_quantize_code x ?i)) ?s"
  let ?ok = "\<lambda>p n. \<exists>t. ?t p = Some t \<and> int_float t n \<and> 0 \<le> n"
  have s: "int_float ?s 144" "scale_val 121 = 144" using int_scale [of 121] by simp_all
  have v: "\<exists>c. rocmi4_quantize_code (f_of_int (- 960)) ?i = Some c \<and> sint c = - 7"
    "\<exists>c. rocmi4_quantize_code (f_of_int 600) ?i = Some c \<and> sint c = 4"
    "\<exists>c. rocmi4_quantize_code (f_of_int 0) ?i = Some c \<and> sint c = 0"
    using i4_value [OF i4_ints_floats(1), of 121 "- 7"] i4_value [OF i4_ints_floats(2), of 121 4] i4_value [OF i4_ints_floats(3), of 121 0] s(2)
    by (simp_all add: clamp_int_def)
  have z: "int_float f_zero 0" using int_float_of_int [of 0] by (simp add: f_zero_def f_of_int_key)
  have "?ok (f_of_int (- 960), Some w0) (1086 * (- 960 - - 7 * 144) * (- 960 - - 7 * 144))"
    by (rule int_weighted_term [OF i4_ints_floats(1) s(1) assms(1), of _ "- 7"]) (use v(1) in auto)
  moreover have "?ok (f_of_int 600, Some w1) (786 * (600 - 4 * 144) * (600 - 4 * 144))"
    by (rule int_weighted_term [OF i4_ints_floats(2) s(1) assms(2), of _ 4]) (use v(2) in auto)
  moreover have "?ok (f_of_int 0, Some f_zero) (0 * (0 - 0 * 144) * (0 - 0 * 144))"
    by (rule int_weighted_term [OF i4_ints_floats(3) s(1) z, of _ 0]) (use v(3) in auto)
  then have "list_all2 ?ok (replicate n (f_of_int 0, Some f_zero)) (replicate n 0)" for n
    by (simp add: list_all2_conv_all_nth)
  ultimately have l: "list_all2 ?ok ((f_of_int (- 960), Some w0) # (f_of_int 600, Some w1) # replicate 30 (f_of_int 0, Some f_zero))
      (2502144 # 452736 # replicate 30 0)"
    by simp
  have row: "skip_nonfinite (weighted (take 32 i4_row) (w0 # w1 # replicate 30 f_zero))
      = (f_of_int (- 960), Some w0) # (f_of_int 600, Some w1) # replicate 30 (f_of_int 0, Some f_zero)"
    using i4_ints_floats(1,2,3) unfolding i4_first_block weighted_def
    by (simp add: skip_nonfinite_def zip_replicate int_float_def)
  have "\<exists>r. mse_loop ?t (FInf False) f_zero ((f_of_int (- 960), Some w0) # (f_of_int 600, Some w1) # replicate 30 (f_of_int 0, Some f_zero)) = Some r
      \<and> int_float r (0 + sum_list (2502144 # 452736 # replicate 30 0))"
    by (rule int_mse_loop [OF l z]) (simp_all add: sum_list_replicate)
  then show ?thesis
    by (simp add: sum_list_replicate rocmfpx_i4_block_weighted_mse_for_scale_def Let_def block_mse_def row del: mse_loop.simps)
qed

lemma i4_choice:
  "\<exists>e. rocmfpx_choose_scale_i4_weighted_mse (take 32 i4_row) i4_qw (rocmfpx_sigma2 i4_row) = Some e \<and> 121 \<le> e \<and> e \<le> 126"
proof -
  let ?xs = "take 32 i4_row"
  have l: "length ?xs = 32" by (simp add: i4_row_def i4_ints_def)
  obtain w0 w1 where w: "int_float w0 1086" "int_float w1 786"
    and prep: "rocmfpx_prepare_mse_weights ?xs i4_qw (rocmfpx_sigma2 i4_row)
      = \<lparr>mw_dst = w0 # w1 # replicate 30 f_zero, mw_max_abs = FFin False 960, mw_max_abs_weight = w0, mw_all_finite = True\<rparr>"
    using i4_prepare by blast
  let ?err = "rocmfpx_i4_block_weighted_mse_for_scale ?xs (w0 # w1 # replicate 30 f_zero)" and ?clip = "rocmfpx_clip 7 (FFin False 960) (Some w0)"
  have choice: "rocmfpx_choose_scale_i4_weighted_mse ?xs i4_qw (rocmfpx_sigma2 i4_row) = search_scale ?err ?clip 121 (121, FInf False)"
    using i4_start prep l by (simp add: rocmfpx_choose_scale_i4_weighted_mse_def rocmfpx_search_def check_def f_zero_def)
  have "px_small ?xs" using i4_ints_floats(1,2,3) by (auto simp: px_small_def i4_first_block int_float_def)
  from i4_pick_total [OF this, of "rocmfpx_sigma2 i4_row" "Some i4_qw"] l
  obtain e where e: "rocmfpx_choose_scale_i4_weighted_mse ?xs i4_qw (rocmfpx_sigma2 i4_row) = Some e" by (auto simp: i4_pick_def)
  obtain r where r: "?err 121 (FInf False) = Some r" "int_float r 2954880" using i4_error [OF w] by blast
  have s: "int_float (rocmfpx_scale_lookup 120) 128" using int_scale(1) [of 120] by simp
  have delta: "int_float (fsub (FFin False 960) (fmul (f_of_int 7) (rocmfpx_scale_lookup 120))) 64" (is "int_float ?d 64")
    using int_float_arith(3) [OF i4_ints_floats(8) int_float_arith(1) [OF int_float_of_int [of 7] s]] by simp
  have "int_float (fmul (fmul w0 ?d) ?d) 4448256"
    using int_float_arith(1) [OF int_float_arith(1) [OF w(1) delta] delta] by simp
  then have clip: "?clip 120 r" using int_float_less [OF r(2)] int_float_less [OF i4_ints_floats(3) delta]
    by (simp add: rocmfpx_clip_def Let_def f_zero_def f_of_int_key)
  have "\<not> ?clip 121 (FInf False)"
    by (cases "err_term (Some w0) (fsub (FFin False 960) (fmul (f_of_int 7) (rocmfpx_scale_lookup 121)))") (simp_all add: rocmfpx_clip_def Let_def)
  moreover have "fless r (FInf False)" using r(2) by (cases r) (simp_all add: int_float_def)
  ultimately have "121 \<le> e" using search_scale_above [of ?err ?clip 121 e r] e choice r(1) clip by simp
  then show ?thesis using e choose_bytes(8) [OF e] by blast
qed

text \<open>Every scale from byte 121 on is a multiple of 16, which 600 is not.\<close>

lemma i4_wrong:
  assumes "121 \<le> e" "e \<le> 126"
  shows "px_values quant sint e (take 32 i4_row) \<noteq> take 32 i4_row"
proof
  define k where "k = sint (the (quant (f_of_int 600) (inv_scale_of (rocmfpx_scale_lookup e))))"
  define S where "S = int (16 * (e - 112))"
  assume "px_values quant sint e (take 32 i4_row) = take 32 i4_row"
  then have v: "fmul (f_of_int k) (rocmfpx_scale_lookup e) = f_of_int 600" by (simp add: px_values_def Let_def i4_first_block k_def)
  have k: "\<bar>k\<bar> \<le> 2 ^ 10"
    using sint_ge [of "the (quant (f_of_int 600) (inv_scale_of (rocmfpx_scale_lookup e)))"]
      sint_lt [of "the (quant (f_of_int 600) (inv_scale_of (rocmfpx_scale_lookup e)))"] by (simp add: k_def)
  have S: "\<bar>S\<bar> \<le> 2 ^ 10" using assms by (simp add: S_def)
  have "\<bar>k\<bar> * \<bar>S\<bar> \<le> 2 ^ 10 * 2 ^ 10" by (rule mult_mono [OF k S]) simp_all
  then have "int_float (f_of_int 600) (k * S)"
    using int_float_arith(1) [OF int_float_of_int int_scale(1) [of e], of k] assms k v by (simp add: abs_mult S_def)
  then have "of_int (k * S) = (of_int 600 :: rat)" using i4_ints_floats(2) unfolding int_float_def by simp
  then have "k * S = 600" by (simp only: of_int_eq_iff)
  moreover have "k * S = 16 * (k * int (e - 112))" by (simp add: S_def)
  ultimately show False by presburger
qed

lemma i4_exact: "px_values rocmi4_quantize_code sint 119 (take 32 i4_row) = take 32 i4_row"
proof -
  let ?i = "inv_scale_of (rocmfpx_scale_lookup 119)"
  have "\<exists>c. rocmi4_quantize_code (f_of_int (- 960)) ?i = Some c \<and> sint c = - 8"
    "\<exists>c. rocmi4_quantize_code (f_of_int 600) ?i = Some c \<and> sint c = 5"
    "\<exists>c. rocmi4_quantize_code (f_of_int 0) ?i = Some c \<and> sint c = 0"
    using i4_value [OF i4_ints_floats(1), of 119 "- 8"] i4_value [OF i4_ints_floats(2), of 119 5] i4_value [OF i4_ints_floats(3), of 119 0] scale_119(1)
    by (simp_all add: clamp_int_def)
  moreover have "fmul (f_of_int (- 8)) (FFin False 120) = f_of_int (- 960)" "fmul (f_of_int 5) (FFin False 120) = f_of_int 600"
    "fmul (f_of_int 0) (FFin False 120) = f_of_int 0"
    using fl_exact [of 960 True] fl_exact [of 600 False] fl_exact [of 0 False] small_representable [of 960] small_representable [of 600]
    by (simp_all add: f_of_int_key)
  ultimately show ?thesis unfolding scale_119(3) by (auto simp: px_values_def i4_first_block Let_def scale_119(3))
qed

text \<open>
  C36: With an importance matrix the search of the four-bit integers can miss a scale that keeps a block exactly. In
  the first block of \<open>i4_row\<close> the byte 119 (scale 120, codes -8 and 5) reads -960, 600 and the zeros back exactly, error 0.
  The test that ends the lower direction reckons with the largest code 7, at which -960 would clip, although the codes
  go down to -8: it closes the lower direction at byte 120 and the byte chosen reads the block back with an error. So the comment
  of the code, that once this test holds no smaller scale can win, is not so.
\<close>

theorem rocmfpx_i4_misses_lossless:
  "\<exists>e. rocmfpx_choose_scale_i4_weighted_mse (take 32 i4_row) i4_qw (rocmfpx_sigma2 i4_row) = Some e
    \<and> px_values rocmi4_quantize_code sint e (take 32 i4_row) \<noteq> take 32 i4_row
    \<and> px_values rocmi4_quantize_code sint 119 (take 32 i4_row) = take 32 i4_row"
proof -
  obtain e where e: "rocmfpx_choose_scale_i4_weighted_mse (take 32 i4_row) i4_qw (rocmfpx_sigma2 i4_row) = Some e" "121 \<le> e" "e \<le> 126"
    using i4_choice by blast
  then show ?thesis using i4_wrong [OF e(2,3), of rocmi4_quantize_code] i4_exact by blast
qed

end
