(* ===== verification/Spec2Isabelle.thy ===== *)
theory Spec2Isabelle
  imports Prelude KvCells Batch BatchSplit Memory KvCache KvSlots KvMask KvIswa F32 ScaleSearch Rocmfp4 RocmfpPack Rocmfpx
    RocmfpxLimits
begin

text \<open>
  A verification development for the core of ROCmFPX, a fork of llama.cpp: the way of an input
  batch through the memory of a context, and the quantizers of the ROCmFP formats.

  \<^bold>\<open>The program.\<close> A caller builds a batch of tokens or embeddings (\<open>src/llama-batch.h\<close>). On
  decoding, an allocator (\<open>llama_batch_allocr\<close>, \<open>src/llama-batch.cpp\<close>) checks it against the
  memory of the context, which it asks for the positions each sequence holds, and is then drained
  in pieces, ubatches, that one evaluation of the graph can take. The memory of a transformer is
  the KV cache (\<open>src/llama-kv-cache.cpp\<close>): one or several streams of cells, whose metadata
  (\<open>src/llama-kv-cells.h\<close>) say which position and which sequences each cell belongs to. For each
  ubatch the cache searches for free cells, tries the placement of all ubatches and undoes it,
  then applies them one at a time, and computes the index tensors and the attention mask from the
  metadata. The user changes the same metadata through \<open>llama_memory_seq_rm\<close>, \<open>_cp\<close>, \<open>_keep\<close>,
  \<open>_add\<close>, \<open>_div\<close> and \<open>llama_memory_clear\<close>. Models with a sliding window have two such
  caches (\<open>src/llama-kv-cache-iswa.cpp\<close>). The weights are stored in the ROCmFP formats, blocks of
  small codes with one or two byte scales (\<open>ggml/rocmfp4\<close>, \<open>ggml/rocmfpx\<close>); quantizing a block
  is a search for the scale of least error.

  \<^bold>\<open>Theories.\<close> Names of definitions are those of the source where Isabelle allows it, prefixed
  by the class (\<open>cells_seq_rm\<close> is \<open>llama_kv_cells::seq_rm\<close>, \<open>kv_seq_rm\<close> is
  \<open>llama_kv_cache::seq_rm\<close>).

  \<^item> \<open>Prelude\<close>: the failure monad and its loops, signed 32-bit arithmetic, access to vectors,
    lists as matrices, with the rewrite rules the other theories share.
  \<^item> \<open>KvCells\<close>: the class \<open>llama_kv_cells\<close> as a record of its vectors, with every operation. An
    abstraction to a list of cells (position, shift, sequences, extension) carries the proofs:
    each operation on the record is one on the list.
  \<^item> \<open>Batch\<close>: \<open>llama_batch_ext\<close> with its setters, the conversion of an old \<open>llama_batch\<close>, and
    \<open>llama_batch_allocr::init\<close> with its checks, proved to accept exactly the valid batches.
  \<^item> \<open>BatchSplit\<close>: \<open>split_simple\<close>, \<open>split_equal\<close>, \<open>split_seq\<close> and \<open>ubatch_add\<close>. The locale
    \<open>ubatch_splitter\<close> states what one call of a split promises and derives that draining ends
    and hands out every entry once; each of the three splits is an interpretation.
  \<^item> \<open>Memory\<close>: \<open>src/llama-memory.h\<close>: the status of a memory context and \<open>is_masked_swa\<close>. Two
    locales are its contract: \<open>seq_memory\<close> (sequences as sets of positions) and
    \<open>command_memory\<close>, whose lemma \<open>refine\<close> says that a list of commands does what an abstract
    machine on sets of positions does.
  \<^item> \<open>KvCache\<close>: the constructor of \<open>llama_kv_cache\<close> and its operations on sequences, the
    invariant \<open>kv_wf\<close>, interpretations of both locales, and for each operation what it does to
    the cells.
  \<^item> \<open>KvSlots\<close>: \<open>find_slot\<close>, \<open>apply_ubatch\<close>, \<open>prepare\<close>, \<open>update\<close> and the contexts
    (\<open>llama_kv_cache_context\<close>). The search is compared with a declarative choice of the first
    usable cells from the head, placement with the positions it promises, and a trial with an
    identity on the cells.
  \<^item> \<open>KvMask\<close>: the tensors \<open>set_input_k_idxs\<close>, \<open>set_input_v_idxs\<close>, \<open>set_input_k_shift\<close>,
    \<open>set_input_kq_mask\<close> and \<open>get_prev_tokens\<close>; the mask with its shortcut is compared with the
    plain rule per cell.
  \<^item> \<open>KvIswa\<close>: the pair of caches of \<open>llama_kv_cache_iswa\<close>, its batch preparation and contexts,
    again with both locales interpreted, and reachability under commands and placed ubatches.
  \<^item> \<open>F32\<close>: the \<open>float\<close> of C as IEEE 754 binary32 over the rationals, with rounding to nearest
    even, infinities and NaN.
  \<^item> \<open>ScaleSearch\<close>: the scale tables, the binary search for the nearest scale and the search for
    the best one. The locale \<open>scale_search\<close> states what the search needs of an error function and
    a clipping test, \<open>block_codec\<close> what quantizing a row by blocks needs of a format.
  \<^item> \<open>Rocmfp4\<close>: \<open>ggml/rocmfp4/rocmfp4.c\<close>: quantization with and without weights, both block
    layouts, dequantization, validation, scalar and AVX2 dot products.
  \<^item> \<open>RocmfpPack\<close>, \<open>Rocmfpx\<close>, \<open>RocmfpxLimits\<close>: \<open>ggml/rocmfpx/rocmfpx.c\<close>: packing of 2 to 8
    bit codes, the seven formats built on it, and a block on which the pruned search of one of them
    misses a scale without error.

  \<^bold>\<open>Errors, bounds and loops.\<close> \<open>None\<close> is a failed \<open>GGML_ASSERT\<close>, an exception or undefined
  behaviour (an index out of range, a signed overflow, a division by zero); an error that the
  source returns as a value is a value of the model. Positions and ids are \<open>int\<close> with the overflow of
  \<open>int32_t\<close> checked where the code adds; sizes are \<open>nat\<close>, with \<open>mod 2 ^ 32\<close> where an unsigned
  computation can wrap; packed codes, scale bytes and bit patterns are words. No definition takes fuel: loops recurse
  over lists of indices, the loops of the splits and the binary search have a measure, the search for
  a scale is bounded by the 126 scales, and the loops whose end is not obvious (\<open>slot_loop\<close> of
  \<open>find_slot\<close>, draining a batch) are \<open>partial_function (option)\<close>, with theorems that they return.

  \<^bold>\<open>Where the model and the machine differ.\<close> Some inputs on which C++ has undefined behaviour, or
  wraps, have a value in the model; no theorem rests on them. Embedding and state rows in \<open>ubatch_add\<close> are
  cut with \<open>take\<close> and \<open>drop\<close>, so a row outside of the vector would be short (\<open>init\<close> builds the vector
  with all rows);
  \<open>kv_get_prev_tokens\<close> does not wrap \<open>n_tokens * n\<close> to 32 bits; pairing a block with an importance matrix
  that is too short ends with the matrix (the theorems ask for equal lengths); the assertion
  inside \<open>ggml_row_size\<close> is left to the caller. A cache that shares the cells of another
  one is represented by \<open>kv_other\<close>, without aliasing: the operations that change cells return at once
  there, as in the code, and the theorems are about caches that own their cells.

  \<^bold>\<open>Not modelled.\<close> K and V live in ggml tensors and are changed by compute graphs
  (\<open>src/llama-graph.cpp\<close>, \<open>ggml/src\<close>): the theories model metadata and the inputs computed
  from them, not the evaluation of a graph. The kernels of the ROCmFP formats on GPUs
  (\<open>ggml/src/ggml-cuda\<close>, \<open>ggml-vulkan\<close>, \<open>extensions/rocmfpx-vulkan\<close>) repeat the decoding of the
  C code in shader languages. The memories of recurrent and hybrid models and the sparse-attention caches (\<open>llama-memory-recurrent.cpp\<close>,
  \<open>llama-memory-hybrid*.cpp\<close>, \<open>llama-kv-cache-dsa*.cpp\<close>, \<open>-dsv4\<close>, \<open>-msa\<close>) are further
  implementations of the interface of \<open>Memory\<close>. Saving and restoring the state of a cache serialises
  these tensors together with the metadata. Loading of models, the
  vocabulary, sampling, grammars, chat templates, the server and the tools consume the parts
  modelled here through their public functions, and mostly parse, print or schedule. Half
  precision conversion in the dot products is a parameter.
\<close>

end
